(* ===== verification/Prelude.thy ===== *)
theory Prelude
  imports Main "HOL-Library.Word" "HOL-Library.Monad_Syntax"
begin

text \<open>
  Shared vocabulary of the development: the names of the C integer types, the kernel error
  codes of \<open>libs/error.h\<close>, the convention for functions that may not return, and the generic
  lemmas the component theories share.

  A C function that contains an \<open>assert\<close> (a kernel panic) or a loop over pointers is modelled
  with result type \<open>'a option\<close>: \<open>None\<close> means that the call does not return to its caller
  (the kernel panicked, or the loop runs forever) and \<open>Some r\<close> is a normal return.
  The loops are \<^theory_text>\<open>partial_function (option)\<close>, so no bound is chosen for them; that they
  return is proved where it holds.
\<close>

type_synonym u8 = "8 word"
type_synonym u32 = "32 word"
type_synonym u64 = "64 word"

named_theorems list_simps \<open>rewriting of list.h operations on well-formed lists\<close>

subsection \<open>Error codes (libs/error.h)\<close>

datatype err =
    E_UNSPECIFIED | E_BAD_PROC | E_INVAL | E_NO_MEM | E_NO_FREE_PROC | E_FAULT
  | E_SWAP_FAULT | E_INVAL_ELF | E_KILLED | E_PANIC | E_TIMEOUT | E_TOO_BIG
  | E_NO_DEV | E_NA_DEV | E_BUSY | E_NOENT | E_ISDIR | E_NOTDIR | E_XDEV
  | E_UNIMP | E_SEEK | E_MAX_OPEN | E_EXISTS | E_NOTEMPTY

subsection \<open>Assertions\<close>

definition assert_that :: "bool \<Rightarrow> unit option" where
  "assert_that P = (if P then Some () else None)"

lemma assert_that_simps [simp]:
  "assert_that True = Some ()"
  "assert_that False = None"
  by (simp_all add: assert_that_def)

lemma assert_that_eq_Some [simp]: "assert_that P = Some u \<longleftrightarrow> P"
  by (simp add: assert_that_def)

lemma assert_that_eq_None [simp]: "assert_that P = None \<longleftrightarrow> \<not> P"
  by (simp add: assert_that_def)

lemma bind_assert: "(assert_that P \<bind> f) = (if P then f () else None)"
  by (simp add: assert_that_def)

lemma bind_assert_Some [simp]:
  "(assert_that P \<bind> f) = Some r \<longleftrightarrow> P \<and> f () = Some r"
  by (simp add: assert_that_def)

subsection \<open>Machine integers\<close>

lemma unat_u32_less: "unat (w :: u32) < 4294967296"
  by (rule order_less_le_trans [OF unsigned_less]) simp

lemma unat_u64_less: "unat (w :: u64) < 18446744073709551616"
  by (rule order_less_le_trans [OF unsigned_less]) simp

lemma unat_of_nat_u32: "n < 4294967296 \<Longrightarrow> unat (word_of_nat n :: u32) = n"
  by (simp add: unat_of_nat take_bit_nat_eq_self)

lemma unat_of_nat_u64: "n < 18446744073709551616 \<Longrightarrow> unat (word_of_nat n :: u64) = n"
  by (simp add: unat_of_nat take_bit_nat_eq_self)

lemma unat_minus_nat_u32: "n \<le> unat (w :: u32) \<Longrightarrow> unat (w - word_of_nat n) = unat w - n"
proof -
  assume n: "n \<le> unat w"
  then have u: "unat (word_of_nat n :: u32) = n"
    using unat_u32_less [of w] by (intro unat_of_nat_u32) linarith
  then have "(word_of_nat n :: u32) \<le> w" using n by (simp add: word_le_nat_alt)
  with u show ?thesis by (simp add: unat_sub)
qed

lemma unat_add_nat_u32: "unat (w :: u32) + n < 4294967296 \<Longrightarrow> unat (w + word_of_nat n) = unat w + n"
  by (simp add: unat_word_ariths unat_of_nat take_bit_eq_mod)

lemma unat_add_u32: "unat (v :: u32) + unat w < 4294967296 \<Longrightarrow> unat (v + w) = unat v + unat w"
  by (simp add: unat_word_ariths)

subsection \<open>Hash values (libs/hash.c)\<close>

definition GOLDEN_RATIO_PRIME_32 :: u32 where "GOLDEN_RATIO_PRIME_32 = 0x9e370001"

definition hash32 :: "u32 \<Rightarrow> nat \<Rightarrow> u32" where
  "hash32 val bits = drop_bit (32 - bits) (val * GOLDEN_RATIO_PRIME_32)"

subsection \<open>Intervals\<close>

lemma ivl_split:
  "(a :: nat) \<le> b \<Longrightarrow> {p..<p + b} = {p..<p + a} \<union> {p + a..<p + b} \<and> {p..<p + a} \<inter> {p + a..<p + b} = {}"
  by auto

end
