(* ===== verification/LinkedList.thy ===== *)
theory LinkedList
  imports Prelude
begin

text \<open>
  The circular doubly linked lists of \<open>libs/list.h\<close>, at pointer level: a heap holds the
  \<open>prev\<close> and \<open>next\<close> field of every \<open>list_entry\<close>, and each operation is the sequence of
  field assignments of its C body. The abstraction \<open>dlist h hd xs\<close> says that the list with
  head node \<open>hd\<close> links exactly the nodes \<open>xs\<close>, in this order, in both directions; the lemmas
  show what each operation does to that sequence.
\<close>

record 'a lheap =
  lprev :: "'a \<Rightarrow> 'a"
  lnext :: "'a \<Rightarrow> 'a"

definition set_next :: "'a \<Rightarrow> 'a \<Rightarrow> 'a lheap \<Rightarrow> 'a lheap" where
  "set_next a b h = h\<lparr>lnext := (lnext h)(a := b)\<rparr>"

definition set_prev :: "'a \<Rightarrow> 'a \<Rightarrow> 'a lheap \<Rightarrow> 'a lheap" where
  "set_prev a b h = h\<lparr>lprev := (lprev h)(a := b)\<rparr>"

definition list_init :: "'a lheap \<Rightarrow> 'a \<Rightarrow> 'a lheap" where
  "list_init h elm = set_prev elm elm (set_next elm elm h)"

definition list_add_between :: "'a lheap \<Rightarrow> 'a \<Rightarrow> 'a \<Rightarrow> 'a \<Rightarrow> 'a lheap" where
  "list_add_between h elm prev nxt =
     (let h = set_prev nxt elm h;
          h = set_next prev elm h;
          h = set_next elm nxt h;
          h = set_prev elm prev h
      in h)"

definition list_del_between :: "'a lheap \<Rightarrow> 'a \<Rightarrow> 'a \<Rightarrow> 'a lheap" where
  "list_del_between h prev nxt = set_prev nxt prev (set_next prev nxt h)"

definition list_next :: "'a lheap \<Rightarrow> 'a \<Rightarrow> 'a" where
  "list_next h e = lnext h e"

definition list_prev :: "'a lheap \<Rightarrow> 'a \<Rightarrow> 'a" where
  "list_prev h e = lprev h e"

definition list_add_before :: "'a lheap \<Rightarrow> 'a \<Rightarrow> 'a \<Rightarrow> 'a lheap" where
  "list_add_before h listelm elm = list_add_between h elm (lprev h listelm) listelm"

definition list_add_after :: "'a lheap \<Rightarrow> 'a \<Rightarrow> 'a \<Rightarrow> 'a lheap" where
  "list_add_after h listelm elm = list_add_between h elm listelm (lnext h listelm)"

definition list_add :: "'a lheap \<Rightarrow> 'a \<Rightarrow> 'a \<Rightarrow> 'a lheap" where
  "list_add h listelm elm = list_add_after h listelm elm"

definition list_del :: "'a lheap \<Rightarrow> 'a \<Rightarrow> 'a lheap" where
  "list_del h listelm = list_del_between h (lprev h listelm) (lnext h listelm)"

definition list_del_init :: "'a lheap \<Rightarrow> 'a \<Rightarrow> 'a lheap" where
  "list_del_init h listelm = list_init (list_del h listelm) listelm"

definition list_empty :: "'a lheap \<Rightarrow> 'a \<Rightarrow> bool" where
  "list_empty h l \<longleftrightarrow> lnext h l = l"

lemmas list_op_defs =
  list_init_def list_add_between_def list_del_between_def list_next_def list_prev_def
  list_add_before_def list_add_after_def list_add_def list_del_def list_del_init_def
  list_empty_def set_next_def set_prev_def Let_def

subsection \<open>Abstraction to a sequence of nodes\<close>

text \<open>\<open>chain h a xs b\<close>: from \<open>a\<close> the nodes \<open>xs\<close> lead to \<open>b\<close>, forwards and backwards.\<close>

fun chain :: "'a lheap \<Rightarrow> 'a \<Rightarrow> 'a list \<Rightarrow> 'a \<Rightarrow> bool" where
  "chain h a [] b \<longleftrightarrow> lnext h a = b \<and> lprev h b = a"
| "chain h a (x # xs) b \<longleftrightarrow> lnext h a = x \<and> lprev h x = a \<and> chain h x xs b"

definition dlist :: "'a lheap \<Rightarrow> 'a \<Rightarrow> 'a list \<Rightarrow> bool" where
  "dlist h hdr xs \<longleftrightarrow> distinct (hdr # xs) \<and> chain h hdr xs hdr"

lemma chain_append [simp]:
  "chain h a (xs @ y # ys) b \<longleftrightarrow> chain h a xs y \<and> chain h y ys b"
  by (induction xs arbitrary: a) auto

lemma chain_cong:
  assumes "\<And>x. x = a \<or> x \<in> set xs \<Longrightarrow> lnext h' x = lnext h x"
    and "\<And>x. x = b \<or> x \<in> set xs \<Longrightarrow> lprev h' x = lprev h x"
  shows "chain h' a xs b = chain h a xs b"
  using assms by (induction xs arbitrary: a) auto

lemma chain_first: "chain h a xs b \<Longrightarrow> lnext h a = hd (xs @ [b])"
  by (cases xs) auto

lemma chain_last: "chain h a xs b \<Longrightarrow> lprev h b = last (a # xs)"
  by (induction xs arbitrary: a) auto

text \<open>Splitting a chain at its first and last link.\<close>

lemma chain_snoc [simp]: "chain h a (xs @ [y]) b \<longleftrightarrow> chain h a xs y \<and> lnext h y = b \<and> lprev h b = y"
  by (induction xs arbitrary: a) auto

text \<open>Nodes outside a list do not matter to it.\<close>

lemma dlist_cong:
  assumes "\<And>x. x \<in> set (hdr # xs) \<Longrightarrow> lnext h' x = lnext h x \<and> lprev h' x = lprev h x"
  shows "dlist h' hdr xs = dlist h hdr xs"
proof -
  have "chain h' hdr xs hdr = chain h hdr xs hdr"
    by (rule chain_cong) (use assms in auto)
  then show ?thesis by (simp add: dlist_def)
qed

lemma dlist_distinct: "dlist h hdr xs \<Longrightarrow> distinct xs \<and> hdr \<notin> set xs"
  by (simp add: dlist_def)

lemma dlist_unique: "dlist h hdr xs \<Longrightarrow> dlist h hdr ys \<Longrightarrow> xs = ys"
proof -
  have "chain h a xs b \<Longrightarrow> b \<notin> set xs \<Longrightarrow> chain h a ys b \<Longrightarrow> b \<notin> set ys \<Longrightarrow> xs = ys" for a b
    by (induction xs arbitrary: a ys) (case_tac ys; auto)+
  then show "dlist h hdr xs \<Longrightarrow> dlist h hdr ys \<Longrightarrow> xs = ys"
    by (auto simp: dlist_def)
qed

subsection \<open>What the operations do\<close>

lemma lnext_add_between [simp]:
  "lnext (list_add_between h e p n) = (lnext h)(p := e, e := n)"
  by (simp add: list_op_defs)

lemma lprev_add_between [simp]:
  "lprev (list_add_between h e p n) = (lprev h)(n := e, e := p)"
  by (simp add: list_op_defs)

lemma lnext_list_del [simp]: "lnext (list_del h e) = (lnext h)(lprev h e := lnext h e)"
  by (simp add: list_op_defs)

lemma lprev_list_del [simp]: "lprev (list_del h e) = (lprev h)(lnext h e := lprev h e)"
  by (simp add: list_op_defs)

lemma list_init_links [simp]:
  "lnext (list_init h e) = (lnext h)(e := e)" "lprev (list_init h e) = (lprev h)(e := e)"
  by (simp_all add: list_op_defs)

lemma dlist_init: "dlist (list_init h hdr) hdr []"
  by (simp add: dlist_def)

lemma dlist_nil_iff [simp]: "dlist h hdr [] \<longleftrightarrow> lnext h hdr = hdr \<and> lprev h hdr = hdr"
  by (simp add: dlist_def)

lemma list_empty_dlist: "dlist h hdr xs \<Longrightarrow> list_empty h hdr \<longleftrightarrow> xs = []"
  by (cases xs) (auto simp: dlist_def list_empty_def)

lemma list_next_head: "dlist h hdr xs \<Longrightarrow> list_next h hdr = hd (xs @ [hdr])"
  by (auto simp: dlist_def list_next_def dest: chain_first)

lemma list_prev_head: "dlist h hdr xs \<Longrightarrow> list_prev h hdr = last (hdr # xs)"
  by (auto simp: dlist_def list_prev_def dest: chain_last)

lemma list_next_node: "dlist h hdr (xs @ y # ys) \<Longrightarrow> list_next h y = hd (ys @ [hdr])"
  by (auto simp: dlist_def list_next_def dest: chain_first)

lemma list_prev_node: "dlist h hdr (xs @ y # ys) \<Longrightarrow> list_prev h y = last (hdr # xs)"
  by (auto simp: dlist_def list_prev_def dest: chain_last)

text \<open>Inserting a fresh node between two neighbours, and removing a node.\<close>

lemma chain_insert:
  assumes "chain h a (xs @ ys) b" "p = last (a # xs)" "n = hd (ys @ [b])"
    and "distinct (xs @ ys)" "a \<notin> set (xs @ ys)" "b \<notin> set (xs @ ys)"
    and "e \<noteq> a" "e \<noteq> b" "e \<notin> set (xs @ ys)"
  shows "chain (list_add_between h e p n) a (xs @ e # ys) b"
  using assms
proof (induction xs arbitrary: a)
  case Nil
  show ?case
  proof (cases ys)
    case Nil
    with Nil.prems show ?thesis by simp
  next
    case (Cons y zs)
    have "chain (list_add_between h e p n) y zs b = chain h y zs b"
      by (rule chain_cong) (use Cons Nil.prems in auto)
    with Cons Nil.prems show ?thesis by auto
  qed
next
  case (Cons x xs)
  have "chain (list_add_between h e p n) x (xs @ e # ys) b"
    using Cons.prems by (intro Cons.IH) auto
  moreover have "a \<noteq> p" "x \<noteq> n"
    using Cons.prems by (auto split: if_splits simp: hd_append split: list.splits)
  ultimately show ?case using Cons.prems by auto
qed

lemma dlist_insert:
  assumes "dlist h hdr (xs @ ys)" "e \<notin> set (hdr # xs @ ys)"
  shows "dlist (list_add_between h e (last (hdr # xs)) (hd (ys @ [hdr]))) hdr (xs @ e # ys)"
  using assms chain_insert [of h hdr xs ys hdr] by (auto simp: dlist_def)

lemma dlist_add_before [list_simps]:
  assumes "dlist h hdr (xs @ y # ys)" "e \<notin> set (hdr # xs @ y # ys)"
  shows "dlist (list_add_before h y e) hdr (xs @ e # y # ys)"
  using dlist_insert [OF assms] list_prev_node [OF assms(1)]
  by (simp add: list_add_before_def list_prev_def)

lemma dlist_add_tail [list_simps]:
  assumes "dlist h hdr xs" "e \<notin> set (hdr # xs)"
  shows "dlist (list_add_before h hdr e) hdr (xs @ [e])"
  using dlist_insert [of h hdr xs "[]" e] assms list_prev_head [OF assms(1)]
  by (simp add: list_add_before_def list_prev_def)

lemma dlist_add_after [list_simps]:
  assumes "dlist h hdr (xs @ y # ys)" "e \<notin> set (hdr # xs @ y # ys)"
  shows "dlist (list_add h y e) hdr (xs @ y # e # ys)"
  using dlist_insert [of h hdr "xs @ [y]" ys e] assms list_next_node [OF assms(1)]
  by (simp add: list_add_def list_add_after_def list_next_def)

lemma dlist_add_head [list_simps]:
  assumes "dlist h hdr xs" "e \<notin> set (hdr # xs)"
  shows "dlist (list_add h hdr e) hdr (e # xs)"
  using dlist_insert [of h hdr "[]" xs e] assms list_next_head [OF assms(1)]
  by (simp add: list_add_def list_add_after_def list_next_def)

text \<open>\<open>list_add\<close> at the node that precedes a given position, the head included.\<close>

lemma dlist_add_at:
  assumes "dlist h hdr (xs @ ys)" "e \<notin> set (hdr # xs @ ys)"
  shows "dlist (list_add h (last (hdr # xs)) e) hdr (xs @ e # ys)"
proof (cases xs rule: rev_cases)
  case Nil
  with dlist_add_head [of h hdr ys e] assms show ?thesis by simp
next
  case (snoc us y)
  with dlist_add_after [of h hdr us y ys e] assms show ?thesis by simp
qed

lemma chain_remove:
  assumes "chain h a (xs @ y # ys) b" "distinct (xs @ y # ys)"
    and "a \<notin> set (xs @ y # ys)" "b \<notin> set (xs @ y # ys)"
  shows "chain (list_del h y) a (xs @ ys) b"
  using assms
proof (induction xs arbitrary: a)
  case Nil
  show ?case
  proof (cases ys)
    case Nil
    with Nil.prems show ?thesis by simp
  next
    case (Cons z zs)
    have "chain (list_del h y) z zs b = chain h z zs b"
      by (rule chain_cong) (use Cons Nil.prems in auto)
    with Cons Nil.prems show ?thesis by auto
  qed
next
  case (Cons x xs)
  have "chain (list_del h y) x (xs @ ys) b"
    using Cons.prems by (intro Cons.IH) auto
  moreover have "lprev h y \<noteq> a" "lnext h y \<noteq> x"
    using Cons.prems chain_last [of h x xs y] chain_first [of h y ys b]
    by (cases ys; auto split: if_splits)+
  ultimately show ?case using Cons.prems by auto
qed

lemma dlist_del [list_simps]:
  "dlist h hdr (xs @ y # ys) \<Longrightarrow> dlist (list_del h y) hdr (xs @ ys)"
  using chain_remove [of h hdr xs y ys hdr] by (auto simp: dlist_def)

lemma dlist_del_init [list_simps]:
  assumes "dlist h hdr (xs @ y # ys)"
  shows "dlist (list_del_init h y) hdr (xs @ ys)" "list_empty (list_del_init h y) y"
proof -
  have "dlist (list_init (list_del h y) y) hdr (xs @ ys) = dlist (list_del h y) hdr (xs @ ys)"
    by (rule dlist_cong) (use dlist_distinct [OF assms] assms in \<open>auto simp: dlist_def\<close>)
  with dlist_del [OF assms] show "dlist (list_del_init h y) hdr (xs @ ys)"
    by (simp add: list_del_init_def)
  show "list_empty (list_del_init h y) y"
    by (simp add: list_del_init_def list_empty_def)
qed

text \<open>Several lists in one heap: an operation on one leaves the others alone.\<close>

lemma dlist_other_add:
  assumes "dlist h hdr xs" "dlist h hdr2 ys" "set (hdr # xs) \<inter> set (hdr2 # ys) = {}" "e \<notin> set (hdr2 # ys)"
  shows "dlist (list_add h hdr e) hdr2 ys"
proof -
  have "lnext h hdr \<in> set (hdr # xs)"
    using list_next_head [OF assms(1)] by (cases xs) (auto simp: list_next_def)
  then have f: "z \<noteq> hdr \<and> z \<noteq> lnext h hdr \<and> z \<noteq> e" if "z \<in> set (hdr2 # ys)" for z
    using assms(3,4) that by (metis disjoint_iff list.set_intros(1))
  have "dlist (list_add h hdr e) hdr2 ys = dlist h hdr2 ys"
  proof (rule dlist_cong)
    fix z assume "z \<in> set (hdr2 # ys)"
    from f [OF this] show "lnext (list_add h hdr e) z = lnext h z \<and> lprev (list_add h hdr e) z = lprev h z"
      by (simp add: list_add_def list_add_after_def)
  qed
  then show ?thesis using assms(2) by simp
qed

lemma dlist_other_del:
  assumes "dlist h hdr (us @ y # vs)" "dlist h hdr2 ys" "set (hdr # us @ y # vs) \<inter> set (hdr2 # ys) = {}"
  shows "dlist (list_del h y) hdr2 ys"
proof -
  have "lnext h y \<in> set (hdr # us @ y # vs)"
    using list_next_node [OF assms(1)] by (cases vs) (auto simp: list_next_def)
  moreover have "lprev h y \<in> set (hdr # us @ y # vs)"
    using list_prev_node [OF assms(1)] by (cases us rule: rev_cases) (auto simp: list_prev_def)
  ultimately have f: "z \<noteq> lnext h y \<and> z \<noteq> lprev h y" if "z \<in> set (hdr2 # ys)" for z
    using assms(3) that by (metis disjoint_iff)
  have "dlist (list_del h y) hdr2 ys = dlist h hdr2 ys"
  proof (rule dlist_cong)
    fix z assume "z \<in> set (hdr2 # ys)"
    from f [OF this] show "lnext (list_del h y) z = lnext h z \<and> lprev (list_del h y) z = lprev h z"
      by simp
  qed
  then show ?thesis using assms(2) by simp
qed

lemma dlist_other_add_before:
  assumes "dlist h hdr xs" "dlist h hdr2 ys" "set (hdr # xs) \<inter> set (hdr2 # ys) = {}" "e \<notin> set (hdr2 # ys)"
  shows "dlist (list_add_before h hdr e) hdr2 ys"
proof -
  have "lprev h hdr \<in> set (hdr # xs)"
    using list_prev_head [OF assms(1)] by (cases xs rule: rev_cases) (auto simp: list_prev_def)
  then have f: "z \<noteq> hdr \<and> z \<noteq> lprev h hdr \<and> z \<noteq> e" if "z \<in> set (hdr2 # ys)" for z
    using assms(3,4) that by (metis disjoint_iff list.set_intros(1))
  have "dlist (list_add_before h hdr e) hdr2 ys = dlist h hdr2 ys"
  proof (rule dlist_cong)
    fix z assume "z \<in> set (hdr2 # ys)"
    from f [OF this] show "lnext (list_add_before h hdr e) z = lnext h z \<and> lprev (list_add_before h hdr e) z = lprev h z"
      by (simp add: list_add_before_def)
  qed
  then show ?thesis using assms(2) by simp
qed

lemma dlist_other_init: "e \<notin> set (hdr # xs) \<Longrightarrow> dlist (list_init h e) hdr xs = dlist h hdr xs"
  by (rule dlist_cong) auto

lemma dlist_other_del_init:
  assumes "dlist h hdr (us @ y # vs)" "dlist h hdr2 ys" "set (hdr # us @ y # vs) \<inter> set (hdr2 # ys) = {}"
  shows "dlist (list_del_init h y) hdr2 ys"
proof -
  have "y \<notin> set (hdr2 # ys)" using assms(3) by auto
  then show ?thesis using dlist_other_del [OF assms] by (simp add: list_del_init_def dlist_other_init)
qed

text \<open>A node of a list is never its own successor: \<open>list_empty\<close> tells linked nodes from free ones.\<close>

lemma list_empty_node:
  assumes "dlist h hdr xs" "y \<in> set xs"
  shows "\<not> list_empty h y"
proof -
  obtain us vs where "xs = us @ y # vs" using split_list [OF assms(2)] by blast
  with assms(1) list_next_node [of h hdr us y vs] show ?thesis
    by (cases vs) (auto simp: list_empty_def list_next_def dlist_def)
qed

text \<open>
  \<open>list_add_before\<close> and \<open>list_add\<close> (= \<open>list_add_after\<close>) of an unlinked element put it directly before
  and directly after the given node of the circular list, and \<open>list_del_init\<close> of it gives back the
  list it was added to, with the element linked to itself again.
\<close>

lemma list_add_del_correct:
  assumes "dlist h hdr (xs @ y # ys)" "e \<notin> set (hdr # xs @ y # ys)"
  shows "dlist (list_add_before h y e) hdr (xs @ e # y # ys)
    \<and> dlist (list_add h y e) hdr (xs @ y # e # ys)
    \<and> dlist (list_del_init (list_add_before h y e) e) hdr (xs @ y # ys)
    \<and> dlist (list_del_init (list_add h y e) e) hdr (xs @ y # ys)
    \<and> list_empty (list_del_init (list_add h y e) e) e"
proof -
  note a = dlist_add_before [OF assms] and b = dlist_add_after [OF assms]
  have "dlist (list_del_init (list_add_before h y e) e) hdr (xs @ y # ys)"
    using dlist_del_init(1) [OF a] by simp
  moreover have "dlist (list_del_init (list_add h y e) e) hdr (xs @ y # ys)"
    "list_empty (list_del_init (list_add h y e) e) e"
    using dlist_del_init [of "list_add h y e" hdr "xs @ [y]" e ys] b by simp_all
  ultimately show ?thesis using a b by blast
qed

end
