(* ===== verification/SkewHeap.thy ===== *)
theory SkewHeap
  imports Prelude "HOL-Library.Multiset"
begin

text \<open>
  The intrusive skew heap of \<open>libs/skew_heap.h\<close> that holds the run pool of the stride
  scheduler, at pointer level: each entry has a \<open>parent\<close>, \<open>left\<close> and \<open>right\<close> field, and the
  comparison function is an argument. The recursive \<open>skew_heap_merge\<close> is a
  \<^theory_text>\<open>partial_function (option)\<close>; the refinement lemmas show that on well-formed heaps it
  returns and computes the merge of two trees, that \<open>skew_heap_insert\<close> adds one entry and that
  \<open>skew_heap_remove\<close> removes exactly the given entry through its parent pointer.
\<close>

record 'a sheap =
  sparent :: "'a \<Rightarrow> 'a option"
  sleft :: "'a \<Rightarrow> 'a option"
  sright :: "'a \<Rightarrow> 'a option"

definition set_parent :: "'a \<Rightarrow> 'a option \<Rightarrow> 'a sheap \<Rightarrow> 'a sheap" where
  "set_parent a p h = h\<lparr>sparent := (sparent h)(a := p)\<rparr>"

definition set_left :: "'a \<Rightarrow> 'a option \<Rightarrow> 'a sheap \<Rightarrow> 'a sheap" where
  "set_left a p h = h\<lparr>sleft := (sleft h)(a := p)\<rparr>"

definition set_right :: "'a \<Rightarrow> 'a option \<Rightarrow> 'a sheap \<Rightarrow> 'a sheap" where
  "set_right a p h = h\<lparr>sright := (sright h)(a := p)\<rparr>"

lemmas set_field_defs = set_parent_def set_left_def set_right_def

definition skew_heap_init :: "'a sheap \<Rightarrow> 'a \<Rightarrow> 'a sheap" where
  "skew_heap_init h a = set_parent a None (set_right a None (set_left a None h))"

partial_function (option) skew_heap_merge ::
  "('a \<Rightarrow> 'a \<Rightarrow> int) \<Rightarrow> 'a sheap \<Rightarrow> 'a option \<Rightarrow> 'a option \<Rightarrow> ('a sheap \<times> 'a option) option" where
  "skew_heap_merge cmp h a b =
     (case a of None \<Rightarrow> Some (h, b) | Some pa \<Rightarrow>
      (case b of None \<Rightarrow> Some (h, a) | Some pb \<Rightarrow>
         if cmp pa pb = - 1 then
           do {
             (h', l) \<leftarrow> skew_heap_merge cmp h (sright h pa) b;
             let h' = set_right pa (sleft h pa) (set_left pa l h');
             Some (case l of None \<Rightarrow> h' | Some pl \<Rightarrow> set_parent pl (Some pa) h', a)
           }
         else
           do {
             (h', l) \<leftarrow> skew_heap_merge cmp h a (sright h pb);
             let h' = set_right pb (sleft h pb) (set_left pb l h');
             Some (case l of None \<Rightarrow> h' | Some pl \<Rightarrow> set_parent pl (Some pb) h', b)
           }))"

definition skew_heap_insert ::
  "('a \<Rightarrow> 'a \<Rightarrow> int) \<Rightarrow> 'a sheap \<Rightarrow> 'a option \<Rightarrow> 'a \<Rightarrow> ('a sheap \<times> 'a option) option" where
  "skew_heap_insert cmp h a b = skew_heap_merge cmp (skew_heap_init h b) a (Some b)"

definition skew_heap_remove ::
  "('a \<Rightarrow> 'a \<Rightarrow> int) \<Rightarrow> 'a sheap \<Rightarrow> 'a option \<Rightarrow> 'a \<Rightarrow> ('a sheap \<times> 'a option) option" where
  "skew_heap_remove cmp h a b =
     do {
       let p = sparent h b;
       (h, rep) \<leftarrow> skew_heap_merge cmp h (sleft h b) (sright h b);
       let h = (case rep of None \<Rightarrow> h | Some r \<Rightarrow> set_parent r p h);
       case p of
         Some pp \<Rightarrow>
           Some (if sleft h pp = Some b then set_left pp rep h else set_right pp rep h, a)
       | None \<Rightarrow> Some (h, rep)
     }"

subsection \<open>Trees and the functional merge\<close>

datatype 'a stree = SLeaf | SNode "'a stree" 'a "'a stree"

fun root :: "'a stree \<Rightarrow> 'a option" where
  "root SLeaf = None"
| "root (SNode l x r) = Some x"

fun nodes :: "'a stree \<Rightarrow> 'a list" where
  "nodes SLeaf = []"
| "nodes (SNode l x r) = nodes l @ x # nodes r"

function smerge :: "('a \<Rightarrow> 'a \<Rightarrow> int) \<Rightarrow> 'a stree \<Rightarrow> 'a stree \<Rightarrow> 'a stree" where
  "smerge cmp SLeaf t = t"
| "smerge cmp (SNode l x r) SLeaf = SNode l x r"
| "smerge cmp (SNode l x r) (SNode l' y r') =
     (if cmp x y = - 1 then SNode (smerge cmp r (SNode l' y r')) x l
      else SNode (smerge cmp (SNode l x r) r') y l')"
  by pat_completeness auto
termination by (relation "measure (\<lambda>(c, s, t). size s + size t)") auto

fun sremove :: "('a \<Rightarrow> 'a \<Rightarrow> int) \<Rightarrow> 'a \<Rightarrow> 'a stree \<Rightarrow> 'a stree" where
  "sremove cmp b SLeaf = SLeaf"
| "sremove cmp b (SNode l x r) =
     (if x = b then smerge cmp l r else SNode (sremove cmp b l) x (sremove cmp b r))"

lemma mset_smerge: "mset (nodes (smerge cmp s t)) = mset (nodes s @ nodes t)"
  by (induction cmp s t rule: smerge.induct) auto

lemma set_smerge [simp]: "set (nodes (smerge cmp s t)) = set (nodes s) \<union> set (nodes t)"
  using mset_smerge [of cmp s t, THEN mset_eq_setD] by simp

lemma distinct_smerge [simp]:
  "distinct (nodes (smerge cmp s t)) \<longleftrightarrow> distinct (nodes s @ nodes t)"
  by (rule mset_eq_imp_distinct_iff [OF mset_smerge])

lemma sremove_id [simp]: "b \<notin> set (nodes t) \<Longrightarrow> sremove cmp b t = t"
  by (induction t) auto

lemma mset_sremove:
  "distinct (nodes t) \<Longrightarrow> mset (nodes (sremove cmp b t)) = mset (remove1 b (nodes t))"
proof (induction t)
  case (SNode l x r)
  show ?case
  proof (cases "b \<in> set (nodes l)")
    case True
    then have "b \<notin> set (nodes r)" "b \<noteq> x" using SNode.prems by auto
    with True SNode show ?thesis by (simp add: remove1_append)
  next
    case False
    with SNode show ?thesis by (auto simp: mset_smerge remove1_append)
  qed
qed simp

lemma set_sremove [simp]:
  "distinct (nodes t) \<Longrightarrow> set (nodes (sremove cmp b t)) = set (nodes t) - {b}"
  using mset_sremove [of t cmp b, THEN mset_eq_setD] by simp

lemma distinct_sremove [simp]:
  "distinct (nodes t) \<Longrightarrow> distinct (nodes (sremove cmp b t))"
  using mset_sremove [of t cmp b, THEN mset_eq_imp_distinct_iff] by simp

lemma root_smerge_cases: "root (smerge cmp s t) = root s \<or> root (smerge cmp s t) = root t"
  by (induction cmp s t rule: smerge.induct) auto

lemma root_in_nodes: "root t = Some x \<Longrightarrow> x \<in> set (nodes t)"
  by (cases t) auto

text \<open>The comparison only matters on the entries of the two trees.\<close>

lemma smerge_cong:
  "(\<And>x y. x \<in> set (nodes s) \<Longrightarrow> y \<in> set (nodes t) \<Longrightarrow> (cmp x y = - 1) = (cmp' x y = - 1))
   \<Longrightarrow> smerge cmp s t = smerge cmp' s t"
  by (induction cmp s t rule: smerge.induct) auto

subsection \<open>Heap order\<close>

text \<open>
  What a priority order owes the heap: on a carrier set, \<open>lt\<close> is a strict weak order.
  The scheduler interprets it with the distance of a stride to the least one.
\<close>

locale strict_weak =
  fixes lt :: "'a \<Rightarrow> 'a \<Rightarrow> bool"
  assumes irrefl: "\<not> lt x x"
    and trans: "lt x y \<Longrightarrow> lt y z \<Longrightarrow> lt x z"
    and negtrans: "\<not> lt x y \<Longrightarrow> \<not> lt y z \<Longrightarrow> \<not> lt x z"
begin

fun ordered :: "'a stree \<Rightarrow> bool" where
  "ordered SLeaf = True"
| "ordered (SNode l x r) =
     ((\<forall>y \<in> set (nodes l) \<union> set (nodes r). \<not> lt y x) \<and> ordered l \<and> ordered r)"

lemma ordered_smerge:
  assumes "ordered s" "ordered t"
    and "\<And>x y. x \<in> set (nodes s) \<Longrightarrow> y \<in> set (nodes t) \<Longrightarrow> (cmp x y = - 1) = lt x y"
  shows "ordered (smerge cmp s t)"
  using assms
proof (induction cmp s t rule: smerge.induct)
  case (3 cmp l x r l' y r')
  note c = "3.prems"(3)
  show ?case
  proof (cases "cmp x y = - 1")
    case True
    then have "lt x y" using c by auto
    then have "\<not> lt z x" if "z = y \<or> \<not> lt z y" for z
      using that trans irrefl by blast
    moreover have "ordered (smerge cmp r (SNode l' y r'))"
      using 3 True by (intro "3.IH"(1)) auto
    ultimately show ?thesis using True "3.prems"(1,2) by auto
  next
    case False
    then have "\<not> lt x y" using c by auto
    then have "\<not> lt z y" if "z = x \<or> \<not> lt z x" for z
      using that negtrans by blast
    moreover have "ordered (smerge cmp (SNode l x r) r')"
      using 3 False by (intro "3.IH"(2)) auto
    ultimately show ?thesis using False "3.prems"(1,2) by auto
  qed
qed auto

lemma ordered_sremove:
  assumes "ordered t" "\<And>x y. x \<in> set (nodes t) \<Longrightarrow> y \<in> set (nodes t) \<Longrightarrow> (cmp x y = - 1) = lt x y"
    and "distinct (nodes t)"
  shows "ordered (sremove cmp b t)"
  using assms
proof (induction t)
  case (SNode l x r)
  have "ordered (smerge cmp l r)" using SNode.prems by (intro ordered_smerge) auto
  with SNode show ?case by auto
qed simp

lemma ordered_root_least: "ordered t \<Longrightarrow> root t = Some x \<Longrightarrow> y \<in> set (nodes t) \<Longrightarrow> \<not> lt y x"
  using irrefl by (cases t) auto

end

subsection \<open>The pointer structure\<close>

text \<open>\<open>pshape h t\<close>: below the root, the three fields of every entry of \<open>t\<close> are those of the tree.\<close>

fun pshape :: "'a sheap \<Rightarrow> 'a stree \<Rightarrow> bool" where
  "pshape h SLeaf = True"
| "pshape h (SNode l x r) =
     (sleft h x = root l \<and> sright h x = root r \<and> pshape h l \<and> pshape h r
      \<and> (\<forall>y. root l = Some y \<longrightarrow> sparent h y = Some x)
      \<and> (\<forall>y. root r = Some y \<longrightarrow> sparent h y = Some x))"

definition pheap :: "'a sheap \<Rightarrow> 'a option \<Rightarrow> 'a stree \<Rightarrow> bool" where
  "pheap h p t \<longleftrightarrow> p = root t \<and> pshape h t \<and> (\<forall>x. root t = Some x \<longrightarrow> sparent h x = None)
     \<and> distinct (nodes t)"

definition same_entry :: "'a sheap \<Rightarrow> 'a sheap \<Rightarrow> 'a \<Rightarrow> bool" where
  "same_entry h h' z \<longleftrightarrow> sleft h' z = sleft h z \<and> sright h' z = sright h z \<and> sparent h' z = sparent h z"

lemma pshape_cong:
  assumes "\<And>z. z \<in> set (nodes t) \<Longrightarrow> sleft h' z = sleft h z \<and> sright h' z = sright h z"
    and "\<And>z. z \<in> set (nodes t) \<Longrightarrow> root t \<noteq> Some z \<Longrightarrow> sparent h' z = sparent h z"
    and "distinct (nodes t)"
  shows "pshape h' t = pshape h t"
  using assms
proof (induction t)
  case (SNode l x r)
  have p: "sparent h' z = sparent h z" if "z \<in> set (nodes l) \<union> set (nodes r)" for z
    using SNode.prems(2) [of z] that SNode.prems(3) by auto
  have "pshape h' l = pshape h l"
    using SNode.prems p by (intro SNode.IH) auto
  moreover have "pshape h' r = pshape h r"
    using SNode.prems p by (intro SNode.IH) auto
  moreover have "sparent h' y = sparent h y" if "root l = Some y \<or> root r = Some y" for y
    using p [of y] that root_in_nodes [of l y] root_in_nodes [of r y] by auto
  ultimately show ?case using SNode.prems(1) [of x] by auto
qed simp

text \<open>The assignments of one unfolding of the merge, on an entry \<open>x\<close> outside the merged part.\<close>

lemma merge_relink:
  assumes m: "pshape h1 m" and d: "distinct (nodes m @ x # nodes l)"
    and l: "pshape h1 l" "\<And>y. root l = Some y \<Longrightarrow> sparent h1 y = Some x"
  defines "h2 \<equiv> set_right x (root l) (set_left x (root m) h1)"
  defines "h3 \<equiv> (case root m of None \<Rightarrow> h2 | Some pl \<Rightarrow> set_parent pl (Some x) h2)"
  shows "pshape h3 (SNode m x l)"
    and "\<And>z. z \<noteq> x \<Longrightarrow> z \<notin> set (nodes m) \<Longrightarrow> same_entry h1 h3 z"
    and "sparent h3 x = sparent h1 x"
proof -
  have f: "sleft h3 = (sleft h1)(x := root m)" "sright h3 = (sright h1)(x := root l)"
    "sparent h3 = (case root m of None \<Rightarrow> sparent h1 | Some pl \<Rightarrow> (sparent h1)(pl := Some x))"
    by (auto simp: h3_def h2_def set_field_defs split: option.splits)
  have "pshape h3 m = pshape h1 m"
    by (rule pshape_cong) (use d in \<open>auto simp: f split: option.splits\<close>)
  moreover have "pshape h3 l = pshape h1 l"
    by (rule pshape_cong) (use d root_in_nodes [of m] in \<open>auto simp: f split: option.splits\<close>)
  moreover have "sparent h3 y = Some x" if "root l = Some y" for y
    using l(2) [OF that] d root_in_nodes [OF that] root_in_nodes [of m]
    by (auto simp: f split: option.splits)
  ultimately show "pshape h3 (SNode m x l)"
    using m l by (auto simp: f split: option.splits)
  show "same_entry h1 h3 z" if "z \<noteq> x" "z \<notin> set (nodes m)" for z
    using that root_in_nodes [of m] by (auto simp: f same_entry_def split: option.splits)
  show "sparent h3 x = sparent h1 x"
    using d root_in_nodes [of m] by (auto simp: f split: option.splits)
qed

lemma same_entry_trans: "same_entry h1 h2 z \<Longrightarrow> same_entry h2 h3 z \<Longrightarrow> same_entry h1 h3 z"
  by (simp add: same_entry_def)

text \<open>
  The result of one unfolding, for either order of the arguments: \<open>x\<close> is the entry kept at the
  root, \<open>l\<close> its untouched subtree and \<open>m\<close> the merged rest, whose entries are \<open>M\<close>.
\<close>

lemma merge_unfold:
  assumes h1: "pshape h1 m" "\<And>z. z \<notin> set (nodes m) \<Longrightarrow> same_entry h h1 z"
    and d: "distinct (nodes m @ x # nodes l)"
    and x: "sleft h x = root l" "pshape h l" "\<And>y. root l = Some y \<Longrightarrow> sparent h y = Some x"
  defines "h2 \<equiv> set_right x (sleft h x) (set_left x (root m) h1)"
  defines "h3 \<equiv> (case root m of None \<Rightarrow> h2 | Some pl \<Rightarrow> set_parent pl (Some x) h2)"
  shows "pshape h3 (SNode m x l)"
    and "\<And>z. z \<notin> set (nodes (SNode m x l)) \<Longrightarrow> same_entry h h3 z"
    and "sparent h3 x = sparent h x"
proof -
  have hx: "same_entry h h1 x" and hl: "\<And>z. z \<in> set (nodes l) \<Longrightarrow> same_entry h h1 z"
    using h1(2) d by auto
  have l: "pshape h1 l"
    using pshape_cong [of l h1 h] hl x(2) d by (auto simp: same_entry_def)
  have pl: "sparent h1 y = Some x" if "root l = Some y" for y
    using hl [OF root_in_nodes [OF that]] x(3) [OF that] by (simp add: same_entry_def)
  have e: "h2 = set_right x (root l) (set_left x (root m) h1)"
    using x(1) by (simp add: h2_def)
  note relink = merge_relink [OF h1(1) d l pl, folded e, folded h3_def]
  show "pshape h3 (SNode m x l)" by (rule relink(1))
  show "sparent h3 x = sparent h x" using relink(3) hx by (simp add: same_entry_def)
  show "same_entry h h3 z" if "z \<notin> set (nodes (SNode m x l))" for z
    using that h1(2) [of z] relink(2) [of z] same_entry_trans [of h h1 z h3] by simp
qed

lemma skew_heap_merge_spec:
  assumes "pshape h s" "pshape h t" "distinct (nodes s @ nodes t)"
  shows "\<exists>h'. skew_heap_merge cmp h (root s) (root t) = Some (h', root (smerge cmp s t))
    \<and> pshape h' (smerge cmp s t)
    \<and> (\<forall>z. z \<notin> set (nodes s @ nodes t) \<longrightarrow> same_entry h h' z)
    \<and> (\<forall>z. root (smerge cmp s t) = Some z \<longrightarrow> sparent h' z = sparent h z)"
  using assms
proof (induction cmp s t arbitrary: h rule: smerge.induct)
  case (1 cmp t)
  then show ?case by (simp add: skew_heap_merge.simps same_entry_def split: option.split)
next
  case (2 cmp l x r)
  then show ?case by (simp add: skew_heap_merge.simps same_entry_def)
next
  case (3 cmp l x r l' y r')
  let ?s = "SNode l x r" let ?t = "SNode l' y r'"
  show ?case
  proof (cases "cmp x y = - 1")
    case True
    let ?m = "smerge cmp r ?t"
    from "3.IH"(1) [OF True, of h] "3.prems" obtain h1 where
      h1: "skew_heap_merge cmp h (root r) (root ?t) = Some (h1, root ?m)" "pshape h1 ?m"
        "\<And>z. z \<notin> set (nodes r @ nodes ?t) \<Longrightarrow> same_entry h h1 z" by auto
    have *: "\<And>z. z \<notin> set (nodes ?m) \<Longrightarrow> same_entry h h1 z" using h1(3) by simp
    have d: "distinct (nodes ?m @ x # nodes l)" using "3.prems"(3) by auto
    have l: "sleft h x = root l" "sright h x = root r" "pshape h l"
      "\<And>w. root l = Some w \<Longrightarrow> sparent h w = Some x"
      using "3.prems"(1) by auto
    note u = merge_unfold [OF h1(2) * d l(1,3,4)]
    show ?thesis using h1(1) u True l(2)
      by (simp add: skew_heap_merge.simps [of cmp h "Some x"] Let_def)
  next
    case False
    let ?m = "smerge cmp ?s r'"
    have "distinct (nodes ?s @ nodes r')" "pshape h r'" using "3.prems" by auto
    from "3.IH"(2) [OF False "3.prems"(1) this(2,1)] obtain h1 where
      h1: "skew_heap_merge cmp h (root ?s) (root r') = Some (h1, root ?m)" "pshape h1 ?m"
        "\<And>z. z \<notin> set (nodes ?s @ nodes r') \<Longrightarrow> same_entry h h1 z" by blast
    have *: "\<And>z. z \<notin> set (nodes ?m) \<Longrightarrow> same_entry h h1 z" using h1(3) by simp
    have d: "distinct (nodes ?m @ y # nodes l')" using "3.prems"(3) by auto
    have l: "sleft h y = root l'" "sright h y = root r'" "pshape h l'"
      "\<And>w. root l' = Some w \<Longrightarrow> sparent h w = Some y"
      using "3.prems"(2) by auto
    note u = merge_unfold [OF h1(2) * d l(1,3,4)]
    show ?thesis using h1(1) u False l(2)
      by (simp add: skew_heap_merge.simps [of cmp h "Some x"] Let_def)
  qed
qed

text \<open>Insertion adds the entry, through the functional merge with a singleton.\<close>

lemma skew_heap_insert_refines:
  assumes "pheap h a t" "b \<notin> set (nodes t)"
  shows "\<exists>h'. let t' = smerge cmp t (SNode SLeaf b SLeaf) in
    skew_heap_insert cmp h a b = Some (h', root t') \<and> pheap h' (root t') t'
    \<and> set (nodes t') = insert b (set (nodes t))
    \<and> (\<forall>z. z \<notin> insert b (set (nodes t)) \<longrightarrow> same_entry h h' z)"
proof -
  let ?h = "skew_heap_init h b" let ?b = "SNode SLeaf b SLeaf"
  have f: "same_entry h ?h z" if "z \<noteq> b" for z
    using that by (simp add: skew_heap_init_def set_field_defs same_entry_def)
  have sb: "pshape ?h ?b" "sparent ?h b = None"
    by (simp_all add: skew_heap_init_def set_field_defs)
  have ft: "same_entry h ?h z" if "z \<in> set (nodes t)" for z
    by (rule f) (use that assms(2) in auto)
  have "pshape ?h t = pshape h t"
    by (rule pshape_cong) (use ft assms in \<open>auto simp: same_entry_def pheap_def\<close>)
  moreover have "sparent ?h z = None" if "root t = Some z" for z
    using that ft [OF root_in_nodes [OF that]] assms by (auto simp: same_entry_def pheap_def)
  ultimately obtain h' where h': "skew_heap_merge cmp ?h (root t) (root ?b) = Some (h', root (smerge cmp t ?b))"
    "pshape h' (smerge cmp t ?b)" "\<forall>z. z \<notin> set (nodes t @ nodes ?b) \<longrightarrow> same_entry ?h h' z"
    "\<forall>z. root (smerge cmp t ?b) = Some z \<longrightarrow> sparent h' z = None"
    using skew_heap_merge_spec [of ?h t ?b cmp] assms sb root_smerge_cases [of cmp t ?b]
    by (auto simp: pheap_def)
  have "same_entry h h' z" if "z \<notin> insert b (set (nodes t))" for z
    using that f [of z] h'(3) by (auto intro: same_entry_trans)
  with h' assms show ?thesis
    by (auto simp: skew_heap_insert_def pheap_def Let_def)
qed

subsection \<open>Removal\<close>

text \<open>A node whose left or right child pointer has been redirected to the root of \<open>m\<close>.\<close>

lemma redirect_child:
  assumes "pshape h1 m" "pshape h1 k" "distinct (nodes m @ x # nodes k)"
    and "\<And>y. root k = Some y \<Longrightarrow> sparent h1 y = Some x"
  defines "h2 \<equiv> (case root m of None \<Rightarrow> h1 | Some r \<Rightarrow> set_parent r (Some x) h1)"
  shows "sright h1 x = root k \<Longrightarrow> pshape (set_left x (root m) h2) (SNode m x k)"
    and "sleft h1 x = root k \<Longrightarrow> pshape (set_right x (root m) h2) (SNode k x m)"
proof -
  have f: "sleft h2 = sleft h1" "sright h2 = sright h1"
    "sparent h2 = (case root m of None \<Rightarrow> sparent h1 | Some pl \<Rightarrow> (sparent h1)(pl := Some x))"
    by (auto simp: h2_def set_field_defs split: option.splits)
  have pk: "sparent h2 y = Some x" if "root k = Some y" for y
    using assms(4) [OF that] by (auto simp: f split: option.splits)
  have shape: "pshape (set_left x (root m) h2) m \<and> pshape (set_left x (root m) h2) k
    \<and> pshape (set_right x (root m) h2) m \<and> pshape (set_right x (root m) h2) k"
    using assms(1-3) root_in_nodes [of m]
    by (intro conjI; subst pshape_cong [where h = h1])
       (auto simp: f set_left_def set_right_def split: option.splits)
  show "pshape (set_left x (root m) h2) (SNode m x k)" if "sright h1 x = root k"
    using that shape pk by (auto simp: f set_left_def split: option.splits)
  show "pshape (set_right x (root m) h2) (SNode k x m)" if "sleft h1 x = root k"
    using that shape pk by (auto simp: f set_right_def split: option.splits)
qed

text \<open>The subtrees of the removed entry are merged, whatever its context.\<close>

lemma remove_merge:
  assumes "pshape h (SNode bl b br)" "distinct (nodes (SNode bl b br))"
  shows "\<exists>h1. skew_heap_merge cmp h (sleft h b) (sright h b) = Some (h1, root (smerge cmp bl br))
    \<and> pshape h1 (smerge cmp bl br)
    \<and> (\<forall>z. z \<notin> set (nodes bl @ nodes br) \<longrightarrow> same_entry h h1 z)"
  using skew_heap_merge_spec [of h bl br cmp] assms by auto

lemma remove_at_child:
  assumes "pshape h (SNode bl b br)" "pshape h k" "distinct (nodes bl @ b # nodes br @ x # nodes k)"
    and "sparent h b = Some x" "\<And>y. root k = Some y \<Longrightarrow> sparent h y = Some x"
  shows "\<lbrakk>sleft h x = Some b; sright h x = root k\<rbrakk> \<Longrightarrow> \<exists>h'. skew_heap_remove cmp h a b = Some (h', a)
      \<and> pshape h' (SNode (smerge cmp bl br) x k) \<and> sparent h' x = sparent h x
      \<and> (\<forall>z. z \<notin> set (nodes bl @ b # nodes br @ x # nodes k) \<longrightarrow> same_entry h h' z)"
    and "\<lbrakk>sright h x = Some b; sleft h x = root k\<rbrakk> \<Longrightarrow> \<exists>h'. skew_heap_remove cmp h a b = Some (h', a)
      \<and> pshape h' (SNode k x (smerge cmp bl br)) \<and> sparent h' x = sparent h x
      \<and> (\<forall>z. z \<notin> set (nodes bl @ b # nodes br @ x # nodes k) \<longrightarrow> same_entry h h' z)"
proof -
  let ?m = "smerge cmp bl br"
  obtain h1 where h1: "skew_heap_merge cmp h (sleft h b) (sright h b) = Some (h1, root ?m)"
    "pshape h1 ?m" "\<And>z. z \<notin> set (nodes bl @ nodes br) \<Longrightarrow> same_entry h h1 z"
    using remove_merge [OF assms(1), of cmp] assms(3) by auto
  have e: "same_entry h h1 z" if "z \<in> insert x (set (nodes k))" for z
    using h1(3) [of z] that assms(3) by auto
  have k: "pshape h1 k"
    using pshape_cong [of k h1 h] e assms(2,3) by (auto simp: same_entry_def)
  have d: "distinct (nodes ?m @ x # nodes k)" using assms(3) by auto
  have pk: "sparent h1 y = Some x" if "root k = Some y" for y
    using assms(5) [OF that] e [of y] root_in_nodes [OF that] by (simp add: same_entry_def)
  have x: "sleft h1 x = sleft h x" "sright h1 x = sright h x" "sparent h1 x = sparent h x"
    using e [of x] by (simp_all add: same_entry_def)
  have rm: "y \<in> set (nodes bl) \<union> set (nodes br) \<and> y \<noteq> x" if "root ?m = Some y" for y
    using root_in_nodes [OF that] assms(3) by auto
  define h2 where "h2 = (case root ?m of None \<Rightarrow> h1 | Some r \<Rightarrow> set_parent r (Some x) h1)"
  have h2: "same_entry h1 h2 z" if "root ?m \<noteq> Some z" for z
    using that by (auto simp: h2_def set_field_defs same_entry_def split: option.splits)
  have hx2: "same_entry h1 h2 x" by (rule h2) (use rm in blast)
  have frame: "same_entry h (set_left x (root ?m) h2) z \<and> same_entry h (set_right x (root ?m) h2) z"
    if "z \<notin> set (nodes bl @ b # nodes br @ x # nodes k)" for z
    using that h1(3) [of z] h2 [of z] rm [of z]
    by (auto simp: same_entry_def set_left_def set_right_def)
  have xp: "sparent h2 x = sparent h x" using hx2 x by (auto simp: same_entry_def)
  note r = redirect_child [OF h1(2) k d pk, folded h2_def]
  show "\<exists>h'. skew_heap_remove cmp h a b = Some (h', a)
      \<and> pshape h' (SNode (smerge cmp bl br) x k) \<and> sparent h' x = sparent h x
      \<and> (\<forall>z. z \<notin> set (nodes bl @ b # nodes br @ x # nodes k) \<longrightarrow> same_entry h h' z)"
    if s: "sleft h x = Some b" "sright h x = root k"
  proof -
    have "sleft h2 x = Some b" using hx2 x s by (simp add: same_entry_def)
    then have "skew_heap_remove cmp h a b = Some (set_left x (root ?m) h2, a)"
      using h1(1) assms(4) by (simp add: skew_heap_remove_def h2_def [symmetric] Let_def)
    then show ?thesis using r(1) x s frame xp by (auto simp: set_left_def)
  qed
  show "\<exists>h'. skew_heap_remove cmp h a b = Some (h', a)
      \<and> pshape h' (SNode k x (smerge cmp bl br)) \<and> sparent h' x = sparent h x
      \<and> (\<forall>z. z \<notin> set (nodes bl @ b # nodes br @ x # nodes k) \<longrightarrow> same_entry h h' z)"
    if s: "sright h x = Some b" "sleft h x = root k"
  proof -
    have "root k \<noteq> Some b" using root_in_nodes [of k b] assms(3) by auto
    then have "sleft h2 x \<noteq> Some b" using hx2 x s by (simp add: same_entry_def)
    then have "skew_heap_remove cmp h a b = Some (set_right x (root ?m) h2, a)"
      using h1(1) assms(4) by (simp add: skew_heap_remove_def h2_def [symmetric] Let_def)
    then show ?thesis using r(2) x s frame xp by (auto simp: set_right_def)
  qed
qed

lemma root_sremove: "root t \<noteq> Some b \<Longrightarrow> root (sremove cmp b t) = root t"
  by (cases t) auto

lemma skew_heap_remove_inner:
  assumes "pshape h t" "distinct (nodes t)" "b \<in> set (nodes t)" "root t \<noteq> Some b"
  shows "\<exists>h'. skew_heap_remove cmp h a b = Some (h', a) \<and> pshape h' (sremove cmp b t)
    \<and> (\<forall>z. root t = Some z \<longrightarrow> sparent h' z = sparent h z)
    \<and> (\<forall>z. z \<notin> set (nodes t) \<longrightarrow> same_entry h h' z)"
  using assms
proof (induction t)
  case (SNode l x r)
  have xb: "x \<noteq> b" using SNode.prems by auto
  consider (ll) bl br where "l = SNode bl b br" | (rr) bl br where "r = SNode bl b br"
    | (l) "b \<in> set (nodes l)" "root l \<noteq> Some b" | (r) "b \<in> set (nodes r)" "root r \<noteq> Some b"
    using SNode.prems(3) xb by (cases l; cases r) auto
  then show ?case
  proof cases
    case ll
    have "b \<notin> set (nodes r)" using SNode.prems(2) ll by auto
    have d: "distinct (nodes bl @ b # nodes br @ x # nodes r)" using SNode.prems(2) ll by auto
    have p: "pshape h (SNode bl b br)" "pshape h r" "sparent h b = Some x"
      "\<And>y. root r = Some y \<Longrightarrow> sparent h y = Some x" using SNode.prems(1) ll by auto
    have s: "sleft h x = Some b" "sright h x = root r"
      using SNode.prems(1) ll by auto
    obtain h' where "skew_heap_remove cmp h a b = Some (h', a)" "pshape h' (SNode (smerge cmp bl br) x r)"
      "sparent h' x = sparent h x"
      "\<forall>z. z \<notin> set (nodes bl @ b # nodes br @ x # nodes r) \<longrightarrow> same_entry h h' z"
      using remove_at_child(1) [OF p(1,2) d p(3,4) s, of cmp a] by blast
    with ll xb \<open>b \<notin> set (nodes r)\<close> show ?thesis by (intro exI [of _ h']) auto
  next
    case rr
    have "b \<notin> set (nodes l)" using SNode.prems(2) rr by auto
    have d: "distinct (nodes bl @ b # nodes br @ x # nodes l)" using SNode.prems(2) rr by auto
    have p: "pshape h (SNode bl b br)" "pshape h l" "sparent h b = Some x"
      "\<And>y. root l = Some y \<Longrightarrow> sparent h y = Some x" using SNode.prems(1) rr by auto
    have s: "sright h x = Some b" "sleft h x = root l"
      using SNode.prems(1) rr by auto
    obtain h' where "skew_heap_remove cmp h a b = Some (h', a)" "pshape h' (SNode l x (smerge cmp bl br))"
      "sparent h' x = sparent h x"
      "\<forall>z. z \<notin> set (nodes bl @ b # nodes br @ x # nodes l) \<longrightarrow> same_entry h h' z"
      using remove_at_child(2) [OF p(1,2) d p(3,4) s, of cmp a] by blast
    with rr xb \<open>b \<notin> set (nodes l)\<close> show ?thesis by (intro exI [of _ h']) auto
  next
    case l
    then obtain h' where h': "skew_heap_remove cmp h a b = Some (h', a)" "pshape h' (sremove cmp b l)"
      "\<forall>z. root l = Some z \<longrightarrow> sparent h' z = sparent h z" "\<forall>z. z \<notin> set (nodes l) \<longrightarrow> same_entry h h' z"
      using SNode.IH(1) SNode.prems by auto
    have "pshape h' r"
      using pshape_cong [of r h' h] h'(4) SNode.prems(1,2) by (auto simp: same_entry_def)
    moreover have "b \<notin> set (nodes r)" using SNode.prems(2) l by auto
    moreover have "same_entry h h' y" if "root r = Some y" for y
      using h'(4) root_in_nodes [OF that] SNode.prems(2) by auto
    ultimately show ?thesis using h' SNode.prems xb l root_sremove [of l b cmp]
      by (auto simp: same_entry_def)
  next
    case r
    then obtain h' where h': "skew_heap_remove cmp h a b = Some (h', a)" "pshape h' (sremove cmp b r)"
      "\<forall>z. root r = Some z \<longrightarrow> sparent h' z = sparent h z" "\<forall>z. z \<notin> set (nodes r) \<longrightarrow> same_entry h h' z"
      using SNode.IH(2) SNode.prems by auto
    have "pshape h' l"
      using pshape_cong [of l h' h] h'(4) SNode.prems(1,2) by (auto simp: same_entry_def)
    moreover have "b \<notin> set (nodes l)" using SNode.prems(2) r by auto
    moreover have "same_entry h h' y" if "root l = Some y" for y
      using h'(4) root_in_nodes [OF that] SNode.prems(2) by auto
    ultimately show ?thesis using h' SNode.prems xb r root_sremove [of r b cmp]
      by (auto simp: same_entry_def)
  qed
qed simp

lemma skew_heap_remove_refines:
  assumes "pheap h a t" "b \<in> set (nodes t)"
  shows "\<exists>h'. let t' = sremove cmp b t in
    skew_heap_remove cmp h a b = Some (h', root t') \<and> pheap h' (root t') t'
    \<and> set (nodes t') = set (nodes t) - {b}
    \<and> (\<forall>z. z \<notin> set (nodes t) \<longrightarrow> same_entry h h' z)"
proof (cases "root t = Some b")
  case True
  then obtain bl br where t: "t = SNode bl b br" by (cases t) auto
  let ?m = "smerge cmp bl br"
  obtain h1 where h1: "skew_heap_merge cmp h (sleft h b) (sright h b) = Some (h1, root ?m)"
    "pshape h1 ?m" "\<And>z. z \<notin> set (nodes bl @ nodes br) \<Longrightarrow> same_entry h h1 z"
    using remove_merge [of h bl b br cmp] assms t by (auto simp: pheap_def)
  define h2 where "h2 = (case root ?m of None \<Rightarrow> h1 | Some r \<Rightarrow> set_parent r None h1)"
  have h2: "same_entry h1 h2 z" if "root ?m \<noteq> Some z" for z
    using that by (auto simp: h2_def set_field_defs same_entry_def split: option.splits)
  have "pshape h2 ?m"
    using pshape_cong [of ?m h2 h1] h1(2) h2 assms t
    by (auto simp: pheap_def h2_def set_field_defs split: option.splits)
  moreover have "skew_heap_remove cmp h a b = Some (h2, root ?m)"
    using h1(1) assms t by (simp add: skew_heap_remove_def h2_def [symmetric] Let_def pheap_def)
  moreover have "same_entry h h2 z" if "z \<notin> set (nodes t)" for z
    using that h1(3) [of z] h2 [of z] root_in_nodes [of ?m z] t by (auto intro: same_entry_trans)
  moreover have "sparent h2 z = None" if "root ?m = Some z" for z
    using that by (simp add: h2_def set_parent_def)
  ultimately show ?thesis using assms t by (auto simp: pheap_def Let_def)
next
  case False
  with skew_heap_remove_inner [of h t b cmp a] assms root_sremove [OF False, of cmp]
  show ?thesis by (auto simp: pheap_def Let_def)
qed

subsection \<open>The pointer heap as a priority queue\<close>

text \<open>
  C11: \<open>skew_heap_insert\<close> on a well-formed pointer heap terminates and gives a well-formed heap (all
  parent and child links agree) with exactly one more entry, the skew merge of the old tree with
  the new entry. No other entry's fields are touched.
\<close>

theorem skew_heap_insert_correct:
  assumes "pheap h a t" "b \<notin> set (nodes t)"
  shows "\<exists>h' a' t'. skew_heap_insert cmp h a b = Some (h', a') \<and> pheap h' a' t'
    \<and> set (nodes t') = insert b (set (nodes t))
    \<and> (\<forall>z. z \<notin> insert b (set (nodes t)) \<longrightarrow> same_entry h h' z)
    \<and> t' = smerge cmp t (SNode SLeaf b SLeaf)"
  using skew_heap_insert_refines [OF assms, of cmp] by (auto simp: Let_def)

text \<open>
  C12: \<open>skew_heap_remove\<close> of any entry of a well-formed pointer heap terminates, unlinks exactly that
  entry, keeps all parent and child links consistent and touches no entry outside the heap.
\<close>

theorem skew_heap_remove_correct:
  assumes "pheap h a t" "b \<in> set (nodes t)"
  shows "\<exists>h' a' t'. skew_heap_remove cmp h a b = Some (h', a') \<and> pheap h' a' t'
    \<and> set (nodes t') = set (nodes t) - {b}
    \<and> (\<forall>z. z \<notin> set (nodes t) \<longrightarrow> same_entry h h' z)
    \<and> t' = sremove cmp b t"
  using skew_heap_remove_refines [OF assms, of cmp] by (auto simp: Let_def)

definition sample_sheap :: "nat sheap" where
  "sample_sheap = \<lparr>sparent = (\<lambda>_. None)(2 := Some 1), sleft = (\<lambda>_. None)(1 := Some 2), sright = (\<lambda>_. None)\<rparr>"

lemma sample_pheap: "pheap sample_sheap (Some 1) (SNode (SNode SLeaf 2 SLeaf) 1 SLeaf)"
  by (simp add: pheap_def sample_sheap_def)

theorem skew_heap_insert_correct_witness:
  "\<exists>h' a' t'. skew_heap_insert (\<lambda>p q. int p - int q) sample_sheap (Some 1) 3 = Some (h', a')
     \<and> pheap h' a' t' \<and> set (nodes t') = {1, 2, 3}"
proof -
  let ?t = "SNode (SNode SLeaf 2 SLeaf) (1::nat) SLeaf"
  have s: "insert 3 (set (nodes ?t)) = {1, 2, 3}" by auto
  have "3 \<notin> set (nodes ?t)" by simp
  from skew_heap_insert_correct [OF sample_pheap this, of "\<lambda>p q. int p - int q"]
  show ?thesis unfolding s by blast
qed

theorem skew_heap_remove_correct_witness:
  "\<exists>h' a' t'. skew_heap_remove (\<lambda>p q. int p - int q) sample_sheap (Some 1) 2 = Some (h', a')
     \<and> pheap h' a' t' \<and> set (nodes t') = {1}"
  using skew_heap_remove_correct [OF sample_pheap, of 2 "\<lambda>p q. int p - int q"] by force

end
