(* ===== verification/ProcData.thy ===== *)
theory ProcData
  imports LinkedList SkewHeap
begin

text \<open>
  The process control block of \<open>kern/process/proc.h\<close> and the scheduler's data of
  \<open>kern/schedule/sched.h\<close>. A \<open>struct proc_struct *\<close> is a natural number (its identity); the
  intrusive \<open>list_entry_t\<close> members of a structure are the nodes of the pointer heaps of
  theory LinkedList (\<open>RunLink p\<close> is \<open>&p->run_link\<close>, so \<open>le2proc\<close> strips the constructor),
  and \<open>lab6_run_pool\<close> is the entry \<open>p\<close> of a skew heap.
\<close>

datatype proc_state = PROC_UNINIT | PROC_SLEEPING | PROC_RUNNABLE | PROC_ZOMBIE

text \<open>Saved registers of a trap (\<open>struct trapframe\<close>); \<open>gpr\<close> is indexed by register number.\<close>

record trapframe =
  gpr :: "nat \<Rightarrow> u64"
  tf_status :: u64
  tf_epc :: u64
  tf_tval :: u64
  tf_cause :: u64

record proc_context =
  ctx_ra :: u64
  ctx_sp :: u64
  ctx_saved :: "nat \<Rightarrow> u64"

record proc_struct =
  p_state :: proc_state
  p_pid :: int
  p_runs :: int
  p_kstack :: u64
  p_need_resched :: bool
  p_parent :: "nat option"
  p_mm :: "nat option"
  p_context :: proc_context
  p_tf :: "trapframe option"
  p_pgdir :: u64
  p_flags :: u32
  p_name :: "u8 list"
  p_exit_code :: int
  p_wait_state :: u32
  p_cptr :: "nat option"
  p_yptr :: "nat option"
  p_optr :: "nat option"
  p_rq :: bool \<comment> \<open>\<open>proc->rq\<close>: \<open>True\<close> for \<open>&__rq\<close>, the only run queue, \<open>False\<close> for \<open>NULL\<close>\<close>
  p_time_slice :: int
  p_stride :: u32
  p_priority :: u32
  p_filesp :: "nat option"

text \<open>What the scheduler never changes in a process: its relations, flags, exit code and files.\<close>

definition proc_links :: "proc_struct \<Rightarrow> (nat option \<times> nat option \<times> nat option \<times> nat option) \<times> u32 \<times> int \<times> nat option \<times> nat option \<times> u64" where
  "proc_links q = ((p_parent q, p_cptr q, p_yptr q, p_optr q), p_flags q, p_exit_code q, p_mm q, p_filesp q, p_kstack q)"

lemma proc_links_upd [simp]:
  "proc_links (q\<lparr>p_state := a\<rparr>) = proc_links q" "proc_links (q\<lparr>p_wait_state := b\<rparr>) = proc_links q"
  "proc_links (q\<lparr>p_rq := c\<rparr>) = proc_links q" "proc_links (q\<lparr>p_time_slice := d\<rparr>) = proc_links q"
  "proc_links (q\<lparr>p_stride := e\<rparr>) = proc_links q" "proc_links (q\<lparr>p_need_resched := g\<rparr>) = proc_links q"
  "proc_links (q\<lparr>p_runs := h\<rparr>) = proc_links q"
  by (simp_all add: proc_links_def)

definition PF_EXITING :: u32 where "PF_EXITING = 0x1"
definition WT_INTERRUPTED :: u32 where "WT_INTERRUPTED = 0x80000000"
definition WT_CHILD :: u32 where "WT_CHILD = 0x80000001"
definition WT_KSEM :: u32 where "WT_KSEM = 0x100"
definition WT_TIMER :: u32 where "WT_TIMER = 0x80000002"
definition WT_KBD :: u32 where "WT_KBD = 0x80000004"

definition MAX_PROCESS :: int where "MAX_PROCESS = 4096"
definition MAX_PID :: int where "MAX_PID = 2 * 4096"

text \<open>\<open>timer_t\<close>; a timer is named by a natural number, its list node is \<open>TimerLink t\<close>.\<close>

record timer =
  expires :: u32
  t_proc :: nat

datatype rnode = RunHead | RunLink nat
datatype tnode = TimerHead | TimerLink nat

record run_queue =
  proc_num :: u32
  max_time_slice :: int
  run_pool :: "nat option"

text \<open>The scheduler's state: the processes, the run queue, the timer list, \<open>current\<close> and \<open>idleproc\<close>.\<close>

record sstate =
  procs :: "nat \<Rightarrow> proc_struct"
  run_links :: "rnode lheap"
  pool :: "nat sheap"
  rq :: run_queue
  timers :: "nat \<Rightarrow> timer"
  timer_links :: "tnode lheap"
  current :: nat
  idleproc :: nat

definition upd_proc :: "nat \<Rightarrow> (proc_struct \<Rightarrow> proc_struct) \<Rightarrow> sstate \<Rightarrow> sstate" where
  "upd_proc p f s = s\<lparr>procs := (procs s)(p := f (procs s p))\<rparr>"

definition upd_timer :: "nat \<Rightarrow> (timer \<Rightarrow> timer) \<Rightarrow> sstate \<Rightarrow> sstate" where
  "upd_timer t f s = s\<lparr>timers := (timers s)(t := f (timers s t))\<rparr>"

lemma upd_proc_simps [simp]:
  "procs (upd_proc p f s) = (procs s)(p := f (procs s p))"
  "run_links (upd_proc p f s) = run_links s"
  "pool (upd_proc p f s) = pool s"
  "rq (upd_proc p f s) = rq s"
  "timers (upd_proc p f s) = timers s"
  "timer_links (upd_proc p f s) = timer_links s"
  "current (upd_proc p f s) = current s"
  "idleproc (upd_proc p f s) = idleproc s"
  by (simp_all add: upd_proc_def)

lemma upd_timer_simps [simp]:
  "procs (upd_timer t g s) = procs s"
  "run_links (upd_timer t g s) = run_links s"
  "pool (upd_timer t g s) = pool s"
  "rq (upd_timer t g s) = rq s"
  "timers (upd_timer t g s) = (timers s)(t := g (timers s t))"
  "timer_links (upd_timer t g s) = timer_links s"
  "current (upd_timer t g s) = current s"
  "idleproc (upd_timer t g s) = idleproc s"
  by (simp_all add: upd_timer_def)

text \<open>
  \<open>struct sched_class\<close>: the table of functions a scheduling policy provides. \<open>pick_next\<close> may
  be undefined (a division by zero in the stride policy), so it returns an option as well.
\<close>

record sched_class =
  sc_init :: "sstate \<Rightarrow> sstate"
  sc_enqueue :: "sstate \<Rightarrow> nat \<Rightarrow> sstate option"
  sc_dequeue :: "sstate \<Rightarrow> nat \<Rightarrow> sstate option"
  sc_pick_next :: "sstate \<Rightarrow> (nat option \<times> sstate) option"
  sc_proc_tick :: "sstate \<Rightarrow> nat \<Rightarrow> sstate"

end
