(* ===== verification/Sched.thy ===== *)
theory Sched
  imports ProcData
begin

text \<open>
  The scheduler core of \<open>kern/schedule/sched.c\<close>: the wrappers around the scheduling class,
  \<open>wakeup_proc\<close> and \<open>schedule\<close>. Interrupts are disabled in these functions, so each is one
  atomic step. The locale \<open>sched_policy\<close> states what a \<open>struct sched_class\<close> owes the core; the
  core's invariant (exactly the runnable processes other than the running and the idle one are
  queued) is proved once inside it and holds for every policy that interprets it.
\<close>

definition sched_class_enqueue :: "sched_class \<Rightarrow> sstate \<Rightarrow> nat \<Rightarrow> sstate option" where
  "sched_class_enqueue sc s p = (if p \<noteq> idleproc s then sc_enqueue sc s p else Some s)"

definition sched_class_dequeue :: "sched_class \<Rightarrow> sstate \<Rightarrow> nat \<Rightarrow> sstate option" where
  "sched_class_dequeue sc s p = sc_dequeue sc s p"

definition sched_class_pick_next :: "sched_class \<Rightarrow> sstate \<Rightarrow> (nat option \<times> sstate) option" where
  "sched_class_pick_next sc s = sc_pick_next sc s"

definition sched_class_proc_tick :: "sched_class \<Rightarrow> sstate \<Rightarrow> nat \<Rightarrow> sstate" where
  "sched_class_proc_tick sc s p =
     (if p \<noteq> idleproc s then sc_proc_tick sc s p
      else upd_proc p (\<lambda>q. q\<lparr>p_need_resched := True\<rparr>) s)"

definition sched_init :: "sched_class \<Rightarrow> sstate \<Rightarrow> sstate" where
  "sched_init sc s =
     (let s = s\<lparr>timer_links := list_init (timer_links s) TimerHead\<rparr>;
          s = s\<lparr>rq := (rq s)\<lparr>max_time_slice := 5\<rparr>\<rparr>
      in sc_init sc s)"

definition wakeup_proc :: "sched_class \<Rightarrow> sstate \<Rightarrow> nat \<Rightarrow> sstate option" where
  "wakeup_proc sc s p =
     do {
       assert_that (p_state (procs s p) \<noteq> PROC_ZOMBIE);
       if p_state (procs s p) \<noteq> PROC_RUNNABLE then do {
         let s = upd_proc p (\<lambda>q. q\<lparr>p_state := PROC_RUNNABLE, p_wait_state := 0\<rparr>) s;
         if p \<noteq> current s then sched_class_enqueue sc s p else Some s
       }
       else Some s
     }"

text \<open>\<open>proc_run\<close>: the processor now executes \<open>p\<close> (its page table and stack are switched in).\<close>

definition proc_run :: "sstate \<Rightarrow> nat \<Rightarrow> sstate" where
  "proc_run s p = (if p \<noteq> current s then s\<lparr>current := p\<rparr> else s)"

definition schedule :: "sched_class \<Rightarrow> sstate \<Rightarrow> sstate option" where
  "schedule sc s =
     do {
       let s = upd_proc (current s) (\<lambda>q. q\<lparr>p_need_resched := False\<rparr>) s;
       s \<leftarrow> (if p_state (procs s (current s)) = PROC_RUNNABLE
             then sched_class_enqueue sc s (current s) else Some s);
       (next, s) \<leftarrow> sched_class_pick_next sc s;
       s \<leftarrow> (case next of Some n \<Rightarrow> sched_class_dequeue sc s n | None \<Rightarrow> Some s);
       let n = (case next of Some n \<Rightarrow> n | None \<Rightarrow> idleproc s);
       let s = upd_proc n (\<lambda>q. q\<lparr>p_runs := p_runs q + 1\<rparr>) s;
       Some (if n \<noteq> current s then proc_run s n else s)
     }"

subsection \<open>The contract of a scheduling class\<close>

text \<open>What a policy may not touch.\<close>

definition same_procs :: "sstate \<Rightarrow> sstate \<Rightarrow> bool" where
  "same_procs s s' \<longleftrightarrow> current s' = current s \<and> idleproc s' = idleproc s
     \<and> timers s' = timers s \<and> timer_links s' = timer_links s
     \<and> (\<forall>q. p_state (procs s' q) = p_state (procs s q)
          \<and> p_wait_state (procs s' q) = p_wait_state (procs s q)
          \<and> p_pid (procs s' q) = p_pid (procs s q)
          \<and> proc_links (procs s' q) = proc_links (procs s q))"

lemma same_procs_refl [simp]: "same_procs s s"
  by (simp add: same_procs_def)

lemma same_procs_trans: "same_procs s t \<Longrightarrow> same_procs t u \<Longrightarrow> same_procs s u"
  by (simp add: same_procs_def)

text \<open>
  \<open>inv\<close> is the policy's own well-formedness and \<open>queued\<close> the set of processes in its run
  queue; \<open>valid\<close> bounds the process identities a policy accepts. Both depend on the run queue data only, not on what the core writes into a process.
\<close>

locale sched_policy =
  fixes sc :: sched_class
    and inv :: "sstate \<Rightarrow> bool"
    and queued :: "sstate \<Rightarrow> nat set"
    and valid :: "nat \<Rightarrow> bool"
  assumes enqueue_law: "inv s \<Longrightarrow> p \<notin> queued s \<Longrightarrow> valid p \<Longrightarrow>
      \<exists>s'. sc_enqueue sc s p = Some s' \<and> inv s' \<and> queued s' = insert p (queued s) \<and> same_procs s s'"
    and dequeue_law: "inv s \<Longrightarrow> p \<in> queued s \<Longrightarrow>
      \<exists>s'. sc_dequeue sc s p = Some s' \<and> inv s' \<and> queued s' = queued s - {p} \<and> same_procs s s'"
    and pick_law: "inv s \<Longrightarrow> sc_pick_next sc s = Some (r, s') \<Longrightarrow>
      inv s' \<and> queued s' = queued s \<and> same_procs s s'
      \<and> (case r of None \<Rightarrow> queued s = {} | Some p \<Rightarrow> p \<in> queued s)"
    and tick_law: "inv s \<Longrightarrow>
      inv (sc_proc_tick sc s p) \<and> queued (sc_proc_tick sc s p) = queued s \<and> same_procs s (sc_proc_tick sc s p)"
    and frame_law: "run_links s' = run_links s \<Longrightarrow> pool s' = pool s \<Longrightarrow> rq s' = rq s \<Longrightarrow>
      (\<And>q. p_rq (procs s' q) = p_rq (procs s q)) \<Longrightarrow> inv s' = inv s \<and> queued s' = queued s"
begin

text \<open>Exactly the runnable processes that are neither running nor idle are in the run queue.\<close>

definition sched_inv :: "sstate \<Rightarrow> bool" where
  "sched_inv s \<longleftrightarrow> inv s \<and> (\<forall>p. p_state (procs s p) = PROC_RUNNABLE \<longrightarrow> valid p) \<and>
     queued s = {p. p_state (procs s p) = PROC_RUNNABLE \<and> p \<noteq> current s \<and> p \<noteq> idleproc s}"

lemma upd_frame:
  "(\<And>q. p_rq (f q) = p_rq q) \<Longrightarrow> inv (upd_proc p f s) = inv s \<and> queued (upd_proc p f s) = queued s"
  by (rule frame_law) auto

lemma wakeup_keeps:
  assumes "sched_inv s" "p_state (procs s p) \<noteq> PROC_ZOMBIE" "valid p"
  shows "\<exists>s'. wakeup_proc sc s p = Some s' \<and> sched_inv s' \<and> p_state (procs s' p) = PROC_RUNNABLE
    \<and> current s' = current s \<and> idleproc s' = idleproc s
    \<and> timers s' = timers s \<and> timer_links s' = timer_links s
    \<and> p_wait_state (procs s' p) \<in> {0, p_wait_state (procs s p)}
    \<and> (\<forall>q. q \<noteq> p \<longrightarrow> p_state (procs s' q) = p_state (procs s q)
             \<and> p_wait_state (procs s' q) = p_wait_state (procs s q))
    \<and> (\<forall>q. p_pid (procs s' q) = p_pid (procs s q) \<and> proc_links (procs s' q) = proc_links (procs s q))"
proof (cases "p_state (procs s p) = PROC_RUNNABLE")
  case True
  with assms show ?thesis by (auto simp: wakeup_proc_def)
next
  case False
  let ?s = "upd_proc p (\<lambda>q. q\<lparr>p_state := PROC_RUNNABLE, p_wait_state := 0\<rparr>) s"
  have fr: "inv ?s" "queued ?s = queued s" using upd_frame [of _ p s] assms(1) by (auto simp: sched_inv_def)
  show ?thesis
  proof (cases "p = current s \<or> p = idleproc s")
    case True
    have "sched_inv ?s" using fr assms(1,3) True by (auto simp: sched_inv_def)
    with True False assms(2) show ?thesis
      by (intro exI [of _ ?s]) (auto simp: wakeup_proc_def sched_class_enqueue_def Let_def)
  next
    case F: False
    have "p \<notin> queued ?s" using fr assms(1) False by (auto simp: sched_inv_def)
    then obtain s' where s': "sc_enqueue sc ?s p = Some s'" "inv s'"
      "queued s' = insert p (queued ?s)" "same_procs ?s s'"
      using enqueue_law [OF fr(1)] assms(3) by blast
    have "sched_inv s'" using s' fr assms(1,3) F by (auto simp: sched_inv_def same_procs_def)
    with s' F False assms(2) show ?thesis
      by (intro exI [of _ s']) (auto simp: wakeup_proc_def sched_class_enqueue_def same_procs_def Let_def)
  qed
qed

text \<open>
  \<open>schedule\<close> keeps the invariant whatever state the caller left \<open>current\<close> in, and switches
  to a queued runnable process, or to \<open>idleproc\<close> when there is none.
\<close>

lemma schedule_keeps:
  assumes "sched_inv s" "schedule sc s = Some s'"
  shows "sched_inv s'"
    and "\<And>q. p_state (procs s' q) = p_state (procs s q)"
    and "idleproc s' = idleproc s"
    and "current s' = idleproc s \<or> p_state (procs s' (current s')) = PROC_RUNNABLE"
    and "current s' = idleproc s \<Longrightarrow>
      {p. p_state (procs s p) = PROC_RUNNABLE} \<subseteq> {idleproc s}"
    and "\<And>q. p_wait_state (procs s' q) = p_wait_state (procs s q)"
    and "\<And>q. p_pid (procs s' q) = p_pid (procs s q)" "\<And>q. proc_links (procs s' q) = proc_links (procs s q)"
proof -
  let ?cur = "current s"
  let ?s1 = "upd_proc ?cur (\<lambda>q. q\<lparr>p_need_resched := False\<rparr>) s"
  let ?all = "{p. p_state (procs s p) = PROC_RUNNABLE \<and> p \<noteq> idleproc s}"
  have f1: "inv ?s1" "queued ?s1 = queued s" using upd_frame [of _ ?cur s] assms(1) by (auto simp: sched_inv_def)
  obtain s2 where s2: "(if p_state (procs ?s1 (current ?s1)) = PROC_RUNNABLE
      then sched_class_enqueue sc ?s1 (current ?s1) else Some ?s1) = Some s2"
    and i2: "inv s2" "queued s2 = ?all" "same_procs ?s1 s2"
  proof (cases "p_state (procs s ?cur) = PROC_RUNNABLE \<and> ?cur \<noteq> idleproc s")
    case True
    have "?cur \<notin> queued ?s1" using f1 assms(1) by (auto simp: sched_inv_def)
    then obtain s' where e: "sc_enqueue sc ?s1 ?cur = Some s'" "inv s'"
      "queued s' = insert ?cur (queued ?s1)" "same_procs ?s1 s'"
      using enqueue_law [OF f1(1), of ?cur] True assms(1) by (auto simp: sched_inv_def)
    show ?thesis
    proof (rule that [of s'])
      show "queued s' = ?all" using e(3) f1 assms(1) True by (auto simp: sched_inv_def)
    qed (use True e in \<open>simp_all add: sched_class_enqueue_def\<close>)
  next
    case False
    show ?thesis
    proof (rule that [of ?s1])
      show "queued ?s1 = ?all" using f1 assms(1) False by (auto simp: sched_inv_def)
    qed (use False f1 in \<open>auto simp: sched_class_enqueue_def\<close>)
  qed
  obtain r s3 where s3: "sc_pick_next sc s2 = Some (r, s3)"
    and rest: "do { s \<leftarrow> (case r of Some n \<Rightarrow> sched_class_dequeue sc s3 n | None \<Rightarrow> Some s3);
       let n = (case r of Some n \<Rightarrow> n | None \<Rightarrow> idleproc s);
       let s = upd_proc n (\<lambda>q. q\<lparr>p_runs := p_runs q + 1\<rparr>) s;
       Some (if n \<noteq> current s then proc_run s n else s) } = Some s'"
    using assms(2) unfolding schedule_def Let_def s2 sched_class_pick_next_def
    by (auto simp: bind_eq_Some_conv)
  note p3 = pick_law [OF i2(1) s3]
  obtain s4 where s4: "(case r of Some n \<Rightarrow> sched_class_dequeue sc s3 n | None \<Rightarrow> Some s3) = Some s4"
    and i4: "inv s4" "same_procs s3 s4" "queued s4 = ?all - set_option r" "r = None \<Longrightarrow> ?all = {}"
      "\<And>n. r = Some n \<Longrightarrow> n \<in> ?all"
  proof (cases r)
    case None
    with p3 i2 show ?thesis by (intro that [of s3]) auto
  next
    case (Some n)
    then have "n \<in> queued s3" using p3 by auto
    then obtain t where "sc_dequeue sc s3 n = Some t" "inv t" "queued t = queued s3 - {n}" "same_procs s3 t"
      using dequeue_law [of s3 n] p3 by blast
    with Some p3 i2 show ?thesis by (intro that [of t]) (auto simp: sched_class_dequeue_def)
  qed
  define n where "n = (case r of Some n \<Rightarrow> n | None \<Rightarrow> idleproc s4)"
  let ?s5 = "upd_proc n (\<lambda>q. q\<lparr>p_runs := p_runs q + 1\<rparr>) s4"
  have s': "s' = ?s5\<lparr>current := n\<rparr>"
    using rest s4 by (auto simp: proc_run_def Let_def n_def [symmetric])
  have same: "same_procs s s4"
    using i2(3) p3 i4(2) by (auto simp: same_procs_def)
  then have st: "p_state (procs s4 q) = p_state (procs s q)" "idleproc s4 = idleproc s" for q
    by (auto simp: same_procs_def)
  show "p_state (procs s' q) = p_state (procs s q)" for q using st by (simp add: s')
  show "p_wait_state (procs s' q) = p_wait_state (procs s q)" "p_pid (procs s' q) = p_pid (procs s q)"
    "proc_links (procs s' q) = proc_links (procs s q)" for q using same by (simp_all add: s' same_procs_def)
  show "idleproc s' = idleproc s" using st by (simp add: s')
  have cur: "current s' = n" by (simp add: s')
  have n: "n = idleproc s \<and> ?all = {} \<and> r = None \<or> n \<in> ?all \<and> r = Some n"
    using i4(4,5) by (cases r) (auto simp: n_def st)
  then show "current s' = idleproc s \<or> p_state (procs s' (current s')) = PROC_RUNNABLE"
    using st by (auto simp: s')
  show "{p. p_state (procs s p) = PROC_RUNNABLE} \<subseteq> {idleproc s}" if "current s' = idleproc s"
    using that n by (auto simp: cur)
  have i': "inv s' = inv s4" "queued s' = queued s4"
    using frame_law [of s' s4] by (auto simp: s')
  have st': "p_state (procs s' q) = p_state (procs s q)" "idleproc s' = idleproc s" for q
    using st by (simp_all add: s')
  have "queued s4 = {p. p_state (procs s p) = PROC_RUNNABLE \<and> p \<noteq> n \<and> p \<noteq> idleproc s}"
    using n i4(3) by auto
  then show "sched_inv s'"
    using i' i4(1) assms(1) unfolding sched_inv_def st' cur by blast
qed

end

end
