(* ===== verification/RRSched.thy ===== *)
theory RRSched
  imports Sched
begin

text \<open>
  The round-robin policy of \<open>kern/schedule/default_sched.c\<close>, the default class of the kernel. The
  run queue is the pointer list headed by \<open>RunHead\<close>; its abstraction is the sequence of the
  queued processes, on which the operations are append, removal and head.
\<close>

definition RR_init :: "sstate \<Rightarrow> sstate" where
  "RR_init s =
     s\<lparr>run_links := list_init (run_links s) RunHead, rq := (rq s)\<lparr>proc_num := 0\<rparr>\<rparr>"

definition RR_enqueue :: "sstate \<Rightarrow> nat \<Rightarrow> sstate option" where
  "RR_enqueue s p =
     do {
       assert_that (list_empty (run_links s) (RunLink p));
       let s = s\<lparr>run_links := list_add_before (run_links s) RunHead (RunLink p)\<rparr>;
       let s = (if p_time_slice (procs s p) = 0 \<or> p_time_slice (procs s p) > max_time_slice (rq s)
                then upd_proc p (\<lambda>q. q\<lparr>p_time_slice := max_time_slice (rq s)\<rparr>) s else s);
       let s = upd_proc p (\<lambda>q. q\<lparr>p_rq := True\<rparr>) s;
       Some (s\<lparr>rq := (rq s)\<lparr>proc_num := proc_num (rq s) + 1\<rparr>\<rparr>)
     }"

definition RR_dequeue :: "sstate \<Rightarrow> nat \<Rightarrow> sstate option" where
  "RR_dequeue s p =
     do {
       assert_that (\<not> list_empty (run_links s) (RunLink p) \<and> p_rq (procs s p));
       let s = s\<lparr>run_links := list_del_init (run_links s) (RunLink p)\<rparr>;
       Some (s\<lparr>rq := (rq s)\<lparr>proc_num := proc_num (rq s) - 1\<rparr>\<rparr>)
     }"

text \<open>\<open>le2proc(le, run_link)\<close>; on the list head it is never applied.\<close>

definition RR_pick_next :: "sstate \<Rightarrow> (nat option \<times> sstate) option" where
  "RR_pick_next s =
     (case list_next (run_links s) RunHead of
        RunHead \<Rightarrow> Some (None, s)
      | RunLink p \<Rightarrow> Some (Some p, s))"

definition RR_proc_tick :: "sstate \<Rightarrow> nat \<Rightarrow> sstate" where
  "RR_proc_tick s p =
     (let s = (if p_time_slice (procs s p) > 0
               then upd_proc p (\<lambda>q. q\<lparr>p_time_slice := p_time_slice q - 1\<rparr>) s else s)
      in if p_time_slice (procs s p) = 0
         then upd_proc p (\<lambda>q. q\<lparr>p_need_resched := True\<rparr>) s else s)"

definition default_sched_class :: sched_class where
  "default_sched_class =
     \<lparr>sc_init = RR_init, sc_enqueue = RR_enqueue, sc_dequeue = RR_dequeue,
      sc_pick_next = RR_pick_next, sc_proc_tick = RR_proc_tick\<rparr>"

subsection \<open>Abstraction: the queue of processes\<close>

definition rr_queue :: "sstate \<Rightarrow> nat list \<Rightarrow> bool" where
  "rr_queue s xs \<longleftrightarrow> dlist (run_links s) RunHead (map RunLink xs)
     \<and> (\<forall>p. p \<notin> set xs \<longrightarrow> list_empty (run_links s) (RunLink p))
     \<and> (\<forall>p \<in> set xs. p_rq (procs s p))
     \<and> proc_num (rq s) = word_of_nat (length xs)"

definition rr_inv :: "sstate \<Rightarrow> bool" where
  "rr_inv s \<longleftrightarrow> (\<exists>xs. rr_queue s xs)"

definition rr_queued :: "sstate \<Rightarrow> nat set" where
  "rr_queued s = {p. \<not> list_empty (run_links s) (RunLink p)}"

lemma rr_queue_distinct: "rr_queue s xs \<Longrightarrow> distinct xs"
  by (auto simp: rr_queue_def dlist_def distinct_map)

lemma rr_queue_set: "rr_queue s xs \<Longrightarrow> rr_queued s = set xs"
  using list_empty_node [of "run_links s" RunHead "map RunLink xs"]
  by (auto simp: rr_queue_def rr_queued_def)

lemma rr_queue_frame:
  "run_links s' = run_links s \<Longrightarrow> rq s' = rq s \<Longrightarrow> (\<And>q. p_rq (procs s' q) = p_rq (procs s q))
   \<Longrightarrow> rr_queue s' xs = rr_queue s xs"
  by (simp add: rr_queue_def)

text \<open>Operations on unlinked nodes of other processes leave them unlinked.\<close>

lemma list_empty_add_tail:
  assumes "dlist h hdr xs" "y \<notin> set (hdr # xs)" "y \<noteq> e"
  shows "list_empty (list_add_before h hdr e) y = list_empty h y"
proof -
  have "lprev h hdr \<noteq> y" using list_prev_head [OF assms(1)] assms(2) by (auto simp: list_prev_def)
  with assms show ?thesis by (auto simp: list_empty_def list_add_before_def)
qed

lemma list_empty_del_other:
  assumes "dlist h hdr (xs @ e # ys)" "y \<notin> set (hdr # xs @ e # ys)"
  shows "list_empty (list_del_init h e) y = list_empty h y"
proof -
  have "lprev h e \<noteq> y" using list_prev_node [OF assms(1)] assms(2) by (auto simp: list_prev_def)
  with assms show ?thesis by (auto simp: list_empty_def list_del_init_def)
qed

text \<open>Refinement: enqueue appends, dequeue removes, pick returns the head.\<close>

lemma RR_enqueue_appends:
  assumes "rr_queue s xs" "p \<notin> set xs"
  shows "\<exists>s'. RR_enqueue s p = Some s' \<and> rr_queue s' (xs @ [p]) \<and> same_procs s s'
    \<and> max_time_slice (rq s') = max_time_slice (rq s)"
proof -
  have d: "dlist (run_links s) RunHead (map RunLink xs)" and e: "list_empty (run_links s) (RunLink p)"
    using assms by (auto simp: rr_queue_def)
  let ?h = "list_add_before (run_links s) RunHead (RunLink p)"
  have "dlist ?h RunHead (map RunLink (xs @ [p]))"
    using dlist_add_tail [OF d, of "RunLink p"] assms(2) by auto
  moreover have "list_empty ?h (RunLink q)" if "q \<notin> set (xs @ [p])" for q
    using list_empty_add_tail [OF d, of "RunLink q" "RunLink p"] that assms(1)
    by (auto simp: rr_queue_def)
  ultimately show ?thesis using assms e
    by (auto simp: RR_enqueue_def rr_queue_def same_procs_def Let_def)
qed

lemma RR_dequeue_removes:
  assumes "rr_queue s xs" "p \<in> set xs"
  shows "\<exists>s'. RR_dequeue s p = Some s' \<and> rr_queue s' (remove1 p xs) \<and> same_procs s s'
    \<and> max_time_slice (rq s') = max_time_slice (rq s) \<and> procs s' = procs s"
proof -
  obtain us vs where xs: "xs = us @ p # vs" using split_list [OF assms(2)] by blast
  have dis: "p \<notin> set us" "p \<notin> set vs" using rr_queue_distinct [OF assms(1)] xs by auto
  have d: "dlist (run_links s) RunHead (map RunLink us @ RunLink p # map RunLink vs)"
    using assms xs by (auto simp: rr_queue_def)
  have ne: "\<not> list_empty (run_links s) (RunLink p)"
    using assms rr_queue_set by (auto simp: rr_queued_def)
  let ?h = "list_del_init (run_links s) (RunLink p)"
  have "list_empty ?h (RunLink q)" if "q \<notin> set (us @ vs)" for q
    using list_empty_del_other [OF d, of "RunLink q"] dlist_del_init(2) [OF d] that assms(1) xs
    by (cases "q = p") (auto simp: rr_queue_def)
  with dlist_del_init(1) [OF d] assms dis ne show ?thesis
    by (auto simp: RR_dequeue_def rr_queue_def same_procs_def Let_def xs remove1_append)
qed

lemma RR_pick_head:
  assumes "rr_queue s xs"
  shows "RR_pick_next s = Some (case xs of [] \<Rightarrow> None | x # _ \<Rightarrow> Some x, s)"
proof -
  have "list_next (run_links s) RunHead = hd (map RunLink xs @ [RunHead])"
    using assms list_next_head by (auto simp: rr_queue_def)
  then show ?thesis by (cases xs) (auto simp: RR_pick_next_def)
qed

lemma RR_tick_frame:
  "run_links (RR_proc_tick s p) = run_links s" "rq (RR_proc_tick s p) = rq s"
  "p_rq (procs (RR_proc_tick s p) q) = p_rq (procs s q)" "same_procs s (RR_proc_tick s p)"
  by (auto simp: RR_proc_tick_def same_procs_def Let_def)

lemmas rr_sc_simps =
  default_sched_class_def sched_class_enqueue_def sched_class_dequeue_def sched_class_pick_next_def

interpretation rr: sched_policy default_sched_class rr_inv rr_queued "\<lambda>_. True"
proof
  fix s p assume i: "rr_inv s" "p \<notin> rr_queued s"
  then obtain xs where xs: "rr_queue s xs" by (auto simp: rr_inv_def)
  with RR_enqueue_appends [OF xs, of p] i(2) rr_queue_set [OF xs]
  show "\<exists>s'. sc_enqueue default_sched_class s p = Some s' \<and> rr_inv s'
      \<and> rr_queued s' = insert p (rr_queued s) \<and> same_procs s s'"
    by (fastforce simp: rr_sc_simps rr_inv_def dest: rr_queue_set)
next
  fix s p assume i: "rr_inv s" "p \<in> rr_queued s"
  then obtain xs where xs: "rr_queue s xs" by (auto simp: rr_inv_def)
  with RR_dequeue_removes [OF xs, of p] i(2) rr_queue_set [OF xs] rr_queue_distinct [OF xs]
  show "\<exists>s'. sc_dequeue default_sched_class s p = Some s' \<and> rr_inv s'
      \<and> rr_queued s' = rr_queued s - {p} \<and> same_procs s s'"
    by (fastforce simp: rr_sc_simps rr_inv_def dest: rr_queue_set)
next
  fix s r s' assume i: "rr_inv s" "sc_pick_next default_sched_class s = Some (r, s')"
  then obtain xs where xs: "rr_queue s xs" by (auto simp: rr_inv_def)
  with RR_pick_head [OF xs] i rr_queue_set [OF xs]
  show "rr_inv s' \<and> rr_queued s' = rr_queued s \<and> same_procs s s'
      \<and> (case r of None \<Rightarrow> rr_queued s = {} | Some p \<Rightarrow> p \<in> rr_queued s)"
    by (cases xs) (auto simp: rr_sc_simps)
next
  fix s p assume "rr_inv s"
  then show "rr_inv (sc_proc_tick default_sched_class s p)
      \<and> rr_queued (sc_proc_tick default_sched_class s p) = rr_queued s
      \<and> same_procs s (sc_proc_tick default_sched_class s p)"
    using rr_queue_frame [OF RR_tick_frame(1,2,3), of s p]
    by (auto simp: rr_sc_simps rr_inv_def rr_queued_def RR_tick_frame)
next
  fix s s' :: sstate
  assume "run_links s' = run_links s" "rq s' = rq s" "\<And>q. p_rq (procs s' q) = p_rq (procs s q)"
  then show "rr_inv s' = rr_inv s \<and> rr_queued s' = rr_queued s"
    using rr_queue_frame [of s' s] by (auto simp: rr_inv_def rr_queued_def)
qed

subsection \<open>Properties of the default scheduler\<close>

definition rr_sched_inv :: "sstate \<Rightarrow> bool" where
  "rr_sched_inv s \<longleftrightarrow> (\<exists>xs. rr_queue s xs \<and>
     set xs = {p. p_state (procs s p) = PROC_RUNNABLE \<and> p \<noteq> current s \<and> p \<noteq> idleproc s})"

lemma rr_sched_inv_iff: "rr_sched_inv s = rr.sched_inv s"
  by (auto simp: rr_sched_inv_def rr.sched_inv_def rr_inv_def dest: rr_queue_set)

text \<open>One call of \<open>schedule\<close> by a process that is still runnable rotates the queue.\<close>

lemma rr_schedule_rotate:
  assumes "rr_queue s xs" "p_state (procs s (current s)) = PROC_RUNNABLE"
    and "current s \<noteq> idleproc s" "current s \<notin> set xs"
  shows "\<exists>s'. schedule default_sched_class s = Some s' \<and> current s' = hd (xs @ [current s])
    \<and> rr_queue s' (tl (xs @ [current s])) \<and> idleproc s' = idleproc s
    \<and> (\<forall>q. p_state (procs s' q) = p_state (procs s q))"
proof -
  let ?s1 = "upd_proc (current s) (\<lambda>q. q\<lparr>p_need_resched := False\<rparr>) s"
  let ?ys = "xs @ [current s]"
  have q1: "rr_queue ?s1 xs" using assms(1) rr_queue_frame [of ?s1 s xs] by simp
  then obtain s2 where s2: "RR_enqueue ?s1 (current s) = Some s2" "rr_queue s2 ?ys" "same_procs ?s1 s2"
    using RR_enqueue_appends assms(4) by blast
  obtain y zs where y: "?ys = y # zs" by (cases ?ys) auto
  have pick: "RR_pick_next s2 = Some (Some y, s2)"
    using RR_pick_head [OF s2(2)] by (simp add: y)
  obtain s3 where s3: "RR_dequeue s2 y = Some s3" "rr_queue s3 zs" "same_procs s2 s3"
    using RR_dequeue_removes [OF s2(2), of y] by (auto simp: y)
  let ?s4 = "upd_proc y (\<lambda>q. q\<lparr>p_runs := p_runs q + 1\<rparr>) s3"
  have same: "same_procs ?s1 s3" using s2(3) s3(3) same_procs_trans by blast
  have r: "schedule default_sched_class s = Some (?s4\<lparr>current := y\<rparr>)"
    using assms s2(1) s3(1) pick
    by (simp add: schedule_def rr_sc_simps Let_def proc_run_def)
  have "rr_queue (?s4\<lparr>current := y\<rparr>) zs"
    using s3(2) rr_queue_frame [of "?s4\<lparr>current := y\<rparr>" s3 zs] by simp
  moreover have "hd ?ys = y" "tl ?ys = zs" by (simp_all only: y list.sel)
  ultimately show ?thesis using r same by (intro exI [of _ "?s4\<lparr>current := y\<rparr>"]) (auto simp: same_procs_def)
qed

fun schedule_times :: "sched_class \<Rightarrow> nat \<Rightarrow> sstate \<Rightarrow> sstate option" where
  "schedule_times sc 0 s = Some s"
| "schedule_times sc (Suc n) s = Option.bind (schedule sc s) (schedule_times sc n)"

lemma rr_schedule_runs:
  assumes "rr_sched_inv s"
  shows "\<exists>s'. schedule default_sched_class s = Some s'"
proof -
  obtain xs where xs: "rr_queue s xs"
    "set xs = {p. p_state (procs s p) = PROC_RUNNABLE \<and> p \<noteq> current s \<and> p \<noteq> idleproc s}"
    using assms by (auto simp: rr_sched_inv_def)
  show ?thesis
  proof (cases "p_state (procs s (current s)) = PROC_RUNNABLE \<and> current s \<noteq> idleproc s")
    case True
    with rr_schedule_rotate [OF xs(1)] xs(2) show ?thesis by auto
  next
    case False
    let ?s1 = "upd_proc (current s) (\<lambda>q. q\<lparr>p_need_resched := False\<rparr>) s"
    have q1: "rr_queue ?s1 xs" using xs(1) rr_queue_frame [of ?s1 s xs] by simp
    then have "\<exists>t. RR_dequeue ?s1 (hd xs) = Some t" if "xs \<noteq> []"
      using RR_dequeue_removes [OF q1, of "hd xs"] that by auto
    with False RR_pick_head [OF q1] show ?thesis
      by (cases xs) (auto simp: schedule_def rr_sc_simps Let_def)
  qed
qed

text \<open>
  C5: The scheduler never loses a process. In every state in which exactly the runnable
  processes other than the running and the idle one are queued, \<open>schedule()\<close> under the default
  (round-robin) class does not panic, keeps that property, changes no process state, and
  switches to a runnable process, or to \<open>idleproc\<close> only when nothing else is runnable.
\<close>

theorem rr_schedule_correct:
  assumes "rr_sched_inv s"
  shows "\<exists>s'. schedule default_sched_class s = Some s' \<and> rr_sched_inv s'
    \<and> (\<forall>q. p_state (procs s' q) = p_state (procs s q))
    \<and> (if current s' = idleproc s then {p. p_state (procs s p) = PROC_RUNNABLE} \<subseteq> {idleproc s}
       else p_state (procs s' (current s')) = PROC_RUNNABLE)"
proof -
  obtain s' where "schedule default_sched_class s = Some s'" using rr_schedule_runs [OF assms] ..
  with rr.schedule_keeps [of s s'] assms show ?thesis
    by (auto simp: rr_sched_inv_iff)
qed

text \<open>
  \<open>wakeup_proc\<close> on a process that is not a zombie does not panic, makes it runnable, keeps
  the scheduler invariant (so the process is queued unless it is running) and leaves the
  states of all other processes alone; on a zombie it panics.
\<close>

lemma rr_wakeup_correct:
  assumes "rr_sched_inv s"
  shows "if p_state (procs s p) = PROC_ZOMBIE then wakeup_proc default_sched_class s p = None
    else \<exists>s'. wakeup_proc default_sched_class s p = Some s' \<and> rr_sched_inv s'
      \<and> p_state (procs s' p) = PROC_RUNNABLE
      \<and> (\<forall>q. q \<noteq> p \<longrightarrow> p_state (procs s' q) = p_state (procs s q))"
  using rr.wakeup_keeps [of s p] assms
  by (auto simp: rr_sched_inv_iff) (auto simp: wakeup_proc_def)

text \<open>
  C13: Round-robin fairness. While the running processes stay runnable, the process at position
  \<open>k\<close> of the run queue is running after exactly \<open>k + 1\<close> calls of \<open>schedule()\<close>.
\<close>

theorem rr_fair:
  assumes "rr_queue s xs" "k < length xs"
    and "current s \<notin> set xs" "current s \<noteq> idleproc s" "p_state (procs s (current s)) = PROC_RUNNABLE"
    and "\<forall>q \<in> set xs. p_state (procs s q) = PROC_RUNNABLE \<and> q \<noteq> idleproc s"
  shows "\<exists>s'. schedule_times default_sched_class (Suc k) s = Some s' \<and> current s' = xs ! k"
  using assms
proof (induction k arbitrary: s xs)
  case 0
  then show ?case using rr_schedule_rotate [of s xs] by (cases xs) auto
next
  case (Suc k)
  then obtain x ys where xs: "xs = x # ys" by (cases xs) auto
  obtain s1 where s1: "schedule default_sched_class s = Some s1" "current s1 = x"
    "rr_queue s1 (ys @ [current s])" "idleproc s1 = idleproc s"
    "\<forall>q. p_state (procs s1 q) = p_state (procs s q)"
    using rr_schedule_rotate [OF Suc.prems(1,5,4,3)] xs by auto
  have "x \<notin> set ys" using rr_queue_distinct [OF Suc.prems(1)] xs by simp
  then have "\<exists>s'. schedule_times default_sched_class (Suc k) s1 = Some s' \<and> current s' = (ys @ [current s]) ! k"
    using Suc.prems xs s1 by (intro Suc.IH [OF s1(3)]) auto
  moreover have "(ys @ [current s]) ! k = xs ! Suc k"
    using Suc.prems(2) xs by (simp add: nth_append)
  ultimately show ?case using s1(1) by simp
qed

text \<open>A concrete scheduler: process 0 is idle, 1 is running, 2 and 3 are queued.\<close>

definition blank_proc :: proc_struct where
  "blank_proc = \<lparr>p_state = PROC_UNINIT, p_pid = - 1, p_runs = 0, p_kstack = 0, p_need_resched = False,
     p_parent = None, p_mm = None, p_context = \<lparr>ctx_ra = 0, ctx_sp = 0, ctx_saved = (\<lambda>_. 0)\<rparr>,
     p_tf = None, p_pgdir = 0, p_flags = 0, p_name = [], p_exit_code = 0, p_wait_state = 0,
     p_cptr = None, p_yptr = None, p_optr = None, p_rq = False, p_time_slice = 0, p_stride = 0,
     p_priority = 0, p_filesp = None\<rparr>"

definition sample_sched :: sstate where
  "sample_sched =
     \<lparr>procs = (\<lambda>p. if p < 4 then blank_proc\<lparr>p_state := PROC_RUNNABLE, p_rq := (2 \<le> p)\<rparr> else blank_proc),
      run_links = \<lparr>lprev = (\<lambda>n. n)(RunHead := RunLink 3, RunLink 2 := RunHead, RunLink 3 := RunLink 2),
                   lnext = (\<lambda>n. n)(RunHead := RunLink 2, RunLink 2 := RunLink 3, RunLink 3 := RunHead)\<rparr>,
      pool = \<lparr>sparent = (\<lambda>_. None), sleft = (\<lambda>_. None), sright = (\<lambda>_. None)\<rparr>,
      rq = \<lparr>proc_num = 2, max_time_slice = 5, run_pool = None\<rparr>,
      timers = (\<lambda>_. \<lparr>expires = 0, t_proc = 0\<rparr>),
      timer_links = \<lparr>lprev = (\<lambda>n. n), lnext = (\<lambda>n. n)\<rparr>,
      current = 1, idleproc = 0\<rparr>"

lemma sample_queue: "rr_queue sample_sched [2, 3]"
  by (simp add: rr_queue_def sample_sched_def dlist_def list_empty_def)

lemma sample_inv: "rr_sched_inv sample_sched"
proof -
  have "set [2, 3] = {p. p_state (procs sample_sched p) = PROC_RUNNABLE
      \<and> p \<noteq> current sample_sched \<and> p \<noteq> idleproc sample_sched}"
    by (auto simp: sample_sched_def blank_proc_def)
  with sample_queue show ?thesis unfolding rr_sched_inv_def by blast
qed

theorem rr_schedule_correct_witness:
  "\<exists>s'. schedule default_sched_class sample_sched = Some s' \<and> rr_sched_inv s'"
  using rr_schedule_correct [OF sample_inv] by blast

theorem rr_fair_witness:
  "\<exists>s'. schedule_times default_sched_class 2 sample_sched = Some s' \<and> current s' = 3"
proof -
  have "\<exists>s'. schedule_times default_sched_class (Suc 1) sample_sched = Some s' \<and> current s' = [2, 3] ! 1"
    by (rule rr_fair [OF sample_queue]) (simp_all add: sample_sched_def blank_proc_def)
  then show ?thesis by (simp add: numeral_2_eq_2)
qed

end
