(* ===== verification/StrideSched.thy ===== *)
theory StrideSched
  imports Sched
begin

text \<open>
  The stride policy of \<open>kern/schedule/default_sched_stride.c\<close>: the run queue is a skew heap
  ordered by the signed 32-bit difference of the strides. Strides wrap around, so the order is
  meaningful only while all strides lie in a window of width \<open>BIG_STRIDE\<close>; the main theorem
  shows that every call of \<open>schedule\<close> picks the least stride and keeps such a window.
\<close>

definition BIG_STRIDE :: u32 where "BIG_STRIDE = 0x40000000"

definition proc_stride_comp_f :: "sstate \<Rightarrow> nat \<Rightarrow> nat \<Rightarrow> int" where
  "proc_stride_comp_f s p q =
     (let c = sint (p_stride (procs s p) - p_stride (procs s q))
      in if c > 0 then 1 else if c = 0 then 0 else - 1)"

definition stride_init :: "sstate \<Rightarrow> sstate" where
  "stride_init s =
     s\<lparr>run_links := list_init (run_links s) RunHead, rq := (rq s)\<lparr>run_pool := None, proc_num := 0\<rparr>\<rparr>"

definition stride_enqueue :: "sstate \<Rightarrow> nat \<Rightarrow> sstate option" where
  "stride_enqueue s p =
     do {
       (h, r) \<leftarrow> skew_heap_insert (proc_stride_comp_f s) (pool s) (run_pool (rq s)) p;
       let s = s\<lparr>pool := h, rq := (rq s)\<lparr>run_pool := r\<rparr>\<rparr>;
       let s = (if p_time_slice (procs s p) = 0 \<or> p_time_slice (procs s p) > max_time_slice (rq s)
                then upd_proc p (\<lambda>q. q\<lparr>p_time_slice := max_time_slice (rq s)\<rparr>) s else s);
       let s = upd_proc p (\<lambda>q. q\<lparr>p_rq := True\<rparr>) s;
       Some (s\<lparr>rq := (rq s)\<lparr>proc_num := proc_num (rq s) + 1\<rparr>\<rparr>)
     }"

definition stride_dequeue :: "sstate \<Rightarrow> nat \<Rightarrow> sstate option" where
  "stride_dequeue s p =
     do {
       assert_that (p_rq (procs s p) \<and> proc_num (rq s) > 0);
       (h, r) \<leftarrow> skew_heap_remove (proc_stride_comp_f s) (pool s) (run_pool (rq s)) p;
       Some (s\<lparr>pool := h, rq := (rq s)\<lparr>run_pool := r, proc_num := proc_num (rq s) - 1\<rparr>\<rparr>)
     }"

text \<open>The quotient \<open>BIG_STRIDE / proc->lab6_priority\<close> is undefined for priority 0.\<close>

definition stride_pick_next :: "sstate \<Rightarrow> (nat option \<times> sstate) option" where
  "stride_pick_next s =
     (case run_pool (rq s) of
        None \<Rightarrow> Some (None, s)
      | Some p \<Rightarrow>
          if p_priority (procs s p) = 0 then None
          else Some (Some p, upd_proc p (\<lambda>q. q\<lparr>p_stride := p_stride q + BIG_STRIDE div p_priority q\<rparr>) s))"

definition stride_proc_tick :: "sstate \<Rightarrow> nat \<Rightarrow> sstate" where
  "stride_proc_tick s p =
     (let s = (if p_time_slice (procs s p) > 0
               then upd_proc p (\<lambda>q. q\<lparr>p_time_slice := p_time_slice q - 1\<rparr>) s else s)
      in if p_time_slice (procs s p) = 0
         then upd_proc p (\<lambda>q. q\<lparr>p_need_resched := True\<rparr>) s else s)"

definition stride_sched_class :: sched_class where
  "stride_sched_class =
     \<lparr>sc_init = stride_init, sc_enqueue = stride_enqueue, sc_dequeue = stride_dequeue,
      sc_pick_next = stride_pick_next, sc_proc_tick = stride_proc_tick\<rparr>"

subsection \<open>Structure of the run pool\<close>

text \<open>Process identities are bounded, so the 32-bit counter \<open>proc_num\<close> counts the pool.\<close>

definition valid_proc :: "nat \<Rightarrow> bool" where
  "valid_proc p \<longleftrightarrow> p < 2147483648"

definition stride_pool :: "sstate \<Rightarrow> nat stree \<Rightarrow> bool" where
  "stride_pool s t \<longleftrightarrow> pheap (pool s) (run_pool (rq s)) t
     \<and> (\<forall>p \<in> set (nodes t). p_rq (procs s p) \<and> valid_proc p)
     \<and> proc_num (rq s) = word_of_nat (length (nodes t))"

definition stride_struct :: "sstate \<Rightarrow> bool" where
  "stride_struct s \<longleftrightarrow> (\<exists>t. stride_pool s t)"

definition stride_queued :: "sstate \<Rightarrow> nat set" where
  "stride_queued s = {p. \<exists>t. stride_pool s t \<and> p \<in> set (nodes t)}"

lemma pshape_unique: "pshape h t \<Longrightarrow> pshape h u \<Longrightarrow> root t = root u \<Longrightarrow> t = u"
proof (induction t arbitrary: u)
  case SLeaf
  then show ?case by (cases u) auto
next
  case (SNode l x r)
  then show ?case by (cases u) auto
qed

lemma stride_pool_unique: "stride_pool s t \<Longrightarrow> stride_pool s u \<Longrightarrow> t = u"
  using pshape_unique by (auto simp: stride_pool_def pheap_def)

lemma stride_queued_eq: "stride_pool s t \<Longrightarrow> stride_queued s = set (nodes t)"
  using stride_pool_unique by (auto simp: stride_queued_def)

lemma stride_pool_frame:
  "pool s' = pool s \<Longrightarrow> rq s' = rq s \<Longrightarrow> (\<And>q. p_rq (procs s' q) = p_rq (procs s q))
   \<Longrightarrow> stride_pool s' t = stride_pool s t"
  by (simp add: stride_pool_def)

lemma length_nodes_bound:
  assumes "stride_pool s t"
  shows "length (nodes t) \<le> 2147483648"
proof -
  have "length (nodes t) = card (set (nodes t))"
    using assms by (simp add: stride_pool_def pheap_def distinct_card)
  also have "\<dots> \<le> card {..<2147483648::nat}"
    by (rule card_mono) (use assms in \<open>auto simp: stride_pool_def valid_proc_def\<close>)
  finally show ?thesis by simp
qed

lemma stride_enqueue_pool:
  assumes "stride_pool s t" "p \<notin> set (nodes t)" "valid_proc p"
  shows "\<exists>s'. stride_enqueue s p = Some s'
    \<and> stride_pool s' (smerge (proc_stride_comp_f s) t (SNode SLeaf p SLeaf)) \<and> same_procs s s'
    \<and> (\<forall>q. p_stride (procs s' q) = p_stride (procs s q) \<and> p_priority (procs s' q) = p_priority (procs s q))"
proof -
  let ?t = "smerge (proc_stride_comp_f s) t (SNode SLeaf p SLeaf)"
  obtain h' where h': "skew_heap_insert (proc_stride_comp_f s) (pool s) (run_pool (rq s)) p = Some (h', root ?t)"
    "pheap h' (root ?t) ?t" "set (nodes ?t) = insert p (set (nodes t))"
    using skew_heap_insert_refines [of "pool s" "run_pool (rq s)" t p "proc_stride_comp_f s"] assms
    by (auto simp: stride_pool_def Let_def)
  have "length (nodes ?t) = Suc (length (nodes t))"
    using mset_smerge [of "proc_stride_comp_f s" t "SNode SLeaf p SLeaf", THEN mset_eq_length] by simp
  with h' assms show ?thesis
    by (auto simp: stride_enqueue_def stride_pool_def same_procs_def Let_def)
qed

lemma stride_dequeue_pool:
  assumes "stride_pool s t" "p \<in> set (nodes t)"
  shows "\<exists>s'. stride_dequeue s p = Some s'
    \<and> stride_pool s' (sremove (proc_stride_comp_f s) p t) \<and> same_procs s s' \<and> procs s' = procs s"
proof -
  let ?t = "sremove (proc_stride_comp_f s) p t"
  obtain h' where h': "skew_heap_remove (proc_stride_comp_f s) (pool s) (run_pool (rq s)) p = Some (h', root ?t)"
    "pheap h' (root ?t) ?t" "set (nodes ?t) = set (nodes t) - {p}"
    using skew_heap_remove_refines [of "pool s" "run_pool (rq s)" t p "proc_stride_comp_f s"] assms
    by (auto simp: stride_pool_def Let_def)
  have "length (nodes ?t) = length (remove1 p (nodes t))"
    using mset_sremove [of t "proc_stride_comp_f s" p, THEN mset_eq_length] assms
    by (simp add: stride_pool_def pheap_def)
  then have len: "length (nodes t) = Suc (length (nodes ?t))"
    using assms(2) length_pos_if_in_set [OF assms(2)] by (simp add: length_remove1)
  have "unat (proc_num (rq s)) = length (nodes t)"
    using assms(1) length_nodes_bound [OF assms(1)]
    by (simp add: stride_pool_def unat_of_nat_u32)
  then have "proc_num (rq s) > 0" using len by (metis unat_gt_0 word_neq_0_conv zero_less_Suc)
  with h' assms len show ?thesis
    by (auto simp: stride_dequeue_def stride_pool_def same_procs_def Let_def)
qed

lemmas stride_sc_simps =
  stride_sched_class_def sched_class_enqueue_def sched_class_dequeue_def sched_class_pick_next_def

interpretation stride: sched_policy stride_sched_class stride_struct stride_queued valid_proc
proof
  fix s p assume i: "stride_struct s" "p \<notin> stride_queued s" "valid_proc p"
  then obtain t where t: "stride_pool s t" by (auto simp: stride_struct_def)
  then have p: "p \<notin> set (nodes t)" using i(2) stride_queued_eq [OF t] by simp
  obtain s' u where s': "stride_enqueue s p = Some s'" "stride_pool s' u" "same_procs s s'"
    and u: "u = smerge (proc_stride_comp_f s) t (SNode SLeaf p SLeaf)"
    using stride_enqueue_pool [OF t p i(3)] by blast
  have "stride_queued s' = insert p (stride_queued s)"
    using stride_queued_eq [OF t] stride_queued_eq [OF s'(2)] by (simp add: u)
  with s' show "\<exists>s'. sc_enqueue stride_sched_class s p = Some s' \<and> stride_struct s'
      \<and> stride_queued s' = insert p (stride_queued s) \<and> same_procs s s'"
    by (auto simp: stride_sc_simps stride_struct_def)
next
  fix s p assume i: "stride_struct s" "p \<in> stride_queued s"
  then obtain t where t: "stride_pool s t" by (auto simp: stride_struct_def)
  then have p: "p \<in> set (nodes t)" and d: "distinct (nodes t)"
    using i(2) stride_queued_eq [OF t] by (simp_all add: stride_pool_def pheap_def)
  obtain s' u where s': "stride_dequeue s p = Some s'" "stride_pool s' u" "same_procs s s'"
    and u: "u = sremove (proc_stride_comp_f s) p t"
    using stride_dequeue_pool [OF t p] by blast
  have "stride_queued s' = stride_queued s - {p}"
    using stride_queued_eq [OF t] stride_queued_eq [OF s'(2)] d by (simp add: u)
  with s' show "\<exists>s'. sc_dequeue stride_sched_class s p = Some s' \<and> stride_struct s'
      \<and> stride_queued s' = stride_queued s - {p} \<and> same_procs s s'"
    by (auto simp: stride_sc_simps stride_struct_def)
next
  fix s r s' assume i: "stride_struct s" "sc_pick_next stride_sched_class s = Some (r, s')"
  then obtain t where t: "stride_pool s t" by (auto simp: stride_struct_def)
  then have r: "run_pool (rq s) = root t" by (simp add: stride_pool_def pheap_def)
  have "stride_pool s' t \<and> same_procs s s' \<and> r = root t"
    using i(2) t r stride_pool_frame [of s' s t]
    by (auto simp: stride_sc_simps stride_pick_next_def same_procs_def split: option.splits if_splits)
  with t stride_queued_eq [of s t] stride_queued_eq [of s' t] root_in_nodes [of t]
  show "stride_struct s' \<and> stride_queued s' = stride_queued s \<and> same_procs s s'
      \<and> (case r of None \<Rightarrow> stride_queued s = {} | Some p \<Rightarrow> p \<in> stride_queued s)"
    by (cases t) (auto simp: stride_struct_def)
next
  fix s p assume "stride_struct s"
  have "stride_pool (stride_proc_tick s p) t = stride_pool s t" for t
    by (rule stride_pool_frame) (auto simp: stride_proc_tick_def Let_def)
  with \<open>stride_struct s\<close> show "stride_struct (sc_proc_tick stride_sched_class s p)
      \<and> stride_queued (sc_proc_tick stride_sched_class s p) = stride_queued s
      \<and> same_procs s (sc_proc_tick stride_sched_class s p)"
    by (auto simp: stride_sc_simps stride_struct_def stride_queued_def)
       (auto simp: stride_proc_tick_def same_procs_def Let_def)
next
  fix s s' :: sstate
  assume "run_links s' = run_links s" "pool s' = pool s" "rq s' = rq s"
    "\<And>q. p_rq (procs s' q) = p_rq (procs s q)"
  then show "stride_struct s' = stride_struct s \<and> stride_queued s' = stride_queued s"
    using stride_pool_frame [of s' s] by (auto simp: stride_struct_def stride_queued_def)
qed

subsection \<open>Strides in a window\<close>

text \<open>\<open>stride_key s m p\<close>: how far the stride of \<open>p\<close> is ahead of \<open>m\<close>, modulo \<open>2^32\<close>.\<close>

definition stride_key :: "sstate \<Rightarrow> u32 \<Rightarrow> nat \<Rightarrow> nat" where
  "stride_key s m p = unat (p_stride (procs s p) - m)"

interpretation key_order: strict_weak "\<lambda>p q. stride_key s m p < stride_key s m q" for s m
  by unfold_locales auto

lemma unat_BIG_STRIDE: "unat BIG_STRIDE = 1073741824"
  by (simp add: BIG_STRIDE_def)

lemma sint_diff_small:
  fixes x y :: u32
  assumes "unat x \<le> 1073741824" "unat y \<le> 1073741824"
  shows "sint (x - y) = int (unat x) - int (unat y)"
proof -
  have "sint (x - y) = signed_take_bit 31 (uint x - uint y)"
  proof -
    have "sint (x - y) = signed_take_bit 31 (take_bit 32 (uint x - uint y))"
      unfolding sint_uint uint_word_ariths(2) take_bit_eq_mod by simp
    then show ?thesis unfolding signed_take_bit_take_bit by simp
  qed
  also have "\<dots> = uint x - uint y"
  proof (rule signed_take_bit_int_eq_self)
    have "int (unat x) \<le> 1073741824" "int (unat y) \<le> 1073741824" using assms by linarith+
    then have b: "uint x \<le> 1073741824" "uint y \<le> 1073741824" by simp_all
    have n: "0 \<le> uint x" "0 \<le> uint y" by simp_all
    have e: "(2::int) ^ 31 = 2147483648" by simp
    show "- (2 ^ 31) \<le> uint x - uint y" unfolding e using b(2) n(1) by linarith
    show "uint x - uint y < 2 ^ 31" unfolding e using b(1) n(2) by linarith
  qed
  finally show ?thesis by simp
qed

text \<open>Inside the window the wrapped comparison is the comparison of the keys.\<close>

lemma stride_comp_window:
  assumes "stride_key s m p \<le> unat BIG_STRIDE" "stride_key s m q \<le> unat BIG_STRIDE"
  shows "proc_stride_comp_f s p q = sgn (int (stride_key s m p) - int (stride_key s m q))"
proof -
  have "p_stride (procs s p) - p_stride (procs s q)
      = (p_stride (procs s p) - m) - (p_stride (procs s q) - m)" by simp
  then have "sint (p_stride (procs s p) - p_stride (procs s q))
      = int (stride_key s m p) - int (stride_key s m q)"
    using assms sint_diff_small unfolding stride_key_def unat_BIG_STRIDE by presburger
  then show ?thesis by (simp add: proc_stride_comp_f_def Let_def sgn_if)
qed

lemma comp_lt_iff:
  assumes "stride_key s m p \<le> unat BIG_STRIDE" "stride_key s m q \<le> unat BIG_STRIDE"
  shows "proc_stride_comp_f s p q = - 1 \<longleftrightarrow> stride_key s m p < stride_key s m q"
  using stride_comp_window [OF assms] by (simp add: sgn_if)

text \<open>Moving the window to the least stride.\<close>

lemma stride_key_rebase:
  assumes "stride_key s m p \<le> stride_key s m q"
  shows "stride_key s (p_stride (procs s p)) q = stride_key s m q - stride_key s m p"
proof -
  have "p_stride (procs s p) - m \<le> p_stride (procs s q) - m"
    using assms by (simp add: stride_key_def word_le_nat_alt)
  then have "unat ((p_stride (procs s q) - m) - (p_stride (procs s p) - m))
      = unat (p_stride (procs s q) - m) - unat (p_stride (procs s p) - m)"
    by (rule unat_sub)
  then show ?thesis by (simp add: stride_key_def)
qed

definition stride_ready :: "sstate \<Rightarrow> u32 \<Rightarrow> nat \<Rightarrow> bool" where
  "stride_ready s m p \<longleftrightarrow> stride_key s m p \<le> unat BIG_STRIDE \<and> p_priority (procs s p) \<noteq> 0"

definition stride_inv :: "sstate \<Rightarrow> u32 \<Rightarrow> nat set \<Rightarrow> bool" where
  "stride_inv s m Q \<longleftrightarrow> (\<exists>t. stride_pool s t \<and> set (nodes t) = Q
     \<and> strict_weak.ordered (\<lambda>p q. stride_key s m p < stride_key s m q) t
     \<and> (\<forall>p \<in> Q. stride_ready s m p))"

lemma ordered_key_cong:
  assumes "\<And>p q. p \<in> set (nodes t) \<Longrightarrow> q \<in> set (nodes t) \<Longrightarrow>
    (stride_key s m p < stride_key s m q) = (stride_key s' m' p < stride_key s' m' q)"
  shows "key_order.ordered s m t = key_order.ordered s' m' t"
  using assms
proof (induction t)
  case (SNode l x r)
  then have "key_order.ordered s m l = key_order.ordered s' m' l"
    "key_order.ordered s m r = key_order.ordered s' m' r" by auto
  with SNode.prems show ?case by (auto 0 3)
qed simp


text \<open>The two updates of a scheduling step.\<close>

lemma stride_enqueue_inv:
  assumes "stride_inv s m Q" "p \<notin> Q" "valid_proc p" "stride_ready s m p"
  shows "\<exists>s'. stride_enqueue s p = Some s' \<and> stride_inv s' m (insert p Q) \<and> same_procs s s'
    \<and> (\<forall>q. p_stride (procs s' q) = p_stride (procs s q) \<and> p_priority (procs s' q) = p_priority (procs s q))"
proof -
  obtain t where t: "stride_pool s t" "set (nodes t) = Q" "key_order.ordered s m t"
    "\<forall>p \<in> Q. stride_ready s m p" using assms(1) by (auto simp: stride_inv_def)
  let ?u = "smerge (proc_stride_comp_f s) t (SNode SLeaf p SLeaf)"
  obtain s' where s': "stride_enqueue s p = Some s'" "stride_pool s' ?u" "same_procs s s'"
    "\<forall>q. p_stride (procs s' q) = p_stride (procs s q) \<and> p_priority (procs s' q) = p_priority (procs s q)"
    using stride_enqueue_pool [OF t(1)] assms t(2) by blast
  have k: "stride_key s' m q = stride_key s m q" for q using s'(4) by (simp add: stride_key_def)
  have c: "proc_stride_comp_f s x y = - 1 \<longleftrightarrow> stride_key s m x < stride_key s m y"
    if "x \<in> insert p Q" "y \<in> insert p Q" for x y
    by (rule comp_lt_iff) (use that t(4) assms(4) in \<open>auto simp: stride_ready_def\<close>)
  have "key_order.ordered s m ?u"
  proof (rule key_order.ordered_smerge [OF t(3)])
    fix x y assume "x \<in> set (nodes t)" "y \<in> set (nodes (SNode SLeaf p SLeaf))"
    then have "x \<in> insert p Q" "y \<in> insert p Q" using t(2) by simp_all
    then show "proc_stride_comp_f s x y = - 1 \<longleftrightarrow> stride_key s m x < stride_key s m y"
      by (rule c)
  qed simp
  then have "key_order.ordered s' m ?u" by (simp only: k)
  moreover have "\<forall>q \<in> insert p Q. stride_ready s' m q"
    using t(4) assms(4) s'(4) k by (simp add: stride_ready_def)
  moreover have "set (nodes ?u) = insert p Q" using t(2) by auto
  ultimately have "stride_inv s' m (insert p Q)"
    unfolding stride_inv_def using s'(2) by blast
  with s' show ?thesis by blast
qed

lemma stride_pick_dequeue:
  assumes "stride_inv s m Q" "Q \<noteq> {}"
  shows "\<exists>p s1 s2. stride_pick_next s = Some (Some p, s1) \<and> stride_dequeue s1 p = Some s2 \<and> p \<in> Q
    \<and> (\<forall>q \<in> Q. stride_key s m p \<le> stride_key s m q)
    \<and> stride_inv s2 (p_stride (procs s p)) (Q - {p}) \<and> same_procs s s2
    \<and> stride_ready s2 (p_stride (procs s p)) p
    \<and> p_stride (procs s2 p) = p_stride (procs s p) + BIG_STRIDE div p_priority (procs s p)"
proof -
  obtain t where t: "stride_pool s t" "set (nodes t) = Q" "key_order.ordered s m t"
    "\<forall>p \<in> Q. stride_ready s m p" using assms(1) by (auto simp: stride_inv_def)
  obtain l p r where tp: "t = SNode l p r" using t(2) assms(2) by (cases t) auto
  let ?m' = "p_stride (procs s p)"
  let ?s1 = "upd_proc p (\<lambda>q. q\<lparr>p_stride := p_stride q + BIG_STRIDE div p_priority q\<rparr>) s"
  have pQ: "p \<in> Q" and d: "p \<notin> set (nodes l @ nodes r)" "distinct (nodes t)"
    using t tp by (auto simp: stride_pool_def pheap_def)
  have least: "\<forall>q \<in> Q. stride_key s m p \<le> stride_key s m q"
    using key_order.ordered_root_least [OF t(3), of p] t(2) tp by (auto simp: not_less)
  have pick: "stride_pick_next s = Some (Some p, ?s1)"
    using t(1,4) tp pQ by (auto simp: stride_pick_next_def stride_pool_def pheap_def stride_ready_def)
  have pool1: "stride_pool ?s1 t" using t(1) stride_pool_frame [of ?s1 s t] by simp
  let ?u = "smerge (proc_stride_comp_f ?s1) l r"
  obtain s2 where s2: "stride_dequeue ?s1 p = Some s2" "stride_pool s2 ?u" "same_procs ?s1 s2"
    "procs s2 = procs ?s1"
    using stride_dequeue_pool [OF pool1, of p] tp by auto
  have key2: "stride_key s2 ?m' q = stride_key s m q - stride_key s m p" if "q \<in> Q" "q \<noteq> p" for q
    using stride_key_rebase [of s m p q] least that s2(4) by (simp add: stride_key_def)
  have ready2: "stride_ready s2 ?m' q" if "q \<in> Q" "q \<noteq> p" for q
    using key2 [OF that] t(4) that s2(4) by (auto simp: stride_ready_def)
  have key1: "stride_key ?s1 m q = stride_key s m q" if "q \<noteq> p" for q
    using that by (simp add: stride_key_def)
  have ne: "q \<noteq> p \<and> q \<in> Q" if "q \<in> set (nodes l) \<union> set (nodes r)" for q
    using that d t(2) tp by auto
  have "key_order.ordered ?s1 m l \<and> key_order.ordered ?s1 m r"
    using t(3) tp ordered_key_cong [of l s m ?s1 m] ordered_key_cong [of r s m ?s1 m] key1 ne by auto
  moreover have "proc_stride_comp_f ?s1 x y = - 1 \<longleftrightarrow> stride_key ?s1 m x < stride_key ?s1 m y"
    if "x \<in> set (nodes l)" "y \<in> set (nodes r)" for x y
    by (rule comp_lt_iff) (use that ne [of x] ne [of y] key1 [of x] key1 [of y] t(4) in \<open>auto simp: stride_ready_def\<close>)
  ultimately have "key_order.ordered ?s1 m ?u"
    by (intro key_order.ordered_smerge) blast+
  moreover have "key_order.ordered ?s1 m ?u = key_order.ordered s2 ?m' ?u"
  proof (rule ordered_key_cong)
    fix x y assume "x \<in> set (nodes ?u)" "y \<in> set (nodes ?u)"
    then have "x \<noteq> p \<and> x \<in> Q" "y \<noteq> p \<and> y \<in> Q" using ne by auto
    with key1 key2 least show "(stride_key ?s1 m x < stride_key ?s1 m y) = (stride_key s2 ?m' x < stride_key s2 ?m' y)"
      by (simp add: diff_less_mono linorder_not_less less_diff_iff)
  qed
  moreover have u: "set (nodes ?u) = Q - {p}" using t(2) tp d by auto
  ultimately have "stride_inv s2 ?m' (Q - {p})"
    using s2(2) ready2 by (auto simp: stride_inv_def)
  moreover have "BIG_STRIDE div p_priority (procs s p) \<le> BIG_STRIDE"
    by (simp add: word_le_nat_alt unat_div)
  then have "stride_ready s2 ?m' p"
    using t(4) pQ s2(4) by (auto simp: stride_ready_def stride_key_def word_le_nat_alt)
  moreover have "same_procs s s2" using s2(3) by (auto simp: same_procs_def)
  ultimately show ?thesis using pick s2 pQ least by (intro exI [of _ p] exI [of _ ?s1] exI [of _ s2]) auto
qed

text \<open>
  C15: One scheduling decision of the stride class. Let the strides of the queued processes and of
  the running process lie within \<open>BIG_STRIDE\<close> of some base \<open>m\<close> (modulo \<open>2^32\<close>) and all
  priorities be positive. Then \<open>schedule()\<close> does not panic, switches to a process of least stride
  among all of them, advances its stride by \<open>BIG_STRIDE / priority\<close>, keeps the rest queued, and
  re-establishes the window with the old stride of that process as the new base: strides never
  drift apart by more than \<open>BIG_STRIDE\<close>, so the signed comparison stays right forever.
\<close>

theorem stride_schedule_picks_least:
  assumes "stride_inv s m Q" "current s \<notin> Q" "valid_proc (current s)" "stride_ready s m (current s)"
    and "current s \<noteq> idleproc s" "p_state (procs s (current s)) = PROC_RUNNABLE"
  shows "\<exists>s' p. schedule stride_sched_class s = Some s' \<and> current s' = p
    \<and> p \<in> insert (current s) Q \<and> (\<forall>q \<in> insert (current s) Q. stride_key s m p \<le> stride_key s m q)
    \<and> p_stride (procs s' p) = p_stride (procs s p) + BIG_STRIDE div p_priority (procs s p)
    \<and> stride_inv s' (p_stride (procs s p)) (insert (current s) Q - {p})
    \<and> stride_ready s' (p_stride (procs s p)) p
    \<and> (\<forall>q. p_state (procs s' q) = p_state (procs s q))"
proof -
  let ?c = "current s" let ?Q = "insert ?c Q"
  let ?s1 = "upd_proc ?c (\<lambda>q. q\<lparr>p_need_resched := False\<rparr>) s"
  have k1: "stride_key ?s1 m = stride_key s m" by (auto simp: stride_key_def)
  have frame: "stride_inv s'' m' Q' = stride_inv s' m' Q'"
    if "pool s'' = pool s'" "rq s'' = rq s'" "\<And>q. p_rq (procs s'' q) = p_rq (procs s' q)"
      "\<And>q. p_stride (procs s'' q) = p_stride (procs s' q)"
      "\<And>q. p_priority (procs s'' q) = p_priority (procs s' q)" for s' s'' m' Q'
    using that by (simp add: stride_inv_def stride_ready_def stride_key_def stride_pool_frame [of s'' s'])
  have "stride_inv ?s1 m Q" "stride_ready ?s1 m ?c"
    using assms(1,4) frame [of ?s1 s] by (auto simp: stride_ready_def k1)
  then obtain s2 where s2: "stride_enqueue ?s1 ?c = Some s2" "stride_inv s2 m ?Q" "same_procs ?s1 s2"
    "\<forall>q. p_stride (procs s2 q) = p_stride (procs s q) \<and> p_priority (procs s2 q) = p_priority (procs s q)"
    using stride_enqueue_inv [of ?s1 m Q ?c] assms(2,3) by auto
  obtain p s3 s4 where p: "stride_pick_next s2 = Some (Some p, s3)" "stride_dequeue s3 p = Some s4" "p \<in> ?Q"
    "\<forall>q \<in> ?Q. stride_key s2 m p \<le> stride_key s2 m q"
    "stride_inv s4 (p_stride (procs s2 p)) (?Q - {p})" "same_procs s2 s4"
    "stride_ready s4 (p_stride (procs s2 p)) p"
    "p_stride (procs s4 p) = p_stride (procs s2 p) + BIG_STRIDE div p_priority (procs s2 p)"
    using stride_pick_dequeue [OF s2(2)] by blast
  let ?s5 = "upd_proc p (\<lambda>q. q\<lparr>p_runs := p_runs q + 1\<rparr>) s4"
  have r: "schedule stride_sched_class s = Some (?s5\<lparr>current := p\<rparr>)"
    using assms(5,6) s2(1) p(1,2) by (simp add: schedule_def stride_sc_simps Let_def proc_run_def)
  have k2: "stride_key s2 m q = stride_key s m q" for q using s2(4) by (simp add: stride_key_def)
  have "stride_inv (?s5\<lparr>current := p\<rparr>) (p_stride (procs s p)) (?Q - {p})"
    using p(5) frame [of "?s5\<lparr>current := p\<rparr>" s4] s2(4) by simp
  moreover have "stride_ready (?s5\<lparr>current := p\<rparr>) (p_stride (procs s p)) p"
    using p(7) s2(4) by (auto simp: stride_ready_def stride_key_def)
  moreover have "same_procs ?s1 s4" using s2(3) p(6) same_procs_trans by blast
  ultimately show ?thesis using r p s2(4) k2
    by (intro exI [of _ "?s5\<lparr>current := p\<rparr>"] exI [of _ p]) (auto simp: same_procs_def)
qed

text \<open>
  A process that never called \<open>lab6_set_priority\<close> has priority 0 (\<open>alloc_proc\<close> sets
  \<open>lab6_priority = 0\<close>), and picking it from the run pool divides by zero: \<open>stride_pick_next\<close> has
  no defined result whenever such a process is at the root.
\<close>

lemma stride_pick_priority_zero:
  "run_pool (rq s) = Some p \<Longrightarrow> stride_pick_next s = None \<longleftrightarrow> p_priority (procs s p) = 0"
  by (simp add: stride_pick_next_def)

text \<open>A concrete pool: process 1 runs, 2 is queued; the strides have just wrapped around.\<close>

definition sample_stride :: sstate where
  "sample_stride =
     \<lparr>procs = (\<lambda>p. \<lparr>p_state = PROC_RUNNABLE, p_pid = - 1, p_runs = 0, p_kstack = 0, p_need_resched = False,
        p_parent = None, p_mm = None, p_context = \<lparr>ctx_ra = 0, ctx_sp = 0, ctx_saved = (\<lambda>_. 0)\<rparr>,
        p_tf = None, p_pgdir = 0, p_flags = 0, p_name = [], p_exit_code = 0, p_wait_state = 0,
        p_cptr = None, p_yptr = None, p_optr = None, p_rq = True, p_time_slice = 0,
        p_stride = (if p = 2 then 0xFFFFFFF0 else 5), p_priority = 2, p_filesp = None\<rparr>),
      run_links = \<lparr>lprev = (\<lambda>n. n), lnext = (\<lambda>n. n)\<rparr>,
      pool = \<lparr>sparent = (\<lambda>_. None), sleft = (\<lambda>_. None), sright = (\<lambda>_. None)\<rparr>,
      rq = \<lparr>proc_num = 1, max_time_slice = 5, run_pool = Some 2\<rparr>,
      timers = (\<lambda>_. \<lparr>expires = 0, t_proc = 0\<rparr>),
      timer_links = \<lparr>lprev = (\<lambda>n. n), lnext = (\<lambda>n. n)\<rparr>,
      current = 1, idleproc = 0\<rparr>"

theorem stride_schedule_picks_least_witness:
  "\<exists>s'. schedule stride_sched_class sample_stride = Some s' \<and> current s' = 2"
proof -
  have inv: "stride_inv sample_stride 0xFFFFFFF0 {2}"
    unfolding stride_inv_def
  proof (intro exI conjI)
    show "key_order.ordered sample_stride 0xFFFFFFF0 (SNode SLeaf 2 SLeaf)" by simp
  qed (simp_all add: stride_pool_def pheap_def sample_stride_def valid_proc_def stride_ready_def
         stride_key_def unat_BIG_STRIDE)
  obtain s' p where "schedule stride_sched_class sample_stride = Some s'" "current s' = p"
    "p \<in> {1, 2}" "\<forall>q \<in> {1, 2}. stride_key sample_stride 0xFFFFFFF0 p \<le> stride_key sample_stride 0xFFFFFFF0 q"
    using stride_schedule_picks_least [OF inv]
    by (auto simp: sample_stride_def valid_proc_def stride_ready_def stride_key_def unat_BIG_STRIDE)
  then show ?thesis by (auto simp: sample_stride_def stride_key_def)
qed

end
