(* ===== verification/Timers.thy ===== *)
theory Timers
  imports RRSched StrideSched
begin

text \<open>
  The kernel timers of \<open>kern/schedule/sched.c\<close>: a list sorted by expiry in which every timer
  stores the difference to its predecessor. The abstraction \<open>due\<close> gives each timer the number
  of ticks left; the lemmas show that \<open>add_timer\<close> inserts at the right place, \<open>del_timer\<close>
  and one tick of \<open>run_timer_list\<close> change the other timers' ticks as they should.
\<close>

text \<open>The search loop of \<open>add_timer\<close>, from the list node \<open>le\<close>.\<close>

partial_function (option) add_timer_loop :: "sstate \<Rightarrow> nat \<Rightarrow> tnode \<Rightarrow> (sstate \<times> tnode) option" where
  "add_timer_loop s t le =
     (case le of
        TimerHead \<Rightarrow> Some (s, le)
      | TimerLink nx \<Rightarrow>
          if expires (timers s t) < expires (timers s nx) then
            Some (upd_timer nx (\<lambda>x. x\<lparr>expires := expires x - expires (timers s t)\<rparr>) s, le)
          else
            (let s = upd_timer t (\<lambda>x. x\<lparr>expires := expires x - expires (timers s nx)\<rparr>) s
             in add_timer_loop s t (list_next (timer_links s) le)))"

definition add_timer :: "sstate \<Rightarrow> nat \<Rightarrow> sstate option" where
  "add_timer s t =
     do {
       assert_that (expires (timers s t) > 0);
       assert_that (list_empty (timer_links s) (TimerLink t));
       (s, le) \<leftarrow> add_timer_loop s t (list_next (timer_links s) TimerHead);
       Some (s\<lparr>timer_links := list_add_before (timer_links s) le (TimerLink t)\<rparr>)
     }"

definition del_timer :: "sstate \<Rightarrow> nat \<Rightarrow> sstate" where
  "del_timer s t =
     (if \<not> list_empty (timer_links s) (TimerLink t) then
        let s = (if expires (timers s t) \<noteq> 0 then
                   (case list_next (timer_links s) (TimerLink t) of
                      TimerHead \<Rightarrow> s
                    | TimerLink nx \<Rightarrow>
                        upd_timer nx (\<lambda>x. x\<lparr>expires := expires x + expires (timers s t)\<rparr>) s)
                 else s)
        in s\<lparr>timer_links := list_del_init (timer_links s) (TimerLink t)\<rparr>
      else s)"

text \<open>The loop of \<open>run_timer_list\<close> over the timers that have reached 0; \<open>le\<close> is the node of \<open>t\<close>.\<close>

unbundle bit_operations_syntax

partial_function (option) run_timer_loop :: "sched_class \<Rightarrow> sstate \<Rightarrow> nat \<Rightarrow> sstate option" where
  "run_timer_loop sc s t =
     (if expires (timers s t) = 0 then
        do {
          let le = list_next (timer_links s) (TimerLink t);
          let p = t_proc (timers s t);
          assert_that (p_wait_state (procs s p) \<noteq> 0 \<longrightarrow> p_wait_state (procs s p) AND WT_INTERRUPTED \<noteq> 0);
          s \<leftarrow> wakeup_proc sc s p;
          let s = del_timer s t;
          case le of TimerHead \<Rightarrow> Some s | TimerLink t' \<Rightarrow> run_timer_loop sc s t'
        }
      else Some s)"

definition run_timer_list :: "sched_class \<Rightarrow> sstate \<Rightarrow> sstate option" where
  "run_timer_list sc s =
     do {
       s \<leftarrow> (case list_next (timer_links s) TimerHead of
               TimerHead \<Rightarrow> Some s
             | TimerLink t \<Rightarrow>
                 do {
                   assert_that (expires (timers s t) \<noteq> 0);
                   let s = upd_timer t (\<lambda>x. x\<lparr>expires := expires x - 1\<rparr>) s;
                   run_timer_loop sc s t
                 });
       Some (sched_class_proc_tick sc s (current s))
     }"

subsection \<open>Ticks left\<close>

fun due :: "(nat \<Rightarrow> timer) \<Rightarrow> nat \<Rightarrow> nat list \<Rightarrow> (nat \<times> nat) list" where
  "due T acc [] = []"
| "due T acc (t # ts) =
     (t, acc + unat (expires (T t))) # due T (acc + unat (expires (T t))) ts"

definition timer_list :: "sstate \<Rightarrow> nat list \<Rightarrow> bool" where
  "timer_list s ts \<longleftrightarrow> dlist (timer_links s) TimerHead (map TimerLink ts)"

definition ticks_left :: "sstate \<Rightarrow> nat list \<Rightarrow> (nat \<times> nat) list" where
  "ticks_left s ts = due (timers s) 0 ts"

fun ticks_sum :: "(nat \<Rightarrow> timer) \<Rightarrow> nat list \<Rightarrow> nat" where
  "ticks_sum T [] = 0"
| "ticks_sum T (t # ts) = unat (expires (T t)) + ticks_sum T ts"

lemma due_append: "due T acc (xs @ ys) = due T acc xs @ due T (acc + ticks_sum T xs) ys"
  by (induction xs arbitrary: acc) (auto simp: add.assoc)

lemma due_cong: "(\<And>t. t \<in> set ts \<Longrightarrow> expires (T' t) = expires (T t)) \<Longrightarrow> due T' acc ts = due T acc ts"
  by (induction ts arbitrary: acc) auto

lemma ticks_sum_cong: "(\<And>t. t \<in> set ts \<Longrightarrow> expires (T' t) = expires (T t)) \<Longrightarrow> ticks_sum T' ts = ticks_sum T ts"
  by (induction ts) auto

lemma timer_list_distinct: "timer_list s ts \<Longrightarrow> distinct ts"
  by (auto simp: timer_list_def dlist_def distinct_map)

lemma timer_node_next:
  "timer_list s (us @ t # vs) \<Longrightarrow>
   list_next (timer_links s) (TimerLink t) = (case vs of [] \<Rightarrow> TimerHead | v # _ \<Rightarrow> TimerLink v)"
  using list_next_node [of "timer_links s" TimerHead "map TimerLink us" "TimerLink t" "map TimerLink vs"]
  by (cases vs) (auto simp: timer_list_def)

lemma timer_head_next:
  "timer_list s ts \<Longrightarrow> list_next (timer_links s) TimerHead = (case ts of [] \<Rightarrow> TimerHead | v # _ \<Rightarrow> TimerLink v)"
  using list_next_head [of "timer_links s" TimerHead "map TimerLink ts"]
  by (cases ts) (auto simp: timer_list_def)

subsection \<open>add_timer\<close>

text \<open>
  Where the search stops: before the first timer that expires later. The new timer's field
  becomes its distance to the predecessor, the successor's field its distance to the new timer.
\<close>

lemma add_timer_loop_spec:
  assumes "timer_list s (us @ vs)" "t \<notin> set (us @ vs)"
  shows "\<exists>s' xs ys. vs = xs @ ys
    \<and> add_timer_loop s t (case vs of [] \<Rightarrow> TimerHead | v # _ \<Rightarrow> TimerLink v)
        = Some (s', case ys of [] \<Rightarrow> TimerHead | v # _ \<Rightarrow> TimerLink v)
    \<and> timer_links s' = timer_links s \<and> procs s' = procs s \<and> run_links s' = run_links s
    \<and> pool s' = pool s \<and> rq s' = rq s \<and> current s' = current s \<and> idleproc s' = idleproc s
    \<and> ticks_sum (timers s) xs + unat (expires (timers s' t)) = unat (expires (timers s t))
    \<and> (\<forall>q. q \<noteq> t \<longrightarrow> (ys = [] \<or> q \<noteq> hd ys) \<longrightarrow> timers s' q = timers s q)
    \<and> (ys \<noteq> [] \<longrightarrow> unat (expires (timers s' t)) < unat (expires (timers s (hd ys)))
         \<and> unat (expires (timers s' (hd ys))) + unat (expires (timers s' t)) = unat (expires (timers s (hd ys))))"
  using assms
proof (induction vs arbitrary: s us)
  case Nil
  then show ?case
    by (intro exI [of _ s] exI [of _ "[]"]) (simp add: add_timer_loop.simps)
next
  case (Cons v vs)
  have vt: "v \<noteq> t" using Cons.prems by auto
  show ?case
  proof (cases "expires (timers s t) < expires (timers s v)")
    case True
    let ?s = "upd_timer v (\<lambda>x. x\<lparr>expires := expires x - expires (timers s t)\<rparr>) s"
    have "expires (timers s t) \<le> expires (timers s v)" using True by simp
    then have "unat (expires (timers s v) - expires (timers s t)) = unat (expires (timers s v)) - unat (expires (timers s t))"
      by (rule unat_sub)
    with True vt show ?thesis
      by (intro exI [of _ ?s] exI [of _ "[]"] exI [of _ "v # vs"])
         (simp add: add_timer_loop.simps [of s t "TimerLink v"] word_less_nat_alt)
  next
    case False
    let ?s = "upd_timer t (\<lambda>x. x\<lparr>expires := expires x - expires (timers s v)\<rparr>) s"
    have le: "expires (timers s v) \<le> expires (timers s t)" using False by simp
    then have sub: "unat (expires (timers s t) - expires (timers s v)) = unat (expires (timers s t)) - unat (expires (timers s v))"
      by (rule unat_sub)
    have tl: "timer_list ?s ((us @ [v]) @ vs)" using Cons.prems(1) by (simp add: timer_list_def)
    have nx: "list_next (timer_links ?s) (TimerLink v) = (case vs of [] \<Rightarrow> TimerHead | v # _ \<Rightarrow> TimerLink v)"
      using timer_node_next [of ?s us v vs] tl by simp
    have t: "t \<notin> set ((us @ [v]) @ vs)" using Cons.prems by auto
    obtain s' xs ys where ih: "vs = xs @ ys"
      "add_timer_loop ?s t (case vs of [] \<Rightarrow> TimerHead | v # _ \<Rightarrow> TimerLink v)
        = Some (s', case ys of [] \<Rightarrow> TimerHead | v # _ \<Rightarrow> TimerLink v)"
      "timer_links s' = timer_links ?s" "procs s' = procs ?s" "run_links s' = run_links ?s"
      "pool s' = pool ?s" "rq s' = rq ?s" "current s' = current ?s" "idleproc s' = idleproc ?s"
      "ticks_sum (timers ?s) xs + unat (expires (timers s' t)) = unat (expires (timers ?s t))"
      "\<forall>q. q \<noteq> t \<longrightarrow> (ys = [] \<or> q \<noteq> hd ys) \<longrightarrow> timers s' q = timers ?s q"
      "ys \<noteq> [] \<longrightarrow> unat (expires (timers s' t)) < unat (expires (timers ?s (hd ys)))
         \<and> unat (expires (timers s' (hd ys))) + unat (expires (timers s' t)) = unat (expires (timers ?s (hd ys)))"
      using Cons.IH [OF tl t] by (elim exE conjE) (rule that)
    have tot: "ticks_sum (timers ?s) xs = ticks_sum (timers s) xs"
      by (rule ticks_sum_cong) (use t ih(1) in auto)
    have hd: "hd ys \<noteq> t" if "ys \<noteq> []" using that t ih(1) by (cases ys) auto
    have "add_timer_loop s t (TimerLink v) = add_timer_loop ?s t (list_next (timer_links ?s) (TimerLink v))"
      using False by (simp add: add_timer_loop.simps [of s t "TimerLink v"] Let_def)
    then have run: "add_timer_loop s t (TimerLink v) = Some (s', case ys of [] \<Rightarrow> TimerHead | v # _ \<Rightarrow> TimerLink v)"
      unfolding nx ih(2) .
    have e1: "unat (expires (timers s v)) \<le> unat (expires (timers s t))" using le by (simp add: word_le_nat_alt)
    have sum: "ticks_sum (timers s) (v # xs) + unat (expires (timers s' t)) = unat (expires (timers s t))"
      using ih(10) tot sub e1 vt by simp
    have fr: "\<forall>q. q \<noteq> t \<longrightarrow> (ys = [] \<or> q \<noteq> hd ys) \<longrightarrow> timers s' q = timers s q"
      using ih(11) by simp
    have nxt: "ys \<noteq> [] \<longrightarrow> unat (expires (timers s' t)) < unat (expires (timers s (hd ys)))
         \<and> unat (expires (timers s' (hd ys))) + unat (expires (timers s' t)) = unat (expires (timers s (hd ys)))"
      using ih(12) hd by simp
    show ?thesis
      by (rule exI [of _ s'], rule exI [of _ "v # xs"], rule exI [of _ ys], intro conjI)
         (use run sum fr nxt ih(1,3-9) in simp_all)
  qed
qed

lemma list_add_before_node:
  "dlist h hdr (xs @ ys) \<Longrightarrow> e \<notin> set (hdr # xs @ ys) \<Longrightarrow>
   dlist (list_add_before h (hd (ys @ [hdr])) e) hdr (xs @ e # ys)"
  using dlist_add_before [of h hdr xs "hd ys" "tl ys" e] dlist_add_tail [of h hdr xs e]
  by (cases ys) auto

text \<open>
  \<open>add_timer\<close> on an unlinked timer with \<open>E > 0\<close> ticks does not panic and terminates; the
  timer is linked with exactly \<open>E\<close> ticks left, after all timers that expire no later and before
  all that expire later, and the ticks left of every other timer are unchanged.
\<close>

lemma add_timer_correct:
  assumes "timer_list s ts" "t \<notin> set ts" "expires (timers s t) > 0"
    and "list_empty (timer_links s) (TimerLink t)"
  shows "\<exists>s' us vs. add_timer s t = Some s' \<and> ts = us @ vs \<and> timer_list s' (us @ t # vs)
    \<and> ticks_left s' (us @ t # vs) =
        take (length us) (ticks_left s ts) @ (t, unat (expires (timers s t))) # drop (length us) (ticks_left s ts)
    \<and> (\<forall>(q, d) \<in> set (take (length us) (ticks_left s ts)). d \<le> unat (expires (timers s t)))
    \<and> (\<forall>(q, d) \<in> set (drop (length us) (ticks_left s ts)). unat (expires (timers s t)) < d)"
proof -
  have len: "length (due T a xs) = length xs" for T a xs by (induction xs arbitrary: a) auto
  have ub: "\<forall>(q, d) \<in> set (due T a xs). a \<le> d \<and> d \<le> a + ticks_sum T xs" for T a xs
  proof (induction xs arbitrary: a)
    case (Cons x xs)
    from Cons.IH [of "a + unat (expires (T x))"] show ?case by fastforce
  qed simp
  obtain s' us vs where l: "ts = us @ vs"
    "add_timer_loop s t (case ts of [] \<Rightarrow> TimerHead | v # _ \<Rightarrow> TimerLink v)
        = Some (s', case vs of [] \<Rightarrow> TimerHead | v # _ \<Rightarrow> TimerLink v)"
    "timer_links s' = timer_links s"
    "ticks_sum (timers s) us + unat (expires (timers s' t)) = unat (expires (timers s t))"
    "\<forall>q. q \<noteq> t \<longrightarrow> (vs = [] \<or> q \<noteq> hd vs) \<longrightarrow> timers s' q = timers s q"
    "vs \<noteq> [] \<longrightarrow> unat (expires (timers s' t)) < unat (expires (timers s (hd vs)))
         \<and> unat (expires (timers s' (hd vs))) + unat (expires (timers s' t)) = unat (expires (timers s (hd vs)))"
    using add_timer_loop_spec [of s "[]" ts t] assms(1,2) by auto
  let ?E = "unat (expires (timers s t))"
  let ?s = "s'\<lparr>timer_links := list_add_before (timer_links s') (case vs of [] \<Rightarrow> TimerHead | v # _ \<Rightarrow> TimerLink v) (TimerLink t)\<rparr>"
  have add: "add_timer s t = Some ?s"
    using assms l(2) timer_head_next [OF assms(1)] by (simp add: add_timer_def)
  have "dlist (timer_links s') TimerHead (map TimerLink us @ map TimerLink vs)"
    using assms(1) l(1,3) by (simp add: timer_list_def)
  from list_add_before_node [OF this, of "TimerLink t"] assms(2) l(1)
  have tl: "timer_list ?s (us @ t # vs)" by (cases vs) (auto simp: timer_list_def)
  have dist: "distinct (us @ vs)" using timer_list_distinct [OF assms(1)] l(1) by simp
  have us: "due (timers s') 0 us = due (timers s) 0 us" "ticks_sum (timers s') us = ticks_sum (timers s) us"
    using l(5) assms(2) l(1) dist by (auto intro!: due_cong ticks_sum_cong) (cases vs; auto)+
  have vs: "due (timers s') ?E vs = due (timers s) (ticks_sum (timers s) us) vs"
  proof (cases vs)
    case (Cons v ws)
    have "due (timers s') b ws = due (timers s) b ws" for b
      using l(5) assms(2) l(1) dist Cons by (auto intro!: due_cong)
    moreover have "unat (expires (timers s' v)) + unat (expires (timers s' t)) = unat (expires (timers s v))"
      using l(6) Cons by simp
    then have "?E + unat (expires (timers s' v)) = ticks_sum (timers s) us + unat (expires (timers s v))"
      using l(4) by arith
    ultimately show ?thesis by (simp add: Cons)
  qed simp
  have "ticks_left ?s (us @ t # vs) = due (timers s) 0 us @ (t, ?E) # due (timers s) (ticks_sum (timers s) us) vs"
    using l(4) us vs by (simp add: ticks_left_def due_append)
  moreover have "take (length us) (ticks_left s ts) = due (timers s) 0 us"
    "drop (length us) (ticks_left s ts) = due (timers s) (ticks_sum (timers s) us) vs"
    using l(1) len [of "timers s" 0 us] by (simp_all add: ticks_left_def due_append)
  moreover have "\<forall>(q, d) \<in> set (due (timers s) 0 us). d \<le> ?E"
    using ub [where T = "timers s" and a = 0 and xs = us] l(4) by fastforce
  moreover have "\<forall>(q, d) \<in> set (due (timers s) (ticks_sum (timers s) us) vs). ?E < d"
  proof (cases vs)
    case (Cons v ws)
    then have "?E < ticks_sum (timers s) us + unat (expires (timers s v))" using l(4,6) by simp
    with ub [where T = "timers s" and a = "ticks_sum (timers s) us + unat (expires (timers s v))" and xs = ws] Cons
    show ?thesis by fastforce
  qed simp
  ultimately show ?thesis using add tl l(1) by metis
qed

subsection \<open>del_timer\<close>

lemma timer_linked: "timer_list s ts \<Longrightarrow> t \<in> set ts \<Longrightarrow> \<not> list_empty (timer_links s) (TimerLink t)"
  by (rule list_empty_node [of _ TimerHead "map TimerLink ts"]) (auto simp: timer_list_def)

lemma timer_list_del:
  "timer_list s (us @ t # vs) \<Longrightarrow> timer_links s' = list_del_init (timer_links s) (TimerLink t)
   \<Longrightarrow> timer_list s' (us @ vs)"
  using dlist_del_init(1) [of "timer_links s" TimerHead "map TimerLink us" "TimerLink t" "map TimerLink vs"]
  by (simp add: timer_list_def)

text \<open>
  \<open>del_timer\<close> unlinks a linked timer and keeps the ticks left of every other timer (its
  remaining ticks are handed to the successor), as long as the ticks fit the 32-bit field.
\<close>

lemma del_timer_correct:
  assumes "timer_list s (us @ t # vs)"
    and "\<forall>(q, d) \<in> set (ticks_left s (us @ t # vs)). d < 2 ^ 32"
  shows "timer_list (del_timer s t) (us @ vs)
    \<and> list_empty (timer_links (del_timer s t)) (TimerLink t)
    \<and> ticks_left (del_timer s t) (us @ vs) = filter (\<lambda>(q, d). q \<noteq> t) (ticks_left s (us @ t # vs))"
proof -
  have fst_due: "fst ` set (due T a xs) = set xs" for T a xs by (induction xs arbitrary: a) auto
  have dist: "distinct (us @ t # vs)" using timer_list_distinct [OF assms(1)] .
  have ne: "\<not> list_empty (timer_links s) (TimerLink t)" using timer_linked [OF assms(1)] by simp
  have lk: "timer_links (del_timer s t) = list_del_init (timer_links s) (TimerLink t)"
    using ne by (auto simp: del_timer_def Let_def split: tnode.splits)
  have a: "timer_list (del_timer s t) (us @ vs)" by (rule timer_list_del [OF assms(1) lk])
  have b: "list_empty (timer_links (del_timer s t)) (TimerLink t)"
    using dlist_del_init(2) [of "timer_links s" TimerHead "map TimerLink us" "TimerLink t" "map TimerLink vs"] assms(1)
    by (simp add: lk timer_list_def)
  let ?T = "timers (del_timer s t)" and ?a = "ticks_sum (timers s) us"
  have nx: "list_next (timer_links s) (TimerLink t) = (case vs of [] \<Rightarrow> TimerHead | v # _ \<Rightarrow> TimerLink v)"
    by (rule timer_node_next [OF assms(1)])
  have us: "due ?T 0 us = due (timers s) 0 us" "ticks_sum ?T us = ?a"
    using dist ne nx
    by (auto intro!: due_cong ticks_sum_cong simp: del_timer_def Let_def split: list.splits)
  have vs: "due ?T ?a vs = due (timers s) (?a + unat (expires (timers s t))) vs"
  proof (cases vs)
    case (Cons v ws)
    have ws: "due ?T b ws = due (timers s) b ws" for b
      using dist ne nx Cons by (intro due_cong) (auto simp: del_timer_def Let_def)
    have "?a + unat (expires (timers s t)) + unat (expires (timers s v)) < 2 ^ 32"
      using assms(2) Cons by (simp add: ticks_left_def due_append)
    then have "unat (expires (timers s v) + expires (timers s t)) = unat (expires (timers s v)) + unat (expires (timers s t))"
      by (intro unat_plus_if' [THEN trans]) simp
    then have "unat (expires (?T v)) = unat (expires (timers s t)) + unat (expires (timers s v))"
      using ne nx Cons dist by (auto simp: del_timer_def Let_def)
    with Cons ws show ?thesis by (simp add: add.assoc)
  qed simp
  have keep: "filter (\<lambda>(q, d). q \<noteq> t) (due T a xs) = due T a xs" if "t \<notin> set xs" for T a xs
    using fst_due [of T a xs] that by (force simp: filter_id_conv)
  have "ticks_left (del_timer s t) (us @ vs) = filter (\<lambda>(q, d). q \<noteq> t) (ticks_left s (us @ t # vs))"
    using us vs dist keep by (simp add: ticks_left_def due_append)
  with a b show ?thesis by blast
qed

subsection \<open>One timer tick\<close>

lemma due_shift: "a > 0 \<Longrightarrow> due T (a - 1) ts = map (\<lambda>(q, d). (q, d - 1)) (due T a ts)"
proof (induction ts arbitrary: a)
  case (Cons t ts)
  from Cons.IH [of "a + unat (expires (T t))"] Cons.prems show ?case by simp
qed simp

lemma due_dec:
  assumes "expires (T t) \<noteq> 0" "t \<notin> set vs" "expires (T' t) = expires (T t) - 1"
    and "\<And>q. q \<noteq> t \<Longrightarrow> T' q = T q"
  shows "due T' 0 (t # vs) = map (\<lambda>(q, d). (q, d - 1)) (due T 0 (t # vs))"
proof -
  have "unat (expires (T t)) > 0" using assms(1) by (simp add: unat_gt_0)
  moreover have "unat (expires (T t) - 1) = unat (expires (T t)) - 1"
    using assms(1) by (simp add: unat_minus_one)
  moreover have "due T' b vs = due T b vs" for b
    by (rule due_cong) (use assms(2,4) in metis)
  ultimately show ?thesis using assms(3) due_shift [of "unat (expires (T t))" T vs] by simp
qed

lemma due_expired:
  "filter (\<lambda>(q, d). 0 < d) (due T 0 ts) = due T 0 (dropWhile (\<lambda>t. expires (T t) = 0) ts)"
proof (induction ts)
  case (Cons t ts)
  have "filter (\<lambda>(q, d). 0 < d) (due T a xs) = due T a xs" if "a > 0" for a xs
    using that by (induction xs arbitrary: a) auto
  with Cons show ?case by (auto simp: unat_gt_0 unat_eq_0)
qed simp

lemma takeWhile_due:
  "{q. \<exists>d. (q, d) \<in> set (due T 0 ts) \<and> d = 0} = set (takeWhile (\<lambda>t. expires (T t) = 0) ts)"
proof (induction ts)
  case (Cons t ts)
  have "(q, d) \<in> set (due T a xs) \<Longrightarrow> a \<le> d" for q d a xs
  proof (induction xs arbitrary: a)
    case (Cons x xs)
    then show ?case by (auto dest: add_leD1)
  qed simp
  then have no: "(q, 0) \<notin> set (due T a xs)" if "a > 0" for a q xs using that by force
  show ?case
  proof (cases "expires (T t) = 0")
    case True
    with Cons show ?thesis by auto
  next
    case False
    with no [of "unat (expires (T t))"] show ?thesis by (simp add: unat_gt_0)
  qed
qed simp

context sched_policy
begin

definition wakeable :: "sstate \<Rightarrow> nat \<Rightarrow> bool" where
  "wakeable s p \<longleftrightarrow> valid p \<and> p_state (procs s p) \<noteq> PROC_ZOMBIE
     \<and> (p_wait_state (procs s p) \<noteq> 0 \<longrightarrow> p_wait_state (procs s p) AND WT_INTERRUPTED \<noteq> 0)"

lemma run_timer_loop_spec:
  assumes "sched_inv s" "timer_list s (t # ts)"
    and "\<forall>q \<in> set (t # ts). wakeable s (t_proc (timers s q))"
  shows "\<exists>s'. run_timer_loop sc s t = Some s' \<and> sched_inv s'
    \<and> timer_list s' (dropWhile (\<lambda>t. expires (timers s t) = 0) (t # ts))
    \<and> timers s' = timers s \<and> current s' = current s \<and> idleproc s' = idleproc s
    \<and> (\<forall>q \<in> set (takeWhile (\<lambda>t. expires (timers s t) = 0) (t # ts)).
          p_state (procs s' (t_proc (timers s q))) = PROC_RUNNABLE)
    \<and> (\<forall>p. p \<notin> t_proc ` timers s ` set (takeWhile (\<lambda>t. expires (timers s t) = 0) (t # ts))
          \<longrightarrow> p_state (procs s' p) = p_state (procs s p))
    \<and> (\<forall>p. p_state (procs s p) = PROC_RUNNABLE \<longrightarrow> p_state (procs s' p) = PROC_RUNNABLE)"
  using assms
proof (induction ts arbitrary: s t)
  case IH: (Nil s t)
  show ?case
  proof (cases "expires (timers s t) = 0")
    case True
    let ?p = "t_proc (timers s t)"
    have w: "wakeable s ?p" using IH.prems by simp
    then obtain s1 where s1: "wakeup_proc sc s ?p = Some s1" "sched_inv s1" "p_state (procs s1 ?p) = PROC_RUNNABLE"
      "current s1 = current s" "idleproc s1 = idleproc s" "timers s1 = timers s" "timer_links s1 = timer_links s"
      "\<forall>q. q \<noteq> ?p \<longrightarrow> p_state (procs s1 q) = p_state (procs s q)"
      using wakeup_keeps [OF IH.prems(1), of ?p] unfolding wakeable_def by blast
    have d: "del_timer s1 t = s1\<lparr>timer_links := list_del_init (timer_links s1) (TimerLink t)\<rparr>"
      using True s1(6,7) timer_linked [OF IH.prems(2), of t] by (simp add: del_timer_def Let_def)
    have "timer_list (del_timer s1 t) ([] @ [])"
      by (rule timer_list_del [of s]) (use IH.prems s1 d in simp_all)
    moreover have "list_next (timer_links s) (TimerLink t) = TimerHead"
      using timer_node_next [of s "[]" t "[]"] IH.prems(2) by simp
    moreover have "sched_inv (del_timer s1 t)"
      using s1(2) frame_law [of "del_timer s1 t" s1] by (simp add: sched_inv_def d)
    moreover have "p_state (procs s p) = PROC_RUNNABLE \<Longrightarrow> p_state (procs s1 p) = PROC_RUNNABLE" for p
      using s1(3,8) by metis
    ultimately show ?thesis
      using True s1 w by (intro exI [of _ "del_timer s1 t"])
        (simp add: run_timer_loop.simps [of sc s t] wakeable_def Let_def d bind_assert)
  next
    case False
    with IH.prems show ?thesis by (intro exI [of _ s]) (simp add: run_timer_loop.simps [of sc s t])
  qed
next
  case IH: (Cons v ts s t)
  show ?case
  proof (cases "expires (timers s t) = 0")
    case True
    let ?p = "t_proc (timers s t)"
    have w: "wakeable s ?p" using IH.prems by simp
    then obtain s1 where s1: "wakeup_proc sc s ?p = Some s1" "sched_inv s1" "p_state (procs s1 ?p) = PROC_RUNNABLE"
      "current s1 = current s" "idleproc s1 = idleproc s" "timers s1 = timers s" "timer_links s1 = timer_links s"
      "p_wait_state (procs s1 ?p) \<in> {0, p_wait_state (procs s ?p)}"
      "\<forall>q. q \<noteq> ?p \<longrightarrow> p_state (procs s1 q) = p_state (procs s q) \<and> p_wait_state (procs s1 q) = p_wait_state (procs s q)"
      using wakeup_keeps [OF IH.prems(1), of ?p] unfolding wakeable_def by blast
    let ?s2 = "del_timer s1 t"
    have d: "?s2 = s1\<lparr>timer_links := list_del_init (timer_links s1) (TimerLink t)\<rparr>"
      using True s1(6,7) timer_linked [OF IH.prems(2), of t] by (simp add: del_timer_def Let_def)
    have tl: "timer_list ?s2 (v # ts)"
      using timer_list_del [of s "[]" t "v # ts" ?s2] IH.prems s1(7) d by simp
    have si: "sched_inv ?s2"
      using s1(2) frame_law [of "?s2" s1] by (simp add: sched_inv_def d)
    have wk: "\<forall>q \<in> set (v # ts). wakeable ?s2 (t_proc (timers ?s2 q))"
    proof
      fix q assume "q \<in> set (v # ts)"
      then have "wakeable s (t_proc (timers s q))" using IH.prems(3) by auto
      then show "wakeable ?s2 (t_proc (timers ?s2 q))"
        using s1(3,6,8,9) by (cases "t_proc (timers s q) = ?p") (auto simp: wakeable_def d)
    qed
    have run: "run_timer_loop sc s t = run_timer_loop sc ?s2 v"
      using True s1(1) w timer_node_next [of s "[]" t "v # ts"] IH.prems(2)
      by (simp add: run_timer_loop.simps [of sc s t] wakeable_def Let_def bind_assert)
    obtain s' where s': "run_timer_loop sc ?s2 v = Some s'" "sched_inv s'"
      "timer_list s' (dropWhile (\<lambda>t. expires (timers ?s2 t) = 0) (v # ts))"
      "timers s' = timers ?s2" "current s' = current ?s2" "idleproc s' = idleproc ?s2"
      "\<forall>q \<in> set (takeWhile (\<lambda>t. expires (timers ?s2 t) = 0) (v # ts)).
          p_state (procs s' (t_proc (timers ?s2 q))) = PROC_RUNNABLE"
      "\<forall>p. p \<notin> t_proc ` timers ?s2 ` set (takeWhile (\<lambda>t. expires (timers ?s2 t) = 0) (v # ts))
          \<longrightarrow> p_state (procs s' p) = p_state (procs ?s2 p)"
      "\<forall>p. p_state (procs ?s2 p) = PROC_RUNNABLE \<longrightarrow> p_state (procs s' p) = PROC_RUNNABLE"
      using IH.IH [OF si tl wk] by (elim exE conjE) (rule that)
    have T: "timers ?s2 = timers s" using s1(6) by (simp add: d)
    have P: "procs ?s2 = procs s1" by (simp add: d)
    show ?thesis
    proof (rule exI [of _ s'], intro conjI)
      show "run_timer_loop sc s t = Some s'" using run s'(1) by simp
      show "timer_list s' (dropWhile (\<lambda>t. expires (timers s t) = 0) (t # v # ts))"
        using s'(3) True unfolding T by simp
      show "\<forall>q \<in> set (takeWhile (\<lambda>t. expires (timers s t) = 0) (t # v # ts)).
          p_state (procs s' (t_proc (timers s q))) = PROC_RUNNABLE"
        using s'(7,9) True s1(3) unfolding T P by (simp del: takeWhile.simps(2) add: takeWhile.simps(2) [of _ t "v # ts"])
      show "\<forall>p. p \<notin> t_proc ` timers s ` set (takeWhile (\<lambda>t. expires (timers s t) = 0) (t # v # ts))
          \<longrightarrow> p_state (procs s' p) = p_state (procs s p)"
        using s'(8) True s1(9) unfolding T P by (simp del: takeWhile.simps(2) add: takeWhile.simps(2) [of _ t "v # ts"])
      show "\<forall>p. p_state (procs s p) = PROC_RUNNABLE \<longrightarrow> p_state (procs s' p) = PROC_RUNNABLE"
        using s'(9) s1(3,9) unfolding P by metis
    qed (use s' T s1 d in simp_all)
  next
    case False
    with IH.prems show ?thesis by (intro exI [of _ s]) (simp add: run_timer_loop.simps [of sc s t])
  qed
qed

lemma tick_keeps:
  assumes "sched_inv s"
  shows "sched_inv (sched_class_proc_tick sc s p)" "same_procs s (sched_class_proc_tick sc s p)"
proof -
  have a: "same_procs s (sched_class_proc_tick sc s p)"
    using tick_law [of s p] assms by (auto simp: sched_class_proc_tick_def sched_inv_def same_procs_def)
  have "inv (sched_class_proc_tick sc s p)" "queued (sched_class_proc_tick sc s p) = queued s"
    using tick_law [of s p] assms upd_frame [of "\<lambda>q. q\<lparr>p_need_resched := True\<rparr>" p s]
    by (auto simp: sched_class_proc_tick_def sched_inv_def)
  with a assms show "sched_inv (sched_class_proc_tick sc s p)" by (simp add: sched_inv_def same_procs_def)
  show "same_procs s (sched_class_proc_tick sc s p)" by (rule a)
qed

text \<open>Every timer's ticks go down by one; those that reach 0 leave and wake their process.\<close>

lemma run_timer_list_spec:
  assumes "sched_inv s" "timer_list s ts" "\<forall>(q, d) \<in> set (ticks_left s ts). 0 < d"
    and "\<forall>q \<in> set ts. wakeable s (t_proc (timers s q))"
  shows "\<exists>s' ts'. run_timer_list sc s = Some s' \<and> sched_inv s' \<and> timer_list s' ts'
    \<and> ticks_left s' ts' = filter (\<lambda>(q, d). 0 < d) (map (\<lambda>(q, d). (q, d - 1)) (ticks_left s ts))
    \<and> (\<forall>(q, d) \<in> set (ticks_left s ts). d = 1 \<longrightarrow> p_state (procs s' (t_proc (timers s q))) = PROC_RUNNABLE)
    \<and> (\<forall>p. (\<forall>(q, d) \<in> set (ticks_left s ts). d = 1 \<longrightarrow> p \<noteq> t_proc (timers s q))
          \<longrightarrow> p_state (procs s' p) = p_state (procs s p))"
proof (cases ts)
  case Nil
  let ?s' = "sched_class_proc_tick sc s (current s)"
  note k = tick_keeps [OF assms(1), of "current s"]
  have "timer_list ?s' []" using assms(2) Nil k(2) by (simp add: timer_list_def same_procs_def)
  moreover have "run_timer_list sc s = Some ?s'"
    using timer_head_next [OF assms(2)] Nil by (simp add: run_timer_list_def)
  ultimately show ?thesis using k Nil
    by (intro exI [of _ ?s'] exI [of _ "[]"]) (simp add: ticks_left_def same_procs_def)
next
  case (Cons t vs)
  let ?s1 = "upd_timer t (\<lambda>x. x\<lparr>expires := expires x - 1\<rparr>) s"
  let ?Z = "\<lambda>t. expires (timers ?s1 t) = 0"
  have e: "expires (timers s t) \<noteq> 0"
    using assms(3) Cons by (auto simp: ticks_left_def unat_gt_0)
  have tv: "t \<notin> set vs" using timer_list_distinct [OF assms(2)] Cons by simp
  have tp: "t_proc (timers ?s1 q) = t_proc (timers s q)" for q by simp
  have si: "sched_inv ?s1" using assms(1) frame_law [of ?s1 s] by (simp add: sched_inv_def)
  have tl: "timer_list ?s1 (t # vs)" using assms(2) Cons by (simp add: timer_list_def)
  have wk: "\<forall>q \<in> set (t # vs). wakeable ?s1 (t_proc (timers ?s1 q))"
    using assms(4) Cons unfolding tp by (simp add: wakeable_def)
  obtain s2 where s2: "run_timer_loop sc ?s1 t = Some s2" "sched_inv s2" "timer_list s2 (dropWhile ?Z (t # vs))"
    "timers s2 = timers ?s1" "current s2 = current ?s1" "idleproc s2 = idleproc ?s1"
    "\<forall>q \<in> set (takeWhile ?Z (t # vs)). p_state (procs s2 (t_proc (timers ?s1 q))) = PROC_RUNNABLE"
    "\<forall>p. p \<notin> t_proc ` timers ?s1 ` set (takeWhile ?Z (t # vs)) \<longrightarrow> p_state (procs s2 p) = p_state (procs ?s1 p)"
    using run_timer_loop_spec [OF si tl wk] by (elim exE conjE) (rule that)
  let ?s' = "sched_class_proc_tick sc s2 (current s2)"
  note k = tick_keeps [OF s2(2), of "current s2"]
  have dd: "due (timers ?s1) 0 ts = map (\<lambda>(q, d). (q, d - 1)) (ticks_left s ts)"
    unfolding Cons ticks_left_def by (rule due_dec) (use e tv in simp_all)
  have run: "run_timer_list sc s = Some ?s'"
    using timer_head_next [OF assms(2)] Cons e s2(1) by (simp add: run_timer_list_def)
  have tl': "timer_list ?s' (dropWhile ?Z ts)"
    using s2(3) k(2) Cons by (simp add: timer_list_def same_procs_def)
  have tk: "ticks_left ?s' (dropWhile ?Z ts) = filter (\<lambda>(q, d). 0 < d) (map (\<lambda>(q, d). (q, d - 1)) (ticks_left s ts))"
    unfolding dd [symmetric] due_expired using k(2) s2(4) by (simp add: ticks_left_def same_procs_def)
  have ex: "(q \<in> set (takeWhile ?Z ts)) = (\<exists>d. (q, d) \<in> set (ticks_left s ts) \<and> d = 1)" for q
  proof -
    have "(q \<in> set (takeWhile ?Z ts)) = (\<exists>d. (q, d) \<in> set (ticks_left s ts) \<and> d - 1 = 0)"
      unfolding takeWhile_due [symmetric] dd by force
    then show ?thesis using assms(3) by fastforce
  qed
  show ?thesis
  proof (rule exI [of _ ?s'], rule exI [of _ "dropWhile ?Z ts"], intro conjI)
    show "\<forall>(q, d) \<in> set (ticks_left s ts). d = 1 \<longrightarrow> p_state (procs ?s' (t_proc (timers s q))) = PROC_RUNNABLE"
      using ex s2(7) k(2) unfolding tp same_procs_def Cons by fastforce
    show "\<forall>p. (\<forall>(q, d) \<in> set (ticks_left s ts). d = 1 \<longrightarrow> p \<noteq> t_proc (timers s q))
          \<longrightarrow> p_state (procs ?s' p) = p_state (procs s p)"
      using ex s2(8) k(2) unfolding tp same_procs_def Cons by fastforce
  qed (use run k(1) tl' tk in simp_all)
qed

end

lemmas rr_wakeable_def = rr.wakeable_def

text \<open>
  C14: One timer tick under the default scheduler. On a sorted timer list whose timers all have
  ticks left and whose processes may be woken, \<open>run_timer_list\<close> does not panic; every timer's
  ticks go down by one, exactly those that reach 0 leave the list, their processes become
  runnable (and queued, by the scheduler invariant), and no other process changes its state.
\<close>

theorem rr_timer_tick_correct:
  assumes "rr_sched_inv s" "timer_list s ts" "\<forall>(q, d) \<in> set (ticks_left s ts). 0 < d"
    and "\<forall>q \<in> set ts. p_state (procs s (t_proc (timers s q))) \<noteq> PROC_ZOMBIE
          \<and> (p_wait_state (procs s (t_proc (timers s q))) \<noteq> 0
             \<longrightarrow> p_wait_state (procs s (t_proc (timers s q))) AND WT_INTERRUPTED \<noteq> 0)"
  shows "\<exists>s' ts'. run_timer_list default_sched_class s = Some s' \<and> rr_sched_inv s' \<and> timer_list s' ts'
    \<and> ticks_left s' ts' = filter (\<lambda>(q, d). 0 < d) (map (\<lambda>(q, d). (q, d - 1)) (ticks_left s ts))
    \<and> (\<forall>(q, d) \<in> set (ticks_left s ts). d = 1 \<longrightarrow> p_state (procs s' (t_proc (timers s q))) = PROC_RUNNABLE)
    \<and> (\<forall>p. (\<forall>(q, d) \<in> set (ticks_left s ts). d = 1 \<longrightarrow> p \<noteq> t_proc (timers s q))
          \<longrightarrow> p_state (procs s' p) = p_state (procs s p))"
  unfolding rr_sched_inv_iff
  by (rule rr.run_timer_list_spec) (use assms in \<open>simp_all add: rr_sched_inv_iff rr_wakeable_def\<close>)

subsection \<open>A concrete timer list\<close>

text \<open>Timer 0 wakes process 7 in one tick and timer 1 process 8 in three; timer 2 is free.\<close>

definition sample_timers :: sstate where
  "sample_timers = sample_sched\<lparr>
     timers := (\<lambda>t. if t = 0 then \<lparr>expires = 1, t_proc = 7\<rparr> else \<lparr>expires = 2, t_proc = 8\<rparr>),
     timer_links := \<lparr>lprev = (\<lambda>n. n)(TimerHead := TimerLink 1, TimerLink 0 := TimerHead, TimerLink 1 := TimerLink 0),
                     lnext = (\<lambda>n. n)(TimerHead := TimerLink 0, TimerLink 0 := TimerLink 1, TimerLink 1 := TimerHead)\<rparr>\<rparr>"

lemma sample_timer_list: "timer_list sample_timers [0, 1]" "ticks_left sample_timers [0, 1] = [(0, 1), (1, 3)]"
  by (simp_all add: timer_list_def sample_timers_def dlist_def ticks_left_def)

lemma sample_timers_inv: "rr_sched_inv sample_timers"
  using sample_inv by (simp add: rr_sched_inv_def rr_queue_def sample_timers_def)

theorem rr_timer_tick_correct_witness:
  "\<exists>s' ts'. run_timer_list default_sched_class sample_timers = Some s' \<and> timer_list s' ts'
     \<and> ticks_left s' ts' = [(1, 2)] \<and> p_state (procs s' 7) = PROC_RUNNABLE"
proof -
  have "\<exists>s' ts'. run_timer_list default_sched_class sample_timers = Some s' \<and> rr_sched_inv s' \<and> timer_list s' ts'
    \<and> ticks_left s' ts' = filter (\<lambda>(q, d). 0 < d) (map (\<lambda>(q, d). (q, d - 1)) (ticks_left sample_timers [0, 1]))
    \<and> (\<forall>(q, d) \<in> set (ticks_left sample_timers [0, 1]). d = 1
        \<longrightarrow> p_state (procs s' (t_proc (timers sample_timers q))) = PROC_RUNNABLE)
    \<and> (\<forall>p. (\<forall>(q, d) \<in> set (ticks_left sample_timers [0, 1]). d = 1 \<longrightarrow> p \<noteq> t_proc (timers sample_timers q))
          \<longrightarrow> p_state (procs s' p) = p_state (procs sample_timers p))"
    by (rule rr_timer_tick_correct [OF sample_timers_inv sample_timer_list(1)])
       (simp_all only: sample_timer_list(2), simp_all add: sample_timers_def sample_sched_def blank_proc_def)
  then show ?thesis
    unfolding sample_timer_list(2)
    by (elim exE conjE) (intro exI conjI, assumption+, simp_all, simp add: sample_timers_def)
qed

end
