(* ===== verification/PageAlloc.thy ===== *)
theory PageAlloc
  imports LinkedList
begin

text \<open>
  Page descriptors (\<open>struct Page\<close> and \<open>free_area_t\<close> of \<open>kern/mm/memlayout.h\<close>) and the parts the
  list-based page allocators share. A \<open>struct Page *\<close> is its index in the array \<open>pages\<close>, so the
  pointer comparison \<open>base < page\<close> and the pointer sum \<open>page + n\<close> are those of indices. A
  \<open>size_t\<close> argument is a natural number, truncated where the code stores it in an
  \<open>unsigned int\<close>. The locale \<open>pmm\<close> is the contract of a \<open>struct pmm_manager\<close> towards
  \<open>alloc_pages\<close> and \<open>free_pages\<close> of \<open>kern/mm/pmm.c\<close>.
\<close>

record page =
  pg_ref :: int
  pg_flags :: u64
  pg_property :: u32

datatype pnode = FreeHead | PageLink nat

record free_area =
  pages :: "nat \<Rightarrow> page"
  flinks :: "pnode lheap"
  nr_free :: u32

definition PG_reserved :: nat where "PG_reserved = 0"
definition PG_property :: nat where "PG_property = 1"

definition PageReserved :: "page \<Rightarrow> bool" where
  "PageReserved g = bit (pg_flags g) PG_reserved"

definition PageProperty :: "page \<Rightarrow> bool" where
  "PageProperty g = bit (pg_flags g) PG_property"

definition SetPageProperty :: "page \<Rightarrow> page" where
  "SetPageProperty g = g\<lparr>pg_flags := set_bit PG_property (pg_flags g)\<rparr>"

definition ClearPageProperty :: "page \<Rightarrow> page" where
  "ClearPageProperty g = g\<lparr>pg_flags := unset_bit PG_property (pg_flags g)\<rparr>"

definition upd_page :: "nat \<Rightarrow> (page \<Rightarrow> page) \<Rightarrow> free_area \<Rightarrow> free_area" where
  "upd_page p f s = s\<lparr>pages := (pages s)(p := f (pages s p))\<rparr>"

lemma upd_page_simps [simp]:
  "pages (upd_page p f s) = (pages s)(p := f (pages s p))"
  "flinks (upd_page p f s) = flinks s"
  "nr_free (upd_page p f s) = nr_free s"
  by (simp_all add: upd_page_def)

lemma page_flag_simps [simp]:
  "PageProperty (SetPageProperty g)" "\<not> PageProperty (ClearPageProperty g)"
  "PageReserved (SetPageProperty g) = PageReserved g" "PageReserved (ClearPageProperty g) = PageReserved g"
  "pg_property (SetPageProperty g) = pg_property g" "pg_property (ClearPageProperty g) = pg_property g"
  "PageProperty (g\<lparr>pg_property := x\<rparr>) = PageProperty g" "PageReserved (g\<lparr>pg_property := x\<rparr>) = PageReserved g"
  "\<not> PageReserved (g\<lparr>pg_flags := 0, pg_property := x, pg_ref := r\<rparr>)"
  "\<not> PageProperty (g\<lparr>pg_flags := 0, pg_property := x, pg_ref := r\<rparr>)"
  "\<not> PageReserved (g\<lparr>pg_flags := 0, pg_ref := r\<rparr>)" "\<not> PageProperty (g\<lparr>pg_flags := 0, pg_ref := r\<rparr>)"
  by (simp_all add: PageProperty_def PageReserved_def SetPageProperty_def ClearPageProperty_def
      PG_property_def PG_reserved_def bit_set_bit_iff bit_unset_bit_iff)

subsection \<open>The loops over the pages of a block\<close>

text \<open>\<open>for (; p != base + n; p ++)\<close> of \<open>init_memmap\<close> and of \<open>free_pages\<close>; the first argument counts the pages left.\<close>

fun init_pages :: "nat \<Rightarrow> nat \<Rightarrow> (nat \<Rightarrow> page) \<Rightarrow> (nat \<Rightarrow> page) option" where
  "init_pages 0 p P = Some P"
| "init_pages (Suc k) p P =
     do {
       assert_that (PageReserved (P p));
       init_pages k (Suc p) (P(p := (P p)\<lparr>pg_flags := 0, pg_property := 0, pg_ref := 0\<rparr>))
     }"

fun release_pages :: "nat \<Rightarrow> nat \<Rightarrow> (nat \<Rightarrow> page) \<Rightarrow> (nat \<Rightarrow> page) option" where
  "release_pages 0 p P = Some P"
| "release_pages (Suc k) p P =
     do {
       assert_that (\<not> PageReserved (P p) \<and> \<not> PageProperty (P p));
       release_pages k (Suc p) (P(p := (P p)\<lparr>pg_flags := 0, pg_ref := 0\<rparr>))
     }"

lemma init_pages_spec:
  "\<forall>q. p \<le> q \<and> q < p + k \<longrightarrow> PageReserved (P q) \<Longrightarrow>
   init_pages k p P = Some (\<lambda>q. if p \<le> q \<and> q < p + k
      then (P q)\<lparr>pg_flags := 0, pg_property := 0, pg_ref := 0\<rparr> else P q)"
proof (induction k arbitrary: p P)
  case 0
  have "P = (\<lambda>q. if p \<le> q \<and> q < p + 0 then (P q)\<lparr>pg_flags := 0, pg_property := 0, pg_ref := 0\<rparr> else P q)"
    by (rule ext) auto
  then show ?case by simp
next
  case (Suc k)
  let ?P = "P(p := (P p)\<lparr>pg_flags := 0, pg_property := 0, pg_ref := 0\<rparr>)"
  have "init_pages k (Suc p) ?P = Some (\<lambda>q. if Suc p \<le> q \<and> q < Suc p + k
      then (?P q)\<lparr>pg_flags := 0, pg_property := 0, pg_ref := 0\<rparr> else ?P q)"
    by (rule Suc.IH) (use Suc.prems in auto)
  moreover have "PageReserved (P p)" using Suc.prems by auto
  ultimately show ?case by (auto simp: fun_eq_iff)
qed

lemma release_pages_spec:
  "\<forall>q. p \<le> q \<and> q < p + k \<longrightarrow> \<not> PageReserved (P q) \<and> \<not> PageProperty (P q) \<Longrightarrow>
   release_pages k p P = Some (\<lambda>q. if p \<le> q \<and> q < p + k then (P q)\<lparr>pg_flags := 0, pg_ref := 0\<rparr> else P q)"
proof (induction k arbitrary: p P)
  case 0
  have "P = (\<lambda>q. if p \<le> q \<and> q < p + 0 then (P q)\<lparr>pg_flags := 0, pg_ref := 0\<rparr> else P q)"
    by (rule ext) auto
  then show ?case by simp
next
  case (Suc k)
  let ?P = "P(p := (P p)\<lparr>pg_flags := 0, pg_ref := 0\<rparr>)"
  have "release_pages k (Suc p) ?P = Some (\<lambda>q. if Suc p \<le> q \<and> q < Suc p + k
      then (?P q)\<lparr>pg_flags := 0, pg_ref := 0\<rparr> else ?P q)"
    by (rule Suc.IH) (use Suc.prems in auto)
  moreover have "\<not> PageReserved (P p) \<and> \<not> PageProperty (P p)" using Suc.prems by auto
  ultimately show ?case by (auto simp: fun_eq_iff)
qed

text \<open>A page that fails the assertion anywhere in the block panics the kernel.\<close>

lemma release_pages_panics:
  "p \<le> q \<Longrightarrow> q < p + k \<Longrightarrow> PageReserved (P q) \<or> PageProperty (P q) \<Longrightarrow> release_pages k p P = None"
proof (induction k arbitrary: p P)
  case (Suc k)
  show ?case
  proof (cases "q = p")
    case False
    then have "release_pages k (Suc p) (P(p := (P p)\<lparr>pg_flags := 0, pg_ref := 0\<rparr>)) = None"
      using Suc.prems by (intro Suc.IH) auto
    then show ?thesis by (simp add: bind_assert)
  qed (use Suc.prems in \<open>auto simp: bind_assert\<close>)
qed simp

subsection \<open>The contract of a page allocator\<close>

record 's pmm_manager =
  pm_init :: "'s \<Rightarrow> 's"
  pm_init_memmap :: "'s \<Rightarrow> nat \<Rightarrow> nat \<Rightarrow> 's option"
  pm_alloc_pages :: "'s \<Rightarrow> nat \<Rightarrow> (nat option \<times> 's) option"
  pm_free_pages :: "'s \<Rightarrow> nat \<Rightarrow> nat \<Rightarrow> 's option"
  pm_nr_free_pages :: "'s \<Rightarrow> nat"

definition alloc_pages :: "'s pmm_manager \<Rightarrow> 's \<Rightarrow> nat \<Rightarrow> (nat option \<times> 's) option" where
  "alloc_pages m s n = pm_alloc_pages m s n"

definition free_pages :: "'s pmm_manager \<Rightarrow> 's \<Rightarrow> nat \<Rightarrow> nat \<Rightarrow> 's option" where
  "free_pages m s base n = pm_free_pages m s base n"

definition nr_free_pages :: "'s pmm_manager \<Rightarrow> 's \<Rightarrow> nat" where
  "nr_free_pages m s = pm_nr_free_pages m s"

text \<open>
  \<open>inv\<close> is the allocator's well-formedness, \<open>avail\<close> the set of free pages, \<open>may_alloc\<close> the requests
  it accepts and \<open>may_free\<close> the condition under which it takes a block back; a request for \<open>n\<close> pages
  uses up \<open>span n\<close> pages.
\<close>

locale pmm =
  fixes m :: "'s pmm_manager"
    and inv :: "'s \<Rightarrow> bool"
    and avail :: "'s \<Rightarrow> nat set"
    and may_alloc :: "'s \<Rightarrow> nat \<Rightarrow> bool"
    and may_free :: "'s \<Rightarrow> nat \<Rightarrow> nat \<Rightarrow> bool"
    and span :: "nat \<Rightarrow> nat"
  assumes span_ge: "n \<le> span n"
    and alloc_law: "inv s \<Longrightarrow> may_alloc s n \<Longrightarrow>
      \<exists>r s'. pm_alloc_pages m s n = Some (r, s') \<and> inv s'
        \<and> (case r of None \<Rightarrow> s' = s
           | Some p \<Rightarrow> {p..<p + span n} \<subseteq> avail s \<and> avail s' = avail s - {p..<p + span n})"
    and free_law: "inv s \<Longrightarrow> {b..<b + span n} \<inter> avail s = {} \<Longrightarrow> may_free s b n \<Longrightarrow>
      \<exists>s'. pm_free_pages m s b n = Some s' \<and> inv s' \<and> avail s' = avail s \<union> {b..<b + span n}"
    and count_law: "inv s \<Longrightarrow> finite (avail s) \<and> pm_nr_free_pages m s = card (avail s)"
begin

lemma alloc_disjoint:
  assumes "inv s" "may_alloc s n" "may_alloc s1 k"
    and "alloc_pages m s n = Some (Some p, s1)" "alloc_pages m s1 k = Some (Some q, s2)"
  shows "{p..<p + n} \<inter> {q..<q + k} = {}"
proof -
  have "inv s1" "avail s1 = avail s - {p..<p + span n}"
    using alloc_law [OF assms(1,2)] assms(4) by (auto simp: alloc_pages_def)
  moreover from this have "{q..<q + span k} \<subseteq> avail s1"
    using alloc_law [of s1 k] assms(3,5) by (fastforce simp: alloc_pages_def)
  ultimately have "{p..<p + span n} \<inter> {q..<q + span k} = {}" by blast
  moreover have "{p..<p + n} \<subseteq> {p..<p + span n}" "{q..<q + k} \<subseteq> {q..<q + span k}"
    using span_ge by (simp_all add: ivl_subset)
  ultimately show ?thesis by blast
qed

lemma alloc_count:
  assumes "inv s" "may_alloc s n" "alloc_pages m s n = Some (Some p, s')"
  shows "nr_free_pages m s' + span n = nr_free_pages m s"
proof -
  have a: "inv s'" "{p..<p + span n} \<subseteq> avail s" "avail s' = avail s - {p..<p + span n}"
    using alloc_law [OF assms(1,2)] assms(3) by (auto simp: alloc_pages_def)
  have "card {p..<p + span n} \<le> card (avail s)"
    using a(2) count_law [OF assms(1)] by (meson card_mono)
  with a count_law [OF assms(1)] count_law [OF a(1)] show ?thesis
    by (simp add: nr_free_pages_def card_Diff_subset)
qed

text \<open>Allocating and giving back restores the free pages.\<close>

lemma alloc_free_inverse:
  assumes "inv s" "may_alloc s n" "alloc_pages m s n = Some (Some p, s1)" "may_free s1 p n"
  shows "\<exists>s2. free_pages m s1 p n = Some s2 \<and> inv s2 \<and> avail s2 = avail s"
proof -
  have a: "inv s1" "{p..<p + span n} \<subseteq> avail s" "avail s1 = avail s - {p..<p + span n}"
    using alloc_law [OF assms(1,2)] assms(3) by (auto simp: alloc_pages_def)
  then have "{p..<p + span n} \<inter> avail s1 = {}" by blast
  from free_law [OF a(1) this assms(4)] a(2,3) show ?thesis by (auto simp: free_pages_def)
qed

end

text \<open>An allocator that also finds every run of \<open>n\<close> adjacent free pages and takes only these.\<close>

locale pmm_exact = pmm +
  assumes span_id: "span n = n"
    and alloc_complete: "inv s \<Longrightarrow> may_alloc s n \<Longrightarrow> {p..<p + n} \<subseteq> avail s \<Longrightarrow>
      \<exists>r s'. pm_alloc_pages m s n = Some (Some r, s')"
begin

lemma alloc_fails_iff:
  assumes "inv s" "may_alloc s n"
  shows "alloc_pages m s n = Some (None, s) \<longleftrightarrow> \<not> (\<exists>p. {p..<p + n} \<subseteq> avail s)"
proof -
  obtain r s' where r: "pm_alloc_pages m s n = Some (r, s')"
    "case r of None \<Rightarrow> s' = s | Some p \<Rightarrow> {p..<p + n} \<subseteq> avail s \<and> avail s' = avail s - {p..<p + n}"
    using alloc_law [OF assms] unfolding span_id by blast
  show ?thesis
  proof (cases r)
    case None
    then have "\<not> (\<exists>p. {p..<p + n} \<subseteq> avail s)" using alloc_complete [OF assms] r(1) by fastforce
    then show ?thesis using None r by (simp add: alloc_pages_def)
  next
    case (Some p)
    then show ?thesis using r by (auto simp: alloc_pages_def)
  qed
qed

end

end
