(* ===== verification/FirstFit.thy ===== *)
theory FirstFit
  imports PageAlloc
begin

text \<open>
  The first-fit page allocator \<open>kern/mm/default_pmm.c\<close> on its pointer-level free list. The
  abstraction is the sequence of free blocks (first page, number of pages) in address order; the
  lemmas show what allocation and release do to it.
\<close>

definition default_init :: "free_area \<Rightarrow> free_area" where
  "default_init s = s\<lparr>flinks := list_init (flinks s) FreeHead, nr_free := 0\<rparr>"

text \<open>
  The search for the place of a block in the address-ordered list, \<open>le\<close> being the node reached
  so far. After the insertion at the tail the loop goes on, with the new block as \<open>list_next(le)\<close>.
\<close>

partial_function (option) insert_block_loop :: "free_area \<Rightarrow> nat \<Rightarrow> pnode \<Rightarrow> free_area option" where
  "insert_block_loop s base le =
     (let le = list_next (flinks s) le in
      case le of
        FreeHead \<Rightarrow> Some s
      | PageLink page \<Rightarrow>
          if base < page then
            Some (s\<lparr>flinks := list_add_before (flinks s) le (PageLink base)\<rparr>)
          else if list_next (flinks s) le = FreeHead then
            insert_block_loop (s\<lparr>flinks := list_add (flinks s) le (PageLink base)\<rparr>) base le
          else insert_block_loop s base le)"

definition insert_block :: "free_area \<Rightarrow> nat \<Rightarrow> free_area option" where
  "insert_block s base =
     (if list_empty (flinks s) FreeHead then
        Some (s\<lparr>flinks := list_add (flinks s) FreeHead (PageLink base)\<rparr>)
      else insert_block_loop s base FreeHead)"

definition default_init_memmap :: "free_area \<Rightarrow> nat \<Rightarrow> nat \<Rightarrow> free_area option" where
  "default_init_memmap s base n =
     do {
       assert_that (n > 0);
       P \<leftarrow> init_pages n base (pages s);
       let s = s\<lparr>pages := P\<rparr>;
       let s = upd_page base (\<lambda>g. g\<lparr>pg_property := word_of_nat n\<rparr>) s;
       let s = upd_page base SetPageProperty s;
       let s = s\<lparr>nr_free := nr_free s + word_of_nat n\<rparr>;
       insert_block s base
     }"

text \<open>The search of \<open>default_alloc_pages\<close> for the first block with at least \<open>n\<close> pages.\<close>

partial_function (option) first_fit_loop :: "free_area \<Rightarrow> nat \<Rightarrow> pnode \<Rightarrow> nat option option" where
  "first_fit_loop s n le =
     (let le = list_next (flinks s) le in
      case le of
        FreeHead \<Rightarrow> Some None
      | PageLink p \<Rightarrow> if unat (pg_property (pages s p)) \<ge> n then Some (Some p) else first_fit_loop s n le)"

text \<open>What both allocators do with the block they chose: unlink it and put the rest back.\<close>

definition take_block :: "free_area \<Rightarrow> nat \<Rightarrow> nat \<Rightarrow> free_area" where
  "take_block s page n =
     (let prev = list_prev (flinks s) (PageLink page);
          s = s\<lparr>flinks := list_del (flinks s) (PageLink page)\<rparr>;
          s = (if unat (pg_property (pages s page)) > n then
                 let p = page + n;
                     s = upd_page p (\<lambda>g. g\<lparr>pg_property := pg_property (pages s page) - word_of_nat n\<rparr>) s;
                     s = upd_page p SetPageProperty s
                 in s\<lparr>flinks := list_add (flinks s) prev (PageLink p)\<rparr>
               else s);
          s = s\<lparr>nr_free := nr_free s - word_of_nat n\<rparr>
      in upd_page page ClearPageProperty s)"

definition default_alloc_pages :: "free_area \<Rightarrow> nat \<Rightarrow> (nat option \<times> free_area) option" where
  "default_alloc_pages s n =
     do {
       assert_that (n > 0);
       if n > unat (nr_free s) then Some (None, s) else do {
         page \<leftarrow> first_fit_loop s n FreeHead;
         Some (case page of None \<Rightarrow> (None, s) | Some p \<Rightarrow> (Some p, take_block s p n))
       }
     }"

text \<open>Joining a free block \<open>hi\<close> to the block \<open>lo\<close> that ends where it begins.\<close>

definition merge_blocks :: "free_area \<Rightarrow> nat \<Rightarrow> nat \<Rightarrow> free_area" where
  "merge_blocks s lo hi =
     (let s = upd_page lo (\<lambda>g. g\<lparr>pg_property := pg_property g + pg_property (pages s hi)\<rparr>) s;
          s = upd_page hi ClearPageProperty s
      in s\<lparr>flinks := list_del (flinks s) (PageLink hi)\<rparr>)"

definition merge_prev :: "free_area \<Rightarrow> nat \<Rightarrow> free_area \<times> nat" where
  "merge_prev s base =
     (case list_prev (flinks s) (PageLink base) of
        FreeHead \<Rightarrow> (s, base)
      | PageLink p \<Rightarrow>
          if p + unat (pg_property (pages s p)) = base then (merge_blocks s p base, p) else (s, base))"

definition merge_next :: "free_area \<Rightarrow> nat \<Rightarrow> free_area" where
  "merge_next s base =
     (case list_next (flinks s) (PageLink base) of
        FreeHead \<Rightarrow> s
      | PageLink p \<Rightarrow>
          if base + unat (pg_property (pages s base)) = p then merge_blocks s base p else s)"

definition default_free_pages :: "free_area \<Rightarrow> nat \<Rightarrow> nat \<Rightarrow> free_area option" where
  "default_free_pages s base n =
     do {
       assert_that (n > 0);
       P \<leftarrow> release_pages n base (pages s);
       let s = s\<lparr>pages := P\<rparr>;
       let s = upd_page base (\<lambda>g. g\<lparr>pg_property := word_of_nat n\<rparr>) s;
       let s = upd_page base SetPageProperty s;
       let s = s\<lparr>nr_free := nr_free s + word_of_nat n\<rparr>;
       s \<leftarrow> insert_block s base;
       let (s, base) = merge_prev s base;
       Some (merge_next s base)
     }"

definition default_nr_free_pages :: "free_area \<Rightarrow> nat" where
  "default_nr_free_pages s = unat (nr_free s)"

definition default_pmm_manager :: "free_area pmm_manager" where
  "default_pmm_manager =
     \<lparr>pm_init = default_init, pm_init_memmap = default_init_memmap, pm_alloc_pages = default_alloc_pages,
      pm_free_pages = default_free_pages, pm_nr_free_pages = default_nr_free_pages\<rparr>"

subsection \<open>Abstraction: the free blocks in address order\<close>

definition cover :: "(nat \<times> nat) list \<Rightarrow> nat set" where
  "cover bs = (\<Union>(b, n) \<in> set bs. {b..<b + n})"

text \<open>Blocks do not overlap; with \<open>gap = True\<close> there is also at least one page between them.\<close>

definition spaced :: "bool \<Rightarrow> (nat \<times> nat) list \<Rightarrow> bool" where
  "spaced gap bs \<longleftrightarrow> sorted_wrt (\<lambda>(b, n) (c, k). if gap then b + n < c else b + n \<le> c) bs"

definition blocks :: "free_area \<Rightarrow> (nat \<times> nat) list \<Rightarrow> bool" where
  "blocks s bs \<longleftrightarrow> dlist (flinks s) FreeHead (map (\<lambda>x. PageLink (fst x)) bs)
     \<and> (\<forall>(b, n) \<in> set bs. 0 < n \<and> unat (pg_property (pages s b)) = n)
     \<and> spaced False bs
     \<and> (\<forall>p. PageProperty (pages s p) \<longleftrightarrow> p \<in> fst ` set bs)
     \<and> unat (nr_free s) = sum_list (map snd bs)
     \<and> (\<forall>p \<in> cover bs. \<not> PageReserved (pages s p))"

definition ff_inv :: "free_area \<Rightarrow> bool" where
  "ff_inv s \<longleftrightarrow> (\<exists>bs. blocks s bs \<and> spaced True bs)"

definition free_set :: "free_area \<Rightarrow> nat set" where
  "free_set s = {q. \<exists>b. PageProperty (pages s b) \<and> b \<le> q \<and> q < b + unat (pg_property (pages s b))}"

lemma cover_simps [simp]:
  "cover [] = {}" "cover ((b, n) # bs) = {b..<b + n} \<union> cover bs" "cover (xs @ ys) = cover xs \<union> cover ys"
  by (auto simp: cover_def)

lemma spaced_simps [simp]:
  "spaced g []"
  "spaced g ((b, n) # bs) \<longleftrightarrow> (\<forall>(c, k) \<in> set bs. if g then b + n < c else b + n \<le> c) \<and> spaced g bs"
  "spaced g (xs @ ys) \<longleftrightarrow> spaced g xs \<and> spaced g ys
     \<and> (\<forall>(b, n) \<in> set xs. \<forall>(c, k) \<in> set ys. if g then b + n < c else b + n \<le> c)"
  by (auto simp: spaced_def sorted_wrt_append)

lemma spaced_weaken: "spaced True bs \<Longrightarrow> spaced False bs"
  by (induction bs) (fastforce simp: order_less_imp_le)+

lemma blocks_free_set: "blocks s bs \<Longrightarrow> free_set s = cover bs"
  unfolding blocks_def free_set_def cover_def by (auto simp: image_iff) fastforce+

lemma card_cover: "spaced False bs \<Longrightarrow> finite (cover bs) \<and> card (cover bs) = sum_list (map snd bs)"
proof (induction bs)
  case (Cons a bs)
  obtain b n where a: "a = (b, n)" by (cases a)
  have "{b..<b + n} \<inter> cover bs = {}" using Cons.prems a by (fastforce simp: cover_def)
  with Cons a show ?case by (simp add: card_Un_disjoint)
qed simp

subsection \<open>The search loops\<close>

text \<open>The first element of a list, as the node after the ones already passed.\<close>

lemma block_node_next:
  assumes "dlist (flinks s) FreeHead (map (\<lambda>x. PageLink (fst x)) (us @ vs))"
  shows "list_next (flinks s) (if us = [] then FreeHead else PageLink (fst (last us)))
    = (case vs of [] \<Rightarrow> FreeHead | (b, n) # _ \<Rightarrow> PageLink b)"
proof (cases us rule: rev_cases)
  case Nil
  with list_next_head [OF assms] show ?thesis by (cases vs) auto
next
  case (snoc ws u)
  with assms list_next_node [of "flinks s" FreeHead "map (\<lambda>x. PageLink (fst x)) ws" "PageLink (fst u)"
      "map (\<lambda>x. PageLink (fst x)) vs"]
  show ?thesis by (cases vs) (auto simp: case_prod_beta)
qed

text \<open>The allocation search follows the forward links only.\<close>

fun fwd :: "(pnode \<Rightarrow> pnode) \<Rightarrow> pnode \<Rightarrow> (nat \<times> nat) list \<Rightarrow> bool" where
  "fwd f a [] \<longleftrightarrow> f a = FreeHead"
| "fwd f a ((b, k) # bs) \<longleftrightarrow> f a = PageLink b \<and> fwd f (PageLink b) bs"

lemma dlist_fwd:
  "dlist h FreeHead (map (\<lambda>x. PageLink (fst x)) bs) \<Longrightarrow> fwd (lnext h) FreeHead bs"
proof -
  have "chain h a (map (\<lambda>x. PageLink (fst x)) bs) FreeHead \<Longrightarrow> fwd (lnext h) a bs" for a
    by (induction bs arbitrary: a) auto
  then show "dlist h FreeHead (map (\<lambda>x. PageLink (fst x)) bs) \<Longrightarrow> fwd (lnext h) FreeHead bs"
    by (simp add: dlist_def)
qed

lemma first_fit_loop_spec:
  assumes "fwd (lnext (flinks s)) le bs" "\<forall>(b, k) \<in> set bs. unat (pg_property (pages s b)) = k"
  shows "first_fit_loop s n le = Some (map_option fst (find (\<lambda>(b, k). n \<le> k) bs))"
  using assms
proof (induction bs arbitrary: le)
  case Nil
  then show ?case by (subst first_fit_loop.simps) (simp add: Let_def list_next_def)
next
  case (Cons v vs)
  obtain b k where v: "v = (b, k)" by (cases v)
  have "first_fit_loop s n (PageLink b) = Some (map_option fst (find (\<lambda>(b, k). n \<le> k) vs))"
    by (rule Cons.IH) (use Cons.prems v in auto)
  with v Cons.prems show ?case
    by (subst first_fit_loop.simps) (simp add: Let_def list_next_def)
qed

text \<open>Insertion before the first block that lies higher, when there is one.\<close>

lemma insert_block_loop_spec:
  assumes "dlist (flinks s) FreeHead (map (\<lambda>x. PageLink (fst x)) (us @ vs))"
    and "\<exists>(b, n) \<in> set vs. base < b" "base \<notin> fst ` set (us @ vs)"
  shows "insert_block_loop s base (if us = [] then FreeHead else PageLink (fst (last us)))
    = Some (s\<lparr>flinks := list_add_before (flinks s)
        (PageLink (fst (hd (dropWhile (\<lambda>(b, n). b < base) vs)))) (PageLink base)\<rparr>)"
  using assms
proof (induction vs arbitrary: us)
  case (Cons v vs)
  obtain b k where v: "v = (b, k)" by (cases v)
  note nx = block_node_next [OF Cons.prems(1)]
  show ?case
  proof (cases "base < b")
    case True
    with nx v show ?thesis by (subst insert_block_loop.simps) (simp add: Let_def)
  next
    case False
    then have lt: "b < base" using Cons.prems(3) v by force
    have ex: "\<exists>(b, n) \<in> set vs. base < b" using Cons.prems(2) v False by auto
    then obtain w ws where vs: "vs = w # ws" by (cases vs) auto
    have nx': "list_next (flinks s) (PageLink b) = PageLink (fst w)"
      using block_node_next [of s "us @ [v]" vs] Cons.prems(1) v vs by (simp add: case_prod_beta)
    have "insert_block_loop s base (if us @ [v] = [] then FreeHead else PageLink (fst (last (us @ [v]))))
      = Some (s\<lparr>flinks := list_add_before (flinks s)
        (PageLink (fst (hd (dropWhile (\<lambda>(b, n). b < base) vs)))) (PageLink base)\<rparr>)"
      by (rule Cons.IH) (use Cons.prems ex in auto)
    then have "insert_block_loop s base (PageLink b)
      = Some (s\<lparr>flinks := list_add_before (flinks s)
        (PageLink (fst (hd (dropWhile (\<lambda>(b, n). b < base) vs)))) (PageLink base)\<rparr>)"
      by (simp add: v)
    with nx nx' v False lt show ?thesis
      by (subst insert_block_loop.simps) (simp add: Let_def)
  qed
qed simp

definition blocks_below :: "nat \<Rightarrow> (nat \<times> nat) list \<Rightarrow> (nat \<times> nat) list" where
  "blocks_below base bs = takeWhile (\<lambda>(b, n). b < base) bs"

definition blocks_above :: "nat \<Rightarrow> (nat \<times> nat) list \<Rightarrow> (nat \<times> nat) list" where
  "blocks_above base bs = dropWhile (\<lambda>(b, n). b < base) bs"

lemma below_above: "bs = blocks_below base bs @ blocks_above base bs"
  by (simp add: blocks_below_def blocks_above_def)

text \<open>A block may be given back when there is none, or a higher one, in the list.\<close>

definition not_last :: "(nat \<times> nat) list \<Rightarrow> nat \<Rightarrow> bool" where
  "not_last bs base \<longleftrightarrow> bs = [] \<or> (\<exists>(b, n) \<in> set bs. base < b)"

lemma insert_block_spec:
  assumes "dlist (flinks s) FreeHead (map (\<lambda>x. PageLink (fst x)) bs)"
    and "not_last bs base" "base \<notin> fst ` set bs"
  shows "\<exists>h. insert_block s base = Some (s\<lparr>flinks := h\<rparr>)
    \<and> dlist h FreeHead (map (\<lambda>x. PageLink (fst x)) (blocks_below base bs @ (base, k) # blocks_above base bs))"
proof (cases bs)
  case Nil
  with assms dlist_add_head [OF assms(1), of "PageLink base"] list_empty_dlist [OF assms(1)]
  show ?thesis
    by (intro exI [of _ "list_add (flinks s) FreeHead (PageLink base)"])
       (simp add: insert_block_def blocks_below_def blocks_above_def)
next
  case (Cons v vs)
  then have ex: "\<exists>(b, n) \<in> set bs. base < b" using assms(2) by (simp add: not_last_def)
  then have "blocks_above base bs \<noteq> []" by (force simp: blocks_above_def dropWhile_eq_Nil_conv)
  then obtain w ws where w: "blocks_above base bs = w # ws" by (cases "blocks_above base bs") auto
  let ?L = "\<lambda>x. PageLink (fst x)"
  have d: "dlist (flinks s) FreeHead (map ?L (blocks_below base bs) @ ?L w # map ?L ws)"
    using assms(1) below_above [of bs base] w by (metis list.map(2) map_append)
  have fresh: "PageLink base \<notin> set (FreeHead # map ?L (blocks_below base bs) @ ?L w # map ?L ws)"
    using assms(3) below_above [of bs base] w by (auto simp: image_iff) (metis Un_iff fst_conv list.set_intros set_append)+
  have "insert_block s base = Some (s\<lparr>flinks := list_add_before (flinks s) (?L w) (PageLink base)\<rparr>)"
    using insert_block_loop_spec [of s "[]" bs base] assms(1,3) ex list_empty_dlist [OF assms(1)] Cons w
    by (simp add: insert_block_def blocks_above_def case_prod_beta)
  with dlist_add_before [OF d fresh] w show ?thesis
    by (intro exI [of _ "list_add_before (flinks s) (?L w) (PageLink base)"]) simp
qed

lemma blocksI:
  assumes "dlist (flinks s) FreeHead (map (\<lambda>x. PageLink (fst x)) bs)"
    and "\<And>b n. (b, n) \<in> set bs \<Longrightarrow> 0 < n \<and> unat (pg_property (pages s b)) = n"
    and "spaced False bs" "\<And>p. PageProperty (pages s p) \<longleftrightarrow> p \<in> fst ` set bs"
    and "unat (nr_free s) = sum_list (map snd bs)" "\<And>p. p \<in> cover bs \<Longrightarrow> \<not> PageReserved (pages s p)"
  shows "blocks s bs"
  unfolding blocks_def using assms by auto

subsection \<open>Allocation\<close>

lemma blocks_member:
  assumes "blocks s bs" "(b, k) \<in> set bs"
  shows "0 < k" "unat (pg_property (pages s b)) = k" "k \<le> unat (nr_free s)" "k < 4294967296"
proof -
  show a: "0 < k" "unat (pg_property (pages s b)) = k" using assms by (auto simp: blocks_def)
  then show "k < 4294967296" using unat_u32_less by metis
  have "k \<in> set (map snd bs)" using assms(2) by force
  then have "k \<le> sum_list (map snd bs)" by (rule member_le_sum_list) simp
  then show "k \<le> unat (nr_free s)" using assms(1) by (simp add: blocks_def)
qed

lemma take_block_spec:
  assumes "blocks s (us @ (b, k) # vs)" "0 < n" "n \<le> k"
  shows "blocks (take_block s b n) (us @ (if n < k then [(b + n, k - n)] else []) @ vs)"
proof -
  let ?L = "\<lambda>x. PageLink (fst x)" and ?bs = "us @ (b, k) # vs"
  let ?new = "us @ (if n < k then [(b + n, k - n)] else []) @ vs"
  have mem: "(b, k) \<in> set ?bs" by simp
  note k = blocks_member [OF assms(1) mem]
  have d: "dlist (flinks s) FreeHead (map ?L us @ PageLink b # map ?L vs)"
    using assms(1) by (simp add: blocks_def)
  have sp: "spaced False ?bs" using assms(1) by (simp add: blocks_def)
  have "\<forall>x \<in> set us. 0 < snd x" using assms(1) by (auto simp: blocks_def case_prod_beta)
  then have us: "\<forall>(c, m) \<in> set us. c + m \<le> b \<and> 0 < m" and vs: "\<forall>(c, m) \<in> set vs. b + k \<le> c"
    using sp by auto
  have b1: "b \<notin> fst ` set us" "b + n \<notin> fst ` set us" using us by fastforce+
  have b2: "b \<notin> fst ` set vs" "n < k \<Longrightarrow> b + n \<notin> fst ` set vs" using vs k(1) by fastforce+
  have prev: "list_prev (flinks s) (PageLink b) = last (FreeHead # map ?L us)"
    by (rule list_prev_node [OF d])
  let ?h = "list_del (flinks s) (PageLink b)"
  have d1: "dlist ?h FreeHead (map ?L us @ map ?L vs)" by (rule dlist_del [OF d])
  have fl: "flinks (take_block s b n) = (if n < k then list_add ?h (last (FreeHead # map ?L us)) (PageLink (b + n)) else ?h)"
    using k(2) prev by (simp add: take_block_def Let_def)
  have "dlist (flinks (take_block s b n)) FreeHead (map ?L ?new)"
  proof (cases "n < k")
    case True
    have "PageLink (b + n) \<notin> set (FreeHead # map ?L us @ map ?L vs)" using b1 b2 True by auto
    from dlist_add_at [OF d1 this] True show ?thesis by (simp add: fl)
  qed (use d1 fl in simp)
  moreover have P: "pages (take_block s b n) = (pages s)
      (b + n := (if n < k then SetPageProperty ((pages s (b + n))\<lparr>pg_property := pg_property (pages s b) - word_of_nat n\<rparr>) else pages s (b + n)),
       b := ClearPageProperty (pages s b))"
    using k(2) assms(2) by (auto simp: take_block_def Let_def fun_upd_twist)
  have rest: "unat (pg_property (pages s b) - word_of_nat n) = k - n"
    using unat_minus_nat_u32 [of n "pg_property (pages s b)"] assms(3) k(2) by simp
  moreover have "0 < m \<and> unat (pg_property (pages (take_block s b n) c)) = m" if "(c, m) \<in> set ?new" for c m
  proof (cases "n < k \<and> (c, m) = (b + n, k - n)")
    case True
    then show ?thesis using assms(2) by (auto simp: P rest)
  next
    case False
    then have "(c, m) \<in> set us \<union> set vs" using that by (auto split: if_splits)
    then have "c \<in> fst ` set us \<union> fst ` set vs" and cm: "(c, m) \<in> set ?bs" by force+
    then have "c \<noteq> b" "n < k \<longrightarrow> c \<noteq> b + n" using b1 b2 by blast+
    with blocks_member(1,2) [OF assms(1) cm] show ?thesis by (auto simp: P)
  qed
  moreover have "PageProperty (pages (take_block s b n) p) \<longleftrightarrow> p \<in> fst ` set ?new" for p
  proof -
    have "PageProperty (pages s p) \<longleftrightarrow> p \<in> fst ` set ?bs" using assms(1) by (simp add: blocks_def)
    moreover have "p \<in> fst ` set ?bs \<longleftrightarrow> p \<in> fst ` set us \<or> p = b \<or> p \<in> fst ` set vs"
      "p \<in> fst ` set ?new \<longleftrightarrow> p \<in> fst ` set us \<or> (n < k \<and> p = b + n) \<or> p \<in> fst ` set vs" by auto
    ultimately show ?thesis unfolding P using b1 b2 assms(2) by (cases "p = b"; cases "p = b + n") auto
  qed
  moreover have "unat (nr_free (take_block s b n)) = sum_list (map snd ?new)"
  proof -
    have "nr_free (take_block s b n) = nr_free s - word_of_nat n" by (simp add: take_block_def Let_def)
    moreover have "unat (nr_free s) = sum_list (map snd us) + (k + sum_list (map snd vs))"
      using assms(1) by (simp add: blocks_def)
    ultimately show ?thesis using unat_minus_nat_u32 [of n "nr_free s"] assms(3) by simp
  qed
  moreover have "spaced False ?new" using sp assms(3) by (fastforce split: if_splits)
  moreover have "cover ?new \<subseteq> cover ?bs" using assms(3) by auto
  moreover have "\<not> PageReserved (pages (take_block s b n) p)" if "p \<in> cover ?new" for p
  proof -
    have "p \<in> cover ?bs" using that \<open>cover ?new \<subseteq> cover ?bs\<close> by blast
    then show ?thesis using assms(1) by (auto simp: P blocks_def)
  qed
  ultimately show ?thesis by (intro blocksI)
qed

lemma default_alloc_spec:
  assumes "blocks s bs" "0 < n"
  shows "default_alloc_pages s n = Some (case find (\<lambda>(b, k). n \<le> k) bs of
      None \<Rightarrow> (None, s) | Some (b, k) \<Rightarrow> (Some b, take_block s b n))"
proof -
  have d: "dlist (flinks s) FreeHead (map (\<lambda>x. PageLink (fst x)) bs)"
    "\<forall>(b, k) \<in> set bs. unat (pg_property (pages s b)) = k"
    using assms(1) by (auto simp: blocks_def)
  have loop: "first_fit_loop s n FreeHead = Some (map_option fst (find (\<lambda>(b, k). n \<le> k) bs))"
    using first_fit_loop_spec [OF dlist_fwd [OF d(1)] d(2)] .
  have "find (\<lambda>(b, k). n \<le> k) bs = None" if "unat (nr_free s) < n"
    using that blocks_member(3) [OF assms(1)] by (fastforce simp: find_None_iff)
  with loop assms(2) show ?thesis
    by (auto simp: default_alloc_pages_def split: option.splits)
qed

lemma spaced_shrink:
  "spaced g (us @ (b, k) # vs) \<Longrightarrow> n \<le> k \<Longrightarrow> spaced g (us @ (if n < k then [(b + n, k - n)] else []) @ vs)"
  by (cases g) (fastforce split: if_splits)+

lemma cover_shrink:
  assumes "spaced False (us @ (b, k) # vs)" "n \<le> k"
  shows "cover (us @ (if n < k then [(b + n, k - n)] else []) @ vs) = cover (us @ (b, k) # vs) - {b..<b + n}"
proof -
  have "cover us \<inter> {b..<b + n} = {}" "cover vs \<inter> {b..<b + n} = {}"
    using assms by (fastforce simp: cover_def)+
  moreover have "cover (if n < k then [(b + n, k - n)] else []) = {b..<b + k} - {b..<b + n}"
    using assms(2) by auto
  ultimately show ?thesis by auto
qed

text \<open>The allocator finds a block exactly when there are \<open>n\<close> adjacent free pages.\<close>

lemma cover_run:
  assumes "spaced True bs" "{p..<p + n} \<subseteq> cover bs" "0 < n"
  shows "\<exists>(b, k) \<in> set bs. n \<le> k"
proof -
  have "p \<in> cover bs" using assms(2,3) by auto
  then obtain b k where b: "(b, k) \<in> set bs" "b \<le> p" "p < b + k" by (auto simp: cover_def)
  obtain us vs where bs: "bs = us @ (b, k) # vs" using split_list [OF b(1)] by blast
  have "b + k \<notin> cover bs"
  proof
    assume "b + k \<in> cover bs"
    then obtain c m where c: "(c, m) \<in> set bs" "c \<le> b + k" "b + k < c + m" by (auto simp: cover_def)
    then show False using assms(1) bs by fastforce
  qed
  then have "b + k \<notin> {p..<p + n}" using assms(2) by blast
  then have "p + n \<le> b + k" using b(3) by simp
  then have "n \<le> k" using b(2) by linarith
  then show ?thesis using b(1) by auto
qed

lemma default_alloc_law:
  assumes "ff_inv s" "0 < n"
  shows "\<exists>r s'. default_alloc_pages s n = Some (r, s') \<and> ff_inv s'
    \<and> (case r of None \<Rightarrow> s' = s | Some p \<Rightarrow> {p..<p + n} \<subseteq> free_set s \<and> free_set s' = free_set s - {p..<p + n})
    \<and> (r = None \<longrightarrow> \<not> (\<exists>p. {p..<p + n} \<subseteq> free_set s))"
proof -
  obtain bs where bs: "blocks s bs" "spaced True bs" using assms(1) by (auto simp: ff_inv_def)
  note run = default_alloc_spec [OF bs(1) assms(2)]
  show ?thesis
  proof (cases "find (\<lambda>(b, k). n \<le> k) bs")
    case None
    then have "\<not> (\<exists>(b, k) \<in> set bs. n \<le> k)" by (auto simp: find_None_iff)
    with cover_run [OF bs(2) _ assms(2)] blocks_free_set [OF bs(1)]
    have "\<not> (\<exists>p. {p..<p + n} \<subseteq> free_set s)" by blast
    with None run assms(1) show ?thesis by simp
  next
    case (Some x)
    obtain b k where x: "x = (b, k)" by (cases x)
    obtain i where "i < length bs" "x = bs ! i" "n \<le> k" using Some x by (auto simp: find_Some_iff)
    then have "x \<in> set bs" "n \<le> k" by simp_all
    then obtain us vs where split: "bs = us @ (b, k) # vs" using split_list [of x bs] x by blast
    let ?new = "us @ (if n < k then [(b + n, k - n)] else []) @ vs"
    have new: "blocks (take_block s b n) ?new"
      by (rule take_block_spec) (use bs split assms(2) \<open>n \<le> k\<close> in auto)
    have sp: "spaced True ?new" using spaced_shrink bs(2) split \<open>n \<le> k\<close> by blast
    have f: "free_set (take_block s b n) = free_set s - {b..<b + n}"
      using blocks_free_set [OF new] blocks_free_set [OF bs(1)] split \<open>n \<le> k\<close>
        cover_shrink [OF spaced_weaken [OF bs(2) [unfolded split]]] by simp
    have "{b..<b + n} \<subseteq> {b..<b + k}" using \<open>n \<le> k\<close> by auto
    then have sub: "{b..<b + n} \<subseteq> free_set s"
      unfolding blocks_free_set [OF bs(1)] split cover_simps by blast
    have r: "default_alloc_pages s n = Some (Some b, take_block s b n)" using run Some x by simp
    have inv: "ff_inv (take_block s b n)" unfolding ff_inv_def using new sp by blast
    show ?thesis
      by (rule exI [of _ "Some b"], rule exI [of _ "take_block s b n"], intro conjI)
         (simp_all only: r inv f sub option.case option.distinct simp_thms)
  qed
qed

subsection \<open>Release\<close>

lemma merge_blocks_spec:
  assumes "blocks s (us @ (p, m) # (p + m, k) # vs)"
  shows "blocks (merge_blocks s p (p + m)) (us @ (p, m + k) # vs)"
proof -
  let ?L = "\<lambda>x. PageLink (fst x)" and ?bs = "us @ (p, m) # (p + m, k) # vs"
  let ?s = "merge_blocks s p (p + m)" and ?new = "us @ (p, m + k) # vs"
  have k: "0 < m" "0 < k" "unat (pg_property (pages s p)) = m" "unat (pg_property (pages s (p + m))) = k"
    using blocks_member [OF assms, of p m] blocks_member [OF assms, of "p + m" k] by auto
  have n: "unat (nr_free s) = sum_list (map snd us) + (m + (k + sum_list (map snd vs)))"
    using assms by (simp add: blocks_def)
  have sp: "spaced False ?bs" using assms by (simp add: blocks_def)
  have us: "\<forall>(c, i) \<in> set us. c + i \<le> p" and vs: "\<forall>(c, i) \<in> set vs. p + m + k \<le> c"
    using sp by auto
  have us0: "\<forall>x \<in> set us. 0 < snd x" using assms by (auto simp: blocks_def case_prod_beta)
  have b: "p \<notin> fst ` set us" "p + m \<notin> fst ` set us" "p \<notin> fst ` set vs" "p + m \<notin> fst ` set vs"
    using us us0 vs k(1,2) by fastforce+
  have P: "pages ?s = (pages s)
      (p := (pages s p)\<lparr>pg_property := pg_property (pages s p) + pg_property (pages s (p + m))\<rparr>,
       p + m := ClearPageProperty (pages s (p + m)))"
    using k(1) by (simp add: merge_blocks_def Let_def)
  have "m + k < 4294967296" using n unat_u32_less [of "nr_free s"] by linarith
  then have sum: "unat (pg_property (pages s p) + pg_property (pages s (p + m))) = m + k"
    using unat_add_u32 [of "pg_property (pages s p)" "pg_property (pages s (p + m))"] k by simp
  have "dlist (list_del (flinks s) (PageLink (p + m))) FreeHead (map ?L (us @ [(p, m)]) @ map ?L vs)"
    by (rule dlist_del) (use assms in \<open>simp add: blocks_def\<close>)
  then have "dlist (flinks ?s) FreeHead (map ?L ?new)" by (simp add: merge_blocks_def Let_def)
  moreover have "0 < i \<and> unat (pg_property (pages ?s c)) = i" if "(c, i) \<in> set ?new" for c i
  proof (cases "c = p")
    case True
    then have "i = m + k" using that b by force
    then show ?thesis using True k sum by (simp add: P)
  next
    case False
    then have "(c, i) \<in> set us \<union> set vs" using that by auto
    then have "c \<in> fst ` set us \<union> fst ` set vs" and ci: "(c, i) \<in> set ?bs" by force+
    then have "c \<noteq> p + m" using b by blast
    with blocks_member(1,2) [OF assms ci] False show ?thesis by (simp add: P)
  qed
  moreover have "spaced False ?new" using sp by fastforce
  moreover have "PageProperty (pages ?s q) \<longleftrightarrow> q \<in> fst ` set ?new" for q
  proof -
    have "PageProperty (pages s q) \<longleftrightarrow> q \<in> fst ` set ?bs" using assms by (simp add: blocks_def)
    moreover have "q \<in> fst ` set ?bs \<longleftrightarrow> q \<in> fst ` set us \<or> q = p \<or> q = p + m \<or> q \<in> fst ` set vs"
      "q \<in> fst ` set ?new \<longleftrightarrow> q \<in> fst ` set us \<or> q = p \<or> q \<in> fst ` set vs" by auto
    ultimately show ?thesis unfolding P using b k(1) by (cases "q = p"; cases "q = p + m") auto
  qed
  moreover have "unat (nr_free ?s) = sum_list (map snd ?new)"
    using n by (simp add: merge_blocks_def Let_def)
  moreover have "\<not> PageReserved (pages ?s q)" if "q \<in> cover ?new" for q
  proof -
    have "q \<in> cover ?bs" using that by auto
    then show ?thesis using assms by (auto simp: P blocks_def)
  qed
  ultimately show ?thesis by (intro blocksI)
qed

lemma below_lt: "x \<in> set (blocks_below base bs) \<Longrightarrow> fst x < base"
  by (auto simp: blocks_below_def dest: set_takeWhileD)

lemma above_ge: "spaced False bs \<Longrightarrow> x \<in> set (blocks_above base bs) \<Longrightarrow> base \<le> fst x"
proof (induction bs)
  case (Cons a bs)
  obtain c m where a: "a = (c, m)" by (cases a)
  show ?case
  proof (cases "c < base")
    case True
    then show ?thesis using Cons a by (simp add: blocks_above_def)
  next
    case False
    then have "x = a \<or> x \<in> set bs" using Cons.prems(2) a by (simp add: blocks_above_def)
    then show ?thesis using Cons.prems(1) False a by auto
  qed
qed (simp add: blocks_above_def)

lemma below_above_gaps:
  assumes "blocks s bs" "{b..<b + n} \<inter> cover bs = {}" "0 < n"
  shows "\<forall>(c, m) \<in> set (blocks_below b bs). c + m \<le> b" "\<forall>(c, m) \<in> set (blocks_above b bs). b + n \<le> c"
proof -
  have sp: "spaced False bs" using assms(1) by (simp add: blocks_def)
  have part: "(c, m) \<in> set bs \<Longrightarrow> {c..<c + m} \<inter> {b..<b + n} = {} \<and> 0 < m" for c m
    using assms(1,2) blocks_member(1) by (fastforce simp: cover_def)
  show "\<forall>(c, m) \<in> set (blocks_below b bs). c + m \<le> b"
  proof clarify
    fix c m assume x: "(c, m) \<in> set (blocks_below b bs)"
    have "c < b" using below_lt [OF x] by simp
    moreover have "(c, m) \<in> set bs" using x below_above [of bs b] by (metis Un_iff set_append)
    then have "b \<notin> {c..<c + m}" using part [of c m] assms(3) by force
    ultimately show "c + m \<le> b" by simp
  qed
  show "\<forall>(c, m) \<in> set (blocks_above b bs). b + n \<le> c"
  proof clarify
    fix c m assume x: "(c, m) \<in> set (blocks_above b bs)"
    have "b \<le> c" using above_ge [OF sp x] by simp
    moreover have "(c, m) \<in> set bs" using x below_above [of bs b] by (metis Un_iff set_append)
    then have "c \<notin> {b..<b + n}" using part [of c m] by force
    ultimately show "b + n \<le> c" by simp
  qed
qed

text \<open>Linking a prepared block into the list.\<close>

lemma place_block:
  assumes "blocks s bs" "0 < n" "{b..<b + n} \<inter> cover bs = {}" "not_last bs b"
    and "sum_list (map snd bs) + n < 4294967296"
    and "\<And>q. q \<notin> {b..<b + n} \<Longrightarrow> pages t q = pages s q"
    and "\<And>q. q \<in> {b..<b + n} \<Longrightarrow> \<not> PageReserved (pages t q) \<and> (PageProperty (pages t q) \<longleftrightarrow> q = b)"
    and "pg_property (pages t b) = word_of_nat n"
    and "flinks t = flinks s" "nr_free t = nr_free s + word_of_nat n"
  shows "\<exists>t'. insert_block t b = Some t' \<and> blocks t' (blocks_below b bs @ (b, n) # blocks_above b bs)"
proof -
  let ?bs = "blocks_below b bs @ (b, n) # blocks_above b bs"
  have fst_cover: "c \<in> cover bs" if "c \<in> fst ` set bs" for c
    using that blocks_member(1) [OF assms(1)] by (force simp: cover_def)
  have nb: "b \<notin> fst ` set bs" using fst_cover assms(2,3) by fastforce
  have mem: "x \<in> set ?bs \<longleftrightarrow> x = (b, n) \<or> x \<in> set bs" for x
    by (subst (2) below_above [of bs b]) auto
  obtain h where h: "insert_block t b = Some (t\<lparr>flinks := h\<rparr>)"
    "dlist h FreeHead (map (\<lambda>x. PageLink (fst x)) ?bs)"
    using insert_block_spec [of t bs b n] assms(1,4,9) nb by (auto simp: blocks_def)
  have "blocks (t\<lparr>flinks := h\<rparr>) ?bs"
  proof (rule blocksI)
    show "dlist (flinks (t\<lparr>flinks := h\<rparr>)) FreeHead (map (\<lambda>x. PageLink (fst x)) ?bs)" using h(2) by simp
  next
    fix c k assume "(c, k) \<in> set ?bs"
    then consider "(c, k) = (b, n)" | "(c, k) \<in> set bs" unfolding mem by blast
    then show "0 < k \<and> unat (pg_property (pages (t\<lparr>flinks := h\<rparr>) c)) = k"
    proof cases
      case 1
      then show ?thesis using assms(2,5,8) by (simp add: unat_of_nat_u32)
    next
      case 2
      then have "c \<in> cover bs" using fst_cover by force
      then have "c \<notin> {b..<b + n}" using assms(3) by blast
      then have "pages t c = pages s c" by (rule assms(6))
      then show ?thesis using blocks_member(1,2) [OF assms(1) 2] by simp
    qed
  next
    have "spaced False (blocks_below b bs @ blocks_above b bs)" using assms(1) below_above [of bs b] by (simp add: blocks_def)
    then show "spaced False ?bs" using below_above_gaps [OF assms(1,3,2)] by auto
  next
    fix p
    have "p \<in> fst ` set ?bs \<longleftrightarrow> p = b \<or> p \<in> fst ` set bs" using mem by force
    moreover have "PageProperty (pages s p) \<longleftrightarrow> p \<in> fst ` set bs" using assms(1) by (simp add: blocks_def)
    moreover have "p \<notin> fst ` set bs" if "p \<in> {b..<b + n}" using fst_cover [of p] that assms(3) by blast
    ultimately show "PageProperty (pages (t\<lparr>flinks := h\<rparr>) p) \<longleftrightarrow> p \<in> fst ` set ?bs"
      using assms(2) assms(6) [of p] assms(7) [of p] by (cases "p \<in> {b..<b + n}") auto
  next
    have "sum_list (map snd (blocks_below b bs)) + sum_list (map snd (blocks_above b bs)) = sum_list (map snd bs)"
      by (subst (3) below_above [of bs b]) simp
    moreover have "unat (nr_free s) = sum_list (map snd bs)" using assms(1) by (simp add: blocks_def)
    ultimately show "unat (nr_free (t\<lparr>flinks := h\<rparr>)) = sum_list (map snd ?bs)"
      using assms(5,10) unat_add_nat_u32 [of "nr_free s" n] by simp
  next
    fix p assume "p \<in> cover ?bs"
    then have "p \<in> {b..<b + n} \<or> p \<in> cover bs"
      by (subst below_above [of bs b]) auto
    then show "\<not> PageReserved (pages (t\<lparr>flinks := h\<rparr>) p)"
      using assms(1,3) assms(6) [of p] assms(7) [of p]
      by (cases "p \<in> {b..<b + n}") (auto simp: blocks_def simp del: atLeastLessThan_iff)
  qed
  with h(1) show ?thesis by blast
qed

lemma merge_prev_spec:
  assumes "blocks s (us @ (b, n) # vs)" "spaced True us"
  shows "\<exists>s' us' b' n'. merge_prev s b = (s', b') \<and> blocks s' (us' @ (b', n') # vs)
    \<and> cover (us' @ [(b', n')]) = cover (us @ [(b, n)]) \<and> spaced True (us' @ [(b', n')])"
proof -
  let ?L = "\<lambda>x. PageLink (fst x)"
  have "dlist (flinks s) FreeHead (map ?L us @ PageLink b # map ?L vs)" using assms(1) by (simp add: blocks_def)
  note pr = list_prev_node [OF this]
  have sp: "spaced False (us @ (b, n) # vs)" using assms(1) by (simp add: blocks_def)
  show ?thesis
  proof (cases us rule: rev_cases)
    case Nil
    with pr assms show ?thesis
      by (intro exI [of _ s] exI [of _ "[]"] exI [of _ b] exI [of _ n]) (simp add: merge_prev_def)
  next
    case (snoc ws x)
    obtain p m where x: "x = (p, m)" by (cases x)
    have m: "0 < m" "unat (pg_property (pages s p)) = m"
      using blocks_member [OF assms(1), of p m] snoc x by auto
    show ?thesis
    proof (cases "p + m = b")
      case True
      have "blocks (merge_blocks s p (p + m)) (ws @ (p, m + n) # vs)"
        by (rule merge_blocks_spec) (use assms(1) snoc x True in simp)
      moreover have "merge_prev s b = (merge_blocks s p (p + m), p)"
        using pr snoc x m True by (simp add: merge_prev_def)
      moreover have "{p..<p + (m + n)} = {p..<p + m} \<union> {b..<b + n}" using True by auto
      ultimately show ?thesis using assms(2) snoc x
        by (intro exI [of _ "merge_blocks s p (p + m)"] exI [of _ ws] exI [of _ p] exI [of _ "m + n"]) auto
    next
      case False
      have "c + k < b" if "(c, k) \<in> set us" for c k
      proof (cases "(c, k) \<in> set ws")
        case True
        then show ?thesis using sp m(1) snoc x by fastforce
      next
        case F: False
        then have "c = p" "k = m" using that snoc x by auto
        then show ?thesis using sp False snoc x by simp
      qed
      moreover have "merge_prev s b = (s, b)" using pr snoc x m False by (simp add: merge_prev_def)
      ultimately show ?thesis using assms
        by (intro exI [of _ s] exI [of _ us] exI [of _ b] exI [of _ n]) auto
    qed
  qed
qed

lemma merge_next_spec:
  assumes "blocks s (us @ (b, n) # vs)" "spaced True (us @ [(b, n)])" "spaced True vs"
  shows "\<exists>bs'. blocks (merge_next s b) bs' \<and> spaced True bs' \<and> cover bs' = cover (us @ (b, n) # vs)"
proof -
  let ?L = "\<lambda>x. PageLink (fst x)"
  have "dlist (flinks s) FreeHead (map ?L us @ PageLink b # map ?L vs)" using assms(1) by (simp add: blocks_def)
  note nx = list_next_node [OF this]
  have sp: "spaced False (us @ (b, n) # vs)" using assms(1) by (simp add: blocks_def)
  have n: "0 < n" "unat (pg_property (pages s b)) = n" using blocks_member [OF assms(1), of b n] by auto
  have uv: "c + k < d" if "(c, k) \<in> set us" "(d, l) \<in> set vs" for c k d l
  proof -
    have "c + k < b" using that(1) assms(2) by auto
    moreover have "b + n \<le> d" using that(2) sp by auto
    ultimately show ?thesis by linarith
  qed
  show ?thesis
  proof (cases vs)
    case Nil
    with nx assms show ?thesis by (intro exI [of _ "us @ [(b, n)]"]) (simp add: merge_next_def)
  next
    case (Cons x ws)
    obtain p m where x: "x = (p, m)" by (cases x)
    have m: "0 < m" using blocks_member(1) [OF assms(1), of p m] Cons x by auto
    show ?thesis
    proof (cases "b + n = p")
      case True
      have "blocks (merge_blocks s b (b + n)) (us @ (b, n + m) # ws)"
        by (rule merge_blocks_spec) (use assms(1) Cons x True in simp)
      moreover have "merge_next s b = merge_blocks s b (b + n)"
        using nx Cons x n True by (simp add: merge_next_def)
      moreover have "{b..<b + (n + m)} = {b..<b + n} \<union> {p..<p + m}" using True by auto
      moreover have "spaced True (us @ (b, n + m) # ws)" using assms(2,3) Cons x True uv by auto
      ultimately show ?thesis using Cons x by (intro exI [of _ "us @ (b, n + m) # ws"]) auto
    next
      case False
      have "b + n < c" if "(c, k) \<in> set vs" for c k
      proof (cases "(c, k) \<in> set ws")
        case True
        have "p + m < c" using True assms(3) Cons x by auto
        moreover have "b + n \<le> p" using sp Cons x by simp
        ultimately show ?thesis using m by linarith
      next
        case F: False
        then show ?thesis using that Cons x sp False by auto
      qed
      then have "spaced True (us @ (b, n) # vs)" using assms(2,3) uv by auto
      moreover have "merge_next s b = s" using nx Cons x n False by (simp add: merge_next_def)
      ultimately show ?thesis using assms(1) by (intro exI [of _ "us @ (b, n) # vs"]) simp
    qed
  qed
qed

text \<open>Whether the block starting at \<open>b\<close> may be given back in state \<open>s\<close>, in terms of the free pages.\<close>

definition ff_may_free :: "free_area \<Rightarrow> nat \<Rightarrow> nat \<Rightarrow> bool" where
  "ff_may_free s b n \<longleftrightarrow> (free_set s = {} \<or> (\<exists>q \<in> free_set s. b < q)) \<and> card (free_set s) + n < 4294967296"

lemma default_free_law:
  assumes "ff_inv s" "0 < n" "{b..<b + n} \<inter> free_set s = {}"
    and "\<forall>q \<in> {b..<b + n}. \<not> PageReserved (pages s q)" "ff_may_free s b n"
  shows "\<exists>s'. default_free_pages s b n = Some s' \<and> ff_inv s' \<and> free_set s' = free_set s \<union> {b..<b + n}"
proof -
  obtain bs where bs: "blocks s bs" "spaced True bs" using assms(1) by (auto simp: ff_inv_def)
  note fs = blocks_free_set [OF bs(1)]
  have disj: "{b..<b + n} \<inter> cover bs = {}" using assms(3) fs by simp
  have heads: "PageProperty (pages s q) \<longleftrightarrow> q \<in> fst ` set bs" for q using bs(1) by (simp add: blocks_def)
  have np: "\<not> PageProperty (pages s q)" if "q \<in> {b..<b + n}" for q
    using that disj blocks_member(1) [OF bs(1)] heads [of q] by (fastforce simp: cover_def)
  have sum: "sum_list (map snd bs) + n < 4294967296"
    using card_cover [OF spaced_weaken [OF bs(2)]] assms(5) fs by (simp add: ff_may_free_def)
  have nl: "not_last bs b"
  proof (cases bs)
    case (Cons x xs)
    then have "cover bs \<noteq> {}" using blocks_member(1) [OF bs(1), of "fst x" "snd x"] by (cases x) auto
    then obtain q where q: "q \<in> cover bs" "b < q" using assms(5) fs by (auto simp: ff_may_free_def)
    then obtain c m where c: "(c, m) \<in> set bs" "c \<le> q" "q < c + m" by (auto simp: cover_def)
    have "b \<in> {b..<b + n}" using assms(2) by simp
    then have "b \<notin> cover bs" using disj by blast
    then have "b \<notin> {c..<c + m}" using c(1) unfolding cover_def by blast
    then have "b < c" using c(3) q(2) by simp
    with c show ?thesis by (auto simp: not_last_def)
  qed (simp add: not_last_def)
  define t where "t = (upd_page b SetPageProperty (upd_page b (\<lambda>g. g\<lparr>pg_property := word_of_nat n\<rparr>)
      (s\<lparr>pages := (\<lambda>q. if b \<le> q \<and> q < b + n then (pages s q)\<lparr>pg_flags := 0, pg_ref := 0\<rparr> else pages s q)\<rparr>)))
      \<lparr>nr_free := nr_free s + word_of_nat n\<rparr>"
  have rel: "release_pages n b (pages s) = Some (\<lambda>q. if b \<le> q \<and> q < b + n
      then (pages s q)\<lparr>pg_flags := 0, pg_ref := 0\<rparr> else pages s q)"
    by (rule release_pages_spec) (use assms(4) np in auto)
  have t: "pages t q = pages s q" if "q \<notin> {b..<b + n}" for q
    using that assms(2) by (auto simp: t_def)
  have tb: "\<not> PageReserved (pages t q) \<and> (PageProperty (pages t q) \<longleftrightarrow> q = b)" if "q \<in> {b..<b + n}" for q
    using that by (cases "q = b") (simp_all add: t_def)
  have tp: "pg_property (pages t b) = word_of_nat n" "flinks t = flinks s" "nr_free t = nr_free s + word_of_nat n"
    by (simp_all add: t_def)
  obtain t' where t': "insert_block t b = Some t'" "blocks t' (blocks_below b bs @ (b, n) # blocks_above b bs)"
    using place_block [OF bs(1) assms(2) disj nl sum t tb tp] by blast
  have sp: "spaced True (blocks_below b bs)" "spaced True (blocks_above b bs)"
    using bs(2) below_above [of bs b] by (metis spaced_simps(3))+
  obtain s2 us b' n' where m: "merge_prev t' b = (s2, b')" "blocks s2 (us @ (b', n') # blocks_above b bs)"
    "cover (us @ [(b', n')]) = cover (blocks_below b bs @ [(b, n)])" "spaced True (us @ [(b', n')])"
    using merge_prev_spec [OF t'(2) sp(1)] by blast
  obtain bs' where r: "blocks (merge_next s2 b') bs'" "spaced True bs'"
    "cover bs' = cover (us @ (b', n') # blocks_above b bs)"
    using merge_next_spec [OF m(2,4) sp(2)] by blast
  have "cover (us @ (b', n') # blocks_above b bs) = cover (us @ [(b', n')]) \<union> cover (blocks_above b bs)" by auto
  also have "\<dots> = cover (blocks_below b bs @ blocks_above b bs) \<union> {b..<b + n}" unfolding m(3) by auto
  also have "\<dots> = free_set s \<union> {b..<b + n}" using below_above [of bs b] fs by simp
  finally have "free_set (merge_next s2 b') = free_set s \<union> {b..<b + n}"
    using blocks_free_set [OF r(1)] r(3) by simp
  moreover have "default_free_pages s b n = Some (merge_next s2 b')"
    using rel t'(1) m(1) assms(2) by (simp add: default_free_pages_def t_def Let_def)
  moreover have "ff_inv (merge_next s2 b')" using r ff_inv_def by blast
  ultimately show ?thesis by blast
qed

subsection \<open>Start-up\<close>

lemma default_boot:
  assumes "0 < n" "n < 4294967296" "\<forall>q \<in> {b..<b + n}. PageReserved (pages s q)"
    and "\<forall>q. q \<notin> {b..<b + n} \<longrightarrow> \<not> PageProperty (pages s q)"
  shows "\<exists>s'. default_init_memmap (default_init s) b n = Some s' \<and> blocks s' [(b, n)]"
proof -
  let ?z = "\<lambda>g. g\<lparr>pg_flags := 0, pg_property := 0, pg_ref := 0\<rparr>"
  let ?s = "default_init s"
  let ?clean = "s\<lparr>pages := (\<lambda>q. if b \<le> q \<and> q < b + n then ?z (pages s q) else pages s q),
      flinks := list_init (flinks s) FreeHead, nr_free := 0\<rparr>"
  have np: "\<not> PageProperty (pages ?clean q)" for q using assms(4) by (simp add: linorder_not_le)
  have empty: "blocks ?clean []"
    using np dlist_init [of "flinks s" FreeHead] unfolding blocks_def by simp
  define t where "t = (upd_page b SetPageProperty (upd_page b (\<lambda>g. g\<lparr>pg_property := word_of_nat n\<rparr>) ?clean))
      \<lparr>nr_free := nr_free ?clean + word_of_nat n\<rparr>"
  have pg: "pages ?s = pages s" by (simp add: default_init_def)
  have cl: "?s\<lparr>pages := pages ?clean\<rparr> = ?clean" by (simp add: default_init_def)
  have init: "init_pages n b (pages ?s) = Some (pages ?clean)"
    using init_pages_spec [of b n "pages s"] assms(3) unfolding pg by simp
  have t: "pages t q = pages ?clean q" if "q \<notin> {b..<b + n}" for q
    using that assms(1) by (auto simp: t_def)
  have tb: "\<not> PageReserved (pages t q) \<and> (PageProperty (pages t q) \<longleftrightarrow> q = b)" if "q \<in> {b..<b + n}" for q
    using that by (cases "q = b") (simp_all add: t_def)
  have tp: "pg_property (pages t b) = word_of_nat n" "flinks t = flinks ?clean" "nr_free t = nr_free ?clean + word_of_nat n"
    by (simp_all add: t_def)
  obtain t' where t': "insert_block t b = Some t'" "blocks t' (blocks_below b [] @ (b, n) # blocks_above b [])"
    using place_block [OF empty assms(1) _ _ _ t tb tp] assms(2) by (auto simp: not_last_def)
  have "default_init_memmap ?s b n = Some t'"
    using init t'(1) assms(1) by (simp add: default_init_memmap_def t_def Let_def cl [simplified]) (simp add: default_init_def)
  with t'(2) show ?thesis by (simp add: blocks_below_def blocks_above_def)
qed

subsection \<open>Insertion behind all other blocks\<close>

text \<open>
  The search loop does not stop after \<open>list_add(le, base)\<close>: its next node is the new block itself,
  which is again the last one and is added behind itself. Its \<open>prev\<close> pointer then leads to itself.
\<close>

lemma insert_block_tail:
  assumes "dlist (flinks s) FreeHead (map (\<lambda>x. PageLink (fst x)) bs)" "bs \<noteq> []" "\<forall>(c, m) \<in> set bs. c < b"
  shows "\<exists>h. insert_block s b = Some (s\<lparr>flinks := h\<rparr>) \<and> fwd (lnext h) FreeHead (bs @ [(b, k)])
    \<and> lprev h (PageLink b) = PageLink b \<and> lnext h (PageLink b) = FreeHead \<and> lprev h FreeHead = PageLink b"
proof -
  let ?L = "\<lambda>x. PageLink (fst x)"
  obtain us x where us: "bs = us @ [x]" using assms(2) by (cases bs rule: rev_cases) auto
  let ?l = "PageLink (fst x)" and ?b = "PageLink b"
  let ?h1 = "list_add (flinks s) ?l ?b"
  let ?h2 = "list_add ?h1 ?b ?b"
  have d: "dlist (flinks s) FreeHead (map ?L us @ ?l # [])" using assms(1) us by simp
  have fresh: "?b \<notin> set (FreeHead # map ?L us @ ?l # [])" using assms(3) us by auto
  have d1: "dlist ?h1 FreeHead (map ?L (bs @ [(b, k)]))" using dlist_add_after [OF d fresh] us by simp
  have nb: "lnext ?h1 ?b = FreeHead" "lprev ?h1 FreeHead = ?b"
    using d1 us by (simp_all add: dlist_def)
  have h2: "lnext ?h2 = lnext ?h1" "lprev ?h2 = (lprev ?h1)(?b := ?b)"
    using nb by (auto simp: list_add_def list_add_after_def fun_eq_iff)
  have walk: "insert_block_loop s b (if vs = [] then FreeHead else PageLink (fst (last vs)))
      = Some (s\<lparr>flinks := ?h2\<rparr>)" if "bs = vs @ ws" "ws \<noteq> []" for vs ws
    using that
  proof (induction ws arbitrary: vs)
    case (Cons w ws)
    have nx: "list_next (flinks s) (if vs = [] then FreeHead else PageLink (fst (last vs))) = PageLink (fst w)"
      using block_node_next [of s vs "w # ws"] assms(1) Cons.prems by (simp add: case_prod_beta)
    have nw: "list_next (flinks s) (PageLink (fst w)) = (case ws of [] \<Rightarrow> FreeHead | (c, m) # _ \<Rightarrow> PageLink c)"
      using block_node_next [of s "vs @ [w]" ws] assms(1) Cons.prems by simp
    have lt: "fst w < b" using assms(3) Cons.prems by (cases w) auto
    show ?case
    proof (cases ws)
      case Nil
      then have "w = x" using us Cons.prems by simp
      let ?s1 = "s\<lparr>flinks := ?h1\<rparr>"
      have "list_next ?h1 (PageLink (fst x)) = ?b"
        using d1 us by (simp add: dlist_def list_next_def)
      then have "insert_block_loop ?s1 b ?l = insert_block_loop (?s1\<lparr>flinks := ?h2\<rparr>) b ?b"
        using nb by (subst insert_block_loop.simps) (simp add: Let_def list_next_def)
      also have "\<dots> = Some (s\<lparr>flinks := ?h2\<rparr>)"
        using nb h2 by (subst insert_block_loop.simps) (simp add: Let_def list_next_def)
      finally show ?thesis
        using nx nw lt Nil \<open>w = x\<close> by (subst insert_block_loop.simps) (simp add: Let_def)
    next
      case C: (Cons v zs)
      have "insert_block_loop s b (PageLink (fst w)) = Some (s\<lparr>flinks := ?h2\<rparr>)"
        using Cons.IH [of "vs @ [w]"] Cons.prems C by simp
      then show ?thesis
        using nx nw lt C by (subst insert_block_loop.simps) (simp add: Let_def case_prod_beta)
    qed
  qed simp
  have "insert_block s b = Some (s\<lparr>flinks := ?h2\<rparr>)"
    using walk [of "[]" bs] assms(2) list_empty_dlist [OF assms(1)] by (simp add: insert_block_def)
  moreover have "fwd (lnext ?h2) FreeHead (bs @ [(b, k)])" unfolding h2 by (rule dlist_fwd [OF d1])
  ultimately show ?thesis using h2 nb by (intro exI [of _ ?h2]) simp
qed

subsection \<open>The first-fit allocator meets the contract\<close>

definition ff_accepts :: "free_area \<Rightarrow> nat \<Rightarrow> nat \<Rightarrow> bool" where
  "ff_accepts s b n \<longleftrightarrow> 0 < n \<and> (\<forall>q \<in> {b..<b + n}. \<not> PageReserved (pages s q)) \<and> ff_may_free s b n"

text \<open>A single page is taken from the lowest block, so it may be given back at once.\<close>

lemma default_alloc_lowest:
  assumes "ff_inv s" "default_alloc_pages s 1 = Some (Some p, s')"
  shows "ff_accepts s' p 1"
proof -
  obtain bs where bs: "blocks s bs" "spaced True bs" using assms(1) by (auto simp: ff_inv_def)
  have pos: "\<forall>(b, k) \<in> set bs. 0 < k" using bs(1) by (auto simp: blocks_def)
  note run = default_alloc_spec [OF bs(1), of 1]
  obtain b k vs where b: "bs = (b, k) # vs" using run assms(2) by (cases bs) auto
  have find: "find (\<lambda>(b, k). 1 \<le> k) bs = Some (b, k)" using pos b by auto
  then have p: "p = b" "s' = take_block s b 1" using run assms(2) by auto
  have free: "free_set s' = free_set s - {b..<b + 1}"
    using default_alloc_law [OF assms(1), of 1] assms(2) p(1) by auto
  have fs: "free_set s = cover bs" "b \<in> free_set s" using blocks_free_set [OF bs(1)] b pos by auto
  have low: "b \<le> q" if "q \<in> free_set s" for q using that bs(2) unfolding fs(1) b by (fastforce simp: cover_def)
  have card: "finite (free_set s)" "card (free_set s) = unat (nr_free s)"
    using card_cover [OF spaced_weaken [OF bs(2)]] bs(1) by (simp_all add: fs(1) blocks_def)
  have "{b..<b + 1} = {b}" by auto
  then have "card (free_set s') + 1 = unat (nr_free s)"
    using free card fs(2) card_Suc_Diff1 [of "free_set s" b] by simp
  then have "card (free_set s') + 1 < 4294967296" using unat_u32_less [of "nr_free s"] by simp
  moreover have "b < q" if "q \<in> free_set s'" for q using that low [of q] unfolding free by auto
  then have "free_set s' = {} \<or> (\<exists>q \<in> free_set s'. b < q)" by blast
  moreover have "\<not> PageReserved (pages s' b)"
  proof -
    have "\<not> PageReserved (pages s b)" using bs(1) fs by (auto simp: blocks_def)
    then show ?thesis unfolding p(2) by (simp add: take_block_def Let_def)
  qed
  ultimately show ?thesis by (simp add: ff_accepts_def ff_may_free_def p(1))
qed
interpretation ff: pmm_exact default_pmm_manager ff_inv free_set "\<lambda>s n. 0 < n" ff_accepts "\<lambda>n. n"
proof
  fix s n assume "ff_inv s" "0 < (n :: nat)"
  then show "\<exists>r s'. pm_alloc_pages default_pmm_manager s n = Some (r, s') \<and> ff_inv s'
      \<and> (case r of None \<Rightarrow> s' = s | Some p \<Rightarrow> {p..<p + n} \<subseteq> free_set s \<and> free_set s' = free_set s - {p..<p + n})"
    using default_alloc_law [of s n] by (auto simp: default_pmm_manager_def)
next
  fix s n p assume "ff_inv s" "0 < (n :: nat)" "{p..<p + n} \<subseteq> free_set s"
  then show "\<exists>r s'. pm_alloc_pages default_pmm_manager s n = Some (Some r, s')"
    using default_alloc_law [of s n] by (force simp: default_pmm_manager_def)
next
  fix s n b assume "ff_inv s" "{b..<b + n} \<inter> free_set s = {}" "ff_accepts s b n"
  then show "\<exists>s'. pm_free_pages default_pmm_manager s b n = Some s' \<and> ff_inv s' \<and> free_set s' = free_set s \<union> {b..<b + n}"
    using default_free_law [of s n b] by (simp add: default_pmm_manager_def ff_accepts_def)
next
  fix s assume "ff_inv s"
  then obtain bs where "blocks s bs" by (auto simp: ff_inv_def)
  then show "finite (free_set s) \<and> pm_nr_free_pages default_pmm_manager s = card (free_set s)"
    using card_cover [of bs] blocks_free_set [of s bs]
    by (auto simp: default_pmm_manager_def default_nr_free_pages_def blocks_def)
qed simp_all

text \<open>
  C16: First-fit allocation. In a well-formed free area \<open>alloc_pages(n)\<close> with \<open>n > 0\<close> does not panic and
  keeps the free area well-formed. It fails, changing nothing, exactly when no \<open>n\<close> adjacent pages are
  free; otherwise the \<open>n\<close> pages it returns were all free, exactly these leave the free set, and
  \<open>nr_free_pages()\<close> goes down by \<open>n\<close>.
\<close>

theorem ff_alloc_correct:
  assumes "ff_inv s" "0 < n"
  shows "\<exists>r s'. alloc_pages default_pmm_manager s n = Some (r, s') \<and> ff_inv s'
    \<and> (case r of
         None \<Rightarrow> s' = s \<and> \<not> (\<exists>p. {p..<p + n} \<subseteq> free_set s)
       | Some p \<Rightarrow> {p..<p + n} \<subseteq> free_set s \<and> free_set s' = free_set s - {p..<p + n}
           \<and> nr_free_pages default_pmm_manager s' + n = nr_free_pages default_pmm_manager s)"
proof -
  obtain r s' where r: "alloc_pages default_pmm_manager s n = Some (r, s')" "ff_inv s'"
    "case r of None \<Rightarrow> s' = s | Some p \<Rightarrow> {p..<p + n} \<subseteq> free_set s \<and> free_set s' = free_set s - {p..<p + n}"
    using ff.alloc_law [OF assms] by (auto simp: alloc_pages_def)
  show ?thesis
  proof (cases r)
    case None
    with r ff.alloc_fails_iff [OF assms] show ?thesis by (intro exI [of _ r] exI [of _ s']) simp
  next
    case (Some p)
    with r ff.alloc_count [OF assms, of p s'] show ?thesis
      by (intro exI [of _ r] exI [of _ s']) simp
  qed
qed

text \<open>
  C17: Releasing a block of \<open>n\<close> allocated pages to the first-fit allocator, when the list is empty or some
  free page lies above the block, does not panic, makes exactly these pages free again and keeps
  the free area well-formed: the list stays sorted and consistent in both directions, and the block
  is joined with free neighbours on either side, so that no two listed blocks are adjacent.
\<close>

theorem ff_free_correct:
  assumes "ff_inv s" "0 < n" "{b..<b + n} \<inter> free_set s = {}"
    and "\<forall>q \<in> {b..<b + n}. \<not> PageReserved (pages s q)" "ff_may_free s b n"
  shows "\<exists>s'. free_pages default_pmm_manager s b n = Some s' \<and> ff_inv s' \<and> free_set s' = free_set s \<union> {b..<b + n}"
  using ff.free_law [OF assms(1,3)] assms by (simp add: free_pages_def ff_accepts_def)

text \<open>
  C18: The tail-insertion defect of \<open>default_free_pages\<close>. Let the free list be a list of blocks, not empty, each of
  which ends at or below \<open>b\<close> and is smaller than \<open>n\<close>, while together they have at least \<open>n\<close> pages (and less than
  \<open>2 ^ 32\<close> with \<open>n\<close> more). If the \<open>n\<close> pages from \<open>b\<close>, none of them reserved, are released, then the next two calls of
  \<open>alloc_pages(n)\<close> both succeed and return the same block \<open>b\<close>: the search loop re-inserts the new last node behind
  itself, and \<open>list_del\<close> then fails to unlink it.
\<close>

theorem ff_double_allocation:
  assumes "blocks s bs" "bs \<noteq> []" "\<forall>(c, m) \<in> set bs. c + m \<le> b \<and> m < n" "0 < n"
    and "\<forall>q \<in> {b..<b + n}. \<not> PageReserved (pages s q)"
    and "n \<le> sum_list (map snd bs)" "sum_list (map snd bs) + n < 4294967296"
  shows "\<exists>s1 s2 s3. free_pages default_pmm_manager s b n = Some s1
    \<and> alloc_pages default_pmm_manager s1 n = Some (Some b, s2)
    \<and> alloc_pages default_pmm_manager s2 n = Some (Some b, s3)"
proof -
  let ?rel = "\<lambda>q. if b \<le> q \<and> q < b + n then (pages s q)\<lparr>pg_flags := 0, pg_ref := 0\<rparr> else pages s q"
  define t where "t = (upd_page b SetPageProperty (upd_page b (\<lambda>g. g\<lparr>pg_property := word_of_nat n\<rparr>)
      (s\<lparr>pages := ?rel\<rparr>)))\<lparr>nr_free := nr_free s + word_of_nat n\<rparr>"
  have heads: "PageProperty (pages s q) \<longleftrightarrow> q \<in> fst ` set bs" for q using assms(1) by (simp add: blocks_def)
  have lt: "\<forall>(c, m) \<in> set bs. c < b" using assms(3) blocks_member(1) [OF assms(1)] by fastforce
  have np: "\<not> PageProperty (pages s q)" if "q \<in> {b..<b + n}" for q
    using that lt heads [of q] by fastforce
  have rel: "release_pages n b (pages s) = Some ?rel"
    by (rule release_pages_spec) (use assms(5) np in auto)
  have u: "unat (word_of_nat n :: u32) = n" using assms(7) by (simp add: unat_of_nat_u32)
  have nr: "unat (nr_free t) = sum_list (map snd bs) + n"
    using assms(1,7) unat_add_nat_u32 [of "nr_free s" n] by (simp add: t_def blocks_def)
  have "dlist (flinks t) FreeHead (map (\<lambda>x. PageLink (fst x)) bs)" using assms(1) by (simp add: t_def blocks_def)
  from insert_block_tail [OF this assms(2) lt, of n] obtain h where h:
    "insert_block t b = Some (t\<lparr>flinks := h\<rparr>)" "fwd (lnext h) FreeHead (bs @ [(b, n)])"
    "lprev h (PageLink b) = PageLink b" "lnext h (PageLink b) = FreeHead" "lprev h FreeHead = PageLink b" by blast
  let ?s1 = "t\<lparr>flinks := h\<rparr>"
  have props: "\<forall>(c, m) \<in> set (bs @ [(b, n)]). unat (pg_property (pages ?s1 c)) = m"
    using lt blocks_member(2) [OF assms(1)] u by (force simp: t_def)
  have find: "find (\<lambda>(c, m). n \<le> m) (bs @ [(b, n)]) = Some (b, n)"
  proof -
    have "find (\<lambda>(c, m). n \<le> m) xs = None" if "\<forall>(c, m) \<in> set xs. m < n" for xs :: "(nat \<times> nat) list"
      using that by (fastforce simp: find_None_iff)
    moreover have "find P (xs @ ys) = (case find P xs of None \<Rightarrow> find P ys | r \<Rightarrow> r)" for P and xs ys :: "(nat \<times> nat) list"
      by (induction xs) auto
    moreover have "\<forall>(c, m) \<in> set bs. m < n" using assms(3) by auto
    ultimately show ?thesis by simp
  qed
  have free: "default_free_pages s b n = Some ?s1"
    using rel h assms(4) u by (simp add: default_free_pages_def merge_prev_def merge_next_def list_prev_def
        list_next_def t_def [symmetric] Let_def) (simp add: t_def u)
  have idem: "(lnext h)(PageLink b := FreeHead) = lnext h" "(lprev h)(FreeHead := PageLink b) = lprev h"
    using h(3-5) by (simp_all add: fun_upd_idem)
  have same: "h\<lparr>lnext := lnext h, lprev := lprev h\<rparr> = h" by simp
  have take: "flinks (take_block r b n) = h \<and> nr_free (take_block r b n) = nr_free r - word_of_nat n
      \<and> pages (take_block r b n) = (pages r)(b := ClearPageProperty (pages r b))"
    if "flinks r = h" "unat (pg_property (pages r b)) = n" for r
    using that h by (simp add: take_block_def Let_def list_op_defs idem same)
  have loop: "first_fit_loop r n FreeHead = Some (Some b)"
    if "flinks r = h" "\<And>c. pg_property (pages r c) = pg_property (pages ?s1 c)" for r
    using first_fit_loop_spec [of r FreeHead "bs @ [(b, n)]" n] h(2) props find that by simp
  have pb: "unat (pg_property (pages ?s1 b)) = n" using props by simp
  let ?s2 = "take_block ?s1 b n"
  have t2: "flinks ?s2 = h" "nr_free ?s2 = nr_free t - word_of_nat n" "pg_property (pages ?s2 c) = pg_property (pages ?s1 c)" for c
    using take [of ?s1] pb by simp_all
  have "default_alloc_pages ?s1 n = Some (Some b, ?s2)"
    using loop [of ?s1] nr assms(4) by (simp add: default_alloc_pages_def)
  moreover have "default_alloc_pages ?s2 n = Some (Some b, take_block ?s2 b n)"
    using loop [OF t2(1,3)] t2(2) nr assms(4,6) unat_minus_nat_u32 [of n "nr_free t"]
    by (simp add: default_alloc_pages_def)
  ultimately show ?thesis using free
    by (simp add: alloc_pages_def free_pages_def default_pmm_manager_def)
qed

text \<open>
  Start-up: \<open>init\<close> followed by \<open>init_memmap\<close> of \<open>n\<close> reserved pages gives a well-formed free area
  with exactly these pages free, so that \<open>alloc_pages(n)\<close> then returns the whole block.
\<close>

lemma ff_boot_correct:
  assumes "0 < n" "n < 4294967296" "\<forall>q \<in> {b..<b + n}. PageReserved (pages s q)"
    and "\<forall>q. q \<notin> {b..<b + n} \<longrightarrow> \<not> PageProperty (pages s q)"
  shows "\<exists>s' s''. default_init_memmap (default_init s) b n = Some s' \<and> ff_inv s' \<and> free_set s' = {b..<b + n}
    \<and> default_alloc_pages s' n = Some (Some b, s'') \<and> free_set s'' = {}"
proof -
  obtain s' where s': "default_init_memmap (default_init s) b n = Some s'" "blocks s' [(b, n)]"
    using default_boot [OF assms] by blast
  have a: "default_alloc_pages s' n = Some (Some b, take_block s' b n)"
    using default_alloc_spec [OF s'(2) assms(1)] by simp
  have "blocks (take_block s' b n) []"
    using take_block_spec [of s' "[]" b n "[]" n] s'(2) assms(1) by simp
  from blocks_free_set [OF this] blocks_free_set [OF s'(2)] s' a show ?thesis
    by (auto simp: ff_inv_def)
qed

subsection \<open>A concrete free area\<close>

text \<open>Pages 0 and 2 are free, as two blocks of one page.\<close>

definition sample_area :: free_area where
  "sample_area = \<lparr>pages = (\<lambda>p. \<lparr>pg_ref = 0, pg_flags = (if p = 0 \<or> p = 2 then 2 else 0), pg_property = 1\<rparr>),
     flinks = \<lparr>lprev = (\<lambda>n. n)(PageLink 0 := FreeHead, PageLink 2 := PageLink 0, FreeHead := PageLink 2),
               lnext = (\<lambda>n. n)(FreeHead := PageLink 0, PageLink 0 := PageLink 2, PageLink 2 := FreeHead)\<rparr>,
     nr_free = 2\<rparr>"

lemma sample_page: "PageProperty (pages sample_area p) \<longleftrightarrow> p = 0 \<or> p = 2" "\<not> PageReserved (pages sample_area p)"
  by (simp_all add: sample_area_def PageProperty_def PageReserved_def PG_property_def PG_reserved_def bit_iff_odd)

lemma sample_blocks: "blocks sample_area [(0, 1), (2, 1)]"
  by (rule blocksI) (auto simp: sample_page, auto simp: sample_area_def dlist_def)

lemma sample_ff_inv: "ff_inv sample_area" "free_set sample_area = {0, 2}"
proof -
  have "spaced True [(0, 1), (2, 1 :: nat)]" by simp
  then show "ff_inv sample_area" unfolding ff_inv_def using sample_blocks by blast
  show "free_set sample_area = {0, 2}" unfolding blocks_free_set [OF sample_blocks] by auto
qed

theorem ff_alloc_correct_witness:
  "\<exists>r s'. alloc_pages default_pmm_manager sample_area 1 = Some (r, s') \<and> ff_inv s'"
  using ff_alloc_correct [OF sample_ff_inv(1), of 1] by auto

theorem ff_free_correct_witness:
  "\<exists>s'. free_pages default_pmm_manager sample_area 1 1 = Some s' \<and> ff_inv s' \<and> free_set s' = {0, 1, 2}"
proof -
  have "ff_may_free sample_area 1 1" by (simp add: ff_may_free_def sample_ff_inv(2))
  then have "\<exists>s'. free_pages default_pmm_manager sample_area 1 1 = Some s' \<and> ff_inv s'
      \<and> free_set s' = free_set sample_area \<union> {1..<1 + 1}"
    by (intro ff_free_correct [OF sample_ff_inv(1)]) (simp_all add: sample_ff_inv(2) sample_page)
  moreover have "free_set sample_area \<union> {1..<1 + 1} = {0, 1, 2}" unfolding sample_ff_inv(2) by auto
  ultimately show ?thesis by simp
qed

theorem ff_double_allocation_witness:
  "\<exists>s1 s2 s3. free_pages default_pmm_manager sample_area 5 2 = Some s1
    \<and> alloc_pages default_pmm_manager s1 2 = Some (Some 5, s2)
    \<and> alloc_pages default_pmm_manager s2 2 = Some (Some 5, s3)"
  by (rule ff_double_allocation [OF sample_blocks]) (simp_all add: sample_page)

end
