(* ===== verification/BestFit.thy ===== *)
theory BestFit
  imports FirstFit
begin

text \<open>
  The best-fit page allocator \<open>lab2/kern/mm/best_fit_pmm.c\<close>. It keeps the same address-ordered list
  of blocks as the first-fit allocator and differs in the search of \<open>best_fit_alloc_pages\<close>; the
  bodies of its other operations are those of \<open>default_pmm.c\<close>, which the equations below show.
\<close>

definition best_fit_init :: "free_area \<Rightarrow> free_area" where
  "best_fit_init s = s\<lparr>flinks := list_init (flinks s) FreeHead, nr_free := 0\<rparr>"

definition best_fit_init_memmap :: "free_area \<Rightarrow> nat \<Rightarrow> nat \<Rightarrow> free_area option" where
  "best_fit_init_memmap s base n =
     do {
       assert_that (n > 0);
       P \<leftarrow> init_pages n base (pages s);
       let s = s\<lparr>pages := P\<rparr>;
       let s = upd_page base (\<lambda>g. g\<lparr>pg_property := word_of_nat n\<rparr>) s;
       let s = upd_page base SetPageProperty s;
       let s = s\<lparr>nr_free := nr_free s + word_of_nat n\<rparr>;
       insert_block s base
     }"

text \<open>The search: \<open>page\<close> and \<open>min_size\<close> describe the best block seen so far.\<close>

partial_function (option) best_fit_loop :: "free_area \<Rightarrow> nat \<Rightarrow> pnode \<Rightarrow> nat \<Rightarrow> nat option \<Rightarrow> nat option option" where
  "best_fit_loop s n le min_size page =
     (let le = list_next (flinks s) le in
      case le of
        FreeHead \<Rightarrow> Some page
      | PageLink p \<Rightarrow>
          (let sz = unat (pg_property (pages s p)) in
           if sz = n then Some (Some p)
           else if sz > n \<and> sz < min_size then best_fit_loop s n le sz (Some p)
           else best_fit_loop s n le min_size page))"

definition best_fit_alloc_pages :: "free_area \<Rightarrow> nat \<Rightarrow> (nat option \<times> free_area) option" where
  "best_fit_alloc_pages s n =
     do {
       assert_that (n > 0);
       if n > unat (nr_free s) then Some (None, s) else do {
         let min_size = unat (nr_free s + 1);
         page \<leftarrow> best_fit_loop s n FreeHead min_size None;
         Some (case page of None \<Rightarrow> (None, s) | Some p \<Rightarrow> (Some p, take_block s p n))
       }
     }"

definition best_fit_free_pages :: "free_area \<Rightarrow> nat \<Rightarrow> nat \<Rightarrow> free_area option" where
  "best_fit_free_pages s base n =
     do {
       assert_that (n > 0);
       P \<leftarrow> release_pages n base (pages s);
       let s = s\<lparr>pages := P\<rparr>;
       let s = upd_page base (\<lambda>g. g\<lparr>pg_property := word_of_nat n\<rparr>) s;
       let s = upd_page base SetPageProperty s;
       let s = s\<lparr>nr_free := nr_free s + word_of_nat n\<rparr>;
       s \<leftarrow> insert_block s base;
       let (s, base) = merge_prev s base;
       Some (merge_next s base)
     }"

definition best_fit_nr_free_pages :: "free_area \<Rightarrow> nat" where
  "best_fit_nr_free_pages s = unat (nr_free s)"

definition best_fit_pmm_manager :: "free_area pmm_manager" where
  "best_fit_pmm_manager =
     \<lparr>pm_init = best_fit_init, pm_init_memmap = best_fit_init_memmap, pm_alloc_pages = best_fit_alloc_pages,
      pm_free_pages = best_fit_free_pages, pm_nr_free_pages = best_fit_nr_free_pages\<rparr>"

lemma best_fit_free_eq: "best_fit_free_pages s base n = default_free_pages s base n"
  by (simp add: best_fit_free_pages_def default_free_pages_def)

lemma best_fit_nr_eq: "best_fit_nr_free_pages s = default_nr_free_pages s"
  by (simp add: best_fit_nr_free_pages_def default_nr_free_pages_def)

subsection \<open>The search on the sequence of blocks\<close>

fun best_scan :: "nat \<Rightarrow> nat \<Rightarrow> nat option \<Rightarrow> (nat \<times> nat) list \<Rightarrow> nat option" where
  "best_scan n mn pg [] = pg"
| "best_scan n mn pg ((b, k) # bs) =
     (if k = n then Some b else if n < k \<and> k < mn then best_scan n k (Some b) bs else best_scan n mn pg bs)"

lemma best_fit_loop_spec:
  assumes "fwd (lnext (flinks s)) le bs" "\<forall>(b, k) \<in> set bs. unat (pg_property (pages s b)) = k"
  shows "best_fit_loop s n le mn pg = Some (best_scan n mn pg bs)"
  using assms
proof (induction bs arbitrary: le mn pg)
  case Nil
  then show ?case by (subst best_fit_loop.simps) (simp add: Let_def list_next_def)
next
  case (Cons v vs)
  obtain b k where v: "v = (b, k)" by (cases v)
  have "best_fit_loop s n (PageLink b) i j = Some (best_scan n i j vs)" for i j
    by (rule Cons.IH) (use Cons.prems v in auto)
  with v Cons.prems show ?case
    by (subst best_fit_loop.simps) (simp add: Let_def list_next_def)
qed

text \<open>The result is the old candidate or a block at least as good, and no block is better.\<close>

lemma best_scan_spec:
  "case best_scan n mn pg bs of
     None \<Rightarrow> pg = None \<and> (\<forall>(c, m) \<in> set bs. n \<le> m \<longrightarrow> mn \<le> m)
   | Some b \<Rightarrow> (pg = Some b \<and> (\<forall>(c, m) \<in> set bs. n \<le> m \<longrightarrow> mn \<le> m))
       \<or> (\<exists>k. (b, k) \<in> set bs \<and> n \<le> k \<and> (k = n \<or> k < mn) \<and> (\<forall>(c, m) \<in> set bs. n \<le> m \<longrightarrow> k \<le> m))"
proof (induction bs arbitrary: mn pg)
  case Nil
  show ?case by (cases pg) auto
next
  case (Cons v bs)
  obtain b k where v: "v = (b, k)" by (cases v)
  consider "k = n" | "n < k" "k < mn" | "k < n \<or> (mn \<le> k \<and> n < k)" by linarith
  then show ?case
  proof cases
    case 1
    then show ?thesis by (auto simp: v)
  next
    case 2
    then have "best_scan n mn pg (v # bs) = best_scan n k (Some b) bs" by (simp add: v)
    moreover note ih = Cons.IH [where mn = k and pg = "Some b"]
    ultimately show ?thesis
    proof (cases "best_scan n k (Some b) bs")
      case None
      with ih show ?thesis by simp
    next
      case (Some c)
      with ih consider "c = b" "\<forall>(c, m) \<in> set bs. n \<le> m \<longrightarrow> k \<le> m"
        | j where "(c, j) \<in> set bs" "n \<le> j" "j = n \<or> j < k" "\<forall>(c, m) \<in> set bs. n \<le> m \<longrightarrow> j \<le> m" by auto
      then have "\<exists>j. (c, j) \<in> set (v # bs) \<and> n \<le> j \<and> (j = n \<or> j < mn) \<and> (\<forall>(c, m) \<in> set (v # bs). n \<le> m \<longrightarrow> j \<le> m)"
      proof cases
        case 1
        with 2 show ?thesis by (intro exI [of _ k]) (auto simp: v)
      next
        case (2 j)
        with \<open>n < k\<close> \<open>k < mn\<close> show ?thesis by (intro exI [of _ j]) (auto simp: v)
      qed
      with Some \<open>best_scan n mn pg (v # bs) = _\<close> show ?thesis by (simp only: option.case simp_thms)
    qed
  next
    case 3
    then have "best_scan n mn pg (v # bs) = best_scan n mn pg bs" by (auto simp: v)
    moreover have "n \<le> k \<longrightarrow> mn \<le> k" using 3 by auto
    moreover note Cons.IH [where mn = mn and pg = pg]
    ultimately show ?thesis
    proof (cases "best_scan n mn pg bs")
      case None
      with Cons.IH [where mn = mn and pg = pg] \<open>n \<le> k \<longrightarrow> mn \<le> k\<close> \<open>best_scan n mn pg (v # bs) = _\<close>
      show ?thesis by (simp add: v)
    next
      case (Some c)
      with Cons.IH [where mn = mn and pg = pg]
      consider "pg = Some c" "\<forall>(c, m) \<in> set bs. n \<le> m \<longrightarrow> mn \<le> m"
        | j where "(c, j) \<in> set bs" "n \<le> j" "j = n \<or> j < mn" "\<forall>(c, m) \<in> set bs. n \<le> m \<longrightarrow> j \<le> m" by auto
      then show ?thesis
      proof cases
        case 1
        with Some \<open>n \<le> k \<longrightarrow> mn \<le> k\<close> \<open>best_scan n mn pg (v # bs) = _\<close> show ?thesis by (simp add: v)
      next
        case (2 j)
        then have "\<exists>j. (c, j) \<in> set (v # bs) \<and> n \<le> j \<and> (j = n \<or> j < mn) \<and> (\<forall>(c, m) \<in> set (v # bs). n \<le> m \<longrightarrow> j \<le> m)"
          using \<open>n \<le> k \<longrightarrow> mn \<le> k\<close> by (intro exI [of _ j]) (auto simp: v)
        with Some \<open>best_scan n mn pg (v # bs) = _\<close> show ?thesis by (simp only: option.case simp_thms)
      qed
    qed
  qed
qed

lemma best_fit_alloc_spec:
  assumes "blocks s bs" "0 < n" "unat (nr_free s) + 1 < 4294967296"
  shows "(\<exists>us b k vs. bs = us @ (b, k) # vs \<and> n \<le> k \<and> (\<forall>(c, m) \<in> set bs. n \<le> m \<longrightarrow> k \<le> m)
            \<and> best_fit_alloc_pages s n = Some (Some b, take_block s b n))
       \<or> ((\<forall>(c, m) \<in> set bs. m < n) \<and> best_fit_alloc_pages s n = Some (None, s))"
proof -
  have d: "dlist (flinks s) FreeHead (map (\<lambda>x. PageLink (fst x)) bs)"
    "\<forall>(b, k) \<in> set bs. unat (pg_property (pages s b)) = k"
    using assms(1) by (auto simp: blocks_def)
  let ?mn = "unat (nr_free s + 1)"
  have mn: "?mn = unat (nr_free s) + 1" using unat_add_nat_u32 [of "nr_free s" 1] assms(3) by simp
  have le: "(c, m) \<in> set bs \<Longrightarrow> m < ?mn" for c m using blocks_member(3) [OF assms(1), of c m] mn by simp
  note loop = best_fit_loop_spec [OF dlist_fwd [OF d(1)] d(2), of n ?mn None]
  note sc = best_scan_spec [where n = n and mn = ?mn and pg = None and bs = bs]
  show ?thesis
  proof (cases "unat (nr_free s) < n")
    case True
    then have "\<forall>(c, m) \<in> set bs. m < n" using le mn by fastforce
    with True assms(2) show ?thesis by (simp add: best_fit_alloc_pages_def)
  next
    case False
    show ?thesis
    proof (cases "best_scan n ?mn None bs")
      case None
      with sc le have "\<forall>(c, m) \<in> set bs. m < n" by fastforce
      with False loop None assms(2) show ?thesis by (simp add: best_fit_alloc_pages_def)
    next
      case (Some b)
      with sc obtain k where k: "(b, k) \<in> set bs" "n \<le> k" "\<forall>(c, m) \<in> set bs. n \<le> m \<longrightarrow> k \<le> m" by auto
      obtain us vs where "bs = us @ (b, k) # vs" using split_list [OF k(1)] by blast
      with k False loop Some assms(2) show ?thesis by (auto simp: best_fit_alloc_pages_def)
    qed
  qed
qed

text \<open>The contract, in states whose page count does not fill the 32-bit counter.\<close>

definition bf_inv :: "free_area \<Rightarrow> bool" where
  "bf_inv s \<longleftrightarrow> ff_inv s \<and> unat (nr_free s) + 1 < 4294967296"

definition bf_accepts :: "free_area \<Rightarrow> nat \<Rightarrow> nat \<Rightarrow> bool" where
  "bf_accepts s b n \<longleftrightarrow> 0 < n \<and> (\<forall>q \<in> {b..<b + n}. \<not> PageReserved (pages s q))
     \<and> (free_set s = {} \<or> (\<exists>q \<in> free_set s. b < q)) \<and> card (free_set s) + n + 1 < 4294967296"

lemma ff_inv_count: "ff_inv s \<Longrightarrow> finite (free_set s) \<and> unat (nr_free s) = card (free_set s)"
  using ff.count_law [of s] by (simp add: default_pmm_manager_def default_nr_free_pages_def)

text \<open>Taking the first \<open>n\<close> pages of any block that has them is a correct allocation.\<close>

lemma take_any_block:
  assumes "blocks s (us @ (b, k) # vs)" "spaced True (us @ (b, k) # vs)" "0 < n" "n \<le> k"
  shows "ff_inv (take_block s b n) \<and> {b..<b + n} \<subseteq> free_set s \<and> free_set (take_block s b n) = free_set s - {b..<b + n}"
proof -
  note t = take_block_spec [OF assms(1,3,4)]
  have "{b..<b + n} \<subseteq> {b..<b + k}" using assms(4) by auto
  then have "{b..<b + n} \<subseteq> free_set s" unfolding blocks_free_set [OF assms(1)] cover_simps by blast
  then show ?thesis
    using t spaced_shrink [OF assms(2,4)] cover_shrink [OF spaced_weaken [OF assms(2)] assms(4)]
      blocks_free_set [OF t] blocks_free_set [OF assms(1)] unfolding ff_inv_def by metis
qed

lemma best_fit_alloc_law:
  assumes "bf_inv s" "0 < n"
  shows "\<exists>r s'. best_fit_alloc_pages s n = Some (r, s') \<and> bf_inv s'
    \<and> (case r of None \<Rightarrow> s' = s | Some p \<Rightarrow> {p..<p + n} \<subseteq> free_set s \<and> free_set s' = free_set s - {p..<p + n})
    \<and> (r = None \<longrightarrow> \<not> (\<exists>p. {p..<p + n} \<subseteq> free_set s))"
proof -
  obtain bs where bs: "blocks s bs" "spaced True bs" and cnt: "unat (nr_free s) + 1 < 4294967296"
    using assms(1) by (auto simp: bf_inv_def ff_inv_def)
  from best_fit_alloc_spec [OF bs(1) assms(2) cnt] show ?thesis
  proof (elim disjE exE conjE)
    fix us b k vs
    assume split: "bs = us @ (b, k) # vs" and nk: "n \<le> k"
      and run: "best_fit_alloc_pages s n = Some (Some b, take_block s b n)"
    have t: "ff_inv (take_block s b n)" "{b..<b + n} \<subseteq> free_set s"
      "free_set (take_block s b n) = free_set s - {b..<b + n}"
      using take_any_block [of s us b k vs n] bs assms(2) nk unfolding split by blast+
    have "nr_free (take_block s b n) \<le> nr_free s"
      using ff_inv_count [OF t(1)] ff_inv_count [of s] t(3) assms(1)
      by (simp add: word_le_nat_alt bf_inv_def card_mono)
    then have "bf_inv (take_block s b n)" using t(1) cnt by (simp add: bf_inv_def word_le_nat_alt)
    with run t show ?thesis by simp
  next
    assume "\<forall>(c, m) \<in> set bs. m < n" "best_fit_alloc_pages s n = Some (None, s)"
    moreover from this(1) have "\<not> (\<exists>p. {p..<p + n} \<subseteq> free_set s)"
      unfolding blocks_free_set [OF bs(1)] using cover_run [OF bs(2) _ assms(2)] by fastforce
    ultimately show ?thesis using assms(1) by simp
  qed
qed

interpretation bf: pmm_exact best_fit_pmm_manager bf_inv free_set "\<lambda>s n. 0 < n" bf_accepts "\<lambda>n. n"
proof
  fix s n assume "bf_inv s" "0 < (n :: nat)"
  then show "\<exists>r s'. pm_alloc_pages best_fit_pmm_manager s n = Some (r, s') \<and> bf_inv s'
      \<and> (case r of None \<Rightarrow> s' = s | Some p \<Rightarrow> {p..<p + n} \<subseteq> free_set s \<and> free_set s' = free_set s - {p..<p + n})"
    using best_fit_alloc_law [of s n] by (auto simp: best_fit_pmm_manager_def)
next
  fix s n p assume "bf_inv s" "0 < (n :: nat)" "{p..<p + n} \<subseteq> free_set s"
  then show "\<exists>r s'. pm_alloc_pages best_fit_pmm_manager s n = Some (Some r, s')"
    using best_fit_alloc_law [of s n] by (force simp: best_fit_pmm_manager_def)
next
  fix s n b assume a: "bf_inv s" "{b..<b + n} \<inter> free_set s = {}" "bf_accepts s b n"
  have "ff_may_free s b n" using a(3) by (simp add: ff_may_free_def bf_accepts_def)
  with default_free_law [of s n b] a obtain s' where s': "default_free_pages s b n = Some s'" "ff_inv s'"
    "free_set s' = free_set s \<union> {b..<b + n}" by (auto simp: bf_inv_def bf_accepts_def)
  have "card (free_set s') \<le> card (free_set s) + n"
    unfolding s'(3) using card_Un_le [of "free_set s" "{b..<b + n}"] by simp
  then have "bf_inv s'" using s'(2) ff_inv_count [OF s'(2)] a(3) by (simp add: bf_inv_def bf_accepts_def)
  then show "\<exists>s'. pm_free_pages best_fit_pmm_manager s b n = Some s' \<and> bf_inv s' \<and> free_set s' = free_set s \<union> {b..<b + n}"
    using s' by (simp add: best_fit_pmm_manager_def best_fit_free_eq)
next
  fix s assume "bf_inv s"
  then show "finite (free_set s) \<and> pm_nr_free_pages best_fit_pmm_manager s = card (free_set s)"
    using ff_inv_count [of s] by (simp add: best_fit_pmm_manager_def best_fit_nr_free_pages_def bf_inv_def)
qed simp_all

text \<open>
  C19: Best-fit allocation. \<open>best_fit_alloc_pages(n)\<close> in a well-formed free area fails exactly when no \<open>n\<close>
  adjacent pages are free; otherwise it returns the start of a listed free block of \<open>k \<ge> n\<close> pages such
  that no other listed block with at least \<open>n\<close> pages is smaller than \<open>k\<close>, and takes exactly the first
  \<open>n\<close> pages of it.
\<close>

theorem bf_alloc_best:
  assumes "blocks s bs" "spaced True bs" "0 < n" "unat (nr_free s) + 1 < 4294967296"
  shows "(\<exists>b k s'. best_fit_alloc_pages s n = Some (Some b, s') \<and> (b, k) \<in> set bs \<and> n \<le> k
      \<and> (\<forall>(c, m) \<in> set bs. n \<le> m \<longrightarrow> k \<le> m) \<and> bf_inv s' \<and> free_set s' = free_set s - {b..<b + n})
    \<or> (best_fit_alloc_pages s n = Some (None, s) \<and> \<not> (\<exists>p. {p..<p + n} \<subseteq> free_set s))"
proof -
  have inv: "bf_inv s" using assms unfolding bf_inv_def ff_inv_def by blast
  note law = best_fit_alloc_law [OF inv assms(3)]
  from best_fit_alloc_spec [OF assms(1,3,4)] show ?thesis
  proof (elim disjE exE conjE)
    fix us b k vs
    assume "bs = us @ (b, k) # vs" "n \<le> k" "\<forall>(c, m) \<in> set bs. n \<le> m \<longrightarrow> k \<le> m"
      "best_fit_alloc_pages s n = Some (Some b, take_block s b n)"
    moreover from this have "(b, k) \<in> set bs" by simp
    moreover have "bf_inv (take_block s b n) \<and> free_set (take_block s b n) = free_set s - {b..<b + n}"
      using law calculation(4) by auto
    ultimately show ?thesis by blast
  next
    assume "best_fit_alloc_pages s n = Some (None, s)"
    with law show ?thesis by auto
  qed
qed

theorem bf_alloc_best_witness:
  "best_fit_alloc_pages sample_area 2 = Some (None, sample_area)"
proof -
  have "\<not> {p..<p + 2} \<subseteq> free_set sample_area" for p
  proof
    assume s: "{p..<p + 2} \<subseteq> free_set sample_area"
    have "p \<in> {p..<p + 2}" "p + 1 \<in> {p..<p + 2}" by simp_all
    with s have "p \<in> {0, 2}" "p + 1 \<in> {0, 2}" unfolding sample_ff_inv(2) by blast+
    then show False by auto
  qed
  moreover have "(\<exists>b k s'. best_fit_alloc_pages sample_area 2 = Some (Some b, s') \<and> (b, k) \<in> set [(0, 1), (2, 1)] \<and> 2 \<le> (k::nat)
      \<and> (\<forall>(c, m) \<in> set [(0, 1), (2::nat, 1)]. 2 \<le> m \<longrightarrow> k \<le> m) \<and> bf_inv s' \<and> free_set s' = free_set sample_area - {b..<b + 2})
    \<or> (best_fit_alloc_pages sample_area 2 = Some (None, sample_area) \<and> \<not> (\<exists>p. {p..<p + 2} \<subseteq> free_set sample_area))"
    by (rule bf_alloc_best [OF sample_blocks]) (simp_all, simp add: sample_area_def)
  ultimately show ?thesis by auto
qed

end
