(* ===== verification/Buddy.thy ===== *)
theory Buddy
  imports PageAlloc
begin

text \<open>
  The buddy allocator \<open>lab2/kern/mm/buddy_system_pmm.c\<close>: one pointer-level list of free blocks per
  order, in one heap of nodes. The abstraction gives for every order the sequence of free blocks;
  the invariant says that blocks are aligned, disjoint and that no two free buddies of one order
  exist below the top order.
\<close>

datatype bnode = OrderHead nat | BPage nat

record buddy =
  bpages :: "nat \<Rightarrow> page"
  blinks :: "bnode lheap"
  bnr_free :: "nat \<Rightarrow> u32"
  MAX_PAGES :: nat
  MAX_ORDERS :: nat
  BASE_ADDR :: nat

definition MAX_ORDER :: nat where "MAX_ORDER = 15"
definition PAGE_SIZE :: nat where "PAGE_SIZE = 4096"

text \<open>\<open>page2pa\<close> of \<open>pmm.h\<close>, with \<open>nbase = DRAM_BASE / PGSIZE\<close>.\<close>

definition page2pa :: "nat \<Rightarrow> nat" where
  "page2pa p = (p + 0x80000) * 4096"

function order_down_loop :: "nat \<Rightarrow> nat \<Rightarrow> nat" where
  "order_down_loop n order = (let n = n div 2 in if n \<noteq> 0 then order_down_loop n (Suc order) else order)"
  by pat_completeness auto
termination by (relation "measure fst") auto

declare order_down_loop.simps [simp del]

definition order_down :: "nat \<Rightarrow> nat" where
  "order_down n = (if n = 0 then 0 else order_down_loop n 0)"

text \<open>The loop of \<open>order_up\<close>, whose variable \<open>size\<close> is \<open>2 ^ order\<close> throughout.\<close>

function order_up_loop :: "nat \<Rightarrow> nat \<Rightarrow> nat" where
  "order_up_loop n order = (if 2 ^ order < n then order_up_loop n (Suc order) else order)"
  by pat_completeness auto
termination by (relation "measure (\<lambda>(n, order). n - 2 ^ order)") (auto intro: diff_less_mono2)

declare order_up_loop.simps [simp del]

definition order_up :: "nat \<Rightarrow> nat" where
  "order_up n = (if n = 0 then 0 else order_up_loop n 0)"

definition upd_bpage :: "nat \<Rightarrow> (page \<Rightarrow> page) \<Rightarrow> buddy \<Rightarrow> buddy" where
  "upd_bpage p f s = s\<lparr>bpages := (bpages s)(p := f (bpages s p))\<rparr>"

lemma upd_bpage_simps [simp]:
  "bpages (upd_bpage p f s) = (bpages s)(p := f (bpages s p))"
  "blinks (upd_bpage p f s) = blinks s" "bnr_free (upd_bpage p f s) = bnr_free s"
  "MAX_PAGES (upd_bpage p f s) = MAX_PAGES s" "MAX_ORDERS (upd_bpage p f s) = MAX_ORDERS s"
  "BASE_ADDR (upd_bpage p f s) = BASE_ADDR s"
  by (simp_all add: upd_bpage_def)

fun init_orders :: "nat \<Rightarrow> buddy \<Rightarrow> buddy" where
  "init_orders 0 s = s"
| "init_orders (Suc k) s =
     (let i = MAX_ORDER - k;
          s = s\<lparr>blinks := list_init (blinks s) (OrderHead i)\<rparr>
      in init_orders k (s\<lparr>bnr_free := (bnr_free s)(i := 0)\<rparr>))"

text \<open>The loop runs over \<open>i = 0 .. MAX_ORDER\<close>.\<close>

definition buddy_system_init :: "buddy \<Rightarrow> buddy" where
  "buddy_system_init s = init_orders (Suc MAX_ORDER) s"

text \<open>Linking a block at the head of the list of its order, with its \<open>property\<close> and flag set.\<close>

definition push_block :: "nat \<Rightarrow> nat \<Rightarrow> buddy \<Rightarrow> buddy" where
  "push_block b order s =
     (let s = upd_bpage b (\<lambda>g. g\<lparr>pg_property := word_of_nat order\<rparr>) s;
          s = upd_bpage b SetPageProperty s;
          s = s\<lparr>blinks := list_add (blinks s) (OrderHead order) (BPage b)\<rparr>
      in s\<lparr>bnr_free := (bnr_free s)(order := bnr_free s order + 1)\<rparr>)"

definition unlink_block :: "nat \<Rightarrow> nat \<Rightarrow> buddy \<Rightarrow> buddy" where
  "unlink_block b order s =
     (let s = s\<lparr>blinks := list_del (blinks s) (BPage b)\<rparr>
      in s\<lparr>bnr_free := (bnr_free s)(order := bnr_free s order - 1)\<rparr>)"

definition buddy_system_init_memmap :: "buddy \<Rightarrow> nat \<Rightarrow> nat \<Rightarrow> buddy option" where
  "buddy_system_init_memmap s base n =
     do {
       assert_that (n > 0);
       P \<leftarrow> init_pages n base (bpages s);
       let s = s\<lparr>bpages := P\<rparr>;
       let max_order = order_down n;
       let s = s\<lparr>MAX_ORDERS := max_order, MAX_PAGES := 2 ^ max_order, BASE_ADDR := page2pa base\<rparr>;
       Some (push_block base max_order s)
     }"

text \<open>The search for the lowest order with a free block, and the splitting of the block found.\<close>

function buddy_search :: "buddy \<Rightarrow> nat \<Rightarrow> nat option" where
  "buddy_search s i =
     (if i \<le> MAX_ORDERS s then
        (if bnr_free s i > 0 then Some i else buddy_search s (Suc i))
      else None)"
  by pat_completeness auto
termination by (relation "measure (\<lambda>(s, i). Suc (MAX_ORDERS s) - i)") auto

declare buddy_search.simps [simp del]

fun split_block :: "nat \<Rightarrow> nat \<Rightarrow> nat \<Rightarrow> buddy \<Rightarrow> buddy" where
  "split_block order 0 p s = s"
| "split_block order (Suc cur) p s =
     (if Suc cur > order then split_block order cur p (push_block (p + 2 ^ cur) cur s) else s)"

definition buddy_system_alloc_pages :: "buddy \<Rightarrow> nat \<Rightarrow> (nat option \<times> buddy) option" where
  "buddy_system_alloc_pages s n =
     do {
       assert_that (n > 0 \<and> n \<le> MAX_PAGES s);
       let order = order_up n;
       case buddy_search s order of
         None \<Rightarrow> Some (None, s)
       | Some i \<Rightarrow>
           (case list_next (blinks s) (OrderHead i) of
              OrderHead _ \<Rightarrow> None
            | BPage p \<Rightarrow>
                (let s = unlink_block p i s;
                     s = split_block order i p s;
                     s = upd_bpage p (\<lambda>g. g\<lparr>pg_property := word_of_nat (2 ^ order)\<rparr>) s;
                     s = upd_bpage p ClearPageProperty s
                 in Some (Some p, s)))
     }"

definition buddy_location :: "buddy \<Rightarrow> nat \<Rightarrow> nat \<Rightarrow> bool" where
  "buddy_location s base order =
     (let n = 2 ^ order; res = (page2pa base - BASE_ADDR s) div (n * PAGE_SIZE) in res mod 2 = 0)"

definition buddy_block :: "buddy \<Rightarrow> nat \<Rightarrow> nat \<Rightarrow> nat option" where
  "buddy_block s base order =
     (let n = 2 ^ order;
          res = (page2pa base - BASE_ADDR s) div (n * PAGE_SIZE);
          p = (if res mod 2 = 0 then base + n else base - n)
      in if PageProperty (bpages s p) \<and> unat (pg_property (bpages s p)) = order then Some p else None)"

partial_function (option) buddy_merge :: "buddy \<Rightarrow> nat \<Rightarrow> nat \<Rightarrow> (buddy \<times> nat \<times> nat) option" where
  "buddy_merge s base order =
     (if order < MAX_ORDERS s then
        (case buddy_block s base order of
           Some page \<Rightarrow>
             (let s = unlink_block page order s in
              if \<not> buddy_location s base order then
                buddy_merge (upd_bpage base ClearPageProperty s) page (Suc order)
              else
                buddy_merge (upd_bpage page ClearPageProperty s) base (Suc order))
         | None \<Rightarrow> Some (s, base, order))
      else Some (s, base, order))"

definition buddy_system_free_pages :: "buddy \<Rightarrow> nat \<Rightarrow> nat \<Rightarrow> buddy option" where
  "buddy_system_free_pages s base n =
     do {
       assert_that (n > 0 \<and> n \<le> MAX_PAGES s);
       let order = order_up n;
       P \<leftarrow> release_pages n base (bpages s);
       let s = s\<lparr>bpages := P\<rparr>;
       let s = upd_bpage base (\<lambda>g. g\<lparr>pg_property := word_of_nat n\<rparr>) s;
       let s = upd_bpage base SetPageProperty s;
       (s, base, order) \<leftarrow> buddy_merge s base order;
       Some (push_block base order s)
     }"

definition buddy_system_nr_free_pages :: "buddy \<Rightarrow> nat" where
  "buddy_system_nr_free_pages s = (\<Sum>i \<leftarrow> [0..<Suc (MAX_ORDERS s)]. unat (bnr_free s i * (2 ^ i)))"

definition buddy_system_pmm_manager :: "buddy pmm_manager" where
  "buddy_system_pmm_manager =
     \<lparr>pm_init = buddy_system_init, pm_init_memmap = buddy_system_init_memmap,
      pm_alloc_pages = buddy_system_alloc_pages, pm_free_pages = buddy_system_free_pages,
      pm_nr_free_pages = buddy_system_nr_free_pages\<rparr>"

subsection \<open>Orders\<close>

lemma order_down_loop_spec:
  "0 < n \<Longrightarrow> \<exists>j. order_down_loop n k = k + j \<and> 2 ^ j \<le> n \<and> n < 2 ^ Suc j"
proof (induction n k rule: order_down_loop.induct)
  case (1 n k)
  show ?case
  proof (cases "n div 2 = 0")
    case True
    with 1 show ?thesis by (intro exI [of _ 0]) (simp add: order_down_loop.simps [of n])
  next
    case False
    with "1.IH" [OF refl] obtain j where j: "order_down_loop (n div 2) (Suc k) = Suc k + j"
      "2 ^ j \<le> n div 2" "n div 2 < 2 ^ Suc j" by auto
    then have "2 * 2 ^ j \<le> n" "n < 2 * 2 ^ Suc j" by linarith+
    with j False show ?thesis
      by (intro exI [of _ "Suc j"]) (simp add: order_down_loop.simps [of n] Let_def)
  qed
qed

lemma order_down_bounds: "0 < n \<Longrightarrow> 2 ^ order_down n \<le> n \<and> n < 2 ^ Suc (order_down n)"
  using order_down_loop_spec [of n 0] by (auto simp: order_down_def)

lemma order_up_loop_spec:
  "n \<le> 2 ^ m \<Longrightarrow> k \<le> m \<Longrightarrow> k = 0 \<or> 2 ^ (k - 1) < n \<Longrightarrow>
   n \<le> 2 ^ order_up_loop n k \<and> order_up_loop n k \<le> m
   \<and> (order_up_loop n k = 0 \<or> 2 ^ (order_up_loop n k - 1) < n)"
proof (induction n k rule: order_up_loop.induct)
  case (1 n k)
  show ?case
  proof (cases "2 ^ k < n")
    case True
    then have "k \<noteq> m" using "1.prems"(1) by auto
    with 1 True show ?thesis by (simp add: order_up_loop.simps [of n k])
  next
    case False
    with "1.prems" show ?thesis by (simp add: order_up_loop.simps [of n k])
  qed
qed

lemma order_up_bounds:
  "n \<le> 2 ^ m \<Longrightarrow> n \<le> 2 ^ order_up n \<and> order_up n \<le> m \<and> (order_up n = 0 \<or> 2 ^ (order_up n - 1) < n)"
  using order_up_loop_spec [of n m 0] by (auto simp: order_up_def)

lemma order_up_ge: "n \<le> 2 ^ order_up n"
proof -
  have "n \<le> 2 ^ n" by (simp add: less_imp_le)
  then show ?thesis using order_up_bounds by blast
qed

subsection \<open>Aligned blocks and their buddies\<close>

definition aligned :: "nat \<Rightarrow> nat \<Rightarrow> nat \<Rightarrow> nat \<Rightarrow> bool" where
  "aligned b0 m k p \<longleftrightarrow> k \<le> m \<and> (\<exists>i < 2 ^ (m - k). p = b0 + i * 2 ^ k)"

definition bud :: "nat \<Rightarrow> nat \<Rightarrow> nat \<Rightarrow> nat" where
  "bud b0 k p = (if even ((p - b0) div 2 ^ k) then p + 2 ^ k else p - 2 ^ k)"

lemma bud_index: "bud b0 k (b0 + i * 2 ^ k) = (if even i then b0 + (i + 1) * 2 ^ k else b0 + (i - 1) * 2 ^ k)"
  by (cases i) (auto simp: bud_def add.assoc add.left_commute)

lemma bud_bud: "aligned b0 m k p \<Longrightarrow> bud b0 k (bud b0 k p) = p"
proof -
  assume "aligned b0 m k p"
  then obtain i where i: "p = b0 + i * 2 ^ k" by (auto simp: aligned_def)
  show ?thesis
  proof (cases "even i")
    case True
    then have "bud b0 k p = b0 + (i + 1) * 2 ^ k" "odd (i + 1)" by (simp_all add: i bud_index)
    then show ?thesis using bud_index [of b0 k "i + 1"] by (simp add: i)
  next
    case False
    then have "bud b0 k p = b0 + (i - 1) * 2 ^ k" "even (i - 1)" "i - 1 + 1 = i"
      by (simp_all add: i bud_index odd_pos)
    then show ?thesis using bud_index [of b0 k "i - 1"] by (simp add: i)
  qed
qed

text \<open>The left one of two buddies is aligned at the next order and the two make up its block.\<close>

lemma bud_union:
  assumes "aligned b0 m k p" "k < m"
  defines "l \<equiv> (if even ((p - b0) div 2 ^ k) then p else bud b0 k p)"
  shows "aligned b0 m (Suc k) l" "aligned b0 m k (bud b0 k p)" "bud b0 k p \<noteq> p"
    and "{p..<p + 2 ^ k} \<union> {bud b0 k p..<bud b0 k p + 2 ^ k} = {l..<l + 2 ^ Suc k}"
    and "{p..<p + 2 ^ k} \<inter> {bud b0 k p..<bud b0 k p + 2 ^ k} = {}"
proof -
  obtain i where i: "i < 2 ^ (m - k)" "p = b0 + i * 2 ^ k" using assms(1) by (auto simp: aligned_def)
  obtain j where j: "(2 :: nat) ^ (m - k) = 2 * 2 ^ j" "j = m - Suc k" using assms(2)
    by (metis Suc_diff_Suc power_Suc)
  have idx: "(p - b0) div 2 ^ k = i" by (simp add: i(2))
  show "aligned b0 m (Suc k) l"
  proof (cases "even i")
    case True
    then obtain h where "i = 2 * h" by blast
    then have "l = b0 + h * 2 ^ Suc k" "h < 2 ^ j" using i j(1) by (simp_all add: l_def idx)
    then show ?thesis using assms(2) j(2) by (auto simp: aligned_def)
  next
    case False
    then obtain h where h: "i = 2 * h + 1" using oddE by blast
    then have "l = b0 + (2 * h) * 2 ^ k" using bud_index [of b0 k i] idx False i(2) by (simp add: l_def)
    then have "l = b0 + h * 2 ^ Suc k" "h < 2 ^ j" using i(1) h j(1) by simp_all
    then show ?thesis using assms(2) j(2) by (auto simp: aligned_def)
  qed
  show "aligned b0 m k (bud b0 k p)"
  proof (cases "even i")
    case True
    then have "i + 1 < 2 ^ (m - k)" using i(1) j(1) by presburger
    then show ?thesis using True assms(2) unfolding i(2) bud_index aligned_def
      by (intro conjI exI [of _ "i + 1"]) simp_all
  next
    case False
    then show ?thesis using i(1) assms(2) unfolding i(2) bud_index aligned_def
      by (intro conjI exI [of _ "i - 1"]) auto
  qed
  have two: "bud b0 k p = p + 2 ^ k \<and> l = p \<or> (bud b0 k p + 2 ^ k = p \<and> l = bud b0 k p)"
  proof (cases "even i")
    case True
    then show ?thesis by (simp add: l_def idx bud_def)
  next
    case False
    then have "2 ^ k \<le> p" using i(2) by (cases i) simp_all
    then show ?thesis using False by (simp add: l_def idx bud_def)
  qed
  have pos: "(0 :: nat) < 2 ^ k" by simp
  show "bud b0 k p \<noteq> p" using two pos by linarith
  show "{p..<p + 2 ^ k} \<union> {bud b0 k p..<bud b0 k p + 2 ^ k} = {l..<l + 2 ^ Suc k}"
    using two ivl_disj_un_two(3) [of _ "_ + 2 ^ k" "_ + 2 ^ k + 2 ^ k"]
    by (elim disjE conjE) (auto simp: mult_2)
  show "{p..<p + 2 ^ k} \<inter> {bud b0 k p..<bud b0 k p + 2 ^ k} = {}"
    using two by auto
qed

text \<open>Dyadic blocks are nested or disjoint: a larger block that meets a smaller one contains its buddy.\<close>

lemma aligned_nested:
  assumes "aligned b0 m k p" "aligned b0 m l q" "k \<le> l" "p < q + 2 ^ l" "q < p + 2 ^ k"
  shows "q \<le> p \<and> p + 2 ^ k \<le> q + 2 ^ l"
proof -
  obtain i j where i: "p = b0 + i * 2 ^ k" "q = b0 + j * 2 ^ l" using assms(1,2) by (auto simp: aligned_def)
  obtain d where d: "l = k + d" using assms(3) le_Suc_ex by blast
  have q: "q = b0 + (j * 2 ^ d) * 2 ^ k" and e: "2 ^ l = 2 ^ d * (2 :: nat) ^ k" using i(2) d by (simp_all add: power_add)
  have "i * 2 ^ k < (j * 2 ^ d + 2 ^ d) * 2 ^ k" using assms(4) i(1) q e by (simp add: algebra_simps)
  then have a: "i < j * 2 ^ d + 2 ^ d" by (simp only: mult_less_cancel2)
  have "(j * 2 ^ d) * 2 ^ k < (i + 1) * 2 ^ k" using assms(5) i(1) q by (simp add: algebra_simps)
  then have b: "j * 2 ^ d < i + 1" by (simp only: mult_less_cancel2)
  have "(i + 1) * 2 ^ k \<le> (j * 2 ^ d + 2 ^ d) * 2 ^ k" by (rule mult_le_mono1) (use a in simp)
  moreover have "(j * 2 ^ d) * 2 ^ k \<le> i * 2 ^ k" by (rule mult_le_mono1) (use b in simp)
  ultimately show ?thesis using i(1) q e by (simp add: algebra_simps)
qed

subsection \<open>The free blocks of all orders\<close>

definition bcover :: "(nat \<Rightarrow> nat list) \<Rightarrow> nat set" where
  "bcover L = {q. \<exists>k p. p \<in> set (L k) \<and> p \<le> q \<and> q < p + 2 ^ k}"

definition bgeom :: "nat \<Rightarrow> nat \<Rightarrow> (nat \<Rightarrow> nat list) \<Rightarrow> bool" where
  "bgeom b0 m L \<longleftrightarrow> (\<forall>k. \<forall>p \<in> set (L k). aligned b0 m k p) \<and> (\<forall>k. distinct (L k))
     \<and> (\<forall>k l p q. p \<in> set (L k) \<longrightarrow> q \<in> set (L l) \<longrightarrow> q < p + 2 ^ k \<longrightarrow> p < q + 2 ^ l \<longrightarrow> k = l \<and> p = q)"

definition coalesced :: "nat \<Rightarrow> nat \<Rightarrow> (nat \<Rightarrow> nat list) \<Rightarrow> bool" where
  "coalesced b0 m L \<longleftrightarrow> (\<forall>k < m. \<forall>p \<in> set (L k). bud b0 k p \<notin> set (L k))"

lemma bcover_block: "p \<in> set (L k) \<Longrightarrow> {p..<p + 2 ^ k} \<subseteq> bcover L"
  unfolding bcover_def subset_iff atLeastLessThan_iff by blast

lemma bcover_add: "bcover (L(k := b # L k)) = bcover L \<union> {b..<b + 2 ^ k}"
proof -
  have "p \<in> set ((L(k := b # L k)) l) \<longleftrightarrow> p \<in> set (L l) \<or> (l = k \<and> p = b)" for p l by auto
  then show ?thesis unfolding bcover_def set_eq_iff Un_iff atLeastLessThan_iff mem_Collect_eq by blast
qed

lemma bgeom_overlap:
  "bgeom b0 m L \<Longrightarrow> p \<in> set (L k) \<Longrightarrow> q \<in> set (L l) \<Longrightarrow> {p..<p + 2 ^ k} \<inter> {q..<q + 2 ^ l} \<noteq> {} \<Longrightarrow> k = l \<and> p = q"
proof -
  assume a: "bgeom b0 m L" "p \<in> set (L k)" "q \<in> set (L l)" "{p..<p + 2 ^ k} \<inter> {q..<q + 2 ^ l} \<noteq> {}"
  then obtain x where "p \<le> x" "x < p + 2 ^ k" "q \<le> x" "x < q + 2 ^ l"
    unfolding atLeastLessThan_iff disjoint_iff by blast
  then have "q < p + 2 ^ k" "p < q + 2 ^ l" by linarith+
  with a show ?thesis unfolding bgeom_def by blast
qed

lemma bcover_del:
  assumes "bgeom b0 m L" "L k = us @ p # vs"
  shows "bcover (L(k := us @ vs)) = bcover L - {p..<p + 2 ^ k}"
proof -
  let ?L = "L(k := us @ vs)"
  have p: "p \<in> set (L k)" by (simp add: assms(2))
  have d: "p \<notin> set (us @ vs)" using assms unfolding bgeom_def
    by (metis distinct.simps(2) distinct_append Un_iff set_append not_distinct_conv_prefix)
  have mem: "q \<in> set (?L l) \<longleftrightarrow> q \<in> set (L l) \<and> \<not> (l = k \<and> q = p)" for q l
    using d by (auto simp: assms(2))
  show ?thesis
  proof (intro equalityI subsetI)
    fix x assume "x \<in> bcover ?L"
    then obtain l q where q: "q \<in> set (?L l)" "x \<in> {q..<q + 2 ^ l}" by (auto simp: bcover_def)
    then have "q \<in> set (L l)" "\<not> (l = k \<and> q = p)" unfolding mem by blast+
    moreover from this have "{p..<p + 2 ^ k} \<inter> {q..<q + 2 ^ l} = {}"
      using bgeom_overlap [OF assms(1) p] by blast
    ultimately show "x \<in> bcover L - {p..<p + 2 ^ k}" using q(2) bcover_block by blast
  next
    fix x assume "x \<in> bcover L - {p..<p + 2 ^ k}"
    then obtain l q where q: "q \<in> set (L l)" "q \<le> x" "x < q + 2 ^ l" "x \<notin> {p..<p + 2 ^ k}" by (auto simp: bcover_def)
    then have "\<not> (l = k \<and> q = p)" by auto
    then have "q \<in> set (?L l)" using mem q(1) by blast
    with q(2,3) show "x \<in> bcover ?L" unfolding bcover_def by blast
  qed
qed

lemma bgeom_del: "bgeom b0 m L \<Longrightarrow> L k = us @ p # vs \<Longrightarrow> bgeom b0 m (L(k := us @ vs))"
proof -
  assume a: "bgeom b0 m L" "L k = us @ p # vs"
  have sub: "set ((L(k := us @ vs)) l) \<subseteq> set (L l)" for l using a(2) by auto
  have "distinct (us @ p # vs)" using a unfolding bgeom_def by metis
  then have "distinct ((L(k := us @ vs)) l)" for l using a(1) by (auto simp: bgeom_def)
  with a(1) sub show ?thesis unfolding bgeom_def by blast
qed

lemma bgeom_add:
  assumes "bgeom b0 m L" "aligned b0 m k b" "{b..<b + 2 ^ k} \<inter> bcover L = {}"
  shows "bgeom b0 m (L(k := b # L k))"
proof -
  have no: "\<not> (q < b + 2 ^ k \<and> b < q + 2 ^ l)" if "q \<in> set (L l)" for q l
  proof
    assume a: "q < b + 2 ^ k \<and> b < q + 2 ^ l"
    have "max q b \<in> {b..<b + 2 ^ k}" "max q b \<in> {q..<q + 2 ^ l}" using a by auto
    then show False using assms(3) bcover_block [of q L l, OF that] by blast
  qed
  have "b \<notin> set (L k)" using no [of b k] by auto
  with assms(1,2) no show ?thesis unfolding bgeom_def by (auto; blast)
qed

lemma bcover_range: "bgeom b0 m L \<Longrightarrow> bcover L \<subseteq> {b0..<b0 + 2 ^ m}"
proof
  fix x assume g: "bgeom b0 m L" and "x \<in> bcover L"
  then obtain k p where p: "p \<in> set (L k)" "p \<le> x" "x < p + 2 ^ k" by (auto simp: bcover_def)
  then obtain i where i: "k \<le> m" "i < 2 ^ (m - k)" "p = b0 + i * 2 ^ k"
    using g unfolding bgeom_def aligned_def by blast
  have "(i + 1) * 2 ^ k \<le> 2 ^ (m - k) * 2 ^ k" using i(2) by (intro mult_le_mono1) simp
  also have "\<dots> = 2 ^ m" using i(1) by (simp add: power_add [symmetric])
  finally show "x \<in> {b0..<b0 + 2 ^ m}" using p i(3) by simp
qed

lemma bgeom_high: "bgeom b0 m L \<Longrightarrow> m < k \<Longrightarrow> L k = []"
proof -
  assume "bgeom b0 m L" "m < k"
  then have "\<forall>p \<in> set (L k). k \<le> m" unfolding bgeom_def aligned_def by blast
  with \<open>m < k\<close> show "L k = []" by (cases "L k") auto
qed

lemma card_bcover:
  assumes "bgeom b0 m L"
  shows "finite (bcover L) \<and> card (bcover L) = (\<Sum>k \<le> m. length (L k) * 2 ^ k)"
proof -
  let ?B = "SIGMA k : {..m}. set (L k)"
  let ?I = "\<lambda>(k, p). {p..<p + (2 :: nat) ^ k}"
  have eq: "bcover L = (\<Union>x \<in> ?B. ?I x)"
    using bgeom_high [OF assms] by (fastforce simp: bcover_def not_less [symmetric])
  have fin: "finite ?B" by auto
  have "card (\<Union>x \<in> ?B. ?I x) = (\<Sum>x \<in> ?B. card (?I x))"
  proof (rule card_UN_disjoint)
    show "\<forall>x \<in> ?B. \<forall>y \<in> ?B. x \<noteq> y \<longrightarrow> ?I x \<inter> ?I y = {}"
      using bgeom_overlap [OF assms] by fastforce
  qed (use fin in auto)
  also have "\<dots> = (\<Sum>x \<in> ?B. 2 ^ fst x)" by (rule sum.cong) auto
  also have "\<dots> = (\<Sum>k \<le> m. \<Sum>p \<in> set (L k). 2 ^ k)"
    using sum.Sigma [of "{..m}" "\<lambda>k. set (L k)" "\<lambda>k p. 2 ^ k :: nat"] by (simp add: case_prod_beta)
  also have "\<dots> = (\<Sum>k \<le> m. length (L k) * 2 ^ k)"
    using assms by (intro sum.cong) (auto simp: bgeom_def distinct_card)
  finally show ?thesis unfolding eq using fin by auto
qed

lemma length_bound: "bgeom b0 m L \<Longrightarrow> length (L k) \<le> 2 ^ m"
proof (cases "k \<le> m")
  case True
  assume g: "bgeom b0 m L"
  have "length (L k) * 1 \<le> length (L k) * 2 ^ k" by (intro mult_le_mono2) simp
  also have "\<dots> \<le> (\<Sum>k \<le> m. length (L k) * 2 ^ k)" using True by (intro member_le_sum) auto
  also have "\<dots> = card (bcover L)" using card_bcover [OF g] by simp
  also have "\<dots> \<le> card {b0..<b0 + 2 ^ m}" using bcover_range [OF g] by (intro card_mono) auto
  finally show ?thesis by simp
qed (use bgeom_high [of b0 m L k] in auto)

subsection \<open>The state\<close>

text \<open>
  \<open>bwf s b0 L X\<close>: the lists of all orders hold the blocks \<open>L\<close>; \<open>X\<close> are pages whose \<open>Property\<close> flag is
  set although they are in no list (a block on its way into or out of the lists).
\<close>

definition bpages_ok :: "(nat \<Rightarrow> page) \<Rightarrow> (nat \<Rightarrow> nat list) \<Rightarrow> nat set \<Rightarrow> bool" where
  "bpages_ok P L X \<longleftrightarrow> (\<forall>k. \<forall>p \<in> set (L k). unat (pg_property (P p)) = k)
     \<and> (\<forall>p. PageProperty (P p) \<longleftrightarrow> p \<in> X \<or> (\<exists>k. p \<in> set (L k)))
     \<and> (\<forall>q \<in> bcover L. \<not> PageReserved (P q))"

definition bwf :: "buddy \<Rightarrow> nat \<Rightarrow> (nat \<Rightarrow> nat list) \<Rightarrow> nat set \<Rightarrow> bool" where
  "bwf s b0 L X \<longleftrightarrow> MAX_ORDERS s \<le> MAX_ORDER \<and> MAX_PAGES s = 2 ^ MAX_ORDERS s \<and> BASE_ADDR s = page2pa b0
     \<and> (\<forall>k \<le> MAX_ORDERS s. dlist (blinks s) (OrderHead k) (map BPage (L k)))
     \<and> (\<forall>k \<le> MAX_ORDERS s. unat (bnr_free s k) = length (L k))
     \<and> bgeom b0 (MAX_ORDERS s) L \<and> bpages_ok (bpages s) L X
     \<and> (\<forall>q \<in> {b0..<b0 + 2 ^ MAX_ORDERS s}. \<not> PageReserved (bpages s q))"

lemma bwf_block:
  assumes "bwf s b0 L X" "p \<in> set (L k)"
  shows "k \<le> MAX_ORDERS s" "aligned b0 (MAX_ORDERS s) k p" "unat (pg_property (bpages s p)) = k"
  using assms unfolding bwf_def bgeom_def bpages_ok_def aligned_def by blast+

lemma bwf_same_block: "bwf s b0 L X \<Longrightarrow> p \<in> set (L k) \<Longrightarrow> p \<in> set (L l) \<Longrightarrow> k = l"
  using bwf_block(3) by metis

lemma lists_disjoint:
  assumes "bwf s b0 L X" "k \<noteq> l"
  shows "set (OrderHead k # map BPage (L k)) \<inter> set (OrderHead l # map BPage (L l)) = {}"
  using bwf_same_block [OF assms(1)] assms(2) by auto

lemma not_in_lists:
  assumes "bwf s b0 L X" "{b..<b + 2 ^ k} \<inter> bcover L = {}"
  shows "b \<notin> set (L l)"
proof
  assume "b \<in> set (L l)"
  then have "b \<in> bcover L" using bcover_block [of b L l] by auto
  moreover have "b \<in> {b..<b + 2 ^ k}" by simp
  ultimately show False using assms(2) by blast
qed

lemma push_block_spec:
  assumes "bwf s b0 L X" "aligned b0 (MAX_ORDERS s) k b" "{b..<b + 2 ^ k} \<inter> bcover L = {}"
    and "\<forall>q \<in> {b..<b + 2 ^ k}. \<not> PageReserved (bpages s q)"
  shows "bwf (push_block b k s) b0 (L(k := b # L k)) (X - {b})"
proof -
  let ?t = "push_block b k s" and ?L = "L(k := b # L k)"
  have nb: "b \<notin> set (L l)" for l by (rule not_in_lists [OF assms(1,3)])
  have k: "k \<le> MAX_ORDERS s" using assms(2) by (simp add: aligned_def)
  have M: "MAX_ORDERS s \<le> 15" using assms(1) by (simp add: bwf_def MAX_ORDER_def)
  have d: "dlist (blinks s) (OrderHead l) (map BPage (L l))" if "l \<le> MAX_ORDERS s" for l
    using assms(1) that by (simp add: bwf_def)
  have t: "MAX_ORDERS ?t = MAX_ORDERS s" "MAX_PAGES ?t = MAX_PAGES s" "BASE_ADDR ?t = BASE_ADDR s"
    "blinks ?t = list_add (blinks s) (OrderHead k) (BPage b)" "bnr_free ?t = (bnr_free s)(k := bnr_free s k + 1)"
    "bpages ?t = (bpages s)(b := SetPageProperty ((bpages s b)\<lparr>pg_property := word_of_nat k\<rparr>))"
    by (simp_all add: push_block_def Let_def)
  have lists: "dlist (blinks ?t) (OrderHead l) (map BPage (?L l))" if "l \<le> MAX_ORDERS s" for l
  proof (cases "l = k")
    case True
    have "BPage b \<notin> set (OrderHead k # map BPage (L k))" using nb by auto
    from dlist_add_head [OF d [OF k] this] True show ?thesis by (simp add: t)
  next
    case False
    have "BPage b \<notin> set (OrderHead l # map BPage (L l))" using nb by auto
    from dlist_other_add [OF d [OF k] d [OF that] lists_disjoint [OF assms(1)] this] False
    show ?thesis by (simp add: t)
  qed
  have geo: "bgeom b0 (MAX_ORDERS s) ?L"
    by (rule bgeom_add) (use assms in \<open>simp_all add: bwf_def\<close>)
  have cnt: "unat (bnr_free ?t l) = length (?L l)" if "l \<le> MAX_ORDERS s" for l
  proof (cases "l = k")
    case True
    have "length (L k) \<le> 2 ^ MAX_ORDERS s"
      by (rule length_bound [of b0]) (use assms(1) in \<open>simp add: bwf_def\<close>)
    also have "\<dots> \<le> 2 ^ 15" using M by (intro power_increasing) simp_all
    finally have "unat (bnr_free s k) + 1 < 4294967296" using assms(1) k by (simp add: bwf_def)
    then have "unat (bnr_free s k + 1) = unat (bnr_free s k) + 1"
      using unat_add_nat_u32 [of "bnr_free s k" 1] by simp
    then show ?thesis using True assms(1) k by (simp add: t bwf_def)
  next
    case False
    then show ?thesis using assms(1) that by (simp add: t bwf_def)
  qed
  have ok: "bpages_ok (bpages s) L X" using assms(1) by (simp add: bwf_def)
  have "bpages_ok (bpages ?t) ?L (X - {b})"
    unfolding bpages_ok_def
  proof (intro conjI allI ballI)
    fix l p assume p: "p \<in> set (?L l)"
    show "unat (pg_property (bpages ?t p)) = l"
    proof (cases "p = b")
      case True
      then have "l = k" using p nb by (auto split: if_splits)
      moreover have "unat (word_of_nat k :: u32) = k" using k M by (intro unat_of_nat_u32) simp
      ultimately show ?thesis using True by (simp add: t)
    next
      case False
      then have "p \<in> set (L l)" using p by (auto split: if_splits)
      then show ?thesis using ok False by (simp add: t bpages_ok_def)
    qed
  next
    fix p
    have "(\<exists>l. p \<in> set (?L l)) \<longleftrightarrow> p = b \<or> (\<exists>l. p \<in> set (L l))" by auto
    then show "PageProperty (bpages ?t p) \<longleftrightarrow> p \<in> X - {b} \<or> (\<exists>l. p \<in> set (?L l))"
      using ok by (auto simp: t bpages_ok_def)
  next
    fix q assume "q \<in> bcover ?L"
    then have "q \<in> bcover L \<or> q \<in> {b..<b + 2 ^ k}" unfolding bcover_add by blast
    then have "\<not> PageReserved (bpages s q)" using ok assms(4) unfolding bpages_ok_def by blast
    then show "\<not> PageReserved (bpages ?t q)" by (auto simp: t)
  qed
  moreover have "\<forall>q \<in> {b0..<b0 + 2 ^ MAX_ORDERS s}. \<not> PageReserved (bpages ?t q)"
    using assms(1) by (auto simp: t bwf_def)
  ultimately show ?thesis using lists cnt geo assms(1) by (simp add: bwf_def t(1-3))
qed

lemma unlink_block_spec:
  assumes "bwf s b0 L X" "L k = us @ p # vs"
  shows "bwf (unlink_block p k s) b0 (L(k := us @ vs)) (insert p X)"
proof -
  let ?t = "unlink_block p k s" and ?L = "L(k := us @ vs)"
  have p: "p \<in> set (L k)" by (simp add: assms(2))
  have k: "k \<le> MAX_ORDERS s" using bwf_block(1) [OF assms(1) p] .
  have g: "bgeom b0 (MAX_ORDERS s) L" using assms(1) by (simp add: bwf_def)
  have d: "dlist (blinks s) (OrderHead l) (map BPage (L l))" if "l \<le> MAX_ORDERS s" for l
    using assms(1) that by (simp add: bwf_def)
  have dk: "dlist (blinks s) (OrderHead k) (map BPage us @ BPage p # map BPage vs)" using d [OF k] assms(2) by simp
  have t: "MAX_ORDERS ?t = MAX_ORDERS s" "MAX_PAGES ?t = MAX_PAGES s" "BASE_ADDR ?t = BASE_ADDR s"
    "blinks ?t = list_del (blinks s) (BPage p)" "bnr_free ?t = (bnr_free s)(k := bnr_free s k - 1)"
    "bpages ?t = bpages s"
    by (simp_all add: unlink_block_def Let_def)
  have lists: "dlist (blinks ?t) (OrderHead l) (map BPage (?L l))" if "l \<le> MAX_ORDERS s" for l
  proof (cases "l = k")
    case True
    with dlist_del [OF dk] show ?thesis by (simp add: t)
  next
    case False
    have "set (OrderHead k # map BPage us @ BPage p # map BPage vs) \<inter> set (OrderHead l # map BPage (L l)) = {}"
      using lists_disjoint [OF assms(1), of k l] False assms(2) by auto
    from dlist_other_del [OF dk d [OF that] this] False show ?thesis by (simp add: t)
  qed
  have cnt: "unat (bnr_free ?t l) = length (?L l)" if "l \<le> MAX_ORDERS s" for l
  proof (cases "l = k")
    case True
    have "unat (bnr_free s k) = length (us @ p # vs)" using assms k by (simp add: bwf_def)
    then show ?thesis using True unat_minus_nat_u32 [of 1 "bnr_free s k"] by (simp add: t)
  next
    case False
    then show ?thesis using assms(1) that by (simp add: t bwf_def)
  qed
  have ok: "bpages_ok (bpages s) L X" using assms(1) by (simp add: bwf_def)
  have mem: "q \<in> set (L l) \<longleftrightarrow> q \<in> set (?L l) \<or> (l = k \<and> q = p)" for q l
    by (auto simp: assms(2))
  have "(\<exists>l. q \<in> set (L l)) \<longleftrightarrow> q = p \<or> (\<exists>l. q \<in> set (?L l))" for q
    unfolding mem by blast
  moreover have "set (?L l) \<subseteq> set (L l)" for l by (auto simp: assms(2))
  ultimately have "bpages_ok (bpages ?t) ?L (insert p X)"
    using ok bcover_del [OF g assms(2)] unfolding bpages_ok_def t by blast
  with lists cnt bgeom_del [OF g assms(2)] assms(1) show ?thesis by (simp add: bwf_def t(1-3,6))
qed

text \<open>Clearing or rewriting the flag of a page outside the lists.\<close>

lemma clear_page_spec:
  assumes "bwf s b0 L X" "\<forall>k. p \<notin> set (L k)"
  shows "bwf (upd_bpage p ClearPageProperty s) b0 L (X - {p})"
  using assms by (simp add: bwf_def bpages_ok_def)

lemma property_page_spec:
  assumes "bwf s b0 L X" "\<forall>k. p \<notin> set (L k)"
  shows "bwf (upd_bpage p (\<lambda>g. g\<lparr>pg_property := w\<rparr>) s) b0 L X"
  using assms by (simp add: bwf_def bpages_ok_def)

subsection \<open>Allocation\<close>

lemma buddy_search_spec:
  "case buddy_search s i of
     None \<Rightarrow> \<forall>j. i \<le> j \<and> j \<le> MAX_ORDERS s \<longrightarrow> bnr_free s j = 0
   | Some k \<Rightarrow> i \<le> k \<and> k \<le> MAX_ORDERS s \<and> bnr_free s k > 0 \<and> (\<forall>j. i \<le> j \<and> j < k \<longrightarrow> bnr_free s j = 0)"
proof (induction s i rule: buddy_search.induct)
  case (1 s i)
  show ?case
  proof (cases "i \<le> MAX_ORDERS s \<and> bnr_free s i = 0")
    case True
    then have e: "buddy_search s i = buddy_search s (Suc i)" by (simp add: buddy_search.simps [of s i])
    have low: "j = i \<or> Suc i \<le> j" if "i \<le> j" for j using that by auto
    from "1.IH" True show ?thesis unfolding e by (cases "buddy_search s (Suc i)") (auto dest: low)
  next
    case False
    then show ?thesis by (auto simp: buddy_search.simps [of s i] word_gt_0)
  qed
qed

lemma aligned_halve:
  assumes "aligned b0 m (Suc c) p"
  shows "aligned b0 m c p" "aligned b0 m c (p + 2 ^ c)" "bud b0 c (p + 2 ^ c) = p"
    "bud b0 c p = p + 2 ^ c"
proof -
  obtain i where i: "Suc c \<le> m" "i < 2 ^ (m - Suc c)" "p = b0 + i * 2 ^ Suc c" using assms by (auto simp: aligned_def)
  have e: "(2 :: nat) ^ (m - c) = 2 * 2 ^ (m - Suc c)" using i(1) by (metis Suc_diff_Suc Suc_le_lessD power_Suc)
  have p: "p = b0 + (2 * i) * 2 ^ c" "p + 2 ^ c = b0 + (2 * i + 1) * 2 ^ c" using i(3) by simp_all
  show "aligned b0 m c p" unfolding aligned_def using i p(1) e by (intro conjI exI [of _ "2 * i"]) simp_all
  show "aligned b0 m c (p + 2 ^ c)" unfolding aligned_def using i p(2) e by (intro conjI exI [of _ "2 * i + 1"]) simp_all
  show "bud b0 c (p + 2 ^ c) = p" using bud_index [of b0 c "2 * i + 1"] unfolding p(2) by (simp add: p(1))
  show "bud b0 c p = p + 2 ^ c" using bud_index [of b0 c "2 * i"] unfolding p(1) by simp
qed

definition split_lists :: "nat \<Rightarrow> nat \<Rightarrow> nat \<Rightarrow> (nat \<Rightarrow> nat list) \<Rightarrow> nat \<Rightarrow> nat list" where
  "split_lists k c p L = (\<lambda>l. if k \<le> l \<and> l < c then (p + 2 ^ l) # L l else L l)"

lemma split_block_spec:
  assumes "bwf s b0 L {p}" "aligned b0 (MAX_ORDERS s) c p" "{p..<p + 2 ^ c} \<inter> bcover L = {}"
    and "\<forall>q \<in> {p..<p + 2 ^ c}. \<not> PageReserved (bpages s q)" "k \<le> c"
  shows "bwf (split_block k c p s) b0 (split_lists k c p L) {p}
    \<and> bcover (split_lists k c p L) = bcover L \<union> {p + 2 ^ k..<p + 2 ^ c}
    \<and> MAX_ORDERS (split_block k c p s) = MAX_ORDERS s"
  using assms
proof (induction c arbitrary: s L)
  case 0
  then show ?case by (simp add: split_lists_def)
next
  case (Suc c)
  show ?case
  proof (cases "k < Suc c")
    case False
    then have "k = Suc c" using Suc.prems(5) by simp
    moreover have "split_lists (Suc c) (Suc c) p L = L" by (auto simp: split_lists_def)
    ultimately show ?thesis using Suc.prems(1) by simp
  next
    case True
    let ?b = "p + 2 ^ c" and ?M = "MAX_ORDERS s"
    let ?s = "push_block ?b c s" and ?L = "L(c := ?b # L c)"
    note al = aligned_halve [OF Suc.prems(2)]
    have half: "{p..<p + 2 ^ Suc c} = {p..<p + 2 ^ c} \<union> {?b..<?b + 2 ^ c}"
      "{p..<p + 2 ^ c} \<inter> {?b..<?b + 2 ^ c} = {}" by auto
    have M: "MAX_ORDERS ?s = ?M" by (simp add: push_block_def Let_def)
    have "bwf ?s b0 ?L ({p} - {?b})"
      by (rule push_block_spec [OF Suc.prems(1) al(2)]) (use Suc.prems(3,4) half in blast)+
    then have w: "bwf ?s b0 ?L {p}" by simp
    have d1: "{p..<p + 2 ^ c} \<inter> bcover ?L = {}" unfolding bcover_add using Suc.prems(3) half by blast
    have r1: "\<forall>q \<in> {p..<p + 2 ^ c}. \<not> PageReserved (bpages ?s q)"
      using Suc.prems(4) half by (auto simp: push_block_def Let_def)
    have "k \<le> c" using True by simp
    have al1: "aligned b0 (MAX_ORDERS ?s) c p" unfolding M by (rule al(1))
    have ih: "bwf (split_block k c p ?s) b0 (split_lists k c p ?L) {p}
      \<and> bcover (split_lists k c p ?L) = bcover ?L \<union> {p + 2 ^ k..<p + 2 ^ c}
      \<and> MAX_ORDERS (split_block k c p ?s) = MAX_ORDERS ?s"
      by (rule Suc.IH [OF w al1 d1 r1 \<open>k \<le> c\<close>])
    have eq: "split_lists k c p ?L = split_lists k (Suc c) p L"
      using True by (auto simp: split_lists_def fun_eq_iff less_Suc_eq)
    have "(2 :: nat) ^ k \<le> 2 ^ c" using True by (intro power_increasing) simp_all
    then have "{p + 2 ^ k..<?b} \<union> {?b..<?b + 2 ^ c} = {p + 2 ^ k..<?b + 2 ^ c}"
      by (intro ivl_disj_un_two(3)) simp_all
    then have "bcover ?L \<union> {p + 2 ^ k..<p + 2 ^ c} = bcover L \<union> {p + 2 ^ k..<p + 2 ^ Suc c}"
      unfolding bcover_add by (simp add: Un_ac mult_2 add.assoc)
    with ih True eq M show ?thesis by simp
  qed
qed

lemma split_coalesced:
  assumes "coalesced b0 m L" "\<forall>l. k \<le> l \<and> l < c \<longrightarrow> L l = []" "aligned b0 m c p"
  shows "coalesced b0 m (split_lists k c p L)"
  unfolding coalesced_def
proof (intro allI impI ballI)
  fix l q assume l: "l < m" and q: "q \<in> set (split_lists k c p L l)"
  show "bud b0 l q \<notin> set (split_lists k c p L l)"
  proof (cases "k \<le> l \<and> l < c")
    case True
    then have one: "split_lists k c p L l = [p + 2 ^ l]" using assms(2) by (simp add: split_lists_def)
    obtain i where i: "p = b0 + i * 2 ^ c" using assms(3) by (auto simp: aligned_def)
    obtain d where d: "c = Suc (l + d)" using True less_imp_Suc_add by blast
    have p: "p = b0 + (2 * (i * 2 ^ d)) * 2 ^ l" unfolding i d by (simp add: power_add algebra_simps)
    then have p2: "p + 2 ^ l = b0 + (2 * (i * 2 ^ d) + 1) * 2 ^ l" by simp
    have "bud b0 l (p + 2 ^ l) = p"
      using bud_index [of b0 l "2 * (i * 2 ^ d) + 1"] unfolding p2 by (simp add: p)
    then show ?thesis using q one by simp
  next
    case False
    then show ?thesis using q assms(1) l by (auto simp: split_lists_def coalesced_def)
  qed
qed

definition binv :: "nat \<Rightarrow> buddy \<Rightarrow> bool" where
  "binv b0 s \<longleftrightarrow> (\<exists>L. bwf s b0 L {} \<and> coalesced b0 (MAX_ORDERS s) L)"

definition bfree_set :: "buddy \<Rightarrow> nat set" where
  "bfree_set s = {q. \<exists>p. PageProperty (bpages s p) \<and> p \<le> q \<and> q < p + 2 ^ unat (pg_property (bpages s p))}"

lemma bwf_free_set: "bwf s b0 L {} \<Longrightarrow> bfree_set s = bcover L"
  unfolding bwf_def bpages_ok_def bfree_set_def bcover_def by (auto 0 3)

lemma buddy_alloc_law:
  assumes "bwf s b0 L {}" "coalesced b0 (MAX_ORDERS s) L" "0 < n" "n \<le> 2 ^ MAX_ORDERS s"
  shows "(buddy_system_alloc_pages s n = Some (None, s) \<and> (\<forall>k \<ge> order_up n. L k = []))
    \<or> (\<exists>p s' L'. buddy_system_alloc_pages s n = Some (Some p, s') \<and> bwf s' b0 L' {}
        \<and> coalesced b0 (MAX_ORDERS s) L' \<and> MAX_ORDERS s' = MAX_ORDERS s
        \<and> aligned b0 (MAX_ORDERS s) (order_up n) p
        \<and> {p..<p + 2 ^ order_up n} \<subseteq> bcover L \<and> bcover L' = bcover L - {p..<p + 2 ^ order_up n})"
proof -
  let ?k = "order_up n" and ?M = "MAX_ORDERS s"
  have k: "?k \<le> ?M" using order_up_bounds [OF assms(4)] by simp
  have guard: "n \<le> MAX_PAGES s" using assms(1,4) by (simp add: bwf_def)
  have g: "bgeom b0 ?M L" using assms(1) by (simp add: bwf_def)
  have cnt: "bnr_free s j = 0 \<longleftrightarrow> L j = []" if "j \<le> ?M" for j
    using assms(1) that by (metis bwf_def length_0_conv unat_eq_0)
  show ?thesis
  proof (cases "buddy_search s ?k")
    case None
    then have "L j = []" if "?k \<le> j" for j
      using buddy_search_spec [where s = s and i = ?k] cnt that bgeom_high [OF g, of j] by (cases "j \<le> ?M") auto
    with None assms(3) guard show ?thesis by (simp add: buddy_system_alloc_pages_def)
  next
    case (Some i)
    then have i: "?k \<le> i" "i \<le> ?M" "bnr_free s i \<noteq> 0" "\<forall>j. ?k \<le> j \<and> j < i \<longrightarrow> L j = []"
      using buddy_search_spec [where s = s and i = ?k] cnt by (auto simp: word_gt_0)
    then obtain p ps where ps: "L i = p # ps" using cnt by (cases "L i") auto
    have dl: "dlist (blinks s) (OrderHead i) (map BPage (L i))" using assms(1) i(2) by (simp add: bwf_def)
    then have hd: "list_next (blinks s) (OrderHead i) = BPage p" using list_next_head [OF dl] ps by simp
    let ?L1 = "L(i := ps)" and ?s1 = "unlink_block p i s"
    have w1: "bwf ?s1 b0 ?L1 {p}" using unlink_block_spec [OF assms(1), of i "[]" p ps] ps by simp
    have c1: "bcover ?L1 = bcover L - {p..<p + 2 ^ i}" using bcover_del [OF g, of i "[]" p ps] ps by simp
    have s1: "MAX_ORDERS ?s1 = ?M" "bpages ?s1 = bpages s" by (simp_all add: unlink_block_def Let_def)
    have al: "aligned b0 ?M i p" using bwf_block(2) [OF assms(1), of p i] ps by simp
    have sub: "{p..<p + 2 ^ i} \<subseteq> bcover L" using bcover_block [of p L i] ps by simp
    then have res: "\<forall>q \<in> {p..<p + 2 ^ i}. \<not> PageReserved (bpages ?s1 q)"
      using assms(1) unfolding s1(2) bwf_def bpages_ok_def by blast
    let ?s2 = "split_block ?k i p ?s1" and ?L2 = "split_lists ?k i p ?L1"
    have "{p..<p + 2 ^ i} \<inter> bcover ?L1 = {}" unfolding c1 by blast
    then have w2: "bwf ?s2 b0 ?L2 {p}" "bcover ?L2 = bcover ?L1 \<union> {p + 2 ^ ?k..<p + 2 ^ i}" "MAX_ORDERS ?s2 = ?M"
      using split_block_spec [OF w1 _ _ res i(1)] al s1 by simp_all
    have le: "(2 :: nat) ^ ?k \<le> 2 ^ i" using i(1) by (intro power_increasing) simp_all
    note iv = ivl_split [OF le, of p]
    have c2: "bcover ?L2 = bcover L - {p..<p + 2 ^ ?k}" unfolding w2(2) c1 using sub iv by blast
    have p2: "p \<notin> set (?L2 l)" for l
    proof
      assume "p \<in> set (?L2 l)"
      then have "p \<in> bcover ?L2" using bcover_block [of p ?L2 l] by auto
      then show False unfolding c2 by simp
    qed
    let ?s3 = "upd_bpage p (\<lambda>g. g\<lparr>pg_property := word_of_nat (2 ^ ?k)\<rparr>) ?s2"
    have w3: "bwf (upd_bpage p ClearPageProperty ?s3) b0 ?L2 {}"
      using clear_page_spec [OF property_page_spec [OF w2(1)], of p p] p2 by simp
    have "coalesced b0 ?M ?L1" using assms(2) ps by (auto simp: coalesced_def)
    then have co: "coalesced b0 ?M ?L2" by (rule split_coalesced) (use i(4) al in auto)
    obtain j where j: "j < 2 ^ (?M - i)" "p = b0 + j * 2 ^ i" using al by (auto simp: aligned_def)
    obtain d where d: "i = ?k + d" using i(1) le_Suc_ex by blast
    have "aligned b0 ?M ?k p" unfolding aligned_def
    proof (intro conjI exI [of _ "j * 2 ^ d"])
      have "2 ^ (?M - ?k) = 2 ^ (?M - i) * (2 :: nat) ^ d" using i(2) d by (simp add: power_add [symmetric])
      then show "j * 2 ^ d < 2 ^ (?M - ?k)" using j(1) by simp
      show "p = b0 + j * 2 ^ d * 2 ^ ?k" unfolding j(2) d by (simp add: power_add algebra_simps)
    qed (rule k)
    moreover have "{p..<p + 2 ^ ?k} \<subseteq> bcover L" using sub iv by blast
    moreover have "buddy_system_alloc_pages s n = Some (Some p, upd_bpage p ClearPageProperty ?s3)"
      using Some hd assms(3) guard by (simp add: buddy_system_alloc_pages_def Let_def)
    ultimately show ?thesis using w3 co c2 w2(3)
      by (intro disjI2 exI [of _ p] exI [of _ "upd_bpage p ClearPageProperty ?s3"] exI [of _ ?L2]) simp
  qed
qed

subsection \<open>Release\<close>

text \<open>Both address computations of the code give the index of the block among those of its order.\<close>

lemma buddy_index:
  assumes "bwf s b0 L X" "b0 \<le> p"
  shows "(page2pa p - BASE_ADDR s) div (2 ^ k * PAGE_SIZE) = (p - b0) div 2 ^ k"
proof -
  have "page2pa p - BASE_ADDR s = (p - b0) * 4096"
    using assms by (simp add: bwf_def page2pa_def diff_mult_distrib)
  then show ?thesis by (simp add: PAGE_SIZE_def)
qed

lemma aligned_ge: "aligned b0 m k p \<Longrightarrow> b0 \<le> p"
  by (auto simp: aligned_def)

lemma buddy_location_spec:
  "bwf s b0 L X \<Longrightarrow> b0 \<le> p \<Longrightarrow> buddy_location s p k \<longleftrightarrow> even ((p - b0) div 2 ^ k)"
  using buddy_index [of s b0 L X p k] by (simp add: buddy_location_def Let_def even_iff_mod_2_eq_zero)

lemma buddy_block_spec:
  assumes "bwf s b0 L {p}" "aligned b0 (MAX_ORDERS s) k p" "k < MAX_ORDERS s"
  shows "buddy_block s p k = (if bud b0 k p \<in> set (L k) then Some (bud b0 k p) else None)"
proof -
  let ?q = "bud b0 k p"
  have q: "buddy_block s p k = (if PageProperty (bpages s ?q) \<and> unat (pg_property (bpages s ?q)) = k then Some ?q else None)"
    unfolding buddy_block_def Let_def bud_def even_iff_mod_2_eq_zero
      buddy_index [OF assms(1) aligned_ge [OF assms(2)], of k] by (rule refl)
  have "?q \<noteq> p" by (rule bud_union(3) [OF assms(2,3)])
  then have "PageProperty (bpages s ?q) \<longleftrightarrow> (\<exists>l. ?q \<in> set (L l))"
    using assms(1) by (auto simp: bwf_def bpages_ok_def)
  moreover have "unat (pg_property (bpages s ?q)) = l" if "?q \<in> set (L l)" for l
    using bwf_block(3) [OF assms(1) that] .
  ultimately have "PageProperty (bpages s ?q) \<and> unat (pg_property (bpages s ?q)) = k \<longleftrightarrow> ?q \<in> set (L k)"
    by metis
  with q show ?thesis by simp
qed

lemma buddy_merge_spec:
  assumes "bwf s b0 L {b}" "aligned b0 (MAX_ORDERS s) k b" "{b..<b + 2 ^ k} \<inter> bcover L = {}"
    and "\<forall>q \<in> {b..<b + 2 ^ k}. \<not> PageReserved (bpages s q)" "coalesced b0 (MAX_ORDERS s) L"
  shows "\<exists>s' b' k' L'. buddy_merge s b k = Some (s', b', k') \<and> bwf s' b0 L' {b'}
    \<and> MAX_ORDERS s' = MAX_ORDERS s \<and> aligned b0 (MAX_ORDERS s) k' b' \<and> {b'..<b' + 2 ^ k'} \<inter> bcover L' = {}
    \<and> (\<forall>q \<in> {b'..<b' + 2 ^ k'}. \<not> PageReserved (bpages s' q)) \<and> coalesced b0 (MAX_ORDERS s) L'
    \<and> bcover L' \<union> {b'..<b' + 2 ^ k'} = bcover L \<union> {b..<b + 2 ^ k}
    \<and> (k' < MAX_ORDERS s \<longrightarrow> bud b0 k' b' \<notin> set (L' k'))"
  using assms
proof (induction "MAX_ORDERS s - k" arbitrary: s b k L rule: less_induct)
  case less
  let ?M = "MAX_ORDERS s" and ?q = "bud b0 k b"
  show ?case
  proof (cases "k < ?M \<and> ?q \<in> set (L k)")
    case False
    then have "buddy_merge s b k = Some (s, b, k)"
      using buddy_block_spec [OF less.prems(1,2)] by (subst buddy_merge.simps) auto
    with less.prems False show ?thesis
      by (intro exI [of _ s] exI [of _ b] exI [of _ k] exI [of _ L]) auto
  next
    case True
    then have kM: "k < ?M" and qL: "?q \<in> set (L k)" by auto
    obtain us vs where split: "L k = us @ ?q # vs" using split_list [OF qL] by blast
    let ?L = "L(k := us @ vs)" and ?s = "unlink_block ?q k s"
    let ?l = "if even ((b - b0) div 2 ^ k) then b else ?q"
    let ?r = "if even ((b - b0) div 2 ^ k) then ?q else b"
    note bu = bud_union [OF less.prems(2) kM]
    have g: "bgeom b0 ?M L" using less.prems(1) by (simp add: bwf_def)
    have u: "MAX_ORDERS ?s = ?M" "bpages ?s = bpages s" by (simp_all add: unlink_block_def Let_def)
    have w: "bwf ?s b0 ?L (insert ?q {b})" by (rule unlink_block_spec [OF less.prems(1) split])
    have cov: "bcover ?L = bcover L - {?q..<?q + 2 ^ k}" by (rule bcover_del [OF g split])
    have out: "{?l..<?l + 2 ^ Suc k} \<inter> bcover ?L = {}"
      unfolding bu(4) [symmetric] cov using less.prems(3) by blast
    have rn: "?r \<notin> set (?L l)" for l
    proof
      assume "?r \<in> set (?L l)"
      then have "?r \<in> bcover ?L" using bcover_block [of ?r ?L l] by auto
      moreover have "?r \<in> {b..<b + 2 ^ k} \<union> {?q..<?q + 2 ^ k}" by simp
      ultimately show False using out unfolding bu(4) by blast
    qed
    let ?t = "upd_bpage ?r ClearPageProperty ?s"
    have "{?q, b} - {?r} = {?l}" using bu(3) by auto
    then have wt: "bwf ?t b0 ?L {?l}" using clear_page_spec [OF w, of ?r] rn by simp
    have t: "MAX_ORDERS ?t = ?M" using u by simp
    have step: "buddy_merge s b k = buddy_merge ?t ?l (Suc k)"
      using buddy_block_spec [OF less.prems(1,2) kM] kM qL
        buddy_location_spec [OF w aligned_ge [OF less.prems(2)], of k]
      by (subst buddy_merge.simps) (simp add: Let_def)
    have res: "\<forall>q \<in> {?l..<?l + 2 ^ Suc k}. \<not> PageReserved (bpages ?t q)"
    proof
      fix q assume "q \<in> {?l..<?l + 2 ^ Suc k}"
      then have "q \<in> {b..<b + 2 ^ k} \<or> q \<in> bcover L"
        unfolding bu(4) [symmetric] using bcover_block [of ?q L k, OF qL] by blast
      then have "\<not> PageReserved (bpages s q)" using less.prems(1,4) unfolding bwf_def bpages_ok_def by blast
      then show "\<not> PageReserved (bpages ?t q)" by (auto simp: u)
    qed
    have sub: "set (?L l) \<subseteq> set (L l)" for l by (auto simp: split)
    have co: "coalesced b0 ?M ?L" using less.prems(5) sub unfolding coalesced_def by blast
    obtain s' b' k' L' where ih: "buddy_merge ?t ?l (Suc k) = Some (s', b', k')" "bwf s' b0 L' {b'}"
      "MAX_ORDERS s' = MAX_ORDERS ?t" "aligned b0 (MAX_ORDERS ?t) k' b'" "{b'..<b' + 2 ^ k'} \<inter> bcover L' = {}"
      "\<forall>q \<in> {b'..<b' + 2 ^ k'}. \<not> PageReserved (bpages s' q)" "coalesced b0 (MAX_ORDERS ?t) L'"
      "bcover L' \<union> {b'..<b' + 2 ^ k'} = bcover ?L \<union> {?l..<?l + 2 ^ Suc k}"
      "k' < MAX_ORDERS ?t \<longrightarrow> bud b0 k' b' \<notin> set (L' k')"
      using less.hyps [of ?t "Suc k" ?L ?l] kM wt bu(1) out res co unfolding t by (elim meta_impE) auto
    have "bcover ?L \<union> {?l..<?l + 2 ^ Suc k} = bcover L \<union> {b..<b + 2 ^ k}"
      unfolding bu(4) [symmetric] cov using bcover_block [of ?q L k, OF qL] by blast
    with ih show ?thesis unfolding step t
      by (intro exI [of _ s'] exI [of _ b'] exI [of _ k'] exI [of _ L']) simp
  qed
qed

text \<open>Adding a block whose buddy is not free keeps the lists free of buddy pairs.\<close>

lemma coalesced_add:
  assumes "coalesced b0 m L" "bgeom b0 m L" "aligned b0 m k b" "k < m \<longrightarrow> bud b0 k b \<notin> set (L k)"
  shows "coalesced b0 m (L(k := b # L k))"
  unfolding coalesced_def
proof (intro allI impI ballI)
  fix l p assume l: "l < m" and p: "p \<in> set ((L(k := b # L k)) l)"
  show "bud b0 l p \<notin> set ((L(k := b # L k)) l)"
  proof (cases "l = k")
    case False
    then show ?thesis using assms(1) l p by (simp add: coalesced_def)
  next
    case True
    show ?thesis
    proof (cases "p = b")
      case t: True
      have "bud b0 l p \<noteq> b" using bud_union(3) [of b0 m l b] assms(3) l True t by simp
      then show ?thesis using assms(4) l True t by simp
    next
      case False
      then have pL: "p \<in> set (L k)" using p True by simp
      then have al: "aligned b0 m k p" using assms(2) by (simp add: bgeom_def)
      have "bud b0 k p \<noteq> b"
      proof
        assume "bud b0 k p = b"
        then have "bud b0 k b = p" using bud_bud [OF al] by simp
        then show False using assms(4) l True pL by simp
      qed
      then show ?thesis using assms(1) l True pL by (simp add: coalesced_def)
    qed
  qed
qed

lemma aligned_range: "aligned b0 m k p \<Longrightarrow> {p..<p + 2 ^ k} \<subseteq> {b0..<b0 + 2 ^ m}"
proof -
  assume a: "aligned b0 m k p"
  let ?L = "(\<lambda>_. [])(k := [p])"
  have "bgeom b0 m (\<lambda>_. [])" "bcover (\<lambda>_. []) = {}" by (simp_all add: bgeom_def bcover_def)
  then have "bgeom b0 m ?L" using bgeom_add [of b0 m "\<lambda>_. []" k p] a by simp
  have "p \<in> set (?L k)" by simp
  then show ?thesis by (rule subset_trans [OF bcover_block bcover_range [OF \<open>bgeom b0 m ?L\<close>]])
qed

lemma buddy_free_law:
  assumes "bwf s b0 L {}" "coalesced b0 (MAX_ORDERS s) L" "0 < n" "n \<le> 2 ^ MAX_ORDERS s"
    and "aligned b0 (MAX_ORDERS s) (order_up n) b" "{b..<b + 2 ^ order_up n} \<inter> bcover L = {}"
  shows "\<exists>s' L'. buddy_system_free_pages s b n = Some s' \<and> bwf s' b0 L' {} \<and> coalesced b0 (MAX_ORDERS s) L'
    \<and> MAX_ORDERS s' = MAX_ORDERS s \<and> bcover L' = bcover L \<union> {b..<b + 2 ^ order_up n}"
proof -
  let ?k = "order_up n" and ?M = "MAX_ORDERS s"
  have guard: "n \<le> MAX_PAGES s" using assms(1,4) by (simp add: bwf_def)
  have ur: "\<forall>q \<in> {b..<b + 2 ^ ?k}. \<not> PageReserved (bpages s q)"
    using aligned_range [OF assms(5)] assms(1) unfolding bwf_def by blast
  have nk: "n \<le> 2 ^ ?k" using order_up_ge .
  have heads: "PageProperty (bpages s q) \<longleftrightarrow> (\<exists>l. q \<in> set (L l))" for q
    using assms(1) by (simp add: bwf_def bpages_ok_def)
  have np: "\<not> PageProperty (bpages s q)" if "q \<in> {b..<b + 2 ^ ?k}" for q
  proof
    assume "PageProperty (bpages s q)"
    then obtain l where "q \<in> set (L l)" using heads by blast
    then have "q \<in> bcover L" using bcover_block [of q L l] by auto
    then show False using that assms(6) by blast
  qed
  let ?P = "\<lambda>q. if b \<le> q \<and> q < b + n then (bpages s q)\<lparr>pg_flags := 0, pg_ref := 0\<rparr> else bpages s q"
  have rel: "release_pages n b (bpages s) = Some ?P"
    by (rule release_pages_spec) (use np ur nk in auto)
  define t where "t = upd_bpage b SetPageProperty (upd_bpage b (\<lambda>g. g\<lparr>pg_property := word_of_nat n\<rparr>) (s\<lparr>bpages := ?P\<rparr>))"
  have tl: "MAX_ORDERS t = ?M" "MAX_PAGES t = MAX_PAGES s" "BASE_ADDR t = BASE_ADDR s" "blinks t = blinks s"
    "bnr_free t = bnr_free s" by (simp_all add: t_def)
  have out: "bpages t q = bpages s q" if "q \<notin> {b..<b + n}" for q
    using that assms(3) by (auto simp: t_def)
  have ins: "\<not> PageReserved (bpages t q) \<and> (PageProperty (bpages t q) \<longleftrightarrow> q = b)" if "q \<in> {b..<b + n}" for q
    using that by (cases "q = b") (auto simp: t_def)
  have inl: "q \<notin> {b..<b + n}" if "q \<in> bcover L" for q
    using that assms(6) ivl_split [OF nk, of b] by blast
  have bcov: "q \<in> bcover L" if "q \<in> set (L l)" for q l using bcover_block [of q L l] that by auto
  have "bpages_ok (bpages t) L {b}"
    unfolding bpages_ok_def
  proof (intro conjI allI ballI)
    fix l p assume "p \<in> set (L l)"
    then show "unat (pg_property (bpages t p)) = l"
      using out [OF inl [OF bcov]] bwf_block(3) [OF assms(1)] by metis
  next
    fix p show "PageProperty (bpages t p) \<longleftrightarrow> p \<in> {b} \<or> (\<exists>l. p \<in> set (L l))"
      using out [of p] ins [of p] heads [of p] inl [OF bcov] assms(3) by (cases "p \<in> {b..<b + n}") auto
  next
    fix q assume "q \<in> bcover L"
    then show "\<not> PageReserved (bpages t q)"
      using out [OF inl] assms(1) unfolding bwf_def bpages_ok_def by metis
  qed
  moreover have "\<forall>q \<in> {b0..<b0 + 2 ^ ?M}. \<not> PageReserved (bpages t q)"
    using assms(1) out ins unfolding bwf_def by metis
  ultimately have wt: "bwf t b0 L {b}" using assms(1) by (simp add: bwf_def tl)
  have res: "\<forall>q \<in> {b..<b + 2 ^ ?k}. \<not> PageReserved (bpages t q)"
    using ur out ins by metis
  obtain s' b' k' L' where m: "buddy_merge t b ?k = Some (s', b', k')" "bwf s' b0 L' {b'}"
    "MAX_ORDERS s' = ?M" "aligned b0 ?M k' b'" "{b'..<b' + 2 ^ k'} \<inter> bcover L' = {}"
    "\<forall>q \<in> {b'..<b' + 2 ^ k'}. \<not> PageReserved (bpages s' q)" "coalesced b0 ?M L'"
    "bcover L' \<union> {b'..<b' + 2 ^ k'} = bcover L \<union> {b..<b + 2 ^ ?k}"
    "k' < ?M \<longrightarrow> bud b0 k' b' \<notin> set (L' k')"
    using buddy_merge_spec [OF wt _ assms(6) res] assms(2,5) unfolding tl(1) by blast
  let ?s = "push_block b' k' s'" and ?L = "L'(k' := b' # L' k')"
  have "bwf ?s b0 ?L ({b'} - {b'})"
    by (rule push_block_spec [OF m(2)]) (use m in simp_all)
  moreover have "coalesced b0 ?M ?L"
    by (rule coalesced_add) (use m in \<open>auto simp: bwf_def\<close>)
  moreover have "bcover ?L = bcover L \<union> {b..<b + 2 ^ ?k}" unfolding bcover_add by (rule m(8))
  moreover have "buddy_system_free_pages s b n = Some ?s"
    using rel m(1) assms(3) guard by (simp add: buddy_system_free_pages_def t_def Let_def)
  moreover have "MAX_ORDERS ?s = ?M" using m(3) by (simp add: push_block_def Let_def)
  ultimately show ?thesis by (intro exI [of _ ?s] exI [of _ ?L]) simp
qed

subsection \<open>An aligned free block lies in a listed block\<close>

lemma free_block_listed:
  assumes "bgeom b0 m L" "coalesced b0 m L" "aligned b0 m k p" "{p..<p + 2 ^ k} \<subseteq> bcover L"
  shows "\<exists>l \<ge> k. L l \<noteq> []"
proof (rule ccontr)
  assume none: "\<not> (\<exists>l \<ge> k. L l \<noteq> [])"
  let ?meets = "\<lambda>l. \<exists>r \<in> set (L l). r < p + 2 ^ k \<and> p < r + 2 ^ l"
  have al: "aligned b0 m l r" if "r \<in> set (L l)" for l r using assms(1) that by (simp add: bgeom_def)
  have at: "\<exists>l r. r \<in> set (L l) \<and> r \<le> x \<and> x < r + 2 ^ l" if "p \<le> x" "x < p + 2 ^ k" for x
    using assms(4) that by (auto simp: bcover_def subset_iff)
  have "p < p + 2 ^ k" by simp
  from at [OF order_refl this] have "\<exists>l. ?meets l" by (meson le_less_trans \<open>p < p + 2 ^ k\<close>)
  define j where "j = (LEAST l. ?meets l)"
  have "?meets j" unfolding j_def by (rule LeastI_ex) fact
  then obtain q where q: "q \<in> set (L j)" "q < p + 2 ^ k" "p < q + 2 ^ j" by blast
  have least: "j \<le> l" if "?meets l" for l unfolding j_def by (rule Least_le) (fact that)
  have jk: "j < k" using none q(1) by (metis empty_iff empty_set not_less)
  have jm: "j < m" using jk assms(3) by (simp add: aligned_def)
  let ?b = "bud b0 j q"
  note bu = bud_union [OF al [OF q(1)] jm]
  define u where "u = (if even ((q - b0) div 2 ^ j) then q else ?b)"
  have u: "aligned b0 m (Suc j) u" "{q..<q + 2 ^ j} \<union> {?b..<?b + 2 ^ j} = {u..<u + 2 ^ Suc j}"
    using bu(1,4) by (simp_all add: u_def)
  have "{q..<q + 2 ^ j} \<subseteq> {u..<u + 2 ^ Suc j}" "{?b..<?b + 2 ^ j} \<subseteq> {u..<u + 2 ^ Suc j}" using u(2) by blast+
  then have "u \<le> q \<and> q + 2 ^ j \<le> u + 2 ^ Suc j" "u \<le> ?b \<and> ?b + 2 ^ j \<le> u + 2 ^ Suc j" by (simp_all add: ivl_subset)
  moreover have "(0 :: nat) < 2 ^ j" by simp
  ultimately have uq: "u \<le> q" "u \<le> ?b" "?b < u + 2 ^ Suc j" "q + 2 ^ j \<le> u + 2 ^ Suc j" by linarith+
  have "u < p + 2 ^ k" "p < u + 2 ^ Suc j" using uq q by linarith+
  from aligned_nested [OF u(1) assms(3) _ this] jk have "p \<le> u" "u + 2 ^ Suc j \<le> p + 2 ^ k" by simp_all
  then have b: "p \<le> ?b" "?b < p + 2 ^ k" using uq by linarith+
  from at [OF this] obtain l r where r: "r \<in> set (L l)" "r \<le> ?b" "?b < r + 2 ^ l" by blast
  have "?meets l" by (rule bexI [OF _ r(1)]) (use r b in linarith)
  then have jl: "j \<le> l" by (rule least)
  have "r < ?b + 2 ^ j" using r(2) by (simp add: less_add_same_cancel1 le_less_trans)
  from aligned_nested [OF bu(2) al [OF r(1)] jl r(3) this] have n: "r \<le> ?b" "?b + 2 ^ j \<le> r + 2 ^ l" by auto
  show False
  proof (cases "l = j")
    case True
    then have "r = ?b" using n by simp
    then show False using assms(2) jm q(1) r(1) True by (auto simp: coalesced_def)
  next
    case False
    then have "Suc j \<le> l" using jl by simp
    from aligned_nested [OF u(1) al [OF r(1)] this] uq r have "r \<le> u" "u + 2 ^ Suc j \<le> r + 2 ^ l" by linarith+
    moreover have "q < q + 2 ^ j" by simp
    ultimately have "q \<in> {r..<r + 2 ^ l}" "q \<in> {q..<q + 2 ^ j}" using uq by simp_all
    then have "j = l" using bgeom_overlap [OF assms(1) q(1) r(1)] by blast
    then show False using False by simp
  qed
qed

lemma full_block:
  assumes "bgeom b0 m L" "coalesced b0 m L" "bcover L = {b0..<b0 + 2 ^ m}"
  shows "b0 \<in> set (L m)"
proof -
  have "aligned b0 m m b0" by (simp add: aligned_def)
  from free_block_listed [OF assms(1,2) this] obtain l where l: "m \<le> l" "L l \<noteq> []" using assms(3) by auto
  then obtain p where p: "p \<in> set (L l)" by (cases "L l") auto
  then have a: "aligned b0 m l p" using assms(1) by (simp add: bgeom_def)
  then have "l = m" using l by (simp add: aligned_def)
  then show ?thesis using a p by (auto simp: aligned_def)
qed

lemma order_up_power: "order_up (2 ^ m) = m"
proof -
  have b: "2 ^ m \<le> (2 :: nat) ^ order_up (2 ^ m)" "order_up (2 ^ m) \<le> m"
    using order_up_bounds [of "2 ^ m" m] by simp_all
  have "m \<le> order_up (2 ^ m)" by (rule power_le_imp_le_exp [OF _ b(1)]) simp
  with b(2) show ?thesis by (rule le_antisym)
qed

subsection \<open>Start-up\<close>

lemma init_orders_spec:
  "k \<le> Suc MAX_ORDER \<Longrightarrow>
   (\<forall>i. Suc MAX_ORDER \<le> i + k \<and> i \<le> MAX_ORDER \<longrightarrow>
      lnext (blinks (init_orders k s)) (OrderHead i) = OrderHead i
      \<and> lprev (blinks (init_orders k s)) (OrderHead i) = OrderHead i \<and> bnr_free (init_orders k s) i = 0)
   \<and> (\<forall>i. i + k < Suc MAX_ORDER \<longrightarrow>
      lnext (blinks (init_orders k s)) (OrderHead i) = lnext (blinks s) (OrderHead i)
      \<and> lprev (blinks (init_orders k s)) (OrderHead i) = lprev (blinks s) (OrderHead i)
      \<and> bnr_free (init_orders k s) i = bnr_free s i)
   \<and> bpages (init_orders k s) = bpages s"
proof (induction k arbitrary: s)
  case (Suc k)
  let ?i = "MAX_ORDER - k"
  let ?s = "s\<lparr>blinks := list_init (blinks s) (OrderHead ?i), bnr_free := (bnr_free s)(?i := 0)\<rparr>"
  have e: "init_orders (Suc k) s = init_orders k ?s" by (simp add: Let_def)
  have c: "i = ?i \<or> Suc MAX_ORDER \<le> i + k" if "Suc MAX_ORDER \<le> i + Suc k" "i \<le> MAX_ORDER" for i
    using that Suc.prems by auto
  have ik: "?i + k < Suc MAX_ORDER" using Suc.prems by simp
  have ne: "i \<noteq> ?i" if "i + Suc k < Suc MAX_ORDER" for i using that Suc.prems by simp
  have k: "k \<le> Suc MAX_ORDER" using Suc.prems by simp
  note I = Suc.IH [OF k, of ?s]
  have ih: "lnext (blinks (init_orders k ?s)) (OrderHead i) = OrderHead i
      \<and> lprev (blinks (init_orders k ?s)) (OrderHead i) = OrderHead i \<and> bnr_free (init_orders k ?s) i = 0"
    if "Suc MAX_ORDER \<le> i + k" "i \<le> MAX_ORDER" for i
    using I [THEN conjunct1, rule_format, of i] that by blast
  have ih2: "lnext (blinks (init_orders k ?s)) (OrderHead i) = lnext (blinks ?s) (OrderHead i)
      \<and> lprev (blinks (init_orders k ?s)) (OrderHead i) = lprev (blinks ?s) (OrderHead i)
      \<and> bnr_free (init_orders k ?s) i = bnr_free ?s i" if "i + k < Suc MAX_ORDER" for i
    using I [THEN conjunct2, THEN conjunct1, rule_format, OF that] .
  have ih3: "bpages (init_orders k ?s) = bpages s" using I by simp
  show ?case unfolding e
  proof (intro conjI allI impI)
    fix i assume i: "Suc MAX_ORDER \<le> i + Suc k \<and> i \<le> MAX_ORDER"
    have "lnext (blinks (init_orders k ?s)) (OrderHead i) = OrderHead i
      \<and> lprev (blinks (init_orders k ?s)) (OrderHead i) = OrderHead i \<and> bnr_free (init_orders k ?s) i = 0"
      using c [of i] i ih [of i] ih2 [OF ik] by (cases "i = ?i") simp_all
    then show "lnext (blinks (init_orders k ?s)) (OrderHead i) = OrderHead i"
      "lprev (blinks (init_orders k ?s)) (OrderHead i) = OrderHead i" "bnr_free (init_orders k ?s) i = 0" by blast+
  next
    fix i assume i: "i + Suc k < Suc MAX_ORDER"
    then show "lnext (blinks (init_orders k ?s)) (OrderHead i) = lnext (blinks s) (OrderHead i)"
      "lprev (blinks (init_orders k ?s)) (OrderHead i) = lprev (blinks s) (OrderHead i)"
      "bnr_free (init_orders k ?s) i = bnr_free s i" using ih2 [of i] ne [of i] by simp_all
  qed (rule ih3)
qed auto

lemma buddy_boot:
  assumes "0 < n" "order_down n \<le> MAX_ORDER" "\<forall>q \<in> {b..<b + n}. PageReserved (bpages s q)"
    and "\<forall>q. q \<notin> {b..<b + n} \<longrightarrow> \<not> PageProperty (bpages s q)"
  shows "\<exists>s' L. buddy_system_init_memmap (buddy_system_init s) b n = Some s' \<and> bwf s' b L {}
    \<and> coalesced b (MAX_ORDERS s') L \<and> MAX_ORDERS s' = order_down n \<and> bcover L = {b..<b + 2 ^ order_down n}"
proof -
  let ?m = "order_down n" and ?s = "buddy_system_init s"
  let ?P = "\<lambda>q. if b \<le> q \<and> q < b + n then (bpages s q)\<lparr>pg_flags := 0, pg_property := 0, pg_ref := 0\<rparr> else bpages s q"
  have m: "2 ^ ?m \<le> n" using order_down_bounds [OF assms(1)] by simp
  have i: "lnext (blinks ?s) (OrderHead k) = OrderHead k \<and> lprev (blinks ?s) (OrderHead k) = OrderHead k \<and> bnr_free ?s k = 0"
    if "k \<le> MAX_ORDER" for k
    using init_orders_spec [of "Suc MAX_ORDER" s] that by (simp add: buddy_system_init_def del: init_orders.simps)
  have pg: "bpages ?s = bpages s"
    using init_orders_spec [of "Suc MAX_ORDER" s] by (simp add: buddy_system_init_def del: init_orders.simps)
  define t where "t = ?s\<lparr>bpages := ?P, MAX_ORDERS := ?m, MAX_PAGES := 2 ^ ?m, BASE_ADDR := page2pa b\<rparr>"
  have np: "\<not> PageProperty (?P q)" for q using assms(4) by simp
  have "\<not> PageReserved (?P q)" if "q \<in> {b..<b + 2 ^ ?m}" for q using that m by simp
  then have w: "bwf t b (\<lambda>_. []) {}"
    using i assms(2) np by (simp add: t_def bwf_def bpages_ok_def bgeom_def bcover_def)
  have al: "aligned b (MAX_ORDERS t) ?m b" by (simp add: aligned_def t_def)
  let ?L = "(\<lambda>_. [])(?m := [b])"
  have "bwf (push_block b ?m t) b ?L {}"
    using push_block_spec [OF w al] m by (simp add: bcover_def t_def)
  moreover have "bcover ?L = {b..<b + 2 ^ ?m}" using bcover_add [of "\<lambda>_. []" ?m b] by (simp add: bcover_def)
  moreover have "coalesced b ?m ?L" by (auto simp: coalesced_def)
  moreover have "buddy_system_init_memmap ?s b n = Some (push_block b ?m t)"
    using init_pages_spec [of b n "bpages s"] assms(1,3)
    by (simp add: buddy_system_init_memmap_def t_def pg Let_def)
  moreover have "MAX_ORDERS (push_block b ?m t) = ?m" by (simp add: push_block_def t_def Let_def)
  ultimately show ?thesis by (intro exI [of _ "push_block b ?m t"] exI [of _ ?L]) simp
qed

subsection \<open>The buddy allocator meets the contract\<close>

lemma buddy_count:
  assumes "bwf s b0 L {}"
  shows "buddy_system_nr_free_pages s = card (bcover L)"
proof -
  let ?M = "MAX_ORDERS s"
  have g: "bgeom b0 ?M L" and M: "?M \<le> 15" using assms by (simp_all add: bwf_def MAX_ORDER_def)
  have one: "unat (bnr_free s k * 2 ^ k) = length (L k) * 2 ^ k" if "k \<le> ?M" for k
  proof -
    have l: "unat (bnr_free s k) = length (L k)" using assms that by (simp add: bwf_def)
    have "length (L k) * 2 ^ k \<le> (\<Sum>k \<le> ?M. length (L k) * 2 ^ k)" using that by (intro member_le_sum) auto
    also have "\<dots> \<le> card {b0..<b0 + 2 ^ ?M}"
      using card_bcover [OF g] bcover_range [OF g] by (metis card_mono finite_atLeastLessThan)
    also have "\<dots> \<le> 2 ^ 15" using power_increasing [OF M, of "2 :: nat"] by simp
    finally have b: "length (L k) * 2 ^ k < 4294967296" by simp
    have "(2 :: nat) ^ k \<le> 2 ^ 15" using that M by (intro power_increasing) simp_all
    then have "unat ((2 :: u32) ^ k) = 2 ^ k" using unat_of_nat_u32 [of "2 ^ k"] by simp
    then show ?thesis using l b by (simp add: unat_word_ariths)
  qed
  have "buddy_system_nr_free_pages s = (\<Sum>k \<in> {..?M}. unat (bnr_free s k * 2 ^ k))"
    unfolding buddy_system_nr_free_pages_def sum_list_distinct_conv_sum_set [OF distinct_upt]
    by (rule sum.cong) auto
  also have "\<dots> = (\<Sum>k \<le> ?M. length (L k) * 2 ^ k)" by (rule sum.cong) (use one in auto)
  finally show ?thesis using card_bcover [OF g] by simp
qed

definition buddy_may_alloc :: "buddy \<Rightarrow> nat \<Rightarrow> bool" where
  "buddy_may_alloc s n \<longleftrightarrow> 0 < n \<and> n \<le> 2 ^ MAX_ORDERS s"

definition buddy_accepts :: "nat \<Rightarrow> buddy \<Rightarrow> nat \<Rightarrow> nat \<Rightarrow> bool" where
  "buddy_accepts b0 s b n \<longleftrightarrow> buddy_may_alloc s n \<and> aligned b0 (MAX_ORDERS s) (order_up n) b"

interpretation buddy: pmm buddy_system_pmm_manager "binv b0" bfree_set buddy_may_alloc "buddy_accepts b0" "\<lambda>n. 2 ^ order_up n"
  for b0
proof
  fix n show "n \<le> 2 ^ order_up n" by (rule order_up_ge)
next
  fix s n assume a: "binv b0 s" "buddy_may_alloc s n"
  then obtain L where L: "bwf s b0 L {}" "coalesced b0 (MAX_ORDERS s) L" by (auto simp: binv_def)
  have n: "0 < n" "n \<le> 2 ^ MAX_ORDERS s" using a(2) by (simp_all add: buddy_may_alloc_def)
  from buddy_alloc_law [OF L n]
  show "\<exists>r s'. pm_alloc_pages buddy_system_pmm_manager s n = Some (r, s') \<and> binv b0 s'
      \<and> (case r of None \<Rightarrow> s' = s | Some p \<Rightarrow> {p..<p + 2 ^ order_up n} \<subseteq> bfree_set s
           \<and> bfree_set s' = bfree_set s - {p..<p + 2 ^ order_up n})"
  proof (elim disjE exE conjE)
    assume "buddy_system_alloc_pages s n = Some (None, s)"
    then show ?thesis using a(1) by (simp add: buddy_system_pmm_manager_def)
  next
    fix p s' L'
    assume "buddy_system_alloc_pages s n = Some (Some p, s')" "bwf s' b0 L' {}"
      "coalesced b0 (MAX_ORDERS s) L'" "MAX_ORDERS s' = MAX_ORDERS s"
      "{p..<p + 2 ^ order_up n} \<subseteq> bcover L" "bcover L' = bcover L - {p..<p + 2 ^ order_up n}"
    then show ?thesis
      using bwf_free_set [OF L(1)] bwf_free_set [of s' b0 L'] unfolding binv_def buddy_system_pmm_manager_def
      by (intro exI [of _ "Some p"] exI [of _ s']) auto
  qed
next
  fix s b n assume a: "binv b0 s" "{b..<b + 2 ^ order_up n} \<inter> bfree_set s = {}" "buddy_accepts b0 s b n"
  then obtain L where L: "bwf s b0 L {}" "coalesced b0 (MAX_ORDERS s) L" by (auto simp: binv_def)
  from buddy_free_law [OF L, of n b] a bwf_free_set [OF L(1)] obtain s' L' where
    "buddy_system_free_pages s b n = Some s'" "bwf s' b0 L' {}" "coalesced b0 (MAX_ORDERS s) L'"
    "MAX_ORDERS s' = MAX_ORDERS s" "bcover L' = bcover L \<union> {b..<b + 2 ^ order_up n}"
    by (auto simp: buddy_accepts_def buddy_may_alloc_def)
  then show "\<exists>s'. pm_free_pages buddy_system_pmm_manager s b n = Some s' \<and> binv b0 s'
      \<and> bfree_set s' = bfree_set s \<union> {b..<b + 2 ^ order_up n}"
    using bwf_free_set [OF L(1)] bwf_free_set [of s' b0 L'] unfolding binv_def buddy_system_pmm_manager_def
    by (intro exI [of _ s']) auto
next
  fix s assume "binv b0 s"
  then obtain L where L: "bwf s b0 L {}" by (auto simp: binv_def)
  then have "bgeom b0 (MAX_ORDERS s) L" by (simp add: bwf_def)
  from card_bcover [OF this] buddy_count [OF L] bwf_free_set [OF L]
  show "finite (bfree_set s) \<and> pm_nr_free_pages buddy_system_pmm_manager s = card (bfree_set s)"
    by (simp add: buddy_system_pmm_manager_def)
qed

text \<open>
  C20: Buddy allocation. In a well-formed state, \<open>alloc_pages(n)\<close> for \<open>0 < n \<le> MAX_PAGES\<close> does not panic. It
  returns a block of \<open>2^order_up(n) \<ge> n\<close> free pages that is aligned to its size, relative to the first page of the
  region; exactly these leave the free set, the page count goes down by their number, and no two free buddies of
  one order exist afterwards. It returns \<open>NULL\<close>, with nothing changed, only when there is no such block: no aligned
  block of \<open>2^order_up(n)\<close> pages is free.
\<close>

theorem buddy_alloc_correct:
  assumes "binv b0 s" "0 < n" "n \<le> 2 ^ MAX_ORDERS s"
  shows "\<exists>r s'. alloc_pages buddy_system_pmm_manager s n = Some (r, s') \<and> binv b0 s'
    \<and> (case r of
         None \<Rightarrow> s' = s \<and> \<not> (\<exists>p. aligned b0 (MAX_ORDERS s) (order_up n) p \<and> {p..<p + 2 ^ order_up n} \<subseteq> bfree_set s)
       | Some p \<Rightarrow> aligned b0 (MAX_ORDERS s) (order_up n) p \<and> n \<le> 2 ^ order_up n
           \<and> {p..<p + 2 ^ order_up n} \<subseteq> bfree_set s
           \<and> bfree_set s' = bfree_set s - {p..<p + 2 ^ order_up n}
           \<and> nr_free_pages buddy_system_pmm_manager s' + 2 ^ order_up n = nr_free_pages buddy_system_pmm_manager s)"
proof -
  have ma: "buddy_may_alloc s n" using assms(2,3) by (simp add: buddy_may_alloc_def)
  obtain L where L: "bwf s b0 L {}" "coalesced b0 (MAX_ORDERS s) L" using assms(1) by (auto simp: binv_def)
  have g: "bgeom b0 (MAX_ORDERS s) L" using L(1) by (simp add: bwf_def)
  note free = bwf_free_set [OF L(1)]
  have mgr: "alloc_pages buddy_system_pmm_manager s n = buddy_system_alloc_pages s n"
    by (simp add: alloc_pages_def buddy_system_pmm_manager_def)
  from buddy_alloc_law [OF L assms(2,3)] show ?thesis
  proof (elim disjE exE conjE)
    assume r: "buddy_system_alloc_pages s n = Some (None, s)" "\<forall>k \<ge> order_up n. L k = []"
    have "\<not> (aligned b0 (MAX_ORDERS s) (order_up n) p \<and> {p..<p + 2 ^ order_up n} \<subseteq> bfree_set s)" for p
      using free_block_listed [OF g L(2)] r(2) unfolding free by blast
    then show ?thesis using r(1) assms(1) by (auto simp: mgr)
  next
    fix p s' L'
    assume r: "buddy_system_alloc_pages s n = Some (Some p, s')" "bwf s' b0 L' {}" "coalesced b0 (MAX_ORDERS s) L'"
      "MAX_ORDERS s' = MAX_ORDERS s" "aligned b0 (MAX_ORDERS s) (order_up n) p"
      "{p..<p + 2 ^ order_up n} \<subseteq> bcover L" "bcover L' = bcover L - {p..<p + 2 ^ order_up n}"
    have "binv b0 s'" using r(2-4) by (auto simp: binv_def)
    moreover have "nr_free_pages buddy_system_pmm_manager s' + 2 ^ order_up n = nr_free_pages buddy_system_pmm_manager s"
      using buddy.alloc_count [OF assms(1) ma, of p s'] r(1) by (simp add: mgr)
    ultimately show ?thesis
      using r free bwf_free_set [OF r(2)] order_up_ge [of n] by (intro exI [of _ "Some p"] exI [of _ s']) (simp add: mgr)
  qed
qed

text \<open>
  C21: Releasing an aligned block that is not free to the buddy allocator does not panic and
  makes exactly its \<open>2^order_up(n)\<close> pages free; it is merged with free buddies up to the top order, so
  that no two free buddies of one order remain.
\<close>

theorem buddy_free_correct:
  assumes "binv b0 s" "{b..<b + 2 ^ order_up n} \<inter> bfree_set s = {}" "buddy_accepts b0 s b n"
  shows "\<exists>s'. free_pages buddy_system_pmm_manager s b n = Some s' \<and> binv b0 s'
    \<and> bfree_set s' = bfree_set s \<union> {b..<b + 2 ^ order_up n}"
  using buddy.free_law [OF assms] by (simp add: free_pages_def)

text \<open>
  The buddy allocator does not fragment for good: whenever all pages of the managed region are free
  again, in whatever order blocks were taken and given back, a request for the whole region
  succeeds and returns its first page.
\<close>

lemma buddy_no_fragmentation:
  assumes "binv b0 s" "bfree_set s = {b0..<b0 + 2 ^ MAX_ORDERS s}"
  shows "\<exists>s'. buddy_system_alloc_pages s (2 ^ MAX_ORDERS s) = Some (Some b0, s') \<and> bfree_set s' = {}"
proof -
  let ?M = "MAX_ORDERS s"
  obtain L where L: "bwf s b0 L {}" "coalesced b0 ?M L" using assms(1) by (auto simp: binv_def)
  have g: "bgeom b0 ?M L" using L(1) by (simp add: bwf_def)
  have cov: "bcover L = {b0..<b0 + 2 ^ ?M}" using bwf_free_set [OF L(1)] assms(2) by simp
  have top: "b0 \<in> set (L ?M)" by (rule full_block [OF g L(2) cov])
  have "buddy_system_alloc_pages s (2 ^ ?M) \<noteq> Some (None, s) \<or> \<not> (\<forall>k \<ge> order_up (2 ^ ?M). L k = [])"
    using top by (auto simp: order_up_power)
  with buddy_alloc_law [OF L, of "2 ^ ?M"] obtain p s' L' where
    a: "buddy_system_alloc_pages s (2 ^ ?M) = Some (Some p, s')" "bwf s' b0 L' {}" "aligned b0 ?M ?M p"
      "bcover L' = bcover L - {p..<p + 2 ^ ?M}"
    by (auto simp: order_up_power)
  have "p = b0" using a(3) by (auto simp: aligned_def)
  with a cov bwf_free_set [OF a(2)] show ?thesis by simp
qed

text \<open>
  Start-up of the buddy allocator on \<open>n\<close> reserved pages: a well-formed state in which exactly the first
  \<open>2^order_down(n)\<close> of them are free, the largest power of two that fits.
\<close>

lemma buddy_boot_correct:
  assumes "0 < n" "order_down n \<le> MAX_ORDER" "\<forall>q \<in> {b..<b + n}. PageReserved (bpages s q)"
    and "\<forall>q. q \<notin> {b..<b + n} \<longrightarrow> \<not> PageProperty (bpages s q)"
  shows "\<exists>s'. buddy_system_init_memmap (buddy_system_init s) b n = Some s' \<and> binv b s'
    \<and> bfree_set s' = {b..<b + 2 ^ order_down n} \<and> 2 ^ order_down n \<le> n \<and> n < 2 ^ Suc (order_down n)"
  using buddy_boot [OF assms] order_down_bounds [OF assms(1)] bwf_free_set unfolding binv_def by metis

subsection \<open>A concrete buddy system\<close>

definition raw_buddy :: buddy where
  "raw_buddy = \<lparr>bpages = (\<lambda>_. \<lparr>pg_ref = 0, pg_flags = 1, pg_property = 0\<rparr>),
     blinks = \<lparr>lprev = (\<lambda>n. n), lnext = (\<lambda>n. n)\<rparr>, bnr_free = (\<lambda>_. 7), MAX_PAGES = 0, MAX_ORDERS = 0, BASE_ADDR = 0\<rparr>"

lemma raw_page: "PageReserved (bpages raw_buddy q)" "\<not> PageProperty (bpages raw_buddy q)"
  by (simp_all add: raw_buddy_def PageReserved_def PageProperty_def PG_reserved_def PG_property_def bit_1_iff)

lemma order_examples: "order_down 5 = 2" "order_up 4 = 2" "order_up 3 = 2"
  by (simp_all add: order_down_def order_down_loop.simps order_up_def order_up_loop.simps)

text \<open>Five pages from page 10 on: the allocator manages pages 10 to 13.\<close>

definition sample_buddy :: buddy where
  "sample_buddy = the (buddy_system_init_memmap (buddy_system_init raw_buddy) 10 5)"

lemma sample_buddy_inv:
  "binv 10 sample_buddy" "MAX_ORDERS sample_buddy = 2" "bfree_set sample_buddy = {10..<14}"
proof -
  obtain s' L where s': "buddy_system_init_memmap (buddy_system_init raw_buddy) 10 5 = Some s'" "bwf s' 10 L {}"
    "coalesced 10 (MAX_ORDERS s') L" "MAX_ORDERS s' = order_down 5" "bcover L = {10..<10 + 2 ^ order_down 5}"
    using buddy_boot [of 5 10 raw_buddy] raw_page by (auto simp: order_examples MAX_ORDER_def)
  then have e: "sample_buddy = s'" by (simp add: sample_buddy_def)
  show "binv 10 sample_buddy" "MAX_ORDERS sample_buddy = 2" "bfree_set sample_buddy = {10..<14}"
    using s' bwf_free_set [OF s'(2)] unfolding e binv_def by (auto simp: order_examples)
qed

theorem buddy_alloc_correct_witness:
  "\<exists>r s'. alloc_pages buddy_system_pmm_manager sample_buddy 3 = Some (r, s') \<and> binv 10 s'"
  using buddy_alloc_correct [OF sample_buddy_inv(1), of 3] by (auto simp: sample_buddy_inv(2))

theorem buddy_free_correct_witness:
  "\<exists>s s'. buddy_system_alloc_pages sample_buddy 4 = Some (Some 10, s)
    \<and> free_pages buddy_system_pmm_manager s 10 4 = Some s' \<and> bfree_set s' = {10..<14}"
proof -
  obtain L where L: "bwf sample_buddy 10 L {}" "coalesced 10 2 L"
    using sample_buddy_inv by (auto simp: binv_def)
  have "bcover L = {10..<10 + 2 ^ 2}" using bwf_free_set [OF L(1)] sample_buddy_inv(3) by simp
  moreover have g: "bgeom 10 2 L" using L(1) by (simp add: bwf_def sample_buddy_inv(2))
  ultimately have "10 \<in> set (L 2)" using full_block L(2) by blast
  then obtain p s1 L' where a: "buddy_system_alloc_pages sample_buddy 4 = Some (Some p, s1)" "bwf s1 10 L' {}"
    "coalesced 10 2 L'" "MAX_ORDERS s1 = 2" "aligned 10 2 2 p" "{p..<p + 4} \<subseteq> bcover L" "bcover L' = bcover L - {p..<p + 4}"
    using buddy_alloc_law [OF L(1), of 4] L(2) by (auto simp: sample_buddy_inv(2) order_examples)
  have p: "p = 10" using a(5) by (auto simp: aligned_def)
  have "bfree_set s1 = {}" using bwf_free_set [OF a(2)] a(7) \<open>bcover L = _\<close> p by simp
  moreover have "binv 10 s1" using a(2,3,4) unfolding binv_def by auto
  moreover have "buddy_accepts 10 s1 10 4"
    using a(4,5) p by (simp add: buddy_accepts_def buddy_may_alloc_def order_examples)
  ultimately have "\<exists>s'. free_pages buddy_system_pmm_manager s1 10 4 = Some s' \<and> binv 10 s'
      \<and> bfree_set s' = bfree_set s1 \<union> {10..<10 + 2 ^ order_up 4}"
    by (intro buddy_free_correct) simp_all
  then show ?thesis using a(1) p \<open>bfree_set s1 = {}\<close> by (auto simp: order_examples)
qed

end
