(* ===== verification/CString.thy ===== *)
theory CString
  imports Prelude
begin

text \<open>
  \<open>libs/string.c\<close> over a byte memory: a pointer is a natural number, the memory maps it to the byte
  stored there (addresses do not wrap). A function that walks to the terminating zero is partial:
  it does not return when there is none. \<open>cstr m s xs\<close> says that the bytes \<open>xs\<close>, none of them zero,
  are stored at \<open>s\<close> and followed by a zero.
\<close>

type_synonym mem = "nat \<Rightarrow> u8"

partial_function (option) strlen_loop :: "mem \<Rightarrow> nat \<Rightarrow> nat \<Rightarrow> nat option" where
  "strlen_loop m s cnt = (if m s \<noteq> 0 then strlen_loop m (s + 1) (cnt + 1) else Some cnt)"

definition strlen :: "mem \<Rightarrow> nat \<Rightarrow> nat option" where
  "strlen m s = strlen_loop m s 0"

function strnlen_loop :: "mem \<Rightarrow> nat \<Rightarrow> nat \<Rightarrow> nat \<Rightarrow> nat" where
  "strnlen_loop m s len cnt = (if cnt < len \<and> m s \<noteq> 0 then strnlen_loop m (s + 1) len (cnt + 1) else cnt)"
  by pat_completeness auto
termination by (relation "measure (\<lambda>(m, s, len, cnt). len - cnt)") auto

declare strnlen_loop.simps [simp del]

definition strnlen :: "mem \<Rightarrow> nat \<Rightarrow> nat \<Rightarrow> nat" where
  "strnlen m s len = strnlen_loop m s len 0"

partial_function (option) strcpy_loop :: "mem \<Rightarrow> nat \<Rightarrow> nat \<Rightarrow> mem option" where
  "strcpy_loop m p src =
     (let c = m src; m = m(p := c) in if c \<noteq> 0 then strcpy_loop m (p + 1) (src + 1) else Some m)"

definition strcpy :: "mem \<Rightarrow> nat \<Rightarrow> nat \<Rightarrow> mem option" where
  "strcpy m dst src = strcpy_loop m dst src"

fun strncpy_loop :: "mem \<Rightarrow> nat \<Rightarrow> nat \<Rightarrow> nat \<Rightarrow> mem" where
  "strncpy_loop m p src 0 = m"
| "strncpy_loop m p src (Suc len) =
     (let c = m src; m = m(p := c); src = (if c \<noteq> 0 then src + 1 else src)
      in strncpy_loop m (p + 1) src len)"

definition strncpy :: "mem \<Rightarrow> nat \<Rightarrow> nat \<Rightarrow> nat \<Rightarrow> mem" where
  "strncpy m dst src len = strncpy_loop m dst src len"

definition strcat :: "mem \<Rightarrow> nat \<Rightarrow> nat \<Rightarrow> mem option" where
  "strcat m dst src = do { l \<leftarrow> strlen m dst; strcpy m (dst + l) src }"

text \<open>The value of \<open>(int)((unsigned char)a - (unsigned char)b)\<close>.\<close>

definition char_diff :: "u8 \<Rightarrow> u8 \<Rightarrow> int" where
  "char_diff a b = uint a - uint b"

partial_function (option) strcmp :: "mem \<Rightarrow> nat \<Rightarrow> nat \<Rightarrow> int option" where
  "strcmp m s1 s2 =
     (if m s1 \<noteq> 0 \<and> m s1 = m s2 then strcmp m (s1 + 1) (s2 + 1) else Some (char_diff (m s1) (m s2)))"

fun strncmp :: "mem \<Rightarrow> nat \<Rightarrow> nat \<Rightarrow> nat \<Rightarrow> int" where
  "strncmp m s1 s2 0 = 0"
| "strncmp m s1 s2 (Suc n) =
     (if m s1 \<noteq> 0 \<and> m s1 = m s2 then strncmp m (s1 + 1) (s2 + 1) n else char_diff (m s1) (m s2))"

partial_function (option) strchr :: "mem \<Rightarrow> nat \<Rightarrow> u8 \<Rightarrow> nat option option" where
  "strchr m s c =
     (if m s \<noteq> 0 then (if m s = c then Some (Some s) else strchr m (s + 1) c) else Some None)"

partial_function (option) strfind :: "mem \<Rightarrow> nat \<Rightarrow> u8 \<Rightarrow> nat option" where
  "strfind m s c = (if m s \<noteq> 0 \<and> m s \<noteq> c then strfind m (s + 1) c else Some s)"

fun memset :: "mem \<Rightarrow> nat \<Rightarrow> u8 \<Rightarrow> nat \<Rightarrow> mem" where
  "memset m p c 0 = m"
| "memset m p c (Suc n) = memset (m(p := c)) (p + 1) c n"

text \<open>The two copying loops: upwards, and downwards from the ends.\<close>

fun copy_up :: "mem \<Rightarrow> nat \<Rightarrow> nat \<Rightarrow> nat \<Rightarrow> mem" where
  "copy_up m d s 0 = m"
| "copy_up m d s (Suc n) = copy_up (m(d := m s)) (d + 1) (s + 1) n"

fun copy_down :: "mem \<Rightarrow> nat \<Rightarrow> nat \<Rightarrow> nat \<Rightarrow> mem" where
  "copy_down m d s 0 = m"
| "copy_down m d s (Suc n) = copy_down (m(d - 1 := m (s - 1))) (d - 1) (s - 1) n"

definition memmove :: "mem \<Rightarrow> nat \<Rightarrow> nat \<Rightarrow> nat \<Rightarrow> mem" where
  "memmove m dst src n =
     (if src < dst \<and> src + n > dst then copy_down m (dst + n) (src + n) n else copy_up m dst src n)"

definition memcpy :: "mem \<Rightarrow> nat \<Rightarrow> nat \<Rightarrow> nat \<Rightarrow> mem" where
  "memcpy m dst src n = copy_up m dst src n"

fun memcmp :: "mem \<Rightarrow> nat \<Rightarrow> nat \<Rightarrow> nat \<Rightarrow> int" where
  "memcmp m s1 s2 0 = 0"
| "memcmp m s1 s2 (Suc n) = (if m s1 \<noteq> m s2 then char_diff (m s1) (m s2) else memcmp m (s1 + 1) (s2 + 1) n)"

text \<open>\<open>strtol\<close>: white space, sign, base prefix, digits; \<open>val\<close> is a 64-bit \<open>long\<close> and wraps.\<close>

partial_function (option) skip_space :: "mem \<Rightarrow> nat \<Rightarrow> nat option" where
  "skip_space m s = (if m s = 32 \<or> m s = 9 then skip_space m (s + 1) else Some s)"

definition digit_of :: "u8 \<Rightarrow> int option" where
  "digit_of c =
     (if 48 \<le> c \<and> c \<le> 57 then Some (uint c - 48)
      else if 97 \<le> c \<and> c \<le> 122 then Some (uint c - 97 + 10)
      else if 65 \<le> c \<and> c \<le> 90 then Some (uint c - 65 + 10)
      else None)"

partial_function (option) strtol_digits :: "mem \<Rightarrow> nat \<Rightarrow> int \<Rightarrow> u64 \<Rightarrow> (nat \<times> u64) option" where
  "strtol_digits m s base val =
     (case digit_of (m s) of
        None \<Rightarrow> Some (s, val)
      | Some dig \<Rightarrow>
          if dig \<ge> base then Some (s, val)
          else strtol_digits m (s + 1) base (val * word_of_int base + word_of_int dig))"

definition strtol :: "mem \<Rightarrow> nat \<Rightarrow> int \<Rightarrow> (u64 \<times> nat) option" where
  "strtol m s base =
     do {
       s \<leftarrow> skip_space m s;
       let (s, neg) = (if m s = 43 then (s + 1, False) else if m s = 45 then (s + 1, True) else (s, False));
       let (s, base) =
         (if (base = 0 \<or> base = 16) \<and> m s = 48 \<and> m (s + 1) = 120 then (s + 2, 16)
          else if base = 0 \<and> m s = 48 then (s + 1, 8)
          else if base = 0 then (s, 10)
          else (s, base));
       (s, val) \<leftarrow> strtol_digits m s base 0;
       Some (if neg then - val else val, s)
     }"

lemma char_diff_sign [simp]: "char_diff a b = 0 \<longleftrightarrow> a = b" "char_diff a b < 0 \<longleftrightarrow> a < b"
  by (simp_all add: char_diff_def word_less_def word_uint_eq_iff)

subsection \<open>Strings in memory\<close>

fun cstr :: "mem \<Rightarrow> nat \<Rightarrow> u8 list \<Rightarrow> bool" where
  "cstr m s [] \<longleftrightarrow> m s = 0"
| "cstr m s (x # xs) \<longleftrightarrow> m s = x \<and> x \<noteq> 0 \<and> cstr m (Suc s) xs"

lemma cstr_cong: "(\<And>a. s \<le> a \<Longrightarrow> a \<le> s + length xs \<Longrightarrow> m' a = m a) \<Longrightarrow> cstr m' s xs = cstr m s xs"
proof (induction xs arbitrary: s)
  case (Cons x xs)
  have "cstr m' (Suc s) xs = cstr m (Suc s) xs" by (rule Cons.IH) (use Cons.prems in auto)
  then show ?case using Cons.prems [of s] by simp
qed simp

lemma cstr_unique: "cstr m s xs \<Longrightarrow> cstr m s ys \<Longrightarrow> xs = ys"
  by (induction xs arbitrary: s ys) (case_tac ys; auto)+

lemma cstr_append: "cstr m s (xs @ ys) \<Longrightarrow> cstr m (s + length xs) ys"
proof (induction xs arbitrary: s)
  case (Cons x xs)
  from Cons.IH [of "Suc s"] Cons.prems show ?case by simp
qed simp

lemma strlen_loop_cstr: "cstr m s xs \<Longrightarrow> strlen_loop m s c = Some (c + length xs)"
proof (induction xs arbitrary: s c)
  case (Cons x xs)
  then show ?case by (subst strlen_loop.simps) simp
qed (subst strlen_loop.simps, simp)

lemma strlen_cstr: "cstr m s xs \<Longrightarrow> strlen m s = Some (length xs)"
  using strlen_loop_cstr [of m s xs 0] by (simp add: strlen_def)

lemma strnlen_loop_cstr: "cstr m s xs \<Longrightarrow> strnlen_loop m s len c = (if c < len then min len (c + length xs) else c)"
proof (induction xs arbitrary: s c)
  case (Cons x xs)
  then show ?case by (subst strnlen_loop.simps) auto
qed (subst strnlen_loop.simps, simp)

lemma strcpy_loop_cstr:
  assumes "cstr m s xs" "p + length xs < s \<or> s + length xs < p"
  shows "\<exists>m'. strcpy_loop m p s = Some m' \<and> cstr m' p xs \<and> (\<forall>a. a < p \<or> p + length xs < a \<longrightarrow> m' a = m a)"
  using assms
proof (induction xs arbitrary: m p s)
  case Nil
  then show ?case by (subst strcpy_loop.simps) simp
next
  case (Cons x xs)
  let ?m = "m(p := x)"
  have "cstr ?m (Suc s) xs = cstr m (Suc s) xs" by (rule cstr_cong) (use Cons.prems in auto)
  then have c: "cstr ?m (Suc s) xs" using Cons.prems by simp
  have o: "Suc p + length xs < Suc s \<or> Suc s + length xs < Suc p" using Cons.prems by auto
  obtain m' where m': "strcpy_loop ?m (Suc p) (Suc s) = Some m'" "cstr m' (Suc p) xs"
    "\<forall>a. a < Suc p \<or> Suc p + length xs < a \<longrightarrow> m' a = ?m a"
    using Cons.IH [OF c o] by blast
  have "m' p = x" using m'(3) by simp
  moreover have "m' a = m a" if "a < p \<or> p + length (x # xs) < a" for a using m'(3) that by auto
  moreover have "strcpy_loop m p s = strcpy_loop ?m (Suc p) (Suc s)"
    using Cons.prems by (subst strcpy_loop.simps) simp
  ultimately show ?case using m'(1,2) Cons.prems(1) by auto
qed

text \<open>
  \<open>strcpy\<close> of a string to a place that does not overlap it returns, stores exactly the string
  with its terminating zero at the destination and changes no other byte.
\<close>

lemma strcpy_correct:
  assumes "cstr m src xs" "dst + length xs < src \<or> src + length xs < dst"
  shows "\<exists>m'. strcpy m dst src = Some m' \<and> cstr m' dst xs
    \<and> (\<forall>a. a < dst \<or> dst + length xs < a \<longrightarrow> m' a = m a)"
  using strcpy_loop_cstr [OF assms] by (simp add: strcpy_def)

subsection \<open>Comparison\<close>

lemma strcmp_cstr:
  "cstr m s1 xs \<Longrightarrow> cstr m s2 ys \<Longrightarrow> \<exists>d. strcmp m s1 s2 = Some d \<and> (d = 0 \<longleftrightarrow> xs = ys)
     \<and> (d < 0 \<longleftrightarrow> (xs, ys) \<in> lexord {(x, y). x < y})"
proof (induction xs arbitrary: s1 s2 ys)
  case Nil
  show ?case
  proof (cases ys)
    case Nil
    with Nil.prems show ?thesis by (subst strcmp.simps) simp
  next
    case (Cons y zs)
    with Nil.prems show ?thesis
      by (subst strcmp.simps) (simp add: word_neq_0_conv)
  qed
next
  case (Cons x xs)
  show ?case
  proof (cases ys)
    case Nil
    with Cons.prems show ?thesis
      by (subst strcmp.simps) auto
  next
    case C: (Cons y zs)
    show ?thesis
    proof (cases "x = y")
      case True
      with Cons.IH [of "Suc s1" "Suc s2" zs] Cons.prems C show ?thesis
        by (subst strcmp.simps) simp
    next
      case False
      with Cons.prems C show ?thesis
        by (subst strcmp.simps) auto
    qed
  qed
qed

text \<open>
  \<open>strcmp\<close> of two strings returns; the result is zero exactly when they are equal and negative
  exactly when the first comes before the second in the lexicographic order of unsigned bytes.
\<close>

lemma strcmp_correct:
  assumes "cstr m s1 xs" "cstr m s2 ys"
  shows "\<exists>d. strcmp m s1 s2 = Some d \<and> (d = 0 \<longleftrightarrow> xs = ys) \<and> (d < 0 \<longleftrightarrow> (xs, ys) \<in> lexord {(x, y). x < y})"
  by (rule strcmp_cstr [OF assms])

subsection \<open>Block moves\<close>

lemma copy_up_spec:
  "\<not> (s < d \<and> d < s + n) \<Longrightarrow> copy_up m d s n a = (if d \<le> a \<and> a < d + n then m (s + (a - d)) else m a)"
proof (induction n arbitrary: m d s)
  case (Suc n)
  have "copy_up (m(d := m s)) (d + 1) (s + 1) n a
      = (if d + 1 \<le> a \<and> a < d + 1 + n then (m(d := m s)) (s + 1 + (a - (d + 1))) else (m(d := m s)) a)"
    by (rule Suc.IH) (use Suc.prems in auto)
  moreover have "s + 1 + (a - (d + 1)) = s + (a - d)" if "d + 1 \<le> a" using that by simp
  ultimately show ?case using Suc.prems by auto
qed auto

lemma copy_down_spec:
  "s < d \<Longrightarrow> copy_down m (d + n) (s + n) n a = (if d \<le> a \<and> a < d + n then m (s + (a - d)) else m a)"
proof (induction n arbitrary: m)
  case (Suc n)
  let ?m = "m(d + n := m (s + n))"
  have "copy_down m (d + Suc n) (s + Suc n) (Suc n) a = copy_down ?m (d + n) (s + n) n a" by simp
  also have "\<dots> = (if d \<le> a \<and> a < d + n then ?m (s + (a - d)) else ?m a)" by (rule Suc.IH [OF Suc.prems])
  finally show ?case using Suc.prems by auto
qed auto

text \<open>
  C22: \<open>memmove\<close> copies correctly for every overlap of source and destination: afterwards the
  destination holds the bytes the source held before, and no other byte has changed.
\<close>

theorem memmove_correct:
  "memmove m dst src n a = (if dst \<le> a \<and> a < dst + n then m (src + (a - dst)) else m a)"
  using copy_down_spec [of src dst m n a] copy_up_spec [of src dst n m a] by (auto simp: memmove_def)

lemma memset_spec: "memset m p c n a = (if p \<le> a \<and> a < p + n then c else m a)"
  by (induction n arbitrary: m p) auto

lemma memcmp_zero: "memcmp m a b n = 0 \<longleftrightarrow> (\<forall>i<n. m (a + i) = m (b + i))"
proof (induction n arbitrary: a b)
  case (Suc n)
  have "(\<forall>i<Suc n. m (a + i) = m (b + i)) \<longleftrightarrow> m a = m b \<and> (\<forall>i<n. m (a + 1 + i) = m (b + 1 + i))"
    by (auto simp: All_less_Suc2)
  with Suc.IH [of "a + 1" "b + 1"] show ?case by simp
qed simp

subsection \<open>Numbers\<close>

text \<open>The digit \<open>"0123456789abcdef"[d]\<close>, and what \<open>strtol\<close> reads of a sequence of digits.\<close>

definition digit_char :: "nat \<Rightarrow> u8" where
  "digit_char d = (if d < 10 then 48 + word_of_nat d else 87 + word_of_nat d)"

lemma digit_of_char: "d < 16 \<Longrightarrow> digit_of (digit_char d) = Some (int d)"
proof -
  assume "d < 16"
  then have "d = 0 \<or> d = 1 \<or> d = 2 \<or> d = 3 \<or> d = 4 \<or> d = 5 \<or> d = 6 \<or> d = 7
    \<or> d = 8 \<or> d = 9 \<or> d = 10 \<or> d = 11 \<or> d = 12 \<or> d = 13 \<or> d = 14 \<or> d = 15" by arith
  then show ?thesis by (elim disjE; hypsubst; code_simp)
qed

lemma digit_char_nonzero: "d < 16 \<Longrightarrow> digit_char d \<noteq> 0"
  using digit_of_char [of d] by (auto simp: digit_of_def)

lemma strtol_digits_spec:
  assumes "cstr m s (map digit_char ds)" "\<forall>d \<in> set ds. int d < base \<and> d < 16"
  shows "strtol_digits m s base v = Some (s + length ds, foldl (\<lambda>v d. v * word_of_int base + word_of_nat d) v ds)"
  using assms
proof (induction ds arbitrary: s v)
  case Nil
  then have "digit_of (m s) = None" by (simp add: digit_of_def)
  then show ?case by (subst strtol_digits.simps) simp
next
  case (Cons d ds)
  have "digit_of (m s) = Some (int d)" using Cons.prems digit_of_char [of d] by simp
  with Cons.IH [of "Suc s"] Cons.prems show ?case
    by (subst strtol_digits.simps) simp
qed

end
