(* ===== verification/Printf.thy ===== *)
theory Printf
  imports CString "HOL-Library.Infinite_Set"
begin

text \<open>
  Formatted output, \<open>libs/printfmt.c\<close>. The output function \<open>putch\<close> acts on an abstract state, whose
  current byte memory \<open>rd\<close> gives (a \<open>%s\<close> argument is read from it). The format is the list of its
  bytes without the terminating zero; the variable arguments are the 64-bit slots \<open>args\<close>, consumed
  from \<open>ap\<close> on. Widths and precisions are integers (their overflow is not modelled).
\<close>

text \<open>\<open>printnum\<close>: the recursion prints the leading digits first; the innermost call pads.\<close>

function pad_before :: "(u8 \<Rightarrow> 's \<Rightarrow> 's) \<Rightarrow> int \<Rightarrow> u8 \<Rightarrow> 's \<Rightarrow> 's" where
  "pad_before putch width padc st =
     (let width = width - 1 in if width > 0 then pad_before putch width padc (putch padc st) else st)"
  by pat_completeness auto
termination by (relation "measure (\<lambda>(putch, width, padc, st). nat width)") auto

declare pad_before.simps [simp del]

partial_function (option) printnum :: "(u8 \<Rightarrow> 's \<Rightarrow> 's) \<Rightarrow> nat \<Rightarrow> nat \<Rightarrow> int \<Rightarrow> u8 \<Rightarrow> 's \<Rightarrow> 's option" where
  "printnum putch num base width padc st =
     (let result = num div base; r = num mod base in
      do {
        st \<leftarrow> (if num \<ge> base then printnum putch result base (width - 1) padc st
               else Some (pad_before putch width padc st));
        Some (putch (digit_char r) st)
      })"

definition getuint :: "u64 \<Rightarrow> nat \<Rightarrow> u64" where
  "getuint a lflag = (if lflag \<ge> 1 then a else ucast (ucast a :: u32))"

definition getint :: "u64 \<Rightarrow> nat \<Rightarrow> u64" where
  "getint a lflag = (if lflag \<ge> 1 then a else scast (ucast a :: u32))"

text \<open>\<open>va_arg(ap, int)\<close>\<close>

definition int_arg :: "u64 \<Rightarrow> int" where
  "int_arg a = sint (ucast a :: u32)"

text \<open>The width field: the loop of \<open>case '1' ... '9'\<close>.\<close>

fun read_width :: "int \<Rightarrow> u8 \<Rightarrow> u8 list \<Rightarrow> int \<times> u8 list" where
  "read_width p ch [] = (p * 10 + uint ch - 48, [])"
| "read_width p ch (c # fmt) =
     (let p = p * 10 + uint ch - 48 in if c < 48 \<or> c > 57 then (p, c # fmt) else read_width p c fmt)"

lemma read_width_length [termination_simp]: "(p, rest) = read_width x ch fmt \<Longrightarrow> length rest \<le> length fmt"
  by (induction x ch fmt rule: read_width.induct) (auto simp: Let_def split: if_splits)

text \<open>The conversion directive after a \<open>%\<close>: the loop around \<open>reswitch\<close>, up to the conversion character.\<close>

record directive =
  d_ap :: nat
  padc :: u8
  width :: int
  precision :: int
  lflag :: nat
  altflag :: bool

definition process_precision :: "directive \<Rightarrow> directive" where
  "process_precision d = (if width d < 0 then d\<lparr>width := precision d, precision := - 1\<rparr> else d)"

function scan :: "(nat \<Rightarrow> u64) \<Rightarrow> u8 list \<Rightarrow> directive \<Rightarrow> u8 \<times> u8 list \<times> directive" where
  "scan args [] d = (0, [], d)"
| "scan args (ch # fmt) d =
     (if ch = 45 then scan args fmt (d\<lparr>padc := 45\<rparr>)
      else if ch = 48 then scan args fmt (d\<lparr>padc := 48\<rparr>)
      else if 49 \<le> ch \<and> ch \<le> 57 then
        (case read_width 0 ch fmt of (p, rest) \<Rightarrow> scan args rest (process_precision (d\<lparr>precision := p\<rparr>)))
      else if ch = 42 then
        scan args fmt (process_precision (d\<lparr>precision := int_arg (args (d_ap d)), d_ap := d_ap d + 1\<rparr>))
      else if ch = 46 then scan args fmt (if width d < 0 then d\<lparr>width := 0\<rparr> else d)
      else if ch = 35 then scan args fmt (d\<lparr>altflag := True\<rparr>)
      else if ch = 108 then scan args fmt (d\<lparr>lflag := lflag d + 1\<rparr>)
      else (ch, fmt, d))"
  by pat_completeness auto
termination by (relation "measure (\<lambda>(args, fmt, d). length fmt)") (auto dest: read_width_length simp: less_Suc_eq_le)

text \<open>The body of \<open>case 's'\<close>; a string is a memory and an address in it.\<close>

function pad_while :: "(u8 \<Rightarrow> 's \<Rightarrow> 's) \<Rightarrow> u8 \<Rightarrow> int \<Rightarrow> 's \<Rightarrow> 's \<times> int" where
  "pad_while putch c w st = (if w > 0 then pad_while putch c (w - 1) (putch c st) else (st, w))"
  by pat_completeness auto
termination by (relation "measure (\<lambda>(putch, c, w, st). nat w)") auto

declare pad_while.simps [simp del]

partial_function (option) str_loop ::
  "(u8 \<Rightarrow> 's \<Rightarrow> 's) \<Rightarrow> ('s \<Rightarrow> mem) \<Rightarrow> nat \<Rightarrow> int \<Rightarrow> int \<Rightarrow> bool \<Rightarrow> 's \<Rightarrow> ('s \<times> int) option" where
  "str_loop putch rd p prec w alt st =
     (let ch = rd st p in
      if ch \<noteq> 0 \<and> (prec < 0 \<or> prec - 1 \<ge> 0) then
        str_loop putch rd (p + 1) (if prec < 0 then prec else prec - 1) (w - 1) alt
          (putch (if alt \<and> (ch < 32 \<or> ch > 126) then 63 else ch) st)
      else Some (st, w))"

definition size_of_int :: "int \<Rightarrow> nat" where
  "size_of_int i = nat (i mod 2 ^ 64)"

definition print_str :: "(u8 \<Rightarrow> 's \<Rightarrow> 's) \<Rightarrow> ('s \<Rightarrow> mem) \<Rightarrow> nat \<Rightarrow> directive \<Rightarrow> 's \<Rightarrow> 's option" where
  "print_str putch rd p d st =
     do {
       let (st, w) = (if width d > 0 \<and> padc d \<noteq> 45
                      then pad_while putch (padc d) (width d - int (strnlen (rd st) p (size_of_int (precision d)))) st
                      else (st, width d));
       (st, w) \<leftarrow> str_loop putch rd p (precision d) w (altflag d) st;
       Some (fst (pad_while putch 32 w st))
     }"

text \<open>String literals and the table \<open>error_string\<close>, as lists of bytes.\<close>

definition lit_mem :: "u8 list \<Rightarrow> mem" where
  "lit_mem xs = (\<lambda>i. if i < length xs then xs ! i else 0)"

definition bytes :: "string \<Rightarrow> u8 list" where
  "bytes cs = map (\<lambda>c. of_char c) cs"

definition error_string :: "int \<Rightarrow> string option" where
  "error_string err =
     map_of [(1, ''unspecified error''), (2, ''bad process''), (3, ''invalid parameter''), (4, ''out of memory''),
       (5, ''out of processes''), (6, ''segmentation fault''), (8, ''invalid elf file''), (9, ''process is killed''),
       (10, ''panic failure''), (13, ''no such device''), (14, ''device not available''), (15, ''device/file is busy''),
       (16, ''no such file or directory''), (17, ''is a directory''), (18, ''not a directory''), (19, ''cross device link''),
       (20, ''unimplemented feature''), (21, ''illegal seek''), (22, ''too many files are open''),
       (23, ''file or directory already exists''), (24, ''directory is not empty'')] err"

definition MAXERROR :: int where "MAXERROR = 24"

definition blank_directive :: "nat \<Rightarrow> directive" where
  "blank_directive ap = \<lparr>d_ap = ap, padc = 32, width = - 1, precision = - 1, lflag = 0, altflag = False\<rparr>"

text \<open>
  \<open>case 'e'\<close>: \<open>printfmt(putch, fd, putdat, "error %d", err)\<close> for a code without a message, with the
  format expanded, and \<open>printfmt(putch, fd, putdat, "%s", p)\<close> otherwise.
\<close>

definition print_err :: "(u8 \<Rightarrow> 's \<Rightarrow> 's) \<Rightarrow> u64 \<Rightarrow> 's \<Rightarrow> 's option" where
  "print_err putch a st =
     (let err = (if int_arg a < 0 then - int_arg a else int_arg a) in
      case (if err > MAXERROR then None else error_string err) of
        None \<Rightarrow> printnum putch (nat err) 10 (- 1) 32 (fold putch (bytes ''error '') st)
      | Some p \<Rightarrow> print_str putch (\<lambda>_. lit_mem (bytes p)) 0 (blank_directive 0) st)"

lemma scan_length: "scan args fmt d = (ch, rest, d') \<Longrightarrow> length rest \<le> length fmt"
proof (induction "length fmt" arbitrary: fmt d rule: less_induct)
  case less
  show ?case
  proof (cases fmt)
    case Nil
    with less.prems show ?thesis by simp
  next
    case (Cons c f)
    have step: "length rest \<le> length fmt" if "scan args r e = (ch, rest, d')" "length r \<le> length f" for r e
      using less.hyps [OF _ that(1)] that(2) Cons by simp
    have width: "length (snd (read_width 0 c f)) \<le> length f"
      by (rule read_width_length [OF prod.collapse])
    show ?thesis
      using less.prems unfolding Cons scan.simps case_prod_beta
      by (simp only: split: if_split_asm)
        (simp_all only: prod.inject, (metis Cons step width order_refl le_SucI length_Cons)+)
  qed
qed

text \<open>
  One conversion, the \<open>switch\<close> on the conversion character \<open>ch\<close>: the new output state and the new
  argument position; the inner \<open>None\<close> is the \<open>default\<close> case.
\<close>

definition convert ::
  "(u8 \<Rightarrow> 's \<Rightarrow> 's) \<Rightarrow> ('s \<Rightarrow> mem) \<Rightarrow> (nat \<Rightarrow> u64) \<Rightarrow> u8 \<Rightarrow> directive \<Rightarrow> 's \<Rightarrow> ('s \<times> nat) option option" where
  "convert putch rd args ch d st =
     (let a = args (d_ap d);
          done = map_option (\<lambda>st. Some (st, d_ap d + 1))
      in
      if ch = 99 then Some (Some (putch (ucast a) st, d_ap d + 1))
      else if ch = 101 then done (print_err putch a st)
      else if ch = 115 then
        done (if a = 0 then print_str putch (\<lambda>_. lit_mem (bytes ''(null)'')) 0 d st
              else print_str putch rd (unat a) d st)
      else if ch = 100 then
        (let num = getint a (lflag d)
         in done (if sint num < 0 then printnum putch (unat (- num)) 10 (width d) (padc d) (putch 45 st)
                  else printnum putch (unat num) 10 (width d) (padc d) st))
      else if ch = 117 then done (printnum putch (unat (getuint a (lflag d))) 10 (width d) (padc d) st)
      else if ch = 111 then done (printnum putch (unat (getuint a (lflag d))) 8 (width d) (padc d) st)
      else if ch = 112 then done (printnum putch (unat a) 16 (width d) (padc d) (putch 120 (putch 48 st)))
      else if ch = 120 then done (printnum putch (unat (getuint a (lflag d))) 16 (width d) (padc d) st)
      else if ch = 37 then Some (Some (putch ch st, d_ap d))
      else Some None)"

text \<open>
  The main loop. The \<open>default\<close> case prints the \<open>%\<close> and resumes right after it. A \<open>%\<close> at the end of
  the format is such a case too.
\<close>

function vprintfmt ::
  "(u8 \<Rightarrow> 's \<Rightarrow> 's) \<Rightarrow> ('s \<Rightarrow> mem) \<Rightarrow> (nat \<Rightarrow> u64) \<Rightarrow> u8 list \<Rightarrow> 's \<Rightarrow> nat \<Rightarrow> 's option" where
  "vprintfmt putch rd args [] st ap = Some st"
| "vprintfmt putch rd args (ch # fmt) st ap =
     (if ch \<noteq> 37 then vprintfmt putch rd args fmt (putch ch st) ap
      else (case scan args fmt (blank_directive ap) of
        (ch, rest, d) \<Rightarrow>
          (case convert putch rd args ch d st of
            None \<Rightarrow> None
          | Some (Some (st, ap)) \<Rightarrow> vprintfmt putch rd args rest st ap
          | Some None \<Rightarrow> vprintfmt putch rd args fmt (putch 37 st) (d_ap d))))"
  by pat_completeness auto
termination
  by (relation "measure (\<lambda>(putch, rd, args, fmt, st, ap). length fmt)")
    (auto dest!: scan_length [OF sym] simp: less_Suc_eq_le)

text \<open>\<open>vsnprintf\<close>: characters go into the buffer while there is room and are counted in any case.\<close>

record sprintbuf =
  sp_mem :: mem
  sp_buf :: nat
  sp_ebuf :: nat
  sp_cnt :: int

definition sprintputch :: "u8 \<Rightarrow> sprintbuf \<Rightarrow> sprintbuf" where
  "sprintputch ch b =
     (let b = b\<lparr>sp_cnt := sp_cnt b + 1\<rparr>
      in if sp_buf b < sp_ebuf b then b\<lparr>sp_mem := (sp_mem b)(sp_buf b := ch), sp_buf := sp_buf b + 1\<rparr> else b)"

definition vsnprintf :: "mem \<Rightarrow> nat \<Rightarrow> nat \<Rightarrow> u8 list \<Rightarrow> (nat \<Rightarrow> u64) \<Rightarrow> ((err + int) \<times> mem) option" where
  "vsnprintf m str sz fmt args =
     (if str = 0 \<or> sz = 0 then Some (Inl E_INVAL, m)
      else do {
        b \<leftarrow> vprintfmt sprintputch sp_mem args fmt \<lparr>sp_mem = m, sp_buf = str, sp_ebuf = str + sz - 1, sp_cnt = 0\<rparr> 0;
        Some (Inr (sp_cnt b), (sp_mem b)(sp_buf b := 0))
      })"

subsection \<open>Numbers\<close>

fun digits :: "nat \<Rightarrow> nat \<Rightarrow> nat list" where
  "digits base n = (if n < base \<or> base < 2 then [n] else digits base (n div base) @ [n mod base])"

declare digits.simps [simp del]

lemma pad_before_spec: "pad_before putch w c st = (putch c ^^ nat (w - 1)) st"
proof (induction putch w c st rule: pad_before.induct)
  case (1 putch w c st)
  show ?case
  proof (cases "w - 1 > 0")
    case True
    then have "nat (w - 1) = Suc (nat (w - 1 - 1))" by simp
    with 1 True show ?thesis
      by (simp add: pad_before.simps [of putch w] Let_def funpow_Suc_right del: funpow.simps)
  qed (simp add: pad_before.simps [of putch w])
qed

lemma printnum_spec:
  assumes "2 \<le> base"
  shows "printnum putch n base w c st = Some (fold putch
    (replicate (nat (w - int (length (digits base n)))) c @ map digit_char (digits base n)) st)"
proof (induction n arbitrary: w rule: less_induct)
  case (less n)
  show ?case
  proof (cases "n < base")
    case True
    then show ?thesis
      by (subst printnum.simps) (simp add: digits.simps [of base n] pad_before_spec Let_def)
  next
    case False
    then have "n div base < n" using assms by simp
    from less.IH [OF this, of "w - 1"] False assms show ?thesis
      by (subst printnum.simps) (simp add: digits.simps [of base n] Let_def algebra_simps)
  qed
qed

lemma digits_value: "2 \<le> base \<Longrightarrow> foldl (\<lambda>v d. v * base + d) 0 (digits base n) = n"
proof (induction n rule: less_induct)
  case (less n)
  show ?case
  proof (cases "n < base")
    case False
    then have "n div base < n" using less.prems by simp
    from less.IH [OF this less.prems] False less.prems show ?thesis
      by (simp add: digits.simps [of base n])
  qed (simp add: digits.simps [of base n])
qed

lemma digits_less: "2 \<le> base \<Longrightarrow> d \<in> set (digits base n) \<Longrightarrow> d < base"
proof (induction n rule: less_induct)
  case (less n)
  show ?case
  proof (cases "n < base")
    case True
    with less.prems show ?thesis by (simp add: digits.simps [of base n])
  next
    case False
    then have "n div base < n" using less.prems by simp
    from less.IH [OF this] False less.prems show ?thesis
      by (auto simp: digits.simps [of base n])
  qed
qed

lemma digits_nonempty: "digits base n \<noteq> []"
  by (simp add: digits.simps [of base n])

subsection \<open>Output functions that keep an invariant\<close>

text \<open>
  The contract between \<open>vprintfmt\<close> and its output function: \<open>putch\<close> keeps an invariant of the
  state, under which every string that a \<open>%s\<close> may read ends.
\<close>

locale char_output =
  fixes putch :: "u8 \<Rightarrow> 's \<Rightarrow> 's" and rd :: "'s \<Rightarrow> mem" and inv :: "'s \<Rightarrow> bool"
  assumes putch_inv: "inv st \<Longrightarrow> inv (putch c st)"
    and strings_end: "\<exists>z\<ge>p. \<forall>st. inv st \<longrightarrow> rd st z = 0"

context char_output begin

lemma fold_inv: "inv st \<Longrightarrow> inv (fold putch cs st)"
  by (induction cs arbitrary: st) (simp_all add: putch_inv)

lemma printnum_inv: "2 \<le> base \<Longrightarrow> inv st \<Longrightarrow> \<exists>st'. printnum putch n base w c st = Some st' \<and> inv st'"
  using fold_inv by (simp only: printnum_spec option.inject) blast

lemma pad_while_inv: "inv st \<Longrightarrow> inv (fst (pad_while putch c w st))"
  by (induction "nat w" arbitrary: w st) (subst pad_while.simps; simp add: putch_inv)+

lemma str_loop_inv:
  assumes "p \<le> z" "\<And>st. inv st \<Longrightarrow> rd' st z = 0" "inv st"
  shows "\<exists>st' w'. str_loop putch rd' p prec w alt st = Some (st', w') \<and> inv st'"
  using assms
proof (induction "z - p" arbitrary: p prec w st)
  case 0
  then show ?case by (subst str_loop.simps) simp
next
  case (Suc k)
  from Suc.hyps(1) [of "p + 1"] Suc.hyps(2) Suc.prems show ?case
    by (subst str_loop.simps) (simp add: Let_def putch_inv)
qed

lemma print_str_inv:
  assumes "p \<le> z" "\<And>st. inv st \<Longrightarrow> rd' st z = 0" "inv st"
  shows "\<exists>st'. print_str putch rd' p d st = Some st' \<and> inv st'"
proof -
  define s where "s = (if width d > 0 \<and> padc d \<noteq> 45
    then pad_while putch (padc d) (width d - int (strnlen (rd' st) p (size_of_int (precision d)))) st
    else (st, width d))"
  have "inv (fst s)" unfolding s_def using pad_while_inv assms(3) by simp
  from str_loop_inv [of p z rd', OF assms(1,2) this, of "precision d" "snd s" "altflag d"]
  obtain st' w' where "str_loop putch rd' p (precision d) (snd s) (altflag d) (fst s) = Some (st', w')" "inv st'"
    by blast
  then show ?thesis
    by (simp add: print_str_def s_def [symmetric] case_prod_beta pad_while_inv)
qed

lemma print_lit_inv: "inv st \<Longrightarrow> \<exists>st'. print_str putch (\<lambda>_. lit_mem xs) 0 d st = Some st' \<and> inv st'"
  by (rule print_str_inv [of 0 "length xs"]) (simp_all add: lit_mem_def)

lemma print_err_inv: "inv st \<Longrightarrow> \<exists>st'. print_err putch a st = Some st' \<and> inv st'"
  unfolding print_err_def Let_def
  by (auto split: option.splits intro!: printnum_inv print_lit_inv fold_inv)

lemma print_arg_inv: "inv st \<Longrightarrow> \<exists>st'. print_str putch rd p d st = Some st' \<and> inv st'"
  using strings_end [of p] print_str_inv [of p _ rd] by blast

lemma convert_inv:
  assumes "inv st"
  shows "(\<exists>st' ap. convert putch rd args ch d st = Some (Some (st', ap)) \<and> inv st')
    \<or> convert putch rd args ch d st = Some None"
proof -
  have *: "(\<exists>st' ap. map_option (\<lambda>st. Some (st, k)) x = Some (Some (st', ap)) \<and> inv st')
      \<or> map_option (\<lambda>st. Some (st, k)) x = Some None"
    if "\<exists>st'. x = Some st' \<and> inv st'" for x and k :: nat
    using that by auto
  show ?thesis
    unfolding convert_def Let_def
    using assms by (auto intro!: * print_err_inv print_lit_inv print_arg_inv printnum_inv putch_inv)
qed

lemma vprintfmt_inv: "inv st \<Longrightarrow> \<exists>st'. vprintfmt putch rd args fmt st ap = Some st' \<and> inv st'"
proof (induction "length fmt" arbitrary: fmt st ap rule: less_induct)
  case less
  show ?case
  proof (cases fmt)
    case Nil
    with less.prems show ?thesis by simp
  next
    case (Cons ch f)
    obtain c rest d where sc: "scan args f (blank_directive ap) = (c, rest, d)" by (metis prod_cases3)
    have len: "length rest < length fmt" "length f < length fmt"
      using scan_length [OF sc] Cons by simp_all
    show ?thesis
      using convert_inv [OF less.prems, of args c d] less.hyps [OF len(1)] less.hyps [OF len(2)] less.prems Cons
      by (auto simp: sc putch_inv)
  qed
qed

end

subsection \<open>The buffer of \<open>vsnprintf\<close>\<close>

definition sp_inv :: "mem \<Rightarrow> nat \<Rightarrow> nat \<Rightarrow> sprintbuf \<Rightarrow> bool" where
  "sp_inv m str sz b \<longleftrightarrow>
     infinite {q. m q = 0} \<and> 0 < sz \<and> sp_ebuf b = str + sz - 1 \<and> 0 \<le> sp_cnt b
     \<and> sp_buf b = str + min (nat (sp_cnt b)) (sz - 1)
     \<and> (\<forall>i. i < str \<or> str + sz - 1 \<le> i \<longrightarrow> sp_mem b i = m i)"

lemma sprintputch_inv: "sp_inv m str sz b \<Longrightarrow> sp_inv m str sz (sprintputch c b)"
  unfolding sp_inv_def sprintputch_def Let_def by (auto simp: nat_add_distrib min_def split: if_splits)

interpretation sprint: char_output sprintputch sp_mem "sp_inv m str sz" for m str sz
proof
  show "\<exists>z\<ge>p. \<forall>st. sp_inv m str sz st \<longrightarrow> sp_mem st z = 0" for p
  proof (cases "infinite {q. m q = 0}")
    case True
    then obtain z where "z \<in> {q. m q = 0}" "max p (str + sz) \<le> z"
      by (metis infinite_nat_iff_unbounded_le)
    then show ?thesis
      by (intro exI [of _ z]) (auto simp: sp_inv_def)
  qed (auto simp: sp_inv_def)
qed (rule sprintputch_inv)

lemma vsnprintf_inv:
  assumes "infinite {q. m q = 0}" "0 < str" "0 < sz"
  shows "\<exists>b. vsnprintf m str sz fmt args = Some (Inr (sp_cnt b), (sp_mem b)(sp_buf b := 0)) \<and> sp_inv m str sz b"
proof -
  have "sp_inv m str sz \<lparr>sp_mem = m, sp_buf = str, sp_ebuf = str + sz - 1, sp_cnt = 0\<rparr>"
    using assms by (simp add: sp_inv_def)
  from sprint.vprintfmt_inv [OF this, of args fmt 0] assms show ?thesis
    by (auto simp: vsnprintf_def)
qed

text \<open>
  C23: \<open>vsnprintf\<close> always returns, whatever the format and the arguments (strings end somewhere in
  memory); it returns the number of characters it would have printed, writes only inside the buffer of
  \<open>sz\<close> bytes and ends it with a zero, after the last character or in the last byte.
\<close>

theorem vsnprintf_bounds:
  assumes "infinite {q. m q = 0}" "0 < str" "0 < sz"
  shows "\<exists>cnt m'. vsnprintf m str sz fmt args = Some (Inr cnt, m') \<and> 0 \<le> cnt
    \<and> (\<forall>i. i < str \<or> str + sz \<le> i \<longrightarrow> m' i = m i)
    \<and> m' (str + min (nat cnt) (sz - 1)) = 0"
proof -
  obtain b where b: "vsnprintf m str sz fmt args = Some (Inr (sp_cnt b), (sp_mem b)(sp_buf b := 0))"
    "sp_inv m str sz b"
    using vsnprintf_inv [OF assms] by blast
  then have "sp_buf b = str + min (nat (sp_cnt b)) (sz - 1)" "0 \<le> sp_cnt b"
    "\<And>i. i < str \<or> str + sz \<le> i \<Longrightarrow> sp_mem b i = m i"
    by (auto simp: sp_inv_def)
  moreover have "sp_buf b < str + sz" "str \<le> sp_buf b"
    using calculation(1) assms(3) by auto
  ultimately show ?thesis
    using b(1) by (intro exI [of _ "sp_cnt b"] exI [of _ "(sp_mem b)(sp_buf b := 0)"]) auto
qed

theorem vsnprintf_bounds_witness:
  "\<exists>cnt m'. vsnprintf (\<lambda>_. 0) 16 4 (bytes ''%s=%5d'') (\<lambda>_. 7) = Some (Inr cnt, m') \<and> 0 \<le> cnt
    \<and> (\<forall>i. i < 16 \<or> 16 + 4 \<le> i \<longrightarrow> m' i = 0) \<and> m' (16 + min (nat cnt) (4 - 1)) = 0"
  using vsnprintf_bounds [of "\<lambda>_. 0" 16 4 "bytes ''%s=%5d''" "\<lambda>_. 7"] by simp

text \<open>Text that fits is stored as a string.\<close>

lemma fold_sprintputch:
  assumes "sp_buf b + length cs \<le> sp_ebuf b" "0 \<notin> set cs"
  shows "\<exists>b'. fold sprintputch cs b = b' \<and> sp_buf b' = sp_buf b + length cs \<and> sp_cnt b' = sp_cnt b + int (length cs)
    \<and> cstr ((sp_mem b')(sp_buf b' := 0)) (sp_buf b) cs \<and> (\<forall>a < sp_buf b. sp_mem b' a = sp_mem b a)"
  using assms
proof (induction cs arbitrary: b)
  case (Cons c cs)
  let ?b = "sprintputch c b"
  have b: "sp_buf ?b = Suc (sp_buf b)" "sp_ebuf ?b = sp_ebuf b" "sp_cnt ?b = sp_cnt b + 1"
    "sp_mem ?b = (sp_mem b)(sp_buf b := c)"
    using Cons.prems by (simp_all add: sprintputch_def Let_def)
  from Cons.IH [of ?b] b Cons.prems show ?case by auto
qed simp

lemma digits_char_nonzero: "c \<in> set (map digit_char (digits 10 n)) \<Longrightarrow> c \<noteq> 0 \<and> c \<noteq> 32 \<and> c \<noteq> 9 \<and> c \<noteq> 43 \<and> c \<noteq> 45"
proof -
  assume "c \<in> set (map digit_char (digits 10 n))"
  then obtain d where "c = digit_char d" "d < 10" using digits_less [of 10 _ n] by auto
  then have "digit_of c \<noteq> None" using digit_of_char [of d] by simp
  then show ?thesis by (auto simp: digit_of_def)
qed

lemma foldl_word: "foldl (\<lambda>v d. v * 10 + word_of_nat d) (word_of_nat v) ds
    = (word_of_nat (foldl (\<lambda>v d. v * 10 + d) v ds) :: u64)"
proof (induction ds arbitrary: v)
  case (Cons d ds)
  have e: "word_of_nat v * 10 + word_of_nat d = (word_of_nat (v * 10 + d) :: u64)" by simp
  show ?case unfolding foldl_Cons e by (rule Cons.IH)
qed simp

lemma strtol_number:
  assumes "cstr m s ((if neg then [45] else []) @ map digit_char (digits 10 n))"
  shows "strtol m s 10 = Some (if neg then - word_of_nat n else word_of_nat n,
    s + (if neg then 1 else 0) + length (digits 10 n))"
proof -
  let ?ds = "digits 10 n"
  have skip: "skip_space m s = Some s" if "m s \<noteq> 32" "m s \<noteq> 9" for s
    using that by (subst skip_space.simps) simp
  have val: "strtol_digits m t 10 0 = Some (t + length ?ds, word_of_nat n)" if "cstr m t (map digit_char ?ds)" for t
  proof -
    have "\<forall>d \<in> set ?ds. int d < 10 \<and> d < 16" using digits_less [of 10 _ n] by fastforce
    from strtol_digits_spec [OF that this, of 0] foldl_word [of 0 ?ds] digits_value [of 10 n]
    show ?thesis by simp
  qed
  show ?thesis
  proof (cases neg)
    case True
    then have "m s = 45" "cstr m (s + 1) (map digit_char ?ds)" using assms by simp_all
    then show ?thesis using True val [of "s + 1"] skip [of s] by (simp add: strtol_def)
  next
    case False
    obtain c cs where c: "map digit_char ?ds = c # cs" using digits_nonempty [of 10 n] by (cases ?ds) auto
    then have ms: "m s = c" using False assms by simp
    have "c \<noteq> 32 \<and> c \<noteq> 9 \<and> c \<noteq> 43 \<and> c \<noteq> 45" using digits_char_nonzero [of c n] c by simp
    then show ?thesis using False assms ms val [of s] skip [of s] by (simp add: strtol_def)
  qed
qed

text \<open>
  C24: Printing a 64-bit integer with \<open>%ld\<close> into a buffer with enough room and reading the buffer back
  with \<open>strtol\<close> in base 10 gives the same integer, and \<open>strtol\<close> stops at the terminating zero.
\<close>

theorem snprintf_strtol_roundtrip:
  assumes "0 < str" "length (digits 10 (unat (if sint n < 0 then - n else n))) + 1 < sz" "args 0 = (n :: u64)"
  shows "\<exists>cnt m' e. vsnprintf m str sz (bytes ''%ld'') args = Some (Inr cnt, m') \<and> strtol m' str 10 = Some (n, e)
    \<and> e = str + nat cnt \<and> m' e = 0"
proof -
  define neg where "neg = (sint n < 0)"
  define k where "k = unat (if neg then - n else n)"
  define cs where "cs = (if neg then [45] else []) @ map digit_char (digits 10 k)"
  let ?b = "\<lparr>sp_mem = m, sp_buf = str, sp_ebuf = str + sz - 1, sp_cnt = 0\<rparr>"
  have sc: "scan args [108, 100] (blank_directive 0) = (100, [], (blank_directive 0)\<lparr>lflag := 1\<rparr>)"
    by (simp add: blank_directive_def)
  have pr: "vprintfmt sprintputch sp_mem args [37, 108, 100] ?b 0 = Some (fold sprintputch cs ?b)"
    using assms(3) by (simp add: sc convert_def blank_directive_def getint_def printnum_spec cs_def k_def neg_def)
  have "0 \<notin> set cs" unfolding cs_def using digits_char_nonzero [of 0 k] by auto
  moreover have "str + length cs \<le> str + sz - 1" using assms(1,2) by (auto simp: cs_def k_def neg_def)
  ultimately obtain b' where b': "fold sprintputch cs ?b = b'" "sp_buf b' = str + length cs" "sp_cnt b' = int (length cs)"
    "cstr ((sp_mem b')(sp_buf b' := 0)) str cs"
    using fold_sprintputch [of ?b cs] by auto
  have "strtol ((sp_mem b')(sp_buf b' := 0)) str 10 = Some (n, str + length cs)"
    using strtol_number [of _ str neg k] b'(4) by (simp add: cs_def k_def)
  moreover have "bytes ''%ld'' = [37, 108, 100]" by (simp add: bytes_def)
  moreover have "sz \<noteq> 0" using assms(2) by simp
  ultimately show ?thesis
    using assms(1) pr b' by (simp add: vsnprintf_def)
qed

theorem snprintf_strtol_roundtrip_witness:
  "\<exists>cnt m' e. vsnprintf (\<lambda>_. 255) 16 8 (bytes ''%ld'') (\<lambda>_. - 42) = Some (Inr cnt, m') \<and> strtol m' 16 10 = Some (- 42, e)
    \<and> e = 16 + nat cnt \<and> m' e = 0"
  using snprintf_strtol_roundtrip [of 16 "- 42" 8 "\<lambda>_. - 42" "\<lambda>_. 255"] by (simp add: digits.simps)

end
