(* ===== verification/Sync.thy ===== *)
theory Sync
  imports Timers
begin

text \<open>
  Blocking: the wait queues of \<open>kern/sync/wait.c\<close>, the semaphores of \<open>kern/sync/sem.c\<close> and the
  monitors of \<open>kern/sync/monitor.c\<close>. A wait queue and the semaphore that contains it have the same
  identity, a natural number; a \<open>wait_t\<close> is one too, with its list node \<open>WaitLink w\<close>. Interrupts are
  disabled in every operation. An operation that sleeps is divided at the call of \<open>schedule\<close>: the first
  part ends with that call, the second part is what the process does once it runs again.
\<close>

unbundle bit_operations_syntax

datatype wnode = WaitHead nat | WaitLink nat

record wait_t =
  w_proc :: nat
  wakeup_flags :: u32
  w_queue :: nat

record sync =
  sched :: sstate
  waits :: "nat \<Rightarrow> wait_t"
  wlinks :: "wnode lheap"
  sem_value :: "nat \<Rightarrow> int"

definition upd_wait :: "nat \<Rightarrow> (wait_t \<Rightarrow> wait_t) \<Rightarrow> sync \<Rightarrow> sync" where
  "upd_wait w f s = s\<lparr>waits := (waits s)(w := f (waits s w))\<rparr>"

definition wait_init :: "sync \<Rightarrow> nat \<Rightarrow> nat \<Rightarrow> sync" where
  "wait_init s w p =
     (let s = upd_wait w (\<lambda>x. x\<lparr>w_proc := p, wakeup_flags := WT_INTERRUPTED\<rparr>) s
      in s\<lparr>wlinks := list_init (wlinks s) (WaitLink w)\<rparr>)"

definition wait_queue_init :: "sync \<Rightarrow> nat \<Rightarrow> sync" where
  "wait_queue_init s q = s\<lparr>wlinks := list_init (wlinks s) (WaitHead q)\<rparr>"

definition wait_queue_add :: "sync \<Rightarrow> nat \<Rightarrow> nat \<Rightarrow> sync option" where
  "wait_queue_add s q w =
     do {
       assert_that (list_empty (wlinks s) (WaitLink w));
       let s = upd_wait w (\<lambda>x. x\<lparr>w_queue := q\<rparr>) s;
       Some (s\<lparr>wlinks := list_add_before (wlinks s) (WaitHead q) (WaitLink w)\<rparr>)
     }"

definition wait_queue_del :: "sync \<Rightarrow> nat \<Rightarrow> nat \<Rightarrow> sync option" where
  "wait_queue_del s q w =
     do {
       assert_that (\<not> list_empty (wlinks s) (WaitLink w) \<and> w_queue (waits s w) = q);
       Some (s\<lparr>wlinks := list_del_init (wlinks s) (WaitLink w)\<rparr>)
     }"

text \<open>\<open>le2wait\<close>, with \<open>NULL\<close> for the head of the queue.\<close>

definition le2wait :: "wnode \<Rightarrow> nat option" where
  "le2wait le = (case le of WaitHead q \<Rightarrow> None | WaitLink w \<Rightarrow> Some w)"

definition wait_queue_next :: "sync \<Rightarrow> nat \<Rightarrow> nat \<Rightarrow> nat option option" where
  "wait_queue_next s q w =
     do {
       assert_that (\<not> list_empty (wlinks s) (WaitLink w) \<and> w_queue (waits s w) = q);
       Some (le2wait (list_next (wlinks s) (WaitLink w)))
     }"

definition wait_queue_prev :: "sync \<Rightarrow> nat \<Rightarrow> nat \<Rightarrow> nat option option" where
  "wait_queue_prev s q w =
     do {
       assert_that (\<not> list_empty (wlinks s) (WaitLink w) \<and> w_queue (waits s w) = q);
       Some (le2wait (list_prev (wlinks s) (WaitLink w)))
     }"

definition wait_queue_first :: "sync \<Rightarrow> nat \<Rightarrow> nat option" where
  "wait_queue_first s q = le2wait (list_next (wlinks s) (WaitHead q))"

definition wait_queue_last :: "sync \<Rightarrow> nat \<Rightarrow> nat option" where
  "wait_queue_last s q = le2wait (list_prev (wlinks s) (WaitHead q))"

definition wait_queue_empty :: "sync \<Rightarrow> nat \<Rightarrow> bool" where
  "wait_queue_empty s q = list_empty (wlinks s) (WaitHead q)"

definition wait_in_queue :: "sync \<Rightarrow> nat \<Rightarrow> bool" where
  "wait_in_queue s w = (\<not> list_empty (wlinks s) (WaitLink w))"

definition wakeup_wait :: "sched_class \<Rightarrow> sync \<Rightarrow> nat \<Rightarrow> nat \<Rightarrow> u32 \<Rightarrow> bool \<Rightarrow> sync option" where
  "wakeup_wait sc s q w flags del =
     do {
       s \<leftarrow> (if del then wait_queue_del s q w else Some s);
       let s = upd_wait w (\<lambda>x. x\<lparr>wakeup_flags := flags\<rparr>) s;
       sch \<leftarrow> wakeup_proc sc (sched s) (w_proc (waits s w));
       Some (s\<lparr>sched := sch\<rparr>)
     }"

definition wakeup_first :: "sched_class \<Rightarrow> sync \<Rightarrow> nat \<Rightarrow> u32 \<Rightarrow> bool \<Rightarrow> sync option" where
  "wakeup_first sc s q flags del =
     (case wait_queue_first s q of Some w \<Rightarrow> wakeup_wait sc s q w flags del | None \<Rightarrow> Some s)"

text \<open>The two loops of \<open>wakeup_queue\<close>, from the wait \<open>w\<close>.\<close>

partial_function (option) wakeup_queue_del_loop :: "sched_class \<Rightarrow> sync \<Rightarrow> nat \<Rightarrow> u32 \<Rightarrow> nat \<Rightarrow> sync option" where
  "wakeup_queue_del_loop sc s q flags w =
     do {
       s \<leftarrow> wakeup_wait sc s q w flags True;
       case wait_queue_first s q of Some w' \<Rightarrow> wakeup_queue_del_loop sc s q flags w' | None \<Rightarrow> Some s
     }"

partial_function (option) wakeup_queue_keep_loop :: "sched_class \<Rightarrow> sync \<Rightarrow> nat \<Rightarrow> u32 \<Rightarrow> nat \<Rightarrow> sync option" where
  "wakeup_queue_keep_loop sc s q flags w =
     do {
       s \<leftarrow> wakeup_wait sc s q w flags False;
       w' \<leftarrow> wait_queue_next s q w;
       case w' of Some w' \<Rightarrow> wakeup_queue_keep_loop sc s q flags w' | None \<Rightarrow> Some s
     }"

definition wakeup_queue :: "sched_class \<Rightarrow> sync \<Rightarrow> nat \<Rightarrow> u32 \<Rightarrow> bool \<Rightarrow> sync option" where
  "wakeup_queue sc s q flags del =
     (case wait_queue_first s q of
        Some w \<Rightarrow> if del then wakeup_queue_del_loop sc s q flags w else wakeup_queue_keep_loop sc s q flags w
      | None \<Rightarrow> Some s)"

definition wait_current_set :: "sync \<Rightarrow> nat \<Rightarrow> nat \<Rightarrow> u32 \<Rightarrow> sync option" where
  "wait_current_set s q w wstate =
     (let s = wait_init s w (current (sched s));
          s = s\<lparr>sched := upd_proc (current (sched s)) (\<lambda>p. p\<lparr>p_state := PROC_SLEEPING, p_wait_state := wstate\<rparr>) (sched s)\<rparr>
      in wait_queue_add s q w)"

definition wait_current_del :: "sync \<Rightarrow> nat \<Rightarrow> nat \<Rightarrow> sync option" where
  "wait_current_del s q w = (if wait_in_queue s w then wait_queue_del s q w else Some s)"

subsection \<open>Semaphores\<close>

definition sem_init :: "sync \<Rightarrow> nat \<Rightarrow> int \<Rightarrow> sync" where
  "sem_init s q value = wait_queue_init (s\<lparr>sem_value := (sem_value s)(q := value)\<rparr>) q"

text \<open>\<open>__up\<close> and \<open>__down\<close>; \<open>w\<close> is the \<open>wait_t\<close> on the caller's stack.\<close>

definition sem_up :: "sched_class \<Rightarrow> sync \<Rightarrow> nat \<Rightarrow> u32 \<Rightarrow> sync option" where
  "sem_up sc s q wstate =
     (case wait_queue_first s q of
        None \<Rightarrow> Some (s\<lparr>sem_value := (sem_value s)(q := sem_value s q + 1)\<rparr>)
      | Some w \<Rightarrow>
          do {
            assert_that (p_wait_state (procs (sched s) (w_proc (waits s w))) = wstate);
            wakeup_wait sc s q w wstate True
          })"

definition down_begin :: "sched_class \<Rightarrow> sync \<Rightarrow> nat \<Rightarrow> nat \<Rightarrow> u32 \<Rightarrow> (u32 option \<times> sync) option" where
  "down_begin sc s q w wstate =
     (if sem_value s q > 0 then Some (Some 0, s\<lparr>sem_value := (sem_value s)(q := sem_value s q - 1)\<rparr>)
      else do {
        s \<leftarrow> wait_current_set s q w wstate;
        sch \<leftarrow> schedule sc (sched s);
        Some (None, s\<lparr>sched := sch\<rparr>)
      })"

definition down_end :: "sync \<Rightarrow> nat \<Rightarrow> nat \<Rightarrow> u32 \<Rightarrow> (u32 \<times> sync) option" where
  "down_end s q w wstate =
     do {
       s \<leftarrow> wait_current_del s q w;
       Some (if wakeup_flags (waits s w) \<noteq> wstate then wakeup_flags (waits s w) else 0, s)
     }"

definition up :: "sched_class \<Rightarrow> sync \<Rightarrow> nat \<Rightarrow> sync option" where
  "up sc s q = sem_up sc s q WT_KSEM"

text \<open>\<open>down\<close>: \<open>True\<close> when the semaphore is taken at once; otherwise \<open>down_resume\<close> completes the call.\<close>

definition down :: "sched_class \<Rightarrow> sync \<Rightarrow> nat \<Rightarrow> nat \<Rightarrow> (bool \<times> sync) option" where
  "down sc s q w =
     do {
       (flags, s) \<leftarrow> down_begin sc s q w WT_KSEM;
       case flags of Some f \<Rightarrow> do { assert_that (f = 0); Some (True, s) } | None \<Rightarrow> Some (False, s)
     }"

definition down_resume :: "sync \<Rightarrow> nat \<Rightarrow> nat \<Rightarrow> sync option" where
  "down_resume s q w = do { (flags, s) \<leftarrow> down_end s q w WT_KSEM; assert_that (flags = 0); Some s }"

definition try_down :: "sync \<Rightarrow> nat \<Rightarrow> bool \<times> sync" where
  "try_down s q =
     (if sem_value s q > 0 then (True, s\<lparr>sem_value := (sem_value s)(q := sem_value s q - 1)\<rparr>) else (False, s))"


subsection \<open>The monitors\<close>

record condvar =
  cv_sem :: nat
  cv_count :: int
  cv_owner :: nat

record monitor =
  mt_mutex :: nat
  mt_next :: nat
  mt_next_count :: int

record monitors =
  msync :: sync
  conds :: "nat \<Rightarrow> condvar"
  mons :: "nat \<Rightarrow> monitor"

definition upd_cond :: "nat \<Rightarrow> (condvar \<Rightarrow> condvar) \<Rightarrow> monitors \<Rightarrow> monitors" where
  "upd_cond c f s = s\<lparr>conds := (conds s)(c := f (conds s c))\<rparr>"

definition upd_mon :: "nat \<Rightarrow> (monitor \<Rightarrow> monitor) \<Rightarrow> monitors \<Rightarrow> monitors" where
  "upd_mon m f s = s\<lparr>mons := (mons s)(m := f (mons s m))\<rparr>"

text \<open>
  \<open>cond_signal\<close> and \<open>cond_wait\<close> up to the point where they sleep, and the rest. The first parts return
  \<open>True\<close> when the call goes on at once.
\<close>

definition cond_signal_begin :: "sched_class \<Rightarrow> monitors \<Rightarrow> nat \<Rightarrow> nat \<Rightarrow> (bool \<times> monitors) option" where
  "cond_signal_begin sc s c w =
     (let m = cv_owner (conds s c);
          s = upd_mon m (\<lambda>x. x\<lparr>mt_next_count := mt_next_count x + 1\<rparr>) s
      in do {
        sy \<leftarrow> up sc (msync s) (cv_sem (conds s c));
        (done, sy) \<leftarrow> down sc sy (mt_next (mons s m)) w;
        Some (done, s\<lparr>msync := sy\<rparr>)
      })"

definition cond_signal_end :: "monitors \<Rightarrow> nat \<Rightarrow> monitors" where
  "cond_signal_end s c = upd_mon (cv_owner (conds s c)) (\<lambda>x. x\<lparr>mt_next_count := mt_next_count x - 1\<rparr>) s"

definition cond_signal :: "sched_class \<Rightarrow> monitors \<Rightarrow> nat \<Rightarrow> nat \<Rightarrow> (bool \<times> monitors) option" where
  "cond_signal sc s c w =
     (if cv_count (conds s c) > 0 then do {
        (done, s) \<leftarrow> cond_signal_begin sc s c w;
        Some (done, if done then cond_signal_end s c else s)
      }
      else Some (True, s))"

text \<open>How a process leaves the monitor, at the end of a routine or in \<open>cond_wait\<close>.\<close>

definition monitor_leave :: "sched_class \<Rightarrow> monitors \<Rightarrow> nat \<Rightarrow> monitors option" where
  "monitor_leave sc s m =
     do {
       sy \<leftarrow> (if mt_next_count (mons s m) > 0 then up sc (msync s) (mt_next (mons s m))
              else up sc (msync s) (mt_mutex (mons s m)));
       Some (s\<lparr>msync := sy\<rparr>)
     }"

definition cond_wait_end :: "monitors \<Rightarrow> nat \<Rightarrow> monitors" where
  "cond_wait_end s c = upd_cond c (\<lambda>x. x\<lparr>cv_count := cv_count x - 1\<rparr>) s"

definition cond_wait :: "sched_class \<Rightarrow> monitors \<Rightarrow> nat \<Rightarrow> nat \<Rightarrow> (bool \<times> monitors) option" where
  "cond_wait sc s c w =
     (let s = upd_cond c (\<lambda>x. x\<lparr>cv_count := cv_count x + 1\<rparr>) s
      in do {
        s \<leftarrow> monitor_leave sc s (cv_owner (conds s c));
        (done, sy) \<leftarrow> down sc (msync s) (cv_sem (conds s c)) w;
        let s = s\<lparr>msync := sy\<rparr>;
        Some (done, if done then cond_wait_end s c else s)
      })"

subsection \<open>What a semaphore promises\<close>

text \<open>The abstract semaphore: its tokens and the processes that sleep on it, in the order they came.\<close>

record asem =
  tokens :: int
  sleepers :: "nat list"

definition a_up :: "asem \<Rightarrow> asem" where
  "a_up a = (case sleepers a of [] \<Rightarrow> a\<lparr>tokens := tokens a + 1\<rparr> | p # ps \<Rightarrow> a\<lparr>sleepers := ps\<rparr>)"

definition a_down :: "nat \<Rightarrow> asem \<Rightarrow> asem" where
  "a_down p a = (if tokens a > 0 then a\<lparr>tokens := tokens a - 1\<rparr> else a\<lparr>sleepers := sleepers a @ [p]\<rparr>)"

definition sem_abs :: "sync \<Rightarrow> nat \<Rightarrow> nat list \<Rightarrow> asem" where
  "sem_abs s q ws = \<lparr>tokens = sem_value s q, sleepers = map (\<lambda>w. w_proc (waits s w)) ws\<rparr>"

definition sem_ok :: "sync \<Rightarrow> nat \<Rightarrow> nat list \<Rightarrow> bool" where
  "sem_ok s q ws \<longleftrightarrow> dlist (wlinks s) (WaitHead q) (map WaitLink ws) \<and> 0 \<le> sem_value s q
     \<and> (0 < sem_value s q \<longrightarrow> ws = [])
     \<and> (\<forall>w \<in> set ws. w_queue (waits s w) = q \<and> p_state (procs (sched s) (w_proc (waits s w))) = PROC_SLEEPING
          \<and> p_wait_state (procs (sched s) (w_proc (waits s w))) = WT_KSEM)"

text \<open>All semaphores of a set \<open>S\<close>, \<open>Q q\<close> being the waits on \<open>q\<close>; no process waits twice.\<close>

definition sems_ok :: "sync \<Rightarrow> nat set \<Rightarrow> (nat \<Rightarrow> nat list) \<Rightarrow> bool" where
  "sems_ok s S Q \<longleftrightarrow> (\<forall>q \<in> S. sem_ok s q (Q q)) \<and> inj_on (\<lambda>w. w_proc (waits s w)) (\<Union>q \<in> S. set (Q q))"

lemma upd_wait_simps [simp]:
  "sched (upd_wait w f s) = sched s" "wlinks (upd_wait w f s) = wlinks s" "sem_value (upd_wait w f s) = sem_value s"
  "waits (upd_wait w f s) = (waits s)(w := f (waits s w))"
  by (simp_all add: upd_wait_def)

lemma sem_first:
  "sem_ok s q ws \<Longrightarrow> wait_queue_first s q = (case ws of [] \<Rightarrow> None | w # _ \<Rightarrow> Some w)"
  using list_next_head [of "wlinks s" "WaitHead q" "map WaitLink ws"]
  by (cases ws) (auto simp: sem_ok_def wait_queue_first_def le2wait_def)

lemma sems_disjoint:
  assumes "sems_ok s S Q" "q \<in> S" "r \<in> S" "q \<noteq> r"
  shows "set (WaitHead q # map WaitLink (Q q)) \<inter> set (WaitHead r # map WaitLink (Q r)) = {}"
proof -
  have "w_queue (waits s v) = x" if "x \<in> S" "v \<in> set (Q x)" for x v
    using assms(1) that by (simp add: sems_ok_def sem_ok_def)
  then have "set (Q q) \<inter> set (Q r) = {}" using assms(2,3,4) by (metis disjoint_iff)
  then show ?thesis using assms(4) by auto
qed

lemma sems_inj:
  "sems_ok s S Q \<Longrightarrow> q \<in> S \<Longrightarrow> r \<in> S \<Longrightarrow> v \<in> set (Q q) \<Longrightarrow> w \<in> set (Q r)
    \<Longrightarrow> w_proc (waits s v) = w_proc (waits s w) \<Longrightarrow> v = w"
  unfolding sems_ok_def by (rule inj_onD [of "\<lambda>w. w_proc (waits s w)" "\<Union>q \<in> S. set (Q q)"]) auto

context sched_policy
begin

text \<open>\<open>up\<close> on a semaphore with sleepers wakes the first of them and leaves it ready to go on.\<close>

lemma sem_up_wakes:
  assumes inv: "sched_inv (sched s)" and ok: "sems_ok s S Q" and q: "q \<in> S" and ws: "Q q = w # ws"
    and v: "valid (w_proc (waits s w))"
  shows "\<exists>s'. up sc s q = Some s' \<and> sched_inv (sched s') \<and> sems_ok s' S (Q(q := ws))
    \<and> sem_value s' = sem_value s \<and> (\<forall>v. w_proc (waits s' v) = w_proc (waits s v))
    \<and> p_state (procs (sched s') (w_proc (waits s w))) = PROC_RUNNABLE
    \<and> current (sched s') = current (sched s)
    \<and> (\<forall>p. p \<noteq> w_proc (waits s w) \<longrightarrow> p_state (procs (sched s') p) = p_state (procs (sched s) p))
    \<and> down_resume s' q w = Some s'"
proof -
  let ?p = "w_proc (waits s w)"
  have okq: "sem_ok s q (w # ws)" using ok q ws by (auto simp: sems_ok_def)
  then have st: "p_state (procs (sched s) ?p) = PROC_SLEEPING" "p_wait_state (procs (sched s) ?p) = WT_KSEM"
    "w_queue (waits s w) = q" and d: "dlist (wlinks s) (WaitHead q) ([] @ WaitLink w # map WaitLink ws)"
    by (simp_all add: sem_ok_def)
  obtain t where t: "wakeup_proc sc (sched s) ?p = Some t" "sched_inv t" "p_state (procs t ?p) = PROC_RUNNABLE"
    "current t = current (sched s)"
    "\<forall>q. q \<noteq> ?p \<longrightarrow> p_state (procs t q) = p_state (procs (sched s) q)
             \<and> p_wait_state (procs t q) = p_wait_state (procs (sched s) q)"
    using wakeup_keeps [OF inv, of ?p] st(1) v by auto
  let ?s = "s\<lparr>waits := (waits s)(w := (waits s w)\<lparr>wakeup_flags := WT_KSEM\<rparr>),
       wlinks := list_del_init (wlinks s) (WaitLink w), sched := t\<rparr>"
  have ne: "\<not> list_empty (wlinks s) (WaitLink w)" using list_empty_node [OF d] by simp
  have run: "up sc s q = Some ?s"
    using sem_first [OF okq] st(2,3) ne t(1) by (simp add: up_def sem_up_def wakeup_wait_def wait_queue_del_def upd_wait_def)
  have other: "w_proc (waits s v) \<noteq> ?p" if "r \<in> S" "v \<in> set (Q r)" "v \<noteq> w" for r v
    using sems_inj [OF ok that(1) q that(2), of w] that(3) ws by auto
  have w: "w \<notin> set ws" using dlist_distinct [OF d] by auto
  have notin: "w \<notin> set (Q r)" if "r \<in> S" "r \<noteq> q" for r
    using ok that st(3) by (auto simp: sems_ok_def sem_ok_def)
  have "sem_ok ?s r ((Q(q := ws)) r)" if r: "r \<in> S" for r
  proof (cases "r = q")
    case True
    then show ?thesis using okq dlist_del_init(1) [OF d] other [OF q] t(5) w ws by (auto simp: sem_ok_def)
  next
    case False
    have okr: "sem_ok s r (Q r)" using ok r by (simp add: sems_ok_def)
    have "dlist (list_del_init (wlinks s) (WaitLink w)) (WaitHead r) (map WaitLink (Q r))"
      using sems_disjoint [OF ok q r] False okr ws by (intro dlist_other_del_init [OF d]) (auto simp: sem_ok_def)
    then show ?thesis using okr other [OF r] notin [OF r False] t(5) False unfolding sem_ok_def by auto
  qed
  moreover have "inj_on (\<lambda>w. w_proc (waits ?s w)) (\<Union>r \<in> S. set ((Q(q := ws)) r))"
  proof -
    have "(\<lambda>w. w_proc (waits ?s w)) = (\<lambda>w. w_proc (waits s w))" by (simp add: fun_eq_iff)
    moreover have "(\<Union>r \<in> S. set ((Q(q := ws)) r)) \<subseteq> (\<Union>r \<in> S. set (Q r))" using ws q by (auto split: if_splits)
    ultimately show ?thesis using ok unfolding sems_ok_def by (metis inj_on_subset)
  qed
  ultimately have "sems_ok ?s S (Q(q := ws))" by (simp add: sems_ok_def)
  moreover have "down_resume ?s q w = Some ?s"
    using dlist_del_init(2) [OF d] by (simp add: down_resume_def down_end_def wait_current_del_def wait_in_queue_def)
  ultimately show ?thesis using run t by (intro exI [of _ ?s]) auto
qed

text \<open>\<open>down\<close> on a semaphore without tokens puts the caller at the end of its queue.\<close>

lemma sem_down_sleeps:
  assumes inv: "sched_inv (sched s)" and ok: "sems_ok s S Q" and q: "q \<in> S" and v: "sem_value s q = 0"
    and cur: "p_state (procs (sched s) (current (sched s))) = PROC_RUNNABLE" and w: "\<forall>r \<in> S. w \<notin> set (Q r)"
    and sch: "\<And>t. sched_inv t \<Longrightarrow> \<exists>t'. schedule sc t = Some t'"
  shows "\<exists>s'. down sc s q w = Some (False, s') \<and> sched_inv (sched s') \<and> sems_ok s' S (Q(q := Q q @ [w]))
    \<and> sem_value s' = sem_value s
    \<and> (\<forall>v. w_proc (waits s' v) = (if v = w then current (sched s) else w_proc (waits s v)))
    \<and> (\<forall>p. p_state (procs (sched s') p) = (if p = current (sched s) then PROC_SLEEPING else p_state (procs (sched s) p)))"
proof -
  let ?c = "current (sched s)"
  let ?t = "upd_proc ?c (\<lambda>p. p\<lparr>p_state := PROC_SLEEPING, p_wait_state := WT_KSEM\<rparr>) (sched s)"
  have "inv ?t = inv (sched s) \<and> queued ?t = queued (sched s)" by (rule upd_frame) simp
  then have it: "sched_inv ?t" using inv by (auto simp: sched_inv_def)
  then obtain t' where t': "schedule sc ?t = Some t'" using sch by blast
  note keeps = schedule_keeps [OF it t']
  let ?h = "list_add_before (list_init (wlinks s) (WaitLink w)) (WaitHead q) (WaitLink w)"
  let ?s = "s\<lparr>waits := (waits s)(w := (waits s w)\<lparr>w_proc := ?c, wakeup_flags := WT_INTERRUPTED, w_queue := q\<rparr>),
      wlinks := ?h, sched := t'\<rparr>"
  have run: "down sc s q w = Some (False, ?s)"
    using v t' by (simp add: down_def down_begin_def wait_current_set_def wait_init_def wait_queue_add_def upd_wait_def
        list_empty_def Let_def)
  have lists: "dlist (list_init (wlinks s) (WaitLink w)) (WaitHead r) (map WaitLink (Q r))" if "r \<in> S" for r
    using ok w that by (subst dlist_other_init) (auto simp: sems_ok_def sem_ok_def)
  have st: "p_state (procs t' p) = (if p = ?c then PROC_SLEEPING else p_state (procs (sched s) p))"
    "p_wait_state (procs t' p) = (if p = ?c then WT_KSEM else p_wait_state (procs (sched s) p))" for p
    using keeps(2,6) by simp_all
  have notc: "w_proc (waits s v) \<noteq> ?c" if "r \<in> S" "v \<in> set (Q r)" for r v
  proof -
    have "p_state (procs (sched s) (w_proc (waits s v))) = PROC_SLEEPING"
      using ok that by (simp add: sems_ok_def sem_ok_def)
    then show ?thesis using cur by auto
  qed
  have "sem_ok ?s r ((Q(q := Q q @ [w])) r)" if r: "r \<in> S" for r
  proof (cases "r = q")
    case True
    have "dlist ?h (WaitHead q) (map WaitLink (Q q) @ [WaitLink w])"
      using lists [OF q] w q by (intro dlist_add_tail) auto
    then show ?thesis using ok q v True st notc [OF q] w by (auto simp: sems_ok_def sem_ok_def)
  next
    case False
    have "dlist ?h (WaitHead r) (map WaitLink (Q r))"
      using sems_disjoint [OF ok q r] False w r
      by (intro dlist_other_add_before [OF lists [OF q] lists [OF r]]) auto
    then show ?thesis using ok r False st notc [OF r] w by (auto simp: sems_ok_def sem_ok_def)
  qed
  moreover have "inj_on (\<lambda>w. w_proc (waits ?s w)) (\<Union>r \<in> S. set ((Q(q := Q q @ [w])) r))"
  proof -
    let ?U = "\<Union>r \<in> S. set (Q r)"
    have wU: "w \<notin> ?U" using w by auto
    have "inj_on (\<lambda>w. w_proc (waits ?s w)) ?U"
      using ok wU unfolding sems_ok_def by (subst inj_on_cong [where g = "\<lambda>w. w_proc (waits s w)"]) auto
    moreover have "w_proc (waits ?s w) \<notin> (\<lambda>w. w_proc (waits ?s w)) ` ?U"
    proof
      assume "w_proc (waits ?s w) \<in> (\<lambda>w. w_proc (waits ?s w)) ` ?U"
      then obtain v r where "r \<in> S" "v \<in> set (Q r)" "w_proc (waits ?s v) = ?c" by auto
      then show False using notc [of r v] w by (cases "v = w") auto
    qed
    moreover have "(\<Union>r \<in> S. set ((Q(q := Q q @ [w])) r)) = insert w ?U" using q by (auto split: if_splits)
    ultimately show ?thesis using wU by (simp add: inj_on_insert)
  qed
  ultimately have "sems_ok ?s S (Q(q := Q q @ [w]))" by (simp add: sems_ok_def)
  then show ?thesis using run keeps(1) st by (intro exI [of _ ?s]) auto
qed

text \<open>Both operations when they do not touch the queue.\<close>

lemma sem_up_counts:
  assumes ok: "sems_ok s S Q" and q: "q \<in> S" and ws: "Q q = []"
  shows "up sc s q = Some (s\<lparr>sem_value := (sem_value s)(q := sem_value s q + 1)\<rparr>)"
    and "sems_ok (s\<lparr>sem_value := (sem_value s)(q := sem_value s q + 1)\<rparr>) S Q"
proof -
  have okq: "sem_ok s q []" using ok q ws by (auto simp: sems_ok_def)
  then show "up sc s q = Some (s\<lparr>sem_value := (sem_value s)(q := sem_value s q + 1)\<rparr>)"
    using sem_first [OF okq] by (simp add: up_def sem_up_def)
  show "sems_ok (s\<lparr>sem_value := (sem_value s)(q := sem_value s q + 1)\<rparr>) S Q"
    using ok ws by (auto simp: sems_ok_def sem_ok_def)
qed

lemma sem_down_counts:
  assumes ok: "sems_ok s S Q" and q: "q \<in> S" and v: "0 < sem_value s q"
  shows "down sc s q w = Some (True, s\<lparr>sem_value := (sem_value s)(q := sem_value s q - 1)\<rparr>)"
    and "sems_ok (s\<lparr>sem_value := (sem_value s)(q := sem_value s q - 1)\<rparr>) S Q"
proof -
  show "down sc s q w = Some (True, s\<lparr>sem_value := (sem_value s)(q := sem_value s q - 1)\<rparr>)"
    using v by (simp add: down_def down_begin_def)
  show "sems_ok (s\<lparr>sem_value := (sem_value s)(q := sem_value s q - 1)\<rparr>) S Q"
    using ok v by (auto simp: sems_ok_def sem_ok_def)
qed

end

text \<open>
  C30: The semaphores refine the abstract ones. In a state in which the semaphores \<open>S\<close> are consistent, \<open>up\<close>
  and \<open>down\<close> under the default scheduler do not panic and keep it, and act on the semaphore as \<open>a_up\<close> and
  \<open>a_down\<close> do: \<open>up\<close> adds a token, or wakes the process that has slept longest, whose \<open>down\<close> then returns;
  \<open>down\<close> takes a token, or puts the running process to sleep behind the others. No other semaphore and no
  other process changes its state.
\<close>

theorem sem_refines:
  assumes inv: "rr_sched_inv (sched s)" and ok: "sems_ok s S Q" and q: "q \<in> S"
    and cur: "p_state (procs (sched s) (current (sched s))) = PROC_RUNNABLE" and w: "\<forall>r \<in> S. w \<notin> set (Q r)"
  shows "(\<exists>s' Q'. up default_sched_class s q = Some s' \<and> rr_sched_inv (sched s') \<and> sems_ok s' S Q'
      \<and> sem_abs s' q (Q' q) = a_up (sem_abs s q (Q q)) \<and> (\<forall>r \<in> S - {q}. sem_abs s' r (Q' r) = sem_abs s r (Q r))
      \<and> (\<forall>p. p_state (procs (sched s') p) =
           (if p \<in> set (take 1 (sleepers (sem_abs s q (Q q)))) then PROC_RUNNABLE else p_state (procs (sched s) p)))
      \<and> (Q q \<noteq> [] \<longrightarrow> down_resume s' q (hd (Q q)) = Some s'))
    \<and> (\<exists>s' Q'. down default_sched_class s q w = Some (0 < tokens (sem_abs s q (Q q)), s')
      \<and> rr_sched_inv (sched s') \<and> sems_ok s' S Q'
      \<and> sem_abs s' q (Q' q) = a_down (current (sched s)) (sem_abs s q (Q q))
      \<and> (\<forall>r \<in> S - {q}. sem_abs s' r (Q' r) = sem_abs s r (Q r))
      \<and> (\<forall>p. p_state (procs (sched s') p) =
           (if p = current (sched s) \<and> tokens (sem_abs s q (Q q)) = 0 then PROC_SLEEPING else p_state (procs (sched s) p))))"
    (is "?U \<and> ?D")
proof
  have inv': "rr.sched_inv (sched s)" using inv by (simp add: rr_sched_inv_iff)
  show ?U
  proof (cases "Q q")
    case Nil
    let ?s = "s\<lparr>sem_value := (sem_value s)(q := sem_value s q + 1)\<rparr>"
    show ?thesis using rr.sem_up_counts [OF ok q Nil] inv Nil
      by (intro exI [of _ ?s] exI [of _ Q]) (simp add: sem_abs_def a_up_def)
  next
    case (Cons x xs)
    from rr.sem_up_wakes [OF inv' ok q this TrueI] obtain s' where s': "up default_sched_class s q = Some s'"
      "rr.sched_inv (sched s')" "sems_ok s' S (Q(q := xs))" "sem_value s' = sem_value s"
      "\<forall>v. w_proc (waits s' v) = w_proc (waits s v)"
      "p_state (procs (sched s') (w_proc (waits s x))) = PROC_RUNNABLE"
      "\<forall>p. p \<noteq> w_proc (waits s x) \<longrightarrow> p_state (procs (sched s') p) = p_state (procs (sched s) p)"
      "down_resume s' q x = Some s'" by blast
    then show ?thesis using Cons
      by (intro exI [of _ s'] exI [of _ "Q(q := xs)"]) (simp add: rr_sched_inv_iff sem_abs_def a_up_def)
  qed
  show ?D
  proof (cases "0 < sem_value s q")
    case True
    let ?s = "s\<lparr>sem_value := (sem_value s)(q := sem_value s q - 1)\<rparr>"
    show ?thesis using rr.sem_down_counts(1) [OF ok q True, of w] rr.sem_down_counts(2) [OF ok q True] inv True
      by (intro exI [of _ ?s] exI [of _ Q]) (simp add: sem_abs_def a_down_def)
  next
    case False
    have "0 \<le> sem_value s q" using ok q by (auto simp: sems_ok_def sem_ok_def)
    with False have z: "sem_value s q = 0" by simp
    have sch: "\<exists>t'. schedule default_sched_class t = Some t'" if "rr.sched_inv t" for t
      using rr_schedule_runs [of t] that by (simp add: rr_sched_inv_iff)
    obtain s' where s': "down default_sched_class s q w = Some (False, s')" "rr.sched_inv (sched s')"
      "sems_ok s' S (Q(q := Q q @ [w]))" "sem_value s' = sem_value s"
      "\<forall>v. w_proc (waits s' v) = (if v = w then current (sched s) else w_proc (waits s v))"
      "\<forall>p. p_state (procs (sched s') p) = (if p = current (sched s) then PROC_SLEEPING else p_state (procs (sched s) p))"
      using rr.sem_down_sleeps [OF inv' ok q z cur w sch] by blast
    have "map (\<lambda>v. w_proc (waits s' v)) (Q r) = map (\<lambda>v. w_proc (waits s v)) (Q r)" if "r \<in> S" for r
      using s'(5) w that by auto
    then show ?thesis using s' z q w
      by (intro exI [of _ s'] exI [of _ "Q(q := Q q @ [w])"]) (simp add: rr_sched_inv_iff sem_abs_def a_down_def)
  qed
qed

text \<open>Process 4 sleeps on semaphore 0, with the wait 5.\<close>

definition sample_sync :: sync where
  "sample_sync = \<lparr>sched = upd_proc 4 (\<lambda>p. p\<lparr>p_state := PROC_SLEEPING, p_wait_state := WT_KSEM\<rparr>) sample_sched,
     waits = (\<lambda>_. \<lparr>w_proc = 4, wakeup_flags = WT_INTERRUPTED, w_queue = 0\<rparr>),
     wlinks = \<lparr>lprev = (\<lambda>n. n)(WaitHead 0 := WaitLink 5, WaitLink 5 := WaitHead 0),
               lnext = (\<lambda>n. n)(WaitHead 0 := WaitLink 5, WaitLink 5 := WaitHead 0)\<rparr>,
     sem_value = (\<lambda>_. 0)\<rparr>"

lemma sample_sync_ok:
  "rr_sched_inv (sched sample_sync)" "sems_ok sample_sync {0} (\<lambda>_. [5])"
  "p_state (procs (sched sample_sync) (current (sched sample_sync))) = PROC_RUNNABLE"
proof -
  have "rr_queue (sched sample_sync) [2, 3]"
    using rr_queue_frame [of "sched sample_sync" sample_sched "[2, 3]"] sample_queue by (simp add: sample_sync_def)
  moreover have "set [2, 3] = {p. p_state (procs (sched sample_sync) p) = PROC_RUNNABLE
      \<and> p \<noteq> current (sched sample_sync) \<and> p \<noteq> idleproc (sched sample_sync)}"
    by (auto simp: sample_sync_def sample_sched_def blank_proc_def)
  ultimately show "rr_sched_inv (sched sample_sync)" unfolding rr_sched_inv_def by blast
  show "sems_ok sample_sync {0} (\<lambda>_. [5])"
    by (simp add: sems_ok_def sem_ok_def sample_sync_def dlist_def)
  show "p_state (procs (sched sample_sync) (current (sched sample_sync))) = PROC_RUNNABLE"
    by (simp add: sample_sync_def sample_sched_def)
qed

theorem sem_refines_witness:
  "\<exists>s'. up default_sched_class sample_sync 0 = Some s' \<and> p_state (procs (sched s') 4) = PROC_RUNNABLE
     \<and> down_resume s' 0 5 = Some s'"
proof -
  have "sleepers (sem_abs sample_sync 0 [5]) = [4]" by (simp add: sem_abs_def sample_sync_def)
  then show ?thesis
    using sem_refines [OF sample_sync_ok(1,2) singletonI sample_sync_ok(3), of 6] by auto
qed

end
