(* ===== verification/Philosophers.thy ===== *)
theory Philosophers
  imports Sync
begin

text \<open>
  The dining philosophers of \<open>kern/sync/check_sync.c\<close> that use semaphores: five kernel threads that
  share an array of states and six semaphores. The semaphores are the abstract ones that theory Sync shows
  \<open>sem.c\<close> to implement. A step runs one thread, chosen arbitrarily among those that do not sleep, from
  one statement that touches the shared data to the next one.
\<close>

definition PHIL_N :: nat where "PHIL_N = 5"
definition TIMES :: nat where "TIMES = 4"

definition LEFT :: "nat \<Rightarrow> nat" where "LEFT i = (i + PHIL_N - 1) mod PHIL_N"
definition RIGHT :: "nat \<Rightarrow> nat" where "RIGHT i = (i + 1) mod PHIL_N"

datatype phil_state = THINKING | HUNGRY | EATING

text \<open>Where a thread is: before the named statement of \<open>philosopher_using_semaphore\<close> and its callees.\<close>

datatype place = Loop | TakeEnter | TakeSet | TakeTest | TakeUp | TakeDown
  | PutEnter | PutSet | PutLeft | PutRight | PutUp | Quit

record table =
  mutex :: asem
  phil_sem :: "nat \<Rightarrow> asem"
  state_sema :: "nat \<Rightarrow> phil_state"
  place_of :: "nat \<Rightarrow> place"
  iter :: "nat \<Rightarrow> nat"

definition go :: "nat \<Rightarrow> place \<Rightarrow> table \<Rightarrow> table" where
  "go i p t = t\<lparr>place_of := (place_of t)(i := p)\<rparr>"

definition set_state :: "nat \<Rightarrow> phil_state \<Rightarrow> table \<Rightarrow> table" where
  "set_state i x t = t\<lparr>state_sema := (state_sema t)(i := x)\<rparr>"

definition phi_test_sema :: "nat \<Rightarrow> table \<Rightarrow> table" where
  "phi_test_sema i t =
     (if state_sema t i = HUNGRY \<and> state_sema t (LEFT i) \<noteq> EATING \<and> state_sema t (RIGHT i) \<noteq> EATING
      then (set_state i EATING t)\<lparr>phil_sem := (phil_sem t)(i := a_up (phil_sem t i))\<rparr>
      else t)"

text \<open>The body of the thread's loop, \<open>phi_take_forks_sema\<close> and \<open>phi_put_forks_sema\<close>, by statements.\<close>

definition phil_code :: "nat \<Rightarrow> table \<Rightarrow> table" where
  "phil_code i t =
     (case place_of t i of
        Loop \<Rightarrow> go i (if iter t i < TIMES then TakeEnter else Quit) (t\<lparr>iter := (iter t)(i := iter t i + 1)\<rparr>)
      | TakeEnter \<Rightarrow> go i TakeSet (t\<lparr>mutex := a_down i (mutex t)\<rparr>)
      | TakeSet \<Rightarrow> go i TakeTest (set_state i HUNGRY t)
      | TakeTest \<Rightarrow> go i TakeUp (phi_test_sema i t)
      | TakeUp \<Rightarrow> go i TakeDown (t\<lparr>mutex := a_up (mutex t)\<rparr>)
      | TakeDown \<Rightarrow> go i PutEnter (t\<lparr>phil_sem := (phil_sem t)(i := a_down i (phil_sem t i))\<rparr>)
      | PutEnter \<Rightarrow> go i PutSet (t\<lparr>mutex := a_down i (mutex t)\<rparr>)
      | PutSet \<Rightarrow> go i PutLeft (set_state i THINKING t)
      | PutLeft \<Rightarrow> go i PutRight (phi_test_sema (LEFT i) t)
      | PutRight \<Rightarrow> go i PutUp (phi_test_sema (RIGHT i) t)
      | PutUp \<Rightarrow> go i Loop (t\<lparr>mutex := a_up (mutex t)\<rparr>)
      | Quit \<Rightarrow> t)"

definition asleep :: "table \<Rightarrow> nat \<Rightarrow> bool" where
  "asleep t i \<longleftrightarrow> i \<in> set (sleepers (mutex t)) \<or> (\<exists>j \<in> {0..<PHIL_N}. i \<in> set (sleepers (phil_sem t j)))"

definition phil_step :: "nat \<Rightarrow> table \<Rightarrow> table option" where
  "phil_step i t = (if i < PHIL_N \<and> \<not> asleep t i \<and> place_of t i \<noteq> Quit then Some (phil_code i t) else None)"

definition dp_init :: table where
  "dp_init = \<lparr>mutex = \<lparr>tokens = 1, sleepers = []\<rparr>, phil_sem = (\<lambda>_. \<lparr>tokens = 0, sleepers = []\<rparr>),
     state_sema = (\<lambda>_. THINKING), place_of = (\<lambda>_. Loop), iter = (\<lambda>_. 0)\<rparr>"

inductive dp_reach :: "table \<Rightarrow> bool" where
  init: "dp_reach dp_init"
| step: "dp_reach t \<Longrightarrow> phil_step i t = Some t' \<Longrightarrow> dp_reach t'"

subsection \<open>The invariant\<close>

lemma sides:
  assumes "i < PHIL_N"
  shows "LEFT i < PHIL_N" "RIGHT i < PHIL_N" "LEFT (RIGHT i) = i" "RIGHT (LEFT i) = i"
    "LEFT i \<noteq> i" "RIGHT i \<noteq> i" "LEFT i \<noteq> RIGHT i"
proof -
  have "i = 0 \<or> i = 1 \<or> i = 2 \<or> i = 3 \<or> i = 4" using assms by (auto simp: PHIL_N_def)
  then show "LEFT i < PHIL_N" "RIGHT i < PHIL_N" "LEFT (RIGHT i) = i" "RIGHT (LEFT i) = i"
    "LEFT i \<noteq> i" "RIGHT i \<noteq> i" "LEFT i \<noteq> RIGHT i"
    by (auto simp: LEFT_def RIGHT_def PHIL_N_def)
qed

text \<open>Inside the critical section: between taking \<open>mutex\<close> and giving it back.\<close>

definition inside :: "table \<Rightarrow> nat \<Rightarrow> bool" where
  "inside t i \<longleftrightarrow> place_of t i \<in> {TakeSet, TakeTest, TakeUp, PutSet, PutLeft, PutRight, PutUp}
     \<and> i \<notin> set (sleepers (mutex t))"

definition mutex_ok :: "table \<Rightarrow> nat option \<Rightarrow> bool" where
  "mutex_ok t h \<longleftrightarrow> (\<forall>i < PHIL_N. inside t i \<longleftrightarrow> h = Some i) \<and> distinct (sleepers (mutex t))
     \<and> (\<forall>i \<in> set (sleepers (mutex t)). i < PHIL_N \<and> place_of t i \<in> {TakeSet, PutSet})
     \<and> (case h of None \<Rightarrow> mutex t = \<lparr>tokens = 1, sleepers = []\<rparr> | Some k \<Rightarrow> k < PHIL_N \<and> tokens (mutex t) = 0)"

text \<open>How a philosopher's state, its place and its semaphore go together.\<close>

definition phil_ok :: "table \<Rightarrow> nat \<Rightarrow> bool" where
  "phil_ok t i \<longleftrightarrow>
     (case state_sema t i of
        THINKING \<Rightarrow> phil_sem t i = \<lparr>tokens = 0, sleepers = []\<rparr>
          \<and> place_of t i \<in> {Loop, TakeEnter, TakeSet, PutLeft, PutRight, PutUp, Quit}
      | HUNGRY \<Rightarrow> phil_sem t i = \<lparr>tokens = 0, sleepers = []\<rparr> \<and> place_of t i \<in> {TakeTest, TakeUp, TakeDown}
          \<or> phil_sem t i = \<lparr>tokens = 0, sleepers = [i]\<rparr> \<and> place_of t i = PutEnter
      | EATING \<Rightarrow> phil_sem t i = \<lparr>tokens = 1, sleepers = []\<rparr> \<and> place_of t i \<in> {TakeUp, TakeDown}
          \<or> phil_sem t i = \<lparr>tokens = 0, sleepers = []\<rparr> \<and> place_of t i \<in> {PutEnter, PutSet})"

definition apart_ok :: "table \<Rightarrow> nat \<Rightarrow> bool" where
  "apart_ok t i \<longleftrightarrow> \<not> (state_sema t i = EATING \<and> state_sema t (RIGHT i) = EATING)"

text \<open>A philosopher that waits has a neighbour that eats, or one that is about to look after it.\<close>

definition served :: "table \<Rightarrow> nat \<Rightarrow> bool" where
  "served t i \<longleftrightarrow> (state_sema t i = HUNGRY \<and> place_of t i \<noteq> TakeTest \<longrightarrow>
     state_sema t (LEFT i) = EATING \<or> state_sema t (RIGHT i) = EATING
     \<or> place_of t (RIGHT i) = PutLeft \<or> place_of t (LEFT i) \<in> {PutLeft, PutRight})"

definition dp_inv :: "table \<Rightarrow> bool" where
  "dp_inv t \<longleftrightarrow> (\<exists>h. mutex_ok t h) \<and> (\<forall>i < PHIL_N. phil_ok t i \<and> apart_ok t i \<and> served t i)"

lemma go_simps [simp]:
  "mutex (go i p t) = mutex t" "phil_sem (go i p t) = phil_sem t" "state_sema (go i p t) = state_sema t"
  "place_of (go i p t) = (place_of t)(i := p)" "iter (go i p t) = iter t"
  by (simp_all add: go_def)

lemma set_state_simps [simp]:
  "mutex (set_state i x t) = mutex t" "phil_sem (set_state i x t) = phil_sem t"
  "state_sema (set_state i x t) = (state_sema t)(i := x)" "place_of (set_state i x t) = place_of t"
  by (simp_all add: set_state_def)

lemma test_simps [simp]: "mutex (phi_test_sema i t) = mutex t" "place_of (phi_test_sema i t) = place_of t"
  by (simp_all add: phi_test_sema_def)

lemma mutex_unchanged:
  assumes "mutex_ok t h" "mutex t' = mutex t" "place_of t' = (place_of t)(i := p)" "i < PHIL_N" "\<not> asleep t i"
    and "p \<in> {TakeSet, TakeTest, TakeUp, PutSet, PutLeft, PutRight, PutUp} \<longleftrightarrow>
         place_of t i \<in> {TakeSet, TakeTest, TakeUp, PutSet, PutLeft, PutRight, PutUp}"
  shows "mutex_ok t' h"
proof -
  have n: "i \<notin> set (sleepers (mutex t))" using assms(5) by (auto simp: asleep_def)
  have "inside t' j = inside t j" for j
    using assms(2,3,6) n by (cases "j = i") (simp_all only: inside_def fun_upd_same fun_upd_other simp_thms not_False_eq_True)
  then show ?thesis using assms(1,2,3) n by (cases h) (auto simp: mutex_ok_def)
qed

lemma mutex_enter:
  assumes ok: "mutex_ok t h" and t': "mutex t' = a_down i (mutex t)" "place_of t' = (place_of t)(i := p)"
    and i: "i < PHIL_N" "\<not> asleep t i" "place_of t i \<in> {TakeEnter, PutEnter}" "p \<in> {TakeSet, PutSet}"
  shows "\<exists>h'. mutex_ok t' h'"
proof (cases h)
  case None
  then have "mutex t = \<lparr>tokens = 1, sleepers = []\<rparr>" "\<forall>j < PHIL_N. \<not> inside t j" using ok by (simp_all add: mutex_ok_def)
  then have "mutex_ok t' (Some i)" using t' i by (auto simp: mutex_ok_def inside_def a_down_def)
  then show ?thesis ..
next
  case (Some k)
  then have m: "tokens (mutex t) = 0" "k < PHIL_N" "\<forall>j < PHIL_N. inside t j = (j = k)" using ok by (auto simp: mutex_ok_def)
  have n: "i \<notin> set (sleepers (mutex t))" "i \<noteq> k" using i m by (auto simp: asleep_def inside_def)
  have "mutex_ok t' (Some k)" using t' i m n ok Some by (auto simp: mutex_ok_def inside_def a_down_def)
  then show ?thesis ..
qed

lemma mutex_leave:
  assumes ok: "mutex_ok t h" and t': "mutex t' = a_up (mutex t)" "place_of t' = (place_of t)(i := p)"
    and i: "i < PHIL_N" "inside t i" "p \<in> {TakeDown, Loop}"
  shows "\<exists>h'. mutex_ok t' h'"
proof -
  have h: "h = Some i" using ok i by (simp add: mutex_ok_def)
  then have m: "tokens (mutex t) = 0" "\<forall>j < PHIL_N. inside t j = (j = i)" using ok by (auto simp: mutex_ok_def)
  have n: "i \<notin> set (sleepers (mutex t))" using i(2) by (simp add: inside_def)
  show ?thesis
  proof (cases "sleepers (mutex t)")
    case Nil
    then have "mutex_ok t' None" using t' i m by (auto simp: mutex_ok_def inside_def a_up_def)
    then show ?thesis ..
  next
    case (Cons k ks)
    then have "mutex_ok t' (Some k)" using t' i m n ok by (auto simp: mutex_ok_def inside_def a_up_def)
    then show ?thesis ..
  qed
qed


lemma test_apart: "\<forall>i < PHIL_N. apart_ok t i \<Longrightarrow> k < PHIL_N \<Longrightarrow> i < PHIL_N \<Longrightarrow> apart_ok (phi_test_sema k t) i"
  using sides [of i] sides [of k] by (auto simp: apart_ok_def phi_test_sema_def)

lemma test_eating: "state_sema t k = EATING \<Longrightarrow> state_sema (phi_test_sema j t) k = EATING"
  by (simp add: phi_test_sema_def)

lemma test_serves:
  assumes "state_sema (phi_test_sema k t) k = HUNGRY"
  shows "state_sema (phi_test_sema k t) (LEFT k) = EATING \<or> state_sema (phi_test_sema k t) (RIGHT k) = EATING"
  using assms by (auto simp: phi_test_sema_def split: if_splits)

lemma test_other: "j \<noteq> k \<Longrightarrow> state_sema (phi_test_sema k t) j = state_sema t j" "j \<noteq> k \<Longrightarrow> phil_sem (phi_test_sema k t) j = phil_sem t j"
  by (simp_all add: phi_test_sema_def)

lemma test_phil_ok: "phil_ok t j \<Longrightarrow> place_of t j \<noteq> TakeTest \<Longrightarrow> phil_ok (phi_test_sema k t) j"
  by (cases "j = k") (auto simp: phil_ok_def phi_test_sema_def a_up_def test_other split: phil_state.splits)

lemma served_test:
  assumes "served t j" "j < PHIL_N"
  shows "served (phi_test_sema k t) j"
proof (cases "j = k")
  case True
  then show ?thesis using test_serves [of k t] by (auto simp: served_def)
next
  case False
  then show ?thesis using assms(1) test_eating [of t "LEFT j" k] test_eating [of t "RIGHT j" k]
    by (auto simp: served_def test_other)
qed

text \<open>A thread that moves on from a place where nobody relies on it.\<close>

lemma served_go:
  assumes "served t j" "j < PHIL_N" "i < PHIL_N" "place_of t i \<notin> {PutLeft, PutRight, TakeTest}"
  shows "served (go i p t) j"
proof -
  have "RIGHT j \<noteq> j" "LEFT j \<noteq> j" using sides [OF assms(2)] by blast+
  then show ?thesis using assms(1,4) by (cases "j = i") (auto simp: served_def)
qed

lemma alone: "mutex_ok t h \<Longrightarrow> inside t i \<Longrightarrow> inside t j \<Longrightarrow> i < PHIL_N \<Longrightarrow> j < PHIL_N \<Longrightarrow> i = j"
  unfolding mutex_ok_def by (metis option.inject)

lemma inside_now:
  assumes "place_of t i \<in> {TakeSet, TakeTest, TakeUp, PutSet, PutLeft, PutRight, PutUp}" "\<not> asleep t i"
  shows "inside t i"
  using assms by (simp add: inside_def asleep_def)

lemma inside_test: "mutex_ok t h \<Longrightarrow> place_of t j = TakeTest \<Longrightarrow> inside t j"
  by (auto simp: inside_def mutex_ok_def)

lemma phil_ok_cong:
  "phil_sem t' j = phil_sem t j \<Longrightarrow> state_sema t' j = state_sema t j \<Longrightarrow> place_of t' j = place_of t j
    \<Longrightarrow> phil_ok t' j = phil_ok t j"
  by (cases "state_sema t j") (simp_all add: phil_ok_def)

lemma phil_code_keeps:
  assumes inv: "dp_inv t" and i: "i < PHIL_N" "\<not> asleep t i" and j: "j < PHIL_N"
  shows "phil_ok (phil_code i t) j \<and> apart_ok (phil_code i t) j \<and> served (phil_code i t) j"
proof -
  obtain h where h: "mutex_ok t h" using inv by (auto simp: dp_inv_def)
  have ok: "phil_ok t j" "apart_ok t j" "served t j" "phil_ok t i" and all: "\<forall>i < PHIL_N. apart_ok t i"
    using inv i j by (simp_all add: dp_inv_def)
  have awake: "i \<notin> set (sleepers (phil_sem t i))" using i by (auto simp: asleep_def)
  note si = sides [OF i(1)] and sj = sides [OF j]
  show ?thesis
  proof (cases "place_of t i")
    case Loop
    then show ?thesis using ok served_go [OF ok(3) j i(1), of "if iter t i < TIMES then TakeEnter else Quit"]
      by (cases "j = i") (auto simp: phil_code_def phil_ok_def apart_ok_def served_def split: phil_state.splits)
  next
    case TakeEnter
    then show ?thesis using ok served_go [OF ok(3) j i(1), of TakeSet]
      by (cases "j = i") (auto simp: phil_code_def phil_ok_def apart_ok_def served_def split: phil_state.splits)
  next
    case TakeSet
    have "state_sema t i = THINKING" using ok(4) TakeSet by (auto simp: phil_ok_def split: phil_state.splits)
    then show ?thesis using ok si sj TakeSet
      by (cases "j = i") (auto simp: phil_code_def phil_ok_def apart_ok_def served_def split: phil_state.splits)
  next
    case TakeTest
    have "state_sema t i = HUNGRY" using ok(4) TakeTest by (auto simp: phil_ok_def split: phil_state.splits)
    then have "phil_ok (phil_code i t) i" using ok(4) TakeTest
      by (auto simp: phil_code_def phil_ok_def phi_test_sema_def a_up_def)
    moreover have "phil_ok (phil_code i t) j" if "j \<noteq> i"
      using that ok(1) TakeTest phil_ok_cong [of "phil_code i t" j t] by (simp add: phil_code_def test_other)
    moreover have "served (phil_code i t) i"
      using test_serves [of i t] TakeTest si by (auto simp: phil_code_def served_def)
    moreover have "served (phil_code i t) j" if "j \<noteq> i"
      using served_test [OF ok(3) j, of i] that TakeTest by (auto simp: phil_code_def served_def)
    moreover have "apart_ok (phil_code i t) j" using test_apart [OF all i(1) j] TakeTest by (simp add: phil_code_def apart_ok_def)
    ultimately show ?thesis by (cases "j = i") auto
  next
    case TakeUp
    then show ?thesis using ok served_go [OF ok(3) j i(1), of TakeDown]
      by (cases "j = i") (auto simp: phil_code_def phil_ok_def apart_ok_def served_def split: phil_state.splits)
  next
    case TakeDown
    then show ?thesis using ok served_go [OF ok(3) j i(1), of PutEnter]
      by (cases "j = i") (auto simp: phil_code_def phil_ok_def apart_ok_def served_def a_down_def split: phil_state.splits)
  next
    case PutEnter
    then show ?thesis using ok served_go [OF ok(3) j i(1), of PutSet] awake
      by (cases "j = i") (auto simp: phil_code_def phil_ok_def apart_ok_def served_def split: phil_state.splits)
  next
    case PutSet
    have "state_sema t i = EATING" using ok(4) PutSet by (auto simp: phil_ok_def split: phil_state.splits)
    then show ?thesis using ok si sj PutSet
      by (cases "j = i") (auto simp: phil_code_def phil_ok_def apart_ok_def served_def split: phil_state.splits)
  next
    case PutLeft
    then have think: "state_sema t i = THINKING" using ok(4) by (auto simp: phil_ok_def split: phil_state.splits)
    have nt: "place_of t j \<noteq> TakeTest"
      using alone [OF h inside_now [of t i] inside_test [OF h, of j]] PutLeft i j by auto
    have "phil_ok (phil_code i t) j" 
    proof (cases "j = i")
      case True
      then show ?thesis using ok(4) PutLeft si think by (auto simp: phil_code_def phil_ok_def test_other)
    next
      case False
      then have "phil_ok (phil_code i t) j = phil_ok (phi_test_sema (LEFT i) t) j"
        using PutLeft by (intro phil_ok_cong) (simp_all add: phil_code_def)
      then show ?thesis using test_phil_ok [OF ok(1) nt] by simp
    qed
    moreover have "apart_ok (phil_code i t) j" using test_apart [OF all si(1) j] PutLeft by (simp add: phil_code_def apart_ok_def)
    moreover have "served (phil_code i t) j"
    proof (cases "j = LEFT i")
      case True
      then show ?thesis using test_serves [of j t] PutLeft by (auto simp: phil_code_def served_def)
    next
      case False
      then have "RIGHT j \<noteq> i" using sj(3) by auto
      then show ?thesis using served_test [OF ok(3) j, of "LEFT i"] PutLeft si think False nt
        by (cases "j = i") (auto simp: phil_code_def served_def test_other)
    qed
    ultimately show ?thesis by simp
  next
    case PutRight
    then have think: "state_sema t i = THINKING" using ok(4) by (auto simp: phil_ok_def split: phil_state.splits)
    have nt: "place_of t j \<noteq> TakeTest"
      using alone [OF h inside_now [of t i] inside_test [OF h, of j]] PutRight i j by auto
    have "phil_ok (phil_code i t) j" 
    proof (cases "j = i")
      case True
      then show ?thesis using ok(4) PutRight si think by (auto simp: phil_code_def phil_ok_def test_other)
    next
      case False
      then have "phil_ok (phil_code i t) j = phil_ok (phi_test_sema (RIGHT i) t) j"
        using PutRight by (intro phil_ok_cong) (simp_all add: phil_code_def)
      then show ?thesis using test_phil_ok [OF ok(1) nt] by simp
    qed
    moreover have "apart_ok (phil_code i t) j" using test_apart [OF all si(2) j] PutRight by (simp add: phil_code_def apart_ok_def)
    moreover have "served (phil_code i t) j"
    proof (cases "j = RIGHT i")
      case True
      then show ?thesis using test_serves [of j t] PutRight by (auto simp: phil_code_def served_def)
    next
      case False
      then have "LEFT j \<noteq> i" using sj(4) by auto
      then show ?thesis using served_test [OF ok(3) j, of "RIGHT i"] PutRight si think False nt
        by (cases "j = i") (auto simp: phil_code_def served_def test_other)
    qed
    ultimately show ?thesis by simp
  next
    case PutUp
    then show ?thesis using ok served_go [OF ok(3) j i(1), of Loop]
      by (cases "j = i") (auto simp: phil_code_def phil_ok_def apart_ok_def served_def split: phil_state.splits)
  next
    case Quit
    then show ?thesis using ok by (simp add: phil_code_def)
  qed
qed


lemma phil_code_mutex:
  assumes h: "mutex_ok t h" and i: "i < PHIL_N" "\<not> asleep t i"
  shows "\<exists>h'. mutex_ok (phil_code i t) h'"
proof -
  let ?p = "place_of (phil_code i t) i"
  have pl: "place_of (phil_code i t) = (place_of t)(i := ?p)"
    by (cases "place_of t i") (auto simp: phil_code_def)
  consider "place_of t i \<in> {TakeEnter, PutEnter}" | "place_of t i \<in> {TakeUp, PutUp}"
    | "place_of t i \<notin> {TakeEnter, PutEnter, TakeUp, PutUp}" by blast
  then show ?thesis
  proof cases
    case 1
    then show ?thesis using mutex_enter [OF h _ pl i 1] by (auto simp: phil_code_def)
  next
    case 2
    have "inside t i" using 2 i(2) by (intro inside_now) auto
    then show ?thesis using mutex_leave [OF h _ pl i(1)] 2 by (auto simp: phil_code_def)
  next
    case 3
    have "mutex (phil_code i t) = mutex t"
      using 3 by (cases "place_of t i") (auto simp: phil_code_def)
    moreover have "?p \<in> {TakeSet, TakeTest, TakeUp, PutSet, PutLeft, PutRight, PutUp} \<longleftrightarrow>
         place_of t i \<in> {TakeSet, TakeTest, TakeUp, PutSet, PutLeft, PutRight, PutUp}"
      using 3 by (cases "place_of t i") (auto simp: phil_code_def)
    ultimately show ?thesis using mutex_unchanged [OF h _ pl i] by blast
  qed
qed

lemma dp_init_inv: "dp_inv dp_init"
proof -
  have "mutex_ok dp_init None" by (simp add: mutex_ok_def inside_def dp_init_def)
  then show ?thesis by (auto simp: dp_inv_def phil_ok_def apart_ok_def served_def dp_init_def)
qed

lemma dp_step_inv: "dp_inv t \<Longrightarrow> phil_step i t = Some t' \<Longrightarrow> dp_inv t'"
  using phil_code_keeps [of t i] phil_code_mutex [of t _ i] by (auto simp: dp_inv_def phil_step_def split: if_splits)

lemma dp_reach_inv: "dp_reach t \<Longrightarrow> dp_inv t"
  by (induction rule: dp_reach.induct) (auto intro: dp_init_inv dp_step_inv)

subsection \<open>Properties\<close>

text \<open>A thread eats from the moment its \<open>down(&s[i])\<close> succeeds until it has taken the mutex again.\<close>

definition eats :: "table \<Rightarrow> nat \<Rightarrow> bool" where
  "eats t i \<longleftrightarrow> place_of t i \<in> {PutEnter, PutSet} \<and> i \<notin> set (sleepers (phil_sem t i))"

lemma phil_ok_facts:
  assumes "phil_ok t i"
  shows "eats t i \<Longrightarrow> state_sema t i = EATING" "tokens (phil_sem t i) \<le> 1"
    and "k \<in> set (sleepers (phil_sem t i)) \<Longrightarrow> k = i \<and> place_of t i = PutEnter \<and> state_sema t i = HUNGRY"
    and "place_of t i = Quit \<Longrightarrow> state_sema t i = THINKING"
  using assms by (cases "state_sema t i"; fastforce simp: phil_ok_def eats_def)+

text \<open>
  C31: In no reachable state of the dining philosophers, whatever the interleaving of the threads, two
  neighbours eat at the same time, and a semaphore of a philosopher never holds more than one token.
\<close>

theorem philosophers_exclusion:
  assumes "dp_reach t" "i < PHIL_N"
  shows "\<not> (eats t i \<and> eats t (RIGHT i)) \<and> tokens (phil_sem t i) \<le> 1"
proof -
  have "phil_ok t i" "apart_ok t i" "phil_ok t (RIGHT i)"
    using dp_reach_inv [OF assms(1)] assms(2) sides(2) [OF assms(2)] by (simp_all add: dp_inv_def)
  then show ?thesis using phil_ok_facts(1,2) unfolding apart_ok_def by blast
qed

text \<open>
  C32: The philosophers never deadlock: in every reachable state in which some thread has not finished,
  some thread can take a step.
\<close>

theorem philosophers_no_deadlock:
  assumes "dp_reach t" "k < PHIL_N" "place_of t k \<noteq> Quit"
  shows "\<exists>i t'. phil_step i t = Some t'"
proof (rule ccontr)
  assume "\<not> ?thesis"
  then have stuck: "asleep t i" if "i < PHIL_N" "place_of t i \<noteq> Quit" for i
    using that by (auto simp: phil_step_def split: if_splits)
  obtain h where h: "mutex_ok t h" and ok: "\<forall>i < PHIL_N. phil_ok t i \<and> served t i"
    using dp_reach_inv [OF assms(1)] by (auto simp: dp_inv_def)
  have own: "place_of t i = PutEnter \<and> i = j" if "i \<in> set (sleepers (phil_sem t j))" "j < PHIL_N" for i j
    using that ok phil_ok_facts(3) by blast
  have "h = None"
  proof (rule ccontr)
    assume "h \<noteq> None"
    then obtain l where l: "l < PHIL_N" "inside t l" using h by (auto simp: mutex_ok_def)
    then have "asleep t l" "l \<notin> set (sleepers (mutex t))" "place_of t l \<noteq> PutEnter"
      using stuck [of l] by (auto simp: inside_def)
    then show False using own [of l] by (auto simp: asleep_def)
  qed
  then have m: "sleepers (mutex t) = []" using h by (simp add: mutex_ok_def)
  have q: "place_of t i = Quit \<or> place_of t i = PutEnter \<and> i \<in> set (sleepers (phil_sem t i))" if i5: "i < PHIL_N" for i
  proof (cases "place_of t i = Quit")
    case False
    then obtain j where "j < PHIL_N" "i \<in> set (sleepers (phil_sem t j))"
      using stuck [OF i5 False] m by (auto simp: asleep_def)
    then show ?thesis using own by blast
  qed simp
  have ne: "state_sema t i \<noteq> EATING" if "i < PHIL_N" for i
    using q [OF that] ok that phil_ok_facts(3,4) [of t i] by auto
  have "state_sema t k = HUNGRY" "place_of t k \<noteq> TakeTest"
    using q [OF assms(2)] ok assms(2,3) phil_ok_facts(3) [of t k k] by auto
  then have "place_of t (RIGHT k) = PutLeft \<or> place_of t (LEFT k) \<in> {PutLeft, PutRight}"
    using ok assms(2) ne sides [OF assms(2)] by (auto simp: served_def)
  then show False using q sides [OF assms(2)] by fastforce
qed

subsection \<open>A concrete run\<close>

text \<open>Philosopher 0 takes its forks.\<close>

definition phil_run :: "nat list \<Rightarrow> table option" where
  "phil_run is = fold (\<lambda>i t. Option.bind t (phil_step i)) is (Some dp_init)"

lemma phil_run_reach: "phil_run is = Some t \<Longrightarrow> dp_reach t"
proof (induction "is" arbitrary: t rule: rev_induct)
  case Nil
  then show ?case by (auto simp: phil_run_def intro: dp_reach.init)
next
  case (snoc i "is")
  then show ?case by (auto simp: phil_run_def bind_eq_Some_conv intro: dp_reach.step)
qed

lemma asleep_code: "asleep t i \<longleftrightarrow> i \<in> set (sleepers (mutex t)) \<or> list_ex (\<lambda>j. i \<in> set (sleepers (phil_sem t j))) [0, 1, 2, 3, 4]"
proof -
  have "{0..<PHIL_N} = {0, 1, 2, 3, 4}" by (auto simp: PHIL_N_def)
  then show ?thesis by (simp add: asleep_def)
qed

lemma sample_run: "\<exists>t. phil_run [0, 0, 0, 0, 0, 0] = Some t \<and> eats t 0 \<and> place_of t 0 \<noteq> Quit"
  by (simp add: phil_run_def phil_step_def asleep_code phil_code_def dp_init_def PHIL_N_def TIMES_def go_def set_state_def
      phi_test_sema_def LEFT_def RIGHT_def a_up_def a_down_def eats_def)

theorem philosophers_exclusion_witness: "\<exists>t. dp_reach t \<and> eats t 0 \<and> \<not> eats t (RIGHT 0)"
proof -
  obtain t where t: "phil_run [0, 0, 0, 0, 0, 0] = Some t" "eats t 0" using sample_run by blast
  have r: "dp_reach t" using phil_run_reach [OF t(1)] .
  show ?thesis using philosophers_exclusion [OF r, of 0] t(2) r by (auto simp: PHIL_N_def)
qed

theorem philosophers_no_deadlock_witness: "\<exists>t i t'. dp_reach t \<and> eats t 0 \<and> phil_step i t = Some t'"
proof -
  obtain t where t: "phil_run [0, 0, 0, 0, 0, 0] = Some t" "eats t 0" "place_of t 0 \<noteq> Quit"
    using sample_run by blast
  have r: "dp_reach t" using phil_run_reach [OF t(1)] .
  show ?thesis using philosophers_no_deadlock [OF r _ t(3)] t(2) r by (auto simp: PHIL_N_def)
qed

end
