(* ===== verification/Disk.thy ===== *)
theory Disk
  imports Prelude
begin

text \<open>
  Buffers and the disk: the transfer record \<open>struct iobuf\<close> (\<open>kern/fs/iobuf.c\<close>), the RAM disk behind the
  IDE interface (\<open>kern/driver/ramdisk.c\<close>, \<open>kern/driver/ide.c\<close>) and the block device \<open>disk0\<close>
  (\<open>kern/fs/devs/dev_disk0.c\<close>).

  A buffer is passed by value as the list of its bytes and returned updated. The fields of an \<open>iobuf\<close> are
  those of the code, \<open>io_base\<close> being the position reached in the buffer \<open>io_mem\<close>. The image of the disk is a
  byte memory indexed from \<open>iobase\<close>. A mutual exclusion semaphore is its value: the model follows one flow
  of control, in which \<open>down\<close> on a semaphore that is zero does not return.
  The static \<open>disk0_buffer\<close> is overwritten before each use and is therefore a local value.
\<close>

subsection \<open>Byte lists\<close>

definition slice :: "'a list \<Rightarrow> nat \<Rightarrow> nat \<Rightarrow> 'a list" where
  "slice xs p n = take n (drop p xs)"

definition overwrite :: "'a list \<Rightarrow> nat \<Rightarrow> 'a list \<Rightarrow> 'a list" where
  "overwrite xs p ys = take p xs @ ys @ drop (p + length ys) xs"

lemma length_slice [simp]: "p + n \<le> length xs \<Longrightarrow> length (slice xs p n) = n"
  by (simp add: slice_def)

lemma nth_slice: "i < n \<Longrightarrow> p + n \<le> length xs \<Longrightarrow> slice xs p n ! i = xs ! (p + i)"
  by (simp add: slice_def)

lemma slice_all [simp]: "slice xs 0 (length xs) = xs"
  by (simp add: slice_def)

lemma length_overwrite [simp]: "p + length ys \<le> length xs \<Longrightarrow> length (overwrite xs p ys) = length xs"
  by (simp add: overwrite_def)

lemma nth_overwrite:
  "p + length ys \<le> length xs \<Longrightarrow> i < length xs \<Longrightarrow>
   overwrite xs p ys ! i = (if p \<le> i \<and> i < p + length ys then ys ! (i - p) else xs ! i)"
  by (auto simp: overwrite_def nth_append min_def)

lemma overwrite_all: "length ys = length xs \<Longrightarrow> overwrite xs 0 ys = ys"
  by (simp add: overwrite_def)

lemma overwrite_Nil [simp]: "overwrite [] 0 ys = ys"
  by (simp add: overwrite_def)

lemma slice_overwrite_same:
  "p + length ys \<le> length xs \<Longrightarrow> slice (overwrite xs p ys) p (length ys) = ys"
  by (simp add: slice_def overwrite_def min_def)

lemma slice_eqI:
  "p + n \<le> length xs \<Longrightarrow> q + n \<le> length ys \<Longrightarrow> (\<And>i. i < n \<Longrightarrow> xs ! (p + i) = ys ! (q + i)) \<Longrightarrow>
   slice xs p n = slice ys q n"
  by (rule nth_equalityI) (simp_all add: nth_slice)

subsection \<open>Semaphores used as locks\<close>

definition down_sem :: "nat \<Rightarrow> nat option" where
  "down_sem v = (if v > 0 then Some (v - 1) else None)"

definition up_sem :: "nat \<Rightarrow> nat" where
  "up_sem v = v + 1"

lemma down_sem_Suc [simp]: "down_sem (Suc n) = Some n" "down_sem 1 = Some 0"
  by (simp_all add: down_sem_def)

subsection \<open>The transfer record (kern/fs/iobuf.c)\<close>

record iobuf =
  io_mem :: "u8 list"
  io_base :: nat
  io_offset :: int
  io_len :: nat
  io_resid :: nat

definition iobuf_used :: "iobuf \<Rightarrow> nat" where
  "iobuf_used iob = io_len iob - io_resid iob"

definition iobuf_init :: "u8 list \<Rightarrow> nat \<Rightarrow> int \<Rightarrow> iobuf" where
  "iobuf_init base len off = \<lparr>io_mem = base, io_base = 0, io_offset = off, io_len = len, io_resid = len\<rparr>"

definition iobuf_skip :: "iobuf \<Rightarrow> nat \<Rightarrow> iobuf option" where
  "iobuf_skip iob n =
     do {
       assert_that (io_resid iob \<ge> n);
       Some (iob\<lparr>io_base := io_base iob + n, io_offset := io_offset iob + int n, io_resid := io_resid iob - n\<rparr>)
     }"

text \<open>
  \<open>iobuf_move\<close>: the result is the return code, the other buffer \<open>data\<close>, the number of bytes moved and the
  transfer record; with \<open>m2b\<close> the bytes go from \<open>data\<close> to the record's buffer.
\<close>

definition iobuf_move :: "iobuf \<Rightarrow> u8 list \<Rightarrow> nat \<Rightarrow> bool \<Rightarrow> (err option \<times> u8 list \<times> nat \<times> iobuf) option" where
  "iobuf_move iob data len m2b =
     do {
       let alen = (if io_resid iob > len then len else io_resid iob);
       (data, iob, len) \<leftarrow>
         (if alen > 0 then do {
            let (data', mem') =
              (if m2b then (data, overwrite (io_mem iob) (io_base iob) (slice data 0 alen))
               else (overwrite data 0 (slice (io_mem iob) (io_base iob) alen), io_mem iob));
            iob' \<leftarrow> iobuf_skip (iob\<lparr>io_mem := mem'\<rparr>) alen;
            Some (data', iob', len - alen)
          } else Some (data, iob, len));
       Some (if len = 0 then None else Some E_NO_MEM, data, alen, iob)
     }"

definition iobuf_move_zeros :: "iobuf \<Rightarrow> nat \<Rightarrow> (err option \<times> nat \<times> iobuf) option" where
  "iobuf_move_zeros iob len =
     do {
       let alen = (if io_resid iob > len then len else io_resid iob);
       (iob, len) \<leftarrow>
         (if alen > 0 then do {
            iob' \<leftarrow> iobuf_skip (iob\<lparr>io_mem := overwrite (io_mem iob) (io_base iob) (replicate alen 0)\<rparr>) alen;
            Some (iob', len - alen)
          } else Some (iob, len));
       Some (if len = 0 then None else Some E_NO_MEM, alen, iob)
     }"

subsection \<open>The RAM disk and the IDE interface (kern/driver/ramdisk.c, ide.c)\<close>

record ramdisk =
  rd_valid :: bool
  rd_size :: u32
  rd_img :: "nat \<Rightarrow> u8"

abbreviation (input) SECTSIZE :: nat where "SECTSIZE \<equiv> 512"
abbreviation (input) MAX_NSECS :: u64 where "MAX_NSECS \<equiv> 128"
abbreviation (input) MAX_DISK_NSECS :: u32 where "MAX_DISK_NSECS \<equiv> 0x10000000"

text \<open>\<open>MIN(nsecs, dev->size - secno)\<close>, on unsigned 64-bit values; the test \<open>nsecs < 0\<close> that follows is
  never true of an unsigned value.\<close>

definition ramdisk_clip :: "ramdisk \<Rightarrow> u64 \<Rightarrow> u64 \<Rightarrow> u64" where
  "ramdisk_clip dev secno nsecs =
     (let r = ucast (rd_size dev) - secno in if nsecs < r then nsecs else r)"

definition ramdisk_read :: "ramdisk \<Rightarrow> u64 \<Rightarrow> u64 \<Rightarrow> u8 list" where
  "ramdisk_read dev secno nsecs =
     (let n = unat (ramdisk_clip dev secno nsecs); a = unat secno * SECTSIZE
      in map (rd_img dev) [a..<a + n * SECTSIZE])"

definition ramdisk_write :: "ramdisk \<Rightarrow> u64 \<Rightarrow> u8 list \<Rightarrow> u64 \<Rightarrow> ramdisk" where
  "ramdisk_write dev secno src nsecs =
     (let n = unat (ramdisk_clip dev secno nsecs); a = unat secno * SECTSIZE
      in dev\<lparr>rd_img := (\<lambda>i. if a \<le> i \<and> i < a + n * SECTSIZE then src ! (i - a) else rd_img dev i)\<rparr>)"

definition ide_device_size :: "ramdisk \<Rightarrow> nat" where
  "ide_device_size dev = (if rd_valid dev then unat (rd_size dev) else 0)"

definition ide_check :: "ramdisk \<Rightarrow> u32 \<Rightarrow> u64 \<Rightarrow> unit option" where
  "ide_check dev secno nsecs =
     do {
       assert_that (nsecs \<le> MAX_NSECS \<and> rd_valid dev);
       assert_that (secno < MAX_DISK_NSECS \<and> ucast secno + nsecs \<le> ucast MAX_DISK_NSECS)
     }"

definition ide_read_secs :: "ramdisk \<Rightarrow> u32 \<Rightarrow> u64 \<Rightarrow> u8 list option" where
  "ide_read_secs dev secno nsecs =
     do { ide_check dev secno nsecs; Some (ramdisk_read dev (ucast secno) nsecs) }"

definition ide_write_secs :: "ramdisk \<Rightarrow> u32 \<Rightarrow> u8 list \<Rightarrow> u64 \<Rightarrow> ramdisk option" where
  "ide_write_secs dev secno src nsecs =
     do { ide_check dev secno nsecs; Some (ramdisk_write dev (ucast secno) src nsecs) }"

subsection \<open>The block device disk0 (kern/fs/devs/dev_disk0.c)\<close>

record disk0 =
  d_rd :: ramdisk
  d_blocks :: nat
  d_blocksize :: nat
  disk0_sem :: nat

abbreviation (input) DISK0_BLKSIZE :: nat where "DISK0_BLKSIZE \<equiv> 4096"
abbreviation (input) DISK0_BUFSIZE :: nat where "DISK0_BUFSIZE \<equiv> 4 * DISK0_BLKSIZE"
abbreviation (input) DISK0_BLK_NSECT :: u32 where "DISK0_BLK_NSECT \<equiv> 8"

text \<open>A negative answer of the IDE layer would be a panic; \<open>ramdisk_read\<close> and \<open>ramdisk_write\<close> give none.\<close>

definition disk0_read_blks_nolock :: "disk0 \<Rightarrow> u32 \<Rightarrow> u32 \<Rightarrow> u8 list option" where
  "disk0_read_blks_nolock dv blkno nblks =
     ide_read_secs (d_rd dv) (blkno * DISK0_BLK_NSECT) (ucast (nblks * DISK0_BLK_NSECT))"

definition disk0_write_blks_nolock :: "disk0 \<Rightarrow> u8 list \<Rightarrow> u32 \<Rightarrow> u32 \<Rightarrow> disk0 option" where
  "disk0_write_blks_nolock dv buf blkno nblks =
     do {
       r \<leftarrow> ide_write_secs (d_rd dv) (blkno * DISK0_BLK_NSECT) buf (ucast (nblks * DISK0_BLK_NSECT));
       Some (dv\<lparr>d_rd := r\<rparr>)
     }"

partial_function (option) disk0_io_loop ::
    "disk0 \<Rightarrow> iobuf \<Rightarrow> nat \<Rightarrow> u32 \<Rightarrow> bool \<Rightarrow> (iobuf \<times> disk0) option" where
  "disk0_io_loop dv iob resid blkno wr =
     (if resid \<noteq> 0 then
        (if wr then do {
           (ret, buf, copied, iob) \<leftarrow> iobuf_move iob [] DISK0_BUFSIZE False;
           assert_that (copied \<noteq> 0 \<and> copied \<le> resid \<and> copied mod DISK0_BLKSIZE = 0);
           let nblks = word_of_nat (copied div DISK0_BLKSIZE);
           dv \<leftarrow> disk0_write_blks_nolock dv buf blkno nblks;
           disk0_io_loop dv iob (resid - copied) (blkno + nblks) wr
         } else do {
           let alen = (if DISK0_BUFSIZE > resid then resid else DISK0_BUFSIZE);
           let nblks = word_of_nat (alen div DISK0_BLKSIZE);
           buf \<leftarrow> disk0_read_blks_nolock dv blkno nblks;
           (ret, buf, copied, iob) \<leftarrow> iobuf_move iob buf alen True;
           assert_that (copied = alen \<and> copied mod DISK0_BLKSIZE = 0);
           disk0_io_loop dv iob (resid - copied) (blkno + nblks) wr
         })
      else Some (iob, dv))"

definition disk0_io :: "disk0 \<Rightarrow> iobuf \<Rightarrow> bool \<Rightarrow> (err option \<times> iobuf \<times> disk0) option" where
  "disk0_io dv iob wr =
     (let off = io_offset iob; resid = io_resid iob;
          blkno = word_of_int (off div int DISK0_BLKSIZE) :: u32;
          nblks = word_of_nat (resid div DISK0_BLKSIZE) :: u32 in
      if off mod int DISK0_BLKSIZE \<noteq> 0 \<or> resid mod DISK0_BLKSIZE \<noteq> 0 then Some (Some E_INVAL, iob, dv)
      else if unat (blkno + nblks) > d_blocks dv then Some (Some E_INVAL, iob, dv)
      else if nblks = 0 then Some (None, iob, dv)
      else do {
        sem \<leftarrow> down_sem (disk0_sem dv);
        (iob, dv) \<leftarrow> disk0_io_loop (dv\<lparr>disk0_sem := sem\<rparr>) iob resid blkno wr;
        Some (None, iob, dv\<lparr>disk0_sem := up_sem (disk0_sem dv)\<rparr>)
      })"

definition disk0_device_init :: "ramdisk \<Rightarrow> bool \<Rightarrow> disk0 option" where
  "disk0_device_init r kmalloc_ok =
     do {
       assert_that (rd_valid r);
       assert_that kmalloc_ok;
       Some \<lparr>d_rd = r, d_blocks = ide_device_size r div unat DISK0_BLK_NSECT,
             d_blocksize = DISK0_BLKSIZE, disk0_sem = 1\<rparr>
     }"

subsection \<open>One block at a time\<close>

text \<open>
  \<open>disk_ok\<close>: the device is the whole of a valid disk that is small enough for the sector numbers of the
  IDE interface, and no transfer is in progress. \<open>disk_block\<close> and \<open>disk_write_block\<close> are the block-wise
  view of the image.
\<close>

definition disk_ok :: "disk0 \<Rightarrow> bool" where
  "disk_ok dv \<longleftrightarrow> rd_valid (d_rd dv) \<and> 8 * d_blocks dv \<le> unat (rd_size (d_rd dv))
     \<and> unat (rd_size (d_rd dv)) \<le> 0x10000000 \<and> disk0_sem dv = 1"

definition disk_block :: "disk0 \<Rightarrow> nat \<Rightarrow> u8 list" where
  "disk_block dv b = map (rd_img (d_rd dv)) [b * 4096..<b * 4096 + 4096]"

definition disk_write_block :: "disk0 \<Rightarrow> nat \<Rightarrow> u8 list \<Rightarrow> disk0" where
  "disk_write_block dv b bs = dv\<lparr>d_rd := (d_rd dv)\<lparr>rd_img :=
     (\<lambda>i. if b * 4096 \<le> i \<and> i < b * 4096 + 4096 then bs ! (i - b * 4096) else rd_img (d_rd dv) i)\<rparr>\<rparr>"

lemma length_disk_block [simp]: "length (disk_block dv b) = 4096"
  by (simp add: disk_block_def)

lemma nth_disk_block: "i < 4096 \<Longrightarrow> disk_block dv b ! i = rd_img (d_rd dv) (b * 4096 + i)"
  by (simp add: disk_block_def)

lemma disk_block_write:
  assumes "length bs = 4096"
  shows "disk_block (disk_write_block dv b bs) c = (if c = b then bs else disk_block dv c)"
proof (cases "c = b")
  case True
  then show ?thesis using assms
    by (intro nth_equalityI) (simp_all add: disk_block_def disk_write_block_def)
next
  case False
  have "\<not> (b * 4096 \<le> i \<and> i < b * 4096 + 4096)" if "c * 4096 \<le> i" "i < c * 4096 + 4096" for i
    using that False by (cases "c < b") auto
  then have "rd_img (d_rd (disk_write_block dv b bs)) i = rd_img (d_rd dv) i"
    if "c * 4096 \<le> i" "i < c * 4096 + 4096" for i
    using that by (auto simp: disk_write_block_def)
  then show ?thesis using False by (simp add: disk_block_def)
qed

lemma disk_write_block_simps [simp]:
  "d_blocks (disk_write_block dv b bs) = d_blocks dv"
  "d_blocksize (disk_write_block dv b bs) = d_blocksize dv"
  "disk0_sem (disk_write_block dv b bs) = disk0_sem dv"
  "disk_ok (disk_write_block dv b bs) = disk_ok dv"
  by (simp_all add: disk_write_block_def disk_ok_def)

text \<open>A transfer of one block that lies on the device addresses eight sectors of the disk.\<close>

lemma disk0_sectors:
  assumes ok: "disk_ok dv" and b: "b < d_blocks dv"
  shows "ide_check (d_rd dv) (word_of_nat b * 8) 8 = Some ()"
    and "unat (ramdisk_clip (d_rd dv) (ucast (word_of_nat b * 8 :: u32)) 8) = 8"
    and "unat (ucast (word_of_nat b * 8 :: u32) :: u64) = b * 8"
proof -
  let ?s = "word_of_nat b * 8 :: u32"
  have lim: "8 * b + 8 \<le> unat (rd_size (d_rd dv))" "unat (rd_size (d_rd dv)) \<le> 0x10000000"
    using ok b by (auto simp: disk_ok_def)
  have s: "unat ?s = b * 8"
    using lim by (simp add: unat_word_ariths unat_of_nat take_bit_eq_mod)
  have s64: "unat (ucast ?s :: u64) = b * 8"
    using lim by (simp add: s unsigned_ucast_eq take_bit_nat_eq_self)
  then show "unat (ucast ?s :: u64) = b * 8" .
  have z: "unat (ucast (rd_size (d_rd dv)) :: u64) = unat (rd_size (d_rd dv))"
    using lim by (simp add: unsigned_ucast_eq take_bit_nat_eq_self)
  have le: "(ucast ?s :: u64) \<le> ucast (rd_size (d_rd dv))"
    unfolding word_le_nat_alt s64 z using lim by simp
  have d: "unat (ucast (rd_size (d_rd dv)) - ucast ?s :: u64) = unat (rd_size (d_rd dv)) - b * 8"
    using unat_sub [OF le] by (simp add: s64 z)
  show "unat (ramdisk_clip (d_rd dv) (ucast ?s) 8) = 8"
    using lim by (auto simp: ramdisk_clip_def Let_def word_less_nat_alt d)
  have "?s < 0x10000000" unfolding word_less_nat_alt s using lim by simp
  moreover have "(ucast ?s :: u64) + 8 \<le> 0x10000000"
    unfolding word_le_nat_alt using lim by (simp add: unat_word_ariths s64)
  ultimately show "ide_check (d_rd dv) ?s 8 = Some ()"
    using ok by (simp add: ide_check_def disk_ok_def)
qed

lemma disk0_read_one:
  assumes "disk_ok dv" "b < d_blocks dv"
  shows "disk0_read_blks_nolock dv (word_of_nat b) 1 = Some (disk_block dv b)"
  using disk0_sectors [OF assms]
  by (simp add: disk0_read_blks_nolock_def ide_read_secs_def ramdisk_read_def Let_def disk_block_def mult.commute)

lemma disk0_write_one:
  assumes "disk_ok dv" "b < d_blocks dv"
  shows "disk0_write_blks_nolock dv bs (word_of_nat b) 1 = Some (disk_write_block dv b bs)"
  using disk0_sectors [OF assms]
  by (simp add: disk0_write_blks_nolock_def ide_write_secs_def ramdisk_write_def Let_def disk_write_block_def mult.commute)

lemma disk0_io_block:
  assumes ok: "disk_ok dv" and b: "b < d_blocks dv"
  shows "disk0_io dv (iobuf_init buf 4096 (int b * 4096)) wr =
    disk0_io_loop (dv\<lparr>disk0_sem := 0\<rparr>) (iobuf_init buf 4096 (int b * 4096)) 4096 (word_of_nat b) wr
      \<bind> (\<lambda>(iob, dv). Some (None, iob, dv\<lparr>disk0_sem := up_sem (disk0_sem dv)\<rparr>))"
proof -
  have lim: "8 * b + 8 \<le> unat (rd_size (d_rd dv))" "unat (rd_size (d_rd dv)) \<le> 0x10000000"
    using ok b by (auto simp: disk_ok_def)
  have n: "unat (word_of_nat b + 1 :: u32) = b + 1"
    using lim by (simp add: unat_word_ariths unat_of_nat take_bit_eq_mod)
  then show ?thesis
    using ok b n by (simp add: disk0_io_def iobuf_init_def disk_ok_def)
qed

lemma disk0_io_read:
  assumes ok: "disk_ok dv" and b: "b < d_blocks dv" and len: "length buf = 4096"
  shows "\<exists>iob. disk0_io dv (iobuf_init buf 4096 (int b * 4096)) False = Some (None, iob, dv)
     \<and> io_mem iob = disk_block dv b"
proof -
  let ?dv = "dv\<lparr>disk0_sem := 0\<rparr>"
  have r: "disk0_read_blks_nolock ?dv (word_of_nat b) 1 = Some (disk_block dv b)"
    using disk0_read_one [OF assms(1,2)] by (simp add: disk0_read_blks_nolock_def)
  have "dv\<lparr>disk0_sem := Suc 0\<rparr> = dv" using ok by (simp add: disk_ok_def)
  then show ?thesis
    unfolding disk0_io_block [OF ok b]
    by (simp add: disk0_io_loop.simps [of ?dv] r iobuf_init_def iobuf_move_def
        iobuf_skip_def bind_assert overwrite_all len slice_def disk0_io_loop.simps [of _ _ 0] up_sem_def)
qed

lemma disk0_io_write:
  assumes ok: "disk_ok dv" and b: "b < d_blocks dv" and len: "length buf = 4096"
  shows "\<exists>iob. disk0_io dv (iobuf_init buf 4096 (int b * 4096)) True
     = Some (None, iob, disk_write_block dv b buf) \<and> io_mem iob = buf"
proof -
  let ?dv = "dv\<lparr>disk0_sem := 0\<rparr>"
  have r: "disk0_write_blks_nolock ?dv buf (word_of_nat b) 1 = Some ((disk_write_block dv b buf)\<lparr>disk0_sem := 0\<rparr>)"
    using disk0_sectors [OF assms(1,2)]
    by (simp add: disk0_write_blks_nolock_def ide_write_secs_def ramdisk_write_def Let_def
        disk_write_block_def mult.commute)
  have "(disk_write_block dv b buf)\<lparr>disk0_sem := Suc 0\<rparr> = disk_write_block dv b buf"
    using ok by (simp add: disk_ok_def disk_write_block_def)
  then show ?thesis
    unfolding disk0_io_block [OF ok b]
    by (simp add: disk0_io_loop.simps [of ?dv] r iobuf_init_def iobuf_move_def
        iobuf_skip_def bind_assert overwrite_all len slice_def disk0_io_loop.simps [of _ _ 0] up_sem_def)
qed

end
