(* ===== verification/Bitmap.thy ===== *)
theory Bitmap
  imports Prelude
begin

text \<open>
  The free-block bitmap of the Simple FS (\<open>kern/fs/sfs/bitmap.c\<close>): an array of 32-bit words in
  which a set bit marks a free block. The state is \<open>struct bitmap\<close> with its word array; the
  two calls to \<open>kmalloc\<close> in \<open>bitmap_create\<close> are represented by whether they succeed.
  The abstraction is the set of free indices; \<open>bitmap_alloc\<close> takes its minimum.
\<close>

unbundle bit_operations_syntax

record bitmap =
  nbits :: u32
  nwords :: u32
  bmap :: "u32 list"

abbreviation WORD_BITS :: nat where "WORD_BITS \<equiv> 32"

text \<open>\<open>1 << offset\<close> as a \<open>WORD_TYPE\<close>.\<close>

definition mask1 :: "nat \<Rightarrow> u32" where
  "mask1 offset = push_bit offset 1"

text \<open>The loop of \<open>bitmap_create\<close> that marks the leftover bits of the last word in use.\<close>

function mark_leftover :: "nat \<Rightarrow> u32 \<Rightarrow> u32" where
  "mark_leftover overbits w =
     (if overbits < WORD_BITS then mark_leftover (Suc overbits) (w XOR mask1 overbits) else w)"
  by pat_completeness auto
termination by (relation "measure (\<lambda>(o', w). 32 - o')") auto

declare mark_leftover.simps [simp del]

definition bitmap_create :: "bool \<Rightarrow> bool \<Rightarrow> u32 \<Rightarrow> bitmap option option" where
  "bitmap_create kmalloc_struct kmalloc_map n =
     do {
       assert_that (unat n \<noteq> 0 \<and> unat n + WORD_BITS > unat n);
       if \<not> kmalloc_struct then Some None else do {
         let nw = (unat n + WORD_BITS - 1) div WORD_BITS;
         if \<not> kmalloc_map then Some None else do {
           let m = replicate nw (- 1 :: u32);
           if unat n \<noteq> nw * WORD_BITS then do {
             let ix = nw - 1;
             let overbits = unat n - ix * WORD_BITS;
             assert_that (unat n div WORD_BITS = ix);
             assert_that (overbits > 0 \<and> overbits < WORD_BITS);
             Some (Some \<lparr>nbits = n, nwords = word_of_nat nw, bmap = m[ix := mark_leftover overbits (m ! ix)]\<rparr>)
           }
           else Some (Some \<lparr>nbits = n, nwords = word_of_nat nw, bmap = m\<rparr>)
         }
       }
     }"

text \<open>The two nested loops of \<open>bitmap_alloc\<close>.\<close>

function find_offset :: "u32 \<Rightarrow> nat \<Rightarrow> nat option" where
  "find_offset w offset =
     (if offset < WORD_BITS then
        (if w AND mask1 offset \<noteq> 0 then Some offset else find_offset w (Suc offset))
      else None)"
  by pat_completeness auto
termination by (relation "measure (\<lambda>(w, o'). 32 - o')") auto

declare find_offset.simps [simp del]

function bitmap_alloc_from :: "bitmap \<Rightarrow> nat \<Rightarrow> ((err + u32) \<times> bitmap) option" where
  "bitmap_alloc_from b ix =
     (if ix < unat (nwords b) then
        (if bmap b ! ix \<noteq> 0 then
           (case find_offset (bmap b ! ix) 0 of
              None \<Rightarrow> None
            | Some offset \<Rightarrow>
                Some (Inr (word_of_nat (ix * WORD_BITS + offset)),
                      b\<lparr>bmap := (bmap b)[ix := bmap b ! ix XOR mask1 offset]\<rparr>))
         else bitmap_alloc_from b (Suc ix))
      else Some (Inl E_NO_MEM, b))"
  by pat_completeness auto
termination by (relation "measure (\<lambda>(b, ix). unat (nwords b) - ix)") auto

declare bitmap_alloc_from.simps [simp del]

definition bitmap_alloc :: "bitmap \<Rightarrow> ((err + u32) \<times> bitmap) option" where
  "bitmap_alloc b = bitmap_alloc_from b 0"

definition bitmap_translate :: "bitmap \<Rightarrow> u32 \<Rightarrow> (nat \<times> u32) option" where
  "bitmap_translate b index =
     do {
       assert_that (index < nbits b);
       let ix = unat index div WORD_BITS;
       let offset = unat index mod WORD_BITS;
       Some (ix, mask1 offset)
     }"

definition bitmap_test :: "bitmap \<Rightarrow> u32 \<Rightarrow> bool option" where
  "bitmap_test b index =
     do { (ix, mask) \<leftarrow> bitmap_translate b index; Some (bmap b ! ix AND mask \<noteq> 0) }"

definition bitmap_free :: "bitmap \<Rightarrow> u32 \<Rightarrow> bitmap option" where
  "bitmap_free b index =
     do {
       (ix, mask) \<leftarrow> bitmap_translate b index;
       assert_that (bmap b ! ix AND mask = 0);
       Some (b\<lparr>bmap := (bmap b)[ix := bmap b ! ix OR mask]\<rparr>)
     }"

definition bitmap_getdata :: "bitmap \<Rightarrow> u32 list \<times> nat" where
  "bitmap_getdata b = (bmap b, 4 * unat (nwords b))"

subsection \<open>Abstraction: the set of free indices\<close>

definition bitmap_free_at :: "bitmap \<Rightarrow> nat \<Rightarrow> bool" where
  "bitmap_free_at b i \<longleftrightarrow> i < WORD_BITS * length (bmap b) \<and> bit (bmap b ! (i div WORD_BITS)) (i mod WORD_BITS)"

definition free_indices :: "bitmap \<Rightarrow> nat set" where
  "free_indices b = {i. bitmap_free_at b i}"

definition bitmap_inv :: "bitmap \<Rightarrow> bool" where
  "bitmap_inv b \<longleftrightarrow> length (bmap b) = unat (nwords b)
     \<and> unat (nwords b) = (unat (nbits b) + WORD_BITS - 1) div WORD_BITS
     \<and> free_indices b \<subseteq> {..<unat (nbits b)}"

subsection \<open>Bits of words\<close>

lemma bit_mask1: "bit (mask1 n) i \<longleftrightarrow> i = n \<and> n < 32"
  by (auto simp: mask1_def bit_simps)

lemma mask_zero_iff: "n < 32 \<Longrightarrow> (w AND mask1 n = 0) \<longleftrightarrow> \<not> bit w n"
proof -
  assume n: "n < 32"
  have "w AND mask1 n = 0 \<longleftrightarrow> (\<forall>i<32. \<not> bit (w AND mask1 n) i)"
    using bit_word_eqI [of "w AND mask1 n" 0] by auto
  with n show ?thesis by (auto simp: bit_and_iff bit_mask1)
qed

lemma bit_xor_mask: "i < 32 \<Longrightarrow> n < 32 \<Longrightarrow> bit (w XOR mask1 n) i = (bit w i \<noteq> (i = n))"
  by (auto simp: bit_xor_iff bit_mask1)

lemma bit_or_mask: "i < 32 \<Longrightarrow> n < 32 \<Longrightarrow> bit (w OR mask1 n) i = (bit w i \<or> i = n)"
  by (auto simp: bit_or_iff bit_mask1)

lemma bit_mark_leftover:
  "i < 32 \<Longrightarrow> bit (mark_leftover k w) i = (bit w i \<noteq> (k \<le> i))"
proof (induction k w rule: mark_leftover.induct)
  case (1 k w)
  show ?case
  proof (cases "k < 32")
    case True
    then have "mark_leftover k w = mark_leftover (Suc k) (w XOR mask1 k)"
      by (simp add: mark_leftover.simps [of k])
    with True 1 have "bit (mark_leftover k w) i = (bit (w XOR mask1 k) i \<noteq> (Suc k \<le> i))"
      by simp
    also have "bit (w XOR mask1 k) i = (bit w i \<noteq> (i = k))"
      using True 1 by (simp add: bit_xor_mask)
    finally show ?thesis by auto
  next
    case False
    with 1 show ?thesis by (simp add: mark_leftover.simps [of k])
  qed
qed

lemma find_offset_Some:
  "find_offset w k = Some n \<Longrightarrow> k \<le> n \<and> n < 32 \<and> bit w n \<and> (\<forall>j. k \<le> j \<and> j < n \<longrightarrow> \<not> bit w j)"
proof (induction w k rule: find_offset.induct)
  case (1 w k)
  show ?case
  proof (cases "k < 32 \<and> \<not> bit w k")
    case True
    then have "find_offset w k = find_offset w (Suc k)" and "w AND mask1 k = 0"
      by (simp_all add: find_offset.simps [of w k] mask_zero_iff)
    with "1.prems" have "find_offset w (Suc k) = Some n" by simp
    with "1.IH" True \<open>w AND mask1 k = 0\<close>
    have n: "Suc k \<le> n \<and> n < 32 \<and> bit w n \<and> (\<forall>j. Suc k \<le> j \<and> j < n \<longrightarrow> \<not> bit w j)"
      by blast
    have "\<not> bit w j" if "k \<le> j" "j < n" for j
      using n True that by (cases "j = k") auto
    with n show ?thesis by auto
  next
    case False
    with "1.prems" show ?thesis
      by (auto simp: find_offset.simps [of w k] mask_zero_iff split: if_splits)
  qed
qed

lemma find_offset_None: "find_offset w k = None \<Longrightarrow> k \<le> j \<Longrightarrow> j < 32 \<Longrightarrow> \<not> bit w j"
proof (induction w k rule: find_offset.induct)
  case (1 w k)
  then have k: "k < 32" by simp
  with 1 have "w AND mask1 k = 0" "find_offset w (Suc k) = None"
    by (auto simp: find_offset.simps [of w k] split: if_splits)
  with 1 k show ?case by (cases "j = k") (auto simp: mask_zero_iff)
qed

lemma word32_nonzero_bit: "(w::u32) \<noteq> 0 \<Longrightarrow> \<exists>j<32. bit w j"
  using bit_word_eqI [of w 0] by auto

lemma find_offset_total: "w \<noteq> 0 \<Longrightarrow> \<exists>n. find_offset w 0 = Some n"
  using find_offset_None [of w 0] word32_nonzero_bit [of w] by (cases "find_offset w 0") auto

subsection \<open>Correctness\<close>

lemma div_eq_iff32: "(i div 32 = k) = (32 * k \<le> i \<and> i < 32 * k + 32)" for i k :: nat
  by auto

text \<open>One word is read or written at a time.\<close>

lemma bitmap_free_at_update:
  assumes "k < length (bmap b)"
  shows "bitmap_free_at (b\<lparr>bmap := (bmap b)[k := w]\<rparr>) i =
    (if i div 32 = k then bit w (i mod 32) else bitmap_free_at b i)"
  using assms by (auto simp: bitmap_free_at_def nth_list_update div_eq_iff32)

lemma bitmap_free_at_word:
  "k < length (bmap b) \<Longrightarrow> n < 32 \<Longrightarrow> bitmap_free_at b (k * 32 + n) = bit (bmap b ! k) n"
  by (simp add: bitmap_free_at_def)

lemma bitmap_alloc_from_spec:
  assumes "length (bmap b) = unat (nwords b)" "\<forall>i < 32 * k. \<not> bitmap_free_at b i"
  shows "(free_indices b = {} \<and> bitmap_alloc_from b k = Some (Inl E_NO_MEM, b)) \<or>
    (\<exists>i b'. bitmap_alloc_from b k = Some (Inr (word_of_nat i), b') \<and> bitmap_free_at b i
       \<and> (\<forall>j<i. \<not> bitmap_free_at b j) \<and> free_indices b' = free_indices b - {i}
       \<and> nbits b' = nbits b \<and> nwords b' = nwords b \<and> length (bmap b') = length (bmap b))"
  using assms
proof (induction b k rule: bitmap_alloc_from.induct)
  case (1 b k)
  show ?case
  proof (cases "k < unat (nwords b)")
    case False
    then have "free_indices b = {}"
      using 1 by (auto simp: free_indices_def bitmap_free_at_def)
    with False show ?thesis by (simp add: bitmap_alloc_from.simps [of b k])
  next
    case True
    note k = this
    show ?thesis
    proof (cases "bmap b ! k = 0")
      case True
      have low: "\<not> bitmap_free_at b i" if "i < 32 * Suc k" for i
      proof (cases "i < 32 * k")
        case False
        with that have "i div 32 = k" by (simp add: div_eq_iff32)
        with True show ?thesis by (simp add: bitmap_free_at_def)
      qed (use "1.prems" in blast)
      have "bitmap_alloc_from b k = bitmap_alloc_from b (Suc k)"
        using True k by (simp add: bitmap_alloc_from.simps [of b k])
      then show ?thesis using "1.IH" [OF k] True low "1.prems"(1) by metis
    next
      case False
      then obtain n where n: "find_offset (bmap b ! k) 0 = Some n" using find_offset_total by blast
      let ?b = "b\<lparr>bmap := (bmap b)[k := bmap b ! k XOR mask1 n]\<rparr>"
      from n have n': "n < 32" "bit (bmap b ! k) n" "\<forall>j<n. \<not> bit (bmap b ! k) j"
        using find_offset_Some by auto
      have res: "bitmap_alloc_from b k = Some (Inr (word_of_nat (k * 32 + n)), ?b)"
        using k n False by (simp add: bitmap_alloc_from.simps [of b k])
      have low: "\<not> bitmap_free_at b j" if "j < k * 32 + n" for j
      proof (cases "j < 32 * k")
        case False
        with that n'(1) have j: "j div 32 = k" by (simp add: div_eq_iff32)
        with that div_mult_mod_eq [of j 32] have "j mod 32 < n" by linarith
        with n'(3) j show ?thesis by (simp add: bitmap_free_at_def)
      qed (use "1.prems" in blast)
      have "free_indices ?b = free_indices b - {k * 32 + n}"
      proof -
        have "bitmap_free_at ?b i = (bitmap_free_at b i \<and> i \<noteq> k * 32 + n)" for i
        proof -
          have "i = k * 32 + n \<longleftrightarrow> i div 32 = k \<and> i mod 32 = n" using n' by auto
          then show ?thesis using k 1 n'
            by (subst bitmap_free_at_update) (auto simp: bit_xor_mask bitmap_free_at_def)
        qed
        then show ?thesis by (auto simp: free_indices_def)
      qed
      moreover have "bitmap_free_at b (k * 32 + n)"
        using n' k "1.prems"(1) by (simp add: bitmap_free_at_word)
      ultimately show ?thesis
        using res low
        by (intro disjI2 exI [of _ "k * 32 + n"] exI [of _ ?b] conjI) simp_all
    qed
  qed
qed

text \<open>Allocation returns the least free index and marks exactly it; it never panics.\<close>

lemma bitmap_alloc_least:
  assumes "bitmap_inv b" "free_indices b \<noteq> {}"
  shows "\<exists>b' i. bitmap_alloc b = Some (Inr i, b') \<and> unat i = (LEAST j. j \<in> free_indices b)
    \<and> free_indices b' = free_indices b - {unat i} \<and> bitmap_inv b'"
proof -
  obtain i b' where i: "bitmap_alloc b = Some (Inr (word_of_nat i), b')" "bitmap_free_at b i"
    "\<forall>j<i. \<not> bitmap_free_at b j" "free_indices b' = free_indices b - {i}"
    "nbits b' = nbits b" "nwords b' = nwords b" "length (bmap b') = length (bmap b)"
    using bitmap_alloc_from_spec [of b 0] assms by (auto simp: bitmap_inv_def bitmap_alloc_def)
  have "i < unat (nbits b)" using i(2) assms(1) by (auto simp: bitmap_inv_def free_indices_def)
  then have u: "unat (word_of_nat i :: u32) = i"
    using unat_u32_less [of "nbits b"] by (simp add: unat_of_nat_u32)
  have "(LEAST j. j \<in> free_indices b) = i"
    by (rule Least_equality) (use i in \<open>auto simp: free_indices_def not_less [symmetric]\<close>)
  with i u assms(1) show ?thesis by (auto simp: bitmap_inv_def)
qed

lemma bitmap_alloc_full:
  "bitmap_inv b \<Longrightarrow> free_indices b = {} \<Longrightarrow> bitmap_alloc b = Some (Inl E_NO_MEM, b)"
  using bitmap_alloc_from_spec [of b 0]
  by (auto simp: bitmap_inv_def bitmap_alloc_def free_indices_def)

lemma bitmap_index_word:
  assumes "bitmap_inv b" "x < nbits b"
  shows "unat x div 32 < length (bmap b)"
proof -
  have "unat x < unat (nbits b)" using assms(2) by (simp add: word_less_nat_alt)
  then show ?thesis using assms(1) by (simp add: bitmap_inv_def)
qed

lemma bitmap_test_spec:
  "bitmap_inv b \<Longrightarrow> bitmap_test b x = (if x < nbits b then Some (unat x \<in> free_indices b) else None)"
  using bitmap_index_word [of b x]
  by (auto simp: bitmap_test_def bitmap_translate_def mask_zero_iff free_indices_def
      bitmap_free_at_def bind_assert)

lemma bitmap_free_spec:
  assumes "bitmap_inv b"
  shows "(x < nbits b \<and> unat x \<notin> free_indices b \<longrightarrow>
      (\<exists>b'. bitmap_free b x = Some b' \<and> free_indices b' = insert (unat x) (free_indices b) \<and> bitmap_inv b'))
    \<and> (\<not> (x < nbits b \<and> unat x \<notin> free_indices b) \<longrightarrow> bitmap_free b x = None)"
proof (cases "x < nbits b")
  case True
  let ?k = "unat x div 32" let ?n = "unat x mod 32"
  let ?b = "b\<lparr>bmap := (bmap b)[?k := bmap b ! ?k OR mask1 ?n]\<rparr>"
  have k: "?k < length (bmap b)" by (rule bitmap_index_word [OF assms True])
  have "free_indices ?b = insert (unat x) (free_indices b)"
  proof -
    have "bitmap_free_at ?b i = (bitmap_free_at b i \<or> i = unat x)" for i
    proof -
      have "i = unat x \<longleftrightarrow> i div 32 = ?k \<and> i mod 32 = ?n" by (metis div_mod_decomp)
      moreover have "bitmap_free_at b i = bit (bmap b ! ?k) (i mod 32)" if "i div 32 = ?k"
        using that k by (auto simp: bitmap_free_at_def)
      ultimately show ?thesis using k
        by (subst bitmap_free_at_update) (auto simp: bit_or_mask)
    qed
    then show ?thesis by (auto simp: free_indices_def)
  qed
  moreover have "unat x < unat (nbits b)" using True by (simp add: word_less_nat_alt)
  ultimately have "bitmap_inv ?b" using assms by (auto simp: bitmap_inv_def)
  moreover have "unat x \<in> free_indices b \<longleftrightarrow> bit (bmap b ! ?k) ?n"
    using k by (auto simp: free_indices_def bitmap_free_at_def)
  ultimately show ?thesis using True \<open>free_indices ?b = _\<close>
    by (auto simp: bitmap_free_def bitmap_translate_def mask_zero_iff bind_assert)
qed (simp add: bitmap_free_def bitmap_translate_def bind_assert)

text \<open>
  Creating a bitmap for \<open>n > 0\<close> blocks (both \<open>kmalloc\<close> calls succeeding) passes its assertions and
  gives a well-formed bitmap in which exactly the indices below \<open>n\<close> are free: the leftover bits
  of the last word are marked in use, and only those.
\<close>

lemma bitmap_create_all_free:
  assumes "n \<noteq> 0"
  shows "\<exists>b. bitmap_create True True n = Some (Some b) \<and> nbits b = n \<and> bitmap_inv b
    \<and> free_indices b = {..<unat n}"
proof -
  define nw where "nw = (unat n + 31) div 32"
  have n0: "0 < unat n" using assms by (simp add: unat_gt_0)
  have nw: "0 < nw" "nw < 4294967296" "unat n \<le> nw * 32" "nw * 32 < unat n + 32"
    using n0 unat_u32_less [of n] by (auto simp: nw_def)
  have nw': "(31 + unat n) div 32 = nw" by (simp add: nw_def add.commute)
  have unw: "unat (word_of_nat nw :: u32) = nw" using nw by (simp add: unat_of_nat_u32)
  show ?thesis
  proof (cases "unat n = nw * 32")
    case True
    let ?b = "\<lparr>nbits = n, nwords = word_of_nat nw, bmap = replicate nw (- 1 :: u32)\<rparr>"
    have "free_indices ?b = {..<unat n}"
      using True by (auto simp: free_indices_def bitmap_free_at_def)
    moreover have "bitmap_create True True n = Some (Some ?b)"
      using True n0 by (simp add: bitmap_create_def nw')
    ultimately show ?thesis using unw by (intro exI [of _ ?b]) (simp add: bitmap_inv_def nw')
  next
    case False
    define ov where "ov = unat n - (nw - 1) * 32"
    have ov: "0 < ov" "ov < 32" "unat n div 32 = nw - 1" "unat n = (nw - 1) * 32 + ov"
      using False nw by (auto simp: ov_def div_eq_iff32)
    let ?m = "replicate nw (- 1 :: u32)"
    let ?b0 = "\<lparr>nbits = n, nwords = word_of_nat nw, bmap = ?m\<rparr>"
    let ?b = "\<lparr>nbits = n, nwords = word_of_nat nw, bmap = ?m[nw - 1 := mark_leftover ov (?m ! (nw - 1))]\<rparr>"
    have "bitmap_free_at ?b i = (i < unat n)" for i
    proof -
      have "bitmap_free_at ?b i = (if i div 32 = nw - 1 then bit (mark_leftover ov (- 1)) (i mod 32)
          else bitmap_free_at ?b0 i)"
        using bitmap_free_at_update [of "nw - 1" ?b0] nw by simp
      also have "\<dots> = (i < unat n)"
      proof (cases "i div 32 = nw - 1")
        case True
        then have "i < unat n \<longleftrightarrow> i mod 32 < ov"
          using ov(4) div_mult_mod_eq [of i 32] by linarith
        then show ?thesis using True by (simp add: bit_mark_leftover not_le)
      next
        case False
        have "32 * nw = 32 * (nw - 1) + 32" using nw by simp
        with False ov have "i < 32 * nw \<longleftrightarrow> i < unat n"
          unfolding div_eq_iff32 by linarith
        moreover have "i div 32 < nw" if "i < 32 * nw"
          using that less_mult_imp_div_less [of i nw 32] by (simp add: mult.commute)
        ultimately show ?thesis using False by (auto simp: bitmap_free_at_def)
      qed
      finally show ?thesis .
    qed
    then have "free_indices ?b = {..<unat n}" by (auto simp: free_indices_def)
    moreover have "bitmap_create True True n = Some (Some ?b)"
      using False n0 ov(1-3) ov(4) [THEN arg_cong, of "\<lambda>m. (nw - Suc 0) * 32 < m"]
      by (simp add: bitmap_create_def nw' ov_def [simplified, symmetric] Let_def)
    ultimately show ?thesis using unw
      by (intro exI [of _ ?b]) (simp add: bitmap_inv_def nw')
  qed
qed

text \<open>
  C10: \<open>bitmap_alloc\<close> on a well-formed bitmap never panics. If an index is free it returns the least
  one, removes exactly that index from the free set and keeps the bitmap well-formed; if none is
  free it returns \<open>-E_NO_MEM\<close> and changes nothing.
\<close>

theorem bitmap_alloc_correct:
  assumes "bitmap_inv b"
  shows "if free_indices b = {} then bitmap_alloc b = Some (Inl E_NO_MEM, b)
    else \<exists>b' i. bitmap_alloc b = Some (Inr i, b') \<and> unat i = (LEAST j. j \<in> free_indices b)
      \<and> free_indices b' = free_indices b - {unat i} \<and> bitmap_inv b'"
  using bitmap_alloc_least [OF assms] bitmap_alloc_full [OF assms] by simp

text \<open>
  \<open>bitmap_free\<close> undoes \<open>bitmap_alloc\<close>: freeing the index just allocated succeeds, gives back the
  free set and makes \<open>bitmap_test\<close> answer \<open>true\<close>; freeing it a second time, or freeing an index
  outside the bitmap, panics.
\<close>

lemma bitmap_alloc_free_roundtrip:
  assumes "bitmap_inv b" "bitmap_alloc b = Some (Inr i, b')"
  shows "bitmap_test b' i = Some False
    \<and> (\<exists>b''. bitmap_free b' i = Some b'' \<and> free_indices b'' = free_indices b \<and> bitmap_inv b''
         \<and> bitmap_test b'' i = Some True \<and> bitmap_free b'' i = None)
    \<and> (\<forall>j. \<not> j < nbits b' \<longrightarrow> bitmap_free b' j = None)"
proof -
  have "free_indices b \<noteq> {}" using bitmap_alloc_full [OF assms(1)] assms(2) by auto
  then have f: "unat i = (LEAST j. j \<in> free_indices b)" "free_indices b' = free_indices b - {unat i}" "bitmap_inv b'"
    using bitmap_alloc_least [OF assms(1)] assms(2) by auto
  have mem: "unat i \<in> free_indices b"
    using \<open>free_indices b \<noteq> {}\<close> LeastI [of "\<lambda>j. j \<in> free_indices b"] unfolding f(1) by blast
  have nb: "nbits b' = nbits b" using bitmap_alloc_from_spec [of b 0] assms by (auto simp: bitmap_inv_def bitmap_alloc_def)
  have lt: "i < nbits b'" using mem assms(1) nb by (auto simp: bitmap_inv_def word_less_nat_alt)
  obtain b'' where b'': "bitmap_free b' i = Some b''" "free_indices b'' = free_indices b" "bitmap_inv b''"
    using bitmap_free_spec [OF f(3), of i] lt f(2) mem by (auto simp: insert_absorb)
  have nb'': "nbits b'' = nbits b'" using b''(1) lt by (auto simp: bitmap_free_def bitmap_translate_def bind_eq_Some_conv)
  have t1: "bitmap_test b' i = Some False" using bitmap_test_spec [OF f(3), of i] lt f(2) by simp
  have t2: "bitmap_test b'' i = Some True" using bitmap_test_spec [OF b''(3), of i] lt nb'' b''(2) mem by simp
  have t3: "bitmap_free b'' i = None" using bitmap_free_spec [OF b''(3), of i] b''(2) mem by simp
  have t4: "\<forall>j. \<not> j < nbits b' \<longrightarrow> bitmap_free b' j = None"
    by (simp add: bitmap_free_def bitmap_translate_def bind_assert)
  show ?thesis using t1 t2 t3 t4 b'' by blast
qed

subsection \<open>A concrete bitmap\<close>

text \<open>Forty blocks, of which only block 0 is free.\<close>

definition sample_bitmap :: bitmap where
  "sample_bitmap = \<lparr>nbits = 40, nwords = 2, bmap = [1, 0]\<rparr>"

lemma sample_bitmap_inv: "bitmap_inv sample_bitmap" "free_indices sample_bitmap = {0}"
proof -
  have "bitmap_free_at sample_bitmap i = (i = 0)" for i
  proof (cases "i < 32")
    case True
    then show ?thesis by (simp add: bitmap_free_at_def sample_bitmap_def bit_1_iff)
  next
    case False
    have "i div 32 \<noteq> 0" using False by (simp add: div_eq_0_iff)
    then have "i < 64 \<longrightarrow> i div 32 = Suc 0" using div_less_iff_less_mult [of 32 i 2] by linarith
    with False show ?thesis by (auto simp: bitmap_free_at_def sample_bitmap_def)
  qed
  then show f: "free_indices sample_bitmap = {0}" by (auto simp: free_indices_def)
  then show "bitmap_inv sample_bitmap" by (simp add: bitmap_inv_def) (simp add: sample_bitmap_def)
qed

theorem bitmap_alloc_correct_witness:
  "\<exists>b' i. bitmap_alloc sample_bitmap = Some (Inr i, b') \<and> free_indices b' = free_indices sample_bitmap - {unat i}"
  using bitmap_alloc_correct [OF sample_bitmap_inv(1)] sample_bitmap_inv(2) by auto

end
