(* ===== verification/Sfs.thy ===== *)
theory Sfs
  imports Disk Bitmap LinkedList
begin

text \<open>
  The mounted Simple FS (\<open>kern/fs/sfs/sfs.h\<close>) and its block-level operations (\<open>kern/fs/sfs/sfs_io.c\<close>,
  \<open>kern/fs/sfs/sfs_lock.c\<close>): the on-disk formats with their byte layout, \<open>struct sfs_fs\<close>, and the transfers of
  blocks and parts of blocks. The scratch block \<open>sfs_buffer\<close> is filled before every use and is a local
  value here. The invariant \<open>fs_ok\<close> ties the superblock, the freemap and the device together; under it every
  transfer of an allocated block succeeds.
\<close>

subsection \<open>Words in memory\<close>

definition u32_bytes :: "u32 \<Rightarrow> u8 list" where
  "u32_bytes w = [ucast w, ucast (drop_bit 8 w), ucast (drop_bit 16 w), ucast (drop_bit 24 w)]"

definition bytes_u32 :: "u8 list \<Rightarrow> u32" where
  "bytes_u32 bs = ucast (bs ! 0) OR push_bit 8 (ucast (bs ! 1)) OR push_bit 16 (ucast (bs ! 2))
     OR push_bit 24 (ucast (bs ! 3))"

type_synonym u16 = "16 word"

definition u16_bytes :: "u16 \<Rightarrow> u8 list" where
  "u16_bytes w = [ucast w, ucast (drop_bit 8 w)]"

definition bytes_u16 :: "u8 list \<Rightarrow> u16" where
  "bytes_u16 bs = ucast (bs ! 0) OR push_bit 8 (ucast (bs ! 1))"

lemma bytes_u32_roundtrip [simp]: "bytes_u32 (u32_bytes w) = w"
proof (rule bit_word_eqI)
  fix n assume "n < LENGTH(32)"
  then consider "n < 8" | "8 \<le> n" "n < 16" | "16 \<le> n" "n < 24" | "24 \<le> n" "n < 32" by fastforce
  then show "bit (bytes_u32 (u32_bytes w)) n = bit w n"
    by cases (auto simp: bytes_u32_def u32_bytes_def bit_simps)
qed

lemma bytes_u16_roundtrip [simp]: "bytes_u16 (u16_bytes w) = w"
proof (rule bit_word_eqI)
  fix n assume "n < LENGTH(16)"
  then consider "n < 8" | "8 \<le> n" "n < 16" by fastforce
  then show "bit (bytes_u16 (u16_bytes w)) n = bit w n"
    by cases (auto simp: bytes_u16_def u16_bytes_def bit_simps)
qed

lemma length_u32_bytes [simp]: "length (u32_bytes w) = 4" by (simp add: u32_bytes_def)
lemma length_u16_bytes [simp]: "length (u16_bytes w) = 2" by (simp add: u16_bytes_def)

lemma bytes_u32_zero: "bytes_u32 (slice (replicate 4096 0) p 4) = 0" if "p + 4 \<le> 4096"
  using that by (simp add: bytes_u32_def nth_slice)

subsection \<open>On-disk structures (kern/fs/sfs/sfs.h)\<close>

abbreviation (input) SFS_MAGIC :: u32 where "SFS_MAGIC \<equiv> 0x2f8dbe2a"
abbreviation (input) SFS_BLKSIZE :: nat where "SFS_BLKSIZE \<equiv> 4096"
abbreviation (input) SFS_NDIRECT :: nat where "SFS_NDIRECT \<equiv> 12"
abbreviation (input) SFS_BLK_NENTRY :: nat where "SFS_BLK_NENTRY \<equiv> 1024"
abbreviation (input) SFS_MAX_INFO_LEN :: nat where "SFS_MAX_INFO_LEN \<equiv> 31"
abbreviation (input) SFS_MAX_FNAME_LEN :: nat where "SFS_MAX_FNAME_LEN \<equiv> 255"
abbreviation (input) SFS_MAX_FILE_SIZE :: int where "SFS_MAX_FILE_SIZE \<equiv> 134217728"
abbreviation (input) SFS_BLKN_SUPER :: u32 where "SFS_BLKN_SUPER \<equiv> 0"
abbreviation (input) SFS_BLKN_ROOT :: u32 where "SFS_BLKN_ROOT \<equiv> 1"
abbreviation (input) SFS_BLKN_FREEMAP :: u32 where "SFS_BLKN_FREEMAP \<equiv> 2"
abbreviation (input) SFS_BLKBITS :: nat where "SFS_BLKBITS \<equiv> 32768"
abbreviation (input) SFS_TYPE_FILE :: u16 where "SFS_TYPE_FILE \<equiv> 1"
abbreviation (input) SFS_TYPE_DIR :: u16 where "SFS_TYPE_DIR \<equiv> 2"
abbreviation (input) SFS_TYPE_LINK :: u16 where "SFS_TYPE_LINK \<equiv> 3"

record sfs_super =
  sup_magic :: u32
  sup_blocks :: u32
  sup_unused :: u32
  sup_info :: "u8 list"

record sfs_disk_inode =
  din_size :: u32
  din_type :: u16
  din_nlinks :: u16
  din_blocks :: u32
  din_direct :: "u32 list"
  din_indirect :: u32

record sfs_disk_entry =
  ent_ino :: u32
  ent_name :: "u8 list"

text \<open>The layouts the C structures have in memory and on disk: 44, 64 and 260 bytes.\<close>

definition super_bytes :: "sfs_super \<Rightarrow> u8 list" where
  "super_bytes s = u32_bytes (sup_magic s) @ u32_bytes (sup_blocks s) @ u32_bytes (sup_unused s) @ sup_info s"

definition bytes_super :: "u8 list \<Rightarrow> sfs_super" where
  "bytes_super bs = \<lparr>sup_magic = bytes_u32 (slice bs 0 4), sup_blocks = bytes_u32 (slice bs 4 4),
     sup_unused = bytes_u32 (slice bs 8 4), sup_info = slice bs 12 32\<rparr>"

definition din_bytes :: "sfs_disk_inode \<Rightarrow> u8 list" where
  "din_bytes d = u32_bytes (din_size d) @ u16_bytes (din_type d) @ u16_bytes (din_nlinks d)
     @ u32_bytes (din_blocks d) @ concat (map u32_bytes (din_direct d)) @ u32_bytes (din_indirect d)"

definition bytes_din :: "u8 list \<Rightarrow> sfs_disk_inode" where
  "bytes_din bs = \<lparr>din_size = bytes_u32 (slice bs 0 4), din_type = bytes_u16 (slice bs 4 2),
     din_nlinks = bytes_u16 (slice bs 6 2), din_blocks = bytes_u32 (slice bs 8 4),
     din_direct = map (\<lambda>i. bytes_u32 (slice bs (12 + 4 * i) 4)) [0..<SFS_NDIRECT],
     din_indirect = bytes_u32 (slice bs 60 4)\<rparr>"

definition entry_bytes :: "sfs_disk_entry \<Rightarrow> u8 list" where
  "entry_bytes e = u32_bytes (ent_ino e) @ ent_name e"

definition bytes_entry :: "u8 list \<Rightarrow> sfs_disk_entry" where
  "bytes_entry bs = \<lparr>ent_ino = bytes_u32 (slice bs 0 4), ent_name = slice bs 4 256\<rparr>"

subsection \<open>The mounted file system\<close>

text \<open>Nodes of \<open>inode_list\<close> and of the hash lists: the headers, and the members of the in-memory inodes.\<close>

datatype isnode = InodeList | InodeLink nat
datatype hsnode = HashList u32 | HashLink nat

record sfs_fs =
  super :: sfs_super
  dev :: disk0
  freemap :: bitmap
  super_dirty :: bool
  fs_sem :: nat
  io_sem :: nat
  mutex_sem :: nat
  ilist :: "isnode lheap"
  hlist :: "hsnode lheap"

record sfs_inode =
  din :: sfs_disk_inode
  ino :: u32
  dirty :: bool
  reclaim_count :: int
  sin_sem :: nat

definition sfs_freemap_blocks :: "sfs_super \<Rightarrow> u32" where
  "sfs_freemap_blocks s = word_of_nat ((unat (sup_blocks s) + SFS_BLKBITS - 1) div SFS_BLKBITS)"

definition sfs_freemap_bits :: "sfs_super \<Rightarrow> u32" where
  "sfs_freemap_bits s = word_of_nat ((unat (sup_blocks s) + SFS_BLKBITS - 1) div SFS_BLKBITS * SFS_BLKBITS)"

subsection \<open>Locks (kern/fs/sfs/sfs_lock.c)\<close>

definition lock_sfs_fs :: "sfs_fs \<Rightarrow> sfs_fs option" where
  "lock_sfs_fs s = do { v \<leftarrow> down_sem (fs_sem s); Some (s\<lparr>fs_sem := v\<rparr>) }"

definition lock_sfs_io :: "sfs_fs \<Rightarrow> sfs_fs option" where
  "lock_sfs_io s = do { v \<leftarrow> down_sem (io_sem s); Some (s\<lparr>io_sem := v\<rparr>) }"

definition unlock_sfs_fs :: "sfs_fs \<Rightarrow> sfs_fs" where
  "unlock_sfs_fs s = s\<lparr>fs_sem := up_sem (fs_sem s)\<rparr>"

definition unlock_sfs_io :: "sfs_fs \<Rightarrow> sfs_fs" where
  "unlock_sfs_io s = s\<lparr>io_sem := up_sem (io_sem s)\<rparr>"

subsection \<open>Block transfers (kern/fs/sfs/sfs_io.c)\<close>

text \<open>\<open>blkno * SFS_BLKSIZE\<close> is a product of 32-bit values.\<close>

definition sfs_rwblock_nolock ::
    "sfs_fs \<Rightarrow> u8 list \<Rightarrow> u32 \<Rightarrow> bool \<Rightarrow> bool \<Rightarrow> (err option \<times> u8 list \<times> sfs_fs) option" where
  "sfs_rwblock_nolock s buf blkno wr check =
     do {
       assert_that ((blkno \<noteq> 0 \<or> \<not> check) \<and> blkno < sup_blocks (super s));
       let iob = iobuf_init buf SFS_BLKSIZE (uint (blkno * word_of_nat SFS_BLKSIZE));
       (ret, iob, d) \<leftarrow> disk0_io (dev s) iob wr;
       Some (ret, io_mem iob, s\<lparr>dev := d\<rparr>)
     }"

fun sfs_rwblock_loop ::
    "sfs_fs \<Rightarrow> u8 list \<Rightarrow> nat \<Rightarrow> u32 \<Rightarrow> nat \<Rightarrow> bool \<Rightarrow> (err option \<times> u8 list \<times> sfs_fs) option" where
  "sfs_rwblock_loop s buf p blkno 0 wr = Some (None, buf, s)"
| "sfs_rwblock_loop s buf p blkno (Suc nblks) wr =
     do {
       (ret, blk, s) \<leftarrow> sfs_rwblock_nolock s (slice buf p SFS_BLKSIZE) blkno wr True;
       let buf = overwrite buf p blk;
       if ret \<noteq> None then Some (ret, buf, s)
       else sfs_rwblock_loop s buf (p + SFS_BLKSIZE) (blkno + 1) nblks wr
     }"

definition sfs_rwblock ::
    "sfs_fs \<Rightarrow> u8 list \<Rightarrow> nat \<Rightarrow> u32 \<Rightarrow> u32 \<Rightarrow> bool \<Rightarrow> (err option \<times> u8 list \<times> sfs_fs) option" where
  "sfs_rwblock s buf p blkno nblks wr =
     do {
       s \<leftarrow> lock_sfs_io s;
       (ret, buf, s) \<leftarrow> sfs_rwblock_loop s buf p blkno (unat nblks) wr;
       Some (ret, buf, unlock_sfs_io s)
     }"

definition sfs_rblock ::
    "sfs_fs \<Rightarrow> u8 list \<Rightarrow> nat \<Rightarrow> u32 \<Rightarrow> u32 \<Rightarrow> (err option \<times> u8 list \<times> sfs_fs) option" where
  "sfs_rblock s buf p blkno nblks = sfs_rwblock s buf p blkno nblks False"

definition sfs_wblock ::
    "sfs_fs \<Rightarrow> u8 list \<Rightarrow> nat \<Rightarrow> u32 \<Rightarrow> u32 \<Rightarrow> (err option \<times> u8 list \<times> sfs_fs) option" where
  "sfs_wblock s buf p blkno nblks = sfs_rwblock s buf p blkno nblks True"

text \<open>The caller's buffer is \<open>buf\<close> from position \<open>p\<close> on; \<open>replicate SFS_BLKSIZE 0\<close> stands for the
  contents of \<open>sfs_buffer\<close>, which the read replaces.\<close>

definition sfs_rbuf ::
    "sfs_fs \<Rightarrow> u8 list \<Rightarrow> nat \<Rightarrow> nat \<Rightarrow> u32 \<Rightarrow> int \<Rightarrow> (err option \<times> u8 list \<times> sfs_fs) option" where
  "sfs_rbuf s buf p len blkno off =
     do {
       assert_that (off \<ge> 0 \<and> off < int SFS_BLKSIZE \<and> off + int len \<le> int SFS_BLKSIZE);
       s \<leftarrow> lock_sfs_io s;
       (ret, blk, s) \<leftarrow> sfs_rwblock_nolock s (replicate SFS_BLKSIZE 0) blkno False True;
       let buf = (if ret = None then overwrite buf p (slice blk (nat off) len) else buf);
       Some (ret, buf, unlock_sfs_io s)
     }"

definition sfs_wbuf ::
    "sfs_fs \<Rightarrow> u8 list \<Rightarrow> nat \<Rightarrow> nat \<Rightarrow> u32 \<Rightarrow> int \<Rightarrow> (err option \<times> u8 list \<times> sfs_fs) option" where
  "sfs_wbuf s buf p len blkno off =
     do {
       assert_that (off \<ge> 0 \<and> off < int SFS_BLKSIZE \<and> off + int len \<le> int SFS_BLKSIZE);
       s \<leftarrow> lock_sfs_io s;
       (ret, blk, s) \<leftarrow> sfs_rwblock_nolock s (replicate SFS_BLKSIZE 0) blkno False True;
       (ret, s) \<leftarrow>
         (if ret = None then do {
            (ret, _, s) \<leftarrow> sfs_rwblock_nolock s (overwrite blk (nat off) (slice buf p len)) blkno True True;
            Some (ret, s)
          } else Some (ret, s));
       Some (ret, buf, unlock_sfs_io s)
     }"

definition sfs_sync_super :: "sfs_fs \<Rightarrow> (err option \<times> sfs_fs) option" where
  "sfs_sync_super s =
     do {
       s \<leftarrow> lock_sfs_io s;
       let buffer = overwrite (replicate SFS_BLKSIZE 0) 0 (super_bytes (super s));
       (ret, _, s) \<leftarrow> sfs_rwblock_nolock s buffer SFS_BLKN_SUPER True False;
       Some (ret, unlock_sfs_io s)
     }"

definition sfs_sync_freemap :: "sfs_fs \<Rightarrow> (err option \<times> sfs_fs) option" where
  "sfs_sync_freemap s =
     do {
       let nblks = sfs_freemap_blocks (super s);
       (ret, _, s) \<leftarrow> sfs_wblock s (concat (map u32_bytes (fst (bitmap_getdata (freemap s))))) 0
          SFS_BLKN_FREEMAP nblks;
       Some (ret, s)
     }"

fun sfs_clear_block_loop :: "sfs_fs \<Rightarrow> u32 \<Rightarrow> nat \<Rightarrow> (err option \<times> sfs_fs) option" where
  "sfs_clear_block_loop s blkno 0 = Some (None, s)"
| "sfs_clear_block_loop s blkno (Suc nblks) =
     do {
       (ret, _, s) \<leftarrow> sfs_rwblock_nolock s (replicate SFS_BLKSIZE 0) blkno True True;
       if ret \<noteq> None then Some (ret, s) else sfs_clear_block_loop s (blkno + 1) nblks
     }"

text \<open>With \<open>nblks = 0\<close> the C function would return an uninitialised \<open>ret\<close>; every call has \<open>nblks = 1\<close>.\<close>

definition sfs_clear_block :: "sfs_fs \<Rightarrow> u32 \<Rightarrow> u32 \<Rightarrow> (err option \<times> sfs_fs) option" where
  "sfs_clear_block s blkno nblks =
     do {
       s \<leftarrow> lock_sfs_io s;
       assert_that (nblks \<noteq> 0);
       (ret, s) \<leftarrow> sfs_clear_block_loop s blkno (unat nblks);
       Some (ret, unlock_sfs_io s)
     }"

subsection \<open>The invariant of a mounted file system\<close>

text \<open>
  The device is intact and holds the file system, whose size is below the 4 GB that the 32-bit product
  \<open>blkno * SFS_BLKSIZE\<close> can address; the freemap is well-formed and covers the blocks; only blocks behind the
  superblock, the root inode and the freemap are free; \<open>unused_blocks\<close> counts them; no transfer is in progress.
\<close>

definition fs_ok :: "sfs_fs \<Rightarrow> bool" where
  "fs_ok s \<longleftrightarrow> disk_ok (dev s) \<and> unat (sup_blocks (super s)) \<le> d_blocks (dev s)
     \<and> unat (sup_blocks (super s)) \<le> 0x100000
     \<and> bitmap_inv (freemap s) \<and> nbits (freemap s) = sfs_freemap_bits (super s)
     \<and> free_indices (freemap s) \<subseteq> {2 + unat (sfs_freemap_blocks (super s))..<unat (sup_blocks (super s))}
     \<and> unat (sup_unused (super s)) = card (free_indices (freemap s))
     \<and> io_sem s = 1"

text \<open>A block that may be transferred: neither the superblock nor outside the file system.\<close>

definition blk_ok :: "sfs_fs \<Rightarrow> u32 \<Rightarrow> bool" where
  "blk_ok s b \<longleftrightarrow> b \<noteq> 0 \<and> b < sup_blocks (super s)"

abbreviation blk :: "sfs_fs \<Rightarrow> u32 \<Rightarrow> u8 list" where
  "blk s b \<equiv> disk_block (dev s) (unat b)"

abbreviation set_blk :: "sfs_fs \<Rightarrow> u32 \<Rightarrow> u8 list \<Rightarrow> sfs_fs" where
  "set_blk s b bs \<equiv> s\<lparr>dev := disk_write_block (dev s) (unat b) bs\<rparr>"

lemma fs_okD:
  assumes "fs_ok s"
  shows "disk_ok (dev s)" "unat (sup_blocks (super s)) \<le> d_blocks (dev s)"
    "unat (sup_blocks (super s)) \<le> 0x100000" "bitmap_inv (freemap s)"
    "nbits (freemap s) = sfs_freemap_bits (super s)" "io_sem s = 1"
    "unat (sup_unused (super s)) = card (free_indices (freemap s))"
    "free_indices (freemap s) \<subseteq> {2 + unat (sfs_freemap_blocks (super s))..<unat (sup_blocks (super s))}"
  using assms by (auto simp: fs_ok_def)

lemma fs_ok_set_blk [simp]: "fs_ok (set_blk s b bs) = fs_ok s"
  by (simp add: fs_ok_def)

lemma fs_ok_super_dirty [simp]: "fs_ok (s\<lparr>super_dirty := d\<rparr>) = fs_ok s"
  by (simp add: fs_ok_def)

lemma blk_ok_set_blk [simp]: "blk_ok (set_blk s b bs) c = blk_ok s c"
  by (simp add: blk_ok_def)

lemma blk_set_blk: "length bs = 4096 \<Longrightarrow> blk (set_blk s b bs) c = (if c = b then bs else blk s c)"
  by (simp add: disk_block_write word_unat_eq_iff)

lemma io_sem_id: "io_sem s = 1 \<Longrightarrow> s\<lparr>io_sem := Suc 0\<rparr> = s"
  by (cases s) simp

lemma freemap_bits_unat:
  assumes "fs_ok s"
  shows "unat (sfs_freemap_bits (super s)) = (unat (sup_blocks (super s)) + 32767) div 32768 * 32768"
    "unat (sup_blocks (super s)) \<le> unat (sfs_freemap_bits (super s))"
proof -
  have "(unat (sup_blocks (super s)) + 32767) div 32768 \<le> (0x100000 + 32767) div 32768"
    using fs_okD(3) [OF assms] by (intro div_le_mono) simp
  then have "(unat (sup_blocks (super s)) + 32767) div 32768 \<le> 32" by simp
  then show u: "unat (sfs_freemap_bits (super s)) = (unat (sup_blocks (super s)) + 32767) div 32768 * 32768"
    unfolding sfs_freemap_bits_def by (subst unat_of_nat_u32) simp_all
  show "unat (sup_blocks (super s)) \<le> unat (sfs_freemap_bits (super s))"
    unfolding u
    using div_mult_mod_eq [of "unat (sup_blocks (super s)) + 32767" 32768]
      mod_less_divisor [of 32768 "unat (sup_blocks (super s)) + 32767"] by linarith
qed

subsection \<open>Transfers succeed\<close>

lemma blk_offset:
  assumes "fs_ok s" "b < sup_blocks (super s)"
  shows "uint (b * 4096) = int (unat b) * 4096" "unat b < d_blocks (dev s)"
proof -
  have b: "unat b < unat (sup_blocks (super s))" using assms(2) by (simp add: word_less_nat_alt)
  have "unat (b * 4096) = unat b * 4096"
    using b fs_okD(3) [OF assms(1)] by (simp add: unat_word_ariths)
  then show "uint (b * 4096) = int (unat b) * 4096" by (metis of_nat_mult of_nat_numeral uint_nat)
  show "unat b < d_blocks (dev s)" using b fs_okD(2) [OF assms(1)] by linarith
qed

lemma rwblock_nolock_io:
  assumes "disk_ok (dev s)" "unat (sup_blocks (super s)) \<le> d_blocks (dev s)"
    "unat (sup_blocks (super s)) \<le> 0x100000" "length buf = 4096" "b < sup_blocks (super s)" "b \<noteq> 0 \<or> \<not> check"
  shows "sfs_rwblock_nolock s buf b False check = Some (None, blk s b, s)"
    and "sfs_rwblock_nolock s buf b True check = Some (None, buf, set_blk s b buf)"
proof -
  have b: "unat b < unat (sup_blocks (super s))" using assms(5) by (simp add: word_less_nat_alt)
  then have d: "unat b < d_blocks (dev s)" using assms(2) by linarith
  have "unat (b * 4096) = unat b * 4096"
    using b assms(3) by (simp add: unat_word_ariths)
  then have off: "uint (b * 4096) = int (unat b) * 4096" by (metis of_nat_mult of_nat_numeral uint_nat)
  have id: "s\<lparr>dev := dev s\<rparr> = s" by simp
  show "sfs_rwblock_nolock s buf b False check = Some (None, blk s b, s)"
    using disk0_io_read [OF assms(1) d assms(4)] assms(5,6)
    by (auto simp: sfs_rwblock_nolock_def off)
  show "sfs_rwblock_nolock s buf b True check = Some (None, buf, set_blk s b buf)"
    using disk0_io_write [OF assms(1) d assms(4)] assms(5,6)
    by (auto simp: sfs_rwblock_nolock_def off)
qed

lemmas rwblock_nolock_ok = rwblock_nolock_io [OF fs_okD(1) fs_okD(2) fs_okD(3)]

text \<open>The semaphore is taken and released: with it held the block operations see the same blocks.\<close>

lemma lock_io_ok [simp]: "fs_ok s \<Longrightarrow> lock_sfs_io s = Some (s\<lparr>io_sem := 0\<rparr>)"
  by (simp add: lock_sfs_io_def fs_ok_def)

lemma unlock_io_ok: "fs_ok s \<Longrightarrow> unlock_sfs_io (s\<lparr>io_sem := 0\<rparr>) = s"
  by (cases s) (simp add: unlock_sfs_io_def up_sem_def fs_ok_def)

lemma unlock_io_set_blk: "fs_ok s \<Longrightarrow> unlock_sfs_io (set_blk (s\<lparr>io_sem := 0\<rparr>) b bs) = set_blk s b bs"
  by (cases s) (simp add: unlock_sfs_io_def up_sem_def fs_ok_def)

lemma locked_rwblock:
  assumes "fs_ok s" "length buf = 4096" "b < sup_blocks (super s)" "b \<noteq> 0 \<or> \<not> check"
  shows "sfs_rwblock_nolock (s\<lparr>io_sem := 0\<rparr>) buf b False check = Some (None, blk s b, s\<lparr>io_sem := 0\<rparr>)"
    and "sfs_rwblock_nolock (s\<lparr>io_sem := 0\<rparr>) buf b True check
      = Some (None, buf, (set_blk s b buf)\<lparr>io_sem := 0\<rparr>)"
  using rwblock_nolock_io [of "s\<lparr>io_sem := 0\<rparr>" buf b check] fs_okD(1-3) [OF assms(1)] assms(2-4)
  by simp_all

lemma sfs_rbuf_ok:
  assumes "fs_ok s" "blk_ok s b" "off < 4096" "off + len \<le> 4096"
  shows "sfs_rbuf s buf p len b (int off) = Some (None, overwrite buf p (slice (blk s b) off len), s)"
  using assms by (simp add: sfs_rbuf_def locked_rwblock unlock_io_ok blk_ok_def)

lemma sfs_wbuf_ok:
  assumes "fs_ok s" "blk_ok s b" "off < 4096" "off + len \<le> 4096" "p + len \<le> length buf"
  shows "sfs_wbuf s buf p len b (int off)
    = Some (None, buf, set_blk s b (overwrite (blk s b) off (slice buf p len)))"
  using assms by (simp add: sfs_wbuf_def locked_rwblock blk_ok_def unlock_sfs_io_def up_sem_def io_sem_id fs_ok_def)

lemma sfs_rblock1_ok:
  assumes "fs_ok s" "blk_ok s b" "p + 4096 \<le> length buf"
  shows "sfs_rblock s buf p b 1 = Some (None, overwrite buf p (blk s b), s)"
  using assms by (simp add: sfs_rblock_def sfs_rwblock_def locked_rwblock unlock_io_ok blk_ok_def)

lemma sfs_wblock1_ok:
  assumes "fs_ok s" "blk_ok s b" "p + 4096 \<le> length buf"
  shows "sfs_wblock s buf p b 1 = Some (None, buf, set_blk s b (slice buf p 4096))"
proof -
  have "overwrite buf p (slice buf p 4096) = buf"
    using assms(3) by (intro nth_equalityI) (auto simp: nth_overwrite nth_slice)
  then show ?thesis using assms
    by (simp add: sfs_wblock_def sfs_rwblock_def locked_rwblock blk_ok_def unlock_sfs_io_def up_sem_def io_sem_id fs_ok_def)
qed

lemma sfs_clear_block1_ok:
  assumes "fs_ok s" "blk_ok s b"
  shows "sfs_clear_block s b 1 = Some (None, set_blk s b (replicate 4096 0))"
  using assms by (simp add: sfs_clear_block_def locked_rwblock blk_ok_def unlock_sfs_io_def up_sem_def io_sem_id fs_ok_def)

end
