(* ===== verification/SfsBmap.thy ===== *)
theory SfsBmap
  imports Sfs
begin

text \<open>
  Allocation of disk blocks and the block map of an inode (\<open>kern/fs/sfs/sfs_inode.c\<close>): twelve direct blocks
  and one indirect block of 1024 entries. \<open>bmap_at\<close> reads the map that the inode and the disk represent,
  \<open>inode_ok\<close> is its invariant: the first \<open>blocks\<close> entries are distinct blocks in use, all others are zero.
  The operations are shown to extend and shrink exactly this map and to leave the blocks of all other
  files alone.
\<close>

subsection \<open>Allocation of blocks\<close>

definition sfs_block_inuse :: "sfs_fs \<Rightarrow> u32 \<Rightarrow> bool option" where
  "sfs_block_inuse s i =
     (if i \<noteq> 0 \<and> i < sup_blocks (super s) then do { t \<leftarrow> bitmap_test (freemap s) i; Some (\<not> t) }
      else None)"

definition sfs_block_alloc :: "sfs_fs \<Rightarrow> ((err + u32) \<times> sfs_fs) option" where
  "sfs_block_alloc s =
     do {
       (r, fm) \<leftarrow> bitmap_alloc (freemap s);
       let s = s\<lparr>freemap := fm\<rparr>;
       (case r of
          Inl e \<Rightarrow> Some (Inl e, s)
        | Inr i \<Rightarrow> do {
            assert_that (sup_unused (super s) > 0);
            let s = s\<lparr>super := (super s)\<lparr>sup_unused := sup_unused (super s) - 1\<rparr>, super_dirty := True\<rparr>;
            inuse \<leftarrow> sfs_block_inuse s i;
            assert_that inuse;
            (ret, s) \<leftarrow> sfs_clear_block s i 1;
            Some (case ret of None \<Rightarrow> Inr i | Some e \<Rightarrow> Inl e, s)
          })
     }"

definition sfs_block_free :: "sfs_fs \<Rightarrow> u32 \<Rightarrow> sfs_fs option" where
  "sfs_block_free s i =
     do {
       inuse \<leftarrow> sfs_block_inuse s i;
       assert_that inuse;
       fm \<leftarrow> bitmap_free (freemap s) i;
       Some (s\<lparr>freemap := fm, super := (super s)\<lparr>sup_unused := sup_unused (super s) + 1\<rparr>, super_dirty := True\<rparr>)
     }"

subsection \<open>The block map of an inode\<close>

text \<open>The result of \<open>sfs_bmap_get_sub_nolock\<close> is the pair of \<open>*entp\<close> and \<open>*ino_store\<close>.\<close>

definition sfs_bmap_get_sub_nolock ::
    "sfs_fs \<Rightarrow> u32 \<Rightarrow> u32 \<Rightarrow> bool \<Rightarrow> ((err + u32 \<times> u32) \<times> sfs_fs) option" where
  "sfs_bmap_get_sub_nolock s ent0 index create =
     do {
       assert_that (unat index < SFS_BLK_NENTRY);
       let off = int (unat index * 4);
       let fill = (\<lambda>s ent. do {
         (r, s) \<leftarrow> sfs_block_alloc s;
         (case r of
            Inl e \<Rightarrow> do {
              s \<leftarrow> (if ent \<noteq> ent0 then sfs_block_free s ent else Some s);
              Some (Inl e, s)
            }
          | Inr i \<Rightarrow> do {
              (ret, _, s) \<leftarrow> sfs_wbuf s (u32_bytes i) 0 4 ent off;
              (case ret of
                 Some e \<Rightarrow> do {
                   s \<leftarrow> sfs_block_free s i;
                   s \<leftarrow> (if ent \<noteq> ent0 then sfs_block_free s ent else Some s);
                   Some (Inl e, s)
                 }
               | None \<Rightarrow> Some (Inr (ent, i), s))
            })
       });
       if ent0 \<noteq> 0 then do {
         (ret, bs, s) \<leftarrow> sfs_rbuf s (u32_bytes 0) 0 4 ent0 off;
         (case ret of
            Some e \<Rightarrow> Some (Inl e, s)
          | None \<Rightarrow>
              if bytes_u32 bs \<noteq> 0 \<or> \<not> create then Some (Inr (ent0, bytes_u32 bs), s) else fill s ent0)
       }
       else if \<not> create then Some (Inr (ent0, 0), s)
       else do {
         (r, s) \<leftarrow> sfs_block_alloc s;
         (case r of Inl e \<Rightarrow> Some (Inl e, s) | Inr ent \<Rightarrow> fill s ent)
       }
     }"

definition bmap_out :: "sfs_fs \<Rightarrow> sfs_inode \<Rightarrow> u32 \<Rightarrow> ((err + u32) \<times> sfs_fs \<times> sfs_inode) option" where
  "bmap_out s sn i =
     do {
       inuse \<leftarrow> (if i = 0 then Some True else sfs_block_inuse s i);
       assert_that inuse;
       Some (Inr i, s, sn)
     }"

definition sfs_bmap_get_nolock ::
    "sfs_fs \<Rightarrow> sfs_inode \<Rightarrow> u32 \<Rightarrow> bool \<Rightarrow> ((err + u32) \<times> sfs_fs \<times> sfs_inode) option" where
  "sfs_bmap_get_nolock s sn index create =
     (let d = din sn in
      if unat index < SFS_NDIRECT then
        (let i = din_direct d ! unat index in
         if i = 0 \<and> create then do {
           (r, s) \<leftarrow> sfs_block_alloc s;
           (case r of
              Inl e \<Rightarrow> Some (Inl e, s, sn)
            | Inr i \<Rightarrow> bmap_out s (sn\<lparr>din := d\<lparr>din_direct := (din_direct d)[unat index := i]\<rparr>, dirty := True\<rparr>) i)
         }
         else bmap_out s sn i)
      else if unat (index - word_of_nat SFS_NDIRECT) < SFS_BLK_NENTRY then do {
        (r, s) \<leftarrow> sfs_bmap_get_sub_nolock s (din_indirect d) (index - word_of_nat SFS_NDIRECT) create;
        (case r of
           Inl e \<Rightarrow> Some (Inl e, s, sn)
         | Inr (ent, i) \<Rightarrow>
             if ent \<noteq> din_indirect d then do {
               assert_that (din_indirect d = 0);
               bmap_out s (sn\<lparr>din := d\<lparr>din_indirect := ent\<rparr>, dirty := True\<rparr>) i
             }
             else bmap_out s sn i)
      }
      else None)"

definition sfs_bmap_free_sub_nolock :: "sfs_fs \<Rightarrow> u32 \<Rightarrow> u32 \<Rightarrow> (err option \<times> sfs_fs) option" where
  "sfs_bmap_free_sub_nolock s ent index =
     do {
       inuse \<leftarrow> sfs_block_inuse s ent;
       assert_that (inuse \<and> unat index < SFS_BLK_NENTRY);
       let off = int (unat index * 4);
       (ret, bs, s) \<leftarrow> sfs_rbuf s (u32_bytes 0) 0 4 ent off;
       (case ret of
          Some e \<Rightarrow> Some (Some e, s)
        | None \<Rightarrow>
            if bytes_u32 bs \<noteq> 0 then do {
              (ret, _, s) \<leftarrow> sfs_wbuf s (u32_bytes 0) 0 4 ent off;
              (case ret of
                 Some e \<Rightarrow> Some (Some e, s)
               | None \<Rightarrow> do { s \<leftarrow> sfs_block_free s (bytes_u32 bs); Some (None, s) })
            }
            else Some (None, s))
     }"

definition sfs_bmap_free_nolock ::
    "sfs_fs \<Rightarrow> sfs_inode \<Rightarrow> u32 \<Rightarrow> (err option \<times> sfs_fs \<times> sfs_inode) option" where
  "sfs_bmap_free_nolock s sn index =
     (let d = din sn in
      if unat index < SFS_NDIRECT then
        (let i = din_direct d ! unat index in
         if i \<noteq> 0 then do {
           s \<leftarrow> sfs_block_free s i;
           Some (None, s, sn\<lparr>din := d\<lparr>din_direct := (din_direct d)[unat index := 0]\<rparr>, dirty := True\<rparr>)
         }
         else Some (None, s, sn))
      else if unat (index - word_of_nat SFS_NDIRECT) < SFS_BLK_NENTRY then
        (if din_indirect d \<noteq> 0 then do {
           (ret, s) \<leftarrow> sfs_bmap_free_sub_nolock s (din_indirect d) (index - word_of_nat SFS_NDIRECT);
           Some (ret, s, sn)
         }
         else Some (None, s, sn))
      else Some (None, s, sn))"

definition sfs_bmap_load_nolock ::
    "sfs_fs \<Rightarrow> sfs_inode \<Rightarrow> u32 \<Rightarrow> ((err + u32) \<times> sfs_fs \<times> sfs_inode) option" where
  "sfs_bmap_load_nolock s sn index =
     do {
       assert_that (index \<le> din_blocks (din sn));
       let create = (index = din_blocks (din sn));
       (r, s, sn) \<leftarrow> sfs_bmap_get_nolock s sn index create;
       (case r of
          Inl e \<Rightarrow> Some (Inl e, s, sn)
        | Inr i \<Rightarrow> do {
            inuse \<leftarrow> sfs_block_inuse s i;
            assert_that inuse;
            let sn = (if create then sn\<lparr>din := (din sn)\<lparr>din_blocks := din_blocks (din sn) + 1\<rparr>\<rparr> else sn);
            Some (Inr i, s, sn)
          })
     }"

definition sfs_bmap_truncate_nolock ::
    "sfs_fs \<Rightarrow> sfs_inode \<Rightarrow> (err option \<times> sfs_fs \<times> sfs_inode) option" where
  "sfs_bmap_truncate_nolock s sn =
     do {
       assert_that (din_blocks (din sn) \<noteq> 0);
       (ret, s, sn) \<leftarrow> sfs_bmap_free_nolock s sn (din_blocks (din sn) - 1);
       (case ret of
          Some e \<Rightarrow> Some (Some e, s, sn)
        | None \<Rightarrow> Some (None, s, sn\<lparr>din := (din sn)\<lparr>din_blocks := din_blocks (din sn) - 1\<rparr>, dirty := True\<rparr>))
     }"

subsection \<open>Blocks in use\<close>

abbreviation fs_free :: "sfs_fs \<Rightarrow> nat set" where
  "fs_free s \<equiv> free_indices (freemap s)"

definition inuse :: "sfs_fs \<Rightarrow> u32 \<Rightarrow> bool" where
  "inuse s b \<longleftrightarrow> blk_ok s b \<and> unat b \<notin> fs_free s"

text \<open>What the block operations never change.\<close>

definition sfs_env :: "sfs_fs \<Rightarrow> u32 \<times> nat \<times> nat \<times> isnode lheap \<times> hsnode lheap" where
  "sfs_env s = (sup_blocks (super s), fs_sem s, mutex_sem s, ilist s, hlist s)"

lemma sfs_env_set_blk [simp]: "sfs_env (set_blk s b bs) = sfs_env s"
  by (simp add: sfs_env_def)

lemma inuse_set_blk [simp]: "inuse (set_blk s b bs) c = inuse s c"
  by (simp add: inuse_def)

text \<open>A block in use behind the superblock, the root inode and the freemap: these are the ones that may be freed.\<close>

definition data_blk :: "sfs_fs \<Rightarrow> u32 \<Rightarrow> bool" where
  "data_blk s b \<longleftrightarrow> inuse s b \<and> 2 + unat (sfs_freemap_blocks (super s)) \<le> unat b"

lemma data_blk_set_blk [simp]: "data_blk (set_blk s b bs) c = data_blk s c"
  by (simp add: data_blk_def)

lemma data_inuse: "data_blk s b \<Longrightarrow> inuse s b" by (simp add: data_blk_def)

lemma inuse_blk_ok: "inuse s b \<Longrightarrow> blk_ok s b" by (simp add: inuse_def)

lemma inuse_nz: "inuse s b \<Longrightarrow> b \<noteq> 0" by (simp add: inuse_def blk_ok_def)

lemma sfs_block_inuse_ok:
  assumes "fs_ok s" "blk_ok s b"
  shows "sfs_block_inuse s b = Some (inuse s b)"
proof -
  have "unat b < unat (nbits (freemap s))"
    using assms freemap_bits_unat(2) [OF assms(1)] fs_okD(5) [OF assms(1)]
    by (simp add: blk_ok_def word_less_nat_alt)
  then have "b < nbits (freemap s)" by (simp add: word_less_nat_alt)
  then show ?thesis using assms bitmap_test_spec [OF fs_okD(4) [OF assms(1)], of b]
    by (simp add: sfs_block_inuse_def blk_ok_def inuse_def)
qed

lemma inuse_Some: "fs_ok s \<Longrightarrow> inuse s b \<Longrightarrow> sfs_block_inuse s b = Some True"
  by (simp add: sfs_block_inuse_ok inuse_blk_ok)

text \<open>Allocation takes the least free block, clears it and changes nothing else.\<close>

definition alloc_step :: "sfs_fs \<Rightarrow> u32 \<Rightarrow> sfs_fs \<Rightarrow> bool" where
  "alloc_step s b s' \<longleftrightarrow> fs_ok s' \<and> sfs_env s' = sfs_env s \<and> blk_ok s b \<and> unat b \<in> fs_free s
     \<and> fs_free s' = fs_free s - {unat b} \<and> (\<forall>c. blk s' c = (if c = b then replicate 4096 0 else blk s c))"

definition free_step :: "sfs_fs \<Rightarrow> u32 \<Rightarrow> sfs_fs \<Rightarrow> bool" where
  "free_step s b s' \<longleftrightarrow> fs_ok s' \<and> sfs_env s' = sfs_env s
     \<and> fs_free s' = insert (unat b) (fs_free s) \<and> (\<forall>c. blk s' c = blk s c)"

lemma finite_fs_free: "fs_ok s \<Longrightarrow> finite (fs_free s)"
  by (auto simp: fs_ok_def intro: finite_subset)

lemma bitmap_alloc_keeps:
  "length (bmap b) = unat (nwords b) \<Longrightarrow> bitmap_alloc b = Some (Inr i, b') \<Longrightarrow> nbits b' = nbits b"
  using bitmap_alloc_from_spec [of b 0] by (auto simp: bitmap_alloc_def)

lemma bitmap_free_keeps: "bitmap_free b i = Some b' \<Longrightarrow> nbits b' = nbits b"
  by (auto simp: bitmap_free_def bitmap_translate_def bind_eq_Some_conv Let_def)

lemma sfs_block_alloc_ok:
  assumes ok: "fs_ok s" and free: "fs_free s \<noteq> {}"
  obtains b s' where "sfs_block_alloc s = Some (Inr b, s')" "alloc_step s b s'"
    "unat b = (LEAST j. j \<in> fs_free s)"
proof -
  obtain fm b where r: "bitmap_alloc (freemap s) = Some (Inr b, fm)"
    and l: "unat b = (LEAST j. j \<in> fs_free s)" and f: "free_indices fm = fs_free s - {unat b}"
    and inv: "bitmap_inv fm"
    using bitmap_alloc_least [OF fs_okD(4) [OF ok] free] by auto
  have nb: "nbits fm = nbits (freemap s)"
    using r fs_okD(4) [OF ok] by (auto simp: bitmap_inv_def intro: bitmap_alloc_keeps)
  have mem: "unat b \<in> fs_free s" unfolding l using free by (meson LeastI ex_in_conv)
  then have rng: "2 \<le> unat b" "unat b < unat (sup_blocks (super s))"
    using fs_okD(8) [OF ok] by auto
  then have b: "blk_ok s b" by (auto simp: blk_ok_def word_less_nat_alt)
  have c: "unat (sup_unused (super s)) = card (fs_free s)" "0 < card (fs_free s)"
    using fs_okD(7) [OF ok] free finite_fs_free [OF ok] by (simp_all add: card_gt_0_iff)
  then have pos: "0 < sup_unused (super s)" by (simp add: word_less_nat_alt)
  have "(1 :: u32) \<le> sup_unused (super s)" using c by (simp add: word_le_nat_alt)
  then have dec: "unat (sup_unused (super s) - 1) = card (fs_free s - {unat b})"
    using c mem finite_fs_free [OF ok] by (simp add: unat_sub)
  define s1 where "s1 = s\<lparr>freemap := fm, super := (super s)\<lparr>sup_unused := sup_unused (super s) - 1\<rparr>, super_dirty := True\<rparr>"
  have bits: "sfs_freemap_bits (super s1) = sfs_freemap_bits (super s)"
    "sfs_freemap_blocks (super s1) = sfs_freemap_blocks (super s)"
    by (simp_all add: s1_def sfs_freemap_bits_def sfs_freemap_blocks_def)
  have ok1: "fs_ok s1" unfolding fs_ok_def bits
    using ok inv nb f dec by (auto simp: fs_ok_def s1_def)
  have b1: "blk_ok s1 b" "inuse s1 b" using b f by (simp_all add: s1_def blk_ok_def inuse_def)
  have "sfs_block_alloc s = Some (Inr b, set_blk s1 b (replicate 4096 0))"
    using pos inuse_Some [OF ok1 b1(2)] sfs_clear_block1_ok [OF ok1 b1(1)]
    by (simp add: sfs_block_alloc_def r s1_def)
  moreover have "alloc_step s b (set_blk s1 b (replicate 4096 0))"
    unfolding alloc_step_def blk_set_blk [OF length_replicate] fs_ok_set_blk sfs_env_set_blk
    using ok1 f b mem by (auto simp: s1_def sfs_env_def)
  ultimately show thesis using l by (rule that)
qed

lemma sfs_block_alloc_full:
  assumes "fs_ok s" "fs_free s = {}"
  shows "sfs_block_alloc s = Some (Inl E_NO_MEM, s)"
  using bitmap_alloc_full [OF fs_okD(4) [OF assms(1)] assms(2)] by (simp add: sfs_block_alloc_def)

lemma sfs_block_free_ok:
  assumes ok: "fs_ok s" and d: "data_blk s b"
  obtains s' where "sfs_block_free s b = Some s'" "free_step s b s'"
proof -
  have b: "inuse s b" and low: "2 + unat (sfs_freemap_blocks (super s)) \<le> unat b"
    using d by (simp_all add: data_blk_def)
  have lt: "unat b < unat (sup_blocks (super s))" using b by (simp add: inuse_def blk_ok_def word_less_nat_alt)
  have "b < nbits (freemap s)"
    using lt freemap_bits_unat(2) [OF ok] fs_okD(5) [OF ok] by (simp add: word_less_nat_alt)
  then obtain fm where r: "bitmap_free (freemap s) b = Some fm"
    and f: "free_indices fm = insert (unat b) (fs_free s)" and inv: "bitmap_inv fm"
    using bitmap_free_spec [OF fs_okD(4) [OF ok], of b] b by (auto simp: inuse_def)
  have nb: "nbits fm = nbits (freemap s)" using r by (rule bitmap_free_keeps)
  have "card (insert (unat b) (fs_free s)) = Suc (card (fs_free s))"
    using b finite_fs_free [OF ok] by (simp add: inuse_def)
  moreover have "card (fs_free s) \<le> 0x100000"
    using card_mono [OF _ fs_okD(8) [OF ok]] fs_okD(3) [OF ok] by simp
  ultimately have inc: "unat (sup_unused (super s) + 1) = card (insert (unat b) (fs_free s))"
    using fs_okD(7) [OF ok] by (simp add: unat_word_ariths)
  define s1 where "s1 = s\<lparr>freemap := fm, super := (super s)\<lparr>sup_unused := sup_unused (super s) + 1\<rparr>, super_dirty := True\<rparr>"
  have bits: "sfs_freemap_bits (super s1) = sfs_freemap_bits (super s)"
    "sfs_freemap_blocks (super s1) = sfs_freemap_blocks (super s)"
    by (simp_all add: s1_def sfs_freemap_bits_def sfs_freemap_blocks_def)
  have ok1: "fs_ok s1" unfolding fs_ok_def bits
    using ok inv nb f inc lt low by (auto simp: fs_ok_def s1_def)
  have "sfs_block_free s b = Some s1"
    using inuse_Some [OF ok b] by (simp add: sfs_block_free_def r s1_def)
  moreover have "free_step s b s1" using ok1 f by (simp add: free_step_def s1_def sfs_env_def)
  ultimately show thesis by (rule that)
qed

lemma alloc_stepD:
  assumes "alloc_step s b s'"
  shows "fs_ok s'" "sfs_env s' = sfs_env s" "fs_free s' = fs_free s - {unat b}"
    "blk s' b = replicate 4096 0" "c \<noteq> b \<Longrightarrow> blk s' c = blk s c" "unat b \<in> fs_free s"
  using assms by (auto simp: alloc_step_def)

lemma free_stepD:
  assumes "free_step s b s'"
  shows "fs_ok s'" "sfs_env s' = sfs_env s" "fs_free s' = insert (unat b) (fs_free s)" "blk s' c = blk s c"
  using assms by (auto simp: free_step_def)

lemma env_blk_ok: "sfs_env s' = sfs_env s \<Longrightarrow> blk_ok s' c = blk_ok s c"
  by (simp add: sfs_env_def blk_ok_def)

lemma env_freemap_blocks: "sfs_env s' = sfs_env s \<Longrightarrow> sfs_freemap_blocks (super s') = sfs_freemap_blocks (super s)"
  by (simp add: sfs_env_def sfs_freemap_blocks_def)

lemma inuse_alloc:
  assumes "alloc_step s b s'"
  shows "inuse s' c \<longleftrightarrow> inuse s c \<or> c = b"
  using assms env_blk_ok [OF alloc_stepD(2) [OF assms], of c] word_unat_eq_iff [of c b]
  by (cases "c = b") (auto simp: inuse_def alloc_step_def)

lemma inuse_free:
  assumes "free_step s b s'"
  shows "inuse s' c \<longleftrightarrow> inuse s c \<and> c \<noteq> b"
  using assms env_blk_ok [OF free_stepD(2) [OF assms], of c] word_unat_eq_iff [of c b]
  by (cases "c = b") (auto simp: inuse_def free_step_def)

lemma data_alloc:
  assumes "alloc_step s b s'" "fs_ok s"
  shows "data_blk s' c \<longleftrightarrow> data_blk s c \<or> c = b"
  using fs_okD(8) [OF assms(2)] alloc_stepD(6) [OF assms(1)] env_freemap_blocks [OF alloc_stepD(2) [OF assms(1)]]
  by (auto simp: data_blk_def inuse_alloc [OF assms(1)])

lemma data_free:
  assumes "free_step s b s'"
  shows "data_blk s' c \<longleftrightarrow> data_blk s c \<and> c \<noteq> b"
  using env_freemap_blocks [OF free_stepD(2) [OF assms]]
  by (auto simp: data_blk_def inuse_free [OF assms])

lemma alloc_fresh: "alloc_step s b s' \<Longrightarrow> \<not> inuse s b"
  by (simp add: alloc_step_def inuse_def)

subsection \<open>The map an inode represents\<close>

definition ent_at :: "sfs_fs \<Rightarrow> u32 \<Rightarrow> nat \<Rightarrow> u32" where
  "ent_at s e j = bytes_u32 (slice (blk s e) (4 * j) 4)"

definition bmap_at :: "sfs_fs \<Rightarrow> sfs_disk_inode \<Rightarrow> nat \<Rightarrow> u32" where
  "bmap_at s d i =
     (if i < SFS_NDIRECT then din_direct d ! i
      else if din_indirect d = 0 then 0 else ent_at s (din_indirect d) (i - SFS_NDIRECT))"

abbreviation nblocks :: "sfs_disk_inode \<Rightarrow> nat" where "nblocks d \<equiv> unat (din_blocks d)"

abbreviation (input) MAX_BLOCKS :: nat where "MAX_BLOCKS \<equiv> 1036"

definition owned :: "sfs_fs \<Rightarrow> sfs_disk_inode \<Rightarrow> u32 set" where
  "owned s d = bmap_at s d ` {..<nblocks d} \<union> ({din_indirect d} - {0})"

definition map_ok :: "sfs_fs \<Rightarrow> sfs_disk_inode \<Rightarrow> bool" where
  "map_ok s d \<longleftrightarrow> length (din_direct d) = SFS_NDIRECT \<and> nblocks d \<le> MAX_BLOCKS
     \<and> (\<forall>i<nblocks d. data_blk s (bmap_at s d i))
     \<and> (\<forall>i. nblocks d \<le> i \<longrightarrow> i < MAX_BLOCKS \<longrightarrow> bmap_at s d i = 0)
     \<and> inj_on (bmap_at s d) {..<nblocks d}
     \<and> (din_indirect d \<noteq> 0 \<longrightarrow> data_blk s (din_indirect d) \<and> din_indirect d \<notin> bmap_at s d ` {..<nblocks d})"

definition inode_ok :: "sfs_fs \<Rightarrow> sfs_inode \<Rightarrow> bool" where
  "inode_ok s sn \<longleftrightarrow> map_ok s (din sn) \<and> inuse s (ino sn) \<and> ino sn \<notin> owned s (din sn)"

lemma map_okD:
  assumes "map_ok s d"
  shows "length (din_direct d) = SFS_NDIRECT" "nblocks d \<le> MAX_BLOCKS"
    "i < nblocks d \<Longrightarrow> data_blk s (bmap_at s d i)"
    "nblocks d \<le> i \<Longrightarrow> i < MAX_BLOCKS \<Longrightarrow> bmap_at s d i = 0"
    "inj_on (bmap_at s d) {..<nblocks d}"
    "din_indirect d \<noteq> 0 \<Longrightarrow> data_blk s (din_indirect d)"
    "din_indirect d \<noteq> 0 \<Longrightarrow> i < nblocks d \<Longrightarrow> bmap_at s d i \<noteq> din_indirect d"
  using assms unfolding map_ok_def by (blast, blast, blast, blast, blast, blast, metis imageI lessThan_iff)

lemma owned_data: "map_ok s d \<Longrightarrow> b \<in> owned s d \<Longrightarrow> data_blk s b"
  by (auto simp: owned_def map_ok_def split: if_splits)

text \<open>Writing one entry of an entry block.\<close>

lemma ent_at_write:
  assumes "j < 1024" "k < 1024"
  shows "ent_at (set_blk s e (overwrite (blk s e) (4 * j) (u32_bytes w))) e k = (if k = j then w else ent_at s e k)"
proof (cases "k = j")
  case True
  then show ?thesis using assms slice_overwrite_same [of "4 * j" "u32_bytes w" "blk s e"]
    by (simp add: ent_at_def disk_block_write)
next
  case False
  have "slice (overwrite (blk s e) (4 * j) (u32_bytes w)) (4 * k) 4 = slice (blk s e) (4 * k) 4"
    using assms False by (intro slice_eqI) (auto simp: nth_overwrite)
  then show ?thesis using False assms by (simp add: ent_at_def disk_block_write)
qed

lemma ent_at_other: "blk s' e = blk s e \<Longrightarrow> ent_at s' e j = ent_at s e j"
  by (simp add: ent_at_def)

subsection \<open>The operations on the block map\<close>

lemma get_sub_read:
  assumes "fs_ok s" "inuse s e" "unat j < 1024" "ent_at s e (unat j) \<noteq> 0 \<or> \<not> create"
  shows "sfs_bmap_get_sub_nolock s e j create = Some (Inr (e, ent_at s e (unat j)), s)"
proof -
  have "sfs_rbuf s (u32_bytes 0) 0 4 e (int (unat j * 4))
    = Some (None, overwrite (u32_bytes 0) 0 (slice (blk s e) (unat j * 4) 4), s)"
    using assms by (intro sfs_rbuf_ok) (auto simp: inuse_def)
  moreover have "overwrite (u32_bytes 0) 0 (slice (blk s e) (unat j * 4) 4) = slice (blk s e) (4 * unat j) 4"
    using assms(3) by (subst overwrite_all) (simp_all add: mult.commute)
  ultimately show ?thesis using assms inuse_nz [OF assms(2)]
    by (simp add: sfs_bmap_get_sub_nolock_def Let_def ent_at_def)
qed

definition fill_entry :: "sfs_fs \<Rightarrow> u32 \<Rightarrow> nat \<Rightarrow> u32 \<Rightarrow> sfs_fs" where
  "fill_entry s e j b = set_blk s e (overwrite (blk s e) (4 * j) (u32_bytes b))"

lemma wbuf_entry:
  assumes "fs_ok s" "inuse s e" "j < 1024"
  shows "sfs_wbuf s (u32_bytes b) 0 4 e (int (j * 4)) = Some (None, u32_bytes b, fill_entry s e j b)"
  using sfs_wbuf_ok [of s e "4 * j" 4 0 "u32_bytes b"] slice_all [of "u32_bytes b"] assms
  by (simp add: fill_entry_def inuse_def mult.commute del: slice_all)

lemma get_sub_fill_full:
  assumes "fs_ok s" "inuse s e" "unat j < 1024" "ent_at s e (unat j) = 0" "fs_free s = {}"
  shows "sfs_bmap_get_sub_nolock s e j True = Some (Inl E_NO_MEM, s)"
proof -
  have "sfs_rbuf s (u32_bytes 0) 0 4 e (int (unat j * 4))
    = Some (None, overwrite (u32_bytes 0) 0 (slice (blk s e) (unat j * 4) 4), s)"
    using assms by (intro sfs_rbuf_ok) (auto simp: inuse_def)
  moreover have "overwrite (u32_bytes 0) 0 (slice (blk s e) (unat j * 4) 4) = slice (blk s e) (4 * unat j) 4"
    using assms(3) by (subst overwrite_all) (simp_all add: mult.commute)
  ultimately show ?thesis using assms inuse_nz [OF assms(2)] sfs_block_alloc_full [OF assms(1,5)]
    by (simp add: sfs_bmap_get_sub_nolock_def Let_def ent_at_def)
qed

lemma get_sub_fill:
  assumes "fs_ok s" "inuse s e" "unat j < 1024" "ent_at s e (unat j) = 0"
    and a: "sfs_block_alloc s = Some (Inr b, s1)" "alloc_step s b s1"
  shows "sfs_bmap_get_sub_nolock s e j True = Some (Inr (e, b), fill_entry s1 e (unat j) b)"
proof -
  have "sfs_rbuf s (u32_bytes 0) 0 4 e (int (unat j * 4))
    = Some (None, overwrite (u32_bytes 0) 0 (slice (blk s e) (unat j * 4) 4), s)"
    using assms by (intro sfs_rbuf_ok) (auto simp: inuse_def)
  moreover have "overwrite (u32_bytes 0) 0 (slice (blk s e) (unat j * 4) 4) = slice (blk s e) (4 * unat j) 4"
    using assms(3) by (subst overwrite_all) (simp_all add: mult.commute)
  moreover have "sfs_wbuf s1 (u32_bytes b) 0 4 e (int (unat j * 4)) = Some (None, u32_bytes b, fill_entry s1 e (unat j) b)"
    using assms(2,3) alloc_stepD(1) [OF a(2)] inuse_alloc [OF a(2)] by (intro wbuf_entry) auto
  ultimately show ?thesis using assms inuse_nz [OF assms(2)]
    by (simp add: sfs_bmap_get_sub_nolock_def Let_def ent_at_def)
qed

lemma get_sub_new_full:
  assumes "fs_ok s" "unat j < 1024" "fs_free s = {}"
  shows "sfs_bmap_get_sub_nolock s 0 j True = Some (Inl E_NO_MEM, s)"
  using assms sfs_block_alloc_full [OF assms(1,3)] by (simp add: sfs_bmap_get_sub_nolock_def)

lemma get_sub_new_undo:
  assumes "fs_ok s" "unat j < 1024" "sfs_block_alloc s = Some (Inr e, s1)" "alloc_step s e s1" "fs_free s1 = {}"
  obtains s2 where "sfs_bmap_get_sub_nolock s 0 j True = Some (Inl E_NO_MEM, s2)" "free_step s1 e s2"
proof -
  have "data_blk s1 e" using data_alloc [OF assms(4,1)] by simp
  then obtain s2 where "sfs_block_free s1 e = Some s2" "free_step s1 e s2"
    using sfs_block_free_ok alloc_stepD(1) [OF assms(4)] by blast
  moreover have "e \<noteq> 0" using assms(4) by (simp add: alloc_step_def blk_ok_def)
  ultimately show thesis
    using assms sfs_block_alloc_full [OF alloc_stepD(1) [OF assms(4)] assms(5)] that [of s2]
    by (simp add: sfs_bmap_get_sub_nolock_def Let_def)
qed

lemma get_sub_new:
  assumes "fs_ok s" "unat j < 1024" "sfs_block_alloc s = Some (Inr e, s1)" "alloc_step s e s1"
    "sfs_block_alloc s1 = Some (Inr b, s2)" "alloc_step s1 b s2"
  shows "sfs_bmap_get_sub_nolock s 0 j True = Some (Inr (e, b), fill_entry s2 e (unat j) b)"
proof -
  have "sfs_wbuf s2 (u32_bytes b) 0 4 e (int (unat j * 4)) = Some (None, u32_bytes b, fill_entry s2 e (unat j) b)"
    using assms(2) alloc_stepD(1) [OF assms(6)] inuse_alloc [OF assms(4)] inuse_alloc [OF assms(6)]
    by (intro wbuf_entry) auto
  then show ?thesis using assms by (simp add: sfs_bmap_get_sub_nolock_def Let_def)
qed

subsection \<open>Extending and keeping a map\<close>

text \<open>
  \<open>same_inode\<close>: the fields that the block map does not concern. \<open>others_kept\<close>: every block in use that the
  inode does not own stays in use, with its contents, and does not become a block of the inode.
\<close>

definition same_inode :: "sfs_disk_inode \<Rightarrow> sfs_disk_inode \<Rightarrow> bool" where
  "same_inode d d' \<longleftrightarrow> din_size d' = din_size d \<and> din_type d' = din_type d \<and> din_nlinks d' = din_nlinks d"

definition others_kept :: "sfs_fs \<Rightarrow> sfs_disk_inode \<Rightarrow> sfs_fs \<Rightarrow> sfs_disk_inode \<Rightarrow> bool" where
  "others_kept s d s' d' \<longleftrightarrow>
     (\<forall>c. inuse s c \<longrightarrow> c \<notin> owned s d \<longrightarrow> inuse s' c \<and> c \<notin> owned s' d' \<and> blk s' c = blk s c)"

definition map_extend :: "sfs_fs \<Rightarrow> sfs_disk_inode \<Rightarrow> u32 \<Rightarrow> sfs_fs \<Rightarrow> sfs_disk_inode \<Rightarrow> bool" where
  "map_extend s d b s' d' \<longleftrightarrow> fs_ok s' \<and> sfs_env s' = sfs_env s \<and> map_ok s' d' \<and> same_inode d d'
     \<and> nblocks d' = Suc (nblocks d) \<and> bmap_at s' d' (nblocks d) = b \<and> blk s' b = replicate 4096 0
     \<and> (\<forall>i<nblocks d. bmap_at s' d' i = bmap_at s d i \<and> blk s' (bmap_at s d i) = blk s (bmap_at s d i))
     \<and> others_kept s d s' d'"

definition map_keep :: "sfs_fs \<Rightarrow> sfs_disk_inode \<Rightarrow> sfs_fs \<Rightarrow> sfs_disk_inode \<Rightarrow> bool" where
  "map_keep s d s' d' \<longleftrightarrow> fs_ok s' \<and> sfs_env s' = sfs_env s \<and> map_ok s' d' \<and> same_inode d d'
     \<and> nblocks d' = nblocks d
     \<and> (\<forall>i<nblocks d. bmap_at s' d' i = bmap_at s d i \<and> blk s' (bmap_at s d i) = blk s (bmap_at s d i))
     \<and> others_kept s d s' d'"

lemma map_extendI:
  assumes ok: "map_ok s d" and n: "nblocks d < MAX_BLOCKS"
    and s': "fs_ok s'" "sfs_env s' = sfs_env s"
    and d': "length (din_direct d') = SFS_NDIRECT" "nblocks d' = Suc (nblocks d)" "same_inode d d'"
    and at: "\<And>i. i < MAX_BLOCKS \<Longrightarrow> bmap_at s' d' i = (if i = nblocks d then b else bmap_at s d i)"
    and b: "data_blk s' b" "\<not> inuse s b" "blk s' b = replicate 4096 0"
    and use: "\<And>c. inuse s c \<Longrightarrow> inuse s' c"
    and con: "\<And>c. inuse s c \<Longrightarrow> c \<noteq> din_indirect d \<Longrightarrow> blk s' c = blk s c"
    and ind: "din_indirect d' = din_indirect d \<or>
       din_indirect d = 0 \<and> data_blk s' (din_indirect d') \<and> \<not> inuse s (din_indirect d') \<and> din_indirect d' \<noteq> b"
  shows "map_extend s d b s' d'"
proof -
  let ?n = "nblocks d"
  have data: "data_blk s' c" if "data_blk s c" for c
    using that use env_freemap_blocks [OF s'(2)] by (simp add: data_blk_def)
  have old: "bmap_at s' d' i = bmap_at s d i" if "i < ?n" for i using that n at by simp
  have new: "bmap_at s' d' ?n = b" using n at by simp
  have rng: "{..<nblocks d'} = insert ?n {..<?n}" using d'(2) by auto
  have fresh: "b \<noteq> bmap_at s d i" if "i < ?n" for i
    using b(2) map_okD(3) [OF ok that] by (auto simp: data_blk_def)
  have img: "bmap_at s' d' ` {..<nblocks d'} = insert b (bmap_at s d ` {..<?n})"
    unfolding rng by (simp add: old new)
  have inj: "inj_on (bmap_at s' d') {..<nblocks d'}"
    unfolding rng using fresh map_okD(5) [OF ok] by (auto simp: old new inj_on_def)
  have ind_ok: "data_blk s' (din_indirect d') \<and> din_indirect d' \<notin> bmap_at s' d' ` {..<nblocks d'}"
    if "din_indirect d' \<noteq> 0"
  proof (cases "din_indirect d' = din_indirect d")
    case True
    then have "data_blk s (din_indirect d)" "din_indirect d \<notin> bmap_at s d ` {..<?n}"
      using ok that unfolding map_ok_def by auto
    moreover have "din_indirect d \<noteq> b" using calculation(1) b(2) data_inuse by blast
    ultimately show ?thesis unfolding img True using data by blast
  next
    case False
    then show ?thesis unfolding img using ind map_okD(3) [OF ok] by (auto simp: data_blk_def)
  qed
  have "map_ok s' d'" unfolding map_ok_def
  proof (intro conjI allI impI)
    show "data_blk s' (bmap_at s' d' i)" if "i < nblocks d'" for i
      using that d'(2) b(1) map_okD(3) [OF ok] data by (cases "i = ?n") (auto simp: old new)
    show "bmap_at s' d' i = 0" if "nblocks d' \<le> i" "i < MAX_BLOCKS" for i
      using that d'(2) at map_okD(4) [OF ok] by simp
  qed (use d' n inj ind_ok in auto)
  moreover have "blk s' (bmap_at s d i) = blk s (bmap_at s d i)" if "i < ?n" for i
    using con map_okD(3) [OF ok that] map_okD(7) [OF ok _ that] by (metis data_inuse inuse_nz)
  moreover have "others_kept s d s' d'" unfolding others_kept_def
  proof (intro allI impI)
    fix c assume c: "inuse s c" "c \<notin> owned s d"
    have "c \<noteq> din_indirect d" using c inuse_nz [OF c(1)] by (auto simp: owned_def)
    moreover have "c \<notin> owned s' d'"
      using c b(2) ind unfolding owned_def img by (auto simp: owned_def)
    ultimately show "inuse s' c \<and> c \<notin> owned s' d' \<and> blk s' c = blk s c" using c use con by blast
  qed
  ultimately show ?thesis using s' d' new b(3) by (simp add: map_extend_def old)
qed

lemma map_keepI:
  assumes ok: "map_ok s d" and s': "fs_ok s'" "sfs_env s' = sfs_env s"
    and use: "\<And>c. inuse s c \<Longrightarrow> inuse s' c \<and> blk s' c = blk s c"
  shows "map_keep s d s' d"
proof -
  have at: "bmap_at s' d i = bmap_at s d i" for i
    using use map_okD(6) [OF ok] by (auto simp: bmap_at_def ent_at_def data_blk_def)
  have own: "owned s' d = owned s d" by (simp add: owned_def at)
  have data: "data_blk s' c" if "data_blk s c" for c
    using that use env_freemap_blocks [OF s'(2)] by (simp add: data_blk_def)
  have "map_ok s' d" using ok data unfolding map_ok_def at by (simp add: inj_on_def at)
  then show ?thesis using s' use map_okD(3) [OF ok]
    by (simp add: map_keep_def at own others_kept_def same_inode_def data_blk_def)
qed

definition same_rest :: "sfs_inode \<Rightarrow> sfs_inode \<Rightarrow> bool" where
  "same_rest sn sn' \<longleftrightarrow> ino sn' = ino sn \<and> reclaim_count sn' = reclaim_count sn \<and> sin_sem sn' = sin_sem sn"

lemma bmap_out_ok: "fs_ok s \<Longrightarrow> i = 0 \<or> inuse s i \<Longrightarrow> bmap_out s sn i = Some (Inr i, s, sn)"
  by (auto simp: bmap_out_def inuse_Some)

lemma unat_index: "12 \<le> unat (w :: u32) \<Longrightarrow> unat (w - 12) = unat w - 12"
  by (subst unat_sub) (simp_all add: word_le_nat_alt)

text \<open>An index below the number of blocks is looked up; nothing changes.\<close>

lemma bmap_load_old:
  assumes ok: "fs_ok s" and m: "map_ok s (din sn)" and i: "unat index < nblocks (din sn)"
  shows "sfs_bmap_load_nolock s sn index = Some (Inr (bmap_at s (din sn) (unat index)), s, sn)"
proof -
  let ?b = "bmap_at s (din sn) (unat index)"
  have b: "inuse s ?b" "?b \<noteq> 0" using map_okD(3) [OF m i] by (auto dest: data_inuse inuse_nz)
  have lim: "unat index < MAX_BLOCKS" using i map_okD(2) [OF m] by linarith
  have "sfs_bmap_get_nolock s sn index False = Some (Inr ?b, s, sn)"
  proof (cases "unat index < 12")
    case True
    then show ?thesis using b by (simp add: sfs_bmap_get_nolock_def bmap_at_def bmap_out_ok [OF ok])
  next
    case False
    then have ind: "din_indirect (din sn) \<noteq> 0" "?b = ent_at s (din_indirect (din sn)) (unat (index - 12))"
      using b by (auto simp: bmap_at_def unat_index split: if_splits)
    moreover have "unat (index - 12) < 1024" using False lim by (simp add: unat_index)
    ultimately show ?thesis
      using False b get_sub_read [OF ok data_inuse [OF map_okD(6) [OF m ind(1)]], of "index - 12" False]
      by (simp add: sfs_bmap_get_nolock_def Let_def bmap_out_ok [OF ok])
  qed
  moreover have "index \<noteq> din_blocks (din sn)" "index \<le> din_blocks (din sn)"
    using i by (auto simp: word_le_nat_alt)
  ultimately show ?thesis using inuse_Some [OF ok b(1)]
    by (simp add: sfs_bmap_load_nolock_def)
qed

text \<open>An index past the end is a failed assertion; so is the end of the largest map.\<close>

lemma bmap_load_past:
  "nblocks (din sn) < unat index \<Longrightarrow> sfs_bmap_load_nolock s sn index = None"
  by (simp add: sfs_bmap_load_nolock_def bind_assert word_le_nat_alt)

lemma bmap_load_limit:
  assumes "MAX_BLOCKS \<le> unat index"
  shows "sfs_bmap_load_nolock s sn index = None"
proof -
  have "\<not> unat index < 12" "\<not> unat (index - 12) < 1024" using assms by (simp_all add: unat_index)
  then show ?thesis by (simp add: sfs_bmap_load_nolock_def bind_assert sfs_bmap_get_nolock_def Let_def)
qed

text \<open>The index just behind the last block is allocated.\<close>

lemma load_create:
  assumes "index = din_blocks (din sn)" "sfs_bmap_get_nolock s sn index True = Some (Inr b, s', sn')"
    "fs_ok s'" "inuse s' b"
  shows "sfs_bmap_load_nolock s sn index
    = Some (Inr b, s', sn'\<lparr>din := (din sn')\<lparr>din_blocks := din_blocks (din sn') + 1\<rparr>\<rparr>)"
  using assms by (simp add: sfs_bmap_load_nolock_def inuse_Some)

text \<open>The free blocks that an extension by one block takes: the first block behind the direct ones needs an indirect block.\<close>

definition blocks_needed :: "sfs_disk_inode \<Rightarrow> nat" where
  "blocks_needed d = (if nblocks d = SFS_NDIRECT \<and> din_indirect d = 0 then 2 else 1)"

definition load_result ::
    "sfs_fs \<Rightarrow> sfs_inode \<Rightarrow> ((err + u32) \<times> sfs_fs \<times> sfs_inode) option \<Rightarrow> bool" where
  "load_result s sn r \<longleftrightarrow>
     (\<exists>s'. r = Some (Inl E_NO_MEM, s', sn) \<and> map_keep s (din sn) s' (din sn)
        \<and> card (fs_free s) < blocks_needed (din sn) \<and> fs_free s' = fs_free s) \<or>
     (\<exists>b s' sn'. r = Some (Inr b, s', sn') \<and> map_extend s (din sn) b s' (din sn') \<and> same_rest sn sn'
        \<and> blocks_needed (din sn) \<le> card (fs_free s)
        \<and> fs_free s' = fs_free s - unat ` insert b ({din_indirect (din sn')} - {din_indirect (din sn)}))"

lemma needed_one: "fs_ok s \<Longrightarrow> blocks_needed d = 1 \<Longrightarrow> card (fs_free s) < blocks_needed d \<longleftrightarrow> fs_free s = {}"
  using finite_fs_free [of s] by (simp add: card_0_eq)

lemma nblocks_Suc:
  "unat n < MAX_BLOCKS \<Longrightarrow> unat (n + 1 :: u32) = Suc (unat n)"
  by (simp add: unat_word_ariths)

lemma same_env_full:
  assumes "alloc_step s e s1" "free_step s1 e s2"
  shows "sfs_env s2 = sfs_env s" "inuse s c \<Longrightarrow> inuse s2 c \<and> blk s2 c = blk s c"
  using alloc_stepD(2) [OF assms(1)] free_stepD(2,4) [OF assms(2)] alloc_stepD(5) [OF assms(1), of c]
    inuse_alloc [OF assms(1), of c] inuse_free [OF assms(2), of c] alloc_fresh [OF assms(1)] by auto

lemma load_direct:
  assumes ok: "fs_ok s" and m: "map_ok s (din sn)" and n: "nblocks (din sn) < 12"
  shows "load_result s sn (sfs_bmap_load_nolock s sn (din_blocks (din sn)))"
proof -
  let ?d = "din sn" let ?n = "nblocks ?d"
  have need: "card (fs_free s) < blocks_needed ?d \<longleftrightarrow> fs_free s = {}"
    using n by (intro needed_one [OF ok]) (simp add: blocks_needed_def)
  have z: "din_direct ?d ! ?n = 0" using map_okD(4) [OF m, of ?n] n by (simp add: bmap_at_def)
  show ?thesis
  proof (cases "fs_free s = {}")
    case True
    have "sfs_bmap_load_nolock s sn (din_blocks ?d) = Some (Inl E_NO_MEM, s, sn)"
      using n z sfs_block_alloc_full [OF ok True]
      by (simp add: sfs_bmap_load_nolock_def sfs_bmap_get_nolock_def)
    then show ?thesis using map_keepI [OF m ok] need True by (simp add: load_result_def)
  next
    case False
    then obtain b s' where a: "sfs_block_alloc s = Some (Inr b, s')" "alloc_step s b s'"
      using sfs_block_alloc_ok [OF ok] by metis
    let ?sn = "sn\<lparr>din := ?d\<lparr>din_direct := (din_direct ?d)[?n := b]\<rparr>, dirty := True\<rparr>"
    let ?d' = "?d\<lparr>din_direct := (din_direct ?d)[?n := b], din_blocks := din_blocks ?d + 1\<rparr>"
    have b: "inuse s' b" "fs_ok s'" using inuse_alloc [OF a(2)] alloc_stepD(1) [OF a(2)] by auto
    have "sfs_bmap_get_nolock s sn (din_blocks ?d) True = Some (Inr b, s', ?sn)"
      using n z a(1) b by (simp add: sfs_bmap_get_nolock_def bmap_out_ok Let_def)
    from load_create [OF refl this b(2,1)]
    have "sfs_bmap_load_nolock s sn (din_blocks ?d) = Some (Inr b, s', ?sn\<lparr>din := ?d'\<rparr>)" by simp
    moreover have "map_extend s ?d b s' ?d'"
    proof (rule map_extendI [OF m])
      show "bmap_at s' ?d' i = (if i = ?n then b else bmap_at s ?d i)" if "i < MAX_BLOCKS" for i
      proof -
        have "ent_at s' (din_indirect ?d) k = ent_at s (din_indirect ?d) k" if "din_indirect ?d \<noteq> 0" for k
          by (rule ent_at_other)
            (use map_okD(6) [OF m that] alloc_fresh [OF a(2)] alloc_stepD(5) [OF a(2)] data_inuse in metis)
        then show ?thesis using n map_okD(1) [OF m] by (auto simp: bmap_at_def)
      qed
      show "nblocks ?d' = Suc ?n" using n nblocks_Suc [of "din_blocks ?d"] by simp
      show "blk s' c = blk s c" if "inuse s c" for c
        using that alloc_fresh [OF a(2)] alloc_stepD(5) [OF a(2)] by metis
      show "data_blk s' b" using data_alloc [OF a(2) ok] by blast
      show "inuse s' c" if "inuse s c" for c using that inuse_alloc [OF a(2)] by blast
    qed (use n map_okD(1) [OF m] alloc_fresh [OF a(2)] alloc_stepD(1,2,4) [OF a(2)]
        in \<open>simp_all add: same_inode_def\<close>)
    moreover have "blocks_needed ?d \<le> card (fs_free s)" using need False by simp
    ultimately show ?thesis using alloc_stepD(3) [OF a(2)] by (auto simp: load_result_def same_rest_def)
  qed
qed

lemma fill_entry_simps [simp]:
  "fs_ok (fill_entry s e j b) = fs_ok s" "sfs_env (fill_entry s e j b) = sfs_env s"
  "inuse (fill_entry s e j b) c = inuse s c" "fs_free (fill_entry s e j b) = fs_free s" "data_blk (fill_entry s e j b) c = data_blk s c"
  by (simp_all add: fill_entry_def)

lemma blk_fill_other: "j < 1024 \<Longrightarrow> c \<noteq> e \<Longrightarrow> blk (fill_entry s e j b) c = blk s c"
  unfolding fill_entry_def by (subst blk_set_blk) simp_all

lemma ent_at_fill:
  "j < 1024 \<Longrightarrow> k < 1024 \<Longrightarrow> ent_at (fill_entry s e j b) e k = (if k = j then b else ent_at s e k)"
  unfolding fill_entry_def by (rule ent_at_write)

lemma load_indirect:
  assumes ok: "fs_ok s" and m: "map_ok s (din sn)" and n: "12 \<le> nblocks (din sn)" "nblocks (din sn) < MAX_BLOCKS"
    and ind: "din_indirect (din sn) \<noteq> 0"
  shows "load_result s sn (sfs_bmap_load_nolock s sn (din_blocks (din sn)))"
proof -
  let ?d = "din sn" let ?n = "nblocks ?d" let ?e = "din_indirect ?d" let ?j = "din_blocks ?d - 12"
  have need: "card (fs_free s) < blocks_needed ?d \<longleftrightarrow> fs_free s = {}"
    using ind by (intro needed_one [OF ok]) (simp add: blocks_needed_def)
  have j: "unat ?j = ?n - 12" "unat ?j < 1024" using n by (simp_all add: unat_index)
  have e: "inuse s ?e" using map_okD(6) [OF m ind] by (rule data_inuse)
  have z: "ent_at s ?e (unat ?j) = 0" using map_okD(4) [OF m, of ?n] n ind j by (simp add: bmap_at_def)
  show ?thesis
  proof (cases "fs_free s = {}")
    case True
    have "sfs_bmap_load_nolock s sn (din_blocks ?d) = Some (Inl E_NO_MEM, s, sn)"
      using n j get_sub_fill_full [OF ok e j(2) z True]
      by (simp add: sfs_bmap_load_nolock_def sfs_bmap_get_nolock_def Let_def)
    then show ?thesis using map_keepI [OF m ok] need True by (simp add: load_result_def)
  next
    case False
    then obtain b s1 where a: "sfs_block_alloc s = Some (Inr b, s1)" "alloc_step s b s1"
      using sfs_block_alloc_ok [OF ok] by metis
    let ?s = "fill_entry s1 ?e (unat ?j) b" let ?d' = "?d\<lparr>din_blocks := din_blocks ?d + 1\<rparr>"
    have be: "b \<noteq> ?e" using e alloc_fresh [OF a(2)] by auto
    have b: "inuse ?s b" "fs_ok ?s" using inuse_alloc [OF a(2)] alloc_stepD(1) [OF a(2)] by auto
    have "sfs_bmap_get_nolock s sn (din_blocks ?d) True = Some (Inr b, ?s, sn)"
      using n j get_sub_fill [OF ok e j(2) z a] b
      by (simp add: sfs_bmap_get_nolock_def bmap_out_ok Let_def)
    from load_create [OF refl this b(2,1)]
    have "sfs_bmap_load_nolock s sn (din_blocks ?d) = Some (Inr b, ?s, sn\<lparr>din := ?d'\<rparr>)" .
    moreover have "map_extend s ?d b ?s ?d'"
    proof (rule map_extendI [OF m n(2)])
      show "bmap_at ?s ?d' i = (if i = ?n then b else bmap_at s ?d i)" if "i < MAX_BLOCKS" for i
      proof -
        have "ent_at s1 ?e k = ent_at s ?e k" for k
          by (rule ent_at_other) (use alloc_stepD(5) [OF a(2)] be in metis)
        then have "ent_at ?s ?e (i - 12) = (if i = ?n then b else ent_at s ?e (i - 12))" if "\<not> i < 12"
          using that \<open>i < MAX_BLOCKS\<close> j n by (auto simp: ent_at_fill)
        moreover have "bmap_at ?s ?d' i = (if i < 12 then bmap_at s ?d i else ent_at ?s ?e (i - 12))"
          "bmap_at s ?d i = (if i < 12 then bmap_at s ?d i else ent_at s ?e (i - 12))"
          using ind by (simp_all add: bmap_at_def)
        ultimately show ?thesis using n by (metis not_less)
      qed
      show "blk ?s c = blk s c" if "inuse s c" "c \<noteq> ?e" for c
        using that j(2) blk_fill_other alloc_stepD(5) [OF a(2)] alloc_fresh [OF a(2)] by metis
      show "blk ?s b = replicate 4096 0"
        unfolding blk_fill_other [OF j(2) be] by (rule alloc_stepD(4) [OF a(2)])
      show "nblocks ?d' = Suc ?n" using n nblocks_Suc [of "din_blocks ?d"] by simp
      show "data_blk ?s b" using data_alloc [OF a(2) ok] by simp
      show "inuse ?s c" if "inuse s c" for c using that inuse_alloc [OF a(2)] by simp
    qed (use map_okD(1) [OF m] alloc_stepD(1,2) [OF a(2)] alloc_fresh [OF a(2)] in \<open>simp_all add: same_inode_def\<close>)
    moreover have "blocks_needed ?d \<le> card (fs_free s)" using need False by simp
    ultimately show ?thesis using alloc_stepD(3) [OF a(2)] by (auto simp: load_result_def same_rest_def)
  qed
qed

lemma load_new_indirect:
  assumes ok: "fs_ok s" and m: "map_ok s (din sn)" and n: "nblocks (din sn) = 12" and ind: "din_indirect (din sn) = 0"
  shows "load_result s sn (sfs_bmap_load_nolock s sn (din_blocks (din sn)))"
proof -
  let ?d = "din sn" let ?j = "din_blocks ?d - 12"
  have need: "blocks_needed ?d = 2" using n ind by (simp add: blocks_needed_def)
  have fin: "finite (fs_free s)" by (rule finite_fs_free [OF ok])
  have j: "unat ?j = 0" "unat ?j < 1024" using n by (simp_all add: unat_index)
  show ?thesis
  proof (cases "fs_free s = {}")
    case True
    have "sfs_bmap_load_nolock s sn (din_blocks ?d) = Some (Inl E_NO_MEM, s, sn)"
      using n j ind get_sub_new_full [OF ok j(2) True]
      by (simp add: sfs_bmap_load_nolock_def sfs_bmap_get_nolock_def Let_def)
    then show ?thesis using map_keepI [OF m ok] need True by (simp add: load_result_def)
  next
    case False
    then obtain e s1 where a: "sfs_block_alloc s = Some (Inr e, s1)" "alloc_step s e s1"
      using sfs_block_alloc_ok [OF ok] by metis
    have ok1: "fs_ok s1" and e: "data_blk s1 e" "e \<noteq> 0"
      using alloc_stepD(1) [OF a(2)] data_alloc [OF a(2) ok] a(2) by (auto simp: alloc_step_def blk_ok_def)
    show ?thesis
    proof (cases "fs_free s1 = {}")
      case True
      then obtain s2 where u: "sfs_bmap_get_sub_nolock s 0 ?j True = Some (Inl E_NO_MEM, s2)" "free_step s1 e s2"
        using get_sub_new_undo [OF ok j(2) a] by metis
      have "sfs_bmap_load_nolock s sn (din_blocks ?d) = Some (Inl E_NO_MEM, s2, sn)"
        using n j ind u(1) by (simp add: sfs_bmap_load_nolock_def sfs_bmap_get_nolock_def Let_def)
      moreover have "card (fs_free s) = 1" "fs_free s2 = fs_free s"
        using True fin alloc_stepD(3,6) [OF a(2)] free_stepD(3) [OF u(2)] by (auto simp: card_1_singleton_iff)
      ultimately show ?thesis
        using need map_keepI [OF m free_stepD(1) [OF u(2)] same_env_full(1) [OF a(2) u(2)] same_env_full(2) [OF a(2) u(2)]]
        by (simp add: load_result_def)
    next
      case False
      then obtain b s2 where a2: "sfs_block_alloc s1 = Some (Inr b, s2)" "alloc_step s1 b s2"
        using sfs_block_alloc_ok [OF ok1] by metis
      let ?s = "fill_entry s2 e (unat ?j) b"
      let ?d' = "?d\<lparr>din_indirect := e, din_blocks := din_blocks ?d + 1\<rparr>"
      have be: "b \<noteq> e" using alloc_fresh [OF a2(2)] inuse_alloc [OF a(2)] by auto
      have b: "inuse ?s b" "fs_ok ?s" using inuse_alloc [OF a2(2)] alloc_stepD(1) [OF a2(2)] by auto
      have "sfs_bmap_get_nolock s sn (din_blocks ?d) True
          = Some (Inr b, ?s, sn\<lparr>din := ?d\<lparr>din_indirect := e\<rparr>, dirty := True\<rparr>)"
        using n j ind get_sub_new [OF ok j(2) a a2] b e(2)
        by (simp add: sfs_bmap_get_nolock_def bmap_out_ok Let_def)
      from load_create [OF refl this b(2,1)]
      have "sfs_bmap_load_nolock s sn (din_blocks ?d)
          = Some (Inr b, ?s, sn\<lparr>din := ?d', dirty := True\<rparr>)" by simp
      moreover have "map_extend s ?d b ?s ?d'"
      proof (rule map_extendI [OF m])
        show "bmap_at ?s ?d' i = (if i = nblocks ?d then b else bmap_at s ?d i)" if "i < MAX_BLOCKS" for i
        proof -
          have "ent_at s2 e k = 0" if "k < 1024" for k
            using that alloc_stepD(4) [OF a(2)] alloc_stepD(5) [OF a2(2)] be by (simp add: ent_at_def bytes_u32_zero)
          then have "ent_at ?s e (i - 12) = (if i = 12 then b else 0)" if "\<not> i < 12"
            using that \<open>i < MAX_BLOCKS\<close> j by (auto simp: ent_at_fill)
          moreover have "bmap_at s ?d i = 0" if "\<not> i < 12" using that ind by (simp add: bmap_at_def)
          moreover have "bmap_at ?s ?d' i = (if i < 12 then bmap_at s ?d i else ent_at ?s e (i - 12))"
            using e(2) by (simp add: bmap_at_def)
          ultimately show ?thesis using n by auto
        qed
        show "blk ?s c = blk s c" if "inuse s c" "c \<noteq> din_indirect ?d" for c
        proof -
          have "c \<noteq> e" "c \<noteq> b" using that alloc_fresh [OF a(2)] alloc_fresh [OF a2(2)] inuse_alloc [OF a(2)] by auto
          then show ?thesis using j(2) blk_fill_other alloc_stepD(5) [OF a(2)] alloc_stepD(5) [OF a2(2)] by metis
        qed
        show "blk ?s b = replicate 4096 0"
          unfolding blk_fill_other [OF j(2) be] by (rule alloc_stepD(4) [OF a2(2)])
        show "\<not> inuse s b" using alloc_fresh [OF a2(2)] inuse_alloc [OF a(2)] by auto
        show "nblocks ?d' = Suc (nblocks ?d)" using n nblocks_Suc [of "din_blocks ?d"] by simp
        show "data_blk ?s b" using data_alloc [OF a2(2) ok1] by simp
        show "inuse ?s c" if "inuse s c" for c using that inuse_alloc [OF a(2)] inuse_alloc [OF a2(2)] by simp
        show "din_indirect ?d' = din_indirect ?d \<or> din_indirect ?d = 0 \<and> data_blk ?s (din_indirect ?d')
            \<and> \<not> inuse s (din_indirect ?d') \<and> din_indirect ?d' \<noteq> b"
          using ind be alloc_fresh [OF a(2)] data_alloc [OF a(2) ok] data_alloc [OF a2(2) ok1] by simp
      qed (use n map_okD(1) [OF m] alloc_stepD(1,2) [OF a2(2)] alloc_stepD(2) [OF a(2)]
          in \<open>simp_all add: same_inode_def\<close>)
      moreover have fr: "fs_free s1 = fs_free s - {unat e}" "fs_free ?s = fs_free s - {unat e} - {unat b}"
        using alloc_stepD(3) [OF a(2)] alloc_stepD(3) [OF a2(2)] by simp_all
      moreover have "2 \<le> card (fs_free s)"
      proof -
        have "card (fs_free s1) \<noteq> 0" using False fin fr(1) by (simp add: card_0_eq del: card_Diff_insert)
        then show ?thesis using card_Suc_Diff1 [OF fin alloc_stepD(6) [OF a(2)]] fr(1) by simp
      qed
      moreover have "fs_free s - {unat e} - {unat b} = fs_free s - unat ` insert b ({e} - {0})" using e(2) by auto
      ultimately show ?thesis using need ind by (auto simp: load_result_def same_rest_def)
    qed
  qed
qed

lemma bmap_load_new:
  assumes ok: "fs_ok s" and m: "map_ok s (din sn)" and n: "nblocks (din sn) < MAX_BLOCKS"
  shows "load_result s sn (sfs_bmap_load_nolock s sn (din_blocks (din sn)))"
proof -
  have "nblocks (din sn) = 12" if "12 \<le> nblocks (din sn)" "din_indirect (din sn) = 0"
  proof (rule ccontr)
    assume "nblocks (din sn) \<noteq> 12"
    then have "data_blk s (bmap_at s (din sn) 12)" using that n by (intro map_okD(3) [OF m]) simp
    then show False using that(2) by (auto simp: bmap_at_def dest: data_inuse inuse_nz)
  qed
  then show ?thesis
    using load_direct [OF ok m] load_indirect [OF ok m _ n] load_new_indirect [OF ok m]
    by (cases "nblocks (din sn) < 12") (auto simp: not_less)
qed

subsection \<open>Shrinking a map\<close>

definition map_shrink :: "sfs_fs \<Rightarrow> sfs_disk_inode \<Rightarrow> sfs_fs \<Rightarrow> sfs_disk_inode \<Rightarrow> bool" where
  "map_shrink s d s' d' \<longleftrightarrow> fs_ok s' \<and> sfs_env s' = sfs_env s \<and> map_ok s' d' \<and> same_inode d d'
     \<and> nblocks d = Suc (nblocks d') \<and> din_indirect d' = din_indirect d
     \<and> fs_free s' = insert (unat (bmap_at s d (nblocks d'))) (fs_free s)
     \<and> (\<forall>i<nblocks d'. bmap_at s' d' i = bmap_at s d i \<and> blk s' (bmap_at s d i) = blk s (bmap_at s d i))
     \<and> others_kept s d s' d'"

lemma map_shrinkI:
  assumes ok: "map_ok s d" and n: "nblocks d = Suc (nblocks d')"
    and fs: "fs_ok s1" "free_step s1 (bmap_at s d (nblocks d')) s'" "sfs_env s1 = sfs_env s" "fs_free s1 = fs_free s"
    and d': "length (din_direct d') = SFS_NDIRECT" "same_inode d d'" "din_indirect d' = din_indirect d"
    and at: "\<And>i. i < MAX_BLOCKS \<Longrightarrow> bmap_at s' d' i = (if i = nblocks d' then 0 else bmap_at s d i)"
    and con: "\<And>c. inuse s c \<Longrightarrow> c \<noteq> din_indirect d \<Longrightarrow> blk s1 c = blk s c"
  shows "map_shrink s d s' d'"
proof -
  let ?m = "nblocks d'" let ?b = "bmap_at s d ?m"
  have env: "sfs_env s' = sfs_env s" using free_stepD(2) [OF fs(2)] fs(3) by simp
  have use1: "inuse s1 c \<longleftrightarrow> inuse s c" for c
    unfolding inuse_def env_blk_ok [OF fs(3)] fs(4) ..
  have use: "inuse s' c \<longleftrightarrow> inuse s c \<and> c \<noteq> ?b" for c using inuse_free [OF fs(2)] use1 by simp
  have data: "data_blk s' c \<longleftrightarrow> data_blk s c \<and> c \<noteq> ?b" for c
    using env_freemap_blocks [OF env] by (auto simp: data_blk_def use)
  have old: "bmap_at s' d' i = bmap_at s d i" if "i < ?m" for i
    using that n map_okD(2) [OF ok] at by simp
  have ne: "bmap_at s d i \<noteq> ?b" if "i < ?m" for i
    using map_okD(5) [OF ok] that n by (auto simp: inj_on_def)
  have img: "bmap_at s' d' ` {..<?m} = bmap_at s d ` {..<?m}" by (auto simp: old)
  have sub: "bmap_at s d ` {..<?m} \<subseteq> bmap_at s d ` {..<nblocks d}" using n by auto
  have ind: "din_indirect d \<noteq> ?b" if "din_indirect d \<noteq> 0" using map_okD(7) [OF ok that, of ?m] n by auto
  have own: "owned s' d' \<subseteq> owned s d" unfolding owned_def img d'(3) using sub by blast
  have "map_ok s' d'" unfolding map_ok_def d'(3) img
  proof (intro conjI allI impI)
    show "data_blk s' (bmap_at s' d' i)" if "i < ?m" for i
      using that old data ne map_okD(3) [OF ok, of i] n by simp
    show "bmap_at s' d' i = 0" if "?m \<le> i" "i < MAX_BLOCKS" for i
      using that at map_okD(4) [OF ok, of i] n by auto
    show "inj_on (bmap_at s' d') {..<?m}"
      using map_okD(5) [OF ok] n by (auto simp: inj_on_def old)
    show "data_blk s' (din_indirect d)" if "din_indirect d \<noteq> 0"
      using data ind [OF that] map_okD(6) [OF ok that] by simp
    show "din_indirect d \<notin> bmap_at s d ` {..<?m}" if "din_indirect d \<noteq> 0"
      using ok that sub unfolding map_ok_def by blast
  qed (use d' n map_okD(2) [OF ok] in auto)
  moreover have "blk s' (bmap_at s d i) = blk s (bmap_at s d i)" if "i < ?m" for i
  proof -
    have i: "i < nblocks d" using that n by simp
    show ?thesis using con map_okD(3) [OF ok i] map_okD(7) [OF ok _ i] free_stepD(4) [OF fs(2)]
      by (metis data_inuse inuse_nz)
  qed
  moreover have "others_kept s d s' d'" unfolding others_kept_def
  proof (intro allI impI)
    fix c assume c: "inuse s c" "c \<notin> owned s d"
    have "c \<noteq> din_indirect d" "c \<noteq> ?b" using c inuse_nz [OF c(1)] n by (auto simp: owned_def)
    then show "inuse s' c \<and> c \<notin> owned s' d' \<and> blk s' c = blk s c"
      using c own use con free_stepD(4) [OF fs(2)] by auto
  qed
  ultimately show ?thesis
    using free_stepD(1,3) [OF fs(2)] env n d' fs(4) old by (simp add: map_shrink_def)
qed

lemma free_sub_ok:
  assumes ok: "fs_ok s" and e: "inuse s e" and j: "unat j < 1024"
    and b: "ent_at s e (unat j) = b" "data_blk s b"
  obtains s' where "sfs_bmap_free_sub_nolock s e j = Some (None, s')"
    "free_step (fill_entry s e (unat j) 0) b s'"
proof -
  have r: "sfs_rbuf s (u32_bytes 0) 0 4 e (int (unat j * 4)) = Some (None, slice (blk s e) (4 * unat j) 4, s)"
  proof -
    have "sfs_rbuf s (u32_bytes 0) 0 4 e (int (unat j * 4))
      = Some (None, overwrite (u32_bytes 0) 0 (slice (blk s e) (unat j * 4) 4), s)"
      using assms by (intro sfs_rbuf_ok) (auto simp: inuse_def)
    moreover have "overwrite (u32_bytes 0) 0 (slice (blk s e) (unat j * 4) 4) = slice (blk s e) (4 * unat j) 4"
      using j by (subst overwrite_all) (simp_all add: mult.commute)
    ultimately show ?thesis by simp
  qed
  let ?s = "fill_entry s e (unat j) 0"
  have "fs_ok ?s" "data_blk ?s b" using ok b by simp_all
  then obtain s' where f: "sfs_block_free ?s b = Some s'" "free_step ?s b s'"
    using sfs_block_free_ok by blast
  have nz: "b \<noteq> 0" using inuse_nz [OF data_inuse [OF b(2)]] .
  have "sfs_bmap_free_sub_nolock s e j = Some (None, s')"
    using inuse_Some [OF ok e] j r wbuf_entry [OF ok e j, of 0] f(1) nz b(1)
    by (simp add: sfs_bmap_free_sub_nolock_def ent_at_def)
  then show thesis using f(2) by (rule that)
qed

definition trunc_result ::
    "sfs_fs \<Rightarrow> sfs_inode \<Rightarrow> (err option \<times> sfs_fs \<times> sfs_inode) option \<Rightarrow> bool" where
  "trunc_result s sn r \<longleftrightarrow>
     (\<exists>s' sn'. r = Some (None, s', sn') \<and> map_shrink s (din sn) s' (din sn') \<and> same_rest sn sn')"

lemma bmap_truncate_ok:
  assumes ok: "fs_ok s" and m: "map_ok s (din sn)" and n: "nblocks (din sn) \<noteq> 0"
  shows "trunc_result s sn (sfs_bmap_truncate_nolock s sn)"
proof -
  let ?d = "din sn"
  obtain ix where ix: "din_blocks ?d - 1 = ix" by blast
  let ?b = "bmap_at s ?d (unat ix)"
  have "unat (din_blocks ?d - 1) = nblocks ?d - 1" using n by (subst unat_sub) (auto simp: word_le_nat_alt)
  then have i: "Suc (unat ix) = nblocks ?d" using n unfolding ix by simp
  have nz: "din_blocks ?d \<noteq> 0" using n by auto
  have b: "data_blk s ?b" using i by (intro map_okD(3) [OF m]) simp
  show ?thesis
  proof (cases "unat ix < 12")
    case True
    obtain s' where f: "sfs_block_free s ?b = Some s'" "free_step s ?b s'"
      using sfs_block_free_ok [OF ok b] by blast
    let ?d' = "?d\<lparr>din_direct := (din_direct ?d)[unat ix := 0], din_blocks := ix\<rparr>"
    have "?b \<noteq> 0" using inuse_nz [OF data_inuse [OF b]] .
    then have "sfs_bmap_truncate_nolock s sn = Some (None, s', sn\<lparr>din := ?d', dirty := True\<rparr>)"
      using True nz f(1) ix by (simp add: sfs_bmap_truncate_nolock_def sfs_bmap_free_nolock_def Let_def bmap_at_def)
    moreover have "map_shrink s ?d s' ?d'"
    proof (rule map_shrinkI [OF m])
      show "bmap_at s' ?d' i = (if i = nblocks ?d' then 0 else bmap_at s ?d i)" if "i < MAX_BLOCKS" for i
        using True map_okD(1) [OF m] free_stepD(4) [OF f(2)] by (auto simp: bmap_at_def ent_at_def)
      show "free_step s (bmap_at s ?d (nblocks ?d')) s'" using f(2) by simp
    qed (use i ok map_okD(1) [OF m] in \<open>simp_all add: same_inode_def\<close>)
    ultimately show ?thesis by (auto simp: trunc_result_def same_rest_def)
  next
    case False
    let ?e = "din_indirect ?d" let ?j = "ix - 12"
    have ind: "?e \<noteq> 0" "?b = ent_at s ?e (unat ?j)" "unat ?j < 1024"
      using False b i map_okD(2) [OF m]
      by (auto simp: bmap_at_def unat_index split: if_splits dest: data_inuse inuse_nz)
    have e: "inuse s ?e" using map_okD(6) [OF m ind(1)] by (rule data_inuse)
    obtain s' where f: "sfs_bmap_free_sub_nolock s ?e ?j = Some (None, s')"
      "free_step (fill_entry s ?e (unat ?j) 0) ?b s'"
      using free_sub_ok [OF ok e ind(3) ind(2) [symmetric] b] by metis
    let ?d' = "?d\<lparr>din_blocks := ix\<rparr>"
    have "sfs_bmap_truncate_nolock s sn = Some (None, s', sn\<lparr>din := ?d', dirty := True\<rparr>)"
      using False nz f(1) ind ix by (simp add: sfs_bmap_truncate_nolock_def sfs_bmap_free_nolock_def Let_def)
    moreover have "map_shrink s ?d s' ?d'"
    proof (rule map_shrinkI [OF m])
      show "bmap_at s' ?d' i = (if i = nblocks ?d' then 0 else bmap_at s ?d i)" if "i < MAX_BLOCKS" for i
      proof -
        have "ent_at s' ?e k = ent_at (fill_entry s ?e (unat ?j) 0) ?e k" for k
          by (rule ent_at_other) (rule free_stepD(4) [OF f(2)])
        then have "ent_at s' ?e (i - 12) = (if i = unat ix then 0 else ent_at s ?e (i - 12))" if "\<not> i < 12"
          using that \<open>i < MAX_BLOCKS\<close> ind(3) False by (auto simp: ent_at_fill unat_index)
        moreover have "bmap_at s' ?d' i = (if i < 12 then bmap_at s ?d i else ent_at s' ?e (i - 12))"
          "bmap_at s ?d i = (if i < 12 then bmap_at s ?d i else ent_at s ?e (i - 12))"
          using ind(1) by (simp_all add: bmap_at_def)
        ultimately show ?thesis using False by (metis sfs_disk_inode.select_convs(4) sfs_disk_inode.update_convs(4)
              sfs_disk_inode.surjective)
      qed
      show "free_step (fill_entry s ?e (unat ?j) 0) (bmap_at s ?d (nblocks ?d')) s'" using f(2) by simp
      show "fs_free (fill_entry s ?e (unat ?j) 0) = fs_free s" by (simp add: fill_entry_def)
      show "blk (fill_entry s ?e (unat ?j) 0) c = blk s c" if "c \<noteq> ?e" for c
        using that ind(3) by (rule blk_fill_other [rotated])
    qed (use i ok map_okD(1) [OF m] in \<open>simp_all add: same_inode_def\<close>)
    ultimately show ?thesis by (auto simp: trunc_result_def same_rest_def)
  qed
qed

subsection \<open>A concrete file system\<close>

text \<open>
  Eight blocks: superblock, root inode, freemap, the inode of a file in block 3, its data in block 4, and
  three free blocks. The disk holds the byte 7 everywhere. The second inode is a directory with no entries.
\<close>

definition sample_fs :: sfs_fs where
  "sample_fs = \<lparr>super = \<lparr>sup_magic = SFS_MAGIC, sup_blocks = 8, sup_unused = 3, sup_info = replicate 32 0\<rparr>,
     dev = \<lparr>d_rd = \<lparr>rd_valid = True, rd_size = 64, rd_img = (\<lambda>_. 7)\<rparr>, d_blocks = 8, d_blocksize = 4096, disk0_sem = 1\<rparr>,
     freemap = \<lparr>nbits = 32768, nwords = 1024, bmap = push_bit 5 (mask 3) # replicate 1023 0\<rparr>,
     super_dirty = False, fs_sem = 1, io_sem = 1, mutex_sem = 1,
     ilist = list_init \<lparr>lprev = (\<lambda>n. n), lnext = (\<lambda>n. n)\<rparr> InodeList, hlist = \<lparr>lprev = (\<lambda>n. n), lnext = (\<lambda>n. n)\<rparr>\<rparr>"

definition sample_din :: sfs_disk_inode where
  "sample_din = \<lparr>din_size = 100, din_type = SFS_TYPE_FILE, din_nlinks = 1, din_blocks = 1,
     din_direct = 4 # replicate 11 0, din_indirect = 0\<rparr>"

definition sample_file :: sfs_inode where
  "sample_file = \<lparr>din = sample_din, ino = 3, dirty = False, reclaim_count = 1, sin_sem = 1\<rparr>"

lemma sample_free: "fs_free sample_fs = {5, 6, 7}"
proof -
  have "bitmap_free_at (freemap sample_fs) i = (i \<in> {5, 6, 7})" for i
  proof (cases "i < 32")
    case True
    then have "bitmap_free_at (freemap sample_fs) i \<longleftrightarrow> bit (push_bit 5 (mask 3 :: u32)) i"
      by (simp add: bitmap_free_at_def sample_fs_def)
    also have "\<dots> \<longleftrightarrow> 5 \<le> i \<and> i < 8" using True by (auto simp: bit_simps)
    finally show ?thesis by auto
  next
    case False
    show ?thesis
    proof (cases "i < 32768")
      case True
      then obtain j where j: "i div 32 = Suc j" "j < 1023" using False
        by (cases "i div 32") (auto simp: div_eq_0_iff)
      then show ?thesis using False by (auto simp: bitmap_free_at_def sample_fs_def)
    qed (auto simp: bitmap_free_at_def sample_fs_def)
  qed
  then show ?thesis by (auto simp: free_indices_def)
qed

lemma sample_fs_ok: "fs_ok sample_fs"
proof -
  have "bitmap_inv (freemap sample_fs)"
    using sample_free by (simp add: bitmap_inv_def) (simp add: sample_fs_def)
  then show ?thesis using sample_free
    by (simp add: fs_ok_def) (simp add: sample_fs_def disk_ok_def sfs_freemap_bits_def sfs_freemap_blocks_def)
qed

lemma sample_inuse: "inuse sample_fs 3" "data_blk sample_fs 4"
  using sample_free
  by (simp_all add: inuse_def data_blk_def blk_ok_def) (simp_all add: sample_fs_def sfs_freemap_blocks_def)

lemma sample_bmap: "bmap_at sample_fs sample_din 0 = 4" "0 < i \<Longrightarrow> bmap_at sample_fs sample_din i = 0"
  by (auto simp: bmap_at_def sample_din_def nth_Cons')

lemma sample_din_fields [simp]:
  "din_size sample_din = 100" "din_type sample_din = 1" "din_blocks sample_din = 1" "din_indirect sample_din = 0"
  "length (din_direct sample_din) = 12" "din sample_file = sample_din" "ino sample_file = 3" "sin_sem sample_file = 1"
  by (simp_all add: sample_din_def sample_file_def)

lemma sample_file_ok: "inode_ok sample_fs sample_file"
proof -
  have "map_ok sample_fs sample_din"
    using sample_inuse sample_bmap by (auto simp: map_ok_def less_Suc0 inj_on_def)
  moreover have "owned sample_fs sample_din = {4}"
    using sample_bmap by (auto simp: owned_def)
  ultimately show ?thesis using sample_inuse by (simp add: inode_ok_def)
qed

text \<open>
  C3: The block map. \<open>sfs_bmap_load_nolock\<close> with an index below the number of blocks returns that block of the
  file and changes nothing. With the index just behind the last block it allocates one: the new block is
  cleared and becomes the last of the map, all other blocks keep their number and contents, the inode, its
  indirect block, the freemap and the superblock stay consistent (no block is shared, used or counted twice),
  blocks of other files are untouched, and the disk loses exactly the new block and the indirect block of the
  inode when that is new. It returns \<open>-E_NO_MEM\<close> exactly when the disk has not enough free blocks, one or, for the
  first indirect entry, two; then the free blocks are the same as before, so that an indirect block that was taken
  has been given back. An index past the end fails an assertion, and so does the attempt to extend a file of
  12 + 1024 blocks, whatever \<open>SFS_MAX_FILE_SIZE\<close> says.
\<close>

theorem sfs_bmap_load_correct:
  assumes "fs_ok s" "map_ok s (din sn)"
  shows "if MAX_BLOCKS \<le> unat index \<or> nblocks (din sn) < unat index
    then sfs_bmap_load_nolock s sn index = None
    else if unat index < nblocks (din sn)
    then sfs_bmap_load_nolock s sn index = Some (Inr (bmap_at s (din sn) (unat index)), s, sn)
    else load_result s sn (sfs_bmap_load_nolock s sn index)"
proof -
  consider "MAX_BLOCKS \<le> unat index \<or> nblocks (din sn) < unat index" | "unat index < nblocks (din sn)"
    | "unat index = nblocks (din sn)" "unat index < MAX_BLOCKS" by linarith
  then show ?thesis
  proof cases
    case 1
    then show ?thesis using bmap_load_past [of sn index s] bmap_load_limit [of index s sn] by metis
  next
    case 2
    then show ?thesis using bmap_load_old [OF assms 2] map_okD(2) [OF assms(2)] by simp
  next
    case 3
    then have "index = din_blocks (din sn)" by (simp add: word_unat_eq_iff)
    then show ?thesis using bmap_load_new [OF assms] 3 by (metis nat_less_le not_le)
  qed
qed

theorem sfs_bmap_load_correct_witness:
  "sfs_bmap_load_nolock sample_fs sample_file 0 = Some (Inr 4, sample_fs, sample_file)
    \<and> sfs_bmap_load_nolock sample_fs sample_file 2 = None
    \<and> (\<exists>r s' sn'. sfs_bmap_load_nolock sample_fs sample_file 1 = Some (r, s', sn') \<and> fs_ok s')"
proof -
  have m: "map_ok sample_fs (din sample_file)" using sample_file_ok by (simp add: inode_ok_def)
  note L = sfs_bmap_load_correct [OF sample_fs_ok m]
  have "load_result sample_fs sample_file (sfs_bmap_load_nolock sample_fs sample_file 1)"
    using L [of 1] by simp
  then have "\<exists>r s' sn'. sfs_bmap_load_nolock sample_fs sample_file 1 = Some (r, s', sn') \<and> fs_ok s'"
    unfolding load_result_def map_keep_def map_extend_def by blast
  then show ?thesis using L [of 0] L [of 2] sample_bmap by simp
qed

end
