(* ===== verification/SfsFile.thy ===== *)
theory SfsFile
  imports SfsBmap
begin

text \<open>
  Files and directories of the Simple FS (\<open>kern/fs/sfs/sfs_inode.c\<close>): reading and writing at an offset,
  truncation and seeking, \<open>fstat\<close>, \<open>fsync\<close>, and the directory entries, each of which fills one block.
  The contents of a file are \<open>file_byte\<close>, a map from positions to bytes; reading returns a section of it,
  writing replaces one and clears the blocks it adds, and all other files keep their contents.
\<close>

subsection \<open>Reading and writing (sfs_io_nolock)\<close>

definition lock_sin :: "sfs_inode \<Rightarrow> sfs_inode option" where
  "lock_sin sn = do { v \<leftarrow> down_sem (sin_sem sn); Some (sn\<lparr>sin_sem := v\<rparr>) }"

definition unlock_sin :: "sfs_inode \<Rightarrow> sfs_inode" where
  "unlock_sin sn = sn\<lparr>sin_sem := up_sem (sin_sem sn)\<rparr>"

definition sfs_buf_op ::
    "bool \<Rightarrow> sfs_fs \<Rightarrow> u8 list \<Rightarrow> nat \<Rightarrow> nat \<Rightarrow> u32 \<Rightarrow> int \<Rightarrow> (err option \<times> u8 list \<times> sfs_fs) option" where
  "sfs_buf_op wr = (if wr then sfs_wbuf else sfs_rbuf)"

definition sfs_block_op ::
    "bool \<Rightarrow> sfs_fs \<Rightarrow> u8 list \<Rightarrow> nat \<Rightarrow> u32 \<Rightarrow> u32 \<Rightarrow> (err option \<times> u8 list \<times> sfs_fs) option" where
  "sfs_block_op wr = (if wr then sfs_wblock else sfs_rblock)"

text \<open>
  The pointer \<open>buf\<close> of the code advances together with \<open>alen\<close>: it is the position \<open>alen\<close> of the buffer.
  \<open>io_part\<close> is the transfer of a part of a block, for the first and the last one.
\<close>

definition io_part ::
    "sfs_fs \<Rightarrow> sfs_inode \<Rightarrow> u8 list \<Rightarrow> nat \<Rightarrow> nat \<Rightarrow> u32 \<Rightarrow> int \<Rightarrow> bool
     \<Rightarrow> (err option \<times> u8 list \<times> sfs_fs \<times> sfs_inode) option" where
  "io_part s sn buf p sz blkno blkoff wr =
     do {
       (r, s, sn) \<leftarrow> sfs_bmap_load_nolock s sn blkno;
       (case r of
          Inl e \<Rightarrow> Some (Some e, buf, s, sn)
        | Inr i \<Rightarrow> do {
            (ret, buf, s) \<leftarrow> sfs_buf_op wr s buf p sz i blkoff;
            Some (ret, buf, s, sn)
          })
     }"

fun io_blocks ::
    "nat \<Rightarrow> sfs_fs \<Rightarrow> sfs_inode \<Rightarrow> u8 list \<Rightarrow> int \<Rightarrow> nat \<Rightarrow> u32 \<Rightarrow> bool
     \<Rightarrow> (err option \<times> u8 list \<times> sfs_fs \<times> sfs_inode \<times> int \<times> nat \<times> u32) option" where
  "io_blocks 0 s sn buf off alen blkno wr = Some (None, buf, s, sn, off, alen, blkno)"
| "io_blocks (Suc nblks) s sn buf off alen blkno wr =
     do {
       (r, s, sn) \<leftarrow> sfs_bmap_load_nolock s sn blkno;
       (case r of
          Inl e \<Rightarrow> Some (Some e, buf, s, sn, off, alen, blkno)
        | Inr i \<Rightarrow> do {
            (ret, buf, s) \<leftarrow> sfs_block_op wr s buf alen i 1;
            if ret \<noteq> None then Some (ret, buf, s, sn, off, alen, blkno)
            else io_blocks nblks s sn buf (off + int SFS_BLKSIZE) (alen + SFS_BLKSIZE) (blkno + 1) wr
          })
     }"

text \<open>The code at \<open>out\<close>: the size is computed from the position reached and the length transferred.\<close>

definition io_out ::
    "err option \<Rightarrow> u8 list \<Rightarrow> sfs_fs \<Rightarrow> sfs_inode \<Rightarrow> int \<Rightarrow> nat \<Rightarrow> bool
     \<Rightarrow> err option \<times> nat \<times> u8 list \<times> sfs_fs \<times> sfs_inode" where
  "io_out ret buf s sn off alen wr =
     (ret, alen, buf, s,
      if wr \<and> off + int alen > uint (din_size (din sn))
      then sn\<lparr>din := (din sn)\<lparr>din_size := word_of_int (off + int alen)\<rparr>, dirty := True\<rparr> else sn)"

definition io_last ::
    "sfs_fs \<Rightarrow> sfs_inode \<Rightarrow> u8 list \<Rightarrow> int \<Rightarrow> int \<Rightarrow> nat \<Rightarrow> u32 \<Rightarrow> bool
     \<Rightarrow> (err option \<times> nat \<times> u8 list \<times> sfs_fs \<times> sfs_inode) option" where
  "io_last s sn buf off endpos alen blkno wr =
     (if off < endpos then do {
        let sz = nat (endpos - off);
        (ret, buf, s, sn) \<leftarrow> io_part s sn buf alen sz blkno 0 wr;
        Some (io_out ret buf s sn off (if ret = None then alen + sz else alen) wr)
      }
      else Some (io_out None buf s sn off alen wr))"

definition io_rest ::
    "u32 \<Rightarrow> sfs_fs \<Rightarrow> sfs_inode \<Rightarrow> u8 list \<Rightarrow> int \<Rightarrow> int \<Rightarrow> nat \<Rightarrow> u32 \<Rightarrow> bool
     \<Rightarrow> (err option \<times> nat \<times> u8 list \<times> sfs_fs \<times> sfs_inode) option" where
  "io_rest nblks s sn buf off endpos alen blkno wr =
     do {
       (ret, buf, s, sn, off, alen, blkno) \<leftarrow> io_blocks (unat nblks) s sn buf off alen blkno wr;
       if ret \<noteq> None then Some (io_out ret buf s sn off alen wr)
       else io_last s sn buf off endpos alen blkno wr
     }"

definition io_first ::
    "u32 \<Rightarrow> sfs_fs \<Rightarrow> sfs_inode \<Rightarrow> u8 list \<Rightarrow> int \<Rightarrow> int \<Rightarrow> u32 \<Rightarrow> bool
     \<Rightarrow> (err option \<times> nat \<times> u8 list \<times> sfs_fs \<times> sfs_inode) option" where
  "io_first nblks s sn buf off endpos blkno wr =
     (let blkoff = off mod int SFS_BLKSIZE in
      if blkoff \<noteq> 0 then do {
        let sz = nat (if nblks \<noteq> 0 then int SFS_BLKSIZE - blkoff else endpos - off);
        (ret, buf, s, sn) \<leftarrow> io_part s sn buf 0 sz blkno blkoff wr;
        if ret \<noteq> None then Some (io_out ret buf s sn off 0 wr)
        else if nblks = 0 then Some (io_out None buf s sn (off + int sz) sz wr)
        else io_rest (nblks - 1) s sn buf (off + int sz) endpos sz (blkno + 1) wr
      }
      else io_rest nblks s sn buf off endpos 0 blkno wr)"

text \<open>\<open>offset + *alenp\<close> is a 64-bit sum that is stored in the signed \<open>endpos\<close>.\<close>

definition sfs_io_nolock ::
    "sfs_fs \<Rightarrow> sfs_inode \<Rightarrow> u8 list \<Rightarrow> int \<Rightarrow> nat \<Rightarrow> bool
     \<Rightarrow> (err option \<times> nat \<times> u8 list \<times> sfs_fs \<times> sfs_inode) option" where
  "sfs_io_nolock s sn buf off len wr =
     do {
       assert_that (din_type (din sn) \<noteq> SFS_TYPE_DIR);
       let endpos = sint (word_of_int (off + int len) :: u64);
       if off < 0 \<or> off \<ge> SFS_MAX_FILE_SIZE \<or> off > endpos then Some (Some E_INVAL, 0, buf, s, sn)
       else if off = endpos then Some (None, 0, buf, s, sn)
       else do {
         let endpos = (if endpos > SFS_MAX_FILE_SIZE then SFS_MAX_FILE_SIZE else endpos);
         let sz = uint (din_size (din sn));
         if \<not> wr \<and> off \<ge> sz then Some (None, 0, buf, s, sn)
         else do {
           let endpos = (if \<not> wr \<and> endpos > sz then sz else endpos);
           let blkno = word_of_int (off div int SFS_BLKSIZE);
           let nblks = word_of_int (endpos div int SFS_BLKSIZE) - blkno;
           io_first nblks s sn buf off endpos blkno wr
         }
       }
     }"

definition sfs_io :: "sfs_fs \<Rightarrow> sfs_inode \<Rightarrow> iobuf \<Rightarrow> bool \<Rightarrow> (err option \<times> iobuf \<times> sfs_fs \<times> sfs_inode) option" where
  "sfs_io s sn iob wr =
     do {
       sn \<leftarrow> lock_sin sn;
       (ret, alen, buf, s, sn) \<leftarrow>
         sfs_io_nolock s sn (drop (io_base iob) (io_mem iob)) (io_offset iob) (io_resid iob) wr;
       let iob = iob\<lparr>io_mem := take (io_base iob) (io_mem iob) @ buf\<rparr>;
       iob \<leftarrow> (if alen \<noteq> 0 then iobuf_skip iob alen else Some iob);
       Some (ret, iob, s, unlock_sin sn)
     }"

definition sfs_read :: "sfs_fs \<Rightarrow> sfs_inode \<Rightarrow> iobuf \<Rightarrow> (err option \<times> iobuf \<times> sfs_fs \<times> sfs_inode) option" where
  "sfs_read s sn iob = sfs_io s sn iob False"

definition sfs_write :: "sfs_fs \<Rightarrow> sfs_inode \<Rightarrow> iobuf \<Rightarrow> (err option \<times> iobuf \<times> sfs_fs \<times> sfs_inode) option" where
  "sfs_write s sn iob = sfs_io s sn iob True"

subsection \<open>Status, synchronisation, truncation\<close>

record stat =
  st_mode :: u32
  st_nlinks :: nat
  st_blocks :: nat
  st_size :: nat

text \<open>The octal constants of \<open>libs/stat.h\<close>.\<close>

abbreviation (input) S_IFMT :: u32 where "S_IFMT \<equiv> 0x7000"
abbreviation (input) S_IFREG :: u32 where "S_IFREG \<equiv> 0x1000"
abbreviation (input) S_IFDIR :: u32 where "S_IFDIR \<equiv> 0x2000"
abbreviation (input) S_IFLNK :: u32 where "S_IFLNK \<equiv> 0x3000"
abbreviation (input) S_IFCHR :: u32 where "S_IFCHR \<equiv> 0x4000"
abbreviation (input) S_IFBLK :: u32 where "S_IFBLK \<equiv> 0x5000"

definition sfs_gettype :: "sfs_inode \<Rightarrow> u32 option" where
  "sfs_gettype sn =
     (if din_type (din sn) = SFS_TYPE_DIR then Some S_IFDIR
      else if din_type (din sn) = SFS_TYPE_FILE then Some S_IFREG
      else if din_type (din sn) = SFS_TYPE_LINK then Some S_IFLNK
      else None)"

definition sfs_fstat :: "sfs_inode \<Rightarrow> stat option" where
  "sfs_fstat sn =
     do {
       mode \<leftarrow> sfs_gettype sn;
       Some \<lparr>st_mode = mode, st_nlinks = unat (din_nlinks (din sn)), st_blocks = unat (din_blocks (din sn)),
             st_size = unat (din_size (din sn))\<rparr>
     }"

definition sfs_fsync :: "sfs_fs \<Rightarrow> sfs_inode \<Rightarrow> (err option \<times> sfs_fs \<times> sfs_inode) option" where
  "sfs_fsync s sn =
     (if dirty sn then do {
        sn \<leftarrow> lock_sin sn;
        (ret, s, sn) \<leftarrow>
          (if dirty sn then do {
             let sn = sn\<lparr>dirty := False\<rparr>;
             (ret, _, s) \<leftarrow> sfs_wbuf s (din_bytes (din sn)) 0 64 (ino sn) 0;
             Some (ret, s, if ret \<noteq> None then sn\<lparr>dirty := True\<rparr> else sn)
           } else Some (None, s, sn));
        Some (ret, s, unlock_sin sn)
      }
      else Some (None, s, sn))"

fun trunc_grow :: "nat \<Rightarrow> sfs_fs \<Rightarrow> sfs_inode \<Rightarrow> u32 \<Rightarrow> (err option \<times> sfs_fs \<times> sfs_inode) option" where
  "trunc_grow 0 s sn nblks = Some (None, s, sn)"
| "trunc_grow (Suc k) s sn nblks =
     do {
       (r, s, sn) \<leftarrow> sfs_bmap_load_nolock s sn nblks;
       (case r of Inl e \<Rightarrow> Some (Some e, s, sn) | Inr i \<Rightarrow> trunc_grow k s sn (nblks + 1))
     }"

fun trunc_shrink :: "nat \<Rightarrow> sfs_fs \<Rightarrow> sfs_inode \<Rightarrow> (err option \<times> sfs_fs \<times> sfs_inode) option" where
  "trunc_shrink 0 s sn = Some (None, s, sn)"
| "trunc_shrink (Suc k) s sn =
     do {
       (ret, s, sn) \<leftarrow> sfs_bmap_truncate_nolock s sn;
       if ret \<noteq> None then Some (ret, s, sn) else trunc_shrink k s sn
     }"

definition sfs_truncfile :: "sfs_fs \<Rightarrow> sfs_inode \<Rightarrow> int \<Rightarrow> (err option \<times> sfs_fs \<times> sfs_inode) option" where
  "sfs_truncfile s sn len =
     (if len < 0 \<or> len > SFS_MAX_FILE_SIZE then Some (Some E_INVAL, s, sn)
      else do {
        let tblks = (word_of_int ((len + int SFS_BLKSIZE - 1) div int SFS_BLKSIZE) :: u32);
        if uint (din_size (din sn)) = len then do {
          assert_that (tblks = din_blocks (din sn));
          Some (None, s, sn)
        }
        else do {
          sn \<leftarrow> lock_sin sn;
          let nblks = din_blocks (din sn);
          (ret, s, sn) \<leftarrow>
            (if nblks < tblks then trunc_grow (unat tblks - unat nblks) s sn nblks
             else if tblks < nblks then trunc_shrink (unat nblks - unat tblks) s sn
             else Some (None, s, sn));
          if ret \<noteq> None then Some (ret, s, unlock_sin sn)
          else do {
            assert_that (din_blocks (din sn) = tblks);
            Some (None, s, unlock_sin (sn\<lparr>din := (din sn)\<lparr>din_size := word_of_int len\<rparr>, dirty := True\<rparr>))
          }
        }
      })"

definition sfs_tryseek :: "sfs_fs \<Rightarrow> sfs_inode \<Rightarrow> int \<Rightarrow> (err option \<times> sfs_fs \<times> sfs_inode) option" where
  "sfs_tryseek s sn pos =
     (if pos < 0 \<or> pos \<ge> SFS_MAX_FILE_SIZE then Some (Some E_INVAL, s, sn)
      else if pos > uint (din_size (din sn)) then sfs_truncfile s sn pos
      else Some (None, s, sn))"

subsection \<open>The contents of a file\<close>

definition file_byte :: "sfs_fs \<Rightarrow> sfs_disk_inode \<Rightarrow> nat \<Rightarrow> u8" where
  "file_byte s d i = blk s (bmap_at s d (i div 4096)) ! (i mod 4096)"

lemma file_section:
  assumes "p = 4096 * k + r" "r + n \<le> 4096"
  shows "slice (blk s (bmap_at s d k)) r n = map (file_byte s d) [p..<p + n]"
proof (rule nth_equalityI)
  show "length (slice (blk s (bmap_at s d k)) r n) = length (map (file_byte s d) [p..<p + n])"
    using assms by simp
next
  fix i assume "i < length (slice (blk s (bmap_at s d k)) r n)"
  then have i: "i < n" using assms by simp
  have "(4096 * k + r + i) div 4096 = k" "(4096 * k + r + i) mod 4096 = r + i"
    using i assms(2) by (simp_all add: div_mult_self4 add.assoc)
  then show "slice (blk s (bmap_at s d k)) r n ! i = map (file_byte s d) [p..<p + n] ! i"
    using i assms by (simp add: nth_slice file_byte_def)
qed

lemma block_index: "i < 4096 * n \<Longrightarrow> i div 4096 < n" for i n :: nat
  by (simp add: less_mult_imp_div_less mult.commute)

lemma file_byte_extend:
  assumes "map_extend s d b s' d'" "i < 4096 * nblocks d'"
  shows "file_byte s' d' i = (if i < 4096 * nblocks d then file_byte s d i else 0)"
proof (cases "i < 4096 * nblocks d")
  case True
  then have "i div 4096 < nblocks d" by (rule block_index)
  then show ?thesis using True assms(1) by (simp add: file_byte_def map_extend_def)
next
  case False
  have "i div 4096 = nblocks d" using assms False by (auto simp: map_extend_def)
  then show ?thesis using False assms(1) by (simp add: file_byte_def map_extend_def)
qed

lemma file_byte_same:
  assumes "map_keep s d s' d'" "i < 4096 * nblocks d"
  shows "file_byte s' d' i = file_byte s d i"
  using assms block_index [OF assms(2)] by (simp add: file_byte_def map_keep_def)

lemma others_kept_trans:
  "others_kept s d s1 d1 \<Longrightarrow> others_kept s1 d1 s2 d2 \<Longrightarrow> others_kept s d s2 d2"
  unfolding others_kept_def by metis

lemma others_kept_refl: "others_kept s d s d"
  by (simp add: others_kept_def)

text \<open>Overwriting a part of one block of the file.\<close>

lemma write_block:
  assumes ok: "fs_ok s" and m: "map_ok s d" and k: "k < nblocks d" and len: "r + length cs \<le> 4096"
    and s': "s' = set_blk s (bmap_at s d k) (overwrite (blk s (bmap_at s d k)) r cs)"
  shows "fs_ok s'" "sfs_env s' = sfs_env s" "map_ok s' d" "others_kept s d s' d"
    "i < 4096 * nblocks d \<Longrightarrow> file_byte s' d i =
       (if 4096 * k + r \<le> i \<and> i < 4096 * k + r + length cs then cs ! (i - (4096 * k + r)) else file_byte s d i)"
proof -
  let ?b = "bmap_at s d k"
  have con: "blk s' c = (if c = ?b then overwrite (blk s ?b) r cs else blk s c)" for c
    unfolding s' using len by (subst blk_set_blk) simp_all
  have ne: "din_indirect d \<noteq> 0 \<Longrightarrow> din_indirect d \<noteq> ?b" using map_okD(7) [OF m _ k] by auto
  then have at: "bmap_at s' d j = bmap_at s d j" for j by (auto simp: bmap_at_def ent_at_def con)
  show "fs_ok s'" "sfs_env s' = sfs_env s" using ok by (simp_all add: s')
  show "map_ok s' d" using m unfolding map_ok_def at by (simp add: s' inj_on_def at)
  have own: "owned s' d = owned s d" by (simp add: owned_def at)
  have "?b \<in> owned s d" using k by (auto simp: owned_def)
  then show "others_kept s d s' d" unfolding others_kept_def own using con by (auto simp: s')
  show "file_byte s' d i =
       (if 4096 * k + r \<le> i \<and> i < 4096 * k + r + length cs then cs ! (i - (4096 * k + r)) else file_byte s d i)"
    if i: "i < 4096 * nblocks d"
  proof (cases "i div 4096 = k")
    case True
    then have "i = 4096 * k + i mod 4096" by (metis mult_div_mod_eq)
    then have "4096 * k + r \<le> i \<longleftrightarrow> r \<le> i mod 4096" "i < 4096 * k + r + length cs \<longleftrightarrow> i mod 4096 < r + length cs"
      "i - (4096 * k + r) = i mod 4096 - r" by linarith+
    then show ?thesis using True len by (simp add: file_byte_def at con nth_overwrite)
  next
    case False
    then have "bmap_at s d (i div 4096) \<noteq> ?b"
      using map_okD(5) [OF m] k block_index [OF i] by (auto simp: inj_on_def)
    moreover have "\<not> (4096 * k + r \<le> i \<and> i < 4096 * k + r + length cs)" using False len by auto
    ultimately show ?thesis by (auto simp: file_byte_def at con)
  qed
qed

subsection \<open>The progress of a transfer\<close>

text \<open>
  \<open>written\<close>: compared with the state \<open>s0\<close>, \<open>d0\<close>, the bytes \<open>bs\<close> have been written from position \<open>q\<close> on, the
  blocks added are zero elsewhere, and nothing else has changed.
\<close>

definition written :: "sfs_fs \<Rightarrow> sfs_disk_inode \<Rightarrow> nat \<Rightarrow> u8 list \<Rightarrow> sfs_fs \<Rightarrow> sfs_disk_inode \<Rightarrow> bool" where
  "written s0 d0 q bs s d \<longleftrightarrow> fs_ok s \<and> sfs_env s = sfs_env s0 \<and> map_ok s d \<and> same_inode d0 d
     \<and> nblocks d0 \<le> nblocks d \<and> q + length bs \<le> 4096 * nblocks d
     \<and> (\<forall>i<4096 * nblocks d. file_byte s d i =
          (if q \<le> i \<and> i < q + length bs then bs ! (i - q)
           else if i < 4096 * nblocks d0 then file_byte s0 d0 i else 0))
     \<and> others_kept s0 d0 s d"

lemma written_start: "fs_ok s \<Longrightarrow> map_ok s d \<Longrightarrow> q \<le> 4096 * nblocks d \<Longrightarrow> written s d q [] s d"
  by (auto simp: written_def same_inode_def others_kept_refl)

lemma same_inode_trans: "same_inode d d1 \<Longrightarrow> same_inode d1 d2 \<Longrightarrow> same_inode d d2"
  by (simp add: same_inode_def)

lemma written_extend:
  assumes w: "written s0 d0 q bs s d" and e: "map_extend s d b s' d'"
  shows "written s0 d0 q bs s' d'"
proof -
  have "file_byte s' d' i = (if q \<le> i \<and> i < q + length bs then bs ! (i - q)
           else if i < 4096 * nblocks d0 then file_byte s0 d0 i else 0)" if "i < 4096 * nblocks d'" for i
    using w file_byte_extend [OF e that] by (auto simp: written_def)
  then show ?thesis
    using w e others_kept_trans [of s0 d0 s d s' d'] same_inode_trans [of d0 d d']
    by (auto simp: written_def map_extend_def)
qed

lemma written_keep:
  assumes w: "written s0 d0 q bs s d" and e: "map_keep s d s' d"
  shows "written s0 d0 q bs s' d"
proof -
  have "file_byte s' d i = (if q \<le> i \<and> i < q + length bs then bs ! (i - q)
           else if i < 4096 * nblocks d0 then file_byte s0 d0 i else 0)" if "i < 4096 * nblocks d" for i
    using w file_byte_same [OF e that] that by (auto simp: written_def)
  then show ?thesis
    using w e others_kept_trans [of s0 d0 s d s' d] by (auto simp: written_def map_keep_def)
qed

lemma written_more:
  assumes w: "written s0 d0 q bs s d" and k: "k < nblocks d" and p: "q + length bs = 4096 * k + r"
    and len: "r + length cs \<le> 4096"
    and s': "s' = set_blk s (bmap_at s d k) (overwrite (blk s (bmap_at s d k)) r cs)"
  shows "written s0 d0 q (bs @ cs) s' d"
proof -
  have wb: "fs_ok s" "map_ok s d" using w by (simp_all add: written_def)
  note B = write_block [OF wb k len s']
  have "file_byte s' d i = (if q \<le> i \<and> i < q + length (bs @ cs) then (bs @ cs) ! (i - q)
           else if i < 4096 * nblocks d0 then file_byte s0 d0 i else 0)" if i: "i < 4096 * nblocks d" for i
  proof (cases "4096 * k + r \<le> i \<and> i < 4096 * k + r + length cs")
    case True
    then have "q + length bs \<le> i" "i < q + length bs + length cs" using p by simp_all
    then have "(bs @ cs) ! (i - q) = cs ! (i - (4096 * k + r))" "q \<le> i"
      using p by (auto simp: nth_append)
    then show ?thesis using True B(5) [OF i] p by simp
  next
    case False
    then have f: "file_byte s' d i = file_byte s d i" using B(5) [OF i] by auto
    have g: "file_byte s d i = (if q \<le> i \<and> i < q + length bs then bs ! (i - q)
           else if i < 4096 * nblocks d0 then file_byte s0 d0 i else 0)"
      using w i by (simp add: written_def)
    have "q \<le> i \<and> i < q + length (bs @ cs) \<longleftrightarrow> q \<le> i \<and> i < q + length bs" using False p by auto
    then show ?thesis unfolding f g by (auto simp: nth_append)
  qed
  moreover have "q + length (bs @ cs) \<le> 4096 * nblocks d"
  proof -
    have "4096 * k + 4096 \<le> 4096 * nblocks d" using k by simp
    then show ?thesis using p len by simp
  qed
  ultimately show ?thesis using w B(1-4) others_kept_trans [OF _ B(4), of s0 d0]
    by (simp add: written_def)
qed

text \<open>
  \<open>progress\<close> after \<open>n\<close> bytes: a write has written the first \<open>n\<close> bytes of the buffer; a read has changed
  neither the disk nor the inode and the buffer starts with the first \<open>n\<close> bytes of the section.
\<close>

definition progress ::
    "bool \<Rightarrow> sfs_fs \<Rightarrow> sfs_inode \<Rightarrow> nat \<Rightarrow> u8 list \<Rightarrow> nat \<Rightarrow> sfs_fs \<Rightarrow> sfs_inode \<Rightarrow> u8 list \<Rightarrow> bool" where
  "progress wr s0 sn0 q buf0 n s sn buf \<longleftrightarrow> n \<le> length buf0 \<and>
     (if wr then buf = buf0 \<and> written s0 (din sn0) q (take n buf0) s (din sn) \<and> same_rest sn0 sn
      else s = s0 \<and> sn = sn0 \<and> buf = overwrite buf0 0 (map (file_byte s0 (din sn0)) [q..<q + n]))"

definition io_limit :: "bool \<Rightarrow> sfs_inode \<Rightarrow> nat" where
  "io_limit wr sn0 = 4096 * (if wr then MAX_BLOCKS else nblocks (din sn0))"

lemma progress_start:
  assumes "fs_ok s" "map_ok s (din sn)" "wr \<longrightarrow> q \<le> 4096 * nblocks (din sn)"
  shows "progress wr s sn q buf 0 s sn buf"
  using assms written_start [of s "din sn" q] by (simp add: progress_def same_rest_def overwrite_def)

lemma overwrite_snoc:
  "length xs = n \<Longrightarrow> n + length ys \<le> length buf \<Longrightarrow>
   overwrite (overwrite buf 0 xs) n ys = overwrite buf 0 (xs @ ys)"
  by (simp add: overwrite_def add.commute)

text \<open>One part of a block; in a write the block may have to be allocated, and there may be no space.\<close>

lemma part_read:
  assumes ok: "fs_ok s0" "map_ok s0 (din sn0)" and pr: "progress False s0 sn0 q buf0 n s sn buf"
    and k: "q + n = 4096 * unat blkno + r" and r: "r < 4096" "r + sz \<le> 4096"
    and len: "n + sz \<le> length buf0" "q + n + sz \<le> io_limit False sn0" "0 < sz"
  shows "\<exists>buf'. io_part s sn buf n sz blkno (int r) False = Some (None, buf', s, sn)
    \<and> progress False s0 sn0 q buf0 (n + sz) s sn buf'"
proof -
  let ?d = "din sn0"
  have e: "s = s0" "sn = sn0" "buf = overwrite buf0 0 (map (file_byte s0 ?d) [q..<q + n])"
    using pr by (simp_all add: progress_def)
  have kb: "unat blkno < nblocks ?d" using k len by (simp add: io_limit_def)
  have b: "blk_ok s0 (bmap_at s0 ?d (unat blkno))" using map_okD(3) [OF ok(2) kb] by (auto dest: data_inuse inuse_blk_ok)
  let ?new = "map (file_byte s0 ?d) [q + n..<q + n + sz]"
  have "io_part s sn buf n sz blkno (int r) False = Some (None, overwrite buf n ?new, s, sn)"
    using bmap_load_old [OF ok kb] sfs_rbuf_ok [OF ok(1) b r, of buf n] file_section [OF k r(2), of s0 ?d]
    by (simp add: io_part_def sfs_buf_op_def e(1,2))
  moreover have "overwrite buf n ?new = overwrite buf0 0 (map (file_byte s0 ?d) [q..<q + (n + sz)])"
  proof -
    have "[q..<q + (n + sz)] = [q..<q + n] @ [q + n..<q + n + sz]"
      using upt_add_eq_append [of q "q + n" sz] by (simp add: add.assoc)
    then show ?thesis unfolding e(3) using len(1) by (subst overwrite_snoc) simp_all
  qed
  ultimately show ?thesis using len(1) e by (simp add: progress_def)
qed

lemma part_write:
  assumes pr: "progress True s0 sn0 q buf0 n s sn buf"
    and k: "q + n = 4096 * unat blkno + r" and r: "r < 4096" "r + sz \<le> 4096"
    and len: "n + sz \<le> length buf0" "q + n + sz \<le> io_limit True sn0" "0 < sz"
  shows "\<exists>ret s' sn'. io_part s sn buf n sz blkno (int r) True = Some (ret, buf, s', sn')
    \<and> (ret = None \<and> progress True s0 sn0 q buf0 (n + sz) s' sn' buf
       \<or> ret = Some E_NO_MEM \<and> 4096 * nblocks (din sn0) < q + n + sz \<and> progress True s0 sn0 q buf0 n s' sn' buf)"
proof -
  let ?d0 = "din sn0" let ?cs = "slice buf0 n sz"
  have w: "buf = buf0" "written s0 ?d0 q (take n buf0) s (din sn)" "same_rest sn0 sn" "n \<le> length buf0"
    using pr by (simp_all add: progress_def)
  have ok: "fs_ok s" "map_ok s (din sn)" using w by (simp_all add: written_def)
  have p: "q + length (take n buf0) = 4096 * unat blkno + r" using k w(4) by simp
  have lcs: "length ?cs = sz" "r + length ?cs \<le> 4096" using len r by simp_all
  have app: "take n buf0 @ ?cs = take (n + sz) buf0" by (simp add: slice_def take_add)
  have step: "\<exists>s3. sfs_wbuf s2 buf n sz (bmap_at s2 (din sn2) (unat blkno)) (int r) = Some (None, buf, s3)
      \<and> progress True s0 sn0 q buf0 (n + sz) s3 sn2 buf"
    if w2: "written s0 ?d0 q (take n buf0) s2 (din sn2)" "same_rest sn0 sn2" "unat blkno < nblocks (din sn2)" for s2 sn2
  proof -
    let ?b = "bmap_at s2 (din sn2) (unat blkno)"
    have ok2: "fs_ok s2" "map_ok s2 (din sn2)" using w2 by (simp_all add: written_def)
    have "blk_ok s2 ?b" using map_okD(3) [OF ok2(2) w2(3)] by (auto dest: data_inuse inuse_blk_ok)
    then have "sfs_wbuf s2 buf n sz ?b (int r) = Some (None, buf, set_blk s2 ?b (overwrite (blk s2 ?b) r ?cs))"
      unfolding w(1) using r len by (intro sfs_wbuf_ok [OF ok2(1)]) simp_all
    moreover have "written s0 ?d0 q (take n buf0 @ ?cs) (set_blk s2 ?b (overwrite (blk s2 ?b) r ?cs)) (din sn2)"
      by (rule written_more [OF w2(1,3) p lcs(2) refl])
    ultimately show ?thesis using w2(2) len(1) w(1) app by (auto simp: progress_def)
  qed
  show ?thesis
  proof (cases "unat blkno < nblocks (din sn)")
    case True
    then show ?thesis using bmap_load_old [OF ok True] step [OF w(2,3) True]
      by (auto simp: io_part_def sfs_buf_op_def)
  next
    case False
    have "q + n \<le> 4096 * nblocks (din sn)" using w(2,4) by (simp add: written_def)
    then have eq: "unat blkno = nblocks (din sn)" using False k by simp
    then have bn: "blkno = din_blocks (din sn)" by (simp add: word_unat_eq_iff)
    have "nblocks (din sn) < MAX_BLOCKS" using eq k len by (simp add: io_limit_def)
    from bmap_load_new [OF ok this] show ?thesis unfolding load_result_def bn [symmetric]
    proof (elim disjE exE conjE)
      fix s' assume r: "sfs_bmap_load_nolock s sn blkno = Some (Inl E_NO_MEM, s', sn)"
        "map_keep s (din sn) s' (din sn)"
      moreover have "4096 * nblocks (din sn0) < q + n + sz"
        using w(2) eq k len(3) by (simp add: written_def)
      ultimately show ?thesis using written_keep [OF w(2) r(2)] w
        by (simp add: io_part_def progress_def)
    next
      fix b s' sn' assume r: "sfs_bmap_load_nolock s sn blkno = Some (Inr b, s', sn')"
        "map_extend s (din sn) b s' (din sn')" "same_rest sn sn'"
      have "bmap_at s' (din sn') (unat blkno) = b" "unat blkno < nblocks (din sn')"
        using r(2) eq by (simp_all add: map_extend_def)
      moreover have "same_rest sn0 sn'" using w(3) r(3) by (simp add: same_rest_def)
      ultimately show ?thesis using r(1) step [OF written_extend [OF w(2) r(2)], of]
        by (auto simp: io_part_def sfs_buf_op_def)
    qed
  qed
qed

text \<open>The two cases together, and the transfer of whole blocks as a special case.\<close>

lemma io_part_ok:
  assumes "fs_ok s0" "map_ok s0 (din sn0)" and pr: "progress wr s0 sn0 q buf0 n s sn buf"
    and "q + n = 4096 * unat blkno + r" "r < 4096" "r + sz \<le> 4096"
    and "n + sz \<le> length buf0" "q + n + sz \<le> io_limit wr sn0" "0 < sz"
  obtains ret buf' s' sn' where "io_part s sn buf n sz blkno (int r) wr = Some (ret, buf', s', sn')"
    "ret = None \<and> progress wr s0 sn0 q buf0 (n + sz) s' sn' buf'
     \<or> wr \<and> ret = Some E_NO_MEM \<and> 4096 * nblocks (din sn0) < q + n + sz \<and> progress wr s0 sn0 q buf0 n s' sn' buf'"
proof (cases wr)
  case True
  then show thesis using part_write [of s0 sn0 q buf0 n s sn buf blkno r sz] assms that by (metis (full_types))
next
  case False
  then show thesis using part_read [of s0 sn0 q buf0 n s sn buf blkno r sz] assms that by (metis (full_types))
qed

lemma progress_facts:
  assumes "fs_ok s0" "map_ok s0 (din sn0)" "progress wr s0 sn0 q buf0 n s sn buf"
  shows "fs_ok s" "map_ok s (din sn)"
    "wr \<or> q + n \<le> length buf0 \<or> n \<le> length buf0" "length buf = length buf0"
  using assms by (auto simp: progress_def written_def split: if_splits)

lemma block_op_buf_op:
  assumes "fs_ok s" "blk_ok s b" "p + 4096 \<le> length buf"
  shows "sfs_block_op wr s buf p b 1 = sfs_buf_op wr s buf p 4096 b 0"
proof (cases wr)
  case True
  have "overwrite (blk s b) 0 (slice buf p 4096) = slice buf p 4096"
    using assms(3) by (intro overwrite_all) simp
  then show ?thesis using True sfs_wblock1_ok [OF assms] sfs_wbuf_ok [OF assms(1,2), of 0 4096 p buf] assms(3)
    by (simp add: sfs_block_op_def sfs_buf_op_def)
next
  case False
  have "slice (blk s b) 0 4096 = blk s b" by (simp add: slice_def)
  then show ?thesis using False sfs_rblock1_ok [OF assms] sfs_rbuf_ok [OF assms(1,2), of 0 4096 buf p]
    by (simp add: sfs_block_op_def sfs_buf_op_def)
qed

lemma load_blk_ok:
  assumes ok: "fs_ok s" and m: "map_ok s (din sn)" and n: "unat index < MAX_BLOCKS"
    and l: "sfs_bmap_load_nolock s sn index = Some (Inr b, s', sn')"
  shows "fs_ok s'" "blk_ok s' b"
proof -
  have le: "unat index \<le> nblocks (din sn)"
    using l bmap_load_past [of sn index s] by (metis not_le_imp_less option.distinct(1))
  show "fs_ok s'"
  proof (cases "unat index < nblocks (din sn)")
    case True
    then show ?thesis using bmap_load_old [OF ok m True] l ok by simp
  next
    case False
    then have i: "index = din_blocks (din sn)" using le by (simp add: word_unat_eq_iff)
    then show ?thesis using bmap_load_new [OF ok m] n l by (auto simp: load_result_def map_extend_def)
  qed
  show "blk_ok s' b"
  proof (cases "unat index < nblocks (din sn)")
    case True
    then show ?thesis using bmap_load_old [OF ok m True] l map_okD(3) [OF m True]
      by (auto dest: data_inuse inuse_blk_ok)
  next
    case False
    then have i: "index = din_blocks (din sn)" using le by (simp add: word_unat_eq_iff)
    have "map_extend s (din sn) b s' (din sn')"
      using bmap_load_new [OF ok m] n l i by (auto simp: load_result_def)
    then have "data_blk s' b" using map_okD(3) [of s' "din sn'" "nblocks (din sn)"] by (auto simp: map_extend_def)
    then show ?thesis by (auto dest: data_inuse inuse_blk_ok)
  qed
qed

lemma io_blocks_step:
  assumes "fs_ok s" "map_ok s (din sn)" "unat blkno < MAX_BLOCKS" "alen + 4096 \<le> length buf"
  shows "io_blocks (Suc n) s sn buf off alen blkno wr =
    do {
      (ret, buf, s, sn) \<leftarrow> io_part s sn buf alen 4096 blkno 0 wr;
      if ret \<noteq> None then Some (ret, buf, s, sn, off, alen, blkno)
      else io_blocks n s sn buf (off + 4096) (alen + 4096) (blkno + 1) wr
    }"
proof (cases "sfs_bmap_load_nolock s sn blkno")
  case None
  then show ?thesis by (simp add: io_part_def)
next
  case (Some x)
  obtain r s' sn' where x: "x = (r, s', sn')" by (cases x) auto
  show ?thesis
  proof (cases r)
    case (Inl e)
    then show ?thesis using Some x by (simp add: io_part_def)
  next
    case (Inr b)
    then have "sfs_block_op wr s' buf alen b 1 = sfs_buf_op wr s' buf alen 4096 b 0"
      using load_blk_ok [OF assms(1-3)] Some x assms(4) by (intro block_op_buf_op) auto
    then show ?thesis using Some x Inr
      by (cases "sfs_buf_op wr s' buf alen 4096 b 0") (auto simp: io_part_def)
  qed
qed

lemma io_blocks_ok:
  assumes ok: "fs_ok s0" "map_ok s0 (din sn0)" and pr: "progress wr s0 sn0 q buf0 n s sn buf"
    and k: "q + n = 4096 * unat blkno" and len: "n + 4096 * m \<le> length buf0" "q + n + 4096 * m \<le> io_limit wr sn0"
  shows "\<exists>ret buf' s' sn' j. io_blocks m s sn buf off n blkno wr
      = Some (ret, buf', s', sn', off + 4096 * int j, n + 4096 * j, blkno + word_of_nat j)
    \<and> progress wr s0 sn0 q buf0 (n + 4096 * j) s' sn' buf'
    \<and> (ret = None \<and> j = m
      \<or> wr \<and> ret = Some E_NO_MEM \<and> 4096 * nblocks (din sn0) < q + n + 4096 * m \<and> j \<le> m)"
  using pr k len
proof (induction m arbitrary: s sn buf off n blkno)
  case 0
  then show ?case by (intro exI [of _ None] exI [of _ buf] exI [of _ s] exI [of _ sn] exI [of _ 0]) simp
next
  case (Suc m)
  note pf = progress_facts [OF ok Suc.prems(1)]
  have lim: "io_limit wr sn0 \<le> 4096 * MAX_BLOCKS" using map_okD(2) [OF ok(2)] by (simp add: io_limit_def)
  have kb: "unat blkno < MAX_BLOCKS" using Suc.prems(2,4) lim by simp
  obtain ret buf1 s1 sn1 where p: "io_part s sn buf n 4096 blkno (int 0) wr = Some (ret, buf1, s1, sn1)"
    and o: "ret = None \<and> progress wr s0 sn0 q buf0 (n + 4096) s1 sn1 buf1
       \<or> wr \<and> ret = Some E_NO_MEM \<and> 4096 * nblocks (din sn0) < q + n + 4096 \<and> progress wr s0 sn0 q buf0 n s1 sn1 buf1"
    by (rule io_part_ok [OF ok Suc.prems(1), of blkno 0 4096]) (use Suc.prems in auto)
  have step: "io_blocks (Suc m) s sn buf off n blkno wr =
      (if ret \<noteq> None then Some (ret, buf1, s1, sn1, off, n, blkno)
       else io_blocks m s1 sn1 buf1 (off + 4096) (n + 4096) (blkno + 1) wr)"
    using p Suc.prems(3) by (subst io_blocks_step [OF pf(1,2) kb]) (simp_all add: pf(4))
  show ?case
  proof (cases "ret = None")
    case False
    with o have "wr" "ret = Some E_NO_MEM" "progress wr s0 sn0 q buf0 n s1 sn1 buf1"
      "4096 * nblocks (din sn0) < q + n + 4096 * Suc m" by auto
    with step show ?thesis
      by (intro exI [of _ ret] exI [of _ buf1] exI [of _ s1] exI [of _ sn1] exI [of _ 0]) simp
  next
    case True
    with o have pr1: "progress wr s0 sn0 q buf0 (n + 4096) s1 sn1 buf1" by simp
    have "unat (blkno + 1) = Suc (unat blkno)" using kb by (rule nblocks_Suc)
    then have "q + (n + 4096) = 4096 * unat (blkno + 1)" using Suc.prems(2) by simp
    from Suc.IH [OF pr1 this, of "off + 4096"] Suc.prems(3,4)
    obtain ret' buf' s' sn' j where r: "io_blocks m s1 sn1 buf1 (off + 4096) (n + 4096) (blkno + 1) wr
        = Some (ret', buf', s', sn', off + 4096 + 4096 * int j, n + 4096 + 4096 * j, blkno + 1 + word_of_nat j)"
      "progress wr s0 sn0 q buf0 (n + 4096 + 4096 * j) s' sn' buf'"
      "ret' = None \<and> j = m
       \<or> wr \<and> ret' = Some E_NO_MEM \<and> 4096 * nblocks (din sn0) < q + (n + 4096) + 4096 * m \<and> j \<le> m" by auto
    then show ?thesis using step True
      by (intro exI [of _ ret'] exI [of _ buf'] exI [of _ s'] exI [of _ sn'] exI [of _ "Suc j"])
        (simp add: algebra_simps)
  qed
qed

text \<open>
  The outcome of a transfer of the section from \<open>q\<close> to \<open>e\<close>: complete, or, for a write only, ended by a full
  disk. \<open>io_reached\<close> is the value the variable \<open>offset\<close> has at \<open>out\<close>: the last partial block does not advance it.
\<close>

definition io_reached :: "nat \<Rightarrow> nat \<Rightarrow> nat" where
  "io_reached q e = (if q mod 4096 \<noteq> 0 \<and> q div 4096 = e div 4096 then e else 4096 * (e div 4096))"

definition io_done ::
    "bool \<Rightarrow> sfs_fs \<Rightarrow> sfs_inode \<Rightarrow> nat \<Rightarrow> nat \<Rightarrow> u8 list \<Rightarrow> nat
     \<Rightarrow> (err option \<times> nat \<times> u8 list \<times> sfs_fs \<times> sfs_inode) option \<Rightarrow> bool" where
  "io_done wr s0 sn0 q e buf0 reached res \<longleftrightarrow>
     (\<exists>ret n buf s sn off. res = Some (io_out ret buf s sn off n wr) \<and> progress wr s0 sn0 q buf0 n s sn buf
        \<and> (ret = None \<and> q + n = e \<and> off = int reached
           \<or> wr \<and> ret = Some E_NO_MEM \<and> 4096 * nblocks (din sn0) < e \<and> q + n \<le> e \<and> int q \<le> off \<and> off \<le> int e))"

lemma io_doneI:
  assumes "res = Some (io_out ret buf s sn off n wr)" "progress wr s0 sn0 q buf0 n s sn buf"
    "ret = None \<and> q + n = e \<and> off = int reached
     \<or> wr \<and> ret = Some E_NO_MEM \<and> 4096 * nblocks (din sn0) < e \<and> q + n \<le> e \<and> int q \<le> off \<and> off \<le> int e"
  shows "io_done wr s0 sn0 q e buf0 reached res"
  unfolding io_done_def using assms by blast

lemma io_last_ok:
  assumes ok: "fs_ok s0" "map_ok s0 (din sn0)" and pr: "progress wr s0 sn0 q buf0 n s sn buf"
    and k: "q + n = 4096 * unat blkno" and e: "q + n \<le> e" "e < q + n + 4096"
    and len: "e \<le> q + length buf0" "e \<le> io_limit wr sn0"
  shows "io_done wr s0 sn0 q e buf0 (q + n) (io_last s sn buf (int (q + n)) (int e) n blkno wr)"
proof (cases "q + n < e")
  case False
  then show ?thesis using pr e
    by (intro io_doneI [of _ None buf s sn "int (q + n)" n]) (simp_all add: io_last_def)
next
  case True
  let ?sz = "e - (q + n)"
  obtain ret buf1 s1 sn1 where p: "io_part s sn buf n ?sz blkno (int 0) wr = Some (ret, buf1, s1, sn1)"
    and o: "ret = None \<and> progress wr s0 sn0 q buf0 (n + ?sz) s1 sn1 buf1
       \<or> wr \<and> ret = Some E_NO_MEM \<and> 4096 * nblocks (din sn0) < q + n + ?sz \<and> progress wr s0 sn0 q buf0 n s1 sn1 buf1"
    by (rule io_part_ok [OF ok pr, of blkno 0 ?sz]) (use k e len True in auto)
  have sz: "nat (int e - int (q + n)) = ?sz" using e by simp
  have "io_last s sn buf (int (q + n)) (int e) n blkno wr
    = Some (io_out ret buf1 s1 sn1 (int (q + n)) (if ret = None then n + ?sz else n) wr)"
    using True p unfolding io_last_def sz by simp
  then show ?thesis
    by (rule io_doneI) (use o e True in \<open>auto split: if_splits\<close>)
qed

lemma io_rest_ok:
  assumes ok: "fs_ok s0" "map_ok s0 (din sn0)" and pr: "progress wr s0 sn0 q buf0 n s sn buf"
    and k: "q + n = 4096 * unat blkno" and m: "e div 4096 = unat blkno + unat m"
    and len: "e \<le> q + length buf0" "e \<le> io_limit wr sn0"
  shows "io_done wr s0 sn0 q e buf0 (4096 * (e div 4096)) (io_rest m s sn buf (int (q + n)) (int e) n blkno wr)"
proof -
  have em: "4096 * (e div 4096) \<le> e" "e < 4096 * (e div 4096) + 4096"
    using mult_div_mod_eq [of 4096 e] mod_less_divisor [of 4096 e] by linarith+
  have lim: "io_limit wr sn0 \<le> 4096 * MAX_BLOCKS" using map_okD(2) [OF ok(2)] by (simp add: io_limit_def)
  obtain ret buf1 s1 sn1 j where r: "io_blocks (unat m) s sn buf (int (q + n)) n blkno wr
      = Some (ret, buf1, s1, sn1, int (q + n) + 4096 * int j, n + 4096 * j, blkno + word_of_nat j)"
    "progress wr s0 sn0 q buf0 (n + 4096 * j) s1 sn1 buf1"
    "ret = None \<and> j = unat m
     \<or> wr \<and> ret = Some E_NO_MEM \<and> 4096 * nblocks (din sn0) < q + n + 4096 * unat m \<and> j \<le> unat m"
    using io_blocks_ok [OF ok pr k, of "unat m" "int (q + n)"] em(1) m k len by fastforce
  show ?thesis
  proof (cases "ret = None")
    case False
    then have "io_rest m s sn buf (int (q + n)) (int e) n blkno wr
      = Some (io_out ret buf1 s1 sn1 (int (q + n) + 4096 * int j) (n + 4096 * j) wr)"
      using r(1) by (simp add: io_rest_def)
    moreover have "q + (n + 4096 * j) \<le> e" using r(3) False k m em(1) by auto
    moreover have "4096 * nblocks (din sn0) < e" using r(3) False k m em(1) by auto
    ultimately show ?thesis
      by (intro io_doneI [OF _ r(2)]) (use r(3) False in auto)
  next
    case True
    then have j: "j = unat m" using r(3) by auto
    have "blkno + word_of_nat j = blkno + m" using j by simp
    moreover have "unat (blkno + m) = unat blkno + unat m"
      using m em(1) len(2) lim by (intro unat_add_u32) simp
    ultimately have k1: "q + (n + 4096 * j) = 4096 * unat (blkno + word_of_nat j)" "q + (n + 4096 * j) = 4096 * (e div 4096)"
      using k m j by simp_all
    have "io_done wr s0 sn0 q e buf0 (q + (n + 4096 * j))
        (io_last s1 sn1 buf1 (int (q + (n + 4096 * j))) (int e) (n + 4096 * j) (blkno + word_of_nat j) wr)"
      by (rule io_last_ok [OF ok r(2) k1(1)]) (use em len k1(2) in simp_all)
    moreover have "int (q + n) + 4096 * int j = int (q + (n + 4096 * j))" by simp
    ultimately show ?thesis using r(1) True unfolding k1(2) io_rest_def by (simp del: of_nat_add of_nat_mult)
  qed
qed

lemma io_first_ok:
  assumes ok: "fs_ok s" "map_ok s (din sn)" and q: "wr \<longrightarrow> q \<le> 4096 * nblocks (din sn)" and e: "q < e"
    and k: "unat blkno = q div 4096" and m: "e div 4096 = unat blkno + unat m"
    and len: "e \<le> q + length buf" "e \<le> io_limit wr sn"
  shows "io_done wr s sn q e buf (io_reached q e) (io_first m s sn buf (int q) (int e) blkno wr)"
proof (cases "q mod 4096 = 0")
  case True
  have "int q mod 4096 = 0" using True zmod_int [of q 4096] by simp
  then have "io_first m s sn buf (int q) (int e) blkno wr = io_rest m s sn buf (int (q + 0)) (int e) 0 blkno wr"
    by (simp add: io_first_def)
  moreover have "q + 0 = 4096 * unat blkno" using True k mult_div_mod_eq [of 4096 q] by simp
  ultimately show ?thesis
    using io_rest_ok [OF ok progress_start [OF ok q] _ m len] True by (simp add: io_reached_def)
next
  case False
  let ?r = "q mod 4096"
  define sz where "sz = (if m \<noteq> 0 then 4096 - ?r else e - q)"
  have r: "int q mod 4096 = int ?r" using zmod_int [of q 4096] by simp
  have r0: "?r < 4096" "q = 4096 * unat blkno + ?r" using k mult_div_mod_eq [of 4096 q] by simp_all
  have em: "4096 * (e div 4096) \<le> e" "e < 4096 * (e div 4096) + 4096"
    using mult_div_mod_eq [of 4096 e] mod_less_divisor [of 4096 e] by linarith+
  have m0: "0 < unat m" if "m \<noteq> 0" using that by (simp add: unat_gt_0)
  have sz: "0 < sz" "?r + sz \<le> 4096" "q + sz \<le> e"
  proof -
    show "0 < sz" using r0(1) e by (simp add: sz_def)
    show "?r + sz \<le> 4096" using r0 e em m by (auto simp: sz_def)
    show "q + sz \<le> e" using r0 e em m m0 by (cases "m = 0") (auto simp: sz_def)
  qed
  have szi: "nat (if m \<noteq> 0 then int 4096 - int q mod int 4096 else int e - int q) = sz"
    using e r0(1) by (simp add: sz_def nat_diff_distrib r)
  obtain ret buf1 s1 sn1 where p: "io_part s sn buf 0 sz blkno (int ?r) wr = Some (ret, buf1, s1, sn1)"
    and o: "ret = None \<and> progress wr s sn q buf (0 + sz) s1 sn1 buf1
       \<or> wr \<and> ret = Some E_NO_MEM \<and> 4096 * nblocks (din sn) < q + 0 + sz \<and> progress wr s sn q buf 0 s1 sn1 buf1"
    by (rule io_part_ok [OF ok progress_start [OF ok q], of blkno ?r sz]) (use r0 sz len in auto)
  have F: "io_first m s sn buf (int q) (int e) blkno wr =
      (if ret \<noteq> None then Some (io_out ret buf1 s1 sn1 (int q) 0 wr)
       else if m = 0 then Some (io_out None buf1 s1 sn1 (int q + int sz) sz wr)
       else io_rest (m - 1) s1 sn1 buf1 (int q + int sz) (int e) sz (blkno + 1) wr)"
    unfolding io_first_def Let_def szi using p False by (simp add: r)
  show ?thesis
  proof (cases "ret = None")
    case False
    with o have "wr" "ret = Some E_NO_MEM" "progress wr s sn q buf 0 s1 sn1 buf1" "4096 * nblocks (din sn) < e"
      using sz(3) by auto
    then show ?thesis using F e by (intro io_doneI [of _ ret buf1 s1 sn1 "int q" 0]) simp_all
  next
    case True
    with o have pr: "progress wr s sn q buf sz s1 sn1 buf1" by simp
    show ?thesis
    proof (cases "m = 0")
      case True
      then have "sz = e - q" "q div 4096 = e div 4096" using m k by (simp_all add: sz_def)
      then show ?thesis using F \<open>ret = None\<close> True pr e False
        by (intro io_doneI [of _ None buf1 s1 sn1 "int q + int sz" sz]) (simp_all add: io_reached_def)
    next
      case mz: False
      have lim: "io_limit wr sn \<le> 4096 * MAX_BLOCKS" using map_okD(2) [OF ok(2)] by (simp add: io_limit_def)
      have kb: "unat blkno < MAX_BLOCKS" using r0(2) e len lim by simp
      have k1: "unat (blkno + 1) = Suc (unat blkno)" using kb by (rule nblocks_Suc)
      have m1: "unat (m - 1) = unat m - 1" using m0 [OF mz] by (subst unat_sub) (auto simp: word_le_nat_alt)
      have "q + sz = 4096 * unat (blkno + 1)" using mz r0 k1 by (simp add: sz_def)
      moreover have "e div 4096 = unat (blkno + 1) + unat (m - 1)" using m k1 m1 m0 [OF mz] by simp
      ultimately have "io_done wr s sn q e buf (4096 * (e div 4096))
          (io_rest (m - 1) s1 sn1 buf1 (int (q + sz)) (int e) sz (blkno + 1) wr)"
        using io_rest_ok [OF ok pr _ _ len] by blast
      moreover have "q div 4096 \<noteq> e div 4096" using m k m0 [OF mz] by simp
      ultimately show ?thesis using F \<open>ret = None\<close> mz by (simp add: io_reached_def)
    qed
  qed
qed

lemma endpos_no_overflow:
  assumes "q + len < 2 ^ 63"
  shows "sint (word_of_int (int q + int len) :: u64) = int q + int len"
proof -
  have "int q + int len < 2 ^ 63" using assms by (metis of_nat_add of_nat_less_numeral_power_cancel_iff)
  then show ?thesis by (simp add: sint_sbintrunc' signed_take_bit_int_eq_self del: of_int_add of_int_of_nat_eq)
qed

lemma io_nolock_range:
  assumes ok: "fs_ok s" "map_ok s (din sn)" and ty: "din_type (din sn) \<noteq> SFS_TYPE_DIR"
    and q: "q < 134217728" "q + len < 2 ^ 63" "0 < len" "wr \<longrightarrow> q \<le> 4096 * nblocks (din sn)"
    and e: "e = (if wr then min (q + len) 134217728 else min (min (q + len) 134217728) (unat (din_size (din sn))))"
    and qe: "q < e" and len: "e \<le> q + length buf" "e \<le> io_limit wr sn"
  shows "io_done wr s sn q e buf (io_reached q e) (sfs_io_nolock s sn buf (int q) len wr)"
proof -
  obtain z where z: "unat (din_size (din sn)) = z" and u: "uint (din_size (din sn)) = int z"
    using uint_nat by blast
  note e = e [unfolded z]
  have lim: "e \<le> 134217728" using e by (auto split: if_splits)
  let ?b = "word_of_int (int q div 4096) :: u32"
  let ?m = "word_of_int (int e div 4096) - ?b"
  have w: "(word_of_int (int x div 4096) :: u32) = word_of_nat (x div 4096)" for x
    using zdiv_int [of x 4096] by (metis of_nat_numeral of_int_of_nat_eq)
  have b: "unat ?b = q div 4096" unfolding w using q(1) by (intro unat_of_nat_u32) simp
  have "q div 4096 \<le> e div 4096" using qe by (intro div_le_mono) simp
  moreover have be: "unat (word_of_int (int e div 4096) :: u32) = e div 4096"
    unfolding w using lim by (intro unat_of_nat_u32) simp
  ultimately have m: "e div 4096 = unat ?b + unat ?m"
    using b by (subst unat_sub) (simp_all add: word_le_nat_alt)
  let ?e0 = "if int q + int len > 134217728 then 134217728 else int q + int len"
  let ?sz = "uint (din_size (din sn))"
  have c: "(int q < 0 \<or> int q \<ge> 134217728 \<or> int q > int q + int len) = False" "(int q = int q + int len) = False"
    using q(1,3) by simp_all
  have rd: "(\<not> wr \<and> int q \<ge> ?sz) = False" using qe e unfolding u by (auto split: if_splits)
  have ee: "(if \<not> wr \<and> ?e0 > ?sz then ?sz else ?e0) = int e"
  proof -
    have "int e = (if wr then min (int q + int len) 134217728 else min (min (int q + int len) 134217728) ?sz)"
      unfolding u e by (cases wr) simp_all
    then show ?thesis by (cases wr) (auto simp: min_def)
  qed
  have "sfs_io_nolock s sn buf (int q) len wr = io_first ?m s sn buf (int q) (int e) ?b wr"
    unfolding sfs_io_nolock_def Let_def endpos_no_overflow [OF q(2)] c rd ee if_False of_nat_numeral
    using ty by simp
  then show ?thesis using io_first_ok [OF ok q(4) qe b m len] by simp
qed

subsection \<open>Correctness of reading and writing\<close>

text \<open>The block map and the contents do not depend on the other fields of the inode.\<close>

lemma size_irrelevant [simp]:
  "bmap_at s (d\<lparr>din_size := z\<rparr>) = bmap_at s d" "owned s (d\<lparr>din_size := z\<rparr>) = owned s d"
  "map_ok s (d\<lparr>din_size := z\<rparr>) = map_ok s d" "file_byte s (d\<lparr>din_size := z\<rparr>) = file_byte s d"
  "others_kept s0 d0 s (d\<lparr>din_size := z\<rparr>) = others_kept s0 d0 s d"
proof -
  show at: "bmap_at s (d\<lparr>din_size := z\<rparr>) = bmap_at s d" by (rule ext) (simp add: bmap_at_def)
  show own: "owned s (d\<lparr>din_size := z\<rparr>) = owned s d" by (simp add: owned_def at)
  show "map_ok s (d\<lparr>din_size := z\<rparr>) = map_ok s d" by (simp add: map_ok_def at)
  show "file_byte s (d\<lparr>din_size := z\<rparr>) = file_byte s d" by (rule ext) (simp add: file_byte_def at)
  show "others_kept s0 d0 s (d\<lparr>din_size := z\<rparr>) = others_kept s0 d0 s d" by (simp add: others_kept_def own)
qed

lemma read_section:
  assumes ok: "fs_ok s" "map_ok s (din sn)" and ty: "din_type (din sn) \<noteq> SFS_TYPE_DIR"
    and q: "q < unat (din_size (din sn))" "q < 134217728" "0 < len" "q + len < 2 ^ 63"
    and n: "n = min len (min (unat (din_size (din sn))) 134217728 - q)" "n \<le> length buf" "q + n \<le> 4096 * nblocks (din sn)"
  shows "sfs_io_nolock s sn buf (int q) len False
    = Some (None, n, overwrite buf 0 (map (file_byte s (din sn)) [q..<q + n]), s, sn)"
proof -
  have "io_done False s sn q (q + n) buf (io_reached q (q + n)) (sfs_io_nolock s sn buf (int q) len False)"
    by (rule io_nolock_range [OF ok ty q(2,4,3)]) (use q n in \<open>auto simp: io_limit_def min_def\<close>)
  then show ?thesis by (auto simp: io_done_def io_out_def progress_def)
qed

text \<open>What a write of the bytes \<open>bs\<close> at position \<open>q\<close> makes of a file, apart from its size.\<close>

definition file_written :: "sfs_fs \<Rightarrow> sfs_disk_inode \<Rightarrow> nat \<Rightarrow> u8 list \<Rightarrow> sfs_fs \<Rightarrow> sfs_disk_inode \<Rightarrow> bool" where
  "file_written s d q bs s' d' \<longleftrightarrow> fs_ok s' \<and> sfs_env s' = sfs_env s \<and> map_ok s' d'
     \<and> din_type d' = din_type d \<and> din_nlinks d' = din_nlinks d
     \<and> nblocks d \<le> nblocks d' \<and> q + length bs \<le> 4096 * nblocks d'
     \<and> (\<forall>i<4096 * nblocks d'. file_byte s' d' i =
          (if q \<le> i \<and> i < q + length bs then bs ! (i - q)
           else if i < 4096 * nblocks d then file_byte s d i else 0))
     \<and> others_kept s d s' d'"

lemma written_file: "written s d q bs s' d' \<Longrightarrow> file_written s d q bs s' (d'\<lparr>din_size := z\<rparr>)"
  "written s d q bs s' d' \<Longrightarrow> file_written s d q bs s' d'"
  by (auto simp: written_def file_written_def same_inode_def)

lemma write_section:
  assumes ok: "fs_ok s" "map_ok s (din sn)" and ty: "din_type (din sn) \<noteq> SFS_TYPE_DIR"
    and q: "q \<le> 4096 * nblocks (din sn)" "0 < len" "q + len \<le> 4096 * MAX_BLOCKS" "len \<le> length buf"
  shows "\<exists>ret n s' sn'. sfs_io_nolock s sn buf (int q) len True = Some (ret, n, buf, s', sn')
    \<and> file_written s (din sn) q (take n buf) s' (din sn') \<and> same_rest sn sn' \<and> n \<le> len
    \<and> (ret = None \<and> n = len
         \<and> unat (din_size (din sn')) = max (unat (din_size (din sn))) (io_reached q (q + len) + len)
       \<or> ret = Some E_NO_MEM \<and> 4096 * nblocks (din sn) < q + len)"
proof -
  have e: "q + len \<le> 4243456" using q(3) by simp
  have "io_done True s sn q (q + len) buf (io_reached q (q + len)) (sfs_io_nolock s sn buf (int q) len True)"
    by (rule io_nolock_range [OF ok ty]) (use q e in \<open>auto simp: io_limit_def\<close>)
  then obtain ret n s' sn1 off where r: "sfs_io_nolock s sn buf (int q) len True
      = Some (io_out ret buf s' sn1 off n True)"
    and w: "written s (din sn) q (take n buf) s' (din sn1)" "same_rest sn sn1"
    and c: "ret = None \<and> n = len \<and> off = int (io_reached q (q + len))
       \<or> ret = Some E_NO_MEM \<and> 4096 * nblocks (din sn) < q + len \<and> n \<le> len"
    by (auto simp: io_done_def progress_def)
  let ?sn = "if off + int n > uint (din_size (din sn1))
      then sn1\<lparr>din := (din sn1)\<lparr>din_size := word_of_int (off + int n)\<rparr>, dirty := True\<rparr> else sn1"
  have "file_written s (din sn) q (take n buf) s' (din ?sn)" "same_rest sn ?sn"
    using written_file [OF w(1)] w(2) by (simp_all add: same_rest_def)
  moreover have "unat (din_size (din ?sn)) = max (unat (din_size (din sn))) (io_reached q (q + len) + len)"
    if "ret = None"
  proof -
    let ?r = "io_reached q (q + len) + len"
    have o: "off + int n = int ?r" using c that by auto
    have "io_reached q (q + len) \<le> q + len" by (simp add: io_reached_def)
    then have "?r < 4294967296" using e q(2) by linarith
    then have "unat (word_of_int (int ?r) :: u32) = ?r" unfolding of_int_of_nat_eq by (rule unat_of_nat_u32)
    moreover have "uint (din_size (din sn1)) < int ?r \<longleftrightarrow> unat (din_size (din sn1)) < ?r"
      unfolding uint_nat by linarith
    moreover have "din_size (din sn1) = din_size (din sn)" using w(1) by (simp add: written_def same_inode_def)
    ultimately show ?thesis unfolding o by (auto simp: max_def)
  qed
  ultimately show ?thesis using r c unfolding io_out_def
    by (intro exI [of _ ret] exI [of _ n] exI [of _ s'] exI [of _ ?sn]) auto
qed

subsection \<open>Correctness of truncation\<close>

definition shrunk :: "sfs_fs \<Rightarrow> sfs_disk_inode \<Rightarrow> sfs_fs \<Rightarrow> sfs_disk_inode \<Rightarrow> bool" where
  "shrunk s0 d0 s d \<longleftrightarrow> fs_ok s \<and> sfs_env s = sfs_env s0 \<and> map_ok s d \<and> same_inode d0 d \<and> nblocks d \<le> nblocks d0
     \<and> (\<forall>i<4096 * nblocks d. file_byte s d i = file_byte s0 d0 i)
     \<and> card (fs_free s) + nblocks d = card (fs_free s0) + nblocks d0
     \<and> others_kept s0 d0 s d"

lemma shrunk_start: "fs_ok s \<Longrightarrow> map_ok s d \<Longrightarrow> shrunk s d s d"
  by (simp add: shrunk_def same_inode_def others_kept_refl)

lemma shrunk_step:
  assumes w: "shrunk s0 d0 s d" and t: "map_shrink s d s' d'"
  shows "shrunk s0 d0 s' d'"
proof -
  have ok: "fs_ok s" "map_ok s d" using w by (simp_all add: shrunk_def)
  have n: "nblocks d = Suc (nblocks d')" using t by (simp add: map_shrink_def)
  have fb: "file_byte s' d' i = file_byte s0 d0 i" if "i < 4096 * nblocks d'" for i
  proof -
    have "file_byte s' d' i = file_byte s d i"
      using t block_index [OF that] by (simp add: file_byte_def map_shrink_def)
    then show ?thesis using w that n by (simp add: shrunk_def)
  qed
  have "unat (bmap_at s d (nblocks d')) \<notin> fs_free s"
    using map_okD(3) [OF ok(2), of "nblocks d'"] n by (auto simp: data_blk_def inuse_def)
  then have "card (fs_free s') = Suc (card (fs_free s))"
    using t finite_fs_free [OF ok(1)] by (simp add: map_shrink_def)
  then show ?thesis
    using w t n fb others_kept_trans [of s0 d0 s d s' d'] same_inode_trans [of d0 d d']
    by (auto simp: shrunk_def map_shrink_def)
qed

lemma trunc_shrink_ok:
  "shrunk s0 (din sn0) s (din sn) \<Longrightarrow> same_rest sn0 sn \<Longrightarrow> k \<le> nblocks (din sn) \<Longrightarrow>
   \<exists>s' sn'. trunc_shrink k s sn = Some (None, s', sn') \<and> shrunk s0 (din sn0) s' (din sn') \<and> same_rest sn0 sn'
     \<and> nblocks (din sn') + k = nblocks (din sn)"
proof (induction k arbitrary: s sn)
  case (Suc k)
  have "fs_ok s" "map_ok s (din sn)" "nblocks (din sn) \<noteq> 0"
    using Suc.prems by (simp_all add: shrunk_def)
  from bmap_truncate_ok [OF this] obtain s1 sn1 where t: "sfs_bmap_truncate_nolock s sn = Some (None, s1, sn1)"
    "map_shrink s (din sn) s1 (din sn1)" "same_rest sn sn1" by (auto simp: trunc_result_def)
  have n: "nblocks (din sn) = Suc (nblocks (din sn1))" using t(2) by (simp add: map_shrink_def)
  have "same_rest sn0 sn1" using Suc.prems(2) t(3) by (simp add: same_rest_def)
  from Suc.IH [OF shrunk_step [OF Suc.prems(1) t(2)] this] Suc.prems(3) n t(1)
  show ?case by auto
qed simp

lemma trunc_grow_ok:
  "written s0 (din sn0) 0 [] s (din sn) \<Longrightarrow> same_rest sn0 sn \<Longrightarrow> unat m = nblocks (din sn) \<Longrightarrow> unat m + k \<le> MAX_BLOCKS \<Longrightarrow>
   \<exists>ret s' sn'. trunc_grow k s sn m = Some (ret, s', sn') \<and> written s0 (din sn0) 0 [] s' (din sn') \<and> same_rest sn0 sn'
     \<and> (ret = None \<and> nblocks (din sn') = nblocks (din sn) + k \<or> ret = Some E_NO_MEM)"
proof (induction k arbitrary: s sn m)
  case (Suc k)
  have ok: "fs_ok s" "map_ok s (din sn)" "nblocks (din sn) < MAX_BLOCKS"
    using Suc.prems by (simp_all add: written_def)
  have m: "m = din_blocks (din sn)" using Suc.prems(3) by (simp add: word_unat_eq_iff)
  have "load_result s sn (sfs_bmap_load_nolock s sn m)" unfolding m by (rule bmap_load_new [OF ok])
  then show ?case unfolding load_result_def
  proof (elim disjE exE conjE)
    fix s' assume r: "sfs_bmap_load_nolock s sn m = Some (Inl E_NO_MEM, s', sn)" "map_keep s (din sn) s' (din sn)"
    then show ?thesis using written_keep [OF Suc.prems(1) r(2)] Suc.prems(2) by simp
  next
    fix b s1 sn1 assume r: "sfs_bmap_load_nolock s sn m = Some (Inr b, s1, sn1)"
      "map_extend s (din sn) b s1 (din sn1)" "same_rest sn sn1"
    have n: "nblocks (din sn1) = Suc (nblocks (din sn))" using r(2) by (simp add: map_extend_def)
    have "same_rest sn0 sn1" using Suc.prems(2) r(3) by (simp add: same_rest_def)
    moreover have "unat (m + 1) = nblocks (din sn1)" "unat (m + 1) + k \<le> MAX_BLOCKS"
      using n Suc.prems(3,4) nblocks_Suc [of m] by simp_all
    ultimately show ?thesis using Suc.IH [OF written_extend [OF Suc.prems(1) r(2)]] r(1) n by fastforce
  qed
qed simp

text \<open>The result of setting the length of a file.\<close>

definition resized :: "sfs_fs \<Rightarrow> sfs_disk_inode \<Rightarrow> sfs_fs \<Rightarrow> sfs_disk_inode \<Rightarrow> bool" where
  "resized s d s' d' \<longleftrightarrow> fs_ok s' \<and> sfs_env s' = sfs_env s \<and> map_ok s' d'
     \<and> din_type d' = din_type d \<and> din_nlinks d' = din_nlinks d
     \<and> (\<forall>i<4096 * nblocks d'. file_byte s' d' i = (if i < 4096 * nblocks d then file_byte s d i else 0))
     \<and> (nblocks d' < nblocks d \<longrightarrow> card (fs_free s') + nblocks d' = card (fs_free s) + nblocks d)
     \<and> others_kept s d s' d'"

lemma resized_size: "resized s d s' d' \<Longrightarrow> resized s d s' (d'\<lparr>din_size := z\<rparr>)"
  by (simp add: resized_def)

lemma written_resized: "written s d 0 [] s' d' \<Longrightarrow> resized s d s' d'"
  by (auto simp: written_def resized_def same_inode_def)

lemma shrunk_resized: "shrunk s d s' d' \<Longrightarrow> resized s d s' d'"
  by (auto simp: shrunk_def resized_def same_inode_def)

lemma truncfile_step:
  assumes len: "len \<le> 4096 * MAX_BLOCKS" and sz: "unat (din_size (din sn)) \<noteq> len" and sem: "sin_sem sn = 1"
    and t: "t = (len + 4095) div 4096"
  shows "sfs_truncfile s sn (int len) =
    do {
      (ret, s, sn) \<leftarrow>
        (if nblocks (din sn) < t then trunc_grow (t - nblocks (din sn)) s (sn\<lparr>sin_sem := 0\<rparr>) (din_blocks (din sn))
         else if t < nblocks (din sn) then trunc_shrink (nblocks (din sn) - t) s (sn\<lparr>sin_sem := 0\<rparr>)
         else Some (None, s, sn\<lparr>sin_sem := 0\<rparr>));
      if ret \<noteq> None then Some (ret, s, unlock_sin sn)
      else do {
        assert_that (nblocks (din sn) = t);
        Some (None, s, unlock_sin (sn\<lparr>din := (din sn)\<lparr>din_size := word_of_nat len\<rparr>, dirty := True\<rparr>))
      }
    }"
proof -
  have "(len + 4095) div 4096 \<le> (4096 * 1036 + 4095) div 4096" using len by (intro div_le_mono) simp
  then have tl: "t \<le> 1036" using t by simp
  have "(int len + int 4096 - 1) div int 4096 = int t" unfolding t zdiv_int by (simp add: algebra_simps)
  then have w: "(word_of_int ((int len + int 4096 - 1) div int 4096) :: u32) = word_of_nat t" by simp
  have u: "unat (word_of_nat t :: u32) = t" using tl by (intro unat_of_nat_u32) simp
  have b: "(word_of_nat t = din_blocks d) = (nblocks d = t)" "(din_blocks d < word_of_nat t) = (nblocks d < t)"
    "(word_of_nat t < din_blocks d) = (t < nblocks d)" "(din_blocks d = word_of_nat t) = (nblocks d = t)" for d
    unfolding word_less_nat_alt word_unat_eq_iff u by auto
  have c: "(int len < 0 \<or> 134217728 < int len) = False" "(uint (din_size (din sn)) = int len) = False"
    using len sz uint_nat [of "din_size (din sn)"] by (simp, metis of_nat_eq_iff)
  have l: "lock_sin sn = Some (sn\<lparr>sin_sem := 0\<rparr>)" using sem by (simp add: lock_sin_def)
  show ?thesis
    unfolding sfs_truncfile_def Let_def w c if_False l b u of_int_of_nat_eq by (simp add: b u)
qed

lemma truncfile_spec:
  assumes ok: "fs_ok s" "map_ok s (din sn)" and len: "len \<le> 4096 * MAX_BLOCKS"
    and sz: "unat (din_size (din sn)) \<noteq> len" and sem: "sin_sem sn = 1"
  shows "\<exists>ret s' sn'. sfs_truncfile s sn (int len) = Some (ret, s', sn')
    \<and> resized s (din sn) s' (din sn') \<and> same_rest sn sn'
    \<and> (ret = None \<and> unat (din_size (din sn')) = len \<and> nblocks (din sn') = (len + 4095) div 4096
       \<or> ret = Some E_NO_MEM \<and> din_size (din sn') = din_size (din sn) \<and> nblocks (din sn) < (len + 4095) div 4096)"
proof -
  define t where "t = (len + 4095) div 4096"
  let ?d = "din sn" let ?l = "sn\<lparr>sin_sem := 0\<rparr>"
  have "(len + 4095) div 4096 \<le> (4096 * 1036 + 4095) div 4096" using len by (intro div_le_mono) simp
  then have tl: "t \<le> MAX_BLOCKS" using t_def by simp
  have lw: "unat (word_of_nat len :: u32) = len" using len by (intro unat_of_nat_u32) simp
  note T = truncfile_step [OF len sz sem t_def, of s]
  have un: "same_rest sn (unlock_sin x)" if "same_rest ?l x" for x
    using that sem by (simp add: same_rest_def unlock_sin_def up_sem_def)
  have sr: "same_rest ?l ?l" by (simp add: same_rest_def)
  have fin: ?thesis if r: "sfs_truncfile s sn (int len)
      = Some (None, s', unlock_sin (x\<lparr>din := (din x)\<lparr>din_size := word_of_nat len\<rparr>, dirty := True\<rparr>))"
    "resized s ?d s' (din x)" "same_rest ?l x" "nblocks (din x) = t" for s' x
  proof -
    let ?x = "x\<lparr>din := (din x)\<lparr>din_size := word_of_nat len\<rparr>, dirty := True\<rparr>"
    have "same_rest ?l ?x" using r(3) by (simp add: same_rest_def)
    then show ?thesis using r(1,4) resized_size [OF r(2)] un [of ?x] lw t_def
      by (intro exI [of _ None] exI [of _ s'] exI [of _ "unlock_sin ?x"]) (simp add: unlock_sin_def)
  qed
  consider "nblocks ?d < t" | "t < nblocks ?d" | "nblocks ?d = t" by linarith
  then show ?thesis
  proof cases
    case 1
    have pre: "written s (din ?l) 0 [] s (din ?l)" "unat (din_blocks ?d) = nblocks (din ?l)"
      "unat (din_blocks ?d) + (t - nblocks ?d) \<le> MAX_BLOCKS"
      using written_start [OF ok, of 0] 1 tl by simp_all
    from trunc_grow_ok [OF pre(1) sr pre(2,3)]
    obtain ret s' x where g0: "trunc_grow (t - nblocks ?d) s ?l (din_blocks ?d) = Some (ret, s', x)"
      "written s (din ?l) 0 [] s' (din x)" "same_rest ?l x"
      "ret = None \<and> nblocks (din x) = nblocks (din ?l) + (t - nblocks ?d) \<or> ret = Some E_NO_MEM"
      by blast
    then have g: "trunc_grow (t - nblocks ?d) s ?l (din_blocks ?d) = Some (ret, s', x)"
      "written s ?d 0 [] s' (din x)" "same_rest ?l x"
      "ret = None \<and> nblocks (din x) = nblocks ?d + (t - nblocks ?d) \<or> ret = Some E_NO_MEM"
      by simp_all
    show ?thesis
    proof (cases "ret = None")
      case True
      then have "nblocks (din x) = t" using g(4) 1 by auto
      then show ?thesis using fin [OF _ written_resized [OF g(2)] g(3)] T g(1) 1 True by simp
    next
      case False
      then have "sfs_truncfile s sn (int len) = Some (Some E_NO_MEM, s', unlock_sin x)" using T g(1,4) 1 by auto
      moreover have "din_size (din x) = din_size ?d" using g(2) by (simp add: written_def same_inode_def)
      ultimately show ?thesis using written_resized [OF g(2)] un [OF g(3)] 1 t_def
        by (intro exI [of _ "Some E_NO_MEM"] exI [of _ s'] exI [of _ "unlock_sin x"]) (simp add: unlock_sin_def)
    qed
  next
    case 2
    obtain s' x where g: "trunc_shrink (nblocks ?d - t) s ?l = Some (None, s', x)" "shrunk s ?d s' (din x)"
      "same_rest ?l x" "nblocks (din x) + (nblocks ?d - t) = nblocks ?d"
      using trunc_shrink_ok [OF _ sr, of s s "nblocks ?d - t"] shrunk_start [OF ok] by auto
    then show ?thesis using fin [OF _ shrunk_resized [OF g(2)] g(3)] T 2 by simp
  next
    case 3
    have "sfs_truncfile s sn (int len)
      = Some (None, s, unlock_sin (?l\<lparr>din := (din ?l)\<lparr>din_size := word_of_nat len\<rparr>, dirty := True\<rparr>))"
      using T 3 by simp
    then show ?thesis using fin [of s ?l] shrunk_resized [OF shrunk_start [OF ok]] 3 by (simp add: same_rest_def)
  qed
qed

subsection \<open>Properties\<close>

text \<open>
  C35: Reading a file. Let the file system and the block map of a file that is no directory be consistent, the
  position be before the end of the file and below 128 MB, and the buffer be long enough. If the section that is read
  lies within the blocks that the file has (\<open>q + n \<le> 4096 * nblocks\<close>), \<open>sfs_io_nolock\<close> returns without error,
  whatever the alignment of the section: the bytes of the file from the position on, as many as asked for, up to the
  end of the file, are copied to the start of the buffer, and neither the disk nor the inode changes. The condition on
  the blocks is a real one: the size that a write records (C4) can exceed the blocks of the file, and a read of such a
  section is not covered, since it loads blocks that do not exist yet.
\<close>

theorem sfs_read_correct:
  assumes "fs_ok s" "map_ok s (din sn)" "din_type (din sn) \<noteq> SFS_TYPE_DIR"
    and "q < unat (din_size (din sn))" "q < 134217728" "0 < len" "q + len < 2 ^ 63"
    and "n = min len (min (unat (din_size (din sn))) 134217728 - q)" "n \<le> length buf" "q + n \<le> 4096 * nblocks (din sn)"
  shows "sfs_io_nolock s sn buf (int q) len False
    = Some (None, n, overwrite buf 0 (map (file_byte s (din sn)) [q..<q + n]), s, sn)"
  by (rule read_section) (rule assms)+

lemma sample_bytes: "i < 4096 \<Longrightarrow> file_byte sample_fs sample_din i = 7"
  by (simp add: file_byte_def sample_bmap nth_disk_block) (simp add: sample_fs_def)

lemma sample_map_ok: "map_ok sample_fs sample_din"
  using sample_file_ok by (simp add: inode_ok_def)

theorem sfs_read_correct_witness:
  "sfs_io_nolock sample_fs sample_file (replicate 20 0) 90 20 False
    = Some (None, 10, replicate 10 7 @ replicate 10 0, sample_fs, sample_file)"
proof -
  let ?b = "map (file_byte sample_fs (din sample_file)) [90..<90 + 10]"
  have r: "sfs_io_nolock sample_fs sample_file (replicate 20 0) (int 90) 20 False
    = Some (None, 10, overwrite (replicate 20 0) 0 ?b, sample_fs, sample_file)"
    by (rule sfs_read_correct) (use sample_fs_ok sample_map_ok in simp_all)
  have m: "?b = replicate 10 7" by (rule replicate_eqI) (auto simp: sample_bytes)
  have "overwrite (replicate 20 0) 0 ?b = replicate 10 7 @ replicate 10 (0 :: u8)"
    unfolding m by (simp add: overwrite_def)
  with r show ?thesis by (simp only: of_nat_numeral)
qed

text \<open>
  C4: Writing a file. A write at a position up to the end of its blocks either is complete or, when the file has
  to grow and the disk is full, returns \<open>-E_NO_MEM\<close> after \<open>n\<close> bytes; it never panics. In both cases the \<open>n\<close> bytes
  are in the file at their place, every other byte keeps its value, bytes of new blocks are zero, the block
  map, the freemap and the superblock stay consistent, and no block of another file changes. The recorded
  size, however, is computed from the advanced position plus the whole length (\<open>io_reached q (q + len) + len\<close>),
  so it exceeds the end of the written section as soon as a block boundary is reached.
\<close>

theorem sfs_write_correct:
  assumes "fs_ok s" "map_ok s (din sn)" "din_type (din sn) \<noteq> SFS_TYPE_DIR"
    and "q \<le> 4096 * nblocks (din sn)" "0 < len" "q + len \<le> 4096 * MAX_BLOCKS" "len \<le> length buf"
  shows "\<exists>ret n s' sn'. sfs_io_nolock s sn buf (int q) len True = Some (ret, n, buf, s', sn')
    \<and> file_written s (din sn) q (take n buf) s' (din sn') \<and> same_rest sn sn' \<and> n \<le> len
    \<and> (ret = None \<and> n = len
         \<and> unat (din_size (din sn')) = max (unat (din_size (din sn))) (io_reached q (q + len) + len)
       \<or> ret = Some E_NO_MEM \<and> 4096 * nblocks (din sn) < q + len)"
  by (rule write_section) (rule assms)+

text \<open>One full block written at the start of the sample file of one block: the size becomes 8192.\<close>

theorem sfs_write_correct_witness:
  "\<exists>s' sn'. sfs_io_nolock sample_fs sample_file (replicate 4096 1) 0 4096 True
      = Some (None, 4096, replicate 4096 1, s', sn')
    \<and> unat (din_size (din sn')) = 8192 \<and> file_byte s' (din sn') 5 = 1"
proof -
  obtain ret n s' sn' where r: "sfs_io_nolock sample_fs sample_file (replicate 4096 1) 0 4096 True
      = Some (ret, n, replicate 4096 1, s', sn')"
    "file_written sample_fs sample_din 0 (take n (replicate 4096 1)) s' (din sn')"
    "ret = None \<and> n = 4096 \<and> unat (din_size (din sn')) = max 100 (io_reached 0 4096 + 4096)
     \<or> ret = Some E_NO_MEM \<and> 4096 * nblocks sample_din < 4096"
    using sfs_write_correct [of sample_fs sample_file 0 4096 "replicate 4096 1"] sample_fs_ok sample_map_ok
    by auto
  then have n: "ret = None" "n = 4096" "unat (din_size (din sn')) = 8192"
    by (auto simp: io_reached_def)
  have "nblocks sample_din \<le> nblocks (din sn')" using r(2) by (simp add: file_written_def)
  then have "file_byte s' (din sn') 5 = 1" using r(2) n(2) by (auto simp: file_written_def)
  then show ?thesis using r(1) n by auto
qed

text \<open>
  C36: Setting the length of a file (\<open>sfs_truncfile\<close>, which \<open>lseek\<close> past the end and \<open>O_TRUNC\<close> use). The number of
  blocks becomes the length in blocks, rounded up, and the size the length; the bytes of the blocks that
  remain keep their values, new blocks are zero, every block given up is free again, and other files are not
  touched. A growing file may find the disk full; then the size is unchanged.
\<close>

theorem sfs_truncfile_correct:
  assumes "fs_ok s" "map_ok s (din sn)" "len \<le> 4096 * MAX_BLOCKS" "unat (din_size (din sn)) \<noteq> len" "sin_sem sn = 1"
  shows "\<exists>ret s' sn'. sfs_truncfile s sn (int len) = Some (ret, s', sn')
    \<and> resized s (din sn) s' (din sn') \<and> same_rest sn sn'
    \<and> (ret = None \<and> unat (din_size (din sn')) = len \<and> nblocks (din sn') = (len + 4095) div 4096
       \<or> ret = Some E_NO_MEM \<and> din_size (din sn') = din_size (din sn) \<and> nblocks (din sn) < (len + 4095) div 4096)"
  by (rule truncfile_spec) (rule assms)+

theorem sfs_truncfile_correct_witness:
  "\<exists>s' sn'. sfs_truncfile sample_fs sample_file 0 = Some (None, s', sn')
    \<and> nblocks (din sn') = 0 \<and> card (fs_free s') = 4"
proof -
  obtain ret s' sn' where r: "sfs_truncfile sample_fs sample_file 0 = Some (ret, s', sn')"
    "resized sample_fs sample_din s' (din sn')" "ret = None \<and> nblocks (din sn') = 0"
    using sfs_truncfile_correct [of sample_fs sample_file 0] sample_fs_ok sample_map_ok by auto
  then have "card (fs_free s') = card (fs_free sample_fs) + 1" by (simp add: resized_def)
  then show ?thesis using r sample_free by auto
qed

end
