(* ===== verification/SfsDir.thy ===== *)
theory SfsDir
  imports SfsFile
begin

text \<open>
  Directories of the Simple FS (\<open>kern/fs/sfs/sfs_inode.c\<close>): each entry fills one block of the directory file. The
  entries a directory represents are \<open>dir_entry\<close>; searching for a name finds the first entry in use that
  carries it. The entry buffer that \<open>kmalloc\<close> provides is a local value; whether \<open>kmalloc\<close> succeeds is the
  argument \<open>mem\<close>.
\<close>

text \<open>The C string in a name field: the bytes before the first zero.\<close>

definition cstring :: "u8 list \<Rightarrow> u8 list" where
  "cstring bs = takeWhile (\<lambda>c. c \<noteq> 0) bs"

definition sfs_dirent_read_nolock ::
    "sfs_fs \<Rightarrow> sfs_inode \<Rightarrow> nat \<Rightarrow> ((err + sfs_disk_entry) \<times> sfs_fs \<times> sfs_inode) option" where
  "sfs_dirent_read_nolock s sn slot =
     do {
       assert_that (din_type (din sn) = SFS_TYPE_DIR \<and> slot < unat (din_blocks (din sn)));
       (r, s, sn) \<leftarrow> sfs_bmap_load_nolock s sn (word_of_nat slot);
       (case r of
          Inl e \<Rightarrow> Some (Inl e, s, sn)
        | Inr i \<Rightarrow> do {
            inuse \<leftarrow> sfs_block_inuse s i;
            assert_that inuse;
            (ret, bs, s) \<leftarrow> sfs_rbuf s (replicate 260 0) 0 260 i 0;
            (case ret of
               Some e \<Rightarrow> Some (Inl e, s, sn)
             | None \<Rightarrow>
                 (let entry = bytes_entry bs
                  in Some (Inr (entry\<lparr>ent_name := (ent_name entry)[SFS_MAX_FNAME_LEN := 0]\<rparr>), s, sn)))
          })
     }"

text \<open>The loop of \<open>sfs_dirent_search_nolock\<close> with its three results: the inode number, the slot and the empty slot.\<close>

fun dirent_search ::
    "nat \<Rightarrow> sfs_fs \<Rightarrow> sfs_inode \<Rightarrow> u8 list \<Rightarrow> nat \<Rightarrow> nat
     \<Rightarrow> ((err + u32 \<times> nat) \<times> nat \<times> sfs_fs \<times> sfs_inode) option" where
  "dirent_search 0 s sn name i hole = Some (Inl E_NOENT, hole, s, sn)"
| "dirent_search (Suc n) s sn name i hole =
     do {
       (r, s, sn) \<leftarrow> sfs_dirent_read_nolock s sn i;
       (case r of
          Inl e \<Rightarrow> Some (Inl e, hole, s, sn)
        | Inr entry \<Rightarrow>
            if ent_ino entry = 0 then dirent_search n s sn name (i + 1) i
            else if name = cstring (ent_name entry) then Some (Inr (ent_ino entry, i), hole, s, sn)
            else dirent_search n s sn name (i + 1) hole)
     }"

definition sfs_dirent_search_nolock ::
    "bool \<Rightarrow> sfs_fs \<Rightarrow> sfs_inode \<Rightarrow> u8 list \<Rightarrow> ((err + u32 \<times> nat) \<times> nat option \<times> sfs_fs \<times> sfs_inode) option" where
  "sfs_dirent_search_nolock mem s sn name =
     do {
       assert_that (length name \<le> SFS_MAX_FNAME_LEN);
       if \<not> mem then Some (Inl E_NO_MEM, None, s, sn)
       else do {
         let nslots = unat (din_blocks (din sn));
         (r, hole, s, sn) \<leftarrow> dirent_search nslots s sn name 0 nslots;
         Some (r, Some hole, s, sn)
       }
     }"

fun dirent_findino ::
    "nat \<Rightarrow> sfs_fs \<Rightarrow> sfs_inode \<Rightarrow> u32 \<Rightarrow> nat \<Rightarrow> ((err + sfs_disk_entry) \<times> sfs_fs \<times> sfs_inode) option" where
  "dirent_findino 0 s sn i0 i = Some (Inl E_NOENT, s, sn)"
| "dirent_findino (Suc n) s sn i0 i =
     do {
       (r, s, sn) \<leftarrow> sfs_dirent_read_nolock s sn i;
       (case r of
          Inl e \<Rightarrow> Some (Inl e, s, sn)
        | Inr entry \<Rightarrow> if ent_ino entry = i0 then Some (Inr entry, s, sn) else dirent_findino n s sn i0 (i + 1))
     }"

definition sfs_dirent_findino_nolock ::
    "sfs_fs \<Rightarrow> sfs_inode \<Rightarrow> u32 \<Rightarrow> ((err + sfs_disk_entry) \<times> sfs_fs \<times> sfs_inode) option" where
  "sfs_dirent_findino_nolock s sn i0 = dirent_findino (unat (din_blocks (din sn))) s sn i0 0"

fun getdirentry_sub ::
    "nat \<Rightarrow> sfs_fs \<Rightarrow> sfs_inode \<Rightarrow> nat \<Rightarrow> nat \<Rightarrow> ((err + sfs_disk_entry) \<times> sfs_fs \<times> sfs_inode) option" where
  "getdirentry_sub 0 s sn slot i = Some (Inl E_NOENT, s, sn)"
| "getdirentry_sub (Suc n) s sn slot i =
     do {
       (r, s, sn) \<leftarrow> sfs_dirent_read_nolock s sn i;
       (case r of
          Inl e \<Rightarrow> Some (Inl e, s, sn)
        | Inr entry \<Rightarrow>
            if ent_ino entry \<noteq> 0 then
              (if slot = 0 then Some (Inr entry, s, sn) else getdirentry_sub n s sn (slot - 1) (i + 1))
            else getdirentry_sub n s sn slot (i + 1))
     }"

definition sfs_getdirentry_sub_nolock ::
    "sfs_fs \<Rightarrow> sfs_inode \<Rightarrow> nat \<Rightarrow> ((err + sfs_disk_entry) \<times> sfs_fs \<times> sfs_inode) option" where
  "sfs_getdirentry_sub_nolock s sn slot = getdirentry_sub (unat (din_blocks (din sn))) s sn slot 0"

text \<open>\<open>slot\<close> is a C \<open>int\<close>; it is compared with the unsigned \<open>blocks\<close>.\<close>

definition sfs_getdirentry ::
    "bool \<Rightarrow> sfs_fs \<Rightarrow> sfs_inode \<Rightarrow> iobuf \<Rightarrow> (err option \<times> iobuf \<times> sfs_fs \<times> sfs_inode) option" where
  "sfs_getdirentry mem s sn iob =
     (let off = io_offset iob; slot = (word_of_int (off div 256) :: u32) in
      if \<not> mem then Some (Some E_NO_MEM, iob, s, sn)
      else if off < 0 \<or> off mod 256 \<noteq> 0 then Some (Some E_INVAL, iob, s, sn)
      else if slot > din_blocks (din sn) then Some (Some E_NOENT, iob, s, sn)
      else do {
        sn \<leftarrow> lock_sin sn;
        (r, s, sn) \<leftarrow> sfs_getdirentry_sub_nolock s sn (unat slot);
        (case r of
           Inl e \<Rightarrow> Some (Some e, iob, s, unlock_sin sn)
         | Inr entry \<Rightarrow> do {
             (ret, _, _, iob) \<leftarrow> iobuf_move iob (ent_name entry) 256 True;
             Some (ret, iob, s, unlock_sin sn)
           })
      })"

subsection \<open>The entries of a directory\<close>

definition dir_entry :: "sfs_fs \<Rightarrow> sfs_disk_inode \<Rightarrow> nat \<Rightarrow> sfs_disk_entry" where
  "dir_entry s d i =
     (let e = bytes_entry (slice (blk s (bmap_at s d i)) 0 260)
      in e\<lparr>ent_name := (ent_name e)[SFS_MAX_FNAME_LEN := 0]\<rparr>)"

abbreviation dir_entries :: "sfs_fs \<Rightarrow> sfs_disk_inode \<Rightarrow> sfs_disk_entry list" where
  "dir_entries s d \<equiv> map (dir_entry s d) [0..<nblocks d]"

definition dir_ok :: "sfs_fs \<Rightarrow> sfs_inode \<Rightarrow> bool" where
  "dir_ok s sn \<longleftrightarrow> fs_ok s \<and> map_ok s (din sn) \<and> din_type (din sn) = SFS_TYPE_DIR"

lemma dirent_read_ok:
  assumes "dir_ok s sn" "i < nblocks (din sn)"
  shows "sfs_dirent_read_nolock s sn i = Some (Inr (dir_entry s (din sn) i), s, sn)"
proof -
  have ok: "fs_ok s" "map_ok s (din sn)" using assms(1) by (simp_all add: dir_ok_def)
  have u: "unat (word_of_nat i :: u32) = i"
    using assms(2) map_okD(2) [OF ok(2)] by (intro unat_of_nat_u32) simp
  have b: "inuse s (bmap_at s (din sn) i)" using map_okD(3) [OF ok(2) assms(2)] by (rule data_inuse)
  have "overwrite (replicate 260 0) 0 (slice (blk s (bmap_at s (din sn) i)) 0 260)
      = slice (blk s (bmap_at s (din sn) i)) 0 260"
    by (intro overwrite_all) simp
  moreover have "sfs_rbuf s (replicate 260 0) 0 260 (bmap_at s (din sn) i) (int 0) =
      Some (None, overwrite (replicate 260 0) 0 (slice (blk s (bmap_at s (din sn) i)) 0 260), s)"
    by (rule sfs_rbuf_ok [OF ok(1) inuse_blk_ok [OF b]]) simp_all
  ultimately show ?thesis
    using assms bmap_load_old [OF ok, of "word_of_nat i"] u inuse_Some [OF ok(1) b]
    by (simp add: sfs_dirent_read_nolock_def dir_ok_def dir_entry_def Let_def)
qed

definition named :: "u8 list \<Rightarrow> sfs_disk_entry \<Rightarrow> bool" where
  "named name e \<longleftrightarrow> ent_ino e \<noteq> 0 \<and> name = cstring (ent_name e)"

lemma find_upt_step:
  "i < n \<Longrightarrow> find P [i..<n] = (if P i then Some i else find P [Suc i..<n])"
  by (simp add: upt_conv_Cons)

lemma dirent_search_ok:
  assumes "dir_ok s sn"
  shows "i + n = nblocks (din sn) \<Longrightarrow>
    \<exists>hole'. dirent_search n s sn name i hole =
      Some (case find (\<lambda>j. named name (dir_entry s (din sn) j)) [i..<nblocks (din sn)] of
              None \<Rightarrow> Inl E_NOENT
            | Some j \<Rightarrow> Inr (ent_ino (dir_entry s (din sn) j), j), hole', s, sn)"
proof (induction n arbitrary: i hole)
  case (Suc n)
  then have i: "i < nblocks (din sn)" "Suc i + n = nblocks (din sn)" by simp_all
  show ?case
    using Suc.IH [OF i(2)] dirent_read_ok [OF assms i(1)]
    by (auto simp: find_upt_step [OF i(1)] named_def)
qed simp

lemma dirent_findino_ok:
  assumes "dir_ok s sn"
  shows "i + n = nblocks (din sn) \<Longrightarrow>
    dirent_findino n s sn i0 i =
      Some (case find (\<lambda>j. ent_ino (dir_entry s (din sn) j) = i0) [i..<nblocks (din sn)] of
              None \<Rightarrow> Inl E_NOENT | Some j \<Rightarrow> Inr (dir_entry s (din sn) j), s, sn)"
proof (induction n arbitrary: i)
  case (Suc n)
  then have i: "i < nblocks (din sn)" "Suc i + n = nblocks (din sn)" by simp_all
  show ?case
    using Suc.IH [OF i(2)] dirent_read_ok [OF assms i(1)]
    by (auto simp: find_upt_step [OF i(1)])
qed simp

text \<open>\<open>getdirentry\<close> numbers the entries in use.\<close>

lemma getdirentry_sub_ok:
  assumes "dir_ok s sn"
  shows "i + n = nblocks (din sn) \<Longrightarrow>
    (let used = filter (\<lambda>e. ent_ino e \<noteq> 0) (map (dir_entry s (din sn)) [i..<nblocks (din sn)]) in
     getdirentry_sub n s sn slot i =
       Some (if slot < length used then Inr (used ! slot) else Inl E_NOENT, s, sn))"
proof (induction n arbitrary: i slot)
  case (Suc n)
  then have i: "i < nblocks (din sn)" "Suc i + n = nblocks (din sn)" by simp_all
  show ?case
    using Suc.IH [OF i(2), of slot] Suc.IH [OF i(2), of "slot - 1"] dirent_read_ok [OF assms i(1)]
    by (cases slot) (auto simp: Let_def upt_conv_Cons [OF i(1)])
qed simp

lemma sfs_dirent_search_ok:
  assumes "dir_ok s sn" "length name \<le> 255"
  shows "\<exists>hole. sfs_dirent_search_nolock True s sn name =
      Some (case find (\<lambda>j. named name (dir_entry s (din sn) j)) [0..<nblocks (din sn)] of
              None \<Rightarrow> Inl E_NOENT
            | Some j \<Rightarrow> Inr (ent_ino (dir_entry s (din sn) j), j), hole, s, sn)"
  using dirent_search_ok [OF assms(1), of 0 "nblocks (din sn)" name "nblocks (din sn)"] assms(2)
  by (auto simp: sfs_dirent_search_nolock_def)

end
