(* ===== verification/Stdin.thy ===== *)
theory Stdin
  imports Sync
begin

text \<open>
  The console input device (\<open>kern/fs/devs/dev_stdin.c\<close>): a ring buffer between the keyboard interrupt and the
  readers. \<open>p_rpos\<close> and \<open>p_wpos\<close> only grow; position \<open>p\<close> is stored at \<open>p mod STDIN_BUFSIZE\<close>. A reader that finds the
  buffer empty waits on the wait queue \<open>q\<close> of theory Sync; its loop is divided at the call of \<open>schedule\<close>.
  The characters written and not yet read are \<open>unread\<close>.
\<close>

abbreviation (input) STDIN_BUFSIZE :: nat where "STDIN_BUFSIZE \<equiv> 4096"

record stdin =
  stdin_buffer :: "u8 list"
  p_rpos :: nat
  p_wpos :: nat

definition stdin_put :: "stdin \<Rightarrow> u8 \<Rightarrow> stdin" where
  "stdin_put k c =
     (let k = k\<lparr>stdin_buffer := (stdin_buffer k)[p_wpos k mod STDIN_BUFSIZE := c]\<rparr>
      in if p_wpos k - p_rpos k < STDIN_BUFSIZE then k\<lparr>p_wpos := p_wpos k + 1\<rparr> else k)"

definition dev_stdin_write :: "sched_class \<Rightarrow> nat \<Rightarrow> stdin \<Rightarrow> sync \<Rightarrow> u8 \<Rightarrow> (stdin \<times> sync) option" where
  "dev_stdin_write sc q k s c =
     (if c \<noteq> 0 then do {
        let k = stdin_put k c;
        s \<leftarrow> (if \<not> wait_queue_empty s q then wakeup_queue sc s q WT_KBD True else Some s);
        Some (k, s)
      }
      else Some (k, s))"

text \<open>The loop of \<open>dev_stdin_read\<close> up to the next wait: the characters taken, how many are still missing.\<close>

fun stdin_take :: "nat \<Rightarrow> stdin \<Rightarrow> u8 list \<times> nat \<times> stdin" where
  "stdin_take 0 k = ([], 0, k)"
| "stdin_take (Suc n) k =
     (if p_rpos k < p_wpos k then
        (let c = stdin_buffer k ! (p_rpos k mod STDIN_BUFSIZE);
             (cs, rest, k) = stdin_take n (k\<lparr>p_rpos := p_rpos k + 1\<rparr>)
         in (c # cs, rest, k))
      else ([], Suc n, k))"

text \<open>
  \<open>dev_stdin_read\<close> until it returns or calls \<open>schedule\<close> with the wait record \<open>w\<close> queued, and what it does when it
  runs again: it continues, or gives up when something other than the keyboard has woken it.
\<close>

definition dev_stdin_read :: "nat \<Rightarrow> nat \<Rightarrow> stdin \<Rightarrow> sync \<Rightarrow> nat \<Rightarrow> (u8 list \<times> nat \<times> stdin \<times> sync) option" where
  "dev_stdin_read q w k s len =
     (let (cs, rest, k) = stdin_take len k in
      if rest = 0 then Some (cs, 0, k, s)
      else do { s \<leftarrow> wait_current_set s q w WT_KBD; Some (cs, rest, k, s) })"

definition dev_stdin_resume ::
    "nat \<Rightarrow> nat \<Rightarrow> stdin \<Rightarrow> sync \<Rightarrow> nat \<Rightarrow> (u8 list \<times> nat \<times> stdin \<times> sync) option" where
  "dev_stdin_resume q w k s rest =
     do {
       s \<leftarrow> wait_current_del s q w;
       if wakeup_flags (waits s w) = WT_KBD then dev_stdin_read q w k s rest else Some ([], 0, k, s)
     }"

definition stdin_device_init :: "sync \<Rightarrow> nat \<Rightarrow> u8 list \<Rightarrow> stdin \<times> sync" where
  "stdin_device_init s q buf = (\<lparr>stdin_buffer = buf, p_rpos = 0, p_wpos = 0\<rparr>, wait_queue_init s q)"

subsection \<open>The ring buffer as a queue\<close>

definition stdin_ok :: "stdin \<Rightarrow> bool" where
  "stdin_ok k \<longleftrightarrow> length (stdin_buffer k) = STDIN_BUFSIZE \<and> p_rpos k \<le> p_wpos k
     \<and> p_wpos k - p_rpos k \<le> STDIN_BUFSIZE"

definition unread :: "stdin \<Rightarrow> u8 list" where
  "unread k = map (\<lambda>p. stdin_buffer k ! (p mod STDIN_BUFSIZE)) [p_rpos k..<p_wpos k]"

lemma length_unread: "length (unread k) = p_wpos k - p_rpos k"
  by (simp add: unread_def)

text \<open>Two positions less than one buffer apart have different places.\<close>

lemma mod_distinct:
  assumes "p < r" "r < p + n"
  shows "p mod n \<noteq> r mod (n :: nat)"
proof
  assume "p mod n = r mod n"
  then have "n dvd r - p" using mod_eq_dvd_iff_nat [of p r n] assms(1) by (metis less_imp_le)
  then have "n \<le> r - p" using assms(1) by (intro dvd_imp_le) simp_all
  then show False using assms by simp
qed

lemma stdin_put_room:
  assumes ok: "stdin_ok k" and room: "length (unread k) < 4096"
  shows "stdin_ok (stdin_put k c)" "unread (stdin_put k c) = unread k @ [c]"
proof -
  have r: "p_wpos k < p_rpos k + 4096" using ok room by (simp add: stdin_ok_def length_unread)
  then show "stdin_ok (stdin_put k c)" using ok by (auto simp: stdin_ok_def stdin_put_def Let_def)
  have "(stdin_buffer k)[p_wpos k mod 4096 := c] ! (p mod 4096) = stdin_buffer k ! (p mod 4096)"
    if "p_rpos k \<le> p" "p < p_wpos k" for p
    using mod_distinct [of p "p_wpos k" 4096] that r by simp
  then show "unread (stdin_put k c) = unread k @ [c]"
    using ok room by (simp add: unread_def stdin_put_def Let_def stdin_ok_def)
qed

lemma stdin_put_full:
  assumes ok: "stdin_ok k" and full: "length (unread k) = 4096"
  shows "stdin_ok (stdin_put k c)" "unread (stdin_put k c) = c # tl (unread k)"
proof -
  have r: "p_wpos k = p_rpos k + 4096" using ok full by (simp add: stdin_ok_def length_unread)
  show "stdin_ok (stdin_put k c)" using ok r by (auto simp: stdin_ok_def stdin_put_def Let_def)
  have e: "(stdin_buffer k)[p_rpos k mod 4096 := c] ! (p mod 4096) = stdin_buffer k ! (p mod 4096)"
    if "Suc (p_rpos k) \<le> p" "p < p_rpos k + 4096" for p
    using mod_distinct [of "p_rpos k" p 4096] that by simp
  then show "unread (stdin_put k c) = c # tl (unread k)"
  proof -
    have u: "[p_rpos k..<p_wpos k] = p_rpos k # [Suc (p_rpos k)..<p_rpos k + 4096]"
      unfolding r by (subst upt_conv_Cons) simp_all
    have m: "p_wpos k mod 4096 = p_rpos k mod 4096" by (simp add: r)
    have p: "stdin_put k c = k\<lparr>stdin_buffer := (stdin_buffer k)[p_rpos k mod 4096 := c]\<rparr>"
      using r by (simp add: stdin_put_def Let_def m)
    show ?thesis
      using ok e by (simp add: unread_def p u stdin_ok_def)
  qed
qed

lemma stdin_take_ok:
  "stdin_ok k \<Longrightarrow> \<exists>k'. stdin_take n k = (take n (unread k), n - length (unread k), k')
     \<and> stdin_ok k' \<and> unread k' = drop n (unread k) \<and> p_wpos k' = p_wpos k"
proof (induction n arbitrary: k)
  case (Suc n)
  show ?case
  proof (cases "p_rpos k < p_wpos k")
    case True
    let ?k = "k\<lparr>p_rpos := p_rpos k + 1\<rparr>"
    have ok: "stdin_ok ?k" using Suc.prems True by (auto simp: stdin_ok_def)
    have u: "unread k = stdin_buffer k ! (p_rpos k mod 4096) # unread ?k"
      using True by (simp add: unread_def upt_conv_Cons)
    show ?thesis using Suc.IH [OF ok] True u by auto
  next
    case False
    then show ?thesis using Suc.prems by (auto simp: unread_def)
  qed
qed simp

text \<open>
  C37: The input buffer is a bounded queue. While fewer than 4096 characters are unread, a character from the
  keyboard is appended; a reader receives the oldest characters, in order and without waiting when there are
  enough. When the buffer is full, the new character replaces the oldest unread one and will be read first:
  the order of the input is lost instead of the newest character.
\<close>

theorem stdin_fifo:
  assumes "stdin_ok k" "c \<noteq> 0" "wait_queue_empty s q"
  shows "dev_stdin_write sc q k s c = Some (stdin_put k c, s)
    \<and> stdin_ok (stdin_put k c)
    \<and> unread (stdin_put k c) = (if length (unread k) < 4096 then unread k @ [c] else c # tl (unread k))
    \<and> (\<forall>len \<le> length (unread k). \<exists>k'. dev_stdin_read q w k s len = Some (take len (unread k), 0, k', s)
         \<and> stdin_ok k' \<and> unread k' = drop len (unread k))"
proof -
  have "length (unread k) = 4096" if "\<not> length (unread k) < 4096"
    using that assms(1) by (simp add: stdin_ok_def length_unread)
  then have "stdin_ok (stdin_put k c)
    \<and> unread (stdin_put k c) = (if length (unread k) < 4096 then unread k @ [c] else c # tl (unread k))"
    using stdin_put_room [OF assms(1)] stdin_put_full [OF assms(1)] by simp
  moreover have "\<exists>k'. dev_stdin_read q w k s len = Some (take len (unread k), 0, k', s)
         \<and> stdin_ok k' \<and> unread k' = drop len (unread k)" if "len \<le> length (unread k)" for len
    using stdin_take_ok [OF assms(1), of len] that by (auto simp: dev_stdin_read_def)
  ultimately show ?thesis using assms(2,3) by (simp add: dev_stdin_write_def Let_def)
qed

text \<open>A full buffer of the character 1: the character 2 is the next to be read.\<close>

definition sample_stdin :: stdin where
  "sample_stdin = \<lparr>stdin_buffer = replicate 4096 1, p_rpos = 0, p_wpos = 4096\<rparr>"

definition sample_waits :: sync where
  "sample_waits = wait_queue_init \<lparr>sched = sample_sched, waits = (\<lambda>_. \<lparr>w_proc = 0, wakeup_flags = 0, w_queue = 0\<rparr>),
     wlinks = \<lparr>lprev = (\<lambda>n. n), lnext = (\<lambda>n. n)\<rparr>, sem_value = (\<lambda>_. 0)\<rparr> 0"

theorem stdin_fifo_witness:
  "\<exists>k. dev_stdin_write default_sched_class 0 sample_stdin sample_waits 2 = Some (k, sample_waits)
    \<and> unread k = 2 # tl (unread sample_stdin)"
proof -
  have "stdin_ok sample_stdin" "length (unread sample_stdin) = 4096"
    by (simp_all add: stdin_ok_def sample_stdin_def length_unread)
  moreover have "wait_queue_empty sample_waits 0"
    by (simp add: sample_waits_def wait_queue_empty_def wait_queue_init_def list_empty_def)
  ultimately show ?thesis
    using stdin_fifo [of sample_stdin 2 sample_waits 0 default_sched_class] by auto
qed

end
