(* ===== verification/Console.thy ===== *)
theory Console
  imports Prelude
begin

text \<open>
  The console driver \<open>kern/driver/console.c\<close>. The firmware's \<open>sbi_console_getchar\<close> returns the next element of a list
  of pending values, \<open>-1\<close> when there is none; the output is the list of bytes that reach \<open>sbi_console_putchar\<close>.
  Interrupts are disabled in \<open>cons_putc\<close> and \<open>cons_getc\<close>, each is one step.
\<close>

abbreviation (input) CONSBUFSIZE :: nat where "CONSBUFSIZE \<equiv> 512"

record cons =
  cons_buf :: "u8 list"
  rpos :: nat
  wpos :: nat

definition serial_proc_data :: "int list \<Rightarrow> int \<times> int list" where
  "serial_proc_data pend =
     (let (c, pend) = (case pend of [] \<Rightarrow> (- 1, []) | c # cs \<Rightarrow> (c, cs)) in
      (if c < 0 then - 1 else if c = 127 then 8 else c, pend))"

definition cons_put :: "cons \<Rightarrow> int \<Rightarrow> cons" where
  "cons_put k c =
     (let k = k\<lparr>cons_buf := (cons_buf k)[wpos k := word_of_int c], wpos := wpos k + 1\<rparr>
      in if wpos k = CONSBUFSIZE then k\<lparr>wpos := 0\<rparr> else k)"

text \<open>\<open>cons_intr\<close> is only called with \<open>serial_proc_data\<close>, by \<open>serial_intr\<close>.\<close>

function cons_intr :: "cons \<Rightarrow> int list \<Rightarrow> cons \<times> int list" where
  "cons_intr k pend =
     (let (c, rest) = serial_proc_data pend in
      if c = - 1 then (k, rest) else cons_intr (if c \<noteq> 0 then cons_put k c else k) rest)"
  by pat_completeness auto
termination
  by (relation "measure (\<lambda>(k, pend). length pend)")
    (auto simp: serial_proc_data_def split: list.splits if_splits)

declare cons_intr.simps [simp del]

definition serial_intr :: "cons \<Rightarrow> int list \<Rightarrow> cons \<times> int list" where
  "serial_intr k pend = cons_intr k pend"

definition cons_getc :: "cons \<Rightarrow> int list \<Rightarrow> int \<times> cons \<times> int list" where
  "cons_getc k pend =
     (let (k, pend) = serial_intr k pend in
      if rpos k \<noteq> wpos k then
        let c = uint (cons_buf k ! rpos k); k = k\<lparr>rpos := rpos k + 1\<rparr>;
            k = (if rpos k = CONSBUFSIZE then k\<lparr>rpos := 0\<rparr> else k)
        in (c, k, pend)
      else (0, k, pend))"

definition serial_putc :: "int \<Rightarrow> u8 list" where
  "serial_putc c = (if c \<noteq> 8 then [word_of_int c] else [8, 32, 8])"

definition cons_putc :: "u8 list \<Rightarrow> int \<Rightarrow> u8 list" where
  "cons_putc out c = out @ serial_putc c"

subsection \<open>The ring buffer\<close>

definition cons_ok :: "cons \<Rightarrow> bool" where
  "cons_ok k \<longleftrightarrow> length (cons_buf k) = CONSBUFSIZE \<and> rpos k < CONSBUFSIZE \<and> wpos k < CONSBUFSIZE"

text \<open>The characters that wait, from \<open>rpos\<close> to \<open>wpos\<close> around the end of the buffer.\<close>

definition waiting :: "cons \<Rightarrow> u8 list" where
  "waiting k = map (\<lambda>i. cons_buf k ! ((rpos k + i) mod CONSBUFSIZE)) [0..<(wpos k + CONSBUFSIZE - rpos k) mod CONSBUFSIZE]"

end
