(* ===== verification/Vnode.thy ===== *)
theory Vnode
  imports SfsDir Stdin Console
begin

text \<open>
  Inodes in memory: \<open>struct inode\<close> with its reference counts (\<open>kern/fs/vfs/inode.c\<close>, \<open>inode.h\<close>), the inode cache of
  the Simple FS, its directory and file operations on inodes (\<open>kern/fs/sfs/sfs_inode.c\<close>) and the devices as
  inodes (\<open>kern/fs/devs/dev.c\<close>, \<open>dev_stdout.c\<close>). The function tables \<open>inode_ops\<close> are the tag \<open>in_ops\<close>; \<open>vop_enter\<close> is
  the macro \<open>__vop_op\<close>, which panics when the table has no such function. \<open>kmalloc\<close> provides the addresses in
  \<open>node_pool\<close> for inodes and \<open>heap_left\<close> further objects. The results of reads and writes are C integers, all
  other results error codes. A read of the console that would have to wait does not return in this model of
  one flow of control.
\<close>

subsection \<open>State\<close>

datatype dev_kind = Dev_stdin | Dev_stdout | Dev_disk0

datatype node_info = Device_info dev_kind | Sfs_info sfs_inode

datatype inode_ops = Dirops | Fileops | Devops

record inode =
  in_info :: node_info
  ref_count :: int
  open_count :: int
  in_fs :: bool \<comment> \<open>\<open>True\<close> for the mounted file system, \<open>False\<close> for \<open>NULL\<close>\<close>
  in_ops :: inode_ops

record vfs_dev =
  devname :: "u8 list"
  devnode :: "nat option"
  dev_fs :: bool
  mountable :: bool

datatype fd_status = FD_NONE | FD_INIT | FD_OPENED | FD_CLOSED

record ofile =
  f_status :: fd_status
  f_readable :: bool
  f_writable :: bool
  f_fd :: int
  f_pos :: int
  f_node :: "nat option"
  f_open_count :: int

record files_struct =
  pwd :: "nat option"
  fd_array :: "ofile list"
  files_count :: int
  files_sem :: nat

record vstate =
  vsfs :: sfs_fs
  inodes :: "nat \<Rightarrow> inode option"
  node_pool :: "nat list"
  heap_left :: nat
  kin :: stdin
  console :: "u8 list"
  vdev_list :: "vfs_dev list"
  vdev_list_sem :: nat
  bootfs_node :: "nat option"
  fstructs :: "nat \<Rightarrow> files_struct option"
  cur_files :: nat

text \<open>Return values as C integers.\<close>

primrec err_code :: "err \<Rightarrow> int" where
  "err_code E_UNSPECIFIED = 1" | "err_code E_BAD_PROC = 2" | "err_code E_INVAL = 3" | "err_code E_NO_MEM = 4"
| "err_code E_NO_FREE_PROC = 5" | "err_code E_FAULT = 6" | "err_code E_SWAP_FAULT = 7" | "err_code E_INVAL_ELF = 8"
| "err_code E_KILLED = 9" | "err_code E_PANIC = 10" | "err_code E_TIMEOUT = 11" | "err_code E_TOO_BIG = 12"
| "err_code E_NO_DEV = 13" | "err_code E_NA_DEV = 14" | "err_code E_BUSY = 15" | "err_code E_NOENT = 16"
| "err_code E_ISDIR = 17" | "err_code E_NOTDIR = 18" | "err_code E_XDEV = 19" | "err_code E_UNIMP = 20"
| "err_code E_SEEK = 21" | "err_code E_MAX_OPEN = 22" | "err_code E_EXISTS = 23" | "err_code E_NOTEMPTY = 24"

definition ret_int :: "err option \<Rightarrow> int" where
  "ret_int r = (case r of None \<Rightarrow> 0 | Some e \<Rightarrow> - err_code e)"

subsection \<open>Flags (libs/unistd.h)\<close>

abbreviation (input) O_RDONLY :: u32 where "O_RDONLY \<equiv> 0"
abbreviation (input) O_WRONLY :: u32 where "O_WRONLY \<equiv> 1"
abbreviation (input) O_RDWR :: u32 where "O_RDWR \<equiv> 2"
abbreviation (input) O_CREAT :: u32 where "O_CREAT \<equiv> 4"
abbreviation (input) O_EXCL :: u32 where "O_EXCL \<equiv> 8"
abbreviation (input) O_TRUNC :: u32 where "O_TRUNC \<equiv> 16"
abbreviation (input) O_APPEND :: u32 where "O_APPEND \<equiv> 32"
abbreviation (input) O_ACCMODE :: u32 where "O_ACCMODE \<equiv> 3"

subsection \<open>Inode structures (kern/fs/vfs/inode.c)\<close>

abbreviation (input) MAX_INODE_COUNT :: int where "MAX_INODE_COUNT \<equiv> 0x10000"

definition upd_inode :: "nat \<Rightarrow> (inode \<Rightarrow> inode) \<Rightarrow> vstate \<Rightarrow> vstate" where
  "upd_inode nd f v = v\<lparr>inodes := (inodes v)(nd := map_option f (inodes v nd))\<rparr>"

definition inode_init :: "node_info \<Rightarrow> inode_ops \<Rightarrow> bool \<Rightarrow> inode" where
  "inode_init info ops fs = \<lparr>in_info = info, ref_count = 0 + 1, open_count = 0, in_fs = fs, in_ops = ops\<rparr>"

text \<open>\<open>alloc_inode\<close> followed by \<open>vop_init\<close>: a new node, or \<open>NULL\<close>.\<close>

definition alloc_inode :: "node_info \<Rightarrow> inode_ops \<Rightarrow> bool \<Rightarrow> vstate \<Rightarrow> nat option \<times> vstate" where
  "alloc_inode info ops fs v =
     (case node_pool v of
        [] \<Rightarrow> (None, v)
      | nd # rest \<Rightarrow> (Some nd, v\<lparr>node_pool := rest, inodes := (inodes v)(nd \<mapsto> inode_init info ops fs)\<rparr>))"

definition inode_kill :: "nat \<Rightarrow> vstate \<Rightarrow> vstate option" where
  "inode_kill nd v =
     do {
       n \<leftarrow> inodes v nd;
       assert_that (ref_count n = 0);
       assert_that (open_count n = 0);
       Some (v\<lparr>inodes := (inodes v)(nd := None), node_pool := nd # node_pool v\<rparr>)
     }"

definition inode_ref_inc :: "nat \<Rightarrow> vstate \<Rightarrow> (int \<times> vstate) option" where
  "inode_ref_inc nd v =
     do {
       n \<leftarrow> inodes v nd;
       Some (ref_count n + 1, upd_inode nd (\<lambda>n. n\<lparr>ref_count := ref_count n + 1\<rparr>) v)
     }"

definition inode_open_inc :: "nat \<Rightarrow> vstate \<Rightarrow> (int \<times> vstate) option" where
  "inode_open_inc nd v =
     do {
       n \<leftarrow> inodes v nd;
       Some (open_count n + 1, upd_inode nd (\<lambda>n. n\<lparr>open_count := open_count n + 1\<rparr>) v)
     }"

definition inode_check :: "inode \<Rightarrow> unit option" where
  "inode_check n =
     do {
       assert_that (ref_count n \<ge> open_count n \<and> open_count n \<ge> 0);
       assert_that (ref_count n < MAX_INODE_COUNT \<and> open_count n < MAX_INODE_COUNT)
     }"

text \<open>\<open>__vop_op\<close>: \<open>impl\<close> are the tables that have the operation.\<close>

definition vop_enter :: "nat \<Rightarrow> inode_ops set \<Rightarrow> vstate \<Rightarrow> inode option" where
  "vop_enter nd impl v =
     do {
       n \<leftarrow> inodes v nd;
       assert_that (in_ops n \<in> impl);
       inode_check n;
       Some n
     }"

text \<open>\<open>vop_info(node, sfs_inode)\<close> and \<open>vop_info(node, device)\<close> assert the type of the node.\<close>

definition sfs_info :: "inode \<Rightarrow> sfs_inode option" where
  "sfs_info n = (case in_info n of Sfs_info sn \<Rightarrow> Some sn | Device_info d \<Rightarrow> None)"

definition device_info :: "inode \<Rightarrow> dev_kind option" where
  "device_info n = (case in_info n of Sfs_info sn \<Rightarrow> None | Device_info d \<Rightarrow> Some d)"

text \<open>An operation of the Simple FS applied to the file system and the inode behind a node.\<close>

definition on_sfs :: "nat \<Rightarrow> (sfs_fs \<Rightarrow> sfs_inode \<Rightarrow> ('a \<times> sfs_fs \<times> sfs_inode) option) \<Rightarrow> vstate \<Rightarrow> ('a \<times> vstate) option" where
  "on_sfs nd f v =
     do {
       n \<leftarrow> inodes v nd;
       assert_that (in_fs n);
       sn \<leftarrow> sfs_info n;
       (r, s, sn) \<leftarrow> f (vsfs v) sn;
       Some (r, upd_inode nd (\<lambda>n. n\<lparr>in_info := Sfs_info sn\<rparr>) (v\<lparr>vsfs := s\<rparr>))
     }"

text \<open>\<open>vop_truncate\<close> and \<open>vop_fsync\<close>.\<close>

definition vop_truncate :: "nat \<Rightarrow> int \<Rightarrow> vstate \<Rightarrow> (err option \<times> vstate) option" where
  "vop_truncate nd len v =
     do { vop_enter nd {Fileops} v; on_sfs nd (\<lambda>s sn. sfs_truncfile s sn len) v }"

definition vop_fsync :: "nat \<Rightarrow> vstate \<Rightarrow> (err option \<times> vstate) option" where
  "vop_fsync nd v = do { vop_enter nd {Dirops, Fileops} v; on_sfs nd sfs_fsync v }"

subsection \<open>The inode cache (kern/fs/sfs/sfs_inode.c)\<close>

abbreviation (input) SFS_HLIST_SHIFT :: nat where "SFS_HLIST_SHIFT \<equiv> 10"

definition sin_hashfn :: "u32 \<Rightarrow> u32" where
  "sin_hashfn x = hash32 x SFS_HLIST_SHIFT"

definition sfs_hash_list :: "u32 \<Rightarrow> hsnode" where
  "sfs_hash_list i = HashList (sin_hashfn i)"

definition sfs_get_ops :: "u16 \<Rightarrow> inode_ops option" where
  "sfs_get_ops ty = (if ty = SFS_TYPE_DIR then Some Dirops else if ty = SFS_TYPE_FILE then Some Fileops else None)"

definition sfs_set_links :: "u32 \<Rightarrow> nat \<Rightarrow> sfs_fs \<Rightarrow> sfs_fs" where
  "sfs_set_links i nd s =
     s\<lparr>ilist := list_add (ilist s) InodeList (InodeLink nd), hlist := list_add (hlist s) (sfs_hash_list i) (HashLink nd)\<rparr>"

definition sfs_remove_links :: "nat \<Rightarrow> sfs_fs \<Rightarrow> sfs_fs" where
  "sfs_remove_links nd s =
     s\<lparr>ilist := list_del (ilist s) (InodeLink nd), hlist := list_del (hlist s) (HashLink nd)\<rparr>"

definition sfs_create_inode :: "sfs_disk_inode \<Rightarrow> u32 \<Rightarrow> vstate \<Rightarrow> (nat option \<times> vstate) option" where
  "sfs_create_inode d i v =
     (case node_pool v of
        [] \<Rightarrow> Some (None, v)
      | _ \<Rightarrow> do {
          ops \<leftarrow> sfs_get_ops (din_type d);
          Some (alloc_inode (Sfs_info \<lparr>din = d, ino = i, dirty = False, reclaim_count = 1, sin_sem = 1\<rparr>) ops True v)
        })"

text \<open>The walk along a hash list from the node \<open>le\<close>.\<close>

partial_function (option) lookup_loop :: "vstate \<Rightarrow> u32 \<Rightarrow> hsnode \<Rightarrow> (nat option \<times> vstate) option" where
  "lookup_loop v i le =
     (case list_next (hlist (vsfs v)) le of
        HashList h \<Rightarrow> Some (None, v)
      | HashLink nd \<Rightarrow> do {
          n \<leftarrow> inodes v nd;
          sn \<leftarrow> sfs_info n;
          if ino sn = i then do {
            (count, v) \<leftarrow> inode_ref_inc nd v;
            let v = (if count = 1 then upd_inode nd (\<lambda>n. n\<lparr>in_info := Sfs_info (sn\<lparr>reclaim_count := reclaim_count sn + 1\<rparr>)\<rparr>) v
                     else v);
            Some (Some nd, v)
          }
          else lookup_loop v i (HashLink nd)
        })"

definition lookup_sfs_nolock :: "vstate \<Rightarrow> u32 \<Rightarrow> (nat option \<times> vstate) option" where
  "lookup_sfs_nolock v i = lookup_loop v i (sfs_hash_list i)"

definition unlock_fs :: "vstate \<Rightarrow> vstate" where
  "unlock_fs v = v\<lparr>vsfs := unlock_sfs_fs (vsfs v)\<rparr>"

definition sfs_load_inode :: "vstate \<Rightarrow> u32 \<Rightarrow> ((err + nat) \<times> vstate) option" where
  "sfs_load_inode v i =
     do {
       s \<leftarrow> lock_sfs_fs (vsfs v);
       (found, v) \<leftarrow> lookup_sfs_nolock (v\<lparr>vsfs := s\<rparr>) i;
       (case found of
          Some nd \<Rightarrow> Some (Inr nd, unlock_fs v)
        | None \<Rightarrow>
            if heap_left v = 0 then Some (Inl E_NO_MEM, unlock_fs v)
            else do {
              let v = v\<lparr>heap_left := heap_left v - 1\<rparr>;
              inuse \<leftarrow> sfs_block_inuse (vsfs v) i;
              assert_that inuse;
              (ret, bs, s) \<leftarrow> sfs_rbuf (vsfs v) (replicate 64 0) 0 64 i 0;
              let v = v\<lparr>vsfs := s\<rparr>;
              (case ret of
                 Some e \<Rightarrow> Some (Inl e, unlock_fs (v\<lparr>heap_left := heap_left v + 1\<rparr>))
               | None \<Rightarrow> do {
                   let d = bytes_din bs;
                   assert_that (din_nlinks d \<noteq> 0);
                   (node, v) \<leftarrow> sfs_create_inode d i v;
                   (case node of
                      None \<Rightarrow> Some (Inl E_NO_MEM, unlock_fs (v\<lparr>heap_left := heap_left v + 1\<rparr>))
                    | Some nd \<Rightarrow> Some (Inr nd, unlock_fs (v\<lparr>vsfs := sfs_set_links i nd (vsfs v)\<rparr>)))
                 })
            })
     }"

text \<open>\<open>sfs_reclaim\<close>, and \<open>inode_ref_dec\<close>, which calls it through \<open>vop_reclaim\<close>; device nodes have no such operation.\<close>

definition sfs_reclaim :: "nat \<Rightarrow> vstate \<Rightarrow> (err option \<times> vstate) option" where
  "sfs_reclaim nd v =
     do {
       n \<leftarrow> inodes v nd;
       assert_that (in_fs n);
       sn \<leftarrow> sfs_info n;
       s \<leftarrow> lock_sfs_fs (vsfs v);
       assert_that (reclaim_count sn > 0);
       let v = upd_inode nd (\<lambda>n. n\<lparr>in_info := Sfs_info (sn\<lparr>reclaim_count := reclaim_count sn - 1\<rparr>)\<rparr>) (v\<lparr>vsfs := s\<rparr>);
       if reclaim_count sn - 1 \<noteq> 0 \<or> ref_count n \<noteq> 0 then Some (Some E_BUSY, unlock_fs v)
       else do {
         (ret, v) \<leftarrow> (if din_nlinks (din sn) = 0 then vop_truncate nd 0 v else Some (None, v));
         if ret \<noteq> None then Some (ret, unlock_fs v)
         else do {
           n \<leftarrow> inodes v nd;
           sn \<leftarrow> sfs_info n;
           (ret, v) \<leftarrow> (if dirty sn then vop_fsync nd v else Some (None, v));
           if ret \<noteq> None then Some (ret, unlock_fs v)
           else do {
             let v = unlock_fs (v\<lparr>vsfs := sfs_remove_links nd (vsfs v)\<rparr>);
             n \<leftarrow> inodes v nd;
             sn \<leftarrow> sfs_info n;
             v \<leftarrow> (if din_nlinks (din sn) = 0 then do {
                    s \<leftarrow> sfs_block_free (vsfs v) (ino sn);
                    s \<leftarrow> (if din_indirect (din sn) \<noteq> 0 then sfs_block_free s (din_indirect (din sn)) else Some s);
                    Some (v\<lparr>vsfs := s\<rparr>)
                  } else Some v);
             v \<leftarrow> inode_kill nd (v\<lparr>heap_left := heap_left v + 1\<rparr>);
             Some (None, v)
           }
         }
       }
     }"

definition vop_reclaim :: "nat \<Rightarrow> vstate \<Rightarrow> (err option \<times> vstate) option" where
  "vop_reclaim nd v = do { vop_enter nd {Dirops, Fileops} v; sfs_reclaim nd v }"

definition inode_ref_dec :: "nat \<Rightarrow> vstate \<Rightarrow> (int \<times> vstate) option" where
  "inode_ref_dec nd v =
     do {
       n \<leftarrow> inodes v nd;
       assert_that (ref_count n > 0);
       let v = upd_inode nd (\<lambda>n. n\<lparr>ref_count := ref_count n - 1\<rparr>) v;
       if ref_count n - 1 = 0 then do {
         (ret, v) \<leftarrow> vop_reclaim nd v;
         Some (ref_count n - 1, v)
       }
       else Some (ref_count n - 1, v)
     }"

end
