(* ===== verification/Vops.thy ===== *)
theory Vops
  imports Vnode
begin

text \<open>
  The operations behind the function tables: name lookup and path names of the Simple FS
  (\<open>kern/fs/sfs/sfs_inode.c\<close>), the devices (\<open>kern/fs/devs/dev.c\<close>, \<open>dev_stdin.c\<close>, \<open>dev_stdout.c\<close>), and the dispatch of
  the \<open>vop_\<close> macros over the three tables \<open>sfs_node_dirops\<close>, \<open>sfs_node_fileops\<close> and \<open>dev_node_ops\<close>.
  A table without the operation, an operation applied to the wrong kind of inode and a failed
  \<open>inode_check\<close> are panics.
\<close>

subsection \<open>Names (sfs_inode.c)\<close>

definition sfs_lookup_once :: "nat \<Rightarrow> u8 list \<Rightarrow> vstate \<Rightarrow> ((err + nat \<times> nat) \<times> vstate) option" where
  "sfs_lookup_once nd name v =
     do {
       (r, v) \<leftarrow> on_sfs nd (\<lambda>s sn. do {
           sn \<leftarrow> lock_sin sn;
           (r, hole, s, sn) \<leftarrow> sfs_dirent_search_nolock (heap_left v > 0) s sn name;
           Some (r, s, unlock_sin sn)
         }) v;
       (case r of
          Inl e \<Rightarrow> Some (Inl e, v)
        | Inr (i, slot) \<Rightarrow> do {
            (r, v) \<leftarrow> sfs_load_inode v i;
            Some (case r of Inl e \<Rightarrow> Inl e | Inr sub \<Rightarrow> Inr (sub, slot), v)
          })
     }"

abbreviation (input) SLASH :: u8 where "SLASH \<equiv> 47"
abbreviation (input) COLON :: u8 where "COLON \<equiv> 58"
abbreviation (input) DOT :: u8 where "DOT \<equiv> 46"

definition sfs_lookup :: "nat \<Rightarrow> u8 list \<Rightarrow> vstate \<Rightarrow> ((err + nat) \<times> vstate) option" where
  "sfs_lookup nd path v =
     do {
       assert_that (path \<noteq> [] \<and> path ! 0 \<noteq> SLASH);
       (_, v) \<leftarrow> inode_ref_inc nd v;
       n \<leftarrow> inodes v nd;
       assert_that (in_fs n);
       sn \<leftarrow> sfs_info n;
       if din_type (din sn) \<noteq> SFS_TYPE_DIR then do {
         (_, v) \<leftarrow> inode_ref_dec nd v;
         Some (Inl E_NOTDIR, v)
       }
       else do {
         (r, v) \<leftarrow> sfs_lookup_once nd path v;
         (_, v) \<leftarrow> inode_ref_dec nd v;
         Some (case r of Inl e \<Rightarrow> Inl e | Inr (sub, slot) \<Rightarrow> Inr sub, v)
       }
     }"

definition sfs_opendir :: "u32 \<Rightarrow> err option" where
  "sfs_opendir flags =
     (if flags AND O_ACCMODE \<noteq> O_RDONLY then Some E_ISDIR
      else if flags AND O_APPEND \<noteq> 0 then Some E_ISDIR
      else None)"

definition sfs_openfile :: "u32 \<Rightarrow> err option" where
  "sfs_openfile flags = None"

definition sfs_close :: "nat \<Rightarrow> vstate \<Rightarrow> (err option \<times> vstate) option" where
  "sfs_close nd v = vop_fsync nd v"

text \<open>
  The loop of \<open>sfs_namefile\<close> climbs from a directory to the root. \<open>path\<close> is what has been written so far at the
  end of the buffer, \<open>resid\<close> the room left in front of it.
\<close>

partial_function (option) namefile_loop ::
    "nat \<Rightarrow> u8 list \<Rightarrow> nat \<Rightarrow> vstate \<Rightarrow> (err option \<times> u8 list \<times> nat \<times> vstate) option" where
  "namefile_loop nd path resid v =
     do {
       (r, v) \<leftarrow> sfs_lookup_once nd [DOT, DOT] v;
       (case r of
          Inl e \<Rightarrow> do { (_, v) \<leftarrow> inode_ref_dec nd v; Some (Some e, path, resid, v) }
        | Inr (parent, slot) \<Rightarrow> do {
            n \<leftarrow> inodes v nd;
            sn \<leftarrow> sfs_info n;
            (_, v) \<leftarrow> inode_ref_dec nd v;
            if nd = parent then do {
              (_, v) \<leftarrow> inode_ref_dec nd v;
              Some (None, path, resid, v)
            }
            else do {
              pn \<leftarrow> inodes v parent;
              psn \<leftarrow> sfs_info pn;
              assert_that (ino sn \<noteq> ino psn \<and> din_type (din psn) = SFS_TYPE_DIR);
              (r, v) \<leftarrow> on_sfs parent (\<lambda>s sp. do {
                  sp \<leftarrow> lock_sin sp;
                  (r, s, sp) \<leftarrow> sfs_dirent_findino_nolock s sp (ino sn);
                  Some (r, s, unlock_sin sp)
                }) v;
              (case r of
                 Inl e \<Rightarrow> do { (_, v) \<leftarrow> inode_ref_dec parent v; Some (Some e, path, resid, v) }
               | Inr entry \<Rightarrow>
                   let name = cstring (ent_name entry); alen = length name + 1 in
                   if alen > resid then do { (_, v) \<leftarrow> inode_ref_dec parent v; Some (Some E_NO_MEM, path, resid, v) }
                   else namefile_loop parent (name @ [SLASH] @ path) (resid - alen) v)
            }
          })
     }"

definition sfs_namefile :: "nat \<Rightarrow> iobuf \<Rightarrow> vstate \<Rightarrow> (err option \<times> iobuf \<times> vstate) option" where
  "sfs_namefile nd iob v =
     (if io_resid iob \<le> 2 \<or> heap_left v = 0 then Some (Some E_NO_MEM, iob, v)
      else do {
        (_, v) \<leftarrow> inode_ref_inc nd v;
        (ret, path, resid, v) \<leftarrow> namefile_loop nd [] (io_resid iob - 2) (v\<lparr>heap_left := heap_left v - 1\<rparr>);
        let v = v\<lparr>heap_left := heap_left v + 1\<rparr>;
        let iob = iob\<lparr>io_mem := overwrite (io_mem iob) (io_base iob + io_resid iob - length path) path\<rparr>;
        if ret \<noteq> None then Some (ret, iob, v)
        else do {
          let alen = io_resid iob - resid - 2;
          let iob = iob\<lparr>io_mem := overwrite (io_mem iob) (io_base iob) ([SLASH] @ path @ [0])\<rparr>;
          iob \<leftarrow> iobuf_skip iob alen;
          Some (None, iob, v)
        }
      })"

subsection \<open>Devices (dev.c, dev_stdin.c, dev_stdout.c)\<close>

definition d_size :: "dev_kind \<Rightarrow> vstate \<Rightarrow> nat \<times> nat" where
  "d_size dk v = (case dk of Dev_disk0 \<Rightarrow> (d_blocks (dev (vsfs v)), d_blocksize (dev (vsfs v))) | _ \<Rightarrow> (0, 1))"

definition dop_open :: "dev_kind \<Rightarrow> u32 \<Rightarrow> err option" where
  "dop_open dk flags =
     (case dk of
        Dev_stdin \<Rightarrow> if flags \<noteq> O_RDONLY then Some E_INVAL else None
      | Dev_stdout \<Rightarrow> if flags \<noteq> O_WRONLY then Some E_INVAL else None
      | Dev_disk0 \<Rightarrow> None)"

definition dev_open :: "dev_kind \<Rightarrow> u32 \<Rightarrow> err option" where
  "dev_open dk flags =
     (if flags AND (O_CREAT OR O_TRUNC OR O_EXCL OR O_APPEND) \<noteq> 0 then Some E_INVAL else dop_open dk flags)"

text \<open>A read of the console that finds too few characters waits: it does not return here.\<close>

definition stdin_io :: "iobuf \<Rightarrow> bool \<Rightarrow> vstate \<Rightarrow> (int \<times> iobuf \<times> vstate) option" where
  "stdin_io iob wr v =
     (if \<not> wr then
        (let (cs, rest, k) = stdin_take (io_resid iob) (kin v) in
         if rest \<noteq> 0 then None
         else Some (int (length cs),
           iob\<lparr>io_mem := overwrite (io_mem iob) (io_base iob) cs, io_resid := io_resid iob - length cs\<rparr>, v\<lparr>kin := k\<rparr>))
      else Some (- err_code E_INVAL, iob, v))"

definition stdout_io :: "iobuf \<Rightarrow> bool \<Rightarrow> vstate \<Rightarrow> (int \<times> iobuf \<times> vstate) option" where
  "stdout_io iob wr v =
     (if wr then Some (0, iob\<lparr>io_resid := 0\<rparr>, v\<lparr>console := foldl cons_putc (console v) (map uint (slice (io_mem iob) (io_base iob) (io_resid iob)))\<rparr>)
      else Some (- err_code E_INVAL, iob, v))"

definition dop_io :: "dev_kind \<Rightarrow> iobuf \<Rightarrow> bool \<Rightarrow> vstate \<Rightarrow> (int \<times> iobuf \<times> vstate) option" where
  "dop_io dk iob wr v =
     (case dk of
        Dev_stdin \<Rightarrow> stdin_io iob wr v
      | Dev_stdout \<Rightarrow> stdout_io iob wr v
      | Dev_disk0 \<Rightarrow> do {
          (ret, iob, d) \<leftarrow> disk0_io (dev (vsfs v)) iob wr;
          Some (ret_int ret, iob, v\<lparr>vsfs := (vsfs v)\<lparr>dev := d\<rparr>\<rparr>)
        })"

definition dev_gettype :: "dev_kind \<Rightarrow> vstate \<Rightarrow> u32" where
  "dev_gettype dk v = (if fst (d_size dk v) > 0 then S_IFBLK else S_IFCHR)"

definition dev_fstat :: "dev_kind \<Rightarrow> vstate \<Rightarrow> stat" where
  "dev_fstat dk v =
     \<lparr>st_mode = dev_gettype dk v, st_nlinks = 1, st_blocks = fst (d_size dk v),
      st_size = fst (d_size dk v) * snd (d_size dk v)\<rparr>"

definition dev_tryseek :: "dev_kind \<Rightarrow> int \<Rightarrow> vstate \<Rightarrow> err option" where
  "dev_tryseek dk pos v =
     (let blocks = fst (d_size dk v); bs = snd (d_size dk v) in
      if blocks > 0 \<and> pos mod int bs = 0 \<and> pos \<ge> 0 \<and> pos < int (blocks * bs) then None else Some E_INVAL)"

definition dev_lookup :: "nat \<Rightarrow> u8 list \<Rightarrow> vstate \<Rightarrow> ((err + nat) \<times> vstate) option" where
  "dev_lookup nd path v =
     (if path \<noteq> [] then Some (Inl E_NOENT, v)
      else do { (_, v) \<leftarrow> inode_ref_inc nd v; Some (Inr nd, v) })"

subsection \<open>Dispatch\<close>

definition vop_open :: "nat \<Rightarrow> u32 \<Rightarrow> vstate \<Rightarrow> err option option" where
  "vop_open nd flags v =
     do {
       n \<leftarrow> vop_enter nd {Dirops, Fileops, Devops} v;
       (case in_ops n of
          Dirops \<Rightarrow> Some (sfs_opendir flags)
        | Fileops \<Rightarrow> Some (sfs_openfile flags)
        | Devops \<Rightarrow> do { dk \<leftarrow> device_info n; Some (dev_open dk flags) })
     }"

definition vop_close :: "nat \<Rightarrow> vstate \<Rightarrow> (err option \<times> vstate) option" where
  "vop_close nd v =
     do {
       n \<leftarrow> vop_enter nd {Dirops, Fileops, Devops} v;
       (case in_ops n of
          Devops \<Rightarrow> do { dk \<leftarrow> device_info n; Some (None, v) }
        | _ \<Rightarrow> sfs_close nd v)
     }"

definition vop_io :: "bool \<Rightarrow> nat \<Rightarrow> iobuf \<Rightarrow> vstate \<Rightarrow> (int \<times> iobuf \<times> vstate) option" where
  "vop_io wr nd iob v =
     do {
       n \<leftarrow> vop_enter nd {Fileops, Devops} v;
       (case in_ops n of
          Devops \<Rightarrow> do { dk \<leftarrow> device_info n; dop_io dk iob wr v }
        | _ \<Rightarrow> do {
            ((ret, iob), v) \<leftarrow> on_sfs nd (\<lambda>s sn. do {
                (ret, iob, s, sn) \<leftarrow> (if wr then sfs_write s sn iob else sfs_read s sn iob);
                Some ((ret, iob), s, sn)
              }) v;
            Some (ret_int ret, iob, v)
          })
     }"

abbreviation vop_read :: "nat \<Rightarrow> iobuf \<Rightarrow> vstate \<Rightarrow> (int \<times> iobuf \<times> vstate) option" where
  "vop_read \<equiv> vop_io False"

abbreviation vop_write :: "nat \<Rightarrow> iobuf \<Rightarrow> vstate \<Rightarrow> (int \<times> iobuf \<times> vstate) option" where
  "vop_write \<equiv> vop_io True"

definition vop_gettype :: "nat \<Rightarrow> vstate \<Rightarrow> u32 option" where
  "vop_gettype nd v =
     do {
       n \<leftarrow> vop_enter nd {Dirops, Fileops, Devops} v;
       (case in_ops n of
          Devops \<Rightarrow> do { dk \<leftarrow> device_info n; Some (dev_gettype dk v) }
        | _ \<Rightarrow> do { sn \<leftarrow> sfs_info n; sfs_gettype sn })
     }"

definition vop_fstat :: "nat \<Rightarrow> vstate \<Rightarrow> stat option" where
  "vop_fstat nd v =
     do {
       n \<leftarrow> vop_enter nd {Dirops, Fileops, Devops} v;
       (case in_ops n of
          Devops \<Rightarrow> do { dk \<leftarrow> device_info n; Some (dev_fstat dk v) }
        | _ \<Rightarrow> do { sn \<leftarrow> sfs_info n; sfs_fstat sn })
     }"

definition vop_tryseek :: "nat \<Rightarrow> int \<Rightarrow> vstate \<Rightarrow> (err option \<times> vstate) option" where
  "vop_tryseek nd pos v =
     do {
       n \<leftarrow> vop_enter nd {Fileops, Devops} v;
       (case in_ops n of
          Devops \<Rightarrow> do { dk \<leftarrow> device_info n; Some (dev_tryseek dk pos v, v) }
        | _ \<Rightarrow> on_sfs nd (\<lambda>s sn. sfs_tryseek s sn pos) v)
     }"

definition vop_getdirentry :: "nat \<Rightarrow> iobuf \<Rightarrow> vstate \<Rightarrow> (err option \<times> iobuf \<times> vstate) option" where
  "vop_getdirentry nd iob v =
     do {
       n \<leftarrow> vop_enter nd {Dirops} v;
       ((ret, iob), v) \<leftarrow> on_sfs nd (\<lambda>s sn. do {
           (ret, iob, s, sn) \<leftarrow> sfs_getdirentry (heap_left v > 0) s sn iob;
           Some ((ret, iob), s, sn)
         }) v;
       Some (ret, iob, v)
     }"

definition vop_namefile :: "nat \<Rightarrow> iobuf \<Rightarrow> vstate \<Rightarrow> (err option \<times> iobuf \<times> vstate) option" where
  "vop_namefile nd iob v = do { n \<leftarrow> vop_enter nd {Dirops} v; sfs_namefile nd iob v }"

definition vop_lookup :: "nat \<Rightarrow> u8 list \<Rightarrow> vstate \<Rightarrow> ((err + nat) \<times> vstate) option" where
  "vop_lookup nd path v =
     do {
       n \<leftarrow> vop_enter nd {Dirops, Devops} v;
       (case in_ops n of Devops \<Rightarrow> dev_lookup nd path v | _ \<Rightarrow> sfs_lookup nd path v)
     }"

text \<open>No table has \<open>vop_create\<close>.\<close>

definition vop_create :: "nat \<Rightarrow> u8 list \<Rightarrow> bool \<Rightarrow> vstate \<Rightarrow> ((err + nat) \<times> vstate) option" where
  "vop_create nd name excl v = do { n \<leftarrow> vop_enter nd {} v; None }"

definition inode_open_dec :: "nat \<Rightarrow> vstate \<Rightarrow> (int \<times> vstate) option" where
  "inode_open_dec nd v =
     do {
       n \<leftarrow> inodes v nd;
       assert_that (open_count n > 0);
       let v = upd_inode nd (\<lambda>n. n\<lparr>open_count := open_count n - 1\<rparr>) v;
       if open_count n - 1 = 0 then do {
         (ret, v) \<leftarrow> vop_close nd v;
         Some (open_count n - 1, v)
       }
       else Some (open_count n - 1, v)
     }"

end
