(* ===== verification/InodeCache.thy ===== *)
theory InodeCache
  imports Vops
begin

text \<open>
  The invariant of the inodes in memory: each has the function table of its type, the cache (the hash lists and
  the inode list of the file system) holds exactly the inodes of the Simple FS, and no two of them stand for the
  same block. Every operation on inodes keeps it, together with the open counts and the descriptor tables.
\<close>

lemma bind_SomeE: "m \<bind> f = Some r \<Longrightarrow> (\<And>x. m = Some x \<Longrightarrow> f x = Some r \<Longrightarrow> P) \<Longrightarrow> P"
  by (auto simp: Option.bind_eq_Some_conv)

lemmas run_splits = option.splits sum.splits prod.splits if_splits

subsection \<open>What the Simple FS leaves alone\<close>

definition lists :: "sfs_fs \<Rightarrow> isnode lheap \<times> hsnode lheap" where
  "lists s = (ilist s, hlist s)"

definition ident :: "sfs_inode \<Rightarrow> u32 \<times> u16 \<times> int" where
  "ident sn = (ino sn, din_type (din sn), reclaim_count sn)"

lemma lists_update [simp]:
  "lists (s\<lparr>dev := d\<rparr>) = lists s" "lists (s\<lparr>io_sem := n\<rparr>) = lists s" "lists (s\<lparr>fs_sem := n\<rparr>) = lists s"
  "lists (s\<lparr>freemap := fm\<rparr>) = lists s" "lists (s\<lparr>super := sb\<rparr>) = lists s" "lists (s\<lparr>super_dirty := c\<rparr>) = lists s"
  by (simp_all add: lists_def)

lemma ident_update [simp]:
  "ident (sn\<lparr>dirty := c\<rparr>) = ident sn" "ident (sn\<lparr>sin_sem := n\<rparr>) = ident sn"
  "ident (sn\<lparr>din := (din sn)\<lparr>din_size := x\<rparr>\<rparr>) = ident sn" "ident (sn\<lparr>din := (din sn)\<lparr>din_blocks := x\<rparr>\<rparr>) = ident sn"
  "ident (sn\<lparr>din := (din sn)\<lparr>din_direct := xs\<rparr>\<rparr>) = ident sn"
  "ident (sn\<lparr>din := (din sn)\<lparr>din_indirect := x\<rparr>\<rparr>) = ident sn"
  by (simp_all add: ident_def)

lemma unlock_lists [simp]: "lists (unlock_sfs_io s) = lists s" "lists (unlock_sfs_fs s) = lists s"
  by (simp_all add: unlock_sfs_io_def unlock_sfs_fs_def)

lemma unlock_ident [simp]: "ident (unlock_sin sn) = ident sn"
  by (simp add: unlock_sin_def)

lemma lock_lists: "lock_sfs_io s = Some s' \<Longrightarrow> lists s' = lists s" "lock_sfs_fs s = Some s' \<Longrightarrow> lists s' = lists s"
  by (auto simp: lock_sfs_io_def lock_sfs_fs_def elim!: bind_SomeE)

lemma lock_ident: "lock_sin sn = Some sn' \<Longrightarrow> ident sn' = ident sn"
  by (auto simp: lock_sin_def elim!: bind_SomeE)

lemma rwblock_nolock_lists: "sfs_rwblock_nolock s buf b wr c = Some (r, bs, s') \<Longrightarrow> lists s' = lists s"
  by (auto simp: sfs_rwblock_nolock_def Let_def elim!: bind_SomeE)

lemma rwblock_loop_lists: "sfs_rwblock_loop s buf p b n wr = Some (r, bs, s') \<Longrightarrow> lists s' = lists s"
  by (induction n arbitrary: s buf p b wr r bs s')
    (auto simp: Let_def elim!: bind_SomeE dest: rwblock_nolock_lists split: if_splits)

lemma rwblock_lists: "sfs_rwblock s buf p b n wr = Some (r, bs, s') \<Longrightarrow> lists s' = lists s"
  by (auto simp: sfs_rwblock_def Let_def elim!: bind_SomeE dest!: rwblock_loop_lists lock_lists)

lemma sfs_block_op_lists: "sfs_block_op wr s buf p b n = Some (r, bs, s') \<Longrightarrow> lists s' = lists s"
  by (auto simp: sfs_block_op_def sfs_rblock_def sfs_wblock_def split: if_splits elim!: bind_SomeE dest: rwblock_lists)

lemma sfs_rbuf_lists: "sfs_rbuf s buf p len b off = Some (r, bs, s') \<Longrightarrow> lists s' = lists s"
  by (auto simp: sfs_rbuf_def Let_def elim!: bind_SomeE dest!: rwblock_nolock_lists lock_lists)

lemma sfs_wbuf_lists: "sfs_wbuf s buf p len b off = Some (r, bs, s') \<Longrightarrow> lists s' = lists s"
  by (auto simp: sfs_wbuf_def Let_def split: if_splits elim!: bind_SomeE dest!: rwblock_nolock_lists lock_lists)

lemma sfs_buf_op_lists: "sfs_buf_op wr s buf p len b off = Some (r, bs, s') \<Longrightarrow> lists s' = lists s"
  by (auto simp: sfs_buf_op_def split: if_splits elim!: bind_SomeE dest: sfs_rbuf_lists sfs_wbuf_lists)

lemma clear_block_loop_lists: "sfs_clear_block_loop s b n = Some (r, s') \<Longrightarrow> lists s' = lists s"
  by (induction n arbitrary: s b r s')
    (auto simp: Let_def elim!: bind_SomeE dest: rwblock_nolock_lists split: if_splits)

lemma clear_block_lists: "sfs_clear_block s b n = Some (r, s') \<Longrightarrow> lists s' = lists s"
  by (auto simp: sfs_clear_block_def Let_def elim!: bind_SomeE dest!: clear_block_loop_lists lock_lists)

lemma block_free_lists: "sfs_block_free s i = Some s' \<Longrightarrow> lists s' = lists s"
  by (auto simp: sfs_block_free_def Let_def elim!: bind_SomeE)

lemma block_alloc_lists: "sfs_block_alloc s = Some (r, s') \<Longrightarrow> lists s' = lists s"
  by (auto simp: sfs_block_alloc_def Let_def split: run_splits elim!: bind_SomeE dest!: clear_block_lists)

lemmas block_lists = sfs_rbuf_lists sfs_wbuf_lists block_free_lists block_alloc_lists

lemma bmap_get_sub_lists: "sfs_bmap_get_sub_nolock s e i c = Some (r, s') \<Longrightarrow> lists s' = lists s"
  by (auto simp: sfs_bmap_get_sub_nolock_def Let_def split: run_splits elim!: bind_SomeE dest!: block_lists)

lemma bmap_get_ident:
  "sfs_bmap_get_nolock s sn i c = Some (r, s', sn') \<Longrightarrow> lists s' = lists s \<and> ident sn' = ident sn"
  by (auto simp: sfs_bmap_get_nolock_def bmap_out_def Let_def split: run_splits
      elim!: bind_SomeE dest!: block_lists bmap_get_sub_lists)

lemma bmap_load_ident:
  "sfs_bmap_load_nolock s sn i = Some (r, s', sn') \<Longrightarrow> lists s' = lists s \<and> ident sn' = ident sn"
  by (auto simp: sfs_bmap_load_nolock_def Let_def split: run_splits elim!: bind_SomeE dest!: bmap_get_ident)

lemma bmap_truncate_ident:
  "sfs_bmap_truncate_nolock s sn = Some (r, s', sn') \<Longrightarrow> lists s' = lists s \<and> ident sn' = ident sn"
  by (auto simp: ident_def sfs_bmap_truncate_nolock_def sfs_bmap_free_nolock_def sfs_bmap_free_sub_nolock_def Let_def
      split: run_splits elim!: bind_SomeE dest!: block_lists)

lemma trunc_grow_ident: "trunc_grow k s sn n = Some (r, s', sn') \<Longrightarrow> lists s' = lists s \<and> ident sn' = ident sn"
  by (induction k arbitrary: s sn n r s' sn')
    (auto simp: Let_def split: run_splits elim!: bind_SomeE dest!: bmap_load_ident)

lemma trunc_shrink_ident: "trunc_shrink k s sn = Some (r, s', sn') \<Longrightarrow> lists s' = lists s \<and> ident sn' = ident sn"
  by (induction k arbitrary: s sn r s' sn')
    (auto simp: Let_def split: run_splits elim!: bind_SomeE dest!: bmap_truncate_ident)

lemma truncfile_ident:
  "sfs_truncfile s sn len = Some (r, s', sn') \<Longrightarrow> lists s' = lists s \<and> ident sn' = ident sn"
  by (auto simp: sfs_truncfile_def Let_def split: run_splits
      elim!: bind_SomeE dest!: trunc_grow_ident trunc_shrink_ident lock_ident)

lemma tryseek_ident:
  "sfs_tryseek s sn pos = Some (r, s', sn') \<Longrightarrow> lists s' = lists s \<and> ident sn' = ident sn"
  by (auto simp: sfs_tryseek_def split: if_splits elim!: bind_SomeE dest!: truncfile_ident)

lemma fsync_ident:
  "sfs_fsync s sn = Some (r, s', sn') \<Longrightarrow> lists s' = lists s \<and> ident sn' = ident sn"
  by (auto simp: sfs_fsync_def Let_def split: run_splits elim!: bind_SomeE dest!: block_lists lock_ident)

lemma io_part_ident:
  "io_part s sn buf p sz b off wr = Some (r, bs, s', sn') \<Longrightarrow> lists s' = lists s \<and> ident sn' = ident sn"
  by (auto simp: io_part_def Let_def split: run_splits elim!: bind_SomeE dest!: bmap_load_ident sfs_buf_op_lists)

lemma io_blocks_ident:
  "io_blocks n s sn buf off a b wr = Some (r, bs, s', sn', x) \<Longrightarrow> lists s' = lists s \<and> ident sn' = ident sn"
  by (induction n arbitrary: s sn buf off a b wr r bs s' sn' x)
    (auto simp: Let_def split: run_splits elim!: bind_SomeE dest!: bmap_load_ident sfs_block_op_lists)

lemma io_out_ident:
  "io_out ret buf s sn off a wr = (r, x, bs, s', sn') \<Longrightarrow> s' = s \<and> ident sn' = ident sn"
  by (auto simp: io_out_def split: if_splits)

lemma io_last_ident:
  "io_last s sn buf off e a b wr = Some (r, x, bs, s', sn') \<Longrightarrow> lists s' = lists s \<and> ident sn' = ident sn"
  by (auto simp: io_last_def Let_def split: if_splits elim!: bind_SomeE dest!: io_part_ident io_out_ident)

lemma io_rest_ident:
  "io_rest n s sn buf off e a b wr = Some (r, x, bs, s', sn') \<Longrightarrow> lists s' = lists s \<and> ident sn' = ident sn"
  by (auto simp: io_rest_def Let_def split: if_splits elim!: bind_SomeE dest!: io_blocks_ident io_last_ident io_out_ident)

lemma io_first_ident:
  "io_first n s sn buf off e b wr = Some (r, x, bs, s', sn') \<Longrightarrow> lists s' = lists s \<and> ident sn' = ident sn"
  by (auto simp: io_first_def Let_def split: if_splits elim!: bind_SomeE dest!: io_part_ident io_rest_ident io_out_ident)

lemma sfs_io_ident:
  "sfs_io s sn iob wr = Some (r, iob', s', sn') \<Longrightarrow> lists s' = lists s \<and> ident sn' = ident sn"
  by (auto simp: sfs_io_def sfs_io_nolock_def Let_def split: if_splits elim!: bind_SomeE dest!: io_first_ident lock_ident)

lemma dirent_read_ident:
  "sfs_dirent_read_nolock s sn k = Some (r, s', sn') \<Longrightarrow> lists s' = lists s \<and> ident sn' = ident sn"
  by (auto simp: sfs_dirent_read_nolock_def Let_def split: run_splits elim!: bind_SomeE dest!: bmap_load_ident block_lists)

lemma dirent_search_ident:
  "dirent_search n s sn name i h = Some (r, h', s', sn') \<Longrightarrow> lists s' = lists s \<and> ident sn' = ident sn"
  by (induction n arbitrary: s sn name i h r h' s' sn')
    (auto simp: Let_def split: run_splits elim!: bind_SomeE dest!: dirent_read_ident)

lemma dirent_search_nolock_ident:
  "sfs_dirent_search_nolock m s sn name = Some (r, h', s', sn') \<Longrightarrow> lists s' = lists s \<and> ident sn' = ident sn"
  by (auto simp: sfs_dirent_search_nolock_def Let_def split: run_splits elim!: bind_SomeE dest!: dirent_search_ident)

lemma dirent_findino_ident:
  "dirent_findino n s sn i0 i = Some (r, s', sn') \<Longrightarrow> lists s' = lists s \<and> ident sn' = ident sn"
  by (induction n arbitrary: s sn i0 i r s' sn')
    (auto simp: Let_def split: run_splits elim!: bind_SomeE dest!: dirent_read_ident)

lemma getdirentry_sub_ident:
  "getdirentry_sub n s sn slot i = Some (r, s', sn') \<Longrightarrow> lists s' = lists s \<and> ident sn' = ident sn"
  by (induction n arbitrary: s sn slot i r s' sn')
    (auto simp: Let_def split: run_splits elim!: bind_SomeE dest!: dirent_read_ident)

lemma getdirentry_ident:
  "sfs_getdirentry m s sn iob = Some (r, iob', s', sn') \<Longrightarrow> lists s' = lists s \<and> ident sn' = ident sn"
  by (auto simp: sfs_getdirentry_def sfs_getdirentry_sub_nolock_def Let_def split: run_splits
      elim!: bind_SomeE dest!: getdirentry_sub_ident lock_ident)

subsection \<open>The invariant\<close>

definition node_typed :: "inode \<Rightarrow> bool" where
  "node_typed n \<longleftrightarrow>
     (case in_info n of
        Device_info d \<Rightarrow> in_ops n = Devops \<and> \<not> in_fs n
      | Sfs_info sn \<Rightarrow> in_fs n \<and> sfs_get_ops (din_type (din sn)) = Some (in_ops n))"

definition ino_of :: "inode \<Rightarrow> u32 option" where
  "ino_of n = (case in_info n of Device_info d \<Rightarrow> None | Sfs_info sn \<Rightarrow> Some (ino sn))"

text \<open>The inode numbers of the nodes in memory; the cache over them.\<close>

definition inos :: "vstate \<Rightarrow> nat \<Rightarrow> u32 option" where
  "inos v nd = inodes v nd \<bind> ino_of"

definition cache_ok :: "isnode lheap \<times> hsnode lheap \<Rightarrow> (nat \<Rightarrow> u32 option) \<Rightarrow> bool" where
  "cache_ok L I \<longleftrightarrow>
     (\<exists>ns. dlist (fst L) InodeList (map InodeLink ns) \<and> set ns = dom I)
     \<and> (\<forall>b. \<exists>ns. dlist (snd L) (HashList b) (map HashLink ns) \<and> set ns = {nd \<in> dom I. sin_hashfn (the (I nd)) = b})
     \<and> inj_on I (dom I)"

definition pool_ok :: "vstate \<Rightarrow> bool" where
  "pool_ok v \<longleftrightarrow> distinct (node_pool v) \<and> (\<forall>nd \<in> set (node_pool v). inodes v nd = None)"

definition well :: "vstate \<Rightarrow> bool" where
  "well v \<longleftrightarrow> pool_ok v \<and> (\<forall>nd n. inodes v nd = Some n \<longrightarrow> node_typed n) \<and> cache_ok (lists (vsfs v)) (inos v)"

text \<open>What operations on inodes leave alone: the open counts and the tables of open files.\<close>

definition opens :: "vstate \<Rightarrow> nat \<Rightarrow> int" where
  "opens v nd = (case inodes v nd of None \<Rightarrow> 0 | Some n \<Rightarrow> open_count n)"

definition view :: "vstate \<Rightarrow> (nat \<Rightarrow> int) \<times> (nat \<Rightarrow> files_struct option) \<times> nat" where
  "view v = (opens v, fstructs v, cur_files v)"

lemma well_update [simp]:
  "lists s = lists (vsfs v) \<Longrightarrow> well (v\<lparr>vsfs := s\<rparr>) = well v" "well (v\<lparr>heap_left := h\<rparr>) = well v"
  "well (v\<lparr>kin := k\<rparr>) = well v" "well (v\<lparr>console := c\<rparr>) = well v" "well (v\<lparr>vdev_list := l\<rparr>) = well v"
  "well (v\<lparr>vdev_list_sem := m\<rparr>) = well v" "well (v\<lparr>bootfs_node := nd\<rparr>) = well v"
  "well (v\<lparr>fstructs := t\<rparr>) = well v"
  by (simp_all add: well_def pool_ok_def inos_def [abs_def])

lemma view_update [simp]:
  "view (v\<lparr>vsfs := s\<rparr>) = view v" "view (v\<lparr>heap_left := h\<rparr>) = view v"
  "view (v\<lparr>kin := k\<rparr>) = view v" "view (v\<lparr>console := c\<rparr>) = view v" "view (v\<lparr>vdev_list := l\<rparr>) = view v"
  "view (v\<lparr>vdev_list_sem := m\<rparr>) = view v" "view (v\<lparr>bootfs_node := nd\<rparr>) = view v"
  by (simp_all add: view_def opens_def [abs_def])

lemma unlock_fs_keeps [simp]: "well (unlock_fs v) = well v" "view (unlock_fs v) = view v"
  by (simp_all add: unlock_fs_def)

lemma upd_inode_sel [simp]:
  "vsfs (upd_inode nd f v) = vsfs v" "heap_left (upd_inode nd f v) = heap_left v"
  "fstructs (upd_inode nd f v) = fstructs v" "cur_files (upd_inode nd f v) = cur_files v"
  "node_pool (upd_inode nd f v) = node_pool v" "kin (upd_inode nd f v) = kin v"
  by (simp_all add: upd_inode_def)

lemma inodes_upd: "inodes (upd_inode nd f v) k = (if k = nd then map_option f (inodes v nd) else inodes v k)"
  by (simp add: upd_inode_def)

lemma well_upd:
  assumes "well v" "inodes v nd = Some n" "node_typed (f n)" "ino_of (f n) = ino_of n"
  shows "well (upd_inode nd f v)"
proof -
  have "inos (upd_inode nd f v) = inos v" using assms(2,4) by (simp add: fun_eq_iff inos_def inodes_upd)
  then show ?thesis using assms by (auto simp: well_def pool_ok_def inodes_upd split: if_splits)
qed

lemma view_upd:
  assumes "inodes v nd = Some n" "open_count (f n) = open_count n"
  shows "view (upd_inode nd f v) = view v"
  using assms by (simp add: view_def opens_def fun_eq_iff inodes_upd)

lemma wellD: "well v \<Longrightarrow> inodes v nd = Some n \<Longrightarrow> node_typed n"
  by (simp add: well_def)

text \<open>An update of the Simple FS part of a node that keeps number and type.\<close>

lemma sfs_upd_keeps:
  assumes "well v" "inodes v nd = Some n" "sfs_info n = Some sn" "ino sn' = ino sn" "din_type (din sn') = din_type (din sn)"
  shows "well (upd_inode nd (\<lambda>n. n\<lparr>in_info := Sfs_info sn'\<rparr>) v)"
    "view (upd_inode nd (\<lambda>n. n\<lparr>in_info := Sfs_info sn'\<rparr>) v) = view v"
proof -
  have i: "in_info n = Sfs_info sn" using assms(3) by (simp add: sfs_info_def split: node_info.splits)
  show "well (upd_inode nd (\<lambda>n. n\<lparr>in_info := Sfs_info sn'\<rparr>) v)"
    using wellD [OF assms(1,2)] assms(4,5) i
    by (intro well_upd [OF assms(1,2)]) (simp_all add: node_typed_def ino_of_def)
  show "view (upd_inode nd (\<lambda>n. n\<lparr>in_info := Sfs_info sn'\<rparr>) v) = view v"
    by (rule view_upd [OF assms(2)]) simp
qed

lemma on_sfs_keeps:
  assumes "on_sfs nd f v = Some (r, v')" "well v"
    and "\<And>s sn r s' sn'. f s sn = Some (r, s', sn') \<Longrightarrow> lists s' = lists s \<and> ident sn' = ident sn"
  shows "well v' \<and> view v' = view v"
proof -
  obtain n sn s sn' where n: "inodes v nd = Some n" "sfs_info n = Some sn" "f (vsfs v) sn = Some (r, s, sn')"
    and v': "v' = upd_inode nd (\<lambda>n. n\<lparr>in_info := Sfs_info sn'\<rparr>) (v\<lparr>vsfs := s\<rparr>)"
    using assms(1) by (auto simp: on_sfs_def elim!: bind_SomeE)
  have l: "lists s = lists (vsfs v)" "ino sn' = ino sn" "din_type (din sn') = din_type (din sn)"
    using assms(3) [OF n(3)] by (auto simp: ident_def)
  have "well (v\<lparr>vsfs := s\<rparr>)" "inodes (v\<lparr>vsfs := s\<rparr>) nd = Some n" using assms(2) n l by simp_all
  from sfs_upd_keeps [OF this n(2) l(2,3)] show ?thesis by (simp add: v')
qed

subsection \<open>The lists of the cache\<close>

lemma cache_disjoint:
  assumes "set xs = {nd \<in> D. f nd = a}" "set ys = {nd \<in> D. f nd = b}" "a \<noteq> b"
  shows "set (HashList a # map HashLink xs) \<inter> set (HashList b # map HashLink ys) = {}"
  using assms by auto

lemma cache_add:
  assumes ok: "cache_ok L I" and new: "nd \<notin> dom I" "i \<notin> ran I"
  shows "cache_ok (list_add (fst L) InodeList (InodeLink nd), list_add (snd L) (HashList (sin_hashfn i)) (HashLink nd))
    (I(nd \<mapsto> i))"
proof -
  let ?a = "sin_hashfn i" and ?I = "I(nd \<mapsto> i)"
  obtain ns where ns: "dlist (fst L) InodeList (map InodeLink ns)" "set ns = dom I" using ok by (auto simp: cache_ok_def)
  have "dlist (list_add (fst L) InodeList (InodeLink nd)) InodeList (map InodeLink (nd # ns))"
    using dlist_add_head [OF ns(1), of "InodeLink nd"] ns(2) new(1) by auto
  moreover have "set (nd # ns) = dom ?I" using ns(2) by simp
  moreover have "\<exists>qs. dlist (list_add (snd L) (HashList ?a) (HashLink nd)) (HashList b) (map HashLink qs)
     \<and> set qs = {k \<in> dom ?I. sin_hashfn (the (?I k)) = b}" for b
  proof -
    obtain xs where xs: "dlist (snd L) (HashList ?a) (map HashLink xs)"
      "set xs = {k \<in> dom I. sin_hashfn (the (I k)) = ?a}" using ok unfolding cache_ok_def by blast
    show ?thesis
    proof (cases "b = ?a")
      case True
      have "dlist (list_add (snd L) (HashList ?a) (HashLink nd)) (HashList ?a) (map HashLink (nd # xs))"
        using dlist_add_head [OF xs(1), of "HashLink nd"] xs(2) new(1) by auto
      moreover have "set (nd # xs) = {k \<in> dom ?I. sin_hashfn (the (?I k)) = ?a}" using xs(2) new(1) by auto
      ultimately show ?thesis using True by blast
    next
      case False
      obtain ys where ys: "dlist (snd L) (HashList b) (map HashLink ys)"
        "set ys = {k \<in> dom I. sin_hashfn (the (I k)) = b}" using ok unfolding cache_ok_def by blast
      have "HashLink nd \<notin> set (HashList b # map HashLink ys)" using ys(2) new(1) by auto
      from dlist_other_add [OF xs(1) ys(1) cache_disjoint [OF xs(2) ys(2)] this] False
      have "dlist (list_add (snd L) (HashList ?a) (HashLink nd)) (HashList b) (map HashLink ys)" by simp
      moreover have "set ys = {k \<in> dom ?I. sin_hashfn (the (?I k)) = b}" using ys(2) new(1) False by auto
      ultimately show ?thesis by blast
    qed
  qed
  moreover have "inj_on ?I (dom ?I)"
    using ok new unfolding cache_ok_def inj_on_def by (auto simp: ran_def)
  ultimately show ?thesis unfolding cache_ok_def by (metis fst_conv snd_conv)
qed

lemma cache_del:
  assumes ok: "cache_ok L I" and nd: "nd \<in> dom I"
  shows "cache_ok (list_del (fst L) (InodeLink nd), list_del (snd L) (HashLink nd)) (I(nd := None))"
proof -
  let ?a = "sin_hashfn (the (I nd))" and ?I = "I(nd := None)"
  obtain ns where ns: "dlist (fst L) InodeList (map InodeLink ns)" "set ns = dom I" using ok by (auto simp: cache_ok_def)
  then obtain us vs where uv: "ns = us @ nd # vs" using nd by (metis split_list)
  have d: "dlist (fst L) InodeList (map InodeLink us @ InodeLink nd # map InodeLink vs)" using ns(1) uv by simp
  have "nd \<notin> set (us @ vs)" using dlist_distinct [OF d] by auto
  then have "set (us @ vs) = dom ?I" using ns(2) uv by auto
  moreover have "dlist (list_del (fst L) (InodeLink nd)) InodeList (map InodeLink (us @ vs))"
    using dlist_del [OF d] by simp
  moreover have "\<exists>qs. dlist (list_del (snd L) (HashLink nd)) (HashList b) (map HashLink qs)
     \<and> set qs = {k \<in> dom ?I. sin_hashfn (the (?I k)) = b}" for b
  proof -
    obtain xs where xs: "dlist (snd L) (HashList ?a) (map HashLink xs)"
      "set xs = {k \<in> dom I. sin_hashfn (the (I k)) = ?a}" using ok unfolding cache_ok_def by blast
    then obtain ps qs where pq: "xs = ps @ nd # qs" using nd by (metis (mono_tags, lifting) mem_Collect_eq split_list)
    have e: "dlist (snd L) (HashList ?a) (map HashLink ps @ HashLink nd # map HashLink qs)" using xs(1) pq by simp
    show ?thesis
    proof (cases "b = ?a")
      case True
      have "dlist (list_del (snd L) (HashLink nd)) (HashList ?a) (map HashLink (ps @ qs))"
        using dlist_del [OF e] by simp
      moreover have "nd \<notin> set (ps @ qs)" using dlist_distinct [OF e] by auto
      then have "set (ps @ qs) = {k \<in> dom ?I. sin_hashfn (the (?I k)) = ?a}" using xs(2) pq by auto
      ultimately show ?thesis using True by blast
    next
      case False
      obtain ys where ys: "dlist (snd L) (HashList b) (map HashLink ys)"
        "set ys = {k \<in> dom I. sin_hashfn (the (I k)) = b}" using ok unfolding cache_ok_def by blast
      have "set (HashList ?a # map HashLink ps @ HashLink nd # map HashLink qs)
          \<inter> set (HashList b # map HashLink ys) = {}"
        using cache_disjoint [OF xs(2) ys(2)] False pq by auto
      from dlist_other_del [OF e ys(1) this]
      have "dlist (list_del (snd L) (HashLink nd)) (HashList b) (map HashLink ys)" .
      moreover have "set ys = {k \<in> dom ?I. sin_hashfn (the (?I k)) = b}" using ys(2) False by auto
      ultimately show ?thesis by blast
    qed
  qed
  moreover have "inj_on ?I (dom ?I)"
    using ok unfolding cache_ok_def inj_on_def by auto
  ultimately show ?thesis unfolding cache_ok_def by (metis fst_conv snd_conv)
qed

subsection \<open>Looking up an inode\<close>

text \<open>What \<open>lookup_sfs_nolock\<close> does to the node it finds.\<close>

definition taken :: "inode \<Rightarrow> inode" where
  "taken n = n\<lparr>ref_count := ref_count n + 1,
     in_info := (case in_info n of
        Sfs_info sn \<Rightarrow> Sfs_info (if ref_count n = 0 then sn\<lparr>reclaim_count := reclaim_count sn + 1\<rparr> else sn)
      | Device_info d \<Rightarrow> Device_info d)\<rparr>"

lemma inos_SomeD:
  assumes "inos v nd = Some i"
  obtains n sn where "inodes v nd = Some n" "in_info n = Sfs_info sn" "ino sn = i" "sfs_info n = Some sn"
  using assms by (auto simp: inos_def ino_of_def sfs_info_def split: node_info.splits elim!: bind_SomeE)

lemma lookup_loop_spec:
  assumes "chain (hlist (vsfs v)) le (map HashLink ns) (HashList b)" "set ns \<subseteq> dom (inos v)"
  shows "lookup_loop v i le =
    (case find (\<lambda>nd. inos v nd = Some i) ns of
       None \<Rightarrow> Some (None, v) | Some nd \<Rightarrow> Some (Some nd, upd_inode nd taken v))"
  using assms
proof (induction ns arbitrary: le)
  case Nil
  then show ?case by (subst lookup_loop.simps) (simp add: list_next_def)
next
  case (Cons nd ns)
  then obtain j where "inos v nd = Some j" by auto
  then obtain n sn where n: "inodes v nd = Some n" "in_info n = Sfs_info sn" "ino sn = j" "sfs_info n = Some sn"
    and i: "inos v nd = Some (ino sn)" by (metis inos_SomeD)
  have t: "taken n = (if ref_count n = 0
      then n\<lparr>ref_count := 1, in_info := Sfs_info (sn\<lparr>reclaim_count := reclaim_count sn + 1\<rparr>)\<rparr>
      else n\<lparr>ref_count := ref_count n + 1\<rparr>)"
    using n(2) by (cases n) (simp add: taken_def)
  have nx: "list_next (hlist (vsfs v)) le = HashLink nd" using Cons.prems(1) by (simp add: list_next_def)
  show ?case
  proof (cases "ino sn = i")
    case True
    have "upd_inode nd (\<lambda>n. n\<lparr>in_info := Sfs_info (sn\<lparr>reclaim_count := reclaim_count sn + 1\<rparr>)\<rparr>)
        (upd_inode nd (\<lambda>n. n\<lparr>ref_count := ref_count n + 1\<rparr>) v) = upd_inode nd taken v" if "ref_count n = 0"
      using that t by (simp add: upd_inode_def n)
    moreover have "upd_inode nd (\<lambda>n. n\<lparr>ref_count := ref_count n + 1\<rparr>) v = upd_inode nd taken v" if "ref_count n \<noteq> 0"
      using that t n by (simp add: upd_inode_def)
    ultimately show ?thesis
      using nx True i n by (subst lookup_loop.simps) (simp add: inode_ref_inc_def)
  next
    case False
    then show ?thesis using nx i n Cons by (subst lookup_loop.simps) simp
  qed
qed

lemma inos_unique: "well v \<Longrightarrow> inos v nd = Some i \<Longrightarrow> inos v nd' = Some i \<Longrightarrow> nd' = nd"
  unfolding well_def cache_ok_def inj_on_def by (metis domI)

lemma lookup_list:
  assumes "well v"
  obtains ns where "set ns = {nd \<in> dom (inos v). sin_hashfn (the (inos v nd)) = sin_hashfn i}"
    "lookup_sfs_nolock v i = (case find (\<lambda>nd. inos v nd = Some i) ns of
       None \<Rightarrow> Some (None, v) | Some nd \<Rightarrow> Some (Some nd, upd_inode nd taken v))"
proof -
  obtain ns where ns: "dlist (hlist (vsfs v)) (HashList (sin_hashfn i)) (map HashLink ns)"
    "set ns = {nd \<in> dom (inos v). sin_hashfn (the (inos v nd)) = sin_hashfn i}"
    using assms unfolding well_def cache_ok_def lists_def by fastforce
  have "lookup_sfs_nolock v i = (case find (\<lambda>nd. inos v nd = Some i) ns of
       None \<Rightarrow> Some (None, v) | Some nd \<Rightarrow> Some (Some nd, upd_inode nd taken v))"
    unfolding lookup_sfs_nolock_def sfs_hash_list_def
  proof (rule lookup_loop_spec)
    show "chain (hlist (vsfs v)) (HashList (sin_hashfn i)) (map HashLink ns) (HashList (sin_hashfn i))"
      using ns(1) by (simp add: dlist_def)
    show "set ns \<subseteq> dom (inos v)" using ns(2) by blast
  qed
  then show ?thesis using that ns(2) by blast
qed

lemma lookup_cached:
  assumes "well v" "inos v nd = Some i"
  shows "lookup_sfs_nolock v i = Some (Some nd, upd_inode nd taken v)"
proof -
  obtain ns where ns: "set ns = {nd \<in> dom (inos v). sin_hashfn (the (inos v nd)) = sin_hashfn i}"
    "lookup_sfs_nolock v i = (case find (\<lambda>nd. inos v nd = Some i) ns of
       None \<Rightarrow> Some (None, v) | Some nd \<Rightarrow> Some (Some nd, upd_inode nd taken v))"
    by (rule lookup_list [OF assms(1)])
  show ?thesis
  proof (cases "find (\<lambda>nd. inos v nd = Some i) ns")
    case None
    moreover have "nd \<in> set ns" using ns(1) assms(2) by (simp add: domI)
    ultimately show ?thesis using assms(2) by (auto simp: find_None_iff)
  next
    case (Some nd')
    then have "inos v nd' = Some i" by (auto simp: find_Some_iff)
    then have "nd' = nd" using inos_unique [OF assms] by simp
    then show ?thesis using ns(2) Some by simp
  qed
qed

lemma lookup_absent:
  assumes "well v" "i \<notin> ran (inos v)"
  shows "lookup_sfs_nolock v i = Some (None, v)"
proof -
  obtain ns where ns: "lookup_sfs_nolock v i = (case find (\<lambda>nd. inos v nd = Some i) ns of
       None \<Rightarrow> Some (None, v) | Some nd \<Rightarrow> Some (Some nd, upd_inode nd taken v))"
    by (rule lookup_list [OF assms(1)])
  have "find (\<lambda>nd. inos v nd = Some i) ns = None" using assms(2) by (auto simp: find_None_iff ran_def)
  then show ?thesis using ns by simp
qed

lemma taken_keeps:
  assumes "well v" "inodes v nd = Some n"
  shows "well (upd_inode nd taken v)" "view (upd_inode nd taken v) = view v"
  using wellD [OF assms]
  by (auto intro!: well_upd [OF assms] view_upd [OF assms(2)]
      simp: taken_def node_typed_def ino_of_def split: node_info.splits)

subsection \<open>Loading an inode\<close>

lemma lock_fs_lists: "lock_sfs_fs s = Some s' \<Longrightarrow> lists s' = lists s"
  by (rule lock_lists)

lemma inos_upd:
  "inodes v nd = Some n \<Longrightarrow> ino_of (f n) = ino_of n \<Longrightarrow> inos (upd_inode nd f v) = inos v"
  by (simp add: fun_eq_iff inos_def inodes_upd)

lemma lookup_keeps:
  assumes "lookup_sfs_nolock v i = Some (r, v')" "well v"
  shows "well v' \<and> view v' = view v \<and> (r = None \<longrightarrow> v' = v \<and> i \<notin> ran (inos v))
    \<and> (\<forall>nd. r = Some nd \<longrightarrow> inos v nd = Some i)"
proof (cases "i \<in> ran (inos v)")
  case True
  then obtain nd where nd: "inos v nd = Some i" by (auto simp: ran_def)
  then obtain n where "inodes v nd = Some n" by (rule inos_SomeD)
  with assms nd show ?thesis using lookup_cached [OF assms(2) nd] taken_keeps [OF assms(2)] by auto
next
  case False
  then show ?thesis using lookup_absent [OF assms(2) False] assms by auto
qed

lemma inos_unlock [simp]: "inos (unlock_fs v) = inos v"
  by (simp add: inos_def fun_eq_iff unlock_fs_def)

text \<open>A new node in the cache.\<close>

lemma new_node_keeps:
  assumes w: "well v" and p: "node_pool v = nd # rest" and i: "i \<notin> ran (inos v)" and ops: "sfs_get_ops (din_type d) = Some ops"
    and sn: "ino sn = i" "din sn = d" and v': "v' = v\<lparr>node_pool := rest, inodes := (inodes v)(nd \<mapsto> inode_init (Sfs_info sn) ops True),
      vsfs := sfs_set_links i nd (vsfs v)\<rparr>"
  shows "well v' \<and> view v' = view v \<and> inos v' = (inos v)(nd \<mapsto> i)"
proof -
  have free: "inodes v nd = None" using w p by (simp add: well_def pool_ok_def)
  then have nd: "nd \<notin> dom (inos v)" by (auto simp: inos_def dom_def)
  have I: "inos v' = (inos v)(nd \<mapsto> i)"
    by (simp add: v' fun_eq_iff inos_def inode_init_def ino_of_def sn)
  have "lists (vsfs v') = (list_add (fst (lists (vsfs v))) InodeList (InodeLink nd),
      list_add (snd (lists (vsfs v))) (HashList (sin_hashfn i)) (HashLink nd))"
    by (simp add: v' lists_def sfs_set_links_def sfs_hash_list_def)
  then have "cache_ok (lists (vsfs v')) (inos v')"
    using cache_add [OF _ nd i] w I by (auto simp: well_def)
  moreover have "pool_ok v'" using w p by (auto simp: well_def pool_ok_def v')
  moreover have "node_typed (inode_init (Sfs_info sn) ops True)"
    using ops sn by (simp add: node_typed_def inode_init_def)
  moreover have "opens v' = opens v" using free by (simp add: fun_eq_iff opens_def v' inode_init_def)
  ultimately show ?thesis using w I by (auto simp: well_def view_def v' split: if_splits)
qed

lemma create_inode_SomeD:
  assumes "sfs_create_inode d i v = Some (Some nd, v')"
  obtains rest ops sn where "node_pool v = nd # rest" "sfs_get_ops (din_type d) = Some ops" "ino sn = i" "din sn = d"
    "v' = v\<lparr>node_pool := rest, inodes := (inodes v)(nd \<mapsto> inode_init (Sfs_info sn) ops True)\<rparr>"
proof -
  from assms obtain rest ops where p: "node_pool v = nd # rest" "sfs_get_ops (din_type d) = Some ops"
    "v' = v\<lparr>node_pool := rest, inodes := (inodes v)(nd \<mapsto> inode_init
        (Sfs_info \<lparr>din = d, ino = i, dirty = False, reclaim_count = 1, sin_sem = 1\<rparr>) ops True)\<rparr>"
    by (auto simp: sfs_create_inode_def alloc_inode_def split: list.splits elim!: bind_SomeE)
  show ?thesis by (rule that [OF p(1,2) _ _ p(3)]) simp_all
qed

lemma create_inode_NoneD: "sfs_create_inode d i v = Some (None, v') \<Longrightarrow> v' = v"
  by (auto simp: sfs_create_inode_def alloc_inode_def split: list.splits elim!: bind_SomeE)

lemma load_inode_keeps:
  assumes "sfs_load_inode v i = Some (r, v')" "well v"
  shows "well v' \<and> view v' = view v \<and> (\<forall>nd. r = Inr nd \<longrightarrow> inos v' nd = Some i)"
proof -
  obtain s where s: "lock_sfs_fs (vsfs v) = Some s" using assms(1) by (auto simp: sfs_load_inode_def elim!: bind_SomeE)
  let ?v = "v\<lparr>vsfs := s\<rparr>"
  have l: "lists s = lists (vsfs v)" using lock_fs_lists [OF s] .
  then have w: "well ?v" using assms(2) by simp
  obtain found v1 where f: "lookup_sfs_nolock ?v i = Some (found, v1)"
    using assms(1) s by (auto simp: sfs_load_inode_def elim!: bind_SomeE)
  note k = lookup_keeps [OF f w]
  show ?thesis
  proof (cases found)
    case (Some nd)
    have "inos v1 nd = Some i"
      using k Some f lookup_cached [OF w, of nd i] by (auto simp: inos_def inodes_upd taken_def ino_of_def split: node_info.splits elim!: bind_SomeE)
    moreover have "r = Inr nd" "v' = unlock_fs v1" using assms(1) s f Some by (simp_all add: sfs_load_inode_def)
    ultimately show ?thesis using k by (simp add: inos_def unlock_fs_def)
  next
    case None
    then have v1: "v1 = ?v" "i \<notin> ran (inos ?v)" using k by auto
    show ?thesis
    proof (cases "heap_left v = 0")
      case True
      then have "r = Inl E_NO_MEM" "v' = unlock_fs ?v" using assms(1) s f None v1 by (simp_all add: sfs_load_inode_def)
      then show ?thesis using w by simp
    next
      case False
      obtain ret bs s2 where u: "sfs_block_inuse s i = Some True"
        and b: "sfs_rbuf s (replicate 64 0) 0 64 i 0 = Some (ret, bs, s2)"
        using assms(1) s f None v1 False by (auto simp: sfs_load_inode_def Let_def elim!: bind_SomeE)
      let ?w = "v\<lparr>vsfs := s, heap_left := heap_left v - 1, vsfs := s2\<rparr>"
      have l2: "lists s2 = lists (vsfs v)" using sfs_rbuf_lists [OF b] l by simp
      then have w2: "well ?w" using assms(2) by simp
      note step = assms(1) s f None v1 False b u
      show ?thesis
      proof (cases ret)
        case (Some e)
        then show ?thesis using step l2 assms(2) by (auto simp: sfs_load_inode_def Let_def)
      next
        case None
        then obtain node v3 where c: "sfs_create_inode (bytes_din bs) i ?w = Some (node, v3)"
          using step by (auto simp: sfs_load_inode_def Let_def elim!: bind_SomeE)
        show ?thesis
        proof (cases node)
          case None
          then show ?thesis using step \<open>ret = None\<close> c create_inode_NoneD [OF c [unfolded None]] l2 assms(2)
            by (auto simp: sfs_load_inode_def Let_def)
        next
          case (Some nd)
          from create_inode_SomeD [OF c [unfolded Some]] obtain rest ops sn where
            p: "node_pool ?w = nd # rest" "sfs_get_ops (din_type (bytes_din bs)) = Some ops" "ino sn = i" "din sn = bytes_din bs"
            and v3: "v3 = ?w\<lparr>node_pool := rest, inodes := (inodes ?w)(nd \<mapsto> inode_init (Sfs_info sn) ops True)\<rparr>" by metis
          have i: "i \<notin> ran (inos ?w)" using v1(2) by (simp add: ran_def inos_def)
          let ?u = "v3\<lparr>vsfs := sfs_set_links i nd (vsfs v3)\<rparr>"
          have "?u = ?w\<lparr>node_pool := rest, inodes := (inodes ?w)(nd \<mapsto> inode_init (Sfs_info sn) ops True),
            vsfs := sfs_set_links i nd (vsfs ?w)\<rparr>" by (simp add: v3)
          note n = new_node_keeps [OF w2 p(1) i p(2-4) this]
          have "r = Inr nd" "v' = unlock_fs ?u" using step \<open>ret = None\<close> c Some
            by (auto simp: sfs_load_inode_def Let_def)
          then show ?thesis using n by simp
        qed
      qed
    qed
  qed
qed

subsection \<open>Frames of the operations\<close>

lemmas on_sfs_truncate = on_sfs_keeps [where f = "\<lambda>s sn. sfs_truncfile s sn len" for len, OF _ _ truncfile_ident]
lemmas on_sfs_fsync = on_sfs_keeps [where f = sfs_fsync, OF _ _ fsync_ident]

lemma vop_truncate_keeps: "vop_truncate nd len v = Some (r, v') \<Longrightarrow> well v \<Longrightarrow> well v' \<and> view v' = view v"
  by (auto simp: vop_truncate_def elim!: bind_SomeE dest!: on_sfs_truncate)

lemma vop_fsync_keeps: "vop_fsync nd v = Some (r, v') \<Longrightarrow> well v \<Longrightarrow> well v' \<and> view v' = view v"
  by (auto simp: vop_fsync_def elim!: bind_SomeE dest!: on_sfs_fsync)

lemma ref_inc_keeps:
  assumes "inode_ref_inc nd v = Some (r, v')" "well v"
  shows "well v' \<and> view v' = view v"
proof -
  obtain n where n: "inodes v nd = Some n" and v': "v' = upd_inode nd (\<lambda>n. n\<lparr>ref_count := ref_count n + 1\<rparr>) v"
    using assms(1) by (auto simp: inode_ref_inc_def elim!: bind_SomeE)
  show ?thesis unfolding v'
    using wellD [OF assms(2) n]
    by (auto intro!: well_upd [OF assms(2) n] view_upd [OF n] simp: node_typed_def ino_of_def split: node_info.splits)
qed

text \<open>A node leaves the cache and the memory.\<close>

lemma drop_node_keeps:
  assumes w: "well v" and n: "inodes v nd = Some n" "open_count n = 0" and sn: "sfs_info n = Some sn"
    and l: "lists s = lists (sfs_remove_links nd (vsfs v))"
    and v': "v' = v\<lparr>inodes := (inodes v)(nd := None), node_pool := nd # node_pool v, vsfs := s\<rparr>"
  shows "well v' \<and> view v' = view v"
proof -
  have nd: "nd \<in> dom (inos v)" using n sn by (auto simp: inos_def ino_of_def sfs_info_def split: node_info.splits)
  have I: "inos v' = (inos v)(nd := None)" by (simp add: v' fun_eq_iff inos_def)
  have "lists (vsfs v') = (list_del (fst (lists (vsfs v))) (InodeLink nd), list_del (snd (lists (vsfs v))) (HashLink nd))"
    by (simp add: v' l) (simp add: lists_def sfs_remove_links_def)
  then have "cache_ok (lists (vsfs v')) (inos v')" using cache_del [OF _ nd] w I by (simp add: well_def)
  moreover have "pool_ok v'" using w n(1) by (auto simp: well_def pool_ok_def v')
  moreover have "opens v' = opens v" using n by (simp add: fun_eq_iff opens_def v')
  ultimately show ?thesis using w by (auto simp: well_def view_def v' split: if_splits)
qed

lemma reclaim_keeps:
  assumes r: "sfs_reclaim nd v = Some (r, v')" and w: "well v"
  shows "well v' \<and> view v' = view v"
proof -
  obtain n sn s where n: "inodes v nd = Some n" "sfs_info n = Some sn" "lock_sfs_fs (vsfs v) = Some s"
    using r by (auto simp: sfs_reclaim_def elim!: bind_SomeE)
  let ?v = "upd_inode nd (\<lambda>n. n\<lparr>in_info := Sfs_info (sn\<lparr>reclaim_count := reclaim_count sn - 1\<rparr>)\<rparr>) (v\<lparr>vsfs := s\<rparr>)"
  have ws: "well (v\<lparr>vsfs := s\<rparr>)" "inodes (v\<lparr>vsfs := s\<rparr>) nd = Some n"
    using w n lock_fs_lists [OF n(3)] by simp_all
  have w1: "well ?v" "view ?v = view v"
    using sfs_upd_keeps [OF ws n(2), of "sn\<lparr>reclaim_count := reclaim_count sn - 1\<rparr>"] by simp_all
  show ?thesis
  proof (cases "reclaim_count sn - 1 \<noteq> 0 \<or> ref_count n \<noteq> 0")
    case True
    then have "v' = unlock_fs ?v" using r n by (auto simp: sfs_reclaim_def Let_def elim!: bind_SomeE)
    then show ?thesis using w1 by simp
  next
    case False
    obtain ret v2 where t: "(if din_nlinks (din sn) = 0 then vop_truncate nd 0 ?v else Some (None, ?v)) = Some (ret, v2)"
      using r n False by (auto simp: sfs_reclaim_def Let_def elim!: bind_SomeE)
    have w2: "well v2" "view v2 = view v" using t w1 vop_truncate_keeps [of nd 0 ?v ret v2] by (auto split: if_splits)
    show ?thesis
    proof (cases "ret = None")
      case False
      then have "v' = unlock_fs v2" using r n \<open>\<not> (_ \<or> _)\<close> t by (auto simp: sfs_reclaim_def Let_def elim!: bind_SomeE)
      then show ?thesis using w2 by simp
    next
      case True
      obtain n2 sn2 ret2 v3 where f: "inodes v2 nd = Some n2" "sfs_info n2 = Some sn2"
        "(if dirty sn2 then vop_fsync nd v2 else Some (None, v2)) = Some (ret2, v3)"
        using r n \<open>\<not> (_ \<or> _)\<close> t True by (auto simp: sfs_reclaim_def Let_def elim!: bind_SomeE)
      have w3: "well v3" "view v3 = view v" using f w2 vop_fsync_keeps [of nd v2 ret2 v3] by (auto split: if_splits)
      show ?thesis
      proof (cases "ret2 = None")
        case False
        then have "v' = unlock_fs v3"
          using r n \<open>\<not> (_ \<or> _)\<close> t True f by (auto simp: sfs_reclaim_def Let_def elim!: bind_SomeE)
        then show ?thesis using w3 by simp
      next
        case ok: True
        let ?u = "unlock_fs (v3\<lparr>vsfs := sfs_remove_links nd (vsfs v3)\<rparr>)"
        obtain n3 sn3 v4 where g: "inodes ?u nd = Some n3" "sfs_info n3 = Some sn3"
          "(if din_nlinks (din sn3) = 0 then do {
                    s \<leftarrow> sfs_block_free (vsfs ?u) (ino sn3);
                    s \<leftarrow> (if din_indirect (din sn3) \<noteq> 0 then sfs_block_free s (din_indirect (din sn3)) else Some s);
                    Some (?u\<lparr>vsfs := s\<rparr>)
                  } else Some ?u) = Some v4"
          and k: "inode_kill nd (v4\<lparr>heap_left := heap_left v4 + 1\<rparr>) = Some v'"
          using r n \<open>\<not> (_ \<or> _)\<close> t True f ok by (auto simp: sfs_reclaim_def Let_def elim!: bind_SomeE)
        obtain s4 where v4: "v4 = v3\<lparr>vsfs := s4\<rparr>" "lists s4 = lists (sfs_remove_links nd (vsfs v3))"
          using g(3) by (auto simp: unlock_fs_def split: if_splits elim!: bind_SomeE dest!: block_free_lists)
        have n3: "inodes (v3\<lparr>heap_left := heap_left v3 + 1\<rparr>) nd = Some n3" using g(1) by (simp add: unlock_fs_def)
        have "open_count n3 = 0" and
          v': "v' = v3\<lparr>heap_left := heap_left v3 + 1, inodes := (inodes v3)(nd := None), node_pool := nd # node_pool v3, vsfs := s4\<rparr>"
          using k n3 v4(1) by (auto simp: inode_kill_def elim!: bind_SomeE)
        from drop_node_keeps [OF _ n3 this(1) g(2) _, of s4 v'] show ?thesis using w3 v4(2) v' by simp
      qed
    qed
  qed
qed

lemma vop_reclaim_keeps: "vop_reclaim nd v = Some (r, v') \<Longrightarrow> well v \<Longrightarrow> well v' \<and> view v' = view v"
  by (auto simp: vop_reclaim_def elim!: bind_SomeE dest!: reclaim_keeps)

lemma ref_dec_keeps:
  assumes "inode_ref_dec nd v = Some (r, v')" "well v"
  shows "well v' \<and> view v' = view v"
proof -
  obtain n where n: "inodes v nd = Some n" using assms(1) by (auto simp: inode_ref_dec_def elim!: bind_SomeE)
  let ?v = "upd_inode nd (\<lambda>n. n\<lparr>ref_count := ref_count n - 1\<rparr>) v"
  have w: "well ?v" "view ?v = view v"
    using wellD [OF assms(2) n]
    by (auto intro!: well_upd [OF assms(2) n] view_upd [OF n] simp: node_typed_def ino_of_def split: node_info.splits)
  show ?thesis using assms(1) n w vop_reclaim_keeps [of nd ?v]
    by (auto simp: inode_ref_dec_def Let_def split: if_splits elim!: bind_SomeE)
qed

subsection \<open>The cache as a function from inode numbers to nodes\<close>

lemma fs_sem_update [simp]:
  "fs_ok (s\<lparr>fs_sem := n\<rparr>) = fs_ok s" "inuse (s\<lparr>fs_sem := n\<rparr>) b = inuse s b"
  by (simp_all add: fs_ok_def inuse_def blk_ok_def)

lemma lock_fs_one: "fs_sem s = 1 \<Longrightarrow> lock_sfs_fs s = Some (s\<lparr>fs_sem := 0\<rparr>)"
  by (simp add: lock_sfs_fs_def)

definition disk_din :: "sfs_fs \<Rightarrow> u32 \<Rightarrow> sfs_disk_inode" where
  "disk_din s i = bytes_din (slice (blk s i) 0 64)"

definition fresh_inode :: "sfs_disk_inode \<Rightarrow> u32 \<Rightarrow> inode_ops \<Rightarrow> inode" where
  "fresh_inode d i ops = \<lparr>in_info = Sfs_info \<lparr>din = d, ino = i, dirty = False, reclaim_count = 1, sin_sem = 1\<rparr>,
     ref_count = 1, open_count = 0, in_fs = True, in_ops = ops\<rparr>"

lemma fs_sem_restore: "fs_sem s = 1 \<Longrightarrow> s\<lparr>fs_sem := Suc 0\<rparr> = s"
  by simp

lemma unlock_fs_one:
  assumes "fs_sem (vsfs v) = 1"
  shows "unlock_fs (v\<lparr>vsfs := (vsfs v)\<lparr>fs_sem := 0\<rparr>\<rparr>) = v"
  using assms by (cases v) (simp add: unlock_fs_def unlock_sfs_fs_def up_sem_def)

lemma load_cached:
  assumes w: "well v" and l: "fs_sem (vsfs v) = 1" and i: "inos v nd = Some i"
  shows "sfs_load_inode v i = Some (Inr nd, upd_inode nd taken v)"
proof -
  let ?v = "v\<lparr>vsfs := (vsfs v)\<lparr>fs_sem := 0\<rparr>\<rparr>"
  have "well ?v" "inos ?v nd = Some i" using w i by (simp_all add: inos_def)
  then have "lookup_sfs_nolock ?v i = Some (Some nd, upd_inode nd taken ?v)" by (rule lookup_cached)
  moreover have "unlock_fs (upd_inode nd taken ?v) = upd_inode nd taken v"
    using l by (cases v) (simp add: unlock_fs_def unlock_sfs_fs_def up_sem_def upd_inode_def)
  ultimately show ?thesis by (simp add: sfs_load_inode_def lock_fs_one [OF l])
qed

lemma load_fresh:
  assumes w: "well v" and ok: "fs_ok (vsfs v)" and l: "fs_sem (vsfs v) = 1" and i: "i \<notin> ran (inos v)" "inuse (vsfs v) i"
    and d: "din_nlinks (disk_din (vsfs v) i) \<noteq> 0" "sfs_get_ops (din_type (disk_din (vsfs v) i)) = Some ops"
  shows "sfs_load_inode v i =
    (if heap_left v = 0 then Some (Inl E_NO_MEM, v)
     else case node_pool v of [] \<Rightarrow> Some (Inl E_NO_MEM, v)
       | nd # rest \<Rightarrow> Some (Inr nd, v\<lparr>heap_left := heap_left v - 1, node_pool := rest,
           inodes := (inodes v)(nd \<mapsto> fresh_inode (disk_din (vsfs v) i) i ops), vsfs := sfs_set_links i nd (vsfs v)\<rparr>))"
proof -
  let ?s = "(vsfs v)\<lparr>fs_sem := 0\<rparr>"
  let ?v = "v\<lparr>vsfs := ?s\<rparr>"
  have n: "lookup_sfs_nolock ?v i = Some (None, ?v)"
    by (rule lookup_absent) (use w i in \<open>simp_all add: inos_def ran_def\<close>)
  have b: "sfs_block_inuse ?s i = Some True"
    using sfs_block_inuse_ok [of ?s i] ok i(2) inuse_blk_ok [of ?s i] by simp
  have r: "sfs_rbuf ?s (replicate 64 0) 0 64 i 0 = Some (None, slice (blk (vsfs v) i) 0 64, ?s)"
    using sfs_rbuf_ok [of ?s i 0 64 "replicate 64 0" 0] ok i(2) inuse_blk_ok [of ?s i]
    by (simp add: overwrite_all)
  note step = sfs_load_inode_def lock_fs_one [OF l] n b r disk_din_def [symmetric] d Let_def
  show ?thesis
  proof (cases "heap_left v = 0")
    case True
    then show ?thesis by (simp add: step unlock_fs_one [OF l])
  next
    case False
    show ?thesis
    proof (cases "node_pool v")
      case Nil
      then have "sfs_load_inode v i = Some (Inl E_NO_MEM, unlock_fs (?v\<lparr>heap_left := heap_left v - 1, heap_left := heap_left v - 1 + 1\<rparr>))"
        using False by (simp add: step sfs_create_inode_def)
      moreover have "?v\<lparr>heap_left := heap_left v - 1, heap_left := heap_left v - 1 + 1\<rparr> = ?v"
        using False by (cases v) simp
      ultimately show ?thesis using False Nil unlock_fs_one [OF l] by simp
    next
      case (Cons nd rest)
      have "sfs_load_inode v i = Some (Inr nd, unlock_fs (?v\<lparr>heap_left := heap_left v - 1, node_pool := rest,
           inodes := (inodes v)(nd \<mapsto> fresh_inode (disk_din (vsfs v) i) i ops), vsfs := sfs_set_links i nd ?s\<rparr>))"
        using False Cons by (simp add: step sfs_create_inode_def alloc_inode_def inode_init_def fresh_inode_def)
      moreover have "unlock_fs (?v\<lparr>heap_left := heap_left v - 1, node_pool := rest,
           inodes := (inodes v)(nd \<mapsto> fresh_inode (disk_din (vsfs v) i) i ops), vsfs := sfs_set_links i nd ?s\<rparr>)
         = v\<lparr>heap_left := heap_left v - 1, node_pool := rest,
           inodes := (inodes v)(nd \<mapsto> fresh_inode (disk_din (vsfs v) i) i ops), vsfs := sfs_set_links i nd (vsfs v)\<rparr>"
        using l by (simp add: unlock_fs_def sfs_set_links_def unlock_sfs_fs_def up_sem_def)
      ultimately show ?thesis using False Cons by simp
    qed
  qed
qed

lemma load_fresh_keeps:
  assumes w: "well v" and p: "node_pool v = nd # rest" and i: "i \<notin> ran (inos v)" and o1: "sfs_get_ops (din_type d) = Some ops"
  shows "well (v\<lparr>heap_left := h, node_pool := rest, inodes := (inodes v)(nd \<mapsto> fresh_inode d i ops),
      vsfs := sfs_set_links i nd (vsfs v)\<rparr>)"
    "inos (v\<lparr>heap_left := h, node_pool := rest, inodes := (inodes v)(nd \<mapsto> fresh_inode d i ops),
      vsfs := sfs_set_links i nd (vsfs v)\<rparr>) = (inos v)(nd \<mapsto> i)"
proof -
  let ?v = "v\<lparr>heap_left := h\<rparr>"
  let ?sn = "\<lparr>din = d, ino = i, dirty = False, reclaim_count = 1, sin_sem = 1\<rparr>"
  let ?t = "v\<lparr>heap_left := h, node_pool := rest, inodes := (inodes v)(nd \<mapsto> fresh_inode d i ops),
      vsfs := sfs_set_links i nd (vsfs v)\<rparr>"
  have e: "?t = ?v\<lparr>node_pool := rest, inodes := (inodes ?v)(nd \<mapsto> inode_init (Sfs_info ?sn) ops True),
      vsfs := sfs_set_links i nd (vsfs ?v)\<rparr>"
    by (simp add: inode_init_def fresh_inode_def)
  have v: "well ?v" "node_pool ?v = nd # rest" "i \<notin> ran (inos ?v)" "inos ?v = inos v"
    using w i p by (simp_all add: inos_def ran_def fun_eq_iff)
  have "well ?t \<and> view ?t = view ?v \<and> inos ?t = (inos ?v)(nd \<mapsto> i)"
    by (rule new_node_keeps [OF v(1-3) o1 _ _ e]) simp_all
  then show "well ?t" "inos ?t = (inos v)(nd \<mapsto> i)" using v(4) by simp_all
qed

text \<open>
  C38: The inode cache. For an inode number \<open>i\<close> whose block is in use, \<open>sfs_load_inode\<close> returns and keeps the
  invariant that no two inodes in memory stand for the same block. If the inode is in memory, the result is that
  node with one reference more, and the disk is not read. Otherwise, when memory suffices, it is a new node with
  the inode read from block \<open>i\<close>, one reference and the function table of its type, entered into the cache, while
  all other nodes stay as they are; without memory the result is \<open>-E_NO_MEM\<close> and nothing has changed.
\<close>

theorem sfs_load_inode_correct:
  assumes w: "well v" and ok: "fs_ok (vsfs v)" and l: "fs_sem (vsfs v) = 1" and i: "inuse (vsfs v) i"
    and d: "din_nlinks (disk_din (vsfs v) i) \<noteq> 0" "sfs_get_ops (din_type (disk_din (vsfs v) i)) = Some ops"
  shows "\<exists>r v'. sfs_load_inode v i = Some (r, v') \<and> well v' \<and> view v' = view v
    \<and> (\<forall>nd. inos v nd = Some i \<longrightarrow> r = Inr nd \<and> v' = upd_inode nd taken v)
    \<and> (i \<notin> ran (inos v) \<longrightarrow> (if heap_left v = 0 \<or> node_pool v = [] then r = Inl E_NO_MEM \<and> v' = v
        else r = Inr (hd (node_pool v)) \<and> inos v' = (inos v)(hd (node_pool v) \<mapsto> i) \<and> dev (vsfs v') = dev (vsfs v)
          \<and> inodes v' = (inodes v)(hd (node_pool v) \<mapsto> fresh_inode (disk_din (vsfs v) i) i ops)))"
proof (cases "i \<in> ran (inos v)")
  case True
  then obtain nd where nd: "inos v nd = Some i" by (auto simp: ran_def)
  then have "nd' = nd" if "inos v nd' = Some i" for nd' using inos_unique [OF w nd that] by simp
  then show ?thesis using load_cached [OF w l nd] load_inode_keeps [OF load_cached [OF w l nd] w] True by auto
next
  case False
  then have n: "inos v nd \<noteq> Some i" for nd by (auto simp: ran_def)
  note load = load_fresh [OF w ok l False i d]
  show ?thesis
  proof (cases "heap_left v = 0 \<or> node_pool v = []")
    case True
    then have "sfs_load_inode v i = Some (Inl E_NO_MEM, v)" using load by auto
    then show ?thesis using True w n by auto
  next
    case mem: False
    then obtain nd rest where p: "node_pool v = nd # rest" by (cases "node_pool v") auto
    let ?v = "v\<lparr>heap_left := heap_left v - 1, node_pool := rest,
      inodes := (inodes v)(nd \<mapsto> fresh_inode (disk_din (vsfs v) i) i ops), vsfs := sfs_set_links i nd (vsfs v)\<rparr>"
    have r: "sfs_load_inode v i = Some (Inr nd, ?v)" using load mem p by simp
    have "view ?v = view v" using load_inode_keeps [OF r w] by blast
    moreover note load_fresh_keeps [OF w p False d(2), of "heap_left v - 1"]
    moreover have "dev (vsfs ?v) = dev (vsfs v)" by (simp add: sfs_set_links_def)
    ultimately show ?thesis using r mem p n by simp
  qed
qed

text \<open>A file system whose blocks hold the inode of an empty file with one link, and no inode in memory.\<close>

definition sample_image :: "nat \<Rightarrow> u8" where
  "sample_image a = (if a mod 4096 = 4 \<or> a mod 4096 = 6 then 1 else 0)"

definition sample_v :: vstate where
  "sample_v = \<lparr>vsfs = sample_fs\<lparr>dev := (dev sample_fs)\<lparr>d_rd := (d_rd (dev sample_fs))\<lparr>rd_img := sample_image\<rparr>\<rparr>\<rparr>,
     inodes = (\<lambda>_. None), node_pool = [10, 11], heap_left = 8, kin = sample_stdin, console = [], vdev_list = [],
     vdev_list_sem = 1, bootfs_node = None, fstructs = (\<lambda>_. None), cur_files = 0\<rparr>"

lemma sample_v_well: "well sample_v"
proof -
  have I: "inos sample_v = (\<lambda>_. None)" by (simp add: sample_v_def inos_def fun_eq_iff)
  have "dlist (hlist sample_fs) (HashList b) (map HashLink [])" for b by (simp add: sample_fs_def)
  moreover have "dlist (ilist sample_fs) InodeList (map InodeLink [])" by (simp add: sample_fs_def)
  ultimately have "cache_ok (lists (vsfs sample_v)) (inos sample_v)"
    unfolding cache_ok_def I by (auto simp: lists_def sample_v_def intro!: exI [of _ "[]"])
  then show ?thesis by (simp add: well_def) (simp add: sample_v_def pool_ok_def)
qed

lemma sample_v_fs: "fs_ok (vsfs sample_v)" "fs_sem (vsfs sample_v) = 1" "inuse (vsfs sample_v) 3"
proof -
  have "disk_ok ((dev sample_fs)\<lparr>d_rd := (d_rd (dev sample_fs))\<lparr>rd_img := f\<rparr>\<rparr>)" for f
    using fs_okD(1) [OF sample_fs_ok] by (simp add: disk_ok_def)
  then show "fs_ok (vsfs sample_v)" using sample_fs_ok by (simp add: sample_v_def fs_ok_def)
  show "inuse (vsfs sample_v) 3" using sample_inuse(1) by (simp add: sample_v_def inuse_def blk_ok_def)
  show "fs_sem (vsfs sample_v) = 1" by (simp add: sample_v_def sample_fs_def)
qed

lemma sample_v_din: "din_nlinks (disk_din (vsfs sample_v) 3) = 1" "din_type (disk_din (vsfs sample_v) 3) = 1"
proof -
  have b: "slice (slice (blk (vsfs sample_v) 3) 0 64) p 2 ! j = sample_image (3 * 4096 + p + j)" if "p + 2 \<le> 64" "j < 2" for p j
    using that by (simp add: nth_slice nth_disk_block) (simp add: sample_v_def add.assoc)
  show "din_nlinks (disk_din (vsfs sample_v) 3) = 1" "din_type (disk_din (vsfs sample_v) 3) = 1"
    using b [of 4 0] b [of 4 1] b [of 6 0] b [of 6 1]
    by (simp_all add: disk_din_def bytes_din_def bytes_u16_def sample_image_def)
qed

theorem sfs_load_inode_correct_witness:
  "\<exists>v'. sfs_load_inode sample_v 3 = Some (Inr 10, v') \<and> inos v' 10 = Some 3"
proof -
  have o1: "sfs_get_ops (din_type (disk_din (vsfs sample_v) 3)) = Some Fileops" by (simp add: sample_v_din sfs_get_ops_def)
  have n: "din_nlinks (disk_din (vsfs sample_v) 3) \<noteq> 0" by (simp add: sample_v_din)
  have "(3 :: u32) \<notin> ran (inos sample_v)" "heap_left sample_v = 8" "node_pool sample_v = [10, 11]"
    by (simp_all add: sample_v_def inos_def ran_def)
  then show ?thesis
    using sfs_load_inode_correct [OF sample_v_well sample_v_fs n o1] by auto
qed

end
