(* ===== verification/Vfs.thy ===== *)
theory Vfs
  imports Vops
begin

text \<open>
  The virtual file system: the table of devices and mounting (\<open>kern/fs/vfs/vfsdev.c\<close>, \<open>kern/fs/sfs/sfs_fs.c\<close>), path
  lookup (\<open>vfslookup.c\<close>), the current directory (\<open>vfspath.c\<close>), the boot file system (\<open>vfs.c\<close>), opening and
  closing (\<open>vfsfile.c\<close>). The device table is the list of its entries, the last added first; strings are
  their bytes without the terminating zero.
\<close>

subsection \<open>Mounting the Simple FS (kern/fs/sfs/sfs_fs.c)\<close>

definition sfs_init_read :: "disk0 \<Rightarrow> u32 \<Rightarrow> u8 list \<Rightarrow> (err option \<times> u8 list \<times> disk0) option" where
  "sfs_init_read d blkno buf =
     do {
       (ret, iob, d) \<leftarrow> disk0_io d (iobuf_init buf SFS_BLKSIZE (uint (blkno * word_of_nat SFS_BLKSIZE))) False;
       Some (ret, io_mem iob, d)
     }"

text \<open>The words of the freemap in memory and as bytes.\<close>

fun words_of_bytes :: "u8 list \<Rightarrow> u32 list" where
  "words_of_bytes (a # b # c # d # bs) = bytes_u32 [a, b, c, d] # words_of_bytes bs"
| "words_of_bytes bs = []"

fun init_freemap_loop :: "nat \<Rightarrow> disk0 \<Rightarrow> u8 list \<Rightarrow> nat \<Rightarrow> u32 \<Rightarrow> (err option \<times> u8 list \<times> disk0) option" where
  "init_freemap_loop 0 d buf p blkno = Some (None, buf, d)"
| "init_freemap_loop (Suc n) d buf p blkno =
     do {
       (ret, b, d) \<leftarrow> sfs_init_read d blkno (slice buf p SFS_BLKSIZE);
       let buf = overwrite buf p b;
       if ret \<noteq> None then Some (ret, buf, d)
       else init_freemap_loop n d buf (p + SFS_BLKSIZE) (blkno + 1)
     }"

definition sfs_init_freemap :: "disk0 \<Rightarrow> bitmap \<Rightarrow> u32 \<Rightarrow> u32 \<Rightarrow> (err option \<times> bitmap \<times> disk0) option" where
  "sfs_init_freemap d fm blkno nblks =
     do {
       assert_that (snd (bitmap_getdata fm) = unat nblks * SFS_BLKSIZE);
       (ret, bs, d) \<leftarrow> init_freemap_loop (unat nblks) d (concat (map u32_bytes (fst (bitmap_getdata fm)))) 0 blkno;
       Some (ret, fm\<lparr>bmap := words_of_bytes bs\<rparr>, d)
     }"

fun count_free :: "bitmap \<Rightarrow> nat \<Rightarrow> u32 option" where
  "count_free fm 0 = Some 0"
| "count_free fm (Suc n) =
     do { c \<leftarrow> count_free fm n; t \<leftarrow> bitmap_test fm (word_of_nat n); Some (if t then c + 1 else c) }"

text \<open>
  \<open>sfs_do_mount\<close>. The structures it allocates are the \<open>struct fs\<close>, \<open>sfs_buffer\<close>, the hash list headers and the
  two parts of the bitmap; \<open>heap\<close> is how many objects \<open>kmalloc\<close> can provide, and the result how many are left.
  The hash list headers are initialised one by one, which makes each a list of its own.
\<close>

definition sfs_do_mount :: "nat \<Rightarrow> disk0 \<Rightarrow> ((err + sfs_fs) \<times> nat \<times> disk0) option" where
  "sfs_do_mount heap d =
     (if d_blocksize d \<noteq> SFS_BLKSIZE then Some (Inl E_NA_DEV, heap, d)
      else if heap < 2 then Some (Inl E_NO_MEM, heap, d)
      else do {
        (ret, buf, d) \<leftarrow> sfs_init_read d SFS_BLKN_SUPER (replicate SFS_BLKSIZE 0);
        (case ret of
           Some e \<Rightarrow> Some (Inl e, heap, d)
         | None \<Rightarrow>
             (let sb = bytes_super buf; sb = sb\<lparr>sup_info := (sup_info sb)[SFS_MAX_INFO_LEN := 0]\<rparr> in
              if sup_magic sb \<noteq> SFS_MAGIC then Some (Inl E_INVAL, heap, d)
              else if unat (sup_blocks sb) > d_blocks d then Some (Inl E_INVAL, heap, d)
              else if heap < 3 then Some (Inl E_NO_MEM, heap, d)
              else do {
                created \<leftarrow> bitmap_create (heap \<ge> 4) (heap \<ge> 5) (sfs_freemap_bits sb);
                (case created of
                   None \<Rightarrow> Some (Inl E_NO_MEM, heap, d)
                 | Some fm \<Rightarrow> do {
                     (ret, fm, d) \<leftarrow> sfs_init_freemap d fm SFS_BLKN_FREEMAP (sfs_freemap_blocks sb);
                     (case ret of
                        Some e \<Rightarrow> Some (Inl e, heap, d)
                      | None \<Rightarrow> do {
                          unused \<leftarrow> count_free fm (unat (sfs_freemap_bits sb));
                          assert_that (unused = sup_unused sb);
                          Some (Inr \<lparr>super = sb, dev = d, freemap = fm, super_dirty = False, fs_sem = 1, io_sem = 1,
                             mutex_sem = 1,
                             ilist = list_init \<lparr>lprev = (\<lambda>n. n), lnext = (\<lambda>n. n)\<rparr> InodeList,
                             hlist = \<lparr>lprev = (\<lambda>n. n), lnext = (\<lambda>n. n)\<rparr>\<rparr>, heap - 5, d)
                        })
                   })
              }))
      })"

text \<open>\<open>sfs_sync\<close> writes back every inode of the inode list, then superblock and freemap.\<close>

partial_function (option) sync_loop :: "isnode \<Rightarrow> vstate \<Rightarrow> vstate option" where
  "sync_loop le v =
     (case list_next (ilist (vsfs v)) le of
        InodeList \<Rightarrow> Some v
      | InodeLink nd \<Rightarrow> do { (ret, v) \<leftarrow> vop_fsync nd v; sync_loop (InodeLink nd) v })"

definition sfs_sync :: "vstate \<Rightarrow> (err option \<times> vstate) option" where
  "sfs_sync v =
     do {
       s \<leftarrow> lock_sfs_fs (vsfs v);
       v \<leftarrow> sync_loop InodeList (v\<lparr>vsfs := s\<rparr>);
       let s = unlock_sfs_fs (vsfs v);
       if super_dirty s then do {
         (ret, s) \<leftarrow> sfs_sync_super (s\<lparr>super_dirty := False\<rparr>);
         if ret \<noteq> None then Some (ret, v\<lparr>vsfs := s\<lparr>super_dirty := True\<rparr>\<rparr>)
         else do {
           (ret, s) \<leftarrow> sfs_sync_freemap s;
           Some (ret, v\<lparr>vsfs := if ret \<noteq> None then s\<lparr>super_dirty := True\<rparr> else s\<rparr>)
         }
       }
       else Some (None, v\<lparr>vsfs := s\<rparr>)
     }"

definition sfs_get_root :: "vstate \<Rightarrow> (nat \<times> vstate) option" where
  "sfs_get_root v =
     do {
       (r, v) \<leftarrow> sfs_load_inode v SFS_BLKN_ROOT;
       (case r of Inl e \<Rightarrow> None | Inr nd \<Rightarrow> Some (nd, v))
     }"

definition sfs_unmount :: "vstate \<Rightarrow> (err option \<times> vstate) option" where
  "sfs_unmount v =
     (if \<not> list_empty (ilist (vsfs v)) InodeList then Some (Some E_BUSY, v)
      else do {
        assert_that (\<not> super_dirty (vsfs v));
        Some (None, v\<lparr>heap_left := heap_left v + 5\<rparr>)
      })"

fun sync_tries :: "nat \<Rightarrow> vstate \<Rightarrow> vstate option" where
  "sync_tries 0 v = Some v"
| "sync_tries (Suc n) v = do { (ret, v) \<leftarrow> sfs_sync v; if ret = None then Some v else sync_tries n v }"

definition sfs_cleanup :: "vstate \<Rightarrow> vstate option" where
  "sfs_cleanup v = sync_tries 32 v"

subsection \<open>The device table (vfsdev.c)\<close>

abbreviation (input) FS_MAX_DNAME_LEN :: nat where "FS_MAX_DNAME_LEN \<equiv> 31"

definition lock_vdev_list :: "vstate \<Rightarrow> vstate option" where
  "lock_vdev_list v = do { n \<leftarrow> down_sem (vdev_list_sem v); Some (v\<lparr>vdev_list_sem := n\<rparr>) }"

definition unlock_vdev_list :: "vstate \<Rightarrow> vstate" where
  "unlock_vdev_list v = v\<lparr>vdev_list_sem := up_sem (vdev_list_sem v)\<rparr>"

definition vfs_devlist_init :: "vstate \<Rightarrow> vstate" where
  "vfs_devlist_init v = v\<lparr>vdev_list := [], vdev_list_sem := 1\<rparr>"

fun cleanup_loop :: "vfs_dev list \<Rightarrow> vstate \<Rightarrow> vstate option" where
  "cleanup_loop [] v = Some v"
| "cleanup_loop (vd # vds) v = do { v \<leftarrow> (if dev_fs vd then sfs_cleanup v else Some v); cleanup_loop vds v }"

definition vfs_cleanup :: "vstate \<Rightarrow> vstate option" where
  "vfs_cleanup v =
     (if vdev_list v \<noteq> [] then do {
        v \<leftarrow> lock_vdev_list v;
        v \<leftarrow> cleanup_loop (vdev_list v) v;
        Some (unlock_vdev_list v)
      } else Some v)"

fun get_root_loop :: "vfs_dev list \<Rightarrow> u8 list \<Rightarrow> vstate \<Rightarrow> ((err + nat) \<times> vstate) option" where
  "get_root_loop [] name v = Some (Inl E_NO_DEV, v)"
| "get_root_loop (vd # vds) name v =
     (if name = devname vd then
        (if dev_fs vd then do { (nd, v) \<leftarrow> sfs_get_root v; Some (Inr nd, v) }
         else if \<not> mountable vd then do {
           nd \<leftarrow> devnode vd;
           (_, v) \<leftarrow> inode_ref_inc nd v;
           Some (Inr nd, v)
         }
         else Some (Inl E_NA_DEV, v))
      else get_root_loop vds name v)"

definition vfs_get_root :: "u8 list \<Rightarrow> vstate \<Rightarrow> ((err + nat) \<times> vstate) option" where
  "vfs_get_root name v =
     (if vdev_list v \<noteq> [] then do {
        v \<leftarrow> lock_vdev_list v;
        (r, v) \<leftarrow> get_root_loop (vdev_list v) name v;
        Some (r, unlock_vdev_list v)
      } else Some (Inl E_NO_DEV, v))"

text \<open>The only file system is the mounted one: an entry with \<open>fs\<close> set is its device.\<close>

definition vfs_get_devname :: "vstate \<Rightarrow> u8 list option" where
  "vfs_get_devname v = map_option devname (find dev_fs (vdev_list v))"

definition check_devname_conflict :: "u8 list \<Rightarrow> vstate \<Rightarrow> bool" where
  "check_devname_conflict name v = list_all (\<lambda>vd. devname vd \<noteq> name) (vdev_list v)"

definition vfs_do_add :: "u8 list \<Rightarrow> nat option \<Rightarrow> bool \<Rightarrow> bool \<Rightarrow> vstate \<Rightarrow> (err option \<times> vstate) option" where
  "vfs_do_add name nd fs mnt v =
     do {
       assert_that (nd = None \<and> \<not> mnt
         \<or> (case nd of None \<Rightarrow> False | Some nd \<Rightarrow> (inodes v nd \<bind> device_info) \<noteq> None));
       if length name > FS_MAX_DNAME_LEN then Some (Some E_TOO_BIG, v)
       else if heap_left v < 2 then Some (Some E_NO_MEM, v)
       else do {
         v \<leftarrow> lock_vdev_list v;
         if \<not> check_devname_conflict name v then Some (Some E_EXISTS, unlock_vdev_list v)
         else
           (let vd = \<lparr>devname = name, devnode = nd, dev_fs = fs, mountable = mnt\<rparr>
            in Some (None, unlock_vdev_list (v\<lparr>heap_left := heap_left v - 2, vdev_list := vd # vdev_list v\<rparr>)))
       }
     }"

definition vfs_add_fs :: "u8 list \<Rightarrow> bool \<Rightarrow> vstate \<Rightarrow> (err option \<times> vstate) option" where
  "vfs_add_fs name fs v = vfs_do_add name None fs False v"

definition vfs_add_dev :: "u8 list \<Rightarrow> nat \<Rightarrow> bool \<Rightarrow> vstate \<Rightarrow> (err option \<times> vstate) option" where
  "vfs_add_dev name nd mnt v = vfs_do_add name (Some nd) False mnt v"

definition find_mount :: "u8 list \<Rightarrow> vstate \<Rightarrow> (nat \<times> vfs_dev) option" where
  "find_mount name v =
     (case find (\<lambda>i. mountable (vdev_list v ! i) \<and> devname (vdev_list v ! i) = name) [0..<length (vdev_list v)] of
        None \<Rightarrow> None | Some i \<Rightarrow> Some (i, vdev_list v ! i))"

definition vfs_mount :: "u8 list \<Rightarrow> vstate \<Rightarrow> (err option \<times> vstate) option" where
  "vfs_mount name v =
     do {
       v \<leftarrow> lock_vdev_list v;
       (case find_mount name v of
          None \<Rightarrow> Some (Some E_NO_DEV, unlock_vdev_list v)
        | Some (i, vd) \<Rightarrow>
            if dev_fs vd then Some (Some E_BUSY, unlock_vdev_list v)
            else do {
              nd \<leftarrow> devnode vd;
              n \<leftarrow> inodes v nd;
              dk \<leftarrow> device_info n;
              if dk \<noteq> Dev_disk0 then Some (Some E_NA_DEV, unlock_vdev_list v)
              else do {
                (r, heap, d) \<leftarrow> sfs_do_mount (heap_left v) (dev (vsfs v));
                (case r of
                   Inl e \<Rightarrow> Some (Some e, unlock_vdev_list (v\<lparr>vsfs := (vsfs v)\<lparr>dev := d\<rparr>, heap_left := heap\<rparr>))
                 | Inr s \<Rightarrow> Some (None, unlock_vdev_list
                     (v\<lparr>vsfs := s, heap_left := heap, vdev_list := (vdev_list v)[i := vd\<lparr>dev_fs := True\<rparr>]\<rparr>)))
              }
            })
     }"

definition vfs_unmount :: "u8 list \<Rightarrow> vstate \<Rightarrow> (err option \<times> vstate) option" where
  "vfs_unmount name v =
     do {
       v \<leftarrow> lock_vdev_list v;
       (case find_mount name v of
          None \<Rightarrow> Some (Some E_NO_DEV, unlock_vdev_list v)
        | Some (i, vd) \<Rightarrow>
            if \<not> dev_fs vd then Some (Some E_INVAL, unlock_vdev_list v)
            else do {
              (ret, v) \<leftarrow> sfs_sync v;
              if ret \<noteq> None then Some (ret, unlock_vdev_list v)
              else do {
                (ret, v) \<leftarrow> sfs_unmount v;
                let v = (if ret = None then v\<lparr>vdev_list := (vdev_list v)[i := vd\<lparr>dev_fs := False\<rparr>]\<rparr> else v);
                Some (ret, unlock_vdev_list v)
              }
            })
     }"

fun unmount_all_loop :: "nat \<Rightarrow> nat \<Rightarrow> vstate \<Rightarrow> vstate option" where
  "unmount_all_loop 0 i v = Some v"
| "unmount_all_loop (Suc n) i v =
     (let vd = vdev_list v ! i in
      if mountable vd \<and> dev_fs vd then do {
        (ret, v) \<leftarrow> sfs_sync v;
        if ret \<noteq> None then unmount_all_loop n (i + 1) v
        else do {
          (ret, v) \<leftarrow> sfs_unmount v;
          unmount_all_loop n (i + 1)
            (if ret \<noteq> None then v else v\<lparr>vdev_list := (vdev_list v)[i := vd\<lparr>dev_fs := False\<rparr>]\<rparr>)
        }
      }
      else unmount_all_loop n (i + 1) v)"

definition vfs_unmount_all :: "vstate \<Rightarrow> vstate option" where
  "vfs_unmount_all v =
     (if vdev_list v \<noteq> [] then do {
        v \<leftarrow> lock_vdev_list v;
        v \<leftarrow> unmount_all_loop (length (vdev_list v)) 0 v;
        Some (unlock_vdev_list v)
      } else Some v)"

definition sfs_init :: "vstate \<Rightarrow> vstate option" where
  "sfs_init v =
     do {
       (ret, v) \<leftarrow> vfs_mount [100, 105, 115, 107, 48] v;
       if ret = None then Some v else None
     }"

subsection \<open>The current directory (vfspath.c)\<close>

definition cur_fs :: "vstate \<Rightarrow> files_struct option" where
  "cur_fs v = fstructs v (cur_files v)"

definition upd_files :: "nat \<Rightarrow> (files_struct \<Rightarrow> files_struct) \<Rightarrow> vstate \<Rightarrow> vstate" where
  "upd_files i f v = v\<lparr>fstructs := (fstructs v)(i := map_option f (fstructs v i))\<rparr>"

definition lock_files :: "nat \<Rightarrow> vstate \<Rightarrow> vstate option" where
  "lock_files i v =
     do { f \<leftarrow> fstructs v i; n \<leftarrow> down_sem (files_sem f); Some (upd_files i (\<lambda>f. f\<lparr>files_sem := n\<rparr>) v) }"

definition unlock_files :: "nat \<Rightarrow> vstate \<Rightarrow> vstate" where
  "unlock_files i v = upd_files i (\<lambda>f. f\<lparr>files_sem := up_sem (files_sem f)\<rparr>) v"

definition vfs_get_curdir :: "vstate \<Rightarrow> ((err + nat) \<times> vstate) option" where
  "vfs_get_curdir v =
     do {
       f \<leftarrow> cur_fs v;
       (case pwd f of
          Some nd \<Rightarrow> do { (_, v) \<leftarrow> inode_ref_inc nd v; Some (Inr nd, v) }
        | None \<Rightarrow> Some (Inl E_NOENT, v))
     }"

definition S_ISDIR :: "u32 \<Rightarrow> bool" where
  "S_ISDIR m = (m AND S_IFMT = S_IFDIR)"

text \<open>Making \<open>dir\<close> the current directory once its type has been checked.\<close>

definition set_cwd :: "nat option \<Rightarrow> nat option \<Rightarrow> vstate \<Rightarrow> vstate option" where
  "set_cwd old dir v =
     do {
       let v = upd_files (cur_files v) (\<lambda>f. f\<lparr>pwd := dir\<rparr>) v;
       (case old of
          None \<Rightarrow> Some v
        | Some nd \<Rightarrow> do { (_, v) \<leftarrow> inode_ref_dec nd v; Some v })
     }"

definition vfs_set_curdir :: "nat option \<Rightarrow> vstate \<Rightarrow> (err option \<times> vstate) option" where
  "vfs_set_curdir dir v =
     do {
       v \<leftarrow> lock_files (cur_files v) v;
       f \<leftarrow> cur_fs v;
       (ret, v) \<leftarrow>
         (if pwd f \<noteq> dir then
            (case dir of
               None \<Rightarrow> do { v \<leftarrow> set_cwd (pwd f) None v; Some (None, v) }
             | Some nd \<Rightarrow> do {
                 ty \<leftarrow> vop_gettype nd v;
                 if \<not> S_ISDIR ty then Some (Some E_NOTDIR, v)
                 else do {
                   (_, v) \<leftarrow> inode_ref_inc nd v;
                   v \<leftarrow> set_cwd (pwd f) (Some nd) v;
                   Some (None, v)
                 }
               })
          else Some (None, v));
       Some (ret, unlock_files (cur_files v) v)
     }"

subsection \<open>Path lookup (vfslookup.c)\<close>

definition vfs_get_bootfs :: "vstate \<Rightarrow> ((err + nat) \<times> vstate) option" where
  "vfs_get_bootfs v =
     (case bootfs_node v of
        None \<Rightarrow> Some (Inl E_NOENT, v)
      | Some nd \<Rightarrow> do { (_, v) \<leftarrow> inode_ref_inc nd v; Some (Inr nd, v) })"

text \<open>The part of the path before the first colon or slash, and what follows.\<close>

definition path_head :: "u8 list \<Rightarrow> u8 list" where
  "path_head path = takeWhile (\<lambda>c. c \<noteq> COLON \<and> c \<noteq> SLASH) path"

definition path_rest :: "u8 list \<Rightarrow> u8 list" where
  "path_rest path = dropWhile (\<lambda>c. c \<noteq> COLON \<and> c \<noteq> SLASH) path"

definition skip_slashes :: "u8 list \<Rightarrow> u8 list" where
  "skip_slashes path = dropWhile (\<lambda>c. c = SLASH) path"

definition get_device :: "u8 list \<Rightarrow> vstate \<Rightarrow> ((err + u8 list \<times> nat) \<times> vstate) option" where
  "get_device path v =
     (let head = path_head path; rest = path_rest path;
          found = (\<lambda>sub r. case r of Inl e \<Rightarrow> Inl e | Inr nd \<Rightarrow> Inr (sub, nd)) in
      if rest = [] \<or> rest ! 0 = SLASH \<and> head \<noteq> [] then do {
        (r, v) \<leftarrow> vfs_get_curdir v;
        Some (found path r, v)
      }
      else if head \<noteq> [] then do {
        (r, v) \<leftarrow> vfs_get_root head v;
        Some (found (skip_slashes (tl rest)) r, v)
      }
      else if rest ! 0 = SLASH then do {
        (r, v) \<leftarrow> vfs_get_bootfs v;
        Some (found (skip_slashes (tl rest)) r, v)
      }
      else do {
        (r, v) \<leftarrow> vfs_get_curdir v;
        (case r of
           Inl e \<Rightarrow> Some (Inl e, v)
         | Inr nd \<Rightarrow> do {
             n \<leftarrow> inodes v nd;
             assert_that (in_fs n);
             (root, v) \<leftarrow> sfs_get_root v;
             (_, v) \<leftarrow> inode_ref_dec nd v;
             Some (Inr (skip_slashes (tl rest), root), v)
           })
      })"

definition vfs_lookup :: "u8 list \<Rightarrow> vstate \<Rightarrow> ((err + nat) \<times> vstate) option" where
  "vfs_lookup path v =
     do {
       (r, v) \<leftarrow> get_device path v;
       (case r of
          Inl e \<Rightarrow> Some (Inl e, v)
        | Inr (sub, nd) \<Rightarrow>
            if sub \<noteq> [] then do {
              (r, v) \<leftarrow> vop_lookup nd sub v;
              (_, v) \<leftarrow> inode_ref_dec nd v;
              Some (r, v)
            }
            else Some (Inr nd, v))
     }"

definition vfs_lookup_parent :: "u8 list \<Rightarrow> vstate \<Rightarrow> ((err + u8 list \<times> nat) \<times> vstate) option" where
  "vfs_lookup_parent path v = get_device path v"

definition vfs_chdir :: "u8 list \<Rightarrow> vstate \<Rightarrow> (err option \<times> vstate) option" where
  "vfs_chdir path v =
     do {
       (r, v) \<leftarrow> vfs_lookup path v;
       (case r of
          Inl e \<Rightarrow> Some (Some e, v)
        | Inr nd \<Rightarrow> do {
            (ret, v) \<leftarrow> vfs_set_curdir (Some nd) v;
            (_, v) \<leftarrow> inode_ref_dec nd v;
            Some (ret, v)
          })
     }"

definition vfs_getcwd :: "iobuf \<Rightarrow> vstate \<Rightarrow> (err option \<times> iobuf \<times> vstate) option" where
  "vfs_getcwd iob v =
     do {
       (r, v) \<leftarrow> vfs_get_curdir v;
       (case r of
          Inl e \<Rightarrow> Some (Some e, iob, v)
        | Inr nd \<Rightarrow> do {
            n \<leftarrow> inodes v nd;
            assert_that (in_fs n);
            name \<leftarrow> vfs_get_devname v;
            (ret, _, _, iob) \<leftarrow> iobuf_move iob name (length name) True;
            (ret, iob, v) \<leftarrow>
              (if ret \<noteq> None then Some (ret, iob, v)
               else do {
                 (ret, _, _, iob) \<leftarrow> iobuf_move iob [COLON] 1 True;
                 if ret \<noteq> None then Some (ret, iob, v) else vop_namefile nd iob v
               });
            (_, v) \<leftarrow> inode_ref_dec nd v;
            Some (ret, iob, v)
          })
     }"

subsection \<open>The boot file system (vfs.c)\<close>

definition change_bootfs :: "nat option \<Rightarrow> vstate \<Rightarrow> vstate option" where
  "change_bootfs nd v =
     (case bootfs_node v of
        None \<Rightarrow> Some (v\<lparr>bootfs_node := nd\<rparr>)
      | Some old \<Rightarrow> do { (_, v) \<leftarrow> inode_ref_dec old (v\<lparr>bootfs_node := nd\<rparr>); Some v })"

definition vfs_set_bootfs :: "u8 list option \<Rightarrow> vstate \<Rightarrow> (err option \<times> vstate) option" where
  "vfs_set_bootfs fsname v =
     (case fsname of
        None \<Rightarrow> do { v \<leftarrow> change_bootfs None v; Some (None, v) }
      | Some name \<Rightarrow>
          if dropWhile (\<lambda>c. c \<noteq> COLON) name \<noteq> [COLON] then Some (Some E_INVAL, v)
          else do {
            (ret, v) \<leftarrow> vfs_chdir name v;
            if ret \<noteq> None then Some (ret, v)
            else do {
              (r, v) \<leftarrow> vfs_get_curdir v;
              (case r of
                 Inl e \<Rightarrow> Some (Some e, v)
               | Inr nd \<Rightarrow> do { v \<leftarrow> change_bootfs (Some nd) v; Some (None, v) })
            }
          })"

subsection \<open>Opening and closing (vfsfile.c)\<close>

text \<open>
  \<open>get_device\<close> overwrites the colon behind a device name in the caller's string: when the lookup fails and
  \<open>vfs_open\<close> looks up the parent, only the device name is left of the path.
\<close>

definition cut_path :: "u8 list \<Rightarrow> u8 list" where
  "cut_path path =
     (if path_head path \<noteq> [] \<and> path_rest path \<noteq> [] \<and> path_rest path ! 0 = COLON then path_head path else path)"

text \<open>The node to open: the one found, or a new one. Then what is done with it.\<close>

definition find_or_create :: "u8 list \<Rightarrow> bool \<Rightarrow> bool \<Rightarrow> vstate \<Rightarrow> ((err + nat) \<times> vstate) option" where
  "find_or_create path excl create v =
     do {
       (r, v) \<leftarrow> vfs_lookup path v;
       (case r of
          Inl e \<Rightarrow>
            if e = E_NOENT \<and> create then do {
              (r, v) \<leftarrow> vfs_lookup_parent (cut_path path) v;
              (case r of
                 Inl e \<Rightarrow> Some (Inl e, v)
               | Inr (name, dir) \<Rightarrow> vop_create dir name excl v)
            }
            else Some (Inl e, v)
        | Inr nd \<Rightarrow> if excl \<and> create then Some (Inl E_EXISTS, v) else Some (Inr nd, v))
     }"

definition open_node :: "nat \<Rightarrow> u32 \<Rightarrow> vstate \<Rightarrow> ((err + nat) \<times> vstate) option" where
  "open_node nd flags v =
     do {
       ret \<leftarrow> vop_open nd flags v;
       (case ret of
          Some e \<Rightarrow> do { (_, v) \<leftarrow> inode_ref_dec nd v; Some (Inl e, v) }
        | None \<Rightarrow> do {
            (_, v) \<leftarrow> inode_open_inc nd v;
            (ret, v) \<leftarrow>
              (if flags AND O_TRUNC \<noteq> 0 \<or> flags AND O_CREAT \<noteq> 0 then vop_truncate nd 0 v else Some (None, v));
            (case ret of
               Some e \<Rightarrow> do {
                 (_, v) \<leftarrow> inode_open_dec nd v;
                 (_, v) \<leftarrow> inode_ref_dec nd v;
                 Some (Inl e, v)
               }
             | None \<Rightarrow> Some (Inr nd, v))
          })
     }"

definition vfs_open :: "u8 list \<Rightarrow> u32 \<Rightarrow> vstate \<Rightarrow> ((err + nat) \<times> vstate) option" where
  "vfs_open path flags v =
     (let acc = flags AND O_ACCMODE; can_write = (acc = O_WRONLY \<or> acc = O_RDWR) in
      if \<not> (acc = O_RDONLY \<or> can_write) then Some (Inl E_INVAL, v)
      else if flags AND O_TRUNC \<noteq> 0 \<and> \<not> can_write then Some (Inl E_INVAL, v)
      else do {
        (r, v) \<leftarrow> find_or_create path (flags AND O_EXCL \<noteq> 0) (flags AND O_CREAT \<noteq> 0) v;
        (case r of Inl e \<Rightarrow> Some (Inl e, v) | Inr nd \<Rightarrow> open_node nd flags v)
      })"

definition vfs_close :: "nat \<Rightarrow> vstate \<Rightarrow> vstate option" where
  "vfs_close nd v =
     do {
       (_, v) \<leftarrow> inode_open_dec nd v;
       (_, v) \<leftarrow> inode_ref_dec nd v;
       Some v
     }"

text \<open>The operations of \<open>vfsfile.c\<close> that are not implemented.\<close>

definition vfs_link :: "u8 list \<Rightarrow> u8 list \<Rightarrow> err option" where "vfs_link old_path new_path = Some E_UNIMP"
definition vfs_rename :: "u8 list \<Rightarrow> u8 list \<Rightarrow> err option" where "vfs_rename old_path new_path = Some E_UNIMP"
definition vfs_unlink :: "u8 list \<Rightarrow> err option" where "vfs_unlink path = Some E_UNIMP"

end
