(* ===== verification/VfsFrame.thy ===== *)
theory VfsFrame
  imports InodeCache Vfs
begin

text \<open>
  The operations of the virtual file system keep the invariant of theory InodeCache and leave the tables of open
  files alone; the open count of a node changes only in \<open>vfs_open\<close> and \<open>vfs_close\<close>, by one.
\<close>

subsection \<open>Operations on inodes\<close>

lemmas keeps = ref_inc_keeps ref_dec_keeps vop_fsync_keeps vop_truncate_keeps

lemma on_sfs_search:
  assumes "on_sfs nd (\<lambda>s sn. do {
           sn \<leftarrow> lock_sin sn;
           (r, hole, s, sn) \<leftarrow> sfs_dirent_search_nolock m s sn name;
           Some (r, s, unlock_sin sn)
         }) v = Some (r, v')" "well v"
  shows "well v' \<and> view v' = view v"
  by (rule on_sfs_keeps [OF assms]) (auto elim!: bind_SomeE dest!: lock_ident dirent_search_nolock_ident)

lemma lookup_once_keeps:
  assumes "sfs_lookup_once nd name v = Some (r, v')" "well v"
  shows "well v' \<and> view v' = view v"
  using assms by (auto simp: sfs_lookup_once_def split: sum.splits elim!: bind_SomeE dest!: on_sfs_search load_inode_keeps)

lemma sfs_lookup_keeps:
  assumes "sfs_lookup nd path v = Some (r, v')" "well v"
  shows "well v' \<and> view v' = view v"
  using assms by (auto simp: sfs_lookup_def split: if_splits elim!: bind_SomeE dest!: keeps lookup_once_keeps)

lemma vop_close_keeps: "vop_close nd v = Some (r, v') \<Longrightarrow> well v \<Longrightarrow> well v' \<and> view v' = view v"
  by (auto simp: vop_close_def sfs_close_def split: inode_ops.splits elim!: bind_SomeE dest!: keeps)

lemma on_sfs_findino:
  assumes "on_sfs nd (\<lambda>s sp. do {
           sp \<leftarrow> lock_sin sp;
           (r, s, sp) \<leftarrow> sfs_dirent_findino_nolock s sp i;
           Some (r, s, unlock_sin sp)
         }) v = Some (r, v')" "well v"
  shows "well v' \<and> view v' = view v"
  by (rule on_sfs_keeps [OF assms])
    (auto simp: sfs_dirent_findino_nolock_def elim!: bind_SomeE dest!: lock_ident dirent_findino_ident)

definition loop_frame :: "vstate \<Rightarrow> err option \<times> u8 list \<times> nat \<times> vstate \<Rightarrow> bool" where
  "loop_frame v x \<longleftrightarrow> (case x of (r, p, k, v') \<Rightarrow> well v \<longrightarrow> well v' \<and> view v' = view v)"

lemma namefile_loop_frame: "namefile_loop nd path resid v = Some x \<Longrightarrow> loop_frame v x"
proof (rule namefile_loop.raw_induct [where P = "\<lambda>nd path resid v x. loop_frame v x"], goal_cases)
  case (1 loop nd path resid v x)
  from 1(3) show ?case
    by (auto simp: Let_def loop_frame_def split: sum.splits if_splits elim!: bind_SomeE
        dest!: lookup_once_keeps keeps on_sfs_findino 1(2))
qed

lemma namefile_keeps:
  assumes "sfs_namefile nd iob v = Some (r, iob', v')" "well v"
  shows "well v' \<and> view v' = view v"
  using assms by (auto simp: sfs_namefile_def Let_def split: if_splits elim!: bind_SomeE dest!: keeps namefile_loop_frame [unfolded loop_frame_def])

lemma vop_namefile_keeps: "vop_namefile nd iob v = Some (r, iob', v') \<Longrightarrow> well v \<Longrightarrow> well v' \<and> view v' = view v"
  by (auto simp: vop_namefile_def elim!: bind_SomeE dest!: namefile_keeps)

lemma dop_io_keeps: "dop_io dk iob wr v = Some (r, iob', v') \<Longrightarrow> well v \<Longrightarrow> well v' \<and> view v' = view v"
  by (auto simp: dop_io_def stdin_io_def stdout_io_def Let_def split: dev_kind.splits if_splits prod.splits elim!: bind_SomeE)

lemma on_sfs_io:
  assumes "on_sfs nd (\<lambda>s sn. do {
                (ret, iob, s, sn) \<leftarrow> (if wr then sfs_write s sn iob else sfs_read s sn iob);
                Some ((ret, iob), s, sn)
              }) v = Some (r, v')" "well v"
  shows "well v' \<and> view v' = view v"
  by (rule on_sfs_keeps [OF assms])
    (auto simp: sfs_read_def sfs_write_def split: if_splits elim!: bind_SomeE dest!: sfs_io_ident)

lemma vop_io_keeps: "vop_io wr nd iob v = Some (r, iob', v') \<Longrightarrow> well v \<Longrightarrow> well v' \<and> view v' = view v"
  unfolding vop_io_def by (auto split: inode_ops.splits elim!: bind_SomeE dest!: on_sfs_io dop_io_keeps)

lemmas on_sfs_tryseek = on_sfs_keeps [where f = "\<lambda>s sn. sfs_tryseek s sn pos" for pos, OF _ _ tryseek_ident]

lemma vop_tryseek_keeps: "vop_tryseek nd pos v = Some (r, v') \<Longrightarrow> well v \<Longrightarrow> well v' \<and> view v' = view v"
  by (auto simp: vop_tryseek_def split: inode_ops.splits elim!: bind_SomeE dest!: on_sfs_tryseek)

lemma on_sfs_getdirentry:
  assumes "on_sfs nd (\<lambda>s sn. do {
           (ret, iob, s, sn) \<leftarrow> sfs_getdirentry m s sn iob;
           Some ((ret, iob), s, sn)
         }) v = Some (r, v')" "well v"
  shows "well v' \<and> view v' = view v"
  by (rule on_sfs_keeps [OF assms]) (auto elim!: bind_SomeE dest!: getdirentry_ident)

lemma vop_getdirentry_keeps:
  "vop_getdirentry nd iob v = Some (r, iob', v') \<Longrightarrow> well v \<Longrightarrow> well v' \<and> view v' = view v"
  by (auto simp: vop_getdirentry_def elim!: bind_SomeE dest!: on_sfs_getdirentry)

lemma vop_lookup_keeps: "vop_lookup nd path v = Some (r, v') \<Longrightarrow> well v \<Longrightarrow> well v' \<and> view v' = view v"
  by (auto simp: vop_lookup_def dev_lookup_def split: inode_ops.splits if_splits elim!: bind_SomeE
      dest!: sfs_lookup_keeps keeps)

lemma vop_create_never: "vop_create nd name excl v = None"
  by (auto simp: vop_create_def vop_enter_def bind_assert)

subsection \<open>Open counts\<close>

lemma upd_open_keeps:
  assumes "well v" "inodes v nd = Some n" "\<And>n. in_info (f n) = in_info n \<and> in_ops (f n) = in_ops n \<and> in_fs (f n) = in_fs n"
  shows "well (upd_inode nd f v)" "view (upd_inode nd f v) = ((opens v)(nd := open_count (f n)), fstructs v, cur_files v)"
proof -
  show "well (upd_inode nd f v)"
    using wellD [OF assms(1,2)] assms(3) [of n]
    by (intro well_upd [OF assms(1,2)]) (auto simp: node_typed_def ino_of_def split: node_info.splits)
  show "view (upd_inode nd f v) = ((opens v)(nd := open_count (f n)), fstructs v, cur_files v)"
    using assms(2) by (simp add: view_def opens_def fun_eq_iff inodes_upd)
qed

lemma open_inc_keeps:
  assumes "inode_open_inc nd v = Some (r, v')" "well v"
  shows "well v' \<and> view v' = ((opens v)(nd := opens v nd + 1), fstructs v, cur_files v)"
proof -
  obtain n where n: "inodes v nd = Some n" and v': "v' = upd_inode nd (\<lambda>n. n\<lparr>open_count := open_count n + 1\<rparr>) v"
    using assms(1) by (auto simp: inode_open_inc_def elim!: bind_SomeE)
  then show ?thesis using upd_open_keeps [OF assms(2) n, of "\<lambda>n. n\<lparr>open_count := open_count n + 1\<rparr>"]
    by (simp add: opens_def)
qed

lemma open_dec_keeps:
  assumes "inode_open_dec nd v = Some (r, v')" "well v"
  shows "well v' \<and> view v' = ((opens v)(nd := opens v nd - 1), fstructs v, cur_files v) \<and> opens v nd > 0"
proof -
  obtain n where n: "inodes v nd = Some n" "open_count n > 0"
    using assms(1) by (auto simp: inode_open_dec_def elim!: bind_SomeE)
  let ?v = "upd_inode nd (\<lambda>n. n\<lparr>open_count := open_count n - 1\<rparr>) v"
  have w: "well ?v" "view ?v = ((opens v)(nd := opens v nd - 1), fstructs v, cur_files v)"
    using upd_open_keeps [OF assms(2) n(1), of "\<lambda>n. n\<lparr>open_count := open_count n - 1\<rparr>"] n by (simp_all add: opens_def)
  show ?thesis using assms(1) n w vop_close_keeps [of nd ?v]
    by (auto simp: inode_open_dec_def Let_def opens_def [of v nd] split: if_splits elim!: bind_SomeE)
qed

subsection \<open>Paths\<close>

lemma get_root_keeps: "sfs_get_root v = Some (nd, v') \<Longrightarrow> well v \<Longrightarrow> well v' \<and> view v' = view v"
  by (auto simp: sfs_get_root_def split: sum.splits elim!: bind_SomeE dest!: load_inode_keeps)

lemma lock_vdev_keeps: "lock_vdev_list v = Some v' \<Longrightarrow> well v' = well v \<and> view v' = view v"
  by (auto simp: lock_vdev_list_def elim!: bind_SomeE)

lemma unlock_vdev_keeps [simp]: "well (unlock_vdev_list v) = well v" "view (unlock_vdev_list v) = view v"
  by (simp_all add: unlock_vdev_list_def)

lemma get_root_loop_keeps:
  "get_root_loop vds name v = Some (r, v') \<Longrightarrow> well v \<Longrightarrow> well v' \<and> view v' = view v"
  by (induction vds) (auto split: if_splits elim!: bind_SomeE dest!: get_root_keeps keeps)

lemma vfs_get_root_keeps: "vfs_get_root name v = Some (r, v') \<Longrightarrow> well v \<Longrightarrow> well v' \<and> view v' = view v"
  by (auto simp: vfs_get_root_def split: if_splits elim!: bind_SomeE dest!: get_root_loop_keeps lock_vdev_keeps)

lemma get_curdir_keeps: "vfs_get_curdir v = Some (r, v') \<Longrightarrow> well v \<Longrightarrow> well v' \<and> view v' = view v"
  by (auto simp: vfs_get_curdir_def split: option.splits elim!: bind_SomeE dest!: keeps)

lemma get_bootfs_keeps: "vfs_get_bootfs v = Some (r, v') \<Longrightarrow> well v \<Longrightarrow> well v' \<and> view v' = view v"
  by (auto simp: vfs_get_bootfs_def split: option.splits elim!: bind_SomeE dest!: keeps)

lemma get_device_keeps: "get_device path v = Some (r, v') \<Longrightarrow> well v \<Longrightarrow> well v' \<and> view v' = view v"
  by (auto simp: get_device_def Let_def split: if_splits sum.splits elim!: bind_SomeE
      dest!: get_root_keeps get_curdir_keeps get_bootfs_keeps vfs_get_root_keeps keeps)

lemma vfs_lookup_keeps: "vfs_lookup path v = Some (r, v') \<Longrightarrow> well v \<Longrightarrow> well v' \<and> view v' = view v"
  by (auto simp: vfs_lookup_def split: if_splits sum.splits elim!: bind_SomeE
      dest!: get_device_keeps vop_lookup_keeps keeps)

subsection \<open>Opening and closing\<close>

lemma view_eqD: "view v' = view v \<Longrightarrow> opens v' = opens v \<and> fstructs v' = fstructs v \<and> cur_files v' = cur_files v"
  by (simp add: view_def)

lemma vfs_close_keeps:
  assumes "vfs_close nd v = Some v'" "well v"
  shows "well v' \<and> view v' = ((opens v)(nd := opens v nd - 1), fstructs v, cur_files v)"
  using assms by (auto simp: vfs_close_def elim!: bind_SomeE dest!: open_dec_keeps keeps)

lemma find_or_create_keeps:
  "find_or_create path excl create v = Some (r, v') \<Longrightarrow> well v \<Longrightarrow> well v' \<and> view v' = view v"
  by (auto simp: find_or_create_def vfs_lookup_parent_def vop_create_never split: if_splits sum.splits
      elim!: bind_SomeE dest!: vfs_lookup_keeps get_device_keeps)

lemma open_node_keeps:
  assumes r: "open_node nd flags v = Some (r, v')" and w: "well v"
  shows "well v' \<and> view v' = ((if r = Inr nd then (opens v)(nd := opens v nd + 1) else opens v), fstructs v, cur_files v)
    \<and> (\<forall>k. r = Inr k \<longrightarrow> k = nd)"
proof -
  obtain ret where o1: "vop_open nd flags v = Some ret" using r by (auto simp: open_node_def elim!: bind_SomeE)
  show ?thesis
  proof (cases ret)
    case (Some e)
    then show ?thesis using r w o1 by (auto simp: open_node_def view_def elim!: bind_SomeE dest!: ref_dec_keeps)
  next
    case None
    obtain c v1 where i: "inode_open_inc nd v = Some (c, v1)"
      using r o1 None by (auto simp: open_node_def elim!: bind_SomeE)
    note w1 = open_inc_keeps [OF i w]
    obtain ret2 v2 where t: "(if flags AND O_TRUNC \<noteq> 0 \<or> flags AND O_CREAT \<noteq> 0 then vop_truncate nd 0 v1 else Some (None, v1))
        = Some (ret2, v2)"
      using r o1 None i by (auto simp: open_node_def elim!: bind_SomeE)
    have w2: "well v2" "view v2 = view v1" using t w1 vop_truncate_keeps [of nd 0 v1 ret2 v2] by (auto split: if_splits)
    show ?thesis
    proof (cases ret2)
      case None
      then have "r = Inr nd" "v' = v2" using r o1 \<open>ret = None\<close> i t by (auto simp: open_node_def)
      then show ?thesis using w2 w1 by simp
    next
      case (Some e)
      then obtain c2 v3 c3 where d: "inode_open_dec nd v2 = Some (c2, v3)" "inode_ref_dec nd v3 = Some (c3, v')" "r = Inl e"
        using r o1 \<open>ret = None\<close> i t by (auto simp: open_node_def elim!: bind_SomeE)
      have "opens v2 nd = opens v nd + 1" "(opens v2)(nd := opens v nd) = opens v" "fstructs v2 = fstructs v" "cur_files v2 = cur_files v"
        using w2(2) w1 by (auto simp: view_def)
      then show ?thesis using open_dec_keeps [OF d(1) w2(1)] ref_dec_keeps [OF d(2)] d(3) by auto
    qed
  qed
qed

lemma vfs_open_keeps:
  assumes "vfs_open path flags v = Some (r, v')" "well v"
  shows "well v' \<and> view v' = ((case r of Inl e \<Rightarrow> opens v | Inr nd \<Rightarrow> (opens v)(nd := opens v nd + 1)), fstructs v, cur_files v)"
proof (cases "v' = v \<and> (\<exists>e. r = Inl e)")
  case True
  then show ?thesis using assms(2) by (auto simp: view_def)
next
  case False
  then obtain r1 v1 where f: "find_or_create path (flags AND O_EXCL \<noteq> 0) (flags AND O_CREAT \<noteq> 0) v = Some (r1, v1)"
    and g: "(case r1 of Inl e \<Rightarrow> Some (Inl e, v1) | Inr nd \<Rightarrow> open_node nd flags v1) = Some (r, v')"
    using assms(1) by (auto simp: vfs_open_def Let_def split: if_splits elim!: bind_SomeE)
  note w1 = find_or_create_keeps [OF f assms(2)]
  show ?thesis
  proof (cases r1)
    case (Inl e)
    then show ?thesis using g w1 by (auto simp: view_def)
  next
    case (Inr nd)
    then have "open_node nd flags v1 = Some (r, v')" using g by simp
    from open_node_keeps [OF this] w1 show ?thesis by (cases r) (auto simp: view_def)
  qed
qed

subsection \<open>Dispatch without checks\<close>

text \<open>
  The operations of a node as they are once its kind is known: a device operation applied to the kind of the device,
  or an operation of the Simple FS applied to the inode \<open>sn\<close> behind the node. There is no test of a type left in them,
  so that they fail only where the operation itself does.
\<close>

definition on_inode :: "nat \<Rightarrow> sfs_inode \<Rightarrow> (sfs_fs \<Rightarrow> sfs_inode \<Rightarrow> ('a \<times> sfs_fs \<times> sfs_inode) option) \<Rightarrow> vstate \<Rightarrow> ('a \<times> vstate) option" where
  "on_inode nd sn f v =
     map_option (\<lambda>(r, s, sn'). (r, upd_inode nd (\<lambda>n. n\<lparr>in_info := Sfs_info sn'\<rparr>) (v\<lparr>vsfs := s\<rparr>))) (f (vsfs v) sn)"

definition device_dispatch :: "vstate \<Rightarrow> nat \<Rightarrow> dev_kind \<Rightarrow> bool" where
  "device_dispatch v nd dk \<longleftrightarrow>
     (\<forall>flags. vop_open nd flags v = Some (dev_open dk flags)) \<and> vop_close nd v = Some (None, v)
     \<and> (\<forall>wr iob. vop_io wr nd iob v = dop_io dk iob wr v)
     \<and> vop_gettype nd v = Some (dev_gettype dk v) \<and> vop_fstat nd v = Some (dev_fstat dk v)
     \<and> (\<forall>pos. vop_tryseek nd pos v = Some (dev_tryseek dk pos v, v)) \<and> (\<forall>path. vop_lookup nd path v = dev_lookup nd path v)"

definition sfs_dispatch :: "vstate \<Rightarrow> nat \<Rightarrow> sfs_inode \<Rightarrow> bool" where
  "sfs_dispatch v nd sn \<longleftrightarrow>
     vop_gettype nd v = sfs_gettype sn \<and> sfs_gettype sn \<noteq> None \<and> vop_fstat nd v = sfs_fstat sn \<and> sfs_fstat sn \<noteq> None
     \<and> vop_fsync nd v = on_inode nd sn sfs_fsync v \<and> vop_close nd v = on_inode nd sn sfs_fsync v"

definition file_dispatch :: "vstate \<Rightarrow> nat \<Rightarrow> sfs_inode \<Rightarrow> bool" where
  "file_dispatch v nd sn \<longleftrightarrow>
     (\<forall>flags. vop_open nd flags v = Some (sfs_openfile flags))
     \<and> (\<forall>wr iob. vop_io wr nd iob v =
          map_option (\<lambda>((ret, iob), v). (ret_int ret, iob, v))
            (on_inode nd sn (\<lambda>s sn. map_option (\<lambda>(ret, iob, s, sn). ((ret, iob), s, sn))
               (if wr then sfs_write s sn iob else sfs_read s sn iob)) v))
     \<and> (\<forall>pos. vop_tryseek nd pos v = on_inode nd sn (\<lambda>s sn. sfs_tryseek s sn pos) v)
     \<and> (\<forall>len. vop_truncate nd len v = on_inode nd sn (\<lambda>s sn. sfs_truncfile s sn len) v)"

definition dir_dispatch :: "vstate \<Rightarrow> nat \<Rightarrow> sfs_inode \<Rightarrow> bool" where
  "dir_dispatch v nd sn \<longleftrightarrow>
     (\<forall>flags. vop_open nd flags v = Some (sfs_opendir flags))
     \<and> (\<forall>iob. vop_getdirentry nd iob v =
          map_option (\<lambda>((ret, iob), v). (ret, iob, v))
            (on_inode nd sn (\<lambda>s sn. map_option (\<lambda>(ret, iob, s, sn). ((ret, iob), s, sn))
               (sfs_getdirentry (heap_left v > 0) s sn iob)) v))
     \<and> (\<forall>iob. vop_namefile nd iob v = sfs_namefile nd iob v)
     \<and> (\<forall>path. path \<noteq> [] \<and> path ! 0 \<noteq> SLASH \<longrightarrow> vop_lookup nd path v =
          do {
            (_, v) \<leftarrow> inode_ref_inc nd v;
            (r, v) \<leftarrow> sfs_lookup_once nd path v;
            (_, v) \<leftarrow> inode_ref_dec nd v;
            Some (map_sum id fst r, v)
          })
     \<and> (\<forall>name. sfs_lookup_once nd name v =
          do {
            (r, v) \<leftarrow> on_inode nd sn (\<lambda>s sn. do {
                sn \<leftarrow> lock_sin sn;
                (r, hole, s, sn) \<leftarrow> sfs_dirent_search_nolock (heap_left v > 0) s sn name;
                Some (r, s, unlock_sin sn)
              }) v;
            (case r of
               Inl e \<Rightarrow> Some (Inl e, v)
             | Inr (i, slot) \<Rightarrow> do { (r, v) \<leftarrow> sfs_load_inode v i; Some (map_sum id (\<lambda>sub. (sub, slot)) r, v) })
          })"

lemma on_sfs_typed:
  assumes "inodes v nd = Some n" "node_typed n" "in_info n = Sfs_info sn"
  shows "on_sfs nd f v = on_inode nd sn f v"
  using assms by (cases "f (vsfs v) sn") (auto simp: on_sfs_def on_inode_def node_typed_def sfs_info_def assert_that_def)

lemma map_sum_cases: "(case r of Inl e \<Rightarrow> Inl e | Inr x \<Rightarrow> Inr (f x)) = map_sum id f r"
  by (cases r) simp_all

lemma map_sum_fst: "(case r of Inl e \<Rightarrow> Inl e | Inr (x, y) \<Rightarrow> Inr x) = map_sum id fst r"
  by (cases r) auto

lemma map_option_bind: "map_option f x = x \<bind> (\<lambda>y. Some (f y))"
  by (cases x) simp_all

lemma enter:
  assumes "inodes v nd = Some n" "node_typed n" "inode_check n = Some ()" "in_ops n \<in> impl"
  shows "vop_enter nd impl v = Some n"
  using assms by (simp add: vop_enter_def assert_that_def)

lemma dispatch_device:
  assumes t: "inodes v nd = Some n" "node_typed n" "inode_check n = Some ()" and i: "in_info n = Device_info dk"
  shows "in_ops n = Devops \<and> device_dispatch v nd dk"
  using t(2) i by (simp add: device_dispatch_def vop_open_def vop_close_def vop_io_def vop_gettype_def vop_fstat_def
      vop_tryseek_def vop_lookup_def enter [OF t] node_typed_def device_info_def)

lemma dispatch_sfs:
  assumes t: "inodes v nd = Some n" "node_typed n" "inode_check n = Some ()" and i: "in_info n = Sfs_info sn"
  shows "sfs_dispatch v nd sn \<and> sfs_get_ops (din_type (din sn)) = Some (in_ops n)"
proof
  show o: "sfs_get_ops (din_type (din sn)) = Some (in_ops n)" using t(2) i by (simp add: node_typed_def)
  have si: "sfs_info n = Some sn" using i by (simp add: sfs_info_def)
  have ops: "in_ops n = Dirops \<or> in_ops n = Fileops" using o by (auto simp: sfs_get_ops_def split: if_splits)
  have "sfs_gettype sn \<noteq> None" using o by (auto simp: sfs_get_ops_def sfs_gettype_def split: if_splits)
  then show "sfs_dispatch v nd sn"
    using ops by (elim disjE) (auto simp: sfs_dispatch_def vop_gettype_def vop_fstat_def vop_fsync_def vop_close_def sfs_close_def
        sfs_fstat_def enter [OF t] si on_sfs_typed [OF t(1,2) i])
qed

lemma dispatch_file:
  assumes t: "inodes v nd = Some n" "node_typed n" "inode_check n = Some ()" and i: "in_info n = Sfs_info sn"
    and "in_ops n = Fileops"
  shows "file_dispatch v nd sn"
  using assms(5) by (simp add: file_dispatch_def vop_open_def vop_io_def vop_tryseek_def vop_truncate_def enter [OF t]
      on_sfs_typed [OF t(1,2) i] map_option_bind case_prod_unfold)

lemma dispatch_dir:
  assumes n: "inodes v nd = Some n" "node_typed n" "inode_check n = Some ()" and i: "in_info n = Sfs_info sn"
    and d: "in_ops n = Dirops"
  shows "dir_dispatch v nd sn"
proof -
  have t: "din_type (din sn) = SFS_TYPE_DIR" "in_fs n"
    using dispatch_sfs [OF n i] d n(2) i by (auto simp: sfs_get_ops_def node_typed_def split: if_splits)
  have si: "sfs_info n = Some sn" "sfs_info (n\<lparr>ref_count := k\<rparr>) = Some sn" for k using i by (simp_all add: sfs_info_def)
  have "vop_lookup nd path v = do {
      (_, v) \<leftarrow> inode_ref_inc nd v; (r, v) \<leftarrow> sfs_lookup_once nd path v; (_, v) \<leftarrow> inode_ref_dec nd v; Some (map_sum id fst r, v) }"
    if "path \<noteq> []" "path ! 0 \<noteq> SLASH" for path
    using that n(1) t d si by (simp add: vop_lookup_def enter [OF n] sfs_lookup_def assert_that_def inode_ref_inc_def inodes_upd
        map_sum_fst)
  then show ?thesis using d
    by (simp add: dir_dispatch_def vop_open_def vop_getdirentry_def vop_namefile_def enter [OF n] sfs_lookup_once_def
        on_sfs_typed [OF n(1,2) i] map_option_bind case_prod_unfold map_sum_cases cong: sum.case_cong)
qed

text \<open>
  C39: Types of inodes. Let every inode in memory have the function table of its kind. For a node with consistent
  counts no type assertion behind the function tables can fail: each operation that its table has is the operation of
  the device, or of the Simple FS on its inode, with every check of the node gone. For devices these are open, close,
  read, write, gettype, fstat, tryseek and lookup; for files open, close, read, write, gettype, fstat, fsync, tryseek and
  truncate; for directories open, close, gettype, fstat, fsync, getdirentry and lookup of a relative name, and namefile
  is handed to the Simple FS, where only the preservation is shown of what it does with the parents it meets.
  \<open>vop_gettype\<close>, \<open>vop_fstat\<close> and \<open>vop_open\<close> always return, and the type reported is that of a directory
  exactly for the nodes with the directory table. Loading, reading, writing, truncating, seeking, synchronising,
  searching, releasing, opening and closing keep all inodes well-typed and the cache consistent.
\<close>

theorem vnode_type_safety:
  assumes w: "well v"
  shows "(\<forall>nd n. inodes v nd = Some n \<and> inode_check n = Some () \<longrightarrow>
      (case in_info n of
         Device_info dk \<Rightarrow> in_ops n = Devops \<and> device_dispatch v nd dk
       | Sfs_info sn \<Rightarrow> sfs_dispatch v nd sn
           \<and> (in_ops n = Fileops \<and> file_dispatch v nd sn \<or> in_ops n = Dirops \<and> dir_dispatch v nd sn)))
    \<and> (\<forall>nd n flags. inodes v nd = Some n \<and> inode_check n = Some () \<longrightarrow>
      (\<exists>ty st ret. vop_gettype nd v = Some ty \<and> vop_fstat nd v = Some st \<and> vop_open nd flags v = Some ret
        \<and> st_mode st = ty \<and> (S_ISDIR ty \<longleftrightarrow> in_ops n = Dirops)))
    \<and> (\<forall>i r v'. sfs_load_inode v i = Some (r, v') \<longrightarrow> well v')
    \<and> (\<forall>wr nd iob r iob' v'. vop_io wr nd iob v = Some (r, iob', v') \<longrightarrow> well v')
    \<and> (\<forall>nd len r v'. vop_truncate nd len v = Some (r, v') \<longrightarrow> well v')
    \<and> (\<forall>nd pos r v'. vop_tryseek nd pos v = Some (r, v') \<longrightarrow> well v')
    \<and> (\<forall>nd r v'. vop_fsync nd v = Some (r, v') \<longrightarrow> well v')
    \<and> (\<forall>nd iob r iob' v'. vop_getdirentry nd iob v = Some (r, iob', v') \<longrightarrow> well v')
    \<and> (\<forall>nd iob r iob' v'. vop_namefile nd iob v = Some (r, iob', v') \<longrightarrow> well v')
    \<and> (\<forall>nd r v'. inode_ref_dec nd v = Some (r, v') \<longrightarrow> well v')
    \<and> (\<forall>path r v'. vfs_lookup path v = Some (r, v') \<longrightarrow> well v')
    \<and> (\<forall>path flags r v'. vfs_open path flags v = Some (r, v') \<longrightarrow> well v')
    \<and> (\<forall>nd v'. vfs_close nd v = Some v' \<longrightarrow> well v')"
proof (intro conjI allI impI)
  fix nd n assume n: "inodes v nd = Some n \<and> inode_check n = Some ()"
  then have t: "inodes v nd = Some n" "node_typed n" "inode_check n = Some ()" using wellD [OF w] by blast+
  show "case in_info n of
         Device_info dk \<Rightarrow> in_ops n = Devops \<and> device_dispatch v nd dk
       | Sfs_info sn \<Rightarrow> sfs_dispatch v nd sn
           \<and> (in_ops n = Fileops \<and> file_dispatch v nd sn \<or> in_ops n = Dirops \<and> dir_dispatch v nd sn)"
  proof (cases "in_info n")
    case (Device_info dk)
    then show ?thesis using dispatch_device [OF t] by simp
  next
    case (Sfs_info sn)
    then have "in_ops n = Fileops \<or> in_ops n = Dirops"
      using dispatch_sfs [OF t Sfs_info] by (auto simp: sfs_get_ops_def split: if_splits)
    then show ?thesis using Sfs_info dispatch_sfs [OF t Sfs_info] dispatch_file [OF t Sfs_info] dispatch_dir [OF t Sfs_info] by auto
  qed
next
  fix nd n flags assume n: "inodes v nd = Some n \<and> inode_check n = Some ()"
  then have e: "vop_enter nd {Dirops, Fileops, Devops} v = Some n"
    by (cases "in_ops n") (simp_all add: vop_enter_def)
  have t: "node_typed n" using wellD [OF w] n by blast
  show "\<exists>ty st ret. vop_gettype nd v = Some ty \<and> vop_fstat nd v = Some st \<and> vop_open nd flags v = Some ret
        \<and> st_mode st = ty \<and> (S_ISDIR ty \<longleftrightarrow> in_ops n = Dirops)"
  proof (cases "in_info n")
    case (Device_info dk)
    then have "in_ops n = Devops" "device_info n = Some dk" using t by (simp_all add: node_typed_def device_info_def)
    then show ?thesis
      by (simp add: vop_gettype_def vop_fstat_def vop_open_def e dev_fstat_def dev_gettype_def S_ISDIR_def)
  next
    case (Sfs_info sn)
    then have "sfs_get_ops (din_type (din sn)) = Some (in_ops n)" "sfs_info n = Some sn"
      using t by (simp_all add: node_typed_def sfs_info_def)
    then show ?thesis
      by (auto simp: vop_gettype_def vop_fstat_def vop_open_def e sfs_get_ops_def sfs_gettype_def sfs_fstat_def S_ISDIR_def
          split: if_splits)
  qed
next
  fix i r v' assume "sfs_load_inode v i = Some (r, v')"
  then show "well v'" using load_inode_keeps [OF _ w] by blast
next
  fix wr nd iob r iob' v' assume "vop_io wr nd iob v = Some (r, iob', v')"
  then show "well v'" using vop_io_keeps [OF _ w] by blast
next
  fix nd len r v' assume "vop_truncate nd len v = Some (r, v')"
  then show "well v'" using vop_truncate_keeps [OF _ w] by blast
next
  fix nd pos r v' assume "vop_tryseek nd pos v = Some (r, v')"
  then show "well v'" using vop_tryseek_keeps [OF _ w] by blast
next
  fix nd r v' assume "vop_fsync nd v = Some (r, v')"
  then show "well v'" using vop_fsync_keeps [OF _ w] by blast
next
  fix nd iob r iob' v' assume "vop_getdirentry nd iob v = Some (r, iob', v')"
  then show "well v'" using vop_getdirentry_keeps [OF _ w] by blast
next
  fix nd iob r iob' v' assume "vop_namefile nd iob v = Some (r, iob', v')"
  then show "well v'" using vop_namefile_keeps [OF _ w] by blast
next
  fix nd r v' assume "inode_ref_dec nd v = Some (r, v')"
  then show "well v'" using ref_dec_keeps [OF _ w] by blast
next
  fix path r v' assume "vfs_lookup path v = Some (r, v')"
  then show "well v'" using vfs_lookup_keeps [OF _ w] by blast
next
  fix path flags r v' assume "vfs_open path flags v = Some (r, v')"
  then show "well v'" using vfs_open_keeps [OF _ w] by blast
next
  fix nd v' assume "vfs_close nd v = Some v'"
  then show "well v'" using vfs_close_keeps [OF _ w] by blast
qed

theorem vnode_type_safety_witness:
  "\<exists>v. sfs_load_inode sample_v 3 = Some (Inr 10, v) \<and> well v \<and> (\<exists>ty. vop_gettype 10 v = Some ty \<and> \<not> S_ISDIR ty)"
proof -
  have o1: "sfs_get_ops (din_type (disk_din (vsfs sample_v) 3)) = Some Fileops" by (simp add: sample_v_din sfs_get_ops_def)
  have n: "din_nlinks (disk_din (vsfs sample_v) 3) \<noteq> 0" by (simp add: sample_v_din)
  have i: "(3 :: u32) \<notin> ran (inos sample_v)" "heap_left sample_v \<noteq> 0" "node_pool sample_v = [10, 11]"
    by (simp_all add: sample_v_def inos_def ran_def)
  define v where "v = sample_v\<lparr>heap_left := heap_left sample_v - 1, node_pool := [11],
    inodes := (inodes sample_v)(10 \<mapsto> fresh_inode (disk_din (vsfs sample_v) 3) 3 Fileops),
    vsfs := sfs_set_links 3 10 (vsfs sample_v)\<rparr>"
  have l: "sfs_load_inode sample_v 3 = Some (Inr 10, v)"
    using load_fresh [OF sample_v_well sample_v_fs(1,2) i(1) sample_v_fs(3) n o1] i by (simp add: v_def)
  have "\<forall>i r v'. sfs_load_inode sample_v i = Some (r, v') \<longrightarrow> well v'"
    using vnode_type_safety [OF sample_v_well] by (rule conjunct1 [OF conjunct2 [OF conjunct2]])
  then have w: "well v" using l by blast
  have "inodes v 10 = Some (fresh_inode (disk_din (vsfs sample_v) 3) 3 Fileops)" by (simp add: v_def)
  moreover have "inode_check (fresh_inode (disk_din (vsfs sample_v) 3) 3 Fileops) = Some ()"
    by (simp add: inode_check_def fresh_inode_def assert_that_def)
  ultimately have "\<exists>ty. vop_gettype 10 v = Some ty \<and> \<not> S_ISDIR ty"
    using conjunct1 [OF conjunct2 [OF vnode_type_safety [OF w]]] by (fastforce simp: fresh_inode_def)
  then show ?thesis using l w by blast
qed

end
