(* ===== verification/FileTable.thy ===== *)
theory FileTable
  imports Vfs
begin

text \<open>
  The open files of a process (\<open>kern/fs/file.c\<close>) and their life cycle (\<open>kern/fs/fs.c\<close>). A \<open>struct file *\<close> is the pair
  of a \<open>files_struct\<close> and an index of its array; an index outside of the array is a fault. A descriptor goes
  from \<open>FD_NONE\<close> to \<open>FD_INIT\<close>, \<open>FD_OPENED\<close>, \<open>FD_CLOSED\<close> and back; \<open>f_open_count\<close> counts the table itself and
  every operation in progress. Buffers are kernel memory: lists of bytes.
\<close>

subsection \<open>Definitions (file.c)\<close>

text \<open>\<open>(PGSIZE - sizeof(struct files_struct)) / sizeof(struct file)\<close> in the LP64 layout: \<open>(4096 - 48) div 56\<close>.\<close>

abbreviation (input) FILES_STRUCT_NENTRY :: nat where "FILES_STRUCT_NENTRY \<equiv> 72"
abbreviation (input) NO_FD :: int where "NO_FD \<equiv> - 0x9527"

definition testfd :: "int \<Rightarrow> bool" where
  "testfd fd \<longleftrightarrow> fd \<ge> 0 \<and> fd < int FILES_STRUCT_NENTRY"

definition ofile_at :: "vstate \<Rightarrow> nat \<Rightarrow> nat \<Rightarrow> ofile option" where
  "ofile_at v i k =
     do { f \<leftarrow> fstructs v i; if k < length (fd_array f) then Some (fd_array f ! k) else None }"

definition upd_ofile :: "nat \<Rightarrow> nat \<Rightarrow> (ofile \<Rightarrow> ofile) \<Rightarrow> vstate \<Rightarrow> vstate" where
  "upd_ofile i k g v = upd_files i (\<lambda>f. f\<lparr>fd_array := (fd_array f)[k := g (fd_array f ! k)]\<rparr>) v"

definition get_fd_array :: "vstate \<Rightarrow> nat option" where
  "get_fd_array v = do { f \<leftarrow> cur_fs v; assert_that (files_count f > 0); Some (cur_files v) }"

definition fd_array_init :: "ofile list \<Rightarrow> ofile list" where
  "fd_array_init fs =
     map (\<lambda>k. (fs ! k)\<lparr>f_open_count := 0, f_status := FD_NONE, f_fd := int k\<rparr>) [0..<FILES_STRUCT_NENTRY]"

definition fd_array_alloc :: "int \<Rightarrow> vstate \<Rightarrow> ((err + nat) \<times> vstate) option" where
  "fd_array_alloc fd v =
     do {
       i \<leftarrow> get_fd_array v;
       fs \<leftarrow> fstructs v i;
       let free = (\<lambda>k. f_status (fd_array fs ! k) = FD_NONE);
       let slot =
         (if fd = NO_FD then
            (case find free [0..<FILES_STRUCT_NENTRY] of None \<Rightarrow> Inl E_MAX_OPEN | Some k \<Rightarrow> Inr k)
          else if testfd fd then (if free (nat fd) then Inr (nat fd) else Inl E_BUSY)
          else Inl E_INVAL);
       (case slot of
          Inl e \<Rightarrow> Some (Inl e, v)
        | Inr k \<Rightarrow> do {
            assert_that (f_open_count (fd_array fs ! k) = 0);
            Some (Inr k, upd_ofile i k (\<lambda>f. f\<lparr>f_status := FD_INIT, f_node := None\<rparr>) v)
          })
     }"

definition fd_array_free :: "nat \<Rightarrow> nat \<Rightarrow> vstate \<Rightarrow> vstate option" where
  "fd_array_free i k v =
     do {
       f \<leftarrow> ofile_at v i k;
       assert_that (f_status f = FD_INIT \<or> f_status f = FD_CLOSED);
       assert_that (f_open_count f = 0);
       v \<leftarrow> (if f_status f = FD_CLOSED then do { nd \<leftarrow> f_node f; vfs_close nd v } else Some v);
       Some (upd_ofile i k (\<lambda>f. f\<lparr>f_status := FD_NONE\<rparr>) v)
     }"

definition fd_array_acquire :: "nat \<Rightarrow> nat \<Rightarrow> vstate \<Rightarrow> vstate option" where
  "fd_array_acquire i k v =
     do {
       f \<leftarrow> ofile_at v i k;
       assert_that (f_status f = FD_OPENED);
       Some (upd_ofile i k (\<lambda>f. f\<lparr>f_open_count := f_open_count f + 1\<rparr>) v)
     }"

definition fd_array_release :: "nat \<Rightarrow> nat \<Rightarrow> vstate \<Rightarrow> vstate option" where
  "fd_array_release i k v =
     do {
       f \<leftarrow> ofile_at v i k;
       assert_that (f_status f = FD_OPENED \<or> f_status f = FD_CLOSED);
       assert_that (f_open_count f > 0);
       let v = upd_ofile i k (\<lambda>f. f\<lparr>f_open_count := f_open_count f - 1\<rparr>) v;
       if f_open_count f - 1 = 0 then fd_array_free i k v else Some v
     }"

definition fd_array_open :: "nat \<Rightarrow> nat \<Rightarrow> vstate \<Rightarrow> vstate option" where
  "fd_array_open i k v =
     do {
       f \<leftarrow> ofile_at v i k;
       assert_that (f_status f = FD_INIT \<and> f_node f \<noteq> None);
       Some (upd_ofile i k (\<lambda>f. f\<lparr>f_status := FD_OPENED, f_open_count := f_open_count f + 1\<rparr>) v)
     }"

definition fd_array_close :: "nat \<Rightarrow> nat \<Rightarrow> vstate \<Rightarrow> vstate option" where
  "fd_array_close i k v =
     do {
       f \<leftarrow> ofile_at v i k;
       assert_that (f_status f = FD_OPENED);
       assert_that (f_open_count f > 0);
       let v = upd_ofile i k (\<lambda>f. f\<lparr>f_status := FD_CLOSED, f_open_count := f_open_count f - 1\<rparr>) v;
       if f_open_count f - 1 = 0 then fd_array_free i k v else Some v
     }"

definition fd_array_dup :: "nat \<Rightarrow> nat \<Rightarrow> nat \<Rightarrow> nat \<Rightarrow> vstate \<Rightarrow> vstate option" where
  "fd_array_dup it kt i k v =
     do {
       t \<leftarrow> ofile_at v it kt;
       f \<leftarrow> ofile_at v i k;
       assert_that (f_status t = FD_INIT \<and> f_status f = FD_OPENED);
       nd \<leftarrow> f_node f;
       (_, v) \<leftarrow> inode_ref_inc nd v;
       (_, v) \<leftarrow> inode_open_inc nd v;
       fd_array_open it kt (upd_ofile it kt (\<lambda>t. t\<lparr>f_pos := f_pos f, f_readable := f_readable f,
         f_writable := f_writable f, f_node := Some nd\<rparr>) v)
     }"

definition fd2file :: "int \<Rightarrow> vstate \<Rightarrow> (err + nat \<times> nat \<times> ofile) option" where
  "fd2file fd v =
     (if testfd fd then do {
        i \<leftarrow> get_fd_array v;
        f \<leftarrow> ofile_at v i (nat fd);
        Some (if f_status f = FD_OPENED \<and> f_fd f = fd then Inr (i, nat fd, f) else Inl E_INVAL)
      }
      else Some (Inl E_INVAL))"

definition file_testfd :: "int \<Rightarrow> bool \<Rightarrow> bool \<Rightarrow> vstate \<Rightarrow> bool option" where
  "file_testfd fd readable writable v =
     do {
       r \<leftarrow> fd2file fd v;
       (case r of
          Inl e \<Rightarrow> Some False
        | Inr (i, k, f) \<Rightarrow> Some (\<not> (readable \<and> \<not> f_readable f) \<and> \<not> (writable \<and> \<not> f_writable f)))
     }"

definition file_open :: "u8 list \<Rightarrow> u32 \<Rightarrow> vstate \<Rightarrow> (int \<times> vstate) option" where
  "file_open path flags v =
     (let acc = flags AND O_ACCMODE; readable = (acc = O_RDONLY \<or> acc = O_RDWR);
          writable = (acc = O_WRONLY \<or> acc = O_RDWR) in
      if \<not> readable \<and> \<not> writable then Some (- err_code E_INVAL, v)
      else do {
        (r, v) \<leftarrow> fd_array_alloc NO_FD v;
        (case r of
           Inl e \<Rightarrow> Some (- err_code e, v)
         | Inr k \<Rightarrow> do {
             let i = cur_files v;
             (r, v) \<leftarrow> vfs_open path flags v;
             (case r of
                Inl e \<Rightarrow> do { v \<leftarrow> fd_array_free i k v; Some (- err_code e, v) }
              | Inr nd \<Rightarrow> do {
                  pos \<leftarrow> (if flags AND O_APPEND \<noteq> 0 then do { st \<leftarrow> vop_fstat nd v; Some (int (st_size st)) }
                         else Some 0);
                  v \<leftarrow> fd_array_open i k (upd_ofile i k (\<lambda>f. f\<lparr>f_pos := pos, f_node := Some nd,
                         f_readable := readable, f_writable := writable\<rparr>) v);
                  f \<leftarrow> ofile_at v i k;
                  Some (f_fd f, v)
                })
           })
      })"

definition file_close :: "int \<Rightarrow> vstate \<Rightarrow> (int \<times> vstate) option" where
  "file_close fd v =
     do {
       r \<leftarrow> fd2file fd v;
       (case r of
          Inl e \<Rightarrow> Some (- err_code e, v)
        | Inr (i, k, f) \<Rightarrow> do { v \<leftarrow> fd_array_close i k v; Some (0, v) })
     }"

text \<open>\<open>file_read\<close> and \<open>file_write\<close>: the return code, the number of bytes copied, the buffer.\<close>

definition file_io :: "bool \<Rightarrow> int \<Rightarrow> u8 list \<Rightarrow> nat \<Rightarrow> vstate \<Rightarrow> (int \<times> nat \<times> u8 list \<times> vstate) option" where
  "file_io wr fd base len v =
     do {
       r \<leftarrow> fd2file fd v;
       (case r of
          Inl e \<Rightarrow> Some (- err_code e, 0, base, v)
        | Inr (i, k, f) \<Rightarrow>
            if \<not> (if wr then f_writable f else f_readable f) then Some (- err_code E_INVAL, 0, base, v)
            else do {
              v \<leftarrow> fd_array_acquire i k v;
              nd \<leftarrow> f_node f;
              (ret, iob, v) \<leftarrow> vop_io wr nd (iobuf_init base len (f_pos f)) v;
              let copied = iobuf_used iob;
              f \<leftarrow> ofile_at v i k;
              let v = (if f_status f = FD_OPENED then upd_ofile i k (\<lambda>f. f\<lparr>f_pos := f_pos f + int copied\<rparr>) v else v);
              v \<leftarrow> fd_array_release i k v;
              Some (ret, copied, io_mem iob, v)
            })
     }"

definition file_read :: "int \<Rightarrow> u8 list \<Rightarrow> nat \<Rightarrow> vstate \<Rightarrow> (int \<times> nat \<times> u8 list \<times> vstate) option" where
  "file_read = file_io False"

definition file_write :: "int \<Rightarrow> u8 list \<Rightarrow> nat \<Rightarrow> vstate \<Rightarrow> (int \<times> nat \<times> u8 list \<times> vstate) option" where
  "file_write = file_io True"

abbreviation (input) LSEEK_SET :: int where "LSEEK_SET \<equiv> 0"
abbreviation (input) LSEEK_CUR :: int where "LSEEK_CUR \<equiv> 1"
abbreviation (input) LSEEK_END :: int where "LSEEK_END \<equiv> 2"

definition file_seek :: "int \<Rightarrow> int \<Rightarrow> int \<Rightarrow> vstate \<Rightarrow> (int \<times> vstate) option" where
  "file_seek fd pos whence v =
     do {
       r \<leftarrow> fd2file fd v;
       (case r of
          Inl e \<Rightarrow> Some (- err_code e, v)
        | Inr (i, k, f) \<Rightarrow> do {
            v \<leftarrow> fd_array_acquire i k v;
            nd \<leftarrow> f_node f;
            target \<leftarrow>
              (if whence = LSEEK_SET then Some (Some pos)
               else if whence = LSEEK_CUR then Some (Some (pos + f_pos f))
               else if whence = LSEEK_END then do { st \<leftarrow> vop_fstat nd v; Some (Some (pos + int (st_size st))) }
               else Some None);
            (ret, v) \<leftarrow>
              (case target of
                 None \<Rightarrow> Some (Some E_INVAL, v)
               | Some pos \<Rightarrow> do {
                   (ret, v) \<leftarrow> vop_tryseek nd pos v;
                   Some (ret, if ret = None then upd_ofile i k (\<lambda>f. f\<lparr>f_pos := pos\<rparr>) v else v)
                 });
            v \<leftarrow> fd_array_release i k v;
            Some (ret_int ret, v)
          })
     }"

definition file_fstat :: "int \<Rightarrow> vstate \<Rightarrow> ((err + stat) \<times> vstate) option" where
  "file_fstat fd v =
     do {
       r \<leftarrow> fd2file fd v;
       (case r of
          Inl e \<Rightarrow> Some (Inl e, v)
        | Inr (i, k, f) \<Rightarrow> do {
            v \<leftarrow> fd_array_acquire i k v;
            nd \<leftarrow> f_node f;
            st \<leftarrow> vop_fstat nd v;
            v \<leftarrow> fd_array_release i k v;
            Some (Inr st, v)
          })
     }"

definition file_fsync :: "int \<Rightarrow> vstate \<Rightarrow> (int \<times> vstate) option" where
  "file_fsync fd v =
     do {
       r \<leftarrow> fd2file fd v;
       (case r of
          Inl e \<Rightarrow> Some (- err_code e, v)
        | Inr (i, k, f) \<Rightarrow> do {
            v \<leftarrow> fd_array_acquire i k v;
            nd \<leftarrow> f_node f;
            (ret, v) \<leftarrow> vop_fsync nd v;
            v \<leftarrow> fd_array_release i k v;
            Some (ret_int ret, v)
          })
     }"

record dirent =
  d_offset :: int
  d_name :: "u8 list"

definition file_getdirentry :: "int \<Rightarrow> dirent \<Rightarrow> vstate \<Rightarrow> (int \<times> dirent \<times> vstate) option" where
  "file_getdirentry fd de v =
     do {
       r \<leftarrow> fd2file fd v;
       (case r of
          Inl e \<Rightarrow> Some (- err_code e, de, v)
        | Inr (i, k, f) \<Rightarrow> do {
            v \<leftarrow> fd_array_acquire i k v;
            nd \<leftarrow> f_node f;
            (ret, iob, v) \<leftarrow> vop_getdirentry nd (iobuf_init (d_name de) 256 (d_offset de)) v;
            let de = de\<lparr>d_name := io_mem iob\<rparr>;
            let de = (if ret = None then de\<lparr>d_offset := d_offset de + int (iobuf_used iob)\<rparr> else de);
            v \<leftarrow> fd_array_release i k v;
            Some (ret_int ret, de, v)
          })
     }"

definition file_dup :: "int \<Rightarrow> int \<Rightarrow> vstate \<Rightarrow> (int \<times> vstate) option" where
  "file_dup fd1 fd2 v =
     do {
       r \<leftarrow> fd2file fd1 v;
       (case r of
          Inl e \<Rightarrow> Some (- err_code e, v)
        | Inr (i, k1, f1) \<Rightarrow> do {
            (r, v) \<leftarrow> fd_array_alloc fd2 v;
            (case r of
               Inl e \<Rightarrow> Some (- err_code e, v)
             | Inr k2 \<Rightarrow> do {
                 v \<leftarrow> fd_array_dup i k2 i k1 v;
                 f \<leftarrow> ofile_at v i k2;
                 Some (f_fd f, v)
               })
          })
     }"

subsection \<open>The files of a process (fs.c)\<close>

text \<open>
  \<open>a\<close> is the address that \<open>kmalloc\<close> returns, \<open>mem\<close> the contents of the memory there, which \<open>fd_array_init\<close> only
  overwrites in part.
\<close>

definition files_create :: "nat option \<Rightarrow> ofile list \<Rightarrow> vstate \<Rightarrow> vstate" where
  "files_create a mem v =
     (case a of
        None \<Rightarrow> v
      | Some i \<Rightarrow> v\<lparr>fstructs := (fstructs v)(i \<mapsto>
          \<lparr>pwd = None, fd_array = fd_array_init mem, files_count = 0, files_sem = 1\<rparr>)\<rparr>)"

fun destroy_loop :: "nat \<Rightarrow> nat \<Rightarrow> nat \<Rightarrow> vstate \<Rightarrow> vstate option" where
  "destroy_loop i k 0 v = Some v"
| "destroy_loop i k (Suc n) v =
     do {
       f \<leftarrow> ofile_at v i k;
       v \<leftarrow> (if f_status f = FD_OPENED then fd_array_close i k v else Some v);
       f \<leftarrow> ofile_at v i k;
       assert_that (f_status f = FD_NONE);
       destroy_loop i (k + 1) n v
     }"

definition files_destroy :: "nat \<Rightarrow> vstate \<Rightarrow> vstate option" where
  "files_destroy i v =
     do {
       fs \<leftarrow> fstructs v i;
       assert_that (files_count fs = 0);
       v \<leftarrow> (case pwd fs of None \<Rightarrow> Some v | Some nd \<Rightarrow> do { (_, v) \<leftarrow> inode_ref_dec nd v; Some v });
       v \<leftarrow> destroy_loop i 0 FILES_STRUCT_NENTRY v;
       Some (v\<lparr>fstructs := (fstructs v)(i := None)\<rparr>)
     }"

fun closeall_loop :: "nat \<Rightarrow> nat \<Rightarrow> nat \<Rightarrow> vstate \<Rightarrow> vstate option" where
  "closeall_loop i k 0 v = Some v"
| "closeall_loop i k (Suc n) v =
     do {
       f \<leftarrow> ofile_at v i k;
       v \<leftarrow> (if f_status f = FD_OPENED then fd_array_close i k v else Some v);
       closeall_loop i (k + 1) n v
     }"

definition files_closeall :: "nat \<Rightarrow> vstate \<Rightarrow> vstate option" where
  "files_closeall i v =
     do {
       fs \<leftarrow> fstructs v i;
       assert_that (files_count fs > 0);
       closeall_loop i 2 (FILES_STRUCT_NENTRY - 2) v
     }"

fun dup_loop :: "nat \<Rightarrow> nat \<Rightarrow> nat \<Rightarrow> nat \<Rightarrow> vstate \<Rightarrow> vstate option" where
  "dup_loop it i k 0 v = Some v"
| "dup_loop it i k (Suc n) v =
     do {
       f \<leftarrow> ofile_at v i k;
       v \<leftarrow> (if f_status f = FD_OPENED
             then fd_array_dup it k i k (upd_ofile it k (\<lambda>f. f\<lparr>f_status := FD_INIT\<rparr>) v) else Some v);
       dup_loop it i (k + 1) n v
     }"

definition dup_files :: "nat \<Rightarrow> nat \<Rightarrow> vstate \<Rightarrow> vstate option" where
  "dup_files it i v =
     do {
       t \<leftarrow> fstructs v it;
       f \<leftarrow> fstructs v i;
       assert_that (files_count t = 0 \<and> files_count f > 0);
       let v = upd_files it (\<lambda>t. t\<lparr>pwd := pwd f\<rparr>) v;
       v \<leftarrow> (case pwd f of None \<Rightarrow> Some v | Some nd \<Rightarrow> do { (_, v) \<leftarrow> inode_ref_inc nd v; Some v });
       dup_loop it i 0 FILES_STRUCT_NENTRY v
     }"

end
