(* ===== verification/OpenFiles.thy ===== *)
theory OpenFiles
  imports VfsFrame FileTable
begin

text \<open>
  The invariant of the open files: every descriptor in use has a node, and the open count of a node is the number
  of descriptors of all processes that refer to it. Every operation of \<open>file.c\<close> and \<open>fs.c\<close> keeps it.
\<close>

subsection \<open>The table of all descriptors\<close>

definition fd_table :: "vstate \<Rightarrow> nat \<times> nat \<Rightarrow> ofile option" where
  "fd_table v p = ofile_at v (fst p) (snd p)"

definition slot_ok :: "nat \<Rightarrow> ofile \<Rightarrow> bool" where
  "slot_ok k f \<longleftrightarrow> f_fd f = int k
     \<and> (f_status f = FD_NONE \<and> f_open_count f = 0 \<or> f_status f = FD_OPENED \<and> f_open_count f = 1 \<and> f_node f \<noteq> None)"

definition refers :: "nat \<Rightarrow> ofile \<Rightarrow> bool" where
  "refers nd f \<longleftrightarrow> f_status f = FD_OPENED \<and> f_node f = Some nd"

definition users :: "(nat \<times> nat \<Rightarrow> ofile option) \<Rightarrow> nat \<Rightarrow> (nat \<times> nat) set" where
  "users T nd = {p. \<exists>f. T p = Some f \<and> refers nd f}"

definition table_ok :: "(nat \<times> nat \<Rightarrow> ofile option) \<Rightarrow> (nat \<Rightarrow> int) \<Rightarrow> bool" where
  "table_ok T c \<longleftrightarrow> finite (dom T) \<and> (\<forall>p f. T p = Some f \<longrightarrow> slot_ok (snd p) f) \<and> (\<forall>nd. c nd = int (card (users T nd)))"

definition shape_ok :: "vstate \<Rightarrow> bool" where
  "shape_ok v \<longleftrightarrow> finite (dom (fstructs v)) \<and> (\<forall>i f. fstructs v i = Some f \<longrightarrow> length (fd_array f) = 72)"

definition files_ok :: "vstate \<Rightarrow> bool" where
  "files_ok v \<longleftrightarrow> well v \<and> shape_ok v \<and> table_ok (fd_table v) (opens v)"

lemma finite_users: "finite (dom T) \<Longrightarrow> finite (users T nd)"
  by (rule finite_subset [of _ "dom T"]) (auto simp: users_def)

lemma users_upd: "users (T(p \<mapsto> f)) nd = (if refers nd f then insert p (users T nd) else users T nd - {p})"
  by (auto simp: users_def)

text \<open>A change of a descriptor that is neither opened nor closed; opening one; closing one.\<close>

lemma table_same:
  assumes "table_ok T c" "T p = Some f" "slot_ok (snd p) g" "\<And>nd. refers nd g = refers nd f"
  shows "table_ok (T(p \<mapsto> g)) c"
proof -
  have "users (T(p \<mapsto> g)) nd = users T nd" for nd using assms(2,4) by (auto simp: users_upd) (auto simp: users_def)
  then show ?thesis using assms by (auto simp: table_ok_def)
qed

lemma table_open:
  assumes "table_ok T c" "T p = Some f" "f_status f = FD_NONE" "slot_ok (snd p) g" "f_status g = FD_OPENED" "f_node g = Some nd"
  shows "table_ok (T(p \<mapsto> g)) (c(nd := c nd + 1))"
proof -
  have "p \<notin> users T k" for k using assms(2,3) by (simp add: users_def refers_def)
  moreover have "finite (users T k)" for k using assms(1) finite_users by (simp add: table_ok_def)
  ultimately have "card (users (T(p \<mapsto> g)) k) = (if k = nd then card (users T k) + 1 else card (users T k))" for k
    using assms(5,6) by (simp add: users_upd refers_def)
  then show ?thesis using assms by (auto simp: table_ok_def)
qed

lemma table_close:
  assumes "table_ok T c" "T p = Some f" "f_status f = FD_OPENED" "f_node f = Some nd" "slot_ok (snd p) g" "f_status g = FD_NONE"
  shows "table_ok (T(p \<mapsto> g)) (c(nd := c nd - 1))"
proof -
  have p: "p \<in> users T k \<longleftrightarrow> k = nd" for k using assms(2-4) by (auto simp: users_def refers_def)
  have fin: "finite (users T nd)" using assms(1) finite_users by (simp add: table_ok_def)
  have u: "users (T(p \<mapsto> g)) k = (if k = nd then users T k - {p} else users T k)" for k
    using p assms(6) by (auto simp: users_upd refers_def)
  have "card (users T nd) = Suc (card (users T nd - {p}))" using p fin by (metis card.remove)
  then have "int (card (users (T(p \<mapsto> g)) k)) = (if k = nd then int (card (users T k)) - 1 else int (card (users T k)))" for k
    by (simp add: u)
  then show ?thesis using assms by (auto simp: table_ok_def)
qed

subsection \<open>Updates of the table\<close>

lemma ofile_at_upd:
  "ofile_at (upd_ofile i k g v) i' k' = (if i' = i \<and> k' = k then map_option g (ofile_at v i k) else ofile_at v i' k')"
  by (cases "fstructs v i") (auto simp: ofile_at_def upd_ofile_def upd_files_def)

lemma table_upd: "ofile_at v i k = Some f \<Longrightarrow> fd_table (upd_ofile i k g v) = (fd_table v)((i, k) \<mapsto> g f)"
  by (auto simp: fd_table_def fun_eq_iff ofile_at_upd)

lemma upd_ofile_keeps [simp]:
  "well (upd_ofile i k g v) = well v" "opens (upd_ofile i k g v) = opens v" "shape_ok (upd_ofile i k g v) = shape_ok v"
  "cur_files (upd_ofile i k g v) = cur_files v" "inodes (upd_ofile i k g v) = inodes v"
proof -
  show "shape_ok (upd_ofile i k g v) = shape_ok v"
    by (cases "fstructs v i") (auto simp: shape_ok_def upd_ofile_def upd_files_def fun_upd_idem)
qed (simp_all add: upd_ofile_def upd_files_def opens_def fun_eq_iff)

lemma table_cong: "fstructs v' = fstructs v \<Longrightarrow> fd_table v' = fd_table v"
  by (simp add: fd_table_def ofile_at_def fun_eq_iff)

lemma shape_cong: "fstructs v' = fstructs v \<Longrightarrow> shape_ok v' = shape_ok v"
  by (simp add: shape_ok_def)

lemma files_ok_view: "files_ok v \<Longrightarrow> well v' \<Longrightarrow> view v' = view v \<Longrightarrow> files_ok v'"
  using table_cong [of v' v] shape_cong [of v' v] by (simp add: files_ok_def view_def)

lemma slot_okD: "files_ok v \<Longrightarrow> ofile_at v i k = Some f \<Longrightarrow> slot_ok k f"
  unfolding files_ok_def table_ok_def by (metis fst_conv snd_conv fd_table_def)

subsection \<open>An operation on a descriptor\<close>

lemma fd2fileD:
  "fd2file fd v = Some (Inr (i, k, f)) \<Longrightarrow> ofile_at v i k = Some f \<and> f_status f = FD_OPENED \<and> i = cur_files v \<and> k = nat fd"
  by (auto simp: fd2file_def get_fd_array_def split: if_splits elim!: bind_SomeE)

text \<open>During an operation: the descriptor is held, everything else is as before.\<close>

definition held :: "vstate \<Rightarrow> nat \<Rightarrow> nat \<Rightarrow> ofile \<Rightarrow> vstate \<Rightarrow> bool" where
  "held v i k g w \<longleftrightarrow> well w \<and> opens w = opens v \<and> shape_ok w \<and> cur_files w = cur_files v
     \<and> fd_table w = (fd_table v)((i, k) \<mapsto> g)"

lemma held_view: "held v i k g w \<Longrightarrow> well w' \<Longrightarrow> view w' = view w \<Longrightarrow> held v i k g w'"
  using table_cong [of w' w] shape_cong [of w' w] by (simp add: held_def view_def)

lemma held_at: "held v i k g w \<Longrightarrow> ofile_at w i k = Some g"
  unfolding held_def fd_table_def by (drule conjunct2, drule conjunct2, drule conjunct2, drule conjunct2, drule fun_cong [of _ _ "(i, k)"]) simp

lemma held_upd: "held v i k g w \<Longrightarrow> held v i k (h g) (upd_ofile i k h w)"
  using held_at [of v i k g w] by (simp add: held_def table_upd)

lemma acquire_held:
  assumes ok: "files_ok v" and f: "ofile_at v i k = Some f" and a: "fd_array_acquire i k v = Some w"
  shows "held v i k (f\<lparr>f_open_count := f_open_count f + 1\<rparr>) w"
proof -
  have "w = upd_ofile i k (\<lambda>f. f\<lparr>f_open_count := f_open_count f + 1\<rparr>) v"
    using a f by (auto simp: fd_array_acquire_def elim!: bind_SomeE)
  then show ?thesis using ok by (simp add: held_def files_ok_def table_upd [OF f])
qed

lemma release_held:
  assumes ok: "files_ok v" and f: "ofile_at v i k = Some f" "f_status f = FD_OPENED"
    and h: "held v i k (f\<lparr>f_open_count := f_open_count f + 1, f_pos := x\<rparr>) w"
    and r: "fd_array_release i k w = Some w'"
  shows "files_ok w' \<and> fd_table w' = (fd_table v)((i, k) \<mapsto> f\<lparr>f_pos := x\<rparr>) \<and> cur_files w' = cur_files v \<and> opens w' = opens v
    \<and> inodes w' = inodes w"
proof -
  have s: "slot_ok k f" using slot_okD [OF ok f(1)] .
  then have c: "f_open_count f = 1" using f(2) by (simp add: slot_ok_def)
  have w': "w' = upd_ofile i k (\<lambda>f. f\<lparr>f_open_count := f_open_count f - 1\<rparr>) w"
    using r held_at [OF h] c by (auto simp: fd_array_release_def Let_def f(2) elim!: bind_SomeE)
  have t: "fd_table w' = (fd_table v)((i, k) \<mapsto> f\<lparr>f_pos := x\<rparr>)"
    using h by (simp add: w' table_upd [OF held_at [OF h]]) (simp add: held_def c)
  have "table_ok (fd_table w') (opens v)" unfolding t
    using ok s f by (intro table_same [of _ _ _ f]) (auto simp: files_ok_def fd_table_def slot_ok_def refers_def)
  then show ?thesis using h t by (simp add: files_ok_def w' held_def)
qed

lemma release_same:
  assumes "files_ok v" "ofile_at v i k = Some f" "f_status f = FD_OPENED"
    and "held v i k (f\<lparr>f_open_count := f_open_count f + 1\<rparr>) w" "fd_array_release i k w = Some w'"
  shows "files_ok w' \<and> fd_table w' = fd_table v \<and> cur_files w' = cur_files v \<and> opens w' = opens v \<and> inodes w' = inodes w"
  using release_held [of v i k f "f_pos f" w w'] assms by (auto simp: fd_table_def fun_eq_iff)

lemma file_io_keeps:
  assumes r: "file_io wr fd base len v = Some (ret, c, bs, v')" and ok: "files_ok v"
  shows "files_ok v'"
proof -
  obtain q where q: "fd2file fd v = Some q" using r by (auto simp: file_io_def elim!: bind_SomeE)
  show ?thesis
  proof (cases "v' = v")
    case False
    then obtain i k f where qf: "q = Inr (i, k, f)" using r q by (auto simp: file_io_def split: sum.splits)
    note f = fd2fileD [OF q [unfolded qf]]
    obtain w1 nd iob w2 g where a: "fd_array_acquire i k v = Some w1"
      and io: "vop_io wr nd (iobuf_init base len (f_pos f)) w1 = Some (ret, iob, w2)"
      and g: "ofile_at w2 i k = Some g"
      and e: "fd_array_release i k (if f_status g = FD_OPENED
          then upd_ofile i k (\<lambda>f. f\<lparr>f_pos := f_pos f + int (iobuf_used iob)\<rparr>) w2 else w2) = Some v'"
      using r q qf False by (auto simp: file_io_def Let_def split: if_splits elim!: bind_SomeE)
    have h1: "held v i k (f\<lparr>f_open_count := f_open_count f + 1\<rparr>) w1" using acquire_held [OF ok _ a] f by blast
    have "well w2" "view w2 = view w1" using vop_io_keeps [OF io] h1 by (auto simp: held_def)
    then have h2: "held v i k (f\<lparr>f_open_count := f_open_count f + 1\<rparr>) w2" by (rule held_view [OF h1])
    have h3: "held v i k (f\<lparr>f_open_count := f_open_count f + 1, f_pos := f_pos f + int (iobuf_used iob)\<rparr>)
        (upd_ofile i k (\<lambda>f. f\<lparr>f_pos := f_pos f + int (iobuf_used iob)\<rparr>) w2)"
      using held_upd [OF h2, of "\<lambda>f. f\<lparr>f_pos := f_pos f + int (iobuf_used iob)\<rparr>"] by simp
    then show ?thesis using release_held [OF ok _ _ h3] e g held_at [OF h2] f by auto
  qed (use ok in simp)
qed

lemma file_seek_keeps:
  assumes r: "file_seek fd pos whence v = Some (ret, v')" and ok: "files_ok v"
  shows "files_ok v'"
proof -
  obtain q where q: "fd2file fd v = Some q" using r by (auto simp: file_seek_def elim!: bind_SomeE)
  show ?thesis
  proof (cases q)
    case (Inr x)
    obtain i k f where x: "x = (i, k, f)" by (cases x)
    note f = fd2fileD [OF q [unfolded Inr x]]
    obtain w1 nd target ret2 w2 where a: "fd_array_acquire i k v = Some w1"
      and s: "(case target of
                 None \<Rightarrow> Some (Some E_INVAL, w1)
               | Some pos \<Rightarrow> do {
                   (ret, v) \<leftarrow> vop_tryseek nd pos w1;
                   Some (ret, if ret = None then upd_ofile i k (\<lambda>f. f\<lparr>f_pos := pos\<rparr>) v else v)
                 }) = Some (ret2, w2)"
      and e: "fd_array_release i k w2 = Some v'"
      using r q Inr x by (auto simp: file_seek_def elim!: bind_SomeE)
    have h1: "held v i k (f\<lparr>f_open_count := f_open_count f + 1\<rparr>) w1" using acquire_held [OF ok _ a] f by blast
    then have "\<exists>p. held v i k (f\<lparr>f_open_count := f_open_count f + 1, f_pos := p\<rparr>) w2"
    proof (cases target)
      case None
      then have "held v i k (f\<lparr>f_open_count := f_open_count f + 1, f_pos := f_pos f\<rparr>) w2" using s h1 by simp
      then show ?thesis ..
    next
      case (Some p)
      then obtain ret3 w3 where t: "vop_tryseek nd p w1 = Some (ret3, w3)"
        and w2: "w2 = (if ret3 = None then upd_ofile i k (\<lambda>f. f\<lparr>f_pos := p\<rparr>) w3 else w3)"
        using s by (auto elim!: bind_SomeE)
      have "well w3" "view w3 = view w1" using vop_tryseek_keeps [OF t] h1 by (auto simp: held_def)
      then have h3: "held v i k (f\<lparr>f_open_count := f_open_count f + 1\<rparr>) w3" by (rule held_view [OF h1])
      have "held v i k (f\<lparr>f_open_count := f_open_count f + 1, f_pos := if ret3 = None then p else f_pos f\<rparr>) w2"
        using h3 held_upd [OF h3, of "\<lambda>f. f\<lparr>f_pos := p\<rparr>"] by (simp add: w2)
      then show ?thesis ..
    qed
    then show ?thesis using release_held [OF ok _ _ _ e] f by blast
  qed (use r q ok in \<open>simp add: file_seek_def\<close>)
qed

lemma file_fstat_keeps:
  assumes r: "file_fstat fd v = Some (ret, v')" and ok: "files_ok v"
  shows "files_ok v'"
proof -
  obtain q where q: "fd2file fd v = Some q" using r by (auto simp: file_fstat_def elim!: bind_SomeE)
  show ?thesis
  proof (cases q)
    case (Inr x)
    obtain i k f where x: "x = (i, k, f)" by (cases x)
    note f = fd2fileD [OF q [unfolded Inr x]]
    obtain w1 where a: "fd_array_acquire i k v = Some w1" and e: "fd_array_release i k w1 = Some v'"
      using r q Inr x by (auto simp: file_fstat_def elim!: bind_SomeE)
    show ?thesis using release_same [OF ok _ _ acquire_held [OF ok _ a] e] f by blast
  qed (use r q ok in \<open>simp add: file_fstat_def\<close>)
qed

lemma file_fsync_keeps:
  assumes r: "file_fsync fd v = Some (ret, v')" and ok: "files_ok v"
  shows "files_ok v'"
proof -
  obtain q where q: "fd2file fd v = Some q" using r by (auto simp: file_fsync_def elim!: bind_SomeE)
  show ?thesis
  proof (cases q)
    case (Inr x)
    obtain i k f where x: "x = (i, k, f)" by (cases x)
    note f = fd2fileD [OF q [unfolded Inr x]]
    obtain w1 nd ret2 w2 where a: "fd_array_acquire i k v = Some w1" and s: "vop_fsync nd w1 = Some (ret2, w2)"
      and e: "fd_array_release i k w2 = Some v'"
      using r q Inr x by (auto simp: file_fsync_def elim!: bind_SomeE)
    have h1: "held v i k (f\<lparr>f_open_count := f_open_count f + 1\<rparr>) w1" using acquire_held [OF ok _ a] f by blast
    have "well w2" "view w2 = view w1" using vop_fsync_keeps [OF s] h1 by (auto simp: held_def)
    then show ?thesis using release_same [OF ok _ _ held_view [OF h1] e] f by blast
  qed (use r q ok in \<open>simp add: file_fsync_def\<close>)
qed

lemma file_getdirentry_keeps:
  assumes r: "file_getdirentry fd de v = Some (ret, de', v')" and ok: "files_ok v"
  shows "files_ok v'"
proof -
  obtain q where q: "fd2file fd v = Some q" using r by (auto simp: file_getdirentry_def elim!: bind_SomeE)
  show ?thesis
  proof (cases q)
    case (Inr x)
    obtain i k f where x: "x = (i, k, f)" by (cases x)
    note f = fd2fileD [OF q [unfolded Inr x]]
    obtain w1 nd ret2 iob w2 where a: "fd_array_acquire i k v = Some w1"
      and s: "vop_getdirentry nd (iobuf_init (d_name de) 256 (d_offset de)) w1 = Some (ret2, iob, w2)"
      and e: "fd_array_release i k w2 = Some v'"
      using r q Inr x by (auto simp: file_getdirentry_def Let_def elim!: bind_SomeE)
    have h1: "held v i k (f\<lparr>f_open_count := f_open_count f + 1\<rparr>) w1" using acquire_held [OF ok _ a] f by blast
    have "well w2" "view w2 = view w1" using vop_getdirentry_keeps [OF s] h1 by (auto simp: held_def)
    then show ?thesis using release_same [OF ok _ _ held_view [OF h1] e] f by blast
  qed (use r q ok in \<open>simp add: file_getdirentry_def\<close>)
qed

subsection \<open>Opening and closing a descriptor\<close>

lemma close_slot:
  assumes ok: "files_ok v" and r: "fd_array_close i k v = Some v'"
  obtains f nd where "ofile_at v i k = Some f" "f_status f = FD_OPENED" "f_node f = Some nd" "files_ok v'"
    "fd_table v' = (fd_table v)((i, k) \<mapsto> f\<lparr>f_open_count := 0, f_status := FD_NONE\<rparr>)"
    "opens v' = (opens v)(nd := opens v nd - 1)" "cur_files v' = cur_files v"
proof -
  obtain f where f: "ofile_at v i k = Some f" "f_status f = FD_OPENED"
    using r by (auto simp: fd_array_close_def elim!: bind_SomeE)
  then obtain nd where c: "f_open_count f = 1" "f_node f = Some nd" and s: "slot_ok k f"
    using slot_okD [OF ok f(1)] by (auto simp: slot_ok_def)
  let ?w = "upd_ofile i k (\<lambda>f. f\<lparr>f_status := FD_CLOSED, f_open_count := f_open_count f - 1\<rparr>) v"
  obtain w2 where w2: "vfs_close nd ?w = Some w2" and v': "v' = upd_ofile i k (\<lambda>f. f\<lparr>f_status := FD_NONE\<rparr>) w2"
    using r f c by (auto simp: fd_array_close_def fd_array_free_def ofile_at_upd Let_def elim!: bind_SomeE)
  have w: "well ?w" using ok by (simp add: files_ok_def)
  have k: "well w2" "opens w2 = (opens v)(nd := opens v nd - 1)" "fstructs w2 = fstructs ?w" "cur_files w2 = cur_files v"
    using vfs_close_keeps [OF w2 w] by (auto simp: view_def)
  have t2: "fd_table w2 = (fd_table v)((i, k) \<mapsto> f\<lparr>f_status := FD_CLOSED, f_open_count := 0\<rparr>)"
    using table_cong [OF k(3)] table_upd [OF f(1)] c by simp
  then have "ofile_at w2 i k = Some (f\<lparr>f_status := FD_CLOSED, f_open_count := 0\<rparr>)"
    by (metis fst_conv fun_upd_same snd_conv fd_table_def)
  then have t: "fd_table v' = (fd_table v)((i, k) \<mapsto> f\<lparr>f_open_count := 0, f_status := FD_NONE\<rparr>)"
    using t2 by (simp add: v' table_upd)
  have "table_ok (fd_table v') ((opens v)(nd := opens v nd - 1))" unfolding t
    using ok f c s by (intro table_close [of _ _ _ f]) (auto simp: files_ok_def fd_table_def slot_ok_def)
  then have "files_ok v'" using k shape_cong [OF k(3)] ok by (simp add: files_ok_def v')
  then show ?thesis using that f c t k by (simp add: v')
qed

lemma file_close_keeps:
  assumes r: "file_close fd v = Some (ret, v')" and ok: "files_ok v"
  shows "files_ok v'"
proof -
  obtain q where q: "fd2file fd v = Some q" using r by (auto simp: file_close_def elim!: bind_SomeE)
  show ?thesis
  proof (cases q)
    case (Inr x)
    obtain i k f where x: "x = (i, k, f)" by (cases x)
    have "fd_array_close i k v = Some v'" using r q Inr x by (auto simp: file_close_def elim!: bind_SomeE)
    then show ?thesis by (rule close_slot [OF ok])
  qed (use r q ok in \<open>simp add: file_close_def\<close>)
qed

text \<open>A free descriptor: what \<open>fd_array_alloc\<close> finds.\<close>

lemma alloc_SomeD:
  assumes "fd_array_alloc fd v = Some (r, v')"
  shows "v' = v \<and> (\<exists>e. r = Inl e) \<or> (\<exists>k f. r = Inr k \<and> ofile_at v (cur_files v) k = Some f \<and> f_status f = FD_NONE
      \<and> v' = upd_ofile (cur_files v) k (\<lambda>f. f\<lparr>f_status := FD_INIT, f_node := None\<rparr>) v) \<or> \<not> files_ok v"
proof (cases "files_ok v")
  case True
  obtain fs where fs: "fstructs v (cur_files v) = Some fs"
    using assms by (auto simp: fd_array_alloc_def get_fd_array_def cur_fs_def elim!: bind_SomeE)
  then have l: "length (fd_array fs) = 72" using True by (simp add: files_ok_def shape_ok_def)
  have g: "get_fd_array v = Some (cur_files v)"
    using assms by (auto simp: fd_array_alloc_def get_fd_array_def elim!: bind_SomeE)
  have "r = Inr k \<Longrightarrow> k < 72 \<and> f_status (fd_array fs ! k) = FD_NONE" for k
    using assms fs g by (auto simp: fd_array_alloc_def testfd_def find_Some_iff split: if_splits option.splits elim!: bind_SomeE)
  moreover have "v' = (case r of Inl e \<Rightarrow> v | Inr k \<Rightarrow> upd_ofile (cur_files v) k (\<lambda>f. f\<lparr>f_status := FD_INIT, f_node := None\<rparr>) v)"
    using assms fs g by (auto simp: fd_array_alloc_def Let_def split: if_splits option.splits elim!: bind_SomeE)
  ultimately show ?thesis using fs l by (cases r) (auto simp: ofile_at_def)
qed simp

lemma opened_keeps:
  assumes "files_ok v" "ofile_at v i k = Some f" "f_status f = FD_NONE" "well w" "shape_ok w"
    and "opens w = (opens v)(nd := opens v nd + 1)" "fd_table w = (fd_table v)((i, k) \<mapsto> g)"
    and "f_status g = FD_OPENED" "f_open_count g = 1" "f_fd g = f_fd f" "f_node g = Some nd"
  shows "files_ok w"
proof -
  have "slot_ok k f" using slot_okD assms(1,2) by blast
  then have "slot_ok k g" using assms by (simp add: slot_ok_def)
  then have "table_ok (fd_table w) (opens w)" unfolding assms(6,7)
    using assms by (intro table_open [of _ _ _ f]) (auto simp: files_ok_def fd_table_def)
  then show ?thesis using assms by (simp add: files_ok_def)
qed

lemma returned_keeps:
  assumes "files_ok v" "ofile_at v i k = Some f" "f_status f = FD_NONE" "well w" "shape_ok w"
    and "opens w = opens v" "fd_table w = (fd_table v)((i, k) \<mapsto> f\<lparr>f_node := nd, f_status := FD_NONE\<rparr>)"
  shows "files_ok w"
proof -
  have "slot_ok k f" using slot_okD assms(1,2) by blast
  then have "table_ok (fd_table w) (opens w)" unfolding assms(6,7)
    using assms by (intro table_same [of _ _ _ f]) (auto simp: files_ok_def fd_table_def slot_ok_def refers_def)
  then show ?thesis using assms by (simp add: files_ok_def)
qed

lemma file_open_keeps:
  assumes r: "file_open path flags v = Some (ret, v')" and ok: "files_ok v"
  shows "files_ok v'"
proof (cases "v' = v")
  case False
  obtain a v1 where a: "fd_array_alloc NO_FD v = Some (a, v1)"
    using r False by (auto simp: file_open_def Let_def split: if_splits elim!: bind_SomeE)
  obtain k where k: "a = Inr k" using r a False alloc_SomeD [OF a] ok
    by (auto simp: file_open_def Let_def split: if_splits)
  let ?i = "cur_files v"
  obtain f where f: "ofile_at v ?i k = Some f" "f_status f = FD_NONE"
    and v1: "v1 = upd_ofile ?i k (\<lambda>f. f\<lparr>f_status := FD_INIT, f_node := None\<rparr>) v"
    using alloc_SomeD [OF a] ok k by auto
  have s: "slot_ok k f" using slot_okD [OF ok f(1)] .
  then have c: "f_open_count f = 0" using f(2) by (simp add: slot_ok_def)
  obtain b v2 where b: "vfs_open path flags v1 = Some (b, v2)"
    using r a k False by (auto simp: file_open_def Let_def split: if_splits elim!: bind_SomeE)
  have w1: "well v1" using ok by (simp add: files_ok_def v1)
  note w2 = vfs_open_keeps [OF b w1]
  then have e2: "fstructs v2 = fstructs v1" "cur_files v2 = cur_files v" by (auto simp: view_def v1)
  have t2: "fd_table v2 = (fd_table v)((?i, k) \<mapsto> f\<lparr>f_status := FD_INIT, f_node := None\<rparr>)"
    using table_cong [OF e2(1)] table_upd [OF f(1)] by (simp add: v1)
  then have at2: "ofile_at v2 ?i k = Some (f\<lparr>f_status := FD_INIT, f_node := None\<rparr>)"
    by (metis fst_conv fun_upd_same snd_conv fd_table_def)
  have s2: "shape_ok v2" using shape_cong [OF e2(1)] ok by (simp add: files_ok_def v1)
  have i1: "cur_files v1 = ?i" by (simp add: v1)
  show ?thesis
  proof (cases b)
    case (Inl e)
    then have "fd_array_free ?i k v2 = Some v'"
      using r a k b False i1 by (auto simp: file_open_def Let_def split: if_splits elim!: bind_SomeE)
    then have v': "v' = upd_ofile ?i k (\<lambda>f. f\<lparr>f_status := FD_NONE\<rparr>) v2"
      using at2 c by (auto simp: fd_array_free_def elim!: bind_SomeE)
    have "opens v' = opens v" using w2 Inl by (simp add: view_def v' v1)
    moreover have "fd_table v' = (fd_table v)((?i, k) \<mapsto> f\<lparr>f_node := None, f_status := FD_NONE\<rparr>)"
      using t2 table_upd [OF at2] by (simp add: v')
    ultimately show ?thesis using w2 s2 by (intro returned_keeps [OF ok f]) (simp_all add: v')
  next
    case (Inr nd)
    obtain pos g where g: "fd_array_open ?i k (upd_ofile ?i k g v2) = Some v'"
      and gd: "g = (\<lambda>f. f\<lparr>f_pos := pos, f_node := Some nd,
          f_readable := (flags AND O_ACCMODE = O_RDONLY \<or> flags AND O_ACCMODE = O_RDWR),
          f_writable := (flags AND O_ACCMODE = O_WRONLY \<or> flags AND O_ACCMODE = O_RDWR)\<rparr>)"
      using r a k b False i1 Inr by (auto simp: file_open_def Let_def split: if_splits elim!: bind_SomeE)
    have at3: "ofile_at (upd_ofile ?i k g v2) ?i k = Some (g (f\<lparr>f_status := FD_INIT, f_node := None\<rparr>))"
      using at2 by (simp add: ofile_at_upd)
    let ?g = "(g (f\<lparr>f_status := FD_INIT, f_node := None\<rparr>))\<lparr>f_status := FD_OPENED, f_open_count := 1\<rparr>"
    have v': "v' = upd_ofile ?i k (\<lambda>f. f\<lparr>f_status := FD_OPENED, f_open_count := f_open_count f + 1\<rparr>) (upd_ofile ?i k g v2)"
      using g at3 by (auto simp: fd_array_open_def elim!: bind_SomeE)
    have "opens v' = (opens v)(nd := opens v nd + 1)" using w2 Inr by (simp add: view_def v' v1)
    moreover have "fd_table v' = (fd_table v)((?i, k) \<mapsto> ?g)"
      using t2 table_upd [OF at3] table_upd [OF at2, of g] c by (simp add: v' gd)
    ultimately show ?thesis using w2 s2
      by (intro opened_keeps [OF ok f, of v' nd ?g]) (simp_all add: v' gd)
  qed
qed (use ok in simp)

text \<open>\<open>fd_array_dup\<close> to a descriptor that has just been taken.\<close>

lemma dup_slot:
  assumes ok: "files_ok v" and f: "ofile_at v it kt = Some t" "f_status t = FD_NONE"
    and g: "g t = t\<lparr>f_status := FD_INIT\<rparr> \<or> g t = t\<lparr>f_status := FD_INIT, f_node := None\<rparr>"
    and r: "fd_array_dup it kt i k (upd_ofile it kt g v) = Some v'"
  shows "files_ok v' \<and> cur_files v' = cur_files v \<and> (\<exists>h. fd_table v' = (fd_table v)((it, kt) \<mapsto> h))"
proof -
  have s: "slot_ok kt t" using slot_okD [OF ok f(1)] .
  let ?w = "upd_ofile it kt g v"
  have at: "ofile_at ?w it kt = Some (g t)" by (simp add: ofile_at_upd f)
  obtain u nd c1 w1 c2 w2 where u: "ofile_at ?w i k = Some u" "f_node u = Some nd"
    and i: "inode_ref_inc nd ?w = Some (c1, w1)" "inode_open_inc nd w1 = Some (c2, w2)"
    and o1: "fd_array_open it kt (upd_ofile it kt (\<lambda>t. t\<lparr>f_pos := f_pos u, f_readable := f_readable u,
         f_writable := f_writable u, f_node := Some nd\<rparr>) w2) = Some v'"
    using r at by (auto simp: fd_array_dup_def elim!: bind_SomeE)
  have w: "well ?w" using ok by (simp add: files_ok_def)
  have k1: "well w1" "view w1 = view ?w" using ref_inc_keeps [OF i(1) w] by auto
  have k2: "well w2" "opens w2 = (opens v)(nd := opens v nd + 1)" "fstructs w2 = fstructs ?w" "cur_files w2 = cur_files v"
    using open_inc_keeps [OF i(2) k1(1)] k1(2) by (auto simp: view_def)
  have at2: "ofile_at w2 it kt = Some (g t)" using at k2(3) by (simp add: ofile_at_def)
  let ?h = "(g t)\<lparr>f_pos := f_pos u, f_readable := f_readable u, f_writable := f_writable u, f_node := Some nd\<rparr>"
  let ?w3 = "upd_ofile it kt (\<lambda>t. t\<lparr>f_pos := f_pos u, f_readable := f_readable u,
         f_writable := f_writable u, f_node := Some nd\<rparr>) w2"
  have at3: "ofile_at ?w3 it kt = Some ?h" using at2 by (simp add: ofile_at_upd)
  have v': "v' = upd_ofile it kt (\<lambda>f. f\<lparr>f_status := FD_OPENED, f_open_count := f_open_count f + 1\<rparr>) ?w3"
    using o1 at3 by (auto simp: fd_array_open_def elim!: bind_SomeE)
  have c: "f_open_count (g t) = 0" "f_fd (g t) = f_fd t" using g s f(2) by (auto simp: slot_ok_def)
  let ?k = "?h\<lparr>f_status := FD_OPENED, f_open_count := 1\<rparr>"
  have t: "fd_table v' = (fd_table v)((it, kt) \<mapsto> ?k)"
    using table_upd [OF at3] table_upd [OF at2] table_cong [OF k2(3)] table_upd [OF f(1), of g] c by (simp add: v')
  have "files_ok v'"
    using k2 shape_cong [OF k2(3)] ok c t
    by (intro opened_keeps [OF ok f, of v' nd ?k]) (simp_all add: v' files_ok_def)
  then show ?thesis using t k2(4) by (auto simp: v')
qed

lemma file_dup_keeps:
  assumes r: "file_dup fd1 fd2 v = Some (ret, v')" and ok: "files_ok v"
  shows "files_ok v'"
proof -
  obtain q where q: "fd2file fd1 v = Some q" using r by (auto simp: file_dup_def elim!: bind_SomeE)
  show ?thesis
  proof (cases "v' = v")
    case False
    then obtain i k1 f1 where x: "q = Inr (i, k1, f1)" using r q by (auto simp: file_dup_def split: sum.splits)
    obtain a v1 where a: "fd_array_alloc fd2 v = Some (a, v1)" using r q x by (auto simp: file_dup_def elim!: bind_SomeE)
    obtain k where k: "a = Inr k" using r q x a False alloc_SomeD [OF a] ok by (auto simp: file_dup_def)
    obtain f where f: "ofile_at v (cur_files v) k = Some f" "f_status f = FD_NONE"
      and v1: "v1 = upd_ofile (cur_files v) k (\<lambda>f. f\<lparr>f_status := FD_INIT, f_node := None\<rparr>) v"
      using alloc_SomeD [OF a] ok k by auto
    have "fd_array_dup i k i k1 v1 = Some v'" "i = cur_files v"
      using r q x a k fd2fileD [OF q [unfolded x]] by (auto simp: file_dup_def elim!: bind_SomeE)
    then show ?thesis using dup_slot [OF ok f, of "\<lambda>f. f\<lparr>f_status := FD_INIT, f_node := None\<rparr>" i k1 v'] v1 by simp
  qed (use ok in simp)
qed

subsection \<open>The life cycle of a table\<close>

lemma closeall_loop_keeps: "closeall_loop i k n v = Some v' \<Longrightarrow> files_ok v \<Longrightarrow> files_ok v'"
proof (induction n arbitrary: k v)
  case (Suc n)
  obtain f where f: "ofile_at v i k = Some f" using Suc.prems(1) by (auto elim: bind_SomeE)
  obtain v1 where s: "(if f_status f = FD_OPENED then fd_array_close i k v else Some v) = Some v1"
    "closeall_loop i (k + 1) n v1 = Some v'" using Suc.prems(1) f by (auto elim!: bind_SomeE)
  then have "files_ok v1" using Suc.prems(2) by (auto split: if_splits elim: close_slot)
  then show ?case using Suc.IH s(2) by blast
qed simp

lemma files_closeall_keeps: "files_closeall i v = Some v' \<Longrightarrow> files_ok v \<Longrightarrow> files_ok v'"
  by (auto simp: files_closeall_def elim!: bind_SomeE dest: closeall_loop_keeps)

lemma dup_loop_keeps:
  "dup_loop it i k n v = Some v' \<Longrightarrow> files_ok v \<Longrightarrow> it \<noteq> i \<Longrightarrow>
    (\<And>j t. k \<le> j \<Longrightarrow> ofile_at v it j = Some t \<Longrightarrow> f_status t = FD_NONE) \<Longrightarrow> fstructs v it \<noteq> None \<Longrightarrow> k + n \<le> 72 \<Longrightarrow> files_ok v'"
proof (induction n arbitrary: k v)
  case (Suc n)
  obtain f where f: "ofile_at v i k = Some f" using Suc.prems(1) by (auto elim: bind_SomeE)
  obtain v1 where s: "(if f_status f = FD_OPENED
      then fd_array_dup it k i k (upd_ofile it k (\<lambda>f. f\<lparr>f_status := FD_INIT\<rparr>) v) else Some v) = Some v1"
    "dup_loop it i (k + 1) n v1 = Some v'" using Suc.prems(1) f by (auto elim!: bind_SomeE)
  obtain fs where fs: "fstructs v it = Some fs" using Suc.prems(5) by auto
  then have "length (fd_array fs) = 72" using Suc.prems(2) by (simp add: files_ok_def shape_ok_def)
  then obtain t where t: "ofile_at v it k = Some t" using fs Suc.prems(6) by (simp add: ofile_at_def)
  have "files_ok v1 \<and> fstructs v1 it \<noteq> None \<and> (\<forall>j t. k + 1 \<le> j \<longrightarrow> ofile_at v1 it j = Some t \<longrightarrow> f_status t = FD_NONE)"
  proof (cases "f_status f = FD_OPENED")
    case True
    then have d: "fd_array_dup it k i k (upd_ofile it k (\<lambda>f. f\<lparr>f_status := FD_INIT\<rparr>) v) = Some v1" using s by simp
    obtain h where h: "files_ok v1" "fd_table v1 = (fd_table v)((it, k) \<mapsto> h)"
      using dup_slot [OF Suc.prems(2) t Suc.prems(4) [OF order_refl t] _ d] by auto
    then have e: "ofile_at v1 it j = (if j = k then Some h else ofile_at v it j)" for j
      by (metis (no_types, lifting) fst_conv fun_upd_apply prod.inject snd_conv fd_table_def)
    then have "ofile_at v1 it k = Some h" by simp
    then have "fstructs v1 it \<noteq> None" by (auto simp: ofile_at_def elim: bind_SomeE)
    then show ?thesis using h(1) e Suc.prems(4) by (auto dest: Suc_leD)
  next
    case False
    then show ?thesis using s Suc.prems by (auto dest: Suc_leD)
  qed
  then show ?case using Suc.IH [OF s(2) _ Suc.prems(3)] Suc.prems(6) by auto
qed simp

lemma dup_files_keeps:
  assumes r: "dup_files it i v = Some v'" and ok: "files_ok v" and new: "\<And>j t. ofile_at v it j = Some t \<Longrightarrow> f_status t = FD_NONE"
  shows "files_ok v'"
proof -
  obtain t f where t: "fstructs v it = Some t" "fstructs v i = Some f" "files_count t = 0" "files_count f > 0"
    using r by (auto simp: dup_files_def elim!: bind_SomeE)
  let ?w = "upd_files it (\<lambda>t. t\<lparr>pwd := pwd f\<rparr>) v"
  have at: "ofile_at ?w = ofile_at v" by (auto simp: ofile_at_def upd_files_def fun_eq_iff t)
  have w: "files_ok ?w"
    using ok at t by (simp add: files_ok_def shape_ok_def fd_table_def [abs_def]) (auto simp: upd_files_def opens_def [abs_def])
  obtain w1 where w1: "(case pwd f of None \<Rightarrow> Some ?w | Some nd \<Rightarrow> do { (_, v) \<leftarrow> inode_ref_inc nd ?w; Some v }) = Some w1"
    and l: "dup_loop it i 0 72 w1 = Some v'"
    using r t by (auto simp: dup_files_def Let_def elim!: bind_SomeE)
  have k: "well w1 \<and> view w1 = view ?w" using w1 w ref_inc_keeps
    by (auto simp: files_ok_def split: option.splits elim!: bind_SomeE)
  then have e: "fstructs w1 = fstructs ?w" by (simp add: view_def)
  then have "ofile_at w1 = ofile_at v" using at by (simp add: ofile_at_def fun_eq_iff)
  moreover have "it \<noteq> i" using t by auto
  moreover have "fstructs w1 it \<noteq> None" using e t by (simp add: upd_files_def)
  ultimately show ?thesis using dup_loop_keeps [OF l files_ok_view [OF w]] k new by auto
qed

lemma destroy_loop_keeps:
  "destroy_loop i k n v = Some v' \<Longrightarrow> files_ok v \<Longrightarrow>
    files_ok v' \<and> (\<forall>j f. k \<le> j \<and> j < k + n \<longrightarrow> ofile_at v' i j = Some f \<longrightarrow> f_status f = FD_NONE)"
proof (induction n arbitrary: k v)
  case (Suc n)
  obtain f where f: "ofile_at v i k = Some f" using Suc.prems(1) by (auto elim: bind_SomeE)
  obtain v1 g where s: "(if f_status f = FD_OPENED then fd_array_close i k v else Some v) = Some v1"
    "ofile_at v1 i k = Some g" "f_status g = FD_NONE" "destroy_loop i (k + 1) n v1 = Some v'" using Suc.prems(1) f by (auto elim!: bind_SomeE)
  have "files_ok v1" using s(1) Suc.prems(2) by (auto split: if_splits elim: close_slot)
  note ih = Suc.IH [OF s(4) this]
  have same: "destroy_loop i m n u = Some u' \<Longrightarrow> files_ok u \<Longrightarrow> j < m \<Longrightarrow> ofile_at u' i j = ofile_at u i j" for m u u' j
  proof (induction n arbitrary: m u)
    case (Suc n)
    obtain f where f: "ofile_at u i m = Some f" using Suc.prems(1) by (auto elim: bind_SomeE)
    obtain u1 where s: "(if f_status f = FD_OPENED then fd_array_close i m u else Some u) = Some u1"
      "destroy_loop i (m + 1) n u1 = Some u'" using Suc.prems(1) f by (auto elim!: bind_SomeE)
    have "files_ok u1 \<and> ofile_at u1 i j = ofile_at u i j"
    proof (cases "f_status f = FD_OPENED")
      case True
      then have "fd_array_close i m u = Some u1" using s by simp
      then obtain h where "files_ok u1" "fd_table u1 = (fd_table u)((i, m) \<mapsto> h)" by (rule close_slot [OF Suc.prems(2)])
      then show ?thesis using Suc.prems(3) by (metis fst_conv fun_upd_apply nat_neq_iff prod.inject snd_conv fd_table_def)
    qed (use s Suc.prems in simp)
    then show ?case using Suc.IH [OF s(2)] Suc.prems(3) by auto
  qed simp
  have "ofile_at v' i k = ofile_at v1 i k" using same [OF s(4) \<open>files_ok v1\<close>] by simp
  then have "f_status h = FD_NONE" if "k \<le> j" "j < k + Suc n" "ofile_at v' i j = Some h" for j h
  proof (cases "j = k")
    case False
    then have "k + 1 \<le> j" "j < k + 1 + n" using that by simp_all
    then show ?thesis using ih that(3) by blast
  qed (use ih that s(2,3) in auto)
  then show ?case using ih by blast
qed auto

lemma files_destroy_keeps:
  assumes r: "files_destroy i v = Some v'" and ok: "files_ok v"
  shows "files_ok v'"
proof -
  obtain fs where fs: "fstructs v i = Some fs" using r by (auto simp: files_destroy_def elim!: bind_SomeE)
  obtain w1 w2 where w1: "(case pwd fs of None \<Rightarrow> Some v | Some nd \<Rightarrow> do { (_, v) \<leftarrow> inode_ref_dec nd v; Some v }) = Some w1"
    and l: "destroy_loop i 0 72 w1 = Some w2" and v': "v' = w2\<lparr>fstructs := (fstructs w2)(i := None)\<rparr>"
    using r fs by (auto simp: files_destroy_def elim!: bind_SomeE)
  have "well w1 \<and> view w1 = view v" using w1 ok ref_dec_keeps
    by (auto simp: files_ok_def split: option.splits elim!: bind_SomeE)
  then have "files_ok w1" using files_ok_view [OF ok] by blast
  note k = destroy_loop_keeps [OF l this]
  have none: "f_status f = FD_NONE" if "ofile_at w2 i j = Some f" for j f
  proof -
    have "j < 72" using that k by (auto simp: ofile_at_def files_ok_def shape_ok_def split: if_splits elim!: bind_SomeE)
    then show ?thesis using k that by auto
  qed
  have t: "fd_table v' p = (if fst p = i then None else fd_table w2 p)" for p
    by (simp add: v' fd_table_def ofile_at_def)
  have "users (fd_table v') nd = users (fd_table w2) nd" for nd
    using none by (auto simp: users_def t refers_def) (auto simp: fd_table_def)
  moreover have "dom (fd_table v') \<subseteq> dom (fd_table w2)" by (auto simp: t split: if_splits)
  moreover have "slot_ok (snd p) f" if "fd_table v' p = Some f" for p f
    using that k t [of p] by (cases p) (auto simp: files_ok_def table_ok_def split: if_splits)
  moreover have "opens v' = opens w2" by (simp add: v' opens_def fun_eq_iff)
  ultimately have "table_ok (fd_table v') (opens v')"
    using k finite_subset unfolding files_ok_def table_ok_def by metis
  moreover have "shape_ok v'" using k finite_subset [of "dom (fstructs v')" "dom (fstructs w2)"]
    by (auto simp: files_ok_def shape_ok_def v' split: if_splits)
  ultimately show ?thesis using k by (simp add: files_ok_def v')
qed

subsection \<open>Duplicating and closing\<close>

lemma get_fd_array_upd [simp]: "get_fd_array (upd_ofile i k g v) = get_fd_array v"
  by (cases "fstructs v i") (auto simp: get_fd_array_def cur_fs_def upd_ofile_def upd_files_def)

lemma get_fd_array_inode [simp]: "get_fd_array (upd_inode nd f v) = get_fd_array v"
  by (simp add: get_fd_array_def cur_fs_def)

lemma ofile_at_inode [simp]: "ofile_at (upd_inode nd f v) = ofile_at v"
  by (simp add: ofile_at_def fun_eq_iff)

text \<open>Closing a descriptor whose node has other users.\<close>

lemma vfs_close_shared:
  assumes "inodes v nd = Some n" "open_count n > 1" "ref_count n > 1"
  shows "vfs_close nd v = Some (upd_inode nd (\<lambda>n. n\<lparr>ref_count := ref_count n - 1\<rparr>)
      (upd_inode nd (\<lambda>n. n\<lparr>open_count := open_count n - 1\<rparr>) v))"
  using assms by (simp add: vfs_close_def inode_open_dec_def inode_ref_dec_def inodes_upd)

lemma close_shared:
  assumes f: "ofile_at v i k = Some f" "f_status f = FD_OPENED" "f_open_count f = 1" "f_node f = Some nd"
    and n: "inodes v nd = Some n" "open_count n > 1" "ref_count n > 1"
  shows "fd_array_close i k v = Some (upd_ofile i k (\<lambda>f. f\<lparr>f_status := FD_NONE\<rparr>)
      (upd_inode nd (\<lambda>n. n\<lparr>ref_count := ref_count n - 1\<rparr>) (upd_inode nd (\<lambda>n. n\<lparr>open_count := open_count n - 1\<rparr>)
        (upd_ofile i k (\<lambda>f. f\<lparr>f_status := FD_CLOSED, f_open_count := f_open_count f - 1\<rparr>) v))))"
  using f n vfs_close_shared [of "upd_ofile i k (\<lambda>f. f\<lparr>f_status := FD_CLOSED, f_open_count := f_open_count f - 1\<rparr>) v" nd n]
  by (simp add: fd_array_close_def fd_array_free_def ofile_at_upd)

lemma alloc_least:
  assumes fs: "fstructs v (cur_files v) = Some fs" "files_count fs > 0"
    and k: "k < 72" "f_status (fd_array fs ! k) = FD_NONE" "f_open_count (fd_array fs ! k) = 0"
    and least: "\<And>j. j < k \<Longrightarrow> f_status (fd_array fs ! j) \<noteq> FD_NONE"
  shows "fd_array_alloc NO_FD v = Some (Inr k, upd_ofile (cur_files v) k (\<lambda>f. f\<lparr>f_status := FD_INIT, f_node := None\<rparr>) v)"
proof -
  have "find (\<lambda>j. f_status (fd_array fs ! j) = FD_NONE) [0..<72] = Some k"
    using k(1,2) least by (auto simp: find_Some_iff intro!: exI [of _ k])
  then show ?thesis using fs k(3) by (simp add: fd_array_alloc_def get_fd_array_def cur_fs_def)
qed

definition dup_entry :: "ofile \<Rightarrow> ofile \<Rightarrow> ofile" where
  "dup_entry f t = t\<lparr>f_pos := f_pos f, f_readable := f_readable f, f_writable := f_writable f, f_node := f_node f,
     f_status := FD_OPENED, f_open_count := 1\<rparr>"

lemma dup_shared:
  assumes t: "ofile_at v i k = Some t" "f_status t = FD_INIT" "f_open_count t = 0"
    and f: "ofile_at v i k1 = Some f" "f_status f = FD_OPENED" "f_node f = Some nd" and n: "inodes v nd = Some n"
  obtains v' where "fd_array_dup i k i k1 v = Some v'" "fd_table v' = (fd_table v)((i, k) \<mapsto> dup_entry f t)" "vsfs v' = vsfs v"
    "inodes v' = (inodes v)(nd \<mapsto> n\<lparr>ref_count := ref_count n + 1, open_count := open_count n + 1\<rparr>)"
    "get_fd_array v' = get_fd_array v" "cur_files v' = cur_files v"
proof -
  let ?w = "upd_inode nd (\<lambda>n. n\<lparr>open_count := open_count n + 1\<rparr>) (upd_inode nd (\<lambda>n. n\<lparr>ref_count := ref_count n + 1\<rparr>) v)"
  let ?c = "\<lambda>t. t\<lparr>f_pos := f_pos f, f_readable := f_readable f, f_writable := f_writable f, f_node := Some nd\<rparr>"
  let ?v = "upd_ofile i k (\<lambda>f. f\<lparr>f_status := FD_OPENED, f_open_count := f_open_count f + 1\<rparr>) (upd_ofile i k ?c ?w)"
  have at: "ofile_at ?w i k = Some t" "ofile_at (upd_ofile i k ?c ?w) i k = Some (?c t)" using t(1) by (simp_all add: ofile_at_upd)
  have "fd_array_dup i k i k1 v = Some ?v"
    using t f n by (simp add: fd_array_dup_def inode_ref_inc_def inode_open_inc_def inodes_upd fd_array_open_def ofile_at_upd)
  moreover have "fd_table ?v = (fd_table v)((i, k) \<mapsto> dup_entry f t)"
    using table_upd [OF at(2)] table_upd [OF at(1), of ?c] table_cong [of ?w v] t f(3) by (simp add: dup_entry_def)
  moreover have "inodes ?v = (inodes v)(nd \<mapsto> n\<lparr>ref_count := ref_count n + 1, open_count := open_count n + 1\<rparr>)"
    using n by (auto simp: fun_eq_iff inodes_upd)
  moreover have "vsfs ?v = vsfs v" by (simp add: upd_ofile_def upd_files_def upd_inode_def)
  ultimately show ?thesis using that by simp
qed

text \<open>
  C40: Duplicating a descriptor. With a free entry, \<open>file_dup\<close> of an open descriptor returns the least free one; it
  is open with the node, position and access rights of the original, the node has one more reference and one more
  open count. Closing the new descriptor succeeds without touching the disk and restores all inodes and all other
  descriptors, and the entry is free again. A fd_table without a free entry gives \<open>-E_MAX_OPEN\<close> and changes nothing.
\<close>

theorem file_dup_close_roundtrip:
  assumes ok: "files_ok v" and fs: "fstructs v (cur_files v) = Some fs" "files_count fs > 0"
    and f: "k1 < 72" "fd_array fs ! k1 = f" "f_status f = FD_OPENED" "f_node f = Some nd"
    and n: "inodes v nd = Some n" "ref_count n > 0"
  shows "(\<forall>k < 72. f_status (fd_array fs ! k) = FD_NONE \<and> (\<forall>j < k. f_status (fd_array fs ! j) \<noteq> FD_NONE) \<longrightarrow>
      (\<exists>v1 v2 g. file_dup (int k1) NO_FD v = Some (int k, v1) \<and> files_ok v1
        \<and> fd_table v1 = (fd_table v)((cur_files v, k) \<mapsto> g) \<and> f_status g = FD_OPENED \<and> f_node g = Some nd
        \<and> f_pos g = f_pos f \<and> f_readable g = f_readable f \<and> f_writable g = f_writable f
        \<and> inodes v1 = (inodes v)(nd \<mapsto> n\<lparr>ref_count := ref_count n + 1, open_count := open_count n + 1\<rparr>)
        \<and> file_close (int k) v1 = Some (0, v2) \<and> files_ok v2 \<and> inodes v2 = inodes v \<and> vsfs v2 = vsfs v
        \<and> (\<exists>h. f_status h = FD_NONE \<and> fd_table v2 = (fd_table v)((cur_files v, k) \<mapsto> h))))
    \<and> ((\<forall>k < 72. f_status (fd_array fs ! k) \<noteq> FD_NONE) \<longrightarrow> file_dup (int k1) NO_FD v = Some (- err_code E_MAX_OPEN, v))"
proof (intro conjI allI impI)
  have l: "length (fd_array fs) = 72" using ok fs by (simp add: files_ok_def shape_ok_def)
  let ?i = "cur_files v"
  have at: "ofile_at v ?i k = Some (fd_array fs ! k)" if "k < 72" for k using fs l that by (simp add: ofile_at_def)
  have s: "slot_ok k (fd_array fs ! k)" if "k < 72" for k using slot_okD [OF ok at [OF that]] .
  have g: "get_fd_array v = Some ?i" using fs by (simp add: get_fd_array_def cur_fs_def)
  have fd: "fd2file (int k1) v = Some (Inr (?i, k1, f))"
    using f s [of k1] at [of k1] g by (simp add: fd2file_def testfd_def slot_ok_def)
  {
    assume "\<forall>k < 72. f_status (fd_array fs ! k) \<noteq> FD_NONE"
    then have "find (\<lambda>j. f_status (fd_array fs ! j) = FD_NONE) [0..<72] = None" by (auto simp: find_None_iff)
    then have "fd_array_alloc NO_FD v = Some (Inl E_MAX_OPEN, v)" using fs g by (simp add: fd_array_alloc_def)
    then show "file_dup (int k1) NO_FD v = Some (- err_code E_MAX_OPEN, v)" using fd by (simp add: file_dup_def)
  next
    fix k assume k: "k < 72" and free: "f_status (fd_array fs ! k) = FD_NONE \<and> (\<forall>j < k. f_status (fd_array fs ! j) \<noteq> FD_NONE)"
    let ?t = "fd_array fs ! k"
    let ?v = "upd_ofile ?i k (\<lambda>f. f\<lparr>f_status := FD_INIT, f_node := None\<rparr>) v"
    have c: "f_open_count ?t = 0" "f_fd ?t = int k" using s [OF k] free by (auto simp: slot_ok_def)
    have a: "fd_array_alloc NO_FD v = Some (Inr k, ?v)" by (rule alloc_least [OF fs k _ c(1)]) (use free in auto)
    have ne: "k1 \<noteq> k" using f free by auto
    have o1: "ofile_at ?v ?i k = Some (?t\<lparr>f_status := FD_INIT, f_node := None\<rparr>)" "ofile_at ?v ?i k1 = Some f"
      using at [OF k] at [OF f(1)] f(2) ne by (simp_all add: ofile_at_upd)
    obtain v1 where d: "fd_array_dup ?i k ?i k1 ?v = Some v1" "fd_table v1 = (fd_table ?v)((?i, k) \<mapsto> dup_entry f (?t\<lparr>f_status := FD_INIT, f_node := None\<rparr>))"
      "vsfs v1 = vsfs ?v" "inodes v1 = (inodes ?v)(nd \<mapsto> n\<lparr>ref_count := ref_count n + 1, open_count := open_count n + 1\<rparr>)"
      "get_fd_array v1 = get_fd_array ?v" "cur_files v1 = cur_files ?v"
      by (rule dup_shared [OF o1(1) _ _ o1(2) f(3,4), of n]) (use c n in simp_all)
    let ?g = "dup_entry f (?t\<lparr>f_status := FD_INIT, f_node := None\<rparr>)"
    have t1: "fd_table v1 = (fd_table v)((?i, k) \<mapsto> ?g)" using d(2) table_upd [OF at [OF k]] by simp
    then have at1: "ofile_at v1 ?i k = Some ?g" by (metis fst_conv fun_upd_same snd_conv fd_table_def)
    have g1: "f_fd ?g = int k" "f_status ?g = FD_OPENED" "f_open_count ?g = 1" "f_node ?g = Some nd"
      using c f by (simp_all add: dup_entry_def)
    have dup: "file_dup (int k1) NO_FD v = Some (int k, v1)" using fd a d(1) at1 g1 by (simp add: file_dup_def)
    have ok1: "files_ok v1" using file_dup_keeps [OF dup ok] .
    have "(?i, k1) \<in> users (fd_table v) nd" using at [OF f(1)] f by (simp add: users_def fd_table_def refers_def)
    then have "card (users (fd_table v) nd) > 0"
      using ok finite_users by (auto simp: files_ok_def table_ok_def card_gt_0_iff)
    then have oc: "open_count n > 0" using ok n by (auto simp: files_ok_def table_ok_def opens_def split: option.splits)
    let ?n = "n\<lparr>ref_count := ref_count n + 1, open_count := open_count n + 1\<rparr>"
    have i1: "inodes v1 nd = Some ?n" using d(4) by simp
    obtain v2 where cl: "fd_array_close ?i k v1 = Some v2" and v2: "v2 = upd_ofile ?i k (\<lambda>f. f\<lparr>f_status := FD_NONE\<rparr>)
      (upd_inode nd (\<lambda>n. n\<lparr>ref_count := ref_count n - 1\<rparr>) (upd_inode nd (\<lambda>n. n\<lparr>open_count := open_count n - 1\<rparr>)
        (upd_ofile ?i k (\<lambda>f. f\<lparr>f_status := FD_CLOSED, f_open_count := f_open_count f - 1\<rparr>) v1)))"
      using close_shared [OF at1 g1(2-4) i1] oc n by simp
    have "fd2file (int k) v1 = Some (Inr (?i, k, ?g))"
      using at1 g1 k d(5) g by (simp add: fd2file_def testfd_def)
    then have close: "file_close (int k) v1 = Some (0, v2)" using cl by (simp add: file_close_def)
    have i2: "inodes v2 = inodes v" using d(4) n by (auto simp: v2 fun_eq_iff inodes_upd)
    obtain h0 where h0: "fd_table v2 = (fd_table v1)((?i, k) \<mapsto> h0\<lparr>f_open_count := 0, f_status := FD_NONE\<rparr>)"
      by (rule close_slot [OF ok1 cl]) blast
    define h where "h = h0\<lparr>f_open_count := 0, f_status := FD_NONE\<rparr>"
    then have h: "f_status h = FD_NONE" "fd_table v2 = (fd_table v1)((?i, k) \<mapsto> h)" using h0 by simp_all
    have "vsfs v2 = vsfs v" using d(3) by (simp add: v2 upd_ofile_def upd_files_def)
    then have "file_dup (int k1) NO_FD v = Some (int k, v1) \<and> files_ok v1
        \<and> fd_table v1 = (fd_table v)((cur_files v, k) \<mapsto> ?g) \<and> f_status ?g = FD_OPENED \<and> f_node ?g = Some nd
        \<and> f_pos ?g = f_pos f \<and> f_readable ?g = f_readable f \<and> f_writable ?g = f_writable f
        \<and> inodes v1 = (inodes v)(nd \<mapsto> n\<lparr>ref_count := ref_count n + 1, open_count := open_count n + 1\<rparr>)
        \<and> file_close (int k) v1 = Some (0, v2) \<and> files_ok v2 \<and> inodes v2 = inodes v \<and> vsfs v2 = vsfs v
        \<and> (\<exists>h. f_status h = FD_NONE \<and> fd_table v2 = (fd_table v)((cur_files v, k) \<mapsto> h))"
      using dup ok1 t1 g1 d(4) close file_close_keeps [OF close ok1] i2 h by (auto simp: dup_entry_def)
    then show "\<exists>v1 v2 g. file_dup (int k1) NO_FD v = Some (int k, v1) \<and> files_ok v1
        \<and> fd_table v1 = (fd_table v)((cur_files v, k) \<mapsto> g) \<and> f_status g = FD_OPENED \<and> f_node g = Some nd
        \<and> f_pos g = f_pos f \<and> f_readable g = f_readable f \<and> f_writable g = f_writable f
        \<and> inodes v1 = (inodes v)(nd \<mapsto> n\<lparr>ref_count := ref_count n + 1, open_count := open_count n + 1\<rparr>)
        \<and> file_close (int k) v1 = Some (0, v2) \<and> files_ok v2 \<and> inodes v2 = inodes v \<and> vsfs v2 = vsfs v
        \<and> (\<exists>h. f_status h = FD_NONE \<and> fd_table v2 = (fd_table v)((cur_files v, k) \<mapsto> h))" by blast
  }
qed

text \<open>A process whose descriptor 0 is open on the node 10, an empty file.\<close>

definition sample_slot :: "nat \<Rightarrow> ofile" where
  "sample_slot k = \<lparr>f_status = (if k = 0 then FD_OPENED else FD_NONE), f_readable = True, f_writable = False,
     f_fd = int k, f_pos = 5, f_node = (if k = 0 then Some 10 else None), f_open_count = (if k = 0 then 1 else 0)\<rparr>"

definition sample_fst :: files_struct where
  "sample_fst = \<lparr>pwd = None, fd_array = map sample_slot [0..<72], files_count = 1, files_sem = 1\<rparr>"

definition sample_node :: inode where
  "sample_node = (fresh_inode (disk_din (vsfs sample_v) 3) 3 Fileops)\<lparr>open_count := 1\<rparr>"

definition sample_open :: vstate where
  "sample_open = (upd_inode 10 (\<lambda>n. n\<lparr>open_count := 1\<rparr>) (sample_v\<lparr>heap_left := 7, node_pool := [11],
     inodes := (inodes sample_v)(10 \<mapsto> fresh_inode (disk_din (vsfs sample_v) 3) 3 Fileops),
     vsfs := sfs_set_links 3 10 (vsfs sample_v)\<rparr>))\<lparr>fstructs := [0 \<mapsto> sample_fst]\<rparr>"

lemma sample_open_sel:
  "fstructs sample_open = [0 \<mapsto> sample_fst]" "inodes sample_open = [10 \<mapsto> sample_node]" "cur_files sample_open = 0"
  by (simp_all add: sample_open_def) (simp_all add: fun_eq_iff inodes_upd sample_v_def sample_node_def)

lemma sample_open_at: "ofile_at sample_open i k = (if i = 0 \<and> k < 72 then Some (sample_slot k) else None)"
  by (simp add: ofile_at_def sample_open_sel sample_fst_def)

lemma sample_open_ok: "files_ok sample_open"
proof -
  have o1: "sfs_get_ops (din_type (disk_din (vsfs sample_v) 3)) = Some Fileops" by (simp add: sample_v_din sfs_get_ops_def)
  have "(3 :: u32) \<notin> ran (inos sample_v)" "node_pool sample_v = [10, 11]" by (simp_all add: sample_v_def inos_def ran_def)
  note k = load_fresh_keeps(1) [OF sample_v_well this(2,1) o1, of 7]
  have "well sample_open"
    unfolding sample_open_def
    by (simp add: upd_open_keeps(1) [OF k, of 10 "fresh_inode (disk_din (vsfs sample_v) 3) 3 Fileops"])
  moreover have "shape_ok sample_open" by (simp add: shape_ok_def sample_open_sel sample_fst_def)
  moreover have "table_ok (fd_table sample_open) (opens sample_open)"
  proof -
    have "dom (fd_table sample_open) \<subseteq> {0} \<times> {..<72}" by (auto simp: fd_table_def sample_open_at split: if_splits)
    then have "finite (dom (fd_table sample_open))" by (rule finite_subset) simp
    moreover have "users (fd_table sample_open) nd = (if nd = 10 then {(0, 0)} else {})" for nd
      by (auto simp: users_def fd_table_def sample_open_at refers_def sample_slot_def split: if_splits)
    moreover have "slot_ok (snd p) f" if "fd_table sample_open p = Some f" for p f
      using that by (auto simp: fd_table_def sample_open_at slot_ok_def sample_slot_def split: if_splits)
    ultimately show ?thesis by (simp add: table_ok_def opens_def sample_open_sel sample_node_def)
  qed
  ultimately show ?thesis by (simp add: files_ok_def)
qed

theorem file_dup_close_roundtrip_witness:
  "\<exists>v1 v2. file_dup 0 NO_FD sample_open = Some (1, v1) \<and> file_close 1 v1 = Some (0, v2)
    \<and> inodes v2 = inodes sample_open"
proof -
  have "fstructs sample_open (cur_files sample_open) = Some sample_fst" "files_count sample_fst > 0"
    "fd_array sample_fst ! 0 = sample_slot 0" "f_status (sample_slot 0) = FD_OPENED" "f_node (sample_slot 0) = Some 10"
    "inodes sample_open 10 = Some sample_node" "ref_count sample_node > 0"
    by (simp_all add: sample_open_sel) (simp_all add: sample_fst_def sample_slot_def sample_node_def fresh_inode_def nth_map)
  note r = file_dup_close_roundtrip [OF sample_open_ok this(1,2) _ this(3-7)]
  have "f_status (fd_array sample_fst ! 1) = FD_NONE" "f_status (fd_array sample_fst ! 0) \<noteq> FD_NONE"
    by (simp_all add: sample_fst_def sample_slot_def nth_map)
  then show ?thesis using conjunct1 [OF r, rule_format, of 1] by (auto simp: less_Suc_eq)
qed

text \<open>
  C2: The table of open files. If every entry of every process is free or open exactly once with a node, and the
  open count of every node is the number of entries that refer to it, then this still holds when an operation
  of \<open>file.c\<close> or \<open>fs.c\<close> has returned: opening, closing, reading, writing, seeking, querying, synchronising, listing
  and duplicating, with every error path, and closing, copying and destroying a whole table. So \<open>vop_close\<close> runs
  exactly when the last descriptor of a node is closed, and no assertion on the counts can fail later.
\<close>

theorem open_files_invariant:
  assumes ok: "files_ok v"
  shows "(\<forall>path flags r v'. file_open path flags v = Some (r, v') \<longrightarrow> files_ok v')
    \<and> (\<forall>fd r v'. file_close fd v = Some (r, v') \<longrightarrow> files_ok v')
    \<and> (\<forall>fd base len r c bs v'. file_read fd base len v = Some (r, c, bs, v') \<longrightarrow> files_ok v')
    \<and> (\<forall>fd base len r c bs v'. file_write fd base len v = Some (r, c, bs, v') \<longrightarrow> files_ok v')
    \<and> (\<forall>fd pos whence r v'. file_seek fd pos whence v = Some (r, v') \<longrightarrow> files_ok v')
    \<and> (\<forall>fd r v'. file_fstat fd v = Some (r, v') \<longrightarrow> files_ok v')
    \<and> (\<forall>fd r v'. file_fsync fd v = Some (r, v') \<longrightarrow> files_ok v')
    \<and> (\<forall>fd de r de' v'. file_getdirentry fd de v = Some (r, de', v') \<longrightarrow> files_ok v')
    \<and> (\<forall>fd1 fd2 r v'. file_dup fd1 fd2 v = Some (r, v') \<longrightarrow> files_ok v')
    \<and> (\<forall>i v'. files_closeall i v = Some v' \<longrightarrow> files_ok v')
    \<and> (\<forall>i v'. files_destroy i v = Some v' \<longrightarrow> files_ok v')
    \<and> (\<forall>it i v'. dup_files it i v = Some v' \<longrightarrow> (\<forall>j t. ofile_at v it j = Some t \<longrightarrow> f_status t = FD_NONE) \<longrightarrow> files_ok v')"
  unfolding file_read_def file_write_def
  by (intro conjI allI impI)
    (erule file_open_keeps [OF _ ok] file_close_keeps [OF _ ok] file_io_keeps [OF _ ok] file_seek_keeps [OF _ ok]
      file_fstat_keeps [OF _ ok] file_fsync_keeps [OF _ ok] file_getdirentry_keeps [OF _ ok] file_dup_keeps [OF _ ok]
      files_closeall_keeps [OF _ ok] files_destroy_keeps [OF _ ok] | erule dup_files_keeps [OF _ ok], blast)+

lemma sample_open_fstat: "\<exists>st v. file_fstat 0 sample_open = Some (Inr st, v) \<and> st_mode st = S_IFREG"
proof -
  let ?v = "upd_ofile 0 0 (\<lambda>f. f\<lparr>f_open_count := f_open_count f + 1\<rparr>) sample_open"
  have at: "ofile_at sample_open 0 0 = Some (sample_slot 0)" by (simp add: sample_open_at)
  have s: "f_status (sample_slot 0) = FD_OPENED" "f_fd (sample_slot 0) = 0" "f_open_count (sample_slot 0) = 1"
    "f_node (sample_slot 0) = Some 10" by (simp_all add: sample_slot_def)
  have "get_fd_array sample_open = Some 0" by (simp add: get_fd_array_def cur_fs_def sample_open_sel sample_fst_def)
  then have fd: "fd2file 0 sample_open = Some (Inr (0, 0, sample_slot 0))" by (simp add: fd2file_def testfd_def at s)
  have e: "vop_enter 10 T ?v = Some sample_node" if "Fileops \<in> T" for T
    using that by (simp add: vop_enter_def sample_open_sel) (simp add: sample_node_def fresh_inode_def inode_check_def assert_that_def)
  have n: "in_ops sample_node = Fileops" by (simp add: sample_node_def fresh_inode_def)
  obtain sn where i: "sfs_info sample_node = Some sn" "din_type (din sn) = 1"
    by (simp add: sample_node_def fresh_inode_def sfs_info_def sample_v_din)
  then obtain st where st: "sfs_fstat sn = Some st" "st_mode st = S_IFREG" by (simp add: sfs_fstat_def sfs_gettype_def)
  then have f: "vop_fstat 10 ?v = Some st" by (simp add: vop_fstat_def e n i)
  have "fd_array_acquire 0 0 sample_open = Some ?v" by (simp add: fd_array_acquire_def at s)
  moreover have "\<exists>w. fd_array_release 0 0 ?v = Some w" by (simp add: fd_array_release_def ofile_at_upd at s)
  ultimately show ?thesis using st(2) by (auto simp: file_fstat_def fd s f)
qed

theorem open_files_invariant_witness:
  "\<exists>st v. file_fstat 0 sample_open = Some (Inr st, v) \<and> st_mode st = S_IFREG \<and> files_ok v"
proof -
  obtain st v where f: "file_fstat 0 sample_open = Some (Inr st, v)" "st_mode st = S_IFREG" using sample_open_fstat by blast
  moreover have "\<forall>fd r v'. file_fstat fd sample_open = Some (r, v') \<longrightarrow> files_ok v'"
    using open_files_invariant [OF sample_open_ok] by (elim conjE)
  ultimately show ?thesis by blast
qed

end
