(* ===== verification/PageTable.thy ===== *)
theory PageTable
  imports FirstFit
begin

unbundle bit_operations_syntax

text \<open>
  The Sv39 page tables of \<open>kern/mm/pmm.c\<close> with the address macros of \<open>kern/mm/mmu.h\<close> and
  \<open>kern/mm/pmm.h\<close>. Physical memory is a map from frame numbers to frames of 512 words, an index
  \<open>(la >> n) & 0x1FF\<close> being a 9-bit word. A page-aligned kernel virtual address is identified with
  its frame number, a \<open>pte_t *\<close> with a frame and an index. The page allocator is the global
  \<open>pmm_manager\<close>, which \<open>init_pmm_manager\<close> sets to the first-fit manager. TLB flushes have no effect
  on the modelled state.
\<close>

type_synonym pt_index = "9 word"

record kmem =
  area :: free_area
  phys :: "nat \<Rightarrow> pt_index \<Rightarrow> u64"
  npage :: nat

definition nbase :: nat where "nbase = 0x80000"

definition PGSIZE :: u64 where "PGSIZE = 4096"
definition PTSIZE :: u64 where "PTSIZE = PGSIZE * 512"
definition PDSIZE :: u64 where "PDSIZE = PTSIZE * 512"

definition PTE_V :: u64 where "PTE_V = 0x001"
definition PTE_R :: u64 where "PTE_R = 0x002"
definition PTE_W :: u64 where "PTE_W = 0x004"
definition PTE_X :: u64 where "PTE_X = 0x008"
definition PTE_U :: u64 where "PTE_U = 0x010"
definition PTE_USER :: u64 where "PTE_USER = PTE_R OR PTE_W OR PTE_X OR PTE_U OR PTE_V"

definition PDX1 :: "u64 \<Rightarrow> pt_index" where "PDX1 la = ucast (drop_bit 30 la AND 0x1FF)"
definition PDX0 :: "u64 \<Rightarrow> pt_index" where "PDX0 la = ucast (drop_bit 21 la AND 0x1FF)"
definition PTX :: "u64 \<Rightarrow> pt_index" where "PTX la = ucast (drop_bit 12 la AND 0x1FF)"
definition PPN :: "u64 \<Rightarrow> nat" where "PPN la = unat (drop_bit 12 la)"
definition PTE_ADDR :: "u64 \<Rightarrow> u64" where "PTE_ADDR pte = push_bit (12 - 10) (pte AND NOT 0x3FF)"

definition ROUNDDOWN :: "u64 \<Rightarrow> u64 \<Rightarrow> u64" where "ROUNDDOWN a n = a - a mod n"
definition ROUNDUP :: "u64 \<Rightarrow> u64 \<Rightarrow> u64" where "ROUNDUP a n = ROUNDDOWN (a + n - 1) n"

definition USERBASE :: u64 where "USERBASE = 0x00200000"
definition USERTOP :: u64 where "USERTOP = 0x80000000"
definition USER_ACCESS :: "u64 \<Rightarrow> u64 \<Rightarrow> bool" where
  "USER_ACCESS start fin \<longleftrightarrow> USERBASE \<le> start \<and> start < fin \<and> fin \<le> USERTOP"

definition KERNBASE :: u64 where "KERNBASE = 0xFFFFFFFFC0200000"
definition KERNTOP :: u64 where "KERNTOP = KERNBASE + 0x7E00000"
definition KERN_ACCESS :: "u64 \<Rightarrow> u64 \<Rightarrow> bool" where
  "KERN_ACCESS start fin \<longleftrightarrow> KERNBASE \<le> start \<and> start < fin \<and> fin \<le> KERNTOP"

definition page2ppn :: "nat \<Rightarrow> nat" where "page2ppn p = p + nbase"
definition page2pa64 :: "nat \<Rightarrow> u64" where "page2pa64 p = push_bit 12 (word_of_nat (page2ppn p))"
definition pte_create :: "nat \<Rightarrow> u64 \<Rightarrow> u64" where
  "pte_create ppn t = push_bit 10 (word_of_nat ppn) OR PTE_V OR t"

text \<open>\<open>KADDR\<close> and \<open>pa2page\<close> panic beyond the last page; a frame below \<open>nbase\<close> has no \<open>struct Page\<close>.\<close>

definition KADDR :: "kmem \<Rightarrow> u64 \<Rightarrow> nat option" where
  "KADDR s pa = (if PPN pa \<ge> npage s then None else Some (PPN pa))"

definition pa2page :: "kmem \<Rightarrow> u64 \<Rightarrow> nat option" where
  "pa2page s pa = (if PPN pa \<ge> npage s \<or> PPN pa < nbase then None else Some (PPN pa - nbase))"

definition page2kva :: "kmem \<Rightarrow> nat \<Rightarrow> nat option" where
  "page2kva s p = KADDR s (page2pa64 p)"

definition pte_valid :: "u64 \<Rightarrow> bool" where
  "pte_valid e \<longleftrightarrow> e AND PTE_V \<noteq> 0"

definition pte2page :: "kmem \<Rightarrow> u64 \<Rightarrow> nat option" where
  "pte2page s pte = (if \<not> pte_valid pte then None else pa2page s (PTE_ADDR pte))"

definition pde2page :: "kmem \<Rightarrow> u64 \<Rightarrow> nat option" where
  "pde2page s pde = pa2page s (PTE_ADDR pde)"

definition page_ref :: "kmem \<Rightarrow> nat \<Rightarrow> int" where
  "page_ref s p = pg_ref (pages (area s) p)"

definition set_page_ref :: "nat \<Rightarrow> int \<Rightarrow> kmem \<Rightarrow> kmem" where
  "set_page_ref p v s = s\<lparr>area := upd_page p (\<lambda>g. g\<lparr>pg_ref := v\<rparr>) (area s)\<rparr>"

definition page_ref_inc :: "nat \<Rightarrow> kmem \<Rightarrow> kmem" where
  "page_ref_inc p s = set_page_ref p (page_ref s p + 1) s"

definition page_ref_dec :: "nat \<Rightarrow> kmem \<Rightarrow> kmem" where
  "page_ref_dec p s = set_page_ref p (page_ref s p - 1) s"

definition set_entry :: "nat \<times> pt_index \<Rightarrow> u64 \<Rightarrow> kmem \<Rightarrow> kmem" where
  "set_entry tk e s = s\<lparr>phys := (phys s)(fst tk := (phys s (fst tk))(snd tk := e))\<rparr>"

definition get_entry :: "kmem \<Rightarrow> nat \<times> pt_index \<Rightarrow> u64" where
  "get_entry s tk = phys s (fst tk) (snd tk)"

text \<open>\<open>memset(kva, 0, PGSIZE)\<close> and \<open>memcpy(dst, src, PGSIZE)\<close> of whole pages.\<close>

definition clear_frame :: "nat \<Rightarrow> kmem \<Rightarrow> kmem" where
  "clear_frame t s = s\<lparr>phys := (phys s)(t := (\<lambda>_. 0))\<rparr>"

definition copy_frame :: "nat \<Rightarrow> nat \<Rightarrow> kmem \<Rightarrow> kmem" where
  "copy_frame dst src s = s\<lparr>phys := (phys s)(dst := phys s src)\<rparr>"

definition init_pmm_manager :: "free_area pmm_manager" where
  "init_pmm_manager = default_pmm_manager"

definition alloc_page :: "kmem \<Rightarrow> (nat option \<times> kmem) option" where
  "alloc_page s = do { (r, a) \<leftarrow> alloc_pages init_pmm_manager (area s) 1; Some (r, s\<lparr>area := a\<rparr>) }"

definition free_page :: "nat \<Rightarrow> kmem \<Rightarrow> kmem option" where
  "free_page p s = do { a \<leftarrow> free_pages init_pmm_manager (area s) p 1; Some (s\<lparr>area := a\<rparr>) }"

subsection \<open>Walking and building the tables\<close>

text \<open>One level of \<open>get_pte\<close>: make sure that the directory entry \<open>k\<close> of the table \<open>t\<close> is valid.\<close>

definition get_table :: "kmem \<Rightarrow> nat \<Rightarrow> pt_index \<Rightarrow> bool \<Rightarrow> (bool \<times> kmem) option" where
  "get_table s t k create =
     (if pte_valid (phys s t k) then Some (True, s)
      else if \<not> create then Some (False, s)
      else do {
        (r, s) \<leftarrow> alloc_page s;
        case r of
          None \<Rightarrow> Some (False, s)
        | Some p \<Rightarrow> do {
            let s = set_page_ref p 1 s;
            f \<leftarrow> KADDR s (page2pa64 p);
            let s = clear_frame f s;
            Some (True, set_entry (t, k) (pte_create (page2ppn p) (PTE_U OR PTE_V)) s)
          }
      })"

definition get_pte :: "kmem \<Rightarrow> nat \<Rightarrow> u64 \<Rightarrow> bool \<Rightarrow> ((nat \<times> pt_index) option \<times> kmem) option" where
  "get_pte s pgdir la create =
     do {
       (ok, s) \<leftarrow> get_table s pgdir (PDX1 la) create;
       if \<not> ok then Some (None, s) else do {
         pd0 \<leftarrow> KADDR s (PTE_ADDR (phys s pgdir (PDX1 la)));
         (ok, s) \<leftarrow> get_table s pd0 (PDX0 la) create;
         if \<not> ok then Some (None, s) else do {
           pt \<leftarrow> KADDR s (PTE_ADDR (phys s pd0 (PDX0 la)));
           Some (Some (pt, PTX la), s)
         }
       }
     }"

definition get_page :: "kmem \<Rightarrow> nat \<Rightarrow> u64 \<Rightarrow> (nat option \<times> (nat \<times> pt_index) option \<times> kmem) option" where
  "get_page s pgdir la =
     do {
       (ptep, s) \<leftarrow> get_pte s pgdir la False;
       case ptep of
         None \<Rightarrow> Some (None, ptep, s)
       | Some tk \<Rightarrow>
           if pte_valid (get_entry s tk) then do { p \<leftarrow> pte2page s (get_entry s tk); Some (Some p, ptep, s) }
           else Some (None, ptep, s)
     }"

definition page_remove_pte :: "kmem \<Rightarrow> nat \<times> pt_index \<Rightarrow> kmem option" where
  "page_remove_pte s tk =
     (if pte_valid (get_entry s tk) then do {
        p \<leftarrow> pte2page s (get_entry s tk);
        let s = page_ref_dec p s;
        s \<leftarrow> (if page_ref s p = 0 then free_page p s else Some s);
        Some (set_entry tk 0 s)
      } else Some s)"

definition page_remove :: "kmem \<Rightarrow> nat \<Rightarrow> u64 \<Rightarrow> kmem option" where
  "page_remove s pgdir la =
     do {
       (ptep, s) \<leftarrow> get_pte s pgdir la False;
       case ptep of None \<Rightarrow> Some s | Some tk \<Rightarrow> page_remove_pte s tk
     }"

definition page_insert :: "kmem \<Rightarrow> nat \<Rightarrow> nat \<Rightarrow> u64 \<Rightarrow> u64 \<Rightarrow> (err option \<times> kmem) option" where
  "page_insert s pgdir page la perm =
     do {
       (ptep, s) \<leftarrow> get_pte s pgdir la True;
       case ptep of
         None \<Rightarrow> Some (Some E_NO_MEM, s)
       | Some tk \<Rightarrow> do {
           let s = page_ref_inc page s;
           s \<leftarrow> (if pte_valid (get_entry s tk) then do {
                   p \<leftarrow> pte2page s (get_entry s tk);
                   if p = page then Some (page_ref_dec page s) else page_remove_pte s tk
                 } else Some s);
           Some (None, set_entry tk (pte_create (page2ppn page) (PTE_V OR perm)) s)
         }
     }"

definition pgdir_alloc_page :: "kmem \<Rightarrow> nat \<Rightarrow> u64 \<Rightarrow> u64 \<Rightarrow> (nat option \<times> kmem) option" where
  "pgdir_alloc_page s pgdir la perm =
     do {
       (r, s) \<leftarrow> alloc_page s;
       case r of
         None \<Rightarrow> Some (None, s)
       | Some page \<Rightarrow> do {
           (ret, s) \<leftarrow> page_insert s pgdir page la perm;
           if ret \<noteq> None then do { s \<leftarrow> free_page page s; Some (None, s) }
           else do { assert_that (page_ref s page = 1); Some (Some page, s) }
         }
     }"

text \<open>\<open>boot_map_segment\<close>; the argument \<open>n\<close> of the loop counts the pages left.\<close>

fun boot_map_loop :: "nat \<Rightarrow> kmem \<Rightarrow> nat \<Rightarrow> u64 \<Rightarrow> u64 \<Rightarrow> u64 \<Rightarrow> kmem option" where
  "boot_map_loop 0 s pgdir la pa perm = Some s"
| "boot_map_loop (Suc n) s pgdir la pa perm =
     do {
       (ptep, s) \<leftarrow> get_pte s pgdir la True;
       tk \<leftarrow> ptep;
       boot_map_loop n (set_entry tk (pte_create (PPN pa) (PTE_V OR perm)) s) pgdir (la + PGSIZE) (pa + PGSIZE) perm
     }"

definition boot_map_segment :: "kmem \<Rightarrow> nat \<Rightarrow> u64 \<Rightarrow> u64 \<Rightarrow> u64 \<Rightarrow> u64 \<Rightarrow> kmem option" where
  "boot_map_segment s pgdir la sz pa perm =
     do {
       assert_that (la AND 0xFFF = pa AND 0xFFF);
       let n = unat (ROUNDUP (sz + (la AND 0xFFF)) PGSIZE div PGSIZE);
       boot_map_loop n s pgdir (ROUNDDOWN la PGSIZE) (ROUNDDOWN pa PGSIZE) perm
     }"

subsection \<open>Ranges of user addresses\<close>

definition unmap_step :: "kmem \<Rightarrow> nat \<Rightarrow> u64 \<Rightarrow> (u64 \<times> kmem) option" where
  "unmap_step s pgdir start =
     do {
       (ptep, s) \<leftarrow> get_pte s pgdir start False;
       case ptep of
         None \<Rightarrow> Some (ROUNDDOWN (start + PTSIZE) PTSIZE, s)
       | Some tk \<Rightarrow> do {
           s \<leftarrow> (if get_entry s tk \<noteq> 0 then page_remove_pte s tk else Some s);
           Some (start + PGSIZE, s)
         }
     }"

partial_function (option) unmap_loop :: "kmem \<Rightarrow> nat \<Rightarrow> u64 \<Rightarrow> u64 \<Rightarrow> kmem option" where
  "unmap_loop s pgdir start fin =
     do {
       r \<leftarrow> unmap_step s pgdir start;
       if fst r \<noteq> 0 \<and> fst r < fin then unmap_loop (snd r) pgdir (fst r) fin else Some (snd r)
     }"

definition unmap_range :: "kmem \<Rightarrow> nat \<Rightarrow> u64 \<Rightarrow> u64 \<Rightarrow> kmem option" where
  "unmap_range s pgdir start fin =
     do {
       assert_that (start mod PGSIZE = 0 \<and> fin mod PGSIZE = 0);
       assert_that (USER_ACCESS start fin);
       unmap_loop s pgdir start fin
     }"

text \<open>
  \<open>exit_range\<close>: freeing the empty page tables below one level-1 entry, then the level-0 directory. The
  flag \<open>free_pd0\<close> is lowered by an invalid entry only.
\<close>

definition pt_empty :: "kmem \<Rightarrow> nat \<Rightarrow> bool" where
  "pt_empty s pt = list_all (\<lambda>i. \<not> pte_valid (phys s pt (word_of_nat i))) [0..<512]"

definition exit_pde0 :: "kmem \<Rightarrow> nat \<Rightarrow> u64 \<Rightarrow> bool \<Rightarrow> (bool \<times> kmem) option" where
  "exit_pde0 s pd0 d0start free_pd0 =
     (let pde0 = phys s pd0 (PDX0 d0start) in
      if pte_valid pde0 then do {
        p \<leftarrow> pde2page s pde0;
        pt \<leftarrow> page2kva s p;
        if pt_empty s pt then do {
          s \<leftarrow> free_page p s;
          Some (free_pd0, set_entry (pd0, PDX0 d0start) 0 s)
        } else Some (free_pd0, s)
      } else Some (False, s))"

partial_function (option) exit_pd0_loop ::
  "kmem \<Rightarrow> nat \<Rightarrow> u64 \<Rightarrow> u64 \<Rightarrow> u64 \<Rightarrow> bool \<Rightarrow> (bool \<times> kmem) option" where
  "exit_pd0_loop s pd0 d1start d0start fin free_pd0 =
     do {
       r \<leftarrow> exit_pde0 s pd0 d0start free_pd0;
       if d0start + PTSIZE \<noteq> 0 \<and> d0start + PTSIZE < d1start + PDSIZE \<and> d0start + PTSIZE < fin
       then exit_pd0_loop (snd r) pd0 d1start (d0start + PTSIZE) fin (fst r)
       else Some r
     }"

definition exit_pde1 :: "kmem \<Rightarrow> nat \<Rightarrow> u64 \<Rightarrow> u64 \<Rightarrow> u64 \<Rightarrow> kmem option" where
  "exit_pde1 s pgdir d1start d0start fin =
     (let pde1 = phys s pgdir (PDX1 d1start) in
      if pte_valid pde1 then do {
        p \<leftarrow> pde2page s pde1;
        pd0 \<leftarrow> page2kva s p;
        (free_pd0, s) \<leftarrow> exit_pd0_loop s pd0 d1start d0start fin True;
        if free_pd0 then do { s \<leftarrow> free_page p s; Some (set_entry (pgdir, PDX1 d1start) 0 s) } else Some s
      } else Some s)"

partial_function (option) exit_loop :: "kmem \<Rightarrow> nat \<Rightarrow> u64 \<Rightarrow> u64 \<Rightarrow> u64 \<Rightarrow> kmem option" where
  "exit_loop s pgdir d1start d0start fin =
     do {
       s \<leftarrow> exit_pde1 s pgdir d1start d0start fin;
       if d1start + PDSIZE \<noteq> 0 \<and> d1start + PDSIZE < fin
       then exit_loop s pgdir (d1start + PDSIZE) (d1start + PDSIZE) fin
       else Some s
     }"

definition exit_range :: "kmem \<Rightarrow> nat \<Rightarrow> u64 \<Rightarrow> u64 \<Rightarrow> kmem option" where
  "exit_range s pgdir start fin =
     do {
       assert_that (start mod PGSIZE = 0 \<and> fin mod PGSIZE = 0);
       assert_that (USER_ACCESS start fin);
       exit_loop s pgdir (ROUNDDOWN start PDSIZE) (ROUNDDOWN start PTSIZE) fin
     }"

text \<open>\<open>copy_range\<close>: one page, and the loop; the result \<open>Some E_NO_MEM\<close> is the error return.\<close>

definition copy_step :: "kmem \<Rightarrow> nat \<Rightarrow> nat \<Rightarrow> u64 \<Rightarrow> (err option \<times> u64 \<times> kmem) option" where
  "copy_step s to from start =
     do {
       (ptep, s) \<leftarrow> get_pte s from start False;
       case ptep of
         None \<Rightarrow> Some (None, ROUNDDOWN (start + PTSIZE) PTSIZE, s)
       | Some tk \<Rightarrow>
           if \<not> pte_valid (get_entry s tk) then Some (None, start + PGSIZE, s)
           else do {
             (nptep, s) \<leftarrow> get_pte s to start True;
             if nptep = None then Some (Some E_NO_MEM, start, s) else do {
               let perm = get_entry s tk AND PTE_USER;
               page \<leftarrow> pte2page s (get_entry s tk);
               (r, s) \<leftarrow> alloc_page s;
               new \<leftarrow> r;
               src_kvaddr \<leftarrow> page2kva s page;
               dst_kvaddr \<leftarrow> page2kva s new;
               let s = copy_frame dst_kvaddr src_kvaddr s;
               (ret, s) \<leftarrow> page_insert s to new start perm;
               assert_that (ret = None);
               Some (None, start + PGSIZE, s)
             }
           }
     }"

partial_function (option) copy_loop :: "kmem \<Rightarrow> nat \<Rightarrow> nat \<Rightarrow> u64 \<Rightarrow> u64 \<Rightarrow> (err option \<times> kmem) option" where
  "copy_loop s to from start fin =
     do {
       r \<leftarrow> copy_step s to from start;
       if fst r \<noteq> None then Some (fst r, snd (snd r))
       else if fst (snd r) \<noteq> 0 \<and> fst (snd r) < fin then copy_loop (snd (snd r)) to from (fst (snd r)) fin
       else Some (None, snd (snd r))
     }"

definition copy_range :: "kmem \<Rightarrow> nat \<Rightarrow> nat \<Rightarrow> u64 \<Rightarrow> u64 \<Rightarrow> (err option \<times> kmem) option" where
  "copy_range s to from start fin =
     do {
       assert_that (start mod PGSIZE = 0 \<and> fin mod PGSIZE = 0);
       assert_that (USER_ACCESS start fin);
       copy_loop s to from start fin
     }"

subsection \<open>Printing\<close>

definition perm2str :: "u64 \<Rightarrow> string" where
  "perm2str perm = [if perm AND PTE_U \<noteq> 0 then CHR ''u'' else CHR ''-'', CHR ''r'',
     if perm AND PTE_W \<noteq> 0 then CHR ''w'' else CHR ''-'']"

text \<open>\<open>get_pgtable_items\<close> on a table of \<open>right\<close> entries: the next run of entries with the same permissions.\<close>

function skip_invalid :: "(nat \<Rightarrow> u64) \<Rightarrow> nat \<Rightarrow> nat \<Rightarrow> nat" where
  "skip_invalid table right start =
     (if start < right \<and> \<not> pte_valid (table start) then skip_invalid table right (start + 1) else start)"
  by pat_completeness auto
termination by (relation "measure (\<lambda>(table, right, start). right - start)") auto

function same_perm :: "(nat \<Rightarrow> u64) \<Rightarrow> nat \<Rightarrow> u64 \<Rightarrow> nat \<Rightarrow> nat" where
  "same_perm table right perm start =
     (if start < right \<and> table start AND PTE_USER = perm then same_perm table right perm (start + 1) else start)"
  by pat_completeness auto
termination by (relation "measure (\<lambda>(table, right, perm, start). right - start)") auto

declare skip_invalid.simps [simp del] same_perm.simps [simp del]

definition get_pgtable_items :: "nat \<Rightarrow> nat \<Rightarrow> (nat \<Rightarrow> u64) \<Rightarrow> (u64 \<times> nat \<times> nat) option" where
  "get_pgtable_items right start table =
     (if start \<ge> right then None
      else let start = skip_invalid table right start in
        if start < right then
          (let perm = table start AND PTE_USER in Some (perm, start, same_perm table right perm (start + 1)))
        else None)"

subsection \<open>Entries\<close>

definition entry_ppn :: "u64 \<Rightarrow> nat" where
  "entry_ppn e = PPN (PTE_ADDR e)"

lemma pte_valid_bit: "pte_valid e \<longleftrightarrow> bit e 0"
  by (simp add: pte_valid_def PTE_V_def and_one_eq mod_2_eq_odd bit_0)

lemma pte_valid_create [simp]: "pte_valid (pte_create n t)" "\<not> pte_valid 0"
  by (simp_all add: pte_valid_bit pte_create_def PTE_V_def bit_or_iff)

lemma entry_ppn_create:
  assumes "n < 2 ^ 52" "t < 1024"
  shows "entry_ppn (pte_create n t) = n"
proof -
  have m: "(0x3FF :: u64) = mask 10" by (simp add: mask_eq_exp_minus_1)
  have "t = take_bit 10 t"
    using assms(2) by (simp add: word_unat_eq_iff unsigned_take_bit_eq take_bit_nat_eq_self word_less_nat_alt)
  then have t: "\<not> bit t i" if "10 \<le> i" for i using that by (metis bit_take_bit_iff not_less)
  have "drop_bit 12 (push_bit 2 ((push_bit 10 (word_of_nat n) OR 1 OR t) AND NOT 0x3FF)) = (take_bit 52 (word_of_nat n) :: u64)"
    unfolding m
    by (rule bit_eqI) (auto simp: bit_simps t bit_1_iff)
  then have "entry_ppn (pte_create n t) = unat (take_bit 52 (word_of_nat n) :: u64)"
    by (simp add: entry_ppn_def PPN_def PTE_ADDR_def pte_create_def PTE_V_def)
  also have "\<dots> = n"
    using assms(1) by (simp add: unsigned_take_bit_eq unat_of_nat take_bit_nat_eq_self)
  finally show ?thesis .
qed

lemma PPN_page2pa64: "page2ppn p < 2 ^ 52 \<Longrightarrow> PPN (page2pa64 p) = page2ppn p"
proof -
  assume p: "page2ppn p < 2 ^ 52"
  have "drop_bit 12 (push_bit 12 (word_of_nat (page2ppn p))) = (take_bit 52 (word_of_nat (page2ppn p)) :: u64)"
    by (rule bit_eqI) (auto simp: bit_simps)
  then show ?thesis
    using p by (simp add: PPN_def page2pa64_def unsigned_take_bit_eq unat_of_nat take_bit_nat_eq_self)
qed

subsection \<open>What page allocation leaves alone\<close>

lemma insert_block_loop_pages: "insert_block_loop s b le = Some s' \<Longrightarrow> pages s' = pages s"
proof (rule insert_block_loop.raw_induct [where P = "\<lambda>s b le s'. pages s' = pages s"])
  fix f s b le s'
  assume "\<And>s b le s'. f s b le = Some s' \<Longrightarrow> pages s' = pages s"
    and "(let le = list_next (flinks s) le in case le of FreeHead \<Rightarrow> Some s
      | PageLink page \<Rightarrow> if b < page then Some (s\<lparr>flinks := list_add_before (flinks s) le (PageLink b)\<rparr>)
          else if list_next (flinks s) le = FreeHead then f (s\<lparr>flinks := list_add (flinks s) le (PageLink b)\<rparr>) b le
          else f s b le) = Some s'"
  then show "pages s' = pages s" by (fastforce simp: Let_def split: pnode.splits if_splits)
qed

lemma insert_block_pages: "insert_block s b = Some s' \<Longrightarrow> pages s' = pages s"
  by (auto simp: insert_block_def split: if_splits dest: insert_block_loop_pages)

lemma merge_refs: "pg_ref (pages (merge_blocks s lo hi) q) = pg_ref (pages s q)"
  by (simp add: merge_blocks_def Let_def ClearPageProperty_def)

lemma alloc_refs: "default_alloc_pages s n = Some (r, s') \<Longrightarrow> pg_ref (pages s' q) = pg_ref (pages s q)"
  by (auto simp: default_alloc_pages_def take_block_def Let_def SetPageProperty_def ClearPageProperty_def
      split: if_splits option.splits Option.bind_splits)

lemma free_refs:
  assumes "default_free_pages s b 1 = Some s'" "q \<noteq> b"
  shows "pg_ref (pages s' q) = pg_ref (pages s q)"
proof -
  have mp: "pg_ref (pages (fst (merge_prev s b)) q) = pg_ref (pages s q)" for s b
    by (simp add: merge_prev_def merge_refs split: pnode.splits)
  have mn: "pg_ref (pages (merge_next s b) q) = pg_ref (pages s q)" for s b
    by (simp add: merge_next_def merge_refs split: pnode.splits)
  show ?thesis
    using assms
    by (auto simp: default_free_pages_def mn bind_eq_Some_conv Let_def case_prod_beta mp
        dest!: insert_block_pages split: if_splits)
qed

lemma alloc_page_spec:
  assumes "ff_inv (area s)"
  shows "\<exists>r s'. alloc_page s = Some (r, s') \<and> ff_inv (area s') \<and> phys s' = phys s \<and> npage s' = npage s
    \<and> (\<forall>q. page_ref s' q = page_ref s q)
    \<and> (case r of None \<Rightarrow> s' = s \<and> free_set (area s) = {}
       | Some p \<Rightarrow> p \<in> free_set (area s) \<and> free_set (area s') = free_set (area s) - {p})"
proof -
  obtain r a where a: "alloc_pages default_pmm_manager (area s) 1 = Some (r, a)" "ff_inv a"
    "case r of None \<Rightarrow> a = area s
       | Some p \<Rightarrow> {p..<p + 1} \<subseteq> free_set (area s) \<and> free_set a = free_set (area s) - {p..<p + 1}"
    using ff.alloc_law [OF assms, of 1] by (auto simp: alloc_pages_def)
  have e: "free_set (area s) = {}" if "r = None"
  proof -
    have "\<not> (\<exists>p. {p..<p + 1} \<subseteq> free_set (area s))"
      using ff.alloc_fails_iff [OF assms, of 1] a that by simp
    then show ?thesis by auto
  qed
  have refs: "pg_ref (pages a q) = pg_ref (pages (area s) q)" for q
    using a(1) alloc_refs by (simp add: alloc_pages_def default_pmm_manager_def)
  show ?thesis
    using a e refs by (cases r) (auto simp: alloc_page_def init_pmm_manager_def page_ref_def)
qed

lemma free_page_spec:
  assumes "ff_inv (area s)" "p \<notin> free_set (area s)" "ff_accepts (area s) p 1"
  shows "\<exists>s'. free_page p s = Some s' \<and> ff_inv (area s') \<and> phys s' = phys s \<and> npage s' = npage s
    \<and> (\<forall>q. q \<noteq> p \<longrightarrow> page_ref s' q = page_ref s q) \<and> free_set (area s') = insert p (free_set (area s))"
proof -
  have "{p..<p + 1} \<inter> free_set (area s) = {}" using assms(2) by auto
  from ff.free_law [OF assms(1) this assms(3)]
  obtain a where a: "free_pages default_pmm_manager (area s) p 1 = Some a" "ff_inv a"
    "free_set a = free_set (area s) \<union> {p..<p + 1}"
    by (auto simp: free_pages_def)
  then have "pg_ref (pages a q) = pg_ref (pages (area s) q)" if "q \<noteq> p" for q
    using free_refs [of "area s" p a q] that by (simp add: free_pages_def default_pmm_manager_def)
  with a show ?thesis by (auto simp: free_page_def init_pmm_manager_def page_ref_def)
qed

lemma ff_ref [simp]:
  "ff_inv (upd_page p (\<lambda>g. g\<lparr>pg_ref := v\<rparr>) a) = ff_inv a"
  "free_set (upd_page p (\<lambda>g. g\<lparr>pg_ref := v\<rparr>) a) = free_set a"
  "ff_accepts (upd_page p (\<lambda>g. g\<lparr>pg_ref := v\<rparr>) a) = ff_accepts a"
proof -
  let ?a = "upd_page p (\<lambda>g. g\<lparr>pg_ref := v\<rparr>) a"
  have g: "pg_property (pages ?a q) = pg_property (pages a q)" "PageProperty (pages ?a q) = PageProperty (pages a q)"
    "PageReserved (pages ?a q) = PageReserved (pages a q)" for q
    by (simp_all add: PageProperty_def PageReserved_def)
  show f: "free_set ?a = free_set a" unfolding free_set_def g ..
  show "ff_inv ?a = ff_inv a" by (simp add: ff_inv_def blocks_def g del: upd_page_simps(1))
  show "ff_accepts ?a = ff_accepts a"
    by (simp add: fun_eq_iff ff_accepts_def ff_may_free_def f g del: upd_page_simps(1))
qed

lemma set_page_ref_simps [simp]:
  "ff_inv (area (set_page_ref p v s)) = ff_inv (area s)" "free_set (area (set_page_ref p v s)) = free_set (area s)"
  "ff_accepts (area (set_page_ref p v s)) = ff_accepts (area s)"
  "phys (set_page_ref p v s) = phys s" "npage (set_page_ref p v s) = npage s"
  "page_ref (set_page_ref p v s) q = (if q = p then v else page_ref s q)"
  by (simp_all add: set_page_ref_def page_ref_def)

lemma kmem_update_simps [simp]:
  "area (set_entry tk e s) = area s" "npage (set_entry tk e s) = npage s" "page_ref (set_entry tk e s) p = page_ref s p"
  "area (clear_frame f s) = area s" "npage (clear_frame f s) = npage s" "page_ref (clear_frame f s) p = page_ref s p"
  "phys (clear_frame f s) = (phys s)(f := (\<lambda>_. 0))"
  "phys (set_entry (t, k) e s) u i = (if u = t \<and> i = k then e else phys s u i)"
  by (simp_all add: set_entry_def clear_frame_def page_ref_def)

subsection \<open>The tree of tables\<close>

text \<open>
  \<open>walk s t is\<close> is the frame that the indices \<open>is\<close> lead to from the table \<open>t\<close>. The program owns the addresses below
  \<open>USERTOP\<close>, which are those whose first index is 0 or 1. The other entries of a directory are the kernel's: \<open>setup_pgdir\<close>
  copies them from \<open>boot_page_table_sv39\<close>, whose entry 511 maps all memory as one huge page, and no operation on an
  address of the program may read or change them. \<open>tbl s r is\<close> is the frame that \<open>is\<close> lead to from the directory \<open>r\<close>
  through its user part: with one index a level-0 directory, with two a page table, with three a mapped page.
\<close>

fun walk :: "kmem \<Rightarrow> nat \<Rightarrow> pt_index list \<Rightarrow> nat option" where
  "walk s t [] = Some t"
| "walk s t (i # is) = (if pte_valid (phys s t i) then walk s (entry_ppn (phys s t i)) is else None)"

fun upath :: "pt_index list \<Rightarrow> bool" where
  "upath [] = True"
| "upath (i # is) = (i < 2)"

definition tbl :: "kmem \<Rightarrow> nat \<Rightarrow> pt_index list \<Rightarrow> nat option" where
  "tbl s r is = (if upath is then walk s r is else None)"

definition frame_ok :: "kmem \<Rightarrow> nat \<Rightarrow> bool" where
  "frame_ok s t \<longleftrightarrow> nbase \<le> t \<and> t < npage s \<and> t - nbase \<notin> free_set (area s)"

definition pt_tree :: "kmem \<Rightarrow> nat \<Rightarrow> bool" where
  "pt_tree s r \<longleftrightarrow>
     (\<forall>xs t. length xs \<le> 3 \<longrightarrow> tbl s r xs = Some t \<longrightarrow> frame_ok s t)
     \<and> (\<forall>xs ys t. length xs \<le> 3 \<longrightarrow> length ys \<le> 2 \<longrightarrow> tbl s r xs = Some t \<longrightarrow> tbl s r ys = Some t \<longrightarrow> xs = ys)"

definition km_ok :: "kmem \<Rightarrow> bool" where
  "km_ok s \<longleftrightarrow> ff_inv (area s) \<and> npage s \<le> 2 ^ 52 \<and> (\<forall>q \<in> free_set (area s). q + nbase < npage s)"

text \<open>A page has at least as many references as the directory maps it.\<close>

definition mapped_at :: "kmem \<Rightarrow> nat \<Rightarrow> nat \<Rightarrow> pt_index list set" where
  "mapped_at s r f = {xs. length xs = 3 \<and> tbl s r xs = Some f}"

definition pt_refs :: "kmem \<Rightarrow> nat \<Rightarrow> bool" where
  "pt_refs s r \<longleftrightarrow>
     (\<forall>f. mapped_at s r f \<noteq> {} \<longrightarrow> int (card (mapped_at s r f)) \<le> page_ref s (f - nbase))"

definition pt_inv :: "kmem \<Rightarrow> nat \<Rightarrow> bool" where
  "pt_inv s r \<longleftrightarrow> km_ok s \<and> pt_tree s r \<and> pt_refs s r"

lemma finite_mapped_at [simp]: "finite (mapped_at s r f)"
  by (rule finite_subset [OF _ finite_lists_length_eq [of "UNIV :: pt_index set" 3]]) (auto simp: mapped_at_def)

text \<open>The page table entry for an address, zero where there is no page table.\<close>

definition leaf :: "kmem \<Rightarrow> nat \<Rightarrow> u64 \<Rightarrow> u64" where
  "leaf s r la = (case tbl s r [PDX1 la, PDX0 la] of None \<Rightarrow> 0 | Some t \<Rightarrow> phys s t (PTX la))"

definition same_page :: "u64 \<Rightarrow> u64 \<Rightarrow> bool" where
  "same_page la la' \<longleftrightarrow> PDX1 la = PDX1 la' \<and> PDX0 la = PDX0 la' \<and> PTX la = PTX la'"

lemma walk_append: "walk s r (xs @ ys) = (case walk s r xs of None \<Rightarrow> None | Some t \<Rightarrow> walk s t ys)"
  by (induction xs arbitrary: r) auto

lemma upath_append [simp]: "upath (xs @ ys) \<longleftrightarrow> (if xs = [] then upath ys else upath xs)"
  by (cases xs) auto

lemma tbl_Nil [simp]: "tbl s r [] = Some r"
  by (simp add: tbl_def)

lemma tbl_append: "upath (xs @ ys) \<Longrightarrow> tbl s r (xs @ ys) = (case tbl s r xs of None \<Rightarrow> None | Some t \<Rightarrow> walk s t ys)"
  by (cases "xs = []") (simp_all add: tbl_def walk_append)

lemma tbl_snoc: "tbl s r (xs @ [i]) = (case tbl s r xs of None \<Rightarrow> None
    | Some t \<Rightarrow> if pte_valid (phys s t i) \<and> upath (xs @ [i]) then Some (entry_ppn (phys s t i)) else None)"
  by (cases "xs = []") (simp_all add: tbl_def walk_append split: option.split)

lemma tbl_kernel: "\<not> upath xs \<Longrightarrow> tbl s r xs = None"
  by (simp add: tbl_def)

lemma tbl_upath: "tbl s r xs = Some t \<Longrightarrow> upath xs"
  by (simp add: tbl_def split: if_splits)

lemma pt_treeD:
  "pt_tree s r \<Longrightarrow> length xs \<le> 3 \<Longrightarrow> tbl s r xs = Some t \<Longrightarrow> frame_ok s t"
  "pt_tree s r \<Longrightarrow> length xs \<le> 3 \<Longrightarrow> length ys \<le> 2 \<Longrightarrow> tbl s r xs = Some t \<Longrightarrow> tbl s r ys = Some t \<Longrightarrow> xs = ys"
  by (auto simp: pt_tree_def)

text \<open>Changing the entry \<open>k\<close> of the table at \<open>xs\<close> only affects the paths through it.\<close>

lemma tbl_update:
  assumes "pt_tree s r" "length xs \<le> 2" "tbl s r xs = Some t"
    and same: "\<And>u i. (\<exists>ys. length ys \<le> 2 \<and> tbl s r ys = Some u) \<Longrightarrow> (u, i) \<noteq> (t, k) \<Longrightarrow> phys s' u i = phys s u i"
  shows "length ys \<le> 3 \<Longrightarrow> (\<forall>zs. ys \<noteq> xs @ k # zs) \<Longrightarrow> tbl s' r ys = tbl s r ys"
proof (induction ys rule: rev_induct)
  case (snoc i ys)
  have IH: "tbl s' r ys = tbl s r ys" using snoc by (metis append_Cons append_assoc length_append_singleton Suc_leD)
  show ?case
  proof (cases "tbl s r ys")
    case (Some u)
    have "(u, i) \<noteq> (t, k)"
    proof
      assume "(u, i) = (t, k)"
      then have "ys = xs" using pt_treeD(2) [OF assms(1), of ys xs t] Some snoc.prems assms by auto
      then show False using snoc.prems(2) \<open>(u, i) = (t, k)\<close> by simp
    qed
    moreover have "length ys \<le> 2" using snoc.prems by simp
    ultimately have "phys s' u i = phys s u i" using same [of u i] Some by blast
    then show ?thesis using IH Some by (simp add: tbl_snoc)
  qed (use IH in \<open>simp add: tbl_snoc\<close>)
qed simp

lemma tbl_self:
  assumes "pt_tree s r" "length xs \<le> 2" "tbl s r xs = Some t"
    and "\<And>u i. (\<exists>ys. length ys \<le> 2 \<and> tbl s r ys = Some u) \<Longrightarrow> (u, i) \<noteq> (t, k) \<Longrightarrow> phys s' u i = phys s u i"
  shows "tbl s' r xs = Some t"
  using tbl_update [OF assms, where ys = xs] assms(2,3) by simp

text \<open>A new, empty table below the table at \<open>xs\<close>.\<close>

lemma tbl_new:
  assumes "pt_tree s r" "length xs \<le> 1" "tbl s r xs = Some t" "\<not> pte_valid (phys s t k)"
    and f: "\<And>ys. length ys \<le> 2 \<Longrightarrow> tbl s r ys \<noteq> Some f"
    and s': "phys s' = (phys s)(f := (\<lambda>_. 0), t := (phys s t)(k := e))" "pte_valid e" "entry_ppn e = f"
    and "length ys \<le> 3" and up: "upath (xs @ [k])"
  shows "tbl s' r ys = (if ys = xs @ [k] then Some f else tbl s r ys)"
proof -
  have same: "phys s' u i = phys s u i"
    if "\<exists>ys. length ys \<le> 2 \<and> tbl s r ys = Some u" "(u, i) \<noteq> (t, k)" for u i
    using that f s'(1) by auto
  have xs: "length xs \<le> 2" using assms(2) by simp
  show ?thesis
  proof (cases "\<exists>zs. ys = xs @ k # zs")
    case True
    then obtain zs where ys: "ys = xs @ k # zs" by blast
    have "f \<noteq> t" using f [of xs] assms(3) xs by auto
    then have z: "walk s' f zs = (if zs = [] then Some f else None)" by (cases zs) (simp_all add: s'(1))
    have "upath (xs @ k # zs)" using up by (simp split: if_splits)
    then have "tbl s' r ys = walk s' f zs"
      using tbl_self [OF assms(1) xs assms(3) same] s' by (simp only: ys tbl_append) simp
    moreover have "tbl s r ys = None"
      using assms(3,4) \<open>upath (xs @ k # zs)\<close> by (simp only: ys tbl_append) simp
    ultimately show ?thesis using z by (simp add: ys)
  next
    case False
    then show ?thesis
      using tbl_update [OF assms(1) xs assms(3) same] assms(9) by auto
  qed
qed

text \<open>A changed entry of the page table at \<open>xs\<close>.\<close>

lemma tbl_leaf:
  assumes "pt_tree s r" "length xs = 2" "tbl s r xs = Some t" "length ys \<le> 3"
    and s': "phys s' = (phys s)(t := (phys s t)(k := e))"
  shows "tbl s' r ys = (if ys = xs @ [k] then if pte_valid e then Some (entry_ppn e) else None else tbl s r ys)"
proof -
  have xs: "length xs \<le> 2" using assms(2) by simp
  have same: "phys s' u i = phys s u i" if "(u, i) \<noteq> (t, k)" for u i using that s' by auto
  show ?thesis
  proof (cases "\<exists>zs. ys = xs @ k # zs")
    case True
    then have "ys = xs @ [k]" using assms(2,4) by auto
    moreover have "upath (xs @ [k])" using tbl_upath [OF assms(3)] assms(2) by auto
    ultimately show ?thesis
      using tbl_self [OF assms(1) xs assms(3) same] s' by (simp add: tbl_snoc del: upath_append)
  next
    case False
    then show ?thesis using tbl_update [OF assms(1) xs assms(3) same] assms(4) by auto
  qed
qed

text \<open>The entries of a directory that belong to the kernel.\<close>

definition kernel_part :: "kmem \<Rightarrow> nat \<Rightarrow> pt_index \<Rightarrow> u64" where
  "kernel_part s r = (\<lambda>i. if i < 2 then 0 else phys s r i)"

lemma kernel_part_other: "phys s' r = phys s r \<Longrightarrow> kernel_part s' r = kernel_part s r"
  by (simp add: kernel_part_def fun_eq_iff)

lemma user_index: "la < USERTOP \<Longrightarrow> PDX1 la < 2"
proof -
  assume la: "la < USERTOP"
  have m: "(0x1FF :: u64) = mask 9" by (simp add: mask_eq_exp_minus_1)
  have "unat (drop_bit 30 la) < 2" using la by (simp add: word_less_nat_alt unat_drop_bit_eq drop_bit_eq_div unat_div USERTOP_def)
  then have "take_bit 9 (unat (drop_bit 30 la)) < 2" using take_bit_nat_less_eq_self [of 9 "unat (drop_bit 30 la)"] by linarith
  then show ?thesis
    by (simp add: PDX1_def word_less_nat_alt m unsigned_ucast_eq take_bit_eq_mask [symmetric] unsigned_take_bit_eq)
qed

text \<open>How the state may change when tables are added: what was mapped stays mapped.\<close>

definition pt_ext :: "nat \<Rightarrow> kmem \<Rightarrow> kmem \<Rightarrow> bool" where
  "pt_ext r s s' \<longleftrightarrow> npage s' = npage s \<and> free_set (area s') \<subseteq> free_set (area s)
     \<and> (\<forall>p. p \<notin> free_set (area s) \<longrightarrow> page_ref s' p = page_ref s p)
     \<and> (\<forall>ys t. length ys \<le> 3 \<longrightarrow> tbl s r ys = Some t \<longrightarrow> tbl s' r ys = Some t)
     \<and> (\<forall>ys f. frame_ok s f \<longrightarrow> length ys \<le> 2 \<longrightarrow> tbl s' r ys = Some f \<longrightarrow> tbl s r ys = Some f)
     \<and> (\<forall>la. leaf s' r la = leaf s r la) \<and> kernel_part s' r = kernel_part s r
     \<and> (\<forall>f. frame_ok s f \<longrightarrow> (\<forall>ys. length ys \<le> 2 \<longrightarrow> tbl s r ys \<noteq> Some f) \<longrightarrow> phys s' f = phys s f)"

lemma pt_extI:
  assumes "npage s' = npage s" "free_set (area s') \<subseteq> free_set (area s)"
    and "\<And>p. p \<notin> free_set (area s) \<Longrightarrow> page_ref s' p = page_ref s p"
    and "\<And>ys t. length ys \<le> 3 \<Longrightarrow> tbl s r ys = Some t \<Longrightarrow> tbl s' r ys = Some t"
    and "\<And>ys f. frame_ok s f \<Longrightarrow> length ys \<le> 2 \<Longrightarrow> tbl s' r ys = Some f \<Longrightarrow> tbl s r ys = Some f"
    and "\<And>la. leaf s' r la = leaf s r la" and "kernel_part s' r = kernel_part s r"
    and "\<And>f. frame_ok s f \<Longrightarrow> \<forall>ys. length ys \<le> 2 \<longrightarrow> tbl s r ys \<noteq> Some f \<Longrightarrow> phys s' f = phys s f"
  shows "pt_ext r s s'"
  using assms unfolding pt_ext_def by iprover

lemma pt_ext_refl [simp]: "pt_ext r s s"
  by (simp add: pt_ext_def)

lemma free_frame: "pt_inv s r \<Longrightarrow> p \<in> free_set (area s) \<Longrightarrow> length ys \<le> 3 \<Longrightarrow> tbl s r ys \<noteq> Some (page2ppn p)"
  using pt_treeD(1) [of s r ys "page2ppn p"] by (auto simp: pt_inv_def frame_ok_def page2ppn_def)

lemma KADDR_page2pa64: "p + nbase < npage s \<Longrightarrow> npage s \<le> 2 ^ 52 \<Longrightarrow> KADDR s (page2pa64 p) = Some (page2ppn p)"
  using PPN_page2pa64 [of p] by (simp add: KADDR_def page2ppn_def)

lemma user_flags_less: "PTE_U OR PTE_V < 1024"
  by (simp add: PTE_U_def PTE_V_def)

lemma new_table:
  assumes inv: "pt_inv s r" "length xs \<le> 1" "tbl s r xs = Some t" "\<not> pte_valid (phys s t k)"
    and up: "upath (xs @ [k])" and p: "p \<in> free_set (area s)"
    and s': "phys s' = (phys s)(page2ppn p := (\<lambda>_. 0), t := (phys s t)(k := pte_create (page2ppn p) (PTE_U OR PTE_V)))"
      "npage s' = npage s" "ff_inv (area s')" "free_set (area s') = free_set (area s) - {p}"
      "\<And>q. q \<noteq> p \<Longrightarrow> page_ref s' q = page_ref s q"
  shows "pt_inv s' r \<and> pt_ext r s s' \<and> tbl s' r (xs @ [k]) = Some (page2ppn p)"
proof -
  let ?f = "page2ppn p"
  have tree: "pt_tree s r" using inv(1) by (simp add: pt_inv_def)
  have f: "?f < npage s" "npage s \<le> 2 ^ 52" using inv(1) p by (auto simp: pt_inv_def km_ok_def page2ppn_def)
  then have e: "entry_ppn (pte_create ?f (PTE_U OR PTE_V)) = ?f"
    by (intro entry_ppn_create user_flags_less) simp
  have nf: "tbl s r ys \<noteq> Some ?f" if "length ys \<le> 3" for ys using free_frame [OF inv(1) p that] .
  have new: "tbl s' r ys = (if ys = xs @ [k] then Some ?f else tbl s r ys)" if "length ys \<le> 3" for ys
    by (rule tbl_new [OF tree inv(2-4) _ s'(1) _ e that up]) (use nf in auto)
  have none: "tbl s r (xs @ [k]) = None" using inv(3,4) by (simp add: tbl_snoc)
  have ok: "frame_ok s' u" if "frame_ok s u" for u using that s' by (auto simp: frame_ok_def)
  have okf: "frame_ok s' ?f" using f s' by (simp add: frame_ok_def page2ppn_def)
  have "frame_ok s' u" if "length ys \<le> 3" "tbl s' r ys = Some u" for ys u
    using that new [OF that(1)] ok okf pt_treeD(1) [OF tree that(1)] by (auto split: if_splits)
  moreover have "xs' = ys" if "length xs' \<le> 3" "length ys \<le> 2" "tbl s' r xs' = Some u" "tbl s' r ys = Some u" for xs' ys u
    using that new [of xs'] new [of ys] nf [of xs'] nf [of ys] pt_treeD(2) [OF tree that(1,2)]
    by (auto split: if_splits)
  ultimately have "pt_tree s' r" by (simp add: pt_tree_def)
  moreover have refs: "page_ref s' q = page_ref s q" if "q \<notin> free_set (area s)" for q
    using s'(5) [of q] that p by auto
  have "pt_refs s' r"
  proof -
    have m: "mapped_at s' r u = mapped_at s r u" for u
    proof -
      have "tbl s' r ys = tbl s r ys" if "length ys = 3" for ys using new [of ys] inv(2) that by auto
      then show ?thesis by (auto simp: mapped_at_def)
    qed
    have "u - nbase \<notin> free_set (area s)" if ne: "mapped_at s r u \<noteq> {}" for u
    proof -
      obtain ys where "length ys = 3" "tbl s r ys = Some u" using ne by (auto simp: mapped_at_def)
      then show ?thesis using pt_treeD(1) [OF tree, of ys u] by (simp add: frame_ok_def)
    qed
    then show ?thesis using inv(1) refs by (simp add: pt_refs_def pt_inv_def m)
  qed
  ultimately have inv': "pt_inv s' r" using inv(1) s' by (auto simp: pt_inv_def km_ok_def)
  have leaf: "leaf s' r la = leaf s r la" for la
  proof -
    define pth where "pth = [PDX1 la, PDX0 la]"
    have l: "length pth = 2" by (simp add: pth_def)
    have lf: "leaf s r la = (case tbl s r pth of None \<Rightarrow> 0 | Some t \<Rightarrow> phys s t (PTX la))" for s
      by (simp only: leaf_def pth_def)
    show ?thesis
    proof (cases "tbl s r pth")
      case None
      then show ?thesis
        using new [of pth] s'(1) nf [of xs] inv(2,3) l by (auto simp: lf)
    next
      case (Some u)
      then have "pth \<noteq> xs @ [k]" using none by auto
      moreover have "u \<noteq> t" using pt_treeD(2) [OF tree, of pth xs u] Some inv(2,3) l by auto
      moreover have "u \<noteq> ?f" using nf [of pth] Some l by auto
      ultimately show ?thesis using new [of pth] Some s'(1) l by (simp add: lf)
    qed
  qed
  have ph: "phys s' u = phys s u" if "frame_ok s u" "\<forall>ys. length ys \<le> 2 \<longrightarrow> tbl s r ys \<noteq> Some u" for u
  proof -
    have "u \<noteq> ?f" using that(1) p by (auto simp: frame_ok_def page2ppn_def)
    moreover have "u \<noteq> t" using that(2) inv(2,3) by auto
    ultimately show ?thesis by (simp add: s'(1))
  qed
  have bwd: "tbl s r ys = Some u" if "frame_ok s u" "length ys \<le> 2" "tbl s' r ys = Some u" for ys u
    using that new [of ys] p by (auto simp: frame_ok_def page2ppn_def split: if_splits)
  have fwd: "tbl s' r ys = Some u" if "length ys \<le> 3" "tbl s r ys = Some u" for ys u
    using that new [of ys] none by auto
  have "free_set (area s') \<subseteq> free_set (area s)" using s'(4) by blast
  have "kernel_part s' r i = kernel_part s r i" for i
  proof (cases "t = r \<and> i = k")
    case True
    then have "xs = []" using pt_treeD(2) [OF tree, of xs "[]" r] inv(2,3) by simp
    then show ?thesis using True up by (simp add: kernel_part_def)
  next
    case False
    then show ?thesis using nf [of "[]"] by (auto simp: kernel_part_def s'(1))
  qed
  then have "kernel_part s' r = kernel_part s r" by blast
  from pt_extI [OF s'(2) \<open>free_set (area s') \<subseteq> free_set (area s)\<close> refs fwd bwd leaf this ph] have "pt_ext r s s'" .
  then show ?thesis using inv' new [of "xs @ [k]"] inv(2) by simp
qed

lemma get_table_spec:
  assumes "pt_inv s r" "length xs \<le> 1" "tbl s r xs = Some t" and up: "upath (xs @ [k])"
  shows "\<exists>ok s'. get_table s t k create = Some (ok, s') \<and> pt_inv s' r \<and> pt_ext r s s'
    \<and> (ok \<longleftrightarrow> tbl s' r (xs @ [k]) \<noteq> None)
    \<and> (\<not> create \<or> tbl s r (xs @ [k]) \<noteq> None \<longrightarrow> s' = s)
    \<and> (create \<and> \<not> ok \<longrightarrow> free_set (area s') = {})"
proof (cases "pte_valid (phys s t k) \<or> \<not> create")
  case True
  then show ?thesis using assms by (auto simp: get_table_def tbl_snoc simp del: upath_append)
next
  case False
  then have nv: "\<not> pte_valid (phys s t k)" "create" by simp_all
  have km: "ff_inv (area s)" "npage s \<le> 2 ^ 52" using assms(1) by (auto simp: pt_inv_def km_ok_def)
  have none: "tbl s r (xs @ [k]) = None" using assms(3) nv by (simp add: tbl_snoc)
  obtain o' s1 where a: "alloc_page s = Some (o', s1)" "ff_inv (area s1)" "phys s1 = phys s" "npage s1 = npage s"
    "\<forall>q. page_ref s1 q = page_ref s q"
    "case o' of None \<Rightarrow> s1 = s \<and> free_set (area s) = {}
       | Some p \<Rightarrow> p \<in> free_set (area s) \<and> free_set (area s1) = free_set (area s) - {p}"
    using alloc_page_spec [OF km(1)] by blast
  show ?thesis
  proof (cases o')
    case None
    then have "get_table s t k create = Some (False, s)" using a nv by (simp add: get_table_def)
    then show ?thesis using None a assms none by auto
  next
    case (Some p)
    then have p: "p \<in> free_set (area s)" "free_set (area s1) = free_set (area s) - {p}" using a by simp_all
    let ?f = "page2ppn p"
    let ?s' = "set_entry (t, k) (pte_create ?f (PTE_U OR PTE_V)) (clear_frame ?f (set_page_ref p 1 s1))"
    have "p + nbase < npage s" using assms(1) p by (auto simp: pt_inv_def km_ok_def)
    then have "KADDR (set_page_ref p 1 s1) (page2pa64 p) = Some ?f" using a(4) km(2) by (intro KADDR_page2pa64) simp_all
    then have g: "get_table s t k create = Some (True, ?s')"
      using nv a(1) Some by (simp add: get_table_def)
    have "t \<noteq> ?f" using free_frame [OF assms(1) p(1), of xs] assms(2,3) by auto
    then have "phys ?s' = (phys s)(?f := (\<lambda>_. 0), t := (phys s t)(k := pte_create ?f (PTE_U OR PTE_V)))"
      using a(3) by (auto simp: fun_eq_iff)
    from new_table [OF assms(1-3) nv(1) up p(1) this] a p
    have n: "pt_inv ?s' r \<and> pt_ext r s ?s' \<and> tbl ?s' r (xs @ [k]) = Some ?f" by simp
    show ?thesis unfolding g using n none nv by blast
  qed
qed

lemma pt_extD:
  assumes "pt_ext r s s'"
  shows "npage s' = npage s" "free_set (area s') \<subseteq> free_set (area s)"
    and "p \<notin> free_set (area s) \<Longrightarrow> page_ref s' p = page_ref s p"
    and "length ys \<le> 3 \<Longrightarrow> tbl s r ys = Some t \<Longrightarrow> tbl s' r ys = Some t"
    and "frame_ok s f \<Longrightarrow> length ys \<le> 2 \<Longrightarrow> tbl s' r ys = Some f \<Longrightarrow> tbl s r ys = Some f"
    and "leaf s' r la = leaf s r la" and "kernel_part s' r = kernel_part s r"
    and "frame_ok s f \<Longrightarrow> \<forall>ys. length ys \<le> 2 \<longrightarrow> tbl s r ys \<noteq> Some f \<Longrightarrow> phys s' f = phys s f"
  using assms unfolding pt_ext_def by iprover+

lemma pt_ext_frame: "pt_ext r s s' \<Longrightarrow> frame_ok s f \<Longrightarrow> frame_ok s' f"
  using pt_extD(1,2) [of r s s'] by (auto simp: frame_ok_def)

lemma pt_ext_trans:
  assumes a: "pt_ext r s s1" and b: "pt_ext r s1 s2"
  shows "pt_ext r s s2"
proof (rule pt_extI)
  show "npage s2 = npage s" using pt_extD(1) [OF a] pt_extD(1) [OF b] by simp
  show "free_set (area s2) \<subseteq> free_set (area s)" using pt_extD(2) [OF a] pt_extD(2) [OF b] by blast
  show "page_ref s2 p = page_ref s p" if "p \<notin> free_set (area s)" for p
    using that pt_extD(2,3) [OF a] pt_extD(3) [OF b] by (metis subsetD)
  show "tbl s2 r ys = Some t" if "length ys \<le> 3" "tbl s r ys = Some t" for ys t
    using that pt_extD(4) [OF a] pt_extD(4) [OF b] by blast
  show "tbl s r ys = Some f" if "frame_ok s f" "length ys \<le> 2" "tbl s2 r ys = Some f" for ys f
    using that pt_extD(5) [OF a] pt_ext_frame [OF a] pt_extD(5) [OF b] by blast
  show "leaf s2 r la = leaf s r la" for la using pt_extD(6) [OF a] pt_extD(6) [OF b] by simp
  show "kernel_part s2 r = kernel_part s r" using pt_extD(7) [OF a] pt_extD(7) [OF b] by simp
  show "phys s2 f = phys s f" if "frame_ok s f" "\<forall>ys. length ys \<le> 2 \<longrightarrow> tbl s r ys \<noteq> Some f" for f
  proof -
    have "\<forall>ys. length ys \<le> 2 \<longrightarrow> tbl s1 r ys \<noteq> Some f" using that pt_extD(5) [OF a] by blast
    then show ?thesis using that pt_extD(8) [OF a] pt_ext_frame [OF a] pt_extD(8) [OF b] by metis
  qed
qed

lemma KADDR_entry:
  assumes "pt_tree s r" "length xs \<le> 2" "tbl s r xs = Some t" "tbl s r (xs @ [k]) = Some u"
  shows "KADDR s (PTE_ADDR (phys s t k)) = Some u"
proof -
  have "u < npage s" using pt_treeD(1) [OF assms(1) _ assms(4)] assms(2) by (simp add: frame_ok_def)
  moreover have "u = entry_ppn (phys s t k)" using assms(3,4) by (simp add: tbl_snoc split: if_splits)
  ultimately show ?thesis by (simp add: KADDR_def entry_ppn_def)
qed

lemma get_pte_spec:
  assumes inv: "pt_inv s r" and pth: "pth = [PDX1 la, PDX0 la]" and la: "PDX1 la < 2"
  shows "\<exists>res s'. get_pte s r la create = Some (res, s') \<and> pt_inv s' r \<and> pt_ext r s s'
    \<and> (case res of None \<Rightarrow> (create \<longrightarrow> free_set (area s') = {}) \<and> tbl s' r pth = None
       | Some tk \<Rightarrow> tbl s' r pth = Some (fst tk) \<and> snd tk = PTX la)
    \<and> (\<not> create \<or> tbl s r pth \<noteq> None \<longrightarrow> s' = s)"
proof -
  obtain ok1 s1 where t1: "get_table s r (PDX1 la) create = Some (ok1, s1)" "pt_inv s1 r" "pt_ext r s s1"
    "ok1 \<longleftrightarrow> tbl s1 r [PDX1 la] \<noteq> None" "\<not> create \<or> tbl s r [PDX1 la] \<noteq> None \<longrightarrow> s1 = s"
    "create \<and> \<not> ok1 \<longrightarrow> free_set (area s1) = {}"
    using get_table_spec [OF inv, of "[]" r "PDX1 la" create] la by auto
  have p1: "tbl s r pth \<noteq> None \<Longrightarrow> tbl s r [PDX1 la] \<noteq> None" for s
    using tbl_snoc [of s r "[PDX1 la]" "PDX0 la"] by (cases "tbl s r [PDX1 la]") (simp_all add: pth)
  show ?thesis
  proof (cases ok1)
    case False
    then have "get_pte s r la create = Some (None, s1)" using t1(1) by (simp add: get_pte_def)
    moreover have "tbl s1 r pth = None" using False t1(4) p1 by blast
    ultimately show ?thesis using t1 False p1 by auto
  next
    case True
    then obtain pd0 where pd0: "tbl s1 r [PDX1 la] = Some pd0" using t1(4) by auto
    have tree1: "pt_tree s1 r" using t1(2) by (simp add: pt_inv_def)
    have k1: "KADDR s1 (PTE_ADDR (phys s1 r (PDX1 la))) = Some pd0"
      using KADDR_entry [OF tree1, of "[]" r "PDX1 la" pd0] pd0 by simp
    obtain ok2 s2 where t2: "get_table s1 pd0 (PDX0 la) create = Some (ok2, s2)" "pt_inv s2 r" "pt_ext r s1 s2"
      "ok2 \<longleftrightarrow> tbl s2 r pth \<noteq> None" "\<not> create \<or> tbl s1 r pth \<noteq> None \<longrightarrow> s2 = s1"
      "create \<and> \<not> ok2 \<longrightarrow> free_set (area s2) = {}"
      using get_table_spec [OF t1(2), of "[PDX1 la]" pd0 "PDX0 la" create] pd0 la by (auto simp: pth)
    have ext: "pt_ext r s s2" by (rule pt_ext_trans [OF t1(3) t2(3)])
    have same: "\<not> create \<or> tbl s r pth \<noteq> None \<longrightarrow> s2 = s" using t1(5) t2(5) p1 by auto
    show ?thesis
    proof (cases ok2)
      case False
      then have "get_pte s r la create = Some (None, s2)" using t1(1) t2(1) k1 True by (simp add: get_pte_def)
      then show ?thesis using t2 ext same False by auto
    next
      case ok2: True
      then obtain pt where pt: "tbl s2 r pth = Some pt" using t2(4) by auto
      have "tbl s2 r [PDX1 la] = Some pd0" using t2(3) pd0 by (simp add: pt_ext_def)
      then have k2: "KADDR s2 (PTE_ADDR (phys s2 pd0 (PDX0 la))) = Some pt"
        using KADDR_entry [of s2 r "[PDX1 la]" pd0 "PDX0 la" pt] t2(2) pt
        by (simp add: pt_inv_def pth)
      have "get_pte s r la create = Some (Some (pt, PTX la), s2)"
        using t1(1) t2(1) k1 k2 True ok2 by (simp add: get_pte_def)
      then show ?thesis using t2(2) ext same pt by auto
    qed
  qed
qed

subsection \<open>Changing a mapping\<close>

lemma tbl_phys: "phys s' = phys s \<Longrightarrow> tbl s' r xs = tbl s r xs"
proof -
  assume p: "phys s' = phys s"
  have "walk s' t xs = walk s t xs" for t by (induction xs arbitrary: t) (simp_all add: p)
  then show ?thesis by (simp add: tbl_def)
qed

lemma leaf_phys: "phys s' = phys s \<Longrightarrow> leaf s' r la = leaf s r la"
  by (simp add: leaf_def tbl_phys [of s' s] split: option.split)

lemma pt_inv_refs:
  assumes "pt_inv s r" "phys s' = phys s" "npage s' = npage s" "ff_inv (area s')" "free_set (area s') = free_set (area s)"
    and "\<And>f. mapped_at s r f \<noteq> {} \<Longrightarrow> int (card (mapped_at s r f)) \<le> page_ref s' (f - nbase)"
  shows "pt_inv s' r"
proof -
  have t: "tbl s' r xs = tbl s r xs" for xs using tbl_phys [OF assms(2)] .
  then have "mapped_at s' r = mapped_at s r" by (simp add: mapped_at_def fun_eq_iff)
  then show ?thesis using assms
    by (simp add: pt_inv_def km_ok_def pt_tree_def pt_refs_def frame_ok_def t)
qed

lemma pt_set_leaf:
  assumes tree: "pt_tree s r" and pth: "length pth = 2" "tbl s r pth = Some t"
    and s': "phys s' = (phys s)(t := (phys s t)(k := e))"
    and others: "\<forall>ys u. length ys \<le> 3 \<and> ys \<noteq> pth @ [k] \<and> tbl s r ys = Some u \<longrightarrow> frame_ok s' u"
    and new: "pte_valid e \<longrightarrow> frame_ok s' (entry_ppn e) \<and> (\<forall>ys. length ys \<le> 2 \<longrightarrow> tbl s r ys \<noteq> Some (entry_ppn e))"
  shows "pt_tree s' r"
    and "mapped_at s' r f = (if pte_valid e \<and> entry_ppn e = f then insert (pth @ [k]) (mapped_at s r f)
       else mapped_at s r f - {pth @ [k]})"
    and "leaf s' r la = (if [PDX1 la, PDX0 la] = pth \<and> PTX la = k then e else leaf s r la)"
proof -
  have tb: "tbl s' r ys = (if ys = pth @ [k] then if pte_valid e then Some (entry_ppn e) else None else tbl s r ys)"
    if "length ys \<le> 3" for ys
    by (rule tbl_leaf [OF tree pth that s'])
  have "frame_ok s' u" if "length ys \<le> 3" "tbl s' r ys = Some u" for ys u
    using that tb [OF that(1)] others new by (auto split: if_splits)
  moreover have "xs = ys" if "length xs \<le> 3" "length ys \<le> 2" "tbl s' r xs = Some u" "tbl s' r ys = Some u" for xs ys u
  proof -
    have "ys \<noteq> pth @ [k]" using that(2) pth(1) by auto
    then have ys: "tbl s r ys = Some u" using that tb [of ys] by simp
    show ?thesis
    proof (cases "xs = pth @ [k]")
      case True
      then have "pte_valid e" "entry_ppn e = u" using that tb [of xs] by (simp_all split: if_splits)
      then show ?thesis using new ys that(2) by blast
    next
      case False
      then show ?thesis using that tb [of xs] ys pt_treeD(2) [OF tree that(1,2)] by simp
    qed
  qed
  ultimately show "pt_tree s' r" by (simp add: pt_tree_def)
  have l3: "length (pth @ [k]) = 3" using pth(1) by simp
  show "mapped_at s' r f = (if pte_valid e \<and> entry_ppn e = f then insert (pth @ [k]) (mapped_at s r f)
       else mapped_at s r f - {pth @ [k]})"
  proof (rule set_eqI)
    fix ys
    have "ys \<in> mapped_at s' r f \<longleftrightarrow> (if ys = pth @ [k] then pte_valid e \<and> entry_ppn e = f else ys \<in> mapped_at s r f)"
      using tb [of ys] l3 by (auto simp: mapped_at_def split: if_split_asm)
    then show "ys \<in> mapped_at s' r f \<longleftrightarrow> ys \<in> (if pte_valid e \<and> entry_ppn e = f
        then insert (pth @ [k]) (mapped_at s r f) else mapped_at s r f - {pth @ [k]})" by simp
  qed
  define w where "w = [PDX1 la, PDX0 la]"
  have w: "length w = 2" by (simp add: w_def)
  have lf: "leaf s r la = (case tbl s r w of None \<Rightarrow> 0 | Some t \<Rightarrow> phys s t (PTX la))" for s
    by (simp only: leaf_def w_def)
  have "w \<noteq> pth @ [k]" using w l3 by auto
  then have tw: "tbl s' r w = tbl s r w" using tb [of w] w by simp
  have ut: "u = t \<longleftrightarrow> w = pth" if "tbl s r w = Some u" for u
    using pt_treeD(2) [OF tree, of w pth u] that pth w by auto
  show "leaf s' r la = (if [PDX1 la, PDX0 la] = pth \<and> PTX la = k then e else leaf s r la)"
    using ut pth(2) by (auto simp: lf tw s' w_def [symmetric] split: option.split)
qed

lemma entry_page:
  assumes "pt_inv s r" "length pth = 2" "tbl s r pth = Some t" "pte_valid (phys s t k)"
  shows "pte2page s (phys s t k) = Some (entry_ppn (phys s t k) - nbase)"
    and "entry_ppn (phys s t k) - nbase \<notin> free_set (area s)"
    and "nbase \<le> entry_ppn (phys s t k)"
    and "pth @ [k] \<in> mapped_at s r (entry_ppn (phys s t k))"
    and "1 \<le> page_ref s (entry_ppn (phys s t k) - nbase)"
proof -
  let ?f = "entry_ppn (phys s t k)"
  have tb: "tbl s r (pth @ [k]) = Some ?f" using assms(3,4) tbl_upath [OF assms(3)] assms(2) by (auto simp: tbl_snoc)
  then have ok: "frame_ok s ?f" using pt_treeD(1) [of s r "pth @ [k]"] assms(1,2) by (simp add: pt_inv_def)
  then show "pte2page s (phys s t k) = Some (?f - nbase)"
    using assms(4) by (auto simp: pte2page_def pa2page_def frame_ok_def entry_ppn_def)
  show "?f - nbase \<notin> free_set (area s)" "nbase \<le> ?f" using ok by (simp_all add: frame_ok_def)
  show m: "pth @ [k] \<in> mapped_at s r ?f" using tb assms(2) by (simp add: mapped_at_def)
  then have "0 < card (mapped_at s r ?f)" by (auto simp: card_gt_0_iff)
  moreover have "int (card (mapped_at s r ?f)) \<le> page_ref s (?f - nbase)"
    using m assms(1) by (auto simp: pt_inv_def pt_refs_def)
  ultimately show "1 \<le> page_ref s (?f - nbase)" by linarith
qed

text \<open>\<open>page_remove_pte\<close> gives up one reference and frees the page with the last one.\<close>

lemma page_remove_pte_spec:
  assumes inv: "pt_inv s r" and pth: "length pth = 2" "tbl s r pth = Some t" and v: "pte_valid (phys s t k)"
    and q: "q = entry_ppn (phys s t k) - nbase" and acc: "page_ref s q = 1 \<Longrightarrow> ff_accepts (area s) q 1"
  shows "\<exists>s'. page_remove_pte s (t, k) = Some s' \<and> pt_inv s' r \<and> npage s' = npage s
    \<and> phys s' = (phys s)(t := (phys s t)(k := 0))
    \<and> free_set (area s') = (if page_ref s q = 1 then insert q (free_set (area s)) else free_set (area s))
    \<and> (\<forall>p. p \<noteq> q \<longrightarrow> page_ref s' p = page_ref s p)
    \<and> (page_ref s q \<noteq> 1 \<longrightarrow> page_ref s' q = page_ref s q - 1)"
proof -
  note e = entry_page [OF inv pth v]
  let ?f = "entry_ppn (phys s t k)"
  have km: "ff_inv (area s)" "npage s \<le> 2 ^ 52" using inv by (auto simp: pt_inv_def km_ok_def)
  have tree: "pt_tree s r" and refs: "pt_refs s r" using inv by (simp_all add: pt_inv_def)
  have okf: "frame_ok s ?f" using pt_treeD(1) [OF tree, of "pth @ [k]"] e(4) by (simp add: mapped_at_def)
  define s1 where "s1 = page_ref_dec q s"
  obtain s2 where s2: "(if page_ref s1 q = 0 then free_page q s1 else Some s1) = Some s2"
    "ff_inv (area s2)" "phys s2 = phys s" "npage s2 = npage s" "\<forall>p. p \<noteq> q \<longrightarrow> page_ref s2 p = page_ref s p"
    "free_set (area s2) = (if page_ref s q = 1 then insert q (free_set (area s)) else free_set (area s))"
    "page_ref s q \<noteq> 1 \<longrightarrow> page_ref s2 q = page_ref s q - 1"
  proof (cases "page_ref s q = 1")
    case True
    have "q \<notin> free_set (area s1)" "ff_inv (area s1)" "ff_accepts (area s1) q 1"
      using e(2) km acc True q by (simp_all add: s1_def page_ref_dec_def)
    from free_page_spec [OF this(2,1,3)] show thesis
      using True by (auto simp: s1_def page_ref_dec_def intro: that)
  next
    case False
    then show thesis using km by (intro that [of s1]) (simp_all add: s1_def page_ref_dec_def)
  qed
  let ?s = "set_entry (t, k) 0 s2"
  have run: "page_remove_pte s (t, k) = Some ?s"
    unfolding page_remove_pte_def get_entry_def Let_def using v e(1) s2(1)
    by (cases "page_ref s1 q = 0") (simp_all add: q [symmetric] s1_def)
  have ph: "phys ?s = (phys s)(t := (phys s t)(k := 0))" using s2(3) by (auto simp: fun_eq_iff)
  have last: "mapped_at s r ?f = {pth @ [k]}" if "page_ref s q = 1"
  proof -
    have "int (card (mapped_at s r ?f)) \<le> 1" using refs e(4) that q by (auto simp: pt_refs_def)
    then have "card (mapped_at s r ?f) \<le> Suc 0" by simp
    then show ?thesis using e(4) by (auto simp: card_le_Suc0_iff_eq)
  qed
  have ot: "frame_ok ?s u" if "length ys \<le> 3" "ys \<noteq> pth @ [k]" "tbl s r ys = Some u" for ys u
  proof -
    have ok: "frame_ok s u" by (rule pt_treeD(1) [OF tree that(1,3)])
    have "u - nbase \<noteq> q" if r1: "page_ref s q = 1"
    proof
      assume "u - nbase = q"
      then have "u = ?f" using q ok e(3) eq_diff_iff [of nbase u ?f] by (simp add: frame_ok_def)
      show False
      proof (cases "length ys = 3")
        case True
        then have "ys \<in> mapped_at s r ?f" using \<open>u = ?f\<close> \<open>tbl s r ys = Some u\<close> by (simp add: mapped_at_def)
        then show False using last [OF r1] \<open>ys \<noteq> pth @ [k]\<close> by simp
      next
        case False
        then have "pth @ [k] = ys"
          using pt_treeD(2) [OF tree, of "pth @ [k]" ys ?f] e(4) \<open>u = ?f\<close> \<open>tbl s r ys = Some u\<close> \<open>length ys \<le> 3\<close>
          by (simp add: mapped_at_def)
        then show False using \<open>ys \<noteq> pth @ [k]\<close> by simp
      qed
    qed
    then show ?thesis using ok s2(4,6) by (auto simp: frame_ok_def)
  qed
  have new: "pte_valid 0 \<longrightarrow> frame_ok ?s (entry_ppn 0) \<and> (\<forall>ys. length ys \<le> 2 \<longrightarrow> tbl s r ys \<noteq> Some (entry_ppn 0))"
    by simp
  have others: "\<forall>ys u. length ys \<le> 3 \<and> ys \<noteq> pth @ [k] \<and> tbl s r ys = Some u \<longrightarrow> frame_ok ?s u" using ot by blast
  note set = pt_set_leaf [OF tree pth ph others new]
  have "int (card (mapped_at ?s r f)) \<le> page_ref ?s (f - nbase)" if ne: "mapped_at ?s r f \<noteq> {}" for f
  proof -
    have m: "mapped_at ?s r f = mapped_at s r f - {pth @ [k]}" using set(2) by simp
    then have le: "int (card (mapped_at s r f)) \<le> page_ref s (f - nbase)" using ne refs by (auto simp: pt_refs_def)
    show ?thesis
    proof (cases "f - nbase = q")
      case False
      have "card (mapped_at ?s r f) \<le> card (mapped_at s r f)" unfolding m by (intro card_mono) auto
      then show ?thesis using le s2(5) False by simp
    next
      case True
      obtain ys where "ys \<in> mapped_at ?s r f" using ne by blast
      then have "frame_ok ?s f" using pt_treeD(1) [OF set(1), of ys f] by (simp add: mapped_at_def)
      then have "f = ?f" using True q e(3) eq_diff_iff [of nbase f ?f] by (simp add: frame_ok_def)
      then have "page_ref s q \<noteq> 1" using last ne m by auto
      moreover have "card (mapped_at ?s r f) = card (mapped_at s r f) - 1"
        unfolding m using e(4) \<open>f = ?f\<close> by (simp add: card_Diff_singleton)
      moreover have "0 < card (mapped_at s r f)" using e(4) \<open>f = ?f\<close> by (auto simp: card_gt_0_iff)
      ultimately show ?thesis using le s2(7) True by simp
    qed
  qed
  then have "pt_refs ?s r" by (simp add: pt_refs_def)
  moreover have "?f < npage s" "nbase \<le> ?f" using okf by (simp_all add: frame_ok_def)
  then have "km_ok ?s" using inv s2 q by (auto simp: pt_inv_def km_ok_def)
  ultimately have "pt_inv ?s r" using set(1) by (simp add: pt_inv_def)
  then show ?thesis using run ph s2 by (intro exI [of _ ?s]) simp
qed

lemma bits_less_1024: "v < 1024 \<Longrightarrow> PTE_V OR v < (1024 :: u64)"
proof -
  assume v: "v < (1024 :: u64)"
  have s: "w < (1024 :: u64) \<longleftrightarrow> take_bit 10 w = w" for w
  proof
    show "w < 1024 \<Longrightarrow> take_bit 10 w = w"
      by (simp add: word_unat_eq_iff unsigned_take_bit_eq take_bit_nat_eq_self word_less_nat_alt)
    assume w: "take_bit 10 w = w"
    have "unat (take_bit 10 w) < 2 ^ 10" using take_bit_nat_less_exp [of 10 "unat w"] by (simp add: unsigned_take_bit_eq)
    then show "w < 1024" unfolding w by (simp add: word_less_nat_alt)
  qed
  have "take_bit 10 (PTE_V OR v) = PTE_V OR v"
    using v s [of v] by (simp add: take_bit_or PTE_V_def)
  then show ?thesis using s by blast
qed

text \<open>Storing a mapping of \<open>page\<close>, whose new reference is already counted, into an unused entry.\<close>

lemma set_mapping:
  assumes inv: "pt_inv s r" and pth: "length pth = 2" "tbl s r pth = Some t" "\<not> pte_valid (phys s t k)"
    and page: "page + nbase < npage s" "page \<notin> free_set (area s)"
      "\<And>ys. length ys \<le> 2 \<Longrightarrow> tbl s r ys \<noteq> Some (page2ppn page)"
    and refs: "int (card (mapped_at s r (page2ppn page))) < page_ref s page" and perm: "perm < 1024"
  shows "pt_inv (set_entry (t, k) (pte_create (page2ppn page) perm) s) r"
    and "leaf (set_entry (t, k) (pte_create (page2ppn page) perm) s) r la =
      (if [PDX1 la, PDX0 la] = pth \<and> PTX la = k then pte_create (page2ppn page) perm else leaf s r la)"
proof -
  let ?f = "page2ppn page" and ?e = "pte_create (page2ppn page) perm"
  let ?s = "set_entry (t, k) ?e s"
  have tree: "pt_tree s r" and km: "km_ok s" using inv by (simp_all add: pt_inv_def)
  have e: "entry_ppn ?e = ?f" using page(1) km perm by (intro entry_ppn_create) (simp_all add: page2ppn_def km_ok_def)
  have ph: "phys ?s = (phys s)(t := (phys s t)(k := ?e))" by (auto simp: fun_eq_iff)
  have ok: "frame_ok ?s u = frame_ok s u" for u by (simp add: frame_ok_def)
  have ot: "frame_ok ?s u" if "length ys \<le> 3" "ys \<noteq> pth @ [k]" "tbl s r ys = Some u" for ys u
    using pt_treeD(1) [OF tree that(1,3)] ok by simp
  have new: "pte_valid ?e \<longrightarrow> frame_ok ?s (entry_ppn ?e) \<and> (\<forall>ys. length ys \<le> 2 \<longrightarrow> tbl s r ys \<noteq> Some (entry_ppn ?e))"
    using page unfolding e ok by (simp add: frame_ok_def page2ppn_def)
  have others: "\<forall>ys u. length ys \<le> 3 \<and> ys \<noteq> pth @ [k] \<and> tbl s r ys = Some u \<longrightarrow> frame_ok ?s u" using ot by blast
  note set = pt_set_leaf [OF tree pth(1,2) ph others new]
  have none: "tbl s r (pth @ [k]) = None" using pth by (simp add: tbl_snoc)
  have m: "mapped_at ?s r f = (if f = ?f then insert (pth @ [k]) (mapped_at s r f) else mapped_at s r f)" for f
    using set(2) [of f] none by (auto simp: e mapped_at_def)
  have "int (card (mapped_at ?s r f)) \<le> page_ref ?s (f - nbase)" if ne: "mapped_at ?s r f \<noteq> {}" for f
  proof (cases "f = ?f")
    case True
    have "pth @ [k] \<notin> mapped_at s r f" using none by (simp add: mapped_at_def)
    then have "int (card (mapped_at ?s r f)) \<le> page_ref s page"
      using m True refs by (simp add: card_insert_disjoint)
    then show ?thesis using True by (simp add: page2ppn_def)
  next
    case False
    then show ?thesis using ne m inv by (simp add: pt_inv_def pt_refs_def)
  qed
  then show "pt_inv ?s r" using set(1) km by (simp add: pt_inv_def pt_refs_def km_ok_def)
  show "leaf ?s r la = (if [PDX1 la, PDX0 la] = pth \<and> PTX la = k then ?e else leaf s r la)" by (rule set(3))
qed

text \<open>The page an entry maps, and when the allocator takes it back.\<close>

definition leaf_page :: "kmem \<Rightarrow> nat \<Rightarrow> u64 \<Rightarrow> nat" where
  "leaf_page s r la = entry_ppn (leaf s r la) - nbase"

definition may_release :: "kmem \<Rightarrow> nat \<Rightarrow> bool" where
  "may_release s q \<longleftrightarrow> (page_ref s q = 1 \<longrightarrow> ff_accepts (area s) q 1)"

lemma same_page_iff: "[PDX1 la', PDX0 la'] = [PDX1 la, PDX0 la] \<and> PTX la' = PTX la \<longleftrightarrow> same_page la la'"
  by (auto simp: same_page_def)

lemma leaf_walk: "pth = [PDX1 la, PDX0 la] \<Longrightarrow> tbl s r pth = Some t \<Longrightarrow> leaf s r la = phys s t (PTX la)"
  by (simp only: leaf_def option.case)

lemma leaf_no_walk: "pth = [PDX1 la, PDX0 la] \<Longrightarrow> tbl s r pth = None \<Longrightarrow> leaf s r la = 0"
  by (simp only: leaf_def option.case)

text \<open>The three cases of \<open>page_insert\<close> once the entry \<open>(t, PTX la)\<close> is found.\<close>

lemma insert_found:
  assumes inv: "pt_inv s r" and pth: "pth = [PDX1 la, PDX0 la]" "tbl s r pth = Some t"
    and page: "page + nbase < npage s" "page \<notin> free_set (area s)" "0 \<le> page_ref s page"
      "\<forall>ys. length ys \<le> 2 \<longrightarrow> tbl s r ys \<noteq> Some (page2ppn page)"
    and perm: "perm < 1024"
    and old: "pte_valid (leaf s r la) \<longrightarrow> leaf_page s r la = page \<or> may_release s (leaf_page s r la)"
    and run: "\<exists>u. get_pte s0 r la True = Some (Some (t, PTX la), s)"
  shows "\<exists>s'. page_insert s0 r page la perm = Some (None, s') \<and> pt_inv s' r \<and> kernel_part s' r = kernel_part s r
    \<and> (\<forall>la'. leaf s' r la' = (if same_page la la' then pte_create (page2ppn page) (PTE_V OR perm) else leaf s r la'))
    \<and> page_ref s' page = page_ref s page + (if pte_valid (leaf s r la) \<and> leaf_page s r la = page then 0 else 1)
    \<and> (pte_valid (leaf s r la) \<and> leaf_page s r la \<noteq> page \<longrightarrow>
        (if page_ref s (leaf_page s r la) = 1 then leaf_page s r la \<in> free_set (area s')
         else page_ref s' (leaf_page s r la) = page_ref s (leaf_page s r la) - 1))"
proof -
  let ?k = "PTX la" and ?e = "pte_create (page2ppn page) (PTE_V OR perm)" and ?q = "leaf_page s r la"
  have l2: "length pth = 2" by (simp add: pth(1))
  have lf: "leaf s r la = phys s t ?k" by (rule leaf_walk [OF pth])
  have tr: "t \<noteq> r" using pt_treeD(2) [of s r pth "[]" r] inv pth(2) l2 by (auto simp: pt_inv_def)
  then have kp: "kernel_part (set_entry (t, ?k) e m) r = kernel_part m r" for e m
    by (intro kernel_part_other) (simp add: set_entry_def)
  have pm: "PTE_V OR perm < 1024" by (rule bits_less_1024 [OF perm])
  define s1 where "s1 = page_ref_inc page s"
  have s1: "phys s1 = phys s" "npage s1 = npage s" "free_set (area s1) = free_set (area s)"
    "ff_inv (area s1) = ff_inv (area s)" "ff_accepts (area s1) = ff_accepts (area s)"
    "page_ref s1 p = (if p = page then page_ref s page + 1 else page_ref s p)" for p
    by (simp_all add: s1_def page_ref_inc_def)
  have inv1: "pt_inv s1 r"
  proof (rule pt_inv_refs [OF inv])
    show "ff_inv (area s1)" using inv s1 by (simp add: pt_inv_def km_ok_def)
    show "int (card (mapped_at s r f)) \<le> page_ref s1 (f - nbase)" if "mapped_at s r f \<noteq> {}" for f
      using inv that s1(6) [of "f - nbase"] by (auto simp: pt_inv_def pt_refs_def)
  qed (simp_all add: s1)
  have tb1: "tbl s1 r xs = tbl s r xs" for xs by (rule tbl_phys [OF s1(1)])
  have lf1: "leaf s1 r la' = leaf s r la'" for la' by (rule leaf_phys [OF s1(1)])
  have m1: "mapped_at s1 r f = mapped_at s r f" for f by (simp add: mapped_at_def tb1)
  have cp: "int (card (mapped_at s r (page2ppn page))) \<le> page_ref s page"
    using inv page(3) by (cases "mapped_at s r (page2ppn page) = {}") (auto simp: pt_inv_def pt_refs_def page2ppn_def)
  have ins: "page_insert s0 r page la perm = do {
      s \<leftarrow> (if pte_valid (phys s1 t ?k) then do {
              p \<leftarrow> pte2page s1 (phys s1 t ?k);
              if p = page then Some (page_ref_dec page s1) else page_remove_pte s1 (t, ?k)
            } else Some s1);
      Some (None, set_entry (t, ?k) ?e s)
    }"
    unfolding s1_def using run by (auto simp: page_insert_def get_entry_def Let_def)
  have final: "pt_inv (set_entry (t, ?k) ?e s2) r \<and> leaf (set_entry (t, ?k) ?e s2) r la'
      = (if same_page la la' then ?e else leaf s r la')"
    if s2: "pt_inv s2 r" "tbl s2 r pth = Some t" "\<not> pte_valid (phys s2 t ?k)" "npage s2 = npage s"
      "page \<notin> free_set (area s2)" "\<forall>ys. length ys \<le> 2 \<longrightarrow> tbl s2 r ys \<noteq> Some (page2ppn page)"
      "int (card (mapped_at s2 r (page2ppn page))) < page_ref s2 page"
      "\<forall>la'. \<not> same_page la la' \<longrightarrow> leaf s2 r la' = leaf s r la'" for s2 la'
  proof
    have p: "page + nbase < npage s2" "\<And>ys. length ys \<le> 2 \<Longrightarrow> tbl s2 r ys \<noteq> Some (page2ppn page)"
      using s2 page(1) by auto
    show "pt_inv (set_entry (t, ?k) ?e s2) r"
      by (rule set_mapping(1) [OF s2(1) l2 s2(2,3) p(1) s2(5) p(2) s2(7) pm])
    show "leaf (set_entry (t, ?k) ?e s2) r la' = (if same_page la la' then ?e else leaf s r la')"
      using set_mapping(2) [OF s2(1) l2 s2(2,3) p(1) s2(5) p(2) s2(7) pm, of la'] same_page_iff [of la' la] pth(1) s2(8)
      by auto
  qed
  show ?thesis
  proof (cases "pte_valid (leaf s r la)")
    case False
    then have "page_insert s0 r page la perm = Some (None, set_entry (t, ?k) ?e s1)" using ins lf s1(1) by simp
    moreover have "pt_inv (set_entry (t, ?k) ?e s1) r \<and> leaf (set_entry (t, ?k) ?e s1) r la'
        = (if same_page la la' then ?e else leaf s r la')" for la'
      using False lf page cp by (intro final inv1) (simp_all add: tb1 lf1 m1 s1 pth(2))
    moreover have "kernel_part s1 r = kernel_part s r" by (rule kernel_part_other) (simp add: s1)
    ultimately show ?thesis using False kp by (auto simp: s1)
  next
    case v: True
    note ep = entry_page [OF inv1 l2, of t ?k]
    have q: "pte2page s1 (phys s1 t ?k) = Some ?q"
      using ep(1) v lf pth(2) by (simp add: tb1 s1 leaf_page_def)
    show ?thesis
    proof (cases "?q = page")
      case True
      let ?s = "set_entry (t, ?k) ?e (page_ref_dec page s1)"
      have run': "page_insert s0 r page la perm = Some (None, ?s)" using ins v lf q True s1(1) by simp
      have sd: "phys (page_ref_dec page s1) = phys s" "page_ref (page_ref_dec page s1) p = page_ref s p"
        "area ?s = area (page_ref_dec page s1)" for p
        by (simp_all add: page_ref_dec_def s1)
      have e: "entry_ppn ?e = page2ppn page"
        using page(1) inv pm by (intro entry_ppn_create) (simp_all add: page2ppn_def pt_inv_def km_ok_def)
      have "entry_ppn (phys s t ?k) = page2ppn page"
        using True lf ep(3) v pth(2) by (simp add: tb1 s1 leaf_page_def page2ppn_def)
      moreover have ph: "phys ?s = (phys s)(t := (phys s t)(?k := ?e))" using sd(1) by (auto simp: fun_eq_iff)
      moreover have tree: "pt_tree s r" using inv by (simp add: pt_inv_def)
      have ok: "frame_ok ?s u = frame_ok s u" for u by (simp add: frame_ok_def page_ref_dec_def s1)
      have others: "\<forall>ys u. length ys \<le> 3 \<and> ys \<noteq> pth @ [?k] \<and> tbl s r ys = Some u \<longrightarrow> frame_ok ?s u"
        using pt_treeD(1) [OF tree] ok by blast
      have new: "pte_valid ?e \<longrightarrow> frame_ok ?s (entry_ppn ?e) \<and> (\<forall>ys. length ys \<le> 2 \<longrightarrow> tbl s r ys \<noteq> Some (entry_ppn ?e))"
        using page unfolding e ok by (simp add: frame_ok_def page2ppn_def)
      note set = pt_set_leaf [OF tree l2 pth(2) ph others new]
      have in_m: "pth @ [?k] \<in> mapped_at s r (page2ppn page)"
        using calculation(1) ep(4) v lf pth(2) by (simp add: tb1 s1 m1)
      then have "mapped_at s r f - {pth @ [?k]} = mapped_at s r f" if "f \<noteq> page2ppn page" for f
        using that by (auto simp: mapped_at_def)
      then have "mapped_at ?s r f = mapped_at s r f" for f
        using set(2) [of f] in_m by (auto simp: e insert_absorb)
      then have "pt_inv ?s r"
        using set(1) inv sd(2) by (simp add: pt_inv_def pt_refs_def km_ok_def page_ref_dec_def s1)
      moreover have "leaf ?s r la' = (if same_page la la' then ?e else leaf s r la')" for la'
        using set(3) [of la'] same_page_iff [of la' la] pth(1) by simp
      moreover have "kernel_part ?s r = kernel_part s r" unfolding kp by (rule kernel_part_other) (simp add: sd)
      ultimately show ?thesis using run' v True sd(2) by auto
    next
      case False
      have acc: "page_ref s1 ?q = 1 \<Longrightarrow> ff_accepts (area s1) ?q 1"
        using old v False by (simp add: s1 may_release_def)
      obtain s2 where s2: "page_remove_pte s1 (t, ?k) = Some s2" "pt_inv s2 r" "npage s2 = npage s"
        "phys s2 = (phys s)(t := (phys s t)(?k := 0))"
        "free_set (area s2) = (if page_ref s ?q = 1 then insert ?q (free_set (area s)) else free_set (area s))"
        "page_ref s2 page = page_ref s page + 1" "page_ref s ?q \<noteq> 1 \<longrightarrow> page_ref s2 ?q = page_ref s ?q - 1"
        using page_remove_pte_spec [OF inv1 l2, of t ?k ?q] v lf pth(2) acc False
        by (auto simp: tb1 s1 leaf_page_def)
      have run': "page_insert s0 r page la perm = Some (None, set_entry (t, ?k) ?e s2)"
        using ins v lf q False s1(1) s2(1) by simp
      have tree: "pt_tree s r" using inv by (simp add: pt_inv_def)
      have tb2: "tbl s2 r ys = (if ys = pth @ [?k] then None else tbl s r ys)" if "length ys \<le> 3" for ys
        using tbl_leaf [OF tree l2 pth(2) that s2(4)] by simp
      have t2: "tbl s2 r pth = Some t" using tb2 [of pth] l2 pth(2) by simp
      have m2: "mapped_at s2 r f \<subseteq> mapped_at s r f" for f
        using tb2 by (auto simp: mapped_at_def split: if_splits)
      have "card (mapped_at s2 r (page2ppn page)) \<le> card (mapped_at s r (page2ppn page))"
        by (rule card_mono [OF _ m2]) simp
      then have c2: "int (card (mapped_at s2 r (page2ppn page))) < page_ref s2 page" using cp s2(6) by linarith
      have other: "leaf s2 r la' = leaf s r la'" if "\<not> same_page la la'" for la'
      proof -
        have new: "pte_valid 0 \<longrightarrow> frame_ok s2 (entry_ppn 0) \<and> (\<forall>ys. length ys \<le> 2 \<longrightarrow> tbl s r ys \<noteq> Some (entry_ppn 0))"
          by simp
        have others: "\<forall>ys u. length ys \<le> 3 \<and> ys \<noteq> pth @ [?k] \<and> tbl s r ys = Some u \<longrightarrow> frame_ok s2 u"
          using tb2 s2(2) pt_treeD(1) [of s2 r] by (auto simp: pt_inv_def)
        show ?thesis
          using pt_set_leaf(3) [OF tree l2 pth(2) s2(4) others new, of la'] that same_page_iff [of la' la] pth(1) by auto
      qed
      have nt: "\<forall>ys. length ys \<le> 2 \<longrightarrow> tbl s2 r ys \<noteq> Some (page2ppn page)" using tb2 page(4) by simp
      have "pt_inv (set_entry (t, ?k) ?e s2) r \<and> leaf (set_entry (t, ?k) ?e s2) r la'
          = (if same_page la la' then ?e else leaf s r la')" for la'
        by (rule final [OF s2(2) t2 _ s2(3) _ nt c2]) (use s2 page False other in auto)
      moreover have "kernel_part s2 r = kernel_part s r" using tr by (intro kernel_part_other) (simp add: s2(4))
      ultimately show ?thesis
        using run' s2 False kp by (intro exI [of _ "set_entry (t, ?k) ?e s2"]) auto
    qed
  qed
qed

text \<open>
  C8: \<open>page_insert\<close> at an address of the program, against the map from addresses to entries that the user part of a
  page directory stands for. The user part is well-formed when no frame is used twice as a table, the frames of the tables
  and of the mapped pages are not free, and a page has at least as many references as mappings; nothing is assumed of
  the kernel's entries of the directory, which map all memory. Then \<open>page_insert\<close> does not panic, keeps the user part
  well-formed and does not touch the kernel's entries. It fails only when no page is free, and then changes no entry.
  Otherwise exactly the entry of the page of \<open>la\<close> changes, to the new page with the given permissions; the new page
  gains a reference, unless it was mapped there already, and a page that was mapped there before loses one and is freed
  with the last.
\<close>

theorem page_insert_correct:
  assumes "pt_inv s r" "la < USERTOP" "page + nbase < npage s" "page \<notin> free_set (area s)" "0 \<le> page_ref s page"
    and "\<forall>ys. length ys \<le> 2 \<longrightarrow> tbl s r ys \<noteq> Some (page2ppn page)" "perm < 1024"
    and "pte_valid (leaf s r la) \<longrightarrow> leaf_page s r la = page \<or> may_release s (leaf_page s r la)"
  shows "\<exists>ret s'. page_insert s r page la perm = Some (ret, s') \<and> pt_inv s' r \<and> kernel_part s' r = kernel_part s r
    \<and> (case ret of
         Some e \<Rightarrow> e = E_NO_MEM \<and> free_set (area s') = {} \<and> (\<forall>la'. leaf s' r la' = leaf s r la')
           \<and> page_ref s' page = page_ref s page
       | None \<Rightarrow>
           (\<forall>la'. leaf s' r la' = (if same_page la la' then pte_create (page2ppn page) (PTE_V OR perm) else leaf s r la'))
           \<and> page_ref s' page = page_ref s page + (if pte_valid (leaf s r la) \<and> leaf_page s r la = page then 0 else 1)
           \<and> (pte_valid (leaf s r la) \<and> leaf_page s r la \<noteq> page \<longrightarrow>
               (if page_ref s (leaf_page s r la) = 1 then leaf_page s r la \<in> free_set (area s')
                else page_ref s' (leaf_page s r la) = page_ref s (leaf_page s r la) - 1)))"
proof -
  define pth where "pth = [PDX1 la, PDX0 la]"
  obtain res s1 where g: "get_pte s r la True = Some (res, s1)" "pt_inv s1 r" "pt_ext r s s1"
    "case res of None \<Rightarrow> (True \<longrightarrow> free_set (area s1) = {}) \<and> tbl s1 r pth = None
       | Some tk \<Rightarrow> tbl s1 r pth = Some (fst tk) \<and> snd tk = PTX la"
    "\<not> True \<or> tbl s r pth \<noteq> None \<longrightarrow> s1 = s"
    using get_pte_spec [OF assms(1) pth_def user_index [OF assms(2)], of True] by blast
  note ext = pt_extD [OF g(3)]
  show ?thesis
  proof (cases res)
    case None
    then have "page_insert s r page la perm = Some (Some E_NO_MEM, s1)" using g(1) by (simp add: page_insert_def)
    then show ?thesis using None g ext(3) [OF assms(4)] ext(6,7) by (intro exI [of _ "Some E_NO_MEM"] exI [of _ s1]) auto
  next
    case (Some tk)
    then have t: "tbl s1 r pth = Some (fst tk)" "res = Some (fst tk, PTX la)" using g(4) by (cases tk; simp)+
    have okp: "frame_ok s (page2ppn page)" using assms(3,4) by (simp add: frame_ok_def page2ppn_def)
    have nt: "\<forall>ys. length ys \<le> 2 \<longrightarrow> tbl s1 r ys \<noteq> Some (page2ppn page)" using ext(5) [OF okp] assms(6) by blast
    have lf: "leaf s1 r la' = leaf s r la'" "leaf_page s1 r la' = leaf_page s r la'" for la'
      using ext(6) by (simp_all add: leaf_page_def)
    have valid: "s1 = s" if "pte_valid (leaf s r la)"
      using that g(5) leaf_no_walk [OF pth_def, of s r] by fastforce
    have page: "page + nbase < npage s1" "page \<notin> free_set (area s1)" "page_ref s1 page = page_ref s page"
      using assms(3,4) ext(1,2) ext(3) [OF assms(4)] by auto
    have old: "pte_valid (leaf s1 r la) \<longrightarrow> leaf_page s1 r la = page \<or> may_release s1 (leaf_page s1 r la)"
      using assms(8) valid lf by auto
    have "\<exists>u. get_pte s r la True = Some (Some (fst tk, PTX la), s1)" using g(1) t(2) by simp
    from insert_found [OF g(2) pth_def t(1) page(1,2) _ nt assms(7) old this] page(3) assms(5)
    obtain s' where s': "page_insert s r page la perm = Some (None, s')" "pt_inv s' r" "kernel_part s' r = kernel_part s1 r"
      "\<forall>la'. leaf s' r la' = (if same_page la la' then pte_create (page2ppn page) (PTE_V OR perm) else leaf s1 r la')"
      "page_ref s' page = page_ref s1 page + (if pte_valid (leaf s1 r la) \<and> leaf_page s1 r la = page then 0 else 1)"
      "pte_valid (leaf s1 r la) \<and> leaf_page s1 r la \<noteq> page \<longrightarrow>
        (if page_ref s1 (leaf_page s1 r la) = 1 then leaf_page s1 r la \<in> free_set (area s')
         else page_ref s' (leaf_page s1 r la) = page_ref s1 (leaf_page s1 r la) - 1)"
      by auto
    have "pte_valid (leaf s r la) \<and> leaf_page s r la \<noteq> page \<longrightarrow>
        (if page_ref s (leaf_page s r la) = 1 then leaf_page s r la \<in> free_set (area s')
         else page_ref s' (leaf_page s r la) = page_ref s (leaf_page s r la) - 1)"
      using s'(6) valid lf by auto
    then show ?thesis
      using s'(1-5) page(3) ext(7) by (intro exI [of _ None] exI [of _ s']) (simp add: lf)
  qed
qed

text \<open>
  C25: \<open>page_remove\<close>, for a directory whose user part is well-formed, at an address that it maps: the entry for \<open>la\<close>
  becomes invalid and no other entry changes, neither of the program nor of the kernel; the page that was mapped there
  loses a reference and is given back to the allocator exactly when it was the last one.
\<close>

theorem page_remove_correct:
  assumes "pt_inv s r" "pte_valid (leaf s r la)" "may_release s (leaf_page s r la)"
  shows "\<exists>s'. page_remove s r la = Some s' \<and> pt_inv s' r \<and> kernel_part s' r = kernel_part s r
    \<and> (\<forall>la'. leaf s' r la' = (if same_page la la' then 0 else leaf s r la'))
    \<and> free_set (area s') = free_set (area s) \<union> (if page_ref s (leaf_page s r la) = 1 then {leaf_page s r la} else {})
    \<and> (page_ref s (leaf_page s r la) \<noteq> 1 \<longrightarrow> page_ref s' (leaf_page s r la) = page_ref s (leaf_page s r la) - 1)"
proof -
  define pth where "pth = [PDX1 la, PDX0 la]"
  have l2: "length pth = 2" by (simp add: pth_def)
  obtain t where t: "tbl s r pth = Some t"
    using leaf_no_walk [OF pth_def, of s r] assms(2) by (cases "tbl s r pth") auto
  note lf = leaf_walk [OF pth_def t]
  have up: "PDX1 la < 2" using tbl_upath [OF t] by (simp add: pth_def)
  obtain res s1 where g: "get_pte s r la False = Some (res, s1)"
    "case res of None \<Rightarrow> (False \<longrightarrow> free_set (area s1) = {}) \<and> tbl s1 r pth = None
       | Some tk \<Rightarrow> tbl s1 r pth = Some (fst tk) \<and> snd tk = PTX la"
    "\<not> False \<or> tbl s r pth \<noteq> None \<longrightarrow> s1 = s"
    using get_pte_spec [OF assms(1) pth_def up, of False] by blast
  then have "res = Some (t, PTX la)" "s1 = s" using t by (cases res; auto)+
  then have run: "page_remove s r la = page_remove_pte s (t, PTX la)" using g(1) by (simp add: page_remove_def)
  obtain s' where s': "page_remove_pte s (t, PTX la) = Some s'" "pt_inv s' r"
    "phys s' = (phys s)(t := (phys s t)(PTX la := 0))"
    "free_set (area s') = (if page_ref s (leaf_page s r la) = 1 then insert (leaf_page s r la) (free_set (area s))
      else free_set (area s))"
    "page_ref s (leaf_page s r la) \<noteq> 1 \<longrightarrow> page_ref s' (leaf_page s r la) = page_ref s (leaf_page s r la) - 1"
    using page_remove_pte_spec [OF assms(1) l2 t, of "PTX la" "leaf_page s r la"] assms(2,3)
    by (auto simp: lf leaf_page_def may_release_def)
  have tree: "pt_tree s r" using assms(1) by (simp add: pt_inv_def)
  have "tbl s' r ys = Some u" if "length ys \<le> 3" "ys \<noteq> pth @ [PTX la]" "tbl s r ys = Some u" for ys u
    using tbl_leaf [OF tree l2 t that(1) s'(3)] that by simp
  then have others: "\<forall>ys u. length ys \<le> 3 \<and> ys \<noteq> pth @ [PTX la] \<and> tbl s r ys = Some u \<longrightarrow> frame_ok s' u"
    using s'(2) pt_treeD(1) [of s' r] by (auto simp: pt_inv_def)
  have new: "pte_valid 0 \<longrightarrow> frame_ok s' (entry_ppn 0) \<and> (\<forall>ys. length ys \<le> 2 \<longrightarrow> tbl s r ys \<noteq> Some (entry_ppn 0))"
    by simp
  have "leaf s' r la' = (if same_page la la' then 0 else leaf s r la')" for la'
    using pt_set_leaf(3) [OF tree l2 t s'(3) others new, of la'] same_page_iff [of la' la] by (simp add: pth_def)
  moreover have "t \<noteq> r" using pt_treeD(2) [OF tree, of pth "[]" r] t l2 by auto
  then have "kernel_part s' r = kernel_part s r" by (intro kernel_part_other) (simp add: s'(3))
  ultimately show ?thesis using run s' by auto
qed

text \<open>A directory without pages of the program is well-formed.\<close>

lemma pt_inv_empty:
  assumes "km_ok s" "frame_ok s r" "\<And>i. i < 2 \<Longrightarrow> \<not> pte_valid (phys s r i)"
  shows "pt_inv s r" "leaf s r la = 0" "xs \<noteq> [] \<Longrightarrow> tbl s r xs = None"
proof -
  have t: "tbl s r xs = (if xs = [] then Some r else None)" for xs
    using assms(3) by (cases xs) (auto simp: tbl_def)
  then show "xs \<noteq> [] \<Longrightarrow> tbl s r xs = None" by simp
  show "leaf s r la = 0" using t by (intro leaf_no_walk [OF refl]) simp
  have "mapped_at s r f = {}" for f using t by (auto simp: mapped_at_def)
  then show "pt_inv s r" using assms t by (auto simp: pt_inv_def pt_tree_def pt_refs_def split: if_splits)
qed

definition sample_kmem :: kmem where
  "sample_kmem = \<lparr>area = sample_area, phys = (\<lambda>_ _. 0), npage = nbase + 8\<rparr>"

text \<open>The entry 511 of \<open>boot_page_table_sv39\<close>, a huge page for all memory, which every directory holds.\<close>

definition boot_entry :: u64 where
  "boot_entry = push_bit 10 0x80000 OR 0xcf"

lemma boot_entry_valid: "pte_valid boot_entry" "entry_ppn boot_entry = nbase"
  by (simp_all add: boot_entry_def pte_valid_def PTE_V_def entry_ppn_def PTE_ADDR_def PPN_def nbase_def)

definition sample_dir :: kmem where
  "sample_dir = sample_kmem\<lparr>phys := (\<lambda>f i. if f = nbase + 3 \<and> i = 511 then boot_entry else 0)\<rparr>"

lemma sample_km_ok: "km_ok sample_kmem"
  using sample_ff_inv by (auto simp: sample_kmem_def km_ok_def nbase_def)

lemma sample_pt_inv: "pt_inv sample_dir (nbase + 3)" "leaf sample_dir (nbase + 3) la = 0"
  "ys \<noteq> [] \<Longrightarrow> tbl sample_dir (nbase + 3) ys = None"
proof -
  have "km_ok sample_dir" "frame_ok sample_dir (nbase + 3)"
    using sample_ff_inv by (auto simp: sample_dir_def sample_kmem_def km_ok_def frame_ok_def nbase_def)
  moreover have "\<not> pte_valid (phys sample_dir (nbase + 3) i)" if "i < 2" for i
    using that by (auto simp: sample_dir_def)
  ultimately show "pt_inv sample_dir (nbase + 3)" "leaf sample_dir (nbase + 3) la = 0"
    "ys \<noteq> [] \<Longrightarrow> tbl sample_dir (nbase + 3) ys = None"
    by (simp_all add: pt_inv_empty)
qed

theorem page_insert_correct_witness:
  "\<exists>ret s'. page_insert sample_dir (nbase + 3) 1 0x800000 PTE_R = Some (ret, s') \<and> pt_inv s' (nbase + 3)
    \<and> kernel_part s' (nbase + 3) 511 = boot_entry"
proof -
  have "\<forall>ys. length ys \<le> 2 \<longrightarrow> tbl sample_dir (nbase + 3) ys \<noteq> Some (page2ppn 1)"
  proof (intro allI impI)
    show "tbl sample_dir (nbase + 3) ys \<noteq> Some (page2ppn 1)" for ys
      using sample_pt_inv(3) [of ys] by (cases ys) (auto simp: page2ppn_def)
  qed
  moreover have "1 \<notin> free_set (area sample_dir)" "0 \<le> page_ref sample_dir 1"
    using sample_ff_inv(2) by (auto simp: sample_dir_def sample_kmem_def page_ref_def sample_area_def)
  moreover have "PTE_R < 1024" "(0x800000 :: u64) < USERTOP" by (simp_all add: PTE_R_def USERTOP_def)
  moreover have "kernel_part sample_dir (nbase + 3) 511 = boot_entry" by (simp add: kernel_part_def sample_dir_def)
  ultimately show ?thesis
    using page_insert_correct [OF sample_pt_inv(1), of "0x800000" 1 PTE_R] sample_pt_inv(2)
    by (auto simp: sample_dir_def sample_kmem_def)
qed

text \<open>A directory that maps one page of the program, at address \<open>0x800000\<close>, next to the kernel's entry.\<close>

definition sample_mapped :: kmem where
  "sample_mapped =
     \<lparr>area = upd_page 6 (\<lambda>g. g\<lparr>pg_ref := 2\<rparr>) sample_area,
      phys = (\<lambda>f i. if f = nbase + 3 \<and> i = 0 then pte_create (nbase + 4) PTE_U
                     else if f = nbase + 4 \<and> i = 4 then pte_create (nbase + 5) PTE_U
                     else if f = nbase + 5 \<and> i = 0 then pte_create (nbase + 6) PTE_U
                     else if f = nbase + 3 \<and> i = 511 then boot_entry else 0),
      npage = nbase + 8\<rparr>"

lemma sample_mapped_tbl:
  "tbl sample_mapped (nbase + 3) xs =
     map_of [([], nbase + 3), ([0], nbase + 4), ([0, 4], nbase + 5), ([0, 4, 0], nbase + 6)] xs"
proof -
  have e: "entry_ppn (pte_create (nbase + k) PTE_U) = nbase + k" if "k < 8" for k
    using that by (intro entry_ppn_create) (simp_all add: nbase_def PTE_U_def)
  have ph: "phys sample_mapped f i = (if f = nbase + 3 \<and> i = 0 then pte_create (nbase + 4) PTE_U
      else if f = nbase + 4 \<and> i = 4 then pte_create (nbase + 5) PTE_U
      else if f = nbase + 5 \<and> i = 0 then pte_create (nbase + 6) PTE_U
      else if f = nbase + 3 \<and> i = 511 then boot_entry else 0)" for f i
    by (simp add: sample_mapped_def)
  have z: "walk sample_mapped (nbase + 6) ys = (if ys = [] then Some (nbase + 6) else None)" for ys
    by (cases ys) (simp_all add: ph)
  have y: "walk sample_mapped (nbase + 5) ys = map_of [([], nbase + 5), ([0], nbase + 6)] ys" for ys
    using z by (cases ys) (auto simp: ph e)
  have x: "walk sample_mapped (nbase + 4) ys = map_of [([], nbase + 4), ([4], nbase + 5), ([4, 0], nbase + 6)] ys" for ys
    using y by (cases ys) (auto simp: ph e)
  show ?thesis using x by (cases xs) (auto simp: ph e tbl_def)
qed

theorem page_remove_correct_witness:
  "\<exists>s'. page_remove sample_mapped (nbase + 3) 0x800000 = Some s' \<and> leaf s' (nbase + 3) 0x800000 = 0
    \<and> page_ref s' 6 = 1"
proof -
  let ?s = sample_mapped and ?r = "nbase + 3"
  note tb = sample_mapped_tbl
  have ix: "PDX1 0x800000 = 0" "PDX0 0x800000 = 4" "PTX 0x800000 = 0"
    by (simp_all add: PDX1_def PDX0_def PTX_def)
  have fr: "free_set (area ?s) = {0, 2}" "ff_inv (area ?s)" using sample_ff_inv by (simp_all add: sample_mapped_def)
  have m: "mapped_at ?s ?r f = (if f = nbase + 6 then {[0, 4, 0]} else {})" for f
    by (auto simp: mapped_at_def tb split: if_splits)
  have ref: "page_ref ?s 6 = 2" by (simp add: sample_mapped_def page_ref_def)
  have "pt_tree ?s ?r"
    unfolding pt_tree_def tb using fr by (auto simp: frame_ok_def sample_mapped_def split: if_splits)
  moreover have "km_ok ?s" using fr by (auto simp: km_ok_def sample_mapped_def nbase_def)
  moreover have "pt_refs ?s ?r" using ref by (auto simp: pt_refs_def m)
  ultimately have inv: "pt_inv ?s ?r" by (simp add: pt_inv_def)
  have lf: "leaf ?s ?r 0x800000 = pte_create (nbase + 6) PTE_U"
    using tb [of "[0, 4]"] by (simp add: leaf_def ix sample_mapped_def)
  have "entry_ppn (pte_create (nbase + 6) PTE_U) = nbase + 6"
    by (intro entry_ppn_create) (simp_all add: nbase_def PTE_U_def)
  then have pg: "leaf_page ?s ?r 0x800000 = 6" by (simp add: leaf_page_def lf)
  show ?thesis
    using page_remove_correct [OF inv, of "0x800000"] ref by (auto simp: lf pg may_release_def same_page_def)
qed

end
