(* ===== verification/Kmalloc.thy ===== *)
theory Kmalloc
  imports PageTable
begin

text \<open>
  The SLOB allocator \<open>kern/mm/kmalloc.c\<close>. An address is the number of its 16-byte unit
  (\<open>SLOB_UNIT = sizeof(slob_t)\<close>), so \<open>m + 1\<close> on a \<open>slob_t *\<close> is \<open>m + 1\<close>, a page is 256 units and the
  kernel address of the frame \<open>f\<close> is \<open>256 * f\<close>; \<open>0\<close> is \<open>NULL\<close>. The two fields of a \<open>slob_t\<close> and the
  three of a \<open>bigblock_t\<close> are maps from addresses (a \<open>bigblock_t\<close> is written only between the moment
  \<open>slob_alloc\<close> returns it and \<open>slob_free\<close> gets it back, which rewrites \<open>units\<close> and \<open>next\<close> first).
  Every call passes \<open>align = 0\<close>, so \<open>delta\<close> is 0 and the branch that fragments the head is not taken.
\<close>

record slob =
  units :: "nat \<Rightarrow> int"
  snext :: "nat \<Rightarrow> nat"
  slobfree :: nat
  bb_order :: "nat \<Rightarrow> int"
  bb_pages :: "nat \<Rightarrow> nat"
  bb_next :: "nat \<Rightarrow> nat"
  bigblocks :: nat
  kmem :: kmem

definition SLOB_PAGE_SIZE :: nat where "SLOB_PAGE_SIZE = 4096"
definition SLOB_UNIT :: nat where "SLOB_UNIT = 16"
definition SLOB_UNITS :: "nat \<Rightarrow> int" where "SLOB_UNITS sz = int ((sz + SLOB_UNIT - 1) div SLOB_UNIT)"

definition slob_get_free_pages :: "slob \<Rightarrow> nat \<Rightarrow> (nat \<times> slob) option" where
  "slob_get_free_pages s order =
     do {
       (page, a) \<leftarrow> alloc_pages init_pmm_manager (area (kmem s)) (2 ^ order);
       let s = s\<lparr>kmem := (kmem s)\<lparr>area := a\<rparr>\<rparr>;
       case page of
         None \<Rightarrow> Some (0, s)
       | Some p \<Rightarrow> do { f \<leftarrow> page2kva (kmem s) p; Some (256 * f, s) }
     }"

text \<open>\<open>kva2page\<close>: the frame of the address, if it has a \<open>struct Page\<close>.\<close>

definition kva2page :: "slob \<Rightarrow> nat \<Rightarrow> nat option" where
  "kva2page s kva = (let f = kva div 256 in if f \<ge> npage (kmem s) \<or> f < nbase then None else Some (f - nbase))"

definition slob_free_pages :: "slob \<Rightarrow> nat \<Rightarrow> nat \<Rightarrow> slob option" where
  "slob_free_pages s kva order =
     do {
       p \<leftarrow> kva2page s kva;
       a \<leftarrow> free_pages init_pmm_manager (area (kmem s)) p (2 ^ order);
       Some (s\<lparr>kmem := (kmem s)\<lparr>area := a\<rparr>\<rparr>)
     }"

subsection \<open>Giving back a block\<close>

text \<open>The search for the reinsertion point.\<close>

definition slob_fits :: "slob \<Rightarrow> nat \<Rightarrow> nat \<Rightarrow> bool" where
  "slob_fits s b cur \<longleftrightarrow> b > cur \<and> b < snext s cur \<or> cur \<ge> snext s cur \<and> (b > cur \<or> b < snext s cur)"

partial_function (option) slob_find :: "slob \<Rightarrow> nat \<Rightarrow> nat \<Rightarrow> nat option" where
  "slob_find s b cur = (if slob_fits s b cur then Some cur else slob_find s b (snext s cur))"

definition slob_join :: "slob \<Rightarrow> nat \<Rightarrow> nat \<Rightarrow> slob" where
  "slob_join s b cur =
     (let s = (if int b + units s b = int (snext s cur)
               then s\<lparr>units := (units s)(b := units s b + units s (snext s cur)), snext := (snext s)(b := snext s (snext s cur))\<rparr>
               else s\<lparr>snext := (snext s)(b := snext s cur)\<rparr>);
          s = (if int cur + units s cur = int b
               then s\<lparr>units := (units s)(cur := units s cur + units s b), snext := (snext s)(cur := snext s b)\<rparr>
               else s\<lparr>snext := (snext s)(cur := b)\<rparr>)
      in s\<lparr>slobfree := cur\<rparr>)"

definition slob_free :: "slob \<Rightarrow> nat \<Rightarrow> nat \<Rightarrow> slob option" where
  "slob_free s b sz =
     (if b = 0 then Some s
      else do {
        let s = (if sz \<noteq> 0 then s\<lparr>units := (units s)(b := SLOB_UNITS sz)\<rparr> else s);
        cur \<leftarrow> slob_find s b (slobfree s);
        Some (slob_join s b cur)
      })"

subsection \<open>Allocation\<close>

definition slob_take :: "slob \<Rightarrow> nat \<Rightarrow> nat \<Rightarrow> int \<Rightarrow> slob" where
  "slob_take s prev cur n =
     (let s = (if units s cur = n then s\<lparr>snext := (snext s)(prev := snext s cur)\<rparr>
               else
                 let rest = cur + nat n;
                     s = s\<lparr>snext := (snext s)(prev := rest)\<rparr>;
                     s = s\<lparr>units := (units s)(rest := units s cur - n)\<rparr>;
                     s = s\<lparr>snext := (snext s)(rest := snext s cur)\<rparr>
                 in s\<lparr>units := (units s)(cur := n)\<rparr>)
      in s\<lparr>slobfree := prev\<rparr>)"

partial_function (option) slob_alloc_loop :: "slob \<Rightarrow> nat \<Rightarrow> int \<Rightarrow> nat \<Rightarrow> nat \<Rightarrow> (nat \<times> slob) option" where
  "slob_alloc_loop s sz n prev cur =
     (if units s cur \<ge> n then Some (cur, slob_take s prev cur n)
      else if cur = slobfree s then
        if sz = SLOB_PAGE_SIZE then Some (0, s)
        else do {
          r \<leftarrow> slob_get_free_pages s 0;
          if fst r = 0 then Some r
          else do {
            s \<leftarrow> slob_free (snd r) (fst r) SLOB_PAGE_SIZE;
            slob_alloc_loop s sz n (slobfree s) (snext s (slobfree s))
          }
        }
      else slob_alloc_loop s sz n cur (snext s cur))"

definition slob_alloc :: "slob \<Rightarrow> nat \<Rightarrow> (nat \<times> slob) option" where
  "slob_alloc s sz =
     do {
       assert_that (sz + SLOB_UNIT < SLOB_PAGE_SIZE);
       slob_alloc_loop s sz (SLOB_UNITS sz) (slobfree s) (snext s (slobfree s))
     }"

function find_order :: "nat \<Rightarrow> nat" where
  "find_order sz = (if sz > 4096 then find_order (sz div 2) + 1 else 0)"
  by pat_completeness auto
termination by (relation "measure id") auto

declare find_order.simps [simp del]

definition bigblock_size :: nat where "bigblock_size = 24"

definition kmalloc :: "slob \<Rightarrow> nat \<Rightarrow> (nat \<times> slob) option" where
  "kmalloc s sz =
     (if sz < SLOB_PAGE_SIZE - SLOB_UNIT then do {
        (m, s) \<leftarrow> slob_alloc s (sz + SLOB_UNIT);
        Some (if m \<noteq> 0 then m + 1 else 0, s)
      } else do {
        (bb, s) \<leftarrow> slob_alloc s bigblock_size;
        if bb = 0 then Some (0, s)
        else do {
          let s = s\<lparr>bb_order := (bb_order s)(bb := int (find_order sz))\<rparr>;
          (pgs, s) \<leftarrow> slob_get_free_pages s (find_order sz);
          let s = s\<lparr>bb_pages := (bb_pages s)(bb := pgs)\<rparr>;
          if pgs \<noteq> 0 then
            Some (pgs, s\<lparr>bb_next := (bb_next s)(bb := bigblocks s), bigblocks := bb\<rparr>)
          else do { s \<leftarrow> slob_free s bb bigblock_size; Some (0, s) }
        }
      })"

text \<open>The search of \<open>kfree\<close>: \<open>prv\<close> is the predecessor in the list, 0 for the head pointer.\<close>

partial_function (option) find_big :: "slob \<Rightarrow> nat \<Rightarrow> nat \<Rightarrow> nat \<Rightarrow> (nat \<times> nat) option option" where
  "find_big s block prv bb =
     (if bb = 0 then Some None
      else if bb_pages s bb = block then Some (Some (prv, bb))
      else find_big s block bb (bb_next s bb))"

definition kfree :: "slob \<Rightarrow> nat \<Rightarrow> slob option" where
  "kfree s block =
     (if block = 0 then Some s
      else do {
        r \<leftarrow> (if block mod 256 = 0 then find_big s block 0 (bigblocks s) else Some None);
        case r of
          Some (prv, bb) \<Rightarrow> do {
            let s = (if prv = 0 then s\<lparr>bigblocks := bb_next s bb\<rparr> else s\<lparr>bb_next := (bb_next s)(prv := bb_next s bb)\<rparr>);
            s \<leftarrow> slob_free_pages s block (nat (bb_order s bb));
            slob_free s bb bigblock_size
          }
        | None \<Rightarrow> slob_free s (block - 1) 0
      })"

definition ksize :: "slob \<Rightarrow> nat \<Rightarrow> nat option" where
  "ksize s block =
     (if block = 0 then Some 0
      else do {
        r \<leftarrow> (if block mod 256 = 0 then find_big s block 0 (bigblocks s) else Some None);
        Some (case r of
          Some (prv, bb) \<Rightarrow> SLOB_PAGE_SIZE * 2 ^ nat (bb_order s bb)
        | None \<Rightarrow> nat (units s (block - 1)) * SLOB_UNIT)
      })"

subsection \<open>Sizes\<close>

text \<open>
  A request of 4064 to 4079 bytes always panics the kernel: \<open>__kmalloc\<close> sends it to \<open>slob_alloc\<close>,
  whose assertion leaves no room for the header that \<open>__kmalloc\<close> has added.
\<close>

lemma kmalloc_panics:
  assumes "4064 \<le> sz" "sz < 4080"
  shows "kmalloc s sz = None"
  using assms by (simp add: kmalloc_def slob_alloc_def SLOB_PAGE_SIZE_def SLOB_UNIT_def)

lemma find_order_bounds: "sz < 4097 * 2 ^ find_order sz \<and> (0 < find_order sz \<longrightarrow> 2048 * 2 ^ find_order sz < sz)"
proof (induction sz rule: find_order.induct)
  case (1 sz)
  show ?case
  proof (cases "sz > 4096")
    case True
    then have IH: "sz div 2 < 4097 * 2 ^ find_order (sz div 2)"
      "0 < find_order (sz div 2) \<longrightarrow> 2048 * 2 ^ find_order (sz div 2) < sz div 2"
      using 1 by simp_all
    have "sz < 4097 * 2 ^ find_order (sz div 2) * 2" using IH(1) by linarith
    moreover have "2048 * 2 ^ find_order (sz div 2) * 2 < sz"
      using IH(2) True by (cases "find_order (sz div 2) = 0") auto
    ultimately show ?thesis using True by (simp add: find_order.simps [of sz] mult.commute)
  qed (simp add: find_order.simps [of sz])
qed

text \<open>
  The pages reserved for a large request: \<open>4096 * 2 ^ find_order sz\<close> bytes are less than twice the
  request, but the halving rounds down, so up to \<open>2 ^ find_order sz - 1\<close> bytes of the request may be missing.
\<close>

lemma find_order_short:
  "sz < 4096 * 2 ^ find_order sz + 2 ^ find_order sz \<and> (4096 < sz \<longrightarrow> 4096 * 2 ^ find_order sz < 2 * sz)
   \<and> 4096 * 2 ^ find_order 8193 < (8193 :: nat)"
proof (intro conjI impI)
  show "sz < 4096 * 2 ^ find_order sz + 2 ^ find_order sz" using find_order_bounds [of sz] by simp
  show "4096 * 2 ^ find_order sz < 2 * sz" if "4096 < sz"
    using find_order_bounds [of sz] that by (cases "find_order sz = 0") auto
  show "4096 * 2 ^ find_order 8193 < (8193 :: nat)" by (simp add: find_order.simps)
qed

subsection \<open>The ring of free blocks\<close>

text \<open>\<open>lpath nx xs z\<close>: every node of \<open>xs\<close> points to the one after it, the last one to \<open>z\<close>.\<close>

fun lpath :: "('a \<Rightarrow> 'a) \<Rightarrow> 'a list \<Rightarrow> 'a \<Rightarrow> bool" where
  "lpath nx [] z \<longleftrightarrow> True"
| "lpath nx (x # xs) z \<longleftrightarrow> nx x = hd (xs @ [z]) \<and> lpath nx xs z"

lemma lpath_append [simp]: "lpath nx (us @ vs) z \<longleftrightarrow> lpath nx us (hd (vs @ [z])) \<and> lpath nx vs z"
  by (induction us) (auto simp: hd_append)

lemma lpath_cong: "(\<And>x. x \<in> set xs \<Longrightarrow> nx' x = nx x) \<Longrightarrow> lpath nx' xs z = lpath nx xs z"
  by (induction xs) auto

text \<open>
  The free list in address order: \<open>A\<close> is the static block \<open>arena\<close>, of one unit, which is never handed
  out. No two blocks touch.
\<close>

definition ring :: "slob \<Rightarrow> nat \<Rightarrow> (nat \<times> nat) list \<Rightarrow> bool" where
  "ring s A bs \<longleftrightarrow> spaced True ((A, 1) # bs) \<and> lpath (snext s) (A # map fst bs) A
     \<and> (\<forall>(b, n) \<in> set ((A, 1) # bs). 0 < n \<and> units s b = int n)
     \<and> slobfree s \<in> set (A # map fst bs)"

lemma ring_distinct: "ring s A bs \<Longrightarrow> distinct (A # map fst bs)"
proof -
  have "spaced True cs \<Longrightarrow> distinct (map fst cs)" for cs :: "(nat \<times> nat) list"
    by (induction cs) fastforce+
  from this [of "(A, 1) # bs"] show "ring s A bs \<Longrightarrow> distinct (A # map fst bs)" by (simp add: ring_def)
qed

lemma ring_above: "ring s A bs \<Longrightarrow> (b, n) \<in> set bs \<Longrightarrow> A + 1 < b"
  by (auto simp: ring_def)

text \<open>Going round the ring from any of its nodes.\<close>

lemma lpath_rotate: "lpath nx (us @ x # vs) (hd (us @ x # vs)) \<Longrightarrow> lpath nx (vs @ us) x \<and> nx x = hd (vs @ us @ [x])"
  by (cases us; cases vs) (auto simp: hd_append)

lemma ring_rotate:
  assumes "ring s A bs" "c \<in> set (A # map fst bs)"
  shows "\<exists>rs. lpath (snext s) (c # rs) c \<and> set (c # rs) = set (A # map fst bs) \<and> c \<notin> set rs"
proof -
  obtain us vs where sp: "A # map fst bs = us @ c # vs" using split_list [OF assms(2)] by blast
  have "lpath (snext s) (us @ c # vs) (hd (us @ c # vs))"
    using assms(1) unfolding sp [symmetric] by (simp add: ring_def)
  from lpath_rotate [OF this] have "lpath (snext s) (c # vs @ us) c" by simp
  moreover have "c \<notin> set (vs @ us)" using ring_distinct [OF assms(1)] unfolding sp by auto
  moreover have "set (c # vs @ us) = set (A # map fst bs)" unfolding sp by auto
  ultimately show ?thesis by blast
qed

text \<open>The predecessor of a block.\<close>

lemma ring_pred:
  assumes "ring s A bs" "p \<in> set (A # map fst bs)" "snext s p = c" "(c, k) \<in> set bs"
  shows "\<exists>us vs. bs = us @ (c, k) # vs \<and> p = last (A # map fst us)"
proof -
  obtain us vs where sp: "A # map fst bs = us @ p # vs" using split_list [OF assms(2)] by blast
  have "lpath (snext s) (us @ p # vs) A" using assms(1) unfolding sp [symmetric] by (simp add: ring_def)
  then have c: "c = hd (vs @ [A])" using assms(3) by simp
  have "A < c" using ring_above [OF assms(1,4)] by simp
  then obtain vs' where vs: "vs = c # vs'" using c by (cases vs) auto
  obtain us' where us': "us @ [p] = A # us'" using sp by (cases us) auto
  have "A # map fst bs = (us @ [p]) @ c # vs'" using sp vs by simp
  then have bs: "map fst bs = us' @ c # vs'" unfolding us' by simp
  then have "\<exists>xs zs. bs = xs @ zs \<and> map fst xs = us' \<and> map fst zs = c # vs'"
    unfolding map_eq_append_conv by (elim exE conjE, intro exI conjI) (assumption, simp_all only:)
  then obtain xs zs where "bs = xs @ zs" "map fst xs = us'" "map fst zs = c # vs'" by iprover
  then obtain y ys where xy: "bs = xs @ y # ys" "map fst xs = us'" "fst y = c" by (cases zs) auto
  have "distinct (map fst bs)" using ring_distinct [OF assms(1)] by simp
  then have "y = (c, k)" using assms(4) xy by (metis eq_key_imp_eq_value in_set_conv_decomp prod.collapse)
  moreover have "p = last (A # map fst xs)" using us' xy(2) by (metis last_snoc)
  ultimately show ?thesis using xy(1) by blast
qed

subsection \<open>Reinsertion\<close>

lemma slob_find_scan:
  "lpath (snext s) (c # rs) z \<Longrightarrow> \<exists>x \<in> set (c # rs). slob_fits s b x \<Longrightarrow>
    \<exists>x \<in> set (c # rs). slob_find s b c = Some x \<and> slob_fits s b x"
proof (induction rs arbitrary: c)
  case Nil
  then show ?case by (subst slob_find.simps) simp
next
  case (Cons r rs)
  show ?case
  proof (cases "slob_fits s b c")
    case True
    then show ?thesis by (subst slob_find.simps) simp
  next
    case False
    have "snext s c = r" "lpath (snext s) (r # rs) z" using Cons.prems(1) by auto
    then show ?thesis using Cons.IH [of r] Cons.prems(2) False by (subst slob_find.simps) auto
  qed
qed

text \<open>The place found is the one between the neighbours of \<open>b\<close>.\<close>

lemma ring_next:
  assumes "ring s A bs" "(A, 1) # bs = us @ (x, k) # vs"
  shows "snext s x = fst (hd (vs @ [(A, 1)]))"
proof -
  have "lpath (snext s) (map fst (us @ (x, k) # vs)) A"
    using assms(1) unfolding assms(2) [symmetric] by (simp add: ring_def)
  then show ?thesis by (cases vs) auto
qed

lemma ring_fits:
  assumes r: "ring s A bs" and sp: "(A, 1) # bs = us @ (x, k) # vs" and b: "A < b" "b \<notin> set (map fst bs)"
  shows "slob_fits s b x \<longleftrightarrow> x < b \<and> (\<forall>(c, m) \<in> set vs. b < c)"
proof -
  have spc: "spaced True (us @ (x, k) # vs)" using r unfolding sp [symmetric] by (simp add: ring_def)
  have nx: "snext s x = fst (hd (vs @ [(A, 1)]))" by (rule ring_next [OF r sp])
  have Ax: "A \<le> x" using r sp by (cases us) (auto simp: ring_def)
  show ?thesis
  proof (cases vs)
    case Nil
    then show ?thesis using nx Ax b(1) by (auto simp: slob_fits_def)
  next
    case (Cons v ws)
    obtain c m where v: "v = (c, m)" by (cases v)
    have "x < c" "\<forall>(d, l) \<in> set ws. c < d" using spc Cons v by auto
    moreover have "b \<noteq> c" using b(2) sp Cons v by (cases us) auto
    moreover have "snext s x = c" using nx Cons v by simp
    ultimately show ?thesis using Cons v by (auto simp: slob_fits_def)
  qed
qed

lemma slob_find_correct:
  assumes "ring s A bs" "A < b" "b \<notin> set (map fst bs)"
  shows "\<exists>us x k vs. slob_find s b (slobfree s) = Some x \<and> (A, 1) # bs = us @ (x, k) # vs
    \<and> x < b \<and> (\<forall>(c, m) \<in> set vs. b < c)"
proof -
  define lo hi where "lo = takeWhile (\<lambda>(c, m). c < b) ((A, 1) # bs)" and "hi = dropWhile (\<lambda>(c, m). c < b) ((A, 1) # bs)"
  have dec: "(A, 1) # bs = lo @ hi" by (simp add: lo_def hi_def)
  have "lo \<noteq> []" using assms(2) by (simp add: lo_def)
  then obtain us y where lo: "lo = us @ [y]" by (metis append_butlast_last_id)
  obtain x k where y: "y = (x, k)" by (cases y)
  have "spaced True (lo @ hi)" unfolding dec [symmetric] using assms(1) unfolding ring_def by blast
  then have "\<forall>(c, m) \<in> set hi. b \<le> c"
    by (cases hi) (use hd_dropWhile [of "\<lambda>(c, m). c < b" "(A, 1) # bs"] in \<open>fastforce simp: hi_def\<close>)+
  moreover have "\<forall>(c, m) \<in> set hi. c \<noteq> b" using assms(3) dec \<open>lo \<noteq> []\<close> by (cases lo) force+
  ultimately have "\<forall>(c, m) \<in> set hi. b < c" by (fastforce simp: order_less_le)
  moreover have "x < b" using lo y unfolding lo_def by (metis (mono_tags, lifting) case_prodD in_set_conv_decomp set_takeWhileD)
  moreover have sp: "(A, 1) # bs = us @ (x, k) # hi" using dec lo y by simp
  ultimately have fx: "slob_fits s b x" using ring_fits [OF assms(1) sp assms(2,3)] by blast
  have xin: "x \<in> set (A # map fst bs)" using arg_cong [OF sp, of "\<lambda>l. set (map fst l)"] by auto
  have "slobfree s \<in> set (A # map fst bs)" using assms(1) by (simp add: ring_def)
  then obtain rs where rs: "lpath (snext s) (slobfree s # rs) (slobfree s)" "set (slobfree s # rs) = set (A # map fst bs)"
    using ring_rotate [OF assms(1)] by blast
  then obtain x' where x': "x' \<in> set (A # map fst bs)" "slob_find s b (slobfree s) = Some x'" "slob_fits s b x'"
    using slob_find_scan [OF rs(1), of b] fx xin by auto
  then have "x' \<in> set (map fst ((A, 1) # bs))" by simp
  then obtain k' where "(x', k') \<in> set ((A, 1) # bs)" unfolding set_map by (metis imageE prod.collapse)
  then obtain us' vs' where "(A, 1) # bs = us' @ (x', k') # vs'" by (metis split_list)
  then show ?thesis using x' ring_fits [OF assms(1) _ assms(2,3)] by blast
qed

text \<open>The two merges, on lists of blocks.\<close>

definition join_right :: "nat \<times> nat \<Rightarrow> (nat \<times> nat) list \<Rightarrow> (nat \<times> nat) list" where
  "join_right x vs = (case vs of [] \<Rightarrow> [x] | y # ws \<Rightarrow>
     if fst x + snd x = fst y then (fst x, snd x + snd y) # ws else x # vs)"

lemma join_right_cases:
  obtains "join_right (b, n) vs = (b, n) # vs" "\<And>y. y \<in> set (map fst (take 1 vs)) \<Longrightarrow> b + n \<noteq> y"
    | c m ws where "vs = (c, m) # ws" "b + n = c" "join_right (b, n) vs = (b, n + m) # ws"
  by (cases vs) (fastforce simp: join_right_def split: if_splits)+

lemma join_right_spec:
  assumes "spaced True vs" "\<forall>(c, m) \<in> set vs. b + n \<le> c \<and> 0 < m" "0 < n"
  shows "\<exists>n' ws. join_right (b, n) vs = (b, n') # ws \<and> n \<le> n' \<and> spaced True ((b, n') # ws)
    \<and> cover ((b, n') # ws) = {b..<b + n} \<union> cover vs \<and> set ws \<subseteq> set vs"
proof (cases rule: join_right_cases [of b n vs])
  case 1
  have "b + n < c" if "(c, m) \<in> set vs" for c m
  proof (cases vs)
    case (Cons v ws)
    obtain d l where v: "v = (d, l)" by (cases v)
    have "b + n < d" using 1(2) [of d] assms(2) Cons v by fastforce
    moreover have "d \<le> c" using that assms(1) Cons v by fastforce
    ultimately show ?thesis by simp
  qed (use that in simp)
  then show ?thesis using 1 assms by auto
next
  case (2 c m ws)
  have "b + (n + m) < d" if "(d, l) \<in> set ws" for d l using that assms(1) 2 by fastforce
  moreover have "{b..<b + (n + m)} = {b..<b + n} \<union> {c..<c + m}" using 2(2) by auto
  ultimately show ?thesis using 2 assms by auto
qed

lemma lpath_suffix: "lpath nx (us @ vs) z \<Longrightarrow> lpath nx vs z"
  by simp

lemma slob_join_lists:
  assumes r: "ring s A bs" and sp: "(A, 1) # bs = us @ (x, k) # vs" and x: "x < b" "\<forall>(c, m) \<in> set vs. b < c"
    and b: "A + 1 < b" "0 < n" "{b..<b + n} \<inter> cover ((A, 1) # bs) = {}" "units s b = int n"
  shows "\<exists>n' ws. join_right (b, n) vs = (b, n') # ws \<and> ring (slob_join s b x) A
    (tl (us @ (if x + k = b then (x, k + n') # ws else (x, k) # (b, n') # ws)))"
proof -
  have all: "spaced True (us @ (x, k) # vs)" "lpath (snext s) (map fst (us @ (x, k) # vs)) A"
    "\<forall>(b, n) \<in> set (us @ (x, k) # vs). 0 < n \<and> units s b = int n"
    using r unfolding sp [symmetric] ring_def by simp_all
  have "distinct (map fst ((A, 1) # bs))" using ring_distinct [OF r] by simp
  then have dist: "distinct (map fst us @ x # map fst vs)" unfolding sp by simp
  have bb: "b \<in> {b..<b + n}" using b(2) by simp
  have cov: "{b..<b + n} \<inter> ({x..<x + k} \<union> cover vs) = {}" "b \<notin> cover us"
    using b(3) bb unfolding sp cover_simps by blast+
  have xk: "x + k \<le> b" using cov(1) bb x(1) by (metis IntI Un_iff atLeastLessThan_iff emptyE less_imp_le_nat not_le)
  have vs: "\<forall>(c, m) \<in> set vs. b + n \<le> c \<and> 0 < m"
  proof (intro ballI, clarify)
    fix c m assume c: "(c, m) \<in> set vs"
    then have "b < c" "0 < m" using x(2) all(3) by auto
    moreover have "c \<in> cover vs" using c \<open>0 < m\<close> by (force simp: cover_def)
    then have "c \<notin> {b..<b + n}" using cov(1) by blast
    ultimately show "b + n \<le> c \<and> 0 < m" by auto
  qed
  have nb: "b \<notin> set (map fst us)" "b \<notin> set (map fst vs)"
  proof -
    show "b \<notin> set (map fst us)"
    proof
      assume "b \<in> set (map fst us)"
      then obtain l where "(b, l) \<in> set us" by auto
      then have "b < x" using all(1) by fastforce
      then show False using x(1) by simp
    qed
    show "b \<notin> set (map fst vs)" using x(2) by auto
  qed
  obtain n' ws where j: "join_right (b, n) vs = (b, n') # ws" "n \<le> n'" "spaced True ((b, n') # ws)"
    "cover ((b, n') # ws) = {b..<b + n} \<union> cover vs" "set ws \<subseteq> set vs"
    using join_right_spec [OF _ vs b(2)] all(1) by auto
  have nx: "snext s x = fst (hd (vs @ [(A, 1)]))" by (rule ring_next [OF r sp])
  have first: "int b + units s b = int (snext s x) \<longleftrightarrow> (\<exists>c m vs'. vs = (c, m) # vs' \<and> b + n = c)"
    using nx b by (cases vs) auto
  define s1 where "s1 = (if int b + units s b = int (snext s x)
               then s\<lparr>units := (units s)(b := units s b + units s (snext s x)), snext := (snext s)(b := snext s (snext s x))\<rparr>
               else s\<lparr>snext := (snext s)(b := snext s x)\<rparr>)"
  have s1: "units s1 b = int n' \<and> snext s1 b = hd (map fst ws @ [A]) \<and> lpath (snext s) (map fst ws) A"
  proof (cases rule: join_right_cases [of b n vs])
    case 1
    then have "n' = n" "ws = vs" using j(1) by simp_all
    moreover have "\<not> (\<exists>c m vs'. vs = (c, m) # vs' \<and> b + n = c)" using 1(2) by auto
    ultimately show ?thesis using first nx b(4) all(2) by (cases vs) (auto simp: s1_def)
  next
    case (2 c m vs')
    then have e: "n' = n + m" "ws = vs'" using j(1) by simp_all
    have "snext s x = c" using nx 2(1) by simp
    then show ?thesis using first 2 e b(4) all(2,3) by (auto simp: s1_def)
  qed
  have s1o: "units s1 y = units s y" "snext s1 y = snext s y" if "y \<noteq> b" for y using that by (auto simp: s1_def)
  let ?s = "slob_join s b x"
  let ?T = "us @ (if x + k = b then (x, k + n') # ws else (x, k) # (b, n') # ws)"
  have join: "?s = (if int x + units s1 x = int b
               then s1\<lparr>units := (units s1)(x := units s1 x + units s1 b), snext := (snext s1)(x := snext s1 b), slobfree := x\<rparr>
               else s1\<lparr>snext := (snext s1)(x := b), slobfree := x\<rparr>)"
    by (simp add: slob_join_def s1_def Let_def)
  have second: "int x + units s1 x = int b \<longleftrightarrow> x + k = b" using s1o(1) [of x] all(3) x(1) by auto
  have ux: "units s1 x = int k" using s1o(1) [of x] all(3) x(1) by simp
  have wsu: "units s1 c = int m \<and> 0 < m \<and> c \<noteq> x \<and> c \<noteq> b" if "(c, m) \<in> set ws" for c m
  proof -
    have "(c, m) \<in> set vs" using j(5) that by blast
    then show ?thesis using all(3) s1o(1) [of c] x dist vs by (fastforce simp: image_iff)
  qed
  have hdT: "\<exists>T'. ?T = (A, 1) # T'"
  proof (cases us)
    case Nil
    then have "x = A" "k = 1" using sp by simp_all
    then show ?thesis using Nil b(1) by simp
  qed (use sp in auto)
  then have T: "(A, 1) # tl ?T = ?T" by auto
  have spT: "spaced True ?T"
  proof -
    have "c + m < x" if "(c, m) \<in> set us" for c m using that all(1) by fastforce
    moreover have "x + k < c" if "(c, m) \<in> set ws" for c m using that j(5) all(1) by fastforce
    ultimately show ?thesis
      using all(1) j(3,5) xk by (auto split: if_splits; fastforce)
  qed
  have lp: "lpath (snext ?s) (map fst ?T) A"
  proof -
    have "lpath (snext ?s) (map fst us) x = lpath (snext s) (map fst us) x"
    proof (rule lpath_cong)
      fix y assume "y \<in> set (map fst us)"
      then have "y \<noteq> x \<and> y \<noteq> b" using dist nb by auto
      then show "snext ?s y = snext s y" using s1o by (simp add: join)
    qed
    moreover have "lpath (snext ?s) (map fst ws) A = lpath (snext s) (map fst ws) A"
    proof (rule lpath_cong)
      fix y assume "y \<in> set (map fst ws)"
      then obtain m where "(y, m) \<in> set ws" by auto
      then have "y \<noteq> x \<and> y \<noteq> b" using wsu by blast
      then show "snext ?s y = snext s y" using s1o by (simp add: join)
    qed
    ultimately show ?thesis using all(2) s1 second x(1) by (auto simp: join hd_append)
  qed
  have un: "\<forall>(c, m) \<in> set ?T. 0 < m \<and> units ?s c = int m"
  proof (intro ballI, clarify)
    fix c m assume c: "(c, m) \<in> set ?T"
    have "units ?s c = int m \<and> 0 < m" if "(c, m) \<in> set us"
    proof -
      have "c \<noteq> x" "c \<noteq> b" using that dist nb by (auto simp: image_iff)
      then show ?thesis using that all(3) s1o(1) [of c] by (fastforce simp: join)
    qed
    moreover have "units ?s c = int m \<and> 0 < m" if "(c, m) \<in> set ws"
      using wsu [OF that] by (simp add: join)
    moreover have "0 < k" using all(3) by auto
    ultimately show "0 < m \<and> units ?s c = int m"
      using c ux s1 second x(1) j(2) b(2) by (auto simp: join split: if_splits)
  qed
  have "slobfree ?s \<in> set (map fst ?T)" by (auto simp: join)
  then have "ring ?s A (tl ?T)"
    unfolding ring_def T using spT lp un arg_cong [OF T, of "map fst"] by simp
  then show ?thesis using j(1) by blast
qed

lemma slob_join_simps [simp]:
  "kmem (slob_join s b x) = kmem s" "bigblocks (slob_join s b x) = bigblocks s"
  "bb_order (slob_join s b x) = bb_order s" "bb_pages (slob_join s b x) = bb_pages s" "bb_next (slob_join s b x) = bb_next s"
  "y \<noteq> b \<Longrightarrow> y \<noteq> x \<Longrightarrow> units (slob_join s b x) y = units s y"
  by (simp_all add: slob_join_def Let_def)

lemma ring_cover: "ring s A bs \<Longrightarrow> A \<notin> cover bs \<and> fst ` set bs \<subseteq> cover bs"
proof
  assume r: "ring s A bs"
  show "A \<notin> cover bs" using ring_above [OF r] by (fastforce simp: cover_def)
  show "fst ` set bs \<subseteq> cover bs"
  proof
    fix c assume "c \<in> fst ` set bs"
    then obtain k where c: "(c, k) \<in> set bs" by auto
    then have "0 < k" using r by (auto simp: ring_def)
    then have "c \<in> {c..<c + k}" by simp
    then show "c \<in> cover bs" unfolding cover_def using c by blast
  qed
qed

lemma ring_cong:
  assumes "ring s A bs" "\<And>y. y \<in> set (A # map fst bs) \<Longrightarrow> units s' y = units s y" "snext s' = snext s" "slobfree s' = slobfree s"
  shows "ring s' A bs"
proof -
  have "\<forall>(b, n) \<in> set ((A, 1) # bs). 0 < n \<and> units s' b = int n"
  proof (intro ballI, clarify)
    fix b n assume b: "(b, n) \<in> set ((A, 1) # bs)"
    then have "b \<in> set (A # map fst bs)" by force
    then have "units s' b = units s b" by (rule assms(2))
    moreover have "0 < n \<and> units s b = int n" using assms(1) b unfolding ring_def by blast
    ultimately show "0 < n \<and> units s' b = int n" by simp
  qed
  then show ?thesis using assms(1,3,4) unfolding ring_def by simp
qed

lemma slob_free_correct:
  assumes r: "ring s A bs" and b: "A + 1 < b" "0 < n" "{b..<b + n} \<inter> cover bs = {}"
    and hdr: "(if sz \<noteq> 0 then SLOB_UNITS sz else units s b) = int n"
  shows "\<exists>s' bs'. slob_free s b sz = Some s' \<and> ring s' A bs' \<and> cover bs' = cover bs \<union> {b..<b + n}
    \<and> kmem s' = kmem s \<and> bigblocks s' = bigblocks s \<and> bb_order s' = bb_order s \<and> bb_pages s' = bb_pages s
    \<and> bb_next s' = bb_next s \<and> (\<forall>y. y \<notin> set (A # map fst bs) \<longrightarrow> y \<noteq> b \<longrightarrow> units s' y = units s y)"
proof -
  define s0 where "s0 = (if sz \<noteq> 0 then s\<lparr>units := (units s)(b := SLOB_UNITS sz)\<rparr> else s)"
  have bb: "b \<in> {b..<b + n}" using b(2) by simp
  have nb: "b \<notin> set (map fst bs)" using ring_cover [OF r] bb b(3) unfolding set_map by blast
  have r0: "ring s0 A bs" by (rule ring_cong [OF r]) (use nb b(1) in \<open>auto simp: s0_def\<close>)
  have u0: "units s0 b = int n" using hdr by (simp add: s0_def split: if_splits)
  obtain us x k vs where f: "slob_find s0 b (slobfree s0) = Some x" "(A, 1) # bs = us @ (x, k) # vs" "x < b"
    "\<forall>(c, m) \<in> set vs. b < c"
    using slob_find_correct [OF r0 _ nb] b(1) by (metis add_lessD1)
  have disj: "{b..<b + n} \<inter> cover ((A, 1) # bs) = {}" using b(1,3) unfolding cover_simps by auto
  obtain n' ws where j: "join_right (b, n) vs = (b, n') # ws"
    "ring (slob_join s0 b x) A (tl (us @ (if x + k = b then (x, k + n') # ws else (x, k) # (b, n') # ws)))"
    using slob_join_lists [OF r0 f(2-4) b(1,2) disj u0] by blast
  let ?T = "us @ (if x + k = b then (x, k + n') # ws else (x, k) # (b, n') # ws)"
  have all: "spaced True (us @ (x, k) # vs)" "\<forall>(c, m) \<in> set (us @ (x, k) # vs). 0 < m"
    using r unfolding f(2) [symmetric] ring_def by auto
  have vs: "\<forall>(c, m) \<in> set vs. b + n \<le> c \<and> 0 < m"
  proof (intro ballI, clarify)
    fix c m assume c: "(c, m) \<in> set vs"
    then have "b < c" "0 < m" using f(4) all(2) by auto
    moreover have "c \<in> cover (us @ (x, k) # vs)" using c \<open>0 < m\<close> by (force simp: cover_def)
    then have "c \<notin> {b..<b + n}" using disj f(2) by (metis IntI emptyE)
    ultimately show "b + n \<le> c \<and> 0 < m" by auto
  qed
  have "cover ((b, n') # ws) = {b..<b + n} \<union> cover vs"
    using join_right_spec [OF _ vs b(2)] all(1) j(1) by auto
  moreover have "{x..<x + (k + n')} = {x..<x + k} \<union> {b..<b + n'}" if "x + k = b" using that by auto
  ultimately have "cover ?T = cover (us @ (x, k) # vs) \<union> {b..<b + n}" by auto
  then have cT: "cover ?T = cover ((A, 1) # bs) \<union> {b..<b + n}" by (simp only: f(2))
  have "?T \<noteq> [] \<and> hd ?T = (A, 1)" using f(2) b(1) by (cases us) auto
  then have "?T = (A, 1) # tl ?T" by (metis list.collapse)
  then have "cover ?T = cover ((A, 1) # tl ?T)" by (rule arg_cong)
  then have "{A..<A + 1} \<union> cover (tl ?T) = {A..<A + 1} \<union> (cover bs \<union> {b..<b + n})"
    unfolding cT cover_simps(2) by blast
  moreover have "A \<notin> cover (tl ?T)" "A \<notin> cover bs \<union> {b..<b + n}"
    using ring_cover [OF j(2)] ring_cover [OF r] b(1) by simp_all
  moreover have "{A..<A + 1} = {A}" by auto
  ultimately have cov: "cover (tl ?T) = cover bs \<union> {b..<b + n}" by (metis insert_is_Un insert_ident)
  have run: "slob_free s b sz = Some (slob_join s0 b x)"
    using f(1) b(1) by (simp add: slob_free_def s0_def Let_def)
  have "x \<in> set (A # map fst bs)" using arg_cong [OF f(2), of "\<lambda>l. set (map fst l)"] by auto
  then have "units (slob_join s0 b x) y = units s y" if "y \<notin> set (A # map fst bs)" "y \<noteq> b" for y
    using that by (cases "y = x") (auto simp: s0_def)
  moreover have "kmem s0 = kmem s" "bigblocks s0 = bigblocks s" "bb_order s0 = bb_order s" "bb_pages s0 = bb_pages s"
    "bb_next s0 = bb_next s" by (simp_all add: s0_def)
  ultimately show ?thesis using run j(2) cov
    by (intro exI [of _ "slob_join s0 b x"] exI [of _ "tl ?T"]) simp
qed

subsection \<open>Allocation\<close>

lemma slob_take_correct:
  assumes r: "ring s A bs" and sp: "bs = us @ (c, k) # vs" and p: "p = last (A # map fst us)" and n: "0 < n" "n \<le> k"
  shows "ring (slob_take s p c (int n)) A (us @ (if n < k then [(c + n, k - n)] else []) @ vs)
    \<and> cover (us @ (if n < k then [(c + n, k - n)] else []) @ vs) = cover bs - {c..<c + n}
    \<and> units (slob_take s p c (int n)) c = int n"
proof -
  let ?s = "slob_take s p c (int n)" and ?mid = "if n < k then [(c + n, k - n)] else []"
  have all: "spaced True ((A, 1) # bs)" "lpath (snext s) (A # map fst bs) A"
    "\<forall>(b, n) \<in> set ((A, 1) # bs). 0 < n \<and> units s b = int n"
    using r by (simp_all add: ring_def)
  have d: "distinct (A # map fst us @ c # map fst vs)" using ring_distinct [OF r] unfolding sp by simp
  have uc: "units s c = int k" using all(3) sp by auto
  have pin: "p \<in> set (A # map fst us)" unfolding p by (rule last_in_set) simp
  then have pc: "p \<noteq> c" using d by auto
  have sn: "snext s c = hd (map fst vs @ [A])" using all(2) sp by (simp add: hd_append)
  have fresh: "c + n \<notin> set (A # map fst us @ c # map fst vs)" if "n < k"
  proof -
    have "\<forall>(x, y) \<in> set us. x < c" "\<forall>(x, y) \<in> set vs. c + k < x" "A < c" using all(1) sp by auto
    then show ?thesis using that n by fastforce
  qed
  have snx: "snext ?s = (if n < k then (snext s)(p := c + n, c + n := hd (map fst vs @ [A]))
      else (snext s)(p := hd (map fst vs @ [A])))"
    using n uc sn pc by (auto simp: slob_take_def Let_def)
  have un: "units ?s = (if n < k then (units s)(c + n := int (k - n), c := int n) else units s)"
    using n uc by (auto simp: slob_take_def Let_def of_nat_diff)
  have free: "slobfree ?s = p" by (simp add: slob_take_def Let_def)
  obtain ps where ps: "A # map fst us = ps @ [p]" using p by (metis append_butlast_last_id list.distinct(1))
  have lps: "lpath (snext s) ps p" "lpath (snext s) (map fst vs) A"
  proof -
    have "A # map fst bs = (ps @ [p]) @ c # map fst vs" using ps sp by simp
    then have "lpath (snext s) ((ps @ [p]) @ c # map fst vs) A" using all(2) by simp
    then show "lpath (snext s) ps p" "lpath (snext s) (map fst vs) A" by simp_all
  qed
  have dp: "p \<notin> set ps" "p \<notin> set (map fst vs)" using d ps by (metis append_Cons distinct_append distinct.simps(2)
        not_distinct_conv_prefix append.assoc append_Nil, use d pin in auto)
  have lp: "lpath (snext ?s) (A # map fst (us @ ?mid @ vs)) A"
  proof -
    have "lpath (snext ?s) ps p = lpath (snext s) ps p"
    proof (rule lpath_cong)
      fix y assume y: "y \<in> set ps"
      then have "y \<in> set (A # map fst us)" using ps by simp
      moreover have "c + n \<notin> set (A # map fst us)" if "n < k" using fresh [OF that] by simp
      ultimately have "y \<noteq> c + n" if "n < k" using that by metis
      then show "snext ?s y = snext s y" using y dp snx by auto
    qed
    moreover have "lpath (snext ?s) (map fst vs) A = lpath (snext s) (map fst vs) A"
    proof (rule lpath_cong)
      fix y assume y: "y \<in> set (map fst vs)"
      have "c + n \<notin> set (map fst vs)" if "n < k" using fresh [OF that] by simp
      then have "y \<noteq> c + n" if "n < k" using that y by metis
      then show "snext ?s y = snext s y" using y dp snx by auto
    qed
    moreover have "A # map fst (us @ ?mid @ vs) = ps @ p # map fst ?mid @ map fst vs" using ps by simp
    moreover have "p \<noteq> c + n" if "n < k" using fresh [OF that] pin by auto
    ultimately show ?thesis using lps by (cases "n < k") (simp_all only: lpath_append, auto simp: snx)
  qed
  have spc: "spaced True ((A, 1) # us @ ?mid @ vs)"
    using spaced_shrink [of True "(A, 1) # us" c k vs n] all(1) n sp by simp
  have unit: "\<forall>(b, m) \<in> set ((A, 1) # us @ ?mid @ vs). 0 < m \<and> units ?s b = int m"
  proof (intro ballI, clarify)
    fix b m assume b: "(b, m) \<in> set ((A, 1) # us @ ?mid @ vs)"
    show "0 < m \<and> units ?s b = int m"
    proof (cases "(b, m) \<in> set ((A, 1) # us @ vs)")
      case True
      then have "b \<in> set (A # map fst us @ map fst vs)" by force
      then have "b \<noteq> c" "n < k \<longrightarrow> b \<noteq> c + n" using d fresh by auto
      moreover have "0 < m \<and> units s b = int m" using True all(3) sp by fastforce
      ultimately show ?thesis by (simp add: un)
    qed (use b n un in \<open>auto split: if_splits\<close>)
  qed
  have "slobfree ?s \<in> set (A # map fst (us @ ?mid @ vs))" using free pin by auto
  then have "ring ?s A (us @ ?mid @ vs)" using spc lp unit unfolding ring_def by blast
  moreover have "cover (us @ ?mid @ vs) = cover bs - {c..<c + n}"
    unfolding sp by (rule cover_shrink) (use all(1) sp n spaced_weaken [of bs] in auto)
  moreover have "units ?s c = int n" using un uc n by auto
  ultimately show ?thesis by blast
qed

text \<open>
  The heap as a whole: \<open>L\<close> are the blocks in use, which are disjoint from each other and from the free
  ones; everything lies in pages that the page allocator has handed out.
\<close>

definition span :: "nat \<times> nat \<Rightarrow> nat set" where
  "span x = {fst x..<fst x + snd x}"

definition heap_ok :: "slob \<Rightarrow> nat \<Rightarrow> (nat \<times> nat) list \<Rightarrow> (nat \<times> nat) set \<Rightarrow> bool" where
  "heap_ok s A bs L \<longleftrightarrow> ring s A bs \<and> km_ok (kmem s) \<and> A + 1 < 256 * nbase
     \<and> (\<forall>x \<in> L. 0 < snd x \<and> units s (fst x) = int (snd x) \<and> span x \<inter> cover bs = {} \<and> A + 1 < fst x)
     \<and> (\<forall>x \<in> L. \<forall>y \<in> L. x \<noteq> y \<longrightarrow> span x \<inter> span y = {})
     \<and> (\<forall>u \<in> cover bs \<union> \<Union> (span ` L). frame_ok (kmem s) (u div 256))"

text \<open>
  The free list of a state is determined by it: \<open>free_units\<close> are the units of its blocks, the \<open>arena\<close> apart. \<open>page_units\<close>
  are the units of pages.
\<close>

definition free_units :: "nat \<Rightarrow> slob \<Rightarrow> nat set" where
  "free_units A s = {u. \<exists>bs. ring s A bs \<and> u \<in> cover bs}"

definition page_units :: "nat set \<Rightarrow> nat set" where
  "page_units Q = (\<Union>q \<in> Q. {256 * page2ppn q..<256 * page2ppn q + 256})"

lemma lpath_unique: "lpath nx (x # xs) z \<Longrightarrow> lpath nx (x # ys) z \<Longrightarrow> z \<notin> set xs \<Longrightarrow> z \<notin> set ys \<Longrightarrow> xs = ys"
proof (induction xs arbitrary: x ys)
  case Nil
  then show ?case by (cases ys) auto
next
  case (Cons w ws)
  then show ?case by (cases ys) auto
qed

lemma ring_unique:
  assumes "ring s A bs" "ring s A cs"
  shows "bs = cs"
proof -
  have m: "map fst bs = map fst cs"
    using assms ring_distinct [OF assms(1)] ring_distinct [OF assms(2)] by (intro lpath_unique [of "snext s" A _ A]) (auto simp: ring_def)
  have "map (\<lambda>b. (b, nat (units s b))) (map fst ds) = ds" if "ring s A ds" for ds
    unfolding map_map by (rule map_idI) (use that in \<open>auto simp: ring_def\<close>)
  then show ?thesis using assms m by metis
qed

lemma free_units_ring: "ring s A bs \<Longrightarrow> free_units A s = cover bs"
  unfolding free_units_def by (blast dest: ring_unique)

text \<open>The units of the block \<open>x\<close> are taken from the free ones and from pages that were free before.\<close>

definition pages_between :: "slob \<Rightarrow> slob \<Rightarrow> nat set" where
  "pages_between s s' = page_units (free_set (area (kmem s)) - free_set (area (kmem s')))"

definition units_taken :: "nat \<Rightarrow> slob \<Rightarrow> slob \<Rightarrow> nat \<times> nat \<Rightarrow> bool" where
  "units_taken A s s' x \<longleftrightarrow> span x \<subseteq> free_units A s \<union> pages_between s s'
     \<and> free_units A s' = free_units A s \<union> pages_between s s' - span x"

lemma pages_between_same: "kmem s' = kmem s \<Longrightarrow> pages_between s s' = {}"
  by (simp add: pages_between_def page_units_def)

definition slob_inv :: "slob \<Rightarrow> nat \<Rightarrow> (nat \<times> nat) set \<Rightarrow> bool" where
  "slob_inv s A L \<longleftrightarrow> (\<exists>bs. heap_ok s A bs L)"

text \<open>What an allocation does to memory: some free pages may be taken.\<close>

definition pages_taken :: "kmem \<Rightarrow> kmem \<Rightarrow> bool" where
  "pages_taken k k' \<longleftrightarrow> phys k' = phys k \<and> npage k' = npage k \<and> free_set (area k') \<subseteq> free_set (area k)"

lemma pages_taken_refl [simp]: "pages_taken k k" by (simp add: pages_taken_def)

lemma pages_taken_trans: "pages_taken k k1 \<Longrightarrow> pages_taken k1 k2 \<Longrightarrow> pages_taken k k2"
  by (auto simp: pages_taken_def)

definition slob_grow :: "slob \<Rightarrow> nat \<Rightarrow> int \<Rightarrow> (nat \<times> slob) option" where
  "slob_grow s sz n = (if sz = SLOB_PAGE_SIZE then Some (0, s)
        else do {
          r \<leftarrow> slob_get_free_pages s 0;
          if fst r = 0 then Some r
          else do {
            s \<leftarrow> slob_free (snd r) (fst r) SLOB_PAGE_SIZE;
            slob_alloc_loop s sz n (slobfree s) (snext s (slobfree s))
          }
        })"

lemma slob_scan:
  assumes "lpath (snext s) (p # rs @ [slobfree s]) z" "slobfree s \<notin> set rs"
  shows "(\<exists>p' c. p' \<in> set (p # rs) \<and> snext s p' = c \<and> c \<in> set (rs @ [slobfree s]) \<and> n \<le> units s c
      \<and> slob_alloc_loop s sz n p (snext s p) = Some (c, slob_take s p' c n))
    \<or> ((\<forall>c \<in> set (rs @ [slobfree s]). units s c < n) \<and> slob_alloc_loop s sz n p (snext s p) = slob_grow s sz n)"
  using assms
proof (induction rs arbitrary: p)
  case Nil
  then have "snext s p = slobfree s" by simp
  then show ?case by (subst (1 2) slob_alloc_loop.simps) (auto simp: slob_grow_def)
next
  case (Cons r rs)
  have r: "snext s p = r" "r \<noteq> slobfree s" using Cons.prems by auto
  show ?case
  proof (cases "n \<le> units s r")
    case True
    then show ?thesis using r by (subst (1 2) slob_alloc_loop.simps) auto
  next
    case False
    then have "slob_alloc_loop s sz n p (snext s p) = slob_alloc_loop s sz n r (snext s r)"
      using r by (subst slob_alloc_loop.simps) simp
    then show ?thesis using Cons.IH [of r] Cons.prems False by auto
  qed
qed

lemma slob_alloc_scan:
  assumes r: "ring s A bs"
  shows "(\<exists>p c. p \<in> set (A # map fst bs) \<and> snext s p = c \<and> c \<in> set (A # map fst bs) \<and> n \<le> units s c
      \<and> slob_alloc_loop s sz n (slobfree s) (snext s (slobfree s)) = Some (c, slob_take s p c n))
    \<or> ((\<forall>c \<in> set (A # map fst bs). units s c < n)
      \<and> slob_alloc_loop s sz n (slobfree s) (snext s (slobfree s)) = slob_grow s sz n)"
proof -
  have "slobfree s \<in> set (A # map fst bs)" using r by (simp add: ring_def)
  then obtain rs where rs: "lpath (snext s) (slobfree s # rs) (slobfree s)"
    "set (slobfree s # rs) = set (A # map fst bs)" "slobfree s \<notin> set rs"
    using ring_rotate [OF r] by blast
  have "lpath (snext s) (slobfree s # rs @ [slobfree s]) (snext s (slobfree s))"
    using rs(1) by (auto simp: hd_append)
  moreover have "set (rs @ [slobfree s]) = set (A # map fst bs)" using rs(2) by auto
  ultimately show ?thesis using slob_scan [of s "slobfree s" rs _ n sz] rs(2,3) by (simp only:) blast
qed

lemma slob_take_simps [simp]:
  "kmem (slob_take s p c n) = kmem s" "bigblocks (slob_take s p c n) = bigblocks s"
  "bb_order (slob_take s p c n) = bb_order s" "bb_pages (slob_take s p c n) = bb_pages s"
  "bb_next (slob_take s p c n) = bb_next s"
  by (simp_all add: slob_take_def Let_def)

lemma slob_take_units: "y \<noteq> c \<Longrightarrow> y \<noteq> c + nat n \<Longrightarrow> units (slob_take s p c n) y = units s y"
  by (simp add: slob_take_def Let_def)

text \<open>Taking \<open>n \<ge> 2\<close> units out of a block that has them.\<close>

lemma heap_take:
  assumes h: "heap_ok s A bs L" and p: "p \<in> set (A # map fst bs)" "snext s p = c" "c \<in> set (A # map fst bs)"
    and n: "2 \<le> n" "int n \<le> units s c"
  shows "slob_inv (slob_take s p c (int n)) A (insert (c, n) L) \<and> c \<noteq> 0 \<and> (\<forall>x \<in> L. span x \<inter> span (c, n) = {})
    \<and> units_taken A s (slob_take s p c (int n)) (c, n)"
proof -
  have r: "ring s A bs" using h by (simp add: heap_ok_def)
  have "units s A = 1" using r by (simp add: ring_def)
  then have "c \<noteq> A" using n by auto
  then obtain k where k: "(c, k) \<in> set bs" using p(3) by auto
  have "units s c = int k" using k r by (auto simp: ring_def)
  then have nk: "n \<le> k" using n by simp
  obtain us vs where sp: "bs = us @ (c, k) # vs" "p = last (A # map fst us)"
    using ring_pred [OF r p(1,2) k] by blast
  let ?bs = "us @ (if n < k then [(c + n, k - n)] else []) @ vs" and ?s = "slob_take s p c (int n)"
  have t: "ring ?s A ?bs" "cover ?bs = cover bs - {c..<c + n}" "units ?s c = int n"
    using slob_take_correct [OF r sp _ nk] n(1) by auto
  have ck: "{c..<c + k} \<subseteq> cover bs" using k unfolding cover_def by blast
  have cn: "span (c, n) \<subseteq> cover bs" by (rule order_trans [OF _ ck]) (simp add: span_def nk)
  have L: "x \<in> L \<Longrightarrow> span x \<inter> cover bs = {}" for x using h by (simp add: heap_ok_def)
  have d: "span x \<inter> span (c, n) = {}" if "x \<in> L" for x using L [OF that] cn by blast
  have un: "units ?s (fst x) = units s (fst x)" if "x \<in> L" for x
  proof -
    have "0 < snd x" using h that by (simp add: heap_ok_def)
    then have fx: "fst x \<in> span x" by (simp add: span_def)
    have "fst x \<noteq> c" using fx d [OF that] n(1) by (auto simp: span_def)
    moreover have "units ?s (fst x) = units s (fst x)" if "fst x = c + n"
    proof (cases "n < k")
      case True
      then have "c + n \<in> cover bs" using ck by auto
      then show ?thesis using fx L [OF \<open>x \<in> L\<close>] that by auto
    next
      case False
      then show ?thesis using nk \<open>units s c = int k\<close> that by (simp add: slob_take_def Let_def)
    qed
    ultimately show ?thesis
      using slob_take_units [of "fst x" c "int n" s p] by (cases "fst x = c + n") auto
  qed
  have Ac: "A + 1 < c" using ring_above [OF r k] .
  have "heap_ok ?s A ?bs (insert (c, n) L)"
    unfolding heap_ok_def
  proof (intro conjI ballI impI)
    show "ring ?s A ?bs" by (rule t(1))
    show "km_ok (kmem ?s)" "A + 1 < 256 * nbase" using h by (simp_all add: heap_ok_def)
    fix x assume x: "x \<in> insert (c, n) L"
    show "0 < snd x" using x n(1) h by (auto simp: heap_ok_def)
    show "units ?s (fst x) = int (snd x)" using x t(3) un h by (auto simp: heap_ok_def)
    have "span (c, n) = {c..<c + n}" by (simp add: span_def)
    then show "span x \<inter> cover ?bs = {}" using x L unfolding t(2) by blast
    show "A + 1 < fst x" using x Ac h by (auto simp: heap_ok_def)
    show "span x \<inter> span y = {}" if "y \<in> insert (c, n) L" "x \<noteq> y" for y
      using x that d h unfolding heap_ok_def by blast
  next
    fix u assume "u \<in> cover ?bs \<union> \<Union> (span ` insert (c, n) L)"
    then have "u \<in> cover bs \<union> \<Union> (span ` L)" unfolding t(2) using cn by blast
    then show "frame_ok (kmem ?s) (u div 256)" using h by (simp add: heap_ok_def)
  qed
  moreover have "units_taken A s ?s (c, n)"
    using cn t(2) free_units_ring [OF r] free_units_ring [OF t(1)]
    by (simp add: units_taken_def pages_between_same) (simp add: span_def)
  ultimately show ?thesis using d Ac unfolding slob_inv_def by auto
qed

lemma get_free_page_eq:
  "slob_get_free_pages s 0 = do { (r, k) \<leftarrow> alloc_page (kmem s);
     case r of None \<Rightarrow> Some (0, s\<lparr>kmem := k\<rparr>)
     | Some p \<Rightarrow> do { f \<leftarrow> page2kva k p; Some (256 * f, s\<lparr>kmem := k\<rparr>) } }"
  by (cases "alloc_pages init_pmm_manager (area (kmem s)) 1")
    (auto simp: slob_get_free_pages_def alloc_page_def split: option.splits)

text \<open>Growing the heap by a page and taking the request from it.\<close>

lemma heap_grow:
  assumes h: "heap_ok s A bs L" and n: "2 \<le> n" "n \<le> 256" and sz: "sz \<noteq> SLOB_PAGE_SIZE"
  shows "\<exists>c s'. slob_grow s sz (int n) = Some (c, s') \<and> bigblocks s' = bigblocks s \<and> pages_taken (kmem s) (kmem s')
    \<and> (c = 0 \<and> s' = s \<and> free_set (area (kmem s)) = {}
      \<or> c \<noteq> 0 \<and> slob_inv s' A (insert (c, n) L) \<and> (\<forall>x \<in> L. span x \<inter> span (c, n) = {}) \<and> units_taken A s s' (c, n))"
proof -
  have r: "ring s A bs" and km: "km_ok (kmem s)" using h by (simp_all add: heap_ok_def)
  obtain o' k where a: "alloc_page (kmem s) = Some (o', k)" "ff_inv (area k)" "phys k = phys (kmem s)"
    "npage k = npage (kmem s)"
    "case o' of None \<Rightarrow> k = kmem s \<and> free_set (area (kmem s)) = {}
       | Some p \<Rightarrow> p \<in> free_set (area (kmem s)) \<and> free_set (area k) = free_set (area (kmem s)) - {p}"
    using alloc_page_spec [of "kmem s"] km unfolding km_ok_def by blast
  show ?thesis
  proof (cases o')
    case None
    then show ?thesis using a sz by (simp add: slob_grow_def get_free_page_eq)
  next
    case (Some p)
    then have p: "p \<in> free_set (area (kmem s))" "free_set (area k) = free_set (area (kmem s)) - {p}" using a by simp_all
    let ?f = "page2ppn p"
    have f: "?f < npage k" "nbase \<le> ?f" "npage k \<le> 2 ^ 52" using km p(1) a(4) by (auto simp: km_ok_def page2ppn_def)
    then have kva: "page2kva k p = Some ?f"
      unfolding page2kva_def by (intro KADDR_page2pa64) (simp_all add: page2ppn_def)
    define s1 where "s1 = s\<lparr>kmem := k\<rparr>"
    have get: "slob_get_free_pages s 0 = Some (256 * ?f, s1)"
      using a(1) Some kva by (simp add: get_free_page_eq s1_def)
    have nz: "256 * ?f \<noteq> 0" using f(2) by (simp add: nbase_def)
    have r1: "ring s1 A bs" by (rule ring_cong [OF r]) (simp_all add: s1_def)
    have An: "A + 1 < 256 * ?f" using h f(2) by (simp add: heap_ok_def)
    have ok: "frame_ok (kmem s) (u div 256)" if "u \<in> cover bs \<union> \<Union> (span ` L)" for u
      using h that by (simp add: heap_ok_def)
    have nf: "\<not> frame_ok (kmem s) ?f" using p(1) by (simp add: frame_ok_def page2ppn_def)
    have pgu: "u div 256 = ?f" if "u \<in> {256 * ?f..<256 * ?f + 256}" for u using that by auto
    have dis: "{256 * ?f..<256 * ?f + 256} \<inter> (cover bs \<union> \<Union> (span ` L)) = {}"
      using ok nf pgu by (metis (no_types, lifting) disjoint_iff)
    have d1: "{256 * ?f..<256 * ?f + 256} \<inter> cover bs = {}" using dis by blast
    have su: "(if SLOB_PAGE_SIZE \<noteq> 0 then SLOB_UNITS SLOB_PAGE_SIZE else units s1 (256 * ?f)) = int 256"
      by (simp add: SLOB_UNITS_def SLOB_PAGE_SIZE_def SLOB_UNIT_def)
    obtain s2 bs2 where s2: "slob_free s1 (256 * ?f) SLOB_PAGE_SIZE = Some s2" "ring s2 A bs2"
      "cover bs2 = cover bs \<union> {256 * ?f..<256 * ?f + 256}" "kmem s2 = kmem s1" "bigblocks s2 = bigblocks s1"
      "\<forall>y. y \<notin> set (A # map fst bs) \<longrightarrow> y \<noteq> 256 * ?f \<longrightarrow> units s2 y = units s1 y"
      using slob_free_correct [OF r1 An _ d1 su] by auto
    have L: "0 < snd x \<and> units s (fst x) = int (snd x) \<and> span x \<inter> cover bs = {} \<and> A + 1 < fst x" if "x \<in> L" for x
      using h that by (simp add: heap_ok_def)
    have keep: "units s2 (fst x) = int (snd x)" if "x \<in> L" for x
    proof -
      have fx: "fst x \<in> span x" using L [OF that] by (simp add: span_def)
      have "fst x \<notin> set (A # map fst bs)" using L [OF that] fx ring_cover [OF r] by auto
      moreover have "fst x \<noteq> 256 * ?f" using fx that dis by fastforce
      ultimately show ?thesis using s2(6) L [OF that] by (simp add: s1_def)
    qed
    have ok2: "frame_ok k u" if "frame_ok (kmem s) u" for u using that a(4) p(2) by (simp add: frame_ok_def)
    have okf: "frame_ok k ?f" using f p(2) by (simp add: frame_ok_def page2ppn_def)
    have km2: "km_ok k" using km a p(2) by (auto simp: km_ok_def)
    have h2: "heap_ok s2 A bs2 L"
      unfolding heap_ok_def
    proof (intro conjI ballI impI)
      show "km_ok (kmem s2)" "A + 1 < 256 * nbase" using s2(4) km2 h by (simp_all add: s1_def heap_ok_def)
      fix x assume x: "x \<in> L"
      show "span x \<inter> cover bs2 = {}" using L [OF x] dis x unfolding s2(3) by blast
      show "span x \<inter> span y = {}" if "y \<in> L" "x \<noteq> y" for y using x that h by (simp add: heap_ok_def)
    next
      fix u assume "u \<in> cover bs2 \<union> \<Union> (span ` L)"
      then have "u \<in> cover bs \<union> \<Union> (span ` L) \<or> u div 256 = ?f" unfolding s2(3) using pgu by blast
      then show "frame_ok (kmem s2) (u div 256)" using ok ok2 okf s2(4) by (auto simp: s1_def)
    qed (use s2(2) keep L in auto)
    have grow: "slob_grow s sz (int n) = slob_alloc_loop s2 sz (int n) (slobfree s2) (snext s2 (slobfree s2))"
      using get nz s2(1) sz by (simp add: slob_grow_def)
    have "spaced True bs2" using s2(2) by (simp add: ring_def)
    then obtain c m where "(c, m) \<in> set bs2" "256 \<le> m"
      using cover_run [of bs2 "256 * ?f" 256] s2(3) by auto
    then have "\<not> units s2 c < int n" "c \<in> set (A # map fst bs2)" using s2(2) n(2) by (force simp: ring_def)+
    then obtain q c where q: "q \<in> set (A # map fst bs2)" "snext s2 q = c" "c \<in> set (A # map fst bs2)" "int n \<le> units s2 c"
      "slob_alloc_loop s2 sz (int n) (slobfree s2) (snext s2 (slobfree s2)) = Some (c, slob_take s2 q c (int n))"
      using slob_alloc_scan [OF s2(2), of "int n" sz] by blast
    moreover have "pages_taken (kmem s) (kmem s2)" using a(3,4) p(2) s2(4) by (auto simp: pages_taken_def s1_def)
    moreover have "units_taken A s (slob_take s2 q c (int n)) (c, n)"
    proof -
      have "units_taken A s2 (slob_take s2 q c (int n)) (c, n)" using heap_take [OF h2 q(1-3) n(1) q(4)] by blast
      moreover have "free_set (area (kmem s)) - free_set (area (kmem (slob_take s2 q c (int n)))) = {p}"
        using p s2(4) by (auto simp: s1_def)
      then have "pages_between s (slob_take s2 q c (int n)) = {256 * ?f..<256 * ?f + 256}"
        by (simp add: pages_between_def page_units_def)
      moreover have "free_units A s2 = free_units A s \<union> {256 * ?f..<256 * ?f + 256}"
        using s2(3) free_units_ring [OF r] free_units_ring [OF s2(2)] by simp
      ultimately show ?thesis by (simp add: units_taken_def pages_between_same)
    qed
    ultimately show ?thesis using heap_take [OF h2 q(1-3) n(1) q(4)] grow s2(5) by (simp add: s1_def)
  qed
qed

lemma slob_alloc_correct:
  assumes "slob_inv s A L" "2 \<le> SLOB_UNITS sz" "sz < 4080"
  shows "\<exists>c s'. slob_alloc s sz = Some (c, s') \<and> bigblocks s' = bigblocks s \<and> pages_taken (kmem s) (kmem s')
    \<and> (c = 0 \<and> s' = s \<and> free_set (area (kmem s)) = {}
      \<or> c \<noteq> 0 \<and> slob_inv s' A (insert (c, nat (SLOB_UNITS sz)) L)
          \<and> (\<forall>x \<in> L. span x \<inter> span (c, nat (SLOB_UNITS sz)) = {}) \<and> units_taken A s s' (c, nat (SLOB_UNITS sz)))"
proof -
  obtain bs where h: "heap_ok s A bs L" using assms(1) by (auto simp: slob_inv_def)
  have r: "ring s A bs" using h by (simp add: heap_ok_def)
  define n where "n = nat (SLOB_UNITS sz)"
  have n: "2 \<le> n" "n \<le> 256" "SLOB_UNITS sz = int n" "sz \<noteq> SLOB_PAGE_SIZE"
    using assms(2,3) by (auto simp: n_def SLOB_UNITS_def SLOB_UNIT_def SLOB_PAGE_SIZE_def)
  have run: "slob_alloc s sz = slob_alloc_loop s sz (int n) (slobfree s) (snext s (slobfree s))"
    using assms(3) n(3) by (simp add: slob_alloc_def SLOB_UNIT_def SLOB_PAGE_SIZE_def)
  consider (found) p c where "p \<in> set (A # map fst bs)" "snext s p = c" "c \<in> set (A # map fst bs)" "int n \<le> units s c"
      "slob_alloc s sz = Some (c, slob_take s p c (int n))"
    | (grow) "slob_alloc s sz = slob_grow s sz (int n)"
    using slob_alloc_scan [OF r, of "int n" sz] run by auto
  then show ?thesis
  proof cases
    case found
    then show ?thesis using heap_take [OF h found(1-3) n(1) found(4)] by (simp add: n_def)
  next
    case grow
    then show ?thesis using heap_grow [OF h n(1,2,4)] by (simp add: n_def)
  qed
qed

lemma heap_free:
  assumes "slob_inv s A L" "x \<in> L" "sz = 0 \<or> SLOB_UNITS sz = int (snd x)"
  shows "\<exists>s'. slob_free s (fst x) sz = Some s' \<and> slob_inv s' A (L - {x}) \<and> bigblocks s' = bigblocks s
    \<and> kmem s' = kmem s \<and> free_units A s' = free_units A s \<union> span x"
proof -
  obtain bs where h: "heap_ok s A bs L" using assms(1) by (auto simp: slob_inv_def)
  have r: "ring s A bs" using h by (simp add: heap_ok_def)
  have L: "0 < snd x \<and> units s (fst x) = int (snd x) \<and> span x \<inter> cover bs = {} \<and> A + 1 < fst x" if "x \<in> L" for x
    using h that by (simp add: heap_ok_def)
  have hdr: "(if sz \<noteq> 0 then SLOB_UNITS sz else units s (fst x)) = int (snd x)" using L [OF assms(2)] assms(3) by auto
  obtain s' bs' where s': "slob_free s (fst x) sz = Some s'" "ring s' A bs'" "cover bs' = cover bs \<union> span x"
    "kmem s' = kmem s" "bigblocks s' = bigblocks s"
    "\<forall>y. y \<notin> set (A # map fst bs) \<longrightarrow> y \<noteq> fst x \<longrightarrow> units s' y = units s y"
    using slob_free_correct [OF r _ _ _ hdr] L [OF assms(2)] by (auto simp: span_def)
  have pair: "span x \<inter> span y = {}" if "x \<in> L" "y \<in> L" "x \<noteq> y" for x y using h that unfolding heap_ok_def by blast
  have keep: "units s' (fst y) = int (snd y)" if y: "y \<in> L - {x}" for y
  proof -
    have fy: "fst y \<in> span y" using L y by (simp add: span_def)
    have "fst y \<notin> set (A # map fst bs)" using L [of y] y fy ring_cover [OF r] by auto
    moreover have "fst x \<in> span x" using L assms(2) by (simp add: span_def)
    then have "fst y \<noteq> fst x" using fy pair [of x y] y assms(2) by (metis DiffD1 DiffD2 IntI emptyE singletonI)
    ultimately show ?thesis using s'(6) L y by simp
  qed
  have "heap_ok s' A bs' (L - {x})"
    unfolding heap_ok_def
  proof (intro conjI ballI impI)
    show "ring s' A bs'" by (rule s'(2))
    show "km_ok (kmem s')" "A + 1 < 256 * nbase" using h s'(4) by (simp_all add: heap_ok_def)
    fix y assume y: "y \<in> L - {x}"
    show "units s' (fst y) = int (snd y)" by (rule keep [OF y])
    show "0 < snd y" "A + 1 < fst y" using L y by simp_all
    show "span y \<inter> cover bs' = {}" using L [of y] y pair [of x y] assms(2) unfolding s'(3) by blast
    show "span y \<inter> span z = {}" if "z \<in> L - {x}" "y \<noteq> z" for z using pair y that by blast
  next
    fix u assume "u \<in> cover bs' \<union> \<Union> (span ` (L - {x}))"
    then have "u \<in> cover bs \<union> \<Union> (span ` L)" unfolding s'(3) using assms(2) by blast
    then show "frame_ok (kmem s') (u div 256)" using h s'(4) by (simp add: heap_ok_def)
  qed
  moreover have "free_units A s' = free_units A s \<union> span x"
    using s'(3) free_units_ring [OF r] free_units_ring [OF s'(2)] by simp
  ultimately show ?thesis using s'(1,4,5) by (auto simp: slob_inv_def)
qed

subsection \<open>The contract of the heap\<close>

text \<open>
  What the clients of \<open>kmalloc\<close> rely on: objects \<open>objs\<close> in use do not overlap, a new object overlaps none of them, and a
  freed one is gone. Memory is not lost: \<open>avail\<close> is the free memory of the heap, \<open>fresh h h'\<close> the memory that it got
  between \<open>h\<close> and \<open>h'\<close>, and \<open>ext\<close> the memory of an object.
\<close>

locale object_heap =
  fixes malloc :: "'h \<Rightarrow> nat \<Rightarrow> (nat \<times> 'h) option" and dispose :: "'h \<Rightarrow> nat \<Rightarrow> 'h option"
    and ok :: "'h \<Rightarrow> nat set \<Rightarrow> bool" and accepts :: "nat \<Rightarrow> bool"
    and avail :: "'h \<Rightarrow> 'u set" and fresh :: "'h \<Rightarrow> 'h \<Rightarrow> 'u set" and ext :: "'h \<Rightarrow> nat \<Rightarrow> 'u set"
  assumes malloc_law: "ok h O1 \<Longrightarrow> accepts n \<Longrightarrow> \<exists>p h'. malloc h n = Some (p, h') \<and>
      (if p = 0 then ok h' O1
       else p \<notin> O1 \<and> ok h' (insert p O1) \<and> ext h' p \<subseteq> avail h \<union> fresh h h' \<and> avail h' = avail h \<union> fresh h h' - ext h' p)"
    and dispose_law: "ok h O1 \<Longrightarrow> p \<in> O1 \<Longrightarrow> \<exists>h'. dispose h p = Some h' \<and> ok h' (O1 - {p})
      \<and> avail h' = avail h \<union> ext h p \<and> (\<forall>g. fresh g h' = fresh g h)"

context object_heap begin

lemma malloc_distinct:
  assumes "ok h O1" "accepts n" "accepts k" "malloc h n = Some (p, h1)" "malloc h1 k = Some (q, h2)" "p \<noteq> 0" "q \<noteq> 0"
  shows "p \<noteq> q"
proof -
  have "ok h1 (insert p O1)" using malloc_law [OF assms(1,2)] assms(4,6) by auto
  then show ?thesis using malloc_law [of h1 "insert p O1" k] assms(3,5,7) by auto
qed

lemma malloc_dispose:
  assumes "ok h O1" "accepts n" "malloc h n = Some (p, h1)" "p \<noteq> 0"
  shows "\<exists>h2. dispose h1 p = Some h2 \<and> ok h2 O1 \<and> avail h2 = avail h \<union> fresh h h2
    \<and> ext h1 p \<subseteq> avail h2 \<and> avail h1 = avail h2 - ext h1 p"
proof -
  have m: "p \<notin> O1" "ok h1 (insert p O1)" "ext h1 p \<subseteq> avail h \<union> fresh h h1" "avail h1 = avail h \<union> fresh h h1 - ext h1 p"
    using malloc_law [OF assms(1,2)] assms(3,4) by auto
  obtain h2 where "dispose h1 p = Some h2" "ok h2 O1" "avail h2 = avail h1 \<union> ext h1 p" "\<forall>g. fresh g h2 = fresh g h1"
    using dispose_law [OF m(2), of p] m(1) by auto
  then show ?thesis using m(3,4) by (intro exI [of _ h2]) auto
qed

end

text \<open>An object is the address after the header of a block in use; there are no big blocks.\<close>

definition heap_objs :: "nat \<Rightarrow> slob \<Rightarrow> nat set \<Rightarrow> bool" where
  "heap_objs A s P \<longleftrightarrow> (\<exists>L. slob_inv s A L \<and> bigblocks s = 0 \<and> P = (\<lambda>x. fst x + 1) ` L)"

definition object_units :: "slob \<Rightarrow> nat \<Rightarrow> nat set" where
  "object_units s p = span (p - 1, nat (units s (p - 1)))"

lemma find_big_none: "bigblocks s = 0 \<Longrightarrow> find_big s block 0 (bigblocks s) = Some None"
  by (subst find_big.simps) simp

lemma live_inj: "slob_inv s A L \<Longrightarrow> inj_on fst L"
proof
  fix x y assume h: "slob_inv s A L" and x: "x \<in> L" and y: "y \<in> L" and e: "fst x = fst y"
  obtain bs where b: "heap_ok s A bs L" using h by (auto simp: slob_inv_def)
  have "0 < snd x" "0 < snd y" using b x y by (simp_all add: heap_ok_def)
  then have "fst x \<in> span x \<inter> span y" using e by (simp add: span_def)
  then show "x = y" using b x y unfolding heap_ok_def by blast
qed

lemma SLOB_UNITS_small: "0 < n \<Longrightarrow> 2 \<le> SLOB_UNITS (n + SLOB_UNIT)"
  by (simp add: SLOB_UNITS_def SLOB_UNIT_def)

interpretation slob: object_heap kmalloc kfree "heap_objs A" "\<lambda>n. 0 < n \<and> n < 4064" "free_units A" pages_between object_units
  for A
proof
  fix s P n assume "heap_objs A s P" and n: "0 < n \<and> n < (4064 :: nat)"
  then obtain L where L: "slob_inv s A L" "bigblocks s = 0" "P = (\<lambda>x. fst x + 1) ` L" by (auto simp: heap_objs_def)
  let ?n = "nat (SLOB_UNITS (n + SLOB_UNIT))"
  obtain c s' where c: "slob_alloc s (n + SLOB_UNIT) = Some (c, s')" "bigblocks s' = bigblocks s"
    "c = 0 \<and> s' = s \<or> c \<noteq> 0 \<and> slob_inv s' A (insert (c, ?n) L) \<and> (\<forall>x \<in> L. span x \<inter> span (c, ?n) = {}) \<and> units_taken A s s' (c, ?n)"
    using slob_alloc_correct [OF L(1) SLOB_UNITS_small [of n]] n by (auto simp: SLOB_UNIT_def)
  have run: "kmalloc s n = Some (if c \<noteq> 0 then c + 1 else 0, s')"
    using n c(1) by (simp add: kmalloc_def SLOB_PAGE_SIZE_def SLOB_UNIT_def)
  show "\<exists>p h'. kmalloc s n = Some (p, h') \<and> (if p = 0 then heap_objs A h' P
    else p \<notin> P \<and> heap_objs A h' (insert p P) \<and> object_units h' p \<subseteq> free_units A s \<union> pages_between s h'
      \<and> free_units A h' = free_units A s \<union> pages_between s h' - object_units h' p)"
  proof (cases "c = 0")
    case True
    then show ?thesis using run c L by (auto simp: heap_objs_def)
  next
    case False
    then have i: "slob_inv s' A (insert (c, ?n) L)" and d: "\<forall>x \<in> L. span x \<inter> span (c, ?n) = {}" using c(3) by auto
    have "c \<notin> fst ` L"
    proof
      assume "c \<in> fst ` L"
      then obtain x where x: "x \<in> L" "fst x = c" by auto
      obtain bs where "heap_ok s A bs L" using L(1) by (auto simp: slob_inv_def)
      then have "0 < snd x" using x by (simp add: heap_ok_def)
      then have "c \<in> span x \<inter> span (c, ?n)"
        using x SLOB_UNITS_small [of n] n by (simp add: span_def)
      then show False using d x(1) by blast
    qed
    then have "c + 1 \<notin> P" unfolding L(3) by auto
    moreover have "heap_objs A s' (insert (c + 1) P)"
      unfolding heap_objs_def using i c(2) L(2,3) by (intro exI [of _ "insert (c, ?n) L"]) simp
    moreover have "units s' c = int ?n" using i by (auto simp: slob_inv_def heap_ok_def)
    then have "object_units s' (c + 1) = span (c, ?n)" by (simp add: object_units_def)
    ultimately show ?thesis using run False c(3) by (simp add: units_taken_def)
  qed
next
  fix s P p assume "heap_objs A s P" and p: "p \<in> P"
  then obtain L where L: "slob_inv s A L" "bigblocks s = 0" "P = (\<lambda>x. fst x + 1) ` L" by (auto simp: heap_objs_def)
  then obtain x where x: "x \<in> L" "p = fst x + 1" using p by auto
  obtain s' where s': "slob_free s (fst x) 0 = Some s'" "slob_inv s' A (L - {x})" "bigblocks s' = bigblocks s"
    "kmem s' = kmem s" "free_units A s' = free_units A s \<union> span x"
    using heap_free [OF L(1) x(1), of 0] by blast
  have "units s (fst x) = int (snd x)" using L(1) x(1) by (auto simp: slob_inv_def heap_ok_def)
  then have ob: "object_units s p = span x" using x(2) by (simp add: object_units_def)
  have "kfree s p = Some s'"
    using find_big_none [OF L(2)] s'(1) x(2) by (simp add: kfree_def)
  moreover have "P - {p} = (\<lambda>x. fst x + 1) ` (L - {x})"
    using inj_on_image_set_diff [of "\<lambda>x. fst x + 1" L L "{x}"] live_inj [OF L(1)] L(3) x
    by (auto simp: inj_on_def)
  ultimately show "\<exists>h'. kfree s p = Some h' \<and> heap_objs A h' (P - {p})
      \<and> free_units A h' = free_units A s \<union> object_units s p \<and> (\<forall>g. pages_between g h' = pages_between g s)"
    using s'(2-5) L(2) by (auto simp: heap_objs_def pages_between_def ob)
qed

text \<open>An object behind a header is given back also when there are big blocks, if it is none of them.\<close>

definition small_object :: "slob \<Rightarrow> nat \<Rightarrow> bool" where
  "small_object s p \<longleftrightarrow> (\<exists>bs. lpath (bb_next s) bs 0 \<and> bigblocks s = hd (bs @ [0]) \<and> 0 \<notin> set bs \<and> (\<forall>b \<in> set bs. bb_pages s b \<noteq> p))"

lemma find_big_other:
  "lpath (bb_next s) bs 0 \<Longrightarrow> 0 \<notin> set bs \<Longrightarrow> \<forall>b \<in> set bs. bb_pages s b \<noteq> p \<Longrightarrow> find_big s p prv (hd (bs @ [0])) = Some None"
proof (induction bs arbitrary: prv)
  case Nil
  then show ?case by (subst find_big.simps) simp
next
  case (Cons b bs)
  then show ?case by (subst find_big.simps) simp
qed

lemma kfree_small:
  assumes "slob_inv s A L" "x \<in> L" "small_object s (fst x + 1)"
  shows "\<exists>s'. kfree s (fst x + 1) = Some s' \<and> slob_inv s' A (L - {x}) \<and> kmem s' = kmem s
    \<and> free_units A s' = free_units A s \<union> span x"
proof -
  have "find_big s (fst x + 1) 0 (bigblocks s) = Some None" using assms(3) find_big_other by (auto simp: small_object_def)
  then show ?thesis using heap_free [OF assms(1,2), of 0] by (auto simp: kfree_def)
qed

lemma heap_ok_mem:
  assumes "heap_ok s A bs L" "km_ok (kmem s')" "\<And>u. u \<in> cover bs \<union> \<Union> (span ` L) \<Longrightarrow> frame_ok (kmem s') (u div 256)"
    and "units s' = units s" "snext s' = snext s" "slobfree s' = slobfree s"
  shows "heap_ok s' A bs L"
proof -
  have "ring s A bs" using assms(1) by (simp add: heap_ok_def)
  then have "ring s' A bs" by (rule ring_cong) (simp_all add: assms(4-6))
  then show ?thesis using assms unfolding heap_ok_def by simp
qed

text \<open>Other pages may be given back to the page allocator.\<close>

lemma slob_inv_free_pages:
  assumes "slob_inv s A L" "ff_accepts (area (kmem s)) pg n"
    and "\<forall>q \<in> {pg..<pg + n}. frame_ok (kmem s) (page2ppn q) \<and> (\<forall>u \<in> free_units A s \<union> \<Union> (span ` L). u div 256 \<noteq> page2ppn q)"
  shows "\<exists>a. free_pages init_pmm_manager (area (kmem s)) pg n = Some a \<and> free_set a = free_set (area (kmem s)) \<union> {pg..<pg + n}
    \<and> slob_inv (s\<lparr>kmem := (kmem s)\<lparr>area := a\<rparr>\<rparr>) A L"
proof -
  obtain bs where h: "heap_ok s A bs L" using assms(1) by (auto simp: slob_inv_def)
  have km: "km_ok (kmem s)" and cv: "free_units A s = cover bs" using h free_units_ring by (auto simp: heap_ok_def)
  have "{pg..<pg + n} \<inter> free_set (area (kmem s)) = {}" using assms(3) by (auto simp: frame_ok_def page2ppn_def)
  from ff.free_law [OF _ this assms(2)] km obtain a where a: "free_pages init_pmm_manager (area (kmem s)) pg n = Some a"
    "ff_inv a" "free_set a = free_set (area (kmem s)) \<union> {pg..<pg + n}"
    by (auto simp: km_ok_def free_pages_def init_pmm_manager_def)
  let ?s = "s\<lparr>kmem := (kmem s)\<lparr>area := a\<rparr>\<rparr>"
  have "heap_ok ?s A bs L"
  proof (rule heap_ok_mem [OF h])
    show "km_ok (kmem ?s)" using km a(2,3) assms(3) by (auto simp: km_ok_def frame_ok_def page2ppn_def)
    fix u assume u: "u \<in> cover bs \<union> \<Union> (span ` L)"
    then have ok: "frame_ok (kmem s) (u div 256)" using h by (simp add: heap_ok_def)
    then have "u div 256 - nbase \<notin> {pg..<pg + n}" using assms(3) u unfolding cv by (fastforce simp: frame_ok_def page2ppn_def)
    then show "frame_ok (kmem ?s) (u div 256)" using ok a(3) by (simp add: frame_ok_def)
  qed simp_all
  then show ?thesis using a by (auto simp: slob_inv_def)
qed

subsection \<open>Objects of a page\<close>

text \<open>
  \<open>page_object s A L f\<close>: besides the blocks \<open>L\<close> the frame \<open>f\<close> is in use, which the descriptor at the head of the list of
  big blocks describes.
\<close>

definition page_object :: "slob \<Rightarrow> nat \<Rightarrow> (nat \<times> nat) set \<Rightarrow> nat \<Rightarrow> bool" where
  "page_object s A L f \<longleftrightarrow> bigblocks s \<noteq> 0 \<and> bb_pages s (bigblocks s) = 256 * f \<and> bb_order s (bigblocks s) = 0
     \<and> (bigblocks s, 2) \<notin> L \<and> frame_ok (kmem s) f \<and> ff_accepts (area (kmem s)) (f - nbase) 1
     \<and> (\<exists>bs. heap_ok s A bs (insert (bigblocks s, 2) L)
          \<and> (\<forall>u \<in> cover bs \<union> \<Union> (span ` insert (bigblocks s, 2) L). u div 256 \<noteq> f))"

lemma page_object_phys: "page_object s A L f \<Longrightarrow> page_object (s\<lparr>kmem := (kmem s)\<lparr>phys := ph\<rparr>\<rparr>) A L f"
proof -
  assume p: "page_object s A L f"
  have fr: "frame_ok ((kmem s)\<lparr>phys := ph\<rparr>) = frame_ok (kmem s)" by (simp add: frame_ok_def fun_eq_iff)
  have "heap_ok (s\<lparr>kmem := (kmem s)\<lparr>phys := ph\<rparr>\<rparr>) A bs M" if "heap_ok s A bs M" for bs M
    by (rule heap_ok_mem [OF that]) (use that in \<open>simp_all add: fr heap_ok_def km_ok_def\<close>)
  then show ?thesis using p by (auto simp: page_object_def fr)
qed

lemma kmalloc_page:
  assumes "slob_inv s A L" "kmalloc s 4096 = Some (p, s')" "p \<noteq> 0"
  shows "\<exists>f. p = 256 * f \<and> page_object s' A L f \<and> \<not> frame_ok (kmem s) f \<and> pages_taken (kmem s) (kmem s')"
proof -
  have n: "SLOB_UNITS bigblock_size = 2" by (simp add: SLOB_UNITS_def SLOB_UNIT_def bigblock_size_def)
  have o0: "find_order 4096 = 0" by (simp add: find_order.simps)
  obtain b s1 where b: "slob_alloc s bigblock_size = Some (b, s1)" "pages_taken (kmem s) (kmem s1)"
      "b = 0 \<or> slob_inv s1 A (insert (b, 2) L) \<and> (\<forall>x \<in> L. span x \<inter> span (b, 2) = {})"
    using slob_alloc_correct [OF assms(1), of bigblock_size] n by (auto simp: bigblock_size_def)
  have b0: "b \<noteq> 0" using assms(2,3) b(1) by (cases "b = 0") (auto simp: kmalloc_def SLOB_PAGE_SIZE_def SLOB_UNIT_def)
  then obtain bs where h: "heap_ok s1 A bs (insert (b, 2) L)" using b(3) by (auto simp: slob_inv_def)
  have bl: "(b, 2) \<notin> L"
  proof
    assume "(b, 2) \<in> L"
    then have "span (b, 2) \<inter> span (b, 2) = {}" using b(3) b0 by blast
    then show False by (simp add: span_def)
  qed
  have km: "km_ok (kmem s1)" using h by (simp add: heap_ok_def)
  obtain r k where k: "alloc_page (kmem s1) = Some (r, k)" "ff_inv (area k)" "phys k = phys (kmem s1)" "npage k = npage (kmem s1)"
    "case r of None \<Rightarrow> True | Some q \<Rightarrow> q \<in> free_set (area (kmem s1)) \<and> free_set (area k) = free_set (area (kmem s1)) - {q}"
    using alloc_page_spec [of "kmem s1"] km unfolding km_ok_def by (fastforce split: option.splits)
  have go: "slob_get_free_pages (s1\<lparr>bb_order := g\<rparr>) 0 = (case r of None \<Rightarrow> Some (0, s1\<lparr>bb_order := g, kmem := k\<rparr>)
      | Some q \<Rightarrow> do { f \<leftarrow> page2kva k q; Some (256 * f, s1\<lparr>bb_order := g, kmem := k\<rparr>) })" for g
    using k(1) by (simp add: get_free_page_eq split: option.splits)
  obtain q where q: "r = Some q"
    using assms(2,3) b(1) b0 go by (cases r) (auto simp: kmalloc_def SLOB_PAGE_SIZE_def SLOB_UNIT_def o0 Let_def split: option.splits Option.bind_splits)
  let ?f = "page2ppn q"
  have f: "?f < npage k" "nbase \<le> ?f" "npage k \<le> 2 ^ 52" "q = ?f - nbase" "q \<in> free_set (area (kmem s1))"
    using km k(4,5) q by (auto simp: km_ok_def page2ppn_def)
  then have kva: "page2kva k q = Some ?f"
    unfolding page2kva_def by (intro KADDR_page2pa64) (simp_all add: page2ppn_def)
  have nz: "256 * ?f \<noteq> 0" using f(2) by (simp add: nbase_def)
  define t where "t = s1\<lparr>bb_order := (bb_order s1)(b := 0), kmem := k, bb_pages := (bb_pages s1)(b := 256 * ?f),
      bb_next := (bb_next s1)(b := bigblocks s1), bigblocks := b\<rparr>"
  have ps: "p = 256 * ?f" "s' = t"
    using assms(2) b(1) b0 go kva nz by (auto simp: kmalloc_def SLOB_PAGE_SIZE_def SLOB_UNIT_def o0 Let_def q t_def)
  have fr: "free_set (area k) = free_set (area (kmem s1)) - {q}" using k(5) q by simp
  have fk: "frame_ok k u \<and> u \<noteq> ?f" if "frame_ok (kmem s1) u" for u
  proof -
    have u: "u - nbase \<notin> free_set (area (kmem s1))" "nbase \<le> u" "u < npage k" using that k(4) by (simp_all add: frame_ok_def)
    moreover have "u \<noteq> ?f" using u(1) f(4,5) by metis
    ultimately show ?thesis unfolding frame_ok_def fr by simp
  qed
  have ok: "frame_ok (kmem s1) (u div 256)" if "u \<in> cover bs \<union> \<Union> (span ` insert (b, 2) L)" for u
    using h that unfolding heap_ok_def by blast
  have "heap_ok t A bs (insert (b, 2) L)"
    by (rule heap_ok_mem [OF h]) (use km k q ok fk in \<open>auto simp: t_def km_ok_def\<close>)
  moreover have "frame_ok k ?f" using f k(5) q by (simp add: frame_ok_def)
  moreover have "ff_accepts (area k) q 1"
    using default_alloc_lowest [of "area (kmem s1)" q "area k"] km k(1) q
    by (auto simp: km_ok_def alloc_page_def alloc_pages_def init_pmm_manager_def default_pmm_manager_def bind_eq_Some_conv)
  ultimately have "page_object t A L ?f" using bl b0 ok fk f(4) by (auto simp: page_object_def t_def)
  moreover have "\<not> frame_ok (kmem s) ?f" using f b(2) by (auto simp: frame_ok_def pages_taken_def)
  moreover have "pages_taken (kmem s1) (kmem t)" using k q by (auto simp: pages_taken_def t_def)
  ultimately show ?thesis using ps pages_taken_trans [OF b(2)] by blast
qed

lemma kfree_page:
  assumes "page_object s A L f"
  shows "\<exists>s'. kfree s (256 * f) = Some s' \<and> slob_inv s' A L \<and> phys (kmem s') = phys (kmem s) \<and> npage (kmem s') = npage (kmem s)"
proof -
  let ?b = "bigblocks s"
  obtain bs where p: "?b \<noteq> 0" "bb_pages s ?b = 256 * f" "bb_order s ?b = 0" "(?b, 2) \<notin> L" "frame_ok (kmem s) f"
      "ff_accepts (area (kmem s)) (f - nbase) 1" "heap_ok s A bs (insert (?b, 2) L)"
      "\<forall>u \<in> cover bs \<union> \<Union> (span ` insert (?b, 2) L). u div 256 \<noteq> f"
    using assms by (auto simp: page_object_def)
  have f: "nbase \<le> f" "f < npage (kmem s)" "f - nbase \<notin> free_set (area (kmem s))" using p(5) by (simp_all add: frame_ok_def)
  have find: "find_big s (256 * f) 0 ?b = Some (Some (0, ?b))" using p(1,2) by (simp add: find_big.simps)
  have km: "km_ok (kmem s)" using p(7) by (simp add: heap_ok_def)
  have "{f - nbase..<f - nbase + 1} \<inter> free_set (area (kmem s)) = {}" using f(3) by auto
  from ff.free_law [OF _ this p(6)] km obtain a where a: "free_pages init_pmm_manager (area (kmem s)) (f - nbase) 1 = Some a" "ff_inv a"
    "free_set a = free_set (area (kmem s)) \<union> {f - nbase..<f - nbase + 1}"
    by (auto simp: km_ok_def free_pages_def init_pmm_manager_def)
  define t where "t = s\<lparr>bigblocks := bb_next s ?b, kmem := (kmem s)\<lparr>area := a\<rparr>\<rparr>"
  have "heap_ok t A bs (insert (?b, 2) L)"
  proof (rule heap_ok_mem [OF p(7)])
    show "km_ok (kmem t)" using km a(2,3) f by (auto simp: t_def km_ok_def)
    fix u assume u: "u \<in> cover bs \<union> \<Union> (span ` insert (?b, 2) L)"
    then have "frame_ok (kmem s) (u div 256)" using p(7) unfolding heap_ok_def by blast
    moreover have "u div 256 \<noteq> f" using p(8) u by blast
    ultimately show "frame_ok (kmem t) (u div 256)" using a(3) f by (auto simp: t_def frame_ok_def)
  qed (simp_all add: t_def)
  then have inv: "slob_inv t A (insert (?b, 2) L)" by (auto simp: slob_inv_def)
  have "SLOB_UNITS bigblock_size = int (snd (?b, 2 :: nat))" by (simp add: SLOB_UNITS_def SLOB_UNIT_def bigblock_size_def)
  then obtain s' where s': "slob_free t ?b bigblock_size = Some s'" "slob_inv s' A (insert (?b, 2) L - {(?b, 2)})"
      "kmem s' = kmem t"
    using heap_free [OF inv, of "(?b, 2)" bigblock_size] by auto
  have "kfree s (256 * f) = slob_free t ?b bigblock_size"
    using find p(1,3) f a(1) by (simp add: kfree_def slob_free_pages_def kva2page_def t_def nbase_def)
  then show ?thesis using s' p(4) by (simp add: t_def)
qed

subsection \<open>Correctness\<close>

text \<open>
  C26: \<open>kmalloc\<close> of 1 to 4063 bytes always returns. In a well-formed heap with the blocks \<open>L\<close> in use the
  result is \<open>NULL\<close>, with nothing changed, only when no page is free; otherwise it lies behind the
  one-unit header of a block with room for the request that overlaps no block in use, and the heap
  stays well-formed with the new block in use.
\<close>

theorem kmalloc_correct:
  assumes "slob_inv s A L" "0 < sz" "sz < 4064"
  shows "\<exists>p s'. kmalloc s sz = Some (p, s') \<and>
    (if p = 0 then s' = s \<and> free_set (area (kmem s)) = {}
     else slob_inv s' A (insert (p - 1, (sz + 31) div 16) L) \<and> (\<forall>x \<in> L. span x \<inter> span (p - 1, (sz + 31) div 16) = {}))"
proof -
  have n: "nat (SLOB_UNITS (sz + SLOB_UNIT)) = (sz + 31) div 16" by (simp add: SLOB_UNITS_def SLOB_UNIT_def)
  obtain c s' where c: "slob_alloc s (sz + SLOB_UNIT) = Some (c, s')"
    "c = 0 \<and> s' = s \<and> free_set (area (kmem s)) = {}
      \<or> c \<noteq> 0 \<and> slob_inv s' A (insert (c, (sz + 31) div 16) L) \<and> (\<forall>x \<in> L. span x \<inter> span (c, (sz + 31) div 16) = {})"
    using slob_alloc_correct [OF assms(1) SLOB_UNITS_small [OF assms(2)]] assms(3) unfolding n
    by (auto simp: SLOB_UNIT_def)
  then have "kmalloc s sz = Some (if c \<noteq> 0 then c + 1 else 0, s')"
    using assms(3) by (simp add: kmalloc_def SLOB_PAGE_SIZE_def SLOB_UNIT_def)
  then show ?thesis using c(2) by (cases "c = 0") auto
qed

text \<open>
  C27: What \<open>kmalloc\<close> of 1 to 4063 bytes returned can be given back, in a well-formed heap without big blocks: \<open>kfree\<close>
  returns, exactly the objects that were in use before are in use again, and no memory is lost. The free units are
  those that were free before \<open>kmalloc\<close>, together with the units of the page that it took from the page allocator if it
  did; in between, exactly the units of the object were missing from them.
\<close>

theorem kmalloc_kfree_roundtrip:
  assumes "heap_objs A s P" "0 < sz" "sz < 4064" "kmalloc s sz = Some (p, s1)" "p \<noteq> 0"
  shows "\<exists>s2. kfree s1 p = Some s2 \<and> heap_objs A s2 P \<and> free_units A s2 = free_units A s \<union> pages_between s s2
    \<and> object_units s1 p \<subseteq> free_units A s2 \<and> free_units A s1 = free_units A s2 - object_units s1 p"
  by (rule slob.malloc_dispose [OF assms(1) _ assms(4,5)]) (use assms(2,3) in simp)

text \<open>A search that never finds its place does not return.\<close>

lemma slob_find_self: "slob_find s b c = Some x \<Longrightarrow> snext s c = c \<longrightarrow> x = c \<and> slob_fits s b c"
proof (rule slob_find.raw_induct [where P = "\<lambda>s b c x. snext s c = c \<longrightarrow> x = c \<and> slob_fits s b c"])
  fix f s b c x
  assume "\<And>s b c x. f s b c = Some x \<Longrightarrow> snext s c = c \<longrightarrow> x = c \<and> slob_fits s b c"
    and "(if slob_fits s b c then Some c else f s b (snext s c)) = Some x"
  then show "snext s c = c \<longrightarrow> x = c \<and> slob_fits s b c" by (auto split: if_splits)
qed

text \<open>
  \<open>kmalloc(0)\<close> on the fresh heap, whose only block is the static \<open>arena\<close>, hands out the memory behind
  \<open>arena\<close> and leaves \<open>arena\<close> in the free list; \<open>kfree\<close> of the result then never returns.
\<close>

lemma kmalloc_zero:
  assumes "ring s A []" "bigblocks s = 0" "A \<noteq> 0"
  shows "\<exists>s'. kmalloc s 0 = Some (A + 1, s') \<and> kfree s' (A + 1) = None"
proof -
  have r: "units s A = 1" "snext s A = A" "slobfree s = A" using assms(1) by (simp_all add: ring_def)
  let ?s = "slob_take s A A 1"
  have "SLOB_UNITS SLOB_UNIT = 1" by (simp add: SLOB_UNITS_def SLOB_UNIT_def)
  then have "slob_alloc s SLOB_UNIT = Some (A, ?s)"
    using r by (simp add: slob_alloc_def SLOB_UNIT_def SLOB_PAGE_SIZE_def) (subst slob_alloc_loop.simps, simp)
  then have "kmalloc s 0 = Some (A + 1, ?s)"
    using assms(3) by (simp add: kmalloc_def SLOB_PAGE_SIZE_def SLOB_UNIT_def)
  moreover have "snext ?s A = A" "slobfree ?s = A" using r by (simp_all add: slob_take_def Let_def)
  then have "slob_find ?s A (slobfree ?s) = None"
    using slob_find_self [of ?s A A] by (cases "slob_find ?s A A") (auto simp: slob_fits_def)
  then have "kfree ?s (A + 1) = None"
    using find_big_none [of ?s] assms(2,3) by (simp add: kfree_def slob_free_def)
  ultimately show ?thesis by blast
qed

text \<open>The heap at start-up over a small memory: only \<open>arena\<close>, at unit 9.\<close>

definition sample_slob :: slob where
  "sample_slob = \<lparr>units = (\<lambda>_. 1), snext = (\<lambda>_. 9), slobfree = 9, bb_order = (\<lambda>_. 0), bb_pages = (\<lambda>_. 0),
     bb_next = (\<lambda>_. 0), bigblocks = 0, kmem = sample_kmem\<rparr>"

lemma sample_ring: "ring sample_slob 9 []" "bigblocks sample_slob = 0"
  by (simp_all add: ring_def sample_slob_def)

lemma sample_slob_inv: "slob_inv sample_slob 9 {}"
proof -
  have "km_ok sample_kmem" by (rule sample_km_ok)
  then have "heap_ok sample_slob 9 [] {}" using sample_ring by (simp add: heap_ok_def sample_slob_def nbase_def)
  then show ?thesis by (auto simp: slob_inv_def)
qed

theorem kmalloc_correct_witness:
  "\<exists>p s'. kmalloc sample_slob 40 = Some (p, s') \<and> p \<noteq> 0 \<and> slob_inv s' 9 {(p - 1, 4)}"
proof -
  have "free_set (area (kmem sample_slob)) \<noteq> {}" using sample_ff_inv(2) by (simp add: sample_slob_def sample_kmem_def)
  then show ?thesis using kmalloc_correct [OF sample_slob_inv, of 40] by (auto split: if_splits)
qed

theorem kmalloc_kfree_roundtrip_witness:
  "\<exists>p s1 s2. kmalloc sample_slob 40 = Some (p, s1) \<and> kfree s1 p = Some s2 \<and> heap_objs 9 s2 {}
    \<and> free_units 9 s2 = pages_between sample_slob s2"
proof -
  have e: "free_set (area (kmem sample_slob)) \<noteq> {}" using sample_ff_inv(2) by (simp add: sample_slob_def sample_kmem_def)
  have h: "heap_objs 9 sample_slob {}" using sample_slob_inv sample_ring(2) by (auto simp: heap_objs_def)
  obtain c s' where "slob_alloc sample_slob (40 + SLOB_UNIT) = Some (c, s')" "c \<noteq> 0"
    using slob_alloc_correct [OF sample_slob_inv SLOB_UNITS_small [of 40]] e by (auto simp: SLOB_UNIT_def)
  then have "kmalloc sample_slob 40 = Some (c + 1, s')" by (simp add: kmalloc_def SLOB_PAGE_SIZE_def SLOB_UNIT_def)
  moreover have "free_units 9 sample_slob = {}" using free_units_ring [OF sample_ring(1)] by simp
  ultimately show ?thesis using kmalloc_kfree_roundtrip [OF h, of 40] by fastforce
qed

end
