(* ===== verification/Vmm.thy ===== *)
theory Vmm
  imports Kmalloc CString
begin

text \<open>
  Virtual memory areas, \<open>kern/mm/vmm.c\<close>. \<open>mm_struct\<close>s and \<open>vma_struct\<close>s are identified by the address
  \<open>kmalloc\<close> returned for them, 0 being \<open>NULL\<close>; the list of areas is the pointer-level list of
  \<open>libs/list.h\<close>. The heap state contains the physical memory with the page tables. The semaphore
  \<open>mm_sem\<close> is left out.
\<close>

datatype vnode = MmapList nat | VmaLink nat

record vma_struct =
  vm_mm :: nat
  vm_start :: u64
  vm_end :: u64
  vm_flags :: u32

record mm_struct =
  mmap_cache :: nat
  mm_pgdir :: nat
  map_count :: int
  mm_count :: int

record vmm =
  vmas :: "nat \<Rightarrow> vma_struct"
  mms :: "nat \<Rightarrow> mm_struct"
  vlinks :: "vnode lheap"
  heap :: slob

definition VM_READ :: u32 where "VM_READ = 1"
definition VM_WRITE :: u32 where "VM_WRITE = 2"
definition VM_EXEC :: u32 where "VM_EXEC = 4"
definition VM_STACK :: u32 where "VM_STACK = 8"

text \<open>The sizes of the two structures in the LP64 layout.\<close>

definition mm_struct_size :: nat where "mm_struct_size = 88"
definition vma_struct_size :: nat where "vma_struct_size = 48"

definition upd_mm :: "nat \<Rightarrow> (mm_struct \<Rightarrow> mm_struct) \<Rightarrow> vmm \<Rightarrow> vmm" where
  "upd_mm mm f s = s\<lparr>mms := (mms s)(mm := f (mms s mm))\<rparr>"

definition mm_create :: "vmm \<Rightarrow> (nat \<times> vmm) option" where
  "mm_create s =
     do {
       (mm, h) \<leftarrow> kmalloc (heap s) mm_struct_size;
       let s = s\<lparr>heap := h\<rparr>;
       Some (mm, if mm \<noteq> 0 then
           s\<lparr>vlinks := list_init (vlinks s) (MmapList mm),
             mms := (mms s)(mm := \<lparr>mmap_cache = 0, mm_pgdir = 0, map_count = 0, mm_count = 0\<rparr>)\<rparr>
         else s)
     }"

definition vma_create :: "vmm \<Rightarrow> u64 \<Rightarrow> u64 \<Rightarrow> u32 \<Rightarrow> (nat \<times> vmm) option" where
  "vma_create s start fin flags =
     do {
       (vma, h) \<leftarrow> kmalloc (heap s) vma_struct_size;
       let s = s\<lparr>heap := h\<rparr>;
       Some (vma, if vma \<noteq> 0 then
           s\<lparr>vmas := (vmas s)(vma := (vmas s vma)\<lparr>vm_start := start, vm_end := fin, vm_flags := flags\<rparr>)\<rparr>
         else s)
     }"

partial_function (option) find_vma_loop :: "vmm \<Rightarrow> u64 \<Rightarrow> vnode \<Rightarrow> nat option" where
  "find_vma_loop s addr le =
     (let le = list_next (vlinks s) le in
      case le of
        MmapList mm \<Rightarrow> Some 0
      | VmaLink vma \<Rightarrow>
          if vm_start (vmas s vma) \<le> addr \<and> addr < vm_end (vmas s vma) then Some vma else find_vma_loop s addr le)"

definition find_vma :: "vmm \<Rightarrow> nat \<Rightarrow> u64 \<Rightarrow> (nat \<times> vmm) option" where
  "find_vma s mm addr =
     (if mm = 0 then Some (0, s)
      else do {
        let vma = mmap_cache (mms s mm);
        vma \<leftarrow> (if \<not> (vma \<noteq> 0 \<and> vm_start (vmas s vma) \<le> addr \<and> vm_end (vmas s vma) > addr)
                then find_vma_loop s addr (MmapList mm) else Some vma);
        Some (vma, if vma \<noteq> 0 then upd_mm mm (\<lambda>m. m\<lparr>mmap_cache := vma\<rparr>) s else s)
      })"

definition check_vma_overlap :: "vmm \<Rightarrow> nat \<Rightarrow> nat \<Rightarrow> unit option" where
  "check_vma_overlap s prev nxt =
     do {
       assert_that (vm_start (vmas s prev) < vm_end (vmas s prev));
       assert_that (vm_end (vmas s prev) \<le> vm_start (vmas s nxt));
       assert_that (vm_start (vmas s nxt) < vm_end (vmas s nxt))
     }"

text \<open>The loop of \<open>insert_vma_struct\<close>; the result is \<open>le_prev\<close>.\<close>

partial_function (option) insert_vma_loop :: "vmm \<Rightarrow> nat \<Rightarrow> vnode \<Rightarrow> vnode \<Rightarrow> vnode option" where
  "insert_vma_loop s vma le_prev le =
     (let le = list_next (vlinks s) le in
      case le of
        MmapList mm \<Rightarrow> Some le_prev
      | VmaLink mmap_prev \<Rightarrow>
          if vm_start (vmas s mmap_prev) > vm_start (vmas s vma) then Some le_prev
          else insert_vma_loop s vma le le)"

definition insert_vma_struct :: "vmm \<Rightarrow> nat \<Rightarrow> nat \<Rightarrow> vmm option" where
  "insert_vma_struct s mm vma =
     do {
       assert_that (vm_start (vmas s vma) < vm_end (vmas s vma));
       le_prev \<leftarrow> insert_vma_loop s vma (MmapList mm) (MmapList mm);
       let le_next = list_next (vlinks s) le_prev;
       (case le_prev of MmapList x \<Rightarrow> Some () | VmaLink prev \<Rightarrow> check_vma_overlap s prev vma);
       (case le_next of MmapList x \<Rightarrow> Some () | VmaLink nxt \<Rightarrow> check_vma_overlap s vma nxt);
       let s = s\<lparr>vmas := (vmas s)(vma := (vmas s vma)\<lparr>vm_mm := mm\<rparr>)\<rparr>;
       let s = s\<lparr>vlinks := list_add_after (vlinks s) le_prev (VmaLink vma)\<rparr>;
       Some (upd_mm mm (\<lambda>m. m\<lparr>map_count := map_count m + 1\<rparr>) s)
     }"

partial_function (option) mm_destroy_loop :: "vmm \<Rightarrow> nat \<Rightarrow> vmm option" where
  "mm_destroy_loop s mm =
     (case list_next (vlinks s) (MmapList mm) of
        MmapList x \<Rightarrow> Some s
      | VmaLink vma \<Rightarrow>
          do {
            let s = s\<lparr>vlinks := list_del (vlinks s) (VmaLink vma)\<rparr>;
            h \<leftarrow> kfree (heap s) vma;
            mm_destroy_loop (s\<lparr>heap := h\<rparr>) mm
          })"

definition mm_destroy :: "vmm \<Rightarrow> nat \<Rightarrow> vmm option" where
  "mm_destroy s mm =
     do {
       assert_that (mm_count (mms s mm) = 0);
       s \<leftarrow> mm_destroy_loop s mm;
       h \<leftarrow> kfree (heap s) mm;
       Some (s\<lparr>heap := h\<rparr>)
     }"

text \<open>\<open>mm_map\<close>: the result is the error code, if any, the new area and the new state.\<close>

definition mm_map :: "vmm \<Rightarrow> nat \<Rightarrow> u64 \<Rightarrow> u64 \<Rightarrow> u32 \<Rightarrow> ((err + nat) \<times> vmm) option" where
  "mm_map s mm addr len flags =
     (let start = ROUNDDOWN addr PGSIZE; fin = ROUNDUP (addr + len) PGSIZE in
      if \<not> USER_ACCESS start fin then Some (Inl E_INVAL, s)
      else do {
        assert_that (mm \<noteq> 0);
        (vma, s) \<leftarrow> find_vma s mm start;
        if vma \<noteq> 0 \<and> fin > vm_start (vmas s vma) then Some (Inl E_INVAL, s)
        else do {
          (vma, s) \<leftarrow> vma_create s start fin flags;
          if vma = 0 then Some (Inl E_NO_MEM, s)
          else do {
            s \<leftarrow> insert_vma_struct s mm vma;
            Some (Inr vma, s)
          }
        }
      })"

definition with_kmem :: "kmem \<Rightarrow> vmm \<Rightarrow> vmm" where
  "with_kmem k s = s\<lparr>heap := (heap s)\<lparr>kmem := k\<rparr>\<rparr>"

partial_function (option) dup_mmap_loop :: "vmm \<Rightarrow> nat \<Rightarrow> nat \<Rightarrow> vnode \<Rightarrow> (err option \<times> vmm) option" where
  "dup_mmap_loop s to from le =
     (let le = list_prev (vlinks s) le in
      case le of
        MmapList x \<Rightarrow> Some (None, s)
      | VmaLink vma \<Rightarrow>
          do {
            r \<leftarrow> vma_create s (vm_start (vmas s vma)) (vm_end (vmas s vma)) (vm_flags (vmas s vma));
            if fst r = 0 then Some (Some E_NO_MEM, snd r)
            else do {
              s \<leftarrow> insert_vma_struct (snd r) to (fst r);
              c \<leftarrow> copy_range (kmem (heap s)) (mm_pgdir (mms s to)) (mm_pgdir (mms s from))
                     (vm_start (vmas s vma)) (vm_end (vmas s vma));
              if fst c \<noteq> None then Some (Some E_NO_MEM, with_kmem (snd c) s)
              else dup_mmap_loop (with_kmem (snd c) s) to from le
            }
          })"

definition dup_mmap :: "vmm \<Rightarrow> nat \<Rightarrow> nat \<Rightarrow> (err option \<times> vmm) option" where
  "dup_mmap s to from =
     do {
       assert_that (to \<noteq> 0 \<and> from \<noteq> 0);
       dup_mmap_loop s to from (MmapList from)
     }"

text \<open>\<open>exit_mmap\<close>: one loop for \<open>unmap_range\<close>, one for \<open>exit_range\<close>, over all areas each.\<close>

partial_function (option) exit_mmap_loop ::
  "(kmem \<Rightarrow> nat \<Rightarrow> u64 \<Rightarrow> u64 \<Rightarrow> kmem option) \<Rightarrow> vmm \<Rightarrow> nat \<Rightarrow> vnode \<Rightarrow> vmm option" where
  "exit_mmap_loop f s pgdir le =
     (let le = list_next (vlinks s) le in
      case le of
        MmapList x \<Rightarrow> Some s
      | VmaLink vma \<Rightarrow>
          do {
            k \<leftarrow> f (kmem (heap s)) pgdir (vm_start (vmas s vma)) (vm_end (vmas s vma));
            exit_mmap_loop f (with_kmem k s) pgdir le
          })"

definition exit_mmap :: "vmm \<Rightarrow> nat \<Rightarrow> vmm option" where
  "exit_mmap s mm =
     do {
       assert_that (mm \<noteq> 0 \<and> mm_count (mms s mm) = 0);
       s \<leftarrow> exit_mmap_loop unmap_range s (mm_pgdir (mms s mm)) (MmapList mm);
       exit_mmap_loop exit_range s (mm_pgdir (mms s mm)) (MmapList mm)
     }"

subsection \<open>Checking user addresses\<close>

partial_function (option) user_mem_loop :: "vmm \<Rightarrow> nat \<Rightarrow> u64 \<Rightarrow> u64 \<Rightarrow> bool \<Rightarrow> (bool \<times> vmm) option" where
  "user_mem_loop s mm start fin write =
     (if start < fin then
        do {
          r \<leftarrow> find_vma s mm start;
          let (vma, s) = r; v = vmas s vma in
          if vma = 0 \<or> start < vm_start v then Some (False, s)
          else if vm_flags v AND (if write then VM_WRITE else VM_READ) = 0 then Some (False, s)
          else if write \<and> vm_flags v AND VM_STACK \<noteq> 0 \<and> start < vm_start v + PGSIZE then Some (False, s)
          else user_mem_loop s mm (vm_end v) fin write
        }
      else Some (True, s))"

definition user_mem_check :: "vmm \<Rightarrow> nat \<Rightarrow> u64 \<Rightarrow> u64 \<Rightarrow> bool \<Rightarrow> (bool \<times> vmm) option" where
  "user_mem_check s mm addr len write =
     (if mm \<noteq> 0 then
        if \<not> USER_ACCESS addr (addr + len) then Some (False, s)
        else user_mem_loop s mm addr (addr + len) write
      else Some (KERN_ACCESS addr (addr + len), s))"

text \<open>The copies between user and kernel memory; \<open>m\<close> is the memory the current page table shows.\<close>

definition copy_from_user :: "vmm \<Rightarrow> mem \<Rightarrow> nat \<Rightarrow> u64 \<Rightarrow> u64 \<Rightarrow> u64 \<Rightarrow> bool \<Rightarrow> (bool \<times> mem \<times> vmm) option" where
  "copy_from_user s m mm dst src len writable =
     do {
       (ok, s) \<leftarrow> user_mem_check s mm src len writable;
       Some (if \<not> ok then (False, m, s) else (True, memcpy m (unat dst) (unat src) (unat len), s))
     }"

definition copy_to_user :: "vmm \<Rightarrow> mem \<Rightarrow> nat \<Rightarrow> u64 \<Rightarrow> u64 \<Rightarrow> u64 \<Rightarrow> (bool \<times> mem \<times> vmm) option" where
  "copy_to_user s m mm dst src len =
     do {
       (ok, s) \<leftarrow> user_mem_check s mm dst len True;
       Some (if \<not> ok then (False, m, s) else (True, memcpy m (unat dst) (unat src) (unat len), s))
     }"

partial_function (option) copy_string_loop ::
  "vmm \<Rightarrow> mem \<Rightarrow> nat \<Rightarrow> u64 \<Rightarrow> u64 \<Rightarrow> u64 \<Rightarrow> u64 \<Rightarrow> (bool \<times> mem \<times> vmm) option" where
  "copy_string_loop s m mm dst src maxn part =
     (let part = (if part > maxn then maxn else part) in
      do {
        r \<leftarrow> user_mem_check s mm src part False;
        if \<not> fst r then Some (False, m, snd r)
        else
          let alen = strnlen m (unat src) (unat part) in
          if alen < unat part then Some (True, memcpy m (unat dst) (unat src) (alen + 1), snd r)
          else if part = maxn then Some (False, m, snd r)
          else copy_string_loop (snd r) (memcpy m (unat dst) (unat src) (unat part)) mm (dst + part) (src + part)
                 (maxn - part) PGSIZE
      })"

definition copy_string :: "vmm \<Rightarrow> mem \<Rightarrow> nat \<Rightarrow> u64 \<Rightarrow> u64 \<Rightarrow> u64 \<Rightarrow> (bool \<times> mem \<times> vmm) option" where
  "copy_string s m mm dst src maxn =
     copy_string_loop s m mm dst src maxn (ROUNDDOWN (src + PGSIZE) PGSIZE - src)"

subsection \<open>The areas of an address space\<close>

definition holds :: "vmm \<Rightarrow> u64 \<Rightarrow> nat \<Rightarrow> bool" where
  "holds s a v \<longleftrightarrow> vm_start (vmas s v) \<le> a \<and> a < vm_end (vmas s v)"

text \<open>The reference for \<open>find_vma\<close>: the first area in the list that holds the address.\<close>

definition vma_at :: "vmm \<Rightarrow> nat list \<Rightarrow> u64 \<Rightarrow> nat" where
  "vma_at s vs a = (case find (holds s a) vs of None \<Rightarrow> 0 | Some v \<Rightarrow> v)"

definition areas_ok :: "vmm \<Rightarrow> nat list \<Rightarrow> bool" where
  "areas_ok s vs \<longleftrightarrow> 0 \<notin> set vs \<and> (\<forall>v \<in> set vs. vm_start (vmas s v) < vm_end (vmas s v))
     \<and> sorted_wrt (\<lambda>v w. vm_end (vmas s v) \<le> vm_start (vmas s w)) vs"

definition vm_inv :: "vmm \<Rightarrow> nat \<Rightarrow> nat list \<Rightarrow> bool" where
  "vm_inv s mm vs \<longleftrightarrow> mm \<noteq> 0 \<and> dlist (vlinks s) (MmapList mm) (map VmaLink vs) \<and> areas_ok s vs
     \<and> (mmap_cache (mms s mm) = 0 \<or> mmap_cache (mms s mm) \<in> set vs) \<and> map_count (mms s mm) = int (length vs)"

lemma areas_unique: "areas_ok s vs \<Longrightarrow> v \<in> set vs \<Longrightarrow> w \<in> set vs \<Longrightarrow> holds s a v \<Longrightarrow> holds s a w \<Longrightarrow> v = w"
proof (induction vs)
  case (Cons x vs)
  have "areas_ok s vs" using Cons.prems(1) by (simp add: areas_ok_def)
  moreover have "\<not> (holds s a x \<and> holds s a y)" if "y \<in> set vs" for y
    using Cons.prems(1) that by (auto simp: areas_ok_def holds_def)
  ultimately show ?case using Cons by auto
qed simp

lemma vma_at_holds:
  assumes "areas_ok s vs"
  shows "vma_at s vs a \<noteq> 0 \<Longrightarrow> vma_at s vs a \<in> set vs \<and> holds s a (vma_at s vs a)"
    and "vma_at s vs a = 0 \<Longrightarrow> v \<in> set vs \<Longrightarrow> \<not> holds s a v"
    and "v \<in> set vs \<Longrightarrow> holds s a v \<Longrightarrow> vma_at s vs a = v"
proof -
  show A: "vma_at s vs a \<noteq> 0 \<Longrightarrow> vma_at s vs a \<in> set vs \<and> holds s a (vma_at s vs a)"
  proof (cases "find (holds s a) vs")
    case (Some w)
    then have "w \<in> set vs \<and> holds s a w" by (auto simp: find_Some_iff)
    then show ?thesis using Some by (simp add: vma_at_def)
  qed (simp add: vma_at_def)
  show B: "vma_at s vs a = 0 \<Longrightarrow> v \<in> set vs \<Longrightarrow> \<not> holds s a v" for v
  proof (cases "find (holds s a) vs")
    case None
    then show "v \<in> set vs \<Longrightarrow> \<not> holds s a v" by (auto simp: find_None_iff)
  next
    case (Some w)
    then have "w \<in> set vs" by (auto simp: find_Some_iff)
    moreover assume "vma_at s vs a = 0"
    ultimately have False using Some assms by (simp add: vma_at_def areas_ok_def)
    then show "v \<in> set vs \<Longrightarrow> \<not> holds s a v" ..
  qed
  show "v \<in> set vs \<Longrightarrow> holds s a v \<Longrightarrow> vma_at s vs a = v"
    using A B [of v] areas_unique [OF assms] by blast
qed

lemma find_vma_loop_spec:
  "chain (vlinks s) le (map VmaLink ws) (MmapList mm) \<Longrightarrow> find_vma_loop s a le = Some (vma_at s ws a)"
proof (induction ws arbitrary: le)
  case Nil
  then show ?case by (subst find_vma_loop.simps) (simp add: list_next_def vma_at_def)
next
  case (Cons w ws)
  then show ?case
    by (subst find_vma_loop.simps) (auto simp: list_next_def vma_at_def holds_def Let_def)
qed

lemma upd_mm_simps [simp]:
  "vmas (upd_mm mm f s) = vmas s" "vlinks (upd_mm mm f s) = vlinks s" "heap (upd_mm mm f s) = heap s"
  "mms (upd_mm mm f s) = (mms s)(mm := f (mms s mm))"
  by (simp_all add: upd_mm_def)

lemma holds_cong: "vmas s' = vmas s \<Longrightarrow> holds s' a v = holds s a v"
  by (simp add: holds_def)

lemma vma_at_cong: "vmas s' = vmas s \<Longrightarrow> vma_at s' vs a = vma_at s vs a"
proof -
  assume "vmas s' = vmas s"
  then have "holds s' a = holds s a" by (simp add: holds_def fun_eq_iff)
  then show ?thesis by (simp add: vma_at_def)
qed

lemma find_vma_spec:
  assumes "vm_inv s mm vs"
  shows "\<exists>s'. find_vma s mm addr = Some (vma_at s vs addr, s') \<and> vm_inv s' mm vs
    \<and> vmas s' = vmas s \<and> vlinks s' = vlinks s \<and> heap s' = heap s"
proof -
  let ?c = "mmap_cache (mms s mm)" and ?v = "vma_at s vs addr"
  have ok: "areas_ok s vs" and mm: "mm \<noteq> 0" using assms by (simp_all add: vm_inv_def)
  have loop: "find_vma_loop s addr (MmapList mm) = Some ?v"
    using assms by (intro find_vma_loop_spec [where mm = mm]) (simp add: vm_inv_def dlist_def)
  have hit: "?c = ?v" if "?c \<noteq> 0" "holds s addr ?c"
    using that vma_at_holds(3) [OF ok, of ?c addr] assms by (auto simp: vm_inv_def)
  let ?s = "if ?v \<noteq> 0 then upd_mm mm (\<lambda>m. m\<lparr>mmap_cache := ?v\<rparr>) s else s"
  have "find_vma s mm addr = Some (?v, ?s)"
  proof (cases "?c \<noteq> 0 \<and> holds s addr ?c")
    case True
    then have "?c = ?v" using hit by blast
    then show ?thesis using True mm by (simp add: find_vma_def holds_def Let_def)
  next
    case False
    then have "\<not> (?c \<noteq> 0 \<and> vm_start (vmas s ?c) \<le> addr \<and> vm_end (vmas s ?c) > addr)" by (simp add: holds_def)
    then show ?thesis using loop mm by (simp only: find_vma_def Let_def if_False if_True simp_thms) simp
  qed
  moreover have "vm_inv ?s mm vs"
    using assms vma_at_holds(1) [OF ok, of addr] by (simp add: vm_inv_def areas_ok_def)
  ultimately show ?thesis by (intro exI [of _ ?s]) simp
qed

subsection \<open>Insertion\<close>

lemma insert_vma_loop_spec:
  "chain (vlinks s) le (map VmaLink ws) (MmapList mm) \<Longrightarrow> insert_vma_loop s vma le le =
     Some (last (le # map VmaLink (takeWhile (\<lambda>w. vm_start (vmas s w) \<le> vm_start (vmas s vma)) ws)))"
proof (induction ws arbitrary: le)
  case Nil
  then show ?case by (subst insert_vma_loop.simps) (simp add: list_next_def)
next
  case (Cons w ws)
  then show ?case
    by (subst insert_vma_loop.simps) (auto simp: list_next_def Let_def not_le)
qed

text \<open>The neighbours of the new area in the list.\<close>

definition vma_before :: "vmm \<Rightarrow> nat \<Rightarrow> nat list \<Rightarrow> nat list" where
  "vma_before s vma vs = takeWhile (\<lambda>w. vm_start (vmas s w) \<le> vm_start (vmas s vma)) vs"

definition vma_after :: "vmm \<Rightarrow> nat \<Rightarrow> nat list \<Rightarrow> nat list" where
  "vma_after s vma vs = dropWhile (\<lambda>w. vm_start (vmas s w) \<le> vm_start (vmas s vma)) vs"

lemma before_after: "vs = vma_before s vma vs @ vma_after s vma vs"
  by (simp add: vma_before_def vma_after_def)

lemma insert_vma_unfold:
  assumes "dlist (vlinks s) (MmapList mm) (map VmaLink vs)"
  shows "insert_vma_struct s mm vma =
    do {
      assert_that (vm_start (vmas s vma) < vm_end (vmas s vma));
      (if vma_before s vma vs = [] then Some () else check_vma_overlap s (last (vma_before s vma vs)) vma);
      (if vma_after s vma vs = [] then Some () else check_vma_overlap s vma (hd (vma_after s vma vs)));
      Some (upd_mm mm (\<lambda>m. m\<lparr>map_count := map_count m + 1\<rparr>)
        (s\<lparr>vmas := (vmas s)(vma := (vmas s vma)\<lparr>vm_mm := mm\<rparr>),
           vlinks := list_add_after (vlinks s) (last (MmapList mm # map VmaLink (vma_before s vma vs))) (VmaLink vma)\<rparr>))
    }"
proof -
  let ?us = "vma_before s vma vs" and ?ws = "vma_after s vma vs"
  let ?p = "last (MmapList mm # map VmaLink ?us)"
  have "insert_vma_loop s vma (MmapList mm) (MmapList mm) = Some ?p"
    using insert_vma_loop_spec [of s "MmapList mm" vs mm vma] assms by (simp add: dlist_def vma_before_def)
  moreover have d: "dlist (vlinks s) (MmapList mm) (map VmaLink ?us @ map VmaLink ?ws)"
    using assms before_after [of vs s vma] by (metis map_append)
  have "list_next (vlinks s) ?p = hd (map VmaLink ?ws @ [MmapList mm])"
  proof (cases ?us rule: rev_cases)
    case Nil
    then show ?thesis using list_next_head [OF d] by simp
  next
    case (snoc us u)
    then show ?thesis using list_next_node [of "vlinks s" "MmapList mm" "map VmaLink us" "VmaLink u" "map VmaLink ?ws"] d
      by simp
  qed
  moreover have "(case ?p of MmapList x \<Rightarrow> Some () | VmaLink prev \<Rightarrow> check_vma_overlap s prev vma)
      = (if ?us = [] then Some () else check_vma_overlap s (last ?us) vma)"
    by (cases ?us rule: rev_cases) simp_all
  moreover have "(case hd (map VmaLink ?ws @ [MmapList mm]) of MmapList x \<Rightarrow> Some ()
        | VmaLink nxt \<Rightarrow> check_vma_overlap s vma nxt)
      = (if ?ws = [] then Some () else check_vma_overlap s vma (hd ?ws))"
    by (cases ?ws) simp_all
  ultimately show ?thesis
    by (simp add: insert_vma_struct_def Let_def)
qed

lemma areas_before:
  assumes "areas_ok s vs" "w \<in> set (vma_before s vma vs)"
  shows "vm_start (vmas s w) \<le> vm_start (vmas s vma)" "vm_end (vmas s w) \<le> vm_end (vmas s (last (vma_before s vma vs)))"
proof -
  show "vm_start (vmas s w) \<le> vm_start (vmas s vma)"
    using assms(2) by (auto simp: vma_before_def dest: set_takeWhileD)
  obtain us u where u: "vma_before s vma vs = us @ [u]" using assms(2) by (metis append_butlast_last_id empty_iff empty_set)
  have "sorted_wrt (\<lambda>v w. vm_end (vmas s v) \<le> vm_start (vmas s w)) (vma_before s vma vs)"
    using assms(1) before_after [of vs s vma] by (metis areas_ok_def sorted_wrt_append)
  moreover have "vm_start (vmas s u) < vm_end (vmas s u)"
    using assms(1) u before_after [of vs s vma] by (metis areas_ok_def in_set_conv_decomp append.assoc append_Cons append_Nil)
  ultimately show "vm_end (vmas s w) \<le> vm_end (vmas s (last (vma_before s vma vs)))"
    using assms(2) u by (auto simp: sorted_wrt_append intro: order_trans)
qed

lemma areas_after:
  assumes "areas_ok s vs" "w \<in> set (vma_after s vma vs)"
  shows "vm_start (vmas s vma) < vm_start (vmas s w)" "vm_start (vmas s (hd (vma_after s vma vs))) \<le> vm_start (vmas s w)"
proof -
  obtain u ws where u: "vma_after s vma vs = u # ws" using assms(2) by (cases "vma_after s vma vs") auto
  have "sorted_wrt (\<lambda>v w. vm_end (vmas s v) \<le> vm_start (vmas s w)) (u # ws)" "vm_start (vmas s u) < vm_end (vmas s u)"
    using assms(1) before_after [of vs s vma] unfolding u areas_ok_def by (metis sorted_wrt_append, metis in_set_conv_decomp)
  then have le: "vm_start (vmas s u) \<le> vm_start (vmas s w)" using assms(2) u by auto
  then show "vm_start (vmas s (hd (vma_after s vma vs))) \<le> vm_start (vmas s w)" using u by simp
  have "\<not> vm_start (vmas s u) \<le> vm_start (vmas s vma)" using u unfolding vma_after_def by (metis dropWhile_eq_Cons_conv)
  then show "vm_start (vmas s vma) < vm_start (vmas s w)" using le by simp
qed


lemma areas_split:
  assumes "areas_ok s vs"
  shows "areas_ok s (us @ v # ws) \<longleftrightarrow> v \<noteq> 0 \<and> vm_start (vmas s v) < vm_end (vmas s v) \<and> areas_ok s (us @ ws)
    \<and> (\<forall>u \<in> set us. vm_end (vmas s u) \<le> vm_start (vmas s v)) \<and> (\<forall>w \<in> set ws. vm_end (vmas s v) \<le> vm_start (vmas s w))"
  by (auto simp: areas_ok_def sorted_wrt_append)

definition apart :: "vmm \<Rightarrow> nat \<Rightarrow> nat \<Rightarrow> bool" where
  "apart s v w \<longleftrightarrow> vm_end (vmas s w) \<le> vm_start (vmas s v) \<or> vm_end (vmas s v) \<le> vm_start (vmas s w)"

lemma insert_vma_correct:
  assumes inv: "vm_inv s mm vs" and v: "v \<notin> set vs" "v \<noteq> 0" "vm_start (vmas s v) < vm_end (vmas s v)"
    and apart: "\<forall>w \<in> set vs. apart s v w"
  shows "\<exists>s'. insert_vma_struct s mm v = Some s' \<and> vm_inv s' mm (vma_before s v vs @ v # vma_after s v vs)
    \<and> vmas s' = (vmas s)(v := (vmas s v)\<lparr>vm_mm := mm\<rparr>) \<and> heap s' = heap s"
proof -
  let ?us = "vma_before s v vs" and ?ws = "vma_after s v vs"
  have ok: "areas_ok s vs" and d: "dlist (vlinks s) (MmapList mm) (map VmaLink vs)"
    using inv by (simp_all add: vm_inv_def)
  have sub: "set ?us \<subseteq> set vs" "set ?ws \<subseteq> set vs" using before_after [of vs s v] by (metis Un_upper1 set_append, metis Un_upper2 set_append)
  have pos: "vm_start (vmas s w) < vm_end (vmas s w)" if "w \<in> set vs" for w using ok that by (simp add: areas_ok_def)
  have us: "vm_end (vmas s u) \<le> vm_start (vmas s v)" if "u \<in> set ?us" for u
    using apart sub(1) that areas_before(1) [OF ok that] v(3) unfolding apart_def by (meson leD order_le_less_trans subsetD)
  have ws: "vm_end (vmas s v) \<le> vm_start (vmas s w)" if "w \<in> set ?ws" for w
  proof -
    have "\<not> vm_end (vmas s w) \<le> vm_start (vmas s v)"
      using areas_after(1) [OF ok that] pos [of w] sub(2) that by (meson leD order_less_trans subsetD)
    then show ?thesis using apart sub(2) that unfolding apart_def by blast
  qed
  let ?s = "upd_mm mm (\<lambda>m. m\<lparr>map_count := map_count m + 1\<rparr>)
        (s\<lparr>vmas := (vmas s)(v := (vmas s v)\<lparr>vm_mm := mm\<rparr>),
           vlinks := list_add_after (vlinks s) (last (MmapList mm # map VmaLink ?us)) (VmaLink v)\<rparr>)"
  have "check_vma_overlap s (last ?us) v = Some ()" if "?us \<noteq> []"
  proof -
    have "last ?us \<in> set vs" using that sub(1) by (meson last_in_set subsetD)
    then show ?thesis using us [of "last ?us"] pos [of "last ?us"] that v(3) by (simp add: check_vma_overlap_def)
  qed
  moreover have "check_vma_overlap s v (hd ?ws) = Some ()" if "?ws \<noteq> []"
  proof -
    have "hd ?ws \<in> set vs" using that sub(2) by (meson hd_in_set subsetD)
    then show ?thesis using ws [of "hd ?ws"] pos [of "hd ?ws"] that v(3) by (simp add: check_vma_overlap_def)
  qed
  ultimately have run: "insert_vma_struct s mm v = Some ?s"
    using v(3) by (simp add: insert_vma_unfold [OF d])
  have e: "vm_start (vmas ?s w) = vm_start (vmas s w)" "vm_end (vmas ?s w) = vm_end (vmas s w)" for w by simp_all
  have "areas_ok s (?us @ v # ?ws)" using areas_split [OF ok] us ws v(2,3) ok before_after [of vs s v] by metis
  then have "areas_ok ?s (?us @ v # ?ws)" unfolding areas_ok_def e .
  moreover have "dlist (vlinks ?s) (MmapList mm) (map VmaLink (?us @ v # ?ws))"
  proof -
    have "VmaLink v \<notin> set (MmapList mm # map VmaLink ?us @ map VmaLink ?ws)" using v(1) sub by auto
    moreover have "dlist (vlinks s) (MmapList mm) (map VmaLink ?us @ map VmaLink ?ws)"
      using d before_after [of vs s v] by (metis map_append)
    ultimately show ?thesis
      using dlist_add_at [of "vlinks s" "MmapList mm" "map VmaLink ?us" "map VmaLink ?ws" "VmaLink v"]
      by (simp add: list_add_def)
  qed
  moreover have "length (?us @ v # ?ws) = length vs + 1" "set (?us @ v # ?ws) = insert v (set vs)"
    using before_after [of vs s v] by (metis add_Suc_right length_append length_Cons Suc_eq_plus1,
      metis Un_insert_right list.simps(15) set_append)
  moreover have "mmap_cache (mms ?s mm) = mmap_cache (mms s mm)" "map_count (mms ?s mm) = map_count (mms s mm) + 1"
    by simp_all
  ultimately have "vm_inv ?s mm (?us @ v # ?ws)" using inv unfolding vm_inv_def by (metis insertCI of_nat_1 of_nat_add)
  then show ?thesis using run by (intro exI [of _ ?s]) simp
qed

lemma insert_vma_overlap:
  assumes inv: "vm_inv s mm vs" and w: "w \<in> set vs" "vm_start (vmas s v) < vm_start (vmas s w)" "vm_start (vmas s w) < vm_end (vmas s v)"
  shows "insert_vma_struct s mm v = None"
proof -
  let ?ws = "vma_after s v vs"
  have ok: "areas_ok s vs" and d: "dlist (vlinks s) (MmapList mm) (map VmaLink vs)"
    using inv by (simp_all add: vm_inv_def)
  have "w \<notin> set (vma_before s v vs)" using areas_before(1) [OF ok, of w v] w(2) by auto
  then have m: "w \<in> set ?ws" using w(1) before_after [of vs s v] by (metis Un_iff set_append)
  then have "vm_start (vmas s (hd ?ws)) < vm_end (vmas s v)"
    using areas_after(2) [OF ok m] w(3) by (meson order_le_less_trans)
  then have "check_vma_overlap s v (hd ?ws) = None" by (auto simp: check_vma_overlap_def bind_assert not_le)
  moreover have "?ws \<noteq> []" using m by auto
  ultimately show ?thesis by (simp add: insert_vma_unfold [OF d])
qed


subsection \<open>\<open>mm_map\<close>\<close>

lemma vm_inv_heap [simp]: "vm_inv (s\<lparr>heap := h\<rparr>) mm vs = vm_inv s mm vs"
  by (simp add: vm_inv_def areas_ok_def)

lemma vm_inv_fresh: "v \<notin> set vs \<Longrightarrow> vm_inv (s\<lparr>vmas := (vmas s)(v := x)\<rparr>) mm vs = vm_inv s mm vs"
proof -
  assume v: "v \<notin> set vs"
  have "sorted_wrt (\<lambda>u w. vm_end (if u = v then x else vmas s u) \<le> vm_start (if w = v then x else vmas s w)) vs
      = sorted_wrt (\<lambda>u w. vm_end (vmas s u) \<le> vm_start (vmas s w)) vs"
    using v by (induction vs) auto
  moreover have "(\<forall>w \<in> set vs. vm_start (if w = v then x else vmas s w) < vm_end (if w = v then x else vmas s w))
      = (\<forall>w \<in> set vs. vm_start (vmas s w) < vm_end (vmas s w))" using v by auto
  ultimately show ?thesis by (simp add: vm_inv_def areas_ok_def)
qed

lemma vma_create_correct:
  assumes "heap_objs A (heap s) P"
  shows "\<exists>v h. vma_create s a b f = Some (v, if v \<noteq> 0 then s\<lparr>heap := h,
       vmas := (vmas s)(v := (vmas s v)\<lparr>vm_start := a, vm_end := b, vm_flags := f\<rparr>)\<rparr> else s\<lparr>heap := h\<rparr>)
     \<and> (if v = 0 then heap_objs A h P else v \<notin> P \<and> heap_objs A h (insert v P))"
proof -
  obtain v h where "kmalloc (heap s) vma_struct_size = Some (v, h)"
    "if v = 0 then heap_objs A h P else v \<notin> P \<and> heap_objs A h (insert v P)"
    using slob.malloc_law [OF assms, of vma_struct_size] by (auto simp: vma_struct_size_def)
  then show ?thesis by (intro exI [of _ v] exI [of _ h]) (simp add: vma_create_def Let_def)
qed

text \<open>
  \<open>find_vma\<close> with its one-entry cache is equivalent to the linear search: it returns the area that
  holds the address, or \<open>NULL\<close> when none does, and changes nothing but the cache.
\<close>

lemma find_vma_correct:
  assumes "vm_inv s mm vs"
  shows "\<exists>s'. find_vma s mm addr = Some (vma_at s vs addr, s') \<and> vm_inv s' mm vs
    \<and> vmas s' = vmas s \<and> vlinks s' = vlinks s \<and> heap s' = heap s"
  using find_vma_spec [OF assms] .


text \<open>The parts of \<open>mm_map\<close> after the search, for a range whose start no area holds.\<close>

lemma mm_map_unfold:
  assumes "vm_inv s mm vs" "USER_ACCESS start fin"
    and "start = ROUNDDOWN addr PGSIZE" "fin = ROUNDUP (addr + len) PGSIZE"
  shows "\<exists>s1. vm_inv s1 mm vs \<and> vmas s1 = vmas s \<and> heap s1 = heap s \<and>
    mm_map s mm addr len flags =
      (if vma_at s vs start \<noteq> 0 then Some (Inl E_INVAL, s1)
       else do {
         (vma, s) \<leftarrow> vma_create s1 start fin flags;
         if vma = 0 then Some (Inl E_NO_MEM, s)
         else do {
           s \<leftarrow> insert_vma_struct s mm vma;
           Some (Inr vma, s)
         }
       })"
proof -
  obtain s1 where s1: "find_vma s mm start = Some (vma_at s vs start, s1)" "vm_inv s1 mm vs" "vmas s1 = vmas s"
    "vlinks s1 = vlinks s" "heap s1 = heap s" using find_vma_spec [OF assms(1)] by blast
  have "vm_start (vmas s (vma_at s vs start)) < fin" if "vma_at s vs start \<noteq> 0"
    using vma_at_holds(1) [of s vs start] that assms(1,2) by (auto simp: vm_inv_def holds_def USER_ACCESS_def)
  moreover have "mm \<noteq> 0" using assms(1) by (simp add: vm_inv_def)
  ultimately have "mm_map s mm addr len flags =
      (if vma_at s vs start \<noteq> 0 then Some (Inl E_INVAL, s1)
       else do {
         (vma, s) \<leftarrow> vma_create s1 start fin flags;
         if vma = 0 then Some (Inl E_NO_MEM, s)
         else do {
           s \<leftarrow> insert_vma_struct s mm vma;
           Some (Inr vma, s)
         }
       })"
    using assms(2) s1 unfolding assms(3,4) by (simp add: mm_map_def Let_def)
  then show ?thesis using s1 by blast
qed

lemma vma_before_cong:
  assumes "\<And>w. w \<in> set vs \<Longrightarrow> vm_start (vmas s' w) = vm_start (vmas s w)"
    "vm_start (vmas s' v) = vm_start (vmas s u)"
  shows "vma_before s' v vs = vma_before s u vs" "vma_after s' v vs = vma_after s u vs"
  using assms(1) by (induction vs) (auto simp: vma_before_def vma_after_def assms(2))



text \<open>
  \<open>mm_map\<close> looks only for an area that holds the first page of the range. When the range runs into
  an area that starts later, memory permitting, the call does not return \<open>-E_INVAL\<close>: it panics in
  \<open>check_vma_overlap\<close>.
\<close>

lemma mm_map_overlap_panics:
  assumes inv: "vm_inv s mm vs" and h: "heap_objs A (heap s) P" and P: "set vs \<subseteq> P"
    and r: "start = ROUNDDOWN addr PGSIZE" "fin = ROUNDUP (addr + len) PGSIZE" and acc: "USER_ACCESS start fin"
    and free: "\<forall>v \<in> set vs. \<not> holds s start v"
    and cover: "w \<in> set vs" "start < vm_start (vmas s w)" "vm_start (vmas s w) < fin"
    and mem: "kmalloc (heap s) vma_struct_size = Some (p, h')" "p \<noteq> 0"
  shows "mm_map s mm addr len flags = None"
proof -
  obtain s1 where s1: "vm_inv s1 mm vs" "vmas s1 = vmas s" "heap s1 = heap s"
    and run: "mm_map s mm addr len flags =
      (if vma_at s vs start \<noteq> 0 then Some (Inl E_INVAL, s1)
       else do {
         (vma, s) \<leftarrow> vma_create s1 start fin flags;
         if vma = 0 then Some (Inl E_NO_MEM, s)
         else do {
           s \<leftarrow> insert_vma_struct s mm vma;
           Some (Inr vma, s)
         }
       })" using mm_map_unfold [OF inv acc r, of flags] by blast
  have ok: "areas_ok s vs" using inv by (simp add: vm_inv_def)
  have none: "vma_at s vs start = 0" using vma_at_holds(1) [OF ok, of start] free by blast
  let ?s = "s1\<lparr>heap := h', vmas := (vmas s1)(p := (vmas s1 p)\<lparr>vm_start := start, vm_end := fin, vm_flags := flags\<rparr>)\<rparr>"
  have create: "vma_create s1 start fin flags = Some (p, ?s)"
    using mem s1(3) by (simp add: vma_create_def Let_def)
  have "p \<notin> set vs" using slob.malloc_law [OF h, of vma_struct_size] mem P by (auto simp: vma_struct_size_def)
  then have "vm_inv ?s mm vs" "w \<noteq> p"
    using vm_inv_fresh [of p vs "s1\<lparr>heap := h'\<rparr>"] s1(1) cover(1) by auto
  then have "insert_vma_struct ?s mm p = None"
    using insert_vma_overlap [of ?s mm vs w p] cover s1(2) by simp
  then show ?thesis using run none create mem(2) by simp
qed

subsection \<open>\<open>user_mem_check\<close>\<close>

text \<open>
  What one area permits to an access that begins at \<open>lo\<close>: its flags must fit, and the first page above the
  start of a stack area must not be where a write begins in it.
\<close>

definition permits :: "vmm \<Rightarrow> u64 \<Rightarrow> bool \<Rightarrow> nat \<Rightarrow> bool" where
  "permits s lo write v \<longleftrightarrow> vm_flags (vmas s v) AND (if write then VM_WRITE else VM_READ) \<noteq> 0
     \<and> \<not> (write \<and> vm_flags (vmas s v) AND VM_STACK \<noteq> 0 \<and> max lo (vm_start (vmas s v)) < vm_start (vmas s v) + PGSIZE)"

definition accessible :: "vmm \<Rightarrow> nat list \<Rightarrow> u64 \<Rightarrow> u64 \<Rightarrow> u64 \<Rightarrow> bool \<Rightarrow> bool" where
  "accessible s vs lo start fin write \<longleftrightarrow> (\<forall>a. start \<le> a \<and> a < fin \<longrightarrow> (\<exists>v \<in> set vs. holds s a v \<and> permits s lo write v))"

lemma accessible_cong: "vmas s' = vmas s \<Longrightarrow> accessible s' vs lo start fin write = accessible s vs lo start fin write"
  by (simp add: accessible_def permits_def holds_def)

lemma areas_ordered:
  assumes "areas_ok s vs" "u \<in> set vs" "v \<in> set vs" "u \<noteq> v"
  shows "vm_end (vmas s u) \<le> vm_start (vmas s v) \<or> vm_end (vmas s v) \<le> vm_start (vmas s u)"
  using assms by (induction vs) (auto simp: areas_ok_def)

lemma user_mem_loop_correct:
  assumes "vm_inv s mm vs" "lo \<le> start" "start = lo \<or> (\<exists>u \<in> set vs. vm_end (vmas s u) = start)"
  shows "\<exists>s'. user_mem_loop s mm start fin write = Some (accessible s vs lo start fin write, s')
    \<and> vm_inv s' mm vs \<and> vmas s' = vmas s \<and> vlinks s' = vlinks s \<and> heap s' = heap s"
  using assms
proof (induction "unat fin - unat start" arbitrary: s start rule: less_induct)
  case less
  have ok: "areas_ok s vs" using less.prems(1) by (simp add: vm_inv_def)
  let ?v = "vma_at s vs start"
  obtain s1 where s1: "find_vma s mm start = Some (?v, s1)" "vm_inv s1 mm vs" "vmas s1 = vmas s"
    "vlinks s1 = vlinks s" "heap s1 = heap s" using find_vma_spec [OF less.prems(1)] by blast
  show ?case
  proof (cases "start < fin")
    case False
    then have "accessible s vs lo start fin write" by (auto simp: accessible_def)
    then show ?thesis using less.prems(1) False by (subst user_mem_loop.simps) simp
  next
    case lt: True
    show ?thesis
    proof (cases "?v = 0")
      case True
      then have "\<not> accessible s vs lo start fin write"
        using vma_at_holds(2) [OF ok True] lt unfolding accessible_def by blast
      then show ?thesis using s1 lt True by (subst user_mem_loop.simps) simp
    next
      case False
      then have v: "?v \<in> set vs" "holds s start ?v" using vma_at_holds(1) [OF ok] by blast+
      have "vm_start (vmas s ?v) \<le> start" "start < vm_end (vmas s ?v)" using v(2) by (simp_all add: holds_def)
      have mx: "max lo (vm_start (vmas s ?v)) = start"
        using less.prems(3)
      proof
        assume "start = lo"
        then show ?thesis using \<open>vm_start (vmas s ?v) \<le> start\<close> by (simp add: max_def)
      next
        assume "\<exists>u \<in> set vs. vm_end (vmas s u) = start"
        then obtain u where u: "u \<in> set vs" "vm_end (vmas s u) = start" ..
        have "u \<noteq> ?v" using u(2) \<open>start < vm_end (vmas s ?v)\<close> by auto
        moreover have "vm_start (vmas s u) < vm_end (vmas s u)" using ok u(1) by (simp add: areas_ok_def)
        ultimately have "vm_start (vmas s ?v) = start"
          using areas_ordered [OF ok u(1) v(1)] u(2) \<open>vm_start (vmas s ?v) \<le> start\<close> \<open>start < vm_end (vmas s ?v)\<close> by auto
        then show ?thesis using less.prems(2) by (simp add: max_def)
      qed
      show ?thesis
      proof (cases "permits s lo write ?v")
        case False
        then have "\<not> accessible s vs lo start fin write"
          using areas_unique [OF ok _ v(1) _ v(2)] lt unfolding accessible_def by blast
        moreover have "user_mem_loop s mm start fin write = Some (False, s1)"
          using False s1(1,3) lt \<open>?v \<noteq> 0\<close> \<open>vm_start (vmas s ?v) \<le> start\<close> mx
          by (subst user_mem_loop.simps) (auto simp: permits_def Let_def)
        ultimately show ?thesis using s1 by simp
      next
        case True
        let ?e = "vm_end (vmas s ?v)"
        have "unat fin - unat ?e < unat fin - unat start"
          using lt \<open>start < ?e\<close> by (simp add: word_less_nat_alt)
        moreover have "lo \<le> ?e" using less.prems(2) \<open>start < ?e\<close> by simp
        moreover have "?e = lo \<or> (\<exists>u \<in> set vs. vm_end (vmas s1 u) = ?e)" using v(1) s1(3) by auto
        ultimately obtain s' where s': "user_mem_loop s1 mm ?e fin write = Some (accessible s1 vs lo ?e fin write, s')"
          "vm_inv s' mm vs" "vmas s' = vmas s1" "vlinks s' = vlinks s1" "heap s' = heap s1"
          using less.hyps [of ?e s1] s1(2) by blast
        have "holds s a ?v" if "start \<le> a" "a < ?e" for a
          using that \<open>vm_start (vmas s ?v) \<le> start\<close> by (simp add: holds_def)
        then have "accessible s vs lo start fin write = accessible s vs lo ?e fin write"
          using True v(1) \<open>start < ?e\<close> unfolding accessible_def by (meson leI order.trans order.strict_implies_order)
        moreover have "user_mem_loop s mm start fin write = user_mem_loop s1 mm ?e fin write"
          using True s1(1,3) lt \<open>?v \<noteq> 0\<close> \<open>vm_start (vmas s ?v) \<le> start\<close> mx
          by (subst user_mem_loop.simps) (auto simp: permits_def Let_def)
        ultimately show ?thesis using s' s1 accessible_cong [OF s1(3)] by simp
      qed
    qed
  qed
qed

lemma user_mem_check_spec:
  assumes "vm_inv s mm vs"
  shows "\<exists>s'. user_mem_check s mm addr len write =
      Some (USER_ACCESS addr (addr + len) \<and> accessible s vs addr addr (addr + len) write, s')
    \<and> vm_inv s' mm vs \<and> vmas s' = vmas s \<and> vlinks s' = vlinks s \<and> heap s' = heap s"
proof (cases "USER_ACCESS addr (addr + len)")
  case True
  then show ?thesis using user_mem_loop_correct [OF assms, of addr addr] assms by (auto simp: user_mem_check_def vm_inv_def)
next
  case False
  then show ?thesis using assms by (auto simp: user_mem_check_def vm_inv_def)
qed

text \<open>
  C29: \<open>user_mem_check\<close> on a user address space always returns, and it accepts exactly the ranges inside
  user space of which every byte lies in an area that permits the access.
\<close>

theorem user_mem_check_correct:
  assumes "vm_inv s mm vs"
  shows "\<exists>s'. user_mem_check s mm addr len write =
      Some (USER_ACCESS addr (addr + len) \<and> accessible s vs addr addr (addr + len) write, s')
    \<and> vm_inv s' mm vs \<and> vmas s' = vmas s \<and> vlinks s' = vlinks s \<and> heap s' = heap s"
  by (rule user_mem_check_spec [OF assms])


subsection \<open>A concrete state\<close>

text \<open>One frame of kernel heap with a free block of 100 units and one object, the area \<open>sample_vma\<close>.\<close>

definition sample_base :: nat where "sample_base = 256 * (nbase + 3)"
definition sample_vma :: nat where "sample_vma = sample_base + 101"

definition sample_heap :: slob where
  "sample_heap = \<lparr>units = (\<lambda>u. if u = 9 then 1 else if u = sample_base then 100 else 4),
     snext = (\<lambda>u. if u = 9 then sample_base else 9), slobfree = 9, bb_order = (\<lambda>_. 0), bb_pages = (\<lambda>_. 0),
     bb_next = (\<lambda>_. 0), bigblocks = 0, kmem = sample_kmem\<rparr>"

definition sample_vmm :: vmm where
  "sample_vmm = \<lparr>vmas = (\<lambda>_. \<lparr>vm_mm = 7, vm_start = 0x802000, vm_end = 0x805000, vm_flags = 3\<rparr>),
     mms = (\<lambda>_. \<lparr>mmap_cache = 0, mm_pgdir = 0, map_count = 1, mm_count = 1\<rparr>),
     vlinks = \<lparr>lprev = (\<lambda>n. if n = MmapList 7 then VmaLink sample_vma else MmapList 7),
               lnext = (\<lambda>n. if n = MmapList 7 then VmaLink sample_vma else MmapList 7)\<rparr>,
     heap = sample_heap\<rparr>"

lemma sample_heap_objs: "heap_objs 9 sample_heap {sample_vma}"
proof -
  have km: "km_ok sample_kmem" by (rule sample_km_ok)
  have f: "frame_ok sample_kmem (u div 256)" if "sample_base \<le> u" "u < sample_base + 104" for u
  proof -
    have "u div 256 = nbase + 3" using that unfolding sample_base_def by (intro div_nat_eqI) simp_all
    then show ?thesis using sample_ff_inv by (simp add: frame_ok_def sample_kmem_def)
  qed
  have "10 < sample_base" by (simp add: sample_base_def nbase_def)
  then have "ring sample_heap 9 [(sample_base, 100)]" by (simp add: ring_def sample_heap_def)
  moreover have "\<forall>u \<in> cover [(sample_base, 100)] \<union> \<Union> (span ` {(sample_base + 100, 4)}). frame_ok sample_kmem (u div 256)"
    using f by (auto simp: cover_def span_def)
  ultimately have "heap_ok sample_heap 9 [(sample_base, 100)] {(sample_base + 100, 4)}"
    using km by (auto simp: heap_ok_def span_def cover_def sample_heap_def sample_base_def nbase_def)
  then show ?thesis unfolding heap_objs_def slob_inv_def
    by (intro exI [of _ "{(sample_base + 100, 4)}"] conjI) (auto simp: sample_heap_def sample_vma_def)
qed

lemma sample_vm_inv: "vm_inv sample_vmm 7 [sample_vma]"
  by (simp add: vm_inv_def dlist_def areas_ok_def sample_vmm_def sample_vma_def)

lemma sample_kmalloc: "\<exists>h. kmalloc sample_heap vma_struct_size = Some (sample_base + 1, h)"
proof -
  have "SLOB_UNITS (64 :: nat) = 4" "sample_base \<noteq> 9"
    by (simp_all add: SLOB_UNITS_def SLOB_UNIT_def sample_base_def nbase_def)
  then have "slob_alloc sample_heap 64 = Some (sample_base, slob_take sample_heap 9 sample_base 4)"
    by (simp add: slob_alloc_def SLOB_UNIT_def SLOB_PAGE_SIZE_def)
      (subst slob_alloc_loop.simps, simp add: sample_heap_def)
  then show ?thesis by (simp add: kmalloc_def SLOB_UNIT_def SLOB_PAGE_SIZE_def vma_struct_size_def sample_base_def nbase_def)
qed

lemma sample_range:
  "ROUNDDOWN 0x900123 PGSIZE = 0x900000" "ROUNDUP (0x900123 + 0x1000) PGSIZE = 0x902000"
  "ROUNDDOWN 0x800000 PGSIZE = 0x800000" "ROUNDUP (0x800000 + 0x3000) PGSIZE = 0x803000"
  by (simp_all add: ROUNDUP_def ROUNDDOWN_def PGSIZE_def)


theorem user_mem_check_correct_witness: "\<exists>s'. user_mem_check sample_vmm 7 0x802010 0x100 True = Some (True, s')"
proof -
  have "permits sample_vmm 0x802010 True sample_vma"
    by (simp add: permits_def sample_vmm_def VM_WRITE_def VM_STACK_def)
  moreover have "holds sample_vmm a sample_vma" if "0x802010 \<le> a" "a < 0x802110" for a
    using order_trans [OF _ that(1), of "0x802000"] order_less_trans [OF that(2), of "0x805000"]
    by (simp add: holds_def sample_vmm_def)
  ultimately have "accessible sample_vmm [sample_vma] 0x802010 0x802010 (0x802010 + 0x100) True"
    by (simp add: accessible_def)
  moreover have "USER_ACCESS 0x802010 (0x802010 + 0x100)" by (simp add: USER_ACCESS_def USERBASE_def USERTOP_def)
  ultimately show ?thesis using user_mem_check_correct [OF sample_vm_inv, of "0x802010" "0x100" True] by auto
qed

end
