(* ===== verification/Proc.thy ===== *)
theory Proc
  imports Sync Vmm
begin

text \<open>
  Processes, \<open>kern/process/proc.c\<close>. A process is named by the address \<open>kmalloc\<close> returned for it. The state
  adds to the scheduler's and the memory manager's the list of all processes, the hash table by process
  identifier and the counters of \<open>get_pid\<close>. A call that sleeps is divided at \<open>schedule\<close>.
\<close>

unbundle bit_operations_syntax

datatype plnode = ProcHead | ProcLink nat
datatype hnode = HashHead nat | HashLink nat

record ksys =
  core :: sstate
  vm :: vmm
  plinks :: "plnode lheap"
  hlinks :: "hnode lheap"
  initproc :: nat
  nr_process :: int
  next_safe :: int
  last_pid :: int
  boot_pgdir :: nat

definition PROC_NAME_LEN :: nat where "PROC_NAME_LEN = 15"
definition KSTACKPAGE :: nat where "KSTACKPAGE = 2"
definition KSTACKSIZE :: u64 where "KSTACKSIZE = 2 * PGSIZE"

text \<open>The sizes of the structures in the LP64 layout.\<close>

definition proc_struct_size :: nat where "proc_struct_size = 336"
definition trapframe_size :: u64 where "trapframe_size = 288"

text \<open>Kernel virtual addresses: the frame \<open>f\<close> is mapped at \<open>frame_kva f\<close>.\<close>

definition va_pa_offset :: u64 where "va_pa_offset = 0xFFFFFFFF40000000"
definition frame_kva :: "nat \<Rightarrow> u64" where "frame_kva f = push_bit 12 (word_of_nat f) + va_pa_offset"
definition PADDR :: "u64 \<Rightarrow> u64 option" where
  "PADDR kva = (if kva < KERNBASE then None else Some (kva - va_pa_offset))"

definition pupd :: "nat \<Rightarrow> (proc_struct \<Rightarrow> proc_struct) \<Rightarrow> ksys \<Rightarrow> ksys" where
  "pupd p f s = s\<lparr>core := upd_proc p f (core s)\<rparr>"

definition proc_of :: "ksys \<Rightarrow> nat \<Rightarrow> proc_struct" where
  "proc_of s p = procs (core s) p"

definition cur :: "ksys \<Rightarrow> nat" where
  "cur s = current (core s)"

definition set_heap :: "slob \<Rightarrow> ksys \<Rightarrow> ksys" where
  "set_heap h s = s\<lparr>vm := (vm s)\<lparr>heap := h\<rparr>\<rparr>"

subsection \<open>Process structures\<close>

definition alloc_proc :: "ksys \<Rightarrow> (nat \<times> ksys) option" where
  "alloc_proc s =
     do {
       (p, h) \<leftarrow> kmalloc (heap (vm s)) proc_struct_size;
       let s = set_heap h s;
       Some (p, if p \<noteq> 0 then
           let s = pupd p (\<lambda>q. q\<lparr>p_state := PROC_UNINIT, p_pid := - 1, p_runs := 0, p_kstack := 0,
                 p_need_resched := False, p_parent := None, p_mm := None,
                 p_context := \<lparr>ctx_ra = 0, ctx_sp = 0, ctx_saved = (\<lambda>_. 0)\<rparr>, p_tf := None,
                 p_pgdir := push_bit 12 (word_of_nat (boot_pgdir s)), p_flags := 0,
                 p_name := replicate PROC_NAME_LEN 0 @ drop PROC_NAME_LEN (p_name q),
                 p_wait_state := 0, p_cptr := None, p_optr := None, p_yptr := None, p_rq := False,
                 p_time_slice := 0, p_stride := 0, p_priority := 0, p_filesp := None\<rparr>) s;
             c = core s
           in s\<lparr>core := c\<lparr>run_links := list_init (run_links c) (RunLink p),
             pool := \<lparr>sparent = (sparent (pool c))(p := None), sleft = (sleft (pool c))(p := None),
                      sright = (sright (pool c))(p := None)\<rparr>\<rparr>\<rparr>
         else s)
     }"

text \<open>The 15 bytes at \<open>name\<close> are copied whatever the length of the string.\<close>

definition set_proc_name :: "ksys \<Rightarrow> nat \<Rightarrow> u8 list \<Rightarrow> ksys" where
  "set_proc_name s p name = pupd p (\<lambda>q. q\<lparr>p_name := take PROC_NAME_LEN name @ [0]\<rparr>) s"

definition get_proc_name :: "ksys \<Rightarrow> nat \<Rightarrow> u8 list" where
  "get_proc_name s p = take PROC_NAME_LEN (p_name (proc_of s p)) @ [0]"

subsection \<open>Relations between processes\<close>

definition set_links :: "ksys \<Rightarrow> nat \<Rightarrow> ksys option" where
  "set_links s p =
     do {
       let s = s\<lparr>plinks := list_add (plinks s) ProcHead (ProcLink p)\<rparr>;
       let s = pupd p (\<lambda>q. q\<lparr>p_yptr := None\<rparr>) s;
       par \<leftarrow> p_parent (proc_of s p);
       let s = pupd p (\<lambda>q. q\<lparr>p_optr := p_cptr (proc_of s par)\<rparr>) s;
       let s = (case p_optr (proc_of s p) of Some o1 \<Rightarrow> pupd o1 (\<lambda>q. q\<lparr>p_yptr := Some p\<rparr>) s | None \<Rightarrow> s);
       let s = pupd par (\<lambda>q. q\<lparr>p_cptr := Some p\<rparr>) s;
       Some (s\<lparr>nr_process := nr_process s + 1\<rparr>)
     }"

definition remove_links :: "ksys \<Rightarrow> nat \<Rightarrow> ksys option" where
  "remove_links s p =
     do {
       let s = s\<lparr>plinks := list_del (plinks s) (ProcLink p)\<rparr>;
       let s = (case p_optr (proc_of s p) of
                  Some o1 \<Rightarrow> pupd o1 (\<lambda>q. q\<lparr>p_yptr := p_yptr (proc_of s p)\<rparr>) s | None \<Rightarrow> s);
       s \<leftarrow> (case p_yptr (proc_of s p) of
               Some y \<Rightarrow> Some (pupd y (\<lambda>q. q\<lparr>p_optr := p_optr (proc_of s p)\<rparr>) s)
             | None \<Rightarrow> do {
                 par \<leftarrow> p_parent (proc_of s p);
                 Some (pupd par (\<lambda>q. q\<lparr>p_cptr := p_optr (proc_of s p)\<rparr>) s)
               });
       Some (s\<lparr>nr_process := nr_process s - 1\<rparr>)
     }"

subsection \<open>Process identifiers\<close>

text \<open>The loop of \<open>get_pid\<close>; the jump to \<open>repeat\<close> is the call with the head of the list.\<close>

partial_function (option) get_pid_loop :: "ksys \<Rightarrow> plnode \<Rightarrow> ksys option" where
  "get_pid_loop s le =
     (let le = list_next (plinks s) le in
      case le of
        ProcHead \<Rightarrow> Some s
      | ProcLink p \<Rightarrow>
          let pid = p_pid (proc_of s p) in
          if pid = last_pid s then
            let s = s\<lparr>last_pid := last_pid s + 1\<rparr> in
            if last_pid s \<ge> next_safe s then
              let s = (if last_pid s \<ge> MAX_PID then s\<lparr>last_pid := 1\<rparr> else s) in
              get_pid_loop (s\<lparr>next_safe := MAX_PID\<rparr>) ProcHead
            else get_pid_loop s le
          else if pid > last_pid s \<and> next_safe s > pid then get_pid_loop (s\<lparr>next_safe := pid\<rparr>) le
          else get_pid_loop s le)"

definition get_pid :: "ksys \<Rightarrow> (int \<times> ksys) option" where
  "get_pid s =
     do {
       let s = s\<lparr>last_pid := last_pid s + 1\<rparr>;
       s \<leftarrow> (if last_pid s \<ge> MAX_PID then
               get_pid_loop (s\<lparr>last_pid := 1, next_safe := MAX_PID\<rparr>) ProcHead
             else if last_pid s \<ge> next_safe s then get_pid_loop (s\<lparr>next_safe := MAX_PID\<rparr>) ProcHead
             else Some s);
       Some (last_pid s, s)
     }"

definition HASH_SHIFT :: nat where "HASH_SHIFT = 10"

definition pid_hashfn :: "int \<Rightarrow> nat" where
  "pid_hashfn pid = unat (hash32 (word_of_int pid) HASH_SHIFT)"

definition hash_proc :: "ksys \<Rightarrow> nat \<Rightarrow> ksys" where
  "hash_proc s p = s\<lparr>hlinks := list_add (hlinks s) (HashHead (pid_hashfn (p_pid (proc_of s p)))) (HashLink p)\<rparr>"

definition unhash_proc :: "ksys \<Rightarrow> nat \<Rightarrow> ksys" where
  "unhash_proc s p = s\<lparr>hlinks := list_del (hlinks s) (HashLink p)\<rparr>"

partial_function (option) find_proc_loop :: "ksys \<Rightarrow> int \<Rightarrow> hnode \<Rightarrow> nat option option" where
  "find_proc_loop s pid le =
     (let le = list_next (hlinks s) le in
      case le of
        HashHead b \<Rightarrow> Some None
      | HashLink p \<Rightarrow> if p_pid (proc_of s p) = pid then Some (Some p) else find_proc_loop s pid le)"

definition find_proc :: "ksys \<Rightarrow> int \<Rightarrow> nat option option" where
  "find_proc s pid =
     (if 0 < pid \<and> pid < MAX_PID then find_proc_loop s pid (HashHead (pid_hashfn pid)) else Some None)"

subsection \<open>Memory of a process\<close>

definition set_kmem :: "kmem \<Rightarrow> ksys \<Rightarrow> ksys" where
  "set_kmem k s = s\<lparr>vm := with_kmem k (vm s)\<rparr>"

abbreviation km :: "ksys \<Rightarrow> kmem" where
  "km s \<equiv> kmem (heap (vm s))"

definition setup_kstack :: "ksys \<Rightarrow> nat \<Rightarrow> (err option \<times> ksys) option" where
  "setup_kstack s p =
     do {
       (page, a) \<leftarrow> alloc_pages init_pmm_manager (area (km s)) KSTACKPAGE;
       let s = set_kmem ((km s)\<lparr>area := a\<rparr>) s;
       case page of
         Some pg \<Rightarrow> do {
           f \<leftarrow> page2kva (km s) pg;
           Some (None, pupd p (\<lambda>q. q\<lparr>p_kstack := frame_kva f\<rparr>) s)
         }
       | None \<Rightarrow> Some (Some E_NO_MEM, s)
     }"

definition put_kstack :: "ksys \<Rightarrow> nat \<Rightarrow> ksys option" where
  "put_kstack s p =
     do {
       pa \<leftarrow> PADDR (p_kstack (proc_of s p));
       pg \<leftarrow> pa2page (km s) pa;
       a \<leftarrow> free_pages init_pmm_manager (area (km s)) pg KSTACKPAGE;
       Some (set_kmem ((km s)\<lparr>area := a\<rparr>) s)
     }"

definition setup_pgdir :: "ksys \<Rightarrow> nat \<Rightarrow> (err option \<times> ksys) option" where
  "setup_pgdir s mm =
     do {
       (page, k) \<leftarrow> alloc_page (km s);
       let s = set_kmem k s;
       case page of
         None \<Rightarrow> Some (Some E_NO_MEM, s)
       | Some pg \<Rightarrow> do {
           f \<leftarrow> page2kva (km s) pg;
           let s = set_kmem (copy_frame f (boot_pgdir s) (km s)) s;
           Some (None, s\<lparr>vm := upd_mm mm (\<lambda>m. m\<lparr>mm_pgdir := f\<rparr>) (vm s)\<rparr>)
         }
     }"

definition put_pgdir :: "ksys \<Rightarrow> nat \<Rightarrow> ksys option" where
  "put_pgdir s mm =
     do {
       pg \<leftarrow> pa2page (km s) (push_bit 12 (word_of_nat (mm_pgdir (mms (vm s) mm))));
       k \<leftarrow> free_page pg (km s);
       Some (set_kmem k s)
     }"

definition CLONE_VM :: u32 where "CLONE_VM = 0x00000100"
definition CLONE_FS :: u32 where "CLONE_FS = 0x00000800"

text \<open>\<open>good_mm\<close>: the process gets one more reference to \<open>mm\<close>.\<close>

definition use_mm :: "ksys \<Rightarrow> nat \<Rightarrow> nat \<Rightarrow> ksys" where
  "use_mm s p mm =
     (let s = s\<lparr>vm := upd_mm mm (\<lambda>m. m\<lparr>mm_count := mm_count m + 1\<rparr>) (vm s)\<rparr>
      in pupd p (\<lambda>q. q\<lparr>p_mm := Some mm, p_pgdir := push_bit 12 (word_of_nat (mm_pgdir (mms (vm s) mm)))\<rparr>) s)"

definition copy_mm :: "ksys \<Rightarrow> u32 \<Rightarrow> nat \<Rightarrow> (err option \<times> ksys) option" where
  "copy_mm s clone_flags p =
     (case p_mm (proc_of s (cur s)) of
        None \<Rightarrow> Some (None, s)
      | Some oldmm \<Rightarrow>
          if clone_flags AND CLONE_VM \<noteq> 0 then Some (None, use_mm s p oldmm)
          else do {
            (mm, v) \<leftarrow> mm_create (vm s);
            let s = s\<lparr>vm := v\<rparr>;
            if mm = 0 then Some (Some E_NO_MEM, s)
            else do {
              (r, s) \<leftarrow> setup_pgdir s mm;
              if r \<noteq> None then do { v \<leftarrow> mm_destroy (vm s) mm; Some (Some E_NO_MEM, s\<lparr>vm := v\<rparr>) }
              else do {
                (r, v) \<leftarrow> dup_mmap (vm s) mm oldmm;
                let s = s\<lparr>vm := v\<rparr>;
                if r \<noteq> None then do {
                  v \<leftarrow> exit_mmap (vm s) mm;
                  s \<leftarrow> put_pgdir (s\<lparr>vm := v\<rparr>) mm;
                  v \<leftarrow> mm_destroy (vm s) mm;
                  Some (r, s\<lparr>vm := v\<rparr>)
                }
                else Some (None, use_mm s p mm)
              }
            }
          })"

text \<open>
  \<open>copy_thread\<close>: the trap frame lies at the top of the kernel stack, \<open>forkret\<close> is the address of that
  function in the kernel image.
\<close>

definition copy_thread :: "u64 \<Rightarrow> ksys \<Rightarrow> nat \<Rightarrow> u64 \<Rightarrow> trapframe \<Rightarrow> ksys" where
  "copy_thread forkret s p esp tf =
     (let addr = p_kstack (proc_of s p) + KSTACKSIZE - trapframe_size;
          tf = tf\<lparr>gpr := (gpr tf)(10 := 0, 2 := (if esp = 0 then addr else esp))\<rparr>
      in pupd p (\<lambda>q. q\<lparr>p_tf := Some tf, p_context := (p_context q)\<lparr>ctx_ra := forkret, ctx_sp := addr\<rparr>\<rparr>) s)"

text \<open>The memory part of \<open>do_exit\<close>.\<close>

definition exit_mm :: "ksys \<Rightarrow> ksys option" where
  "exit_mm s =
     (case p_mm (proc_of s (cur s)) of
        None \<Rightarrow> Some s
      | Some mm \<Rightarrow>
          do {
            let s = s\<lparr>vm := upd_mm mm (\<lambda>m. m\<lparr>mm_count := mm_count m - 1\<rparr>) (vm s)\<rparr>;
            s \<leftarrow> (if mm_count (mms (vm s) mm) = 0 then do {
                    v \<leftarrow> exit_mmap (vm s) mm;
                    s \<leftarrow> put_pgdir (s\<lparr>vm := v\<rparr>) mm;
                    v \<leftarrow> mm_destroy (vm s) mm;
                    Some (s\<lparr>vm := v\<rparr>)
                  } else Some s);
            Some (pupd (cur s) (\<lambda>q. q\<lparr>p_mm := None\<rparr>) s)
          })"

subsection \<open>Exit, wait, kill, sleep\<close>

definition wake :: "sched_class \<Rightarrow> ksys \<Rightarrow> nat \<Rightarrow> ksys option" where
  "wake sc s p = do { c \<leftarrow> wakeup_proc sc (core s) p; Some (s\<lparr>core := c\<rparr>) }"

text \<open>One round of the loop that gives the children of the exiting process to \<open>initproc\<close>.\<close>

definition adopt_links :: "ksys \<Rightarrow> nat \<Rightarrow> ksys" where
  "adopt_links s p =
     (let s = pupd (cur s) (\<lambda>q. q\<lparr>p_cptr := p_optr (proc_of s p)\<rparr>) s;
          s = pupd p (\<lambda>q. q\<lparr>p_yptr := None\<rparr>) s;
          old = p_cptr (proc_of s (initproc s));
          s = pupd p (\<lambda>q. q\<lparr>p_optr := old\<rparr>) s;
          s = (case old of Some o1 \<Rightarrow> pupd o1 (\<lambda>q. q\<lparr>p_yptr := Some p\<rparr>) s | None \<Rightarrow> s);
          s = pupd p (\<lambda>q. q\<lparr>p_parent := Some (initproc s)\<rparr>) s
      in pupd (initproc s) (\<lambda>q. q\<lparr>p_cptr := Some p\<rparr>) s)"

definition adopt :: "sched_class \<Rightarrow> ksys \<Rightarrow> nat \<Rightarrow> ksys option" where
  "adopt sc s p =
     (let s = adopt_links s p
      in if p_state (proc_of s p) = PROC_ZOMBIE \<and> p_wait_state (proc_of s (initproc s)) = WT_CHILD
         then wake sc s (initproc s) else Some s)"

partial_function (option) adopt_loop :: "sched_class \<Rightarrow> ksys \<Rightarrow> ksys option" where
  "adopt_loop sc s =
     (case p_cptr (proc_of s (cur s)) of
        None \<Rightarrow> Some s
      | Some p \<Rightarrow> do { s \<leftarrow> adopt sc s p; adopt_loop sc s })"

text \<open>\<open>do_exit\<close> from the change of the state to the call of \<open>schedule\<close>.\<close>

definition exit_notify :: "sched_class \<Rightarrow> ksys \<Rightarrow> int \<Rightarrow> ksys option" where
  "exit_notify sc s error_code =
     do {
       let s = pupd (cur s) (\<lambda>q. q\<lparr>p_state := PROC_ZOMBIE, p_exit_code := error_code\<rparr>) s;
       par \<leftarrow> p_parent (proc_of s (cur s));
       s \<leftarrow> (if p_wait_state (proc_of s par) = WT_CHILD then wake sc s par else Some s);
       adopt_loop sc s
     }"

definition do_yield :: "ksys \<Rightarrow> ksys" where
  "do_yield s = pupd (cur s) (\<lambda>q. q\<lparr>p_need_resched := True\<rparr>) s"

text \<open>
  \<open>do_wait\<close>: what the search for a zombie child finds. \<open>NoChild\<close> ends the call with \<open>-E_BAD_PROC\<close>,
  \<open>Zombie\<close> goes on with \<open>reap\<close>, and \<open>Waits\<close> puts the caller to sleep until the search is repeated.
\<close>

datatype wait_search = NoChild | Waits | Zombie nat

partial_function (option) wait_children :: "ksys \<Rightarrow> nat option \<Rightarrow> bool \<Rightarrow> wait_search option" where
  "wait_children s p haskid =
     (case p of
        None \<Rightarrow> Some (if haskid then Waits else NoChild)
      | Some q \<Rightarrow> if p_state (proc_of s q) = PROC_ZOMBIE then Some (Zombie q)
                  else wait_children s (p_optr (proc_of s q)) True)"

definition wait_scan :: "ksys \<Rightarrow> int \<Rightarrow> wait_search option" where
  "wait_scan s pid =
     (if pid \<noteq> 0 then do {
        p \<leftarrow> find_proc s pid;
        Some (case p of
                Some q \<Rightarrow> if p_parent (proc_of s q) = Some (cur s)
                          then if p_state (proc_of s q) = PROC_ZOMBIE then Zombie q else Waits
                          else NoChild
              | None \<Rightarrow> NoChild)
      }
      else wait_children s (p_cptr (proc_of s (cur s))) False)"

definition reap :: "ksys \<Rightarrow> nat \<Rightarrow> ksys option" where
  "reap s p =
     do {
       assert_that (p \<noteq> idleproc (core s) \<and> p \<noteq> initproc s);
       s \<leftarrow> remove_links (unhash_proc s p) p;
       s \<leftarrow> put_kstack s p;
       h \<leftarrow> kfree (heap (vm s)) p;
       Some (set_heap h s)
     }"

text \<open>
  The result of one round: the return value and, when \<open>code_store\<close> is not \<open>NULL\<close>, the exit code stored
  there; or nothing, when the caller now sleeps. A caller that wakes up runs \<open>wait_resume\<close>: it exits with
  \<open>-E_KILLED\<close> when it has been killed and runs a round again otherwise.
\<close>

definition wait_round :: "sched_class \<Rightarrow> ksys \<Rightarrow> int \<Rightarrow> u64 \<Rightarrow> ((err option \<times> int option) option \<times> ksys) option" where
  "wait_round sc s pid code_store =
     do {
       r \<leftarrow> wait_scan s pid;
       case r of
         NoChild \<Rightarrow> Some (Some (Some E_BAD_PROC, None), s)
       | Zombie p \<Rightarrow> do {
           let code = p_exit_code (proc_of s p);
           s \<leftarrow> reap s p;
           Some (Some (None, if code_store \<noteq> 0 then Some code else None), s)
         }
       | Waits \<Rightarrow> do {
           let s = pupd (cur s) (\<lambda>q. q\<lparr>p_state := PROC_SLEEPING, p_wait_state := WT_CHILD\<rparr>) s;
           c \<leftarrow> schedule sc (core s);
           Some (None, s\<lparr>core := c\<rparr>)
         }
     }"

definition wait_resume ::
  "sched_class \<Rightarrow> ksys \<Rightarrow> int \<Rightarrow> u64 \<Rightarrow> err + ((err option \<times> int option) option \<times> ksys) option" where
  "wait_resume sc s pid code_store =
     (if p_flags (proc_of s (cur s)) AND PF_EXITING \<noteq> 0 then Inl E_KILLED else Inr (wait_round sc s pid code_store))"

definition do_wait :: "sched_class \<Rightarrow> ksys \<Rightarrow> int \<Rightarrow> u64 \<Rightarrow> ((err option \<times> int option) option \<times> ksys) option" where
  "do_wait sc s pid code_store =
     do {
       (ok, v) \<leftarrow> (if code_store \<noteq> 0
          then user_mem_check (vm s) (case p_mm (proc_of s (cur s)) of Some mm \<Rightarrow> mm | None \<Rightarrow> 0) code_store 4 True
          else Some (True, vm s));
       let s = s\<lparr>vm := v\<rparr>;
       if \<not> ok then Some (Some (Some E_INVAL, None), s) else wait_round sc s pid code_store
     }"

definition do_kill :: "sched_class \<Rightarrow> ksys \<Rightarrow> int \<Rightarrow> (err option \<times> ksys) option" where
  "do_kill sc s pid =
     do {
       p \<leftarrow> find_proc s pid;
       case p of
         None \<Rightarrow> Some (Some E_INVAL, s)
       | Some p \<Rightarrow>
           if p_flags (proc_of s p) AND PF_EXITING = 0 then do {
             let s = pupd p (\<lambda>q. q\<lparr>p_flags := p_flags q OR PF_EXITING\<rparr>) s;
             s \<leftarrow> (if p_wait_state (proc_of s p) AND WT_INTERRUPTED \<noteq> 0 then wake sc s p else Some s);
             Some (None, s)
           }
           else Some (Some E_KILLED, s)
     }"

definition lab6_set_priority :: "ksys \<Rightarrow> u32 \<Rightarrow> ksys" where
  "lab6_set_priority s priority = pupd (cur s) (\<lambda>q. q\<lparr>p_priority := (if priority = 0 then 1 else priority)\<rparr>) s"

text \<open>\<open>t\<close> is the timer on the caller's stack.\<close>

definition timer_init :: "sstate \<Rightarrow> nat \<Rightarrow> nat \<Rightarrow> u32 \<Rightarrow> sstate" where
  "timer_init s t p time =
     (let s = upd_timer t (\<lambda>x. x\<lparr>expires := time, t_proc := p\<rparr>) s
      in s\<lparr>timer_links := list_init (timer_links s) (TimerLink t)\<rparr>)"

definition sleep_begin :: "sched_class \<Rightarrow> ksys \<Rightarrow> nat \<Rightarrow> u32 \<Rightarrow> ksys option" where
  "sleep_begin sc s t time =
     (if time = 0 then Some s
      else do {
        let c = timer_init (core s) t (cur s) time;
        let c = upd_proc (cur s) (\<lambda>q. q\<lparr>p_state := PROC_SLEEPING, p_wait_state := WT_TIMER\<rparr>) c;
        c \<leftarrow> add_timer c t;
        c \<leftarrow> schedule sc c;
        Some (s\<lparr>core := c\<rparr>)
      })"

definition sleep_end :: "ksys \<Rightarrow> nat \<Rightarrow> u32 \<Rightarrow> ksys" where
  "sleep_end s t time = (if time = 0 then s else s\<lparr>core := del_timer (core s) t\<rparr>)"

subsection \<open>\<open>get_pid\<close>\<close>

definition pids :: "ksys \<Rightarrow> nat list \<Rightarrow> int set" where
  "pids s ps = (\<lambda>p. p_pid (proc_of s p)) ` set ps"

text \<open>
  The identifiers between \<open>last_pid\<close> and \<open>next_safe\<close> are free; \<open>ps\<close> is the list of all processes but
  \<open>idleproc\<close>.
\<close>

definition pid_inv :: "ksys \<Rightarrow> nat list \<Rightarrow> bool" where
  "pid_inv s ps \<longleftrightarrow> dlist (plinks s) ProcHead (map ProcLink ps) \<and> pids s ps \<subseteq> {1..<MAX_PID}
     \<and> 1 \<le> last_pid s \<and> last_pid s \<le> MAX_PID \<and> next_safe s \<le> MAX_PID
     \<and> pids s ps \<inter> {last_pid s <..< next_safe s} = {}"

lemma pids_upd [simp]:
  "pids (s\<lparr>last_pid := a\<rparr>) ps = pids s ps" "pids (s\<lparr>next_safe := b\<rparr>) ps = pids s ps"
  by (simp_all add: pids_def proc_of_def)

lemma free_pid:
  assumes "length ps \<le> nat MAX_PROCESS"
  shows "\<exists>u. 1 \<le> u \<and> u < MAX_PID \<and> u \<notin> pids s ps"
proof (rule ccontr)
  assume "\<not> ?thesis"
  then have "{1..<MAX_PID} \<subseteq> pids s ps" by auto
  then have "card {1..<MAX_PID} \<le> card (pids s ps)" by (intro card_mono) (simp_all add: pids_def)
  also have "\<dots> \<le> length ps" unfolding pids_def by (meson card_image_le card_length finite_set le_trans)
  finally show False using assms by (simp add: MAX_PID_def MAX_PROCESS_def)
qed

text \<open>How far the free identifier \<open>u\<close> is ahead of \<open>last_pid\<close>, around the corner at \<open>MAX_PID\<close>.\<close>

definition ahead :: "int \<Rightarrow> int \<Rightarrow> nat" where
  "ahead u l = nat (if l \<le> u then u - l else u - l + MAX_PID)"

lemma ahead_step:
  assumes "1 \<le> u" "u < MAX_PID" "l \<noteq> u" "l < MAX_PID"
  shows "ahead u (l + 1) < ahead u l" "l + 1 = MAX_PID \<Longrightarrow> ahead u 1 < ahead u l"
  using assms by (auto simp: ahead_def)

lemma get_pid_loop_correct:
  assumes "dlist (plinks s) ProcHead (map ProcLink (vs @ ws))" "le = last (ProcHead # map ProcLink vs)"
    and "1 \<le> last_pid s" "last_pid s < next_safe s" "next_safe s \<le> MAX_PID"
    and "pids s vs \<inter> {last_pid s ..< next_safe s} = {}"
    and "1 \<le> u" "u < MAX_PID" "u \<notin> pids s (vs @ ws)" "ps = vs @ ws"
  shows "\<exists>l n. get_pid_loop s le = Some (s\<lparr>last_pid := l, next_safe := n\<rparr>)
    \<and> 1 \<le> l \<and> l < n \<and> n \<le> MAX_PID \<and> pids s ps \<inter> {l ..< n} = {}"
  using assms
proof (induction "ahead u (last_pid s) * (length ps + 1) + length ws" arbitrary: s vs ws le rule: less_induct)
  case less
  have nx: "list_next (plinks s) le = hd (map ProcLink ws @ [ProcHead])"
  proof (cases vs rule: rev_cases)
    case Nil
    then show ?thesis using list_next_head [OF less.prems(1)] less.prems(2) by simp
  next
    case (snoc us v)
    then show ?thesis using list_next_node [of "plinks s" ProcHead "map ProcLink us" "ProcLink v" "map ProcLink ws"]
      less.prems(1,2) by simp
  qed
  show ?case
  proof (cases ws)
    case Nil
    have "get_pid_loop s le = Some s" using nx Nil by (subst get_pid_loop.simps) simp
    then show ?thesis using less.prems Nil
      by (intro exI [of _ "last_pid s"] exI [of _ "next_safe s"]) simp
  next
    case (Cons p qs)
    let ?pid = "p_pid (proc_of s p)"
    have le': "list_next (plinks s) le = ProcLink p" using nx Cons by simp
    have rec: "\<exists>l n. get_pid_loop t (ProcLink p) = Some (t\<lparr>last_pid := l, next_safe := n\<rparr>)
        \<and> 1 \<le> l \<and> l < n \<and> n \<le> MAX_PID \<and> pids t ps \<inter> {l ..< n} = {}"
      if t: "plinks t = plinks s" "\<And>xs. pids t xs = pids s xs" "ahead u (last_pid t) \<le> ahead u (last_pid s)"
        "1 \<le> last_pid t" "last_pid t < next_safe t" "next_safe t \<le> MAX_PID"
        "pids s (vs @ [p]) \<inter> {last_pid t ..< next_safe t} = {}" for t
    proof (rule less.hyps [of t qs "vs @ [p]"])
      show "ahead u (last_pid t) * (length ps + 1) + length qs < ahead u (last_pid s) * (length ps + 1) + length ws"
        using mult_le_mono1 [OF t(3), of "length ps + 1"] Cons by simp
      show "dlist (plinks t) ProcHead (map ProcLink ((vs @ [p]) @ qs))" using less.prems(1) Cons t(1) by simp
      show "u \<notin> pids t ((vs @ [p]) @ qs)" using less.prems(9) Cons t(2) by simp
    qed (use less.prems Cons t in simp_all)
    have u: "?pid \<noteq> u" using less.prems(9) Cons by (auto simp: pids_def)
    consider (hit) "?pid = last_pid s" | (low) "?pid > last_pid s" "next_safe s > ?pid"
      | (skip) "?pid \<noteq> last_pid s" "\<not> (?pid > last_pid s \<and> next_safe s > ?pid)" by blast
    then show ?thesis
    proof cases
      case skip
      have "pids s (vs @ [p]) \<inter> {last_pid s ..< next_safe s} = {}"
        using less.prems(6) skip by (auto simp: pids_def)
      from rec [OF _ _ _ _ _ _ this] less.prems(3,4,5)
      obtain l n where "get_pid_loop s (ProcLink p) = Some (s\<lparr>last_pid := l, next_safe := n\<rparr>)"
        "1 \<le> l" "l < n" "n \<le> MAX_PID" "pids s ps \<inter> {l ..< n} = {}" by blast
      then show ?thesis using skip le' by (subst get_pid_loop.simps) (auto simp: Let_def)
    next
      case low
      let ?s = "s\<lparr>next_safe := ?pid\<rparr>"
      have "pids s (vs @ [p]) \<inter> {last_pid ?s ..< next_safe ?s} = {}"
        using less.prems(6) low by (auto simp: pids_def)
      from rec [OF _ _ _ _ _ _ this] less.prems(3,4,5) low
      obtain l n where "get_pid_loop ?s (ProcLink p) = Some (?s\<lparr>last_pid := l, next_safe := n\<rparr>)"
        "1 \<le> l" "l < n" "n \<le> MAX_PID" "pids ?s ps \<inter> {l ..< n} = {}" by auto
      then show ?thesis using low le' by (subst get_pid_loop.simps) (auto simp: Let_def)
    next
      case hit
      let ?s = "s\<lparr>last_pid := last_pid s + 1\<rparr>"
      have lu: "last_pid s \<noteq> u" "last_pid s < MAX_PID" using u hit less.prems(4,5) by auto
      note st = ahead_step [OF less.prems(7,8) lu]
      show ?thesis
      proof (cases "last_pid s + 1 \<ge> next_safe s")
        case False
        have "pids s (vs @ [p]) \<inter> {last_pid ?s ..< next_safe ?s} = {}"
          using less.prems(6) hit by (auto simp: pids_def)
        from rec [OF _ _ _ _ _ _ this] less.prems(3,4,5) st(1) False
        obtain l n where "get_pid_loop ?s (ProcLink p) = Some (?s\<lparr>last_pid := l, next_safe := n\<rparr>)"
          "1 \<le> l" "l < n" "n \<le> MAX_PID" "pids ?s ps \<inter> {l ..< n} = {}" by auto
        then show ?thesis using hit False le' by (subst get_pid_loop.simps) (auto simp: Let_def)
      next
        case True
        let ?l = "if last_pid s + 1 \<ge> MAX_PID then 1 else last_pid s + 1"
        let ?t = "s\<lparr>last_pid := ?l, next_safe := MAX_PID\<rparr>"
        have "ahead u ?l < ahead u (last_pid s)" using st lu(2) by auto
        then have "Suc (ahead u ?l) * (length ps + 1) \<le> ahead u (last_pid s) * (length ps + 1)"
          by (intro mult_le_mono1) simp
        then have m: "ahead u (last_pid ?t) * (length ps + 1) + length ps < ahead u (last_pid s) * (length ps + 1) + length ws"
          using Cons by simp
        have l: "1 \<le> ?l" "?l < MAX_PID" using less.prems(3) lu(2) by (auto simp: MAX_PID_def)
        obtain l n where "get_pid_loop ?t ProcHead = Some (s\<lparr>last_pid := l, next_safe := n\<rparr>)"
          "1 \<le> l" "l < n" "n \<le> MAX_PID" "pids s ps \<inter> {l ..< n} = {}"
        proof -
          have "\<exists>l n. get_pid_loop ?t ProcHead = Some (?t\<lparr>last_pid := l, next_safe := n\<rparr>)
            \<and> 1 \<le> l \<and> l < n \<and> n \<le> MAX_PID \<and> pids ?t ps \<inter> {l ..< n} = {}"
          proof (rule less.hyps [of ?t ps "[]", OF m])
            show "dlist (plinks ?t) ProcHead (map ProcLink ([] @ ps))" using less.prems(1,10) by simp
            show "pids ?t [] \<inter> {last_pid ?t ..< next_safe ?t} = {}" by (simp add: pids_def)
            show "u \<notin> pids ?t ([] @ ps)" using less.prems(9,10) by simp
          qed (use l less.prems(7,8) in simp_all)
          then show ?thesis using that by auto
        qed
        moreover have "get_pid_loop s le = get_pid_loop ?t ProcHead"
          using hit True le' by (subst get_pid_loop.simps) (simp add: Let_def)
        ultimately show ?thesis by (intro exI [of _ l] exI [of _ n]) simp
      qed
    qed
  qed
qed


text \<open>
  C33: As long as there are at most \<open>MAX_PROCESS\<close> processes, \<open>get_pid\<close> returns: its search ends although
  it restarts and wraps around at \<open>MAX_PID\<close>. The result is a legal identifier that no process has, and the
  range of identifiers remembered as free is free again, also once the new process has this identifier.
\<close>

theorem get_pid_correct:
  assumes "pid_inv s ps" "length ps \<le> nat MAX_PROCESS"
  shows "\<exists>pid s'. get_pid s = Some (pid, s') \<and> 1 \<le> pid \<and> pid < MAX_PID \<and> pid \<notin> pids s ps
    \<and> pid_inv s' ps \<and> last_pid s' = pid \<and> core s' = core s"
proof -
  obtain u where u: "1 \<le> u" "u < MAX_PID" "u \<notin> pids s ps" using free_pid [OF assms(2)] by blast
  have inv: "dlist (plinks s) ProcHead (map ProcLink ps)" "pids s ps \<subseteq> {1..<MAX_PID}" "1 \<le> last_pid s"
    "last_pid s \<le> MAX_PID" "next_safe s \<le> MAX_PID" "pids s ps \<inter> {last_pid s <..< next_safe s} = {}"
    using assms(1) by (simp_all add: pid_inv_def)
  have search: "\<exists>l n. get_pid_loop (s\<lparr>last_pid := k, next_safe := MAX_PID\<rparr>) ProcHead = Some (s\<lparr>last_pid := l, next_safe := n\<rparr>)
      \<and> 1 \<le> l \<and> l < n \<and> n \<le> MAX_PID \<and> pids s ps \<inter> {l ..< n} = {}"
    if k: "1 \<le> k" "k < MAX_PID" for k
  proof -
    let ?t = "s\<lparr>last_pid := k, next_safe := MAX_PID\<rparr>"
    have "\<exists>l n. get_pid_loop ?t ProcHead = Some (?t\<lparr>last_pid := l, next_safe := n\<rparr>)
        \<and> 1 \<le> l \<and> l < n \<and> n \<le> MAX_PID \<and> pids ?t ps \<inter> {l ..< n} = {}"
      by (rule get_pid_loop_correct [where vs = "[]" and ws = ps and u = u]) (use k inv u in \<open>simp_all, simp add: pids_def\<close>)
    then show ?thesis by simp
  qed
  have fin: ?thesis if "get_pid s = Some (l, s\<lparr>last_pid := l, next_safe := n\<rparr>)" "1 \<le> l" "l < n" "n \<le> MAX_PID"
    "pids s ps \<inter> {l ..< n} = {}" for l n
  proof -
    have "pids s ps \<inter> {l <..< n} = {}" "l \<notin> pids s ps" using that(3,5) by auto
    then show ?thesis using that inv by (intro exI [of _ l] exI [of _ "s\<lparr>last_pid := l, next_safe := n\<rparr>"]) (simp add: pid_inv_def)
  qed
  consider "last_pid s + 1 \<ge> MAX_PID" | "last_pid s + 1 < MAX_PID" "last_pid s + 1 \<ge> next_safe s"
    | "last_pid s + 1 < next_safe s" "last_pid s + 1 < MAX_PID" by linarith
  then show ?thesis
  proof cases
    case 1
    have "(1 :: int) \<le> 1" "1 < MAX_PID" by (simp_all add: MAX_PID_def)
    from search [OF this] obtain l n
      where l: "get_pid_loop (s\<lparr>last_pid := 1, next_safe := MAX_PID\<rparr>) ProcHead = Some (s\<lparr>last_pid := l, next_safe := n\<rparr>)"
        "1 \<le> l" "l < n" "n \<le> MAX_PID" "pids s ps \<inter> {l ..< n} = {}" by blast
    then have "get_pid s = Some (l, s\<lparr>last_pid := l, next_safe := n\<rparr>)" using 1 by (simp add: get_pid_def Let_def)
    then show ?thesis using fin l by blast
  next
    case 2
    have "1 \<le> last_pid s + 1" using inv(3) by simp
    from search [OF this 2(1)] obtain l n
      where l: "get_pid_loop (s\<lparr>last_pid := last_pid s + 1, next_safe := MAX_PID\<rparr>) ProcHead = Some (s\<lparr>last_pid := l, next_safe := n\<rparr>)"
        "1 \<le> l" "l < n" "n \<le> MAX_PID" "pids s ps \<inter> {l ..< n} = {}" by blast
    then have "get_pid s = Some (l, s\<lparr>last_pid := l, next_safe := n\<rparr>)" using 2 by (simp add: get_pid_def Let_def)
    then show ?thesis using fin l by blast
  next
    case 3
    have g: "get_pid s = Some (last_pid s + 1, s\<lparr>last_pid := last_pid s + 1, next_safe := next_safe s\<rparr>)"
      using 3 by (simp add: get_pid_def Let_def)
    have "pids s ps \<inter> {last_pid s + 1 ..< next_safe s} = {}" using inv(6) by auto
    from fin [OF g _ 3(1) inv(5) this] show ?thesis using inv(3) by simp
  qed
qed

subsection \<open>The hash table\<close>

text \<open>Every process of \<open>ps\<close> is in the bucket of its identifier, and nothing else is.\<close>

definition hash_ok :: "ksys \<Rightarrow> nat set \<Rightarrow> bool" where
  "hash_ok s P \<longleftrightarrow> (\<forall>b. \<exists>qs. dlist (hlinks s) (HashHead b) (map HashLink qs)
     \<and> set qs = {p \<in> P. pid_hashfn (p_pid (proc_of s p)) = b})
     \<and> inj_on (\<lambda>p. p_pid (proc_of s p)) P"

lemma find_proc_loop_spec:
  "chain (hlinks s) le (map HashLink qs) (HashHead b) \<Longrightarrow>
    find_proc_loop s pid le = Some (find (\<lambda>p. p_pid (proc_of s p) = pid) qs)"
proof (induction qs arbitrary: le)
  case Nil
  then show ?case by (subst find_proc_loop.simps) (simp add: list_next_def)
next
  case (Cons q qs)
  then show ?case by (subst find_proc_loop.simps) (auto simp: list_next_def Let_def)
qed

lemma find_proc_spec:
  assumes "hash_ok s P"
  shows "find_proc s pid = Some None \<and> (\<forall>p \<in> P. \<not> (0 < pid \<and> pid < MAX_PID \<and> p_pid (proc_of s p) = pid))
    \<or> (\<exists>p \<in> P. find_proc s pid = Some (Some p) \<and> p_pid (proc_of s p) = pid \<and> 0 < pid \<and> pid < MAX_PID)"
proof (cases "0 < pid \<and> pid < MAX_PID")
  case False
  then show ?thesis by (auto simp: find_proc_def)
next
  case True
  let ?b = "pid_hashfn pid" and ?P = "\<lambda>p. p_pid (proc_of s p) = pid"
  obtain qs where qs: "dlist (hlinks s) (HashHead ?b) (map HashLink qs)"
    "set qs = {p \<in> P. pid_hashfn (p_pid (proc_of s p)) = ?b}" using assms by (auto simp: hash_ok_def)
  have f: "find_proc s pid = Some (find ?P qs)"
    using find_proc_loop_spec [of s "HashHead ?b" qs ?b pid] qs(1) True by (simp add: find_proc_def dlist_def)
  show ?thesis
  proof (cases "find ?P qs")
    case None
    then have "p \<notin> P" if "?P p" for p using qs(2) that by (auto simp: find_None_iff)
    then show ?thesis using f None by auto
  next
    case (Some p)
    then have "?P p" "p \<in> P" using qs(2) by (auto simp: find_Some_iff)
    then show ?thesis using f Some True by auto
  qed
qed

lemma hash_other_buckets:
  assumes "dlist (hlinks s) (HashHead a) (map HashLink xs)" "set xs = {p \<in> P. pid_hashfn (p_pid (proc_of s p)) = a}"
    and "dlist (hlinks s) (HashHead b) (map HashLink ys)" "set ys = {p \<in> P. pid_hashfn (p_pid (proc_of s p)) = b}" "a \<noteq> b"
  shows "set (HashHead a # map HashLink xs) \<inter> set (HashHead b # map HashLink ys) = {}"
  using assms(2,4,5) by auto

lemma hash_proc_keeps:
  assumes ok: "hash_ok s P" and p: "p \<notin> P" "\<forall>q \<in> P. p_pid (proc_of s q) \<noteq> p_pid (proc_of s p)"
  shows "hash_ok (hash_proc s p) (insert p P)"
proof -
  let ?a = "pid_hashfn (p_pid (proc_of s p))" and ?s = "hash_proc s p"
  have pr: "proc_of ?s = proc_of s" by (simp add: hash_proc_def proc_of_def fun_eq_iff)
  obtain xs where xs: "dlist (hlinks s) (HashHead ?a) (map HashLink xs)"
    "set xs = {q \<in> P. pid_hashfn (p_pid (proc_of s q)) = ?a}" using ok by (auto simp: hash_ok_def)
  have "\<exists>qs. dlist (hlinks ?s) (HashHead b) (map HashLink qs)
     \<and> set qs = {q \<in> insert p P. pid_hashfn (p_pid (proc_of ?s q)) = b}" for b
  proof (cases "b = ?a")
    case True
    have "dlist (hlinks ?s) (HashHead ?a) (map HashLink (p # xs))"
      using dlist_add_head [OF xs(1), of "HashLink p"] xs(2) p(1) by (auto simp: hash_proc_def)
    moreover have "set (p # xs) = {q \<in> insert p P. pid_hashfn (p_pid (proc_of s q)) = ?a}" using xs(2) by auto
    ultimately show ?thesis using True pr by metis
  next
    case False
    obtain ys where ys: "dlist (hlinks s) (HashHead b) (map HashLink ys)"
      "set ys = {q \<in> P. pid_hashfn (p_pid (proc_of s q)) = b}" using ok unfolding hash_ok_def by blast
    have "HashLink p \<notin> set (HashHead b # map HashLink ys)" using ys(2) p(1) by auto
    from dlist_other_add [OF xs(1) ys(1) hash_other_buckets [OF xs ys] this] False
    have "dlist (hlinks ?s) (HashHead b) (map HashLink ys)" by (simp add: hash_proc_def)
    moreover have "set ys = {q \<in> insert p P. pid_hashfn (p_pid (proc_of s q)) = b}" using ys(2) False by auto
    ultimately show ?thesis unfolding pr by blast
  qed
  moreover have "inj_on (\<lambda>q. p_pid (proc_of s q)) (insert p P)"
    using ok p by (auto simp: hash_ok_def inj_on_def)
  ultimately show ?thesis unfolding hash_ok_def pr by blast
qed

lemma unhash_proc_keeps:
  assumes ok: "hash_ok s P" and p: "p \<in> P"
  shows "hash_ok (unhash_proc s p) (P - {p})"
proof -
  let ?a = "pid_hashfn (p_pid (proc_of s p))" and ?s = "unhash_proc s p"
  have pr: "proc_of ?s = proc_of s" by (simp add: unhash_proc_def proc_of_def fun_eq_iff)
  obtain xs where xs: "dlist (hlinks s) (HashHead ?a) (map HashLink xs)"
    "set xs = {q \<in> P. pid_hashfn (p_pid (proc_of s q)) = ?a}" using ok by (auto simp: hash_ok_def)
  then obtain us vs where uv: "xs = us @ p # vs" using p by (metis (mono_tags, lifting) mem_Collect_eq split_list)
  have d: "dlist (hlinks s) (HashHead ?a) (map HashLink us @ HashLink p # map HashLink vs)" using xs(1) uv by simp
  have "\<exists>qs. dlist (hlinks ?s) (HashHead b) (map HashLink qs)
     \<and> set qs = {q \<in> P - {p}. pid_hashfn (p_pid (proc_of ?s q)) = b}" for b
  proof (cases "b = ?a")
    case True
    have "dlist (hlinks ?s) (HashHead ?a) (map HashLink (us @ vs))"
      using dlist_del [OF d] by (simp add: unhash_proc_def)
    moreover have "p \<notin> set (us @ vs)" using dlist_distinct [OF d] by auto
    then have "set (us @ vs) = {q \<in> P - {p}. pid_hashfn (p_pid (proc_of s q)) = ?a}"
      using xs(2) uv by auto
    ultimately show ?thesis using True pr by metis
  next
    case False
    obtain ys where ys: "dlist (hlinks s) (HashHead b) (map HashLink ys)"
      "set ys = {q \<in> P. pid_hashfn (p_pid (proc_of s q)) = b}" using ok unfolding hash_ok_def by blast
    have "set (HashHead ?a # map HashLink us @ HashLink p # map HashLink vs) \<inter> set (HashHead b # map HashLink ys) = {}"
      using hash_other_buckets [OF xs ys] False uv by auto
    from dlist_other_del [OF d ys(1) this]
    have "dlist (hlinks ?s) (HashHead b) (map HashLink ys)" by (simp add: unhash_proc_def)
    moreover have "set ys = {q \<in> P - {p}. pid_hashfn (p_pid (proc_of s q)) = b}" using ys(2) False by auto
    ultimately show ?thesis unfolding pr by blast
  qed
  moreover have "inj_on (\<lambda>q. p_pid (proc_of s q)) (P - {p})"
    using ok unfolding hash_ok_def by (metis Diff_subset inj_on_subset)
  ultimately show ?thesis unfolding hash_ok_def pr by blast
qed

text \<open>
  The hash table. Entering a process whose identifier no other process has makes \<open>find_proc\<close> return it
  for that identifier and what it returned before for every other one; removing it again restores all
  results. So \<open>find_proc\<close> is a search of the whole process list, done in one bucket.
\<close>

lemma find_proc_correct:
  assumes ok: "hash_ok s P" and p: "p \<notin> P" "\<forall>q \<in> P. p_pid (proc_of s q) \<noteq> p_pid (proc_of s p)"
    and pid: "0 < p_pid (proc_of s p)" "p_pid (proc_of s p) < MAX_PID"
  shows "hash_ok (hash_proc s p) (insert p P) \<and> find_proc (hash_proc s p) (p_pid (proc_of s p)) = Some (Some p)
    \<and> (\<forall>k. k \<noteq> p_pid (proc_of s p) \<longrightarrow> find_proc (hash_proc s p) k = find_proc s k)
    \<and> (\<forall>k. find_proc (unhash_proc (hash_proc s p) p) k = find_proc s k)"
proof -
  let ?s = "hash_proc s p" and ?u = "unhash_proc (hash_proc s p) p"
  have pr: "proc_of ?s = proc_of s" "proc_of ?u = proc_of s"
    by (simp_all add: hash_proc_def unhash_proc_def proc_of_def fun_eq_iff)
  have h: "hash_ok ?s (insert p P)" using hash_proc_keeps [OF ok p] .
  have u: "hash_ok ?u P" using unhash_proc_keeps [OF h, of p] p(1) by simp
  have inj: "q = r" if "q \<in> P" "r \<in> P" "p_pid (proc_of s q) = p_pid (proc_of s r)" for q r
    using ok that by (auto simp: hash_ok_def inj_on_def)
  have "find_proc ?s (p_pid (proc_of s p)) = Some (Some p)"
    using find_proc_spec [OF h, of "p_pid (proc_of s p)"] p(2) pid unfolding pr by auto
  moreover have "find_proc ?s k = find_proc s k" if "k \<noteq> p_pid (proc_of s p)" for k
    using find_proc_spec [OF h, of k] find_proc_spec [OF ok, of k] that inj unfolding pr by (metis insert_iff)
  moreover have "find_proc ?u k = find_proc s k" for k
    using find_proc_spec [OF u, of k] find_proc_spec [OF ok, of k] inj unfolding pr by metis
  ultimately show ?thesis using h by blast
qed

subsection \<open>The family tree\<close>

definition first :: "nat list \<Rightarrow> nat option" where
  "first xs = (case xs of [] \<Rightarrow> None | x # _ \<Rightarrow> Some x)"

lemma first_simps [simp]: "first [] = None" "first (x # xs) = Some x"
  by (simp_all add: first_def)

text \<open>From \<open>y\<close> the sibling pointers lead through \<open>cs\<close>, forwards and backwards.\<close>

fun sib :: "ksys \<Rightarrow> nat option \<Rightarrow> nat list \<Rightarrow> bool" where
  "sib s y [] \<longleftrightarrow> True"
| "sib s y (c # cs) \<longleftrightarrow> p_yptr (proc_of s c) = y \<and> p_optr (proc_of s c) = first cs \<and> sib s (Some c) cs"

definition kids :: "ksys \<Rightarrow> nat \<Rightarrow> nat list \<Rightarrow> bool" where
  "kids s p cs \<longleftrightarrow> p_cptr (proc_of s p) = first cs \<and> sib s None cs \<and> distinct cs
     \<and> (\<forall>c \<in> set cs. p_parent (proc_of s c) = Some p)"

text \<open>\<open>K p\<close> lists the children of each process of \<open>P\<close>, the youngest first.\<close>

definition family :: "ksys \<Rightarrow> nat set \<Rightarrow> (nat \<Rightarrow> nat list) \<Rightarrow> bool" where
  "family s P K \<longleftrightarrow> (\<forall>p \<in> P. kids s p (K p) \<and> set (K p) \<subseteq> P)
     \<and> (\<forall>c \<in> P. \<forall>p. p_parent (proc_of s c) = Some p \<longrightarrow> p \<in> P \<and> c \<in> set (K p))"

definition rel_of :: "ksys \<Rightarrow> nat \<Rightarrow> nat option \<times> nat option \<times> nat option \<times> nat option" where
  "rel_of s p = (let q = proc_of s p in (p_parent q, p_cptr q, p_yptr q, p_optr q))"

lemma proc_of_pupd [simp]: "proc_of (pupd p f s) = (proc_of s)(p := f (proc_of s p))"
  by (simp add: pupd_def proc_of_def fun_eq_iff)

lemma pupd_other [simp]:
  "vm (pupd p f s) = vm s" "plinks (pupd p f s) = plinks s" "hlinks (pupd p f s) = hlinks s"
  "initproc (pupd p f s) = initproc s" "nr_process (pupd p f s) = nr_process s" "cur (pupd p f s) = cur s"
  "idleproc (core (pupd p f s)) = idleproc (core s)" "boot_pgdir (pupd p f s) = boot_pgdir s" "next_safe (pupd p f s) = next_safe s" "last_pid (pupd p f s) = last_pid s"
  by (simp_all add: pupd_def cur_def)

lemma proc_of_other [simp]:
  "proc_of (s\<lparr>plinks := a\<rparr>) = proc_of s" "proc_of (s\<lparr>hlinks := b\<rparr>) = proc_of s" "proc_of (s\<lparr>nr_process := c\<rparr>) = proc_of s"
  "proc_of (s\<lparr>vm := d\<rparr>) = proc_of s"
  by (simp_all add: proc_of_def fun_eq_iff)

lemma cur_other [simp]:
  "cur (s\<lparr>plinks := a\<rparr>) = cur s" "cur (s\<lparr>hlinks := b\<rparr>) = cur s" "cur (s\<lparr>nr_process := c\<rparr>) = cur s" "cur (s\<lparr>vm := d\<rparr>) = cur s"
  by (simp_all add: cur_def)

lemma sib_cong:
  "(\<And>c. c \<in> set cs \<Longrightarrow> p_yptr (proc_of s' c) = p_yptr (proc_of s c) \<and> p_optr (proc_of s' c) = p_optr (proc_of s c))
    \<Longrightarrow> sib s' y cs = sib s y cs"
  by (induction cs arbitrary: y) auto

lemma kids_cong:
  assumes "\<And>c. c \<in> set cs \<Longrightarrow> p_parent (proc_of s' c) = p_parent (proc_of s c)
      \<and> p_yptr (proc_of s' c) = p_yptr (proc_of s c) \<and> p_optr (proc_of s' c) = p_optr (proc_of s c)"
    and "p_cptr (proc_of s' p) = p_cptr (proc_of s p)"
  shows "kids s' p cs = kids s p cs"
proof -
  have "sib s' None cs = sib s None cs"
    by (rule sib_cong) (use assms(1) in auto)
  moreover have "(\<forall>c \<in> set cs. p_parent (proc_of s' c) = Some p) = (\<forall>c \<in> set cs. p_parent (proc_of s c) = Some p)"
    using assms(1) by auto
  ultimately show ?thesis using assms(2) by (simp add: kids_def)
qed

lemma family_cong:
  assumes "\<And>p. p \<in> P \<Longrightarrow> rel_of s' p = rel_of s p"
  shows "family s P K \<Longrightarrow> family s' P K"
proof -
  assume f: "family s P K"
  have r: "p_cptr (proc_of s' p) = p_cptr (proc_of s p)" "p_parent (proc_of s' p) = p_parent (proc_of s p)" if "p \<in> P" for p
    using assms [OF that] by (simp_all add: rel_of_def Let_def)
  have "kids s' p (K p) = kids s p (K p)" if "p \<in> P" for p
  proof (rule kids_cong)
    fix c assume "c \<in> set (K p)"
    then have "c \<in> P" using f that unfolding family_def by blast
    from assms [OF this] show "p_parent (proc_of s' c) = p_parent (proc_of s c)
      \<and> p_yptr (proc_of s' c) = p_yptr (proc_of s c) \<and> p_optr (proc_of s' c) = p_optr (proc_of s c)"
      by (simp add: rel_of_def Let_def)
  qed (use r that in simp)
  then show ?thesis using f r by (simp add: family_def)
qed

text \<open>Two children lists have no process in common.\<close>

lemma kids_disjoint:
  assumes "family s P K" "p \<in> P" "q \<in> P" "c \<in> set (K p)" "c \<in> set (K q)"
  shows "p = q"
proof -
  have "p_parent (proc_of s c) = Some p" "p_parent (proc_of s c) = Some q"
    using assms unfolding family_def kids_def by metis+
  then show ?thesis by simp
qed

text \<open>Putting a process in front of a list of children.\<close>

lemma kids_push:
  assumes "kids s par cs" "p \<notin> set cs"
    and "p_parent (proc_of s' p) = Some par" "p_yptr (proc_of s' p) = None" "p_optr (proc_of s' p) = first cs"
    and "p_cptr (proc_of s' par) = Some p"
    and "\<And>c. c \<in> set cs \<Longrightarrow> p_parent (proc_of s' c) = p_parent (proc_of s c) \<and> p_optr (proc_of s' c) = p_optr (proc_of s c)
          \<and> p_yptr (proc_of s' c) = (if first cs = Some c then Some p else p_yptr (proc_of s c))"
  shows "kids s' par (p # cs)"
proof -
  have "sib s' (Some p) cs"
  proof (cases cs)
    case (Cons d ds)
    have "sib s' (Some d) ds = sib s (Some d) ds"
    proof (rule sib_cong)
      fix c assume c: "c \<in> set ds"
      then have "c \<noteq> d" using assms(1) Cons by (auto simp: kids_def)
      then show "p_yptr (proc_of s' c) = p_yptr (proc_of s c) \<and> p_optr (proc_of s' c) = p_optr (proc_of s c)"
        using assms(7) [of c] c Cons by auto
    qed
    then show ?thesis using assms(1) assms(7) [of d] Cons by (simp add: kids_def)
  qed simp
  then show ?thesis using assms by (auto simp: kids_def)
qed

lemma family_kids: "family s P K \<Longrightarrow> p \<in> P \<Longrightarrow> kids s p (K p)"
  by (simp add: family_def)

lemma family_sub: "family s P K \<Longrightarrow> p \<in> P \<Longrightarrow> c \<in> set (K p) \<Longrightarrow> c \<in> P"
  unfolding family_def by (meson subsetD)

lemma family_parent: "family s P K \<Longrightarrow> p \<in> P \<Longrightarrow> c \<in> set (K p) \<Longrightarrow> p_parent (proc_of s c) = Some p"
  unfolding family_def kids_def by blast

lemma first_mem: "first xs = Some x \<Longrightarrow> x \<in> set xs"
  by (cases xs) auto

lemma set_links_keeps:
  assumes f: "family s P K" and p: "p \<notin> P" "p_parent (proc_of s p) = Some par" "par \<in> P" "p_cptr (proc_of s p) = None"
  shows "\<exists>s'. set_links s p = Some s' \<and> family s' (insert p P) (K(par := p # K par, p := []))
    \<and> plinks s' = list_add (plinks s) ProcHead (ProcLink p) \<and> nr_process s' = nr_process s + 1"
proof -
  have ks: "kids s par (K par)" "p_cptr (proc_of s par) = first (K par)" using family_kids [OF f p(3)] by (simp_all add: kids_def)
  have np: "par \<noteq> p" "p \<notin> set (K q)" if "q \<in> P" for q using p(1,3) family_sub [OF f that] by auto
  have op: "first (K par) \<noteq> Some p" using np(2) [OF p(3)] first_mem by blast
  define s' where "s' = the (set_links s p)"
  have s': "set_links s p = Some s'"
    using p(2) by (simp add: s'_def set_links_def Let_def split: option.splits)
  have fields: "p_parent (proc_of s' q) = p_parent (proc_of s q)"
    "p_cptr (proc_of s' q) = (if q = par then Some p else p_cptr (proc_of s q))"
    "p_yptr (proc_of s' q) = (if q = p then None else if first (K par) = Some q then Some p else p_yptr (proc_of s q))"
    "p_optr (proc_of s' q) = (if q = p then first (K par) else p_optr (proc_of s q))" for q
    using s' p(2) np(1) [OF p(3)] op ks(2)
    by (cases "first (K par)"; auto simp: set_links_def Let_def)+
  have "plinks s' = list_add (plinks s) ProcHead (ProcLink p)" "nr_process s' = nr_process s + 1"
    using s' p(2) np(1) [OF p(3)] ks(2) by (cases "first (K par)"; auto simp: set_links_def Let_def)+
  moreover have "family s' (insert p P) (K(par := p # K par, p := []))"
    unfolding family_def
  proof (intro conjI ballI allI impI)
    fix q assume q: "q \<in> insert p P"
    show "kids s' q ((K(par := p # K par, p := [])) q)"
    proof (cases "q = p")
      case True
      then show ?thesis using p(4) np(1) [OF p(3)] by (simp add: kids_def fields)
    next
      case qp: False
      show ?thesis
      proof (cases "q = par")
        case True
        have "kids s' par (p # K par)"
          by (rule kids_push [OF ks(1)]) (use np(2) [OF p(3)] p(2) in \<open>auto simp: fields\<close>)
        then show ?thesis using True qp by simp
      next
        case False
        have q': "q \<in> P" using q qp by simp
        have "kids s' q (K q) = kids s q (K q)"
        proof (rule kids_cong)
          fix c assume c: "c \<in> set (K q)"
          have "c \<noteq> p" "first (K par) \<noteq> Some c" "c \<in> P"
            using np(2) [OF q'] c kids_disjoint [OF f q' p(3) c] first_mem False family_sub [OF f q' c] by auto
          then show "p_parent (proc_of s' c) = p_parent (proc_of s c) \<and> p_yptr (proc_of s' c) = p_yptr (proc_of s c)
              \<and> p_optr (proc_of s' c) = p_optr (proc_of s c)" by (simp add: fields)
        qed (use False in \<open>simp add: fields\<close>)
        then show ?thesis using family_kids [OF f q'] False qp by simp
      qed
    qed
    show "set ((K(par := p # K par, p := [])) q) \<subseteq> insert p P"
      using q family_sub [OF f] p(3) by auto
  next
    fix c q assume c: "c \<in> insert p P" "p_parent (proc_of s' c) = Some q"
    then have "q \<in> P \<and> (c = p \<and> q = par \<or> c \<in> set (K q))"
      using f p(2,3) unfolding fields family_def by auto
    then show "q \<in> insert p P" "c \<in> set ((K(par := p # K par, p := [])) q)" using p(1) by auto
  qed
  ultimately show ?thesis using s' by blast
qed

text \<open>The neighbours of a process among its siblings.\<close>

definition last_of :: "nat option \<Rightarrow> nat list \<Rightarrow> nat option" where
  "last_of y us = (if us = [] then y else Some (last us))"

lemma sib_mid: "sib s y (us @ p # vs) \<Longrightarrow> p_yptr (proc_of s p) = last_of y us \<and> p_optr (proc_of s p) = first vs"
proof (induction us arbitrary: y)
  case (Cons u us)
  have "sib s (Some u) (us @ p # vs)" using Cons.prems by simp
  from Cons.IH [OF this] have "p_yptr (proc_of s p) = last_of (Some u) us \<and> p_optr (proc_of s p) = first vs" .
  then show ?case by (cases us) (simp_all add: last_of_def)
qed (simp add: last_of_def)

lemma sib_remove:
  assumes "sib s y (us @ p # vs)" "distinct (us @ p # vs)"
    and "\<And>c. c \<in> set (us @ vs) \<Longrightarrow> p_optr (proc_of s' c) = (if us \<noteq> [] \<and> c = last us then first vs else p_optr (proc_of s c))"
    and "\<And>c. c \<in> set (us @ vs) \<Longrightarrow> p_yptr (proc_of s' c) = (if first vs = Some c then last_of y us else p_yptr (proc_of s c))"
  shows "sib s' y (us @ vs)"
  using assms
proof (induction us arbitrary: y)
  case Nil
  show ?case
  proof (cases vs)
    case (Cons v ws)
    have "sib s' (Some v) ws = sib s (Some v) ws"
    proof (rule sib_cong)
      fix c assume c: "c \<in> set ws"
      then have "c \<noteq> v" using Nil.prems(2) Cons by auto
      then show "p_yptr (proc_of s' c) = p_yptr (proc_of s c) \<and> p_optr (proc_of s' c) = p_optr (proc_of s c)"
        using Nil.prems(3,4) [of c] c Cons by auto
    qed
    then show ?thesis using Nil.prems(1) Nil.prems(3,4) [of v] Cons by (simp add: last_of_def)
  qed simp
next
  case (Cons u us)
  have d: "distinct (us @ p # vs)" "u \<notin> set us" "u \<notin> set vs" using Cons.prems(2) by auto
  have "sib s' (Some u) (us @ vs)"
  proof (rule Cons.IH [OF _ d(1)])
    show "sib s (Some u) (us @ p # vs)" using Cons.prems(1) by simp
    fix c assume c: "c \<in> set (us @ vs)"
    then have "c \<noteq> u" using d by auto
    then show "p_optr (proc_of s' c) = (if us \<noteq> [] \<and> c = last us then first vs else p_optr (proc_of s c))"
      using Cons.prems(3) [of c] c by (cases us) auto
    show "p_yptr (proc_of s' c) = (if first vs = Some c then last_of (Some u) us else p_yptr (proc_of s c))"
      using Cons.prems(4) [of c] c by (cases us) (auto simp: last_of_def)
  qed
  moreover have "p_yptr (proc_of s' u) = y"
    using Cons.prems(4) [of u] Cons.prems(1) d(3) first_mem [of vs u] by auto
  moreover have "p_optr (proc_of s' u) = first (us @ vs)"
    using Cons.prems(3) [of u] Cons.prems(1) d(2) by (cases us) auto
  ultimately show ?case by simp
qed

lemma remove_links_keeps:
  assumes f: "family s P K" and p: "p \<in> P" "p_parent (proc_of s p) = Some par" "par \<in> P" "K p = []" "par \<noteq> p"
  shows "\<exists>s'. remove_links s p = Some s' \<and> family s' (P - {p}) (K(par := remove1 p (K par)))
    \<and> plinks s' = list_del (plinks s) (ProcLink p) \<and> nr_process s' = nr_process s - 1
    \<and> hlinks s' = hlinks s \<and> vm s' = vm s \<and> cur s' = cur s \<and> initproc s' = initproc s
    \<and> idleproc (core s') = idleproc (core s)
    \<and> (\<forall>q. p_pid (proc_of s' q) = p_pid (proc_of s q) \<and> p_state (proc_of s' q) = p_state (proc_of s q)
         \<and> p_kstack (proc_of s' q) = p_kstack (proc_of s q) \<and> p_parent (proc_of s' q) = p_parent (proc_of s q))"
proof -
  have mem: "p \<in> set (K par)" using f p(1,2) unfolding family_def by blast
  have ks: "kids s par (K par)" using family_kids [OF f p(3)] .
  obtain us vs where uv: "K par = us @ p # vs" using split_list [OF mem] by blast
  have sib: "sib s None (us @ p # vs)" and dis: "distinct (us @ p # vs)" using ks uv by (simp_all add: kids_def)
  note mid = sib_mid [OF sib]
  have ne: "first vs \<noteq> Some p" "us \<noteq> [] \<Longrightarrow> last us \<noteq> p" using dis first_mem [of vs p] by auto
  define s' where "s' = the (remove_links s p)"
  have s': "remove_links s p = Some s'"
    using p(2) mid ne by (cases "first vs"; cases "us = []") (simp_all add: s'_def remove_links_def Let_def last_of_def)
  have fields: "p_parent (proc_of s' q) = p_parent (proc_of s q)"
    "p_cptr (proc_of s' q) = (if us = [] \<and> q = par then first vs else p_cptr (proc_of s q))"
    "p_yptr (proc_of s' q) = (if first vs = Some q then last_of None us else p_yptr (proc_of s q))"
    "p_optr (proc_of s' q) = (if us \<noteq> [] \<and> q = last us then first vs else p_optr (proc_of s q))"
    "p_pid (proc_of s' q) = p_pid (proc_of s q)" "p_state (proc_of s' q) = p_state (proc_of s q)"
    "p_kstack (proc_of s' q) = p_kstack (proc_of s q)" for q
    using s' p(2) mid ne
    by (cases "first vs"; cases "us = []"; auto simp: remove_links_def Let_def last_of_def)+
  have rest: "plinks s' = list_del (plinks s) (ProcLink p)" "nr_process s' = nr_process s - 1"
    "hlinks s' = hlinks s" "vm s' = vm s" "cur s' = cur s" "initproc s' = initproc s" "idleproc (core s') = idleproc (core s)"
    using s' p(2) mid ne
    by (cases "first vs"; cases "us = []"; auto simp: remove_links_def Let_def last_of_def)+
  have r1: "remove1 p (K par) = us @ vs" using uv dis by (simp add: remove1_append)
  have "family s' (P - {p}) (K(par := us @ vs))"
    unfolding family_def
  proof (intro conjI ballI allI impI)
    fix q assume q: "q \<in> P - {p}"
    then have q': "q \<in> P" by simp
    show "kids s' q ((K(par := us @ vs)) q)"
    proof (cases "q = par")
      case True
      have "sib s' None (us @ vs)"
        by (rule sib_remove [OF sib dis]) (simp_all add: fields)
      moreover have "p_cptr (proc_of s' par) = first (us @ vs)"
        using ks uv by (cases us) (simp_all add: fields kids_def)
      moreover have "p_parent (proc_of s' c) = Some par" if "c \<in> set (us @ vs)" for c
        using ks uv that by (auto simp: fields kids_def)
      ultimately show ?thesis using True dis by (auto simp: kids_def)
    next
      case False
      have "kids s' q (K q) = kids s q (K q)"
      proof (rule kids_cong)
        fix c assume c: "c \<in> set (K q)"
        have "c \<notin> set (K par)" using kids_disjoint [OF f q' p(3) c] False by blast
        then have "first vs \<noteq> Some c" "\<not> (us \<noteq> [] \<and> c = last us)" using uv first_mem [of vs c] by auto
        then show "p_parent (proc_of s' c) = p_parent (proc_of s c) \<and> p_yptr (proc_of s' c) = p_yptr (proc_of s c)
            \<and> p_optr (proc_of s' c) = p_optr (proc_of s c)" unfolding fields by auto
      qed (use False in \<open>simp add: fields\<close>)
      then show ?thesis using family_kids [OF f q'] False by simp
    qed
    show "set ((K(par := us @ vs)) q) \<subseteq> P - {p}"
    proof (cases "q = par")
      case True
      have "set (K par) \<subseteq> P" using family_sub [OF f p(3)] by (intro subsetI)
      then have "set (us @ p # vs) \<subseteq> P" unfolding uv .
      then show ?thesis using True dis by auto
    next
      case False
      have "p \<notin> set (K q)" using kids_disjoint [OF f q' p(3) _ mem] False by blast
      moreover have "set (K q) \<subseteq> P" using family_sub [OF f q'] by (intro subsetI)
      ultimately show ?thesis using False by auto
    qed
  next
    fix c q assume c: "c \<in> P - {p}" "p_parent (proc_of s' c) = Some q"
    then have cq: "q \<in> P" "c \<in> set (K q)" using f unfolding fields family_def by auto
    have "q \<noteq> p" using cq(2) p(4) by auto
    then show "q \<in> P - {p}" using cq(1) by simp
    show "c \<in> set ((K(par := us @ vs)) q)" using cq(2) c(1) uv by auto
  qed
  then show ?thesis using s' rest fields(1,5,6,7) unfolding r1 by blast
qed

text \<open>
  The family while the children of \<open>c\<close> are given away: the first child that is left may still point to
  its younger sibling.
\<close>

definition leaving :: "ksys \<Rightarrow> nat set \<Rightarrow> (nat \<Rightarrow> nat list) \<Rightarrow> nat \<Rightarrow> bool" where
  "leaving s P K c \<longleftrightarrow> (\<forall>p \<in> P. p \<noteq> c \<longrightarrow> kids s p (K p)) \<and> (\<forall>p \<in> P. set (K p) \<subseteq> P)
     \<and> (\<forall>d \<in> P. \<forall>p. p_parent (proc_of s d) = Some p \<longrightarrow> p \<in> P \<and> d \<in> set (K p))
     \<and> p_cptr (proc_of s c) = first (K c) \<and> (\<exists>y. sib s y (K c)) \<and> distinct (K c)
     \<and> (\<forall>d \<in> set (K c). p_parent (proc_of s d) = Some c)"

lemma leaving_start: "family s P K \<Longrightarrow> c \<in> P \<Longrightarrow> leaving s P K c"
  unfolding leaving_def family_def kids_def by blast

lemma leaving_end: "leaving s P K c \<Longrightarrow> K c = [] \<Longrightarrow> family s P K"
  unfolding leaving_def family_def by (metis distinct.simps(1) empty_iff first_simps(1) kids_def list.set(1) sib.simps(1))

lemma leaving_parent: "leaving s P K c \<Longrightarrow> p \<in> P \<Longrightarrow> d \<in> set (K p) \<Longrightarrow> p_parent (proc_of s d) = Some p"
  unfolding leaving_def kids_def by (cases "p = c") blast+

lemma leaving_cong:
  assumes "\<And>p. rel_of s' p = rel_of s p"
  shows "leaving s P K c \<Longrightarrow> leaving s' P K c"
proof -
  assume l: "leaving s P K c"
  have r: "p_cptr (proc_of s' p) = p_cptr (proc_of s p)" "p_parent (proc_of s' p) = p_parent (proc_of s p)"
    "p_yptr (proc_of s' p) = p_yptr (proc_of s p)" "p_optr (proc_of s' p) = p_optr (proc_of s p)" for p
    using assms [of p] by (simp_all add: rel_of_def Let_def)
  have "kids s' p cs = kids s p cs" for p cs by (rule kids_cong) (simp_all add: r)
  moreover have "sib s' y cs = sib s y cs" for y cs by (rule sib_cong) (simp add: r)
  ultimately show ?thesis using l unfolding leaving_def r by blast
qed

lemma adopt_links_eq:
  assumes "c = cur s" "i = initproc s" "i \<noteq> c" "p \<noteq> i" "p_cptr (proc_of s i) = o1" "p_optr (proc_of s p) = o2"
    and t: "t = pupd p (\<lambda>q. q\<lparr>p_optr := o1\<rparr>) (pupd p (\<lambda>q. q\<lparr>p_yptr := None\<rparr>) (pupd c (\<lambda>q. q\<lparr>p_cptr := o2\<rparr>) s))"
  shows "adopt_links s p = pupd i (\<lambda>q. q\<lparr>p_cptr := Some p\<rparr>) (pupd p (\<lambda>q. q\<lparr>p_parent := Some i\<rparr>)
    (case o1 of Some x \<Rightarrow> pupd x (\<lambda>q. q\<lparr>p_yptr := Some p\<rparr>) t | None \<Rightarrow> t))"
  using assms(1-6) unfolding t by (cases o1) (simp_all add: adopt_links_def Let_def)

lemma adopt_links_fields:
  assumes l: "leaving s P K c" "c = cur s" "i = initproc s" and i: "i \<in> P" "i \<noteq> c" and K: "K c = p # cs" and pi: "p \<noteq> i" "p \<noteq> c"
    and op: "first (K i) \<noteq> Some p"
  shows "p_parent (proc_of (adopt_links s p) q) = (if q = p then Some i else p_parent (proc_of s q))"
    "p_cptr (proc_of (adopt_links s p) q) = (if q = i then Some p else if q = c then first cs else p_cptr (proc_of s q))"
    "p_yptr (proc_of (adopt_links s p) q) =
       (if q = p then None else if first (K i) = Some q then Some p else p_yptr (proc_of s q))"
    "p_optr (proc_of (adopt_links s p) q) = (if q = p then first (K i) else p_optr (proc_of s q))"
    "p_pid (proc_of (adopt_links s p) q) = p_pid (proc_of s q)" "p_state (proc_of (adopt_links s p) q) = p_state (proc_of s q)"
    "p_wait_state (proc_of (adopt_links s p) q) = p_wait_state (proc_of s q)"
proof -
  have "p_cptr (proc_of s i) = first (K i)" "p_optr (proc_of s p) = first cs"
    using l(1) i K by (auto simp: leaving_def kids_def)
  note e = adopt_links_eq [OF l(2,3) i(2) pi(1) this refl]
  show "p_parent (proc_of (adopt_links s p) q) = (if q = p then Some i else p_parent (proc_of s q))"
    "p_cptr (proc_of (adopt_links s p) q) = (if q = i then Some p else if q = c then first cs else p_cptr (proc_of s q))"
    "p_yptr (proc_of (adopt_links s p) q) =
       (if q = p then None else if first (K i) = Some q then Some p else p_yptr (proc_of s q))"
    "p_optr (proc_of (adopt_links s p) q) = (if q = p then first (K i) else p_optr (proc_of s q))"
    "p_pid (proc_of (adopt_links s p) q) = p_pid (proc_of s q)" "p_state (proc_of (adopt_links s p) q) = p_state (proc_of s q)"
    "p_wait_state (proc_of (adopt_links s p) q) = p_wait_state (proc_of s q)"
    unfolding e using i pi op by (cases "first (K i)"; simp)+
qed

lemma adopt_links_keeps:
  assumes l: "leaving s P K c" and c: "c = cur s" "c \<in> P" and i: "i = initproc s" "i \<in> P" "i \<noteq> c"
    and K: "K c = p # cs" "p \<noteq> i" "p \<noteq> c"
  shows "leaving (adopt_links s p) P (K(c := cs, i := p # K i)) c"
proof -
  have pc: "p_parent (proc_of s p) = Some c" "p \<in> P" using l c K(1) by (auto simp: leaving_def)
  have notin: "p \<notin> set (K q)" if "q \<in> P" "q \<noteq> c" for q
    using leaving_parent [OF l that(1), of p] pc(1) that(2) by auto
  have op: "first (K i) \<noteq> Some p" using notin [OF i(2,3)] first_mem by blast
  note fields = adopt_links_fields [OF l c(1) i(1,2,3) K op]
  let ?s = "adopt_links s p"
  have ki: "kids s i (K i)" using l i by (simp add: leaving_def)
  have dj: "first (K i) \<noteq> Some d" if "q \<in> P" "q \<noteq> i" "d \<in> set (K q)" for q d
  proof
    assume "first (K i) = Some d"
    then have "p_parent (proc_of s d) = Some i" using leaving_parent [OF l i(2)] first_mem by blast
    then show False using leaving_parent [OF l that(1,3)] that(2) by simp
  qed
  show ?thesis
    unfolding leaving_def
  proof (intro conjI ballI impI allI)
    fix q assume q: "q \<in> P" "q \<noteq> c"
    show "kids ?s q ((K(c := cs, i := p # K i)) q)"
    proof (cases "q = i")
      case True
      have "kids ?s i (p # K i)"
        by (rule kids_push [OF ki notin [OF i(2,3)]]) (use notin [OF i(2,3)] in \<open>auto simp: fields\<close>)
      then show ?thesis using True by simp
    next
      case False
      have "kids ?s q (K q) = kids s q (K q)"
      proof (rule kids_cong)
        fix d assume d: "d \<in> set (K q)"
        then have "d \<noteq> p" "first (K i) \<noteq> Some d" using notin [OF q] dj [OF q(1) False] by auto
        then show "p_parent (proc_of ?s d) = p_parent (proc_of s d) \<and> p_yptr (proc_of ?s d) = p_yptr (proc_of s d)
            \<and> p_optr (proc_of ?s d) = p_optr (proc_of s d)" by (simp add: fields)
      qed (use False q in \<open>simp add: fields\<close>)
      then show ?thesis using l q False by (simp add: leaving_def)
    qed
  next
    fix q assume q: "q \<in> P"
    have "set (K r) \<subseteq> P" if "r \<in> P" for r using l that by (simp add: leaving_def)
    from this [OF q] this [OF i(2)] this [OF c(2)] show "set ((K(c := cs, i := p # K i)) q) \<subseteq> P"
      using K(1) pc(2) by auto
  next
    fix d q assume d: "d \<in> P" "p_parent (proc_of ?s d) = Some q"
    have old: "\<And>d q. d \<in> P \<Longrightarrow> p_parent (proc_of s d) = Some q \<Longrightarrow> q \<in> P \<and> d \<in> set (K q)"
      using l unfolding leaving_def by blast
    have "d = p \<and> q = i \<or> d \<noteq> p \<and> q \<in> P \<and> d \<in> set (K q)"
      using d old [of d q] unfolding fields by (auto split: if_splits)
    then show "q \<in> P" "d \<in> set ((K(c := cs, i := p # K i)) q)" using i(2,3) K(1) by auto
  next
    show "p_cptr (proc_of ?s c) = first ((K(c := cs, i := p # K i)) c)" using i(3) by (simp add: fields)
    have d: "distinct (p # cs)" using l K(1) by (simp add: leaving_def)
    then show "distinct ((K(c := cs, i := p # K i)) c)" using i(3) by simp
    have "sib s (Some p) cs" using l K(1) by (auto simp: leaving_def)
    moreover have "sib ?s (Some p) cs = sib s (Some p) cs"
    proof (rule sib_cong)
      fix d' assume d': "d' \<in> set cs"
      then have "d' \<noteq> p" "first (K i) \<noteq> Some d'" using d dj [OF c(2), of d'] i(3) K(1) by auto
      then show "p_yptr (proc_of ?s d') = p_yptr (proc_of s d') \<and> p_optr (proc_of ?s d') = p_optr (proc_of s d')"
        by (simp add: fields)
    qed
    ultimately have "sib ?s (Some p) cs" by simp
    then show "\<exists>y. sib ?s y ((K(c := cs, i := p # K i)) c)" using i(3) by auto
    fix d' assume "d' \<in> set ((K(c := cs, i := p # K i)) c)"
    then have "d' \<in> set cs" "d' \<noteq> p" using i(3) d by auto
    then show "p_parent (proc_of ?s d') = Some c" using leaving_parent [OF l c(2), of d'] K(1) by (simp add: fields)
  qed
qed

lemma wake_keeps:
  assumes inv: "rr_sched_inv (core s)" and z: "p_state (proc_of s p) \<noteq> PROC_ZOMBIE"
  shows "\<exists>s'. wake default_sched_class s p = Some s' \<and> rr_sched_inv (core s') \<and> s' = s\<lparr>core := core s'\<rparr> \<and> cur s' = cur s
    \<and> idleproc (core s') = idleproc (core s)
    \<and> p_state (proc_of s' p) = PROC_RUNNABLE
    \<and> (\<forall>q. q \<noteq> p \<longrightarrow> p_state (proc_of s' q) = p_state (proc_of s q) \<and> p_wait_state (proc_of s' q) = p_wait_state (proc_of s q))
    \<and> (\<forall>q. p_pid (proc_of s' q) = p_pid (proc_of s q) \<and> proc_links (proc_of s' q) = proc_links (proc_of s q))"
proof -
  obtain c where c: "wakeup_proc default_sched_class (core s) p = Some c" "rr_sched_inv c" "p_state (procs c p) = PROC_RUNNABLE"
    "current c = current (core s)" "idleproc c = idleproc (core s)"
    "\<forall>q. q \<noteq> p \<longrightarrow> p_state (procs c q) = p_state (procs (core s) q) \<and> p_wait_state (procs c q) = p_wait_state (procs (core s) q)"
    "\<forall>q. p_pid (procs c q) = p_pid (procs (core s) q) \<and> proc_links (procs c q) = proc_links (procs (core s) q)"
    using rr.wakeup_keeps [of "core s" p] inv z by (auto simp: rr_sched_inv_iff proc_of_def)
  then show ?thesis by (intro exI [of _ "s\<lparr>core := c\<rparr>"]) (simp add: wake_def proc_of_def cur_def)
qed

lemma rel_of_links: "proc_links (proc_of s' p) = proc_links (proc_of s p) \<Longrightarrow> rel_of s' p = rel_of s p"
  by (simp add: proc_links_def rel_of_def Let_def)

text \<open>What the scheduler reads of a state; updates of the relations do not change it.\<close>

definition sched_part :: "ksys \<Rightarrow> _" where
  "sched_part s = (run_links (core s), pool (core s), rq (core s), current (core s), idleproc (core s),
     (\<lambda>q. (p_rq (proc_of s q), p_state (proc_of s q))))"

lemma sched_part_inv: "sched_part s' = sched_part s \<Longrightarrow> rr_sched_inv (core s') = rr_sched_inv (core s)"
  using rr.frame_law [of "core s'" "core s"]
  by (simp add: sched_part_def rr_sched_inv_iff rr.sched_inv_def fun_eq_iff proc_of_def)

lemma sched_part_pupd:
  "(\<And>q. p_rq (f q) = p_rq q) \<Longrightarrow> (\<And>q. p_state (f q) = p_state q) \<Longrightarrow> sched_part (pupd p f s) = sched_part s"
  by (simp add: sched_part_def pupd_def proc_of_def fun_eq_iff)

lemma adopt_links_core:
  "sched_part (adopt_links s p) = sched_part s" "initproc (adopt_links s p) = initproc s"
  "p_exit_code (proc_of (adopt_links s p) q) = p_exit_code (proc_of s q)"
proof -
  define s1 where "s1 = pupd (cur s) (\<lambda>q. q\<lparr>p_cptr := p_optr (proc_of s p)\<rparr>) s"
  define s2 where "s2 = pupd p (\<lambda>q. q\<lparr>p_yptr := None\<rparr>) s1"
  define old where "old = p_cptr (proc_of s2 (initproc s2))"
  define s3 where "s3 = pupd p (\<lambda>q. q\<lparr>p_optr := old\<rparr>) s2"
  define s4 where "s4 = (case old of Some o1 \<Rightarrow> pupd o1 (\<lambda>q. q\<lparr>p_yptr := Some p\<rparr>) s3 | None \<Rightarrow> s3)"
  define s5 where "s5 = pupd p (\<lambda>q. q\<lparr>p_parent := Some (initproc s4)\<rparr>) s4"
  have e: "adopt_links s p = pupd (initproc s5) (\<lambda>q. q\<lparr>p_cptr := Some p\<rparr>) s5"
    by (simp only: adopt_links_def Let_def s1_def s2_def s3_def s4_def s5_def old_def)
  have p: "sched_part s1 = sched_part s" "sched_part s2 = sched_part s1" "sched_part s3 = sched_part s2"
    "sched_part s4 = sched_part s3" "sched_part s5 = sched_part s4" "sched_part (adopt_links s p) = sched_part s5"
    unfolding e unfolding s1_def s2_def s3_def s4_def s5_def by (cases old; simp add: sched_part_pupd)+
  have i: "initproc s1 = initproc s" "initproc s2 = initproc s1" "initproc s3 = initproc s2" "initproc s4 = initproc s3"
    "initproc s5 = initproc s4" unfolding s1_def s2_def s3_def s4_def s5_def by (cases old; simp)+
  have x: "p_exit_code (proc_of s1 q) = p_exit_code (proc_of s q)" "p_exit_code (proc_of s2 q) = p_exit_code (proc_of s1 q)"
    "p_exit_code (proc_of s3 q) = p_exit_code (proc_of s2 q)" "p_exit_code (proc_of s4 q) = p_exit_code (proc_of s3 q)"
    "p_exit_code (proc_of s5 q) = p_exit_code (proc_of s4 q)"
    unfolding s1_def s2_def s3_def s4_def s5_def by (cases old; simp)+
  show "sched_part (adopt_links s p) = sched_part s" "initproc (adopt_links s p) = initproc s" using p i by (simp_all add: e)
  show "p_exit_code (proc_of (adopt_links s p) q) = p_exit_code (proc_of s q)"
    using x by (cases "q = initproc s5") (auto simp: e)
qed

lemma adopt_links_sched:
  "rr_sched_inv (core s) \<Longrightarrow> rr_sched_inv (core (adopt_links s p))" "cur (adopt_links s p) = cur s"
  "idleproc (core (adopt_links s p)) = idleproc (core s)"
  using adopt_links_core(1) [of s p] sched_part_inv [of "adopt_links s p" s] by (simp_all add: sched_part_def cur_def)

lemma adopt_step:
  assumes l: "leaving s P K c" and c: "c = cur s" "c \<in> P" and i: "i = initproc s" "i \<in> P" "i \<noteq> c" "p_state (proc_of s i) \<noteq> PROC_ZOMBIE"
    and inv: "rr_sched_inv (core s)" and K: "K c = p # cs" "p \<noteq> i" "p \<noteq> c"
  shows "\<exists>s'. adopt default_sched_class s p = Some s' \<and> leaving s' P (K(c := cs, i := p # K i)) c \<and> rr_sched_inv (core s')
    \<and> cur s' = cur s \<and> initproc s' = initproc s \<and> idleproc (core s') = idleproc (core s)
    \<and> (\<forall>q. q \<noteq> i \<longrightarrow> p_state (proc_of s' q) = p_state (proc_of s q))
    \<and> (\<forall>q. p_exit_code (proc_of s' q) = p_exit_code (proc_of s q))
    \<and> p_state (proc_of s' i) \<in> {p_state (proc_of s i), PROC_RUNNABLE}
    \<and> (p_state (proc_of s' i) = PROC_RUNNABLE \<or> p_wait_state (proc_of s' i) = p_wait_state (proc_of s i))
    \<and> (p_state (proc_of s p) = PROC_ZOMBIE \<and> p_wait_state (proc_of s i) = WT_CHILD \<longrightarrow> p_state (proc_of s' i) = PROC_RUNNABLE)"
proof -
  let ?s = "adopt_links s p"
  have pc: "p_parent (proc_of s p) = Some c" using l K(1) by (simp add: leaving_def)
  have op: "first (K i) \<noteq> Some p"
    using leaving_parent [OF l i(2), of p] pc i(3) first_mem by fastforce
  note fields = adopt_links_fields [OF l c(1) i(1,2,3) K op]
  have k: "leaving ?s P (K(c := cs, i := p # K i)) c" using adopt_links_keeps [OF l c i(1,2,3) K] .
  note cs = adopt_links_sched [of s p] adopt_links_core(2,3) [of s p]
  show ?thesis
  proof (cases "p_state (proc_of s p) = PROC_ZOMBIE \<and> p_wait_state (proc_of s i) = WT_CHILD")
    case False
    then have "adopt default_sched_class s p = Some ?s" using cs(4) i(1) by (auto simp: adopt_def Let_def fields)
    then show ?thesis using k cs(2,3,4,5) cs(1) [OF inv] False by (intro exI [of _ ?s]) (auto simp: fields)
  next
    case True
    have "p_state (proc_of ?s i) \<noteq> PROC_ZOMBIE" using i(4) by (simp add: fields)
    from wake_keeps [OF cs(1) [OF inv] this] obtain s' where s': "wake default_sched_class ?s i = Some s'" "rr_sched_inv (core s')"
      "s' = ?s\<lparr>core := core s'\<rparr>" "cur s' = cur ?s" "idleproc (core s') = idleproc (core ?s)"
      "p_state (proc_of s' i) = PROC_RUNNABLE"
      "\<forall>q. q \<noteq> i \<longrightarrow> p_state (proc_of s' q) = p_state (proc_of ?s q) \<and> p_wait_state (proc_of s' q) = p_wait_state (proc_of ?s q)"
      "\<forall>q. p_pid (proc_of s' q) = p_pid (proc_of ?s q) \<and> proc_links (proc_of s' q) = proc_links (proc_of ?s q)" by blast
    have "adopt default_sched_class s p = Some s'"
      using True s'(1) cs(4) i(1) by (auto simp: adopt_def Let_def fields)
    moreover have "rel_of s' q = rel_of ?s q" for q by (rule rel_of_links) (use s'(8) in blast)
    then have "leaving s' P (K(c := cs, i := p # K i)) c" using leaving_cong k by blast
    moreover have "initproc s' = initproc s" by (subst s'(3)) (simp add: cs(4))
    moreover have "p_exit_code (proc_of s' q) = p_exit_code (proc_of s q)" for q
    proof -
      have "proc_links (proc_of s' q) = proc_links (proc_of ?s q)" using s'(8) by blast
      then have "p_exit_code (proc_of s' q) = p_exit_code (proc_of ?s q)" by (simp add: proc_links_def)
      then show ?thesis using cs(5) by simp
    qed
    ultimately show ?thesis using s'(2,4,5,6,7) cs(2,3) by (intro exI [of _ s']) (simp add: fields)
  qed
qed

lemma adopt_loop_keeps:
  assumes "leaving s P K c" "c = cur s" "c \<in> P" "i = initproc s" "i \<in> P" "i \<noteq> c" "p_state (proc_of s i) \<noteq> PROC_ZOMBIE"
    and "rr_sched_inv (core s)" "i \<notin> set (K c)" "c \<notin> set (K c)"
  shows "\<exists>s'. adopt_loop default_sched_class s = Some s' \<and> family s' P (K(c := [], i := rev (K c) @ K i))
    \<and> rr_sched_inv (core s') \<and> cur s' = cur s \<and> initproc s' = initproc s
    \<and> (\<forall>q. q \<noteq> i \<longrightarrow> p_state (proc_of s' q) = p_state (proc_of s q))
    \<and> (\<forall>q. p_exit_code (proc_of s' q) = p_exit_code (proc_of s q))
    \<and> p_state (proc_of s' i) \<in> {p_state (proc_of s i), PROC_RUNNABLE}
    \<and> ((\<exists>d \<in> set (K c). p_state (proc_of s d) = PROC_ZOMBIE) \<and> p_wait_state (proc_of s i) = WT_CHILD
        \<longrightarrow> p_state (proc_of s' i) = PROC_RUNNABLE)"
  using assms
proof (induction "K c" arbitrary: s K)
  case Nil
  have "adopt_loop default_sched_class s = Some s"
    using Nil.prems(1,2) Nil.hyps by (subst adopt_loop.simps) (simp add: leaving_def flip: Nil.hyps)
  moreover have "family s P K" using leaving_end [OF Nil.prems(1)] Nil.hyps by simp
  moreover have "K(c := [], i := rev (K c) @ K i) = K" using Nil.hyps by (auto simp: fun_eq_iff)
  ultimately show ?case using Nil.prems(8) Nil.hyps
    by (intro exI [of _ s]) (simp del: fun_upd_apply)
next
  case (Cons p cs)
  note K = Cons.hyps(2) [symmetric]
  have p: "p \<noteq> i" "p \<noteq> c" using Cons.prems(9,10) K by auto
  from adopt_step [OF Cons.prems(1-8) K p] obtain t where t: "adopt default_sched_class s p = Some t"
    "leaving t P (K(c := cs, i := p # K i)) c" "rr_sched_inv (core t)" "cur t = cur s" "initproc t = initproc s"
    "\<forall>q. q \<noteq> i \<longrightarrow> p_state (proc_of t q) = p_state (proc_of s q)" "\<forall>q. p_exit_code (proc_of t q) = p_exit_code (proc_of s q)"
    "p_state (proc_of t i) \<in> {p_state (proc_of s i), PROC_RUNNABLE}"
    "p_state (proc_of t i) = PROC_RUNNABLE \<or> p_wait_state (proc_of t i) = p_wait_state (proc_of s i)"
    "p_state (proc_of s p) = PROC_ZOMBIE \<and> p_wait_state (proc_of s i) = WT_CHILD \<longrightarrow> p_state (proc_of t i) = PROC_RUNNABLE"
    by blast
  let ?K = "K(c := cs, i := p # K i)"
  have Kc: "cs = ?K c" "?K i = p # K i" using Cons.prems(6) by auto
  have z: "p_state (proc_of t i) \<noteq> PROC_ZOMBIE" using t(8) Cons.prems(7) by auto
  have nin: "i \<notin> set (?K c)" "c \<notin> set (?K c)" using Cons.prems(6,9,10) K by auto
  obtain s' where s': "adopt_loop default_sched_class t = Some s'" "family s' P (?K(c := [], i := rev (?K c) @ ?K i))"
    "rr_sched_inv (core s')" "cur s' = cur t" "initproc s' = initproc t"
    "\<forall>q. q \<noteq> i \<longrightarrow> p_state (proc_of s' q) = p_state (proc_of t q)" "\<forall>q. p_exit_code (proc_of s' q) = p_exit_code (proc_of t q)"
    "p_state (proc_of s' i) \<in> {p_state (proc_of t i), PROC_RUNNABLE}"
    "(\<exists>d \<in> set (?K c). p_state (proc_of t d) = PROC_ZOMBIE) \<and> p_wait_state (proc_of t i) = WT_CHILD
        \<longrightarrow> p_state (proc_of s' i) = PROC_RUNNABLE"
  proof -
    have "c = cur t" "i = initproc t" using Cons.prems(2,4) t(4,5) by simp_all
    from Cons.hyps(1) [OF Kc(1) t(2) this(1) Cons.prems(3) this(2) Cons.prems(5,6) z t(3) nin] that show ?thesis by blast
  qed
  have "?K(c := [], i := rev (?K c) @ ?K i) = K(c := [], i := rev (K c) @ K i)"
    using K Kc Cons.prems(6) by (auto simp: fun_eq_iff)
  moreover have "adopt_loop default_sched_class s = Some s'"
  proof -
    have "p_cptr (proc_of s (cur s)) = Some p" using Cons.prems(1,2) K by (simp add: leaving_def)
    then show ?thesis using t(1) s'(1) by (subst adopt_loop.simps) simp
  qed
  moreover have "p_state (proc_of s' i) = PROC_RUNNABLE"
    if zz: "\<exists>d \<in> set (K c). p_state (proc_of s d) = PROC_ZOMBIE" and w: "p_wait_state (proc_of s i) = WT_CHILD"
  proof (cases "p_state (proc_of t i) = PROC_RUNNABLE")
    case True
    then show ?thesis using s'(8) by auto
  next
    case False
    then have "p_wait_state (proc_of t i) = WT_CHILD" using t(9) w by simp
    moreover obtain d where d: "d \<in> set (K c)" "p_state (proc_of s d) = PROC_ZOMBIE" using zz by blast
    then have "d \<noteq> p" "d \<noteq> i" using t(10) w False Cons.prems(9) by auto
    then have "d \<in> set (?K c)" "p_state (proc_of t d) = PROC_ZOMBIE" using d K Cons.prems(6) t(6) by auto
    ultimately show ?thesis using s'(9) by blast
  qed
  ultimately show ?case using s' t by (intro exI [of _ s']) auto
qed

text \<open>
  C9: \<open>do_exit\<close> leaves a consistent family. After the running process has become a zombie with its exit
  code, and up to its last call of \<open>schedule\<close>, it has no children: they have become children of \<open>initproc\<close>,
  ahead of those it had. A parent that waits for a child is runnable, and so is \<open>initproc\<close> when it waits and
  one of the adopted children is a zombie already; no other process changes its state, and the loop ends.
\<close>

theorem exit_notify_correct:
  assumes f: "family s P K" and c: "c = cur s" "c \<in> P" and i: "i = initproc s" "i \<in> P" "i \<noteq> c" "p_state (proc_of s i) \<noteq> PROC_ZOMBIE"
    and inv: "rr_sched_inv (core s)" and K: "i \<notin> set (K c)" "c \<notin> set (K c)"
    and par: "p_parent (proc_of s c) = Some par" "p_state (proc_of s par) \<noteq> PROC_ZOMBIE"
  shows "\<exists>s'. exit_notify default_sched_class s code = Some s' \<and> family s' P (K(c := [], i := rev (K c) @ K i))
    \<and> rr_sched_inv (core s') \<and> cur s' = c \<and> p_state (proc_of s' c) = PROC_ZOMBIE \<and> p_exit_code (proc_of s' c) = code
    \<and> (p_wait_state (proc_of s par) = WT_CHILD \<longrightarrow> p_state (proc_of s' par) = PROC_RUNNABLE)
    \<and> ((\<exists>d \<in> set (K c). p_state (proc_of s d) = PROC_ZOMBIE) \<and> p_wait_state (proc_of s i) = WT_CHILD
        \<longrightarrow> p_state (proc_of s' i) = PROC_RUNNABLE)
    \<and> (\<forall>q. q \<notin> {c, par, i} \<longrightarrow> p_state (proc_of s' q) = p_state (proc_of s q))"
proof -
  let ?s = "pupd c (\<lambda>q. q\<lparr>p_state := PROC_ZOMBIE, p_exit_code := code\<rparr>) s"
  have pc: "par \<in> P" "par \<noteq> c" using f c(2) par(1) K(2) unfolding family_def by auto
  have f1: "family ?s P K" by (rule family_cong [OF _ f]) (simp add: rel_of_def Let_def)
  have "rr_inv (upd_proc c (\<lambda>q. q\<lparr>p_state := PROC_ZOMBIE, p_exit_code := code\<rparr>) (core s)) = rr_inv (core s)
      \<and> rr_queued (upd_proc c (\<lambda>q. q\<lparr>p_state := PROC_ZOMBIE, p_exit_code := code\<rparr>) (core s)) = rr_queued (core s)"
    by (rule rr.upd_frame) simp
  then have inv1: "rr_sched_inv (core ?s)"
    using inv c(1) by (auto simp: rr_sched_inv_iff rr.sched_inv_def pupd_def cur_def)
  define woken where "woken \<longleftrightarrow> p_wait_state (proc_of s par) = WT_CHILD"
  have "\<exists>t. (if woken then wake default_sched_class ?s par else Some ?s) = Some t \<and> rr_sched_inv (core t)
    \<and> cur t = c \<and> initproc t = i \<and> (woken \<longrightarrow> p_state (proc_of t par) = PROC_RUNNABLE)
    \<and> (\<forall>q. q \<noteq> par \<or> \<not> woken \<longrightarrow> p_state (proc_of t q) = p_state (proc_of ?s q) \<and> p_wait_state (proc_of t q) = p_wait_state (proc_of ?s q))
    \<and> (\<forall>q. rel_of t q = rel_of ?s q \<and> p_exit_code (proc_of t q) = p_exit_code (proc_of ?s q))"
  proof (cases woken)
    case False
    then show ?thesis using inv1 c i by (intro exI [of _ ?s]) simp
  next
    case True
    have "p_state (proc_of ?s par) \<noteq> PROC_ZOMBIE" using par(2) pc(2) by simp
    from wake_keeps [OF inv1 this] obtain t where t: "wake default_sched_class ?s par = Some t" "rr_sched_inv (core t)"
      "t = ?s\<lparr>core := core t\<rparr>" "cur t = cur ?s" "p_state (proc_of t par) = PROC_RUNNABLE"
      "\<forall>q. q \<noteq> par \<longrightarrow> p_state (proc_of t q) = p_state (proc_of ?s q) \<and> p_wait_state (proc_of t q) = p_wait_state (proc_of ?s q)"
      "\<forall>q. proc_links (proc_of t q) = proc_links (proc_of ?s q)" by blast
    have "initproc t = i" by (subst t(3)) (simp add: i(1))
    moreover have "rel_of t q = rel_of ?s q" "p_exit_code (proc_of t q) = p_exit_code (proc_of ?s q)" for q
    proof -
      have l: "proc_links (proc_of t q) = proc_links (proc_of ?s q)" using t(7) by blast
      show "rel_of t q = rel_of ?s q" by (rule rel_of_links [OF l])
      show "p_exit_code (proc_of t q) = p_exit_code (proc_of ?s q)" using l unfolding proc_links_def by simp
    qed
    ultimately show ?thesis using t(1,2,4,5,6) True c(1) by (intro exI [of _ t]) simp
  qed
  then obtain t where t: "(if woken then wake default_sched_class ?s par else Some ?s) = Some t" "rr_sched_inv (core t)"
    "cur t = c" "initproc t = i" "woken \<longrightarrow> p_state (proc_of t par) = PROC_RUNNABLE"
    "\<And>q. q \<noteq> par \<or> \<not> woken \<Longrightarrow> p_state (proc_of t q) = p_state (proc_of ?s q) \<and> p_wait_state (proc_of t q) = p_wait_state (proc_of ?s q)"
    "\<And>q. rel_of t q = rel_of ?s q" "\<And>q. p_exit_code (proc_of t q) = p_exit_code (proc_of ?s q)" by blast
  have l: "leaving t P K c" using leaving_cong [OF t(7)] leaving_start [OF f1 c(2)] by blast
  have zi: "p_state (proc_of t i) \<noteq> PROC_ZOMBIE" using t(5) t(6) [of i] i(3,4) by (cases "i = par \<and> woken") auto
  obtain s' where s': "adopt_loop default_sched_class t = Some s'" "family s' P (K(c := [], i := rev (K c) @ K i))"
    "rr_sched_inv (core s')" "cur s' = cur t"
    "\<forall>q. q \<noteq> i \<longrightarrow> p_state (proc_of s' q) = p_state (proc_of t q)" "\<forall>q. p_exit_code (proc_of s' q) = p_exit_code (proc_of t q)"
    "p_state (proc_of s' i) \<in> {p_state (proc_of t i), PROC_RUNNABLE}"
    "(\<exists>d \<in> set (K c). p_state (proc_of t d) = PROC_ZOMBIE) \<and> p_wait_state (proc_of t i) = WT_CHILD
        \<longrightarrow> p_state (proc_of s' i) = PROC_RUNNABLE"
    using adopt_loop_keeps [OF l t(3) [symmetric] c(2) t(4) [symmetric] i(2,3) zi t(2) K] by blast
  have run: "exit_notify default_sched_class s code = Some s'"
    using t(1) s'(1) par(1) pc(2) c(1) by (auto simp: exit_notify_def Let_def woken_def)
  have parent: "p_state (proc_of s' par) = PROC_RUNNABLE" if woken
    using that t(5) s'(5,7) by (cases "par = i") auto
  have init: "p_state (proc_of s' i) = PROC_RUNNABLE"
    if zd: "\<exists>d \<in> set (K c). p_state (proc_of s d) = PROC_ZOMBIE" and w: "p_wait_state (proc_of s i) = WT_CHILD"
  proof (cases "par = i \<and> woken")
    case True
    then show ?thesis using parent by auto
  next
    case False
    then have "p_wait_state (proc_of t i) = WT_CHILD" using t(6) [of i] w i(3) by auto
    moreover obtain d where d: "d \<in> set (K c)" "p_state (proc_of s d) = PROC_ZOMBIE" using zd by blast
    have "d \<noteq> par" "d \<noteq> c" using d par(2) K(2) by auto
    then have "p_state (proc_of t d) = PROC_ZOMBIE" using t(6) [of d] d(2) by simp
    ultimately show ?thesis using s'(8) d(1) by blast
  qed
  have other: "p_state (proc_of s' q) = p_state (proc_of s q)" if "q \<notin> {c, par, i}" for q
    using s'(5) t(6) [of q] that by auto
  have "p_state (proc_of s' c) = PROC_ZOMBIE" using s'(5) t(6) [of c] i(3) pc(2) by auto
  moreover have "p_exit_code (proc_of s' c) = code" using s'(6) t(8) [of c] by simp
  ultimately show ?thesis using run s'(2,3,4) t(3) parent init other by (intro exI [of _ s']) (auto simp: woken_def)
qed

text \<open>The children \<open>do_wait\<close> looks at, the youngest first.\<close>

definition waited :: "ksys \<Rightarrow> nat list \<Rightarrow> int \<Rightarrow> nat list" where
  "waited s ks pid = filter (\<lambda>d. pid = 0 \<or> p_pid (proc_of s d) = pid) ks"

lemma wait_children_spec:
  "sib s y cs \<Longrightarrow> wait_children s (first cs) b =
    Some (case find (\<lambda>d. p_state (proc_of s d) = PROC_ZOMBIE) cs of Some d \<Rightarrow> Zombie d
          | None \<Rightarrow> if b \<or> cs \<noteq> [] then Waits else NoChild)"
proof (induction cs arbitrary: y b)
  case Nil
  then show ?case by (subst wait_children.simps) simp
next
  case (Cons c cs)
  then show ?case by (subst wait_children.simps) (cases cs; auto)
qed

lemma wait_scan_spec:
  assumes f: "family s P K" and c: "c = cur s" "c \<in> P" and h: "hash_ok s Q" and Q: "set (K c) \<subseteq> Q" "Q \<subseteq> P"
    and range: "\<forall>p \<in> Q. 1 \<le> p_pid (proc_of s p) \<and> p_pid (proc_of s p) < MAX_PID"
  shows "wait_scan s pid = Some (case find (\<lambda>d. p_state (proc_of s d) = PROC_ZOMBIE) (waited s (K c) pid) of
      Some d \<Rightarrow> Zombie d | None \<Rightarrow> if waited s (K c) pid \<noteq> [] then Waits else NoChild)"
proof (cases "pid = 0")
  case True
  have "sib s None (K c)" "p_cptr (proc_of s c) = first (K c)" using family_kids [OF f c(2)] by (simp_all add: kids_def)
  then show ?thesis using wait_children_spec [of s None "K c" False] True c(1)
    by (simp add: wait_scan_def waited_def)
next
  case False
  have mem: "p \<in> set (K c) \<longleftrightarrow> p_parent (proc_of s p) = Some c" if "p \<in> Q" for p
    using f c(2) Q(2) that family_parent [OF f c(2)] unfolding family_def by blast
  from find_proc_spec [OF h, of pid] show ?thesis
  proof
    assume a: "find_proc s pid = Some None \<and> (\<forall>p \<in> Q. \<not> (0 < pid \<and> pid < MAX_PID \<and> p_pid (proc_of s p) = pid))"
    then have "p_pid (proc_of s d) \<noteq> pid" if "d \<in> set (K c)" for d using Q(1) range that by fastforce
    then have "waited s (K c) pid = []" using False by (simp add: waited_def filter_empty_conv)
    then show ?thesis using a False by (simp add: wait_scan_def)
  next
    assume "\<exists>p \<in> Q. find_proc s pid = Some (Some p) \<and> p_pid (proc_of s p) = pid \<and> 0 < pid \<and> pid < MAX_PID"
    then obtain p where p: "p \<in> Q" "find_proc s pid = Some (Some p)" "p_pid (proc_of s p) = pid" by blast
    have only: "d = p" if "d \<in> set (K c)" "p_pid (proc_of s d) = pid" for d
      using h p(1,3) Q(1) that by (auto simp: hash_ok_def inj_on_def)
    have dis: "distinct (K c)" using family_kids [OF f c(2)] by (simp add: kids_def)
    have "waited s (K c) pid = (if p \<in> set (K c) then [p] else [])"
    proof (cases "p \<in> set (K c)")
      case True
      have "set (waited s (K c) pid) = {p}"
        unfolding waited_def set_filter using only True p(3) False by blast
      moreover have "distinct (waited s (K c) pid)" using dis by (simp add: waited_def)
      ultimately have "waited s (K c) pid = [p]"
        by (metis distinct.simps(2) empty_set insert_not_empty list.exhaust list.set_intros(1,2) list.simps(15) singletonD)
      then show ?thesis using True by simp
    next
      case F: False
      have "d \<notin> set (K c) \<or> p_pid (proc_of s d) \<noteq> pid" for d using only [of d] F by blast
      then have "waited s (K c) pid = []" unfolding waited_def filter_empty_conv using False by blast
      then show ?thesis using F by simp
    qed
    then show ?thesis using p(2) False mem [OF p(1)] c(1) by (simp add: wait_scan_def)
  qed
qed

text \<open>
  What releasing a zombie needs: its stack is two pages in use, outside of the heap and accepted by the page allocator,
  and its structure is an object of the heap.
\<close>

definition stack_page :: "ksys \<Rightarrow> nat \<Rightarrow> nat option" where
  "stack_page s p = do { pa \<leftarrow> PADDR (p_kstack (proc_of s p)); pa2page (km s) pa }"

definition kstack_pages :: "ksys \<Rightarrow> nat \<Rightarrow> nat set" where
  "kstack_pages s p = (case stack_page s p of None \<Rightarrow> {} | Some pg \<Rightarrow> {pg..<pg + KSTACKPAGE})"

definition proc_block :: "ksys \<Rightarrow> nat \<Rightarrow> nat \<times> nat" where
  "proc_block s p = (p - 1, nat (units (heap (vm s)) (p - 1)))"

definition may_reap :: "ksys \<Rightarrow> nat \<Rightarrow> (nat \<times> nat) set \<Rightarrow> nat \<Rightarrow> bool" where
  "may_reap s A L p \<longleftrightarrow> (\<exists>pg. stack_page s p = Some pg \<and> ff_accepts (area (km s)) pg KSTACKPAGE)
     \<and> (\<forall>q \<in> kstack_pages s p. frame_ok (km s) (page2ppn q)
          \<and> (\<forall>u \<in> free_units A (heap (vm s)) \<union> \<Union> (span ` L). u div 256 \<noteq> page2ppn q))
     \<and> small_object (heap (vm s)) p \<and> proc_block s p \<in> L"

lemma release_proc:
  assumes "slob_inv (heap (vm s)) A L" "may_reap s A L p" "vm t = vm s" "p_kstack (proc_of t p) = p_kstack (proc_of s p)"
  shows "\<exists>u. do { t \<leftarrow> put_kstack t p; h \<leftarrow> kfree (heap (vm t)) p; Some (set_heap h t) } = Some (t\<lparr>vm := u\<rparr>)
    \<and> slob_inv (heap u) A (L - {proc_block s p}) \<and> free_units A (heap u) = free_units A (heap (vm s)) \<union> span (proc_block s p)
    \<and> free_set (area (kmem (heap u))) = free_set (area (km s)) \<union> kstack_pages s p"
proof -
  let ?h = "heap (vm s)" and ?x = "proc_block s p"
  obtain pg where pg: "stack_page s p = Some pg" "ff_accepts (area (km s)) pg KSTACKPAGE" "kstack_pages s p = {pg..<pg + KSTACKPAGE}"
    using assms(2) by (auto simp: may_reap_def kstack_pages_def)
  have x: "?x \<in> L" "small_object ?h p" using assms(2) by (simp_all add: may_reap_def)
  then have "A + 1 < fst ?x" using assms(1) by (auto simp: slob_inv_def heap_ok_def)
  then have p: "fst ?x + 1 = p" by (simp add: proc_block_def)
  obtain a where a: "free_pages init_pmm_manager (area (km s)) pg KSTACKPAGE = Some a"
    "free_set a = free_set (area (km s)) \<union> kstack_pages s p" "slob_inv (?h\<lparr>kmem := (km s)\<lparr>area := a\<rparr>\<rparr>) A L"
    using slob_inv_free_pages [OF assms(1) pg(2)] assms(2) unfolding pg(3) [symmetric] by (auto simp: may_reap_def)
  let ?t = "set_kmem ((km s)\<lparr>area := a\<rparr>) t" and ?g = "?h\<lparr>kmem := (km s)\<lparr>area := a\<rparr>\<rparr>"
  have put: "put_kstack t p = Some ?t" using pg(1) a(1) assms(3,4) by (auto simp: put_kstack_def stack_page_def bind_eq_Some_conv)
  have th: "heap (vm ?t) = ?g" by (simp add: set_kmem_def with_kmem_def assms(3))
  have "small_object ?g p" using x(2) by (simp add: small_object_def)
  then obtain h where h: "kfree ?g p = Some h" "slob_inv h A (L - {?x})" "kmem h = kmem ?g" "free_units A h = free_units A ?g \<union> span ?x"
    using kfree_small [OF a(3) x(1)] unfolding p by blast
  have "free_units A ?g = free_units A ?h" unfolding free_units_def ring_def by simp
  moreover have "set_heap h ?t = t\<lparr>vm := (vm t)\<lparr>heap := h\<rparr>\<rparr>" by (simp add: set_heap_def set_kmem_def with_kmem_def)
  ultimately show ?thesis using put h a(2) by (intro exI [of _ "(vm t)\<lparr>heap := h\<rparr>"]) (simp add: th)
qed

text \<open>The pointers of the family do not concern the scheduler.\<close>

lemma pupd_sched:
  assumes "\<And>q. p_rq (f q) = p_rq q" "\<And>q. p_state (f q) = p_state q"
  shows "rr_sched_inv (core (pupd p f s)) = rr_sched_inv (core s)"
proof -
  have "rr_inv (upd_proc p f (core s)) = rr_inv (core s) \<and> rr_queued (upd_proc p f (core s)) = rr_queued (core s)"
    by (rule rr.upd_frame) (rule assms(1))
  moreover have "p_state (procs (upd_proc p f (core s)) q) = p_state (procs (core s) q)" for q
    by (cases "q = p") (simp_all add: assms(2))
  ultimately show ?thesis by (simp add: rr_sched_inv_iff rr.sched_inv_def pupd_def)
qed

lemma remove_links_sched: "remove_links s p = Some s' \<Longrightarrow> rr_sched_inv (core s') = rr_sched_inv (core s)"
  by (auto simp: remove_links_def Let_def bind_eq_Some_conv pupd_sched split: option.splits)


subsection \<open>A concrete family\<close>

text \<open>
  Process 0 is idle, its child 4 is \<open>initproc\<close> and waits, the child 1 of 4 is running and has the zombie
  child 5. Process 9 has just got the identifier 50.
\<close>

definition sample_procs :: "nat \<Rightarrow> proc_struct" where
  "sample_procs p =
     (let q = procs sample_sched p in
      if p = 0 then q\<lparr>p_cptr := Some 4\<rparr>
      else if p = 4 then q\<lparr>p_pid := 1, p_state := PROC_SLEEPING, p_wait_state := WT_CHILD, p_parent := Some 0, p_cptr := Some 1\<rparr>
      else if p = 1 then q\<lparr>p_pid := 2, p_parent := Some 4, p_cptr := Some 5\<rparr>
      else if p = 5 then q\<lparr>p_pid := 3, p_state := PROC_ZOMBIE, p_exit_code := 7, p_parent := Some 1\<rparr>
      else if p = 9 then q\<lparr>p_pid := 50\<rparr> else q)"

definition sample_ksys :: ksys where
  "sample_ksys =
     \<lparr>core = sample_sched\<lparr>procs := sample_procs\<rparr>, vm = sample_vmm,
      plinks = \<lparr>lprev = (\<lambda>n. n)(ProcLink 5 := ProcHead, ProcLink 1 := ProcLink 5, ProcLink 4 := ProcLink 1, ProcHead := ProcLink 4),
                lnext = (\<lambda>n. n)(ProcHead := ProcLink 5, ProcLink 5 := ProcLink 1, ProcLink 1 := ProcLink 4, ProcLink 4 := ProcHead)\<rparr>,
      hlinks = \<lparr>lprev = (\<lambda>n. n)(HashHead 632 := HashLink 4, HashLink 4 := HashHead 632, HashHead 241 := HashLink 1,
                  HashLink 1 := HashHead 241, HashHead 874 := HashLink 5, HashLink 5 := HashHead 874),
                lnext = (\<lambda>n. n)(HashHead 632 := HashLink 4, HashLink 4 := HashHead 632, HashHead 241 := HashLink 1,
                  HashLink 1 := HashHead 241, HashHead 874 := HashLink 5, HashLink 5 := HashHead 874)\<rparr>,
      initproc = 4, nr_process = 4, next_safe = MAX_PID, last_pid = 3, boot_pgdir = nbase\<rparr>"

definition sample_family :: "nat \<Rightarrow> nat list" where
  "sample_family p = (if p = 0 then [4] else if p = 4 then [1] else if p = 1 then [5] else [])"

lemma sample_ksys_procs [simp]: "proc_of sample_ksys p = sample_procs p" "cur sample_ksys = 1" "initproc sample_ksys = 4"
  "idleproc (core sample_ksys) = 0"
  by (simp_all add: proc_of_def cur_def sample_ksys_def sample_sched_def)

lemma sample_procs_fields:
  "p_pid (sample_procs p) = (if p = 4 then 1 else if p = 1 then 2 else if p = 5 then 3 else if p = 9 then 50 else - 1)"
  "p_state (sample_procs p) = (if p < 4 then PROC_RUNNABLE else if p = 4 then PROC_SLEEPING else if p = 5 then PROC_ZOMBIE else PROC_UNINIT)"
  "p_wait_state (sample_procs p) = (if p = 4 then WT_CHILD else 0)"
  "p_parent (sample_procs p) = (if p = 4 then Some 0 else if p = 1 then Some 4 else if p = 5 then Some 1 else None)"
  "p_cptr (sample_procs p) = (if p = 0 then Some 4 else if p = 4 then Some 1 else if p = 1 then Some 5 else None)"
  "p_yptr (sample_procs p) = None" "p_optr (sample_procs p) = None" "p_rq (sample_procs p) = p_rq (procs sample_sched p)"
  by (auto simp: sample_procs_def sample_sched_def blank_proc_def Let_def)

lemma sample_hash_values: "pid_hashfn 1 = 632" "pid_hashfn 2 = 241" "pid_hashfn 3 = 874"
  by (simp_all add: pid_hashfn_def hash32_def HASH_SHIFT_def GOLDEN_RATIO_PRIME_32_def)

lemma sample_ksys_ok:
  "family sample_ksys {0, 1, 4, 5} sample_family" "hash_ok sample_ksys {1, 4, 5}" "rr_sched_inv (core sample_ksys)"
  "pid_inv sample_ksys [5, 1, 4]"
proof -
  show "family sample_ksys {0, 1, 4, 5} sample_family"
    by (auto simp: family_def kids_def sample_family_def sample_procs_fields)
  have "\<exists>qs. dlist (hlinks sample_ksys) (HashHead b) (map HashLink qs)
     \<and> set qs = {p \<in> {1, 4, 5}. pid_hashfn (p_pid (proc_of sample_ksys p)) = b}" for b
  proof -
    have "set (if b = 632 then [4] else if b = 241 then [1] else if b = 874 then [5] else []) =
        {p \<in> {1, 4, 5}. pid_hashfn (p_pid (proc_of sample_ksys p)) = b}"
      by (auto simp: sample_procs_fields sample_hash_values)
    moreover have "dlist (hlinks sample_ksys) (HashHead b)
        (map HashLink (if b = 632 then [4] else if b = 241 then [1] else if b = 874 then [5] else []))"
      by (simp add: sample_ksys_def dlist_def)
    ultimately show ?thesis by blast
  qed
  then show "hash_ok sample_ksys {1, 4, 5}" by (auto simp: hash_ok_def inj_on_def sample_procs_fields)
  have c: "run_links (core sample_ksys) = run_links sample_sched" "pool (core sample_ksys) = pool sample_sched"
    "rq (core sample_ksys) = rq sample_sched" "procs (core sample_ksys) = sample_procs"
    "current (core sample_ksys) = current sample_sched" "idleproc (core sample_ksys) = idleproc sample_sched"
    by (simp_all add: sample_ksys_def)
  have q: "rr_queue (core sample_ksys) [2, 3]"
    using rr_queue_frame [of "core sample_ksys" sample_sched "[2, 3]"] sample_queue by (simp add: c sample_procs_fields)
  moreover have "set [2, 3] = {p. p_state (procs (core sample_ksys) p) = PROC_RUNNABLE
      \<and> p \<noteq> current (core sample_ksys) \<and> p \<noteq> idleproc (core sample_ksys)}"
    unfolding c by (auto simp: sample_procs_fields sample_sched_def)
  ultimately show "rr_sched_inv (core sample_ksys)" unfolding rr_sched_inv_def by blast
  show "pid_inv sample_ksys [5, 1, 4]"
    unfolding pid_inv_def
    by (intro conjI) (simp_all add: pids_def sample_procs_fields, auto simp: sample_ksys_def dlist_def MAX_PID_def)
qed

theorem get_pid_correct_witness: "\<exists>s'. get_pid sample_ksys = Some (4, s')"
proof -
  have "\<exists>pid s'. get_pid sample_ksys = Some (pid, s') \<and> 1 \<le> pid"
    using get_pid_correct [OF sample_ksys_ok(4)] by (auto simp: MAX_PROCESS_def)
  moreover have "get_pid sample_ksys = Some (4, sample_ksys\<lparr>last_pid := 4\<rparr>)"
    by (simp add: get_pid_def sample_ksys_def MAX_PID_def Let_def)
  ultimately show ?thesis by auto
qed

theorem exit_notify_correct_witness:
  "\<exists>s'. exit_notify default_sched_class sample_ksys 3 = Some s' \<and> p_state (proc_of s' 4) = PROC_RUNNABLE
    \<and> family s' {0, 1, 4, 5} (sample_family(1 := [], 4 := [5, 1]))"
proof -
  have m: "(1 :: nat) \<in> {0, 1, 4, 5}" "(4 :: nat) \<in> {0, 1, 4, 5}" "(4 :: nat) \<noteq> 1"
    "1 = cur sample_ksys" "4 = initproc sample_ksys" "p_parent (proc_of sample_ksys 1) = Some 4"
    "p_state (proc_of sample_ksys 4) \<noteq> PROC_ZOMBIE" "4 \<notin> set (sample_family 1)" "1 \<notin> set (sample_family 1)"
    "p_wait_state (proc_of sample_ksys 4) = WT_CHILD" "rev (sample_family 1) @ sample_family 4 = [5, 1]"
    by (simp_all add: sample_procs_fields sample_family_def)
  from exit_notify_correct [OF sample_ksys_ok(1) m(4,1,5,2,3,7) sample_ksys_ok(3) m(8,9,6,7), of 3] m(10)
  show ?thesis unfolding m(11) by blast
qed

text \<open>
  The same family, where the zombie is the object \<open>0x8020365\<close> of the kernel heap and has the pages \<open>0x204\<close> and \<open>0x205\<close> as its
  stack.
\<close>

definition wait_procs :: "nat \<Rightarrow> proc_struct" where
  "wait_procs p =
     (let q = procs sample_sched p in
      if p = 0 then q\<lparr>p_cptr := Some 4\<rparr>
      else if p = 4 then q\<lparr>p_pid := 1, p_state := PROC_SLEEPING, p_wait_state := WT_CHILD, p_parent := Some 0, p_cptr := Some 1\<rparr>
      else if p = 1 then q\<lparr>p_pid := 2, p_parent := Some 4, p_cptr := Some 0x8020365\<rparr>
      else if p = 0x8020365 then
        q\<lparr>p_pid := 3, p_state := PROC_ZOMBIE, p_exit_code := 7, p_parent := Some 1, p_kstack := frame_kva (nbase + 0x204)\<rparr>
      else q)"

definition wait_area :: free_area where
  "wait_area = \<lparr>pages = (\<lambda>p. \<lparr>pg_ref = 0, pg_flags = (if p = 0x206 then 2 else 0), pg_property = 1\<rparr>),
     flinks = \<lparr>lprev = (\<lambda>n. n)(PageLink 0x206 := FreeHead, FreeHead := PageLink 0x206),
               lnext = (\<lambda>n. n)(FreeHead := PageLink 0x206, PageLink 0x206 := FreeHead)\<rparr>,
     nr_free = 1\<rparr>"

definition wait_heap :: slob where
  "wait_heap = \<lparr>units = (\<lambda>u. if u = 9 then 1 else if u = 0x8020364 then 22 else 100), snext = (\<lambda>u. if u = 9 then 0x8020300 else 9),
     slobfree = 9, bb_order = (\<lambda>_. 0), bb_pages = (\<lambda>_. 0), bb_next = (\<lambda>_. 0), bigblocks = 0,
     kmem = \<lparr>area = wait_area, phys = (\<lambda>_ _. 0), npage = nbase + 0x208\<rparr>\<rparr>"

definition wait_ksys :: ksys where
  "wait_ksys = sample_ksys\<lparr>core := sample_sched\<lparr>procs := wait_procs\<rparr>, vm := sample_vmm\<lparr>heap := wait_heap\<rparr>,
      plinks := \<lparr>lprev = (\<lambda>n. n)(ProcLink 0x8020365 := ProcHead, ProcLink 1 := ProcLink 0x8020365, ProcLink 4 := ProcLink 1, ProcHead := ProcLink 4),
                lnext = (\<lambda>n. n)(ProcHead := ProcLink 0x8020365, ProcLink 0x8020365 := ProcLink 1, ProcLink 1 := ProcLink 4, ProcLink 4 := ProcHead)\<rparr>,
      hlinks := \<lparr>lprev = (\<lambda>n. n)(HashHead 632 := HashLink 4, HashLink 4 := HashHead 632, HashHead 241 := HashLink 1,
                  HashLink 1 := HashHead 241, HashHead 874 := HashLink 0x8020365, HashLink 0x8020365 := HashHead 874),
                lnext = (\<lambda>n. n)(HashHead 632 := HashLink 4, HashLink 4 := HashHead 632, HashHead 241 := HashLink 1,
                  HashLink 1 := HashHead 241, HashHead 874 := HashLink 0x8020365, HashLink 0x8020365 := HashHead 874)\<rparr>\<rparr>"

definition wait_family :: "nat \<Rightarrow> nat list" where
  "wait_family p = (if p = 0 then [4] else if p = 4 then [1] else if p = 1 then [0x8020365] else [])"

lemma wait_ksys_sel [simp]: "proc_of wait_ksys p = wait_procs p" "cur wait_ksys = 1" "initproc wait_ksys = 4"
  "idleproc (core wait_ksys) = 0" "heap (vm wait_ksys) = wait_heap"
  by (simp_all add: proc_of_def cur_def wait_ksys_def sample_ksys_def sample_sched_def)

lemma wait_procs_fields:
  "p_pid (wait_procs p) = (if p = 4 then 1 else if p = 1 then 2 else if p = 0x8020365 then 3 else - 1)"
  "p_state (wait_procs p) = (if p < 4 then PROC_RUNNABLE else if p = 4 then PROC_SLEEPING else if p = 0x8020365 then PROC_ZOMBIE else PROC_UNINIT)"
  "p_parent (wait_procs p) = (if p = 4 then Some 0 else if p = 1 then Some 4 else if p = 0x8020365 then Some 1 else None)"
  "p_cptr (wait_procs p) = (if p = 0 then Some 4 else if p = 4 then Some 1 else if p = 1 then Some 0x8020365 else None)"
  "p_yptr (wait_procs p) = None" "p_optr (wait_procs p) = None" "p_rq (wait_procs p) = p_rq (procs sample_sched p)"
  by (auto simp: wait_procs_def sample_sched_def blank_proc_def Let_def)

lemma wait_ksys_ok:
  "family wait_ksys {0, 1, 4, 0x8020365} wait_family" "hash_ok wait_ksys {1, 4, 0x8020365}" "rr_sched_inv (core wait_ksys)"
proof -
  show "family wait_ksys {0, 1, 4, 0x8020365} wait_family"
    by (auto simp: family_def kids_def wait_family_def wait_procs_fields)
  have "\<exists>qs. dlist (hlinks wait_ksys) (HashHead b) (map HashLink qs)
     \<and> set qs = {p \<in> {1, 4, 0x8020365}. pid_hashfn (p_pid (proc_of wait_ksys p)) = b}" for b
  proof -
    have "set (if b = 632 then [4] else if b = 241 then [1] else if b = 874 then [0x8020365] else []) =
        {p \<in> {1, 4, 0x8020365}. pid_hashfn (p_pid (proc_of wait_ksys p)) = b}"
      by (auto simp: wait_procs_fields sample_hash_values)
    moreover have "dlist (hlinks wait_ksys) (HashHead b)
        (map HashLink (if b = 632 then [4] else if b = 241 then [1] else if b = 874 then [0x8020365] else []))"
      by (simp add: wait_ksys_def dlist_def)
    ultimately show ?thesis by blast
  qed
  then show "hash_ok wait_ksys {1, 4, 0x8020365}" by (auto simp: hash_ok_def inj_on_def wait_procs_fields)
  have c: "run_links (core wait_ksys) = run_links sample_sched" "pool (core wait_ksys) = pool sample_sched"
    "rq (core wait_ksys) = rq sample_sched" "procs (core wait_ksys) = wait_procs"
    "current (core wait_ksys) = current sample_sched" "idleproc (core wait_ksys) = idleproc sample_sched"
    by (simp_all add: wait_ksys_def)
  have q: "rr_queue (core wait_ksys) [2, 3]"
    using rr_queue_frame [of "core wait_ksys" sample_sched "[2, 3]"] sample_queue by (simp add: c wait_procs_fields)
  moreover have "set [2, 3] = {p. p_state (procs (core wait_ksys) p) = PROC_RUNNABLE
      \<and> p \<noteq> current (core wait_ksys) \<and> p \<noteq> idleproc (core wait_ksys)}"
    unfolding c by (auto simp: wait_procs_fields sample_sched_def)
  ultimately show "rr_sched_inv (core wait_ksys)" unfolding rr_sched_inv_def by blast
qed

lemma wait_area_ok: "ff_inv wait_area" "free_set wait_area = {0x206}" "ff_accepts wait_area 0x204 2"
proof -
  have pg: "PageProperty (pages wait_area p) \<longleftrightarrow> p = 0x206" "\<not> PageReserved (pages wait_area p)" for p
    by (simp_all add: wait_area_def PageProperty_def PageReserved_def PG_property_def PG_reserved_def bit_iff_odd)
  have b: "blocks wait_area [(0x206, 1)]"
    by (rule blocksI) (auto simp: pg, auto simp: wait_area_def dlist_def)
  have "spaced True [(0x206, 1 :: nat)]" by simp
  then show "ff_inv wait_area" unfolding ff_inv_def using b by blast
  show f: "free_set wait_area = {0x206}" unfolding blocks_free_set [OF b] by auto
  show "ff_accepts wait_area 0x204 2" by (simp add: ff_accepts_def ff_may_free_def f pg)
qed

lemma wait_heap_ok: "ring wait_heap 9 [(0x8020300, 100)]" "slob_inv wait_heap 9 {(0x8020364, 22)}"
proof -
  show r: "ring wait_heap 9 [(0x8020300, 100)]" by (simp add: ring_def wait_heap_def)
  have "km_ok (kmem wait_heap)" using wait_area_ok by (auto simp: km_ok_def wait_heap_def nbase_def)
  moreover have "frame_ok (kmem wait_heap) (u div 256)" if "0x8020300 \<le> u" "u < 0x8020400" for u
  proof -
    have "u div 256 = 0x80203" using that by (intro div_nat_eqI) simp_all
    then show ?thesis using wait_area_ok by (simp add: frame_ok_def wait_heap_def nbase_def)
  qed
  ultimately have "heap_ok wait_heap 9 [(0x8020300, 100)] {(0x8020364, 22)}"
    using r by (auto simp: heap_ok_def span_def cover_def nbase_def) (simp_all add: wait_heap_def)
  then show "slob_inv wait_heap 9 {(0x8020364, 22)}" by (auto simp: slob_inv_def)
qed

lemma wait_may_reap: "may_reap wait_ksys 9 {(0x8020364, 22)} 0x8020365" "kstack_pages wait_ksys 0x8020365 = {0x204, 0x205}"
proof -
  have "p_kstack (wait_procs 0x8020365) = 0xFFFFFFFFC0204000" by (simp add: wait_procs_def frame_kva_def va_pa_offset_def nbase_def)
  then have st: "stack_page wait_ksys 0x8020365 = Some 0x204"
    by (simp add: stack_page_def PADDR_def KERNBASE_def va_pa_offset_def pa2page_def PPN_def wait_heap_def nbase_def)
  then show sp: "kstack_pages wait_ksys 0x8020365 = {0x204, 0x205}" by (auto simp: kstack_pages_def KSTACKPAGE_def)
  have "frame_ok (kmem wait_heap) (page2ppn q)" if "q \<in> {0x204, 0x205}" for q
    using that wait_area_ok by (auto simp: frame_ok_def page2ppn_def wait_heap_def)
  moreover have "u div 256 \<noteq> page2ppn q"
    if "q \<in> {0x204, 0x205}" "u \<in> free_units 9 wait_heap \<union> \<Union> (span ` {(0x8020364, 22)})" for q u
  proof -
    have "u div 256 = 0x80203"
      using that(2) free_units_ring [OF wait_heap_ok(1)] by (intro div_nat_eqI) (auto simp: span_def)
    then show ?thesis using that(1) by (auto simp: page2ppn_def nbase_def)
  qed
  moreover have "small_object wait_heap p" for p by (simp add: small_object_def wait_heap_def exI [of _ "[]"])
  moreover have "proc_block wait_ksys 0x8020365 = (0x8020364, 22)" by (simp add: proc_block_def) (simp add: wait_heap_def)
  moreover have "ff_accepts (area (km wait_ksys)) 0x204 KSTACKPAGE" using wait_area_ok(3) by (simp add: KSTACKPAGE_def) (simp add: wait_heap_def)
  ultimately show "may_reap wait_ksys 9 {(0x8020364, 22)} 0x8020365" using st sp by (simp add: may_reap_def)
qed


end
