(* ===== verification/Fork.thy ===== *)
theory Fork
  imports Proc FileTable
begin

text \<open>
  Creation and end of processes (\<open>do_fork\<close>, \<open>do_exit\<close>, \<open>copy_files\<close>, \<open>put_files\<close> of \<open>kern/process/proc.c\<close>): the state is
  the pair of the kernel state of theory Proc and the file system state of theory Vnode. The addresses \<open>kmalloc\<close>
  returns for a \<open>files_struct\<close> come as the parameter \<open>fsaddr\<close>, \<open>None\<close> being \<open>NULL\<close>, with the old contents \<open>mem\<close> of
  that memory.
\<close>

definition share_files :: "ksys \<Rightarrow> vstate \<Rightarrow> nat \<Rightarrow> nat \<Rightarrow> ksys \<times> vstate" where
  "share_files s v p i =
     (pupd p (\<lambda>q. q\<lparr>p_filesp := Some i\<rparr>) s, upd_files i (\<lambda>f. f\<lparr>files_count := files_count f + 1\<rparr>) v)"

definition copy_files ::
    "nat option \<Rightarrow> ofile list \<Rightarrow> ksys \<Rightarrow> vstate \<Rightarrow> u32 \<Rightarrow> nat \<Rightarrow> (err option \<times> ksys \<times> vstate) option" where
  "copy_files fsaddr mem s v clone_flags p =
     do {
       old \<leftarrow> p_filesp (proc_of s (cur s));
       if clone_flags AND CLONE_FS \<noteq> 0 then Some (None, share_files s v p old)
       else (case fsaddr of
          None \<Rightarrow> Some (Some E_NO_MEM, s, v)
        | Some i \<Rightarrow> do {
            v \<leftarrow> dup_files i old (files_create (Some i) mem v);
            Some (None, share_files s v p i)
          })
     }"

definition put_files :: "ksys \<Rightarrow> vstate \<Rightarrow> nat \<Rightarrow> vstate option" where
  "put_files s v p =
     (case p_filesp (proc_of s p) of
        None \<Rightarrow> Some v
      | Some i \<Rightarrow> do {
          f \<leftarrow> fstructs v i;
          let v = upd_files i (\<lambda>f. f\<lparr>files_count := files_count f - 1\<rparr>) v;
          if files_count f - 1 = 0 then files_destroy i v else Some v
        })"

text \<open>The code at \<open>bad_fork_cleanup_proc\<close> and \<open>bad_fork_cleanup_kstack\<close>.\<close>

definition free_proc :: "ksys \<Rightarrow> nat \<Rightarrow> ksys option" where
  "free_proc s p = do { h \<leftarrow> kfree (heap (vm s)) p; Some (set_heap h s) }"

definition free_proc_stack :: "ksys \<Rightarrow> nat \<Rightarrow> ksys option" where
  "free_proc_stack s p = do { s \<leftarrow> put_kstack s p; free_proc s p }"

text \<open>\<open>do_fork\<close> up to the process structure with its memory and context; then its entry into the lists.\<close>

definition fork_build :: "u64 \<Rightarrow> ksys \<Rightarrow> u32 \<Rightarrow> u64 \<Rightarrow> trapframe \<Rightarrow> ((err + nat) \<times> ksys) option" where
  "fork_build forkret s clone_flags stack tf =
     do {
       (p, s) \<leftarrow> alloc_proc s;
       if p = 0 then Some (Inl E_NO_MEM, s)
       else do {
         let s = pupd p (\<lambda>q. q\<lparr>p_parent := Some (cur s)\<rparr>) s;
         let s = pupd (cur s) (\<lambda>q. q\<lparr>p_wait_state := 0\<rparr>) s;
         (r, s) \<leftarrow> setup_kstack s p;
         if r \<noteq> None then do { s \<leftarrow> free_proc s p; Some (Inl E_NO_MEM, s) }
         else do {
           (r, s) \<leftarrow> copy_mm s clone_flags p;
           if r \<noteq> None then do { s \<leftarrow> free_proc_stack s p; Some (Inl E_NO_MEM, s) }
           else Some (Inr p, copy_thread forkret s p stack tf)
         }
       }
     }"

definition fork_link :: "sched_class \<Rightarrow> ksys \<Rightarrow> nat \<Rightarrow> (int \<times> ksys) option" where
  "fork_link sc s p =
     do {
       (pid, s) \<leftarrow> get_pid s;
       let s = pupd p (\<lambda>q. q\<lparr>p_pid := pid\<rparr>) s;
       s \<leftarrow> set_links (hash_proc s p) p;
       s \<leftarrow> wake sc s p;
       Some (p_pid (proc_of s p), s)
     }"

definition do_fork ::
    "sched_class \<Rightarrow> u64 \<Rightarrow> nat option \<Rightarrow> ofile list \<Rightarrow> ksys \<Rightarrow> vstate \<Rightarrow> u32 \<Rightarrow> u64 \<Rightarrow> trapframe
     \<Rightarrow> (int \<times> ksys \<times> vstate) option" where
  "do_fork sc forkret fsaddr mem s v clone_flags stack tf =
     (if nr_process s \<ge> MAX_PROCESS then Some (- err_code E_NO_FREE_PROC, s, v)
      else do {
        (r, s) \<leftarrow> fork_build forkret s clone_flags stack tf;
        (case r of
           Inl e \<Rightarrow> Some (- err_code e, s, v)
         | Inr p \<Rightarrow> do {
             (ret, s) \<leftarrow> fork_link sc s p;
             (e, s, v) \<leftarrow> copy_files fsaddr mem s v clone_flags p;
             if e \<noteq> None then do {
               v \<leftarrow> put_files s v p;
               s \<leftarrow> free_proc_stack s p;
               Some (ret, s, v)
             }
             else Some (ret, s, v)
           })
      })"

text \<open>\<open>do_exit\<close> up to the call of \<open>schedule\<close>: the files are given up only together with an address space.\<close>

definition do_exit :: "sched_class \<Rightarrow> ksys \<Rightarrow> vstate \<Rightarrow> int \<Rightarrow> (ksys \<times> vstate) option" where
  "do_exit sc s v error_code =
     do {
       assert_that (cur s \<noteq> idleproc (core s));
       assert_that (cur s \<noteq> initproc s);
       (s, v) \<leftarrow>
         (if p_mm (proc_of s (cur s)) \<noteq> None then do {
            s \<leftarrow> exit_mm s;
            v \<leftarrow> put_files s v (cur s);
            Some (s, v)
          } else Some (s, v));
       s \<leftarrow> exit_notify sc s error_code;
       Some (s, v)
     }"

end
