(* ===== verification/Sysfile.thy ===== *)
theory Sysfile
  imports Fork
begin

text \<open>
  The file system calls (\<open>kern/fs/sysfile.c\<close>): between the addresses of a user program and the open files. The
  state is the kernel of theory Proc with the file system of theory Vnode. Memory is what the frames of theory
  PageTable hold, read and written byte by byte through the page table of the running process; an access to an
  address that is not mapped is a page fault in the kernel, which never returns. The buffers of this file come from
  the kernel heap: \<open>kva\<close> is the kernel address of an object of theory Kmalloc. A C integer that is returned is an \<open>int\<close>.
\<close>

record usys =
  kern :: ksys
  fsys :: vstate

subsection \<open>Memory\<close>

definition kva :: "nat \<Rightarrow> u64" where
  "kva p = push_bit 4 (word_of_nat p) + va_pa_offset"

definition get_byte :: "u64 \<Rightarrow> nat \<Rightarrow> u8" where
  "get_byte w i = ucast (drop_bit (8 * i) w)"

definition set_byte :: "u64 \<Rightarrow> nat \<Rightarrow> u8 \<Rightarrow> u64" where
  "set_byte w i b = w AND NOT (push_bit (8 * i) 0xFF) OR push_bit (8 * i) (ucast b)"

text \<open>
  The frame and the offset behind an address: kernel addresses are mapped directly, user addresses by the page table
  with the given root.
\<close>

definition translate :: "kmem \<Rightarrow> nat \<Rightarrow> u64 \<Rightarrow> (nat \<times> nat) option" where
  "translate k pgdir a =
     (let off = unat (a AND 0xFFF) in
      if a \<ge> KERNBASE then
        (let f = PPN (a - va_pa_offset) in if f < npage k then Some (f, off) else None)
      else
        (let e = leaf k pgdir a in if pte_valid e then Some (entry_ppn e, off) else None))"

definition load_byte :: "kmem \<Rightarrow> nat \<Rightarrow> u64 \<Rightarrow> u8 option" where
  "load_byte k pgdir a =
     do { (f, i) \<leftarrow> translate k pgdir a; Some (get_byte (get_entry k (f, word_of_nat (i div 8))) (i mod 8)) }"

definition store_byte :: "kmem \<Rightarrow> nat \<Rightarrow> u64 \<Rightarrow> u8 \<Rightarrow> kmem option" where
  "store_byte k pgdir a b =
     do {
       (f, i) \<leftarrow> translate k pgdir a;
       let w = (f, word_of_nat (i div 8));
       Some (set_entry w (set_byte (get_entry k w) (i mod 8) b) k)
     }"

fun load_bytes :: "kmem \<Rightarrow> nat \<Rightarrow> u64 \<Rightarrow> nat \<Rightarrow> u8 list option" where
  "load_bytes k pgdir a 0 = Some []"
| "load_bytes k pgdir a (Suc n) =
     do { b \<leftarrow> load_byte k pgdir a; bs \<leftarrow> load_bytes k pgdir (a + 1) n; Some (b # bs) }"

fun store_bytes :: "kmem \<Rightarrow> nat \<Rightarrow> u64 \<Rightarrow> u8 list \<Rightarrow> kmem option" where
  "store_bytes k pgdir a [] = Some k"
| "store_bytes k pgdir a (b # bs) = do { k \<leftarrow> store_byte k pgdir a b; store_bytes k pgdir (a + 1) bs }"

definition u64_bytes :: "u64 \<Rightarrow> u8 list" where
  "u64_bytes w = map (get_byte w) [0..<8]"

definition bytes_u64 :: "u8 list \<Rightarrow> u64" where
  "bytes_u64 bs = foldr (\<lambda>b w. ucast b OR push_bit 8 w) (take 8 bs) 0"

text \<open>The memory of the running process: loads, stores, and the total view in which unmapped bytes are 0.\<close>

definition cur_pgdir :: "usys \<Rightarrow> nat" where
  "cur_pgdir u = PPN (p_pgdir (proc_of (kern u) (cur (kern u))))"

definition uload :: "usys \<Rightarrow> u64 \<Rightarrow> nat \<Rightarrow> u8 list option" where
  "uload u a n = load_bytes (km (kern u)) (cur_pgdir u) a n"

definition ustore :: "usys \<Rightarrow> u64 \<Rightarrow> u8 list \<Rightarrow> usys option" where
  "ustore u a bs =
     do { k \<leftarrow> store_bytes (km (kern u)) (cur_pgdir u) a bs; Some (u\<lparr>kern := set_kmem k (kern u)\<rparr>) }"

definition view_mem :: "usys \<Rightarrow> mem" where
  "view_mem u = (\<lambda>a. case load_byte (km (kern u)) (cur_pgdir u) (word_of_nat a) of None \<Rightarrow> 0 | Some b \<Rightarrow> b)"

definition peek :: "mem \<Rightarrow> u64 \<Rightarrow> nat \<Rightarrow> u8 list" where
  "peek m a n = map (\<lambda>i. m (unat a + i)) [0..<n]"

text \<open>The string at a kernel address.\<close>

definition string_at :: "usys \<Rightarrow> u64 \<Rightarrow> u8 list option" where
  "string_at u a = do { n \<leftarrow> strlen (view_mem u) (unat a); uload u a n }"

subsection \<open>Calls into the other parts of the kernel\<close>

definition cur_mm :: "usys \<Rightarrow> nat" where
  "cur_mm u = (case p_mm (proc_of (kern u) (cur (kern u))) of Some mm \<Rightarrow> mm | None \<Rightarrow> 0)"

definition kalloc :: "usys \<Rightarrow> nat \<Rightarrow> (nat \<times> usys) option" where
  "kalloc u n = do { (p, h) \<leftarrow> kmalloc (heap (vm (kern u))) n; Some (p, u\<lparr>kern := set_heap h (kern u)\<rparr>) }"

definition kdrop :: "usys \<Rightarrow> nat \<Rightarrow> usys option" where
  "kdrop u p = do { h \<leftarrow> kfree (heap (vm (kern u))) p; Some (u\<lparr>kern := set_heap h (kern u)\<rparr>) }"

definition set_vm :: "vmm \<Rightarrow> usys \<Rightarrow> usys" where
  "set_vm v u = u\<lparr>kern := (kern u)\<lparr>vm := v\<rparr>\<rparr>"

text \<open>The copies check the range and then copy; the bytes read must be mapped.\<close>

definition from_user :: "usys \<Rightarrow> u64 \<Rightarrow> u64 \<Rightarrow> u64 \<Rightarrow> bool \<Rightarrow> (bool \<times> usys) option" where
  "from_user u dst src len writable =
     do {
       (ok, m, v) \<leftarrow> copy_from_user (vm (kern u)) (view_mem u) (cur_mm u) dst src len writable;
       let u = set_vm v u;
       if ok then do {
         bs \<leftarrow> uload u src (unat len);
         u \<leftarrow> ustore u dst (peek m dst (unat len));
         Some (True, u)
       } else Some (False, u)
     }"

definition to_user :: "usys \<Rightarrow> u64 \<Rightarrow> u64 \<Rightarrow> u64 \<Rightarrow> (bool \<times> usys) option" where
  "to_user u dst src len =
     do {
       (ok, m, v) \<leftarrow> copy_to_user (vm (kern u)) (view_mem u) (cur_mm u) dst src len;
       let u = set_vm v u;
       if ok then do {
         bs \<leftarrow> uload u src (unat len);
         u \<leftarrow> ustore u dst (peek m dst (unat len));
         Some (True, u)
       } else Some (False, u)
     }"

text \<open>
  A string: the part copied before a failure stays in the buffer. As an unmapped byte counts as the end of the
  string, a copy that fails has only read mapped bytes, and one that succeeds must have its terminator mapped.
\<close>

definition string_from_user :: "usys \<Rightarrow> u64 \<Rightarrow> u64 \<Rightarrow> nat \<Rightarrow> (bool \<times> usys) option" where
  "string_from_user u dst src maxn =
     do {
       (ok, m, v) \<leftarrow> copy_string (vm (kern u)) (view_mem u) (cur_mm u) dst src (word_of_nat maxn);
       let n = strnlen (view_mem u) (unat src) maxn;
       let u = set_vm v u;
       bs \<leftarrow> uload u src (if ok then n + 1 else 0);
       u \<leftarrow> ustore u dst (peek m dst maxn);
       Some (ok, u)
     }"

text \<open>A call into the file system of the running process, whose open files are \<open>current->filesp\<close>.\<close>

definition with_files :: "usys \<Rightarrow> (vstate \<Rightarrow> ('a \<times> vstate) option) \<Rightarrow> ('a \<times> usys) option" where
  "with_files u f =
     do {
       i \<leftarrow> p_filesp (proc_of (kern u) (cur (kern u)));
       (r, v) \<leftarrow> f ((fsys u)\<lparr>cur_files := i\<rparr>);
       Some (r, u\<lparr>fsys := v\<rparr>)
     }"

text \<open>The value returned by a function of type \<open>int\<close> for a \<open>size_t\<close>.\<close>

definition c_int :: "u64 \<Rightarrow> int" where
  "c_int w = sint (ucast w :: 32 word)"

subsection \<open>Paths\<close>

abbreviation (input) FS_MAX_FPATH_LEN :: nat where "FS_MAX_FPATH_LEN \<equiv> 4095"
abbreviation (input) IOBUF_SIZE :: nat where "IOBUF_SIZE \<equiv> 4096"

definition copy_path :: "usys \<Rightarrow> u64 \<Rightarrow> ((err + nat) \<times> usys) option" where
  "copy_path u src =
     do {
       (p, u) \<leftarrow> kalloc u (FS_MAX_FPATH_LEN + 1);
       if p = 0 then Some (Inl E_NO_MEM, u)
       else do {
         (ok, u) \<leftarrow> string_from_user u (kva p) src (FS_MAX_FPATH_LEN + 1);
         if ok then Some (Inr p, u)
         else do { u \<leftarrow> kdrop u p; Some (Inl E_INVAL, u) }
       }
     }"

text \<open>The functions that take one path: copy it, call \<open>f\<close> with it, free the copy.\<close>

definition with_path :: "usys \<Rightarrow> u64 \<Rightarrow> (u8 list \<Rightarrow> vstate \<Rightarrow> (int \<times> vstate) option) \<Rightarrow> (int \<times> usys) option" where
  "with_path u src f =
     do {
       (r, u) \<leftarrow> copy_path u src;
       (case r of
          Inl e \<Rightarrow> Some (- err_code e, u)
        | Inr p \<Rightarrow> do {
            path \<leftarrow> string_at u (kva p);
            (ret, u) \<leftarrow> with_files u (f path);
            u \<leftarrow> kdrop u p;
            Some (ret, u)
          })
     }"

definition with_paths :: "usys \<Rightarrow> u64 \<Rightarrow> u64 \<Rightarrow> (u8 list \<Rightarrow> u8 list \<Rightarrow> err option) \<Rightarrow> (int \<times> usys) option" where
  "with_paths u src1 src2 f =
     do {
       (r, u) \<leftarrow> copy_path u src1;
       (case r of
          Inl e \<Rightarrow> Some (- err_code e, u)
        | Inr p1 \<Rightarrow> do {
            (r, u) \<leftarrow> copy_path u src2;
            (case r of
               Inl e \<Rightarrow> do { u \<leftarrow> kdrop u p1; Some (- err_code e, u) }
             | Inr p2 \<Rightarrow> do {
                 path1 \<leftarrow> string_at u (kva p1);
                 path2 \<leftarrow> string_at u (kva p2);
                 u \<leftarrow> kdrop u p1;
                 u \<leftarrow> kdrop u p2;
                 Some (ret_int (f path1 path2), u)
               })
          })
     }"

definition sysfile_open :: "usys \<Rightarrow> u64 \<Rightarrow> u32 \<Rightarrow> (int \<times> usys) option" where
  "sysfile_open u path open_flags = with_path u path (\<lambda>path. file_open path open_flags)"

definition sysfile_chdir :: "usys \<Rightarrow> u64 \<Rightarrow> (int \<times> usys) option" where
  "sysfile_chdir u path =
     with_path u path (\<lambda>path v. do { (r, v) \<leftarrow> vfs_chdir path v; Some (ret_int r, v) })"

definition sysfile_unlink :: "usys \<Rightarrow> u64 \<Rightarrow> (int \<times> usys) option" where
  "sysfile_unlink u path = with_path u path (\<lambda>path v. Some (ret_int (vfs_unlink path), v))"

definition sysfile_link :: "usys \<Rightarrow> u64 \<Rightarrow> u64 \<Rightarrow> (int \<times> usys) option" where
  "sysfile_link u path1 path2 = with_paths u path1 path2 vfs_link"

definition sysfile_rename :: "usys \<Rightarrow> u64 \<Rightarrow> u64 \<Rightarrow> (int \<times> usys) option" where
  "sysfile_rename u path1 path2 = with_paths u path1 path2 vfs_rename"

subsection \<open>Reading and writing\<close>

definition sysfile_close :: "usys \<Rightarrow> int \<Rightarrow> (int \<times> usys) option" where
  "sysfile_close u fd = with_files u (file_close fd)"

definition testfd_user :: "usys \<Rightarrow> int \<Rightarrow> bool \<Rightarrow> bool \<Rightarrow> bool option" where
  "testfd_user u fd readable writable =
     do {
       (r, _) \<leftarrow> with_files u (\<lambda>v. do { r \<leftarrow> file_testfd fd readable writable v; Some (r, v) });
       Some r
     }"

text \<open>One transfer of a round: \<open>file_read\<close> fills the kernel buffer \<open>p\<close>, \<open>file_write\<close> empties it.\<close>

definition read_round :: "usys \<Rightarrow> int \<Rightarrow> nat \<Rightarrow> u64 \<Rightarrow> (int \<times> u64 \<times> usys) option" where
  "read_round u fd p alen =
     do {
       buffer \<leftarrow> uload u (kva p) IOBUF_SIZE;
       ((ret, n, buffer), u) \<leftarrow> with_files u (\<lambda>v. do {
          (ret, n, buffer, v) \<leftarrow> file_read fd buffer (unat alen) v;
          Some ((ret, n, buffer), v) });
       u \<leftarrow> ustore u (kva p) buffer;
       Some (ret, word_of_nat n, u)
     }"

definition write_round :: "usys \<Rightarrow> int \<Rightarrow> nat \<Rightarrow> u64 \<Rightarrow> (int \<times> u64 \<times> usys) option" where
  "write_round u fd p alen =
     do {
       buffer \<leftarrow> uload u (kva p) IOBUF_SIZE;
       ((ret, n), u) \<leftarrow> with_files u (\<lambda>v. do {
          (ret, n, buffer, v) \<leftarrow> file_write fd buffer (unat alen) v;
          Some ((ret, n), v) });
       Some (ret, word_of_nat n, u)
     }"

text \<open>The loops; the result is \<open>ret\<close> and \<open>copied\<close> at the label \<open>out\<close>.\<close>

partial_function (option) read_loop ::
    "usys \<Rightarrow> int \<Rightarrow> nat \<Rightarrow> u64 \<Rightarrow> u64 \<Rightarrow> u64 \<Rightarrow> int \<Rightarrow> (int \<times> u64 \<times> usys) option" where
  "read_loop u fd p base len copied ret =
     (if len = 0 then Some (ret, copied, u)
      else do {
        r \<leftarrow> read_round u fd p (if word_of_nat IOBUF_SIZE > len then len else word_of_nat IOBUF_SIZE);
        let (ret, alen, u) = r;
        c \<leftarrow> (if alen \<noteq> 0 then to_user u base (kva p) alen else Some (True, u));
        let (ok, u) = c;
        let ret = (if \<not> ok \<and> ret = 0 then - err_code E_INVAL else ret);
        assert_that (ok \<longrightarrow> len \<ge> alen);
        let (base, len, copied) = (if ok then (base + alen, len - alen, copied + alen) else (base, len, copied));
        if ret \<noteq> 0 \<or> alen = 0 then Some (ret, copied, u)
        else read_loop u fd p base len copied ret
      })"

definition sysfile_read :: "usys \<Rightarrow> int \<Rightarrow> u64 \<Rightarrow> u64 \<Rightarrow> (int \<times> usys) option" where
  "sysfile_read u fd base len =
     (if len = 0 then Some (0, u)
      else do {
        ok \<leftarrow> testfd_user u fd True False;
        if \<not> ok then Some (- err_code E_INVAL, u)
        else do {
          (p, u) \<leftarrow> kalloc u IOBUF_SIZE;
          if p = 0 then Some (- err_code E_NO_MEM, u)
          else do {
            (ret, copied, u) \<leftarrow> read_loop u fd p base len 0 0;
            u \<leftarrow> kdrop u p;
            Some (if copied \<noteq> 0 then c_int copied else ret, u)
          }
        }
      })"

partial_function (option) write_loop ::
    "usys \<Rightarrow> int \<Rightarrow> nat \<Rightarrow> u64 \<Rightarrow> u64 \<Rightarrow> u64 \<Rightarrow> int \<Rightarrow> (int \<times> u64 \<times> usys) option" where
  "write_loop u fd p base len copied ret =
     (if len = 0 then Some (ret, copied, u)
      else do {
        let alen = (if word_of_nat IOBUF_SIZE > len then len else word_of_nat IOBUF_SIZE);
        c \<leftarrow> from_user u (kva p) base alen False;
        let (ok, u) = c;
        let ret = (if ok then ret else - err_code E_INVAL);
        r \<leftarrow> (if ret = 0 then write_round u fd p alen else Some (ret, alen, u));
        let moved = (ret = 0 \<and> fst (snd r) \<noteq> 0);
        let (ret, alen, u) = r;
        assert_that (moved \<longrightarrow> len \<ge> alen);
        let (base, len, copied) = (if moved then (base + alen, len - alen, copied + alen) else (base, len, copied));
        if ret \<noteq> 0 \<or> alen = 0 then Some (ret, copied, u)
        else write_loop u fd p base len copied ret
      })"

definition sysfile_write :: "usys \<Rightarrow> int \<Rightarrow> u64 \<Rightarrow> u64 \<Rightarrow> (int \<times> usys) option" where
  "sysfile_write u fd base len =
     (if len = 0 then Some (0, u)
      else do {
        ok \<leftarrow> testfd_user u fd False True;
        if \<not> ok then Some (- err_code E_INVAL, u)
        else do {
          (p, u) \<leftarrow> kalloc u IOBUF_SIZE;
          if p = 0 then Some (- err_code E_NO_MEM, u)
          else do {
            (ret, copied, u) \<leftarrow> write_loop u fd p base len 0 0;
            u \<leftarrow> kdrop u p;
            Some (if copied \<noteq> 0 then c_int copied else ret, u)
          }
        }
      })"

subsection \<open>The other calls\<close>

definition sysfile_seek :: "usys \<Rightarrow> int \<Rightarrow> int \<Rightarrow> int \<Rightarrow> (int \<times> usys) option" where
  "sysfile_seek u fd pos whence = with_files u (file_seek fd pos whence)"

text \<open>
  \<open>stat\<close> in memory: four bytes of padding follow \<open>st_mode\<close>. \<open>lcl\<close> is the address of the local variable on the kernel
  stack.
\<close>

definition put_stat :: "usys \<Rightarrow> u64 \<Rightarrow> stat \<Rightarrow> usys option" where
  "put_stat u a st =
     do {
       u \<leftarrow> ustore u a (u32_bytes (st_mode st));
       ustore u (a + 8) (u64_bytes (word_of_nat (st_nlinks st)) @ u64_bytes (word_of_nat (st_blocks st))
         @ u64_bytes (word_of_nat (st_size st)))
     }"

definition sysfile_fstat :: "u64 \<Rightarrow> usys \<Rightarrow> int \<Rightarrow> u64 \<Rightarrow> (int \<times> usys) option" where
  "sysfile_fstat lcl u fd dst =
     do {
       (r, u) \<leftarrow> with_files u (file_fstat fd);
       (case r of
          Inl e \<Rightarrow> Some (- err_code e, u)
        | Inr st \<Rightarrow> do {
            u \<leftarrow> put_stat u lcl st;
            (ok, u) \<leftarrow> to_user u dst lcl 32;
            Some (if ok then 0 else - err_code E_INVAL, u)
          })
     }"

definition sysfile_fsync :: "usys \<Rightarrow> int \<Rightarrow> (int \<times> usys) option" where
  "sysfile_fsync u fd = with_files u (file_fsync fd)"

definition sysfile_getcwd :: "usys \<Rightarrow> u64 \<Rightarrow> u64 \<Rightarrow> (int \<times> usys) option" where
  "sysfile_getcwd u buf len =
     (if len = 0 then Some (- err_code E_INVAL, u)
      else do {
        (ok, v) \<leftarrow> user_mem_check (vm (kern u)) (cur_mm u) buf len True;
        let u = set_vm v u;
        if ok then do {
          base \<leftarrow> uload u buf (unat len);
          ((r, base), u) \<leftarrow> with_files u (\<lambda>v. do {
             (r, iob, v) \<leftarrow> vfs_getcwd (iobuf_init base (unat len) 0) v;
             Some ((r, io_mem iob), v) });
          u \<leftarrow> ustore u buf base;
          Some (ret_int r, u)
        } else Some (- err_code E_INVAL, u)
      })"

text \<open>\<open>struct dirent\<close>: eight bytes of \<open>offset\<close> and 256 bytes of \<open>name\<close>.\<close>

definition get_dirent :: "usys \<Rightarrow> u64 \<Rightarrow> dirent option" where
  "get_dirent u a =
     do { o1 \<leftarrow> uload u a 8; nm \<leftarrow> uload u (a + 8) 256; Some \<lparr>d_offset = sint (bytes_u64 o1), d_name = nm\<rparr> }"

definition put_dirent :: "usys \<Rightarrow> u64 \<Rightarrow> dirent \<Rightarrow> usys option" where
  "put_dirent u a de = do { u \<leftarrow> ustore u a (u64_bytes (word_of_int (d_offset de))); ustore u (a + 8) (d_name de) }"

definition sysfile_getdirentry :: "usys \<Rightarrow> int \<Rightarrow> u64 \<Rightarrow> (int \<times> usys) option" where
  "sysfile_getdirentry u fd direntp =
     do {
       (p, u) \<leftarrow> kalloc u 264;
       if p = 0 then Some (- err_code E_NO_MEM, u)
       else do {
         (ok, u) \<leftarrow> from_user u (kva p) direntp 8 True;
         (ret, u) \<leftarrow>
           (if \<not> ok then Some (- err_code E_INVAL, u)
            else do {
              de \<leftarrow> get_dirent u (kva p);
              ((ret, de), u) \<leftarrow> with_files u (\<lambda>v. do {
                 (ret, de, v) \<leftarrow> file_getdirentry fd de v; Some ((ret, de), v) });
              u \<leftarrow> put_dirent u (kva p) de;
              if ret \<noteq> 0 then Some (ret, u)
              else do {
                (ok, u) \<leftarrow> to_user u direntp (kva p) 264;
                Some (if ok then 0 else - err_code E_INVAL, u)
              }
            });
         u \<leftarrow> kdrop u p;
         Some (ret, u)
       }
     }"

definition sysfile_dup :: "usys \<Rightarrow> int \<Rightarrow> int \<Rightarrow> (int \<times> usys) option" where
  "sysfile_dup u fd1 fd2 = with_files u (file_dup fd1 fd2)"

definition sysfile_pipe :: "int" where "sysfile_pipe = - err_code E_UNIMP"
definition sysfile_mkfifo :: "int" where "sysfile_mkfifo = - err_code E_UNIMP"

end
