(* ===== verification/Exec.thy ===== *)
theory Exec
  imports Sysfile Printf
begin

text \<open>
  Running a program (\<open>load_icode\<close>, \<open>do_execve\<close> of \<open>kern/process/proc.c\<close>). The local variables whose addresses are
  passed on, \<open>elf\<close> and \<open>local_name\<close>, lie on the kernel stack at the addresses \<open>lelf\<close> and \<open>lname\<close>. \<open>kfree\<close> of
  a pointer that does not point to the start of an object is undefined and does not return.
\<close>

subsection \<open>The file format (libs/elf.h)\<close>

record elfhdr =
  e_magic :: u32
  e_elf :: "u8 list"
  e_type :: u16
  e_machine :: u16
  e_version :: u32
  e_entry :: u64
  e_phoff :: u64
  e_shoff :: u64
  e_flags :: u32
  e_ehsize :: u16
  e_phentsize :: u16
  e_phnum :: u16
  e_shentsize :: u16
  e_shnum :: u16
  e_shstrndx :: u16

record proghdr =
  ph_type :: u32
  ph_flags :: u32
  ph_offset :: u64
  ph_va :: u64
  ph_pa :: u64
  ph_filesz :: u64
  ph_memsz :: u64
  ph_align :: u64

abbreviation (input) ELF_MAGIC :: u32 where "ELF_MAGIC \<equiv> 0x464C457F"
abbreviation (input) ELF_PT_LOAD :: u32 where "ELF_PT_LOAD \<equiv> 1"
abbreviation (input) ELF_PF_X :: u32 where "ELF_PF_X \<equiv> 1"
abbreviation (input) ELF_PF_W :: u32 where "ELF_PF_W \<equiv> 2"
abbreviation (input) ELF_PF_R :: u32 where "ELF_PF_R \<equiv> 4"

definition bytes_elfhdr :: "u8 list \<Rightarrow> elfhdr" where
  "bytes_elfhdr bs =
     (let w16 = (\<lambda>i. bytes_u16 (slice bs i 2)); w32 = (\<lambda>i. bytes_u32 (slice bs i 4)); w64 = (\<lambda>i. bytes_u64 (slice bs i 8)) in
      \<lparr>e_magic = w32 0, e_elf = slice bs 4 12, e_type = w16 16, e_machine = w16 18, e_version = w32 20, e_entry = w64 24,
       e_phoff = w64 32, e_shoff = w64 40, e_flags = w32 48, e_ehsize = w16 52, e_phentsize = w16 54, e_phnum = w16 56,
       e_shentsize = w16 58, e_shnum = w16 60, e_shstrndx = w16 62\<rparr>)"

definition bytes_proghdr :: "u8 list \<Rightarrow> proghdr" where
  "bytes_proghdr bs =
     (let w32 = (\<lambda>i. bytes_u32 (slice bs i 4)); w64 = (\<lambda>i. bytes_u64 (slice bs i 8)) in
      \<lparr>ph_type = w32 0, ph_flags = w32 4, ph_offset = w64 8, ph_va = w64 16, ph_pa = w64 24, ph_filesz = w64 32,
       ph_memsz = w64 40, ph_align = w64 48\<rparr>)"

subsection \<open>Loading the segments\<close>

definition load_icode_read :: "usys \<Rightarrow> int \<Rightarrow> u64 \<Rightarrow> u64 \<Rightarrow> u64 \<Rightarrow> (int \<times> usys) option" where
  "load_icode_read u fd buf len offset =
     do {
       (ret, u) \<leftarrow> sysfile_seek u fd (sint offset) LSEEK_SET;
       if ret \<noteq> 0 then Some (ret, u)
       else do {
         (ret, u) \<leftarrow> sysfile_read u fd buf len;
         Some (if word_of_int ret \<noteq> len then (if ret < 0 then ret else - 1) else 0, u)
       }
     }"

text \<open>\<open>pgdir_alloc_page(mm->pgdir, la, perm)\<close>; the result is the kernel address of the page.\<close>

definition mm_page :: "usys \<Rightarrow> nat \<Rightarrow> u64 \<Rightarrow> u64 \<Rightarrow> (u64 option \<times> usys) option" where
  "mm_page u mm la perm =
     do {
       (page, k) \<leftarrow> pgdir_alloc_page (km (kern u)) (mm_pgdir (mms (vm (kern u)) mm)) la perm;
       let u = u\<lparr>kern := set_kmem k (kern u)\<rparr>;
       (case page of
          None \<Rightarrow> Some (None, u)
        | Some pg \<Rightarrow> do { f \<leftarrow> page2kva k pg; Some (Some (frame_kva f), u) })
     }"

definition part_size :: "u64 \<Rightarrow> u64 \<Rightarrow> u64 \<Rightarrow> u64" where
  "part_size start fin la = (if fin < la + PGSIZE then fin - start else PGSIZE - (start - la))"

text \<open>The loop over the pages of TEXT and DATA: return code, \<open>start\<close>, \<open>la\<close> and the last page.\<close>

partial_function (option) text_loop ::
    "usys \<Rightarrow> nat \<Rightarrow> int \<Rightarrow> nat \<Rightarrow> proghdr \<Rightarrow> u64 \<Rightarrow> u64 \<Rightarrow> u64 \<Rightarrow> u64 \<Rightarrow> u64 option
     \<Rightarrow> (int \<times> u64 \<times> u64 \<times> u64 option \<times> usys) option" where
  "text_loop u mm fd buf ph perm start fin la page =
     (if start < fin then do {
        r \<leftarrow> mm_page u mm la perm;
        let u = snd r;
        (case fst r of
           None \<Rightarrow> Some (- err_code E_NO_MEM, start, la, None, u)
         | Some pg \<Rightarrow> do {
             let sz = part_size start fin la;
             c \<leftarrow> load_icode_read u fd (kva buf) sz (ph_offset ph + (start - ph_va ph));
             let u = snd c;
             if fst c \<noteq> 0 then Some (fst c, start, la, Some pg, u)
             else do {
               bs \<leftarrow> uload u (kva buf) (unat sz);
               u \<leftarrow> ustore u (pg + (start - la)) bs;
               text_loop u mm fd buf ph perm (start + sz) fin (la + PGSIZE) (Some pg)
             }
           })
      }
      else Some (0, start, la, page, u))"

partial_function (option) bss_loop ::
    "usys \<Rightarrow> nat \<Rightarrow> u64 \<Rightarrow> u64 \<Rightarrow> u64 \<Rightarrow> (int \<times> usys) option" where
  "bss_loop u mm perm start fin =
     (if start < fin then do {
        let la = ROUNDDOWN start PGSIZE;
        r \<leftarrow> mm_page u mm la perm;
        let u = snd r;
        (case fst r of
           None \<Rightarrow> Some (- err_code E_NO_MEM, u)
         | Some pg \<Rightarrow> do {
             let sz = part_size start fin la;
             u \<leftarrow> ustore u (pg + (start - la)) (replicate (unat sz) 0);
             bss_loop u mm perm (start + sz) fin
           })
      }
      else Some (0, u))"

text \<open>The rest of the last page of DATA belongs to BSS.\<close>

definition bss_part :: "usys \<Rightarrow> nat \<Rightarrow> u64 \<Rightarrow> u64 \<Rightarrow> u64 \<Rightarrow> u64 \<Rightarrow> u64 option \<Rightarrow> (int \<times> usys) option" where
  "bss_part u mm perm start fin la page =
     (if start < fin then do {
        (start, u) \<leftarrow>
          (if start < la then do {
             let off = start - la + PGSIZE;
             let sz = (if fin < la then fin - start else PGSIZE - off);
             pg \<leftarrow> page;
             u \<leftarrow> ustore u (pg + off) (replicate (unat sz) 0);
             Some (start + sz, u)
           } else Some (start, u));
        bss_loop u mm perm start fin
      }
      else Some (0, u))"

definition seg_vm_flags :: "proghdr \<Rightarrow> u32" where
  "seg_vm_flags ph =
     (let f = ph_flags ph in
      (if f AND ELF_PF_X \<noteq> 0 then VM_EXEC else 0) OR (if f AND ELF_PF_W \<noteq> 0 then VM_WRITE else 0)
      OR (if f AND ELF_PF_R \<noteq> 0 then VM_READ else 0))"

definition seg_perm :: "u32 \<Rightarrow> u64" where
  "seg_perm f =
     (PTE_U OR PTE_V) OR (if f AND VM_READ \<noteq> 0 then PTE_R else 0) OR (if f AND VM_WRITE \<noteq> 0 then PTE_W OR PTE_R else 0)
     OR (if f AND VM_EXEC \<noteq> 0 then PTE_X else 0)"

text \<open>One round of the loop over the program headers.\<close>

definition load_segment :: "usys \<Rightarrow> nat \<Rightarrow> int \<Rightarrow> proghdr \<Rightarrow> (int \<times> usys) option" where
  "load_segment u mm fd ph =
     (if ph_type ph \<noteq> ELF_PT_LOAD then Some (0, u)
      else if ph_filesz ph > ph_memsz ph then Some (- err_code E_INVAL_ELF, u)
      else do {
        let flags = seg_vm_flags ph;
        let perm = seg_perm flags;
        (r, v) \<leftarrow> mm_map (vm (kern u)) mm (ph_va ph) (ph_memsz ph) flags;
        let u = set_vm v u;
        (case r of
           Inl e \<Rightarrow> Some (- err_code e, u)
         | Inr vma \<Rightarrow> do {
             (buf, u) \<leftarrow> kalloc u 4096;
             if buf = 0 then Some (- err_code E_NO_MEM, u)
             else do {
               (ret, start, la, page, u) \<leftarrow>
                 text_loop u mm fd buf ph perm (ph_va ph) (ph_va ph + ph_filesz ph) (ROUNDDOWN (ph_va ph) PGSIZE) None;
               u \<leftarrow> kdrop u buf;
               if ret \<noteq> 0 then Some (ret, u)
               else bss_part u mm perm start (ph_va ph + ph_memsz ph) la page
             }
           })
      })"

text \<open>The loop: the headers are at \<open>pha\<close>; the result has the number of headers \<open>ph\<close> has gone over.\<close>

fun segment_loop :: "usys \<Rightarrow> nat \<Rightarrow> int \<Rightarrow> u64 \<Rightarrow> nat \<Rightarrow> nat \<Rightarrow> (int \<times> nat \<times> usys) option" where
  "segment_loop u mm fd pha k 0 = Some (0, k, u)"
| "segment_loop u mm fd pha k (Suc n) =
     do {
       bs \<leftarrow> uload u (pha + 56 * word_of_nat k) 56;
       (ret, u) \<leftarrow> load_segment u mm fd (bytes_proghdr bs);
       if ret \<noteq> 0 then Some (ret, k, u) else segment_loop u mm fd pha (k + 1) n
     }"

subsection \<open>The user stack\<close>

abbreviation (input) USTACKTOP :: u64 where "USTACKTOP \<equiv> USERTOP"
abbreviation (input) USTACKSIZE :: u64 where "USTACKSIZE \<equiv> 256 * 4096"
abbreviation (input) EXEC_MAX_ARG_NUM :: int where "EXEC_MAX_ARG_NUM \<equiv> 32"
abbreviation (input) EXEC_MAX_ARG_LEN :: nat where "EXEC_MAX_ARG_LEN \<equiv> 4095"

fun stack_pages :: "usys \<Rightarrow> nat \<Rightarrow> u64 list \<Rightarrow> usys option" where
  "stack_pages u mm [] = Some u"
| "stack_pages u mm (la # las) =
     do { (page, u) \<leftarrow> mm_page u mm la PTE_USER; assert_that (page \<noteq> None); stack_pages u mm las }"

text \<open>The room the arguments need, and the stack pointer below it, rounded down to 16 bytes.\<close>

definition args_len :: "mem \<Rightarrow> nat list \<Rightarrow> u32" where
  "args_len m kargv = sum_list (map (\<lambda>p. word_of_nat (strnlen m (unat (kva p)) EXEC_MAX_ARG_LEN) + 1) kargv)"

definition args_sp :: "u32 \<Rightarrow> nat \<Rightarrow> u64" where
  "args_sp tot argc =
     (let sp = USTACKTOP - (8 + ucast (word_of_nat argc * 8 :: u32) + ucast tot) in sp - sp mod 16)"

fun push_args :: "usys \<Rightarrow> u64 \<Rightarrow> u64 \<Rightarrow> u32 \<Rightarrow> nat list \<Rightarrow> usys option" where
  "push_args u uargv ustr offset [] = Some u"
| "push_args u uargv ustr offset (p # ps) =
     do {
       let dst = ustr + ucast offset;
       u \<leftarrow> ustore u uargv (u64_bytes dst);
       s \<leftarrow> string_at u (kva p);
       u \<leftarrow> ustore u dst (s @ [0]);
       push_args u (uargv + 8) ustr (offset + word_of_nat (length s) + 1) ps
     }"

definition setup_args :: "usys \<Rightarrow> nat list \<Rightarrow> (u64 \<times> usys) option" where
  "setup_args u kargv =
     do {
       let argc = length kargv;
       let sp = args_sp (args_len (view_mem u) kargv) argc;
       u \<leftarrow> ustore u sp (u32_bytes (word_of_nat argc));
       u \<leftarrow> push_args u (sp + 8) (sp + 8 + ucast (word_of_nat argc * 8 :: u32)) 0 kargv;
       Some (sp, u)
     }"

abbreviation (input) SSTATUS_SPP :: u64 where "SSTATUS_SPP \<equiv> 0x100"
abbreviation (input) SSTATUS_SPIE :: u64 where "SSTATUS_SPIE \<equiv> 0x20"

definition user_tf :: "trapframe \<Rightarrow> u64 \<Rightarrow> u64 \<Rightarrow> trapframe" where
  "user_tf tf sp entry =
     \<lparr>gpr = (\<lambda>_. 0)(2 := sp), tf_status = (tf_status tf AND NOT SSTATUS_SPP) OR SSTATUS_SPIE, tf_epc = entry,
      tf_tval = 0, tf_cause = 0\<rparr>"

subsection \<open>\<open>load_icode\<close>\<close>

text \<open>The cleanup code, from \<open>bad_elf_cleanup_pgdir\<close> on, and before it from \<open>bad_cleanup_mmap\<close> on.\<close>

definition free_pgdir :: "usys \<Rightarrow> nat \<Rightarrow> usys option" where
  "free_pgdir u mm =
     do { s \<leftarrow> put_pgdir (kern u) mm; v \<leftarrow> mm_destroy (vm s) mm; Some (u\<lparr>kern := s\<lparr>vm := v\<rparr>\<rparr>) }"

definition free_ph :: "usys \<Rightarrow> nat \<Rightarrow> nat \<Rightarrow> nat \<Rightarrow> usys option" where
  "free_ph u mm ph k = do { assert_that (k = 0); u \<leftarrow> kdrop u ph; free_pgdir u mm }"

definition free_mmap :: "usys \<Rightarrow> nat \<Rightarrow> nat \<Rightarrow> nat \<Rightarrow> usys option" where
  "free_mmap u mm ph k = do { v \<leftarrow> exit_mmap (vm (kern u)) mm; free_ph (set_vm v u) mm ph k }"

text \<open>From the loaded segments to the trap frame; the stack is mapped and filled.\<close>

definition enter_image :: "usys \<Rightarrow> nat \<Rightarrow> u64 \<Rightarrow> nat list \<Rightarrow> usys option" where
  "enter_image u mm entry kargv =
     do {
       u \<leftarrow> stack_pages u mm (map (\<lambda>i. USTACKTOP - word_of_nat i * PGSIZE) [1, 2, 3, 4]);
       let u = u\<lparr>kern := use_mm (kern u) (cur (kern u)) mm\<rparr>;
       (sp, u) \<leftarrow> setup_args u kargv;
       tf \<leftarrow> p_tf (proc_of (kern u) (cur (kern u)));
       Some (u\<lparr>kern := pupd (cur (kern u)) (\<lambda>q. q\<lparr>p_tf := Some (user_tf tf sp entry)\<rparr>) (kern u)\<rparr>)
     }"

definition load_image :: "usys \<Rightarrow> nat \<Rightarrow> int \<Rightarrow> elfhdr \<Rightarrow> nat list \<Rightarrow> (int \<times> usys) option" where
  "load_image u mm fd elf kargv =
     do {
       let n = unat (e_phnum elf);
       (ph, u) \<leftarrow> kalloc u (56 * n);
       if ph = 0 then do { u \<leftarrow> free_pgdir u mm; Some (- err_code E_NO_MEM, u) }
       else do {
         (ret, u) \<leftarrow> load_icode_read u fd (kva ph) (word_of_nat (56 * n)) (e_phoff elf);
         if ret \<noteq> 0 then do { u \<leftarrow> free_ph u mm ph 0; Some (ret, u) }
         else do {
           (ret, k, u) \<leftarrow> segment_loop u mm fd (kva ph) 0 n;
           if ret \<noteq> 0 then do { u \<leftarrow> free_mmap u mm ph k; Some (ret, u) }
           else do {
             (r, v) \<leftarrow> mm_map (vm (kern u)) mm (USTACKTOP - USTACKSIZE) USTACKSIZE (VM_READ OR VM_WRITE OR VM_STACK);
             let u = set_vm v u;
             (case r of
                Inl e \<Rightarrow> do { u \<leftarrow> free_mmap u mm ph k; Some (- err_code e, u) }
              | Inr vma \<Rightarrow> do { u \<leftarrow> enter_image u mm (e_entry elf) kargv; Some (0, u) })
           }
         }
       }
     }"

definition load_icode :: "u64 \<Rightarrow> usys \<Rightarrow> int \<Rightarrow> nat list \<Rightarrow> (int \<times> usys) option" where
  "load_icode lelf u fd kargv =
     do {
       assert_that (p_mm (proc_of (kern u) (cur (kern u))) = None);
       (mm, v) \<leftarrow> mm_create (vm (kern u));
       let u = set_vm v u;
       if mm = 0 then Some (- err_code E_NO_MEM, u)
       else do {
         (r, s) \<leftarrow> setup_pgdir (kern u) mm;
         let u = u\<lparr>kern := s\<rparr>;
         if r \<noteq> None then do { v \<leftarrow> mm_destroy (vm s) mm; Some (- err_code E_NO_MEM, set_vm v u) }
         else do {
           (ret, u) \<leftarrow> load_icode_read u fd lelf 64 0;
           if ret \<noteq> 0 then do { u \<leftarrow> free_pgdir u mm; Some (ret, u) }
           else do {
             bs \<leftarrow> uload u lelf 64;
             let elf = bytes_elfhdr bs;
             if e_magic elf \<noteq> ELF_MAGIC then do { u \<leftarrow> free_pgdir u mm; Some (- err_code E_INVAL_ELF, u) }
             else load_image u mm fd elf kargv
           }
         }
       }
     }"

subsection \<open>\<open>do_execve\<close>\<close>

fun put_kargv :: "usys \<Rightarrow> nat list \<Rightarrow> usys option" where
  "put_kargv u [] = Some u"
| "put_kargv u (p # ps) = do { u \<leftarrow> put_kargv u ps; kdrop u p }"

text \<open>The loop of \<open>copy_kargv\<close>: the buffers of the arguments from the \<open>i\<close>th on.\<close>

fun copy_args :: "usys \<Rightarrow> u64 \<Rightarrow> nat \<Rightarrow> nat list \<Rightarrow> ((err + nat list) \<times> usys) option" where
  "copy_args u argv 0 kargv = Some (Inr kargv, u)"
| "copy_args u argv (Suc n) kargv =
     do {
       (p, u) \<leftarrow> kalloc u (EXEC_MAX_ARG_LEN + 1);
       if p = 0 then do { u \<leftarrow> put_kargv u kargv; Some (Inl E_NO_MEM, u) }
       else do {
         a \<leftarrow> uload u (argv + 8 * word_of_nat (length kargv)) 8;
         (ok, u) \<leftarrow> string_from_user u (kva p) (bytes_u64 a) (EXEC_MAX_ARG_LEN + 1);
         if ok then copy_args u argv n (kargv @ [p])
         else do { u \<leftarrow> kdrop u p; u \<leftarrow> put_kargv u kargv; Some (Inl E_INVAL, u) }
       }
     }"

definition copy_kargv :: "usys \<Rightarrow> nat \<Rightarrow> u64 \<Rightarrow> ((err + nat list) \<times> usys) option" where
  "copy_kargv u argc argv =
     do {
       (ok, v) \<leftarrow> user_mem_check (vm (kern u)) (cur_mm u) argv (8 * word_of_nat argc) False;
       let u = set_vm v u;
       if \<not> ok then Some (Inl E_INVAL, u) else copy_args u argv argc []
     }"

text \<open>The name: \<open>"<null> %d"\<close>, or the string of the user, in the 16 bytes of \<open>local_name\<close>.\<close>

definition copy_name :: "u64 \<Rightarrow> usys \<Rightarrow> u64 \<Rightarrow> (bool \<times> usys) option" where
  "copy_name lname u name =
     do {
       u \<leftarrow> ustore u lname (replicate (PROC_NAME_LEN + 1) 0);
       if name = 0 then do {
         (r, m) \<leftarrow> vsnprintf (view_mem u) (unat lname) (PROC_NAME_LEN + 1) [60, 110, 117, 108, 108, 62, 32, 37, 100]
                    (\<lambda>_. word_of_int (p_pid (proc_of (kern u) (cur (kern u)))));
         u \<leftarrow> ustore u lname (peek m lname (PROC_NAME_LEN + 1));
         Some (True, u)
       }
       else string_from_user u lname name (PROC_NAME_LEN + 1)
     }"

text \<open>
  The result is the value returned, or nothing when the process has ended (\<open>do_exit\<close> up to its call of
  \<open>schedule\<close>).
\<close>

definition exec_exit :: "sched_class \<Rightarrow> usys \<Rightarrow> nat list \<Rightarrow> int \<Rightarrow> (int option \<times> usys) option" where
  "exec_exit sc u kargv ret =
     do {
       u \<leftarrow> put_kargv u kargv;
       (s, v) \<leftarrow> do_exit sc (kern u) (fsys u) ret;
       Some (None, \<lparr>kern = s, fsys = v\<rparr>)
     }"

definition exec_image :: "sched_class \<Rightarrow> u64 \<Rightarrow> u64 \<Rightarrow> usys \<Rightarrow> u64 \<Rightarrow> nat list \<Rightarrow> (int option \<times> usys) option" where
  "exec_image sc lelf lname u path kargv =
     do {
       i \<leftarrow> p_filesp (proc_of (kern u) (cur (kern u)));
       v \<leftarrow> files_closeall i (fsys u);
       (fd, u) \<leftarrow> sysfile_open (u\<lparr>fsys := v\<rparr>) path O_RDONLY;
       if fd < 0 then exec_exit sc u kargv fd
       else do {
         s \<leftarrow> exit_mm (kern u);
         (ret, u) \<leftarrow> load_icode lelf (u\<lparr>kern := s\<rparr>) fd kargv;
         if ret \<noteq> 0 then exec_exit sc u kargv ret
         else do {
           u \<leftarrow> put_kargv u kargv;
           name \<leftarrow> uload u lname (PROC_NAME_LEN + 1);
           Some (Some 0, u\<lparr>kern := set_proc_name (kern u) (cur (kern u)) name\<rparr>)
         }
       }
     }"

definition do_execve ::
    "sched_class \<Rightarrow> u64 \<Rightarrow> u64 \<Rightarrow> usys \<Rightarrow> u64 \<Rightarrow> int \<Rightarrow> u64 \<Rightarrow> (int option \<times> usys) option" where
  "do_execve sc lelf lname u name argc argv =
     (if \<not> (argc \<ge> 1 \<and> argc \<le> EXEC_MAX_ARG_NUM) then Some (Some (- err_code E_INVAL), u)
      else do {
        (ok, u) \<leftarrow> copy_name lname u name;
        if \<not> ok then Some (Some (- err_code E_INVAL), u)
        else do {
          (r, u) \<leftarrow> copy_kargv u (nat argc) argv;
          (case r of
             Inl e \<Rightarrow> Some (Some (- err_code e), u)
           | Inr kargv \<Rightarrow> do { a \<leftarrow> uload u argv 8; exec_image sc lelf lname u (bytes_u64 a) kargv })
        }
      })"

end
