(* ===== verification/Stdio.thy ===== *)
theory Stdio
  imports Console Printf
begin

text \<open>
  Console input and output of the kernel (\<open>kern/libs/stdio.c\<close>, \<open>kern/libs/readline.c\<close>). The output is the list of
  bytes the firmware gets; \<open>rd\<close> is the memory that \<open>%s\<close> reads. A loop that waits for input never ends when no
  further input comes.
\<close>

type_synonym console_out = "u8 list \<times> int"

definition cputch :: "u8 \<Rightarrow> console_out \<Rightarrow> console_out" where
  "cputch c b = (cons_putc (fst b) (uint c), snd b + 1)"

definition vcprintf :: "mem \<Rightarrow> u8 list \<Rightarrow> u8 list \<Rightarrow> (nat \<Rightarrow> u64) \<Rightarrow> (int \<times> u8 list) option" where
  "vcprintf rd out fmt args =
     do { (out, cnt) \<leftarrow> vprintfmt cputch (\<lambda>_. rd) args fmt (out, 0) 0; Some (cnt, out) }"

definition cprintf :: "mem \<Rightarrow> u8 list \<Rightarrow> string \<Rightarrow> u64 list \<Rightarrow> u8 list option" where
  "cprintf rd out fmt args =
     do { (cnt, out) \<leftarrow> vcprintf rd out (bytes fmt) (\<lambda>i. if i < length args then args ! i else 0); Some out }"

definition cputchar :: "u8 list \<Rightarrow> int \<Rightarrow> u8 list" where
  "cputchar out c = cons_putc out c"

partial_function (option) cputs_loop :: "mem \<Rightarrow> nat \<Rightarrow> console_out \<Rightarrow> console_out option" where
  "cputs_loop rd str b = (if rd str = 0 then Some b else cputs_loop rd (str + 1) (cputch (rd str) b))"

definition cputs :: "mem \<Rightarrow> u8 list \<Rightarrow> nat \<Rightarrow> (int \<times> u8 list) option" where
  "cputs rd out str =
     do { b \<leftarrow> cputs_loop rd str (out, 0); let (out, cnt) = cputch 10 b; Some (cnt, out) }"

partial_function (option) getchar :: "cons \<Rightarrow> int list \<Rightarrow> (int \<times> cons \<times> int list) option" where
  "getchar k pend = (let (c, k, pend) = cons_getc k pend in if c = 0 then getchar k pend else Some (c, k, pend))"

subsection \<open>\<open>readline\<close>\<close>

abbreviation (input) BUFSIZE :: nat where "BUFSIZE \<equiv> 1024"

text \<open>The loop: \<open>buf\<close> holds the line up to \<open>i\<close>; the result is the buffer, or nothing for \<open>NULL\<close>.\<close>

partial_function (option) readline_loop ::
    "cons \<Rightarrow> int list \<Rightarrow> u8 list \<Rightarrow> u8 list \<Rightarrow> nat \<Rightarrow> (u8 list option \<times> cons \<times> int list \<times> u8 list) option" where
  "readline_loop k pend out buf i =
     do {
       r \<leftarrow> getchar k pend;
       let (c, k, pend) = r;
       if c < 0 then Some (None, k, pend, out)
       else if c \<ge> 32 \<and> i < BUFSIZE - 1 then
         readline_loop k pend (cputchar out c) (buf[i := word_of_int c]) (i + 1)
       else if c = 8 \<and> i > 0 then readline_loop k pend (cputchar out c) buf (i - 1)
       else if c = 10 \<or> c = 13 then Some (Some (buf[i := 0]), k, pend, cputchar out c)
       else readline_loop k pend out buf i
     }"

definition readline ::
    "mem \<Rightarrow> nat \<Rightarrow> cons \<Rightarrow> int list \<Rightarrow> u8 list \<Rightarrow> u8 list \<Rightarrow> (u8 list option \<times> cons \<times> int list \<times> u8 list) option" where
  "readline rd prompt k pend out buf =
     do {
       out \<leftarrow> (if prompt \<noteq> 0 then cprintf rd out ''%s'' [word_of_nat prompt] else Some out);
       readline_loop k pend out buf 0
     }"

end
