(* ===== verification/Syscall.thy ===== *)
theory Syscall
  imports Exec Stdio Timers
begin

text \<open>
  The system calls (\<open>kern/syscall/syscall.c\<close>). The state of the machine adds to the kernel and the file system the
  clock, the console driver with the characters its serial line has received, and the wait queues, whose
  scheduler state is that of the kernel. What the code finds around it and the model does not follow is the
  environment: the scheduling class, the address of \<open>forkret\<close>, what \<open>kmalloc\<close> gives for a \<open>files_struct\<close>, and
  the addresses of local variables on the kernel stack.
\<close>

record kenv =
  e_sched :: sched_class
  e_forkret :: u64
  e_fsaddr :: "nat option"
  e_fsmem :: "ofile list"
  e_local :: u64
  e_name :: u64
  e_timer :: nat
  e_stdinq :: nat

record machine =
  usr :: usys
  ticks :: u64
  kcons :: cons
  serial :: "int list"
  wqueues :: sync

text \<open>A call returns a value, or the process ends, or it waits for a child or for a timer.\<close>

datatype outcome = Returns int | Exits | Waits_child int u64 | Waits_timer nat u32

type_synonym syscall_fn = "kenv \<Rightarrow> machine \<Rightarrow> u64 list \<Rightarrow> (outcome \<times> machine) option"

definition this_proc :: "machine \<Rightarrow> proc_struct" where
  "this_proc m = proc_of (kern (usr m)) (cur (kern (usr m)))"

definition set_kern :: "ksys \<Rightarrow> machine \<Rightarrow> machine" where
  "set_kern s m = m\<lparr>usr := (usr m)\<lparr>kern := s\<rparr>\<rparr>"

definition set_console :: "u8 list \<Rightarrow> machine \<Rightarrow> machine" where
  "set_console out m = m\<lparr>usr := (usr m)\<lparr>fsys := (fsys (usr m))\<lparr>console := out\<rparr>\<rparr>\<rparr>"

definition printk :: "machine \<Rightarrow> string \<Rightarrow> u64 list \<Rightarrow> machine option" where
  "printk m fmt args =
     do { out \<leftarrow> cprintf (view_mem (usr m)) (console (fsys (usr m))) fmt args; Some (set_console out m) }"

text \<open>A call that returns an integer and the new kernel.\<close>

definition returns :: "machine \<Rightarrow> (int \<times> usys) option \<Rightarrow> (outcome \<times> machine) option" where
  "returns m r = do { (ret, u) \<leftarrow> r; Some (Returns ret, m\<lparr>usr := u\<rparr>) }"

definition run_schedule :: "kenv \<Rightarrow> machine \<Rightarrow> machine option" where
  "run_schedule env m =
     do { c \<leftarrow> schedule (e_sched env) (core (kern (usr m))); Some (set_kern ((kern (usr m))\<lparr>core := c\<rparr>) m) }"

definition exit_process :: "kenv \<Rightarrow> machine \<Rightarrow> int \<Rightarrow> (outcome \<times> machine) option" where
  "exit_process env m code =
     do {
       (s, v) \<leftarrow> do_exit (e_sched env) (kern (usr m)) (fsys (usr m)) code;
       m \<leftarrow> run_schedule env (m\<lparr>usr := \<lparr>kern = s, fsys = v\<rparr>\<rparr>);
       Some (Exits, m)
     }"

subsection \<open>Processes\<close>

definition sys_exit :: syscall_fn where
  "sys_exit env m arg = exit_process env m (c_int (arg ! 0))"

definition sys_fork :: syscall_fn where
  "sys_fork env m arg =
     do {
       tf \<leftarrow> p_tf (this_proc m);
       (ret, s, v) \<leftarrow> do_fork (e_sched env) (e_forkret env) (e_fsaddr env) (e_fsmem env) (kern (usr m)) (fsys (usr m)) 0
                        (gpr tf 2) tf;
       Some (Returns ret, m\<lparr>usr := \<lparr>kern = s, fsys = v\<rparr>\<rparr>)
     }"

text \<open>\<open>do_wait\<close> stores the exit code at the address of the user, a 32-bit integer.\<close>

definition wait_result ::
    "machine \<Rightarrow> int \<Rightarrow> u64 \<Rightarrow> ((err option \<times> int option) option \<times> ksys) option \<Rightarrow> (outcome \<times> machine) option" where
  "wait_result m pid dst r =
     do {
       (r, s) \<leftarrow> r;
       let m = set_kern s m;
       (case r of
          None \<Rightarrow> Some (Waits_child pid dst, m)
        | Some (e, code) \<Rightarrow> do {
            u \<leftarrow> (case code of None \<Rightarrow> Some (usr m) | Some c \<Rightarrow> ustore (usr m) dst (u32_bytes (word_of_int c)));
            Some (Returns (ret_int e), m\<lparr>usr := u\<rparr>)
          })
     }"

definition sys_wait :: syscall_fn where
  "sys_wait env m arg =
     wait_result m (c_int (arg ! 0)) (arg ! 1) (do_wait (e_sched env) (kern (usr m)) (c_int (arg ! 0)) (arg ! 1))"

text \<open>The rest of the call when the process runs again.\<close>

definition wait_again :: "kenv \<Rightarrow> machine \<Rightarrow> int \<Rightarrow> u64 \<Rightarrow> (outcome \<times> machine) option" where
  "wait_again env m pid dst =
     (case wait_resume (e_sched env) (kern (usr m)) pid dst of
        Inl e \<Rightarrow> exit_process env m (- err_code e)
      | Inr r \<Rightarrow> wait_result m pid dst r)"

definition sys_exec :: syscall_fn where
  "sys_exec env m arg =
     do {
       (r, u) \<leftarrow> do_execve (e_sched env) (e_local env) (e_name env) (usr m) (arg ! 0) (c_int (arg ! 1)) (arg ! 2);
       let m = m\<lparr>usr := u\<rparr>;
       (case r of
          Some ret \<Rightarrow> Some (Returns ret, m)
        | None \<Rightarrow> do { m \<leftarrow> run_schedule env m; Some (Exits, m) })
     }"

definition sys_yield :: syscall_fn where
  "sys_yield env m arg = Some (Returns 0, set_kern (do_yield (kern (usr m))) m)"

definition sys_kill :: syscall_fn where
  "sys_kill env m arg =
     do {
       (e, s) \<leftarrow> do_kill (e_sched env) (kern (usr m)) (c_int (arg ! 0));
       Some (Returns (ret_int e), set_kern s m)
     }"

definition sys_getpid :: syscall_fn where
  "sys_getpid env m arg = Some (Returns (p_pid (this_proc m)), m)"

definition sys_putc :: syscall_fn where
  "sys_putc env m arg =
     Some (Returns 0, set_console (cputchar (console (fsys (usr m))) (c_int (arg ! 0))) m)"

definition sys_pgdir :: syscall_fn where
  "sys_pgdir env m arg = Some (Returns 0, m)"

text \<open>\<open>(int)ticks * 10\<close>, in 32 bits.\<close>

definition sys_gettime :: syscall_fn where
  "sys_gettime env m arg = Some (Returns (sint (ucast (ticks m) * 10 :: 32 word)), m)"

definition sys_lab6_set_priority :: syscall_fn where
  "sys_lab6_set_priority env m arg =
     do {
       m \<leftarrow> printk m ''set priority to %d\<newline>'' [ucast (ucast (arg ! 0) :: u32)];
       Some (Returns 0, set_kern (lab6_set_priority (kern (usr m)) (ucast (arg ! 0))) m)
     }"

definition sys_sleep :: syscall_fn where
  "sys_sleep env m arg =
     do {
       let time = ucast (arg ! 0);
       s \<leftarrow> sleep_begin (e_sched env) (kern (usr m)) (e_timer env) time;
       Some (if time = 0 then Returns 0 else Waits_timer (e_timer env) time, set_kern s m)
     }"

definition sleep_again :: "machine \<Rightarrow> nat \<Rightarrow> u32 \<Rightarrow> outcome \<times> machine" where
  "sleep_again m t time = (Returns 0, set_kern (sleep_end (kern (usr m)) t time) m)"

subsection \<open>Files\<close>

definition sys_open :: syscall_fn where
  "sys_open env m arg = returns m (sysfile_open (usr m) (arg ! 0) (ucast (arg ! 1)))"

definition sys_close :: syscall_fn where
  "sys_close env m arg = returns m (sysfile_close (usr m) (c_int (arg ! 0)))"

definition sys_read :: syscall_fn where
  "sys_read env m arg = returns m (sysfile_read (usr m) (c_int (arg ! 0)) (arg ! 1) (arg ! 2))"

definition sys_write :: syscall_fn where
  "sys_write env m arg = returns m (sysfile_write (usr m) (c_int (arg ! 0)) (arg ! 1) (arg ! 2))"

definition sys_seek :: syscall_fn where
  "sys_seek env m arg = returns m (sysfile_seek (usr m) (c_int (arg ! 0)) (sint (arg ! 1)) (c_int (arg ! 2)))"

definition sys_fstat :: syscall_fn where
  "sys_fstat env m arg = returns m (sysfile_fstat (e_local env) (usr m) (c_int (arg ! 0)) (arg ! 1))"

definition sys_fsync :: syscall_fn where
  "sys_fsync env m arg = returns m (sysfile_fsync (usr m) (c_int (arg ! 0)))"

definition sys_getcwd :: syscall_fn where
  "sys_getcwd env m arg = returns m (sysfile_getcwd (usr m) (arg ! 0) (arg ! 1))"

definition sys_getdirentry :: syscall_fn where
  "sys_getdirentry env m arg = returns m (sysfile_getdirentry (usr m) (c_int (arg ! 0)) (arg ! 1))"

definition sys_dup :: syscall_fn where
  "sys_dup env m arg = returns m (sysfile_dup (usr m) (c_int (arg ! 0)) (c_int (arg ! 1)))"

subsection \<open>Dispatch\<close>

definition syscalls :: "int \<Rightarrow> syscall_fn option" where
  "syscalls = map_of
     [(1, sys_exit), (2, sys_fork), (3, sys_wait), (4, sys_exec), (10, sys_yield), (12, sys_kill), (18, sys_getpid),
      (30, sys_putc), (31, sys_pgdir), (17, sys_gettime), (255, sys_lab6_set_priority), (11, sys_sleep),
      (100, sys_open), (101, sys_close), (102, sys_read), (103, sys_write), (104, sys_seek), (110, sys_fstat),
      (111, sys_fsync), (121, sys_getcwd), (128, sys_getdirentry), (130, sys_dup)]"

abbreviation (input) NUM_SYSCALLS :: int where "NUM_SYSCALLS \<equiv> 256"

definition set_a0 :: "int \<Rightarrow> machine \<Rightarrow> machine" where
  "set_a0 r m =
     set_kern (pupd (cur (kern (usr m)))
       (\<lambda>q. q\<lparr>p_tf := map_option (\<lambda>tf. tf\<lparr>gpr := (gpr tf)(10 := word_of_int r)\<rparr>) (p_tf q)\<rparr>) (kern (usr m))) m"

text \<open>\<open>syscall\<close>: the number is in \<open>a0\<close>, the arguments in \<open>a1\<close> to \<open>a5\<close>; an undefined number panics.\<close>

definition syscall :: "kenv \<Rightarrow> machine \<Rightarrow> (outcome \<times> machine) option" where
  "syscall env m =
     do {
       tf \<leftarrow> p_tf (this_proc m);
       let num = c_int (gpr tf 10);
       f \<leftarrow> (if num \<ge> 0 \<and> num < NUM_SYSCALLS then syscalls num else None);
       (r, m) \<leftarrow> f env m (map (gpr tf) [11, 12, 13, 14, 15]);
       Some (r, case r of Returns ret \<Rightarrow> set_a0 ret m | _ \<Rightarrow> m)
     }"

end
