(* ===== verification/Trap.thy ===== *)
theory Trap
  imports Syscall
begin

text \<open>
  Traps (\<open>kern/trap/trap.c\<close>). The trap frame of the running process is a value: a handler changes the one in the
  process structure, and \<open>trap\<close> gives it back as its result, which the assembly code restores. \<open>tfa\<close> is the address
  of the frame, which only appears in messages. The firmware call that sets the next clock event has no effect on
  the state.
\<close>

subsection \<open>Messages\<close>

definition reg_names :: "string list" where
  "reg_names =
    [''zero'', ''ra'', ''sp'', ''gp'', ''tp'', ''t0'', ''t1'', ''t2'', ''s0'', ''s1'', ''a0'', ''a1'',
     ''a2'', ''a3'', ''a4'', ''a5'', ''a6'', ''a7'', ''s2'', ''s3'', ''s4'', ''s5'', ''s6'', ''s7'', ''s8'',
     ''s9'', ''s10'', ''s11'', ''t3'', ''t4'', ''t5'', ''t6'']"

text \<open>A line of \<open>print_regs\<close>: the name, padded to eight characters, and the value.\<close>

fun print_reg_lines :: "machine \<Rightarrow> (nat \<Rightarrow> u64) \<Rightarrow> nat \<Rightarrow> string list \<Rightarrow> machine option" where
  "print_reg_lines m regs i [] = Some m"
| "print_reg_lines m regs i (r # rs) =
     do {
       m \<leftarrow> printk m (''  '' @ r @ replicate (8 - length r) CHR '' '' @ '' 0x%08x\<newline>'') [regs i];
       print_reg_lines m regs (i + 1) rs
     }"

definition print_regs :: "machine \<Rightarrow> (nat \<Rightarrow> u64) \<Rightarrow> machine option" where
  "print_regs m regs = print_reg_lines m regs 0 reg_names"

definition print_trapframe :: "u64 \<Rightarrow> machine \<Rightarrow> trapframe \<Rightarrow> machine option" where
  "print_trapframe tfa m tf =
     do {
       m \<leftarrow> printk m ''trapframe at %p\<newline>'' [tfa];
       m \<leftarrow> print_regs m (gpr tf);
       m \<leftarrow> printk m ''  status   0x%08x\<newline>'' [tf_status tf];
       m \<leftarrow> printk m ''  epc      0x%08x\<newline>'' [tf_epc tf];
       m \<leftarrow> printk m ''  tval 0x%08x\<newline>'' [tf_tval tf];
       printk m ''  cause    0x%08x\<newline>'' [tf_cause tf]
     }"

subsection \<open>Interrupts\<close>

definition trap_in_kernel :: "trapframe \<Rightarrow> bool" where
  "trap_in_kernel tf \<longleftrightarrow> tf_status tf AND SSTATUS_SPP \<noteq> 0"

text \<open>A clock interrupt: the timers, and the next character of the console for \<open>stdin\<close>.\<close>

definition timer_interrupt :: "kenv \<Rightarrow> machine \<Rightarrow> machine option" where
  "timer_interrupt env m =
     do {
       let m = m\<lparr>ticks := ticks m + 1\<rparr>;
       c \<leftarrow> run_timer_list (e_sched env) (core (kern (usr m)));
       let (ch, k, pend) = cons_getc (kcons m) (serial m);
       (kb, w) \<leftarrow> dev_stdin_write (e_sched env) (e_stdinq env) (kin (fsys (usr m))) ((wqueues m)\<lparr>sched := c\<rparr>) (word_of_int ch);
       Some (m\<lparr>usr := \<lparr>kern = (kern (usr m))\<lparr>core := sched w\<rparr>, fsys = (fsys (usr m))\<lparr>kin := kb\<rparr>\<rparr>,
               kcons := k, serial := pend, wqueues := w\<rparr>)
     }"

definition interrupt_message :: "u64 \<Rightarrow> string option" where
  "interrupt_message cause = map_of
     [(0, ''User software interrupt\<newline>''), (1, ''Supervisor software interrupt\<newline>''), (2, ''Hypervisor software interrupt\<newline>''),
      (3, ''Machine software interrupt\<newline>''), (4, ''User software interrupt\<newline>''), (6, ''Hypervisor software interrupt\<newline>''),
      (7, ''Machine software interrupt\<newline>''), (8, ''User software interrupt\<newline>''), (9, ''Supervisor external interrupt\<newline>''),
      (10, ''Hypervisor software interrupt\<newline>''), (11, ''Machine software interrupt\<newline>'')] cause"

abbreviation (input) IRQ_S_TIMER :: u64 where "IRQ_S_TIMER \<equiv> 5"

definition interrupt_handler :: "kenv \<Rightarrow> u64 \<Rightarrow> machine \<Rightarrow> trapframe \<Rightarrow> machine option" where
  "interrupt_handler env tfa m tf =
     (let cause = drop_bit 1 (push_bit 1 (tf_cause tf)) in
      if cause = IRQ_S_TIMER then timer_interrupt env m
      else (case interrupt_message cause of Some msg \<Rightarrow> printk m msg [] | None \<Rightarrow> print_trapframe tfa m tf))"

subsection \<open>Exceptions\<close>

abbreviation (input) CAUSE_MISALIGNED_STORE :: u64 where "CAUSE_MISALIGNED_STORE \<equiv> 6"
abbreviation (input) CAUSE_USER_ECALL :: u64 where "CAUSE_USER_ECALL \<equiv> 8"
abbreviation (input) CAUSE_SUPERVISOR_ECALL :: u64 where "CAUSE_SUPERVISOR_ECALL \<equiv> 9"

definition exception_message :: "u64 \<Rightarrow> string option" where
  "exception_message cause = map_of
     [(0, ''Instruction address misaligned\<newline>''), (1, ''Instruction access fault\<newline>''), (2, ''Illegal instruction\<newline>''),
      (3, ''Breakpoint\<newline>''), (4, ''Load address misaligned\<newline>''), (5, ''Load access fault\<newline>''),
      (7, ''Store/AMO access fault\<newline>''), (10, ''Environment call from H-mode\<newline>''), (11, ''Environment call from M-mode\<newline>''),
      (12, ''Instruction page fault\<newline>''), (13, ''Load page fault\<newline>''), (15, ''Store/AMO page fault at %p\<newline>'')] cause"

text \<open>\<open>tf->epc += 4\<close>: the process goes on behind the call.\<close>

definition skip_ecall :: "machine \<Rightarrow> machine" where
  "skip_ecall m =
     set_kern (pupd (cur (kern (usr m)))
       (\<lambda>q. q\<lparr>p_tf := map_option (\<lambda>tf. tf\<lparr>tf_epc := tf_epc tf + 4\<rparr>) (p_tf q)\<rparr>) (kern (usr m))) m"

definition exception_handler :: "kenv \<Rightarrow> u64 \<Rightarrow> machine \<Rightarrow> trapframe \<Rightarrow> (outcome \<times> machine) option" where
  "exception_handler env tfa m tf =
     (if tf_cause tf = CAUSE_MISALIGNED_STORE then None
      else if tf_cause tf = CAUSE_USER_ECALL then syscall env (skip_ecall m)
      else if tf_cause tf = CAUSE_SUPERVISOR_ECALL then do {
        m \<leftarrow> printk m ''Environment call from S-mode\<newline>'' [];
        syscall env (skip_ecall m)
      }
      else do {
        m \<leftarrow> (case exception_message (tf_cause tf) of
                Some msg \<Rightarrow> printk m msg [tf_epc tf] | None \<Rightarrow> print_trapframe tfa m tf);
        Some (Returns 0, m)
      })"

subsection \<open>\<open>trap\<close>\<close>

text \<open>The value in \<open>Returns\<close> has no meaning here.\<close>

definition trap_dispatch :: "kenv \<Rightarrow> u64 \<Rightarrow> machine \<Rightarrow> trapframe \<Rightarrow> (outcome \<times> machine) option" where
  "trap_dispatch env tfa m tf =
     (if sint (tf_cause tf) < 0 then do { m \<leftarrow> interrupt_handler env tfa m tf; Some (Returns 0, m) }
      else exception_handler env tfa m tf)"

definition set_tf :: "trapframe option \<Rightarrow> machine \<Rightarrow> machine" where
  "set_tf tf m = set_kern (pupd (cur (kern (usr m))) (\<lambda>q. q\<lparr>p_tf := tf\<rparr>) (kern (usr m))) m"

text \<open>
  The end of a trap: \<open>current->tf\<close> is restored; for a trap from user mode it is the same frame at the top of the
  kernel stack. A process that was killed ends here, one whose time is over lets another run.
\<close>

definition trap_end :: "kenv \<Rightarrow> machine \<Rightarrow> bool \<Rightarrow> trapframe option \<Rightarrow> (outcome \<times> trapframe option \<times> machine) option" where
  "trap_end env m in_kernel otf =
     do {
       let tf = p_tf (this_proc m);
       let m = set_tf (if in_kernel then otf else tf) m;
       if in_kernel then Some (Returns 0, tf, m)
       else if p_flags (this_proc m) AND PF_EXITING \<noteq> 0 then do {
         (r, m) \<leftarrow> exit_process env m (- err_code E_KILLED);
         Some (r, None, m)
       }
       else if p_need_resched (this_proc m) then do { m \<leftarrow> run_schedule env m; Some (Returns 0, tf, m) }
       else Some (Returns 0, tf, m)
     }"

definition trap :: "kenv \<Rightarrow> u64 \<Rightarrow> machine \<Rightarrow> trapframe \<Rightarrow> (outcome \<times> trapframe option \<times> machine) option" where
  "trap env tfa m tf =
     do {
       let otf = p_tf (this_proc m);
       let in_kernel = trap_in_kernel tf;
       (r, m) \<leftarrow> trap_dispatch env tfa (set_tf (Some tf) m) tf;
       (case r of Returns ret \<Rightarrow> trap_end env m in_kernel otf | _ \<Rightarrow> Some (r, None, m))
     }"

end
