(* ===== verification/UserMem.thy ===== *)
theory UserMem
  imports Exec
begin

text \<open>
  Memory as the running process sees it: what a store changes, and that it leaves the translation of addresses
  alone when it does not hit a page table.
\<close>

lemma unat_add_u64: "unat (v :: u64) + unat w < 18446744073709551616 \<Longrightarrow> unat (v + w) = unat v + unat w"
  by (simp add: unat_word_ariths)

lemma unat_add_nat_u64: "unat (w :: u64) + n < 18446744073709551616 \<Longrightarrow> unat (w + word_of_nat n) = unat w + n"
  by (simp add: unat_word_ariths unat_of_nat take_bit_eq_mod)

subsection \<open>Bytes of words\<close>

lemma get_set_byte:
  assumes "i < 8" "j < 8"
  shows "get_byte (set_byte w i b) j = (if i = j then b else get_byte w j)"
proof (rule bit_eqI)
  fix n assume "possible_bit TYPE(u8) n"
  then have n: "n < 8" by (simp add: possible_bit_def)
  have e: "(0xFF :: u64) = mask 8" by (simp add: mask_eq_exp_minus_1)
  have "8 * j + n < 64" using assms n by linarith
  moreover have "8 * i \<le> 8 * j + n \<and> 8 * j + n - 8 * i < 8 \<longleftrightarrow> i = j" using n by presburger
  moreover have "bit b m \<Longrightarrow> m < 8" for m using bit_imp_le_length [of b m] by simp
  ultimately show "bit (get_byte (set_byte w i b) j) n = bit (if i = j then b else get_byte w j) n"
    using n unfolding get_byte_def set_byte_def e by (auto simp: bit_simps bit_mask_iff possible_bit_def)
qed

lemma join_byte: "ucast (get_byte w i) OR push_bit 8 (drop_bit (8 * Suc i) w) = (drop_bit (8 * i) w :: u64)"
proof (rule bit_eqI)
  fix n assume "possible_bit TYPE(u64) n"
  then have "n < 64" by (simp add: possible_bit_def)
  then show "bit (ucast (get_byte w i) OR push_bit 8 (drop_bit (8 * Suc i) w)) n = bit (drop_bit (8 * i) w) n"
    by (cases "n < 8") (auto simp: get_byte_def bit_simps add.assoc)
qed

lemma bytes_u64_roundtrip [simp]: "bytes_u64 (u64_bytes w) = w"
proof -
  have "foldr (\<lambda>b v. ucast b OR push_bit 8 v) (map (get_byte w) [i..<8]) 0 = drop_bit (8 * i) w" if "i \<le> 8" for i
    using that
  proof (induction rule: inc_induct)
    case base
    have "drop_bit 64 w = 0" by (rule bit_eqI) (auto simp: bit_simps dest: bit_imp_le_length)
    then show ?case by simp
  next
    case (step i)
    then show ?case using join_byte [of w i] by (simp add: upt_conv_Cons)
  qed
  from this [of 0] show ?thesis by (simp add: bytes_u64_def u64_bytes_def)
qed

lemma length_u64_bytes [simp]: "length (u64_bytes w) = 8" by (simp add: u64_bytes_def)

subsection \<open>Page tables and stores\<close>

definition is_table :: "kmem \<Rightarrow> nat \<Rightarrow> nat \<Rightarrow> bool" where
  "is_table k r f \<longleftrightarrow> (\<exists>xs. length xs \<le> 2 \<and> tbl k r xs = Some f)"

lemma mapped_tbl:
  assumes "a < KERNBASE" "translate k r a = Some (f, i)"
  shows "\<exists>xs. length xs = 3 \<and> tbl k r xs = Some f"
proof -
  obtain t where t: "tbl k r [PDX1 a, PDX0 a] = Some t" "pte_valid (phys k t (PTX a))" "entry_ppn (phys k t (PTX a)) = f"
  proof (cases "tbl k r [PDX1 a, PDX0 a]")
    case None
    then have "leaf k r a = 0" by (simp add: leaf_def)
    then show ?thesis using assms by (simp add: translate_def Let_def pte_valid_def split: if_splits)
  next
    case (Some t)
    then show ?thesis using that assms by (auto simp: translate_def Let_def leaf_def split: if_splits)
  qed
  then have "tbl k r [PDX1 a, PDX0 a, PTX a] = Some f"
    using tbl_snoc [of k r "[PDX1 a, PDX0 a]" "PTX a"] tbl_upath [of k r "[PDX1 a, PDX0 a]" t] by simp
  then show ?thesis by (intro exI [of _ "[PDX1 a, PDX0 a, PTX a]"]) simp
qed

lemma mapped_not_table:
  assumes "pt_tree k r" "a < KERNBASE" "translate k r a = Some (f, i)"
  shows "\<not> is_table k r f"
proof
  assume "is_table k r f"
  then obtain ys where ys: "length ys \<le> 2" "tbl k r ys = Some f" by (auto simp: is_table_def)
  obtain xs where xs: "length xs = 3" "tbl k r xs = Some f" using mapped_tbl [OF assms(2,3)] by blast
  then have "xs = ys" using assms(1) ys unfolding pt_tree_def by (metis le_refl)
  then show False using xs(1) ys(1) by simp
qed

text \<open>What the tables use and what they map are pages in use.\<close>

lemma mapped_frame_ok: "pt_tree k r \<Longrightarrow> a < KERNBASE \<Longrightarrow> translate k r a = Some (f, i) \<Longrightarrow> frame_ok k f"
  using mapped_tbl [of a k r f i] unfolding pt_tree_def by (metis le_refl)

lemma table_frame_ok:
  assumes "pt_tree k r" "is_table k r f"
  shows "frame_ok k f"
proof -
  obtain xs where "length xs \<le> 2" "tbl k r xs = Some f" using assms(2) by (auto simp: is_table_def)
  moreover from this have "length xs \<le> 3" by simp
  ultimately show ?thesis using assms(1) unfolding pt_tree_def by blast
qed

lemma same_tables:
  assumes "phys k' = phys k" "npage k' = npage k"
  shows "translate k' = translate k" "is_table k' = is_table k" "load_byte k' = load_byte k"
proof -
  have "tbl k' r xs = tbl k r xs" for r xs by (rule tbl_phys [OF assms(1)])
  then have t: "tbl k' = tbl k" by (simp add: fun_eq_iff)
  have "leaf k' = leaf k" by (simp add: fun_eq_iff leaf_def t assms split: option.splits)
  then show tr: "translate k' = translate k" by (simp add: fun_eq_iff translate_def Let_def assms)
  show "is_table k' = is_table k" by (simp add: fun_eq_iff is_table_def t)
  show "load_byte k' = load_byte k" by (simp add: fun_eq_iff load_byte_def tr get_entry_def assms)
qed

lemma tbl_set_other:
  assumes "\<not> is_table k r f" "length xs \<le> 3"
  shows "tbl (set_entry (f, w) e k) r xs = tbl k r xs"
  using assms(2)
proof (induction xs rule: rev_induct)
  case (snoc x xs)
  have "t \<noteq> f" if "tbl k r xs = Some t" for t
    using that assms(1) snoc.prems by (auto simp: is_table_def)
  then show ?case using snoc by (simp add: tbl_snoc split: option.split)
qed simp

lemma translate_set_other:
  assumes "\<not> is_table k r f"
  shows "translate (set_entry (f, w) e k) r a = translate k r a"
proof -
  have "leaf (set_entry (f, w) e k) r a = leaf k r a"
  proof (cases "tbl k r [PDX1 a, PDX0 a]")
    case None
    then show ?thesis using tbl_set_other [OF assms, of "[PDX1 a, PDX0 a]" w e] by (simp add: leaf_def)
  next
    case (Some t)
    then have "is_table k r t" by (auto simp: is_table_def intro!: exI [of _ "[PDX1 a, PDX0 a]"])
    then have "t \<noteq> f" using assms by blast
    then show ?thesis using Some tbl_set_other [OF assms, of "[PDX1 a, PDX0 a]" w e]
      by (simp add: leaf_def)
  qed
  then show ?thesis by (simp add: translate_def Let_def)
qed

lemma is_table_set_other:
  assumes "\<not> is_table k r f"
  shows "is_table (set_entry (f, w) e k) r g = is_table k r g"
  using tbl_set_other [OF assms] by (auto simp: is_table_def)

lemma unat_page_offset: "unat (a AND 0xFFF :: u64) = unat a mod 4096"
proof -
  have "(0xFFF :: u64) = mask 12" by (simp add: mask_eq_exp_minus_1)
  then have "unat (a AND 0xFFF) = unat (take_bit 12 a)" by (simp only: take_bit_eq_mask)
  also have "\<dots> = take_bit 12 (unat a)" by (rule unsigned_take_bit_eq)
  finally show ?thesis by (simp add: take_bit_eq_mod)
qed

lemma translate_offset: "translate k r a = Some (f, i) \<Longrightarrow> i < 4096"
  by (auto simp: translate_def Let_def unat_page_offset split: if_splits)

lemma word_index_inj: "i < 4096 \<Longrightarrow> j < 4096 \<Longrightarrow> (word_of_nat (i div 8) :: pt_index) = word_of_nat (j div 8) \<longleftrightarrow> i div 8 = j div 8"
  by (simp add: word_of_nat_eq_iff take_bit_nat_eq_self)

lemma store_byte_spec:
  assumes "translate k r a = Some (f, i)" "\<not> is_table k r f"
  shows "\<exists>k'. store_byte k r a b = Some k' \<and> translate k' r = translate k r \<and> is_table k' r = is_table k r
    \<and> (\<forall>c. load_byte k' r c = (if translate k r c = Some (f, i) then Some b else load_byte k r c))"
proof -
  let ?w = "word_of_nat (i div 8) :: pt_index"
  let ?k = "set_entry (f, ?w) (set_byte (get_entry k (f, ?w)) (i mod 8) b) k"
  have run: "store_byte k r a b = Some ?k" using assms(1) by (simp add: store_byte_def Let_def)
  have tr: "translate ?k r = translate k r" using translate_set_other [OF assms(2)] by (simp add: fun_eq_iff)
  have "is_table ?k r = is_table k r" using is_table_set_other [OF assms(2)] by (simp add: fun_eq_iff)
  moreover have "load_byte ?k r c = (if translate k r c = Some (f, i) then Some b else load_byte k r c)" for c
  proof (cases "translate k r c")
    case None
    then show ?thesis by (simp add: load_byte_def tr)
  next
    case (Some l)
    obtain g j where l: "l = (g, j)" by fastforce
    have lt: "i < 4096" "j < 4096" using translate_offset assms(1) Some l by blast+
    have ij: "i = j \<longleftrightarrow> i div 8 = j div 8 \<and> i mod 8 = j mod 8" by (metis div_mult_mod_eq)
    have gs: "get_byte (set_byte v (i mod 8) b) (j mod 8) = (if i mod 8 = j mod 8 then b else get_byte v (j mod 8))" for v
      by (rule get_set_byte) simp_all
    have old: "load_byte k r c = Some (get_byte (get_entry k (g, word_of_nat (j div 8))) (j mod 8))"
      and new: "load_byte ?k r c = Some (get_byte (get_entry ?k (g, word_of_nat (j div 8))) (j mod 8))"
      using Some by (simp_all add: load_byte_def tr l)
    have ge: "get_entry (set_entry (f, ?w) e k) (g, word_of_nat (j div 8)) =
        (if g = f \<and> j div 8 = i div 8 then e else get_entry k (g, word_of_nat (j div 8)))" for e
      using word_index_inj [OF lt(2,1)] by (auto simp: get_entry_def)
    show ?thesis
    proof (cases "g = f \<and> j div 8 = i div 8")
      case True
      then show ?thesis unfolding new ge old Some l using ij by (auto simp: gs)
    next
      case False
      then show ?thesis unfolding new ge old Some l using ij by auto
    qed
  qed
  ultimately show ?thesis using run tr by blast
qed

subsection \<open>Regions of memory\<close>

text \<open>
  A region is a range of addresses that are mapped to distinct places outside of the page tables; \<open>kapart\<close> says that
  an address is not another name for a place of the region.
\<close>

definition region :: "kmem \<Rightarrow> nat \<Rightarrow> nat \<Rightarrow> nat \<Rightarrow> bool" where
  "region k r lo hi \<longleftrightarrow> hi < 2 ^ 64
     \<and> (\<forall>x \<in> {lo..<hi}. \<exists>f i. translate k r (word_of_nat x) = Some (f, i) \<and> \<not> is_table k r f)
     \<and> inj_on (\<lambda>x. translate k r (word_of_nat x)) {lo..<hi}"

definition kapart :: "kmem \<Rightarrow> nat \<Rightarrow> nat \<Rightarrow> nat \<Rightarrow> nat \<Rightarrow> bool" where
  "kapart k r lo hi x \<longleftrightarrow> translate k r (word_of_nat x) \<notin> (\<lambda>x. translate k r (word_of_nat x)) ` {lo..<hi}"

lemma region_cong: "translate k' r = translate k r \<Longrightarrow> is_table k' r = is_table k r \<Longrightarrow> region k' r = region k r"
  by (simp add: region_def fun_eq_iff)

lemma kapart_cong: "translate k' r = translate k r \<Longrightarrow> kapart k' r = kapart k r"
  by (simp add: kapart_def fun_eq_iff)

lemma store_bytes_spec:
  assumes "region k r lo hi" "lo \<le> unat a" "unat a + length bs \<le> hi"
  shows "\<exists>k'. store_bytes k r a bs = Some k' \<and> translate k' r = translate k r \<and> is_table k' r = is_table k r
    \<and> (\<forall>x \<in> {lo..<hi}. load_byte k' r (word_of_nat x) =
         (if unat a \<le> x \<and> x < unat a + length bs then Some (bs ! (x - unat a)) else load_byte k r (word_of_nat x)))
    \<and> (\<forall>x. kapart k r lo hi x \<longrightarrow> load_byte k' r (word_of_nat x) = load_byte k r (word_of_nat x))"
  using assms
proof (induction bs arbitrary: k a)
  case (Cons b bs)
  have hi: "hi < 2 ^ 64" and a: "unat a \<in> {lo..<hi}" using Cons.prems by (auto simp: region_def)
  obtain f i where fi: "translate k r a = Some (f, i)" "\<not> is_table k r f"
    using Cons.prems(1) a by (force simp: region_def)
  obtain k1 where k1: "store_byte k r a b = Some k1" "translate k1 r = translate k r" "is_table k1 r = is_table k r"
    "\<And>c. load_byte k1 r c = (if translate k r c = Some (f, i) then Some b else load_byte k r c)"
    using store_byte_spec [OF fi, of b] by blast
  show ?case
  proof (cases "bs = []")
    case True
    have "translate k r (word_of_nat x) = Some (f, i) \<longleftrightarrow> x = unat a" if "x \<in> {lo..<hi}" for x
      using Cons.prems(1) a that fi(1) unfolding region_def inj_on_def by force
    moreover have "translate k r (word_of_nat x) \<noteq> Some (f, i)" if "kapart k r lo hi x" for x
      using that a fi(1) by (force simp: kapart_def)
    ultimately show ?thesis using k1 True by auto
  next
    case False
    have a1: "unat (a + 1) = unat a + 1"
      using Cons.prems(3) hi unat_add_nat_u64 [of a 1] False by (cases bs) auto
    obtain k2 where k2: "store_bytes k1 r (a + 1) bs = Some k2" "translate k2 r = translate k1 r" "is_table k2 r = is_table k1 r"
      "\<forall>x \<in> {lo..<hi}. load_byte k2 r (word_of_nat x) =
         (if unat (a + 1) \<le> x \<and> x < unat (a + 1) + length bs then Some (bs ! (x - unat (a + 1))) else load_byte k1 r (word_of_nat x))"
      "\<forall>x. kapart k1 r lo hi x \<longrightarrow> load_byte k2 r (word_of_nat x) = load_byte k1 r (word_of_nat x)"
      using Cons.IH [of k1 "a + 1"] Cons.prems a1 region_cong [OF k1(2,3)] by auto
    have t: "translate k r (word_of_nat x) = Some (f, i) \<longleftrightarrow> x = unat a" if "x \<in> {lo..<hi}" for x
      using Cons.prems(1) a that fi(1) unfolding region_def inj_on_def by force
    have n: "translate k r (word_of_nat x) \<noteq> Some (f, i)" if "kapart k r lo hi x" for x
      using that a fi(1) by (force simp: kapart_def)
    have "load_byte k2 r (word_of_nat x) =
        (if unat a \<le> x \<and> x < unat a + length (b # bs) then Some ((b # bs) ! (x - unat a)) else load_byte k r (word_of_nat x))"
      if x: "x \<in> {lo..<hi}" for x
    proof -
      have "x - unat a = Suc (x - Suc (unat a))" if "unat a < x" using that by simp
      then show ?thesis using bspec [OF k2(4) x] t [OF x] k1(4) by (auto simp: a1 not_le less_Suc_eq_le nth_Cons')
    qed
    moreover have "load_byte k2 r (word_of_nat x) = load_byte k r (word_of_nat x)" if "kapart k r lo hi x" for x
      using k2(5) that n [OF that] k1(4) kapart_cong [OF k1(2)] by simp
    ultimately show ?thesis using k1(1-3) k2(1-3) by simp
  qed
qed auto

subsection \<open>Loads and stores of the running process\<close>

definition ubyte :: "usys \<Rightarrow> nat \<Rightarrow> u8 option" where
  "ubyte u x = load_byte (km (kern u)) (cur_pgdir u) (word_of_nat x)"

definition uregion :: "usys \<Rightarrow> nat \<Rightarrow> nat \<Rightarrow> bool" where
  "uregion u lo hi = region (km (kern u)) (cur_pgdir u) lo hi"

definition uapart :: "usys \<Rightarrow> nat \<Rightarrow> nat \<Rightarrow> nat \<Rightarrow> bool" where
  "uapart u lo hi x = kapart (km (kern u)) (cur_pgdir u) lo hi x"

definition stored :: "usys \<Rightarrow> nat \<Rightarrow> u8 list \<Rightarrow> bool" where
  "stored u a bs \<longleftrightarrow> (\<forall>i < length bs. ubyte u (a + i) = Some (bs ! i))"

text \<open>Nothing but the contents of memory differs.\<close>

definition only_phys :: "ksys \<Rightarrow> ksys \<Rightarrow> bool" where
  "only_phys s s' \<longleftrightarrow> (\<exists>p. s' = set_kmem ((km s)\<lparr>phys := p\<rparr>) s)"

definition same_space :: "usys \<Rightarrow> usys \<Rightarrow> bool" where
  "same_space u u' \<longleftrightarrow> core (kern u') = core (kern u) \<and> fsys u' = fsys u \<and> cur_pgdir u' = cur_pgdir u
     \<and> only_phys (kern u) (kern u')
     \<and> uregion u' = uregion u \<and> uapart u' = uapart u"

lemma km_set_kmem [simp]: "km (set_kmem k s) = k" "core (set_kmem k s) = core s"
  by (simp_all add: set_kmem_def with_kmem_def)

lemma only_phys_refl [simp]: "only_phys s s" by (simp add: only_phys_def set_kmem_def with_kmem_def exI [of _ "phys (km s)"])

lemma only_phys_trans: "only_phys s t \<Longrightarrow> only_phys t u \<Longrightarrow> only_phys s u"
  by (auto simp: only_phys_def set_kmem_def with_kmem_def)

lemma same_space_refl [simp]: "same_space u u" by (simp add: same_space_def)

lemma same_space_trans: "same_space u v \<Longrightarrow> same_space v w \<Longrightarrow> same_space u w"
  using only_phys_trans by (auto simp: same_space_def)

lemma store_bytes_phys: "store_bytes k r a bs = Some k' \<Longrightarrow> \<exists>p. k' = k\<lparr>phys := p\<rparr>"
proof (induction bs arbitrary: k a)
  case Nil
  then show ?case by (auto intro: exI [of _ "phys k"])
next
  case (Cons b bs)
  then show ?case by (fastforce simp: store_byte_def set_entry_def Let_def bind_eq_Some_conv split: prod.splits)
qed

lemma load_bytes_eq:
  "length bs = n \<Longrightarrow> load_bytes k r a n = Some bs \<longleftrightarrow> (\<forall>i < n. load_byte k r (a + word_of_nat i) = Some (bs ! i))"
proof (induction n arbitrary: a bs)
  case (Suc n)
  obtain b cs where bs: "bs = b # cs" using Suc.prems(1) by (cases bs) auto
  have w: "a + 1 + word_of_nat i = a + word_of_nat (Suc i)" for i by simp
  have "load_bytes k r (a + 1) n = Some cs \<longleftrightarrow> (\<forall>i < n. load_byte k r (a + word_of_nat (Suc i)) = Some (cs ! i))"
    using Suc.IH [of cs "a + 1"] Suc.prems unfolding w by (simp only: bs length_Cons nat.inject)
  moreover have "load_bytes k r a (Suc n) = Some bs \<longleftrightarrow> load_byte k r a = Some b \<and> load_bytes k r (a + 1) n = Some cs"
    by (cases "load_byte k r a"; cases "load_bytes k r (a + 1) n") (auto simp: bs)
  moreover have "(\<forall>i < Suc n. load_byte k r (a + word_of_nat i) = Some (bs ! i)) \<longleftrightarrow>
      load_byte k r a = Some b \<and> (\<forall>i < n. load_byte k r (a + word_of_nat (Suc i)) = Some (cs ! i))"
    unfolding All_less_Suc2 bs by simp
  ultimately show ?case by blast
qed simp

lemma uload_eq: "uload u a (length bs) = Some bs \<longleftrightarrow> stored u (unat a) bs"
  by (simp add: uload_def load_bytes_eq stored_def ubyte_def)

lemma ustore_spec:
  assumes "uregion u lo hi" "lo \<le> unat a" "unat a + length bs \<le> hi"
  shows "\<exists>u'. ustore u a bs = Some u' \<and> same_space u u' \<and> stored u' (unat a) bs
    \<and> (\<forall>x \<in> {lo..<hi}. x < unat a \<or> unat a + length bs \<le> x \<longrightarrow> ubyte u' x = ubyte u x)
    \<and> (\<forall>x. uapart u lo hi x \<longrightarrow> ubyte u' x = ubyte u x)"
proof -
  let ?k = "km (kern u)" and ?r = "cur_pgdir u"
  obtain k' where k': "store_bytes ?k ?r a bs = Some k'" "translate k' ?r = translate ?k ?r" "is_table k' ?r = is_table ?k ?r"
    "\<forall>x \<in> {lo..<hi}. load_byte k' ?r (word_of_nat x) =
       (if unat a \<le> x \<and> x < unat a + length bs then Some (bs ! (x - unat a)) else load_byte ?k ?r (word_of_nat x))"
    "\<forall>x. kapart ?k ?r lo hi x \<longrightarrow> load_byte k' ?r (word_of_nat x) = load_byte ?k ?r (word_of_nat x)"
    using store_bytes_spec [of ?k ?r lo hi a bs] assms by (auto simp: uregion_def)
  let ?u = "u\<lparr>kern := set_kmem k' (kern u)\<rparr>"
  have pg: "cur_pgdir ?u = ?r" by (simp add: cur_pgdir_def proc_of_def cur_def)
  have "same_space u ?u"
    using region_cong [OF k'(2,3)] kapart_cong [OF k'(2)] store_bytes_phys [OF k'(1)]
    by (auto simp: same_space_def only_phys_def pg uregion_def uapart_def fun_eq_iff)
  moreover have "ubyte ?u (unat a + i) = Some (bs ! i)" if "i < length bs" for i
    using bspec [OF k'(4), of "unat a + i"] that assms(2,3) by (simp add: ubyte_def pg)
  then have "stored ?u (unat a) bs" by (simp add: stored_def)
  ultimately show ?thesis using k'(1,4,5) by (auto simp: ustore_def ubyte_def pg uapart_def simp del: of_nat_add)
qed

lemma view_ubyte: "view_mem u x = (case ubyte u x of None \<Rightarrow> 0 | Some b \<Rightarrow> b)"
  by (simp add: view_mem_def ubyte_def)

lemma cstr_nth: "cstr m s xs \<Longrightarrow> i < length xs \<Longrightarrow> m (s + i) = xs ! i \<and> xs ! i \<noteq> 0"
proof (induction xs arbitrary: s i)
  case (Cons x xs)
  then show ?case using Cons.IH [of "s + 1" "i - 1"] by (cases i) auto
qed simp

lemma string_at_cstr:
  assumes "cstr (view_mem u) (unat a) xs"
  shows "string_at u a = Some xs"
proof -
  have "ubyte u (unat a + i) = Some (xs ! i)" if "i < length xs" for i
    using cstr_nth [OF assms that] by (auto simp: view_ubyte split: option.splits)
  then have "uload u a (length xs) = Some xs" by (simp add: uload_eq stored_def)
  then show ?thesis using strlen_cstr [OF assms] by (simp add: string_at_def)
qed

subsection \<open>Copies between user and kernel memory\<close>

text \<open>The kernel without the cached area of an address space.\<close>

lemma set_vm_keeps:
  assumes "heap v = heap (vm (kern u))"
  shows "km (kern (set_vm v u)) = km (kern u)" "cur_pgdir (set_vm v u) = cur_pgdir u" "core (kern (set_vm v u)) = core (kern u)"
    "fsys (set_vm v u) = fsys u" "ubyte (set_vm v u) = ubyte u" "uregion (set_vm v u) = uregion u" "uapart (set_vm v u) = uapart u"
    "uload (set_vm v u) = uload u"
proof -
  show k: "km (kern (set_vm v u)) = km (kern u)" and p: "cur_pgdir (set_vm v u) = cur_pgdir u"
    using assms by (simp_all add: set_vm_def cur_pgdir_def proc_of_def cur_def)
  show "core (kern (set_vm v u)) = core (kern u)" "fsys (set_vm v u) = fsys u" by (simp_all add: set_vm_def)
  show "ubyte (set_vm v u) = ubyte u" "uregion (set_vm v u) = uregion u" "uapart (set_vm v u) = uapart u"
    "uload (set_vm v u) = uload u"
    by (simp_all add: fun_eq_iff ubyte_def uregion_def uapart_def uload_def k p)
qed

text \<open>What a copy keeps besides: the areas of the process, and all of the heap but the contents of memory.\<close>

definition kept :: "nat list \<Rightarrow> usys \<Rightarrow> usys \<Rightarrow> bool" where
  "kept vs u u' \<longleftrightarrow> core (kern u') = core (kern u) \<and> uregion u' = uregion u \<and> uapart u' = uapart u
     \<and> vmas (vm (kern u')) = vmas (vm (kern u)) \<and> vm_inv (vm (kern u')) (cur_mm u') vs
     \<and> (\<exists>p. heap (vm (kern u')) = (heap (vm (kern u)))\<lparr>kmem := (km (kern u))\<lparr>phys := p\<rparr>\<rparr>)"

lemma only_phys_keeps:
  assumes "only_phys s s'"
  shows "vmas (vm s') = vmas (vm s)" "vm_inv (vm s') = vm_inv (vm s)"
    "\<exists>p. heap (vm s') = (heap (vm s))\<lparr>kmem := (km s)\<lparr>phys := p\<rparr>\<rparr>"
  using assms by (auto simp: only_phys_def set_kmem_def with_kmem_def fun_eq_iff)

lemma keptI:
  assumes "same_space (set_vm v u) u'" "heap v = heap (vm (kern u))" "vmas v = vmas (vm (kern u))" "vm_inv v (cur_mm u) vs"
  shows "fsys u' = fsys u" "kept vs u u'"
proof -
  have "cur_mm u' = cur_mm u" using assms(1) set_vm_keeps [OF assms(2)] by (simp add: same_space_def cur_mm_def proc_of_def cur_def)
  then show "fsys u' = fsys u" "kept vs u u'"
    using assms set_vm_keeps [OF assms(2)] only_phys_keeps [of "kern (set_vm v u)" "kern u'"]
    by (simp_all add: kept_def same_space_def) (simp add: set_vm_def)
qed

lemma kept_trans: "kept vs u v \<Longrightarrow> kept vs v w \<Longrightarrow> kept vs u w"
  by (auto simp: kept_def)

lemma set_fsys_keeps [simp]:
  "cur_pgdir (u\<lparr>fsys := w\<rparr>) = cur_pgdir u" "uload (u\<lparr>fsys := w\<rparr>) = uload u" "ubyte (u\<lparr>fsys := w\<rparr>) = ubyte u"
  "uregion (u\<lparr>fsys := w\<rparr>) = uregion u" "uapart (u\<lparr>fsys := w\<rparr>) = uapart u"
  by (simp_all add: cur_pgdir_def uload_def ubyte_def uregion_def uapart_def fun_eq_iff)

lemma uload_region:
  assumes "uregion u lo hi" "lo \<le> unat a" "unat a + n \<le> hi"
  obtains bs where "uload u a n = Some bs" "length bs = n"
proof -
  have "\<exists>b. ubyte u (unat a + i) = Some b" if "i < n" for i
    using assms that by (auto simp: uregion_def region_def ubyte_def load_byte_def simp del: of_nat_add
        dest!: bspec [where x = "unat a + i"])
  then have "stored u (unat a) (map (\<lambda>i. the (ubyte u (unat a + i))) [0..<n])" by (force simp: stored_def)
  then show ?thesis using that uload_eq [of u a "map (\<lambda>i. the (ubyte u (unat a + i))) [0..<n]"] by simp
qed

lemma uregion_sub: "uregion u lo hi \<Longrightarrow> lo \<le> lo' \<Longrightarrow> uregion u lo' hi"
  by (force simp: uregion_def region_def intro: inj_on_subset)

lemma uapart_region:
  assumes "uregion u lo hi" "x \<in> {lo..<hi}" "x \<notin> {a..<b}" "lo \<le> a" "b \<le> hi"
  shows "uapart u a b x"
  using assms inj_on_image_mem_iff [of "\<lambda>x. translate (km (kern u)) (cur_pgdir u) (word_of_nat x)" "{lo..<hi}" x "{a..<b}"]
  by (simp add: uregion_def region_def uapart_def kapart_def)

text \<open>The common part: the bytes at \<open>src\<close>, seen through the view of memory, are stored at \<open>dst\<close>.\<close>

lemma copy_stored:
  assumes "uregion u (unat dst) (unat dst + n)" "uload u src n = Some bs" "length bs = n"
    and "\<forall>i < n. uapart u (unat dst) (unat dst + n) (unat src + i)"
  shows "\<exists>u'. ustore u dst (peek (memcpy (view_mem u) (unat dst) (unat src) n) dst n) = Some u' \<and> same_space u u'
    \<and> stored u' (unat dst) bs \<and> (\<forall>x. uapart u (unat dst) (unat dst + n) x \<longrightarrow> ubyte u' x = ubyte u x)"
proof -
  have src: "stored u (unat src) bs" using assms(2,3) uload_eq by blast
  have "\<not> (unat src < unat dst \<and> unat dst < unat src + n)"
  proof
    assume o: "unat src < unat dst \<and> unat dst < unat src + n"
    then have "uapart u (unat dst) (unat dst + n) (unat src + (unat dst - unat src))" 
      using o by (intro assms(4) [rule_format]) linarith
    moreover have "unat dst \<in> {unat dst..<unat dst + n}" using o by auto
    ultimately show False using o by (auto simp: uapart_def kapart_def image_def dest!: bspec [where x = "unat dst"])
  qed
  then have "peek (memcpy (view_mem u) (unat dst) (unat src) n) dst n = bs"
    using src assms(3) by (intro nth_equalityI) (simp_all add: peek_def memcpy_def copy_up_spec view_ubyte stored_def)
  then show ?thesis using ustore_spec [OF assms(1), of dst bs] assms(3) by auto
qed

lemma to_user_spec:
  fixes len :: u64
  defines "n \<equiv> unat len"
  assumes "vm_inv (vm (kern u)) (cur_mm u) vs"
    and "ok = (USER_ACCESS dst (dst + len) \<and> accessible (vm (kern u)) vs dst dst (dst + len) True)"
    and "ok \<Longrightarrow> uregion u (unat dst) (unat dst + n) \<and> uload u src n = Some bs \<and> length bs = n
      \<and> (\<forall>i < n. uapart u (unat dst) (unat dst + n) (unat src + i))"
  shows "\<exists>u'. to_user u dst src len = Some (ok, u') \<and> fsys u' = fsys u \<and> kept vs u u'
    \<and> (if ok then stored u' (unat dst) bs \<and> (\<forall>x. uapart u (unat dst) (unat dst + n) x \<longrightarrow> ubyte u' x = ubyte u x)
       else ubyte u' = ubyte u)"
proof -
  obtain v where v: "user_mem_check (vm (kern u)) (cur_mm u) dst len True = Some (ok, v)" "heap v = heap (vm (kern u))"
      "vmas v = vmas (vm (kern u))" "vm_inv v (cur_mm u) vs"
    using user_mem_check_spec [OF assms(2), of dst len True] assms(3) by auto
  note k = set_vm_keeps [OF v(2)]
  have vw: "view_mem (set_vm v u) = view_mem u" by (simp add: fun_eq_iff view_ubyte k)
  show ?thesis
  proof (cases ok)
    case False
    then show ?thesis using v(1) k keptI [OF same_space_refl v(2-4)] by (simp add: to_user_def copy_to_user_def)
  next
    case True
    note m = assms(4) [OF True]
    obtain u' where "ustore (set_vm v u) dst (peek (memcpy (view_mem u) (unat dst) (unat src) n) dst n) = Some u'"
      "same_space (set_vm v u) u'" "stored u' (unat dst) bs"
      "\<forall>x. uapart u (unat dst) (unat dst + n) x \<longrightarrow> ubyte u' x = ubyte u x"
      using copy_stored [of "set_vm v u" dst n src bs] m unfolding k vw by blast
    then show ?thesis using v(1) True m k keptI [OF _ v(2-4)] by (simp add: to_user_def copy_to_user_def n_def)
  qed
qed

lemma from_user_spec:
  fixes len :: u64
  defines "n \<equiv> unat len"
  assumes "vm_inv (vm (kern u)) (cur_mm u) vs"
    and "ok = (USER_ACCESS src (src + len) \<and> accessible (vm (kern u)) vs src src (src + len) wr)"
    and "ok \<Longrightarrow> uregion u (unat dst) (unat dst + n) \<and> uload u src n = Some bs \<and> length bs = n
      \<and> (\<forall>i < n. uapart u (unat dst) (unat dst + n) (unat src + i))"
  shows "\<exists>u'. from_user u dst src len wr = Some (ok, u') \<and> fsys u' = fsys u \<and> kept vs u u'
    \<and> (if ok then stored u' (unat dst) bs \<and> (\<forall>x. uapart u (unat dst) (unat dst + n) x \<longrightarrow> ubyte u' x = ubyte u x)
       else ubyte u' = ubyte u)"
proof -
  obtain v where v: "user_mem_check (vm (kern u)) (cur_mm u) src len wr = Some (ok, v)" "heap v = heap (vm (kern u))"
      "vmas v = vmas (vm (kern u))" "vm_inv v (cur_mm u) vs"
    using user_mem_check_spec [OF assms(2), of src len wr] assms(3) by auto
  note k = set_vm_keeps [OF v(2)]
  have vw: "view_mem (set_vm v u) = view_mem u" by (simp add: fun_eq_iff view_ubyte k)
  show ?thesis
  proof (cases ok)
    case False
    then show ?thesis using v(1) k keptI [OF same_space_refl v(2-4)] by (simp add: from_user_def copy_from_user_def)
  next
    case True
    note m = assms(4) [OF True]
    obtain u' where "ustore (set_vm v u) dst (peek (memcpy (view_mem u) (unat dst) (unat src) n) dst n) = Some u'"
      "same_space (set_vm v u) u'" "stored u' (unat dst) bs"
      "\<forall>x. uapart u (unat dst) (unat dst + n) x \<longrightarrow> ubyte u' x = ubyte u x"
      using copy_stored [of "set_vm v u" dst n src bs] m unfolding k vw by blast
    then show ?thesis using v(1) True m k keptI [OF _ v(2-4)] by (simp add: from_user_def copy_from_user_def n_def)
  qed
qed

end
