(* ===== verification/ExecArgs.thy ===== *)
theory ExecArgs
  imports UserMem OpenFiles
begin

text \<open>
  The arguments of a new program: \<open>load_icode\<close> puts \<open>argc\<close>, the pointers \<open>argv\<close> and the strings on the user stack,
  where the program finds them.
\<close>

lemma unat_ucast_u32: "unat (ucast (w :: u32) :: u64) = unat w"
  using unat_u32_less [of w] by (simp add: unsigned_ucast_eq take_bit_nat_eq_self)

text \<open>The room of the first \<open>i\<close> strings with their terminators.\<close>

definition room :: "u8 list list \<Rightarrow> nat \<Rightarrow> nat" where
  "room ss i = sum_list (map (\<lambda>s. length s + 1) (take i ss))"

lemma room_simps [simp]: "room ss 0 = 0" "room (s # ss) (Suc i) = length s + 1 + room ss i"
  by (simp_all add: room_def)

lemma room_mono: "i \<le> length ss \<Longrightarrow> room ss i \<le> room ss (length ss)"
proof -
  have "room ss (length ss) = room ss i + sum_list (map (\<lambda>s. length s + 1) (drop i ss))"
    by (simp add: room_def flip: sum_list_append map_append)
  then show ?thesis by simp
qed

lemma room_next: "i < length ss \<Longrightarrow> room ss (Suc i) = room ss i + length (ss ! i) + 1"
  by (simp add: room_def take_Suc_conv_app_nth)

text \<open>The strings \<open>ss\<close> are at the kernel addresses \<open>ps\<close>, away from the region.\<close>

definition kstrings :: "usys \<Rightarrow> nat \<Rightarrow> nat \<Rightarrow> nat list \<Rightarrow> u8 list list \<Rightarrow> bool" where
  "kstrings u lo hi ps ss \<longleftrightarrow> length ps = length ss \<and> (\<forall>i < length ss. cstr (view_mem u) (unat (kva (ps ! i))) (ss ! i)
     \<and> (\<forall>j \<le> length (ss ! i). uapart u lo hi (unat (kva (ps ! i)) + j)))"

lemma kstrings_Cons: "kstrings u lo hi (p # ps) (s # ss) \<longleftrightarrow> kstrings u lo hi ps ss \<and> cstr (view_mem u) (unat (kva p)) s
    \<and> (\<forall>j \<le> length s. uapart u lo hi (unat (kva p) + j))"
  by (auto simp: kstrings_def less_Suc_eq_0_disj)

lemma cstr_moved:
  assumes "cstr (view_mem u) a s" "\<And>j. j \<le> length s \<Longrightarrow> ubyte u' (a + j) = ubyte u (a + j)"
  shows "cstr (view_mem u') a s"
proof -
  have "view_mem u' x = view_mem u x" if "a \<le> x" "x \<le> a + length s" for x
    using assms(2) [of "x - a"] that by (simp add: view_ubyte)
  then show ?thesis using cstr_cong assms(1) by blast
qed

lemma kstrings_moved:
  assumes "kstrings u lo hi ps ss" "same_space u u'" "\<forall>x. uapart u lo hi x \<longrightarrow> ubyte u' x = ubyte u x"
  shows "kstrings u' lo hi ps ss"
  using assms cstr_moved [of u _ _ u'] by (simp add: kstrings_def same_space_def)

lemma stored_kept: "stored u a bs \<Longrightarrow> (\<And>x. a \<le> x \<Longrightarrow> x < a + length bs \<Longrightarrow> ubyte u' x = ubyte u x) \<Longrightarrow> stored u' a bs"
  by (simp add: stored_def)

lemma push_args_spec:
  assumes "uregion u lo hi" "kstrings u lo hi ps ss" "lo \<le> unat uargv"
    and "unat uargv + 8 * length ps \<le> unat ustr + unat off" "unat ustr + unat off + room ss (length ss) \<le> hi"
    and "unat off + room ss (length ss) < 2 ^ 32"
  shows "\<exists>u'. push_args u uargv ustr off ps = Some u' \<and> same_space u u'
    \<and> (\<forall>i < length ss. stored u' (unat uargv + 8 * i) (u64_bytes (word_of_nat (unat ustr + unat off + room ss i)))
         \<and> stored u' (unat ustr + unat off + room ss i) (ss ! i @ [0]))
    \<and> (\<forall>x \<in> {lo..<hi}. x < unat uargv \<or> unat uargv + 8 * length ps \<le> x \<and> x < unat ustr + unat off
         \<longrightarrow> ubyte u' x = ubyte u x)
    \<and> (\<forall>x. uapart u lo hi x \<longrightarrow> ubyte u' x = ubyte u x)"
  using assms
proof (induction ps arbitrary: u uargv off ss)
  case Nil
  then show ?case by (simp add: kstrings_def)
next
  case (Cons p ps)
  obtain s ts where ss: "ss = s # ts" using Cons.prems(2) by (cases ss) (auto simp: kstrings_def)
  have ks: "kstrings u lo hi ps ts" "cstr (view_mem u) (unat (kva p)) s" "\<And>j. j \<le> length s \<Longrightarrow> uapart u lo hi (unat (kva p) + j)"
    and len: "length ps = length ts"
    using Cons.prems(2) unfolding ss kstrings_Cons by (auto simp: kstrings_def)
  have hi: "hi < 18446744073709551616" using Cons.prems(1) by (simp add: uregion_def region_def)
  let ?dst = "ustr + ucast off"
  have off: "unat (ucast off :: u64) = unat off" by (rule unat_ucast_u32)
  have dst: "unat ?dst = unat ustr + unat off"
    using unat_add_u64 [of ustr "ucast off"] Cons.prems(5) hi by (simp add: off)
  have a8: "unat (uargv + 8) = unat uargv + 8" using unat_add_nat_u64 [of uargv 8] Cons.prems(4,5) hi by simp
  obtain u1 where u1: "ustore u uargv (u64_bytes ?dst) = Some u1" "same_space u u1" "stored u1 (unat uargv) (u64_bytes ?dst)"
    "\<forall>x \<in> {lo..<hi}. x < unat uargv \<or> unat uargv + 8 \<le> x \<longrightarrow> ubyte u1 x = ubyte u x"
    "\<forall>x. uapart u lo hi x \<longrightarrow> ubyte u1 x = ubyte u x"
    using ustore_spec [OF Cons.prems(1,3), of "u64_bytes ?dst"] Cons.prems(4,5) by auto
  have s1: "string_at u1 (kva p) = Some s"
    by (rule string_at_cstr, rule cstr_moved [OF ks(2)]) (use u1(5) ks(3) in blast)
  have reg1: "uregion u1 lo hi" "uapart u1 = uapart u" using u1(2) Cons.prems(1) by (simp_all add: same_space_def)
  obtain u2 where u2: "ustore u1 ?dst (s @ [0]) = Some u2" "same_space u1 u2" "stored u2 (unat ?dst) (s @ [0])"
    "\<forall>x \<in> {lo..<hi}. x < unat ?dst \<or> unat ?dst + length (s @ [0]) \<le> x \<longrightarrow> ubyte u2 x = ubyte u1 x"
    "\<forall>x. uapart u1 lo hi x \<longrightarrow> ubyte u2 x = ubyte u1 x"
    using ustore_spec [OF reg1(1), of ?dst "s @ [0]"] Cons.prems(3,4,5) unfolding dst ss by auto
  have sp: "same_space u u2" using same_space_trans [OF u1(2) u2(2)] .
  have ap: "\<forall>x. uapart u lo hi x \<longrightarrow> ubyte u2 x = ubyte u x" using u1(5) u2(5) reg1(2) by simp
  let ?off = "off + word_of_nat (length s) + 1"
  have off': "unat ?off = unat off + length s + 1"
    using unat_add_nat_u32 [of off "length s + 1"] Cons.prems(6) unfolding ss by (simp add: algebra_simps)
  have pre: "uregion u2 lo hi" "kstrings u2 lo hi ps ts" "lo \<le> unat (uargv + 8)"
    "unat (uargv + 8) + 8 * length ps \<le> unat ustr + unat ?off" "unat ustr + unat ?off + room ts (length ts) \<le> hi"
    "unat ?off + room ts (length ts) < 2 ^ 32"
    using Cons.prems sp kstrings_moved [OF ks(1) sp ap] unfolding ss off' a8 by (simp_all add: same_space_def)
  obtain u' where u': "push_args u2 (uargv + 8) ustr ?off ps = Some u'" "same_space u2 u'"
    "\<forall>i < length ts. stored u' (unat uargv + 8 + 8 * i) (u64_bytes (word_of_nat (unat ustr + unat ?off + room ts i)))
         \<and> stored u' (unat ustr + unat ?off + room ts i) (ts ! i @ [0])"
    "\<forall>x \<in> {lo..<hi}. x < unat uargv + 8 \<or> unat uargv + 8 + 8 * length ps \<le> x \<and> x < unat ustr + unat ?off
         \<longrightarrow> ubyte u' x = ubyte u2 x"
    "\<forall>x. uapart u2 lo hi x \<longrightarrow> ubyte u' x = ubyte u2 x"
    using Cons.IH [OF pre] unfolding a8 by blast
  have run: "push_args u uargv ustr off (p # ps) = Some u'" using u1(1) s1 u2(1) u'(1) by (simp add: Let_def)
  have first: "stored u' (unat uargv) (u64_bytes ?dst)"
  proof (rule stored_kept [OF u1(3)])
    fix x assume "unat uargv \<le> x" "x < unat uargv + length (u64_bytes ?dst)"
    then show "ubyte u' x = ubyte u1 x" using u'(4) u2(4) Cons.prems(3,4,5) unfolding dst ss by simp
  qed
  have str: "stored u' (unat ustr + unat off) (s @ [0])"
  proof (rule stored_kept [OF u2(3) [unfolded dst]])
    fix x assume "unat ustr + unat off \<le> x" "x < unat ustr + unat off + length (s @ [0])"
    then show "ubyte u' x = ubyte u2 x" using u'(4) Cons.prems(3,4,5) unfolding off' ss by simp
  qed
  have dstw: "word_of_nat (unat ustr + unat off) = ?dst" by (simp flip: dst)
  have all: "stored u' (unat uargv + 8 * i) (u64_bytes (word_of_nat (unat ustr + unat off + room ss i)))
         \<and> stored u' (unat ustr + unat off + room ss i) (ss ! i @ [0])" if "i < length ss" for i
  proof (cases i)
    case 0
    then show ?thesis using first str ss dstw by simp
  next
    case (Suc j)
    then have "j < length ts" using that ss by simp
    then show ?thesis using u'(3) [rule_format, of j] unfolding ss Suc off' by (simp add: add.assoc)
  qed
  have frame: "ubyte u' x = ubyte u x"
    if "x \<in> {lo..<hi}" "x < unat uargv \<or> unat uargv + 8 * length (p # ps) \<le> x \<and> x < unat ustr + unat off" for x
    using that u'(4) u2(4) u1(4) Cons.prems(4) unfolding dst off' by auto
  have "\<forall>x. uapart u lo hi x \<longrightarrow> ubyte u' x = ubyte u x" using ap u'(5) sp by (simp add: same_space_def)
  then show ?case using run same_space_trans [OF sp u'(2)] all frame by blast
qed

lemma args_len_room:
  "kstrings u lo hi ps ss \<Longrightarrow> (\<forall>s \<in> set ss. length s \<le> 4095) \<Longrightarrow> args_len (view_mem u) ps = word_of_nat (room ss (length ss))"
proof (induction ps arbitrary: ss)
  case (Cons p ps)
  obtain s ts where ss: "ss = s # ts" using Cons.prems(1) by (cases ss) (auto simp: kstrings_def)
  have "strnlen (view_mem u) (unat (kva p)) 4095 = length s"
    using strnlen_loop_cstr [of "view_mem u" "unat (kva p)" s 4095 0] Cons.prems unfolding ss kstrings_Cons by (simp add: strnlen_def)
  then show ?case using Cons.IH [of ts] Cons.prems unfolding ss kstrings_Cons by (simp add: args_len_def)
qed (simp add: kstrings_def args_len_def)

lemma room_bound: "(\<forall>s \<in> set ss. length s \<le> 4095) \<Longrightarrow> room ss (length ss) \<le> 4096 * length ss"
  by (induction ss) auto

lemma args_sp_value:
  assumes "n \<le> 32" "t \<le> 131072"
  shows "unat (args_sp (word_of_nat t) n) = (0x80000000 - (8 + 8 * n + t)) - (0x80000000 - (8 + 8 * n + t)) mod 16"
proof -
  let ?d = "8 + ucast (word_of_nat n * 8 :: u32) + ucast (word_of_nat t :: u32) :: u64"
  have "unat (word_of_nat n * 8 :: u32) = 8 * n" using assms(1) by (simp add: unat_word_ariths unat_of_nat take_bit_eq_mod)
  moreover have "unat (word_of_nat t :: u32) = t" using assms(2) by (simp add: unat_of_nat take_bit_eq_mod)
  ultimately have d: "unat ?d = 8 + 8 * n + t"
    using assms by (simp add: unat_word_ariths unat_ucast_u32)
  have s: "unat (0x80000000 - ?d) = 0x80000000 - (8 + 8 * n + t)"
    using unat_sub [of ?d "0x80000000 :: u64"] d assms by (simp add: word_le_nat_alt)
  have "unat (w - w mod 16) = unat w - unat w mod 16" for w :: u64
    using unat_sub [of "w mod 16" w] by (simp add: word_le_nat_alt unat_mod)
  then show ?thesis by (simp only: args_sp_def Let_def USERTOP_def s)
qed

text \<open>
  C6: The arguments of a program. When the user stack is mapped from the computed stack pointer up to its top, and
  \<open>kargv\<close> holds at most 32 strings of at most 4095 bytes in kernel memory, \<open>load_icode\<close> finishes the stack: the
  stack pointer is a multiple of 16 and everything fits below the top; \<open>argc\<close> is stored there, above it the
  pointers \<open>argv\<close>, and each points to a copy of its string with the terminator. No other memory changes.
\<close>

theorem exec_args_layout:
  fixes n :: nat
  assumes "kstrings u (unat sp) 0x80000000 kargv strs" "n = length strs" "n \<le> 32" "\<forall>s \<in> set strs. length s \<le> 4095"
    and "sp = args_sp (args_len (view_mem u) kargv) n" "uregion u (unat sp) 0x80000000"
  shows "unat sp mod 16 = 0 \<and> unat sp + 8 + 8 * n + room strs n \<le> 0x80000000
    \<and> (\<exists>u'. setup_args u kargv = Some (sp, u') \<and> same_space u u'
         \<and> uload u' sp 4 = Some (u32_bytes (word_of_nat n))
         \<and> (\<forall>i < n. uload u' (sp + 8 + 8 * word_of_nat i) 8 = Some (u64_bytes (sp + 8 + 8 * word_of_nat n + word_of_nat (room strs i)))
              \<and> uload u' (sp + 8 + 8 * word_of_nat n + word_of_nat (room strs i)) (length (strs ! i) + 1) = Some (strs ! i @ [0]))
         \<and> (\<forall>x. uapart u (unat sp) 0x80000000 x \<longrightarrow> ubyte u' x = ubyte u x))"
proof -
  have len: "length kargv = n" using assms(1,2) by (simp add: kstrings_def)
  have rm: "room strs n \<le> 131072" using room_bound [OF assms(4)] assms(2,3) by simp
  have tot: "args_len (view_mem u) kargv = word_of_nat (room strs n)" using args_len_room [OF assms(1,4)] assms(2) by simp
  let ?S = "0x80000000 - (8 + 8 * n + room strs n)"
  have spv: "unat sp = ?S - ?S mod 16" using args_sp_value [OF assms(3) rm] assms(5) tot by simp
  then have al: "unat sp mod 16 = 0" by (metis minus_mod_eq_mult_div mod_mult_self1_is_0 mult.commute)
  have fit: "unat sp + 8 + 8 * n + room strs n \<le> 0x80000000" using spv assms(3) rm by linarith
  have big: "unat sp < 0x80000000" using fit by linarith
  have arg: "word_of_nat n * 8 = (word_of_nat (n * 8) :: u32)" by simp
  have n8: "ucast (word_of_nat n * 8 :: u32) = (8 * word_of_nat n :: u64)"
    using assms(3) by (intro word_unat_eq_iff [THEN iffD2]) (simp add: unat_ucast_u32 unat_word_ariths unat_of_nat take_bit_eq_mod)
  obtain u1 where u1: "ustore u sp (u32_bytes (word_of_nat n)) = Some u1" "same_space u u1" "stored u1 (unat sp) (u32_bytes (word_of_nat n))"
    "\<forall>x. uapart u (unat sp) 0x80000000 x \<longrightarrow> ubyte u1 x = ubyte u x"
    using ustore_spec [OF assms(6), of sp "u32_bytes (word_of_nat n)"] fit by auto
  have sp8: "unat (sp + 8) = unat sp + 8" using unat_add_nat_u64 [of sp 8] big by simp
  have str: "unat (sp + 8 + 8 * word_of_nat n) = unat sp + 8 + 8 * n"
    using unat_add_nat_u64 [of "sp + 8" "8 * n"] big assms(3) by (simp add: sp8)
  have pre: "uregion u1 (unat sp) 0x80000000" "kstrings u1 (unat sp) 0x80000000 kargv strs" "unat sp \<le> unat (sp + 8)"
    "unat (sp + 8) + 8 * length kargv \<le> unat (sp + 8 + 8 * word_of_nat n) + unat (0 :: u32)"
    "unat (sp + 8 + 8 * word_of_nat n) + unat (0 :: u32) + room strs (length strs) \<le> 0x80000000"
    "unat (0 :: u32) + room strs (length strs) < 2 ^ 32"
    using u1(2) assms(6) kstrings_moved [OF assms(1) u1(2,4)] rm fit
    by (simp_all add: same_space_def sp8 str len flip: assms(2))
  obtain u' where u': "push_args u1 (sp + 8) (sp + 8 + 8 * word_of_nat n) 0 kargv = Some u'" "same_space u1 u'"
    "\<forall>i < length strs. stored u' (unat (sp + 8) + 8 * i) (u64_bytes (word_of_nat (unat (sp + 8 + 8 * word_of_nat n) + unat (0 :: u32) + room strs i)))
         \<and> stored u' (unat (sp + 8 + 8 * word_of_nat n) + unat (0 :: u32) + room strs i) (strs ! i @ [0])"
    "\<forall>x \<in> {unat sp..<0x80000000}. x < unat (sp + 8) \<or> unat (sp + 8) + 8 * length kargv \<le> x
         \<and> x < unat (sp + 8 + 8 * word_of_nat n) + unat (0 :: u32) \<longrightarrow> ubyte u' x = ubyte u1 x"
    "\<forall>x. uapart u1 (unat sp) 0x80000000 x \<longrightarrow> ubyte u' x = ubyte u1 x"
    using push_args_spec [OF pre] by blast
  have run: "setup_args u kargv = Some (sp, u')"
    using u1(1) u'(1) assms(5) by (simp add: setup_args_def len n8)
  have argc: "stored u' (unat sp) (u32_bytes (word_of_nat n))"
    by (rule stored_kept [OF u1(3)]) (use u'(4) fit in \<open>simp add: sp8\<close>)
  have args: "uload u' (sp + 8 + 8 * word_of_nat i) 8 = Some (u64_bytes (sp + 8 + 8 * word_of_nat n + word_of_nat (room strs i)))
      \<and> uload u' (sp + 8 + 8 * word_of_nat n + word_of_nat (room strs i)) (length (strs ! i) + 1) = Some (strs ! i @ [0])"
    if i: "i < n" for i
  proof -
    let ?w = "sp + 8 + 8 * word_of_nat n" and ?p = "sp + 8 + 8 * word_of_nat i"
    have r: "room strs i + length (strs ! i) + 1 \<le> room strs n"
      using room_next [of i strs] room_mono [of "Suc i" strs] i assms(2) by simp
    have p: "unat ?p = unat (sp + 8) + 8 * i" using unat_add_nat_u64 [of "sp + 8" "8 * i"] i big assms(3) by (simp add: sp8)
    have w: "unat (?w + word_of_nat (room strs i)) = unat ?w + unat (0 :: u32) + room strs i"
      using unat_add_nat_u64 [of ?w "room strs i"] r fit by (simp add: str)
    then have ww: "word_of_nat (unat ?w + unat (0 :: u32) + room strs i) = ?w + word_of_nat (room strs i)" by simp
    have "uload u' ?p (length (u64_bytes (?w + word_of_nat (room strs i)))) = Some (u64_bytes (?w + word_of_nat (room strs i)))"
      using u'(3) i assms(2) unfolding uload_eq p ww by simp
    moreover have "uload u' (?w + word_of_nat (room strs i)) (length (strs ! i @ [0])) = Some (strs ! i @ [0])"
      using u'(3) i assms(2) unfolding uload_eq w by simp
    ultimately show ?thesis by simp
  qed
  have "uload u' sp (length (u32_bytes (word_of_nat n))) = Some (u32_bytes (word_of_nat n))"
    unfolding uload_eq by (rule argc)
  then have "uload u' sp 4 = Some (u32_bytes (word_of_nat n))" by simp
  moreover have "\<forall>x. uapart u (unat sp) 0x80000000 x \<longrightarrow> ubyte u' x = ubyte u x"
    using u1(2,4) u'(5) by (simp add: same_space_def)
  ultimately show ?thesis using al fit run same_space_trans [OF u1(2) u'(2)] args by blast
qed

subsection \<open>A concrete image\<close>

text \<open>
  The running process 1 has one page of stack, the frame \<open>nbase + 3\<close> behind the tables \<open>nbase\<close>, \<open>nbase + 1\<close> and
  \<open>nbase + 2\<close>; the only argument, the string \<open>a\<close>, is in the frame \<open>nbase + 0x204\<close> of the kernel heap.
\<close>

definition image_phys :: "nat \<Rightarrow> pt_index \<Rightarrow> u64" where
  "image_phys f i =
     (if f = nbase \<and> i = 1 then pte_create (nbase + 1) PTE_V
      else if f = nbase + 1 \<and> i = 511 then pte_create (nbase + 2) PTE_V
      else if f = nbase + 2 \<and> i = 511 then pte_create (nbase + 3) PTE_USER
      else if f = nbase + 0x204 \<and> i = 0 then 0x61 else 0)"

definition image_kmem :: kmem where
  "image_kmem = sample_kmem\<lparr>phys := image_phys, npage := nbase + 0x208\<rparr>"

definition image_usys :: usys where
  "image_usys = \<lparr>kern = set_kmem image_kmem (pupd 1 (\<lambda>q. q\<lparr>p_pgdir := push_bit 12 (word_of_nat nbase)\<rparr>) sample_ksys),
     fsys = sample_open\<rparr>"

lemma image_sel: "km (kern image_usys) = image_kmem" "cur_pgdir image_usys = nbase"
  by (simp_all add: image_usys_def cur_pgdir_def proc_of_def cur_def pupd_def sample_ksys_def sample_sched_def PPN_def nbase_def)

lemma image_entries:
  "pte_valid (image_phys f i) \<longleftrightarrow> f = nbase \<and> i = 1 \<or> f = nbase + 1 \<and> i = 511 \<or> f = nbase + 2 \<and> i = 511 \<or> f = nbase + 0x204 \<and> i = 0"
  "entry_ppn (image_phys nbase 1) = nbase + 1" "entry_ppn (image_phys (nbase + 1) 511) = nbase + 2"
  "entry_ppn (image_phys (nbase + 2) 511) = nbase + 3"
  by (auto simp: image_phys_def pte_valid_def pte_create_def entry_ppn_def PTE_ADDR_def PPN_def PTE_V_def PTE_USER_def
      PTE_R_def PTE_W_def PTE_X_def PTE_U_def nbase_def)

lemma image_not_table: "f = nbase + 3 \<Longrightarrow> \<not> is_table image_kmem nbase f"
proof
  assume f: "f = nbase + 3" and "is_table image_kmem nbase f"
  then obtain xs where xs: "length xs \<le> 2" "tbl image_kmem nbase xs = Some f" by (auto simp: is_table_def)
  then consider "xs = []" | i where "xs = [i]" | i j where "xs = [i, j]"
    by (cases xs rule: list.exhaust; cases "tl xs" rule: list.exhaust; cases "tl (tl xs)" rule: list.exhaust) auto
  then show False
    by cases (use xs(2) f image_entries(3) in \<open>auto simp: tbl_def image_kmem_def image_entries split: if_splits\<close>)
qed

lemma image_stack:
  assumes "x \<in> {0x7FFFF000..<0x80000000}"
  shows "translate image_kmem nbase (word_of_nat x) = Some (nbase + 3, x - 0x7FFFF000)"
proof -
  let ?a = "word_of_nat x :: u64"
  have u: "unat ?a = x" using assms by (simp add: unat_of_nat take_bit_eq_mod)
  have div: "x div 4096 = 0x7FFFF" "x div 2097152 = 0x3FF" "x div 1073741824 = 1" using assms by auto
  have d: "drop_bit 12 ?a = 0x7FFFF" "drop_bit 21 ?a = 0x3FF" "drop_bit 30 ?a = 1"
    using div by (simp_all add: word_unat_eq_iff unat_drop_bit_eq u drop_bit_eq_div unat_div)
  have "\<not> ?a \<ge> KERNBASE" using assms by (simp add: word_le_nat_alt u KERNBASE_def)
  moreover have "unat (?a AND 0xFFF) = x - 0x7FFFF000" using minus_mult_div_eq_mod [of x 4096] div(1) unfolding unat_page_offset u by simp
  moreover have "leaf image_kmem nbase ?a = image_phys (nbase + 2) 511"
    using image_entries(3) by (simp add: leaf_def tbl_def PDX1_def PDX0_def PTX_def d image_kmem_def image_entries)
  ultimately show ?thesis using image_entries(4) by (simp add: translate_def Let_def image_entries)
qed

lemma image_string:
  "translate image_kmem nbase (0xFFFFFFFFC0204000 + word_of_nat j) = Some (nbase + 0x204, j)" if "j < 2"
proof -
  have "j = 0 \<or> j = 1" using that by linarith
  then show ?thesis
    by (elim disjE) (simp_all add: translate_def Let_def KERNBASE_def va_pa_offset_def PPN_def image_kmem_def nbase_def)
qed

definition image_arg :: nat where "image_arg = 256 * (nbase + 0x204)"

lemma image_facts:
  "args_sp (args_len (view_mem image_usys) [image_arg]) 1 = 0x7FFFFFE0"
  "uregion image_usys (unat (0x7FFFFFE0 :: u64)) 0x80000000"
  "kstrings image_usys (unat (0x7FFFFFE0 :: u64)) 0x80000000 [image_arg] [[0x61]]"
proof -
  have kv: "kva (image_arg) = 0xFFFFFFFFC0204000" by (simp add: kva_def image_arg_def nbase_def va_pa_offset_def)
  let ?f = "\<lambda>x. translate image_kmem nbase (word_of_nat x)"
  have tr: "?f x = Some (nbase + 3, x - 0x7FFFF000)" if "x \<in> {0x7FFFFFE0..<0x80000000}" for x
    using image_stack [of x] that by simp
  have "inj_on ?f {0x7FFFFFE0..<0x80000000}" by (rule inj_onI) (use tr in \<open>auto simp del: of_nat_diff\<close>)
  then show "uregion image_usys (unat (0x7FFFFFE0 :: u64)) 0x80000000"
    using tr image_not_table by (simp add: uregion_def region_def image_sel)
  have ld: "load_byte image_kmem nbase (0xFFFFFFFFC0204000 + word_of_nat j) = Some (if j = 0 then 0x61 else 0)" if "j < 2" for j
    using that image_string [OF that] by (cases j) (auto simp: load_byte_def get_entry_def image_kmem_def image_phys_def get_byte_def)
  have w: "word_of_nat (unat (kva (image_arg)) + j) = (0xFFFFFFFFC0204000 + word_of_nat j :: u64)" for j by (simp add: kv)
  have "cstr (view_mem image_usys) (unat (kva (image_arg))) [0x61]"
    using ld [of 0] ld [of 1] by (simp add: view_mem_def image_sel kv)
  moreover have "uapart image_usys (unat (0x7FFFFFE0 :: u64)) 0x80000000 (unat (kva (image_arg)) + j)" if "j \<le> 1" for j
    using image_string [of j] that tr by (auto simp: uapart_def kapart_def image_sel w simp del: of_nat_add)
  ultimately show k: "kstrings image_usys (unat (0x7FFFFFE0 :: u64)) 0x80000000 [image_arg] [[0x61]]"
    by (simp add: kstrings_def)
  have "args_len (view_mem image_usys) [image_arg] = word_of_nat (room [[0x61]] (length [[0x61 :: u8]]))"
    by (rule args_len_room [OF k]) simp
  then show "args_sp (args_len (view_mem image_usys) [image_arg]) 1 = 0x7FFFFFE0"
    by (simp add: args_sp_def USERTOP_def)
qed

theorem exec_args_layout_witness:
  "\<exists>u'. setup_args image_usys [image_arg] = Some (0x7FFFFFE0, u') \<and> uload u' 0x7FFFFFE0 4 = Some (u32_bytes 1)
    \<and> uload u' 0x7FFFFFE8 8 = Some (u64_bytes 0x7FFFFFF0) \<and> uload u' 0x7FFFFFF0 2 = Some [0x61, 0]"
proof -
  have w: "(0x7FFFFFE0 :: u64) + 8 + 8 * word_of_nat 0 = 0x7FFFFFE8" "(0x7FFFFFE0 :: u64) + 8 + 8 * word_of_nat 1 + word_of_nat 0 = 0x7FFFFFF0"
    by simp_all
  obtain u' where u': "setup_args image_usys [image_arg] = Some (0x7FFFFFE0, u')" "uload u' 0x7FFFFFE0 4 = Some (u32_bytes (word_of_nat 1))"
    "\<forall>i < 1. uload u' (0x7FFFFFE0 + 8 + 8 * word_of_nat i) 8 = Some (u64_bytes (0x7FFFFFE0 + 8 + 8 * word_of_nat 1 + word_of_nat (room [[0x61]] i)))
       \<and> uload u' (0x7FFFFFE0 + 8 + 8 * word_of_nat 1 + word_of_nat (room [[0x61]] i)) (length ([[0x61]] ! i) + 1) = Some ([[0x61]] ! i @ [0])"
    using exec_args_layout [OF image_facts(3), of 1] image_facts(1,2) by auto
  have "(0 :: nat) < 1" by simp
  then show ?thesis using u'(1,2) u'(3) [rule_format, of 0] by (simp only: w room_simps) (simp add: numeral_2_eq_2)
qed

end
