(* ===== verification/SysErrors.thy ===== *)
theory SysErrors
  imports Trap ExecArgs
begin

text \<open>
  Errors of system calls, from the trap to the return to user mode: a call with a descriptor that is not open gives
  \<open>E_INVAL\<close> to the program and changes nothing else.
\<close>

subsection \<open>Traps\<close>

lemma pupd_fuse: "pupd p f (pupd p g s) = pupd p (\<lambda>q. f (g q)) s"
  by (simp add: pupd_def upd_proc_def)

lemma set_kern_fuse [simp]: "set_kern s (set_kern t m) = set_kern s m" "kern (usr (set_kern s m)) = s"
  by (simp_all add: set_kern_def)

text \<open>A call that returns \<open>r\<close> and leaves the machine as it is.\<close>

definition call_result :: "int \<Rightarrow> trapframe \<Rightarrow> trapframe" where
  "call_result r tf = tf\<lparr>tf_epc := tf_epc tf + 4, gpr := (gpr tf)(10 := word_of_int r)\<rparr>"

lemma trap_call:
  assumes tf: "tf_cause tf = CAUSE_USER_ECALL" "\<not> trap_in_kernel tf"
    and p: "p_flags (this_proc m) AND PF_EXITING = 0" "\<not> p_need_resched (this_proc m)"
    and f: "0 \<le> c_int (gpr tf 10)" "c_int (gpr tf 10) < NUM_SYSCALLS" "syscalls (c_int (gpr tf 10)) = Some f"
    and r: "\<And>t. f env (set_tf (Some t) m) (map (gpr tf) [11, 12, 13, 14, 15]) = Some (Returns r, set_tf (Some t) m)"
  shows "trap env tfa m tf = Some (Returns 0, Some (call_result r tf), set_tf (Some (call_result r tf)) m)"
proof -
  have set_tf: "this_proc (set_tf t m) = (this_proc m)\<lparr>p_tf := t\<rparr>" "set_tf t (set_tf t' m) = set_tf t m" for t t'
    by (simp_all add: set_tf_def this_proc_def pupd_fuse)
  have skip: "skip_ecall (set_tf (Some tf) m) = set_tf (Some (tf\<lparr>tf_epc := tf_epc tf + 4\<rparr>)) m"
    by (simp add: skip_ecall_def set_tf_def pupd_fuse)
  have a0: "set_a0 r (set_tf (Some (tf\<lparr>tf_epc := tf_epc tf + 4\<rparr>)) m) = set_tf (Some (call_result r tf)) m"
    by (simp add: set_a0_def set_tf_def pupd_fuse call_result_def)
  have "syscall env (set_tf (Some (tf\<lparr>tf_epc := tf_epc tf + 4\<rparr>)) m) = Some (Returns r, set_tf (Some (call_result r tf)) m)"
    using f r a0 by (simp add: syscall_def set_tf)
  then show ?thesis
    using tf p by (simp add: trap_def trap_dispatch_def exception_handler_def skip trap_end_def set_tf Let_def)
qed

subsection \<open>Descriptors\<close>

definition has_files :: "usys \<Rightarrow> bool" where
  "has_files u \<longleftrightarrow> p_filesp (proc_of (kern u) (cur (kern u))) = Some (cur_files (fsys u))
     \<and> (\<exists>fs. cur_fs (fsys u) = Some fs \<and> files_count fs > 0 \<and> length (fd_array fs) = FILES_STRUCT_NENTRY)"

definition fd_open :: "usys \<Rightarrow> int \<Rightarrow> bool" where
  "fd_open u fd \<longleftrightarrow> 0 \<le> fd \<and> fd < int FILES_STRUCT_NENTRY
     \<and> (\<exists>fs. cur_fs (fsys u) = Some fs \<and> f_status (fd_array fs ! nat fd) = FD_OPENED)"

lemma fd2file_bad:
  assumes "has_files u" "\<not> fd_open u fd"
  shows "fd2file fd (fsys u) = Some (Inl E_INVAL)"
  using assms by (auto simp: fd2file_def has_files_def fd_open_def testfd_def get_fd_array_def ofile_at_def cur_fs_def)

lemma with_files_run:
  assumes "has_files u"
  shows "with_files u f = do { (r, v) \<leftarrow> f (fsys u); Some (r, u\<lparr>fsys := v\<rparr>) }"
  using assms by (simp add: with_files_def has_files_def)

lemma bad_descriptor_calls:
  assumes "has_files u" "\<not> fd_open u fd"
  shows "sysfile_close u fd = Some (- err_code E_INVAL, u)" "sysfile_seek u fd pos whence = Some (- err_code E_INVAL, u)"
    "sysfile_fstat lcl u fd dst = Some (- err_code E_INVAL, u)" "sysfile_fsync u fd = Some (- err_code E_INVAL, u)"
    "sysfile_dup u fd fd2 = Some (- err_code E_INVAL, u)"
    "len \<noteq> 0 \<Longrightarrow> sysfile_read u fd base len = Some (- err_code E_INVAL, u)"
    "len \<noteq> 0 \<Longrightarrow> sysfile_write u fd base len = Some (- err_code E_INVAL, u)"
  using fd2file_bad [OF assms]
  by (simp_all add: with_files_run [OF assms(1)] sysfile_close_def sysfile_seek_def sysfile_fstat_def sysfile_fsync_def sysfile_dup_def sysfile_read_def
      sysfile_write_def testfd_user_def file_close_def file_seek_def file_fstat_def file_fsync_def file_dup_def file_testfd_def)

text \<open>
  C7: a program that makes a system call with a descriptor that is not open (\<open>close\<close>, \<open>read\<close> or \<open>write\<close> of at least one
  byte, \<open>seek\<close>, \<open>fstat\<close>, \<open>fsync\<close>, \<open>dup\<close>) goes on behind the call with \<open>-E_INVAL\<close> in \<open>a0\<close> and its other registers as
  they were; nothing else in the machine has changed: no memory, no file, no other process.
\<close>

theorem bad_descriptor_rejected:
  assumes "tf_cause tf = CAUSE_USER_ECALL" "\<not> trap_in_kernel tf"
    and "p_flags (this_proc m) AND PF_EXITING = 0" "\<not> p_need_resched (this_proc m)"
    and "has_files (usr m)" "\<not> fd_open (usr m) (c_int (gpr tf 11))"
    and "gpr tf 10 \<in> {101, 102, 103, 104, 110, 111, 130}" "gpr tf 10 \<in> {102, 103} \<Longrightarrow> gpr tf 13 \<noteq> 0"
  shows "trap env tfa m tf = Some (Returns 0, Some (call_result (- err_code E_INVAL) tf),
           set_tf (Some (call_result (- err_code E_INVAL) tf)) m)"
proof -
  have same: "has_files (usr (set_tf t m)) \<and> \<not> fd_open (usr (set_tf t m)) (c_int (gpr tf 11)) \<and> (set_tf t m)\<lparr>usr := usr (set_tf t m)\<rparr> = set_tf t m" for t
    using assms(5,6) by (simp add: has_files_def fd_open_def set_tf_def set_kern_def)
  note bad = bad_descriptor_calls [OF conjunct1 [OF same] conjunct1 [OF conjunct2 [OF same]]]
  obtain f where f: "(gpr tf 10, f) \<in> set [(101, sys_close), (102, sys_read), (103, sys_write), (104, sys_seek),
      (110, sys_fstat), (111, sys_fsync), (130, sys_dup)]"
    using assms(7) by auto
  then have "0 \<le> c_int (gpr tf 10) \<and> c_int (gpr tf 10) < NUM_SYSCALLS \<and> syscalls (c_int (gpr tf 10)) = Some f"
    by (auto simp: c_int_def syscalls_def)
  moreover have "f env (set_tf (Some t) m) (map (gpr tf) [11, 12, 13, 14, 15]) = Some (Returns (- err_code E_INVAL), set_tf (Some t) m)" for t
    using f assms(8) bad
    by (auto simp: returns_def sys_close_def sys_read_def sys_write_def sys_seek_def sys_fstat_def sys_fsync_def sys_dup_def)
  ultimately show ?thesis using trap_call [OF assms(1-4)] by blast
qed

text \<open>Process 1 of the image has one open descriptor, 0; it reads from the descriptor 5.\<close>

definition sample_machine :: machine where
  "sample_machine =
     \<lparr>usr = image_usys\<lparr>kern := pupd 1 (\<lambda>q. q\<lparr>p_filesp := Some 0\<rparr>) (kern image_usys)\<rparr>, ticks = 0,
      kcons = \<lparr>cons_buf = replicate 512 0, rpos = 0, wpos = 0\<rparr>, serial = [], wqueues = sample_sync\<rparr>"

definition read_tf :: trapframe where
  "read_tf = \<lparr>gpr = (\<lambda>_. 0)(10 := 102, 11 := 5, 12 := 0x7FFFF000, 13 := 16), tf_status = 0, tf_epc = 0x800020, tf_tval = 0,
     tf_cause = CAUSE_USER_ECALL\<rparr>"

lemma sample_machine_sel:
  "cur (kern (usr sample_machine)) = 1" "fsys (usr sample_machine) = sample_open"
  "this_proc sample_machine = (sample_procs 1)\<lparr>p_pgdir := push_bit 12 (word_of_nat nbase), p_filesp := Some 0\<rparr>"
  by (simp_all add: sample_machine_def this_proc_def image_usys_def set_kmem_def with_kmem_def sample_ksys_def sample_sched_def
      cur_def proc_of_def pupd_def)

theorem bad_descriptor_rejected_witness:
  "\<forall>env tfa. trap env tfa sample_machine read_tf = Some (Returns 0, Some (call_result (- 3) read_tf),
     set_tf (Some (call_result (- 3) read_tf)) sample_machine)"
proof (intro allI)
  fix env tfa
  have "proc_of (kern (usr sample_machine)) (cur (kern (usr sample_machine))) = this_proc sample_machine" by (simp add: this_proc_def)
  moreover have "f_status (fd_array sample_fst ! 5) = FD_NONE" "length (fd_array sample_fst) = 72" "files_count sample_fst = 1"
    by (simp_all add: sample_fst_def sample_slot_def)
  ultimately have f: "has_files (usr sample_machine)" "\<not> fd_open (usr sample_machine) (c_int (gpr read_tf 11))"
    by (simp_all add: has_files_def fd_open_def sample_machine_sel cur_fs_def sample_open_sel read_tf_def c_int_def)
  have p: "p_flags (this_proc sample_machine) AND PF_EXITING = 0" "\<not> p_need_resched (this_proc sample_machine)"
    by (simp_all add: sample_machine_sel sample_procs_def sample_sched_def blank_proc_def)
  show "trap env tfa sample_machine read_tf = Some (Returns 0, Some (call_result (- 3) read_tf),
     set_tf (Some (call_result (- 3) read_tf)) sample_machine)"
    using bad_descriptor_rejected [OF _ _ p f, of env tfa] by (simp add: read_tf_def trap_in_kernel_def)
qed

end
