(* ===== verification/UserRead.thy ===== *)
theory UserRead
  imports SysErrors
begin

text \<open>
  The path of the data of a \<open>read\<close>: from the blocks of a file through the descriptor and the kernel buffer into the
  memory of the program.
\<close>

subsection \<open>Reading through a descriptor\<close>

text \<open>
  \<open>reading v fd nd sn q\<close>: the descriptor \<open>fd\<close> is open for reading on the regular file with node \<open>nd\<close> and inode \<open>sn\<close>, and
  its position is \<open>q\<close>; no other operation on it is in progress.
\<close>

definition reading_slot :: "int \<Rightarrow> nat \<Rightarrow> nat \<Rightarrow> ofile \<Rightarrow> bool" where
  "reading_slot fd nd q f \<longleftrightarrow> f_status f = FD_OPENED \<and> f_fd f = fd \<and> f_readable f \<and> f_open_count f = 1 \<and> f_node f = Some nd
     \<and> f_pos f = int q"

definition reading_node :: "sfs_inode \<Rightarrow> inode \<Rightarrow> bool" where
  "reading_node sn n \<longleftrightarrow> in_ops n = Fileops \<and> in_fs n \<and> in_info n = Sfs_info sn \<and> inode_check n = Some ()"

definition readable_file :: "sfs_fs \<Rightarrow> sfs_inode \<Rightarrow> bool" where
  "readable_file s sn \<longleftrightarrow> fs_ok s \<and> map_ok s (din sn) \<and> din_type (din sn) \<noteq> SFS_TYPE_DIR \<and> sin_sem sn > 0
     \<and> unat (din_size (din sn)) \<le> 4096 * nblocks (din sn)"

definition reading :: "vstate \<Rightarrow> int \<Rightarrow> nat \<Rightarrow> sfs_inode \<Rightarrow> nat \<Rightarrow> bool" where
  "reading v fd nd sn q \<longleftrightarrow> 0 \<le> fd \<and> fd < int FILES_STRUCT_NENTRY
     \<and> (\<exists>fs. cur_fs v = Some fs \<and> files_count fs > 0 \<and> length (fd_array fs) = FILES_STRUCT_NENTRY
          \<and> reading_slot fd nd q (fd_array fs ! nat fd))
     \<and> (\<exists>n. inodes v nd = Some n \<and> reading_node sn n)
     \<and> readable_file (vsfs v) sn \<and> q \<le> unat (din_size (din sn))"

definition set_pos :: "int \<Rightarrow> nat \<Rightarrow> vstate \<Rightarrow> vstate" where
  "set_pos fd q v = upd_ofile (cur_files v) (nat fd) (\<lambda>f. f\<lparr>f_pos := int q\<rparr>) v"

lemma sfs_read_section:
  assumes "readable_file s sn" "q \<le> unat (din_size (din sn))" "0 < len" "len < 2 ^ 62" "len \<le> length buf"
    and "n = min len (unat (din_size (din sn)) - q)"
  shows "sfs_read s sn (iobuf_init buf len (int q)) =
    Some (None, \<lparr>io_mem = overwrite buf 0 (map (file_byte s (din sn)) [q..<q + n]), io_base = n, io_offset = int (q + n), io_len = len,
      io_resid = len - n\<rparr>, s, sn)"
proof -
  let ?sn = "sn\<lparr>sin_sem := sin_sem sn - 1\<rparr>"
  have sz: "unat (din_size (din sn)) \<le> 4243456" using assms(1) map_okD(2) [of s "din sn"] by (simp add: readable_file_def)
  have run: "sfs_io_nolock s ?sn buf (int q) len False = Some (None, n, overwrite buf 0 (map (file_byte s (din sn)) [q..<q + n]), s, ?sn)"
  proof (cases "q < unat (din_size (din sn))")
    case True
    have "sfs_io_nolock s ?sn buf (int q) len False
        = Some (None, n, overwrite buf 0 (map (file_byte s (din ?sn)) [q..<q + n]), s, ?sn)"
      by (rule read_section) (use assms sz True in \<open>auto simp: readable_file_def\<close>)
    then show ?thesis by simp
  next
    case False
    then have "uint (din_size (din sn)) = int q" using assms(2) by (simp flip: uint_nat)
    moreover have "sint (word_of_int (int q + int len) :: u64) = int q + int len"
      using assms(2,4) sz by (simp add: sint_sbintrunc' signed_take_bit_int_eq_self del: of_int_add of_int_of_nat_eq)
    moreover have "n = 0" "q < 134217728" "din_type (din sn) \<noteq> SFS_TYPE_DIR" using assms False sz by (auto simp: readable_file_def)
    ultimately show ?thesis using assms(3) by (simp add: sfs_io_nolock_def Let_def assert_that_def overwrite_def)
  qed
  have "n \<le> len" "sin_sem sn > 0" using assms by (auto simp: readable_file_def)
  with run show ?thesis
    by (auto simp: sfs_read_def sfs_io_def lock_sin_def unlock_sin_def down_sem_def up_sem_def iobuf_init_def iobuf_skip_def
        assert_that_def Let_def)
qed

lemma upd_inode_same:
  assumes "inodes v nd = Some n" "in_info n = Sfs_info sn"
  shows "upd_inode nd (\<lambda>n. n\<lparr>in_info := Sfs_info sn\<rparr>) (v\<lparr>vsfs := vsfs v\<rparr>) = v"
  using assms by (simp add: upd_inode_def fun_upd_idem)

lemma vop_read_section:
  assumes "inodes v nd = Some n" "reading_node sn n" "sfs_read (vsfs v) sn iob = Some (None, iob', vsfs v, sn)"
  shows "vop_read nd iob v = Some (0, iob', v)"
  using assms upd_inode_same [of v nd n sn]
  by (simp add: vop_io_def vop_enter_def reading_node_def on_sfs_def sfs_info_def assert_that_def ret_int_def)

lemma upd_ofile_fuse: "upd_ofile i k g (upd_ofile i k h v) = upd_ofile i k (\<lambda>f. g (h f)) v"
proof (cases "fstructs v i")
  case (Some fs)
  then show ?thesis
    by (cases "k < length (fd_array fs)") (simp_all add: upd_ofile_def upd_files_def list_update_beyond)
qed (simp add: upd_ofile_def upd_files_def)

lemma upd_ofile_cong:
  assumes "ofile_at v i k = Some f" "g f = h f"
  shows "upd_ofile i k g v = upd_ofile i k h v"
  using assms by (cases "fstructs v i") (auto simp: ofile_at_def upd_ofile_def upd_files_def split: if_splits)

lemma file_read_section:
  assumes r: "reading v fd nd sn q" and len: "0 < len" "len < 2 ^ 62" "len \<le> length buf"
    and n: "n = min len (unat (din_size (din sn)) - q)"
  shows "file_read fd buf len v = Some (0, n, overwrite buf 0 (map (file_byte (vsfs v) (din sn)) [q..<q + n]), set_pos fd (q + n) v)"
    and "reading (set_pos fd (q + n) v) fd nd sn (q + n)"
proof -
  let ?i = "cur_files v" and ?k = "nat fd"
  obtain fs nn where fs: "cur_fs v = Some fs" "files_count fs > 0" "length (fd_array fs) = FILES_STRUCT_NENTRY"
      "reading_slot fd nd q (fd_array fs ! ?k)" "0 \<le> fd" "fd < int FILES_STRUCT_NENTRY"
    and nn: "inodes v nd = Some nn" "reading_node sn nn" and rf: "readable_file (vsfs v) sn" "q \<le> unat (din_size (din sn))"
    using r by (auto simp: reading_def)
  let ?f = "fd_array fs ! ?k"
  have at: "ofile_at v ?i ?k = Some ?f" using fs by (simp add: ofile_at_def cur_fs_def)
  have fd: "fd2file fd v = Some (Inr (?i, ?k, ?f))"
    using fs at by (simp add: fd2file_def testfd_def get_fd_array_def reading_slot_def assert_that_def)
  let ?w = "upd_ofile ?i ?k (\<lambda>f. f\<lparr>f_open_count := f_open_count f + 1\<rparr>) v"
  have acq: "fd_array_acquire ?i ?k v = Some ?w" using at fs(4) by (simp add: fd_array_acquire_def reading_slot_def assert_that_def)
  have vs: "vsfs ?w = vsfs v" by (simp add: upd_ofile_def upd_files_def)
  let ?iob = "\<lparr>io_mem = overwrite buf 0 (map (file_byte (vsfs v) (din sn)) [q..<q + n]), io_base = n, io_offset = int (q + n),
      io_len = len, io_resid = len - n\<rparr>"
  have io: "vop_read nd (iobuf_init buf len (int q)) ?w = Some (0, ?iob, ?w)"
    by (rule vop_read_section [of _ _ nn]) (use nn sfs_read_section [OF rf len n] vs in simp_all)
  have used: "iobuf_used ?iob = n" using n by (simp add: iobuf_used_def)
  let ?x = "upd_ofile ?i ?k (\<lambda>f. f\<lparr>f_pos := f_pos f + int n\<rparr>) ?w"
  have "fd_array_release ?i ?k ?x = Some (upd_ofile ?i ?k (\<lambda>f. f\<lparr>f_open_count := f_open_count f - 1\<rparr>) ?x)"
    using at fs(4) by (simp add: fd_array_release_def ofile_at_upd reading_slot_def assert_that_def)
  moreover have "upd_ofile ?i ?k (\<lambda>f. f\<lparr>f_open_count := f_open_count f - 1\<rparr>) ?x = set_pos fd (q + n) v"
    unfolding upd_ofile_fuse set_pos_def using fs(4) by (intro upd_ofile_cong [OF at]) (simp add: reading_slot_def)
  ultimately show "file_read fd buf len v
      = Some (0, n, overwrite buf 0 (map (file_byte (vsfs v) (din sn)) [q..<q + n]), set_pos fd (q + n) v)"
    using fd acq io used fs(4) at by (simp add: file_read_def file_io_def reading_slot_def ofile_at_upd)
  show "reading (set_pos fd (q + n) v) fd nd sn (q + n)"
    using fs nn rf n
    by (simp add: reading_def set_pos_def upd_ofile_def upd_files_def cur_fs_def reading_slot_def)
qed

subsection \<open>One round of \<open>sysfile_read\<close>\<close>

definition has_filesp :: "usys \<Rightarrow> bool" where
  "has_filesp u \<longleftrightarrow> p_filesp (proc_of (kern u) (cur (kern u))) = Some (cur_files (fsys u))"

lemma reading_files: "reading (fsys u) fd nd sn q \<Longrightarrow> has_filesp u \<Longrightarrow> has_files u"
  by (auto simp: reading_def has_filesp_def has_files_def)

lemma kept_same_space: "same_space u u' \<Longrightarrow> vm_inv (vm (kern u)) (cur_mm u) vs \<Longrightarrow> kept vs u u'"
  using keptI(2) [of "vm (kern u)" u u' vs] by (simp add: set_vm_def)

abbreviation section_of :: "usys \<Rightarrow> sfs_inode \<Rightarrow> nat \<Rightarrow> nat \<Rightarrow> u8 list" where
  "section_of u sn q n \<equiv> map (file_byte (vsfs (fsys u)) (din sn)) [q..<q + n]"

lemma read_round_section:
  assumes r: "reading (fsys u) fd nd sn q" "has_filesp u" and k: "uregion u (unat (kva p)) (unat (kva p) + IOBUF_SIZE)"
    and vm: "vm_inv (vm (kern u)) (cur_mm u) vs" and len: "0 < alen" "alen \<le> word_of_nat IOBUF_SIZE"
    and n: "n = min (unat alen) (unat (din_size (din sn)) - q)"
  shows "\<exists>u'. read_round u fd p alen = Some (0, word_of_nat n, u') \<and> fsys u' = set_pos fd (q + n) (fsys u)
    \<and> kept vs u u' \<and> stored u' (unat (kva p)) (section_of u sn q n)
    \<and> (\<forall>x. uapart u (unat (kva p)) (unat (kva p) + IOBUF_SIZE) x \<longrightarrow> ubyte u' x = ubyte u x)"
proof -
  have al: "0 < unat alen" "unat alen \<le> 4096" using len by (simp_all add: word_less_nat_alt word_le_nat_alt)
  obtain buf where buf: "uload u (kva p) IOBUF_SIZE = Some buf" "length buf = IOBUF_SIZE" by (rule uload_region [OF k]) auto
  let ?buf = "overwrite buf 0 (section_of u sn q n)" and ?v = "set_pos fd (q + n) (fsys u)"
  have "file_read fd buf (unat alen) (fsys u) = Some (0, n, ?buf, ?v)"
    by (rule file_read_section(1) [OF r(1) al(1) _ _ n]) (use al(2) buf(2) in simp_all)
  then have run: "read_round u fd p alen = do { u' \<leftarrow> ustore (u\<lparr>fsys := ?v\<rparr>) (kva p) ?buf; Some (0, word_of_nat n, u') }"
    using buf(1) by (simp add: read_round_def with_files_run [OF reading_files [OF r]])
  have nl: "n \<le> 4096" and lb: "length ?buf = 4096" using n al(2) buf(2) by auto
  obtain u' where u': "ustore (u\<lparr>fsys := ?v\<rparr>) (kva p) ?buf = Some u'" "same_space (u\<lparr>fsys := ?v\<rparr>) u'"
      "stored u' (unat (kva p)) ?buf" "\<forall>x. uapart u (unat (kva p)) (unat (kva p) + IOBUF_SIZE) x \<longrightarrow> ubyte u' x = ubyte u x"
    using ustore_spec [of "u\<lparr>fsys := ?v\<rparr>" "unat (kva p)" "unat (kva p) + IOBUF_SIZE" "kva p" ?buf] k lb by auto
  have "kept vs (u\<lparr>fsys := ?v\<rparr>) u'" by (rule kept_same_space [OF u'(2)]) (use vm in \<open>simp add: cur_mm_def\<close>)
  then have "kept vs u u'" by (simp add: kept_def)
  moreover have "stored u' (unat (kva p)) (section_of u sn q n)"
    using u'(3) nl buf(2) by (auto simp: stored_def nth_overwrite)
  moreover have "fsys u' = ?v" using u'(2) by (simp add: same_space_def)
  ultimately show ?thesis using run u'(1,4) by auto
qed

subsection \<open>The loop\<close>

lemma accessible_sub:
  assumes "accessible s vs lo a b wr" "lo \<le> lo'" "a \<le> a'" "b' \<le> b"
  shows "accessible s vs lo' a' b' wr"
proof -
  have "permits s lo wr v \<Longrightarrow> permits s lo' wr v" for v using assms(2) by (auto simp: permits_def max_def split: if_splits)
  then show ?thesis using assms by (meson accessible_def order_trans less_le_trans)
qed

text \<open>The program may write the bytes from \<open>a\<close> on.\<close>

definition may_write :: "usys \<Rightarrow> nat list \<Rightarrow> u64 \<Rightarrow> u64 \<Rightarrow> bool" where
  "may_write u vs a len \<longleftrightarrow> len = 0 \<or> USER_ACCESS a (a + len) \<and> accessible (vm (kern u)) vs a a (a + len) True"

lemma may_write_top:
  assumes "may_write u vs a len" "m \<le> len" "m \<noteq> 0"
  shows "unat (a + m) = unat a + unat m" "USER_ACCESS a (a + m)" "accessible (vm (kern u)) vs a a (a + m) True"
    "may_write u vs (a + m) (len - m)"
proof -
  have len: "len \<noteq> 0" "a < a + len" "a + len \<le> USERTOP" "USERBASE \<le> a" and acc: "accessible (vm (kern u)) vs a a (a + len) True"
    using assms by (auto simp: may_write_def USER_ACCESS_def)
  then have l: "unat a + unat len < 2 ^ 64" using no_olen_add_nat [of a len] order_less_imp_le [of a "a + len"] by simp
  have al: "unat (a + len) = unat a + unat len" using unat_add_u64 [of a len] l by simp
  have m: "0 < unat m" "unat m \<le> unat len" using assms(2,3) by (simp_all add: word_le_nat_alt unat_gt_0)
  show am: "unat (a + m) = unat a + unat m" using unat_add_u64 [of a m] l m by simp
  have le: "a < a + m" "a + m \<le> a + len" using al am m by (simp_all add: word_le_nat_alt word_less_nat_alt)
  then show "USER_ACCESS a (a + m)" "accessible (vm (kern u)) vs a a (a + m) True"
    using len accessible_sub [OF acc order_refl order_refl] order_trans [of "a + m" "a + len" USERTOP] by (auto simp: USER_ACCESS_def)
  show "may_write u vs (a + m) (len - m)"
  proof (cases "m = len")
    case False
    then have "a + m < a + len" using le(2) by (metis add_left_cancel order_le_less)
    then show ?thesis using len le accessible_sub [OF acc, of "a + m" "a + m" "a + len"]
      by (auto simp: may_write_def USER_ACCESS_def)
  qed (simp add: may_write_def)
qed

lemma may_write_cong: "vmas (vm (kern u')) = vmas (vm (kern u)) \<Longrightarrow> may_write u' = may_write u"
  using accessible_cong [of "vm (kern u')" "vm (kern u)"] by (simp add: may_write_def fun_eq_iff)

lemma set_pos_simps [simp]:
  "set_pos fd a (set_pos fd b v) = set_pos fd a v" "vsfs (set_pos fd a v) = vsfs v" "cur_files (set_pos fd a v) = cur_files v"
  by (simp_all add: set_pos_def upd_ofile_fuse) (simp_all add: upd_ofile_def upd_files_def)

lemma set_pos_same: "reading v fd nd sn q \<Longrightarrow> set_pos fd q v = v"
proof -
  assume r: "reading v fd nd sn q"
  then obtain fs where fs: "fstructs v (cur_files v) = Some fs" "nat fd < length (fd_array fs)" "f_pos (fd_array fs ! nat fd) = int q"
    by (auto simp: reading_def reading_slot_def cur_fs_def)
  have "(fd_array fs ! nat fd)\<lparr>f_pos := int q\<rparr> = fd_array fs ! nat fd" by (simp flip: fs(3))
  then have "fs\<lparr>fd_array := (fd_array fs)[nat fd := (fd_array fs ! nat fd)\<lparr>f_pos := int q\<rparr>]\<rparr> = fs" by simp
  then show ?thesis using fs(1) by (simp add: set_pos_def upd_ofile_def upd_files_def fun_upd_idem)
qed

lemma uapart_sub: "uapart u a b x \<Longrightarrow> a \<le> a' \<Longrightarrow> b' \<le> b \<Longrightarrow> uapart u a' b' x"
  by (auto simp: uapart_def kapart_def)

lemma stored_append: "stored u a (xs @ ys) \<longleftrightarrow> stored u a xs \<and> stored u (a + length xs) ys"
proof
  assume l: "stored u a (xs @ ys)"
  have "ubyte u (a + length xs + i) = Some (ys ! i)" if "i < length ys" for i
    using l [unfolded stored_def, rule_format, of "length xs + i"] that by (simp add: add.assoc)
  moreover have "ubyte u (a + i) = Some (xs ! i)" if "i < length xs" for i
    using l [unfolded stored_def, rule_format, of i] that by (simp add: nth_append)
  ultimately show "stored u a xs \<and> stored u (a + length xs) ys" by (simp add: stored_def)
next
  assume r: "stored u a xs \<and> stored u (a + length xs) ys"
  have "ubyte u (a + i) = Some ((xs @ ys) ! i)" if "i < length xs + length ys" for i
  proof (cases "i < length xs")
    case False
    then show ?thesis using conjunct2 [OF r, unfolded stored_def, rule_format, of "i - length xs"] that by (simp add: nth_append)
  qed (use r in \<open>simp add: stored_def nth_append\<close>)
  then show "stored u a (xs @ ys)" by (simp add: stored_def)
qed

text \<open>The kernel buffer \<open>kb\<close> and the buffer of the program do not overlap.\<close>

definition buffers :: "usys \<Rightarrow> nat \<Rightarrow> nat \<Rightarrow> nat \<Rightarrow> bool" where
  "buffers u kb lo hi \<longleftrightarrow> uregion u kb (kb + IOBUF_SIZE) \<and> uregion u lo hi
     \<and> (\<forall>x \<in> {kb..<kb + IOBUF_SIZE}. uapart u lo hi x) \<and> (\<forall>x \<in> {lo..<hi}. uapart u kb (kb + IOBUF_SIZE) x)"

lemma buffers_cong: "kept vs u u' \<Longrightarrow> buffers u' = buffers u"
  by (simp add: kept_def buffers_def fun_eq_iff)

lemma buffers_sub: "buffers u kb lo hi \<Longrightarrow> lo \<le> lo' \<Longrightarrow> buffers u kb lo' hi"
  using uregion_sub [of u lo hi lo'] uapart_sub [of u lo hi _ lo' hi] by (auto simp: buffers_def)

text \<open>One round and the copy to the program.\<close>

lemma read_copy_section:
  assumes r: "reading (fsys u) fd nd sn q" "has_filesp u" and b: "buffers u (unat (kva p)) (unat base) (unat base + unat len)"
    and vm: "vm_inv (vm (kern u)) (cur_mm u) vs" and w: "may_write u vs base len"
    and len: "0 < alen" "alen \<le> word_of_nat IOBUF_SIZE" "alen \<le> len"
    and n: "n = min (unat alen) (unat (din_size (din sn)) - q)" "n \<noteq> 0"
  shows "\<exists>u1 u2. read_round u fd p alen = Some (0, word_of_nat n, u1) \<and> to_user u1 base (kva p) (word_of_nat n) = Some (True, u2)
    \<and> fsys u2 = set_pos fd (q + n) (fsys u) \<and> kept vs u u2 \<and> stored u2 (unat base) (section_of u sn q n)
    \<and> (\<forall>x. uapart u (unat (kva p)) (unat (kva p) + IOBUF_SIZE) x \<longrightarrow> uapart u (unat base) (unat base + n) x
         \<longrightarrow> ubyte u2 x = ubyte u x)"
proof -
  let ?m = "word_of_nat n :: u64" and ?k = "unat (kva p)" and ?sec = "section_of u sn q n"
  have al: "unat alen \<le> 4096" "unat alen \<le> unat len" using len by (simp_all add: word_le_nat_alt)
  then have nl: "n \<le> 4096" "n \<le> unat len" using n(1) by simp_all
  have m: "unat ?m = n" using nl(1) by (simp add: unat_of_nat take_bit_eq_mod)
  have mn: "?m \<noteq> 0" "?m \<le> len" using m n(2) nl(2) by (auto simp: word_le_nat_alt)
  obtain u1 where u1: "read_round u fd p alen = Some (0, ?m, u1)" "fsys u1 = set_pos fd (q + n) (fsys u)" "kept vs u u1"
      "stored u1 ?k ?sec" "\<forall>x. uapart u ?k (?k + IOBUF_SIZE) x \<longrightarrow> ubyte u1 x = ubyte u x"
    using read_round_section [OF r _ vm len(1,2) n(1), of p] b unfolding buffers_def by blast
  note keep = u1(3) [unfolded kept_def]
  have wr: "USER_ACCESS base (base + ?m) \<and> accessible (vm (kern u1)) vs base base (base + ?m) True"
    using may_write_top [of u1 vs base len ?m] w mn may_write_cong [of u1 u] keep by simp
  have sec: "uload u1 (kva p) n = Some ?sec" using u1(4) uload_eq [of u1 "kva p" ?sec] by simp
  have ub: "uregion u1 (unat base) (unat base + n)"
    using b nl(2) keep by (auto simp: buffers_def uregion_def region_def intro: inj_on_subset)
  have ap: "uapart u1 (unat base) (unat base + n) (?k + i)" if "i < n" for i
  proof -
    have "uapart u (unat base) (unat base + unat len) (?k + i)" using b nl(1) that by (simp add: buffers_def)
    then show ?thesis using uapart_sub [of u "unat base" "unat base + unat len"] nl(2) keep by simp
  qed
  obtain u2 where u2: "to_user u1 base (kva p) ?m = Some (True, u2)" "fsys u2 = fsys u1" "kept vs u1 u2"
      "stored u2 (unat base) ?sec" "\<forall>x. uapart u1 (unat base) (unat base + n) x \<longrightarrow> ubyte u2 x = ubyte u1 x"
    using to_user_spec [where u = u1 and vs = vs and ok = True and dst = base and len = ?m and bs = ?sec and src = "kva p"]
      keep wr sec ub ap unfolding m by auto
  have "uapart u1 = uapart u" using keep by simp
  then show ?thesis using u1 u2 kept_trans [OF u1(3) u2(3)] by auto
qed

abbreviation (input) round_len :: "u64 \<Rightarrow> u64" where
  "round_len len \<equiv> if word_of_nat IOBUF_SIZE > len then len else word_of_nat IOBUF_SIZE"

lemma read_loop_step:
  assumes "len \<noteq> 0" "read_round u fd p (round_len len) = Some (0, m, u1)"
  shows "m = 0 \<Longrightarrow> read_loop u fd p base len copied 0 = Some (0, copied, u1)"
    "m \<noteq> 0 \<Longrightarrow> m \<le> len \<Longrightarrow> to_user u1 base (kva p) m = Some (True, u2) \<Longrightarrow>
     read_loop u fd p base len copied 0 = read_loop u2 fd p (base + m) (len - m) (copied + m) 0"
  using assms by (simp_all add: read_loop.simps [of u] assert_that_def Let_def split del: if_split)

lemma read_loop_section:
  assumes "reading (fsys u) fd nd sn q" "has_filesp u" "buffers u (unat (kva p)) (unat base) (unat base + unat len)"
    and "vm_inv (vm (kern u)) (cur_mm u) vs" "may_write u vs base len"
    and "n = min (unat len) (unat (din_size (din sn)) - q)"
  shows "\<exists>u'. read_loop u fd p base len copied 0 = Some (0, copied + word_of_nat n, u')
    \<and> fsys u' = set_pos fd (q + n) (fsys u) \<and> kept vs u u' \<and> stored u' (unat base) (section_of u sn q n)
    \<and> (\<forall>x. uapart u (unat (kva p)) (unat (kva p) + IOBUF_SIZE) x \<longrightarrow> uapart u (unat base) (unat base + n) x
         \<longrightarrow> ubyte u' x = ubyte u x)"
  using assms
proof (induction "unat len" arbitrary: u base len copied q n rule: less_induct)
  case less
  note r = less.prems(1,2) and b = less.prems(3) and vm = less.prems(4) and w = less.prems(5) and n = less.prems(6)
  have kept: "kept vs u u" using vm by (auto simp: kept_def intro!: exI [of _ "phys (km (kern u))"])
  show ?case
  proof (cases "len = 0")
    case True
    then show ?thesis using n kept set_pos_same [OF r(1)] by (simp add: read_loop.simps [of u] stored_def)
  next
    case False
    define alen :: u64 where "alen = round_len len"
    have al: "0 < alen" "alen \<le> word_of_nat IOBUF_SIZE" "alen \<le> len" using False by (auto simp: alen_def word_gt_0)
    define n1 where "n1 = min (unat alen) (unat (din_size (din sn)) - q)"
    show ?thesis
    proof (cases "n1 = 0")
      case True
      have "0 < unat alen" using al(1) by (simp add: word_less_nat_alt)
      then have n0: "n = 0" using True n by (simp add: n1_def)
      obtain u1 where u1: "read_round u fd p alen = Some (0, word_of_nat n1, u1)" "fsys u1 = set_pos fd (q + n1) (fsys u)" "kept vs u u1"
          "\<forall>x. uapart u (unat (kva p)) (unat (kva p) + IOBUF_SIZE) x \<longrightarrow> ubyte u1 x = ubyte u x"
        using read_round_section [OF r _ vm al(1,2) n1_def, of p] b unfolding buffers_def by blast
      then have "read_loop u fd p base len copied 0 = Some (0, copied, u1)"
        using read_loop_step(1) [OF False, of u fd p 0 u1] True by (simp add: alen_def split del: if_split)
      then show ?thesis using u1 True n0 by (simp add: stored_def)
    next
      case n1: False
      let ?m = "word_of_nat n1 :: u64"
      obtain u1 u2 where u: "read_round u fd p alen = Some (0, ?m, u1)" "to_user u1 base (kva p) ?m = Some (True, u2)"
          "fsys u2 = set_pos fd (q + n1) (fsys u)" "kept vs u u2" "stored u2 (unat base) (section_of u sn q n1)"
          "\<forall>x. uapart u (unat (kva p)) (unat (kva p) + IOBUF_SIZE) x \<longrightarrow> uapart u (unat base) (unat base + n1) x
             \<longrightarrow> ubyte u2 x = ubyte u x"
        using read_copy_section [OF r b vm w al n1_def n1] by blast
      have al': "unat alen \<le> 4096" "unat alen \<le> unat len" using al by (simp_all add: word_le_nat_alt)
      have nl: "n1 \<le> 4096" "n1 \<le> unat len" using al' by (simp_all add: n1_def)
      have m: "unat ?m = n1" using nl(1) by (simp add: unat_of_nat take_bit_eq_mod)
      have ml: "?m \<noteq> 0" "?m \<le> len" using m n1 nl(2) by (auto simp: word_le_nat_alt)
      have run: "read_loop u fd p base len copied 0 = read_loop u2 fd p (base + ?m) (len - ?m) (copied + ?m) 0"
        by (rule read_loop_step(2) [OF False u(1) [unfolded alen_def] ml u(2)])
      have lm: "unat (len - ?m) = unat len - n1" using ml(2) m by (simp add: unat_sub)
      have bm: "unat (base + ?m) = unat base + n1" using may_write_top(1) [OF w ml(2,1)] m by simp
      note keep = u(4) [unfolded kept_def]
      define n2 where "n2 = min (unat (len - ?m)) (unat (din_size (din sn)) - (q + n1))"
      have n12: "n = n1 + n2" using n n1_def al'(2) nl unfolding n2_def lm by linarith
      have r2: "reading (fsys u2) fd nd sn (q + n1)"
        using file_read_section(2) [OF r(1), of "unat alen" "replicate (unat alen) 0" n1] al(1) al'(1) u(3)
        by (simp add: n1_def word_less_nat_alt)
      have b2: "buffers u2 (unat (kva p)) (unat (base + ?m)) (unat (base + ?m) + unat (len - ?m))"
        using buffers_sub [OF b, of "unat base + n1"] nl(2) buffers_cong [OF u(4)] by (simp add: bm lm)
      have f2: "has_filesp u2" "cur_mm u2 = cur_mm u" using r(2) u(3) keep by (simp_all add: has_filesp_def cur_mm_def proc_of_def cur_def)
      have w2: "may_write u2 vs (base + ?m) (len - ?m)"
        using may_write_top(4) [OF w ml(2,1)] may_write_cong [of u2 u] keep by simp
      have lt: "unat (len - ?m) < unat len" using lm n1 nl(2) by simp
      have v2: "vm_inv (vm (kern u2)) (cur_mm u2) vs" using keep by simp
      obtain u' where u': "read_loop u2 fd p (base + ?m) (len - ?m) (copied + ?m) 0 = Some (0, copied + ?m + word_of_nat n2, u')"
          "fsys u' = set_pos fd (q + n1 + n2) (fsys u2)" "kept vs u2 u'" "stored u' (unat (base + ?m)) (section_of u2 sn (q + n1) n2)"
          "\<forall>x. uapart u2 (unat (kva p)) (unat (kva p) + IOBUF_SIZE) x \<longrightarrow> uapart u2 (unat (base + ?m)) (unat (base + ?m) + n2) x
             \<longrightarrow> ubyte u' x = ubyte u2 x"
        using less.hyps [OF lt r2 f2(1) b2 v2 w2 n2_def, of "copied + ?m"] by blast
      have sec: "section_of u2 sn (q + n1) n2 = section_of u sn (q + n1) n2" using u(3) by simp
      have ap: "uapart u2 = uapart u" using keep by simp
      have "stored u' (unat base) (section_of u sn q n1)"
      proof (rule stored_kept [OF u(5)])
        fix x assume x: "unat base \<le> x" "x < unat base + length (section_of u sn q n1)"
        have "uapart u (unat base + n1) (unat base + n1 + n2) x"
          by (rule uapart_region [of u "unat base" "unat base + unat len"]) (use b x nl(2) n12 n in \<open>auto simp: buffers_def\<close>)
        moreover have "uapart u (unat (kva p)) (unat (kva p) + IOBUF_SIZE) x" using b x nl(2) by (auto simp: buffers_def)
        ultimately show "ubyte u' x = ubyte u2 x" using u'(5) ap bm by simp
      qed
      moreover have "section_of u sn q n = section_of u sn q n1 @ section_of u sn (q + n1) n2"
        using upt_add_eq_append [of q "q + n1" n2] by (simp add: n12 add.assoc)
      ultimately have st: "stored u' (unat base) (section_of u sn q n)" using u'(4) bm sec by (simp add: stored_append)
      have "ubyte u' x = ubyte u x"
        if "uapart u (unat (kva p)) (unat (kva p) + IOBUF_SIZE) x" "uapart u (unat base) (unat base + n) x" for x
      proof -
        have "ubyte u' x = ubyte u2 x" using u'(5) that uapart_sub [OF that(2), of "unat base + n1" "unat base + n1 + n2"] ap bm n12 by simp
        also have "\<dots> = ubyte u x" using u(6) that uapart_sub [OF that(2), of "unat base" "unat base + n1"] n12 by simp
        finally show ?thesis .
      qed
      then show ?thesis
        using run u'(1,2) u(3) st kept_trans [OF u(4) u'(3)] by (simp add: n12 add.assoc)
    qed
  qed
qed

subsection \<open>The kernel buffer\<close>

text \<open>
  The physical memory of the machine: it ends at \<open>0x88000000\<close>, and the free pages lie behind the start of the kernel at
  \<open>0x80200000\<close>, so that the direct map reaches them.
\<close>

definition kernel_memory :: "kmem \<Rightarrow> bool" where
  "kernel_memory k \<longleftrightarrow> npage k \<le> 0x88000 \<and> (\<forall>q \<in> free_set (area k). 0x80200 \<le> q + nbase)"

lemma kva_page:
  assumes "0x80200 \<le> f" "f < 0x88000"
  shows "unat (kva (256 * f)) = 0xFFFFFFFF40000000 + 4096 * f"
proof -
  have "unat (push_bit 4 (word_of_nat (256 * f)) :: u64) = 4096 * f"
    using assms by (simp add: push_bit_eq_mult unat_word_ariths unat_of_nat take_bit_eq_mod)
  then show ?thesis using assms by (simp add: kva_def va_pa_offset_def unat_word_ariths)
qed

lemma PPN_div: "PPN a = unat a div 4096"
  by (simp only: PPN_def unat_drop_bit_eq) (simp add: drop_bit_eq_div)

lemma translate_kva:
  assumes f: "0x80200 \<le> f" "f < 0x88000" "f < npage k" and j: "j < 4096"
  shows "translate k r (word_of_nat (unat (kva (256 * f)) + j)) = Some (f, j)"
proof -
  let ?x = "0xFFFFFFFF40000000 + 4096 * f + j" and ?a = "word_of_nat (unat (kva (256 * f)) + j) :: u64"
  have ua: "unat ?a = ?x"
    unfolding kva_page [OF f(1,2)] using f j by (simp add: unat_of_nat take_bit_nat_eq_self del: of_nat_add of_nat_mult)
  have ge: "?a \<ge> KERNBASE" using f(1) unfolding word_le_nat_alt ua by (simp add: KERNBASE_def)
  have "va_pa_offset \<le> ?a" unfolding word_le_nat_alt ua by (simp add: va_pa_offset_def)
  then have "unat (?a - va_pa_offset) = 4096 * f + j" using ua by (simp add: unat_sub va_pa_offset_def del: of_nat_add)
  moreover have "(4096 * f + j) div 4096 = f" using j by simp
  ultimately have "PPN (?a - va_pa_offset) = f" by (simp only: PPN_div)
  moreover have "?x = j + 4096 * (f + 0xFFFFFFFF40000)" by simp
  then have "?x mod 4096 = j" using j by (metis mod_mult_self2 mod_less)
  ultimately show ?thesis using ge f(3) by (simp add: translate_def Let_def unat_page_offset ua del: of_nat_add)
qed

text \<open>The buffer that \<open>kmalloc\<close> provides is a page of its own: no address of the program reaches it.\<close>

lemma kernel_buffer:
  assumes "pt_tree (km (kern u)) (cur_pgdir u)" "kernel_memory (km (kern u))" "slob_inv (heap (vm (kern u))) A L"
    and "kalloc u 4096 = Some (p, u1)" "p \<noteq> 0"
  shows "page_object (heap (vm (kern u1))) A L (p div 256)" "p = 256 * (p div 256)"
    and "translate (km (kern u1)) (cur_pgdir u1) = translate (km (kern u)) (cur_pgdir u)"
      "is_table (km (kern u1)) (cur_pgdir u1) = is_table (km (kern u)) (cur_pgdir u)" "ubyte u1 = ubyte u"
    and "uregion u1 (unat (kva p)) (unat (kva p) + 4096)"
    and "a < unat KERNBASE \<Longrightarrow> uapart u1 (unat (kva p)) (unat (kva p) + 4096) a"
    and "\<exists>h. u1 = u\<lparr>kern := set_heap h (kern u)\<rparr>"
proof -
  let ?k = "km (kern u)" and ?r = "cur_pgdir u"
  obtain h where h: "kmalloc (heap (vm (kern u))) 4096 = Some (p, h)" "u1 = u\<lparr>kern := set_heap h (kern u)\<rparr>"
    using assms(4) by (auto simp: kalloc_def bind_eq_Some_conv)
  obtain f where f: "p = 256 * f" "page_object h A L f" "\<not> frame_ok ?k f" "pages_taken ?k (kmem h)"
    using kmalloc_page [OF assms(3) h(1) assms(5)] by blast
  have k1: "km (kern u1) = kmem h" and r1: "cur_pgdir u1 = ?r"
    by (simp_all add: h(2) set_heap_def cur_pgdir_def proc_of_def cur_def)
  show "page_object (heap (vm (kern u1))) A L (p div 256)" "p = 256 * (p div 256)" using f(1,2) by (simp_all add: h(2) set_heap_def)
  have "phys (kmem h) = phys ?k" "npage (kmem h) = npage ?k" using f(4) by (simp_all add: pages_taken_def)
  note same = same_tables [OF this]
  show tr: "translate (km (kern u1)) (cur_pgdir u1) = translate ?k ?r" and tb: "is_table (km (kern u1)) (cur_pgdir u1) = is_table ?k ?r"
    and "ubyte u1 = ubyte u" by (simp_all add: k1 r1 same ubyte_def fun_eq_iff)
  have "frame_ok (kmem h) f" using f(2) by (simp add: page_object_def)
  then have fr: "f < npage ?k" "f - nbase \<in> free_set (area ?k)" "nbase \<le> f"
    using f(3,4) by (auto simp: frame_ok_def pages_taken_def)
  then have "0x80200 \<le> f" "f < 0x88000" using assms(2) by (auto simp: kernel_memory_def)
  note kv = translate_kva [OF this fr(1), of _ ?r] kva_page [OF this]
  have tk: "translate ?k ?r (word_of_nat x) = Some (f, x - unat (kva p))" if x: "x \<in> {unat (kva p)..<unat (kva p) + 4096}" for x
  proof -
    obtain d where d: "x = unat (kva p) + d" using x le_Suc_ex [of "unat (kva p)" x] by auto
    then have "d < 4096" using x by simp
    then show ?thesis using kv(1) [of d] by (simp add: d f(1) del: of_nat_add)
  qed
  have "\<not> is_table ?k ?r f" using table_frame_ok [OF assms(1)] f(3) by blast
  moreover have "inj_on (\<lambda>x. translate ?k ?r (word_of_nat x)) {unat (kva p)..<unat (kva p) + 4096}"
    by (rule inj_onI) (use tk in \<open>auto simp del: of_nat_diff\<close>)
  moreover have "unat (kva p) + 4096 < 2 ^ 64" using kv(2) \<open>f < 0x88000\<close> by (simp add: f(1))
  ultimately show "uregion u1 (unat (kva p)) (unat (kva p) + 4096)" using tk by (auto simp: uregion_def region_def tr tb)
  show "uapart u1 (unat (kva p)) (unat (kva p) + 4096) a" if "a < unat KERNBASE"
  proof -
    have "(word_of_nat a :: u64) < KERNBASE" using that by (simp add: word_less_nat_alt unat_of_nat take_bit_eq_mod KERNBASE_def)
    then have "translate ?k ?r (word_of_nat a) \<noteq> Some (f, i)" for i using mapped_frame_ok [OF assms(1)] f(3) by blast
    then show ?thesis using tk by (auto simp: uapart_def kapart_def tr simp del: of_nat_diff)
  qed
  show "\<exists>h. u1 = u\<lparr>kern := set_heap h (kern u)\<rparr>" using h(2) by blast
qed

subsection \<open>\<open>sysfile_read\<close>\<close>

lemma testfd_reading: "reading (fsys u) fd nd sn q \<Longrightarrow> has_filesp u \<Longrightarrow> testfd_user u fd True False = Some True"
proof -
  assume r: "reading (fsys u) fd nd sn q" "has_filesp u"
  then have "file_testfd fd True False (fsys u) = Some True"
    by (auto simp: reading_def reading_slot_def file_testfd_def fd2file_def testfd_def get_fd_array_def ofile_at_def cur_fs_def
        assert_that_def)
  then show ?thesis by (simp add: testfd_user_def with_files_run [OF reading_files [OF r]])
qed


subsection \<open>A concrete state\<close>

text \<open>
  Process 1 has the page \<open>0x802000\<close> in the frame \<open>nbase + 0x213\<close>, behind the tables in the three frames before; the frames
  \<open>nbase + 0x300\<close> and \<open>nbase + 0x302\<close> are free, the kernel heap has a free block in the frame \<open>nbase + 0x220\<close>. Descriptor 0 is
  open on a file of 100 bytes, at position 90.
\<close>

definition read_area :: free_area where
  "read_area = \<lparr>pages = (\<lambda>p. \<lparr>pg_ref = 0, pg_flags = (if p = 0x300 \<or> p = 0x302 then 2 else 0), pg_property = 1\<rparr>),
     flinks = \<lparr>lprev = (\<lambda>n. n)(PageLink 0x300 := FreeHead, PageLink 0x302 := PageLink 0x300, FreeHead := PageLink 0x302),
               lnext = (\<lambda>n. n)(FreeHead := PageLink 0x300, PageLink 0x300 := PageLink 0x302, PageLink 0x302 := FreeHead)\<rparr>,
     nr_free = 2\<rparr>"

definition read_kmem :: kmem where
  "read_kmem = \<lparr>area = read_area,
     phys = (\<lambda>f i. if f = nbase + 0x210 \<and> i = 0 then pte_create (nbase + 0x211) PTE_U
                    else if f = nbase + 0x211 \<and> i = 4 then pte_create (nbase + 0x212) PTE_U
                    else if f = nbase + 0x212 \<and> i = 2 then pte_create (nbase + 0x213) PTE_U
                    else if f = nbase + 0x210 \<and> i = 511 then boot_entry else 0),
     npage = nbase + 0x400\<rparr>"

definition read_heap :: slob where
  "read_heap = \<lparr>units = (\<lambda>u. if u = 9 then 1 else 100), snext = (\<lambda>u. if u = 9 then 256 * (nbase + 0x220) else 9), slobfree = 9,
     bb_order = (\<lambda>_. 0), bb_pages = (\<lambda>_. 0), bb_next = (\<lambda>_. 0), bigblocks = 0, kmem = read_kmem\<rparr>"

definition read_slot :: ofile where
  "read_slot = \<lparr>f_status = FD_OPENED, f_readable = True, f_writable = False, f_fd = 0, f_pos = 90, f_node = Some 10, f_open_count = 1\<rparr>"

definition read_files :: vstate where
  "read_files = sample_open\<lparr>vsfs := sample_fs,
     inodes := [10 \<mapsto> \<lparr>in_info = Sfs_info sample_file, ref_count = 1, open_count = 1, in_fs = True, in_ops = Fileops\<rparr>],
     fstructs := [0 \<mapsto> \<lparr>pwd = None, fd_array = replicate 72 read_slot, files_count = 1, files_sem = 1\<rparr>], cur_files := 0\<rparr>"

definition read_usys :: usys where
  "read_usys = \<lparr>kern = (pupd 1 (\<lambda>q. q\<lparr>p_pgdir := push_bit 12 (word_of_nat (nbase + 0x210)), p_mm := Some 7, p_filesp := Some 0\<rparr>)
       sample_ksys)\<lparr>vm := sample_vmm\<lparr>heap := read_heap\<rparr>\<rparr>, fsys = read_files\<rparr>"

lemma read_area_ok: "blocks read_area [(0x300, 1), (0x302, 1)]" "ff_inv read_area" "free_set read_area = {0x300, 0x302}"
proof -
  have pg: "PageProperty (pages read_area p) \<longleftrightarrow> p = 0x300 \<or> p = 0x302" "\<not> PageReserved (pages read_area p)" for p
    by (simp_all add: read_area_def PageProperty_def PageReserved_def PG_property_def PG_reserved_def bit_iff_odd)
  show b: "blocks read_area [(0x300, 1), (0x302, 1)]"
    by (rule blocksI) (auto simp: pg, auto simp: read_area_def dlist_def)
  have "spaced True [(0x300, 1), (0x302, 1 :: nat)]" by simp
  then show "ff_inv read_area" unfolding ff_inv_def using b by blast
  show "free_set read_area = {0x300, 0x302}" unfolding blocks_free_set [OF b] by auto
qed

lemma read_kmem_tbl:
  "tbl read_kmem (nbase + 0x210) xs = map_of [([], nbase + 0x210), ([0], nbase + 0x211), ([0, 4], nbase + 0x212), ([0, 4, 2], nbase + 0x213)] xs"
proof -
  have e: "entry_ppn (pte_create (nbase + k) PTE_U) = nbase + k" if "k < 0x400" for k
    using that by (intro entry_ppn_create) (simp_all add: nbase_def PTE_U_def)
  have ph: "phys read_kmem f i = (if f = nbase + 0x210 \<and> i = 0 then pte_create (nbase + 0x211) PTE_U
      else if f = nbase + 0x211 \<and> i = 4 then pte_create (nbase + 0x212) PTE_U
      else if f = nbase + 0x212 \<and> i = 2 then pte_create (nbase + 0x213) PTE_U
                    else if f = nbase + 0x210 \<and> i = 511 then boot_entry else 0)" for f i
    by (simp add: read_kmem_def)
  have z: "walk read_kmem (nbase + 0x213) ys = (if ys = [] then Some (nbase + 0x213) else None)" for ys
    by (cases ys) (simp_all add: ph)
  have y: "walk read_kmem (nbase + 0x212) ys = map_of [([], nbase + 0x212), ([2], nbase + 0x213)] ys" for ys
    using z by (cases ys) (auto simp: ph e)
  have x: "walk read_kmem (nbase + 0x211) ys = map_of [([], nbase + 0x211), ([4], nbase + 0x212), ([4, 2], nbase + 0x213)] ys" for ys
    using y by (cases ys) (auto simp: ph e)
  show ?thesis using x by (cases xs) (auto simp: ph e tbl_def)
qed

lemma read_usys_sel:
  "heap (vm (kern read_usys)) = read_heap" "cur_pgdir read_usys = nbase + 0x210" "cur_mm read_usys = 7" "fsys read_usys = read_files"
  "vm (kern read_usys) = sample_vmm\<lparr>heap := read_heap\<rparr>" "has_filesp read_usys"
  by (simp_all add: read_usys_def cur_pgdir_def cur_mm_def proc_of_def cur_def pupd_def sample_ksys_def sample_sched_def PPN_def nbase_def
      has_filesp_def read_files_def)

lemma read_memory_ok: "pt_tree read_kmem (nbase + 0x210)" "kernel_memory read_kmem" "slob_inv read_heap 9 {}"
proof -
  have fr: "free_set (area read_kmem) = {0x300, 0x302}" "ff_inv (area read_kmem)" using read_area_ok by (simp_all add: read_kmem_def)
  show "pt_tree read_kmem (nbase + 0x210)"
    unfolding pt_tree_def read_kmem_tbl using fr by (auto simp: frame_ok_def read_kmem_def split: if_splits)
  show "kernel_memory read_kmem" using fr by (simp add: kernel_memory_def) (simp add: read_kmem_def nbase_def)
  have km: "km_ok read_kmem" using fr by (auto simp: km_ok_def read_kmem_def nbase_def)
  let ?b = "256 * (nbase + 0x220)"
  have "frame_ok read_kmem (u div 256)" if "u \<in> cover [(?b, 100)]" for u
  proof -
    have "u div 256 = nbase + 0x220" using that by (intro div_nat_eqI) (auto simp: cover_def)
    then show ?thesis using fr by (simp add: frame_ok_def) (simp add: read_kmem_def)
  qed
  moreover have "10 < ?b" by (simp add: nbase_def)
  moreover from this have "ring read_heap 9 [(?b, 100)]" by (simp add: ring_def read_heap_def)
  ultimately have "heap_ok read_heap 9 [(?b, 100)] {}" using km by (simp add: heap_ok_def) (simp add: read_heap_def nbase_def)
  then show "slob_inv read_heap 9 {}" by (auto simp: slob_inv_def)
qed

lemma read_kalloc: "\<exists>p u1. kalloc read_usys IOBUF_SIZE = Some (p, u1) \<and> p \<noteq> 0"
proof -
  let ?b = "256 * (nbase + 0x220)"
  have b: "slob_alloc read_heap bigblock_size = Some (?b, slob_take read_heap 9 ?b 2)"
    by (simp add: slob_alloc_def SLOB_UNIT_def SLOB_PAGE_SIZE_def SLOB_UNITS_def bigblock_size_def)
      (subst slob_alloc_loop.simps, simp add: read_heap_def nbase_def)
  have a: "alloc_page read_kmem = Some (Some 0x300, read_kmem\<lparr>area := take_block read_area 0x300 1\<rparr>)"
    using default_alloc_spec [OF read_area_ok(1), of 1]
    by (simp add: alloc_page_def alloc_pages_def init_pmm_manager_def default_pmm_manager_def read_kmem_def)
  have k: "page2kva (read_kmem\<lparr>area := take_block read_area 0x300 1\<rparr>) 0x300 = Some (page2ppn 0x300)"
    unfolding page2kva_def by (intro KADDR_page2pa64) (simp_all add: page2ppn_def read_kmem_def nbase_def)
  have km: "kmem (slob_take read_heap 9 ?b 2) = read_kmem" by (simp add: read_heap_def)
  have o0: "find_order 4096 = 0" by (simp add: find_order.simps)
  have "\<exists>h. kmalloc read_heap 4096 = Some (256 * (nbase + 0x300), h)"
    using b a k km by (simp add: kmalloc_def SLOB_PAGE_SIZE_def SLOB_UNIT_def o0 Let_def get_free_page_eq nbase_def page2ppn_def)
  then show ?thesis by (auto simp: kalloc_def read_usys_sel nbase_def)
qed

lemma read_page:
  assumes "x \<in> {0x802000..<0x803000}"
  shows "translate read_kmem (nbase + 0x210) (word_of_nat x) = Some (nbase + 0x213, x - 0x802000)"
proof -
  let ?a = "word_of_nat x :: u64"
  have u: "unat ?a = x" using assms by (simp add: unat_of_nat take_bit_eq_mod)
  have div: "x div 4096 = 0x802" "x div 2097152 = 4" "x div 1073741824 = 0" using assms by auto
  have d: "drop_bit 12 ?a = 0x802" "drop_bit 21 ?a = 4" "drop_bit 30 ?a = 0"
    using div by (simp_all add: word_unat_eq_iff unat_drop_bit_eq u drop_bit_eq_div unat_div)
  have "\<not> ?a \<ge> KERNBASE" using assms by (simp add: word_le_nat_alt u KERNBASE_def)
  moreover have "unat (?a AND 0xFFF) = x - 0x802000" using minus_mult_div_eq_mod [of x 4096] div(1) unfolding unat_page_offset u by simp
  moreover have "leaf read_kmem (nbase + 0x210) ?a = pte_create (nbase + 0x213) PTE_U"
    using read_kmem_tbl [of "[0, 4]"] by (simp add: leaf_def PDX1_def PDX0_def PTX_def d read_kmem_def)
  moreover have "entry_ppn (pte_create (nbase + 0x213) PTE_U) = nbase + 0x213"
    by (intro entry_ppn_create) (simp_all add: nbase_def PTE_U_def)
  ultimately show ?thesis by (simp add: translate_def Let_def)
qed

lemma read_user_buffer: "uregion read_usys 0x802000 (0x802000 + 20)" "may_write read_usys [sample_vma] 0x802000 20"
proof -
  have tr: "translate read_kmem (nbase + 0x210) (word_of_nat x) = Some (nbase + 0x213, x - 0x802000)" if "x \<in> {0x802000..<0x802014}" for x
    using read_page [of x] that by simp
  have "\<not> is_table read_kmem (nbase + 0x210) (nbase + 0x213)"
    by (auto simp: is_table_def read_kmem_tbl split: if_splits)
  moreover have "inj_on (\<lambda>x. translate read_kmem (nbase + 0x210) (word_of_nat x)) {0x802000..<0x802014}"
    by (rule inj_onI) (use tr in \<open>auto simp del: of_nat_diff\<close>)
  ultimately show "uregion read_usys 0x802000 (0x802000 + 20)"
    using tr by (simp add: uregion_def region_def read_usys_sel) (simp add: read_heap_def)
  have "permits sample_vmm 0x802000 True sample_vma" by (simp add: permits_def sample_vmm_def VM_WRITE_def VM_STACK_def)
  moreover have "holds sample_vmm a sample_vma" if "0x802000 \<le> a" "a < 0x802014" for a
    using that order_less_trans [OF that(2), of "0x805000"] by (simp add: holds_def sample_vmm_def)
  ultimately have "accessible sample_vmm [sample_vma] 0x802000 0x802000 0x802014 True" by (simp add: accessible_def)
  then have "accessible (sample_vmm\<lparr>heap := read_heap\<rparr>) [sample_vma] 0x802000 0x802000 0x802014 True"
    using accessible_cong [of "sample_vmm\<lparr>heap := read_heap\<rparr>" sample_vmm] by simp
  then show "may_write read_usys [sample_vma] 0x802000 20"
    by (simp add: may_write_def read_usys_sel USER_ACCESS_def USERBASE_def USERTOP_def)
qed

lemma read_ready: "reading (fsys read_usys) 0 10 sample_file 90"
proof -
  have "cur_fs read_files = Some \<lparr>pwd = None, fd_array = replicate 72 read_slot, files_count = 1, files_sem = 1\<rparr>"
    "inodes read_files 10 = Some \<lparr>in_info = Sfs_info sample_file, ref_count = 1, open_count = 1, in_fs = True, in_ops = Fileops\<rparr>"
    "vsfs read_files = sample_fs"
    by (simp_all add: read_files_def cur_fs_def)
  moreover have "reading_slot 0 10 90 read_slot" by (simp add: reading_slot_def read_slot_def)
  moreover have "readable_file sample_fs sample_file"
    using sample_fs_ok sample_map_ok by (simp add: readable_file_def sample_file_def sample_din_def)
  moreover have "unat (din_size (din sample_file)) = 100" by (simp add: sample_file_def sample_din_def)
  ultimately show ?thesis by (simp add: reading_def read_usys_sel reading_node_def inode_check_def assert_that_def)
qed


end
