(* ===== verification/Spec2Isabelle.thy ===== *)
theory Spec2Isabelle
  imports Timers BestFit Buddy Printf Philosophers OpenFiles UserRead
begin

text \<open>
  A verification library for the uCore operating system of \<open>labcode\<close>, in its last stage \<open>labcode/lab8\<close>;
  the page allocators that only \<open>labcode/lab2\<close> has are modelled from there.

  \<^bold>\<open>Parts of the program and their theories.\<close>

  \<^item> \<open>libs/list.h\<close> (LinkedList): circular doubly linked lists as two pointer functions; \<open>dlist h hdr xs\<close>
    relates a header to the sequence of its nodes. Every list of the kernel is an instance: a datatype per
    list names its header and the \<open>list_entry_t\<close> members, so that \<open>le2proc\<close>, \<open>le2page\<close> and the like are
    the removal of a constructor.
  \<^item> \<open>libs/skew_heap.h\<close> (SkewHeap): the run pool of the stride scheduler. \<open>libs/string.c\<close> (CString) and
    \<open>libs/printfmt.c\<close> (Printf): byte memory, string functions, formatted output.
  \<^item> \<open>kern/mm/pmm.h\<close> and the page allocators \<open>default_pmm.c\<close> (PageAlloc, FirstFit), \<open>best_fit_pmm.c\<close>
    (BestFit) and \<open>buddy_system_pmm.c\<close> (Buddy). The locale \<open>pmm\<close> is the contract of \<open>struct pmm_manager\<close>;
    each allocator interprets it, and \<open>pmm_exact\<close> is its extension for allocators that hand out exactly
    what is asked for.
  \<^item> \<open>kern/mm/pmm.c\<close> (PageTable): physical memory as frames of 512 entries, \<open>get_pte\<close>, insertion and removal
    of pages, unmapping, copying; the three-level tables are related to a map from addresses to entries. Since a
    directory is a copy of the one of the kernel, which maps all memory, tables and free pages included, the
    invariant \<open>pt_tree\<close> is about the part below \<open>USERTOP\<close> (root indices 0 and 1), and the entries above it
    (\<open>kernel_part\<close>) are kept; the sample directories have such an entry.
  \<^item> \<open>kern/mm/kmalloc.c\<close> (Kmalloc): the SLOB heap on top of the pages; the locale \<open>object_heap\<close> is what its
    clients rely on, with the memory that is free before and after each call. \<open>kern/mm/vmm.c\<close> (Vmm): address spaces as sorted lists of areas, and the checks of
    addresses that come from user programs.
  \<^item> \<open>kern/process/proc.h\<close> and \<open>kern/schedule\<close> (ProcData, Sched, RRSched, StrideSched, Timers): the locale
    \<open>sched_policy\<close> is the contract of \<open>struct sched_class\<close>, interpreted by the round-robin and the stride
    policy; the scheduler core, \<open>wakeup_proc\<close>, \<open>schedule\<close> and the timer list are proved against it.
  \<^item> \<open>kern/sync\<close> (Sync, Philosophers): wait queues, semaphores, monitors; semaphores refine abstract ones,
    over which the dining philosophers of \<open>check_sync.c\<close> are a step relation.
  \<^item> \<open>kern/process/proc.c\<close> (Proc, Fork): process identifiers, the hash table, the family tree, kernel stacks and
    address spaces, exit, wait, kill; then, with the open files, \<open>do_fork\<close> and \<open>do_exit\<close>.
  \<^item> The Simple File System: \<open>kern/fs/sfs/bitmap.c\<close> (Bitmap), the block device below it (Disk), block transfers
    and the superblock (Sfs), block maps (SfsBmap), reading, writing and truncation (SfsFile), directories (SfsDir).
    The lemmas show that a file is a sequence of bytes that these operations read and replace, that no block
    belongs to two files, that blocks given up return to the bitmap, and that a block is refused only on a full disk
    (\<open>load_result\<close>).
  \<^item> The virtual file system: the console as a device (Stdin), inodes in memory with their function tables and
    the inode cache (Vnode), mounting and the device table (Vops), path lookup and \<open>vfs_open\<close> (Vfs), open files
    \<open>file.c\<close> and \<open>fs.c\<close> (FileTable). InodeCache, VfsFrame and OpenFiles hold the invariants: one node per block,
    type-correct tables, and open counts equal to the number of descriptors, kept by every operation; on a
    type-correct node the operations of a function table are those of the device or of the Simple FS, unchecked.
  \<^item> The console: \<open>kern/driver/console.c\<close> (Console), \<open>kern/libs/stdio.c\<close> and \<open>readline.c\<close> (Stdio). The firmware is a
    list of characters received and a list of bytes written.
  \<^item> \<open>kern/fs/sysfile.c\<close> (Sysfile): the file system calls. Memory is what the frames of PageTable hold, read and
    written through the page table of the running process; kernel buffers come from the heap of Kmalloc.
    UserMem shows what loads, stores and the checked copies \<open>copy_to_user\<close>, \<open>copy_from_user\<close> do: \<open>uregion\<close> is a mapped
    range outside of the page tables, \<open>uapart\<close> an address that no store to the range reaches, \<open>kept\<close> what a copy
    leaves as it is.
  \<^item> \<open>load_icode\<close> and \<open>do_execve\<close> of \<open>proc.c\<close> (Exec); ExecArgs shows where a new program finds its arguments.
  \<^item> \<open>kern/syscall/syscall.c\<close> (Syscall) and \<open>kern/trap/trap.c\<close> (Trap): the dispatch of system calls, interrupts and
    exceptions over the state \<open>machine\<close>. SysErrors follows a call with a bad descriptor from the trap to the return to
    user mode, UserRead follows the data of a \<open>read\<close> from the blocks of a file through the descriptor and a page of the
    kernel heap to the memory of the program; it rests on the properties of SfsFile, Kmalloc, Vmm and PageTable.

  \<^bold>\<open>Conventions.\<close> State is passed explicitly. A function of the code that can panic, fail an assertion,
  dereference \<open>NULL\<close> or loop forever returns an option, \<open>None\<close> standing for each of these; a theorem that a
  call returns is the statement that the result is \<open>Some\<close>. Error codes are values of \<open>err\<close> (theory
  Prelude). Loops are structural recursion, or \<open>partial_function (option)\<close> when they follow pointers; no
  fuel is used. Machine integers are words (\<open>u8\<close>, \<open>u32\<close>, \<open>u64\<close>) where their width matters and \<open>int\<close> or \<open>nat\<close>
  where the values are counters far from the limits. Interrupts are disabled in the scheduler, the
  semaphores and the timers, so each of their operations is one atomic step; an operation that sleeps is
  divided at its call of \<open>schedule\<close>.

  \<^bold>\<open>Not modelled.\<close> The registers of the clock, the device tree, the trap entry and the context switch in assembly
  (hardware), the boot of the kernel and its kernel threads (\<open>kern_init\<close>, \<open>proc_init\<close>, \<open>kernel_thread\<close>,
  \<open>kernel_execve\<close>, \<open>init_main\<close>), the self-tests \<open>check_*\<close> apart from the philosophers, the debugger monitor and the user
  programs. The earlier labs hold earlier versions of the same files, and the page allocator \<open>slub_pmm.c\<close> of
  \<open>labcode/lab2\<close>; only \<open>best_fit_pmm.c\<close> and \<open>buddy_system_pmm.c\<close> are taken from there.
  In the file system the locks are values of the state, one flow of control is followed (a read of the console
  that would wait does not return), the addresses of inodes come from a supply \<open>node_pool\<close> and the number of
  further objects \<open>heap_left\<close>; \<open>ioctl\<close> and the creation of the device inodes at boot are left out.
  Local variables on the kernel stack whose address is passed on are at an address that is a parameter. A process that
  sleeps in a system call is resumed by a definition of its own (\<open>wait_again\<close>, \<open>sleep_again\<close>); a page fault in the
  kernel, which the handler repeats forever, is \<open>None\<close>.
  The value of a semaphore is an \<open>int\<close> without the limit of the field in C, and in \<open>file_open\<close> the branch for an error
  of \<open>vop_fstat\<close> is left out, since no function table has an \<open>fstat\<close> that returns one.
  The semaphore \<open>mm_sem\<close> that serialises changes of an address space and the
  field \<open>pra_vaddr\<close> of a page are left out.
\<close>

end
